(* ===== verification/Prelude.thy ===== *)
theory Prelude
  imports Main "HOL-Library.AList" "HOL-Library.Char_ord" "HOL-Library.List_Lexorder" "HOL-Library.Word"
begin

text \<open>
  Shared vocabulary of the development: the Go types every component uses (byte strings,
  instants, durations, 64-bit wrap-around), errors as values, the loops that stop at the
  first error, and the generic facts on lists and maps the component proofs rest on.

  Go's \<^verbatim>\<open>string\<close> and \<^verbatim>\<open>[]byte\<close> are both byte sequences; a HOL \<^typ>\<open>char\<close> is a byte, so
  both are \<^typ>\<open>string\<close>, compared lexicographically by byte (\<^verbatim>\<open>bytes.Compare\<close>,
  \<^verbatim>\<open>strings.Compare\<close>) through the library's linear order on character lists. A
  \<^verbatim>\<open>time.Time\<close> is the number of nanoseconds since the zero time, which is 0.
\<close>

type_synonym bytes = string
type_synonym gotime = int
type_synonym duration = int

text \<open>
  Errors. Every error class a source file of the repository tells apart by
  \<^verbatim>\<open>errors.Is\<close> or \<^verbatim>\<open>errors.As\<close> is a constructor; an error that is only reported is
  \<open>ErrMsg\<close> with a tag that says which return statement made it.
\<close>

datatype goerr =
    ErrMsg string
  | ErrInvalid string
  | ErrCtx
  | ErrNotExist
  | ErrIO string
  | MissingError string
  | ClosureError string int
  | ErrBatchFull
  | ErrIncomingFull
  | ErrArtifactsOnV1
  | ErrIncompleteAck
  | ErrPendingChanged
  | ErrSourceRegressed
  | ErrSupersede
  | ErrIncomplete
  | ErrSuperseded
  | ErrPaused string
  | GoPanic string

type_synonym 'a res = "goerr + 'a"

definition is_ok :: "'a res \<Rightarrow> bool" where
  "is_ok r \<longleftrightarrow> (case r of Inl _ \<Rightarrow> False | Inr _ \<Rightarrow> True)"

lemma is_ok_simps [simp]: "is_ok (Inr x)" "\<not> is_ok (Inl e)"
  by (simp_all add: is_ok_def)

lemma is_ok_iff: "is_ok r \<longleftrightarrow> (\<exists>x. r = Inr x)"
  by (cases r) auto

text \<open>\<open>require b e\<close> is the guard \<^verbatim>\<open>if !b { return e }\<close>; \<open>andthen\<close> runs the next check
  only when the previous one passed.\<close>

definition require :: "bool \<Rightarrow> goerr \<Rightarrow> unit res" where
  "require b e = (if b then Inr () else Inl e)"

definition andthen :: "'a res \<Rightarrow> ('a \<Rightarrow> 'b res) \<Rightarrow> 'b res" where
  "andthen r k = (case r of Inl e \<Rightarrow> Inl e | Inr x \<Rightarrow> k x)"

lemma andthen_simps [simp]: "andthen (Inl e) k = Inl e" "andthen (Inr x) k = k x"
  by (simp_all add: andthen_def)

lemma andthen_Inr_iff: "andthen r k = Inr y \<longleftrightarrow> (\<exists>x. r = Inr x \<and> k x = Inr y)"
  by (cases r) auto

lemma require_Inr_iff [simp]: "require b e = Inr u \<longleftrightarrow> b"
  by (simp add: require_def)

lemma require_Inl_iff: "require b e = Inl e' \<longleftrightarrow> \<not> b \<and> e' = e"
  by (auto simp: require_def)

lemma require_True [simp]: "require True e = Inr ()" and require_False [simp]: "require False e = Inl e"
  by (simp_all add: require_def)

text \<open>A loop whose body may return an error: the first error ends it.\<close>

fun each :: "('a \<Rightarrow> unit res) \<Rightarrow> 'a list \<Rightarrow> unit res" where
  "each f [] = Inr ()"
| "each f (x # xs) = andthen (f x) (\<lambda>_. each f xs)"

lemma each_Inr_iff: "each f xs = Inr u \<longleftrightarrow> (\<forall>x \<in> set xs. f x = Inr ())"
  by (induction xs) (auto simp: andthen_Inr_iff)

text \<open>Two's complement wrap-around of Go's \<^verbatim>\<open>int64\<close> and of \<^verbatim>\<open>uint64\<close>.\<close>

definition wrap64 :: "int \<Rightarrow> int" where
  "wrap64 x = (x + 2 ^ 63) mod 2 ^ 64 - 2 ^ 63"

lemma wrap64_id: "- (2 ^ 63) \<le> x \<Longrightarrow> x < 2 ^ 63 \<Longrightarrow> wrap64 x = x"
  by (simp add: wrap64_def)

lemma wrap64_bounds: "- (2 ^ 63) \<le> wrap64 x" "wrap64 x < 2 ^ 63"
proof -
  have "(x + 2 ^ 63) mod 2 ^ 64 < 2 ^ 64" by (rule pos_mod_bound) simp
  then show "wrap64 x < 2 ^ 63" by (simp add: wrap64_def)
  show "- (2 ^ 63) \<le> wrap64 x" by (simp add: wrap64_def)
qed

type_synonym u64 = "64 word"


text \<open>\<^verbatim>\<open>slices.Chunk\<close>: pieces of \<open>n\<close> elements, the last one shorter.\<close>

function chunk_list :: "nat \<Rightarrow> 'a list \<Rightarrow> 'a list list" where
  "chunk_list n xs = (if n = 0 \<or> xs = [] then [] else take n xs # chunk_list n (drop n xs))"
  by pat_completeness auto
termination
  by (relation "measure (\<lambda>(n, xs). length xs)") auto

declare chunk_list.simps [simp del]

lemma concat_chunk_list: "0 < n \<Longrightarrow> concat (chunk_list n xs) = xs"
  by (induction n xs rule: chunk_list.induct) (subst chunk_list.simps, simp)

lemma chunk_list_bounds: "ys \<in> set (chunk_list n xs) \<Longrightarrow> ys \<noteq> [] \<and> length ys \<le> n"
  by (induction n xs rule: chunk_list.induct) (subst (asm) chunk_list.simps, auto split: if_splits)

lemma length_chunk_list: "0 < n \<Longrightarrow> length (chunk_list n xs) = (length xs + n - 1) div n"
proof (induction n xs rule: chunk_list.induct)
  case (1 n xs)
  show ?case
  proof (cases "xs = []")
    case True
    with 1 show ?thesis by (subst chunk_list.simps) simp
  next
    case False
    have step: "(k + n) div n = Suc (k div n)" for k using 1(2) by (simp add: div_add_self2)
    have "Suc ((length xs - n + n - 1) div n) = (length xs + n - 1) div n"
    proof (cases "n \<le> length xs")
      case True
      then have e: "length xs + n - 1 = (length xs - n + n - 1) + n" using 1(2) by simp
      show ?thesis unfolding e step ..
    next
      case small: False
      with False have e: "length xs + n - 1 = (length xs - 1) + n" by (cases xs) auto
      have "length xs - n + n - 1 < n" "length xs - 1 < n" using small 1(2) by auto
      then show ?thesis unfolding e step by simp
    qed
    with 1 False show ?thesis by (subst chunk_list.simps) simp
  qed
qed

text \<open>
  A directory is an association list from file names to contents; creating, replacing and
  removing a file are the library's update and delete.
\<close>

type_synonym 'a dir = "(string \<times> 'a) list"

lemmas dir_simps [simp] = AList.update_conv' AList.delete_conv'

end
