(* ===== verification/Go_Text.thy ===== *)
theory Go_Text
  imports Prelude
begin

text \<open>
  The parts of Go's \<^verbatim>\<open>strconv\<close> and \<^verbatim>\<open>encoding/hex\<close> the repository formats and parses
  numbers and digests with: decimal and lower-case hexadecimal text, with their round trips.
\<close>

definition digit_char :: "nat \<Rightarrow> char" where
  "digit_char n = char_of (48 + n)"

definition is_digit :: "char \<Rightarrow> bool" where
  "is_digit c \<longleftrightarrow> 48 \<le> (of_char c :: nat) \<and> (of_char c :: nat) \<le> 57"

definition digit_val :: "char \<Rightarrow> nat" where
  "digit_val c = of_char c - 48"

text \<open>\<^verbatim>\<open>strconv.FormatUint(n, 10)\<close> and \<^verbatim>\<open>strconv.FormatInt(z, 10)\<close>.\<close>

fun dec_nat :: "nat \<Rightarrow> string" where
  "dec_nat n = (if n < 10 then [digit_char n] else dec_nat (n div 10) @ [digit_char (n mod 10)])"

declare dec_nat.simps [simp del]

definition dec_int :: "int \<Rightarrow> string" where
  "dec_int z = (if z < 0 then CHR ''-'' # dec_nat (nat (- z)) else dec_nat (nat z))"

definition digits_val :: "string \<Rightarrow> nat" where
  "digits_val s = foldl (\<lambda>a c. a * 10 + digit_val c) 0 s"

text \<open>\<^verbatim>\<open>strconv.ParseUint(s, 10, 64)\<close>.\<close>

definition parse_uint64 :: "string \<Rightarrow> nat res" where
  "parse_uint64 s =
     (if s = [] \<or> \<not> list_all is_digit s then Inl (ErrMsg ''strconv: invalid syntax'')
      else if digits_val s \<ge> 2 ^ 64 then Inl (ErrMsg ''strconv: value out of range'')
      else Inr (digits_val s))"

text \<open>\<^verbatim>\<open>strconv.ParseInt(s, 10, 64)\<close> on the number literals JSON carries.\<close>

definition parse_int64 :: "string \<Rightarrow> int option" where
  "parse_int64 s =
     (let neg = (s \<noteq> [] \<and> hd s = CHR ''-''); ds = (if neg then tl s else s) in
      if ds = [] \<or> \<not> list_all is_digit ds then None
      else let v = (if neg then - int (digits_val ds) else int (digits_val ds)) in
        if - (2 ^ 63) \<le> v \<and> v < 2 ^ 63 then Some v else None)"

text \<open>\<^verbatim>\<open>hex.EncodeToString\<close> and \<^verbatim>\<open>hex.DecodeString\<close>.\<close>

definition hex_digit :: "nat \<Rightarrow> char" where
  "hex_digit n = (if n < 10 then char_of (48 + n) else char_of (87 + n))"

definition hex_val :: "char \<Rightarrow> nat option" where
  "hex_val c = (let n = of_char c :: nat in
     if 48 \<le> n \<and> n \<le> 57 then Some (n - 48)
     else if 97 \<le> n \<and> n \<le> 102 then Some (n - 87)
     else if 65 \<le> n \<and> n \<le> 70 then Some (n - 55) else None)"

fun hex_encode :: "bytes \<Rightarrow> string" where
  "hex_encode [] = []"
| "hex_encode (c # cs) =
     hex_digit ((of_char c :: nat) div 16) # hex_digit ((of_char c :: nat) mod 16) # hex_encode cs"

fun hex_decode :: "string \<Rightarrow> bytes option" where
  "hex_decode [] = Some []"
| "hex_decode [_] = None"
| "hex_decode (a # b # cs) =
     (case (hex_val a, hex_val b) of
        (Some x, Some y) \<Rightarrow> map_option ((#) (char_of (16 * x + y))) (hex_decode cs)
      | _ \<Rightarrow> None)"

definition is_lower_hex :: "char \<Rightarrow> bool" where
  "is_lower_hex c \<longleftrightarrow> (let n = of_char c :: nat in (48 \<le> n \<and> n \<le> 57) \<or> (97 \<le> n \<and> n \<le> 102))"

subsection \<open>Decimal text\<close>

lemma of_char_less [simp]: "(of_char c :: nat) < 256"
  using nat_of_char_less_256 by simp

lemma of_char_of [simp]: "n < 256 \<Longrightarrow> (of_char (char_of n :: char) :: nat) = n"
  by simp

lemma digit_char_digit [simp]: "n < 10 \<Longrightarrow> is_digit (digit_char n)"
  by (simp add: is_digit_def digit_char_def)

lemma digit_val_char [simp]: "n < 10 \<Longrightarrow> digit_val (digit_char n) = n"
  by (simp add: digit_val_def digit_char_def)

lemma digit_char_val [simp]: "is_digit c \<Longrightarrow> digit_char (digit_val c) = c"
  by (simp add: digit_val_def digit_char_def is_digit_def)

lemma digit_val_less [simp]: "is_digit c \<Longrightarrow> digit_val c < 10"
  unfolding digit_val_def is_digit_def by linarith

lemma zero_digit [simp]: "is_digit (CHR ''0'')" "digit_val (CHR ''0'') = 0"
  by (simp_all add: is_digit_def digit_val_def)

lemma digit_char_0 [simp]: "digit_char 0 = CHR ''0''"
  using digit_char_val [of "CHR ''0''"] by simp

lemma digit_val_0_iff: "is_digit c \<Longrightarrow> digit_val c = 0 \<longleftrightarrow> c = CHR ''0''"
  by (metis digit_char_0 digit_char_val zero_digit(2))

lemma digits_val_snoc [simp]: "digits_val (s @ [c]) = digits_val s * 10 + digit_val c"
  by (simp add: digits_val_def)

lemma digits_val_Nil [simp]: "digits_val [] = 0"
  by (simp add: digits_val_def)

lemma digits_val_one [simp]: "digits_val [c] = digit_val c"
  by (simp add: digits_val_def)

lemma dec_nat_digits: "list_all is_digit (dec_nat n)"
  by (induction n rule: dec_nat.induct) (subst dec_nat.simps, simp)

lemma dec_nat_nonempty [simp]: "dec_nat n \<noteq> []"
  by (subst dec_nat.simps) simp

lemma digits_val_dec_nat [simp]: "digits_val (dec_nat n) = n"
proof (induction n rule: dec_nat.induct)
  case (1 n)
  then show ?case by (subst dec_nat.simps) auto
qed

lemma dec_nat_hd: "n \<noteq> 0 \<Longrightarrow> hd (dec_nat n) \<noteq> CHR ''0''"
proof (induction n rule: dec_nat.induct)
  case (1 n)
  show ?case
  proof (cases "n < 10")
    case True
    then have "digit_char n \<noteq> CHR ''0''"
      using "1.prems" by (metis digit_val_char zero_digit(2))
    with True show ?thesis by (subst dec_nat.simps) auto
  next
    case False
    with 1 show ?thesis by (subst dec_nat.simps) simp
  qed
qed

lemma dec_nat_0: "dec_nat 0 = ''0''"
  by (subst dec_nat.simps) simp

text \<open>A canonical numeral: digits with no leading zero, except the single zero.\<close>

definition canonical_dec :: "string \<Rightarrow> bool" where
  "canonical_dec s \<longleftrightarrow> s \<noteq> [] \<and> list_all is_digit s \<and> (length s > 1 \<longrightarrow> hd s \<noteq> CHR ''0'')"

lemma canonical_dec_nat: "canonical_dec (dec_nat n)"
  by (cases "n = 0") (auto simp: canonical_dec_def dec_nat_digits dec_nat_hd dec_nat_0)

lemma digits_val_pos:
  assumes "list_all is_digit s" "s \<noteq> []" "hd s \<noteq> CHR ''0''"
  shows "0 < digits_val s"
  using assms
proof (induction s rule: rev_induct)
  case Nil
  then show ?case by simp
next
  case (snoc c s)
  show ?case
  proof (cases s)
    case Nil
    with snoc.prems have "digit_val c \<noteq> 0" by (simp add: digit_val_0_iff)
    with Nil show ?thesis by simp
  next
    case (Cons a as)
    with snoc have "0 < digits_val s" by simp
    then show ?thesis by simp
  qed
qed

lemma dec_nat_digits_val:
  assumes "canonical_dec s"
  shows "dec_nat (digits_val s) = s"
  using assms
proof (induction s rule: rev_induct)
  case Nil
  then show ?case by (simp add: canonical_dec_def)
next
  case (snoc c s)
  then have c: "is_digit c" by (simp add: canonical_dec_def)
  show ?case
  proof (cases "s = []")
    case True
    with c show ?thesis by (subst dec_nat.simps) simp
  next
    case False
    with snoc.prems have s: "canonical_dec s" "hd s \<noteq> CHR ''0''"
      by (auto simp: canonical_dec_def)
    then have "0 < digits_val s" using digits_val_pos by (auto simp: canonical_dec_def)
    with c snoc.IH [OF s(1)] show ?thesis
      by (subst dec_nat.simps) (auto simp: not_less)
  qed
qed

lemma parse_uint64_dec: "n < 2 ^ 64 \<Longrightarrow> parse_uint64 (dec_nat n) = Inr n"
  by (simp add: parse_uint64_def dec_nat_digits)

lemma parse_uint64_Inr:
  "parse_uint64 s = Inr n \<Longrightarrow> s \<noteq> [] \<and> list_all is_digit s \<and> digits_val s = n \<and> n < 2 ^ 64"
  by (auto simp: parse_uint64_def split: if_splits)

lemma dec_nat_not_minus: "dec_nat n = c # cs \<Longrightarrow> c \<noteq> CHR ''-''"
  using dec_nat_digits [of n] by (auto simp: is_digit_def)

lemma parse_int64_dec:
  assumes "- (2 ^ 63) \<le> z" "z < 2 ^ 63"
  shows "parse_int64 (dec_int z) = Some z"
proof -
  have "hd (dec_nat n) \<noteq> CHR ''-''" for n
    using dec_nat_not_minus [of n] by (cases "dec_nat n") auto
  with assms show ?thesis
    by (auto simp: parse_int64_def dec_int_def dec_nat_digits Let_def)
qed

subsection \<open>Hexadecimal text\<close>

lemma of_char_div16 [simp]: "(of_char c :: nat) div 16 < 16"
  using of_char_less [of c] by linarith

lemma hex_val_digit [simp]: "n < 16 \<Longrightarrow> hex_val (hex_digit n) = Some n"
  by (auto simp: hex_val_def hex_digit_def Let_def)

lemma hex_decode_encode [simp]: "hex_decode (hex_encode b) = Some b"
  by (induction b) simp_all

lemma length_hex_encode [simp]: "length (hex_encode b) = 2 * length b"
  by (induction b) simp_all

lemma hex_digit_lower [simp]: "n < 16 \<Longrightarrow> is_lower_hex (hex_digit n)"
  by (auto simp: is_lower_hex_def hex_digit_def Let_def)

lemma hex_encode_lower: "list_all is_lower_hex (hex_encode b)"
  by (induction b) simp_all

end
