(* ===== verification/Go_Json.thy ===== *)
theory Go_Json
  imports Go_Text
begin

text \<open>
  The part of Go's \<^verbatim>\<open>encoding/json\<close> the repository uses: the compact form \<^verbatim>\<open>json.Marshal\<close>
  writes (object keys in the order the struct declares them, HTML-escaped strings) and a
  parser of JSON text, which also answers \<^verbatim>\<open>json.Valid\<close>. A number is kept as its literal, as
  \<^verbatim>\<open>encoding/json\<close> does until it knows the target type. Bytes from 128 up pass through in
  both directions (\<^verbatim>\<open>encoding/json\<close> replaces invalid UTF-8, and escapes U+2028 and U+2029;
  the model is exact on strings free of both).
\<close>

datatype json =
    JNull
  | JBool bool
  | JNum string
  | JStr string
  | JArr "json list"
  | JObj "(string \<times> json) list"

subsection \<open>Writing\<close>

definition esc_char :: "char \<Rightarrow> string" where
  "esc_char c =
     (if c = CHR 0x22 \<or> c = CHR 0x5C then [CHR 0x5C, c]
      else if c = CHR 0x08 then [CHR 0x5C, CHR ''b'']
      else if c = CHR 0x0C then [CHR 0x5C, CHR ''f'']
      else if c = CHR 0x0A then [CHR 0x5C, CHR ''n'']
      else if c = CHR 0x0D then [CHR 0x5C, CHR ''r'']
      else if c = CHR 0x09 then [CHR 0x5C, CHR ''t'']
      else if (of_char c :: nat) < 32 \<or> c \<in> {CHR ''<'', CHR ''>'', CHR ''&''} then
        CHR 0x5C # ''u00'' @ [hex_digit (of_char c div 16), hex_digit (of_char c mod 16)]
      else [c])"

definition esc :: "string \<Rightarrow> string" where
  "esc s = concat (map esc_char s)"

definition quote :: "string \<Rightarrow> string" where
  "quote s = CHR 0x22 # esc s @ [CHR 0x22]"

fun sep_by :: "string \<Rightarrow> string list \<Rightarrow> string" where
  "sep_by d [] = []"
| "sep_by d [x] = x"
| "sep_by d (x # y # xs) = x @ d @ sep_by d (y # xs)"

fun render :: "json \<Rightarrow> string" where
  "render JNull = ''null''"
| "render (JBool b) = (if b then ''true'' else ''false'')"
| "render (JNum s) = s"
| "render (JStr s) = quote s"
| "render (JArr js) = ''['' @ sep_by '','' (map render js) @ '']''"
| "render (JObj kvs) = CHR ''{'' #
     sep_by '','' (map (\<lambda>(k, j). quote k @ '':'' @ render j) kvs) @ ''}''"

subsection \<open>Reading\<close>

definition is_ws :: "char \<Rightarrow> bool" where
  "is_ws c \<longleftrightarrow> c = CHR 0x20 \<or> c = CHR 0x09 \<or> c = CHR 0x0A \<or> c = CHR 0x0D"

definition skip_ws :: "string \<Rightarrow> string" where
  "skip_ws s = dropWhile is_ws s"

text \<open>UTF-8 encoding of a code point.\<close>

definition utf8 :: "nat \<Rightarrow> string" where
  "utf8 n =
     (if n < 128 then [char_of n]
      else if n < 2048 then [char_of (192 + n div 64), char_of (128 + n mod 64)]
      else if n < 65536 then
        [char_of (224 + n div 4096), char_of (128 + n div 64 mod 64), char_of (128 + n mod 64)]
      else [char_of (240 + n div 262144), char_of (128 + n div 4096 mod 64),
            char_of (128 + n div 64 mod 64), char_of (128 + n mod 64)])"

definition hex4 :: "char \<Rightarrow> char \<Rightarrow> char \<Rightarrow> char \<Rightarrow> nat option" where
  "hex4 a b c d =
     (case (hex_val a, hex_val b, hex_val c, hex_val d) of
        (Some w, Some x, Some y, Some v) \<Rightarrow> Some (4096 * w + 256 * x + 16 * y + v)
      | _ \<Rightarrow> None)"

definition unesc :: "char \<Rightarrow> char option" where
  "unesc e =
     (if e = CHR 0x22 \<or> e = CHR 0x5C \<or> e = CHR ''/'' then Some e
      else if e = CHR ''b'' then Some (CHR 0x08)
      else if e = CHR ''f'' then Some (CHR 0x0C)
      else if e = CHR ''n'' then Some (CHR 0x0A)
      else if e = CHR ''r'' then Some (CHR 0x0D)
      else if e = CHR ''t'' then Some (CHR 0x09)
      else None)"

definition prepend :: "string \<Rightarrow> (string \<times> string) option \<Rightarrow> (string \<times> string) option" where
  "prepend p r = map_option (\<lambda>(s, rest). (p @ s, rest)) r"

text \<open>What follows \<^verbatim>\<open>\u\<close>: a surrogate pair decodes to the code point it encodes, a lone
  surrogate to U+FFFD.\<close>

definition low_surrogate :: "string \<Rightarrow> (nat \<times> string) option" where
  "low_surrogate s =
     (case s of
        b # u # l1 # l2 # l3 # l4 # rest \<Rightarrow>
          (case hex4 l1 l2 l3 l4 of
             Some lo \<Rightarrow> if b = CHR 0x5C \<and> u = CHR ''u'' \<and> 0xDC00 \<le> lo \<and> lo < 0xE000
                        then Some (lo, rest) else None
           | None \<Rightarrow> None)
      | _ \<Rightarrow> None)"

definition parse_u :: "string \<Rightarrow> (string \<times> string) option" where
  "parse_u s =
     (case s of
        h1 # h2 # h3 # h4 # rest \<Rightarrow>
          (case hex4 h1 h2 h3 h4 of
             None \<Rightarrow> None
           | Some v \<Rightarrow>
               if 0xD800 \<le> v \<and> v < 0xDC00 then
                 (case low_surrogate rest of
                    Some (lo, rest') \<Rightarrow>
                      Some (utf8 (0x10000 + (v - 0xD800) * 1024 + (lo - 0xDC00)), rest')
                  | None \<Rightarrow> Some (utf8 0xFFFD, rest))
               else if 0xDC00 \<le> v \<and> v < 0xE000 then Some (utf8 0xFFFD, rest)
               else Some (utf8 v, rest))
      | _ \<Rightarrow> None)"

lemma low_surrogate_shorter: "low_surrogate s = Some (v, r) \<Longrightarrow> length r < length s"
  by (auto simp: low_surrogate_def split: list.splits option.splits if_splits)

lemma parse_u_shorter: "parse_u s = Some (x, r) \<Longrightarrow> length r < length s"
  by (auto simp: parse_u_def dest!: low_surrogate_shorter
      split: list.splits option.splits if_splits prod.splits)

text \<open>The rest of a string literal, after its opening quote.\<close>

function parse_str :: "string \<Rightarrow> (string \<times> string) option" where
  "parse_str [] = None"
| "parse_str (c # cs) =
     (if c = CHR 0x22 then Some ([], cs)
      else if (of_char c :: nat) < 32 then None
      else if c = CHR 0x5C then
        (case cs of
           [] \<Rightarrow> None
         | e # es \<Rightarrow>
             if e = CHR ''u'' then
               (case parse_u es of
                  None \<Rightarrow> None
                | Some (x, rest) \<Rightarrow> prepend x (parse_str rest))
             else (case unesc e of None \<Rightarrow> None | Some x \<Rightarrow> prepend [x] (parse_str es)))
      else prepend [c] (parse_str cs))"
  by pat_completeness auto
termination
  by (relation "measure length") (auto dest!: parse_u_shorter)

text \<open>Number literals.\<close>

definition span_digits :: "string \<Rightarrow> string \<times> string" where
  "span_digits s = (takeWhile is_digit s, dropWhile is_digit s)"

definition parse_frac :: "string \<Rightarrow> (string \<times> string) option" where
  "parse_frac s =
     (if s \<noteq> [] \<and> hd s = CHR ''.'' then
        (let (ds, rest) = span_digits (tl s) in
         if ds = [] then None else Some (CHR ''.'' # ds, rest))
      else Some ([], s))"

definition parse_exp :: "string \<Rightarrow> (string \<times> string) option" where
  "parse_exp s =
     (if s \<noteq> [] \<and> (hd s = CHR ''e'' \<or> hd s = CHR ''E'') then
        (let t = tl s;
             sg = (if t \<noteq> [] \<and> (hd t = CHR ''+'' \<or> hd t = CHR ''-'') then [hd t] else []);
             (ds, rest) = span_digits (drop (length sg) t) in
         if ds = [] then None else Some (hd s # sg @ ds, rest))
      else Some ([], s))"

definition span_int :: "string \<Rightarrow> string \<times> string" where
  "span_int t = (if t \<noteq> [] \<and> hd t = CHR ''0'' then (''0'', tl t) else span_digits t)"

definition parse_num :: "string \<Rightarrow> (string \<times> string) option" where
  "parse_num s =
     (let sg = (if s \<noteq> [] \<and> hd s = CHR ''-'' then ''-'' else []);
          t = drop (length sg) s;
          (ds, rest) = span_int t in
      if ds = [] then None
      else (case parse_frac rest of
          None \<Rightarrow> None
        | Some (fr, rest') \<Rightarrow>
            (case parse_exp rest' of
               None \<Rightarrow> None
             | Some (ex, rest'') \<Rightarrow> Some (sg @ ds @ fr @ ex, rest''))))"

definition strip :: "string \<Rightarrow> string \<Rightarrow> string option" where
  "strip p s = (if take (length p) s = p then Some (drop (length p) s) else None)"

text \<open>
  The value parser. Its first argument is fuel: one unit per nested call, of which twice
  the length of the text is enough, because between two calls at least one byte is read.
\<close>

fun parse_value :: "nat \<Rightarrow> string \<Rightarrow> (json \<times> string) option"
and parse_items :: "nat \<Rightarrow> string \<Rightarrow> (json list \<times> string) option"
and parse_members :: "nat \<Rightarrow> string \<Rightarrow> ((string \<times> json) list \<times> string) option" where
  "parse_value 0 s = None"
| "parse_value (Suc n) s =
     (case skip_ws s of
        [] \<Rightarrow> None
      | c # cs \<Rightarrow>
          if c = CHR 0x22 then map_option (\<lambda>(x, rest). (JStr x, rest)) (parse_str cs)
          else if c = CHR ''{'' then
            (case skip_ws cs of
               [] \<Rightarrow> None
             | d # ds \<Rightarrow>
                 if d = CHR ''}'' then Some (JObj [], ds)
                 else map_option (\<lambda>(x, rest). (JObj x, rest)) (parse_members n (d # ds)))
          else if c = CHR ''['' then
            (case skip_ws cs of
               [] \<Rightarrow> None
             | d # ds \<Rightarrow>
                 if d = CHR '']'' then Some (JArr [], ds)
                 else map_option (\<lambda>(x, rest). (JArr x, rest)) (parse_items n (d # ds)))
          else if c = CHR ''t'' then map_option (\<lambda>rest. (JBool True, rest)) (strip ''true'' (c # cs))
          else if c = CHR ''f'' then map_option (\<lambda>rest. (JBool False, rest)) (strip ''false'' (c # cs))
          else if c = CHR ''n'' then map_option (\<lambda>rest. (JNull, rest)) (strip ''null'' (c # cs))
          else map_option (\<lambda>(x, rest). (JNum x, rest)) (parse_num (c # cs)))"
| "parse_items 0 s = None"
| "parse_items (Suc n) s =
     (case parse_value n s of
        None \<Rightarrow> None
      | Some (j, rest) \<Rightarrow>
          (case skip_ws rest of
             [] \<Rightarrow> None
           | d # ds \<Rightarrow>
               if d = CHR '']'' then Some ([j], ds)
               else if d = CHR '','' then map_option (\<lambda>(js, r). (j # js, r)) (parse_items n ds)
               else None))"
| "parse_members 0 s = None"
| "parse_members (Suc n) s =
     (case skip_ws s of
        [] \<Rightarrow> None
      | q # qs \<Rightarrow>
          if q \<noteq> CHR 0x22 then None
          else (case parse_str qs of
              None \<Rightarrow> None
            | Some (k, rest) \<Rightarrow>
                (case skip_ws rest of
                   [] \<Rightarrow> None
                 | d # ds \<Rightarrow>
                     if d \<noteq> CHR '':'' then None
                     else (case parse_value n ds of
                         None \<Rightarrow> None
                       | Some (j, rest') \<Rightarrow>
                           (case skip_ws rest' of
                              [] \<Rightarrow> None
                            | e # es \<Rightarrow>
                                if e = CHR ''}'' then Some ([(k, j)], es)
                                else if e = CHR '','' then
                                  map_option (\<lambda>(kvs, r). ((k, j) # kvs, r)) (parse_members n es)
                                else None)))))"

text \<open>\<^verbatim>\<open>json.Decoder.Decode\<close> reads one value and leaves the rest; \<^verbatim>\<open>json.Valid\<close> and
  \<^verbatim>\<open>json.Unmarshal\<close> want nothing but white space after it.\<close>

definition decode_one :: "string \<Rightarrow> (json \<times> string) option" where
  "decode_one s = parse_value (2 * length s + 2) s"

definition unmarshal :: "string \<Rightarrow> json option" where
  "unmarshal s = (case decode_one s of
     Some (j, rest) \<Rightarrow> if skip_ws rest = [] then Some j else None | None \<Rightarrow> None)"

definition json_valid :: "string \<Rightarrow> bool" where
  "json_valid s \<longleftrightarrow> unmarshal s \<noteq> None"

subsection \<open>Reading back a string\<close>

lemma prepend_Some [simp]: "prepend p (Some (s, r)) = Some (p @ s, r)" "prepend p None = None"
  by (simp_all add: prepend_def)

lemma prependD: "prepend p r = Some (s, t) \<Longrightarrow> \<exists>s'. r = Some (s', t)"
  by (auto simp: prepend_def)

lemma hex4_00 [simp]:
  "n < 256 \<Longrightarrow> hex4 (CHR ''0'') (CHR ''0'') (hex_digit (n div 16)) (hex_digit (n mod 16)) = Some n"
proof -
  assume "n < 256"
  then have "n div 16 < 16" by linarith
  moreover have "hex_val (CHR ''0'') = Some 0" by (simp add: hex_val_def)
  ultimately show ?thesis by (simp add: hex4_def)
qed

definition short_escaped :: "char \<Rightarrow> bool" where
  "short_escaped c \<longleftrightarrow>
     c \<in> {CHR 0x22, CHR 0x5C, CHR 0x08, CHR 0x0C, CHR 0x0A, CHR 0x0D, CHR 0x09}"

definition long_escaped :: "char \<Rightarrow> bool" where
  "long_escaped c \<longleftrightarrow> (of_char c :: nat) < 32 \<or> c \<in> {CHR ''<'', CHR ''>'', CHR ''&''}"

lemma parse_str_short: "short_escaped c \<Longrightarrow> parse_str (esc_char c @ cs) = prepend [c] (parse_str cs)"
  by (auto simp: short_escaped_def esc_char_def unesc_def)

lemma parse_str_long:
  assumes "\<not> short_escaped c" "long_escaped c"
  shows "parse_str (esc_char c @ cs) = prepend [c] (parse_str cs)"
proof -
  have e: "esc_char c =
      CHR 0x5C # ''u00'' @ [hex_digit (of_char c div 16), hex_digit (of_char c mod 16)]"
    using assms by (simp add: esc_char_def short_escaped_def long_escaped_def)
  from assms(2) have l: "(of_char c :: nat) < 128" by (auto simp: long_escaped_def)
  then have x: "utf8 (of_char c) = [c]" by (simp add: utf8_def)
  from l have "parse_u (''00'' @ [hex_digit (of_char c div 16), hex_digit (of_char c mod 16)] @ cs)
      = Some ([c], cs)" by (simp add: parse_u_def x)
  then show ?thesis unfolding e by simp
qed

lemma parse_str_plain:
  assumes "\<not> short_escaped c" "\<not> long_escaped c"
  shows "parse_str (esc_char c @ cs) = prepend [c] (parse_str cs)"
proof -
  have "esc_char c = [c]" using assms by (simp add: esc_char_def short_escaped_def long_escaped_def)
  with assms show ?thesis by (simp add: short_escaped_def long_escaped_def)
qed

lemma parse_str_esc_char: "parse_str (esc_char c @ cs) = prepend [c] (parse_str cs)"
  using parse_str_short parse_str_long parse_str_plain by blast

lemma parse_str_esc [simp]: "parse_str (esc s @ CHR 0x22 # rest) = Some (s, rest)"
  by (induction s) (simp_all add: esc_def parse_str_esc_char)

subsection \<open>Reading back a number\<close>

definition num_end :: "string \<Rightarrow> bool" where
  "num_end rest \<longleftrightarrow>
     rest = [] \<or> (\<not> is_digit (hd rest) \<and> hd rest \<notin> {CHR ''.'', CHR ''e'', CHR ''E''})"

lemma span_digits_dec: "num_end rest \<Longrightarrow> span_digits (dec_nat n @ rest) = (dec_nat n, rest)"
proof -
  assume "num_end rest"
  then have "takeWhile is_digit rest = []" "dropWhile is_digit rest = rest"
    by (cases rest; auto simp: num_end_def)+
  with dec_nat_digits [of n] show ?thesis
    by (simp add: span_digits_def list_all_iff takeWhile_append2 dropWhile_append2)
qed

lemma num_end_tails: "num_end rest \<Longrightarrow> parse_frac rest = Some ([], rest) \<and> parse_exp rest = Some ([], rest)"
  by (auto simp: parse_frac_def parse_exp_def num_end_def)

lemma span_int_dec:
  assumes "num_end rest"
  shows "span_int (dec_nat n @ rest) = (dec_nat n, rest)"
proof (cases "n = 0")
  case True
  then show ?thesis by (simp add: dec_nat_0 span_int_def)
next
  case False
  with assms dec_nat_hd [of n] show ?thesis by (simp add: span_int_def span_digits_dec)
qed

lemma dec_nat_hd_minus [simp]: "hd (dec_nat k) \<noteq> CHR ''-''"
  using dec_nat_not_minus [of k] by (cases "dec_nat k") auto

lemma parse_num_dec: "num_end rest \<Longrightarrow> parse_num (dec_int z @ rest) = Some (dec_int z, rest)"
  using num_end_tails [of rest] by (simp add: parse_num_def dec_int_def Let_def span_int_dec)

subsection \<open>Reading back a value\<close>

text \<open>The values the repository's structs marshal to: numbers are integers.\<close>

fun json_ok :: "json \<Rightarrow> bool" where
  "json_ok (JNum s) = (\<exists>z. s = dec_int z)"
| "json_ok (JArr js) = (\<forall>j \<in> set js. json_ok j)"
| "json_ok (JObj kvs) = (\<forall>kv \<in> set kvs. json_ok (snd kv))"
| "json_ok _ = True"

fun need :: "json \<Rightarrow> nat" where
  "need (JArr js) = Suc (sum_list (map (\<lambda>j. Suc (need j)) js))"
| "need (JObj kvs) = Suc (sum_list (map (\<lambda>kv. Suc (need (snd kv))) kvs))"
| "need _ = 1"

definition starts :: "string \<Rightarrow> bool" where
  "starts s \<longleftrightarrow> s \<noteq> [] \<and> \<not> is_ws (hd s) \<and> hd s \<noteq> CHR '']'' \<and> hd s \<noteq> CHR ''}''"

lemma digit_starts: "is_digit c \<Longrightarrow> \<not> is_ws c \<and>
    c \<notin> {CHR '']'', CHR ''}'', CHR 0x22, CHR ''{'', CHR ''['', CHR ''t'', CHR ''f'', CHR ''n''}"
  by (auto simp: is_ws_def is_digit_def)

lemma dec_int_hd:
  obtains c cs where "dec_int z = c # cs" "\<not> is_ws c"
    "c \<notin> {CHR '']'', CHR ''}'', CHR 0x22, CHR ''{'', CHR ''['', CHR ''t'', CHR ''f'', CHR ''n''}"
proof -
  obtain d ds where d: "dec_nat (nat z) = d # ds" by (cases "dec_nat (nat z)") auto
  with dec_nat_digits [of "nat z"] have "is_digit d" by simp
  with d digit_starts [of d] show thesis
    using that [of d ds] that [of "CHR ''-''" "dec_nat (nat (- z))"]
    by (cases "z < 0"; simp add: dec_int_def is_ws_def)
qed

lemma dec_int_starts: "starts (dec_int z)"
proof -
  obtain c cs where "dec_int z = c # cs" "\<not> is_ws c"
    "c \<notin> {CHR '']'', CHR ''}'', CHR 0x22, CHR ''{'', CHR ''['', CHR ''t'', CHR ''f'', CHR ''n''}"
    by (rule dec_int_hd)
  then show ?thesis by (simp add: starts_def)
qed

lemma render_starts: "json_ok j \<Longrightarrow> starts (render j)"
  by (cases j) (auto simp: dec_int_starts, auto simp: starts_def quote_def is_ws_def)

declare parse_value.simps [simp del] parse_items.simps [simp del] parse_members.simps [simp del]
  parse_str.simps [simp del]

definition reads :: "json \<Rightarrow> bool" where
  "reads j \<longleftrightarrow>
     (\<forall>n rest. need j \<le> n \<longrightarrow> num_end rest \<longrightarrow> parse_value n (render j @ rest) = Some (j, rest))"

lemma num_end_comma: "num_end (CHR '','' # r)" "num_end (CHR '']'' # r)" "num_end (CHR ''}'' # r)"
  by (simp_all add: num_end_def is_digit_def)

lemma skip_ws_stop [simp]: "\<not> is_ws c \<Longrightarrow> skip_ws (c # cs) = c # cs"
  by (simp add: skip_ws_def)

lemma plain_char [simp]: "\<not> is_ws (CHR '','')" "\<not> is_ws (CHR '']'')" "\<not> is_ws (CHR ''}'')"
  "\<not> is_ws (CHR '':'')" "\<not> is_ws (CHR 0x22)" "\<not> is_ws (CHR ''{'')" "\<not> is_ws (CHR ''['')"
  "\<not> is_ws (CHR ''t'')" "\<not> is_ws (CHR ''f'')" "\<not> is_ws (CHR ''n'')"
  by (simp_all add: is_ws_def)

lemma parse_items_render:
  assumes "js \<noteq> []" "\<forall>j \<in> set js. reads j" "sum_list (map (\<lambda>j. Suc (need j)) js) \<le> n"
  shows "parse_items n (sep_by '','' (map render js) @ CHR '']'' # rest) = Some (js, rest)"
  using assms
proof (induction js arbitrary: n)
  case Nil
  then show ?case by simp
next
  case (Cons j js)
  from Cons.prems obtain m where n: "n = Suc m" and m: "need j \<le> m"
    "sum_list (map (\<lambda>j. Suc (need j)) js) \<le> m" by (cases n) auto
  show ?case
  proof (cases js)
    case Nil
    from Cons.prems m have "parse_value m (render j @ CHR '']'' # rest) = Some (j, CHR '']'' # rest)"
      by (simp add: reads_def num_end_comma)
    with Nil n show ?thesis by (simp add: parse_items.simps)
  next
    case (Cons k ks)
    let ?t = "sep_by '','' (map render js) @ CHR '']'' # rest"
    from \<open>\<forall>j \<in> set (j # js). reads j\<close> m
    have v: "parse_value m (render j @ CHR '','' # ?t) = Some (j, CHR '','' # ?t)"
      by (simp add: reads_def num_end_comma)
    have "parse_items m ?t = Some (js, rest)"
      using Cons.IH Cons.prems m \<open>js = k # ks\<close> by simp
    with v n Cons show ?thesis by (simp add: parse_items.simps)
  qed
qed

lemma parse_members_render:
  assumes "kvs \<noteq> []" "\<forall>kv \<in> set kvs. reads (snd kv)"
    "sum_list (map (\<lambda>kv. Suc (need (snd kv))) kvs) \<le> n"
  shows "parse_members n (sep_by '','' (map (\<lambda>(k, j). quote k @ '':'' @ render j) kvs) @ CHR ''}'' # rest)
    = Some (kvs, rest)"
  using assms
proof (induction kvs arbitrary: n)
  case Nil
  then show ?case by simp
next
  case (Cons kv kvs)
  obtain k j where kv: "kv = (k, j)" by (cases kv)
  from Cons.prems kv obtain m where n: "n = Suc m" and m: "need j \<le> m"
    "sum_list (map (\<lambda>kv. Suc (need (snd kv))) kvs) \<le> m" by (cases n) auto
  from Cons.prems kv have j: "reads j" by simp
  show ?case
  proof (cases kvs)
    case Nil
    from j m have "parse_value m (render j @ CHR ''}'' # rest) = Some (j, CHR ''}'' # rest)"
      by (simp add: reads_def num_end_comma)
    with Nil n kv show ?thesis by (simp add: parse_members.simps quote_def)
  next
    case (Cons l ls)
    let ?t = "sep_by '','' (map (\<lambda>(k, j). quote k @ '':'' @ render j) kvs) @ CHR ''}'' # rest"
    from j m have v: "parse_value m (render j @ CHR '','' # ?t) = Some (j, CHR '','' # ?t)"
      by (simp add: reads_def num_end_comma)
    have "parse_members m ?t = Some (kvs, rest)"
      using Cons.IH Cons.prems m \<open>kvs = l # ls\<close> by simp
    with v n Cons kv show ?thesis by (simp add: parse_members.simps quote_def)
  qed
qed

lemma sep_by_starts: "starts (hd xs) \<Longrightarrow> xs \<noteq> [] \<Longrightarrow> starts (sep_by d xs @ t)"
  by (cases xs; cases "tl xs") (auto simp: starts_def)

lemma starts_cases: "starts s \<Longrightarrow>
    (\<And>c cs. s = c # cs \<Longrightarrow> \<not> is_ws c \<Longrightarrow> c \<noteq> CHR '']'' \<Longrightarrow> c \<noteq> CHR ''}'' \<Longrightarrow> P) \<Longrightarrow> P"
  by (cases s) (auto simp: starts_def)

lemma reads_arr:
  assumes "\<forall>j \<in> set js. reads j \<and> json_ok j"
  shows "reads (JArr js)"
  unfolding reads_def
proof (intro allI impI)
  fix n rest assume n: "need (JArr js) \<le> n" and "num_end rest"
  then obtain m where m: "n = Suc m" "sum_list (map (\<lambda>j. Suc (need j)) js) \<le> m" by (cases n) auto
  show "parse_value n (render (JArr js) @ rest) = Some (JArr js, rest)"
  proof (cases "js = []")
    case True
    with m show ?thesis by (simp add: parse_value.simps)
  next
    case False
    let ?t = "sep_by '','' (map render js) @ CHR '']'' # rest"
    have "starts ?t" using False assms
      by (intro sep_by_starts) (auto simp: hd_map render_starts)
    then obtain d ds where d: "?t = d # ds" "\<not> is_ws d" "d \<noteq> CHR '']''" by (rule starts_cases) blast
    have "parse_items m ?t = Some (js, rest)" using False assms m by (intro parse_items_render) auto
    with m d show ?thesis by (simp add: parse_value.simps)
  qed
qed

lemma reads_obj:
  assumes "\<forall>kv \<in> set kvs. reads (snd kv)"
  shows "reads (JObj kvs)"
  unfolding reads_def
proof (intro allI impI)
  fix n rest assume n: "need (JObj kvs) \<le> n" and "num_end rest"
  then obtain m where m: "n = Suc m" "sum_list (map (\<lambda>kv. Suc (need (snd kv))) kvs) \<le> m"
    by (cases n) auto
  show "parse_value n (render (JObj kvs) @ rest) = Some (JObj kvs, rest)"
  proof (cases "kvs = []")
    case True
    with m show ?thesis by (simp add: parse_value.simps)
  next
    case False
    let ?t = "sep_by '','' (map (\<lambda>(k, j). quote k @ '':'' @ render j) kvs) @ CHR ''}'' # rest"
    have "starts ?t" using False
      by (intro sep_by_starts) (auto simp: hd_map starts_def quote_def split: prod.splits)
    then obtain d ds where d: "?t = d # ds" "\<not> is_ws d" "d \<noteq> CHR ''}''" by (rule starts_cases) blast
    have "parse_members m ?t = Some (kvs, rest)" using False assms m by (intro parse_members_render) auto
    with m d show ?thesis by (simp add: parse_value.simps)
  qed
qed

lemma reads_num: "reads (JNum (dec_int z))"
  unfolding reads_def
proof (intro allI impI)
  fix n rest assume n: "need (JNum (dec_int z)) \<le> n" and r: "num_end rest"
  then obtain m where m: "n = Suc m" by (cases n) auto
  obtain c cs where c: "dec_int z = c # cs" "\<not> is_ws c"
    "c \<notin> {CHR '']'', CHR ''}'', CHR 0x22, CHR ''{'', CHR ''['', CHR ''t'', CHR ''f'', CHR ''n''}"
    by (rule dec_int_hd)
  from parse_num_dec [OF r, of z] c m
  show "parse_value n (render (JNum (dec_int z)) @ rest) = Some (JNum (dec_int z), rest)"
    by (simp add: parse_value.simps)
qed

lemma reads_leaf: "reads JNull" "reads (JBool b)" "reads (JStr s)"
proof -
  have ex: "\<exists>m. n = Suc m" if "Suc 0 \<le> n" for n using that by (cases n) auto
  show "reads JNull" "reads (JBool b)" "reads (JStr s)"
    unfolding reads_def by (auto dest!: ex simp: parse_value.simps strip_def quote_def)
qed

lemma render_reads: "json_ok j \<Longrightarrow> reads j"
proof (induction j)
  case (JArr js)
  then show ?case by (intro reads_arr) auto
next
  case (JObj kvs)
  then show ?case by (intro reads_obj) (force simp: snds.simps)
qed (auto simp: reads_leaf reads_num)

lemma length_sep_by: "xs \<noteq> [] \<Longrightarrow> length (sep_by [d] xs) + 1 = sum_list (map (\<lambda>x. Suc (length x)) xs)"
  by (induction "[d]" xs rule: sep_by.induct) auto

lemma render_nonempty: "json_ok j \<Longrightarrow> render j \<noteq> []"
  using render_starts by (auto simp: starts_def)

lemma sum_list_map_le: "(\<forall>x \<in> set xs. f x \<le> g x) \<Longrightarrow> sum_list (map f xs) \<le> sum_list (map g xs)"
  for f g :: "'a \<Rightarrow> nat"
  by (induction xs) auto

lemma sum_list_double: "sum_list (map (\<lambda>x. 2 * f x) xs) = 2 * sum_list (map f xs)"
  for f :: "'a \<Rightarrow> nat"
  by (induction xs) auto

lemma need_le: "json_ok j \<Longrightarrow> need j \<le> 2 * length (render j)"
proof (induction j)
  case (JNum s)
  then show ?case using render_nonempty [of "JNum s"] by (cases s) auto
next
  case (JArr js)
  show ?case
  proof (cases "js = []")
    case False
    have "sum_list (map (\<lambda>j. Suc (need j)) js) \<le> sum_list (map (\<lambda>j. 2 * Suc (length (render j))) js)"
      using JArr by (intro sum_list_map_le) fastforce
    also have "\<dots> = 2 * sum_list (map (\<lambda>j. Suc (length (render j))) js)" by (rule sum_list_double)
    finally show ?thesis using length_sep_by [of "map render js" "CHR '',''"] False by (simp add: comp_def)
  qed simp
next
  case (JObj kvs)
  let ?r = "\<lambda>(k, j). quote k @ '':'' @ render j"
  show ?case
  proof (cases "kvs = []")
    case False
    have "need (snd kv) \<le> 2 * length (render (snd kv))" if "kv \<in> set kvs" for kv
      using JObj.IH [OF that, of "snd kv"] JObj.prems that by (cases kv) auto
    then have "Suc (need (snd kv)) \<le> 2 * Suc (length (?r kv))" if "kv \<in> set kvs" for kv
      using that by (fastforce simp: split_beta trans_le_add2)
    then have "sum_list (map (\<lambda>kv. Suc (need (snd kv))) kvs) \<le> sum_list (map (\<lambda>kv. 2 * Suc (length (?r kv))) kvs)"
      by (intro sum_list_map_le) blast
    also have "\<dots> = 2 * sum_list (map (\<lambda>kv. Suc (length (?r kv))) kvs)" by (rule sum_list_double)
    finally show ?thesis using length_sep_by [of "map ?r kvs" "CHR '',''"] False by (simp add: comp_def)
  qed simp
qed (auto simp: quote_def)

lemma decode_one_render:
  "json_ok j \<Longrightarrow> num_end rest \<Longrightarrow> decode_one (render j @ rest) = Some (j, rest)"
  using render_reads [of j] need_le [of j] by (simp add: reads_def decode_one_def)

lemma unmarshal_render: "json_ok j \<Longrightarrow> unmarshal (render j) = Some j"
  using decode_one_render [of j "[]"] by (simp add: unmarshal_def num_end_def skip_ws_def)

lemma render_inj: "json_ok j \<Longrightarrow> json_ok k \<Longrightarrow> render j = render k \<Longrightarrow> j = k"
  by (metis option.inject unmarshal_render)

lemma quote_inj: "quote s = quote t \<longleftrightarrow> s = t"
  using render_inj [of "JStr s" "JStr t"] by auto

subsection \<open>The fuel is enough\<close>

text \<open>
  Each parser leaves less text than it was given, so with two units of fuel a byte the
  value parser's answer no longer depends on the fuel.
\<close>

lemma parse_str_shorter: "parse_str s = Some (x, r) \<Longrightarrow> length r < length s"
proof (induction s arbitrary: x r rule: length_induct)
  case (1 s)
  have IH: "length r' < length t" if "parse_str t = Some (y, r')" "length t < length s" for t y r'
    using 1 that by blast
  show ?case
  proof (cases s)
    case Nil
    with "1.prems" show ?thesis by (simp add: parse_str.simps)
  next
    case (Cons c cs)
    with "1.prems" show ?thesis
      by (subst (asm) Cons, subst (asm) parse_str.simps)
        (fastforce dest!: prependD IH parse_u_shorter split: if_splits list.splits option.splits)
  qed
qed

lemma span_digits_le: "span_digits s = (ds, r) \<Longrightarrow> length ds + length r = length s"
  by (auto simp: span_digits_def simp flip: length_append)

lemma parse_num_shorter: "parse_num s = Some (x, r) \<Longrightarrow> length r < length s"
proof -
  assume p: "parse_num s = Some (x, r)"
  define sg where "sg = (if s \<noteq> [] \<and> hd s = CHR ''-'' then ''-'' else [])"
  obtain ds t where i: "span_int (drop (length sg) s) = (ds, t)" by fastforce
  with p obtain u v f e where f: "ds \<noteq> []" "parse_frac t = Some (f, u)" "parse_exp u = Some (e, r)"
    by (auto simp: parse_num_def sg_def Let_def split: option.splits if_splits prod.splits)
  from f have "length u \<le> length t" "length r \<le> length u"
    by (auto simp: parse_frac_def parse_exp_def Let_def dest!: span_digits_le split: if_splits prod.splits)
  moreover from i f(1) have "length t < length (drop (length sg) s)"
    by (cases "drop (length sg) s"; cases ds)
      (auto simp: span_int_def span_digits_def less_Suc_eq_le length_dropWhile_le
        dest!: span_digits_le split: if_splits)
  ultimately show ?thesis by simp
qed

lemma skip_ws_le: "length (skip_ws s) \<le> length s"
  by (simp add: skip_ws_def length_dropWhile_le)

lemma skip_ws_Cons: "skip_ws s = c # cs \<Longrightarrow> length cs < length s"
  using skip_ws_le [of s] by auto

lemma strip_shorter: "strip p s = Some r \<Longrightarrow> p \<noteq> [] \<Longrightarrow> s \<noteq> [] \<Longrightarrow> length r < length s"
  by (cases p; cases s) (auto simp: strip_def split: if_splits)

lemma strip_Cons_shorter: "strip (p # ps) (c # cs) = Some r \<Longrightarrow> length r < Suc (length cs)"
  using strip_shorter [of "p # ps" "c # cs" r] by simp

definition shorter :: "nat \<Rightarrow> bool" where
  "shorter n \<longleftrightarrow> (\<forall>s j r. parse_value n s = Some (j, r) \<longrightarrow> length r < length s) \<and>
     (\<forall>s js r. parse_items n s = Some (js, r) \<longrightarrow> length r < length s) \<and>
     (\<forall>s kvs r. parse_members n s = Some (kvs, r) \<longrightarrow> length r < length s)"

lemma value_shorter:
  assumes "shorter n" and p: "parse_value (Suc n) s = Some (j, r)"
  shows "length r < length s"
proof -
  from p obtain c cs where c: "skip_ws s = c # cs"
    by (auto simp: parse_value.simps split: list.splits)
  have i: "length r < Suc (length cs)"
    if "skip_ws cs = d # ds" "parse_items n (d # ds) = Some (js, r)" for cs d ds js r
    using that assms(1) skip_ws_Cons [OF that(1)] by (fastforce simp: shorter_def)
  have m: "length r < Suc (length cs)"
    if "skip_ws cs = d # ds" "parse_members n (d # ds) = Some (kvs, r)" for cs d ds kvs r
    using that assms(1) skip_ws_Cons [OF that(1)] by (fastforce simp: shorter_def)
  have "length r < length (c # cs)"
    using p unfolding parse_value.simps c list.case
    by (auto split: if_splits list.splits
        dest: parse_str_shorter parse_num_shorter skip_ws_Cons i m strip_Cons_shorter)
  with skip_ws_le [of s] c show ?thesis by simp
qed

lemma items_shorter:
  assumes "shorter n" "parse_items (Suc n) s = Some (js, r)"
  shows "length r < length s"
proof -
  from assms(2) obtain j t where v: "parse_value n s = Some (j, t)"
    by (auto simp: parse_items.simps split: option.splits)
  with assms obtain d ds where d: "skip_ws t = d # ds"
    by (auto simp: parse_items.simps split: list.splits)
  have "length r \<le> length ds" using assms v d
    by (auto simp: parse_items.simps shorter_def split: if_splits) (metis less_imp_le)
  moreover have "length t < length s" using v assms(1) by (auto simp: shorter_def)
  ultimately show ?thesis using skip_ws_Cons [OF d] by simp
qed

lemma members_shorter:
  assumes "shorter n" "parse_members (Suc n) s = Some (kvs, r)"
  shows "length r < length s"
proof -
  from assms(2) obtain q qs k t d ds j u e es where
    q: "skip_ws s = q # qs" and k: "parse_str qs = Some (k, t)" and d: "skip_ws t = d # ds"
    and j: "parse_value n ds = Some (j, u)" and e: "skip_ws u = e # es"
    by (auto simp: parse_members.simps split: list.splits option.splits if_splits)
  have "length r \<le> length es" using assms q k d j e
    by (auto simp: parse_members.simps shorter_def split: if_splits) (metis less_imp_le)
  moreover have "length u < length ds" using j assms(1) by (auto simp: shorter_def)
  ultimately show ?thesis
    using skip_ws_Cons [OF q] parse_str_shorter [OF k] skip_ws_Cons [OF d] skip_ws_Cons [OF e] by simp
qed

lemma shorter: "shorter n"
proof (induction n)
  case 0
  show ?case by (simp add: shorter_def parse_value.simps parse_items.simps parse_members.simps)
next
  case (Suc n)
  then show ?case unfolding shorter_def [of "Suc n"]
    using value_shorter items_shorter members_shorter by blast
qed

definition steady :: "nat \<Rightarrow> bool" where
  "steady n \<longleftrightarrow> (\<forall>s. 2 * length s + 1 \<le> n \<longrightarrow> parse_value (Suc n) s = parse_value n s) \<and>
     (\<forall>s. 2 * length s + 2 \<le> n \<longrightarrow> parse_items (Suc n) s = parse_items n s) \<and>
     (\<forall>s. 2 * length s + 2 \<le> n \<longrightarrow> parse_members (Suc n) s = parse_members n s)"

lemma value_steady:
  assumes "steady n" "2 * length s + 1 \<le> Suc n"
  shows "parse_value (Suc (Suc n)) s = parse_value (Suc n) s"
proof (cases "skip_ws s")
  case Nil
  then show ?thesis by (simp add: parse_value.simps)
next
  case (Cons c cs)
  have "parse_items (Suc n) t = parse_items n t" "parse_members (Suc n) t = parse_members n t"
    if "skip_ws cs = t" for t
    using assms that skip_ws_le [of cs] skip_ws_Cons [OF Cons] by (auto simp: steady_def)
  with Cons show ?thesis by (cases "skip_ws cs") (simp_all add: parse_value.simps)
qed

lemma items_steady:
  assumes "steady n" "2 * length s + 2 \<le> Suc n"
  shows "parse_items (Suc (Suc n)) s = parse_items (Suc n) s"
proof -
  have v: "parse_value (Suc n) s = parse_value n s" using assms by (simp add: steady_def)
  have i: "parse_items (Suc n) ds = parse_items n ds"
    if "parse_value n s = Some (j, t)" "skip_ws t = d # ds" for j t d ds
    using assms that skip_ws_Cons [OF that(2)] shorter [of n] by (force simp: steady_def shorter_def)
  show ?thesis
    by (subst (1 2) parse_items.simps) (simp only: v, auto simp: i split: option.splits list.splits)
qed

lemma members_steady:
  assumes "steady n" "2 * length s + 2 \<le> Suc n"
  shows "parse_members (Suc (Suc n)) s = parse_members (Suc n) s"
proof -
  have v: "parse_value (Suc n) ds = parse_value n ds"
    if "skip_ws s = q # qs" "parse_str qs = Some (k, t)" "skip_ws t = d # ds" for q qs k t d ds
    using assms skip_ws_Cons [OF that(1)] parse_str_shorter [OF that(2)] skip_ws_Cons [OF that(3)]
    by (simp add: steady_def)
  have m: "parse_members (Suc n) es = parse_members n es"
    if "skip_ws s = q # qs" "parse_str qs = Some (k, t)" "skip_ws t = d # ds"
      "parse_value n ds = Some (j, u)" "skip_ws u = e # es" for q qs k t d ds j u e es
  proof -
    have "length u < length ds" using shorter [of n] that(4) by (auto simp: shorter_def)
    then show ?thesis
      using assms skip_ws_Cons [OF that(1)] parse_str_shorter [OF that(2)] skip_ws_Cons [OF that(3)]
        skip_ws_Cons [OF that(5)] by (simp add: steady_def)
  qed
  show ?thesis
    by (subst (1 2) parse_members.simps) (auto simp: v m split: option.splits list.splits)
qed

lemma steady: "steady n"
proof (induction n)
  case 0
  show ?case by (simp add: steady_def)
next
  case (Suc n)
  then show ?case unfolding steady_def [of "Suc n"]
    using value_steady items_steady members_steady by blast
qed

lemma parse_value_enough: "2 * length s + 1 \<le> n \<Longrightarrow> parse_value n s = decode_one s"
proof (induction n)
  case 0
  then show ?case by simp
next
  case (Suc n)
  show ?case
  proof (cases "2 * length s + 1 \<le> n")
    case True
    with Suc show ?thesis using steady [of n] by (simp add: steady_def)
  next
    case False
    with Suc.prems have "Suc n = 2 * length s + 1" by simp
    then show ?thesis using steady [of "2 * length s + 1"] by (simp add: steady_def decode_one_def)
  qed
qed

subsection \<open>Reading into structs\<close>

text \<open>
  \<^verbatim>\<open>json.Decoder.Decode\<close> into a struct with \<^verbatim>\<open>DisallowUnknownFields\<close>: each member of the
  object sets its field (a later one overwrites an earlier one), \<^verbatim>\<open>null\<close> leaves the field as
  it is, an unknown key or a value of another type is an error. \<^verbatim>\<open>encoding/json\<close> also matches
  keys in another case, which the model refuses as unknown.
\<close>

fun set_fields :: "(string \<Rightarrow> json \<Rightarrow> 'a \<Rightarrow> 'a option) \<Rightarrow> (string \<times> json) list \<Rightarrow> 'a \<Rightarrow> 'a option" where
  "set_fields f [] x = Some x"
| "set_fields f ((k, j) # kvs) x =
     (case f k j x of None \<Rightarrow> None | Some y \<Rightarrow> set_fields f kvs y)"

definition as_struct :: "(string \<Rightarrow> json \<Rightarrow> 'a \<Rightarrow> 'a option) \<Rightarrow> 'a \<Rightarrow> json \<Rightarrow> 'a option" where
  "as_struct f zero j = (case j of JObj kvs \<Rightarrow> set_fields f kvs zero | JNull \<Rightarrow> Some zero | _ \<Rightarrow> None)"

definition as_str :: "json \<Rightarrow> string \<Rightarrow> string option" where
  "as_str j old = (case j of JStr s \<Rightarrow> Some s | JNull \<Rightarrow> Some old | _ \<Rightarrow> None)"

definition as_int :: "json \<Rightarrow> int \<Rightarrow> int option" where
  "as_int j old = (case j of JNum s \<Rightarrow> parse_int64 s | JNull \<Rightarrow> Some old | _ \<Rightarrow> None)"

definition as_list :: "(json \<Rightarrow> 'a option) \<Rightarrow> json \<Rightarrow> 'a list option" where
  "as_list f j = (case j of JArr js \<Rightarrow> those (map f js) | JNull \<Rightarrow> Some [] | _ \<Rightarrow> None)"

lemma as_simps [simp]:
  "as_str (JStr s) old = Some s"
  "as_list f (JArr js) = those (map f js)"
  "as_struct g zero (JObj kvs) = set_fields g kvs zero"
  by (simp_all add: as_str_def as_list_def as_struct_def)

lemma as_int_dec [simp]: "- (2 ^ 63) \<le> z \<Longrightarrow> z < 2 ^ 63 \<Longrightarrow> as_int (JNum (dec_int z)) old = Some z"
  by (simp add: as_int_def parse_int64_dec)

lemma those_map_inverse: "(\<forall>x \<in> set xs. f (g x) = Some x) \<Longrightarrow> those (map f (map g xs)) = Some xs"
  by (induction xs) simp_all

end
