(* ===== verification/C_Registry.thy ===== *)
theory C_Registry
  imports Go_Json
begin

text \<open>
  The convergent registry (\<^verbatim>\<open>src/cregistry/cregistry.go\<close>): a last-write-wins element set.
  A registry is a Go map from item ids to entries; a stamp is an \<^verbatim>\<open>int64\<close>. Reading a
  missing key of a Go map gives the zero entry, which carries the zero value of the payload
  type, so the payload type's zero value and its JSON encoding (\<^verbatim>\<open>json.Marshal\<close> at the
  payload type, which the registry is generic in) are arguments of the operations.
\<close>

type_synonym micros = int

record 'v entry =
  e_added :: micros
  e_removed :: micros
  e_value :: 'v

type_synonym 'v registry = "string \<rightharpoonup> 'v entry"

definition zero_entry :: "'v \<Rightarrow> 'v entry" where
  "zero_entry z = \<lparr>e_added = 0, e_removed = 0, e_value = z\<rparr>"

text \<open>A Go map read \<^verbatim>\<open>r[i]\<close>.\<close>

definition lookup :: "'v \<Rightarrow> 'v registry \<Rightarrow> string \<Rightarrow> 'v entry" where
  "lookup z r i = (case r i of None \<Rightarrow> zero_entry z | Some e \<Rightarrow> e)"

definition entry_present :: "'v entry \<Rightarrow> bool" where
  "entry_present e \<longleftrightarrow> e_added e > e_removed e"

definition new_registry :: "'v registry" where
  "new_registry = Map.empty"

definition registry_add :: "'v \<Rightarrow> 'v registry \<Rightarrow> string \<Rightarrow> 'v \<Rightarrow> micros \<Rightarrow> 'v registry" where
  "registry_add z r i v at =
     (let e = lookup z r i in
      if at > e_added e then r(i \<mapsto> e\<lparr>e_added := at, e_value := v\<rparr>) else r)"

definition registry_remove :: "'v \<Rightarrow> 'v registry \<Rightarrow> string \<Rightarrow> micros \<Rightarrow> 'v registry" where
  "registry_remove z r i at =
     (let e = lookup z r i in
      if at > e_removed e then r(i \<mapsto> e\<lparr>e_removed := at\<rparr>) else r)"

definition registry_present :: "'v registry \<Rightarrow> 'v registry" where
  "registry_present r = (\<lambda>i. case r i of None \<Rightarrow> None
     | Some e \<Rightarrow> if entry_present e then Some e else None)"

definition compact :: "'v registry \<Rightarrow> micros \<Rightarrow> micros \<Rightarrow> 'v registry" where
  "compact r now horizon =
     (let cutoff = wrap64 (now - horizon) in
      (\<lambda>i. case r i of None \<Rightarrow> None
        | Some e \<Rightarrow> if entry_present e \<or> e_removed e \<ge> cutoff then Some e else None))"

definition winning_value :: "('v \<Rightarrow> bytes) \<Rightarrow> 'v entry \<Rightarrow> 'v entry \<Rightarrow> 'v" where
  "winning_value canonical a b =
     (if e_added a > e_added b then e_value a
      else if e_added b > e_added a then e_value b
      else if canonical (e_value a) \<ge> canonical (e_value b) then e_value a
      else e_value b)"

definition join_entry :: "('v \<Rightarrow> bytes) \<Rightarrow> 'v entry \<Rightarrow> 'v entry \<Rightarrow> 'v entry" where
  "join_entry canonical a b =
     \<lparr>e_added = max (e_added a) (e_added b), e_removed = max (e_removed a) (e_removed b),
      e_value = winning_value canonical a b\<rparr>"

text \<open>\<^verbatim>\<open>Merge\<close> fills the result from \<^verbatim>\<open>a\<close> first and then from the ids only \<^verbatim>\<open>b\<close> has; each
  side's missing entry is read as the zero entry.\<close>

definition merge :: "'v \<Rightarrow> ('v \<Rightarrow> bytes) \<Rightarrow> 'v registry \<Rightarrow> 'v registry \<Rightarrow> 'v registry" where
  "merge z canonical a b = (\<lambda>i.
     case a i of
       Some ea \<Rightarrow> Some (join_entry canonical ea (lookup z b i))
     | None \<Rightarrow> (case b i of
         Some eb \<Rightarrow> Some (join_entry canonical (lookup z a i) eb)
       | None \<Rightarrow> None))"


text \<open>
  The registry's mutations, as the operations a replica applies: an add of an item with its
  payload, or a removal.
\<close>

datatype 'v mutation = AddOp string 'v micros | RemoveOp string micros

fun apply_mutation :: "'v \<Rightarrow> 'v mutation \<Rightarrow> 'v registry \<Rightarrow> 'v registry" where
  "apply_mutation z (AddOp i v at) r = registry_add z r i v at"
| "apply_mutation z (RemoveOp i at) r = registry_remove z r i at"

text \<open>What the mutations establish of an entry: stamps are never negative, and an entry no
  add has reached still carries the zero value.\<close>

definition entry_wf :: "'v \<Rightarrow> 'v entry \<Rightarrow> bool" where
  "entry_wf z e \<longleftrightarrow> 0 \<le> e_added e \<and> 0 \<le> e_removed e \<and> (e_added e = 0 \<longrightarrow> e_value e = z)"

definition registry_wf :: "'v \<Rightarrow> 'v registry \<Rightarrow> bool" where
  "registry_wf z r \<longleftrightarrow> (\<forall>i e. r i = Some e \<longrightarrow> entry_wf z e)"

text \<open>The registry a mutation alone makes, out of an empty one.\<close>

fun delta :: "'v \<Rightarrow> 'v mutation \<Rightarrow> 'v registry" where
  "delta z (AddOp i v at) = [i \<mapsto> \<lparr>e_added = at, e_removed = 0, e_value = v\<rparr>]"
| "delta z (RemoveOp i at) = [i \<mapsto> \<lparr>e_added = 0, e_removed = at, e_value = z\<rparr>]"

text \<open>The clock assumption of the package: stamps are positive, and no two adds of the same
  item carry the same stamp with different payloads.\<close>

definition stamped :: "'v mutation set \<Rightarrow> bool" where
  "stamped ops \<longleftrightarrow> (\<forall>i at. RemoveOp i at \<in> ops \<longrightarrow> 0 < at) \<and>
     (\<forall>i v at. AddOp i v at \<in> ops \<longrightarrow> 0 < at \<and>
        (\<forall>v'. AddOp i v' at \<in> ops \<longrightarrow> v' = v))"

subsection \<open>The interface of a convergent store\<close>

text \<open>
  What replication relies on: a join that is commutative, associative and idempotent. Then
  the result of absorbing a list of states depends only on which states were absorbed.
\<close>

locale convergent =
  fixes join :: "'a \<Rightarrow> 'a \<Rightarrow> 'a"
  assumes join_comm: "join a b = join b a"
    and join_assoc: "join (join a b) c = join a (join b c)"
    and join_idem: "join a a = a"
begin

lemma join_left_comm: "join a (join b c) = join b (join a c)"
  by (metis join_assoc join_comm)

lemma join_left_idem: "join a (join a b) = join a b"
  by (metis join_assoc join_idem)

lemma comp_fun_idem_join: "comp_fun_idem join"
  by standard (auto simp: fun_eq_iff join_left_comm join_left_idem)

lemma fold_join_set:
  assumes "set xs = set ys"
  shows "fold join xs a = fold join ys a"
  using comp_fun_idem_on.fold_set_fold [of UNIV join] comp_fun_idem_join assms
  by (metis comp_fun_idem_def' subset_UNIV)

lemma fold_join_comm: "fold join xs (join a b) = join (fold join xs a) b"
  by (induction xs arbitrary: a) (simp_all add: join_assoc [symmetric])

lemma fold_join_absorb: "x \<in> set xs \<Longrightarrow> join x (fold join xs a) = fold join xs a"
proof (induction xs arbitrary: a)
  case Nil
  then show ?case by simp
next
  case (Cons y ys)
  show ?case
  proof (cases "x = y")
    case True
    have "join x (fold join ys (join y a)) = fold join ys (join y a)"
      using fold_join_comm [of ys a y] True by (metis join_comm join_left_idem)
    then show ?thesis by simp
  next
    case False
    with Cons show ?thesis by simp
  qed
qed

end

subsection \<open>Joining entries\<close>

lemma lookup_simps [simp]:
  "r i = None \<Longrightarrow> lookup z r i = zero_entry z" "r i = Some e \<Longrightarrow> lookup z r i = e"
  by (simp_all add: lookup_def)

lemma merge_apply: "merge z c a b i =
  (if a i = None \<and> b i = None then None
   else Some (join_entry c (lookup z a i) (lookup z b i)))"
  by (auto simp: merge_def split: option.splits)

lemma lookup_merge:
  "lookup z (merge z c a b) i =
   (if a i = None \<and> b i = None then zero_entry z
    else join_entry c (lookup z a i) (lookup z b i))"
  by (simp add: lookup_def merge_apply)

lemma join_entry_idem [simp]: "join_entry c a a = a"
  by (simp add: join_entry_def winning_value_def)

lemma join_entry_comm: "inj c \<Longrightarrow> join_entry c a b = join_entry c b a"
  by (auto simp: join_entry_def winning_value_def max.commute inj_def)

lemma join_entry_assoc:
  "inj c \<Longrightarrow> join_entry c (join_entry c a b) d = join_entry c a (join_entry c b d)"
  by (auto simp: join_entry_def winning_value_def max.assoc max_def)

lemma join_entry_zero: "entry_wf z e \<Longrightarrow> join_entry c e (zero_entry z) = e"
  by (auto simp: join_entry_def winning_value_def zero_entry_def entry_wf_def)

lemma join_entry_zero': "entry_wf z e \<Longrightarrow> join_entry c (zero_entry z) e = e"
  by (auto simp: join_entry_def winning_value_def zero_entry_def entry_wf_def)

lemma join_entry_wf: "entry_wf z a \<Longrightarrow> entry_wf z b \<Longrightarrow> entry_wf z (join_entry c a b)"
  by (auto simp: entry_wf_def join_entry_def winning_value_def max_def)

lemma zero_entry_wf [simp]: "entry_wf z (zero_entry z)"
  by (simp add: entry_wf_def zero_entry_def)

lemma lookup_wf: "registry_wf z r \<Longrightarrow> entry_wf z (lookup z r i)"
  by (auto simp: registry_wf_def lookup_def split: option.splits)

lemma registry_wf_update: "registry_wf z r \<Longrightarrow> entry_wf z e \<Longrightarrow> registry_wf z (r(i \<mapsto> e))"
  by (simp add: registry_wf_def)

subsection \<open>Merging registries\<close>

lemma merge_comm: "inj c \<Longrightarrow> merge z c a b = merge z c b a"
  by (rule ext) (auto simp: merge_apply join_entry_comm)

lemma merge_idem: "merge z c a a = a"
  by (rule ext) (auto simp: merge_apply lookup_def split: option.splits)

lemma merge_assoc:
  assumes "inj c"
  shows "merge z c (merge z c a b) d = merge z c a (merge z c b d)"
proof
  fix i
  let ?j = "join_entry c" and ?z = "zero_entry z"
  have zz: "?j (?j e ?z) ?z = ?j e ?z" "?j ?z (?j ?z e) = ?j ?z e" for e
    using join_entry_assoc [OF assms] join_entry_idem by metis+
  show "merge z c (merge z c a b) d i = merge z c a (merge z c b d) i"
    by (auto simp: merge_apply lookup_merge join_entry_assoc [OF assms] zz)
qed

text \<open>
  The package documents that a payload's JSON encoding captures its identity: the encoding
  is injective. Under that law the merge is the join of a convergent store.
\<close>

locale canonical_values =
  fixes zero :: 'v and canonical :: "'v \<Rightarrow> bytes"
  assumes canonical_inj: "inj canonical"

sublocale canonical_values \<subseteq> m: convergent "merge zero canonical"
  by unfold_locales (rule merge_comm merge_assoc merge_idem canonical_inj)+

lemma merge_wf: "registry_wf z a \<Longrightarrow> registry_wf z b \<Longrightarrow> registry_wf z (merge z c a b)"
  by (auto simp: registry_wf_def [of z "merge z c a b"] merge_apply
      intro: join_entry_wf lookup_wf split: if_splits)

lemma merge_new: "registry_wf z a \<Longrightarrow> merge z c a new_registry = a"
  by (rule ext) (auto simp: merge_apply new_registry_def lookup_def registry_wf_def
      join_entry_zero split: option.splits)

lemma registry_add_wf: "registry_wf z r \<Longrightarrow> registry_wf z (registry_add z r i v at)"
  using lookup_wf [of z r i]
  by (auto simp: registry_add_def Let_def entry_wf_def intro!: registry_wf_update)

lemma registry_remove_wf: "registry_wf z r \<Longrightarrow> registry_wf z (registry_remove z r i at)"
  using lookup_wf [of z r i]
  by (auto simp: registry_remove_def Let_def entry_wf_def intro!: registry_wf_update)

lemma apply_mutation_wf: "registry_wf z r \<Longrightarrow> registry_wf z (apply_mutation z op r)"
  by (cases op) (auto intro: registry_add_wf registry_remove_wf)


subsection \<open>Mutations are joins\<close>

text \<open>Every add a registry holds came from a mutation of the set \<open>ops\<close>.\<close>

definition from_ops :: "'v mutation set \<Rightarrow> 'v registry \<Rightarrow> bool" where
  "from_ops ops r \<longleftrightarrow> (\<forall>i e. r i = Some e \<and> 0 < e_added e \<longrightarrow> AddOp i (e_value e) (e_added e) \<in> ops)"

lemma merge_singleton:
  assumes "registry_wf z r"
  shows "merge z c [i \<mapsto> d] r = r(i \<mapsto> join_entry c d (lookup z r i))"
proof
  fix k
  show "merge z c [i \<mapsto> d] r k = (r(i \<mapsto> join_entry c d (lookup z r i))) k"
    using assms by (cases "r k") (auto simp: merge_apply lookup_def registry_wf_def join_entry_zero')
qed

lemma add_is_join:
  assumes wf: "registry_wf z r" and st: "stamped ops" and fo: "from_ops ops r"
    and op: "AddOp i v at \<in> ops"
  shows "registry_add z r i v at = merge z c (delta z (AddOp i v at)) r"
proof -
  let ?e = "lookup z r i" and ?d = "\<lparr>e_added = at, e_removed = 0, e_value = v\<rparr>"
  from st op have at: "0 < at" by (auto simp: stamped_def)
  note wfe = lookup_wf [OF wf, of i]
  show ?thesis
  proof (cases "at > e_added ?e")
    case True
    then have "join_entry c ?d ?e = ?e\<lparr>e_added := at, e_value := v\<rparr>"
      using wfe by (simp add: join_entry_def winning_value_def entry_wf_def)
    with True show ?thesis by (simp add: registry_add_def Let_def merge_singleton [OF wf])
  next
    case False
    with at have "0 < e_added ?e" by simp
    then obtain e where e: "r i = Some e" by (cases "r i") (auto simp: zero_entry_def)
    have "e_value e = v" if "e_added e = at"
      using that e at st fo op by (auto simp: from_ops_def stamped_def)
    then have "join_entry c ?d e = e"
      using False e wfe by (auto simp: join_entry_def winning_value_def entry_wf_def)
    with False e show ?thesis
      by (simp add: registry_add_def Let_def merge_singleton [OF wf] map_upd_triv)
  qed
qed

lemma remove_is_join:
  assumes wf: "registry_wf z r" and at: "0 < at"
  shows "registry_remove z r i at = merge z c (delta z (RemoveOp i at)) r"
proof -
  let ?e = "lookup z r i" and ?d = "\<lparr>e_added = 0, e_removed = at, e_value = z\<rparr>"
  note wfe = lookup_wf [OF wf, of i]
  have j: "join_entry c ?d ?e = ?e\<lparr>e_removed := max at (e_removed ?e)\<rparr>"
    using wfe by (auto simp: join_entry_def winning_value_def entry_wf_def)
  show ?thesis
  proof (cases "at > e_removed ?e")
    case True
    with j show ?thesis by (simp add: registry_remove_def Let_def merge_singleton [OF wf])
  next
    case False
    with at have "0 < e_removed ?e" by simp
    then obtain e where "r i = Some e" by (cases "r i") (auto simp: zero_entry_def)
    with False j show ?thesis
      by (simp add: registry_remove_def Let_def merge_singleton [OF wf] map_upd_triv)
  qed
qed

lemma mutation_is_join:
  assumes "registry_wf z r" "stamped ops" "from_ops ops r" "op \<in> ops"
  shows "apply_mutation z op r = merge z c (delta z op) r"
proof (cases op)
  case (AddOp i v at)
  with assms show ?thesis using add_is_join by fastforce
next
  case (RemoveOp i at)
  with assms have "0 < at" by (auto simp: stamped_def)
  with assms RemoveOp show ?thesis using remove_is_join by fastforce
qed

lemma mutation_from_ops:
  "from_ops ops r \<Longrightarrow> op \<in> ops \<Longrightarrow> from_ops ops (apply_mutation z op r)"
  by (cases op) (auto simp: from_ops_def registry_add_def registry_remove_def Let_def lookup_def
      zero_entry_def split: option.splits if_splits)

lemma mutations_are_joins:
  assumes "registry_wf z r" "stamped ops" "from_ops ops r" "set xs \<subseteq> ops"
  shows "fold (apply_mutation z) xs r = fold (merge z c) (map (delta z) xs) r"
  using assms
proof (induction xs arbitrary: r)
  case Nil
  then show ?case by simp
next
  case (Cons x xs)
  then have "apply_mutation z x r = merge z c (delta z x) r"
    by (auto intro: mutation_is_join)
  with Cons show ?case by (simp add: apply_mutation_wf mutation_from_ops flip: \<open>apply_mutation z x r = _\<close>)
qed

lemma new_registry_wf [simp]: "registry_wf z new_registry" "from_ops ops new_registry"
  by (simp_all add: registry_wf_def from_ops_def new_registry_def)

lemma fold_mutations_wf: "registry_wf z r \<Longrightarrow> registry_wf z (fold (apply_mutation z) xs r)"
  by (induction xs arbitrary: r) (simp_all add: apply_mutation_wf)

text \<open>A registry of strings: \<^verbatim>\<open>json.Marshal\<close> of a string is its quoted form, which is
  injective.\<close>

interpretation string_registry: canonical_values "''''" quote
  by unfold_locales (simp add: inj_def quote_inj)

subsection \<open>The newest stamps of a history\<close>

fun newest_add :: "string \<Rightarrow> 'v mutation list \<Rightarrow> micros" where
  "newest_add i [] = 0"
| "newest_add i (op # ops) =
     (case op of AddOp k v at \<Rightarrow> if k = i then max at (newest_add i ops) else newest_add i ops
      | RemoveOp k at \<Rightarrow> newest_add i ops)"

fun newest_remove :: "string \<Rightarrow> 'v mutation list \<Rightarrow> micros" where
  "newest_remove i [] = 0"
| "newest_remove i (op # ops) =
     (case op of RemoveOp k at \<Rightarrow> if k = i then max at (newest_remove i ops) else newest_remove i ops
      | AddOp k v at \<Rightarrow> newest_remove i ops)"

lemma lookup_apply_mutation:
  "e_added (lookup z (apply_mutation z op r) i) =
     (case op of AddOp k v at \<Rightarrow> if k = i then max at (e_added (lookup z r i)) else e_added (lookup z r i)
      | RemoveOp k at \<Rightarrow> e_added (lookup z r i))"
  "e_removed (lookup z (apply_mutation z op r) i) =
     (case op of RemoveOp k at \<Rightarrow> if k = i then max at (e_removed (lookup z r i)) else e_removed (lookup z r i)
      | AddOp k v at \<Rightarrow> e_removed (lookup z r i))"
  by (cases op; auto simp: registry_add_def registry_remove_def Let_def lookup_def
      split: option.splits)+

lemma newest_nonneg [simp]: "0 \<le> newest_add i ops" "0 \<le> newest_remove i ops"
  by (induction ops) (auto split: mutation.splits)

lemma fold_mutations_added:
  assumes "0 \<le> e_added (lookup z r i)"
  shows "e_added (lookup z (fold (apply_mutation z) ops r) i)
    = max (newest_add i ops) (e_added (lookup z r i))"
  using assms
proof (induction ops arbitrary: r)
  case Nil
  then show ?case by simp
next
  case (Cons op ops)
  have "0 \<le> e_added (lookup z (apply_mutation z op r) i)"
    using Cons.prems by (simp add: lookup_apply_mutation le_max_iff_disj split: mutation.split)
  note step = Cons.IH [OF this]
  show ?case
    by (simp add: step lookup_apply_mutation max.assoc max.left_commute split: mutation.split)
qed

lemma fold_mutations_removed:
  assumes "0 \<le> e_removed (lookup z r i)"
  shows "e_removed (lookup z (fold (apply_mutation z) ops r) i)
    = max (newest_remove i ops) (e_removed (lookup z r i))"
  using assms
proof (induction ops arbitrary: r)
  case Nil
  then show ?case by simp
next
  case (Cons op ops)
  have "0 \<le> e_removed (lookup z (apply_mutation z op r) i)"
    using Cons.prems by (simp add: lookup_apply_mutation le_max_iff_disj split: mutation.split)
  note step = Cons.IH [OF this]
  show ?case
    by (simp add: step lookup_apply_mutation max.assoc max.left_commute split: mutation.split)
qed

lemma lookup_new [simp]: "lookup z new_registry i = zero_entry z"
  by (simp add: new_registry_def)

lemma zero_entry_stamps [simp]: "e_added (zero_entry z) = 0" "e_removed (zero_entry z) = 0"
  by (simp_all add: zero_entry_def)

lemma run_stamps:
  "e_added (lookup z (fold (apply_mutation z) ops new_registry) i) = newest_add i ops"
  "e_removed (lookup z (fold (apply_mutation z) ops new_registry) i) = newest_remove i ops"
  by (simp_all add: fold_mutations_added fold_mutations_removed max_absorb1)

lemma registry_present_iff:
  "registry_present r i \<noteq> None \<longleftrightarrow> e_removed (lookup z r i) < e_added (lookup z r i)"
  by (auto simp: registry_present_def entry_present_def lookup_def zero_entry_def split: option.splits)

lemma newest_remove_less: "newest_remove i ops < t \<longleftrightarrow>
    0 < t \<and> (\<forall>at. RemoveOp i at \<in> set ops \<longrightarrow> at < t)"
  by (induction ops) (auto split: mutation.splits)

lemma newest_add_greater: "0 \<le> s \<Longrightarrow> s < newest_add i ops \<longleftrightarrow>
    (\<exists>v at. AddOp i v at \<in> set ops \<and> s < at)"
  by (induction ops) (auto split: mutation.splits simp: less_max_iff_disj)

lemma remove_before_add: "newest_remove i ops < newest_add i ops \<longleftrightarrow>
    (\<exists>v at. AddOp i v at \<in> set ops \<and> newest_remove i ops < at)"
  by (rule newest_add_greater) simp

subsection \<open>A registry is determined by its stamps\<close>

definition touched :: "'v registry \<Rightarrow> bool" where
  "touched r \<longleftrightarrow> (\<forall>i e. r i = Some e \<longrightarrow> 0 < e_added e \<or> 0 < e_removed e)"

definition history :: "'v \<Rightarrow> 'v mutation set \<Rightarrow> 'v registry \<Rightarrow> bool" where
  "history z ops r \<longleftrightarrow> registry_wf z r \<and> from_ops ops r \<and> touched r"

lemma history_new [simp]: "history z ops new_registry"
  by (simp add: history_def touched_def) (simp add: new_registry_def)

lemma touched_add: "registry_wf z r \<Longrightarrow> touched r \<Longrightarrow> touched (registry_add z r i v at)"
  using lookup_wf [of z r i] by (auto simp: touched_def registry_add_def Let_def entry_wf_def)

lemma touched_remove: "registry_wf z r \<Longrightarrow> touched r \<Longrightarrow> touched (registry_remove z r i at)"
  using lookup_wf [of z r i] by (auto simp: touched_def registry_remove_def Let_def entry_wf_def)

lemma history_apply: "history z ops r \<Longrightarrow> op \<in> ops \<Longrightarrow> history z ops (apply_mutation z op r)"
  unfolding history_def
  by (cases op) (metis apply_mutation_wf mutation_from_ops apply_mutation.simps touched_add touched_remove)+

lemma history_fold: "history z ops r \<Longrightarrow> set xs \<subseteq> ops \<Longrightarrow> history z ops (fold (apply_mutation z) xs r)"
  by (induction xs arbitrary: r) (auto intro: history_apply)

lemma history_eqI:
  assumes h: "history z ops r" "history z ops s" and st: "stamped ops"
    and a: "\<And>i. e_added (lookup z r i) = e_added (lookup z s i)"
    and d: "\<And>i. e_removed (lookup z r i) = e_removed (lookup z s i)"
  shows "r = s"
proof
  fix i
  have none: "t i = None \<longleftrightarrow> e_added (lookup z t i) = 0 \<and> e_removed (lookup z t i) = 0"
    if "history z ops t" for t
    using that by (cases "t i") (fastforce simp: history_def touched_def)+
  show "r i = s i"
  proof (cases "r i")
    case None
    then show ?thesis using none [OF h(1)] none [OF h(2)] a d by metis
  next
    case (Some e)
    then obtain f where f: "s i = Some f"
      using none [OF h(1)] none [OF h(2)] a d by (metis not_None_eq)
    have st_eq: "e_added e = e_added f" "e_removed e = e_removed f"
      using a [of i] d [of i] Some f by simp_all
    have "e_value e = e_value f"
    proof (cases "e_added e = 0")
      case True
      then show ?thesis using h Some f st_eq
        by (auto simp: history_def registry_wf_def entry_wf_def)
    next
      case False
      then have "AddOp i (e_value e) (e_added e) \<in> ops" "AddOp i (e_value f) (e_added e) \<in> ops"
        using h Some f st_eq
        by (fastforce simp: history_def registry_wf_def entry_wf_def from_ops_def)+
      then show ?thesis using st by (auto simp: stamped_def)
    qed
    with st_eq Some f show ?thesis by simp
  qed
qed

lemma newest_mono:
  "set xs \<subseteq> set ys \<Longrightarrow> newest_add i xs \<le> newest_add i ys \<and> newest_remove i xs \<le> newest_remove i ys"
  by (metis newest_add_greater newest_nonneg not_le subset_iff less_irrefl
      newest_remove_less linorder_not_less)

lemma convergent_merge: "inj c \<Longrightarrow> convergent (merge z c)"
  by unfold_locales (rule merge_comm merge_assoc merge_idem, assumption?)+

subsection \<open>Properties\<close>

text \<open>C22. Merging registries is commutative, associative and idempotent when the payload's
  JSON encoding captures its identity: replicas may exchange their registries in any order,
  grouping or number of times.\<close>

theorem merge_semilattice:
  assumes "inj c"
  shows "merge z c a b = merge z c b a \<and>
    merge z c (merge z c a b) d = merge z c a (merge z c b d) \<and> merge z c a a = a"
  by (intro conjI merge_comm merge_assoc merge_idem assms)

lemma inj_quote: "inj quote"
  by (simp add: inj_def quote_inj)

theorem merge_semilattice_witness:
  "merge '''' quote [''h'' \<mapsto> \<lparr>e_added = 3, e_removed = 0, e_value = ''x''\<rparr>]
     [''h'' \<mapsto> \<lparr>e_added = 3, e_removed = 4, e_value = ''y''\<rparr>]
   = merge '''' quote [''h'' \<mapsto> \<lparr>e_added = 3, e_removed = 4, e_value = ''y''\<rparr>]
     [''h'' \<mapsto> \<lparr>e_added = 3, e_removed = 0, e_value = ''x''\<rparr>]"
  by (rule merge_semilattice [OF inj_quote, THEN conjunct1])



text \<open>Merging two replicas' registries gives the registry of the mutations of both: no
  mutation is lost by exchanging states instead of operations.\<close>

theorem merge_of_histories:
  assumes "inj c" and "stamped (set xs \<union> set ys)"
  shows "merge z c (fold (apply_mutation z) xs new_registry) (fold (apply_mutation z) ys new_registry)
    = fold (apply_mutation z) (ys @ xs) new_registry"
proof -
  let ?ops = "set xs \<union> set ys" and ?r = "fold (apply_mutation z) ys new_registry"
  have joins: "fold (apply_mutation z) us r = fold (merge z c) (map (delta z) us) r"
    if "history z ?ops r" "set us \<subseteq> ?ops" for us r
    using that mutations_are_joins assms(2) by (auto simp: history_def)
  have r: "history z ?ops ?r" by (simp add: history_fold)
  then have "merge z c new_registry ?r = ?r"
    using merge_new merge_comm [OF assms(1)] by (metis history_def)
  then show ?thesis
    using joins [of new_registry xs] joins [OF r, of xs]
      convergent.fold_join_comm [OF convergent_merge [OF assms(1)], of z "map (delta z) xs" new_registry ?r]
    by simp
qed

theorem merge_of_histories_witness:
  "merge '''' quote (fold (apply_mutation '''') [AddOp ''h'' ''x'' 5] new_registry)
     (fold (apply_mutation '''') [RemoveOp ''h'' 7] new_registry)
   = fold (apply_mutation '''') ([RemoveOp ''h'' 7] @ [AddOp ''h'' ''x'' 5]) new_registry"
  by (rule merge_of_histories [OF inj_quote]) (auto simp: stamped_def)

text \<open>After any history an item is present exactly when some add of it is strictly newer
  than every removal of it (and than the zero stamp): a tie keeps the item removed.\<close>

theorem present_iff_newest_add:
  "registry_present (fold (apply_mutation z) ops new_registry) i \<noteq> None \<longleftrightarrow>
     (\<exists>v at. AddOp i v at \<in> set ops \<and> 0 < at \<and> (\<forall>rt. RemoveOp i rt \<in> set ops \<longrightarrow> rt < at))"
  by (simp only: registry_present_iff [where z = z] run_stamps remove_before_add)
    (simp only: newest_remove_less)

theorem present_iff_newest_add_witness:
  "registry_present (fold (apply_mutation '''') [AddOp ''h'' ''x'' 5, RemoveOp ''h'' 5] new_registry) ''h'' = None"
  using present_iff_newest_add [of "''''" "[AddOp ''h'' ''x'' 5, RemoveOp ''h'' 5]" "''h''"] by auto

text \<open>Compaction drops no present item and keeps exactly the tombstones the horizon
  covers.\<close>

theorem compact_keeps_present:
  assumes "- (2 ^ 63) \<le> now - horizon" "now - horizon < 2 ^ 63"
  shows "registry_present (compact r now horizon) = registry_present r \<and>
    (\<forall>i e. r i = Some e \<and> \<not> entry_present e \<longrightarrow>
      (compact r now horizon i = Some e \<longleftrightarrow> now - horizon \<le> e_removed e))"
  using assms by (auto simp: compact_def registry_present_def wrap64_id Let_def fun_eq_iff
      split: option.splits)

theorem compact_keeps_present_witness:
  "registry_present (compact [''h'' \<mapsto> \<lparr>e_added = 5, e_removed = 2, e_value = ''x''\<rparr>] 100 10)
   = registry_present [''h'' \<mapsto> \<lparr>e_added = 5, e_removed = 2, e_value = ''x''\<rparr>]"
  by (rule compact_keeps_present [THEN conjunct1]) simp_all

end
