(* ===== verification/Go_Sha256.thy ===== *)
theory Go_Sha256
  imports Go_Text
begin

text \<open>
  Go's \<^verbatim>\<open>crypto/sha256\<close>, which names every object, batch and change of the repository:
  the FIPS 180-4 function on byte strings, over 32-bit words that wrap. Nothing in the
  development unfolds it; a theorem that needs two different byte strings to have different
  digests says so, on the byte strings it is about.
\<close>

unbundle bit_operations_syntax

type_synonym u32 = "32 word"

definition rotr :: "nat \<Rightarrow> u32 \<Rightarrow> u32" where
  "rotr n x = drop_bit n x OR push_bit (32 - n) x"

definition sha_k :: "u32 list" where
  "sha_k =
    [1116352408, 1899447441, 3049323471, 3921009573, 961987163, 1508970993, 2453635748,
     2870763221, 3624381080, 310598401, 607225278, 1426881987, 1925078388, 2162078206,
     2614888103, 3248222580, 3835390401, 4022224774, 264347078, 604807628, 770255983,
     1249150122, 1555081692, 1996064986, 2554220882, 2821834349, 2952996808, 3210313671,
     3336571891, 3584528711, 113926993, 338241895, 666307205, 773529912, 1294757372,
     1396182291, 1695183700, 1986661051, 2177026350, 2456956037, 2730485921, 2820302411,
     3259730800, 3345764771, 3516065817, 3600352804, 4094571909, 275423344, 430227734,
     506948616, 659060556, 883997877, 958139571, 1322822218, 1537002063, 1747873779,
     1955562222, 2024104815, 2227730452, 2361852424, 2428436474, 2756734187, 3204031479,
     3329325298]"

type_synonym sha_state = "u32 \<times> u32 \<times> u32 \<times> u32 \<times> u32 \<times> u32 \<times> u32 \<times> u32"

definition sha_init :: sha_state where
  "sha_init = (1779033703, 3144134277, 1013904242, 2773480762,
               1359893119, 2600822924, 528734635, 1541459225)"

definition sha_round :: "u32 \<Rightarrow> u32 \<Rightarrow> sha_state \<Rightarrow> sha_state" where
  "sha_round k w = (\<lambda>(a, b, c, d, e, f, g, h).
     let s1 = rotr 6 e XOR rotr 11 e XOR rotr 25 e;
         ch = (e AND f) XOR (NOT e AND g);
         t1 = h + s1 + ch + k + w;
         s0 = rotr 2 a XOR rotr 13 a XOR rotr 22 a;
         mj = (a AND b) XOR (a AND c) XOR (b AND c);
         t2 = s0 + mj
     in (t1 + t2, a, b, c, d + t1, e, f, g))"

text \<open>The message schedule, newest word first.\<close>

fun sha_schedule :: "nat \<Rightarrow> u32 list \<Rightarrow> u32 list" where
  "sha_schedule 0 ws = ws"
| "sha_schedule (Suc n) ws =
     (let x = ws ! 14; y = ws ! 1;
          s0 = rotr 7 x XOR rotr 18 x XOR drop_bit 3 x;
          s1 = rotr 17 y XOR rotr 19 y XOR drop_bit 10 y
      in sha_schedule n ((ws ! 15 + s0 + ws ! 6 + s1) # ws))"

definition sha_add :: "sha_state \<Rightarrow> sha_state \<Rightarrow> sha_state" where
  "sha_add = (\<lambda>(a, b, c, d, e, f, g, h) (a', b', c', d', e', f', g', h').
     (a + a', b + b', c + c', d + d', e + e', f + f', g + g', h + h'))"

definition sha_block :: "sha_state \<Rightarrow> u32 list \<Rightarrow> sha_state" where
  "sha_block s ws =
     sha_add s (fold (\<lambda>(k, w). sha_round k w) (zip sha_k (rev (sha_schedule 48 (rev ws)))) s)"

definition be_bytes :: "nat \<Rightarrow> int \<Rightarrow> bytes" where
  "be_bytes k n = map (\<lambda>i. char_of (n div 256 ^ (k - 1 - i) mod 256)) [0..<k]"

definition sha_pad :: "bytes \<Rightarrow> bytes" where
  "sha_pad b = b @ [CHR 0x80] @ replicate ((119 - length b mod 64) mod 64) (CHR 0x00) @
     be_bytes 8 (8 * int (length b))"

fun be_words :: "bytes \<Rightarrow> u32 list" where
  "be_words (a # b # c # d # rest) =
     word_of_int (((of_char a * 256 + of_char b) * 256 + of_char c) * 256 + of_char d) # be_words rest"
| "be_words _ = []"

fun sha_blocks :: "sha_state \<Rightarrow> u32 list \<Rightarrow> sha_state" where
  "sha_blocks s [] = s"
| "sha_blocks s (w # ws) = sha_blocks (sha_block s (take 16 (w # ws))) (drop 15 ws)"

definition sha256 :: "bytes \<Rightarrow> bytes" where
  "sha256 b = (case sha_blocks sha_init (be_words (sha_pad b)) of
     (a, b', c, d, e, f, g, h) \<Rightarrow>
       concat (map (\<lambda>w. be_bytes 4 (uint w)) [a, b', c, d, e, f, g, h]))"

lemma length_be_bytes [simp]: "length (be_bytes k n) = k"
  by (simp add: be_bytes_def)

lemma length_sha256 [simp]: "length (sha256 b) = 32"
  by (simp add: sha256_def split: prod.splits)

end
