(* ===== verification/Artifact_Ref.thy ===== *)
theory Artifact_Ref
  imports Go_Json Go_Sha256
begin

text \<open>
  The artifact data model (\<^verbatim>\<open>src/artifact/ref.go\<close>): digests, refs, canonical manifests, object
  entries and batch descriptors, with their validation and their encodings. A \<^verbatim>\<open>Digest\<close> and a
  \<^verbatim>\<open>Kind\<close> are Go strings. Sizes are \<^verbatim>\<open>int64\<close>; every sum the code forms is over at most
  \<^verbatim>\<open>MaxManifestBytes\<close> items of at most \<^verbatim>\<open>ChunkSize\<close> bytes and cannot wrap. A nil slice and an
  empty one are both the empty list: \<^verbatim>\<open>Encode\<close> normalises \<^verbatim>\<open>Chunks\<close>, \<^verbatim>\<open>Deps\<close> is \<^verbatim>\<open>omitempty\<close>, and
  a descriptor with no objects or no parts is invalid.
\<close>

type_synonym digest = string
type_synonym kind = string

definition ChunkSize :: int where "ChunkSize = 1048576"
definition PartSize :: int where "PartSize = 1048576"
definition MaxManifestBytes :: int where "MaxManifestBytes = 1048576"
definition MaxDeps :: int where "MaxDeps = 4096"
definition MaxBatchRaw :: int where "MaxBatchRaw = 33554432"
definition MaxBatchObjects :: int where "MaxBatchObjects = 16384"
definition MaxHaveDigests :: int where "MaxHaveDigests = 16384"
definition MaxClosurePage :: int where "MaxClosurePage = 16384"
definition MaxRoots :: int where "MaxRoots = 8192"
definition MaxPinRoots :: int where "MaxPinRoots = 2 * MaxRoots"
definition MaxIncoming :: int where "MaxIncoming = 8"
definition StagingTTL :: duration where "StagingTTL = 86400000000000"
definition GCGrace :: duration where "GCGrace = StagingTTL"
definition maxWireInt :: int where "maxWireInt = 2 ^ 53 - 1"
definition packMagic :: bytes where "packMagic = ''SKP1''"
definition maxPackBytes :: int where
  "maxPackBytes = int (length packMagic) + MaxBatchObjects * (1 + 32 + 10) + MaxBatchRaw + 1"
definition maxBatchParts :: int where "maxBatchParts = maxPackBytes div PartSize + 2"

definition ManifestSchema :: string where "ManifestSchema = ''synckit.artifact.manifest.v1''"
definition BatchSchema :: string where "BatchSchema = ''synckit.artifact.batch.v1''"
definition BatchCodec :: string where "BatchCodec = ''zstd''"
definition GroupMedia :: string where "GroupMedia = ''synckit.group''"
definition KindBlob :: kind where "KindBlob = ''blob''"
definition KindManifest :: kind where "KindManifest = ''manifest''"

lemma kinds_differ [simp]: "KindBlob \<noteq> KindManifest" "KindManifest \<noteq> KindBlob"
  by (simp_all add: KindBlob_def KindManifest_def)

definition digest_sum :: "bytes \<Rightarrow> digest" where
  "digest_sum b = hex_encode (sha256 b)"

definition validate_digest :: "digest \<Rightarrow> unit res" where
  "validate_digest d =
     (if length d \<noteq> 64 then Inl (ErrInvalid ''digest length'')
      else each (\<lambda>c. require (is_lower_hex c) (ErrInvalid ''digest character'')) d)"

record ref =
  r_digest :: digest
  r_kind :: kind
  r_size :: int

definition validate_ref :: "ref \<Rightarrow> unit res" where
  "validate_ref r = andthen (validate_digest (r_digest r)) (\<lambda>_.
     if r_kind r = KindBlob then
       require (\<not> (r_size r \<le> 0 \<or> r_size r > ChunkSize)) (ErrInvalid ''blob size'')
     else if r_kind r = KindManifest then
       require (\<not> (r_size r < 0 \<or> r_size r > maxWireInt)) (ErrInvalid ''manifest size'')
     else Inl (ErrInvalid ''ref kind''))"

fun validate_refs_from :: "digest list \<Rightarrow> string \<Rightarrow> ref list \<Rightarrow> unit res" where
  "validate_refs_from seen label [] = Inr ()"
| "validate_refs_from seen label (r # rs) = andthen (validate_ref r) (\<lambda>_.
     if r_digest r \<in> set seen then Inl (ErrInvalid (''duplicate '' @ label))
     else validate_refs_from (r_digest r # seen) label rs)"

definition validate_refs :: "ref list \<Rightarrow> string \<Rightarrow> unit res" where
  "validate_refs rs label = validate_refs_from [] label rs"

definition validate_roots :: "ref list \<Rightarrow> unit res" where
  "validate_roots roots =
     (if int (length roots) > MaxRoots then Inl (ErrInvalid ''too many roots'')
      else validate_refs roots ''root'')"

record chunk_ref =
  c_digest :: digest
  c_size :: int

record manifest =
  m_schema :: string
  m_media :: string
  m_size :: int
  m_chunks :: "chunk_ref list"
  m_deps :: "ref list"

text \<open>\<^verbatim>\<open>mediaPattern\<close>: one to 128 characters out of \<^verbatim>\<open>a-z 0-9 . + / -\<close>.\<close>

definition media_char :: "char \<Rightarrow> bool" where
  "media_char c \<longleftrightarrow> (let n = of_char c :: nat in
     (97 \<le> n \<and> n \<le> 122) \<or> (48 \<le> n \<and> n \<le> 57) \<or> c \<in> {CHR ''.'', CHR ''+'', CHR ''/'', CHR ''-''})"

definition media_ok :: "string \<Rightarrow> bool" where
  "media_ok s \<longleftrightarrow> 1 \<le> length s \<and> length s \<le> 128 \<and> list_all media_char s"

text \<open>The loop over a manifest's chunks; it returns the sum of their sizes.\<close>

fun validate_chunks :: "chunk_ref list \<Rightarrow> int \<Rightarrow> int res" where
  "validate_chunks [] acc = Inr acc"
| "validate_chunks (c # cs) acc = andthen (validate_digest (c_digest c)) (\<lambda>_.
     if c_size c \<le> 0 \<or> c_size c > ChunkSize then Inl (ErrInvalid ''chunk size'')
     else if cs \<noteq> [] \<and> c_size c \<noteq> ChunkSize then Inl (ErrInvalid ''non-final chunk size'')
     else validate_chunks cs (acc + c_size c))"

definition validate_manifest :: "manifest \<Rightarrow> unit res" where
  "validate_manifest m =
     (if m_schema m \<noteq> ManifestSchema then Inl (ErrInvalid ''manifest schema'')
      else if \<not> media_ok (m_media m) then Inl (ErrInvalid ''manifest media'')
      else andthen (validate_chunks (m_chunks m) 0) (\<lambda>acc.
        if acc \<noteq> m_size m then Inl (ErrInvalid ''manifest size'')
        else if int (length (m_deps m)) > MaxDeps then Inl (ErrInvalid ''too many deps'')
        else validate_refs (m_deps m) ''dep''))"

definition children :: "manifest \<Rightarrow> digest list" where
  "children m = map c_digest (m_chunks m) @ map r_digest (m_deps m)"

subsection \<open>The manifest encoding\<close>

text \<open>What \<^verbatim>\<open>json.Marshal\<close> writes: the fields in the order the struct declares them.\<close>

definition chunk_json :: "chunk_ref \<Rightarrow> json" where
  "chunk_json c = JObj [(''digest'', JStr (c_digest c)), (''size'', JNum (dec_int (c_size c)))]"

definition ref_json :: "ref \<Rightarrow> json" where
  "ref_json r = JObj [(''digest'', JStr (r_digest r)), (''kind'', JStr (r_kind r)),
     (''size'', JNum (dec_int (r_size r)))]"

definition manifest_json :: "manifest \<Rightarrow> json" where
  "manifest_json m = JObj ([(''schema'', JStr (m_schema m)), (''media'', JStr (m_media m)),
     (''size'', JNum (dec_int (m_size m))), (''chunks'', JArr (map chunk_json (m_chunks m)))] @
     (if m_deps m = [] then [] else [(''deps'', JArr (map ref_json (m_deps m)))]))"

definition encode_manifest :: "manifest \<Rightarrow> bytes res" where
  "encode_manifest m = andthen (validate_manifest m) (\<lambda>_.
     let encoded = render (manifest_json m) in
     if int (length encoded) > MaxManifestBytes then Inl (ErrInvalid ''manifest encodes too long'')
     else Inr encoded)"

definition set_chunk :: "string \<Rightarrow> json \<Rightarrow> chunk_ref \<Rightarrow> chunk_ref option" where
  "set_chunk k j c =
     (if k = ''digest'' then map_option (\<lambda>d. c\<lparr>c_digest := d\<rparr>) (as_str j (c_digest c))
      else if k = ''size'' then map_option (\<lambda>n. c\<lparr>c_size := n\<rparr>) (as_int j (c_size c))
      else None)"

definition set_ref :: "string \<Rightarrow> json \<Rightarrow> ref \<Rightarrow> ref option" where
  "set_ref k j r =
     (if k = ''digest'' then map_option (\<lambda>d. r\<lparr>r_digest := d\<rparr>) (as_str j (r_digest r))
      else if k = ''kind'' then map_option (\<lambda>d. r\<lparr>r_kind := d\<rparr>) (as_str j (r_kind r))
      else if k = ''size'' then map_option (\<lambda>n. r\<lparr>r_size := n\<rparr>) (as_int j (r_size r))
      else None)"

definition zero_chunk :: chunk_ref where "zero_chunk = \<lparr>c_digest = [], c_size = 0\<rparr>"
definition zero_ref :: ref where "zero_ref = \<lparr>r_digest = [], r_kind = [], r_size = 0\<rparr>"
definition zero_manifest :: manifest where
  "zero_manifest = \<lparr>m_schema = [], m_media = [], m_size = 0, m_chunks = [], m_deps = []\<rparr>"

definition json_ref :: "json \<Rightarrow> ref option" where
  "json_ref = as_struct set_ref zero_ref"

definition set_manifest :: "string \<Rightarrow> json \<Rightarrow> manifest \<Rightarrow> manifest option" where
  "set_manifest k j m =
     (if k = ''schema'' then map_option (\<lambda>s. m\<lparr>m_schema := s\<rparr>) (as_str j (m_schema m))
      else if k = ''media'' then map_option (\<lambda>s. m\<lparr>m_media := s\<rparr>) (as_str j (m_media m))
      else if k = ''size'' then map_option (\<lambda>n. m\<lparr>m_size := n\<rparr>) (as_int j (m_size m))
      else if k = ''chunks'' then
        map_option (\<lambda>cs. m\<lparr>m_chunks := cs\<rparr>) (as_list (as_struct set_chunk zero_chunk) j)
      else if k = ''deps'' then map_option (\<lambda>rs. m\<lparr>m_deps := rs\<rparr>) (as_list json_ref j)
      else None)"

definition decode_manifest :: "bytes \<Rightarrow> manifest res" where
  "decode_manifest b =
     (if int (length b) > MaxManifestBytes then Inl (ErrInvalid ''manifest too long'')
      else case decode_one b of
        None \<Rightarrow> Inl (ErrInvalid ''decode manifest'')
      | Some (j, rest) \<Rightarrow> (case as_struct set_manifest zero_manifest j of
          None \<Rightarrow> Inl (ErrInvalid ''decode manifest'')
        | Some m \<Rightarrow> andthen (encode_manifest m) (\<lambda>canonical.
            if canonical \<noteq> b then Inl (ErrInvalid ''manifest encoding is not canonical'')
            else Inr m)))"

subsection \<open>Entries and batch descriptors\<close>

record object_entry =
  o_digest :: digest
  o_kind :: kind
  o_size :: int

definition validate_entry :: "object_entry \<Rightarrow> unit res" where
  "validate_entry o' = andthen (validate_digest (o_digest o')) (\<lambda>_.
     if o_kind o' \<noteq> KindBlob \<and> o_kind o' \<noteq> KindManifest then Inl (ErrInvalid ''object kind'')
     else let limit = (if o_kind o' = KindManifest then MaxManifestBytes else ChunkSize) in
       require (\<not> (o_size o' \<le> 0 \<or> o_size o' > limit)) (ErrInvalid ''object size''))"

record closure_bound =
  max_objects :: int
  max_depth :: int
  max_bytes :: int

definition DefaultClosureBound :: closure_bound where
  "DefaultClosureBound = \<lparr>max_objects = 262144, max_depth = 32, max_bytes = 68719476736\<rparr>"

record part_ref =
  p_digest :: digest
  p_size :: int

record batch_descriptor =
  b_id :: digest
  b_schema :: string
  b_codec :: string
  b_raw_size :: int
  b_objects :: "object_entry list"
  b_parts :: "part_ref list"

definition entry_json :: "object_entry \<Rightarrow> json" where
  "entry_json o' = JObj [(''digest'', JStr (o_digest o')), (''kind'', JStr (o_kind o')),
     (''size'', JNum (dec_int (o_size o')))]"

definition part_json :: "part_ref \<Rightarrow> json" where
  "part_json p = JObj [(''digest'', JStr (p_digest p)), (''size'', JNum (dec_int (p_size p)))]"

definition descriptor_json :: "batch_descriptor \<Rightarrow> json" where
  "descriptor_json d = JObj [(''id'', JStr (b_id d)), (''schema'', JStr (b_schema d)),
     (''codec'', JStr (b_codec d)), (''raw_size'', JNum (dec_int (b_raw_size d))),
     (''objects'', JArr (map entry_json (b_objects d))),
     (''parts'', JArr (map part_json (b_parts d)))]"

definition compute_id :: "batch_descriptor \<Rightarrow> digest" where
  "compute_id d = digest_sum (render (descriptor_json (d\<lparr>b_id := []\<rparr>)))"

text \<open>The number of bytes \<^verbatim>\<open>binary.AppendUvarint\<close> writes, seven bits to a byte.\<close>

function uvarint_len :: "int \<Rightarrow> int" where
  "uvarint_len v = (if v \<ge> 128 then 1 + uvarint_len (v div 128) else 1)"
  by pat_completeness auto
termination
  by (relation "measure nat") auto

declare uvarint_len.simps [simp del]

fun sum_sizes :: "object_entry list \<Rightarrow> int" where
  "sum_sizes [] = 0"
| "sum_sizes (x # xs) = o_size x + sum_sizes xs"

fun pack_objects_size :: "object_entry list \<Rightarrow> int" where
  "pack_objects_size [] = 0"
| "pack_objects_size (x # xs) = 1 + 32 + uvarint_len (o_size x) + o_size x + pack_objects_size xs"

definition pack_size :: "object_entry list \<Rightarrow> int" where
  "pack_size objects = int (length packMagic) + 1 + pack_objects_size objects"

fun validate_entries :: "digest list \<Rightarrow> object_entry list \<Rightarrow> unit res" where
  "validate_entries seen [] = Inr ()"
| "validate_entries seen (x # xs) = andthen (validate_entry x) (\<lambda>_.
     if o_digest x \<in> set seen then Inl (ErrInvalid ''duplicate batch object'')
     else validate_entries (o_digest x # seen) xs)"

fun validate_parts :: "part_ref list \<Rightarrow> unit res" where
  "validate_parts [] = Inr ()"
| "validate_parts (p # ps) = andthen (validate_digest (p_digest p)) (\<lambda>_.
     if p_size p \<le> 0 \<or> p_size p > PartSize then Inl (ErrInvalid ''part size'')
     else if ps \<noteq> [] \<and> p_size p \<noteq> PartSize then Inl (ErrInvalid ''non-final part size'')
     else validate_parts ps)"

definition validate_descriptor :: "batch_descriptor \<Rightarrow> unit res" where
  "validate_descriptor d =
     (if b_schema d \<noteq> BatchSchema \<or> b_codec d \<noteq> BatchCodec then Inl (ErrInvalid ''batch schema'')
      else if b_objects d = [] \<or> int (length (b_objects d)) > MaxBatchObjects then
        Inl (ErrInvalid ''batch objects'')
      else andthen (validate_entries [] (b_objects d)) (\<lambda>_.
        if sum_sizes (b_objects d) > MaxBatchRaw then Inl (ErrInvalid ''batch object bytes'')
        else if b_raw_size d \<noteq> pack_size (b_objects d) then Inl (ErrInvalid ''batch raw size'')
        else if b_parts d = [] \<or> int (length (b_parts d)) > maxBatchParts then
          Inl (ErrInvalid ''batch parts'')
        else andthen (validate_parts (b_parts d)) (\<lambda>_.
          require (b_id d = compute_id d) (ErrInvalid ''batch id''))))"

definition new_batch_descriptor :: "int \<Rightarrow> object_entry list \<Rightarrow> part_ref list \<Rightarrow> batch_descriptor res" where
  "new_batch_descriptor raw_size objects parts =
     (let d = \<lparr>b_id = [], b_schema = BatchSchema, b_codec = BatchCodec, b_raw_size = raw_size,
               b_objects = objects, b_parts = parts\<rparr>;
          d' = d\<lparr>b_id := compute_id d\<rparr> in
      andthen (validate_descriptor d') (\<lambda>_. Inr d'))"

record commit_report =
  cr_stored :: int
  cr_present :: int
  cr_bytes :: int

record pin_set =
  ps_owner :: string
  ps_roots :: "ref list"
  ps_updated_at :: gotime

record gc_report =
  gr_marked :: int
  gr_removed :: int
  gr_freed_bytes :: int
  gr_staging_removed :: int

subsection \<open>Digests\<close>

lemma digest_sum_valid [simp]: "validate_digest (digest_sum b) = Inr ()"
proof -
  have "validate_digest (digest_sum b) = Inr () \<longleftrightarrow> list_all is_lower_hex (digest_sum b)"
    by (simp add: validate_digest_def digest_sum_def each_Inr_iff list_all_iff)
  then show ?thesis using hex_encode_lower by (simp add: digest_sum_def)
qed

lemma sample_digest: "is_lower_hex c \<Longrightarrow> validate_digest (replicate 64 c) = Inr ()"
  by (simp add: validate_digest_def each_Inr_iff)

lemma validate_digest_iff: "validate_digest d = Inr u \<longleftrightarrow> length d = 64 \<and> list_all is_lower_hex d"
  by (auto simp: validate_digest_def each_Inr_iff list_all_iff)

lemma digest_sum_eq_iff: "digest_sum a = digest_sum b \<longleftrightarrow> sha256 a = sha256 b"
  by (metis digest_sum_def hex_decode_encode option.inject)

text \<open>
  Collision freedom of the hash on the byte strings in play. It is a hypothesis of the
  properties that identify content by digest, on the strings they compare.
\<close>

definition collision_free :: "bytes set \<Rightarrow> bool" where
  "collision_free S \<longleftrightarrow> inj_on digest_sum S"

lemma collision_freeD: "collision_free S \<Longrightarrow> a \<in> S \<Longrightarrow> b \<in> S \<Longrightarrow> digest_sum a = digest_sum b \<longleftrightarrow> a = b"
  by (auto simp: collision_free_def inj_on_def)

subsection \<open>Validation\<close>

lemma validate_ref_iff: "validate_ref r = Inr u \<longleftrightarrow> validate_digest (r_digest r) = Inr () \<and>
   (r_kind r = KindBlob \<and> 0 < r_size r \<and> r_size r \<le> ChunkSize
    \<or> r_kind r = KindManifest \<and> 0 \<le> r_size r \<and> r_size r \<le> maxWireInt)"
  by (auto simp: validate_ref_def andthen_Inr_iff)

lemma validate_refs_from_iff: "validate_refs_from seen l rs = Inr u \<longleftrightarrow>
   (\<forall>r \<in> set rs. validate_ref r = Inr ()) \<and> distinct (map r_digest rs) \<and>
   set (map r_digest rs) \<inter> set seen = {}"
  by (induction seen l rs rule: validate_refs_from.induct) (auto simp: andthen_Inr_iff)

lemma validate_refs_iff: "validate_refs rs l = Inr u \<longleftrightarrow>
   (\<forall>r \<in> set rs. validate_ref r = Inr ()) \<and> distinct (map r_digest rs)"
  by (simp add: validate_refs_def validate_refs_from_iff)

lemma validate_roots_iff: "validate_roots rs = Inr u \<longleftrightarrow> int (length rs) \<le> MaxRoots \<and>
   (\<forall>r \<in> set rs. validate_ref r = Inr ()) \<and> distinct (map r_digest rs)"
  by (auto simp: validate_roots_def validate_refs_iff)

text \<open>Every chunk but the last is full, so the chunk that holds an offset is found by
  division.\<close>

definition chunk_ok :: "chunk_ref \<Rightarrow> bool" where
  "chunk_ok c \<longleftrightarrow> validate_digest (c_digest c) = Inr () \<and> 0 < c_size c \<and> c_size c \<le> ChunkSize"

lemma validate_chunks_Inr_iff: "validate_chunks cs n = Inr s \<longleftrightarrow>
   (\<forall>c \<in> set cs. chunk_ok c) \<and> (\<forall>c \<in> set (butlast cs). c_size c = ChunkSize) \<and>
   s = n + (\<Sum>c \<leftarrow> cs. c_size c)"
  by (induction cs n rule: validate_chunks.induct) (auto simp: andthen_Inr_iff chunk_ok_def)

lemma sum_full: "(\<forall>c \<in> set cs. c_size c = ChunkSize) \<Longrightarrow> (\<Sum>c \<leftarrow> cs. c_size c) = int (length cs) * ChunkSize"
  by (induction cs) (auto simp: distrib_right)

lemma sum_chunks:
  assumes "\<forall>c \<in> set (butlast cs). c_size c = ChunkSize" "cs \<noteq> []"
  shows "(\<Sum>c \<leftarrow> cs. c_size c) = (int (length cs) - 1) * ChunkSize + c_size (last cs)"
proof -
  have "(\<Sum>c \<leftarrow> cs. c_size c) = (\<Sum>c \<leftarrow> butlast cs. c_size c) + c_size (last cs)"
  proof -
    have "(\<Sum>c \<leftarrow> butlast cs @ [last cs]. c_size c) = (\<Sum>c \<leftarrow> butlast cs. c_size c) + c_size (last cs)"
      by simp
    with assms(2) show ?thesis by simp
  qed
  with sum_full [OF assms(1)] assms(2) show ?thesis
    by (cases cs) simp_all
qed

lemma validate_manifest_iff: "validate_manifest m = Inr u \<longleftrightarrow>
   m_schema m = ManifestSchema \<and> media_ok (m_media m) \<and>
   (\<forall>c \<in> set (m_chunks m). chunk_ok c) \<and>
   (\<forall>c \<in> set (butlast (m_chunks m)). c_size c = ChunkSize) \<and>
   m_size m = (\<Sum>c \<leftarrow> m_chunks m. c_size c) \<and> int (length (m_deps m)) \<le> MaxDeps \<and>
   (\<forall>r \<in> set (m_deps m). validate_ref r = Inr ()) \<and> distinct (map r_digest (m_deps m))"
  by (auto simp: validate_manifest_def andthen_Inr_iff validate_chunks_Inr_iff validate_refs_iff)

lemma validate_entry_iff: "validate_entry x = Inr u \<longleftrightarrow>
   validate_digest (o_digest x) = Inr () \<and> 0 < o_size x \<and>
   (o_kind x = KindBlob \<and> o_size x \<le> ChunkSize
    \<or> o_kind x = KindManifest \<and> o_size x \<le> MaxManifestBytes)"
  by (auto simp: validate_entry_def andthen_Inr_iff Let_def)

lemma validate_entries_iff: "validate_entries seen xs = Inr u \<longleftrightarrow>
   (\<forall>x \<in> set xs. validate_entry x = Inr ()) \<and> distinct (map o_digest xs) \<and>
   set (map o_digest xs) \<inter> set seen = {}"
  by (induction seen xs rule: validate_entries.induct) (auto simp: andthen_Inr_iff)

lemma validate_parts_iff: "validate_parts ps = Inr u \<longleftrightarrow>
   (\<forall>p \<in> set ps. validate_digest (p_digest p) = Inr () \<and> 0 < p_size p \<and> p_size p \<le> PartSize) \<and>
   (\<forall>p \<in> set (butlast ps). p_size p = PartSize)"
  by (induction ps rule: validate_parts.induct) (auto simp: andthen_Inr_iff)

lemma validate_descriptor_iff: "validate_descriptor d = Inr u \<longleftrightarrow>
   b_schema d = BatchSchema \<and> b_codec d = BatchCodec \<and> b_objects d \<noteq> [] \<and>
   int (length (b_objects d)) \<le> MaxBatchObjects \<and> validate_entries [] (b_objects d) = Inr () \<and>
   sum_sizes (b_objects d) \<le> MaxBatchRaw \<and> b_raw_size d = pack_size (b_objects d) \<and>
   b_parts d \<noteq> [] \<and> int (length (b_parts d)) \<le> maxBatchParts \<and>
   validate_parts (b_parts d) = Inr () \<and> b_id d = compute_id d"
  by (auto simp: validate_descriptor_def andthen_Inr_iff)

lemma new_batch_descriptor_Inr: "new_batch_descriptor n xs ps = Inr d \<Longrightarrow>
   validate_descriptor d = Inr () \<and> b_raw_size d = n \<and> b_objects d = xs \<and> b_parts d = ps"
  by (auto simp: new_batch_descriptor_def andthen_Inr_iff Let_def)

subsection \<open>Encoding\<close>

lemma json_ok_manifest [simp]: "json_ok (manifest_json m)"
  by (auto simp: manifest_json_def chunk_json_def ref_json_def)

lemma json_ok_descriptor [simp]: "json_ok (descriptor_json d)"
  by (auto simp: descriptor_json_def entry_json_def part_json_def)

lemma as_struct_chunk: "- (2 ^ 63) \<le> c_size c \<Longrightarrow> c_size c < 2 ^ 63 \<Longrightarrow>
   as_struct set_chunk zero_chunk (chunk_json c) = Some c"
  by (simp add: chunk_json_def set_chunk_def zero_chunk_def)

lemma json_ref_inverse: "- (2 ^ 63) \<le> r_size r \<Longrightarrow> r_size r < 2 ^ 63 \<Longrightarrow> json_ref (ref_json r) = Some r"
  by (simp add: json_ref_def ref_json_def set_ref_def zero_ref_def)

lemma valid_ref_size: "validate_ref r = Inr () \<Longrightarrow> - (2 ^ 63) \<le> r_size r \<and> r_size r < 2 ^ 63"
  by (auto simp: validate_ref_iff ChunkSize_def maxWireInt_def)

lemma chunk_ok_size: "chunk_ok c \<Longrightarrow> - (2 ^ 63) \<le> c_size c \<and> c_size c < 2 ^ 63"
  by (auto simp: chunk_ok_def ChunkSize_def)

lemma as_struct_manifest:
  assumes v: "validate_manifest m = Inr ()" and n: "- (2 ^ 63) \<le> m_size m" "m_size m < 2 ^ 63"
  shows "as_struct set_manifest zero_manifest (manifest_json m) = Some m"
proof -
  have c: "those (map (as_struct set_chunk zero_chunk) (map chunk_json (m_chunks m))) = Some (m_chunks m)"
    using v chunk_ok_size
    by (intro those_map_inverse ballI as_struct_chunk) (auto simp: validate_manifest_iff simp del: power_numeral)
  have r: "those (map json_ref (map ref_json (m_deps m))) = Some (m_deps m)"
    using v valid_ref_size
    by (intro those_map_inverse ballI json_ref_inverse) (auto simp: validate_manifest_iff simp del: power_numeral)
  show ?thesis using n c r
    by (simp add: manifest_json_def set_manifest_def zero_manifest_def del: map_map)
qed

lemma length_sep_by_ge: "(\<forall>x \<in> set xs. x \<noteq> []) \<Longrightarrow> length xs \<le> length (sep_by d xs)"
proof (induction d xs rule: sep_by.induct)
  case (3 d x y xs)
  then have "0 < length x" "length (y # xs) \<le> length (sep_by d (y # xs))" by auto
  then have "Suc (Suc (length xs)) \<le> length x + (length d + length (sep_by d (y # xs)))"
    unfolding list.size by linarith
  then show ?case by simp
qed (auto simp: Suc_le_eq)

lemma manifest_chunks_le: "length (m_chunks m) \<le> length (render (manifest_json m))"
proof -
  have "length (m_chunks m) \<le> length (sep_by '','' (map render (map chunk_json (m_chunks m))))"
    using length_sep_by_ge [of "map render (map chunk_json (m_chunks m))" "'',''"]
    by (auto simp: chunk_json_def)
  then show ?thesis by (auto simp: manifest_json_def)
qed

lemma encoded_size:
  assumes "encode_manifest m = Inr b"
  shows "0 \<le> m_size m" "m_size m \<le> MaxManifestBytes * ChunkSize"
proof -
  have v: "validate_manifest m = Inr ()" and b: "int (length (m_chunks m)) \<le> MaxManifestBytes"
    using assms manifest_chunks_le [of m]
    by (auto simp: encode_manifest_def andthen_Inr_iff Let_def split: if_splits)
  have c: "\<forall>c \<in> set (m_chunks m). 0 < c_size c \<and> c_size c \<le> ChunkSize"
    using v by (auto simp: validate_manifest_iff chunk_ok_def)
  have "0 \<le> (\<Sum>c \<leftarrow> cs. c_size c) \<and> (\<Sum>c \<leftarrow> cs. c_size c) \<le> int (length cs) * ChunkSize"
    if "\<forall>c \<in> set cs. 0 < c_size c \<and> c_size c \<le> ChunkSize" for cs :: "chunk_ref list"
    using that by (induction cs) (auto simp: distrib_right)
  from this [OF c] v b show "0 \<le> m_size m" "m_size m \<le> MaxManifestBytes * ChunkSize"
    by (auto simp: validate_manifest_iff ChunkSize_def)
qed

lemma encode_manifest_Inr: "encode_manifest m = Inr b \<longleftrightarrow>
   validate_manifest m = Inr () \<and> b = render (manifest_json m) \<and> int (length b) \<le> MaxManifestBytes"
  by (auto simp: encode_manifest_def andthen_Inr_iff Let_def)

lemma decode_encode:
  assumes "encode_manifest m = Inr b"
  shows "decode_manifest b = Inr m"
proof -
  from assms have v: "validate_manifest m = Inr ()" and b: "b = render (manifest_json m)"
    and l: "int (length b) \<le> MaxManifestBytes"
    by (auto simp: encode_manifest_Inr)
  have "decode_one b = Some (manifest_json m, [])"
    using decode_one_render [of "manifest_json m" "[]"] b by (simp add: num_end_def)
  moreover have "as_struct set_manifest zero_manifest (manifest_json m) = Some m"
    using encoded_size [OF assms] v
    by (intro as_struct_manifest) (auto simp: MaxManifestBytes_def ChunkSize_def)
  ultimately show ?thesis using l assms by (simp add: decode_manifest_def)
qed

lemma decode_manifest_Inr: "decode_manifest b = Inr m \<longleftrightarrow> encode_manifest m = Inr b"
proof
  assume "decode_manifest b = Inr m"
  then show "encode_manifest m = Inr b"
    by (auto simp: decode_manifest_def andthen_Inr_iff split: if_splits option.splits)
qed (rule decode_encode)

lemma decode_validates: "decode_manifest b = Inr m \<Longrightarrow> validate_manifest m = Inr ()"
  by (simp add: decode_manifest_Inr encode_manifest_Inr)

lemma dec_int_inj: "dec_int a = dec_int b \<longleftrightarrow> a = b"
proof -
  have "dec_nat m = dec_nat n \<longleftrightarrow> m = n" for m n by (metis digits_val_dec_nat)
  moreover have "CHR ''-'' # x \<noteq> dec_nat n" "dec_nat n \<noteq> CHR ''-'' # x" for x n
    using dec_nat_not_minus [of n] by metis+
  ultimately show ?thesis by (auto simp: dec_int_def)
qed

lemma entry_json_inj: "inj entry_json" and part_json_inj: "inj part_json"
  by (auto simp: inj_def entry_json_def part_json_def dec_int_inj)

lemma descriptor_json_inj: "descriptor_json d = descriptor_json d' \<Longrightarrow> d = d'"
  by (auto simp: descriptor_json_def dec_int_inj inj_map_eq_map [OF entry_json_inj]
      inj_map_eq_map [OF part_json_inj])

subsection \<open>Every refusal is an \<open>ErrInvalid\<close>\<close>

definition invalid_only :: "'a res \<Rightarrow> bool" where
  "invalid_only r \<longleftrightarrow> (\<forall>e. r = Inl e \<longrightarrow> (\<exists>t. e = ErrInvalid t))"

lemma invalid_only_simps [simp]: "invalid_only (Inr x)" "invalid_only (Inl (ErrInvalid t))"
  "invalid_only (require b (ErrInvalid t))"
  by (auto simp: invalid_only_def require_def)

lemma invalid_only_andthen:
  "invalid_only r \<Longrightarrow> (\<And>x. r = Inr x \<Longrightarrow> invalid_only (k x)) \<Longrightarrow> invalid_only (andthen r k)"
  by (cases r) (auto simp: invalid_only_def)

lemma invalid_only_each: "(\<And>x. invalid_only (f x)) \<Longrightarrow> invalid_only (each f xs)"
  by (induction xs) (auto intro: invalid_only_andthen)

lemma invalid_only_digest [simp]: "invalid_only (validate_digest d)"
  by (auto simp: validate_digest_def intro: invalid_only_each)

lemma invalid_only_ref [simp]: "invalid_only (validate_ref r)"
  unfolding validate_ref_def by (rule invalid_only_andthen) auto

lemma invalid_only_refs_from [simp]: "invalid_only (validate_refs_from seen l rs)"
  by (induction seen l rs rule: validate_refs_from.induct) (auto intro!: invalid_only_andthen)

lemma invalid_only_chunks [simp]: "invalid_only (validate_chunks cs n)"
  by (induction cs n rule: validate_chunks.induct) (auto intro!: invalid_only_andthen)

lemma invalid_only_manifest [simp]: "invalid_only (validate_manifest m)"
  by (auto simp: validate_manifest_def validate_refs_def intro!: invalid_only_andthen)

lemma invalid_only_encode [simp]: "invalid_only (encode_manifest m)"
  unfolding encode_manifest_def by (rule invalid_only_andthen) (auto simp: Let_def)

lemma invalid_only_decode [simp]: "invalid_only (decode_manifest b)"
  by (auto simp: decode_manifest_def intro!: invalid_only_andthen split: option.split)

subsection \<open>The packing of small sums\<close>

lemma uvarint_len_pos: "1 \<le> uvarint_len v"
  by (induction v rule: uvarint_len.induct) (subst uvarint_len.simps, auto)

lemma sum_sizes_nonneg: "\<forall>x \<in> set xs. 0 < o_size x \<Longrightarrow> 0 \<le> sum_sizes xs"
  by (induction xs) auto

lemma uvarint_len_mono_bound: "v < 128 ^ k \<Longrightarrow> 1 \<le> k \<Longrightarrow> uvarint_len v \<le> int k"
proof (induction v arbitrary: k rule: uvarint_len.induct)
  case (1 v)
  show ?case
  proof (cases "v \<ge> 128")
    case True
    then obtain j where j: "k = Suc j" "1 \<le> j"
      using 1 by (cases k; cases "k - 1") auto
    with 1 True have "v div 128 < 128 ^ j" by auto
    with 1 True j have "uvarint_len (v div 128) \<le> int j" by blast
    with True j show ?thesis by (subst uvarint_len.simps) simp
  next
    case False
    with 1 show ?thesis by (subst uvarint_len.simps) simp
  qed
qed

lemma pack_objects_size_le:
  assumes "\<forall>x \<in> set xs. o_size x < 128 ^ 10"
  shows "pack_objects_size xs \<le> int (length xs) * (1 + 32 + 10) + sum_sizes xs"
  using assms
proof (induction xs)
  case (Cons x xs)
  then have "uvarint_len (o_size x) \<le> 10" using uvarint_len_mono_bound [of "o_size x" 10] by simp
  with Cons show ?case by (auto simp: distrib_right)
qed simp

subsection \<open>Properties\<close>

text \<open>C24. A byte string decodes to a manifest exactly when it is that manifest's canonical
  encoding: decoding inverts encoding, and two different byte strings never decode to the same
  manifest.\<close>

theorem manifest_canonical: "decode_manifest b = Inr m \<longleftrightarrow> encode_manifest m = Inr b"
  by (rule decode_manifest_Inr)

text \<open>The size a valid manifest declares determines how many chunks it has: all but the last
  are full, so the chunk of an offset is found by division.\<close>

theorem manifest_chunk_count:
  assumes "validate_manifest m = Inr ()"
  shows "int (length (m_chunks m)) = (m_size m + ChunkSize - 1) div ChunkSize"
proof (cases "m_chunks m = []")
  case True
  with assms show ?thesis by (simp add: validate_manifest_iff ChunkSize_def)
next
  case False
  then have l: "chunk_ok (last (m_chunks m))" and s: "m_size m =
      (int (length (m_chunks m)) - 1) * ChunkSize + c_size (last (m_chunks m))"
    using assms sum_chunks [of "m_chunks m"] by (simp_all add: validate_manifest_iff)
  have c: "0 < c_size (last (m_chunks m))" "c_size (last (m_chunks m)) \<le> ChunkSize"
    using l by (simp_all add: chunk_ok_def)
  have "m_size m + ChunkSize - 1 = (c_size (last (m_chunks m)) - 1) + int (length (m_chunks m)) * ChunkSize"
    unfolding s by (simp add: algebra_simps)
  also have "\<dots> div ChunkSize = int (length (m_chunks m))"
    using c by (subst div_mult_self1) (simp_all add: ChunkSize_def)
  finally show ?thesis by simp
qed

theorem manifest_chunk_count_witness:
  "int (length (m_chunks \<lparr>m_schema = ManifestSchema, m_media = ''text'', m_size = 1048577,
     m_chunks = [\<lparr>c_digest = replicate 64 (CHR ''a''), c_size = 1048576\<rparr>,
                 \<lparr>c_digest = replicate 64 (CHR ''b''), c_size = 1\<rparr>], m_deps = []\<rparr>)) = 2"
  by (subst manifest_chunk_count)
    (simp_all add: validate_manifest_def ChunkSize_def MaxDeps_def media_ok_def
      media_char_def validate_refs_def sample_digest is_lower_hex_def Let_def)

definition sample_descriptor :: batch_descriptor where
  "sample_descriptor =
     (let d = \<lparr>b_id = [], b_schema = BatchSchema, b_codec = BatchCodec, 
        b_raw_size = int (length packMagic) + 36,
        b_objects = [\<lparr>o_digest = replicate 64 (CHR ''a''), o_kind = KindBlob, o_size = 1\<rparr>],
        b_parts = [\<lparr>p_digest = replicate 64 (CHR ''b''), p_size = 9\<rparr>]\<rparr> in d\<lparr>b_id := compute_id d\<rparr>)"

lemma sample_descriptor_valid: "validate_descriptor sample_descriptor = Inr ()"
  by (auto simp: sample_descriptor_def validate_descriptor_iff Let_def compute_id_def MaxBatchObjects_def
      MaxBatchRaw_def maxBatchParts_def maxPackBytes_def andthen_def validate_entry_def pack_size_def
      packMagic_def uvarint_len.simps PartSize_def ChunkSize_def is_lower_hex_def sample_digest)

text \<open>A batch identifier names its content: two valid descriptors with one identifier are
  equal, as long as the hash does not collide on their encodings.\<close>

theorem descriptor_identity:
  assumes "validate_descriptor d = Inr ()" and "validate_descriptor d' = Inr ()"
    and "b_id d = b_id d'"
    and "collision_free {render (descriptor_json (d\<lparr>b_id := []\<rparr>)), render (descriptor_json (d'\<lparr>b_id := []\<rparr>))}"
  shows "d = d'"
proof -
  have "render (descriptor_json (d\<lparr>b_id := []\<rparr>)) = render (descriptor_json (d'\<lparr>b_id := []\<rparr>))"
    using assms collision_freeD [OF assms(4)]
    by (simp add: validate_descriptor_iff compute_id_def)
  then have "d\<lparr>b_id := []\<rparr> = d'\<lparr>b_id := []\<rparr>"
    by (intro descriptor_json_inj render_inj) simp_all
  with assms(3) show ?thesis by (cases d; cases d') simp
qed

theorem descriptor_identity_witness:
  "sample_descriptor\<lparr>b_id := compute_id sample_descriptor\<rparr> = sample_descriptor"
  by (rule descriptor_identity [OF _ sample_descriptor_valid])
    (use sample_descriptor_valid in \<open>auto simp: validate_descriptor_iff collision_free_def compute_id_def\<close>)

text \<open>A valid descriptor's pack stream fits the bound the decoder allocates for.\<close>

theorem pack_stream_bounded:
  assumes "validate_descriptor d = Inr ()"
  shows "0 < b_raw_size d \<and> b_raw_size d \<le> maxPackBytes"
proof -
  have e: "\<forall>x \<in> set (b_objects d). 0 < o_size x \<and> o_size x < 128 ^ 10"
    using assms by (auto simp: validate_descriptor_iff validate_entries_iff validate_entry_iff
        ChunkSize_def MaxManifestBytes_def)
  have p: "0 \<le> pack_objects_size xs" if "\<forall>x \<in> set xs. 0 < o_size x" for xs
    using that uvarint_len_pos by (induction xs) (auto intro!: add_nonneg_nonneg simp: order.trans [OF zero_le_one])
  have "0 \<le> pack_objects_size (b_objects d)" using e by (intro p) simp
  with e assms pack_objects_size_le [of "b_objects d"] show ?thesis
    by (auto simp: validate_descriptor_iff pack_size_def maxPackBytes_def MaxBatchObjects_def
        MaxBatchRaw_def packMagic_def)
qed

theorem pack_stream_bounded_witness: "b_raw_size sample_descriptor \<le> maxPackBytes"
  using pack_stream_bounded [OF sample_descriptor_valid] by simp

end
