(* ===== verification/Artifact_Pack.thy ===== *)
theory Artifact_Pack
  imports Artifact_Ref
begin

text \<open>
  The pack stream (\<^verbatim>\<open>src/artifact/pack.go\<close>): the byte stream a batch's objects travel in,
  its writer, its split into parts, and the scanner that checks a stream against its
  descriptor object by object. The zstd stream around it is third-party code: the scanner
  reads what the decoder yields, given as the bytes it produces and how it ends (\<open>None\<close> is
  \<^verbatim>\<open>io.EOF\<close>).
\<close>

definition packEnd :: char where "packEnd = CHR 0x00"
definition packBlob :: char where "packBlob = CHR 0x01"
definition packManifest :: char where "packManifest = CHR 0x02"

definition pack_kind :: "kind \<Rightarrow> char" where
  "pack_kind k = (if k = KindManifest then packManifest else packBlob)"

subsection \<open>Varints\<close>

text \<open>\<^verbatim>\<open>binary.AppendUvarint\<close> and \<^verbatim>\<open>binary.ReadUvarint\<close>; the reader takes at most ten bytes and
  refuses a value past \<^verbatim>\<open>uint64\<close>. Its first argument is the number of bytes already read.\<close>

function put_uvarint :: "int \<Rightarrow> bytes" where
  "put_uvarint v =
     (if v \<ge> 128 then char_of (v mod 128 + 128) # put_uvarint (v div 128) else [char_of v])"
  by pat_completeness auto
termination
  by (relation "measure nat") auto

declare put_uvarint.simps [simp del]

fun read_uvarint :: "nat \<Rightarrow> bytes \<Rightarrow> (int \<times> bytes) option" where
  "read_uvarint i [] = None"
| "read_uvarint i (c # cs) =
     (let b = of_char c :: int in
      if i \<ge> 10 then None
      else if b < 128 then (if i = 9 \<and> b > 1 then None else Some (b, cs))
      else map_option (\<lambda>(v, rest). (b - 128 + 128 * v, rest)) (read_uvarint (Suc i) cs))"

subsection \<open>The writer\<close>

text \<open>\<^verbatim>\<open>packWriter.object\<close>: the bytes one object adds to the stream.\<close>

definition pack_object :: "object_entry \<Rightarrow> bytes \<Rightarrow> bytes res" where
  "pack_object x data =
     (case hex_decode (o_digest x) of
        None \<Rightarrow> Inl (ErrInvalid ''object digest'')
      | Some dg \<Rightarrow> Inr (pack_kind (o_kind x) # dg @ put_uvarint (o_size x) @ data))"

fun pack_objects :: "(object_entry \<times> bytes) list \<Rightarrow> bytes res" where
  "pack_objects [] = Inr []"
| "pack_objects ((x, data) # xs) =
     andthen (pack_object x data) (\<lambda>b. andthen (pack_objects xs) (\<lambda>rest. Inr (b @ rest)))"

text \<open>\<^verbatim>\<open>begin\<close>, every object, \<^verbatim>\<open>end\<close>.\<close>

definition pack_stream :: "(object_entry \<times> bytes) list \<Rightarrow> bytes res" where
  "pack_stream xs = andthen (pack_objects xs) (\<lambda>b. Inr (packMagic @ b @ [packEnd]))"

subsection \<open>Parts\<close>

text \<open>
  \<^verbatim>\<open>partWriter\<close>: a buffer that is flushed to a part file whenever it is full. A part is kept
  with the bytes of its file.
\<close>

record part_writer =
  pw_buf :: bytes
  pw_parts :: "(part_ref \<times> bytes) list"

definition part_flush :: "part_writer \<Rightarrow> part_writer" where
  "part_flush w =
     (if pw_buf w = [] then w
      else w\<lparr>pw_parts := pw_parts w @
               [(\<lparr>p_digest = digest_sum (pw_buf w), p_size = int (length (pw_buf w))\<rparr>, pw_buf w)],
             pw_buf := []\<rparr>)"

text \<open>The loop of \<^verbatim>\<open>Write\<close>: \<^verbatim>\<open>copy\<close> takes what the buffer has room for. A buffer with no room
  (which \<^verbatim>\<open>Write\<close> never leaves behind) would loop for ever; the model stops there.\<close>

function part_write :: "nat \<Rightarrow> part_writer \<Rightarrow> bytes \<Rightarrow> part_writer" where
  "part_write cap w p =
     (let n = min (cap - length (pw_buf w)) (length p) in
      if p = [] \<or> n = 0 then w
      else let w' = w\<lparr>pw_buf := pw_buf w @ take n p\<rparr>;
               w'' = (if length (pw_buf w') = cap then part_flush w' else w') in
        part_write cap w'' (drop n p))"
  by pat_completeness auto
termination
  by (relation "measure (\<lambda>(cap, w, p). length p)") auto

declare part_write.simps [simp del]

subsection \<open>The scanner\<close>

type_synonym stream = "bytes \<times> goerr option"

definition malformed :: "string \<Rightarrow> goerr" where
  "malformed what = ErrInvalid (''batch: '' @ what)"

text \<open>\<^verbatim>\<open>io.LimitReader\<close>.\<close>

definition limit_stream :: "int \<Rightarrow> stream \<Rightarrow> stream" where
  "limit_stream n s = (if int (length (fst s)) \<ge> n then (take (nat n) (fst s), None) else s)"

text \<open>\<^verbatim>\<open>packReader.full\<close> reads exactly \<open>n\<close> bytes.\<close>

definition read_full :: "int \<Rightarrow> bytes \<Rightarrow> (bytes \<times> bytes) option" where
  "read_full n s = (if int (length s) < n then None else Some (take (nat n) s, drop (nat n) s))"

text \<open>One object of the scan: its header and bytes against the entry the descriptor lists.\<close>

definition scan_object :: "object_entry \<Rightarrow> bytes \<Rightarrow> (bytes \<times> bytes) res" where
  "scan_object x s =
     (case s of
        [] \<Rightarrow> Inl (malformed ''object kind'')
      | k # s1 \<Rightarrow>
          if k \<noteq> pack_kind (o_kind x) then Inl (malformed ''object kind byte'')
          else (case read_full 32 s1 of
              None \<Rightarrow> Inl (malformed ''object digest'')
            | Some (dg, s2) \<Rightarrow>
                if hex_encode dg \<noteq> o_digest x then Inl (malformed ''object digest differs'')
                else (case read_uvarint 0 s2 of
                    None \<Rightarrow> Inl (malformed ''object size'')
                  | Some (n, s3) \<Rightarrow>
                      if n \<noteq> o_size x then Inl (malformed ''object size differs'')
                      else (case read_full n s3 of
                          None \<Rightarrow> Inl (malformed ''object bytes'')
                        | Some (data, s4) \<Rightarrow>
                            if digest_sum data \<noteq> o_digest x then Inl (malformed ''object bytes differ'')
                            else Inr (data, s4)))))"

text \<open>The loop over the objects. The callback gets each verified object and threads its own
  state, which an error leaves as it was at that point.\<close>

fun scan_objects ::
  "bool \<Rightarrow> object_entry list \<Rightarrow> bytes \<Rightarrow> (object_entry \<Rightarrow> bytes \<Rightarrow> 's \<Rightarrow> 's \<times> unit res) \<Rightarrow> 's \<Rightarrow> 's \<times> bytes res" where
  "scan_objects cancelled [] s f st = (st, Inr s)"
| "scan_objects cancelled (x # xs) s f st =
     (if cancelled then (st, Inl ErrCtx)
      else case scan_object x s of
        Inl e \<Rightarrow> (st, Inl e)
      | Inr (data, rest) \<Rightarrow> (case f x data st of
          (st', Inl e) \<Rightarrow> (st', Inl e)
        | (st', Inr _) \<Rightarrow> scan_objects cancelled xs rest f st'))"

definition scan_end :: "int \<Rightarrow> int \<Rightarrow> bytes \<Rightarrow> goerr option \<Rightarrow> unit res" where
  "scan_end raw n s ending =
     (case s of
        [] \<Rightarrow> Inl (malformed ''terminator'')
      | c # rest \<Rightarrow>
          if c \<noteq> packEnd then Inl (malformed ''terminator byte'')
          else if rest \<noteq> [] then Inl (malformed ''pack stream runs past its size'')
          else if ending \<noteq> None then Inl (malformed ''pack stream end'')
          else if n \<noteq> raw then Inl (malformed ''pack stream length'')
          else Inr ())"

definition scan_pack ::
  "bool \<Rightarrow> stream \<Rightarrow> batch_descriptor \<Rightarrow> (object_entry \<Rightarrow> bytes \<Rightarrow> 's \<Rightarrow> 's \<times> unit res) \<Rightarrow> 's \<Rightarrow> 's \<times> unit res" where
  "scan_pack cancelled decoded d f st =
     (let (s, ending) = limit_stream (b_raw_size d + 1) decoded in
      case read_full (int (length packMagic)) s of
        None \<Rightarrow> (st, Inl (malformed ''read magic''))
      | Some (magic, rest) \<Rightarrow>
          if magic \<noteq> packMagic then (st, Inl (malformed ''pack magic''))
          else (case scan_objects cancelled (b_objects d) rest f st of
              (st', Inl e) \<Rightarrow> (st', Inl e)
            | (st', Inr left) \<Rightarrow> (st', scan_end (b_raw_size d) (int (length s)) left ending)))"

subsection \<open>Reading back what was written\<close>

lemma put_uvarint_len: "int (length (put_uvarint v)) = uvarint_len v"
  by (induction v rule: put_uvarint.induct)
    (subst put_uvarint.simps, subst uvarint_len.simps, simp)

lemma of_char_int_of: "0 \<le> n \<Longrightarrow> n < 256 \<Longrightarrow> (of_char (char_of n :: char) :: int) = n"
  by simp

lemma read_put_uvarint:
  assumes "0 \<le> v" "v < 2 ^ 63" "v < 2 ^ (63 - 7 * i)" "i \<le> 8"
  shows "read_uvarint i (put_uvarint v @ rest) = Some (v, rest)"
  using assms
proof (induction v arbitrary: i rule: put_uvarint.induct)
  case (1 v)
  show ?case
  proof (cases "v \<ge> 128")
    case True
    have "i < 8" 
    proof (rule ccontr)
      assume "\<not> i < 8"
      with 1 have "i = 8" by simp
      with 1 True show False by simp
    qed
    then have e: "63 - 7 * i = 7 + (63 - 7 * Suc i)" by simp
    have "v < 128 * 2 ^ (63 - 7 * Suc i)" using 1(4) unfolding e power_add by simp
    then have b: "v div 128 < 2 ^ (63 - 7 * Suc i)" by (simp add: div_less_iff_less_mult mult.commute)
    have "read_uvarint (Suc i) (put_uvarint (v div 128) @ rest) = Some (v div 128, rest)"
      using True 1 b \<open>i < 8\<close> by (intro "1.IH") auto
    moreover have "(of_char (char_of (v mod 128 + 128) :: char) :: int) = v mod 128 + 128"
      by (rule of_char_int_of) (simp_all add: add.commute[of _ 128])
    moreover have "\<not> v mod 128 < 0" by simp
    ultimately show ?thesis using True \<open>i < 8\<close>
      by (subst put_uvarint.simps) (simp add: Let_def)
  next
    case False
    then show ?thesis using 1 by (subst put_uvarint.simps) (simp add: Let_def)
  qed
qed

lemma of_char_int_bounds: "0 \<le> (of_char c :: int)" "(of_char c :: int) < 256"
proof -
  have "(of_char c :: int) = int (of_char c)" by (simp add: of_nat_of_char)
  then show "0 \<le> (of_char c :: int)" "(of_char c :: int) < 256"
    using of_char_less [of c] by linarith+
qed

text \<open>A varint the reader accepts is at least as long as the canonical one, and is the
  canonical one when it is no longer.\<close>

lemma uvarint_len_small [simp]: "v < 128 \<Longrightarrow> uvarint_len v = 1"
  by (subst uvarint_len.simps) simp

lemma put_uvarint_small [simp]: "v < 128 \<Longrightarrow> put_uvarint v = [char_of v]"
  by (subst put_uvarint.simps) simp

lemma read_uvarint_split:
  "read_uvarint i s = Some (v, rest) \<Longrightarrow>
   \<exists>u. s = u @ rest \<and> 0 \<le> v \<and> uvarint_len v \<le> int (length u) \<and>
       (int (length u) = uvarint_len v \<longrightarrow> u = put_uvarint v)"
proof (induction i s arbitrary: v rule: read_uvarint.induct)
  case (1 i)
  then show ?case by simp
next
  case (2 i c cs)
  let ?b = "of_char c :: int"
  have c: "0 \<le> ?b" "?b < 256" "char_of ?b = c" using of_char_int_bounds by simp_all
  show ?case
  proof (cases "?b < 128")
    case True
    with 2 have "rest = cs" "v = ?b" by (auto simp: Let_def split: if_splits)
    with True c show ?thesis by (intro exI [of _ "[c]"]) simp
  next
    case False
    with "2.prems" obtain v' where v': "read_uvarint (Suc i) cs = Some (v', rest)"
      and v: "v = ?b - 128 + 128 * v'" and i: "\<not> i \<ge> 10"
      by (auto simp: Let_def split: if_splits)
    from "2.IH" [OF refl i False v'] obtain u where u: "cs = u @ rest" "0 \<le> v'"
      "uvarint_len v' \<le> int (length u)" "int (length u) = uvarint_len v' \<longrightarrow> u = put_uvarint v'"
      by blast
    show ?thesis
    proof (cases "v' = 0")
      case True
      with u v c False have "u \<noteq> []" "v < 128" by auto
      then have "uvarint_len v < int (length (c # u))" by (cases u) simp_all
      with u v c False show ?thesis by (intro exI [of _ "c # u"]) simp
    next
      case ne: False
      with u v False have ge: "v \<ge> 128" by simp
      have m: "b mod 128 + 128 = b" if "128 \<le> b" "b < 256" for b :: int
        using that by presburger
      have dm: "v div 128 = v'" "v mod 128 + 128 = ?b"
        using v c(2) False m [of ?b] by simp_all
      have len: "uvarint_len v = 1 + uvarint_len v'"
        using ge dm by (subst uvarint_len.simps) simp
      have put: "put_uvarint v = c # put_uvarint v'"
        using ge dm c(3) by (subst put_uvarint.simps) simp
      show ?thesis using u ge len put by (intro exI [of _ "c # u"]) auto
    qed
  qed
qed

definition intact :: "object_entry \<times> bytes \<Rightarrow> bool" where
  "intact xd \<longleftrightarrow> digest_sum (snd xd) = o_digest (fst xd) \<and> int (length (snd xd)) = o_size (fst xd)"

lemma intact_digest:
  assumes "intact (x, data)"
  obtains dg where "hex_decode (o_digest x) = Some dg" "length dg = 32" "hex_encode dg = o_digest x"
  using assms that [of "sha256 data"] by (auto simp: intact_def digest_sum_def simp flip: hex_decode_encode)

lemma read_full_append [simp]: "read_full (int (length a)) (a @ b) = Some (a, b)"
  by (simp add: read_full_def)

lemma read_full_eq: "int (length a) = n \<Longrightarrow> read_full n (a @ b) = Some (a, b)"
  using read_full_append by blast

lemma pack_object_intact:
  assumes "intact (x, data)" and "pack_object x data = Inr b"
  obtains dg where "b = pack_kind (o_kind x) # dg @ put_uvarint (o_size x) @ data"
    "int (length dg) = 32" "hex_encode dg = o_digest x" "int (length data) = o_size x"
    "digest_sum data = o_digest x" "0 \<le> o_size x"
proof -
  from intact_digest [OF assms(1)] obtain dg where "hex_decode (o_digest x) = Some dg"
    "length dg = 32" "hex_encode dg = o_digest x" .
  then show thesis using that [of dg] assms by (simp add: pack_object_def intact_def)
qed

lemma pack_object_length:
  assumes "intact (x, data)" and "pack_object x data = Inr b"
  shows "int (length b) = 1 + 32 + uvarint_len (o_size x) + o_size x"
proof -
  obtain dg where "b = pack_kind (o_kind x) # dg @ put_uvarint (o_size x) @ data"
    "int (length dg) = 32" "int (length data) = o_size x"
    by (rule pack_object_intact [OF assms])
  then show ?thesis by (simp add: put_uvarint_len)
qed

lemma scan_pack_object:
  assumes "intact (x, data)" and "pack_object x data = Inr b" and "o_size x < 2 ^ 63"
  shows "scan_object x (b @ rest) = Inr (data, rest)"
proof -
  obtain dg where b: "b = pack_kind (o_kind x) # dg @ put_uvarint (o_size x) @ data"
    and d: "int (length dg) = 32" "hex_encode dg = o_digest x" "int (length data) = o_size x"
    "digest_sum data = o_digest x" "0 \<le> o_size x"
    by (rule pack_object_intact [OF assms(1,2)])
  have "read_uvarint 0 (put_uvarint (o_size x) @ data @ rest) = Some (o_size x, data @ rest)"
    using d assms(3) by (intro read_put_uvarint) simp_all
  with b d show ?thesis
    by (simp add: scan_object_def read_full_eq [OF d(1)] read_full_eq [OF d(3)])
qed

text \<open>What the scanner hands to its callback, in order, until the callback fails.\<close>

fun deliver :: "(object_entry \<Rightarrow> bytes \<Rightarrow> 's \<Rightarrow> 's \<times> unit res) \<Rightarrow> (object_entry \<times> bytes) list \<Rightarrow> 's \<Rightarrow> 's \<times> unit res" where
  "deliver f [] st = (st, Inr ())"
| "deliver f ((x, data) # xs) st =
     (case f x data st of (st', Inl e) \<Rightarrow> (st', Inl e) | (st', Inr _) \<Rightarrow> deliver f xs st')"

lemma scan_objects_pack:
  assumes "\<forall>xd \<in> set xs. intact xd \<and> o_size (fst xd) < 2 ^ 63" and "pack_objects xs = Inr b"
  shows "scan_objects False (map fst xs) (b @ rest) f st =
    (case deliver f xs st of (st', Inl e) \<Rightarrow> (st', Inl e) | (st', Inr _) \<Rightarrow> (st', Inr rest))"
  using assms
proof (induction xs arbitrary: b st rule: pack_objects.induct)
  case 1
  then show ?case by simp
next
  case (2 x data xs)
  then obtain b1 b2 where b: "pack_object x data = Inr b1" "pack_objects xs = Inr b2" "b = b1 @ b2"
    by (auto simp: andthen_Inr_iff)
  have "scan_object x (b1 @ b2 @ rest) = Inr (data, b2 @ rest)"
    using 2 b by (intro scan_pack_object) auto
  with 2 b show ?case by (simp split: prod.split sum.split)
qed

lemma pack_objects_length:
  assumes "\<forall>xd \<in> set xs. intact xd" and "pack_objects xs = Inr b"
  shows "int (length b) = pack_objects_size (map fst xs)"
  using assms
  by (induction xs arbitrary: b rule: pack_objects.induct)
    (auto simp: andthen_Inr_iff pack_object_length)

lemma pack_stream_length:
  assumes "\<forall>xd \<in> set xs. intact xd" and "pack_stream xs = Inr s"
  shows "int (length s) = pack_size (map fst xs)"
  using assms pack_objects_length by (auto simp: pack_stream_def andthen_Inr_iff pack_size_def)

lemma scan_object_Inr:
  assumes "scan_object x s = Inr (data, rest)"
  obtains dg u where "s = (pack_kind (o_kind x) # dg @ u @ data) @ rest" "int (length dg) = 32"
    "hex_encode dg = o_digest x" "uvarint_len (o_size x) \<le> int (length u)"
    "int (length u) = uvarint_len (o_size x) \<longrightarrow> u = put_uvarint (o_size x)" "intact (x, data)"
proof -
  from assms obtain s1 dg s2 n s3 where s: "s = pack_kind (o_kind x) # s1"
    "read_full 32 s1 = Some (dg, s2)" "hex_encode dg = o_digest x"
    "read_uvarint 0 s2 = Some (o_size x, s3)" "read_full (o_size x) s3 = Some (data, rest)"
    "digest_sum data = o_digest x"
    by (auto simp: scan_object_def split: list.splits if_splits option.splits)
  from read_uvarint_split [OF s(4)] obtain u where u: "s2 = u @ s3" "0 \<le> o_size x"
    "uvarint_len (o_size x) \<le> int (length u)"
    "int (length u) = uvarint_len (o_size x) \<longrightarrow> u = put_uvarint (o_size x)" by blast
  have f1: "s1 = dg @ s2" "int (length dg) = 32"
    using s(2) by (auto simp: read_full_def split: if_splits)
  have f2: "s3 = data @ rest" "int (length data) = o_size x"
    using s(5) u(2) by (auto simp: read_full_def split: if_splits)
  show thesis using that [of dg u] s u f1 f2 by (simp add: intact_def)
qed

text \<open>A scan of the objects that ends well has read a stream no shorter than the canonical
  one, and exactly the canonical one when it is as long.\<close>

lemma scan_objects_Inr:
  assumes "snd (scan_objects cancelled objs s f st) = Inr left"
  shows "\<exists>xs b. map fst xs = objs \<and> s = b @ left \<and> (\<forall>xd \<in> set xs. intact xd) \<and>
    pack_objects_size objs \<le> int (length b) \<and>
    (int (length b) = pack_objects_size objs \<longrightarrow> pack_objects xs = Inr b)"
  using assms
proof (induction objs arbitrary: s st)
  case Nil
  then show ?case by (intro exI [of _ "[]"]) simp
next
  case (Cons x objs)
  from Cons.prems obtain data rest st' where d: "scan_object x s = Inr (data, rest)"
    and "f x data st = (st', Inr ())" and r: "snd (scan_objects cancelled objs rest f st') = Inr left"
    by (auto split: if_splits sum.splits prod.splits)
  from scan_object_Inr [OF d] obtain dg u where s: "s = (pack_kind (o_kind x) # dg @ u @ data) @ rest"
    "int (length dg) = 32" "hex_encode dg = o_digest x" "uvarint_len (o_size x) \<le> int (length u)"
    "int (length u) = uvarint_len (o_size x) \<longrightarrow> u = put_uvarint (o_size x)" "intact (x, data)" .
  from Cons.IH [OF r] obtain xs b where xs: "map fst xs = objs" "rest = b @ left"
    "\<forall>xd \<in> set xs. intact xd" "pack_objects_size objs \<le> int (length b)"
    "int (length b) = pack_objects_size objs \<longrightarrow> pack_objects xs = Inr b" by blast
  let ?b = "(pack_kind (o_kind x) # dg @ u @ data) @ b"
  have n: "int (length data) = o_size x" using s(6) by (simp add: intact_def)
  have h: "hex_decode (o_digest x) = Some dg" using s(3) by (metis hex_decode_encode)
  have "pack_objects ((x, data) # xs) = Inr ?b" if "int (length ?b) = pack_objects_size (x # objs)"
  proof -
    from that n s(2,4) xs(4) have "int (length u) = uvarint_len (o_size x)"
      "int (length b) = pack_objects_size objs" by auto
    with s(5) xs(5) h show ?thesis by (simp add: pack_object_def)
  qed
  then show ?case using s n xs by (intro exI [of _ "(x, data) # xs"] exI [of _ ?b]) simp
qed

subsection \<open>Splitting into parts\<close>

text \<open>What the writer keeps of the bytes it was given.\<close>

definition written :: "part_writer \<Rightarrow> bytes" where
  "written w = concat (map snd (pw_parts w)) @ pw_buf w"

definition part_of :: "part_ref \<times> bytes \<Rightarrow> bool" where
  "part_of pb \<longleftrightarrow> fst pb = \<lparr>p_digest = digest_sum (snd pb), p_size = int (length (snd pb))\<rparr>"

definition parts_inv :: "nat \<Rightarrow> part_writer \<Rightarrow> bool" where
  "parts_inv cap w \<longleftrightarrow> length (pw_buf w) < cap \<and>
     (\<forall>pb \<in> set (pw_parts w). part_of pb \<and> length (snd pb) = cap)"

lemma written_flush [simp]: "written (part_flush w) = written w"
  by (simp add: written_def part_flush_def)

lemma parts_inv_full:
  assumes "\<forall>pb \<in> set (pw_parts w). part_of pb \<and> length (snd pb) = cap"
    and "length (pw_buf w) = cap" "0 < cap"
  shows "parts_inv cap (part_flush w)"
  using assms by (auto simp: parts_inv_def part_flush_def part_of_def)

lemma part_write_inv:
  "parts_inv cap w \<Longrightarrow> parts_inv cap (part_write cap w p) \<and> written (part_write cap w p) = written w @ p"
proof (induction cap w p rule: part_write.induct)
  case (1 cap w p)
  define n where "n = min (cap - length (pw_buf w)) (length p)"
  define w' where "w' = w\<lparr>pw_buf := pw_buf w @ take n p\<rparr>"
  define w'' where "w'' = (if length (pw_buf w') = cap then part_flush w' else w')"
  note eq = part_write.simps [of cap w p, unfolded Let_def, folded n_def, folded w'_def, folded w''_def]
  show ?case
  proof (cases "p = [] \<or> n = 0")
    case True
    then have "p = []" using 1(2) by (auto simp: n_def parts_inv_def min_def split: if_splits)
    with 1(2) eq show ?thesis by simp
  next
    case False
    have l: "length (pw_buf w') \<le> cap" using 1(2) by (auto simp: w'_def n_def parts_inv_def min_def)
    have "parts_inv cap w''"
      using 1(2) l parts_inv_full [of w' cap] by (auto simp: w''_def parts_inv_def w'_def)
    moreover have "written w'' = written w @ take n p"
      by (simp add: w''_def w'_def) (simp add: written_def)
    ultimately show ?thesis
      using "1.IH" [OF n_def False w'_def w''_def] eq False by simp
  qed
qed

lemma fold_part_write:
  "parts_inv cap w \<Longrightarrow>
   parts_inv cap (fold (\<lambda>p w. part_write cap w p) ps w) \<and>
   written (fold (\<lambda>p w. part_write cap w p) ps w) = written w @ concat ps"
  by (induction ps arbitrary: w) (simp_all add: part_write_inv)

definition empty_writer :: part_writer where
  "empty_writer = \<lparr>pw_buf = [], pw_parts = []\<rparr>"

lemma empty_writer_inv: "0 < cap \<Longrightarrow> parts_inv cap empty_writer \<and> written empty_writer = []"
  by (simp add: empty_writer_def parts_inv_def written_def)

lemma scan_pack_pack:
  assumes "\<forall>xd \<in> set xs. intact xd \<and> o_size (fst xd) < 2 ^ 63"
    and "b_objects d = map fst xs" and "b_raw_size d = pack_size (map fst xs)"
    and "pack_stream xs = Inr s"
  shows "scan_pack False (s, None) d f st = deliver f xs st"
proof -
  from assms(4) obtain b where b: "pack_objects xs = Inr b" and s: "s = packMagic @ b @ [packEnd]"
    by (auto simp: pack_stream_def andthen_Inr_iff)
  have len: "int (length s) = b_raw_size d"
    using pack_stream_length [OF _ assms(4)] assms by auto
  then have lim: "limit_stream (b_raw_size d + 1) (s, None) = (s, None)"
    by (simp add: limit_stream_def)
  have magic: "read_full (int (length packMagic)) s = Some (packMagic, b @ [packEnd])"
    unfolding s by (rule read_full_append)
  show ?thesis
    unfolding scan_pack_def lim using magic len scan_objects_pack [OF assms(1) b, of "[packEnd]" f st]
    by (simp add: assms(2) scan_end_def split: prod.split sum.split)
qed

subsection \<open>Properties\<close>

text \<open>Whatever pieces a stream is written in, its parts concatenate to the stream, each is
  named by the digest and length of its bytes, and all but the last are full.\<close>

theorem parts_split_stream:
  assumes "0 < cap"
  shows "let w = part_flush (fold (\<lambda>p w. part_write cap w p) ps empty_writer) in
    pw_buf w = [] \<and> concat (map snd (pw_parts w)) = concat ps \<and>
    (\<forall>pb \<in> set (pw_parts w). part_of pb \<and> snd pb \<noteq> [] \<and> length (snd pb) \<le> cap) \<and>
    (\<forall>pb \<in> set (butlast (pw_parts w)). length (snd pb) = cap)"
proof -
  let ?w = "fold (\<lambda>p w. part_write cap w p) ps empty_writer"
  have i: "parts_inv cap ?w" and wr: "written ?w = concat ps"
    using fold_part_write empty_writer_inv [OF assms] by auto
  have full: "\<forall>pb \<in> set (pw_parts ?w). part_of pb \<and> length (snd pb) = cap"
    and buf: "length (pw_buf ?w) < cap" using i by (auto simp: parts_inv_def)
  have "concat (map snd (pw_parts (part_flush ?w))) = concat ps"
    using wr by (auto simp: part_flush_def written_def)
  moreover have "pw_buf (part_flush ?w) = []" by (simp add: part_flush_def)
  ultimately show ?thesis using full buf assms
    by (auto simp: part_flush_def part_of_def Let_def dest: in_set_butlastD)
qed

theorem parts_split_stream_witness:
  "concat (map snd (pw_parts (part_flush (fold (\<lambda>p w. part_write 2 w p) [''abc'', ''de''] empty_writer)))) = ''abcde''"
  using parts_split_stream [of 2 "[''abc'', ''de'']"] by (simp add: Let_def)

text \<open>Scanning the pack stream of intact objects against their descriptor hands the
  callback exactly those objects, in order, and accepts the stream when the callback does.\<close>

theorem scan_pack_roundtrip:
  assumes "\<forall>xd \<in> set xs. intact xd \<and> o_size (fst xd) < 2 ^ 63"
    and "b_objects d = map fst xs" and "b_raw_size d = pack_size (map fst xs)"
    and "pack_stream xs = Inr s"
  shows "scan_pack False (s, None) d f st = deliver f xs st"
  using assms by (rule scan_pack_pack)

text \<open>A one-object batch for the witnesses.\<close>

definition one_object :: "object_entry \<times> bytes" where
  "one_object = (\<lparr>o_digest = digest_sum ''a'', o_kind = KindBlob, o_size = 1\<rparr>, ''a'')"

definition one_stream :: bytes where
  "one_stream = packMagic @ (packBlob # sha256 ''a'' @ [char_of (1::int)] @ ''a'') @ [packEnd]"

definition one_descriptor :: batch_descriptor where
  "one_descriptor = \<lparr>b_id = [], b_schema = BatchSchema, b_codec = BatchCodec,
     b_raw_size = pack_size [fst one_object], b_objects = [fst one_object], b_parts = []\<rparr>"

lemma one_stream: "pack_stream [one_object] = Inr one_stream"
  by (simp add: pack_stream_def one_object_def one_stream_def pack_object_def digest_sum_def pack_kind_def)

lemma one_intact: "intact one_object" "o_size (fst one_object) = 1"
  by (simp_all add: intact_def one_object_def)

lemma deliver_one: "deliver f [one_object] st =
   (case f (fst one_object) ''a'' st of (st', Inl e) \<Rightarrow> (st', Inl e) | (st', Inr _) \<Rightarrow> (st', Inr ()))"
  by (simp add: one_object_def)

theorem scan_pack_roundtrip_witness:
  "scan_pack False (one_stream, None) one_descriptor (\<lambda>x data st. (data # st, Inr ())) [] = ([''a''], Inr ())"
  using scan_pack_roundtrip [OF _ _ _ one_stream, of one_descriptor "\<lambda>x data st. (data # st, Inr ())" "[]"]
  by (simp add: one_intact deliver_one one_descriptor_def)

text \<open>C20. A scan that ends without an error has read exactly the canonical pack stream of the
  descriptor's objects, each with bytes that hash to its digest: no other byte string passes.\<close>

theorem scan_pack_canonical:
  assumes "snd (scan_pack cancelled decoded d f st) = Inr ()"
    and "b_raw_size d = pack_size (b_objects d)"
  shows "\<exists>xs. map fst xs = b_objects d \<and> (\<forall>xd \<in> set xs. intact xd) \<and>
    pack_stream xs = Inr (fst decoded) \<and> snd decoded = None"
proof -
  obtain s ending where lim: "limit_stream (b_raw_size d + 1) decoded = (s, ending)" by fastforce
  from assms(1) lim obtain rest left where m: "read_full (int (length packMagic)) s = Some (packMagic, rest)"
    and so: "snd (scan_objects cancelled (b_objects d) rest f st) = Inr left"
    and se: "scan_end (b_raw_size d) (int (length s)) left ending = Inr ()"
    by (auto simp: scan_pack_def split: option.splits prod.splits sum.splits if_splits)
  from se have e: "left = [packEnd]" "ending = None" "int (length s) = b_raw_size d"
    by (auto simp: scan_end_def split: list.splits if_splits)
  from m have s: "s = packMagic @ rest" by (auto simp: read_full_def split: if_splits)
       (metis append_take_drop_id)
  from scan_objects_Inr [OF so] obtain xs b where xs: "map fst xs = b_objects d" "rest = b @ left"
    "\<forall>xd \<in> set xs. intact xd"
    "int (length b) = pack_objects_size (b_objects d) \<longrightarrow> pack_objects xs = Inr b" by blast
  have "int (length b) = pack_objects_size (b_objects d)"
    using e s xs(2) assms(2) by (simp add: pack_size_def)
  with xs s e have ps: "pack_stream xs = Inr s" by (simp add: pack_stream_def)
  have "(s, ending) = decoded"
    using lim e by (auto simp: limit_stream_def split: if_splits)
  with ps xs e show ?thesis by auto
qed

theorem scan_pack_canonical_witness:
  "\<exists>xs. map fst xs = [fst one_object] \<and> pack_stream xs = Inr one_stream"
proof -
  have "scan_pack False (one_stream, None) one_descriptor (\<lambda>x data st. (data # st, Inr ())) [] =
      deliver (\<lambda>x data st. (data # st, Inr ())) [one_object] []"
    by (rule scan_pack_pack [OF _ _ _ one_stream]) (simp_all add: one_intact one_descriptor_def)
  then have "snd (scan_pack False (one_stream, None) one_descriptor (\<lambda>x data st. (data # st, Inr ())) []) = Inr ()"
    by (simp add: deliver_one)
  from scan_pack_canonical [OF this] have "\<exists>xs. map fst xs = b_objects one_descriptor \<and>
      (\<forall>xd \<in> set xs. intact xd) \<and> pack_stream xs = Inr (fst (one_stream, None)) \<and>
      snd (one_stream, None) = None" by (simp add: one_descriptor_def)
  then show ?thesis unfolding one_descriptor_def by fastforce
qed

end
