(* ===== verification/Artifact_Store.thy ===== *)
theory Artifact_Store
  imports Artifact_Pack
begin

text \<open>
  The object store on disk (\<^verbatim>\<open>src/artifact/store.go\<close>): the directories of a store, the disk
  primitives that write them, object publication, content in and out, and the closure walk.

  A store is the contents of its directories. Every call that writes the disk is a primitive
  that takes the next outcome of a fault script: it succeeds, fails having had no effect, or
  fails having had its whole effect. A process that crashes is a script that fails every
  later call, so a property that holds for every script holds at every crash point. A path
  that cannot be read for another reason than its absence is listed in \<open>st_unreadable\<close>.
  \<^verbatim>\<open>ctx.Err()\<close> is a flag that does not change while an operation runs. The clock is a field,
  which the operations read. Locks only order operations and leave no state.
\<close>

datatype fault = Fine | FailBefore | FailAfter

record stored_file =
  f_data :: bytes
  f_mtime :: gotime

record staging =
  sg_descriptor :: batch_descriptor
  sg_parts :: "(nat \<times> bytes) list"
  sg_landing :: "bytes dir"
  sg_mtime :: gotime

record closure =
  cl_objects :: "object_entry list"
  cl_bytes :: int

record store =
  st_objects :: "stored_file dir"
  st_unsynced :: "digest list"
  st_unreadable :: "digest set"
  st_pins :: "pin_set dir"
  st_outbox :: "staging dir"
  st_incoming :: "staging dir"
  st_committed :: "(batch_descriptor \<times> gotime) dir"
  st_memo :: "(digest \<times> closure) list"
  st_now :: gotime
  st_faults :: "fault list"

text \<open>Operations thread the store and end with a result or an error.\<close>

type_synonym 'a step = "store \<Rightarrow> store \<times> 'a res"

definition retS :: "'a \<Rightarrow> 'a step" where
  "retS x s = (s, Inr x)"

definition failS :: "goerr \<Rightarrow> 'a step" where
  "failS e s = (s, Inl e)"

definition liftS :: "'a res \<Rightarrow> 'a step" where
  "liftS r s = (s, r)"

definition bindS :: "'a step \<Rightarrow> ('a \<Rightarrow> 'b step) \<Rightarrow> 'b step" where
  "bindS m k s = (case m s of (s', Inl e) \<Rightarrow> (s', Inl e) | (s', Inr x) \<Rightarrow> k x s')"

fun eachS :: "('a \<Rightarrow> unit step) \<Rightarrow> 'a list \<Rightarrow> unit step" where
  "eachS f [] = retS ()"
| "eachS f (x # xs) = bindS (f x) (\<lambda>_. eachS f xs)"

text \<open>A disk primitive: its effect, under the next outcome of the fault script.\<close>

definition disk :: "string \<Rightarrow> (store \<Rightarrow> store) \<Rightarrow> unit step" where
  "disk what eff s =
     (let s' = s\<lparr>st_faults := tl (st_faults s)\<rparr> in
      case (if st_faults s = [] then Fine else hd (st_faults s)) of
        Fine \<Rightarrow> (eff s', Inr ())
      | FailBefore \<Rightarrow> (s', Inl (ErrIO what))
      | FailAfter \<Rightarrow> (eff s', Inl (ErrIO what)))"

subsection \<open>Reading objects\<close>

definition stat_object :: "store \<Rightarrow> digest \<Rightarrow> stored_file res" where
  "stat_object s d =
     (if d \<in> st_unreadable s then Inl (ErrIO ''stat object'')
      else case map_of (st_objects s) d of
        None \<Rightarrow> Inl ErrNotExist
      | Some f \<Rightarrow> if d \<in> set (st_unsynced s) then Inl ErrNotExist else Inr f)"

definition present :: "store \<Rightarrow> digest \<Rightarrow> bool res" where
  "present s d = (case stat_object s d of
     Inr _ \<Rightarrow> Inr True
   | Inl e \<Rightarrow> if e = ErrNotExist then Inr False else Inl e)"

definition read_object :: "store \<Rightarrow> digest \<Rightarrow> bytes res" where
  "read_object s d =
     (if d \<in> st_unreadable s then Inl (ErrIO ''read object'')
      else case map_of (st_objects s) d of
        None \<Rightarrow> Inl (MissingError d)
      | Some f \<Rightarrow>
          if d \<in> set (st_unsynced s) then Inl (MissingError d)
          else if digest_sum (f_data f) \<noteq> d then Inl (ErrInvalid ''object is corrupt'')
          else Inr (f_data f))"

definition check_manifest_size :: "manifest \<Rightarrow> int \<Rightarrow> unit res" where
  "check_manifest_size m n =
     require (\<not> (n \<ge> 0 \<and> m_size m \<noteq> n)) (ErrInvalid ''manifest size differs from ref'')"

definition read_manifest :: "store \<Rightarrow> digest \<Rightarrow> int \<Rightarrow> (manifest \<times> bytes) res" where
  "read_manifest s d n =
     andthen (read_object s d) (\<lambda>data. andthen (decode_manifest data) (\<lambda>m.
       andthen (check_manifest_size m n) (\<lambda>_. Inr (m, data))))"

subsection \<open>Publishing objects\<close>

definition touch :: "digest \<Rightarrow> bool step" where
  "touch d s =
     (case present s d of
        Inl e \<Rightarrow> (s, Inl e)
      | Inr False \<Rightarrow> (s, Inr False)
      | Inr True \<Rightarrow>
          bindS (disk ''touch object'' (\<lambda>s. s\<lparr>st_objects :=
              AList.map_entry d (\<lambda>f. f\<lparr>f_mtime := st_now s\<rparr>) (st_objects s)\<rparr>))
            (\<lambda>_. retS True) s)"

definition mark_unsynced :: "digest \<Rightarrow> unit step" where
  "mark_unsynced d = disk ''mark unsynced'' (\<lambda>s. s\<lparr>st_unsynced := List.insert d (st_unsynced s)\<rparr>)"

text \<open>\<^verbatim>\<open>durable.WriteFile\<close> of an object's bytes.\<close>

definition write_file :: "digest \<Rightarrow> bytes \<Rightarrow> unit step" where
  "write_file d data = disk ''write object'' (\<lambda>s. s\<lparr>st_objects :=
     AList.update d \<lparr>f_data = data, f_mtime = st_now s\<rparr> (st_objects s)\<rparr>)"

text \<open>\<^verbatim>\<open>os.Remove\<close> of a mark, which fails when there is none.\<close>

definition remove_mark :: "digest \<Rightarrow> unit step" where
  "remove_mark d s =
     (if d \<notin> set (st_unsynced s) then (s, Inl ErrNotExist)
      else disk ''remove unsynced mark'' (\<lambda>s. s\<lparr>st_unsynced := removeAll d (st_unsynced s)\<rparr>) s)"

definition mark_synced :: "digest list \<Rightarrow> unit step" where
  "mark_synced ds = eachS remove_mark ds"

definition write_object :: "digest \<Rightarrow> bytes \<Rightarrow> bool step" where
  "write_object d data =
     bindS (touch d) (\<lambda>there.
       if there then retS False
       else bindS (mark_unsynced d) (\<lambda>_. bindS (write_file d data) (\<lambda>_.
         bindS (mark_synced [d]) (\<lambda>_. retS True))))"

definition put_manifest :: "manifest \<Rightarrow> ref step" where
  "put_manifest m =
     bindS (liftS (encode_manifest m)) (\<lambda>encoded.
       bindS (write_object (digest_sum encoded) encoded) (\<lambda>_.
         retS \<lparr>r_digest = digest_sum encoded, r_kind = KindManifest, r_size = m_size m\<rparr>))"

text \<open>The directory fsyncs of \<^verbatim>\<open>syncObjectDirs\<close>, which change nothing a process can read, and
  the removal of every mark.\<close>

definition sync_object_dirs :: "unit step" where
  "sync_object_dirs = disk ''sync object directories'' (\<lambda>s. s)"

definition clear_unsynced :: "unit step" where
  "clear_unsynced s = eachS remove_mark (st_unsynced s) s"

definition recover_unsynced :: "unit step" where
  "recover_unsynced s =
     (if st_unsynced s = [] then (s, Inr ())
      else bindS sync_object_dirs (\<lambda>_. clear_unsynced) s)"

text \<open>\<^verbatim>\<open>Open\<close> makes every object already renamed into place durable and then present.\<close>

definition open_store :: "unit step" where
  "open_store = bindS (disk ''create layout'' (\<lambda>s. s)) (\<lambda>_.
     bindS sync_object_dirs (\<lambda>_. clear_unsynced))"

subsection \<open>Content in\<close>

text \<open>The loop of \<^verbatim>\<open>Put\<close>. \<^verbatim>\<open>io.ReadFull\<close> fills the buffer or ends the loop: at the end of the
  content, or with the reader's error, after the bytes before it are stored.\<close>

function put_chunks :: "bool \<Rightarrow> bytes \<Rightarrow> goerr option \<Rightarrow> manifest \<Rightarrow> manifest step" where
  "put_chunks cancelled bs ending m s =
     (if cancelled then (s, Inl ErrCtx)
      else let n = min (nat ChunkSize) (length bs); chunk = take n bs;
               stored = (if n > 0 then
                   bindS (write_object (digest_sum chunk) chunk) (\<lambda>_.
                     retS (m\<lparr>m_chunks := m_chunks m @ [\<lparr>c_digest = digest_sum chunk, c_size = int n\<rparr>],
                             m_size := m_size m + int n\<rparr>)) s
                 else (s, Inr m)) in
        case stored of
          (s', Inl e) \<Rightarrow> (s', Inl e)
        | (s', Inr m') \<Rightarrow>
            if int n = ChunkSize then put_chunks cancelled (drop n bs) ending m' s'
            else (case ending of None \<Rightarrow> (s', Inr m') | Some e \<Rightarrow> (s', Inl e)))"
  by pat_completeness auto
termination
  by (relation "measure (\<lambda>(c, bs, e, m, s). length bs)") (auto simp: ChunkSize_def)

declare put_chunks.simps [simp del]

definition put_content :: "bool \<Rightarrow> stream \<Rightarrow> string \<Rightarrow> ref step" where
  "put_content cancelled content media =
     (if \<not> media_ok media then failS (ErrInvalid ''manifest media'')
      else bindS (put_chunks cancelled (fst content) (snd content)
          \<lparr>m_schema = ManifestSchema, m_media = media, m_size = 0, m_chunks = [], m_deps = []\<rparr>)
        put_manifest)"

definition put_blob :: "bool \<Rightarrow> bytes \<Rightarrow> ref step" where
  "put_blob cancelled b =
     (if b = [] \<or> int (length b) > ChunkSize then failS (ErrInvalid ''blob size'')
      else if cancelled then failS ErrCtx
      else bindS (write_object (digest_sum b) b) (\<lambda>_.
        retS \<lparr>r_digest = digest_sum b, r_kind = KindBlob, r_size = int (length b)\<rparr>))"

definition require_present :: "ref \<Rightarrow> unit step" where
  "require_present dep s = (case present s (r_digest dep) of
     Inl e \<Rightarrow> (s, Inl e)
   | Inr there \<Rightarrow> (s, require there (MissingError (r_digest dep))))"

definition group_manifest :: "string \<Rightarrow> ref list \<Rightarrow> manifest" where
  "group_manifest media deps =
     \<lparr>m_schema = ManifestSchema, m_media = media, m_size = 0, m_chunks = [], m_deps = deps\<rparr>"

text \<open>One level of a group's tree: a group manifest for each piece of the list.\<close>

fun put_level :: "ref list list \<Rightarrow> ref list step" where
  "put_level [] s = (s, Inr [])"
| "put_level (g # gs) s =
     (case put_manifest (group_manifest GroupMedia g) s of
        (s', Inl e) \<Rightarrow> (s', Inl e)
      | (s', Inr r) \<Rightarrow> (case put_level gs s' of
          (s'', Inl e) \<Rightarrow> (s'', Inl e)
        | (s'', Inr rs) \<Rightarrow> (s'', Inr (r # rs))))"

lemma put_level_length: "put_level gs s = (s', Inr rs) \<Longrightarrow> length rs = length gs"
  by (induction gs arbitrary: s s' rs) (auto split: prod.splits sum.splits)

function put_tree :: "string \<Rightarrow> ref list \<Rightarrow> ref step" where
  "put_tree media deps s =
     (if int (length deps) > MaxDeps then
        (case put_level (chunk_list (nat MaxDeps) deps) s of
           (s', Inl e) \<Rightarrow> (s', Inl e)
         | (s', Inr level) \<Rightarrow> put_tree media level s')
      else put_manifest (group_manifest media deps) s)"
  by pat_completeness auto
termination
proof (relation "measure (\<lambda>(media, deps, s). length deps)", goal_cases)
  case 1
  show ?case by simp
next
  case (2 media deps s s' y level)
  then have "length level = (length deps + nat MaxDeps - 1) div nat MaxDeps"
    using put_level_length [of "chunk_list (nat MaxDeps) deps" s s' level] 
    by (simp add: length_chunk_list MaxDeps_def)
  also have "\<dots> < length deps" using 2(1) by (simp add: MaxDeps_def)
  finally show ?case by simp
qed

declare put_tree.simps [simp del]

definition put_group :: "bool \<Rightarrow> string \<Rightarrow> ref list \<Rightarrow> ref step" where
  "put_group cancelled media deps =
     (if \<not> media_ok media then failS (ErrInvalid ''manifest media'')
      else bindS (liftS (validate_refs deps ''dep'')) (\<lambda>_.
        if cancelled then failS ErrCtx
        else bindS (eachS require_present deps) (\<lambda>_. put_tree media deps)))"

subsection \<open>Content out\<close>

definition get_manifest :: "store \<Rightarrow> bool \<Rightarrow> ref \<Rightarrow> manifest res" where
  "get_manifest s cancelled r = andthen (validate_ref r) (\<lambda>_.
     if r_kind r \<noteq> KindManifest then Inl (ErrInvalid ''ref is not a manifest'')
     else if cancelled then Inl ErrCtx
     else andthen (read_manifest s (r_digest r) (r_size r)) (\<lambda>(m, _). Inr m))"

definition open_ref :: "store \<Rightarrow> ref \<Rightarrow> chunk_ref list res" where
  "open_ref s r = andthen (validate_ref r) (\<lambda>_.
     if r_kind r = KindBlob then Inr [\<lparr>c_digest = r_digest r, c_size = r_size r\<rparr>]
     else andthen (read_manifest s (r_digest r) (r_size r)) (\<lambda>(m, _). Inr (m_chunks m)))"

text \<open>Reading a \<^verbatim>\<open>contentReader\<close> to its end: the bytes it returned and how it ended.\<close>

fun read_content :: "store \<Rightarrow> bool \<Rightarrow> chunk_ref list \<Rightarrow> stream" where
  "read_content s cancelled [] = ([], None)"
| "read_content s cancelled (c # cs) =
     (if cancelled then ([], Some ErrCtx)
      else case read_object s (c_digest c) of
        Inl e \<Rightarrow> ([], Some e)
      | Inr data \<Rightarrow>
          if int (length data) \<noteq> c_size c then ([], Some (ErrInvalid ''blob size differs from ref''))
          else (case read_content s cancelled cs of (rest, e) \<Rightarrow> (data @ rest, e)))"

text \<open>\<^verbatim>\<open>Materialize\<close>: what is committed to the file, or the error after which nothing is.\<close>

definition materialize :: "store \<Rightarrow> bool \<Rightarrow> ref \<Rightarrow> bytes res" where
  "materialize s cancelled r = andthen (open_ref s r) (\<lambda>cs.
     case read_content s cancelled cs of
       (b, None) \<Rightarrow> Inr b
     | (b, Some e) \<Rightarrow> Inl e)"

fun has_objects :: "store \<Rightarrow> bool \<Rightarrow> digest list \<Rightarrow> digest list res" where
  "has_objects s cancelled [] = Inr []"
| "has_objects s cancelled (d # ds) = andthen (validate_digest d) (\<lambda>_.
     if cancelled then Inl ErrCtx
     else andthen (present s d) (\<lambda>there. andthen (has_objects s cancelled ds) (\<lambda>rest.
       Inr (if there then rest else d # rest))))"

subsection \<open>The closure walk\<close>

text \<open>\<^verbatim>\<open>reach\<close> is a bit set; the model keeps the set of its bits.\<close>

datatype reach_bit = ReachedBlob | ReachedManifest | ReachedNamed

definition reach_of :: "kind \<Rightarrow> reach_bit" where
  "reach_of k = (if k = KindManifest then ReachedManifest else ReachedBlob)"

record walker =
  w_manifests :: "manifest dir"
  w_stored :: "int dir"
  w_heights :: "digest \<Rightarrow> int"
  w_missing :: "digest list"
  w_scope :: "digest \<Rightarrow> reach_bit set"
  w_scope_objects :: int
  w_scope_bytes :: int

definition new_walker :: walker where
  "new_walker = \<lparr>w_manifests = [], w_stored = [], w_heights = (\<lambda>_. 0), w_missing = [],
     w_scope = (\<lambda>_. {}), w_scope_objects = 0, w_scope_bytes = 0\<rparr>"

text \<open>What a walk reads and is bounded by; a new walker starts with empty maps.\<close>

record walk_env =
  we_store :: store
  we_bound :: closure_bound
  we_audit :: bool
  we_cancelled :: bool

definition count_object :: "walk_env \<Rightarrow> walker \<Rightarrow> int \<Rightarrow> walker res" where
  "count_object e w n =
     (if w_scope_objects w \<ge> max_objects (we_bound e) then
        Inl (ClosureError ''objects'' (max_objects (we_bound e)))
      else if w_scope_bytes w + n > max_bytes (we_bound e) then
        Inl (ClosureError ''bytes'' (max_bytes (we_bound e)))
      else Inr (w\<lparr>w_scope_objects := w_scope_objects w + 1, w_scope_bytes := w_scope_bytes w + n\<rparr>))"

definition blob_known :: "walker \<Rightarrow> ref \<Rightarrow> bool \<Rightarrow> walk_env \<Rightarrow> int \<Rightarrow> walker res" where
  "blob_known w r first e n =
     (if n \<noteq> r_size r then Inl (ErrInvalid ''blob size differs from ref'')
      else if \<not> first then Inr w else count_object e w n)"

definition visit_blob :: "walk_env \<Rightarrow> walker \<Rightarrow> ref \<Rightarrow> bool \<Rightarrow> walker res" where
  "visit_blob e w r first =
     (case map_of (w_stored w) (r_digest r) of
        Some n \<Rightarrow> blob_known w r first e n
      | None \<Rightarrow>
          if we_audit e then
            (case stat_object (we_store e) (r_digest r) of
               Inl err \<Rightarrow>
                 if err = ErrNotExist then Inr (w\<lparr>w_missing := List.insert (r_digest r) (w_missing w)\<rparr>)
                 else Inl err
             | Inr f \<Rightarrow> let n = int (length (f_data f)) in
                 blob_known (w\<lparr>w_stored := AList.update (r_digest r) n (w_stored w)\<rparr>) r first e n)
          else blob_known (w\<lparr>w_stored := AList.update (r_digest r) (r_size r) (w_stored w)\<rparr>)
                 r first e (r_size r))"

definition revisit :: "walk_env \<Rightarrow> walker \<Rightarrow> ref \<Rightarrow> int \<Rightarrow> walker res" where
  "revisit e w r depth =
     (if r_digest r \<in> set (w_missing w) then Inr w
      else if r_kind r = KindBlob then visit_blob e w r False
      else if depth + w_heights w (r_digest r) - 1 > max_depth (we_bound e) then
        Inl (ClosureError ''depth'' (max_depth (we_bound e)))
      else case map_of (w_manifests w) (r_digest r) of
        None \<Rightarrow> andthen (check_manifest_size zero_manifest (r_size r)) (\<lambda>_. Inr w)
      | Some m \<Rightarrow> andthen (check_manifest_size m (r_size r)) (\<lambda>_. Inr w))"

definition walk_manifest :: "walk_env \<Rightarrow> walker \<Rightarrow> ref \<Rightarrow> (walker \<times> manifest) res" where
  "walk_manifest e w r =
     (case map_of (w_manifests w) (r_digest r) of
        Some m \<Rightarrow> andthen (check_manifest_size m (r_size r)) (\<lambda>_. Inr (w, m))
      | None \<Rightarrow> andthen (read_manifest (we_store e) (r_digest r) (-1)) (\<lambda>(m, encoded).
          let n = int (length encoded) in
          if (case map_of (w_stored w) (r_digest r) of None \<Rightarrow> False | Some k \<Rightarrow> k \<noteq> n) then
            Inl (ErrInvalid ''manifest size differs from blob ref'')
          else andthen (check_manifest_size m (r_size r)) (\<lambda>_.
            Inr (w\<lparr>w_manifests := AList.update (r_digest r) m (w_manifests w),
                   w_stored := AList.update (r_digest r) n (w_stored w)\<rparr>, m))))"

definition chunk_as_ref :: "chunk_ref \<Rightarrow> ref" where
  "chunk_as_ref c = \<lparr>r_digest = c_digest c, r_kind = KindBlob, r_size = c_size c\<rparr>"

definition reach_add :: "walker \<Rightarrow> digest \<Rightarrow> reach_bit \<Rightarrow> walker" where
  "reach_add w d b = w\<lparr>w_scope := (w_scope w)(d := insert b (w_scope w d))\<rparr>"

text \<open>
  \<^verbatim>\<open>visit\<close>, with its two loops: over a manifest's chunks, each of which is a visit of a blob at
  the same depth, and over its deps, one level deeper. A manifest past the depth bound is
  refused before it is read, so the recursion ends.
\<close>

fun visit_leaf :: "walk_env \<Rightarrow> walker \<Rightarrow> ref \<Rightarrow> int \<Rightarrow> walker res" where
  "visit_leaf e w r depth =
     (let reached = w_scope w (r_digest r) in
      if ReachedBlob \<in> reached then revisit e w r depth
      else if we_cancelled e then Inl ErrCtx
      else let w' = reach_add w (r_digest r) ReachedBlob in
        if r_digest r \<in> set (w_missing w') then Inr w'
        else visit_blob e w' r (reached = {}))"

fun visit_chunks :: "walk_env \<Rightarrow> walker \<Rightarrow> chunk_ref list \<Rightarrow> int \<Rightarrow> walker res" where
  "visit_chunks e w [] depth = Inr w"
| "visit_chunks e w (c # cs) depth =
     andthen (visit_leaf e w (chunk_as_ref c) depth) (\<lambda>w'. visit_chunks e w' cs depth)"

text \<open>The step of \<^verbatim>\<open>visit\<close> on a manifest before its children: \<open>Inl\<close> ends the visit, with an
  error or with the walker as it is; \<open>Inr\<close> goes on to the children.\<close>

definition enter_manifest :: "walk_env \<Rightarrow> walker \<Rightarrow> ref \<Rightarrow> int \<Rightarrow> walker res + (walker \<times> manifest)" where
  "enter_manifest e w r depth =
     (let reached = w_scope w (r_digest r) in
      if ReachedManifest \<in> reached then Inl (revisit e w r depth)
      else if we_cancelled e then Inl (Inl ErrCtx)
      else let w1 = reach_add w (r_digest r) ReachedManifest in
        if r_digest r \<in> set (w_missing w1) then Inl (Inr w1)
        else if depth > max_depth (we_bound e) then
          Inl (Inl (ClosureError ''depth'' (max_depth (we_bound e))))
        else case walk_manifest e w1 r of
          Inl err \<Rightarrow>
            Inl (if we_audit e \<and> (case err of MissingError _ \<Rightarrow> True | _ \<Rightarrow> False)
              then Inr (w1\<lparr>w_missing := List.insert (r_digest r) (w_missing w1)\<rparr>) else Inl err)
        | Inr (w2, m) \<Rightarrow>
            (if reached = {} then
               (case count_object e w2 (the (map_of (w_stored w2) (r_digest r))) of
                  Inl err \<Rightarrow> Inl (Inl err) | Inr w3 \<Rightarrow> Inr (w3, m))
             else Inr (w2, m)))"

function visit :: "walk_env \<Rightarrow> walker \<Rightarrow> ref \<Rightarrow> int \<Rightarrow> walker res"
and visit_deps :: "walk_env \<Rightarrow> walker \<Rightarrow> ref list \<Rightarrow> int \<Rightarrow> int \<Rightarrow> (walker \<times> int) res" where
  "visit e w r depth =
     (if r_kind r \<noteq> KindManifest then visit_leaf e w r depth
      else case enter_manifest e w r depth of
        Inl done \<Rightarrow> done
      | Inr (w3, m) \<Rightarrow>
          if depth > max_depth (we_bound e) then Inl (ClosureError ''depth'' (max_depth (we_bound e)))
          else (case visit_chunks e w3 (m_chunks m) depth of
            Inl err \<Rightarrow> Inl err
          | Inr w4 \<Rightarrow> (case visit_deps e w4 (m_deps m) (depth + 1) 1 of
              Inl err \<Rightarrow> Inl err
            | Inr (w5, height) \<Rightarrow> Inr (w5\<lparr>w_heights := (w_heights w5)(r_digest r := height)\<rparr>))))"
| "visit_deps e w [] depth height = Inr (w, height)"
| "visit_deps e w (d # ds) depth height =
     (case visit e w d depth of
        Inl err \<Rightarrow> Inl err
      | Inr w' \<Rightarrow> visit_deps e w' ds depth
          (if r_kind d = KindManifest then max height (w_heights w' (r_digest d) + 1) else height))"
  by pat_completeness auto
termination
  by (relation "measures [\<lambda>x. case x of
      Inl (e, w, r, depth) \<Rightarrow> nat (max_depth (we_bound e) + 1 - depth)
    | Inr (e, w, ds, depth, h) \<Rightarrow> nat (max_depth (we_bound e) + 1 - depth),
    \<lambda>x. case x of Inl _ \<Rightarrow> 0 | Inr (e, w, ds, depth, h) \<Rightarrow> Suc (length ds)]") auto

declare visit.simps [simp del] visit_deps.simps [simp del]

fun walk_roots :: "walk_env \<Rightarrow> walker \<Rightarrow> ref list \<Rightarrow> walker res" where
  "walk_roots e w [] = Inr w"
| "walk_roots e w (r # rs) =
     andthen (visit e (w\<lparr>w_scope := (\<lambda>_. {}), w_scope_objects := 0, w_scope_bytes := 0\<rparr>) r 1)
       (\<lambda>w'. walk_roots e w' rs)"

text \<open>
  \<^verbatim>\<open>order\<close>. Listing a digest marks it first, so the nesting is at most one level per manifest
  the walk read and one below; the fuel is the number of those manifests and one more.
\<close>

fun list_digests :: "nat \<Rightarrow> walker \<Rightarrow> digest list \<Rightarrow> digest list \<times> closure \<Rightarrow> digest list \<times> closure" where
  "list_digests n w [] st = st"
| "list_digests 0 w (d # ds) st = st"
| "list_digests (Suc n) w (d # ds) (listed, cl) =
     list_digests (Suc n) w ds
       (if d \<in> set listed then (listed, cl)
        else let listed1 = d # listed; n' = the (map_of (w_stored w) d) in
          case map_of (w_manifests w) d of
            Some m \<Rightarrow> (case list_digests n w (children m) (listed1, cl) of (listed2, cl2) \<Rightarrow>
              (listed2, \<lparr>cl_objects = cl_objects cl2 @ [\<lparr>o_digest = d, o_kind = KindManifest, o_size = n'\<rparr>],
                         cl_bytes = cl_bytes cl2 + n'\<rparr>))
          | None \<Rightarrow> (listed1, \<lparr>cl_objects = cl_objects cl @ [\<lparr>o_digest = d, o_kind = KindBlob, o_size = n'\<rparr>],
                        cl_bytes = cl_bytes cl + n'\<rparr>))"

definition order_closure :: "walker \<Rightarrow> ref list \<Rightarrow> closure" where
  "order_closure w roots =
     snd (list_digests (length (w_manifests w) + 1) w (map r_digest roots)
       ([], \<lparr>cl_objects = [], cl_bytes = 0\<rparr>))"

definition bound_json :: "closure_bound \<Rightarrow> json" where
  "bound_json b = JObj [(''MaxObjects'', JNum (dec_int (max_objects b))),
     (''MaxDepth'', JNum (dec_int (max_depth b))), (''MaxBytes'', JNum (dec_int (max_bytes b)))]"

definition closure_key :: "ref list \<Rightarrow> closure_bound \<Rightarrow> digest" where
  "closure_key roots b =
     digest_sum (render (JObj [(''Roots'', JArr (map ref_json roots)), (''Bound'', bound_json b)]))"

text \<open>\<^verbatim>\<open>closure\<close>, with its memo of the last \<^verbatim>\<open>closureMemos\<close> walks.\<close>

definition store_closure :: "bool \<Rightarrow> ref list \<Rightarrow> closure_bound \<Rightarrow> closure step" where
  "store_closure cancelled roots b s =
     (case validate_roots roots of
        Inl e \<Rightarrow> (s, Inl e)
      | Inr _ \<Rightarrow>
          let key = closure_key roots b in
          (case map_of (st_memo s) key of
             Some cl \<Rightarrow> (s, Inr cl)
           | None \<Rightarrow>
               (case walk_roots \<lparr>we_store = s, we_bound = b, we_audit = False, we_cancelled = cancelled\<rparr>
                   new_walker roots of
                  Inl e \<Rightarrow> (s, Inl e)
                | Inr w \<Rightarrow> let cl = order_closure w roots in
                    (s\<lparr>st_memo := (key, cl) # take 1 (st_memo s)\<rparr>, Inr cl))))"

definition complete :: "store \<Rightarrow> bool \<Rightarrow> ref list \<Rightarrow> int res" where
  "complete s cancelled roots = andthen (validate_roots roots) (\<lambda>_.
     andthen (walk_roots \<lparr>we_store = s, we_bound = DefaultClosureBound, we_audit = True,
         we_cancelled = cancelled\<rparr> new_walker roots)
       (\<lambda>w. Inr (int (length (w_missing w)))))"

definition verify_object :: "store \<Rightarrow> bool \<Rightarrow> object_entry \<Rightarrow> unit res" where
  "verify_object s cancelled x =
     (if cancelled then Inl ErrCtx
      else andthen (read_object s (o_digest x)) (\<lambda>data.
        require (int (length data) = o_size x) (ErrInvalid ''object size'')))"

definition verify :: "bool \<Rightarrow> ref list \<Rightarrow> unit step" where
  "verify cancelled roots s =
     (case store_closure cancelled roots DefaultClosureBound s of
        (s', Inl e) \<Rightarrow> (s', Inl e)
      | (s', Inr cl) \<Rightarrow> (s', each (verify_object s' cancelled) (cl_objects cl)))"

end
