(* ===== verification/Artifact_Walk.thy ===== *)
theory Artifact_Walk
  imports Artifact_Store
begin

text \<open>
  What the closure walk establishes: after a walk every reference reached from a root has been
  checked, and its manifest's children have been reached too. The walk's marks, sizes and
  manifests only ever grow, which is the order \<open>extends\<close>; the invariant \<open>walk_inv\<close> speaks of
  the manifests whose children are still being visited separately (\<open>grey\<close>).
\<close>

definition kids :: "manifest \<Rightarrow> ref list" where
  "kids m = map chunk_as_ref (m_chunks m) @ m_deps m"

lemma digest_kids: "map r_digest (kids m) = children m"
  by (simp add: kids_def children_def chunk_as_ref_def)

text \<open>The references reachable from a root through the manifests a store holds.\<close>

inductive reaches :: "store \<Rightarrow> ref \<Rightarrow> ref \<Rightarrow> bool" for s root where
  here: "reaches s root root"
| child: "reaches s root q \<Longrightarrow> r_kind q = KindManifest \<Longrightarrow> read_manifest s (r_digest q) (-1) = Inr (m, b) \<Longrightarrow>
     c \<in> set (kids m) \<Longrightarrow> reaches s root c"

text \<open>A reference the store satisfies: a manifest it reads back with the size the reference
  states, or a blob of that size.\<close>

definition ref_held :: "store \<Rightarrow> ref \<Rightarrow> bool" where
  "ref_held s r \<longleftrightarrow>
     (if r_kind r = KindManifest then is_ok (read_manifest s (r_digest r) (r_size r))
      else \<exists>f. stat_object s (r_digest r) = Inr f \<and> int (length (f_data f)) = r_size r)"

definition extends :: "walker \<Rightarrow> walker \<Rightarrow> bool" where
  "extends w w' \<longleftrightarrow> (\<forall>d. w_scope w d \<subseteq> w_scope w' d) \<and> set (w_missing w) \<subseteq> set (w_missing w') \<and>
     map_of (w_stored w) \<subseteq>\<^sub>m map_of (w_stored w') \<and> map_of (w_manifests w) \<subseteq>\<^sub>m map_of (w_manifests w')"

lemma extends_refl [simp]: "extends w w"
  by (simp add: extends_def)

lemma extends_trans: "extends a b \<Longrightarrow> extends b c \<Longrightarrow> extends a c"
  unfolding extends_def by (blast intro: map_le_trans)

definition checked :: "walker \<Rightarrow> ref \<Rightarrow> bool" where
  "checked w r \<longleftrightarrow> reach_of (r_kind r) \<in> w_scope w (r_digest r) \<and>
     (r_digest r \<in> set (w_missing w) \<or>
      (if r_kind r = KindManifest then
         \<exists>m. map_of (w_manifests w) (r_digest r) = Some m \<and> check_manifest_size m (r_size r) = Inr ()
       else map_of (w_stored w) (r_digest r) = Some (r_size r)))"

lemma checked_extends: "checked w r \<Longrightarrow> extends w w' \<Longrightarrow> checked w' r"
  unfolding checked_def extends_def map_le_def by (auto split: if_splits) (metis domI)+

definition walk_sound :: "walk_env \<Rightarrow> walker \<Rightarrow> bool" where
  "walk_sound e w \<longleftrightarrow>
     (\<forall>d m. map_of (w_manifests w) d = Some m \<longrightarrow> (\<exists>b. read_manifest (we_store e) d (-1) = Inr (m, b))) \<and>
     (we_audit e \<longrightarrow> (\<forall>d n. map_of (w_stored w) d = Some n \<longrightarrow>
        (\<exists>f. stat_object (we_store e) d = Inr f \<and> int (length (f_data f)) = n))) \<and>
     (\<forall>d \<in> set (w_missing w). stat_object (we_store e) d = Inl ErrNotExist)"

definition walk_inv :: "walk_env \<Rightarrow> digest set \<Rightarrow> walker \<Rightarrow> bool" where
  "walk_inv e grey w \<longleftrightarrow> walk_sound e w \<and>
     (\<forall>d. ReachedManifest \<in> w_scope w d \<and> d \<notin> set (w_missing w) \<longrightarrow>
        (\<exists>m. map_of (w_manifests w) d = Some m \<and> (d \<notin> grey \<longrightarrow> (\<forall>c \<in> set (kids m). checked w c)))) \<and>
     (\<forall>d. ReachedBlob \<in> w_scope w d \<and> d \<notin> set (w_missing w) \<longrightarrow> map_of (w_stored w) d \<noteq> None) \<and>
     (\<forall>d. ReachedNamed \<notin> w_scope w d)"

lemma read_manifest_stat:
  "read_manifest s d n = Inr (m, b) \<Longrightarrow>
   \<exists>f. stat_object s d = Inr f \<and> f_data f = b \<and> decode_manifest b = Inr m \<and> digest_sum b = d"
  by (auto simp: read_manifest_def read_object_def stat_object_def andthen_Inr_iff
      split: if_splits option.splits)

lemma read_manifest_missing:
  assumes "read_manifest s d n = Inl (MissingError x)"
  shows "stat_object s d = Inl ErrNotExist"
proof (cases "read_object s d")
  case (Inl e)
  with assms show ?thesis
    by (auto simp: read_manifest_def read_object_def stat_object_def split: if_splits option.splits)
next
  case (Inr b)
  have "invalid_only (read_manifest s d n)"
    unfolding read_manifest_def Inr andthen_simps
    by (rule invalid_only_andthen) (auto simp: check_manifest_size_def intro!: invalid_only_andthen)
  with assms show ?thesis by (auto simp: invalid_only_def)
qed

lemma read_manifest_any: "read_manifest s d n = Inr (m, b) \<longleftrightarrow>
   read_manifest s d (-1) = Inr (m, b) \<and> check_manifest_size m n = Inr ()"
  by (auto simp: read_manifest_def andthen_Inr_iff check_manifest_size_def)

definition kind_ok :: "ref \<Rightarrow> bool" where
  "kind_ok r \<longleftrightarrow> r_kind r = KindBlob \<or> r_kind r = KindManifest"

lemma valid_ref_kind: "validate_ref r = Inr () \<Longrightarrow> kind_ok r"
  by (auto simp: validate_ref_iff kind_ok_def)

lemma kids_kind:
  "read_manifest s d n = Inr (m, b) \<Longrightarrow> \<forall>c \<in> set (kids m). kind_ok c"
  by (drule read_manifest_stat)
    (auto simp: kids_def chunk_as_ref_def kind_ok_def validate_manifest_iff validate_ref_iff
      dest!: decode_validates)

text \<open>The parts of a walker the walk's counters leave alone.\<close>

definition same_marks :: "walker \<Rightarrow> walker \<Rightarrow> bool" where
  "same_marks w w' \<longleftrightarrow> w_scope w' = w_scope w \<and> w_missing w' = w_missing w \<and>
     w_stored w' = w_stored w \<and> w_manifests w' = w_manifests w"

lemma same_marks_refl [simp]: "same_marks w w"
  by (simp add: same_marks_def)

lemma count_object_same: "count_object e w n = Inr w' \<Longrightarrow> same_marks w w'"
  by (auto simp: count_object_def same_marks_def split: if_splits)

lemma same_marks_extends: "same_marks w w' \<Longrightarrow> extends w w'"
  by (simp add: same_marks_def extends_def)

lemma same_marks_sound: "same_marks w w' \<Longrightarrow> walk_sound e w \<Longrightarrow> walk_sound e w'"
  by (simp add: same_marks_def walk_sound_def)

lemma blob_known_Inr: "blob_known w r first e n = Inr w' \<Longrightarrow> n = r_size r \<and> same_marks w w'"
  by (auto simp: blob_known_def count_object_same split: if_splits)

text \<open>A walker with the same marks, grown maps and grown absences keeps the invariant.\<close>

lemma inv_grow:
  assumes i: "walk_inv e g w" and x: "extends w w'" and s: "w_scope w' = w_scope w"
    and o: "walk_sound e w'"
  shows "walk_inv e g w'"
proof -
  have "\<exists>m. map_of (w_manifests w') d = Some m \<and> (d \<notin> g \<longrightarrow> (\<forall>c \<in> set (kids m). checked w' c))"
    if d: "ReachedManifest \<in> w_scope w' d" "d \<notin> set (w_missing w')" for d
  proof -
    have "d \<notin> set (w_missing w)" using x d(2) by (auto simp: extends_def)
    with i d(1) s obtain m where "map_of (w_manifests w) d = Some m"
      "d \<notin> g \<longrightarrow> (\<forall>c \<in> set (kids m). checked w c)" by (auto simp: walk_inv_def)
    then show ?thesis using x checked_extends [OF _ x]
      by (intro exI [of _ m]) (auto simp: extends_def map_le_def dom_def)
  qed
  moreover have "map_of (w_stored w') d \<noteq> None"
    if d: "ReachedBlob \<in> w_scope w' d" "d \<notin> set (w_missing w')" for d
  proof -
    have "d \<notin> set (w_missing w)" using x d(2) by (auto simp: extends_def)
    with i d(1) s have "map_of (w_stored w) d \<noteq> None" by (simp add: walk_inv_def)
    then show ?thesis using x by (auto simp: extends_def map_le_def dom_def)
  qed
  moreover have "ReachedNamed \<notin> w_scope w' d" for d using i s by (simp add: walk_inv_def)
  ultimately show ?thesis using o by (auto simp: walk_inv_def)
qed

lemma inv_sound: "walk_inv e g w \<Longrightarrow> walk_sound e w"
  by (simp add: walk_inv_def)

lemma same_marks_inv:
  assumes "same_marks w w'" "walk_inv e g w"
  shows "walk_inv e g w'"
proof (rule inv_grow [OF assms(2)])
  show "extends w w'" by (rule same_marks_extends [OF assms(1)])
  show "w_scope w' = w_scope w" using assms(1) by (simp add: same_marks_def)
  show "walk_sound e w'" by (rule same_marks_sound [OF assms(1) inv_sound [OF assms(2)]])
qed

lemma visit_blob_Inr:
  assumes v: "visit_blob e w r first = Inr w'" and s: "walk_sound e w"
  shows "extends w w' \<and> w_scope w' = w_scope w \<and> walk_sound e w' \<and>
    (r_digest r \<in> set (w_missing w') \<or> map_of (w_stored w') (r_digest r) = Some (r_size r))"
proof (cases "map_of (w_stored w) (r_digest r)")
  case (Some n)
  with v have "n = r_size r" "same_marks w w'" by (auto simp: visit_blob_def dest: blob_known_Inr)
  with Some s show ?thesis
    by (auto simp: same_marks_extends same_marks_sound) (simp_all add: same_marks_def)
next
  case None
  let ?upd = "\<lambda>n. w\<lparr>w_stored := AList.update (r_digest r) n (w_stored w)\<rparr>"
  have up: "extends w (?upd n)" for n using None by (auto simp: extends_def map_le_def)
  show ?thesis
  proof (cases "we_audit e")
    case True
    show ?thesis
    proof (cases "stat_object (we_store e) (r_digest r)")
      case (Inl err)
      with v None True have w': "w' = w\<lparr>w_missing := List.insert (r_digest r) (w_missing w)\<rparr>"
        and "err = ErrNotExist" by (auto simp: visit_blob_def split: if_splits)
      with Inl s show ?thesis by (auto simp: extends_def walk_sound_def)
    next
      case (Inr f)
      with v None True have k: "int (length (f_data f)) = r_size r" "same_marks (?upd (r_size r)) w'"
        by (auto simp: visit_blob_def Let_def dest: blob_known_Inr)
      have "walk_sound e (?upd (r_size r))" using s Inr k(1) by (auto simp: walk_sound_def)
      then show ?thesis using k(2) extends_trans [OF up same_marks_extends [OF k(2)]]
        by (auto simp: same_marks_sound) (simp_all add: same_marks_def)
    qed
  next
    case False
    with v None have k: "same_marks (?upd (r_size r)) w'"
      by (auto simp: visit_blob_def dest: blob_known_Inr)
    have "walk_sound e (?upd (r_size r))" using s False by (auto simp: walk_sound_def)
    then show ?thesis using k extends_trans [OF up same_marks_extends [OF k]]
      by (auto simp: same_marks_sound) (simp_all add: same_marks_def)
  qed
qed

lemma scope_reach_add [simp]: "w_scope (reach_add w d b) = (w_scope w)(d := insert b (w_scope w d))"
  and rest_reach_add [simp]: "w_missing (reach_add w d b) = w_missing w"
    "w_stored (reach_add w d b) = w_stored w" "w_manifests (reach_add w d b) = w_manifests w"
  by (simp_all add: reach_add_def)

lemma extends_reach_add: "extends w (reach_add w d b)"
  by (auto simp: extends_def)

lemma sound_reach_add [simp]: "walk_sound e (reach_add w d b) = walk_sound e w"
  by (simp add: walk_sound_def)

text \<open>Marking a digest and then settling what the mark promises keeps the invariant.\<close>

lemma inv_mark:
  assumes i: "walk_inv e g w" and x: "extends (reach_add w d b) w'"
    and s: "w_scope w' = w_scope (reach_add w d b)" and o: "walk_sound e w'"
    and m: "b = ReachedManifest \<Longrightarrow> d \<in> set (w_missing w') \<or>
      (\<exists>m. map_of (w_manifests w') d = Some m \<and> (d \<notin> g \<longrightarrow> (\<forall>c \<in> set (kids m). checked w' c)))"
    and t: "b = ReachedBlob \<Longrightarrow> d \<in> set (w_missing w') \<or> map_of (w_stored w') d \<noteq> None"
    and nb: "b \<noteq> ReachedNamed"
  shows "walk_inv e g w'"
proof -
  have xw: "extends w w'" using x extends_trans [OF extends_reach_add] by blast
  have "\<exists>m. map_of (w_manifests w') k = Some m \<and> (k \<notin> g \<longrightarrow> (\<forall>c \<in> set (kids m). checked w' c))"
    if k: "ReachedManifest \<in> w_scope w' k" "k \<notin> set (w_missing w')" for k
  proof (cases "k = d \<and> b = ReachedManifest")
    case True
    with m k show ?thesis by auto
  next
    case False
    with k(1) s have "ReachedManifest \<in> w_scope w k" by (auto split: if_splits)
    moreover have "k \<notin> set (w_missing w)" using xw k(2) by (auto simp: extends_def)
    ultimately obtain n where "map_of (w_manifests w) k = Some n"
      "k \<notin> g \<longrightarrow> (\<forall>c \<in> set (kids n). checked w c)" using i by (auto simp: walk_inv_def)
    then show ?thesis using xw checked_extends [OF _ xw]
      by (intro exI [of _ n]) (auto simp: extends_def map_le_def dom_def)
  qed
  moreover have "map_of (w_stored w') k \<noteq> None"
    if k: "ReachedBlob \<in> w_scope w' k" "k \<notin> set (w_missing w')" for k
  proof (cases "k = d \<and> b = ReachedBlob")
    case True
    with t k show ?thesis by auto
  next
    case False
    with k(1) s have "ReachedBlob \<in> w_scope w k" by (auto split: if_splits)
    moreover have "k \<notin> set (w_missing w)" using xw k(2) by (auto simp: extends_def)
    ultimately have "map_of (w_stored w) k \<noteq> None" using i by (simp add: walk_inv_def)
    then show ?thesis using xw by (auto simp: extends_def map_le_def dom_def)
  qed
  moreover have "ReachedNamed \<notin> w_scope w' k" for k using i s nb by (simp add: walk_inv_def)
  ultimately show ?thesis using o by (auto simp: walk_inv_def)
qed

lemma reach_of_simps [simp]: "reach_of KindManifest = ReachedManifest" "reach_of KindBlob = ReachedBlob"
  by (simp_all add: reach_of_def)

definition visit_ok :: "walk_env \<Rightarrow> digest set \<Rightarrow> walker \<Rightarrow> walker \<Rightarrow> bool" where
  "visit_ok e g w w' \<longleftrightarrow> walk_inv e g w' \<and> extends w w'"

lemma visit_ok_trans: "visit_ok e g w w' \<Longrightarrow> visit_ok e g w' w'' \<Longrightarrow> visit_ok e g w w''"
  by (auto simp: visit_ok_def intro: extends_trans)

lemma revisit_Inr:
  assumes v: "revisit e w r depth = Inr w'" and i: "walk_inv e g w" and k: "kind_ok r"
    and m: "reach_of (r_kind r) \<in> w_scope w (r_digest r)"
  shows "visit_ok e g w w' \<and> checked w' r"
proof (cases "r_digest r \<in> set (w_missing w)")
  case True
  with v i m show ?thesis by (simp add: revisit_def visit_ok_def checked_def)
next
  case False
  show ?thesis
  proof (cases "r_kind r = KindBlob")
    case True
    with v False have "visit_blob e w r False = Inr w'" by (simp add: revisit_def)
    from visit_blob_Inr [OF this inv_sound [OF i]]
    have b: "extends w w'" "w_scope w' = w_scope w" "walk_sound e w'"
      "r_digest r \<in> set (w_missing w') \<or> map_of (w_stored w') (r_digest r) = Some (r_size r)" by auto
    with i m True show ?thesis by (simp add: visit_ok_def checked_def inv_grow)
  next
    case nb: False
    with k have km: "r_kind r = KindManifest" by (simp add: kind_ok_def)
    with i m False obtain mm where "map_of (w_manifests w) (r_digest r) = Some mm"
      by (auto simp: walk_inv_def)
    with v False nb i m km show ?thesis
      by (auto simp: revisit_def visit_ok_def checked_def andthen_Inr_iff split: if_splits)
  qed
qed

lemma visit_leaf_Inr:
  assumes v: "visit_leaf e w r depth = Inr w'" and i: "walk_inv e g w" and k: "r_kind r = KindBlob"
  shows "visit_ok e g w w' \<and> checked w' r"
proof (cases "ReachedBlob \<in> w_scope w (r_digest r)")
  case True
  with v k show ?thesis by (intro revisit_Inr [OF _ i]) (simp_all add: kind_ok_def Let_def)
next
  case False
  let ?w1 = "reach_add w (r_digest r) ReachedBlob"
  show ?thesis
  proof (cases "r_digest r \<in> set (w_missing w)")
    case True
    with v False have w': "w' = ?w1" by (auto simp: Let_def split: if_splits)
    have "walk_inv e g ?w1"
      by (rule inv_mark [OF i]) (use True inv_sound [OF i] in auto)
    then show ?thesis using True k unfolding w'
      by (simp add: visit_ok_def checked_def extends_reach_add)
  next
    case nm: False
    with v False have "visit_blob e ?w1 r (w_scope w (r_digest r) = {}) = Inr w'"
      by (auto simp: Let_def split: if_splits)
    from visit_blob_Inr [OF this] i have b: "extends ?w1 w'" "w_scope w' = w_scope ?w1" "walk_sound e w'"
      "r_digest r \<in> set (w_missing w') \<or> map_of (w_stored w') (r_digest r) = Some (r_size r)"
      by (auto simp: inv_sound)
    have "walk_inv e g w'" by (rule inv_mark [OF i b(1,2,3)]) (use b(4) in auto)
    with b k show ?thesis
      by (auto simp: visit_ok_def checked_def intro: extends_trans [OF extends_reach_add])
  qed
qed

lemma visit_chunks_Inr:
  "visit_chunks e w cs depth = Inr w' \<Longrightarrow> walk_inv e g w \<Longrightarrow>
   visit_ok e g w w' \<and> (\<forall>c \<in> set cs. checked w' (chunk_as_ref c))"
proof (induction e w cs depth rule: visit_chunks.induct)
  case (1 e w depth)
  then show ?case by (simp add: visit_ok_def)
next
  case (2 e w c cs depth)
  from "2.prems"(1) obtain w1 where w1: "visit_leaf e w (chunk_as_ref c) depth = Inr w1"
    and w': "visit_chunks e w1 cs depth = Inr w'" by (auto simp: andthen_Inr_iff simp del: visit_leaf.simps)
  from visit_leaf_Inr [OF w1 "2.prems"(2)] have a: "visit_ok e g w w1" "checked w1 (chunk_as_ref c)"
    by (simp_all add: chunk_as_ref_def)
  from "2.IH" [OF w'] a have b: "visit_ok e g w1 w'" "\<forall>c \<in> set cs. checked w' (chunk_as_ref c)"
    by (auto simp: visit_ok_def)
  with a show ?case using visit_ok_trans checked_extends by (auto simp: visit_ok_def)
qed

lemma walk_manifest_Inr:
  assumes v: "walk_manifest e w r = Inr (w2, m)" and s: "walk_sound e w"
  shows "extends w w2 \<and> w_scope w2 = w_scope w \<and> w_missing w2 = w_missing w \<and> walk_sound e w2 \<and>
    map_of (w_manifests w2) (r_digest r) = Some m \<and> check_manifest_size m (r_size r) = Inr () \<and>
    (\<forall>c \<in> set (kids m). kind_ok c)"
proof (cases "map_of (w_manifests w) (r_digest r)")
  case (Some m')
  with v have "w2 = w" "m = m'" "check_manifest_size m (r_size r) = Inr ()"
    by (auto simp: walk_manifest_def andthen_Inr_iff)
  moreover from Some s obtain b where "read_manifest (we_store e) (r_digest r) (-1) = Inr (m', b)"
    unfolding walk_sound_def by blast
  ultimately show ?thesis using Some s kids_kind by simp
next
  case None
  with v obtain b where b: "read_manifest (we_store e) (r_digest r) (-1) = Inr (m, b)"
    and c: "check_manifest_size m (r_size r) = Inr ()"
    and k: "map_of (w_stored w) (r_digest r) = None \<or> map_of (w_stored w) (r_digest r) = Some (int (length b))"
    and w2: "w2 = w\<lparr>w_manifests := AList.update (r_digest r) m (w_manifests w),
                     w_stored := AList.update (r_digest r) (int (length b)) (w_stored w)\<rparr>"
    by (auto simp: walk_manifest_def andthen_Inr_iff Let_def split: if_splits option.splits)
  have "extends w w2" using k None by (auto simp: w2 extends_def map_le_def)
  moreover have "walk_sound e w2"
    using s b read_manifest_stat [OF b] by (fastforce simp: w2 walk_sound_def)
  ultimately show ?thesis using c kids_kind [OF b] by (simp add: w2)
qed

lemma walk_manifest_missing:
  "walk_manifest e w r = Inl (MissingError x) \<Longrightarrow> stat_object (we_store e) (r_digest r) = Inl ErrNotExist"
proof (cases "map_of (w_manifests w) (r_digest r)")
  case None
  assume v: "walk_manifest e w r = Inl (MissingError x)"
  show ?thesis
  proof (cases "read_manifest (we_store e) (r_digest r) (-1)")
    case (Inl err)
    with v None show ?thesis by (auto simp: walk_manifest_def intro: read_manifest_missing)
  next
    case (Inr p)
    with v None show ?thesis
      by (auto simp: walk_manifest_def check_manifest_size_def require_def Let_def
          split: if_splits prod.splits option.splits)
  qed
qed (auto simp: walk_manifest_def check_manifest_size_def require_def andthen_def split: if_splits)

lemma enter_manifest_stop:
  assumes v: "enter_manifest e w r depth = Inl (Inr w')" and i: "walk_inv e g w"
    and k: "r_kind r = KindManifest"
  shows "visit_ok e g w w' \<and> checked w' r"
proof (cases "ReachedManifest \<in> w_scope w (r_digest r)")
  case True
  with v k show ?thesis
    by (intro revisit_Inr [OF _ i]) (simp_all add: enter_manifest_def kind_ok_def Let_def)
next
  case False
  let ?w1 = "reach_add w (r_digest r) ReachedManifest"
  have m: "stat_object (we_store e) (r_digest r) = Inl ErrNotExist"
    if "walk_manifest e ?w1 r = Inl (MissingError x)" for x
    using that by (rule walk_manifest_missing)
  from v False m have "w' = ?w1 \<and> r_digest r \<in> set (w_missing w) \<or>
      w' = ?w1\<lparr>w_missing := List.insert (r_digest r) (w_missing w)\<rparr> \<and>
      stat_object (we_store e) (r_digest r) = Inl ErrNotExist"
    by (auto simp: enter_manifest_def Let_def split: if_splits sum.splits prod.splits goerr.splits)
  then have w': "extends ?w1 w'" "w_scope w' = w_scope ?w1" "r_digest r \<in> set (w_missing w')" "walk_sound e w'"
    using inv_sound [OF i] by (auto simp: extends_def walk_sound_def)
  have "walk_inv e g w'" by (rule inv_mark [OF i w'(1,2,4)]) (use w'(3) in auto)
  with w' k show ?thesis
    by (auto simp: visit_ok_def checked_def intro: extends_trans [OF extends_reach_add])
qed

lemma enter_manifest_go:
  assumes v: "enter_manifest e w r depth = Inr (w3, m)" and i: "walk_inv e g w"
    and k: "r_kind r = KindManifest"
  shows "visit_ok e (insert (r_digest r) g) w w3 \<and> checked w3 r \<and>
    map_of (w_manifests w3) (r_digest r) = Some m \<and> (\<forall>c \<in> set (kids m). kind_ok c) \<and>
    depth \<le> max_depth (we_bound e)"
proof -
  let ?w1 = "reach_add w (r_digest r) ReachedManifest"
  have i': "walk_inv e (insert (r_digest r) g) w" using i by (auto simp: walk_inv_def)
  from v obtain w2 where w2: "walk_manifest e ?w1 r = Inr (w2, m)" and s: "same_marks w2 w3"
    and d: "depth \<le> max_depth (we_bound e)"
    by (auto simp: enter_manifest_def Let_def dest: count_object_same split: if_splits sum.splits prod.splits)
  from walk_manifest_Inr [OF w2] inv_sound [OF i]
  have p: "extends ?w1 w2" "w_scope w2 = w_scope ?w1" "walk_sound e w2"
    "map_of (w_manifests w2) (r_digest r) = Some m" "check_manifest_size m (r_size r) = Inr ()"
    "\<forall>c \<in> set (kids m). kind_ok c" by auto
  have "walk_inv e (insert (r_digest r) g) w2"
    by (rule inv_mark [OF i' p(1,2,3)]) (use p(4) in auto)
  then have "walk_inv e (insert (r_digest r) g) w3" by (rule same_marks_inv [OF s])
  moreover have "extends w w3"
    using extends_trans [OF extends_reach_add p(1)] same_marks_extends [OF s] extends_trans by blast
  moreover have "checked w3 r" using p s k by (auto simp: checked_def same_marks_def)
  ultimately show ?thesis using p s d by (simp add: visit_ok_def same_marks_def)
qed

lemma inv_close:
  assumes "walk_inv e (insert d g) w"
    and "\<And>m. map_of (w_manifests w) d = Some m \<Longrightarrow> \<forall>c \<in> set (kids m). checked w c"
  shows "walk_inv e g w"
  using assms by (fastforce simp: walk_inv_def)

lemma visit_Inr:
  "visit e w r depth = Inr w' \<Longrightarrow> walk_inv e g w \<Longrightarrow> kind_ok r \<Longrightarrow>
    visit_ok e g w w' \<and> checked w' r"
  and visit_deps_Inr:
  "visit_deps e w ds depth h = Inr (w'', h') \<Longrightarrow> walk_inv e g w \<Longrightarrow> \<forall>c \<in> set ds. kind_ok c \<Longrightarrow>
    visit_ok e g w w'' \<and> (\<forall>c \<in> set ds. checked w'' c)"
proof (induction e w r depth and e w ds depth h arbitrary: w' g and w'' h' g rule: visit_visit_deps.induct)
  case (1 e w r depth)
  show ?case
  proof (cases "r_kind r = KindManifest")
    case False
    with 1 show ?thesis
      by (intro visit_leaf_Inr) (auto simp: visit.simps kind_ok_def simp del: visit_leaf.simps)
  next
    case km: True
    show ?thesis
    proof (cases "enter_manifest e w r depth")
      case (Inl x)
      with "1.prems" km have "enter_manifest e w r depth = Inl (Inr w')" by (simp add: visit.simps)
      then show ?thesis using "1.prems" km by (intro enter_manifest_stop)
    next
      case (Inr x)
      then obtain w3 m where en: "enter_manifest e w r depth = Inr (w3, m)" by (cases x) simp
      from enter_manifest_go [OF en "1.prems"(2) km]
      have g3: "visit_ok e (insert (r_digest r) g) w w3" "checked w3 r"
        "map_of (w_manifests w3) (r_digest r) = Some m" "\<forall>c \<in> set (kids m). kind_ok c"
        "\<not> max_depth (we_bound e) < depth" by auto
      from "1.prems"(1) en g3(5) km obtain w4 w5 h where w4: "visit_chunks e w3 (m_chunks m) depth = Inr w4"
        and w5: "visit_deps e w4 (m_deps m) (depth + 1) 1 = Inr (w5, h)"
        and w': "w' = w5\<lparr>w_heights := (w_heights w5)(r_digest r := h)\<rparr>"
        by (auto simp: visit.simps split: sum.splits)
      from visit_chunks_Inr [OF w4] g3(1)
      have g4: "visit_ok e (insert (r_digest r) g) w3 w4" "\<forall>c \<in> set (m_chunks m). checked w4 (chunk_as_ref c)"
        by (auto simp: visit_ok_def)
      have "\<forall>c \<in> set (m_deps m). kind_ok c" using g3(4) by (simp add: kids_def)
      with "1.IH" [of "(w3, m)" w3 m w4, OF _ en refl g3(5) w4 w5] g4(1) km
      have g5: "visit_ok e (insert (r_digest r) g) w4 w5" "\<forall>c \<in> set (m_deps m). checked w5 c"
        by (auto simp: visit_ok_def)
      have x5: "extends w3 w5" "extends w4 w5"
        using g4(1) g5(1) by (auto simp: visit_ok_def intro: extends_trans)
      have m5: "map_of (w_manifests w5) (r_digest r) = Some m"
        using g3(3) x5(1) by (auto simp: extends_def map_le_def dom_def)
      have "\<forall>c \<in> set (kids m). checked w5 c"
        using g4(2) g5(2) checked_extends [OF _ x5(2)] by (auto simp: kids_def)
      with g5(1) m5 have i5: "walk_inv e g w5"
        by (intro inv_close [where d = "r_digest r" and e = e and g = g and w = w5]) (simp_all add: visit_ok_def)
      have sm: "same_marks w5 w'" by (simp add: w' same_marks_def)
      have "walk_inv e g w'" by (rule same_marks_inv [OF sm i5])
      moreover have "extends w w'"
        using g3(1) x5(1) same_marks_extends [OF sm] by (auto simp: visit_ok_def intro: extends_trans)
      moreover have "checked w' r"
        using checked_extends [OF g3(2)] x5(1) same_marks_extends [OF sm] extends_trans by blast
      ultimately show ?thesis by (simp add: visit_ok_def)
    qed
  qed
next
  case (2 e w depth h)
  then show ?case by (simp add: visit_deps.simps visit_ok_def)
next
  case (3 e w d ds depth h)
  from "3.prems"(1) obtain w1 where w1: "visit e w d depth = Inr w1"
    and w2: "visit_deps e w1 ds depth
      (if r_kind d = KindManifest then max h (w_heights w1 (r_digest d) + 1) else h) = Inr (w'', h')"
    by (auto simp: visit_deps.simps split: sum.splits)
  from "3.IH"(1) [OF w1 "3.prems"(2)] "3.prems"(3)
  have a: "visit_ok e g w w1" "checked w1 d" by auto
  with "3.IH"(2) [OF w1 w2] "3.prems"(3)
  have b: "visit_ok e g w1 w''" "\<forall>c \<in> set ds. checked w'' c" by (auto simp: visit_ok_def)
  with a show ?case using visit_ok_trans checked_extends by (auto simp: visit_ok_def)
qed

subsection \<open>Completeness of a walk\<close>

lemma reaches_checked:
  assumes "reaches s root r" and "walk_inv e {} w" and "checked w root" and "we_store e = s"
  shows "checked w r"
  using assms(1)
proof (induction rule: reaches.induct)
  case here
  show ?case by (rule assms(3))
next
  case (child q m b c)
  have "r_digest q \<notin> set (w_missing w)"
    using read_manifest_stat [OF child(3)] assms(2,4) by (auto simp: walk_inv_def walk_sound_def)
  with child(2,5) obtain m' where m': "map_of (w_manifests w) (r_digest q) = Some m'"
    "\<forall>c \<in> set (kids m'). checked w c"
    using assms(2) by (fastforce simp: checked_def walk_inv_def)
  with assms(2,4) child(3) have "m' = m" by (fastforce simp: walk_inv_def walk_sound_def)
  with m' child(4) show ?case by blast
qed

lemma checked_held:
  assumes "checked w r" and "walk_sound e w" and "we_audit e" and "set (w_missing w) = {}"
    and "kind_ok r" and "we_store e = s"
  shows "ref_held s r"
proof (cases "r_kind r = KindManifest")
  case True
  with assms obtain m b where "map_of (w_manifests w) (r_digest r) = Some m"
    "check_manifest_size m (r_size r) = Inr ()" "read_manifest s (r_digest r) (-1) = Inr (m, b)"
    by (fastforce simp: checked_def walk_sound_def)
  then show ?thesis using True by (auto simp: ref_held_def is_ok_iff read_manifest_any [of s _ "r_size r"])
next
  case False
  with assms show ?thesis by (auto simp: checked_def walk_sound_def ref_held_def)
qed

lemma reaches_kind_ok: "reaches s root r \<Longrightarrow> kind_ok root \<Longrightarrow> kind_ok r"
  by (induction rule: reaches.induct) (auto dest: kids_kind)

definition fresh_scope :: "walker \<Rightarrow> walker" where
  "fresh_scope w = w\<lparr>w_scope := (\<lambda>_. {}), w_scope_objects := 0, w_scope_bytes := 0\<rparr>"

lemma fresh_scope_inv: "walk_sound e w \<Longrightarrow> walk_inv e {} (fresh_scope w)"
  by (simp add: walk_inv_def fresh_scope_def walk_sound_def)

lemma walk_roots_Cons: "walk_roots e w (r # rs) =
   andthen (visit e (fresh_scope w) r 1) (\<lambda>w'. walk_roots e w' rs)"
  by (simp add: fresh_scope_def)

lemma new_walker_sound [simp]: "walk_sound e new_walker"
  by (simp add: walk_sound_def new_walker_def)

lemma walk_roots_missing:
  "walk_roots e w rs = Inr w' \<Longrightarrow> walk_sound e w \<Longrightarrow> \<forall>r \<in> set rs. kind_ok r \<Longrightarrow>
   walk_sound e w' \<and> set (w_missing w) \<subseteq> set (w_missing w')"
proof (induction rs arbitrary: w)
  case Nil
  then show ?case by simp
next
  case (Cons r rs)
  from Cons.prems(1) obtain w1 where w1: "visit e (fresh_scope w) r 1 = Inr w1"
    and w': "walk_roots e w1 rs = Inr w'" unfolding walk_roots_Cons by (auto simp: andthen_Inr_iff)
  from visit_Inr [OF w1 fresh_scope_inv [OF Cons.prems(2)]] Cons.prems(3)
  have "walk_inv e {} w1" "extends (fresh_scope w) w1" by (auto simp: visit_ok_def)
  with Cons.IH [OF w'] Cons.prems(3) show ?case
    by (auto simp: extends_def fresh_scope_def inv_sound)
qed

lemma walk_roots_checked:
  assumes "walk_roots e w rs = Inr w'" "walk_sound e w" "\<forall>r \<in> set rs. kind_ok r" "set (w_missing w') = {}"
    and "we_audit e" "we_store e = s" "root \<in> set rs" "reaches s root r"
  shows "ref_held s r"
  using assms(1,2,3,7)
proof (induction rs arbitrary: w)
  case Nil
  then show ?case by simp
next
  case (Cons q rs)
  from Cons.prems(1) obtain w1 where w1: "visit e (fresh_scope w) q 1 = Inr w1"
    and w2: "walk_roots e w1 rs = Inr w'" unfolding walk_roots_Cons by (auto simp: andthen_Inr_iff)
  from visit_Inr [OF w1 fresh_scope_inv [OF Cons.prems(2)]] Cons.prems(3)
  have i: "walk_inv e {} w1" "checked w1 q" by (auto simp: visit_ok_def)
  show ?case
  proof (cases "root = q")
    case True
    have m: "set (w_missing w1) = {}"
      using walk_roots_missing [OF w2] i(1) Cons.prems(3) assms(4) by (auto simp: inv_sound)
    have "checked w1 r" using reaches_checked [OF assms(8) i(1) _ assms(6)] i(2) True by simp
    then show ?thesis using checked_held [OF _ inv_sound [OF i(1)] assms(5) m _ assms(6)]
        reaches_kind_ok [OF assms(8)] True Cons.prems(3) by auto
  next
    case False
    with Cons i(1) w2 show ?thesis by (auto simp: inv_sound)
  qed
qed

lemma complete_held:
  assumes "complete s cancelled roots = Inr 0" and "root \<in> set roots" and "reaches s root r"
  shows "ref_held s r"
proof -
  let ?e = "\<lparr>we_store = s, we_bound = DefaultClosureBound, we_audit = True, we_cancelled = cancelled\<rparr>"
  from assms(1) obtain w where v: "validate_roots roots = Inr ()"
    and w: "walk_roots ?e new_walker roots = Inr w" and m: "set (w_missing w) = {}"
    by (auto simp: complete_def andthen_Inr_iff)
  have "\<forall>r \<in> set roots. kind_ok r" using v valid_ref_kind by (simp add: validate_roots_iff)
  from walk_roots_checked [OF w _ this m _ _ assms(2,3)] show ?thesis by simp
qed

end
