(* ===== verification/Artifact_Publish.thy ===== *)
theory Artifact_Publish
  imports Artifact_Store
begin

text \<open>
  Publication seen from outside. What a reader can see of a store is a partial map from
  digests to bytes (\<open>view\<close>): an object whose mark stands is absent. The contract of a content
  store is that a write changes nothing but, possibly, makes its own absent object visible,
  whatever fails on the way, and that a write which reports success has made it visible. The
  lemmas about content, groups and closedness rest on that contract alone; the store's
  \<open>write_object\<close> meets it under every fault script.
\<close>

definition view :: "store \<Rightarrow> digest \<Rightarrow> bytes option" where
  "view s d = (if d \<in> set (st_unsynced s) then None else map_option f_data (map_of (st_objects s) d))"

text \<open>\<open>added v v' B\<close>: \<open>v'\<close> is \<open>v\<close> and some objects of \<open>B\<close> that were absent.\<close>

definition added :: "(digest \<Rightarrow> bytes option) \<Rightarrow> (digest \<Rightarrow> bytes option) \<Rightarrow> bytes set \<Rightarrow> bool" where
  "added v v' B \<longleftrightarrow> (\<forall>d. v' d = v d \<or> v d = None \<and> (\<exists>b \<in> B. d = digest_sum b \<and> v' d = Some b))"

lemma added_refl [simp]: "added v v B"
  by (simp add: added_def)

lemma added_trans: "added u v A \<Longrightarrow> added v w B \<Longrightarrow> added u w (A \<union> B)"
  unfolding added_def by (metis UnCI option.distinct(1))

lemma added_mono: "added u v A \<Longrightarrow> A \<subseteq> B \<Longrightarrow> added u v B"
  unfolding added_def by blast

lemma added_dom: "added u v A \<Longrightarrow> u d \<noteq> None \<Longrightarrow> v d = u d"
  unfolding added_def by metis

text \<open>Every manifest a store shows has all its children in view.\<close>

definition closed_view :: "(digest \<Rightarrow> bytes option) \<Rightarrow> bool" where
  "closed_view v \<longleftrightarrow> (\<forall>d b m. v d = Some b \<longrightarrow> decode_manifest b = Inr m \<longrightarrow>
     (\<forall>c \<in> set (children m). v c \<noteq> None))"

definition addressed :: "(digest \<Rightarrow> bytes option) \<Rightarrow> bool" where
  "addressed v \<longleftrightarrow> (\<forall>d b. v d = Some b \<longrightarrow> digest_sum b = d)"

lemma added_closed:
  assumes "closed_view v" and a: "added v v' B"
    and B: "\<And>b m c. b \<in> B \<Longrightarrow> decode_manifest b = Inr m \<Longrightarrow> c \<in> set (children m) \<Longrightarrow> v' c \<noteq> None"
  shows "closed_view v'"
  unfolding closed_view_def
proof (intro allI impI ballI)
  fix d b m c
  assume d: "v' d = Some b" "decode_manifest b = Inr m" "c \<in> set (children m)"
  show "v' c \<noteq> None"
  proof (cases "v d = Some b")
    case True
    with assms(1) d have "v c \<noteq> None" by (auto simp: closed_view_def)
    then show ?thesis using added_dom [OF a] by metis
  next
    case False
    with a d(1) have "b \<in> B" unfolding added_def by (metis option.inject)
    with B d show ?thesis by blast
  qed
qed

lemma added_addressed: "addressed v \<Longrightarrow> added v v' B \<Longrightarrow> addressed v'"
  unfolding addressed_def added_def by (metis option.inject option.distinct(1))

subsection \<open>The contract of a content store\<close>

locale content_store =
  fixes seen :: "'s \<Rightarrow> digest \<Rightarrow> bytes option"
    and store_write :: "digest \<Rightarrow> bytes \<Rightarrow> 's \<Rightarrow> 's \<times> bool res"
  assumes write_adds: "added (seen s) (seen (fst (store_write (digest_sum b) b s))) {b}"
    and write_done: "store_write (digest_sum b) b s = (s', Inr new) \<Longrightarrow> seen s' (digest_sum b) \<noteq> None"
begin

lemma write_keeps: "seen s d = Some x \<Longrightarrow> seen (fst (store_write (digest_sum b) b s)) d = Some x"
  using added_dom [OF write_adds] by (metis option.distinct(1))

lemma write_addressed: "addressed (seen s) \<Longrightarrow> addressed (seen (fst (store_write (digest_sum b) b s)))"
  by (rule added_addressed [OF _ write_adds])

lemma write_closed:
  assumes "closed_view (seen s)"
    and "\<And>m c. decode_manifest b = Inr m \<Longrightarrow> c \<in> set (children m) \<Longrightarrow> seen s c \<noteq> None"
  shows "closed_view (seen (fst (store_write (digest_sum b) b s)))"
  by (rule added_closed [OF assms(1) write_adds])
    (use assms(2) added_dom [OF write_adds] in fastforce)

lemma write_reads:
  assumes w: "store_write (digest_sum b) b s = (s', Inr new)" and "addressed (seen s)"
    and c: "collision_free (insert b (ran (seen s)))"
  shows "seen s' (digest_sum b) = Some b"
proof -
  from write_done [OF w] obtain x where x: "seen s' (digest_sum b) = Some x" by blast
  have a: "added (seen s) (seen s') {b}" using write_adds [of s b] w by simp
  show ?thesis
  proof (cases "seen s (digest_sum b)")
    case None
    with a x show ?thesis unfolding added_def by (metis singletonD option.distinct(1))
  next
    case (Some y)
    then have "y \<in> ran (seen s)" "digest_sum y = digest_sum b"
      using assms(2) by (auto simp: ran_def addressed_def)
    then have "y = b" using collision_freeD [OF c, of y b] by blast
    with Some show ?thesis using added_dom [OF a] by (metis option.distinct(1))
  qed
qed

end

subsection \<open>The store meets the contract\<close>

lemma bindS_fst: "fst (bindS m k s) = (case m s of (s', Inl e) \<Rightarrow> s' | (s', Inr x) \<Rightarrow> fst (k x s'))"
  by (simp add: bindS_def split: prod.split sum.split)

lemma bindS_Inr: "bindS m k s = (s', Inr y) \<longleftrightarrow> (\<exists>s1 x. m s = (s1, Inr x) \<and> k x s1 = (s', Inr y))"
  by (auto simp: bindS_def split: prod.splits sum.splits)

lemma view_faults [simp]: "view (s\<lparr>st_faults := fs\<rparr>) = view s"
  by (simp add: view_def fun_eq_iff)

lemma disk_cases: "disk what eff s = (s', r) \<Longrightarrow>
   (s' = eff (s\<lparr>st_faults := tl (st_faults s)\<rparr>) \<or> s' = s\<lparr>st_faults := tl (st_faults s)\<rparr> \<and> r \<noteq> Inr ())"
  by (auto simp: disk_def Let_def split: fault.splits if_splits)

lemma disk_Inr: "disk what eff s = (s', Inr u) \<Longrightarrow> s' = eff (s\<lparr>st_faults := tl (st_faults s)\<rparr>)"
  by (auto simp: disk_def Let_def split: fault.splits if_splits)

lemma disk_unreadable:
  "(\<And>s. st_unreadable (eff s) = st_unreadable s) \<Longrightarrow> disk what eff s = (s', r) \<Longrightarrow> st_unreadable s' = st_unreadable s"
  by (drule disk_cases) auto

lemma present_Inr: "present s d = Inr b \<Longrightarrow> d \<notin> st_unreadable s \<and> (b \<longleftrightarrow> view s d \<noteq> None)"
  by (auto simp: present_def stat_object_def view_def split: if_splits option.splits sum.splits)

lemma map_entry_data [simp]:
  "map_option f_data (map_of (AList.map_entry d (\<lambda>f. f\<lparr>f_mtime := t\<rparr>) xs) k) = map_option f_data (map_of xs k)"
  by (induction xs) auto

lemma touch_view:
  assumes "touch d s = (s', r)"
  shows "view s' = view s" and "st_unreadable s' = st_unreadable s"
    and "r = Inr b \<Longrightarrow> d \<notin> st_unreadable s \<and> (b \<longleftrightarrow> view s d \<noteq> None)"
  using assms present_Inr [of s d]
  by (auto simp: touch_def bindS_def retS_def view_def fun_eq_iff split: sum.splits bool.splits prod.splits
      dest!: disk_cases)

text \<open>An error of a step is passed on by the sequence.\<close>

lemma bindS_cases:
  assumes "bindS m k s = (s', r)"
  obtains e where "m s = (s', Inl e)" "r = Inl e"
  | s1 x where "m s = (s1, Inr x)" "k x s1 = (s', r)"
  using assms by (auto simp: bindS_def split: prod.splits sum.splits)

lemma mark_view:
  assumes "mark_unsynced d s = (s', r)" "view s d = None"
  shows "view s' = view s" "st_unreadable s' = st_unreadable s"
    and "r = Inr u \<Longrightarrow> d \<in> set (st_unsynced s')"
  using assms by (auto simp: mark_unsynced_def view_def fun_eq_iff dest!: disk_cases)

lemma write_file_view:
  assumes "write_file d data s = (s', r)" "d \<in> set (st_unsynced s)"
  shows "view s' = view s" "st_unreadable s' = st_unreadable s" "d \<in> set (st_unsynced s')"
    and "r = Inr u \<Longrightarrow> map_option f_data (map_of (st_objects s') d) = Some data"
  using assms by (auto simp: write_file_def view_def fun_eq_iff dest!: disk_cases)

lemma remove_mark_view:
  assumes "remove_mark d s = (s', r)"
  shows "(view s' = view s \<or> d \<in> set (st_unsynced s) \<and>
      view s' = (view s)(d := map_option f_data (map_of (st_objects s) d)))"
    and "st_unreadable s' = st_unreadable s"
    and "r = Inr u \<Longrightarrow> view s' = (view s)(d := map_option f_data (map_of (st_objects s) d))"
  using assms
  by (auto simp: remove_mark_def view_def fun_eq_iff split: if_splits dest!: disk_cases)

lemma write_object_view:
  assumes "write_object d data s = (s', r)"
  shows "(view s' = view s \<or> view s d = None \<and> view s' = (view s)(d \<mapsto> data)) \<and>
    st_unreadable s' = st_unreadable s \<and>
    (\<forall>b. r = Inr b \<longrightarrow> view s' d \<noteq> None \<and> d \<notin> st_unreadable s)"
  using assms unfolding write_object_def
proof (cases rule: bindS_cases)
  case (1 e)
  then show ?thesis using touch_view [OF 1(1)] by auto
next
  case (2 s1 there)
  note t = touch_view [OF 2(1)]
  from t(3) have b: "d \<notin> st_unreadable s" "there \<longleftrightarrow> view s d \<noteq> None" by auto
  show ?thesis
  proof (cases there)
    case True
    with 2(2) have "s' = s1" by (simp add: retS_def)
    with t b True show ?thesis by auto
  next
    case False
    with b have none: "view s d = None" "view s1 d = None" using t by auto
    from 2(2) False have "bindS (mark_unsynced d) (\<lambda>_. bindS (write_file d data) (\<lambda>_.
        bindS (mark_synced [d]) (\<lambda>_. retS True))) s1 = (s', r)" by simp
    then show ?thesis
    proof (cases rule: bindS_cases)
      case (1 e)
      then show ?thesis using mark_view [OF 1(1) none(2)] t by auto
    next
      case (2 s2 x)
      note m = mark_view [OF 2(1) none(2)]
      from m(3) have d2: "d \<in> set (st_unsynced s2)" by simp
      from 2(2) show ?thesis
      proof (cases rule: bindS_cases)
        case (1 e)
        then show ?thesis using write_file_view [OF 1(1) d2] m t by auto
      next
        case (2 s3 y)
        note w = write_file_view [OF 2(1) d2]
        from w(4) have d3: "map_option f_data (map_of (st_objects s3) d) = Some data" by simp
        obtain z where z: "remove_mark d s3 = (s', z)" and r: "is_ok r \<Longrightarrow> z = Inr ()"
          using 2(2) by (auto simp: mark_synced_def bindS_def retS_def split: prod.splits sum.splits)
        have v3: "view s3 = view s" "st_unreadable s3 = st_unreadable s"
          using w(1,2) m(1,2) t(1,2) by simp_all
        have "view s' = view s \<or> view s' = (view s)(d \<mapsto> data)"
          using remove_mark_view(1) [OF z] d3 v3(1) by auto
        moreover have "view s' = (view s)(d \<mapsto> data)" if "is_ok r"
          using remove_mark_view(3) [OF z, of "()"] r [OF that] d3 v3(1) by simp
        moreover have "st_unreadable s' = st_unreadable s"
          using remove_mark_view(2) [OF z] v3(2) by simp
        ultimately show ?thesis using none(1) b(1) by auto
      qed
    qed
  qed
qed

lemma added_upd: "v (digest_sum b) = None \<Longrightarrow> added v (v(digest_sum b \<mapsto> b)) {b}"
  by (simp add: added_def)

lemma write_object_added:
  assumes "write_object (digest_sum b) b s = (s', r)"
  shows "added (view s) (view s') {b}"
  using write_object_view [OF assms, THEN conjunct1] added_upd [of "view s" b] added_refl by metis

interpretation disk_store: content_store view write_object
proof unfold_locales
  fix s b
  show "added (view s) (view (fst (write_object (digest_sum b) b s))) {b}"
    by (rule write_object_added [of b s _ "snd (write_object (digest_sum b) b s)"]) simp
next
  fix b s s' new
  assume "write_object (digest_sum b) b s = (s', Inr new)"
  from write_object_view [OF this] show "view s' (digest_sum b) \<noteq> None" by simp
qed

subsection \<open>Content in and out\<close>

text \<open>The manifest content gets: its pieces of \<^verbatim>\<open>ChunkSize\<close> bytes, named by digest.\<close>

definition chunk_refs :: "bytes \<Rightarrow> chunk_ref list" where
  "chunk_refs bs = map (\<lambda>b. \<lparr>c_digest = digest_sum b, c_size = int (length b)\<rparr>) (chunk_list (nat ChunkSize) bs)"

definition pieces :: "bytes \<Rightarrow> bytes set" where
  "pieces bs = set (chunk_list (nat ChunkSize) bs)"

lemma ChunkSize_pos [simp]: "0 < nat ChunkSize" "0 < ChunkSize" "\<not> ChunkSize \<le> 0" "0 \<le> ChunkSize"
  by (simp_all add: ChunkSize_def)

lemma chunk_list_step: "bs \<noteq> [] \<Longrightarrow>
   chunk_list (nat ChunkSize) bs = take (nat ChunkSize) bs # chunk_list (nat ChunkSize) (drop (nat ChunkSize) bs)"
  by (subst chunk_list.simps) simp

lemma chunk_list_Nil [simp]: "chunk_list n [] = []"
  by (subst chunk_list.simps) simp

definition chunks_in :: "manifest \<Rightarrow> store \<Rightarrow> bool" where
  "chunks_in m s \<longleftrightarrow> (\<forall>c \<in> set (m_chunks m). view s (c_digest c) \<noteq> None \<and> c_digest c \<notin> st_unreadable s)"

lemma chunks_in_added: "chunks_in m s \<Longrightarrow> added (view s) (view s') B \<Longrightarrow> st_unreadable s' = st_unreadable s \<Longrightarrow> chunks_in m s'"
  unfolding chunks_in_def by (metis added_dom)

lemma put_chunks_view:
  assumes "put_chunks cancelled bs ending m s = (s', r)"
  shows "added (view s) (view s') (pieces bs) \<and> st_unreadable s' = st_unreadable s \<and>
    (\<forall>m'. r = Inr m' \<longrightarrow> ending = None \<and> \<not> cancelled \<and>
       m' = m\<lparr>m_chunks := m_chunks m @ chunk_refs bs, m_size := m_size m + int (length bs)\<rparr> \<and>
       (chunks_in m s \<longrightarrow> chunks_in m' s'))"
  using assms
proof (induction cancelled bs ending m s rule: put_chunks.induct)
  case (1 cancelled bs ending m s)
  show ?case
  proof (cases "cancelled \<or> bs = []")
    case True
    with 1(2) show ?thesis
      by (subst (asm) put_chunks.simps) (auto simp: chunk_refs_def ChunkSize_def split: if_splits option.splits)
  next
    case False
    define n where "n = min (nat ChunkSize) (length bs)"
    define chunk where "chunk = take n bs"
    have nc: "\<not> cancelled" using False by simp
    have n0: "0 < n" using False by (simp add: n_def)
    have pc: "chunk_list (nat ChunkSize) bs = chunk # chunk_list (nat ChunkSize) (drop n bs)"
      using False chunk_list_step [of bs] by (auto simp: chunk_def n_def min_def)
    obtain s1 x where w: "write_object (digest_sum chunk) chunk s = (s1, x)" by fastforce
    have a: "added (view s) (view s1) {chunk}" "st_unreadable s1 = st_unreadable s"
      using write_object_added [OF w] write_object_view [OF w] by auto
    show ?thesis
    proof (cases x)
      case (Inl e)
      have "(s', r) = (s1, Inl e)"
        using 1(2) w Inl False n0
        by (subst (asm) put_chunks.simps) (simp add: Let_def bindS_def retS_def n_def chunk_def)
      with a pc show ?thesis by (auto simp: pieces_def intro: added_mono)
    next
      case (Inr there)
      let ?m1 = "m\<lparr>m_chunks := m_chunks m @ [\<lparr>c_digest = digest_sum chunk, c_size = int n\<rparr>], m_size := m_size m + int n\<rparr>"
      have st: "put_chunks cancelled bs ending m s =
          (if int n = ChunkSize then put_chunks cancelled (drop n bs) ending ?m1 s1
           else (case ending of None \<Rightarrow> (s1, Inr ?m1) | Some e \<Rightarrow> (s1, Inl e)))"
        using w Inr False n0
        by (subst put_chunks.simps) (simp add: Let_def bindS_def retS_def n_def [symmetric] chunk_def [symmetric])
      have c1: "chunks_in m s \<Longrightarrow> chunks_in ?m1 s1"
        using chunks_in_added [OF _ a] write_object_view [OF w] Inr a(2) by (auto simp: chunks_in_def)
      have ln: "length chunk = n" by (simp add: chunk_def n_def)
      show ?thesis
      proof (cases "int n = ChunkSize")
        case True
        have stq: "(s1, Inr ?m1) = (if 0 < n then bindS (write_object (digest_sum chunk) chunk)
              (\<lambda>_. retS ?m1) s else (s, Inr m))"
          using w Inr n0 by (simp add: bindS_def retS_def)
        have next_step: "put_chunks cancelled (drop n bs) ending ?m1 s1 = (s', r)"
          using 1(2) st True by simp
        note ih = "1.IH" [OF nc n_def chunk_def refl stq refl True next_step]
        have n: "n = nat ChunkSize" "n \<le> length bs" using True by (auto simp: n_def min_def split: if_splits)
        have "added (view s) (view s') ({chunk} \<union> pieces (drop n bs))"
          using added_trans [OF a(1)] ih by blast
        moreover have "{chunk} \<union> pieces (drop n bs) = pieces bs"
          "chunk_refs bs = \<lparr>c_digest = digest_sum chunk, c_size = int n\<rparr> # chunk_refs (drop n bs)"
          using pc ln by (auto simp: pieces_def chunk_refs_def)
        moreover have "int n + int (length (drop n bs)) = int (length bs)" using n(2) by simp
        ultimately show ?thesis using ih a(2) c1 by auto
      next
        case small: False
        then have "length bs \<le> n" by (auto simp: n_def min_def split: if_splits)
        then have rest: "chunk = bs" "drop n bs = []" by (auto simp: chunk_def)
        show ?thesis using 1(2) st small a c1 rest pc ln nc
          by (auto simp: pieces_def chunk_refs_def split: option.splits)
      qed
    qed
  qed
qed

lemma liftS_bind: "bindS (liftS r) k s = (case r of Inl e \<Rightarrow> (s, Inl e) | Inr x \<Rightarrow> k x s)"
  by (simp add: bindS_def liftS_def split: sum.split)

definition readable :: "store \<Rightarrow> digest \<Rightarrow> bool" where
  "readable s d \<longleftrightarrow> view s d \<noteq> None \<and> d \<notin> st_unreadable s"

lemma readable_added: "readable s d \<Longrightarrow> added (view s) (view s') B \<Longrightarrow> st_unreadable s' = st_unreadable s \<Longrightarrow> readable s' d"
  unfolding readable_def by (metis added_dom)

lemma put_manifest_view:
  assumes "put_manifest m s = (s', r)"
  shows "added (view s) (view s') {b. encode_manifest m = Inr b} \<and> st_unreadable s' = st_unreadable s \<and>
    (\<forall>q. r = Inr q \<longrightarrow> (\<exists>b. encode_manifest m = Inr b \<and> readable s' (digest_sum b) \<and>
       q = \<lparr>r_digest = digest_sum b, r_kind = KindManifest, r_size = m_size m\<rparr>))"
proof (cases "encode_manifest m")
  case (Inl e)
  with assms show ?thesis by (auto simp: put_manifest_def liftS_bind)
next
  case (Inr b)
  with assms obtain x where w: "write_object (digest_sum b) b s = (s', x)"
    and r: "r = (case x of Inl e \<Rightarrow> Inl e | Inr _ \<Rightarrow>
        Inr \<lparr>r_digest = digest_sum b, r_kind = KindManifest, r_size = m_size m\<rparr>)"
    by (auto simp: put_manifest_def liftS_def bindS_def retS_def split: prod.splits sum.splits)
  have "added (view s) (view s') {b}" by (rule write_object_added [OF w])
  moreover have "st_unreadable s' = st_unreadable s" "\<And>y. x = Inr y \<Longrightarrow> readable s' (digest_sum b)"
    using write_object_view [OF w] by (auto simp: readable_def)
  ultimately show ?thesis using Inr r by (auto split: sum.splits intro: added_mono)
qed

lemma put_manifest_closed:
  assumes "put_manifest m s = (s', r)" and "closed_view (view s)"
    and "\<forall>c \<in> set (children m). view s c \<noteq> None"
  shows "closed_view (view s')"
proof -
  note v = put_manifest_view [OF assms(1), THEN conjunct1]
  show ?thesis
  proof (rule added_closed [OF assms(2) v])
    fix b n c
    assume "b \<in> {b. encode_manifest m = Inr b}" "decode_manifest b = Inr n" "c \<in> set (children n)"
    then have "c \<in> set (children m)" using decode_encode [of m b] by simp
    with assms(3) have "view s c \<noteq> None" by blast
    then show "view s' c \<noteq> None" using added_dom [OF v] by metis
  qed
qed

definition content_manifest :: "string \<Rightarrow> bytes \<Rightarrow> manifest" where
  "content_manifest media bs = \<lparr>m_schema = ManifestSchema, m_media = media, m_size = int (length bs),
     m_chunks = chunk_refs bs, m_deps = []\<rparr>"

text \<open>The two stages of \<^verbatim>\<open>Put\<close>: the chunks, then their manifest.\<close>

lemma put_content_cases:
  assumes "put_content cancelled (bs, ending) media s = (s', r)"
  shows "view s' = view s \<and> \<not> is_ok r \<or>
    (\<exists>s1. added (view s) (view s1) (pieces bs) \<and> st_unreadable s1 = st_unreadable s \<and>
       (s' = s1 \<and> \<not> is_ok r \<or> ending = None \<and> put_manifest (content_manifest media bs) s1 = (s', r) \<and>
         (\<forall>c \<in> set (chunk_refs bs). readable s1 (c_digest c))))"
proof (cases "media_ok media")
  case False
  with assms show ?thesis by (auto simp: put_content_def failS_def)
next
  case True
  let ?m = "\<lparr>m_schema = ManifestSchema, m_media = media, m_size = 0, m_chunks = [], m_deps = []\<rparr>"
  from assms True have "bindS (put_chunks cancelled bs ending ?m) put_manifest s = (s', r)"
    by (simp add: put_content_def)
  then show ?thesis
  proof (cases rule: bindS_cases)
    case (1 e)
    then show ?thesis using put_chunks_view [OF 1(1)] by auto
  next
    case (2 s1 m')
    note v = put_chunks_view [OF 2(1)]
    then have m': "m' = content_manifest media bs" by (simp add: content_manifest_def)
    have "chunks_in ?m s" by (simp add: chunks_in_def)
    with v have "chunks_in m' s1" by blast
    then have "\<forall>c \<in> set (chunk_refs bs). readable s1 (c_digest c)"
      unfolding m' by (simp add: chunks_in_def readable_def content_manifest_def)
    with v 2(2) m' show ?thesis by blast
  qed
qed

lemma put_content_keeps_closed:
  assumes p: "put_content cancelled (bs, ending) media s = (s', r)" and c: "closed_view (view s)"
    and raw: "\<forall>b \<in> pieces bs. \<not> is_ok (decode_manifest b)"
  shows "closed_view (view s')"
proof -
  have chunks: "closed_view (view s1)" if "added (view s) (view s1) (pieces bs)" for s1
    by (rule added_closed [OF c that]) (use raw in \<open>auto simp: is_ok_iff\<close>)
  from put_content_cases [OF p] show ?thesis
  proof (elim disjE exE conjE)
    assume "view s' = view s" with c show ?thesis by simp
  next
    fix s1 assume "added (view s) (view s1) (pieces bs)" "s' = s1"
    with chunks show ?thesis by blast
  next
    fix s1 assume a: "added (view s) (view s1) (pieces bs)"
      "put_manifest (content_manifest media bs) s1 = (s', r)"
      "\<forall>c \<in> set (chunk_refs bs). readable s1 (c_digest c)"
    show ?thesis
      by (rule put_manifest_closed [OF a(2) chunks [OF a(1)]])
        (use a(3) in \<open>auto simp: children_def content_manifest_def readable_def\<close>)
  qed
qed

subsection \<open>Groups\<close>

lemma require_present_all:
  "eachS require_present deps s = (s', r) \<Longrightarrow>
   s' = s \<and> (r = Inr () \<longrightarrow> (\<forall>d \<in> set deps. readable s (r_digest d)))"
proof (induction deps)
  case Nil
  then show ?case by (simp add: retS_def)
next
  case (Cons d ds)
  from Cons.prems have "bindS (require_present d) (\<lambda>_. eachS require_present ds) s = (s', r)" by simp
  then show ?case
  proof (cases rule: bindS_cases)
    case (1 e)
    then show ?thesis by (auto simp: require_present_def split: sum.splits)
  next
    case (2 s1 x)
    then have s1: "s1 = s" and p: "present s (r_digest d) = Inr True"
      by (auto simp: require_present_def split: sum.splits)
    from 2(2) s1 have "eachS require_present ds s = (s', r)" by simp
    from Cons.IH [OF this] present_Inr [OF p] show ?thesis by (auto simp: readable_def)
  qed
qed

definition all_readable :: "store \<Rightarrow> ref list \<Rightarrow> bool" where
  "all_readable s rs \<longleftrightarrow> (\<forall>r \<in> set rs. readable s (r_digest r))"

lemma put_level_view:
  "put_level gs s = (s', r) \<Longrightarrow> closed_view (view s) \<Longrightarrow> all_readable s (concat gs) \<Longrightarrow>
   closed_view (view s') \<and> st_unreadable s' = st_unreadable s \<and> (\<exists>B. added (view s) (view s') B) \<and>
   (\<forall>rs. r = Inr rs \<longrightarrow> all_readable s' rs)"
proof (induction gs arbitrary: s s' r)
  case Nil
  then show ?case by (auto simp: all_readable_def intro: added_refl)
next
  case (Cons g gs)
  obtain s1 x where p: "put_manifest (group_manifest GroupMedia g) s = (s1, x)" by fastforce
  note v = put_manifest_view [OF p]
  have c: "closed_view (view s1)"
    by (rule put_manifest_closed [OF p Cons.prems(2)])
      (use Cons.prems(3) in \<open>auto simp: children_def group_manifest_def all_readable_def readable_def\<close>)
  show ?case
  proof (cases x)
    case (Inl e)
    with Cons.prems p v c show ?thesis by auto
  next
    case (Inr q)
    obtain s2 y where l: "put_level gs s1 = (s2, y)" by fastforce
    have "all_readable s1 (concat gs)"
      using Cons.prems(3) readable_added [OF _ v [THEN conjunct1]] v by (auto simp: all_readable_def)
    from Cons.IH [OF l c this] have h: "closed_view (view s2)" "st_unreadable s2 = st_unreadable s1"
      "\<exists>B. added (view s1) (view s2) B" "\<forall>rs. y = Inr rs \<longrightarrow> all_readable s2 rs" by auto
    from h(3) obtain B where B: "added (view s1) (view s2) B" by blast
    have q: "readable s2 (r_digest q)" using v Inr readable_added [OF _ B h(2)] by auto
    have "\<exists>B. added (view s) (view s2) B" using added_trans v B by blast
    then show ?thesis using Cons.prems(1) p Inr l h v q
      by (auto simp: all_readable_def split: sum.splits)
  qed
qed

lemma concat_deps: "concat (chunk_list (nat MaxDeps) deps) = deps"
  by (rule concat_chunk_list) (simp add: MaxDeps_def)

lemma put_tree_closed:
  "put_tree media deps s = (s', r) \<Longrightarrow> closed_view (view s) \<Longrightarrow> all_readable s deps \<Longrightarrow>
   closed_view (view s') \<and> (\<forall>q. r = Inr q \<longrightarrow> readable s' (r_digest q))"
proof (induction media deps s rule: put_tree.induct)
  case (1 media deps s)
  show ?case
  proof (cases "int (length deps) > MaxDeps")
    case False
    with 1(2) have p: "put_manifest (group_manifest media deps) s = (s', r)"
      by (subst (asm) put_tree.simps) simp
    have "closed_view (view s')"
      by (rule put_manifest_closed [OF p 1(3)])
        (use 1(4) in \<open>auto simp: children_def group_manifest_def all_readable_def readable_def\<close>)
    with put_manifest_view [OF p] show ?thesis by auto
  next
    case True
    obtain s1 x where l: "put_level (chunk_list (nat MaxDeps) deps) s = (s1, x)" by fastforce
    have "all_readable s (concat (chunk_list (nat MaxDeps) deps))" using 1(4) by (simp add: concat_deps)
    note v = put_level_view [OF l 1(3) this]
    show ?thesis
    proof (cases x)
      case (Inl e)
      with 1(2) True l v show ?thesis by (subst (asm) put_tree.simps) auto
    next
      case (Inr level)
      with 1(2) True l have t: "put_tree media level s1 = (s', r)"
        by (subst (asm) put_tree.simps) simp
      show ?thesis using "1.IH" [OF True _ Inr t] l v Inr by auto
    qed
  qed
qed

lemma put_group_keeps_closed:
  assumes "put_group cancelled media deps s = (s', r)" and "closed_view (view s)"
  shows "closed_view (view s') \<and> (\<forall>q. r = Inr q \<longrightarrow> readable s' (r_digest q))"
proof (cases "media_ok media \<and> validate_refs deps ''dep'' = Inr () \<and> \<not> cancelled")
  case False
  then have "s' = s \<and> \<not> is_ok r"
    using assms(1) by (auto simp: put_group_def failS_def liftS_bind split: sum.splits if_splits)
  with assms(2) show ?thesis by auto
next
  case True
  with assms(1) have "bindS (eachS require_present deps) (\<lambda>_. put_tree media deps) s = (s', r)"
    by (simp add: put_group_def liftS_bind)
  then show ?thesis
  proof (cases rule: bindS_cases)
    case (1 e)
    with assms(2) require_present_all [OF 1(1)] show ?thesis by auto
  next
    case (2 s1 x)
    from require_present_all [OF 2(1)] have "s1 = s" "all_readable s deps"
      by (auto simp: all_readable_def)
    with put_tree_closed [OF 2(2)] assms(2) show ?thesis by auto
  qed
qed

subsection \<open>Reading content back\<close>

lemma added_reads:
  assumes a: "added v v' B" and ad: "addressed v" and c: "collision_free (insert x (B \<union> ran v))"
    and there: "v' (digest_sum x) \<noteq> None"
  shows "v' (digest_sum x) = Some x"
proof -
  from there obtain y where y: "v' (digest_sum x) = Some y" by blast
  with a have "v (digest_sum x) = Some y \<or> y \<in> B \<and> digest_sum x = digest_sum y"
    unfolding added_def by (metis option.inject)
  then have "y \<in> insert x (B \<union> ran v) \<and> digest_sum y = digest_sum x"
    using ad by (auto simp: addressed_def ran_def)
  with c have "y = x" using collision_freeD by blast
  with y show ?thesis by simp
qed

lemma read_object_view:
  "d \<notin> st_unreadable s \<Longrightarrow> view s d = Some x \<Longrightarrow> digest_sum x = d \<Longrightarrow> read_object s d = Inr x"
  by (auto simp: read_object_def view_def split: if_splits option.splits)

lemma read_content_pieces:
  "\<forall>b \<in> set ps. read_object s (digest_sum b) = Inr b \<Longrightarrow>
   read_content s False (map (\<lambda>b. \<lparr>c_digest = digest_sum b, c_size = int (length b)\<rparr>) ps) = (concat ps, None)"
  by (induction ps) simp_all

lemma concat_pieces: "concat (chunk_list (nat ChunkSize) bs) = bs"
  by (rule concat_chunk_list) simp

lemma put_content_materialize:
  assumes p: "put_content cancelled (bs, ending) media s = (s', Inr r)" and ad: "addressed (view s)"
    and cf: "collision_free (insert (render (manifest_json (content_manifest media bs))) (pieces bs \<union> ran (view s)))"
  shows "materialize s' False r = Inr bs"
proof -
  let ?M = "content_manifest media bs"
  from put_content_cases [OF p] obtain s1 where
    a1: "added (view s) (view s1) (pieces bs)" "st_unreadable s1 = st_unreadable s"
    and pm: "put_manifest ?M s1 = (s', Inr r)"
    and rd: "\<forall>c \<in> set (chunk_refs bs). readable s1 (c_digest c)" by auto
  from put_manifest_view [OF pm] obtain b where b: "encode_manifest ?M = Inr b"
    and a2: "added (view s1) (view s') {b}" and u: "st_unreadable s' = st_unreadable s1"
    and rb: "readable s' (digest_sum b)"
    and r: "r = \<lparr>r_digest = digest_sum b, r_kind = KindManifest, r_size = m_size ?M\<rparr>" by auto
  have bm: "b = render (manifest_json ?M)" using b by (simp add: encode_manifest_Inr)
  have a: "added (view s) (view s') (pieces bs \<union> {b})" by (rule added_trans [OF a1(1) a2])
  have reads: "read_object s' (digest_sum x) = Inr x" if "x \<in> pieces bs \<union> {b}" "readable s' (digest_sum x)" for x
  proof (rule read_object_view)
    have e: "insert x (pieces bs \<union> {b} \<union> ran (view s)) = insert b (pieces bs \<union> ran (view s))"
      using that(1) by auto
    show "view s' (digest_sum x) = Some x"
      by (rule added_reads [OF a ad]) (use cf bm e that(2) in \<open>auto simp: readable_def\<close>)
  qed (use that(2) in \<open>auto simp: readable_def\<close>)
  have "read_object s' (digest_sum b) = Inr b" by (rule reads) (simp_all add: rb)
  then have rm: "read_manifest s' (digest_sum b) (m_size ?M) = Inr (?M, b)"
    using decode_encode [OF b] by (simp add: read_manifest_def check_manifest_size_def)
  have "m_size ?M \<le> maxWireInt" "0 \<le> m_size ?M"
    using encoded_size [OF b] by (simp_all add: MaxManifestBytes_def ChunkSize_def maxWireInt_def)
  then have "validate_ref r = Inr ()" by (simp add: r validate_ref_iff)
  then have op: "open_ref s' r = Inr (chunk_refs bs)"
    using rm by (simp add: open_ref_def r) (simp add: content_manifest_def)
  have "\<forall>x \<in> set (chunk_list (nat ChunkSize) bs). read_object s' (digest_sum x) = Inr x"
    using rd readable_added [OF _ a2 u] reads by (auto simp: chunk_refs_def pieces_def)
  from read_content_pieces [OF this] show ?thesis
    by (simp add: materialize_def op chunk_refs_def concat_pieces)
qed

text \<open>Stores for the witnesses: an empty one, and one that shows a single blob.\<close>

definition empty_store :: "fault list \<Rightarrow> store" where
  "empty_store fs = \<lparr>st_objects = [], st_unsynced = [], st_unreadable = {}, st_pins = [], st_outbox = [],
     st_incoming = [], st_committed = [], st_memo = [], st_now = 1, st_faults = fs\<rparr>"

definition one_store :: store where
  "one_store = (empty_store [])\<lparr>st_objects := [(digest_sum ''a'', \<lparr>f_data = ''a'', f_mtime = 1\<rparr>)]\<rparr>"

definition one_ref :: ref where
  "one_ref = \<lparr>r_digest = digest_sum ''a'', r_kind = KindBlob, r_size = 1\<rparr>"

lemma empty_view [simp]: "view (empty_store fs) = (\<lambda>_. None)"
  by (simp add: view_def empty_store_def fun_eq_iff)

lemma one_view: "view one_store = [digest_sum ''a'' \<mapsto> ''a'']"
  by (simp add: view_def one_store_def empty_store_def fun_eq_iff)

lemma pieces_a: "pieces ''a'' = {''a''}"
proof -
  have "chunk_list (nat ChunkSize) ''a'' = [''a'']"
    by (subst chunk_list_step) (simp_all add: ChunkSize_def)
  then show ?thesis by (simp add: pieces_def)
qed

lemma decode_a: "\<not> is_ok (decode_manifest ''a'')" "decode_manifest ''a'' \<noteq> Inr m"
proof -
  have "decode_one ''a'' = None" by code_simp
  then show "\<not> is_ok (decode_manifest ''a'')" "decode_manifest ''a'' \<noteq> Inr m"
    by (simp_all add: decode_manifest_def MaxManifestBytes_def)
qed

lemma disk_fine: "st_faults s = [] \<Longrightarrow> disk what eff s = (eff s, Inr ())"
  by (cases s) (simp add: disk_def)

text \<open>With no fault to come, publishing succeeds.\<close>

lemma write_object_fine:
  assumes "st_faults s = []" and "d \<notin> st_unreadable s"
  shows "\<exists>s' b. write_object d data s = (s', Inr b)"
proof (cases "present s d = Inr True")
  case True
  then show ?thesis using assms(1)
    by (auto simp: write_object_def touch_def bindS_def retS_def disk_fine)
next
  case False
  then have "present s d = Inr False"
    using assms(2) by (auto simp: present_def stat_object_def split: option.splits if_splits)
  then show ?thesis using assms(1)
    by (auto simp: write_object_def touch_def bindS_def retS_def disk_fine mark_unsynced_def
        write_file_def mark_synced_def remove_mark_def)
qed

lemma put_empty: "\<exists>s' r. put_content False ([], None) ''text'' (empty_store []) = (s', Inr r)"
proof -
  let ?m = "\<lparr>m_schema = ManifestSchema, m_media = ''text'', m_size = 0, m_chunks = [], m_deps = []\<rparr>"
  have "media_ok ''text''" by code_simp
  moreover have "put_chunks False [] None ?m (empty_store []) = (empty_store [], Inr ?m)"
    by (subst put_chunks.simps) (simp add: ChunkSize_def)
  moreover have "is_ok (encode_manifest ?m)" by code_simp
  then obtain b where "encode_manifest ?m = Inr b" by (auto simp: is_ok_iff)
  moreover obtain s' n where "write_object (digest_sum b) b (empty_store []) = (s', Inr n)"
    using write_object_fine [of "empty_store []" "digest_sum b" b] by (auto simp: empty_store_def)
  ultimately show ?thesis
    by (simp add: put_content_def put_manifest_def bindS_def liftS_def retS_def)
qed

subsection \<open>Properties\<close>

text \<open>C19. Whatever call fails and wherever the process crashes, publishing an object leaves every
  other object as it was, shows the object either not at all or with its complete bytes, and
  shows it when it reports success.\<close>

theorem publication_atomic:
  assumes "write_object (digest_sum b) b s = (s', r)"
  shows "(view s' = view s \<or> view s (digest_sum b) = None \<and> view s' = (view s)(digest_sum b \<mapsto> b)) \<and>
    (is_ok r \<longrightarrow> view s' (digest_sum b) \<noteq> None)"
  using write_object_view [OF assms] by (auto simp: is_ok_iff)

theorem publication_atomic_witness:
  "view (fst (write_object (digest_sum ''a'') ''a'' (empty_store [Fine, FailAfter]))) = (\<lambda>_. None)"
  using publication_atomic [of "''a''" "empty_store [Fine, FailAfter]"
      "fst (write_object (digest_sum ''a'') ''a'' (empty_store [Fine, FailAfter]))"
      "snd (write_object (digest_sum ''a'') ''a'' (empty_store [Fine, FailAfter]))"]
  by (simp add: write_object_def bindS_def touch_def present_def stat_object_def empty_store_def
      mark_unsynced_def write_file_def disk_def retS_def)
    (simp add: view_def fun_eq_iff)

text \<open>A store in which every visible manifest has all its children in view stays so when
  content is put, at every crash point, as long as no chunk of the content is itself the
  encoding of a manifest.\<close>

theorem put_keeps_closed:
  assumes "put_content cancelled (bs, ending) media s = (s', r)" and "closed_view (view s)"
    and "\<forall>b \<in> pieces bs. \<not> is_ok (decode_manifest b)"
  shows "closed_view (view s')"
  using assms by (rule put_content_keeps_closed)

theorem put_keeps_closed_witness:
  "closed_view (view (fst (put_content False (''a'', None) ''text'' (empty_store [Fine, FailAfter]))))"
proof (rule put_keeps_closed [of False "''a''" None "''text''" _ _ "snd (put_content False (''a'', None) ''text'' (empty_store [Fine, FailAfter]))"])
  show "closed_view (view (empty_store [Fine, FailAfter]))" by (simp add: closed_view_def)
  show "\<forall>b \<in> pieces ''a''. \<not> is_ok (decode_manifest b)" by (simp add: pieces_a decode_a)
qed simp

text \<open>Putting a group, of any number of deps and at every crash point, keeps every visible
  manifest's children in view: a group is refused while a dep is absent.\<close>

theorem group_keeps_closed:
  assumes "put_group cancelled media deps s = (s', r)" and "closed_view (view s)"
  shows "closed_view (view s') \<and> (\<forall>q. r = Inr q \<longrightarrow> view s' (r_digest q) \<noteq> None)"
  using put_group_keeps_closed [OF assms] by (auto simp: readable_def)

theorem group_keeps_closed_witness:
  "closed_view (view (fst (put_group False ''text'' [one_ref] one_store)))"
  by (rule group_keeps_closed [THEN conjunct1, of False "''text''" "[one_ref]" one_store _
        "snd (put_group False ''text'' [one_ref] one_store)"])
    (simp_all add: closed_view_def one_view decode_a)

text \<open>Content that was put reads back byte for byte, over any store whose objects hash to
  their names, when the hash does not collide on the bytes involved.\<close>

theorem put_reads_back:
  assumes "put_content cancelled (bs, ending) media s = (s', Inr r)" and "addressed (view s)"
    and "collision_free (insert (render (manifest_json (content_manifest media bs))) (pieces bs \<union> ran (view s)))"
  shows "materialize s' False r = Inr bs"
  using assms by (rule put_content_materialize)

theorem put_reads_back_witness:
  "case put_content False ([], None) ''text'' (empty_store []) of
     (s', Inr r) \<Rightarrow> materialize s' False r = Inr [] | (s', Inl e) \<Rightarrow> False"
proof -
  obtain s' r where p: "put_content False ([], None) ''text'' (empty_store []) = (s', Inr r)"
    using put_empty by blast
  have "materialize s' False r = Inr []"
    by (rule put_reads_back [OF p]) (simp_all add: addressed_def collision_free_def pieces_def)
  then show ?thesis by (simp add: p)
qed

end
