(* ===== verification/Artifact_Order.thy ===== *)
theory Artifact_Order
  imports Artifact_Walk Artifact_Publish
begin

text \<open>
  The order of a closure: every object once, and each manifest after all of its children. The
  order rests on the manifests the walk read being acyclic, which a content-addressed store
  gives as long as no one finds a manifest that contains its own digest; it is the hypothesis
  \<open>ranked\<close>.
\<close>

definition digests :: "closure \<Rightarrow> digest list" where
  "digests cl = map o_digest (cl_objects cl)"

definition children_first :: "walker \<Rightarrow> digest list \<Rightarrow> bool" where
  "children_first w xs \<longleftrightarrow> (\<forall>i < length xs. \<forall>m. map_of (w_manifests w) (xs ! i) = Some m \<longrightarrow>
     set (children m) \<subseteq> set (take i xs))"

lemma children_first_snoc:
  "children_first w (xs @ [d]) \<longleftrightarrow> children_first w xs \<and>
     (\<forall>m. map_of (w_manifests w) d = Some m \<longrightarrow> set (children m) \<subseteq> set xs)"
  unfolding children_first_def
proof (intro iffI conjI allI impI)
  fix i m
  assume "\<forall>i<length (xs @ [d]). \<forall>m. map_of (w_manifests w) ((xs @ [d]) ! i) = Some m \<longrightarrow>
      set (children m) \<subseteq> set (take i (xs @ [d]))"
  note all = this [rule_format]
  show "set (children m) \<subseteq> set (take i xs)"
    if "i < length xs" "map_of (w_manifests w) (xs ! i) = Some m"
    using all [of i m] that by (simp add: nth_append)
  show "set (children m) \<subseteq> set xs" if "map_of (w_manifests w) d = Some m"
    using all [of "length xs" m] that by simp
next
  fix i m
  assume a: "(\<forall>i<length xs. \<forall>m. map_of (w_manifests w) (xs ! i) = Some m \<longrightarrow>
        set (children m) \<subseteq> set (take i xs)) \<and>
      (\<forall>m. map_of (w_manifests w) d = Some m \<longrightarrow> set (children m) \<subseteq> set xs)"
    and i: "i < length (xs @ [d])" "map_of (w_manifests w) ((xs @ [d]) ! i) = Some m"
  show "set (children m) \<subseteq> set (take i (xs @ [d]))"
  proof (cases "i = length xs")
    case True
    with a i show ?thesis by simp
  next
    case False
    with i have "i < length xs" "map_of (w_manifests w) (xs ! i) = Some m" by (auto simp: nth_append)
    with a show ?thesis by simp
  qed
qed

definition walk_ranked :: "walker \<Rightarrow> (digest \<Rightarrow> nat) \<Rightarrow> bool" where
  "walk_ranked w rank \<longleftrightarrow> (\<forall>d m. map_of (w_manifests w) d = Some m \<longrightarrow>
     (\<forall>c \<in> set (children m). rank c < rank d))"

definition unlisted :: "walker \<Rightarrow> digest list \<Rightarrow> digest set" where
  "unlisted w listed = {d. map_of (w_manifests w) d \<noteq> None} - set listed"

lemma finite_unlisted [simp]: "finite (unlisted w listed)"
  using finite_dom_map_of [of "w_manifests w"] by (simp add: unlisted_def dom_def)

lemma unlisted_mono: "set xs \<subseteq> set ys \<Longrightarrow> card (unlisted w ys) \<le> card (unlisted w xs)"
  by (intro card_mono finite_unlisted) (auto simp: unlisted_def)

definition total_bytes :: "closure \<Rightarrow> int" where
  "total_bytes cl = sum_list (map o_size (cl_objects cl))"

text \<open>A listing in progress: what is marked is what is listed and the manifests whose children
  are being listed.\<close>

definition listing :: "walker \<Rightarrow> digest set \<Rightarrow> digest list \<times> closure \<Rightarrow> bool" where
  "listing w grey st \<longleftrightarrow> (case st of (listed, cl) \<Rightarrow>
     set listed = set (digests cl) \<union> grey \<and> set (digests cl) \<inter> grey = {} \<and>
     distinct (digests cl) \<and> children_first w (digests cl) \<and> cl_bytes cl = total_bytes cl \<and>
     (\<forall>x \<in> set (cl_objects cl). o_kind x = KindManifest \<longrightarrow> map_of (w_manifests w) (o_digest x) \<noteq> None))"

lemma digests_snoc [simp]:
  "digests \<lparr>cl_objects = xs @ [x], cl_bytes = n\<rparr> = map o_digest xs @ [o_digest x]"
  by (simp add: digests_def)

lemma listing_snoc:
  assumes "listing w (insert d grey) (listed, cl)" and "d \<notin> grey"
    and "\<And>m. map_of (w_manifests w) d = Some m \<Longrightarrow> set (children m) \<subseteq> set (digests cl)"
    and "k = KindManifest \<Longrightarrow> map_of (w_manifests w) d \<noteq> None"
  shows "listing w grey (listed, \<lparr>cl_objects = cl_objects cl @ [\<lparr>o_digest = d, o_kind = k, o_size = n\<rparr>],
    cl_bytes = cl_bytes cl + n\<rparr>)"
  using assms by (auto simp: listing_def children_first_snoc total_bytes_def) (auto simp: digests_def children_first_snoc)

lemma listing_mark: "listing w grey (listed, cl) \<Longrightarrow> d \<notin> set listed \<Longrightarrow> listing w (insert d grey) (d # listed, cl)"
  by (auto simp: listing_def)

lemma list_digests_ok:
  assumes "walk_ranked w rank"
  shows "listing w grey (listed, cl) \<Longrightarrow> card (unlisted w listed) < n \<Longrightarrow>
    \<forall>d \<in> set ds. \<forall>g \<in> grey. rank d < rank g \<Longrightarrow>
    list_digests n w ds (listed, cl) = (listed', cl') \<Longrightarrow>
    listing w grey (listed', cl') \<and> set ds \<subseteq> set (digests cl') \<and> set (digests cl) \<subseteq> set (digests cl') \<and>
    set listed \<subseteq> set listed'"
proof (induction n arbitrary: ds listed cl listed' cl' grey)
  case 0
  then show ?case by simp
next
  case (Suc n)
  note outer = Suc.IH
  from Suc.prems show ?case
  proof (induction ds arbitrary: listed cl)
    case Nil
    then show ?case by simp
  next
    case (Cons d ds)
    have dg: "d \<notin> grey" using Cons.prems(3) by auto
    have rest: "\<forall>d \<in> set ds. \<forall>g \<in> grey. rank d < rank g" using Cons.prems(3) by simp
    show ?case
    proof (cases "d \<in> set listed")
      case True
      with Cons.prems(4) have "list_digests (Suc n) w ds (listed, cl) = (listed', cl')" by simp
      from Cons.IH [OF Cons.prems(1,2) rest this] True Cons.prems(1) dg
      show ?thesis by (auto simp: listing_def)
    next
      case False
      have mark: "listing w (insert d grey) (d # listed, cl)"
        by (rule listing_mark [OF Cons.prems(1) False])
      have "\<exists>listed2 cl3. listing w grey (listed2, cl3) \<and> set (d # listed) \<subseteq> set listed2 \<and>
          d \<in> set (digests cl3) \<and> set (digests cl) \<subseteq> set (digests cl3) \<and>
          list_digests (Suc n) w (d # ds) (listed, cl) = list_digests (Suc n) w ds (listed2, cl3)"
      proof (cases "map_of (w_manifests w) d")
        case None
        let ?cl3 = "\<lparr>cl_objects = cl_objects cl @ [\<lparr>o_digest = d, o_kind = KindBlob, o_size = the (map_of (w_stored w) d)\<rparr>],
            cl_bytes = cl_bytes cl + the (map_of (w_stored w) d)\<rparr>"
        have "listing w grey (d # listed, ?cl3)"
          by (rule listing_snoc [OF mark dg]) (simp_all add: None)
        with None False show ?thesis
          by (intro exI [of _ "d # listed"] exI [of _ ?cl3]) (auto simp: Let_def digests_def)
      next
        case (Some m)
        obtain listed2 cl2 where ch: "list_digests n w (children m) (d # listed, cl) = (listed2, cl2)"
          by fastforce
        have "d \<in> unlisted w listed" using Some False by (simp add: unlisted_def)
        then have "card (unlisted w (d # listed)) < card (unlisted w listed)"
          by (intro psubset_card_mono finite_unlisted) (auto simp: unlisted_def)
        then have f: "card (unlisted w (d # listed)) < n" using Cons.prems(2) by simp
        have r: "\<forall>c \<in> set (children m). \<forall>g \<in> insert d grey. rank c < rank g"
          using assms Some Cons.prems(3) by (fastforce simp: walk_ranked_def)
        note c = outer [OF mark f r ch]
        let ?cl3 = "\<lparr>cl_objects = cl_objects cl2 @ [\<lparr>o_digest = d, o_kind = KindManifest, o_size = the (map_of (w_stored w) d)\<rparr>],
            cl_bytes = cl_bytes cl2 + the (map_of (w_stored w) d)\<rparr>"
        have "listing w grey (listed2, ?cl3)"
          by (rule listing_snoc [OF c [THEN conjunct1] dg]) (use c Some in auto)
        moreover have "list_digests (Suc n) w (d # ds) (listed, cl) = list_digests (Suc n) w ds (listed2, ?cl3)"
          using Some False ch by (simp add: Let_def)
        moreover have "d \<in> set (digests ?cl3)" "set (digests cl) \<subseteq> set (digests ?cl3)"
          using c by (auto simp: digests_def)
        ultimately show ?thesis using c by blast
      qed
      then obtain listed2 cl3 where l: "listing w grey (listed2, cl3)" "set (d # listed) \<subseteq> set listed2"
        "d \<in> set (digests cl3)" "set (digests cl) \<subseteq> set (digests cl3)"
        "list_digests (Suc n) w ds (listed2, cl3) = (listed', cl')" using Cons.prems(4) by metis
      have f2: "card (unlisted w listed2) < Suc n"
        using unlisted_mono [of listed listed2 w] l(2) Cons.prems(2) by fastforce
      from Cons.IH [OF l(1) f2 rest l(5)] l show ?thesis by auto
    qed
  qed
qed

lemma order_closure_ok:
  assumes "walk_ranked w rank"
  shows "distinct (digests (order_closure w roots)) \<and> children_first w (digests (order_closure w roots)) \<and>
    set (map r_digest roots) \<subseteq> set (digests (order_closure w roots)) \<and>
    cl_bytes (order_closure w roots) = total_bytes (order_closure w roots) \<and>
    (\<forall>x \<in> set (cl_objects (order_closure w roots)). o_kind x = KindManifest \<longrightarrow>
       map_of (w_manifests w) (o_digest x) \<noteq> None)"
proof -
  let ?st = "([], \<lparr>cl_objects = [], cl_bytes = 0\<rparr>) :: digest list \<times> closure"
  obtain listed cl where r: "list_digests (length (w_manifests w) + 1) w (map r_digest roots) ?st = (listed, cl)"
    by fastforce
  have "card (unlisted w []) \<le> length (w_manifests w)"
  proof -
    have "{d. map_of (w_manifests w) d \<noteq> None} = fst ` set (w_manifests w)"
      using dom_map_of_conv_image_fst [of "w_manifests w"] by (auto simp: dom_def)
    then show ?thesis using card_image_le [of "set (w_manifests w)" fst] card_length [of "w_manifests w"]
      by (simp add: unlisted_def)
  qed
  then have "card (unlisted w []) < length (w_manifests w) + 1" by simp
  moreover have "listing w {} ?st"
    by (simp add: listing_def digests_def children_first_def total_bytes_def)
  ultimately have "listing w {} (listed, cl) \<and> set (map r_digest roots) \<subseteq> set (digests cl)"
    using list_digests_ok [OF assms, of "{}" _ _ _ _ listed cl] r by fastforce
  then show ?thesis using r by (simp add: order_closure_def listing_def)
qed

subsection \<open>The walk behind a closure\<close>

lemma extends_fresh: "extends (fresh_scope w) w1 \<Longrightarrow> map_of (w_manifests w) \<subseteq>\<^sub>m map_of (w_manifests w1)"
  by (simp add: extends_def fresh_scope_def)

lemma walk_roots_grows:
  "walk_roots e w rs = Inr w' \<Longrightarrow> walk_sound e w \<Longrightarrow> \<forall>r \<in> set rs. kind_ok r \<Longrightarrow>
   map_of (w_manifests w) \<subseteq>\<^sub>m map_of (w_manifests w')"
proof (induction rs arbitrary: w)
  case Nil
  then show ?case by simp
next
  case (Cons r rs)
  from Cons.prems(1) obtain w1 where w1: "visit e (fresh_scope w) r 1 = Inr w1"
    and w': "walk_roots e w1 rs = Inr w'" unfolding walk_roots_Cons by (auto simp: andthen_Inr_iff)
  from visit_Inr [OF w1 fresh_scope_inv [OF Cons.prems(2)]] Cons.prems(3)
  have i: "walk_inv e {} w1" "extends (fresh_scope w) w1" by (auto simp: visit_ok_def)
  then have "map_of (w_manifests w1) \<subseteq>\<^sub>m map_of (w_manifests w')"
    using Cons.IH [OF w'] Cons.prems(3) by (simp add: inv_sound)
  with extends_fresh [OF i(2)] show ?case by (rule map_le_trans)
qed

text \<open>Every manifest a root reaches is among those the walk has read.\<close>

lemma walk_roots_manifests:
  assumes "walk_roots e w rs = Inr w'" "walk_sound e w" "\<forall>r \<in> set rs. kind_ok r" "we_store e = s"
    and "root \<in> set rs" "reaches s root q" "r_kind q = KindManifest"
    and "read_manifest s (r_digest q) (-1) = Inr (m, b)"
  shows "map_of (w_manifests w') (r_digest q) = Some m"
  using assms(1,2,3,5)
proof (induction rs arbitrary: w)
  case Nil
  then show ?case by simp
next
  case (Cons r rs)
  from Cons.prems(1) obtain w1 where w1: "visit e (fresh_scope w) r 1 = Inr w1"
    and w2: "walk_roots e w1 rs = Inr w'" unfolding walk_roots_Cons by (auto simp: andthen_Inr_iff)
  from visit_Inr [OF w1 fresh_scope_inv [OF Cons.prems(2)]] Cons.prems(3)
  have i: "walk_inv e {} w1" "checked w1 r" by (auto simp: visit_ok_def)
  show ?case
  proof (cases "root = r")
    case False
    with Cons i w2 show ?thesis by (auto simp: inv_sound)
  next
    case True
    have "checked w1 q" using reaches_checked [OF assms(6) i(1) _ assms(4)] i(2) True by simp
    moreover have "r_digest q \<notin> set (w_missing w1)"
      using read_manifest_stat [OF assms(8)] inv_sound [OF i(1)] assms(4) by (auto simp: walk_sound_def)
    ultimately obtain m' where m': "map_of (w_manifests w1) (r_digest q) = Some m'"
      using assms(7) by (auto simp: checked_def)
    then have "m' = m" using inv_sound [OF i(1)] assms(4,8) by (fastforce simp: walk_sound_def)
    moreover have "map_of (w_manifests w1) \<subseteq>\<^sub>m map_of (w_manifests w')"
      by (rule walk_roots_grows [OF w2 inv_sound [OF i(1)]]) (use Cons.prems(3) in simp)
    ultimately show ?thesis using m' by (auto simp: map_le_def dom_def)
  qed
qed

definition ranked :: "store \<Rightarrow> (digest \<Rightarrow> nat) \<Rightarrow> bool" where
  "ranked s rank \<longleftrightarrow> (\<forall>d m b. read_manifest s d (-1) = Inr (m, b) \<longrightarrow>
     (\<forall>c \<in> set (children m). rank c < rank d))"

lemma order_reaches:
  assumes w: "walk_roots e new_walker roots = Inr w" and e: "we_store e = s"
    and k: "\<forall>r \<in> set roots. kind_ok r" and r: "walk_ranked w rank"
    and root: "root \<in> set roots" and q: "reaches s root q"
  shows "r_digest q \<in> set (digests (order_closure w roots))"
  using q
proof (induction rule: reaches.induct)
  case here
  then show ?case using order_closure_ok [OF r, of roots] root by auto
next
  case (child q m b c)
  have m: "map_of (w_manifests w) (r_digest q) = Some m"
    by (rule walk_roots_manifests [OF w new_walker_sound k e root child(1,2,3)])
  from child(5) obtain i where i: "i < length (digests (order_closure w roots))"
    "digests (order_closure w roots) ! i = r_digest q" by (auto simp: in_set_conv_nth)
  then have "set (children m) \<subseteq> set (take i (digests (order_closure w roots)))"
    using order_closure_ok [OF r, of roots] m by (auto simp: children_first_def)
  moreover have "r_digest c \<in> set (children m)" using child(4) by (auto simp flip: digest_kids)
  ultimately show ?case by (meson in_set_takeD subset_eq)
qed

text \<open>What a closure promises: the objects once each, everything the roots reach, children
  before their manifest, and the sum of the sizes.\<close>

definition closure_ok :: "store \<Rightarrow> ref list \<Rightarrow> closure \<Rightarrow> bool" where
  "closure_ok s roots cl \<longleftrightarrow> distinct (digests cl) \<and> cl_bytes cl = total_bytes cl \<and>
     (\<forall>root \<in> set roots. \<forall>q. reaches s root q \<longrightarrow> r_digest q \<in> set (digests cl)) \<and>
     (\<forall>i < length (cl_objects cl). \<forall>m b. o_kind (cl_objects cl ! i) = KindManifest \<longrightarrow>
        read_manifest s (digests cl ! i) (-1) = Inr (m, b) \<longrightarrow>
        set (children m) \<subseteq> set (take i (digests cl)))"

lemma walk_closure_ok:
  assumes w: "walk_roots e new_walker roots = Inr w" and e: "we_store e = s"
    and v: "validate_roots roots = Inr ()" and r: "ranked s rank"
  shows "closure_ok s roots (order_closure w roots)"
proof -
  have k: "\<forall>r \<in> set roots. kind_ok r" using v valid_ref_kind by (simp add: validate_roots_iff)
  have ws: "walk_sound e w" using walk_roots_missing [OF w new_walker_sound k] by simp
  then have wr: "walk_ranked w rank" using r e by (fastforce simp: walk_ranked_def walk_sound_def ranked_def)
  note ok = order_closure_ok [OF wr, of roots]
  let ?cl = "order_closure w roots"
  have "set (children m) \<subseteq> set (take i (digests ?cl))"
    if i: "i < length (cl_objects ?cl)" "o_kind (cl_objects ?cl ! i) = KindManifest"
      "read_manifest s (digests ?cl ! i) (-1) = Inr (m, b)" for i m b
  proof -
    have d: "digests ?cl ! i = o_digest (cl_objects ?cl ! i)" using i(1) by (simp add: digests_def)
    from ok i(1,2) obtain m' where "map_of (w_manifests w) (digests ?cl ! i) = Some m'"
      unfolding d by fastforce
    moreover from this ws e i(3) have "m' = m" by (fastforce simp: walk_sound_def)
    ultimately show ?thesis using ok i(1) by (simp add: children_first_def digests_def)
  qed
  then show ?thesis using ok order_reaches [OF w e k wr] by (auto simp: closure_ok_def)
qed

lemma store_closure_ok:
  assumes "store_closure cancelled roots b s = (s', Inr cl)" and "st_memo s = []" and "ranked s rank"
  shows "closure_ok s roots cl"
proof -
  from assms(1,2) obtain w where "validate_roots roots = Inr ()"
    "walk_roots \<lparr>we_store = s, we_bound = b, we_audit = False, we_cancelled = cancelled\<rparr> new_walker roots = Inr w"
    "cl = order_closure w roots"
    by (auto simp: store_closure_def Let_def split: sum.splits)
  with walk_closure_ok [OF _ _ _ assms(3)] show ?thesis by simp
qed

subsection \<open>Properties\<close>


lemma one_read: "read_manifest one_store d n \<noteq> Inr x"
  using decode_a by (auto simp: read_manifest_def read_object_def one_store_def empty_store_def andthen_Inr_iff)

lemma one_valid: "validate_roots [one_ref] = Inr ()"
  by (simp add: validate_roots_iff one_ref_def validate_ref_iff MaxRoots_def ChunkSize_def)

definition one_closure :: closure where
  "one_closure = \<lparr>cl_objects = [\<lparr>o_digest = digest_sum ''a'', o_kind = KindBlob, o_size = 1\<rparr>], cl_bytes = 1\<rparr>"

lemma one_closure: "store_closure False [one_ref] DefaultClosureBound one_store =
   (one_store\<lparr>st_memo := [(closure_key [one_ref] DefaultClosureBound, one_closure)]\<rparr>, Inr one_closure)"
  by (simp add: store_closure_def one_valid)
    (simp add: one_ref_def one_store_def empty_store_def Let_def visit.simps new_walker_def reach_add_def
      visit_blob_def blob_known_def count_object_def DefaultClosureBound_def order_closure_def one_closure_def)


text \<open>When \<^verbatim>\<open>Complete\<close> counts no missing object, every object reachable from the roots is in
  the store: every manifest decodes, with the size its reference states, and every blob has
  the stated length.\<close>

theorem complete_means_closed:
  assumes "complete s cancelled roots = Inr 0" and "root \<in> set roots" and "reaches s root r"
  shows "ref_held s r"
  using assms by (rule complete_held)

theorem complete_means_closed_witness: "ref_held one_store one_ref"
proof (rule complete_means_closed)
  show "complete one_store False [one_ref] = Inr 0"
    by (simp add: complete_def one_valid)
      (simp add: one_ref_def one_store_def empty_store_def visit.simps new_walker_def reach_add_def
        visit_blob_def stat_object_def blob_known_def count_object_def DefaultClosureBound_def)
  show "reaches one_store one_ref one_ref" by (rule reaches.here)
qed simp

text \<open>When \<^verbatim>\<open>Verify\<close> succeeds, every object the roots reach can be read and its bytes hash
  to its digest.\<close>

theorem verify_means_intact:
  assumes "verify cancelled roots s = (s', Inr ())" and "st_memo s = []" and "ranked s rank"
    and "root \<in> set roots" and "reaches s root q"
  shows "\<exists>b. read_object s' (r_digest q) = Inr b \<and> digest_sum b = r_digest q"
proof -
  from assms(1) obtain s1 cl where c: "store_closure cancelled roots DefaultClosureBound s = (s1, Inr cl)"
    and s': "s' = s1" and v: "\<forall>x \<in> set (cl_objects cl). verify_object s1 cancelled x = Inr ()"
    by (auto simp: verify_def each_Inr_iff split: prod.splits sum.splits)
  have "closure_ok s roots cl" by (rule store_closure_ok [OF c assms(2,3)])
  then have "\<forall>root \<in> set roots. \<forall>q. reaches s root q \<longrightarrow> r_digest q \<in> set (digests cl)"
    by (simp add: closure_ok_def)
  with assms(4,5) have "r_digest q \<in> o_digest ` set (cl_objects cl)" by (simp add: digests_def)
  then obtain x where "x \<in> set (cl_objects cl)" "o_digest x = r_digest q" by auto
  with v obtain b where "read_object s1 (r_digest q) = Inr b"
    by (auto simp: verify_object_def andthen_Inr_iff split: if_splits)
  then show ?thesis unfolding s'
    by (auto simp: read_object_def split: if_splits option.splits)
qed

theorem verify_means_intact_witness:
  "\<exists>b. read_object (fst (verify False [one_ref] one_store)) (r_digest one_ref) = Inr b"
proof -
  have "snd (verify False [one_ref] one_store) = Inr ()"
    by (simp add: verify_def one_closure)
      (simp add: one_closure_def verify_object_def read_object_def one_store_def empty_store_def)
  then have "verify False [one_ref] one_store = (fst (verify False [one_ref] one_store), Inr ())"
    by (metis prod.collapse)
  from verify_means_intact [OF this, of "\<lambda>_. 0" one_ref one_ref] one_read reaches.here [of one_store one_ref]
  show ?thesis by (auto simp: ranked_def one_store_def empty_store_def)
qed

end
