(* ===== verification/Artifact_Gc.thy ===== *)
theory Artifact_Gc
  imports Artifact_Walk Artifact_Publish
begin

text \<open>
  Pins and garbage collection (\<^verbatim>\<open>src/artifact/pins.go\<close>, \<^verbatim>\<open>src/artifact/gc.go\<close>): the pin sets of
  a store, the sweep of expired staging, the marking of what pins and young objects reach, and
  the removal of the rest.
\<close>

subsection \<open>Pins\<close>

definition validate_pins_set :: "string \<Rightarrow> ref list \<Rightarrow> unit res" where
  "validate_pins_set owner roots =
     (if owner = [] \<or> list_ex (\<lambda>c. c = CHR 0x00 \<or> c = CHR 0x0D \<or> c = CHR 0x0A) owner then
        Inl (ErrInvalid ''pin owner'')
      else if int (length roots) > MaxPinRoots then Inl (ErrInvalid ''too many pinned roots'')
      else validate_refs roots ''root'')"

definition validate_pin_set :: "pin_set \<Rightarrow> unit res" where
  "validate_pin_set p = andthen (validate_pins_set (ps_owner p) (ps_roots p)) (\<lambda>_.
     require (\<not> (ps_roots p = [] \<or> ps_updated_at p = 0)) (ErrInvalid ''pin set empty or unstamped''))"

definition pin_path :: "string \<Rightarrow> string" where
  "pin_path owner = digest_sum owner @ ''.json''"

definition set_pins :: "bool \<Rightarrow> string \<Rightarrow> ref list \<Rightarrow> unit step" where
  "set_pins cancelled owner roots =
     bindS (liftS (validate_pins_set owner roots)) (\<lambda>_.
       if cancelled then failS ErrCtx
       else if roots = [] then
         disk ''remove pins'' (\<lambda>s. s\<lparr>st_pins := AList.delete (pin_path owner) (st_pins s)\<rparr>)
       else disk ''write pins'' (\<lambda>s. s\<lparr>st_pins := AList.update (pin_path owner)
           \<lparr>ps_owner = owner, ps_roots = roots, ps_updated_at = st_now s\<rparr> (st_pins s)\<rparr>))"

definition hidden_name :: "string \<Rightarrow> bool" where
  "hidden_name n \<longleftrightarrow> n \<noteq> [] \<and> hd n = CHR ''.''"

fun read_pins :: "pin_set dir \<Rightarrow> pin_set list res" where
  "read_pins [] = Inr []"
| "read_pins ((name, p) # ps) =
     (if hidden_name name then read_pins ps
      else if pin_path (ps_owner p) \<noteq> name then Inl (ErrInvalid ''pin file holds another owner'')
      else andthen (read_pins ps) (\<lambda>rest. Inr (p # rest)))"

definition list_pins :: "store \<Rightarrow> bool \<Rightarrow> pin_set list res" where
  "list_pins s cancelled =
     (if cancelled then Inl ErrCtx
      else andthen (read_pins (st_pins s)) (\<lambda>ps. Inr (sort_key ps_owner ps)))"

subsection \<open>The sweep of staging\<close>

text \<open>\<^verbatim>\<open>sweepStaging\<close> over a directory's names and times; the count of removed entries.\<close>

fun sweep_entries :: "(string \<times> gotime) list \<Rightarrow> (string \<Rightarrow> store \<Rightarrow> store) \<Rightarrow> gotime \<Rightarrow> int \<Rightarrow> int step" where
  "sweep_entries [] rm cutoff n s = (s, Inr n)"
| "sweep_entries ((name, t) # es) rm cutoff n s =
     (if \<not> t < cutoff then sweep_entries es rm cutoff n s
      else case disk ''remove staging'' (rm name) s of
        (s', Inl e) \<Rightarrow> (s', Inl e)
      | (s', Inr _) \<Rightarrow> sweep_entries es rm cutoff (n + 1) s')"

definition sweep_staging :: "int step" where
  "sweep_staging s =
     (let cutoff = st_now s - StagingTTL in
      bindS (sweep_entries (map (\<lambda>(n, g). (n, sg_mtime g)) (st_outbox s))
          (\<lambda>n s. s\<lparr>st_outbox := AList.delete n (st_outbox s)\<rparr>) cutoff 0) (\<lambda>a.
        bindS (sweep_entries (map (\<lambda>(n, g). (n, sg_mtime g)) (st_incoming s))
            (\<lambda>n s. s\<lparr>st_incoming := AList.delete n (st_incoming s)\<rparr>) cutoff a)
          (sweep_entries (map (\<lambda>(n, d, t). (n, t)) (st_committed s))
            (\<lambda>n s. s\<lparr>st_committed := AList.delete n (st_committed s)\<rparr>) cutoff)) s)"

subsection \<open>Scanning the objects\<close>

record stored_object =
  so_digest :: digest
  so_size :: int
  so_young :: bool

fun scan_files :: "(string \<times> stored_file) list \<Rightarrow> gotime \<Rightarrow> stored_object list \<Rightarrow> stored_object list step" where
  "scan_files [] cutoff acc s = (s, Inr (rev acc))"
| "scan_files ((name, f) # fs) cutoff acc s =
     (let young = (\<not> f_mtime f < cutoff) in
      if hidden_name name then
        (if young then scan_files fs cutoff acc s
         else case disk ''remove temp'' (\<lambda>s. s\<lparr>st_objects := AList.delete name (st_objects s)\<rparr>) s of
            (s', Inl e) \<Rightarrow> (s', Inl e)
          | (s', Inr _) \<Rightarrow> scan_files fs cutoff acc s')
      else case validate_digest name of
        Inl e \<Rightarrow> (s, Inl e)
      | Inr _ \<Rightarrow> scan_files fs cutoff
          (\<lparr>so_digest = name, so_size = int (length (f_data f)), so_young = young\<rparr> # acc) s)"

definition scan_object_files :: "bool \<Rightarrow> gotime \<Rightarrow> stored_object list step" where
  "scan_object_files cancelled cutoff s =
     (if cancelled then (s, Inl ErrCtx)
      else scan_files (sort_key fst (st_objects s)) cutoff [] s)"

subsection \<open>Marking what an object names\<close>

definition manifest_prefix :: bytes where
  "manifest_prefix = ''{'' @ [CHR 0x22] @ ''schema'' @ [CHR 0x22] @ '':'' @ [CHR 0x22] @ ManifestSchema @ [CHR 0x22] @ '',''"

text \<open>\<^verbatim>\<open>sniffManifest\<close>: the manifest a stored object's bytes decode to, if they do.\<close>

definition sniff_manifest :: "store \<Rightarrow> digest \<Rightarrow> manifest option res" where
  "sniff_manifest s d =
     (if d \<in> st_unreadable s then Inl (ErrIO ''read object'')
      else case map_of (st_objects s) d of
        None \<Rightarrow> Inr None
      | Some f \<Rightarrow>
          if take (length manifest_prefix) (f_data f) \<noteq> manifest_prefix then Inr None
          else andthen (read_object s d) (\<lambda>data.
            case decode_manifest data of Inl _ \<Rightarrow> Inr None | Inr m \<Rightarrow> Inr (Some m)))"

text \<open>The digests of the store that \<^verbatim>\<open>keepNamed\<close> has still to mark; its loop marks one of them
  or shortens its stack.\<close>

definition unmarked :: "store \<Rightarrow> (digest \<Rightarrow> reach_bit set) \<Rightarrow> digest set" where
  "unmarked s scope = {d \<in> fst ` set (st_objects s). ReachedManifest \<notin> scope d \<and> ReachedNamed \<notin> scope d}"

lemma finite_unmarked [simp]: "finite (unmarked s scope)"
  by (simp add: unmarked_def)

lemma unmarked_mark: "unmarked s (scope(d := insert ReachedNamed x)) \<subseteq> unmarked s scope - {d}" if "scope d \<subseteq> x"
  using that by (auto simp: unmarked_def)

lemma sniff_stored: "sniff_manifest s d = Inr (Some m) \<Longrightarrow> d \<in> fst ` set (st_objects s)"
  by (auto simp: sniff_manifest_def weak_map_of_SomeI split: if_splits option.splits dest!: map_of_SomeD)
    (force)

lemma sniff_Some: "sniff_manifest s d = Inr (Some m) \<Longrightarrow>
   \<exists>b. read_object s d = Inr b \<and> decode_manifest b = Inr m"
  by (auto simp: sniff_manifest_def andthen_Inr_iff
      split: if_split_asm option.split_asm sum.split_asm) (metis sum.exhaust)

function keep_named :: "store \<Rightarrow> bool \<Rightarrow> (digest \<Rightarrow> reach_bit set) \<Rightarrow> digest list \<Rightarrow> (digest \<Rightarrow> reach_bit set) res" where
  "keep_named s cancelled scope [] = Inr scope"
| "keep_named s cancelled scope (d # pending) =
     (if cancelled then Inl ErrCtx
      else if ReachedManifest \<in> scope d \<or> ReachedNamed \<in> scope d then keep_named s cancelled scope pending
      else case sniff_manifest s d of
        Inl e \<Rightarrow> Inl e
      | Inr None \<Rightarrow> keep_named s cancelled (scope(d := insert ReachedNamed (scope d))) pending
      | Inr (Some m) \<Rightarrow> keep_named s cancelled (scope(d := insert ReachedNamed (scope d)))
          (rev (children m) @ pending))"
  by pat_completeness auto
termination
proof (relation "measures [\<lambda>(s, c, scope, pending). card (unmarked s scope),
    \<lambda>(s, c, scope, pending). length pending]", goal_cases)
  case 1
  show ?case by simp
next
  case 2
  then show ?case by simp
next
  case (3 s cancelled scope d pending)
  have "card (unmarked s (scope(d := insert ReachedNamed (scope d)))) \<le> card (unmarked s scope)"
    using unmarked_mark [of scope d "scope d" s] by (intro card_mono) auto
  then show ?case by auto
next
  case (4 s cancelled scope d pending y m)
  then have "d \<in> unmarked s scope" by (auto simp: unmarked_def dest: sniff_stored)
  then have "card (unmarked s (scope(d := insert ReachedNamed (scope d)))) < card (unmarked s scope)"
    using unmarked_mark [of scope d "scope d" s] by (intro psubset_card_mono) auto
  then show ?case by simp
qed

subsection \<open>Collection\<close>

fun mark_roots :: "walk_env \<Rightarrow> walker \<Rightarrow> ref list \<Rightarrow> walker res" where
  "mark_roots e w [] = Inr w"
| "mark_roots e w (r # rs) = andthen (visit e w r 1) (\<lambda>w'. mark_roots e w' rs)"

fun mark_pins :: "walk_env \<Rightarrow> walker \<Rightarrow> pin_set list \<Rightarrow> walker res" where
  "mark_pins e w [] = Inr w"
| "mark_pins e w (p # ps) = andthen (mark_roots e w (ps_roots p)) (\<lambda>w'. mark_pins e w' ps)"

fun mark_young :: "store \<Rightarrow> bool \<Rightarrow> (digest \<Rightarrow> reach_bit set) \<Rightarrow> stored_object list \<Rightarrow> (digest \<Rightarrow> reach_bit set) res" where
  "mark_young s cancelled scope [] = Inr scope"
| "mark_young s cancelled scope (x # xs) =
     (if \<not> so_young x then mark_young s cancelled scope xs
      else andthen (keep_named s cancelled scope [so_digest x]) (\<lambda>scope'. mark_young s cancelled scope' xs))"

fun remove_unkept :: "(digest \<Rightarrow> reach_bit set) \<Rightarrow> stored_object list \<Rightarrow> gc_report \<Rightarrow> gc_report step" where
  "remove_unkept scope [] rep s = (s, Inr rep)"
| "remove_unkept scope (x # xs) rep s =
     (if scope (so_digest x) \<noteq> {} \<or> so_young x then remove_unkept scope xs rep s
      else case disk ''remove object'' (\<lambda>s. s\<lparr>st_objects := AList.delete (so_digest x) (st_objects s)\<rparr>) s of
        (s', Inl e) \<Rightarrow> (s', Inl e)
      | (s', Inr _) \<Rightarrow> remove_unkept scope xs
          (rep\<lparr>gr_removed := gr_removed rep + 1, gr_freed_bytes := gr_freed_bytes rep + so_size x\<rparr>) s')"

definition gc_bound :: closure_bound where
  "gc_bound = \<lparr>max_objects = 2 ^ 63 - 1, max_depth = max_depth DefaultClosureBound, max_bytes = 2 ^ 63 - 1\<rparr>"

definition gc_env :: "bool \<Rightarrow> store \<Rightarrow> walk_env" where
  "gc_env cancelled s = \<lparr>we_store = s, we_bound = gc_bound, we_audit = True, we_cancelled = cancelled\<rparr>"

text \<open>The marking: what pins reach, then what young objects name.\<close>

definition gc_mark :: "bool \<Rightarrow> store \<Rightarrow> stored_object list \<Rightarrow> (int \<times> (digest \<Rightarrow> reach_bit set)) res" where
  "gc_mark cancelled s objects =
     andthen (list_pins s cancelled) (\<lambda>pins.
       andthen (mark_pins (gc_env cancelled s) new_walker pins) (\<lambda>w.
         andthen (mark_young s cancelled (w_scope w) objects) (\<lambda>scope.
           Inr (int (length (w_stored w)), scope))))"

definition gc :: "bool \<Rightarrow> gc_report step" where
  "gc cancelled =
     bindS recover_unsynced (\<lambda>_. bindS sweep_staging (\<lambda>staging.
       bindS (\<lambda>s. scan_object_files cancelled (st_now s - GCGrace) s) (\<lambda>objects.
         bindS (\<lambda>s. (s, gc_mark cancelled s objects)) (\<lambda>(marked, scope).
           remove_unkept scope objects
             \<lparr>gr_marked = marked, gr_removed = 0, gr_freed_bytes = 0, gr_staging_removed = staging\<rparr>))))"

subsection \<open>What marking establishes\<close>

lemma mark_roots_Inr:
  "mark_roots e w rs = Inr w' \<Longrightarrow> walk_inv e {} w \<Longrightarrow> \<forall>r \<in> set rs. kind_ok r \<Longrightarrow>
   visit_ok e {} w w' \<and> (\<forall>r \<in> set rs. checked w' r)"
proof (induction rs arbitrary: w)
  case Nil
  then show ?case by (simp add: visit_ok_def)
next
  case (Cons r rs)
  from Cons.prems(1) obtain w1 where w1: "visit e w r 1 = Inr w1" and w': "mark_roots e w1 rs = Inr w'"
    by (auto simp: andthen_Inr_iff)
  from visit_Inr [OF w1 Cons.prems(2)] Cons.prems(3) have a: "visit_ok e {} w w1" "checked w1 r" by auto
  with Cons.IH [OF w'] Cons.prems(3)
  have b: "visit_ok e {} w1 w'" "\<forall>r \<in> set rs. checked w' r" by (auto simp: visit_ok_def)
  with a show ?case using visit_ok_trans checked_extends by (auto simp: visit_ok_def)
qed

lemma mark_pins_Inr:
  "mark_pins e w ps = Inr w' \<Longrightarrow> walk_inv e {} w \<Longrightarrow> \<forall>p \<in> set ps. \<forall>r \<in> set (ps_roots p). kind_ok r \<Longrightarrow>
   visit_ok e {} w w' \<and> (\<forall>p \<in> set ps. \<forall>r \<in> set (ps_roots p). checked w' r)"
proof (induction ps arbitrary: w)
  case Nil
  then show ?case by (simp add: visit_ok_def)
next
  case (Cons p ps)
  from Cons.prems(1) obtain w1 where w1: "mark_roots e w (ps_roots p) = Inr w1" and w': "mark_pins e w1 ps = Inr w'"
    by (auto simp: andthen_Inr_iff)
  from mark_roots_Inr [OF w1 Cons.prems(2)] Cons.prems(3)
  have a: "visit_ok e {} w w1" "\<forall>r \<in> set (ps_roots p). checked w1 r" by auto
  with Cons.IH [OF w'] Cons.prems(3)
  have b: "visit_ok e {} w1 w'" "\<forall>p \<in> set ps. \<forall>r \<in> set (ps_roots p). checked w' r" by (auto simp: visit_ok_def)
  with a show ?case using visit_ok_trans checked_extends by (auto simp: visit_ok_def)
qed

lemma new_walker_inv [simp]: "walk_inv e g new_walker"
  by (simp add: walk_inv_def new_walker_def walk_sound_def)

lemma read_pins_in: "read_pins ps = Inr rs \<Longrightarrow>
   rs = map snd (filter (\<lambda>np. \<not> hidden_name (fst np)) ps)"
  by (induction ps arbitrary: rs) (auto simp: andthen_Inr_iff split: if_splits)

text \<open>The digests marked as manifests or by name, and what naming leaves to be done: \<open>P\<close> are the
  digests still to be marked.\<close>

definition named :: "(digest \<Rightarrow> reach_bit set) \<Rightarrow> digest \<Rightarrow> bool" where
  "named scope d \<longleftrightarrow> ReachedManifest \<in> scope d \<or> ReachedNamed \<in> scope d"

definition names_closed :: "store \<Rightarrow> (digest \<Rightarrow> reach_bit set) \<Rightarrow> digest set \<Rightarrow> bool" where
  "names_closed s scope P \<longleftrightarrow> (\<forall>d m. ReachedNamed \<in> scope d \<longrightarrow> sniff_manifest s d = Inr (Some m) \<longrightarrow>
     (\<forall>c \<in> set (children m). named scope c \<or> c \<in> P))"

lemma keep_named_Inr:
  "keep_named s cancelled scope pending = Inr scope' \<Longrightarrow> names_closed s scope (set pending) \<Longrightarrow>
   (\<forall>d. scope d \<subseteq> scope' d \<and> scope' d \<subseteq> insert ReachedNamed (scope d)) \<and>
   names_closed s scope' {} \<and> (\<forall>d \<in> set pending. named scope' d)"
proof (induction s cancelled scope pending rule: keep_named.induct)
  case (1 s cancelled scope)
  then show ?case by auto
next
  case (2 s cancelled scope d pending)
  let ?scope = "scope(d := insert ReachedNamed (scope d))"
  have sub: "\<forall>x. scope x \<subseteq> ?scope x" by auto
  have mono: "named scope x \<Longrightarrow> named ?scope x" for x by (auto simp: named_def)
  have nc: "\<not> cancelled" using "2.prems"(1) by auto
  show ?case
  proof (cases "ReachedManifest \<in> scope d \<or> ReachedNamed \<in> scope d")
    case True
    then have n: "named scope d" by (simp add: named_def)
    have "names_closed s scope (set pending)" using "2.prems"(2) n by (auto simp: names_closed_def)
    with "2.IH"(1) [OF nc True] "2.prems"(1) True nc
    have "(\<forall>d. scope d \<subseteq> scope' d \<and> scope' d \<subseteq> insert ReachedNamed (scope d)) \<and>
        names_closed s scope' {} \<and> (\<forall>d \<in> set pending. named scope' d)" by simp
    with n show ?thesis by (auto simp: named_def)
  next
    case False
    show ?thesis
    proof (cases "sniff_manifest s d")
      case (Inl e)
      with "2.prems"(1) nc False show ?thesis by simp
    next
      case (Inr x)
      show ?thesis
      proof (cases x)
        case None
        have "names_closed s ?scope (set pending)"
          using "2.prems"(2) mono Inr None unfolding names_closed_def
          by (fastforce simp: named_def split: if_splits)
        note nc' = this
        have "keep_named s cancelled ?scope pending = Inr scope'" using "2.prems"(1) Inr None False nc by simp
        note h = "2.IH"(2) [OF nc False Inr None this nc']
        then have "ReachedNamed \<in> scope' d" by force
        with h show ?thesis 
          by (auto simp: named_def split: if_splits; metis subset_insertI2 insert_iff subsetD)
      next
        case (Some m)
        have "names_closed s ?scope (set (rev (children m) @ pending))"
          using "2.prems"(2) mono Inr Some unfolding names_closed_def
          by (fastforce simp: named_def split: if_splits)
        note nc' = this
        have "keep_named s cancelled ?scope (rev (children m) @ pending) = Inr scope'"
          using "2.prems"(1) Inr Some False nc by simp
        note h = "2.IH"(3) [OF nc False Inr Some this nc']
        then have "ReachedNamed \<in> scope' d" by force
        with h show ?thesis 
          by (auto simp: named_def split: if_splits; metis subset_insertI2 insert_iff subsetD)
      qed
    qed
  qed
qed

lemma named_mono: "\<forall>d. scope d \<subseteq> scope' d \<Longrightarrow> named scope d \<Longrightarrow> named scope' d"
  unfolding named_def by blast

lemma mark_young_Inr:
  "mark_young s cancelled scope xs = Inr scope' \<Longrightarrow> names_closed s scope {} \<Longrightarrow>
   (\<forall>d. scope d \<subseteq> scope' d \<and> scope' d \<subseteq> insert ReachedNamed (scope d)) \<and> names_closed s scope' {} \<and>
   (\<forall>x \<in> set xs. so_young x \<longrightarrow> named scope' (so_digest x))"
proof (induction xs arbitrary: scope)
  case Nil
  then show ?case by auto
next
  case (Cons x xs)
  show ?case
  proof (cases "so_young x")
    case False
    with Cons show ?thesis by auto
  next
    case True
    with Cons.prems(1) obtain scope1 where k: "keep_named s cancelled scope [so_digest x] = Inr scope1"
      and r: "mark_young s cancelled scope1 xs = Inr scope'" by (auto simp: andthen_Inr_iff simp del: keep_named.simps)
    have "names_closed s scope (set [so_digest x])" using Cons.prems(2) by (simp add: names_closed_def)
    note a = keep_named_Inr [OF k this]
    with Cons.IH [OF r] have b: "(\<forall>d. scope1 d \<subseteq> scope' d \<and> scope' d \<subseteq> insert ReachedNamed (scope1 d))" "names_closed s scope' {}"
      "\<forall>x \<in> set xs. so_young x \<longrightarrow> named scope' (so_digest x)" by auto
    have "named scope' (so_digest x)" using a b(1) named_mono [of scope1 scope'] by simp
    moreover have "scope d \<subseteq> scope' d \<and> scope' d \<subseteq> insert ReachedNamed (scope d)" for d
      using a b(1) by blast
    ultimately show ?thesis using b by auto
  qed
qed


subsection \<open>What the earlier steps leave alone\<close>

text \<open>The object files of a store with their names' marks removed, up to temporary files.\<close>

definition same_files :: "store \<Rightarrow> store \<Rightarrow> bool" where
  "same_files s s' \<longleftrightarrow> (\<forall>d. \<not> hidden_name d \<longrightarrow> map_of (st_objects s') d = map_of (st_objects s) d) \<and>
     st_pins s' = st_pins s \<and> st_unreadable s' = st_unreadable s \<and> st_now s' = st_now s"

lemma same_files_refl [simp]: "same_files s s"
  by (simp add: same_files_def)

lemma same_files_trans: "same_files a b \<Longrightarrow> same_files b c \<Longrightarrow> same_files a c"
  by (simp add: same_files_def)

lemma same_files_faults [simp]: "same_files (s\<lparr>st_faults := fs\<rparr>) s' = same_files s s'"
  "same_files s (s'\<lparr>st_faults := fs\<rparr>) = same_files s s'"
  by (simp_all add: same_files_def)

lemma eachS_remove_mark:
  "eachS remove_mark ds s = (s', r) \<Longrightarrow> same_files s s' \<and> set (st_unsynced s') \<subseteq> set (st_unsynced s) \<and>
     (r = Inr () \<longrightarrow> set (st_unsynced s') = set (st_unsynced s) - set ds)"
proof (induction ds arbitrary: s)
  case Nil
  then show ?case by (auto simp: retS_def)
next
  case (Cons d ds)
  from Cons.prems have "bindS (remove_mark d) (\<lambda>_. eachS remove_mark ds) s = (s', r)" by simp
  then show ?case
  proof (cases rule: bindS_cases)
    case (1 e)
    then show ?thesis
      by (auto simp: remove_mark_def same_files_def split: if_splits dest!: disk_cases)
  next
    case (2 s1 x)
    from 2(1) have "same_files s s1 \<and> set (st_unsynced s1) = set (st_unsynced s) - {d}"
      by (auto simp: remove_mark_def same_files_def split: if_splits dest!: disk_Inr)
    with Cons.IH [OF 2(2)] show ?thesis by (auto intro: same_files_trans)
  qed
qed

lemma recover_unsynced_files:
  assumes "recover_unsynced s = (s', r)"
  shows "same_files s s' \<and> (r = Inr () \<longrightarrow> st_unsynced s' = [])"
proof (cases "st_unsynced s = []")
  case True
  with assms show ?thesis by (simp add: recover_unsynced_def)
next
  case False
  with assms have "bindS sync_object_dirs (\<lambda>_. clear_unsynced) s = (s', r)" by (simp add: recover_unsynced_def)
  then show ?thesis
  proof (cases rule: bindS_cases)
    case (1 e)
    then show ?thesis by (auto simp: sync_object_dirs_def dest!: disk_cases)
  next
    case (2 s1 x)
    from 2(1) have "same_files s s1 \<and> st_unsynced s1 = st_unsynced s"
      by (auto simp: sync_object_dirs_def dest!: disk_Inr)
    with 2(2) eachS_remove_mark [of "st_unsynced s1" s1 s' r] show ?thesis
      by (auto simp: clear_unsynced_def intro: same_files_trans)
  qed
qed

lemma sweep_entries_files:
  assumes "\<And>n s. same_files s (rm n s) \<and> st_unsynced (rm n s) = st_unsynced s"
  shows "sweep_entries es rm cutoff n s = (s', r) \<Longrightarrow> same_files s s' \<and> st_unsynced s' = st_unsynced s"
proof (induction es arbitrary: n s)
  case Nil
  then show ?case by simp
next
  case (Cons e es)
  obtain name t where e: "e = (name, t)" by fastforce
  show ?case
  proof (cases "t < cutoff")
    case False
    with Cons e show ?thesis by simp
  next
    case True
    obtain s1 x where d: "disk ''remove staging'' (rm name) s = (s1, x)" by fastforce
    have "same_files s s1 \<and> st_unsynced s1 = st_unsynced s"
      using disk_cases [OF d] assms [of "s\<lparr>st_faults := tl (st_faults s)\<rparr>" name] by auto
    with Cons.IH [of "n + 1" s1] Cons.prems e True d show ?thesis
      by (cases x) (auto intro: same_files_trans)
  qed
qed

lemma sweep_staging_files:
  assumes "sweep_staging s = (s', r)"
  shows "same_files s s' \<and> st_unsynced s' = st_unsynced s"
  using assms unfolding sweep_staging_def Let_def
proof (cases rule: bindS_cases)
  case (1 e)
  then show ?thesis by (elim sweep_entries_files [rotated]) (simp add: same_files_def)
next
  case (2 s1 a)
  have a: "same_files s s1 \<and> st_unsynced s1 = st_unsynced s"
    by (rule sweep_entries_files [OF _ 2(1)]) (simp add: same_files_def)
  from 2(2) show ?thesis
  proof (cases rule: bindS_cases)
    case (1 e)
    have "same_files s1 s' \<and> st_unsynced s' = st_unsynced s1"
      by (rule sweep_entries_files [OF _ 1(1)]) (simp add: same_files_def)
    with a show ?thesis by (auto intro: same_files_trans)
  next
    case (2 s2 b)
    have "same_files s1 s2 \<and> st_unsynced s2 = st_unsynced s1"
      by (rule sweep_entries_files [OF _ 2(1)]) (simp add: same_files_def)
    moreover have "same_files s2 s' \<and> st_unsynced s' = st_unsynced s2"
      by (rule sweep_entries_files [OF _ 2(2)]) (simp add: same_files_def)
    ultimately show ?thesis using a by (auto intro: same_files_trans)
  qed
qed

lemma hidden_not_digest: "validate_digest d = Inr u \<Longrightarrow> \<not> hidden_name d"
  by (cases d) (auto simp: validate_digest_iff hidden_name_def is_lower_hex_def Let_def)

lemma scan_files_files:
  "scan_files fs cutoff acc s = (s', r) \<Longrightarrow> same_files s s' \<and> st_unsynced s' = st_unsynced s \<and>
   (\<forall>xs. r = Inr xs \<longrightarrow> set acc \<subseteq> set xs \<and>
      (\<forall>(name, f) \<in> set fs. \<not> hidden_name name \<longrightarrow>
         \<lparr>so_digest = name, so_size = int (length (f_data f)), so_young = (\<not> f_mtime f < cutoff)\<rparr> \<in> set xs))"
proof (induction fs cutoff acc s rule: scan_files.induct)
  case (1 cutoff acc s)
  then show ?case by auto
next
  case (2 name f fs cutoff acc s)
  define young where "young \<longleftrightarrow> \<not> f_mtime f < cutoff"
  show ?case
  proof (cases "hidden_name name")
    case True
    show ?thesis
    proof (cases young)
      case y: True
      with "2.IH"(1) [OF young_def True y] "2.prems" True show ?thesis
        by (auto simp: young_def)
    next
      case y: False
      obtain s1 x where d: "disk ''remove temp'' (\<lambda>s. s\<lparr>st_objects := AList.delete name (st_objects s)\<rparr>) s = (s1, x)"
        by fastforce
      have f1: "same_files s s1 \<and> st_unsynced s1 = st_unsynced s"
        using disk_cases [OF d] True by (auto simp: same_files_def)
      show ?thesis
      proof (cases x)
        case (Inl e)
        with "2.prems" True y d f1 show ?thesis by (auto simp: young_def)
      next
        case (Inr u)
        with "2.prems" True y d have "scan_files fs cutoff acc s1 = (s', r)" by (simp add: young_def)
        with "2.IH"(2) [OF young_def True y d [symmetric] Inr] f1 True show ?thesis
          by (auto intro: same_files_trans)
      qed
    qed
  next
    case False
    show ?thesis
    proof (cases "validate_digest name")
      case (Inl e)
      with "2.prems" False show ?thesis by (auto simp: Let_def)
    next
      case (Inr u)
      with "2.prems" False have "scan_files fs cutoff (\<lparr>so_digest = name, so_size = int (length (f_data f)), so_young = young\<rparr> # acc) s = (s', r)"
        by (simp add: Let_def young_def)
      with "2.IH"(3) [OF young_def False Inr] show ?thesis by (auto simp: young_def)
    qed
  qed
qed

lemma remove_unkept_keeps:
  "remove_unkept scope xs rep s = (s', r) \<Longrightarrow> scope d \<noteq> {} \<Longrightarrow>
   map_of (st_objects s') d = map_of (st_objects s) d"
proof (induction scope xs rep s rule: remove_unkept.induct)
  case (1 scope rep s)
  then show ?case by simp
next
  case (2 scope x xs rep s)
  show ?case
  proof (cases "scope (so_digest x) \<noteq> {} \<or> so_young x")
    case True
    with 2 show ?thesis by auto
  next
    case False
    obtain s1 y where k: "disk ''remove object'' (\<lambda>s. s\<lparr>st_objects := AList.delete (so_digest x) (st_objects s)\<rparr>) s = (s1, y)"
      by fastforce
    have "map_of (st_objects s1) d = map_of (st_objects s) d"
      using disk_cases [OF k] False "2.prems"(2) by (auto split: if_splits)
    with "2.IH"(2) [OF False k [symmetric]] "2.prems" False k show ?thesis by (cases y) auto
  qed
qed

text \<open>A collection either stops before the first removal, with every object file in place, or
  removes what its marking left out.\<close>

lemma gc_stages:
  assumes "gc cancelled s = (s', r)"
  shows "same_files s s' \<or> (\<exists>s1 objects marked scope rep. same_files s s1 \<and> st_unsynced s1 = [] \<and>
     gc_mark cancelled s1 objects = Inr (marked, scope) \<and> remove_unkept scope objects rep s1 = (s', r) \<and>
     (\<forall>d f. map_of (st_objects s) d = Some f \<longrightarrow> \<not> hidden_name d \<longrightarrow>
        \<lparr>so_digest = d, so_size = int (length (f_data f)), so_young = (\<not> f_mtime f < st_now s - GCGrace)\<rparr> \<in> set objects))"
  using assms unfolding gc_def
proof (cases rule: bindS_cases)
  case (1 e)
  then show ?thesis using recover_unsynced_files by blast
next
  case (2 s1 u)
  have r1: "same_files s s1" "st_unsynced s1 = []" using recover_unsynced_files [OF 2(1)] by auto
  from 2(2) show ?thesis
  proof (cases rule: bindS_cases)
    case (1 e)
    then show ?thesis using sweep_staging_files r1 same_files_trans by blast
  next
    case (2 s2 staging)
    have r2: "same_files s s2" "st_unsynced s2 = []"
      using sweep_staging_files [OF 2(1)] r1 by (auto intro: same_files_trans)
    from 2(2) show ?thesis
    proof (cases rule: bindS_cases)
      case (1 e)
      then show ?thesis using scan_files_files r2 same_files_trans
        by (fastforce simp: scan_object_files_def split: if_splits)
    next
      case (2 s3 objects)
      from 2(1) have sc: "scan_files (sort_key fst (st_objects s2)) (st_now s2 - GCGrace) [] s2 = (s3, Inr objects)"
        by (auto simp: scan_object_files_def split: if_splits)
      have r3: "same_files s s3" "st_unsynced s3 = []"
        using scan_files_files [OF sc] r2 by (auto intro: same_files_trans)
      have young: "\<lparr>so_digest = d, so_size = int (length (f_data f)), so_young = (\<not> f_mtime f < st_now s - GCGrace)\<rparr> \<in> set objects"
        if "map_of (st_objects s) d = Some f" "\<not> hidden_name d" for d f
      proof -
        have "(d, f) \<in> set (st_objects s2)" using that r2(1) by (auto simp: same_files_def intro!: map_of_SomeD)
        with scan_files_files [OF sc] that(2) r2(1) show ?thesis by (auto simp: same_files_def)
      qed
      from 2(2) show ?thesis
      proof (cases rule: bindS_cases)
        case (1 e)
        with r3 show ?thesis by auto
      next
        case (2 s4 ms)
        then obtain marked scope where "s4 = s3" "ms = (marked, scope)"
          "gc_mark cancelled s3 objects = Inr (marked, scope)" by (cases ms) auto
        then have "remove_unkept scope objects \<lparr>gr_marked = marked, gr_removed = 0, gr_freed_bytes = 0,
            gr_staging_removed = staging\<rparr> s3 = (s', r)" using 2(2) by simp
        with r3 young \<open>gc_mark cancelled s3 objects = Inr (marked, scope)\<close> show ?thesis by blast
      qed
    qed
  qed
qed

lemma same_files_read:
  assumes "same_files s s1" "st_unsynced s1 = []" "read_manifest (s\<lparr>st_unsynced := []\<rparr>) d n = Inr (m, b)"
  shows "read_manifest s1 d n = Inr (m, b)"
proof -
  have "digest_sum b = d" using read_manifest_stat [OF assms(3)] by auto
  then have "\<not> hidden_name d" using hidden_not_digest [OF digest_sum_valid] by auto
  with assms have "read_object s1 d = read_object (s\<lparr>st_unsynced := []\<rparr>) d"
    by (cases "map_of (st_objects s) d") (simp_all add: read_object_def same_files_def)
  with assms(3) show ?thesis by (simp add: read_manifest_def)
qed

lemma same_files_reaches:
  assumes "same_files s s1" "st_unsynced s1 = []" "reaches (s\<lparr>st_unsynced := []\<rparr>) root q"
  shows "reaches s1 root q"
  using assms(3)
  by (induction rule: reaches.induct) (auto intro: reaches.intros same_files_read [OF assms(1,2)])

lemma reaches_valid_digest:
  assumes "reaches s root q" "validate_ref root = Inr ()"
  shows "validate_digest (r_digest q) = Inr ()"
  using assms
proof (induction rule: reaches.induct)
  case here
  then show ?case by (simp add: validate_ref_iff)
next
  case (child q m b c)
  from read_manifest_stat [OF child(3)] obtain f where "decode_manifest b = Inr m" by blast
  then have "validate_manifest m = Inr ()" by (rule decode_validates)
  with child(4) show ?case
    by (auto simp: kids_def chunk_as_ref_def validate_manifest_iff chunk_ok_def validate_ref_iff)
qed

definition pins_valid :: "store \<Rightarrow> bool" where
  "pins_valid s \<longleftrightarrow> (\<forall>(name, p) \<in> set (st_pins s). \<forall>r \<in> set (ps_roots p). validate_ref r = Inr ())"

lemma gc_mark_Inr:
  assumes "gc_mark cancelled s objects = Inr (marked, scope)" and "pins_valid s"
  shows "(\<forall>x \<in> set objects. so_young x \<longrightarrow> named scope (so_digest x)) \<and>
    (\<forall>d m. named scope d \<longrightarrow> sniff_manifest s d = Inr (Some m) \<longrightarrow>
       (\<forall>c \<in> set (children m). scope c \<noteq> {})) \<and>
    (\<forall>name p root q. (name, p) \<in> set (st_pins s) \<longrightarrow> \<not> hidden_name name \<longrightarrow> root \<in> set (ps_roots p) \<longrightarrow>
       reaches s root q \<longrightarrow> scope (r_digest q) \<noteq> {})"
proof -
  from assms(1) obtain pins w where p: "list_pins s cancelled = Inr pins"
    and w: "mark_pins (gc_env cancelled s) new_walker pins = Inr w"
    and y: "mark_young s cancelled (w_scope w) objects = Inr scope"
    by (auto simp: gc_mark_def andthen_Inr_iff)
  have ps: "set pins = snd ` {np \<in> set (st_pins s). \<not> hidden_name (fst np)}"
  proof -
    obtain rs where "read_pins (st_pins s) = Inr rs" "set pins = set rs"
      using p by (auto simp: list_pins_def andthen_Inr_iff split: if_splits)
    with read_pins_in [of "st_pins s" rs] show ?thesis by simp
  qed
  have "\<forall>p \<in> set pins. \<forall>r \<in> set (ps_roots p). kind_ok r"
    using ps assms(2) valid_ref_kind by (fastforce simp: pins_valid_def)
  from mark_pins_Inr [OF w new_walker_inv this]
  have i: "walk_inv (gc_env cancelled s) {} w" and ch: "\<forall>p \<in> set pins. \<forall>r \<in> set (ps_roots p). checked w r"
    by (auto simp: visit_ok_def)
  have "names_closed s (w_scope w) {}" using i by (auto simp: names_closed_def walk_inv_def)
  note ym = mark_young_Inr [OF y this]
  have e: "we_store (gc_env cancelled s) = s" by (simp add: gc_env_def)
  have pinned: "scope (r_digest q) \<noteq> {}"
    if "(name, p) \<in> set (st_pins s)" "\<not> hidden_name name" "root \<in> set (ps_roots p)" "reaches s root q" for name p root q
  proof -
    have "p \<in> set pins" using that(1,2) ps by force
    then have "checked w root" using ch that(3) by blast
    from reaches_checked [OF that(4) i this e] have "w_scope w (r_digest q) \<noteq> {}" by (auto simp: checked_def)
    with ym show ?thesis by (metis subset_empty)
  qed
  have kids: "scope c \<noteq> {}"
    if n: "named scope d" "sniff_manifest s d = Inr (Some m)" "c \<in> set (children m)" for d m c
  proof (cases "ReachedNamed \<in> scope d")
    case True
    with ym that have "named scope c" by (auto simp: names_closed_def)
    then show ?thesis by (auto simp: named_def)
  next
    case False
    with n(1) have "ReachedManifest \<in> scope d" by (simp add: named_def)
    with ym have "ReachedManifest \<in> w_scope w d" by blast
    moreover from sniff_Some [OF n(2)] obtain b where b: "read_object s d = Inr b" "decode_manifest b = Inr m"
      by blast
    then have "stat_object s d \<noteq> Inl ErrNotExist"
      by (auto simp: read_object_def stat_object_def split: if_splits option.splits)
    then have "d \<notin> set (w_missing w)" using inv_sound [OF i] e by (auto simp: walk_sound_def)
    ultimately obtain m' where m': "map_of (w_manifests w) d = Some m'" "\<forall>c \<in> set (kids m'). checked w c"
      using i by (auto simp: walk_inv_def)
    then obtain b' where "read_manifest s d (-1) = Inr (m', b')"
      using inv_sound [OF i] unfolding walk_sound_def e by blast
    with b have "m' = m" by (auto simp: read_manifest_def andthen_Inr_iff)
    with m'(2) n(3) obtain k where "checked w k" "r_digest k = c" by (auto simp flip: digest_kids)
    then have "w_scope w c \<noteq> {}" by (auto simp: checked_def)
    with ym show ?thesis by (metis subset_empty)
  qed
  show ?thesis using ym pinned kids by blast
qed

lemma sniff_same:
  assumes "same_files s s1" "st_unsynced s1 = []" "\<not> hidden_name d"
    and "sniff_manifest (s\<lparr>st_unsynced := []\<rparr>) d = x"
  shows "sniff_manifest s1 d = x"
proof -
  have "read_object s1 d = read_object (s\<lparr>st_unsynced := []\<rparr>) d"
    using assms(1-3) by (cases "map_of (st_objects s) d") (simp_all add: read_object_def same_files_def)
  with assms show ?thesis
    by (cases "map_of (st_objects s) d") (auto simp: sniff_manifest_def same_files_def)
qed

lemma gc_pinned_kept:
  assumes g: "gc cancelled s = (s', r)" and v: "pins_valid s"
    and p: "(name, p) \<in> set (st_pins s)" "\<not> hidden_name name" "root \<in> set (ps_roots p)"
    and q: "reaches (s\<lparr>st_unsynced := []\<rparr>) root q"
  shows "map_of (st_objects s') (r_digest q) = map_of (st_objects s) (r_digest q)"
proof -
  have "validate_ref root = Inr ()" using v p by (fastforce simp: pins_valid_def)
  then have nh: "\<not> hidden_name (r_digest q)"
    using hidden_not_digest [OF reaches_valid_digest [OF q]] by simp
  from gc_stages [OF g] show ?thesis
  proof (elim disjE exE conjE)
    assume "same_files s s'" with nh show ?thesis by (simp add: same_files_def)
  next
    fix s1 objects marked scope rep
    assume a: "same_files s s1" "st_unsynced s1 = []" "gc_mark cancelled s1 objects = Inr (marked, scope)"
      "remove_unkept scope objects rep s1 = (s', r)"
    have "pins_valid s1" "(name, p) \<in> set (st_pins s1)" using v p a(1) by (auto simp: same_files_def pins_valid_def)
    then have "scope (r_digest q) \<noteq> {}"
      using gc_mark_Inr [OF a(3)] p(2,3) same_files_reaches [OF a(1,2) q] by blast
    then show ?thesis using remove_unkept_keeps [OF a(4)] a(1) nh by (simp add: same_files_def)
  qed
qed

lemma gc_young_kept:
  assumes g: "gc cancelled s = (s', r)" and v: "pins_valid s"
    and f: "map_of (st_objects s) d = Some f" "validate_digest d = Inr ()" "\<not> f_mtime f < st_now s - GCGrace"
  shows "map_of (st_objects s') d = Some f \<and>
    (\<forall>m c. sniff_manifest (s\<lparr>st_unsynced := []\<rparr>) d = Inr (Some m) \<longrightarrow> c \<in> set (children m) \<longrightarrow>
       map_of (st_objects s') c = map_of (st_objects s) c)"
proof -
  have nd: "\<not> hidden_name d" using hidden_not_digest [OF f(2)] .
  have nc: "\<not> hidden_name c"
    if "sniff_manifest (s\<lparr>st_unsynced := []\<rparr>) d = Inr (Some m)" "c \<in> set (children m)" for m c
  proof -
    from sniff_Some [OF that(1)] obtain b where "decode_manifest b = Inr m" by blast
    then have "validate_manifest m = Inr ()" by (rule decode_validates)
    then have "validate_digest c = Inr ()" using that(2)
      by (auto simp: children_def validate_manifest_iff chunk_ok_def validate_ref_iff)
    then show ?thesis by (rule hidden_not_digest)
  qed
  from gc_stages [OF g] show ?thesis
  proof (elim disjE exE conjE)
    assume "same_files s s'" with nd nc f(1) show ?thesis by (auto simp: same_files_def)
  next
    fix s1 objects marked scope rep
    assume a: "same_files s s1" "st_unsynced s1 = []" "gc_mark cancelled s1 objects = Inr (marked, scope)"
      "remove_unkept scope objects rep s1 = (s', r)"
      "\<forall>d f. map_of (st_objects s) d = Some f \<longrightarrow> \<not> hidden_name d \<longrightarrow>
        \<lparr>so_digest = d, so_size = int (length (f_data f)), so_young = (\<not> f_mtime f < st_now s - GCGrace)\<rparr> \<in> set objects"
    have v1: "pins_valid s1" using v a(1) by (simp add: same_files_def pins_valid_def)
    note m = gc_mark_Inr [OF a(3) v1]
    have n: "named scope d" using m a(5) f nd by fastforce
    then have "scope d \<noteq> {}" by (auto simp: named_def)
    moreover have "scope c \<noteq> {}"
      if "sniff_manifest (s\<lparr>st_unsynced := []\<rparr>) d = Inr (Some m)" "c \<in> set (children m)" for m c
      using \<open>(\<forall>x \<in> set objects. so_young x \<longrightarrow> named scope (so_digest x)) \<and> _\<close>
        sniff_same [OF a(1,2) nd that(1)] n that(2) by blast
    ultimately show ?thesis using remove_unkept_keeps [OF a(4)] a(1) nd nc f(1) by (auto simp: same_files_def)
  qed
qed

subsection \<open>Properties\<close>

lemma pin_path_visible [simp]: "\<not> hidden_name (pin_path owner)"
proof -
  have "digest_sum owner = c # cs \<Longrightarrow> is_lower_hex c" for c cs
    using digest_sum_valid [of owner] by (simp add: validate_digest_iff)
  moreover have "digest_sum owner \<noteq> []" using digest_sum_valid [of owner] by (auto simp: validate_digest_iff simp del: digest_sum_valid)
  ultimately show ?thesis by (cases "digest_sum owner") (auto simp: hidden_name_def pin_path_def is_lower_hex_def)
qed

definition pinned_store :: store where
  "pinned_store = one_store\<lparr>st_pins := [(pin_path ''me'', \<lparr>ps_owner = ''me'', ps_roots = [one_ref], ps_updated_at = 1\<rparr>)]\<rparr>"

lemma pinned_valid: "pins_valid pinned_store"
  by (simp add: pins_valid_def pinned_store_def one_ref_def validate_ref_iff ChunkSize_def)

text \<open>C2. Collection never removes, whatever fails while it runs, an object that a pinned root
  reaches through the manifests of the store.\<close>

theorem gc_keeps_pinned:
  assumes "gc cancelled s = (s', r)" and "pins_valid s"
    and "(name, p) \<in> set (st_pins s)" and "\<not> hidden_name name" and "root \<in> set (ps_roots p)"
    and "reaches (s\<lparr>st_unsynced := []\<rparr>) root q"
  shows "map_of (st_objects s') (r_digest q) = map_of (st_objects s) (r_digest q)"
  using assms by (rule gc_pinned_kept)

theorem gc_keeps_pinned_witness:
  "map_of (st_objects (fst (gc False pinned_store))) (digest_sum ''a'') = Some \<lparr>f_data = ''a'', f_mtime = 1\<rparr>"
proof -
  have "map_of (st_objects (fst (gc False pinned_store))) (r_digest one_ref) = map_of (st_objects pinned_store) (r_digest one_ref)"
    by (rule gc_keeps_pinned [OF _ pinned_valid, of False _ "snd (gc False pinned_store)" "pin_path ''me''"
          "\<lparr>ps_owner = ''me'', ps_roots = [one_ref], ps_updated_at = 1\<rparr>" one_ref])
      (simp_all add: pinned_store_def reaches.here)
  then show ?thesis by (simp add: one_ref_def pinned_store_def one_store_def empty_store_def)
qed

text \<open>Collection keeps every object written or touched within the grace period, and, when
  that object's bytes decode as a manifest, every object it names, whatever fails.\<close>

theorem gc_keeps_young:
  assumes "gc cancelled s = (s', r)" and "pins_valid s"
    and "map_of (st_objects s) d = Some f" and "validate_digest d = Inr ()"
    and "st_now s - GCGrace \<le> f_mtime f"
  shows "map_of (st_objects s') d = Some f \<and>
    (\<forall>m c. sniff_manifest (s\<lparr>st_unsynced := []\<rparr>) d = Inr (Some m) \<longrightarrow> c \<in> set (children m) \<longrightarrow>
       map_of (st_objects s') c = map_of (st_objects s) c)"
  using assms by (intro gc_young_kept) simp_all

theorem gc_keeps_young_witness:
  "map_of (st_objects (fst (gc False one_store))) (digest_sum ''a'') = Some \<lparr>f_data = ''a'', f_mtime = 1\<rparr>"
proof -
  have v: "pins_valid one_store" by (simp add: pins_valid_def one_store_def empty_store_def)
  show ?thesis
    by (rule gc_keeps_young [OF _ v, THEN conjunct1, of False _ "snd (gc False one_store)"])
      (simp_all add: one_store_def empty_store_def GCGrace_def StagingTTL_def)
qed

end
