(* ===== verification/Artifact_Batch.thy ===== *)
theory Artifact_Batch
  imports Artifact_Publish
begin

text \<open>
  Transfer batches (\<^verbatim>\<open>src/artifact/batch.go\<close>): building a batch in the outbox, staging and
  filling one in the incoming directory, and committing it, with the publication of its objects
  level by level and the withdrawal of a level that could not be made durable. The zstd codec
  is third-party code: \<open>compress\<close> is the compressed form of a stream, \<open>decompress\<close> what the decoder
  yields from it. Temporary directories (\<^verbatim>\<open>.build-\<close>, \<^verbatim>\<open>.begin-\<close>) are no entry of a directory.
\<close>

definition validate_batch_build :: "object_entry list \<Rightarrow> unit res" where
  "validate_batch_build objects =
     (if objects = [] \<or> int (length objects) > MaxBatchObjects then Inl (ErrInvalid ''batch build objects'')
      else validate_entries [] objects)"

definition validate_batch_read :: "digest \<Rightarrow> int \<Rightarrow> unit res" where
  "validate_batch_read i index = andthen (validate_digest i) (\<lambda>_.
     require (\<not> (index < 0 \<or> index \<ge> maxBatchParts)) (ErrInvalid ''part index''))"

definition validate_batch_put :: "digest \<Rightarrow> int \<Rightarrow> bytes \<Rightarrow> unit res" where
  "validate_batch_put i index data = andthen (validate_batch_read i index) (\<lambda>_.
     require (\<not> (data = [] \<or> int (length data) > PartSize)) (ErrInvalid ''part length''))"

subsection \<open>Building\<close>

definition check_stored :: "object_entry \<Rightarrow> bytes \<Rightarrow> unit res" where
  "check_stored x data =
     (if int (length data) \<noteq> o_size x then Inl (ErrInvalid ''object size'')
      else if o_kind x \<noteq> KindManifest then Inr ()
      else andthen (decode_manifest data) (\<lambda>_. Inr ()))"

text \<open>The loop of \<^verbatim>\<open>pack\<close>: the object section of the stream.\<close>

fun pack_stored :: "store \<Rightarrow> bool \<Rightarrow> object_entry list \<Rightarrow> bytes res" where
  "pack_stored s cancelled [] = Inr []"
| "pack_stored s cancelled (x # xs) =
     (if cancelled then Inl ErrCtx
      else andthen (read_object s (o_digest x)) (\<lambda>data.
        andthen (check_stored x data) (\<lambda>_. andthen (pack_object x data) (\<lambda>b.
          andthen (pack_stored s cancelled xs) (\<lambda>rest. Inr (b @ rest))))))"

definition pack_batch :: "(bytes \<Rightarrow> bytes) \<Rightarrow> store \<Rightarrow> bool \<Rightarrow> object_entry list \<Rightarrow> (batch_descriptor \<times> bytes list) res" where
  "pack_batch compress s cancelled objects =
     andthen (pack_stored s cancelled objects) (\<lambda>body.
       let raw = packMagic @ body @ [packEnd];
           parts = pw_parts (part_flush (part_write (nat PartSize) empty_writer (compress raw))) in
       andthen (new_batch_descriptor (int (length raw)) objects (map fst parts)) (\<lambda>d.
         Inr (d, map snd parts)))"

definition new_staging :: "batch_descriptor \<Rightarrow> bytes list \<Rightarrow> gotime \<Rightarrow> staging" where
  "new_staging d parts t = \<lparr>sg_descriptor = d, sg_parts = zip [0..<length parts] parts,
     sg_landing = [], sg_mtime = t\<rparr>"

text \<open>\<^verbatim>\<open>publishStaged\<close>: writes the descriptor and renames the temporary directory into place; a
  directory that is already there is kept and touched.\<close>

definition publish_outbox :: "batch_descriptor \<Rightarrow> bytes list \<Rightarrow> unit step" where
  "publish_outbox d parts =
     bindS (disk ''write batch descriptor'' (\<lambda>s. s)) (\<lambda>_ s.
       if map_of (st_outbox s) (b_id d) \<noteq> None then
         disk ''touch batch'' (\<lambda>s. s\<lparr>st_outbox :=
           AList.map_entry (b_id d) (\<lambda>g. g\<lparr>sg_mtime := st_now s\<rparr>) (st_outbox s)\<rparr>) s
       else disk ''publish batch'' (\<lambda>s. s\<lparr>st_outbox :=
           AList.update (b_id d) (new_staging d parts (st_now s)) (st_outbox s)\<rparr>) s)"

definition publish_incoming :: "batch_descriptor \<Rightarrow> unit step" where
  "publish_incoming d =
     bindS (disk ''write batch descriptor'' (\<lambda>s. s)) (\<lambda>_ s.
       if map_of (st_incoming s) (b_id d) \<noteq> None then
         disk ''touch batch'' (\<lambda>s. s\<lparr>st_incoming :=
           AList.map_entry (b_id d) (\<lambda>g. g\<lparr>sg_mtime := st_now s\<rparr>) (st_incoming s)\<rparr>) s
       else disk ''publish batch'' (\<lambda>s. s\<lparr>st_incoming :=
           AList.update (b_id d) (new_staging d [] (st_now s)) (st_incoming s)\<rparr>) s)"

definition build_batch :: "(bytes \<Rightarrow> bytes) \<Rightarrow> bool \<Rightarrow> object_entry list \<Rightarrow> batch_descriptor step" where
  "build_batch compress cancelled objects =
     (if int (length objects) > MaxBatchObjects then failS ErrBatchFull
      else bindS (liftS (validate_batch_build objects)) (\<lambda>_.
        if sum_sizes objects > MaxBatchRaw then failS ErrBatchFull
        else bindS (disk ''stage batch build'' (\<lambda>s. s)) (\<lambda>_.
          bindS (\<lambda>s. (s, pack_batch compress s cancelled objects)) (\<lambda>(d, parts).
            bindS (eachS (\<lambda>_. disk ''write part'' (\<lambda>s. s)) parts) (\<lambda>_.
              bindS (publish_outbox d parts) (\<lambda>_. retS d))))))"

definition read_part :: "store \<Rightarrow> bool \<Rightarrow> digest \<Rightarrow> int \<Rightarrow> bytes res" where
  "read_part s cancelled i index =
     andthen (validate_batch_read i index) (\<lambda>_.
       if cancelled then Inl ErrCtx
       else case map_of (st_outbox s) i of
         None \<Rightarrow> Inl ErrNotExist
       | Some g \<Rightarrow> (case map_of (sg_parts g) (nat index) of None \<Rightarrow> Inl ErrNotExist | Some b \<Rightarrow> Inr b))"

definition drop_batch :: "bool \<Rightarrow> digest \<Rightarrow> unit step" where
  "drop_batch cancelled i =
     bindS (liftS (validate_digest i)) (\<lambda>_.
       if cancelled then failS ErrCtx
       else disk ''drop batch'' (\<lambda>s. s\<lparr>st_outbox := AList.delete i (st_outbox s)\<rparr>))"

subsection \<open>Receiving\<close>

definition held_parts :: "staging \<Rightarrow> nat \<Rightarrow> nat list" where
  "held_parts g n = filter (\<lambda>i. map_of (sg_parts g) i \<noteq> None) [0..<n]"

definition begin_batch :: "bool \<Rightarrow> batch_descriptor \<Rightarrow> nat list step" where
  "begin_batch cancelled d =
     bindS (liftS (validate_descriptor d)) (\<lambda>_.
       if cancelled then failS ErrCtx
       else (\<lambda>s. case map_of (st_incoming s) (b_id d) of
           Some g \<Rightarrow> bindS (disk ''touch batch'' (\<lambda>s. s\<lparr>st_incoming :=
               AList.map_entry (b_id d) (\<lambda>g. g\<lparr>sg_mtime := st_now s\<rparr>) (st_incoming s)\<rparr>))
             (\<lambda>_. retS (held_parts g (length (b_parts d)))) s
         | None \<Rightarrow>
             if map_of (st_committed s) (b_id d) \<noteq> None then
               bindS (disk ''touch committed batch'' (\<lambda>s. s\<lparr>st_committed :=
                   AList.map_entry (b_id d) (\<lambda>(c, t). (c, st_now s)) (st_committed s)\<rparr>))
                 (\<lambda>_. retS [0..<length (b_parts d)]) s
             else if int (length (filter (\<lambda>(n, g). n = [] \<or> hd n \<noteq> CHR ''.'') (st_incoming s))) \<ge> MaxIncoming then
               (s, Inl ErrIncomingFull)
             else bindS (disk ''stage batch'' (\<lambda>s. s)) (\<lambda>_.
               bindS (publish_incoming d) (\<lambda>_. retS [])) s))"

definition put_part :: "bool \<Rightarrow> digest \<Rightarrow> int \<Rightarrow> bytes \<Rightarrow> unit step" where
  "put_part cancelled i index data =
     bindS (liftS (validate_batch_put i index data)) (\<lambda>_.
       if cancelled then failS ErrCtx
       else (\<lambda>s. case map_of (st_incoming s) i of
           None \<Rightarrow> (s, if map_of (st_committed s) i \<noteq> None then Inr () else Inl ErrNotExist)
         | Some g \<Rightarrow>
             if index \<ge> int (length (b_parts (sg_descriptor g))) then (s, Inl (ErrInvalid ''part index past batch''))
             else let want = b_parts (sg_descriptor g) ! nat index in
               if int (length data) \<noteq> p_size want \<or> digest_sum data \<noteq> p_digest want then
                 (s, Inl (ErrInvalid ''part does not match its descriptor''))
               else (case disk ''write part'' (\<lambda>s. s\<lparr>st_incoming :=
                     AList.map_entry i (\<lambda>g. g\<lparr>sg_parts := AList.update (nat index) data (sg_parts g)\<rparr>) (st_incoming s)\<rparr>) s of
                   (s', Inr _) \<Rightarrow> (s', Inr ())
                 | (s', Inl e) \<Rightarrow> (s', if map_of (st_committed s') i \<noteq> None then Inr () else Inl e))))"

subsection \<open>Committing\<close>

definition staged_stream :: "(bytes \<Rightarrow> stream) \<Rightarrow> staging \<Rightarrow> stream" where
  "staged_stream decompress g =
     decompress (concat (map (\<lambda>i. the (map_of (sg_parts g) i)) [0..<length (b_parts (sg_descriptor g))]))"

text \<open>\<^verbatim>\<open>requireChildren\<close>: every child is earlier in the batch or present.\<close>

fun require_children_of :: "store \<Rightarrow> digest list \<Rightarrow> digest list \<Rightarrow> unit res" where
  "require_children_of s batch [] = Inr ()"
| "require_children_of s batch (c # cs) =
     (if c \<in> set batch then require_children_of s batch cs
      else andthen (present s c) (\<lambda>there.
        if \<not> there then Inl (ErrInvalid ''manifest precedes its child'')
        else require_children_of s batch cs))"

definition check_callback :: "store \<Rightarrow> object_entry \<Rightarrow> bytes \<Rightarrow> digest list \<Rightarrow> digest list \<times> unit res" where
  "check_callback s x data batch =
     (if o_kind x = KindManifest then
        (case andthen (decode_manifest data) (\<lambda>m. require_children_of s batch (children m)) of
           Inl e \<Rightarrow> (batch, Inl e)
         | Inr _ \<Rightarrow> (o_digest x # batch, Inr ()))
      else (o_digest x # batch, Inr ()))"

record landing =
  ld_store :: store
  ld_report :: commit_report
  ld_levels :: "(digest \<times> int) list"
  ld_landed :: "digest list"

fun max_level :: "(digest \<times> int) list \<Rightarrow> digest list \<Rightarrow> int \<Rightarrow> int" where
  "max_level levels [] acc = acc"
| "max_level levels (c # cs) acc =
     max_level levels cs (case map_of levels c of None \<Rightarrow> acc | Some l \<Rightarrow> max acc (l + 1))"

definition landing_level :: "object_entry \<Rightarrow> bytes \<Rightarrow> (digest \<times> int) list \<Rightarrow> int res" where
  "landing_level x data levels =
     (if o_kind x \<noteq> KindManifest then Inr 0
      else andthen (decode_manifest data) (\<lambda>m. Inr (max_level levels (children m) 0)))"

definition with_staging :: "digest \<Rightarrow> (staging \<Rightarrow> staging) \<Rightarrow> store \<Rightarrow> store" where
  "with_staging i f s = s\<lparr>st_incoming := AList.map_entry i f (st_incoming s)\<rparr>"

text \<open>\<^verbatim>\<open>land\<close>: creates the file, which must not be there.\<close>

definition land :: "digest \<Rightarrow> digest \<Rightarrow> bytes \<Rightarrow> unit step" where
  "land i d data s =
     (if (case map_of (st_incoming s) i of None \<Rightarrow> True | Some g \<Rightarrow> map_of (sg_landing g) d \<noteq> None) then
        (s, Inl (ErrIO ''land object''))
      else disk ''land object'' (with_staging i (\<lambda>g. g\<lparr>sg_landing := AList.update d data (sg_landing g)\<rparr>)) s)"

definition land_callback :: "digest \<Rightarrow> object_entry \<Rightarrow> bytes \<Rightarrow> landing \<Rightarrow> landing \<times> unit res" where
  "land_callback i x data l =
     (case touch (o_digest x) (ld_store l) of
        (s1, Inl e) \<Rightarrow> (l\<lparr>ld_store := s1\<rparr>, Inl e)
      | (s1, Inr True) \<Rightarrow>
          (l\<lparr>ld_store := s1, ld_report := (ld_report l)\<lparr>cr_present := cr_present (ld_report l) + 1\<rparr>\<rparr>, Inr ())
      | (s1, Inr False) \<Rightarrow>
          (case landing_level x data (ld_levels l) of
             Inl e \<Rightarrow> (l\<lparr>ld_store := s1\<rparr>, Inl e)
           | Inr level \<Rightarrow> (case land i (o_digest x) data s1 of
               (s2, Inl e) \<Rightarrow> (l\<lparr>ld_store := s2\<rparr>, Inl e)
             | (s2, Inr _) \<Rightarrow>
                 (l\<lparr>ld_store := s2, ld_levels := AList.update (o_digest x) level (ld_levels l),
                    ld_landed := ld_landed l @ [o_digest x],
                    ld_report := (ld_report l)\<lparr>cr_stored := cr_stored (ld_report l) + 1,
                      cr_bytes := cr_bytes (ld_report l) + o_size x\<rparr>\<rparr>, Inr ()))))"

text \<open>Renaming a landed object into place, and back. A rename of a file that is not there fails.\<close>

definition landed_bytes :: "store \<Rightarrow> digest \<Rightarrow> digest \<Rightarrow> bytes option" where
  "landed_bytes s i d = (case map_of (st_incoming s) i of None \<Rightarrow> None | Some g \<Rightarrow> map_of (sg_landing g) d)"

definition rename_in :: "digest \<Rightarrow> digest \<Rightarrow> unit step" where
  "rename_in i d s =
     (case landed_bytes s i d of
        None \<Rightarrow> (s, Inl ErrNotExist)
      | Some data \<Rightarrow> disk ''publish object'' (\<lambda>s. with_staging i
            (\<lambda>g. g\<lparr>sg_landing := AList.delete d (sg_landing g)\<rparr>)
            (s\<lparr>st_objects := AList.update d \<lparr>f_data = data, f_mtime = st_now s\<rparr> (st_objects s)\<rparr>)) s)"

definition rename_out :: "digest \<Rightarrow> digest \<Rightarrow> unit step" where
  "rename_out i d s =
     (case map_of (st_objects s) d of
        None \<Rightarrow> (s, Inl ErrNotExist)
      | Some f \<Rightarrow> disk ''withdraw object'' (\<lambda>s. with_staging i
            (\<lambda>g. g\<lparr>sg_landing := AList.update d (f_data f) (sg_landing g)\<rparr>)
            (s\<lparr>st_objects := AList.delete d (st_objects s)\<rparr>)) s)"

fun unpublish :: "digest \<Rightarrow> digest list \<Rightarrow> store \<Rightarrow> store" where
  "unpublish i [] s = s"
| "unpublish i (d # ds) s = unpublish i ds (fst (rename_out i d s))"

text \<open>The first loop of \<^verbatim>\<open>publishLevel\<close>: the digests renamed into place so far come first, and
  an error withdraws them.\<close>

fun publish_renames :: "digest \<Rightarrow> digest list \<Rightarrow> digest list \<Rightarrow> digest list step" where
  "publish_renames i published [] s = (s, Inr published)"
| "publish_renames i published (d # ds) s =
     (case touch d s of
        (s1, Inl e) \<Rightarrow> (unpublish i published s1, Inl e)
      | (s1, Inr True) \<Rightarrow> publish_renames i published ds s1
      | (s1, Inr False) \<Rightarrow> (case mark_unsynced d s1 of
          (s2, Inl e) \<Rightarrow> (unpublish i published s2, Inl e)
        | (s2, Inr _) \<Rightarrow> (case rename_in i d s2 of
            (s3, Inl e) \<Rightarrow> (unpublish i published s3, Inl e)
          | (s3, Inr _) \<Rightarrow> publish_renames i (published @ [d]) ds s3)))"

definition publish_level :: "digest \<Rightarrow> digest list \<Rightarrow> (digest \<times> int) list \<Rightarrow> int \<Rightarrow> unit step" where
  "publish_level i landed levels level s =
     (case publish_renames i [] (filter (\<lambda>d. map_of levels d = Some level) landed) s of
        (s1, Inl e) \<Rightarrow> (s1, Inl e)
      | (s1, Inr published) \<Rightarrow>
          (case eachS (\<lambda>_. disk ''fsync object directory'' (\<lambda>s. s)) (remdups (map (take 2) published)) s1 of
             (s2, Inl e) \<Rightarrow> (unpublish i published s2, Inl e)
           | (s2, Inr _) \<Rightarrow> (case disk ''flush published objects'' (\<lambda>s. s) s2 of
               (s3, Inl e) \<Rightarrow> (unpublish i published s3, Inl e)
             | (s3, Inr _) \<Rightarrow> mark_synced published s3)))"

definition level_height :: "(digest \<times> int) list \<Rightarrow> int" where
  "level_height levels = fold (\<lambda>(d, l) h. max h l) levels 0"

definition publish_landed :: "digest \<Rightarrow> digest list \<Rightarrow> (digest \<times> int) list \<Rightarrow> unit step" where
  "publish_landed i landed levels =
     (if landed = [] then retS ()
      else bindS (disk ''flush landed objects'' (\<lambda>s. s)) (\<lambda>_.
        eachS (publish_level i landed levels) (map int [0..<nat (level_height levels) + 1])))"

text \<open>\<^verbatim>\<open>recommit\<close>: its times are set on the object files, whether their marks stand or not.\<close>

fun recommit_objects :: "digest \<Rightarrow> bool \<Rightarrow> object_entry list \<Rightarrow> unit step" where
  "recommit_objects i cancelled [] s = (s, Inr ())"
| "recommit_objects i cancelled (x # xs) s =
     (if cancelled then (s, Inl ErrCtx)
      else if map_of (st_objects s) (o_digest x) = None then
        (fst (disk ''remove committed batch'' (\<lambda>s. s\<lparr>st_committed := AList.delete i (st_committed s)\<rparr>) s),
         Inl (MissingError (o_digest x)))
      else (case disk ''touch object'' (\<lambda>s. s\<lparr>st_objects :=
              AList.map_entry (o_digest x) (\<lambda>f. f\<lparr>f_mtime := st_now s\<rparr>) (st_objects s)\<rparr>) s of
          (s', Inl e) \<Rightarrow> (s', Inl e)
        | (s', Inr _) \<Rightarrow> recommit_objects i cancelled xs s'))"

definition recommit :: "bool \<Rightarrow> digest \<Rightarrow> commit_report step" where
  "recommit cancelled i s =
     (case map_of (st_committed s) i of
        None \<Rightarrow> (s, Inl ErrNotExist)
      | Some (d, t) \<Rightarrow> bindS (recommit_objects i cancelled (b_objects d)) (\<lambda>_.
          retS \<lparr>cr_stored = 0, cr_present = int (length (b_objects d)), cr_bytes = 0\<rparr>) s)"

text \<open>The end of \<^verbatim>\<open>CommitBatch\<close>: publication, the committed record, and the removal of the
  staging.\<close>

definition finish_commit :: "digest \<Rightarrow> batch_descriptor \<Rightarrow> landing \<Rightarrow> store \<times> commit_report res" where
  "finish_commit i d l =
     bindS (publish_landed i (ld_landed l) (ld_levels l)) (\<lambda>_.
       bindS (disk ''record committed batch'' (\<lambda>s. s\<lparr>st_committed := AList.update i (d, st_now s) (st_committed s)\<rparr>)) (\<lambda>_.
         bindS (disk ''remove staged batch'' (\<lambda>s. s\<lparr>st_incoming := AList.delete i (st_incoming s)\<rparr>)) (\<lambda>_.
           retS (ld_report l)))) (ld_store l)"

definition commit_staged :: "(bytes \<Rightarrow> stream) \<Rightarrow> bool \<Rightarrow> digest \<Rightarrow> staging \<Rightarrow> commit_report step" where
  "commit_staged decompress cancelled i g s =
     (let d = sg_descriptor g; stream = staged_stream decompress g in
      if length (held_parts g (length (b_parts d))) \<noteq> length (b_parts d) then
        (s, Inl (ErrMsg ''batch holds not all of its parts''))
      else case snd (scan_pack cancelled stream d (check_callback s) []) of
        Inl e \<Rightarrow> (s, Inl e)
      | Inr _ \<Rightarrow>
          bindS (disk ''clear landing'' (with_staging i (\<lambda>g. g\<lparr>sg_landing := []\<rparr>))) (\<lambda>_.
            bindS (disk ''create landing'' (\<lambda>s. s)) (\<lambda>_ s1.
              case scan_pack cancelled stream d (land_callback i)
                  \<lparr>ld_store = s1, ld_report = \<lparr>cr_stored = 0, cr_present = 0, cr_bytes = 0\<rparr>,
                   ld_levels = [], ld_landed = []\<rparr> of
                (l, Inl e) \<Rightarrow> (ld_store l, Inl e)
              | (l, Inr _) \<Rightarrow> finish_commit i d l)) s)"

definition commit_batch :: "(bytes \<Rightarrow> stream) \<Rightarrow> bool \<Rightarrow> digest \<Rightarrow> commit_report step" where
  "commit_batch decompress cancelled i =
     bindS (liftS (validate_digest i)) (\<lambda>_ s.
       case map_of (st_incoming s) i of
         None \<Rightarrow> recommit cancelled i s
       | Some g \<Rightarrow> commit_staged decompress cancelled i g s)"

end
