(* ===== verification/Artifact_Commit.thy ===== *)
theory Artifact_Commit
  imports Artifact_Batch
begin

text \<open>
  What committing a batch keeps: at every crash point, every manifest a reader can see has all
  of its children in view. The proof follows the code: the check scan shows that each
  manifest's children are present or earlier in the batch, the landing scan gives each landed
  object a level above its landed children, and publication makes one level visible before it
  starts the next.
\<close>

subsection \<open>What a scan hands over\<close>

fun scanned :: "object_entry list \<Rightarrow> bytes \<Rightarrow> (object_entry \<times> bytes) list \<times> bytes res" where
  "scanned [] s = ([], Inr s)"
| "scanned (x # xs) s = (case scan_object x s of
     Inl e \<Rightarrow> ([], Inl e)
   | Inr (data, rest) \<Rightarrow> ((x, data) # fst (scanned xs rest), snd (scanned xs rest)))"

lemma scan_objects_scanned:
  "scan_objects False objs s f st =
     (case deliver f (fst (scanned objs s)) st of
        (st', Inl e) \<Rightarrow> (st', Inl e)
      | (st', Inr _) \<Rightarrow> (st', snd (scanned objs s)))"
  by (induction objs s arbitrary: st rule: scanned.induct)
    (auto split: sum.splits prod.splits)

lemma scanned_intact: "\<forall>xd \<in> set (fst (scanned objs s)). fst xd \<in> set objs \<and> intact xd"
proof (induction objs s rule: scanned.induct)
  case (1 s)
  then show ?case by simp
next
  case (2 x xs s)
  show ?case
  proof (cases "scan_object x s")
    case (Inl e)
    then show ?thesis by simp
  next
    case (Inr p)
    obtain data rest where p: "p = (data, rest)" by fastforce
    from Inr p have "intact (x, data)" by (auto elim: scan_object_Inr)
    with 2 Inr p show ?thesis by auto
  qed
qed

lemma scanned_all: "snd (scanned objs s) = Inr rest \<Longrightarrow> map fst (fst (scanned objs s)) = objs"
  by (induction objs s rule: scanned.induct) (auto split: sum.splits prod.splits)

text \<open>The objects a scan of a staged stream hands over, in order.\<close>

definition handed :: "stream \<Rightarrow> batch_descriptor \<Rightarrow> (object_entry \<times> bytes) list" where
  "handed decoded d =
     fst (scanned (b_objects d) (drop (length packMagic) (fst (limit_stream (b_raw_size d + 1) decoded))))"

lemma handed_intact: "xd \<in> set (handed decoded d) \<Longrightarrow> intact xd"
  unfolding handed_def using scanned_intact by blast

lemma scan_objects_cancelled:
  "snd (scan_objects c objs s f st) = Inr left \<Longrightarrow> scan_objects c objs s g st' = scan_objects False objs s g st'"
  by (cases c; cases objs) simp_all

text \<open>Two scans of one stream hand over the same objects; a scan that succeeds hands over all of
  them.\<close>

lemma scan_pack_handed:
  assumes "snd (scan_pack cancelled decoded d f st) = Inr ()"
  shows "map fst (handed decoded d) = b_objects d" and "snd (deliver f (handed decoded d) st) = Inr ()"
    and "scan_pack cancelled decoded d g st' = deliver g (handed decoded d) st'"
proof -
  obtain s ending where lim: "limit_stream (b_raw_size d + 1) decoded = (s, ending)" by fastforce
  from assms lim obtain rest left where m: "read_full (int (length packMagic)) s = Some (packMagic, rest)"
    and so: "snd (scan_objects cancelled (b_objects d) rest f st) = Inr left"
    and e: "scan_end (b_raw_size d) (int (length s)) left ending = Inr ()"
    by (auto simp: scan_pack_def split: option.splits prod.splits sum.splits if_splits)
  have h: "handed decoded d = fst (scanned (b_objects d) rest)"
    using m by (auto simp: handed_def lim read_full_def split: if_splits)
  note run = scan_objects_cancelled [OF so]
  from so have "snd (scan_objects False (b_objects d) rest f st) = Inr left" unfolding run .
  then have d: "snd (deliver f (handed decoded d) st) = Inr ()" and sc: "snd (scanned (b_objects d) rest) = Inr left"
    unfolding scan_objects_scanned h by (auto split: prod.splits sum.splits)
  show "snd (deliver f (handed decoded d) st) = Inr ()" by (rule d)
  show "map fst (handed decoded d) = b_objects d" unfolding h by (rule scanned_all [OF sc])
  show "scan_pack cancelled decoded d g st' = deliver g (handed decoded d) st'"
    using m sc e by (auto simp: scan_pack_def lim run h scan_objects_scanned split: prod.splits sum.splits)
qed

subsection \<open>The check scan\<close>

lemma require_children_Inr:
  "require_children_of s batch cs = Inr () \<longleftrightarrow> (\<forall>c \<in> set cs. c \<in> set batch \<or> present s c = Inr True)"
  by (induction s batch cs rule: require_children_of.induct) (auto simp: andthen_Inr_iff)

lemma check_callback_next: "check_callback s x data batch = (b', Inr u) \<Longrightarrow> b' = o_digest x # batch"
  by (auto simp: check_callback_def split: if_splits sum.splits)

lemma deliver_snoc_Inr: "snd (deliver f ((x, d) # xs) st) = Inr () \<longleftrightarrow>
   (\<exists>st'. f x d st = (st', Inr ()) \<and> snd (deliver f xs st') = Inr ())"
  by (auto split: prod.splits sum.splits)

lemma check_deliver:
  assumes "snd (deliver (check_callback s) (ys @ (x, data) # zs) batch) = Inr ()" and "o_kind x = KindManifest"
  shows "\<exists>m. decode_manifest data = Inr m \<and>
    (\<forall>c \<in> set (children m). c \<in> set batch \<or> c \<in> o_digest ` fst ` set ys \<or> view s c \<noteq> None)"
  using assms(1)
proof (induction ys arbitrary: batch)
  case Nil
  then obtain m where "decode_manifest data = Inr m" "require_children_of s batch (children m) = Inr ()"
    using assms(2) by (auto simp: check_callback_def andthen_Inr_iff andthen_def split: sum.splits prod.splits)
  then show ?case using present_Inr by (fastforce simp: require_children_Inr)
next
  case (Cons y ys)
  obtain z d where y: "y = (z, d)" by fastforce
  from Cons.prems y obtain b' where b: "check_callback s z d batch = (b', Inr ())"
    "snd (deliver (check_callback s) (ys @ (x, data) # zs) b') = Inr ()"
    unfolding append_Cons y deliver_snoc_Inr by blast
  from Cons.IH [OF b(2)] check_callback_next [OF b(1)] y show ?case by auto
qed

subsection \<open>Landing\<close>

text \<open>An object may be published over a view \<open>v\<close> and the levels \<open>lv\<close> of landed objects: its bytes
  are its own, and if they are a manifest then each child is in view or landed on a lower level.\<close>

definition placed :: "(digest \<Rightarrow> bytes option) \<Rightarrow> (digest \<times> int) list \<Rightarrow> digest \<Rightarrow> bytes \<Rightarrow> bool" where
  "placed v lv d b \<longleftrightarrow> digest_sum b = d \<and> (\<exists>l. map_of lv d = Some l \<and> 0 \<le> l \<and>
     (\<forall>m. decode_manifest b = Inr m \<longrightarrow>
        (\<forall>c \<in> set (children m). v c \<noteq> None \<or> (\<exists>k. map_of lv c = Some k \<and> k < l))))"

definition land_inv :: "store \<Rightarrow> digest \<Rightarrow> (object_entry \<times> bytes) list \<Rightarrow> landing \<Rightarrow> bool" where
  "land_inv s0 i seen l \<longleftrightarrow>
     view (ld_store l) = view s0 \<and>
     distinct (ld_landed l) \<and> fst ` set (ld_levels l) = set (ld_landed l) \<and>
     (\<forall>d. landed_bytes (ld_store l) i d \<noteq> None \<longleftrightarrow> d \<in> set (ld_landed l)) \<and>
     (\<forall>d b. landed_bytes (ld_store l) i d = Some b \<longrightarrow>
        placed (view s0) (ld_levels l) d b \<and> (d, b) \<in> (\<lambda>(x, b). (o_digest x, b)) ` set seen) \<and>
     (\<forall>xd \<in> set seen. view s0 (o_digest (fst xd)) \<noteq> None \<or> o_digest (fst xd) \<in> set (ld_landed l))"

lemma max_level_ge: "acc \<le> max_level lv cs acc"
proof (induction cs arbitrary: acc)
  case (Cons a cs)
  show ?case
  proof (cases "map_of lv a")
    case (Some l)
    have "acc \<le> max acc (l + 1)" by simp
    also have "\<dots> \<le> max_level lv cs (max acc (l + 1))" by (rule Cons)
    finally show ?thesis using Some by simp
  qed (use Cons in simp)
qed simp

lemma max_level_child: "c \<in> set cs \<Longrightarrow> map_of lv c = Some k \<Longrightarrow> k < max_level lv cs acc"
proof (induction cs arbitrary: acc)
  case Nil
  then show ?case by simp
next
  case (Cons a cs)
  show ?case
  proof (cases "a = c")
    case True
    with Cons.prems have "k + 1 \<le> max_level lv cs (max acc (k + 1))"
      using max_level_ge [of "max acc (k + 1)" lv cs] by simp
    with True Cons.prems show ?thesis by simp
  next
    case False
    with Cons show ?thesis by simp
  qed
qed

lemma touch_staging: "touch d s = (s', r) \<Longrightarrow> st_incoming s' = st_incoming s"
  by (auto simp: touch_def bindS_def retS_def split: sum.splits bool.splits prod.splits dest!: disk_cases)

lemma landed_staging: "st_incoming s' = st_incoming s \<Longrightarrow> landed_bytes s' i = landed_bytes s i"
  by (simp add: landed_bytes_def fun_eq_iff)

lemma view_staging [simp]: "view (with_staging i f s) = view s"
  by (simp add: with_staging_def view_def fun_eq_iff)

lemma land_Inr:
  assumes "land i d data s = (s', Inr u)"
  shows "landed_bytes s i d = None" and "landed_bytes s' i = (landed_bytes s i)(d \<mapsto> data)" and "view s' = view s"
proof -
  from assms obtain g where g: "map_of (st_incoming s) i = Some g" "map_of (sg_landing g) d = None"
    and e: "s' = with_staging i (\<lambda>g. g\<lparr>sg_landing := AList.update d data (sg_landing g)\<rparr>) (s\<lparr>st_faults := tl (st_faults s)\<rparr>)"
    by (auto simp: land_def split: if_splits option.splits dest!: disk_Inr)
  show "landed_bytes s i d = None" using g by (simp add: landed_bytes_def)
  show "landed_bytes s' i = (landed_bytes s i)(d \<mapsto> data)"
    using g by (simp add: e landed_bytes_def with_staging_def AList.map_of_map_entry fun_eq_iff)
  show "view s' = view s" by (simp add: e)
qed

lemma land_view: "land i d data s = (s', r) \<Longrightarrow> view s' = view s"
  by (auto simp: land_def split: if_splits dest!: disk_cases)

lemma land_callback_view:
  "land_callback i x data l = (l', r) \<Longrightarrow> view (ld_store l') = view (ld_store l)"
  by (auto simp: land_callback_def dest!: touch_view(1) land_view split: prod.splits sum.splits bool.splits)

lemma placed_update:
  assumes "placed v lv d b" and "map_of lv d' = None"
  shows "placed v (AList.update d' l lv) d b"
proof -
  have "d \<noteq> d'" using assms by (auto simp: placed_def)
  moreover have "(\<exists>k. map_of (AList.update d' l lv) c = Some k \<and> k < l')"
    if "map_of lv c = Some k" "k < l'" for c k l'
    using that assms(2) by (cases "c = d'") auto
  ultimately show ?thesis using assms(1) unfolding placed_def by fastforce
qed

lemma land_step:
  assumes inv: "land_inv s0 i seen l" and cb: "land_callback i x data l = (l', Inr u)"
    and d: "digest_sum data = o_digest x"
    and blob: "o_kind x \<noteq> KindManifest \<Longrightarrow> \<not> is_ok (decode_manifest data)"
    and kids: "\<And>m c. o_kind x = KindManifest \<Longrightarrow> decode_manifest data = Inr m \<Longrightarrow> c \<in> set (children m) \<Longrightarrow>
      c \<in> o_digest ` fst ` set seen \<or> view s0 c \<noteq> None"
  shows "land_inv s0 i (seen @ [(x, data)]) l'"
proof -
  obtain s1 t where t: "touch (o_digest x) (ld_store l) = (s1, t)" by fastforce
  note tv = touch_view [OF t]
  have b1: "landed_bytes s1 i = landed_bytes (ld_store l) i" using landed_staging touch_staging [OF t] by blast
  have v1: "view s1 = view s0" using tv inv by (simp add: land_inv_def)
  show ?thesis
  proof (cases "t = Inr True")
    case True
    with cb t have s: "ld_store l' = s1" "ld_levels l' = ld_levels l" "ld_landed l' = ld_landed l"
      by (auto simp: land_callback_def)
    have "view s0 (o_digest x) \<noteq> None" using tv True inv by (auto simp: land_inv_def)
    then show ?thesis using inv b1 v1 unfolding land_inv_def s by auto
  next
    case False
    with cb t obtain level s2 where t': "t = Inr False"
      and lev: "landing_level x data (ld_levels l) = Inr level"
      and land: "land i (o_digest x) data s1 = (s2, Inr ())"
      and s: "ld_store l' = s2" "ld_levels l' = AList.update (o_digest x) level (ld_levels l)"
        "ld_landed l' = ld_landed l @ [o_digest x]"
      by (auto simp: land_callback_def split: sum.splits prod.splits bool.splits)
    note ln = land_Inr [OF land]
    have new: "o_digest x \<notin> set (ld_landed l)" using ln(1) b1 inv unfolding land_inv_def by metis
    then have none: "map_of (ld_levels l) (o_digest x) = None" using inv by (auto simp: land_inv_def map_of_eq_None_iff)
    have p: "placed (view s0) (ld_levels l') (o_digest x) data"
    proof -
      have "0 \<le> level" using lev max_level_ge [of 0] by (auto simp: landing_level_def andthen_Inr_iff split: if_splits)
      moreover have "view s0 c \<noteq> None \<or> (\<exists>k. map_of (ld_levels l') c = Some k \<and> k < level)"
        if m: "decode_manifest data = Inr m" and c: "c \<in> set (children m)" for m c
      proof -
        have k: "o_kind x = KindManifest" using blob m by auto
        show ?thesis
        proof (cases "view s0 c = None")
          case True
          with kids [OF k m c] inv have "c \<in> set (ld_landed l)" by (fastforce simp: land_inv_def)
          with inv obtain q where q: "map_of (ld_levels l) c = Some q"
            by (metis land_inv_def map_of_eq_None_iff option.exhaust)
          have "c \<noteq> o_digest x" using q none by auto
          moreover have "q < level" using lev k m max_level_child [OF c q]
            by (auto simp: landing_level_def andthen_Inr_iff)
          ultimately show ?thesis using q by (simp add: s)
        qed simp
      qed
      ultimately show ?thesis using d by (simp add: placed_def s)
    qed
    have old: "placed (view s0) (ld_levels l') e b" if "placed (view s0) (ld_levels l) e b" for e b
      unfolding s by (rule placed_update [OF that none])
    have keys: "fst ` set (ld_levels l') = set (ld_landed l')"
      using inv by (simp add: s land_inv_def AList.dom_update image_image)
    show ?thesis
      unfolding land_inv_def
    proof (intro conjI allI impI ballI)
      show "view (ld_store l') = view s0" using ln(3) v1 s by simp
      show "distinct (ld_landed l')" using inv new by (simp add: s land_inv_def)
      show "fst ` set (ld_levels l') = set (ld_landed l')" by (rule keys)
      show "(landed_bytes (ld_store l') i e \<noteq> None) = (e \<in> set (ld_landed l'))" for e
        using inv b1 by (auto simp: s ln(2) land_inv_def)
      fix e b
      assume e: "landed_bytes (ld_store l') i e = Some b"
      then have "e = o_digest x \<and> b = data \<or> landed_bytes (ld_store l) i e = Some b"
        using b1 by (auto simp: s ln(2) split: if_splits)
      then show "placed (view s0) (ld_levels l') e b" "(e, b) \<in> (\<lambda>(x, b). (o_digest x, b)) ` set (seen @ [(x, data)])"
        using p old inv by (auto simp: land_inv_def)
    next
      fix xd
      assume "xd \<in> set (seen @ [(x, data)])"
      then show "view s0 (o_digest (fst xd)) \<noteq> None \<or> o_digest (fst xd) \<in> set (ld_landed l')"
        using inv by (auto simp: s land_inv_def)
    qed
  qed
qed

text \<open>What the check scan has established of the objects a staged stream hands over.\<close>

definition checked_order :: "store \<Rightarrow> (object_entry \<times> bytes) list \<Rightarrow> bool" where
  "checked_order s0 xs \<longleftrightarrow> (\<forall>ys x data zs. xs = ys @ (x, data) # zs \<longrightarrow>
     digest_sum data = o_digest x \<and>
     (o_kind x \<noteq> KindManifest \<longrightarrow> \<not> is_ok (decode_manifest data)) \<and>
     (o_kind x = KindManifest \<longrightarrow> (\<forall>m c. decode_manifest data = Inr m \<longrightarrow> c \<in> set (children m) \<longrightarrow>
        c \<in> o_digest ` fst ` set ys \<or> view s0 c \<noteq> None)))"

lemma checked_orderD:
  assumes "checked_order s0 (ys @ (x, data) # zs)"
  shows "digest_sum data = o_digest x" and "o_kind x \<noteq> KindManifest \<Longrightarrow> \<not> is_ok (decode_manifest data)"
    and "o_kind x = KindManifest \<Longrightarrow> decode_manifest data = Inr m \<Longrightarrow> c \<in> set (children m) \<Longrightarrow>
      c \<in> o_digest ` fst ` set ys \<or> view s0 c \<noteq> None"
  using assms unfolding checked_order_def by blast+

definition blobs_opaque :: "(object_entry \<times> bytes) list \<Rightarrow> bool" where
  "blobs_opaque xs \<longleftrightarrow> (\<forall>(x, b) \<in> set xs. o_kind x \<noteq> KindManifest \<longrightarrow> \<not> is_ok (decode_manifest b))"

lemma check_scan:
  assumes "snd (deliver (check_callback s) xs []) = Inr ()" and "\<forall>xd \<in> set xs. intact xd" and "blobs_opaque xs"
  shows "checked_order s xs"
  unfolding checked_order_def
proof (intro allI impI)
  fix ys x data zs
  assume e: "xs = ys @ (x, data) # zs"
  have "digest_sum data = o_digest x" using assms(2) e by (simp add: intact_def)
  moreover have "o_kind x \<noteq> KindManifest \<longrightarrow> \<not> is_ok (decode_manifest data)"
    using assms(3) e by (auto simp: blobs_opaque_def)
  moreover have "c \<in> o_digest ` fst ` set ys \<or> view s c \<noteq> None"
    if "o_kind x = KindManifest" "decode_manifest data = Inr m" "c \<in> set (children m)" for m c
    using check_deliver [of s ys x data zs "[]"] assms(1) e that by auto
  ultimately show "digest_sum data = o_digest x \<and>
     (o_kind x \<noteq> KindManifest \<longrightarrow> \<not> is_ok (decode_manifest data)) \<and>
     (o_kind x = KindManifest \<longrightarrow> (\<forall>m c. decode_manifest data = Inr m \<longrightarrow> c \<in> set (children m) \<longrightarrow>
        c \<in> o_digest ` fst ` set ys \<or> view s c \<noteq> None))" by blast
qed

lemma land_scan:
  assumes "deliver (land_callback i) xs l = (l', r)" and "land_inv s0 i seen l" and "checked_order s0 (seen @ xs)"
  shows "view (ld_store l') = view s0 \<and> (r = Inr () \<longrightarrow> land_inv s0 i (seen @ xs) l')"
  using assms
proof (induction xs arbitrary: seen l)
  case Nil
  then show ?case by (auto simp: land_inv_def)
next
  case (Cons y xs)
  obtain x data where y: "y = (x, data)" by fastforce
  obtain l1 t where cb: "land_callback i x data l = (l1, t)" by fastforce
  show ?case
  proof (cases t)
    case (Inl e)
    then have "l' = l1" "r = Inl e" using Cons.prems(1) cb y by simp_all
    then show ?thesis using land_callback_view [OF cb] Cons.prems(2) by (simp add: land_inv_def)
  next
    case (Inr u)
    have "land_inv s0 i (seen @ [(x, data)]) l1"
      using land_step [OF Cons.prems(2) cb [unfolded Inr]] checked_orderD [of s0 seen x data xs] Cons.prems(3) y
      by blast
    moreover have "deliver (land_callback i) xs l1 = (l', r)" using Cons.prems(1) cb Inr y by simp
    ultimately show ?thesis using Cons.IH [of l1 "seen @ [(x, data)]"] Cons.prems(3) y by simp
  qed
qed

subsection \<open>Publication\<close>

definition stored_bytes :: "store \<Rightarrow> digest \<Rightarrow> bytes option" where
  "stored_bytes s d = map_option f_data (map_of (st_objects s) d)"

lemma rename_out_view:
  assumes "rename_out i d s = (s', r)" "d \<in> set (st_unsynced s)"
  shows "view s' = view s" "st_unsynced s' = st_unsynced s"
  using assms by (auto simp: rename_out_def with_staging_def view_def fun_eq_iff split: option.splits dest!: disk_cases)

lemma unpublish_view: "set ds \<subseteq> set (st_unsynced s) \<Longrightarrow> view (unpublish i ds s) = view s"
proof (induction ds arbitrary: s)
  case (Cons d ds)
  obtain s' r where o: "rename_out i d s = (s', r)" by fastforce
  with Cons rename_out_view [OF o] show ?case by simp
qed simp

lemma rename_in_view:
  assumes "rename_in i d s = (s', r)" "d \<in> set (st_unsynced s)"
  shows "view s' = view s" "st_unsynced s' = st_unsynced s"
    and "r = Inr u \<Longrightarrow> stored_bytes s' = (stored_bytes s)(d := landed_bytes s i d)"
    and "r = Inr u \<Longrightarrow> landed_bytes s' i = (landed_bytes s i)(d := None)"
  using assms
  by (auto simp: rename_in_def with_staging_def view_def landed_bytes_def stored_bytes_def fun_eq_iff AList.map_of_map_entry
      split: option.splits if_splits dest!: disk_cases disk_Inr)

lemma touch_stored: "touch d s = (s', r) \<Longrightarrow> stored_bytes s' = stored_bytes s \<and> st_unsynced s' = st_unsynced s"
  by (auto simp: touch_def bindS_def retS_def fun_eq_iff stored_bytes_def split: sum.splits bool.splits prod.splits dest!: disk_cases)

lemma mark_stored:
  assumes "mark_unsynced d s = (s', r)"
  shows "stored_bytes s' = stored_bytes s" "st_incoming s' = st_incoming s"
    "set (st_unsynced s) \<subseteq> set (st_unsynced s')"
  using assms by (auto simp: mark_unsynced_def stored_bytes_def fun_eq_iff dest!: disk_cases)

text \<open>Renaming under marks changes nothing a reader sees, and an error takes the files back.\<close>

lemma publish_renames_view:
  assumes "publish_renames i pub ds s = (s', r)" and "set pub \<subseteq> set (st_unsynced s)"
    and "distinct ds" and "set pub \<inter> set ds = {}"
  shows "view s' = view s \<and> (\<forall>p. r = Inr p \<longrightarrow>
     (\<exists>qs. p = pub @ qs \<and> distinct qs \<and> set qs \<subseteq> set ds \<and> set p \<subseteq> set (st_unsynced s') \<and>
        (\<forall>d \<in> set qs. stored_bytes s' d = landed_bytes s i d) \<and>
        (\<forall>d \<in> set ds. d \<in> set qs \<or> view s d \<noteq> None) \<and>
        (\<forall>d. d \<notin> set qs \<longrightarrow> stored_bytes s' d = stored_bytes s d \<and> landed_bytes s' i d = landed_bytes s i d)))"
  using assms
proof (induction ds arbitrary: pub s)
  case Nil
  then show ?case by auto
next
  case (Cons d ds)
  obtain s1 t where t: "touch d s = (s1, t)" by fastforce
  note tv = touch_view [OF t] and ts = touch_stored [OF t] touch_staging [OF t]
  have pub1: "set pub \<subseteq> set (st_unsynced s1)" using Cons.prems(2) ts by simp
  show ?case
  proof (cases t)
    case (Inl e)
    with Cons.prems(1) t have "s' = unpublish i pub s1" "r = Inl e" by simp_all
    then show ?thesis using unpublish_view [OF pub1] tv by simp
  next
    case (Inr there)
    show ?thesis
    proof (cases there)
      case True
      with Cons.prems(1) t Inr have "publish_renames i pub ds s1 = (s', r)" by simp
      from Cons.IH [OF this pub1] Cons.prems(3,4) have ih: "view s' = view s1 \<and> (\<forall>p. r = Inr p \<longrightarrow>
         (\<exists>qs. p = pub @ qs \<and> distinct qs \<and> set qs \<subseteq> set ds \<and> set p \<subseteq> set (st_unsynced s') \<and>
        (\<forall>d \<in> set qs. stored_bytes s' d = landed_bytes s1 i d) \<and>
        (\<forall>d \<in> set ds. d \<in> set qs \<or> view s1 d \<noteq> None) \<and>
        (\<forall>d. d \<notin> set qs \<longrightarrow> stored_bytes s' d = stored_bytes s1 d \<and> landed_bytes s' i d = landed_bytes s1 i d)))"
        by simp
      have seen: "view s d \<noteq> None" using tv Inr True by blast
      have lb: "landed_bytes s1 i = landed_bytes s i" by (rule landed_staging [OF ts(2)])
      have sb: "stored_bytes s1 e = stored_bytes s e" for e using fun_cong [OF conjunct1 [OF ts(1)], of e] .
      show ?thesis
      proof (intro conjI allI impI)
        show "view s' = view s" using ih tv(1) by simp
        fix p
        assume "r = Inr p"
        with ih obtain qs where q: "p = pub @ qs" "distinct qs" "set qs \<subseteq> set ds" "set p \<subseteq> set (st_unsynced s')"
          "\<forall>d \<in> set qs. stored_bytes s' d = landed_bytes s1 i d" "\<forall>d \<in> set ds. d \<in> set qs \<or> view s1 d \<noteq> None"
          "\<forall>d. d \<notin> set qs \<longrightarrow> stored_bytes s' d = stored_bytes s1 d \<and> landed_bytes s' i d = landed_bytes s1 i d"
          by blast
        show "\<exists>qs. p = pub @ qs \<and> distinct qs \<and> set qs \<subseteq> set (d # ds) \<and> set p \<subseteq> set (st_unsynced s') \<and>
          (\<forall>d \<in> set qs. stored_bytes s' d = landed_bytes s i d) \<and>
          (\<forall>d \<in> set (d # ds). d \<in> set qs \<or> view s d \<noteq> None) \<and>
          (\<forall>d. d \<notin> set qs \<longrightarrow> stored_bytes s' d = stored_bytes s d \<and> landed_bytes s' i d = landed_bytes s i d)"
          by (rule exI [of _ qs]) (use q lb tv(1) sb seen in \<open>simp add: subset_insertI2\<close>)
      qed
    next
      case False
      then have none: "view s1 d = None" using tv Inr by metis
      obtain s2 u where m: "mark_unsynced d s1 = (s2, u)" by fastforce
      note mv = mark_view [OF m none] and ms = mark_stored [OF m]
      have pub2: "set pub \<subseteq> set (st_unsynced s2)" using pub1 ms(3) by blast
      show ?thesis
      proof (cases u)
        case (Inl e)
        with Cons.prems(1) t Inr False m have "s' = unpublish i pub s2" "r = Inl e" by simp_all
        then show ?thesis using unpublish_view [OF pub2] tv mv by simp
      next
        case u: (Inr w)
        have d2: "d \<in> set (st_unsynced s2)" using mv(3) u by simp
        obtain s3 v where n: "rename_in i d s2 = (s3, v)" by fastforce
        note nv = rename_in_view [OF n d2]
        have pub3: "set pub \<subseteq> set (st_unsynced s3)" using pub2 nv by simp
        show ?thesis
        proof (cases v)
          case (Inl e)
          with Cons.prems(1) t \<open>t = Inr there\<close> False m u n have "s' = unpublish i pub s3" "r = Inl e" by simp_all
          then show ?thesis using unpublish_view [OF pub3] tv mv nv by simp
        next
          case v: (Inr z)
          have run: "publish_renames i (pub @ [d]) ds s3 = (s', r)"
            using Cons.prems(1) t \<open>t = Inr there\<close> False m u n v by simp
          have pub3': "set (pub @ [d]) \<subseteq> set (st_unsynced s3)" using pub3 d2 nv by simp
          have dis: "distinct ds" "set (pub @ [d]) \<inter> set ds = {}" using Cons.prems(3,4) by auto
          have v3: "view s3 = view s" using tv mv nv by simp
          have lb2: "landed_bytes s2 i = landed_bytes s i"
            using landed_staging [OF ms(2)] landed_staging [OF ts(2)] by simp
          have lb: "landed_bytes s3 i = (landed_bytes s i)(d := None)" using nv(4) v lb2 by simp
          have sb: "stored_bytes s3 = (stored_bytes s)(d := landed_bytes s i d)" using nv(3) v lb2 ms(1) ts(1) by simp
          note ih = Cons.IH [OF run pub3' dis]
          show ?thesis
          proof (intro conjI allI impI)
            show "view s' = view s" using ih v3 by simp
            fix p
            assume "r = Inr p"
            with ih obtain qs where q: "p = (pub @ [d]) @ qs" "distinct qs" "set qs \<subseteq> set ds" "set p \<subseteq> set (st_unsynced s')"
              "\<forall>d \<in> set qs. stored_bytes s' d = landed_bytes s3 i d" "\<forall>d \<in> set ds. d \<in> set qs \<or> view s3 d \<noteq> None"
              "\<forall>d. d \<notin> set qs \<longrightarrow> stored_bytes s' d = stored_bytes s3 d \<and> landed_bytes s' i d = landed_bytes s3 i d"
              by blast
            have dn: "d \<notin> set ds" "d \<notin> set qs" using Cons.prems(3) q(3) by auto
            show "\<exists>qs. p = pub @ qs \<and> distinct qs \<and> set qs \<subseteq> set (d # ds) \<and> set p \<subseteq> set (st_unsynced s') \<and>
              (\<forall>d \<in> set qs. stored_bytes s' d = landed_bytes s i d) \<and>
              (\<forall>d \<in> set (d # ds). d \<in> set qs \<or> view s d \<noteq> None) \<and>
              (\<forall>d. d \<notin> set qs \<longrightarrow> stored_bytes s' d = stored_bytes s d \<and> landed_bytes s' i d = landed_bytes s i d)"
              using q dn v3 lb sb by (intro exI [of _ "d # qs"]) auto
          qed
        qed
      qed
    qed
  qed
qed

lemma remove_mark_stored:
  assumes "remove_mark d s = (s', r)"
  shows "stored_bytes s' = stored_bytes s" "st_incoming s' = st_incoming s"
    "set (st_unsynced s) - {d} \<subseteq> set (st_unsynced s')"
  using assms by (auto simp: remove_mark_def stored_bytes_def fun_eq_iff split: if_splits dest!: disk_cases)

lemma mark_synced_view:
  assumes "mark_synced ds s = (s', r)" and "distinct ds" and "set ds \<subseteq> set (st_unsynced s)"
  shows "\<exists>synced \<subseteq> set ds. (\<forall>d. view s' d = (if d \<in> synced then stored_bytes s d else view s d)) \<and>
    st_incoming s' = st_incoming s \<and> (r = Inr () \<longrightarrow> synced = set ds)"
  using assms
proof (induction ds arbitrary: s)
  case Nil
  then show ?case by (simp add: mark_synced_def retS_def)
next
  case (Cons d ds)
  obtain s1 t where rm: "remove_mark d s = (s1, t)" by fastforce
  note v = remove_mark_view [OF rm] and st = remove_mark_stored [OF rm]
  have v1: "view s1 = view s \<or> (\<forall>e. view s1 e = (if e \<in> {d} then stored_bytes s e else view s e))"
    using v(1) by (auto simp: stored_bytes_def)
  show ?case
  proof (cases t)
    case (Inl e)
    with Cons.prems(1) rm have e: "s' = s1" "r = Inl e" by (simp_all add: mark_synced_def bindS_def)
    from v1 show ?thesis
    proof
      assume "view s1 = view s"
      then show ?thesis using e st(2) by (intro exI [of _ "{}"]) simp
    next
      assume "\<forall>e. view s1 e = (if e \<in> {d} then stored_bytes s e else view s e)"
      then show ?thesis using e st(2) by (intro exI [of _ "{d}"]) simp
    qed
  next
    case (Inr u)
    with Cons.prems(1) rm have run: "mark_synced ds s1 = (s', r)" by (simp add: mark_synced_def bindS_def)
    have "set ds \<subseteq> set (st_unsynced s1)" using st(3) Cons.prems(2,3) by auto
    from Cons.IH [OF run _ this] Cons.prems(2) obtain synced where q: "synced \<subseteq> set ds"
      "\<forall>e. view s' e = (if e \<in> synced then stored_bytes s1 e else view s1 e)"
      "st_incoming s' = st_incoming s1" "r = Inr () \<longrightarrow> synced = set ds" by auto
    have vd: "view s1 e = (if e = d then stored_bytes s d else view s e)" for e
      using v(3) Inr by (simp add: stored_bytes_def)
    show ?thesis
      using q st(1,2) vd by (intro exI [of _ "insert d synced"]) auto
  qed
qed

lemma eachS_disk_same:
  "eachS (\<lambda>_. disk what (\<lambda>s. s)) xs s = (s', r) \<Longrightarrow> \<exists>fs. s' = s\<lparr>st_faults := fs\<rparr>"
proof (induction xs arbitrary: s)
  case Nil
  then have "s' = s\<lparr>st_faults := st_faults s\<rparr>" by (simp add: retS_def)
  then show ?case by blast
next
  case (Cons x xs)
  obtain s1 t where d: "disk what (\<lambda>s. s) s = (s1, t)" by fastforce
  from disk_cases [OF d] have s1: "s1 = s\<lparr>st_faults := tl (st_faults s)\<rparr>" by blast
  show ?case
  proof (cases t)
    case (Inl e)
    with Cons.prems d s1 show ?thesis by (auto simp: bindS_def)
  next
    case (Inr u)
    with Cons.prems d have "eachS (\<lambda>_. disk what (\<lambda>s. s)) xs s1 = (s', r)" by (simp add: bindS_def)
    from Cons.IH [OF this] s1 show ?thesis by auto
  qed
qed

lemma faults_same [simp]:
  "stored_bytes (s\<lparr>st_faults := fs\<rparr>) = stored_bytes s" "landed_bytes (s\<lparr>st_faults := fs\<rparr>) = landed_bytes s"
  by (simp_all add: stored_bytes_def landed_bytes_def fun_eq_iff)

lemma disk_same: "disk what (\<lambda>s. s) s = (s', r) \<Longrightarrow> \<exists>fs. s' = s\<lparr>st_faults := fs\<rparr>"
  by (drule disk_cases) blast

lemma publish_level_view:
  assumes run: "publish_level i landed lv k s = (s', r)" and dis: "distinct landed"
  shows "\<exists>synced \<subseteq> {d \<in> set landed. map_of lv d = Some k}.
    (\<forall>d. view s' d = (if d \<in> synced then landed_bytes s i d else view s d)) \<and> (\<forall>d \<in> synced. view s d = None) \<and>
    (r = Inr () \<longrightarrow> (\<forall>d \<in> set landed. map_of lv d = Some k \<longrightarrow> d \<in> synced \<or> view s d \<noteq> None) \<and>
       (\<forall>d. map_of lv d \<noteq> Some k \<longrightarrow> landed_bytes s' i d = landed_bytes s i d))"
proof -
  define ds where "ds = filter (\<lambda>d. map_of lv d = Some k) landed"
  obtain s1 t where pr: "publish_renames i [] ds s = (s1, t)" by fastforce
  have dd: "distinct ds" using dis by (simp add: ds_def)
  note pv = publish_renames_view [OF pr _ dd]
  have v1: "view s1 = view s" using pv by simp
  have same: ?thesis if "view s' = view s" "r \<noteq> Inr ()"
    using that by (intro exI [of _ "{}"]) simp
  show ?thesis
  proof (cases t)
    case (Inl e)
    with run pr have "s' = s1" "r = Inl e" by (simp_all add: publish_level_def flip: ds_def)
    then show ?thesis using same v1 by simp
  next
    case (Inr p)
    from pv Inr have q: "distinct p" "set p \<subseteq> set ds" "set p \<subseteq> set (st_unsynced s1)"
      "\<forall>d \<in> set p. stored_bytes s1 d = landed_bytes s i d" "\<forall>d \<in> set ds. d \<in> set p \<or> view s d \<noteq> None"
      "\<forall>d. d \<notin> set p \<longrightarrow> landed_bytes s1 i d = landed_bytes s i d" by auto
    obtain s2 u where fs: "eachS (\<lambda>_. disk ''fsync object directory'' (\<lambda>s. s)) (remdups (map (take 2) p)) s1 = (s2, u)"
      by fastforce
    from eachS_disk_same [OF fs] obtain f2 where s2: "s2 = s1\<lparr>st_faults := f2\<rparr>" by blast
    have back2: "view (unpublish i p s2) = view s" using unpublish_view [of p s2] q(3) v1 s2 by simp
    show ?thesis
    proof (cases u)
      case (Inl e)
      with run pr \<open>t = Inr p\<close> fs have "s' = unpublish i p s2" "r = Inl e" by (simp_all add: publish_level_def flip: ds_def)
      then show ?thesis using same back2 by simp
    next
      case u: (Inr x)
      obtain s3 w where fl: "disk ''flush published objects'' (\<lambda>s. s) s2 = (s3, w)" by fastforce
      from disk_same [OF fl] obtain f3 where s3: "s3 = s1\<lparr>st_faults := f3\<rparr>" using s2 by auto
      have back3: "view (unpublish i p s3) = view s" using unpublish_view [of p s3] q(3) v1 s3 by simp
      show ?thesis
      proof (cases w)
        case (Inl e)
        with run pr \<open>t = Inr p\<close> fs u fl have "s' = unpublish i p s3" "r = Inl e"
          by (simp_all add: publish_level_def flip: ds_def)
        then show ?thesis using same back3 by simp
      next
        case w: (Inr z)
        have ms: "mark_synced p s3 = (s', r)"
          using run pr \<open>t = Inr p\<close> fs u fl w by (simp add: publish_level_def flip: ds_def)
        have "set p \<subseteq> set (st_unsynced s3)" using q(3) s3 by simp
        from mark_synced_view [OF ms q(1) this, unfolded s3 faults_same view_faults v1] obtain synced where y: "synced \<subseteq> set p"
          "\<forall>d. view s' d = (if d \<in> synced then stored_bytes s1 d else view s d)"
          "st_incoming s' = st_incoming s1" "r = Inr () \<longrightarrow> synced = set p" by auto
        have "view s1 d = None" if "d \<in> set p" for d using q(3) that by (auto simp: view_def)
        then have none: "\<forall>d \<in> synced. view s d = None" using y(1) v1 by auto
        have lb: "landed_bytes s' i = landed_bytes s1 i" using landed_staging [OF y(3)] .
        have "\<forall>d. view s' d = (if d \<in> synced then landed_bytes s i d else view s d)" using y(1,2) q(4) by auto
        moreover have "synced \<subseteq> {d \<in> set landed. map_of lv d = Some k}" using y(1) q(2) by (auto simp: ds_def)
        moreover have "\<forall>d. map_of lv d \<noteq> Some k \<longrightarrow> landed_bytes s' i d = landed_bytes s i d"
          using lb q(2,6) by (auto simp: ds_def)
        moreover have "r = Inr () \<longrightarrow> (\<forall>d \<in> set landed. map_of lv d = Some k \<longrightarrow> d \<in> synced \<or> view s d \<noteq> None)"
          using y(4) q(5) by (auto simp: ds_def)
        ultimately show ?thesis using none by blast
      qed
    qed
  qed
qed

text \<open>Between two levels: the view grew from \<open>v0\<close> by landed bytes and is closed, the levels below
  \<open>k\<close> are in view, and the others are still where they landed.\<close>

definition level_inv :: "(digest \<Rightarrow> bytes option) \<Rightarrow> store \<Rightarrow> digest \<Rightarrow> digest list \<Rightarrow> (digest \<times> int) list \<Rightarrow> nat \<Rightarrow> store \<Rightarrow> bool" where
  "level_inv v0 s1 i landed lv k s \<longleftrightarrow>
     closed_view (view s) \<and> added v0 (view s) {b. \<exists>d. landed_bytes s1 i d = Some b} \<and>
     (\<forall>d \<in> set landed. \<forall>l. map_of lv d = Some l \<longrightarrow> l < int k \<longrightarrow> view s d \<noteq> None) \<and>
     (\<forall>d l. map_of lv d = Some l \<longrightarrow> int k \<le> l \<longrightarrow> landed_bytes s i d = landed_bytes s1 i d)"

lemma level_inv_step:
  assumes inv: "level_inv v0 s1 i landed lv k s" and run: "publish_level i landed lv (int k) s = (s', r)"
    and dis: "distinct landed" and keys: "fst ` set lv = set landed"
    and placed: "\<And>d b. landed_bytes s1 i d = Some b \<Longrightarrow> placed v0 lv d b"
    and all: "\<And>d. d \<in> set landed \<Longrightarrow> landed_bytes s1 i d \<noteq> None"
  shows "closed_view (view s') \<and> added v0 (view s') {b. \<exists>d. landed_bytes s1 i d = Some b}"
    and "r = Inr () \<Longrightarrow> level_inv v0 s1 i landed lv (Suc k) s'"
proof -
  let ?B = "{b. \<exists>d. landed_bytes s1 i d = Some b}"
  from publish_level_view [OF run dis] obtain synced where q: "synced \<subseteq> {d \<in> set landed. map_of lv d = Some (int k)}"
    "\<forall>d. view s' d = (if d \<in> synced then landed_bytes s i d else view s d)" "\<forall>d \<in> synced. view s d = None"
    "r = Inr () \<longrightarrow> (\<forall>d \<in> set landed. map_of lv d = Some (int k) \<longrightarrow> d \<in> synced \<or> view s d \<noteq> None) \<and>
       (\<forall>d. map_of lv d \<noteq> Some (int k) \<longrightarrow> landed_bytes s' i d = landed_bytes s i d)" by blast
  let ?B1 = "{b. \<exists>d \<in> synced. landed_bytes s1 i d = Some b}"
  have lb: "landed_bytes s i d = landed_bytes s1 i d" if "d \<in> synced" for d
    using that q(1) inv by (auto simp: level_inv_def)
  have dig: "digest_sum b = d" if "landed_bytes s1 i d = Some b" for d b
    using placed [OF that] by (simp add: placed_def)
  have step: "added (view s) (view s') ?B1"
    unfolding added_def
  proof
    fix d
    show "view s' d = view s d \<or> view s d = None \<and> (\<exists>b \<in> ?B1. d = digest_sum b \<and> view s' d = Some b)"
    proof (cases "d \<in> synced")
      case True
      then obtain b where "landed_bytes s1 i d = Some b" using all q(1) by blast
      moreover have "view s' d = landed_bytes s1 i d" "view s d = None" using q(2,3) lb True by simp_all
      ultimately show ?thesis using True dig by fastforce
    next
      case False
      then show ?thesis using q(2) by simp
    qed
  qed
  have old: "closed_view (view s)" "added v0 (view s) ?B" using inv by (simp_all add: level_inv_def)
  have whole: "added v0 (view s') ?B" using added_trans [OF old(2) step] by (rule added_mono) auto
  have closed: "closed_view (view s')"
  proof (rule added_closed [OF old(1) step])
    fix b m c
    assume "b \<in> ?B1" and m: "decode_manifest b = Inr m" "c \<in> set (children m)"
    then obtain d where d: "d \<in> synced" "landed_bytes s1 i d = Some b" by blast
    have "map_of lv d = Some (int k)" using d(1) q(1) by blast
    with placed [OF d(2)] m consider "v0 c \<noteq> None" | l where "map_of lv c = Some l" "l < int k"
      by (auto simp: placed_def)
    then show "view s' c \<noteq> None"
    proof cases
      case 1
      then show ?thesis using added_dom [OF whole] by metis
    next
      case 2
      then have "c \<in> set landed" using keys by (metis map_of_SomeD fst_conv image_eqI)
      then have "view s c \<noteq> None" using 2 inv by (simp add: level_inv_def)
      then show ?thesis using added_dom [OF step] by metis
    qed
  qed
  show "closed_view (view s') \<and> added v0 (view s') ?B" using closed whole by simp
  assume ok: "r = Inr ()"
  have below: "view s' d \<noteq> None" if d: "d \<in> set landed" "map_of lv d = Some l" "l < int (Suc k)" for d l
  proof (cases "d \<in> synced")
    case True
    then show ?thesis using q(2) lb all d(1) by simp
  next
    case False
    with d ok q(4) inv have "view s d \<noteq> None" by (cases "l = int k") (auto simp: level_inv_def)
    then show ?thesis using q(2) False by simp
  qed
  have above: "landed_bytes s' i d = landed_bytes s1 i d" if "map_of lv d = Some l" "int (Suc k) \<le> l" for d l
    using q(4) ok that inv by (auto simp: level_inv_def)
  show "level_inv v0 s1 i landed lv (Suc k) s'"
    unfolding level_inv_def using closed whole below above by blast
qed

lemma eachS_upt:
  assumes "eachS f (map int [a..<a + n]) s = (s', r)" and "P a s"
    and "\<And>k s s' r. P k s \<Longrightarrow> f (int k) s = (s', r) \<Longrightarrow> Q s' \<and> (r = Inr () \<longrightarrow> P (Suc k) s')"
    and "\<And>k s. P k s \<Longrightarrow> Q s"
  shows "Q s' \<and> (r = Inr () \<longrightarrow> P (a + n) s')"
  using assms(1,2)
proof (induction n arbitrary: a s)
  case 0
  then show ?case using assms(4) by (auto simp: retS_def)
next
  case (Suc n)
  obtain s1 t where f: "f (int a) s = (s1, t)" by fastforce
  note st = assms(3) [OF Suc.prems(2) f]
  have l: "[a..<a + Suc n] = a # [Suc a..<Suc a + n]" by (simp add: upt_conv_Cons)
  show ?case
  proof (cases t)
    case (Inl e)
    with Suc.prems(1) f have "s' = s1" "r = Inl e" unfolding l by (simp_all add: bindS_def)
    with st show ?thesis by simp
  next
    case (Inr u)
    with Suc.prems(1) f have "eachS f (map int [Suc a..<Suc a + n]) s1 = (s', r)"
      unfolding l by (simp add: bindS_def)
    from Suc.IH [OF this] st Inr show ?thesis by simp
  qed
qed

lemma level_height_ge: "(d, l) \<in> set lv \<Longrightarrow> l \<le> level_height lv"
proof -
  have mono: "h \<le> fold (\<lambda>(d, l) h. max h l) xs h" for h and xs :: "(digest \<times> int) list"
  proof (induction xs arbitrary: h)
    case (Cons p xs)
    have "h \<le> max h (snd p)" by simp
    also have "\<dots> \<le> fold (\<lambda>(d, l) h. max h l) xs (max h (snd p))" by (rule Cons)
    finally show ?case by (simp add: case_prod_unfold)
  qed simp
  have "(d, l) \<in> set xs \<Longrightarrow> l \<le> fold (\<lambda>(d, l) h. max h l) xs h" for h and xs :: "(digest \<times> int) list"
    by (induction xs arbitrary: h) (auto intro: order_trans [OF max.cobounded2 mono])
  then show "(d, l) \<in> set lv \<Longrightarrow> l \<le> level_height lv" by (simp add: level_height_def)
qed

lemma publish_landed_view:
  assumes run: "publish_landed i (ld_landed l) (ld_levels l) (ld_store l) = (s', r)"
    and inv: "land_inv s0 i xs l" and closed: "closed_view (view s0)"
  shows "closed_view (view s') \<and> added (view s0) (view s') (snd ` set xs)"
    and "r = Inr () \<Longrightarrow> \<forall>xd \<in> set xs. view s' (o_digest (fst xd)) \<noteq> None"
proof -
  let ?s1 = "ld_store l" and ?B = "{b. \<exists>d. landed_bytes (ld_store l) i d = Some b}"
  have B: "?B \<subseteq> snd ` set xs" using inv by (force simp: land_inv_def)
  have v1: "view ?s1 = view s0" using inv by (simp add: land_inv_def)
  have "closed_view (view s') \<and> added (view s0) (view s') ?B \<and>
    (r = Inr () \<longrightarrow> (\<forall>d \<in> set (ld_landed l). view s' d \<noteq> None))"
  proof (cases "ld_landed l = []")
    case True
    with run have "s' = ?s1" by (simp add: publish_landed_def retS_def)
    with v1 closed True show ?thesis by simp
  next
    case False
    obtain s2 t where d: "disk ''flush landed objects'' (\<lambda>s. s) ?s1 = (s2, t)" by fastforce
    from disk_same [OF d] obtain fs where s2: "s2 = ?s1\<lparr>st_faults := fs\<rparr>" by blast
    show ?thesis
    proof (cases t)
      case (Inl e)
      with run False d have "s' = s2" "r = Inl e" by (simp_all add: publish_landed_def bindS_def)
      with v1 closed s2 show ?thesis by simp
    next
      case (Inr u)
      let ?n = "nat (level_height (ld_levels l)) + 1"
      have each: "eachS (publish_level i (ld_landed l) (ld_levels l)) (map int [0..<0 + ?n]) s2 = (s', r)"
        using run False d Inr by (simp add: publish_landed_def bindS_def)
      have nonneg: "0 \<le> k" if d: "map_of (ld_levels l) d = Some k" for d k
      proof -
        have "d \<in> set (ld_landed l)" using inv d by (metis land_inv_def map_of_SomeD fst_conv image_eqI)
        then obtain b where "landed_bytes ?s1 i d = Some b"
          using inv unfolding land_inv_def by (metis option.exhaust)
        then have "placed (view s0) (ld_levels l) d b" using inv by (simp add: land_inv_def)
        with d show ?thesis by (auto simp: placed_def)
      qed
      have start: "level_inv (view s0) ?s1 i (ld_landed l) (ld_levels l) 0 s2"
        using closed v1 s2 nonneg by (fastforce simp: level_inv_def)
      have "(closed_view (view s') \<and> added (view s0) (view s') ?B) \<and>
        (r = Inr () \<longrightarrow> level_inv (view s0) ?s1 i (ld_landed l) (ld_levels l) (0 + ?n) s')"
      proof (rule eachS_upt [where P = "level_inv (view s0) ?s1 i (ld_landed l) (ld_levels l)"
            and Q = "\<lambda>s'. closed_view (view s') \<and> added (view s0) (view s') ?B", OF each start])
        fix k s s' r
        assume "level_inv (view s0) ?s1 i (ld_landed l) (ld_levels l) k s"
          "publish_level i (ld_landed l) (ld_levels l) (int k) s = (s', r)"
        from level_inv_step [OF this] inv
        show "(closed_view (view s') \<and> added (view s0) (view s') ?B) \<and>
          (r = Inr () \<longrightarrow> level_inv (view s0) ?s1 i (ld_landed l) (ld_levels l) (Suc k) s')"
          by (simp add: land_inv_def)
      next
        fix k s
        assume "level_inv (view s0) ?s1 i (ld_landed l) (ld_levels l) k s"
        then show "closed_view (view s) \<and> added (view s0) (view s) ?B" by (simp add: level_inv_def)
      qed
      moreover have "view s' d \<noteq> None"
        if "level_inv (view s0) ?s1 i (ld_landed l) (ld_levels l) (0 + ?n) s'" "d \<in> set (ld_landed l)" for d
      proof -
        from inv that(2) obtain k where k: "map_of (ld_levels l) d = Some k"
          by (metis land_inv_def map_of_eq_None_iff option.exhaust)
        have "k \<le> level_height (ld_levels l)" by (rule level_height_ge [OF map_of_SomeD [OF k]])
        then have "k < int (0 + ?n)" by simp
        with that k show ?thesis unfolding level_inv_def by blast
      qed
      ultimately show ?thesis by blast
    qed
  qed
  note res = this
  show "closed_view (view s') \<and> added (view s0) (view s') (snd ` set xs)"
    using res added_mono [OF _ B] by blast
  assume "r = Inr ()"
  with res have a: "added (view s0) (view s') ?B" "\<forall>d \<in> set (ld_landed l). view s' d \<noteq> None" by simp_all
  show "\<forall>xd \<in> set xs. view s' (o_digest (fst xd)) \<noteq> None"
  proof
    fix xd
    assume "xd \<in> set xs"
    with inv have "view s0 (o_digest (fst xd)) \<noteq> None \<or> o_digest (fst xd) \<in> set (ld_landed l)"
      by (simp add: land_inv_def)
    then show "view s' (o_digest (fst xd)) \<noteq> None" using a added_dom [OF a(1)] by metis
  qed
qed

subsection \<open>The whole commit\<close>

lemma recommit_objects_view: "recommit_objects i cancelled xs s = (s', r) \<Longrightarrow> view s' = view s"
proof (induction i cancelled xs s rule: recommit_objects.induct)
  case (1 i cancelled s)
  then show ?case by simp
next
  case (2 i cancelled x xs s)
  show ?case
  proof (cases "cancelled \<or> map_of (st_objects s) (o_digest x) = None")
    case True
    then show ?thesis using 2(2)
      by (auto simp: view_def fun_eq_iff disk_def Let_def split: fault.splits if_splits)
  next
    case False
    then obtain f where f: "\<not> cancelled" "map_of (st_objects s) (o_digest x) = Some f" by auto
    obtain s1 t where d: "disk ''touch object'' (\<lambda>s. s\<lparr>st_objects :=
        AList.map_entry (o_digest x) (\<lambda>f. f\<lparr>f_mtime := st_now s\<rparr>) (st_objects s)\<rparr>) s = (s1, t)" by fastforce
    have v: "view s1 = view s" using disk_cases [OF d] by (auto simp: view_def fun_eq_iff)
    show ?thesis
    proof (cases t)
      case (Inl e)
      with 2(2) f d v show ?thesis by simp
    next
      case (Inr u)
      with 2(2) f d have "recommit_objects i cancelled xs s1 = (s', r)" by simp
      with 2(1) [OF _ _ d [symmetric] Inr] f v show ?thesis by auto
    qed
  qed
qed

lemma recommit_view: "recommit cancelled i s = (s', r) \<Longrightarrow> view s' = view s"
  by (auto simp: recommit_def retS_def split: option.splits elim!: bindS_cases dest!: recommit_objects_view)

lemma finish_commit_view:
  assumes "finish_commit i d l = (s', r)" and "land_inv s0 i xs l" and "closed_view (view s0)"
  shows "closed_view (view s') \<and> added (view s0) (view s') (snd ` set xs)"
    and "is_ok r \<Longrightarrow> \<forall>xd \<in> set xs. view s' (o_digest (fst xd)) \<noteq> None"
proof -
  obtain s1 t where p: "publish_landed i (ld_landed l) (ld_levels l) (ld_store l) = (s1, t)" by fastforce
  have "view s' = view s1" using assms(1) p
    by (auto simp: finish_commit_def retS_def view_def fun_eq_iff bindS_def split: prod.splits sum.splits dest!: disk_cases)
  moreover have "t = Inr ()" if "is_ok r" using assms(1) p that by (cases t) (auto simp: finish_commit_def bindS_def)
  ultimately show "closed_view (view s') \<and> added (view s0) (view s') (snd ` set xs)"
    and "is_ok r \<Longrightarrow> \<forall>xd \<in> set xs. view s' (o_digest (fst xd)) \<noteq> None"
    using publish_landed_view [OF p assms(2,3)] by simp_all
qed

lemma commit_staged_view:
  assumes run: "commit_staged decompress cancelled i g s = (s', r)" and g: "map_of (st_incoming s) i = Some g"
    and closed: "closed_view (view s)"
    and opaque: "blobs_opaque (handed (staged_stream decompress g) (sg_descriptor g))"
  shows "closed_view (view s') \<and> added (view s) (view s') (snd ` set (handed (staged_stream decompress g) (sg_descriptor g)))"
    and "is_ok r \<Longrightarrow> \<forall>x \<in> set (b_objects (sg_descriptor g)). view s' (o_digest x) \<noteq> None"
proof -
  let ?d = "sg_descriptor g" and ?st = "staged_stream decompress g"
  let ?xs = "handed ?st ?d"
  have "closed_view (view s') \<and> added (view s) (view s') (snd ` set ?xs) \<and>
    (is_ok r \<longrightarrow> (\<forall>x \<in> set (b_objects ?d). view s' (o_digest x) \<noteq> None))"
  proof (cases "length (held_parts g (length (b_parts ?d))) \<noteq> length (b_parts ?d) \<or>
      (\<exists>e. snd (scan_pack cancelled ?st ?d (check_callback s) []) = Inl e)")
    case True
    with run have "s' = s" "\<not> is_ok r" by (auto simp: commit_staged_def Let_def split: if_splits sum.splits)
    with closed show ?thesis by simp
  next
    case False
    then have n: "length (held_parts g (length (b_parts ?d))) = length (b_parts ?d)"
      and ok: "snd (scan_pack cancelled ?st ?d (check_callback s) []) = Inr ()"
      by (auto, metis old.unit.exhaust sum.exhaust)
    note sp = scan_pack_handed [OF ok]
    have order: "checked_order s ?xs" using check_scan [OF sp(2) _ opaque] handed_intact by blast
    obtain s1 t where c: "disk ''clear landing'' (with_staging i (\<lambda>g. g\<lparr>sg_landing := []\<rparr>)) s = (s1, t)" by fastforce
    have v1: "view s1 = view s" using disk_cases [OF c] by auto
    show ?thesis
    proof (cases t)
      case (Inl e)
      with run n ok c have "s' = s1" "r = Inl e" by (simp_all add: commit_staged_def Let_def bindS_def)
      with v1 closed show ?thesis by simp
    next
      case t: (Inr u)
      obtain s2 w where k: "disk ''create landing'' (\<lambda>s. s) s1 = (s2, w)" by fastforce
      from disk_same [OF k] obtain fs where s2: "s2 = s1\<lparr>st_faults := fs\<rparr>" by blast
      show ?thesis
      proof (cases w)
        case (Inl e)
        with run n ok c t k have "s' = s2" "r = Inl e" by (simp_all add: commit_staged_def Let_def bindS_def)
        with v1 s2 closed show ?thesis by simp
      next
        case w: (Inr z)
        define l0 where "l0 = \<lparr>ld_store = s2, ld_report = \<lparr>cr_stored = 0, cr_present = 0, cr_bytes = 0\<rparr>,
          ld_levels = [], ld_landed = []\<rparr>"
        have "landed_bytes s1 i = Map.empty" using disk_Inr [OF c [unfolded t]] g
          by (simp add: landed_bytes_def with_staging_def AList.map_of_map_entry fun_eq_iff)
        then have inv: "land_inv s i [] l0" using v1 s2 by (simp add: land_inv_def l0_def)
        obtain l q where land: "deliver (land_callback i) ?xs l0 = (l, q)" by fastforce
        from run n ok c t k w have fin: "(case q of Inl e \<Rightarrow> (ld_store l, Inl e) | Inr _ \<Rightarrow> finish_commit i ?d l) = (s', r)"
          by (simp add: commit_staged_def Let_def bindS_def sp(3) land flip: l0_def)
        note ls = land_scan [OF land inv]
        show ?thesis
        proof (cases q)
          case (Inl e)
          with fin have "s' = ld_store l" "r = Inl e" by simp_all
          with ls order closed show ?thesis by simp
        next
          case (Inr y)
          with fin have f: "finish_commit i ?d l = (s', r)" by simp
          have "land_inv s i ?xs l" using ls order Inr by simp
          note fc = finish_commit_view [OF f this closed]
          show ?thesis
          proof (intro conjI impI ballI)
            show "closed_view (view s')" "added (view s) (view s') (snd ` set ?xs)" using fc(1) by simp_all
            fix x
            assume "is_ok r" and x: "x \<in> set (b_objects ?d)"
            then have "x \<in> fst ` set ?xs" using sp(1) by (metis list.set_map)
            with fc(2) \<open>is_ok r\<close> show "view s' (o_digest x) \<noteq> None" by auto
          qed
        qed
      qed
    qed
  qed
  then show "closed_view (view s') \<and> added (view s) (view s') (snd ` set ?xs)"
    and "is_ok r \<Longrightarrow> \<forall>x \<in> set (b_objects ?d). view s' (o_digest x) \<noteq> None" by simp_all
qed

lemma commit_batch_view:
  assumes run: "commit_batch decompress cancelled i s = (s', r)" and closed: "closed_view (view s)"
    and opaque: "\<And>g. map_of (st_incoming s) i = Some g \<Longrightarrow>
      blobs_opaque (handed (staged_stream decompress g) (sg_descriptor g))"
  shows "closed_view (view s')" and "view s d \<noteq> None \<Longrightarrow> view s' d = view s d"
    and "is_ok r \<Longrightarrow> map_of (st_incoming s) i = Some g \<Longrightarrow> x \<in> set (b_objects (sg_descriptor g)) \<Longrightarrow>
      view s' (o_digest x) \<noteq> None"
proof -
  from run consider "s' = s" "\<not> is_ok r" | "map_of (st_incoming s) i = None" "recommit cancelled i s = (s', r)"
    | g where "map_of (st_incoming s) i = Some g" "commit_staged decompress cancelled i g s = (s', r)"
    by (auto simp: commit_batch_def liftS_bind split: sum.splits option.splits)
  then have "closed_view (view s') \<and> (view s d \<noteq> None \<longrightarrow> view s' d = view s d) \<and>
    (is_ok r \<longrightarrow> map_of (st_incoming s) i = Some g \<longrightarrow> x \<in> set (b_objects (sg_descriptor g)) \<longrightarrow>
      view s' (o_digest x) \<noteq> None)"
  proof cases
    case 1
    with closed show ?thesis by simp
  next
    case 2
    with recommit_view [OF 2(2)] closed show ?thesis by simp
  next
    case (3 h)
    note c = commit_staged_view [OF 3(2,1) closed opaque [OF 3(1)]]
    from c(1) have "view s d \<noteq> None \<longrightarrow> view s' d = view s d" using added_dom by blast
    with c 3(1) show ?thesis by simp
  qed
  then show "closed_view (view s')" and "view s d \<noteq> None \<Longrightarrow> view s' d = view s d"
    and "is_ok r \<Longrightarrow> map_of (st_incoming s) i = Some g \<Longrightarrow> x \<in> set (b_objects (sg_descriptor g)) \<Longrightarrow>
      view s' (o_digest x) \<noteq> None" by simp_all
qed

subsection \<open>Properties\<close>

definition staged_store :: store where
  "staged_store = (empty_store [])\<lparr>st_incoming := [(digest_sum ''a'', new_staging one_descriptor [] 1)]\<rparr>"

definition staged_decoder :: "bytes \<Rightarrow> stream" where
  "staged_decoder b = (one_stream, None)"

lemma one_scan: "scan_pack False (one_stream, None) one_descriptor f st = deliver f [one_object] st"
  by (rule scan_pack_pack [OF _ _ _ one_stream]) (simp_all add: one_intact one_descriptor_def)

lemma one_handed: "handed (one_stream, None) one_descriptor = [one_object]"
proof -
  define f :: "object_entry \<Rightarrow> bytes \<Rightarrow> bytes list \<Rightarrow> bytes list \<times> unit res" where
    "f = (\<lambda>x data st. (data # st, Inr ()))"
  have run: "scan_pack False (one_stream, None) one_descriptor f [] = ([''a''], Inr ())"
    unfolding one_scan by (simp add: f_def one_object_def)
  then have "snd (scan_pack False (one_stream, None) one_descriptor f []) = Inr ()" by simp
  note h = scan_pack_handed [OF this]
  from h(1) obtain b where b: "handed (one_stream, None) one_descriptor = [(fst one_object, b)]"
    by (auto simp: one_descriptor_def)
  have "deliver f [(fst one_object, b)] [] = ([''a''], Inr ())" using h(3) [of f "[]"] run b by simp
  then show ?thesis using b by (simp add: f_def one_object_def)
qed

lemma staged_opaque:
  assumes "map_of (st_incoming staged_store) (digest_sum ''a'') = Some g"
  shows "blobs_opaque (handed (staged_stream staged_decoder g) (sg_descriptor g))"
  using assms decode_a
  by (auto simp: staged_store_def staged_stream_def staged_decoder_def new_staging_def one_handed
      blobs_opaque_def one_object_def)

lemma staged_closed: "closed_view (view staged_store)"
  by (simp add: closed_view_def view_def staged_store_def empty_store_def)



text \<open>When a commit of a staged batch reports success, every object of the batch is in view.\<close>

theorem commit_shows_all:
  assumes "commit_batch decompress cancelled i s = (s', Inr report)" and "closed_view (view s)"
    and "map_of (st_incoming s) i = Some g" and "blobs_opaque (handed (staged_stream decompress g) (sg_descriptor g))"
    and "x \<in> set (b_objects (sg_descriptor g))"
  shows "view s' (o_digest x) \<noteq> None"
  using commit_batch_view(3) [OF assms(1,2) _ _ assms(3,5)] assms(3,4) by simp

lemma one_descriptor_sel [simp]: "b_parts one_descriptor = []" "b_objects one_descriptor = [fst one_object]"
  by (simp_all add: one_descriptor_def)

lemma staged_commit_ok: "is_ok (snd (commit_batch staged_decoder False (digest_sum ''a'') staged_store))"
  by (simp add: commit_batch_def liftS_def bindS_def staged_store_def commit_staged_def Let_def
      new_staging_def held_parts_def staged_stream_def staged_decoder_def one_scan one_object_def
      check_callback_def disk_fine empty_store_def with_staging_def land_callback_def touch_def present_def
      stat_object_def landing_level_def land_def finish_commit_def publish_landed_def level_height_def
      publish_level_def mark_unsynced_def rename_in_def landed_bytes_def mark_synced_def remove_mark_def retS_def)

theorem commit_shows_all_witness:
  "view (fst (commit_batch staged_decoder False (digest_sum ''a'') staged_store)) (digest_sum ''a'') \<noteq> None"
proof -
  let ?run = "commit_batch staged_decoder False (digest_sum ''a'') staged_store"
  obtain rep where "snd ?run = Inr rep" using staged_commit_ok by (cases "snd ?run") auto
  then have run: "?run = (fst ?run, Inr rep)" by (metis prod.collapse)
  have g: "map_of (st_incoming staged_store) (digest_sum ''a'') = Some (new_staging one_descriptor [] 1)"
    by (simp add: staged_store_def)
  have "fst one_object \<in> set (b_objects (sg_descriptor (new_staging one_descriptor [] 1)))"
    by (simp add: new_staging_def one_descriptor_def)
  from commit_shows_all [OF run staged_closed g staged_opaque [OF g] this] show ?thesis
    by (simp add: one_object_def)
qed

end
