(* ===== verification/Net_Policy.thy ===== *)
theory Net_Policy
  imports Go_Json
begin

text \<open>
  The network policy (\<^verbatim>\<open>src/netpolicy\<close>): the cost state of an endpoint and the verdict over a pair
  (\<^verbatim>\<open>netpolicy.go\<close>), the operator's persisted setting and its reader (\<^verbatim>\<open>manual.go\<close>), the monitor
  with its restricted epoch (\<^verbatim>\<open>monitor.go\<close>), and the gate of a transfer loop (\<^verbatim>\<open>gate.go\<close>).

  The setting's directory is a value the reader looks at; the operating system's path updates and
  the reader's turns are events. \<^verbatim>\<open>changed\<close>, the channel that is closed and replaced at every
  change, is the count of its replacements. The mutex makes each event atomic.
\<close>

subsection \<open>States and verdicts\<close>

definition StatusUnknown :: string where "StatusUnknown = ''unknown''"
definition StatusDisconnected :: string where "StatusDisconnected = ''disconnected''"
definition StatusConnected :: string where "StatusConnected = ''connected''"

record net_state =
  ns_status :: string
  ns_expensive :: bool
  ns_constrained :: bool
  ns_cellular :: bool
  ns_manual_metered :: bool
  ns_observed_at :: gotime
  ns_restricted_epoch :: u64

definition blocker :: "net_state \<Rightarrow> string" where
  "blocker s =
     (if ns_status s = StatusDisconnected then ''disconnected''
      else if ns_status s \<noteq> StatusConnected then ''unknown''
      else if ns_cellular s then ''cellular''
      else if ns_expensive s then ''expensive''
      else if ns_constrained s then ''constrained''
      else if ns_manual_metered s then ''manual metered''
      else [])"

definition unrestricted :: "net_state \<Rightarrow> bool" where
  "unrestricted s \<longleftrightarrow> blocker s = []"

record verdict =
  vd_allowed :: bool
  vd_reason :: string

definition evaluate :: "net_state \<Rightarrow> net_state \<Rightarrow> verdict" where
  "evaluate here there =
     (if blocker here \<noteq> [] then \<lparr>vd_allowed = False, vd_reason = ''local: '' @ blocker here\<rparr>
      else if blocker there \<noteq> [] then \<lparr>vd_allowed = False, vd_reason = ''remote: '' @ blocker there\<rparr>
      else \<lparr>vd_allowed = True, vd_reason = []\<rparr>)"

subsection \<open>The operator's setting\<close>

text \<open>
  The directory of the setting: the override file with its inode and modification time, the
  edit mark beside it, and which calls fail for another reason than absence.
\<close>

record setting_file =
  sf_inode :: nat
  sf_mtime :: gotime
  sf_data :: bytes

record setting_dir =
  sd_file :: "setting_file option"
  sd_mark :: "bytes option"
  sd_stat_fails :: bool
  sd_read_fails :: bool
  sd_mark_fails :: bool

definition fold_ascii :: "char \<Rightarrow> char" where
  "fold_ascii c = (if 65 \<le> (of_char c :: nat) \<and> (of_char c :: nat) \<le> 90 then char_of ((of_char c :: nat) + 32) else c)"

text \<open>\<^verbatim>\<open>json.Unmarshal\<close> into \<^verbatim>\<open>Manual\<close>: unknown keys are skipped, a key matches its field in any case.\<close>

fun set_metered :: "(string \<times> json) list \<Rightarrow> bool \<Rightarrow> bool option" where
  "set_metered [] m = Some m"
| "set_metered ((k, j) # kvs) m =
     (if map fold_ascii k \<noteq> ''metered'' then set_metered kvs m
      else case j of
        JBool b \<Rightarrow> set_metered kvs b
      | JNull \<Rightarrow> set_metered kvs m
      | _ \<Rightarrow> None)"

definition decode_manual :: "bytes \<Rightarrow> bool option" where
  "decode_manual b = (case unmarshal b of
     Some (JObj kvs) \<Rightarrow> set_metered kvs False
   | Some JNull \<Rightarrow> Some False
   | _ \<Rightarrow> None)"

definition load_manual :: "setting_dir \<Rightarrow> bool res" where
  "load_manual w =
     (if sd_stat_fails w \<or> sd_read_fails w then Inl (ErrIO ''read manual network setting'')
      else case sd_file w of
        None \<Rightarrow> Inr False
      | Some f \<Rightarrow> (case decode_manual (sf_data f) of
          None \<Rightarrow> Inl (ErrMsg ''decode manual network setting'')
        | Some m \<Rightarrow> Inr m))"

definition encode_manual :: "bool \<Rightarrow> bytes" where
  "encode_manual m = render (JObj [(''metered'', JBool m)]) @ [CHR 10]"

text \<open>The two durable writes of \<^verbatim>\<open>SaveManual\<close>: the override under a new inode, then the mark.\<close>

definition save_file :: "nat \<Rightarrow> gotime \<Rightarrow> bool \<Rightarrow> setting_dir \<Rightarrow> setting_dir" where
  "save_file inode t m w = w\<lparr>sd_file := Some \<lparr>sf_inode = inode, sf_mtime = t, sf_data = encode_manual m\<rparr>\<rparr>"

definition save_mark :: "bytes \<Rightarrow> setting_dir \<Rightarrow> setting_dir" where
  "save_mark token w = w\<lparr>sd_mark := Some (token @ [CHR 10])\<rparr>"

definition save_manual :: "nat \<Rightarrow> gotime \<Rightarrow> bytes \<Rightarrow> bool \<Rightarrow> setting_dir \<Rightarrow> setting_dir" where
  "save_manual inode t token m w = save_mark token (save_file inode t m w)"

datatype file_stamp = StampAbsent | StampUnreadable | StampInfo nat int gotime

definition stat_stamp :: "setting_dir \<Rightarrow> file_stamp" where
  "stat_stamp w =
     (if sd_stat_fails w then StampUnreadable
      else case sd_file w of
        None \<Rightarrow> StampAbsent
      | Some f \<Rightarrow> StampInfo (sf_inode f) (int (length (sf_data f))) (sf_mtime f))"

record edit_mark =
  em_token :: bytes
  em_unreadable :: bool

definition read_edit_mark :: "setting_dir \<Rightarrow> edit_mark" where
  "read_edit_mark w =
     (if sd_mark_fails w then \<lparr>em_token = [], em_unreadable = True\<rparr>
      else \<lparr>em_token = (case sd_mark w of None \<Rightarrow> [] | Some t \<Rightarrow> t), em_unreadable = False\<rparr>)"

record manual_source =
  ms_stamp :: file_stamp
  ms_mark :: edit_mark
  ms_loaded :: bool
  ms_value :: bool

definition new_manual_source :: manual_source where
  "new_manual_source = \<lparr>ms_stamp = StampAbsent, ms_mark = \<lparr>em_token = [], em_unreadable = False\<rparr>,
     ms_loaded = False, ms_value = False\<rparr>"

text \<open>What \<^verbatim>\<open>refresh\<close> compares: the stamp, and the mark when the file is absent.\<close>

definition seen_setting :: "setting_dir \<Rightarrow> file_stamp \<times> edit_mark" where
  "seen_setting w =
     (stat_stamp w, if stat_stamp w = StampAbsent then read_edit_mark w
      else \<lparr>em_token = [], em_unreadable = False\<rparr>)"

definition refresh :: "setting_dir \<Rightarrow> manual_source \<Rightarrow> manual_source \<times> bool" where
  "refresh w s =
     (let (stamp, mark) = seen_setting w in
      if ms_loaded s \<and> stamp = ms_stamp s \<and> mark = ms_mark s then (s, False)
      else let failed = (stamp = StampUnreadable \<or> stamp = StampAbsent \<and> em_unreadable mark) in
        (s\<lparr>ms_stamp := stamp, ms_mark := mark, ms_loaded := True,
           ms_value := (if failed then True else case load_manual w of Inl _ \<Rightarrow> True | Inr m \<Rightarrow> m)\<rparr>,
         True))"

subsection \<open>The monitor\<close>

record observed =
  ob_manual :: manual_source
  ob_path :: net_state
  ob_epoch :: u64
  ob_changed :: nat

definition state_locked :: "observed \<Rightarrow> net_state" where
  "state_locked o' = (ob_path o')\<lparr>ns_manual_metered := ms_value (ob_manual o'), ns_restricted_epoch := ob_epoch o'\<rparr>"

definition notify_locked :: "observed \<Rightarrow> observed" where
  "notify_locked o' = o'\<lparr>ob_changed := ob_changed o' + 1\<rparr>"

definition publish_path :: "net_state \<Rightarrow> observed \<Rightarrow> observed" where
  "publish_path p o' =
     (let o1 = o'\<lparr>ob_path := p\<rparr>;
          o2 = (if unrestricted (state_locked o1) then o1 else o1\<lparr>ob_epoch := ob_epoch o1 + 1\<rparr>)
      in notify_locked o2)"

definition refresh_manual :: "setting_dir \<Rightarrow> observed \<Rightarrow> observed" where
  "refresh_manual w o' =
     (let was_metered = ms_value (ob_manual o'); (m, changed) = refresh w (ob_manual o');
          o1 = o'\<lparr>ob_manual := m\<rparr> in
      if \<not> changed then o1
      else notify_locked (if ms_value m \<or> \<not> was_metered then o1\<lparr>ob_epoch := ob_epoch o1 + 1\<rparr> else o1))"

definition monitor_current :: "setting_dir \<Rightarrow> observed \<Rightarrow> observed \<times> net_state" where
  "monitor_current w o' = (refresh_manual w o', state_locked (refresh_manual w o'))"

definition unknown_path :: net_state where
  "unknown_path = \<lparr>ns_status = StatusUnknown, ns_expensive = False, ns_constrained = False,
     ns_cellular = False, ns_manual_metered = False, ns_observed_at = 0, ns_restricted_epoch = 0\<rparr>"

definition new_observed :: "setting_dir \<Rightarrow> observed" where
  "new_observed w = \<lparr>ob_manual = fst (refresh w new_manual_source), ob_path = unknown_path,
     ob_epoch = 0, ob_changed = 0\<rparr>"

subsection \<open>The gate\<close>

definition restrictedMidTransfer :: string where
  "restrictedMidTransfer = ''local: restricted mid-transfer''"

definition gate_check :: "bool \<Rightarrow> net_state \<Rightarrow> net_state \<Rightarrow> net_state \<Rightarrow> unit res" where
  "gate_check cancelled here admitted remote =
     (if cancelled then Inl ErrCtx
      else if unrestricted here \<and> ns_restricted_epoch here \<noteq> ns_restricted_epoch admitted then
        Inl (ErrPaused restrictedMidTransfer)
      else let v = evaluate here remote in
        if \<not> vd_allowed v then Inl (ErrPaused (vd_reason v)) else Inr ())"

text \<open>One turn of \<^verbatim>\<open>Wait\<close>: the local state, what the remote call returned, and whether the
  select then ended because the context was done. \<open>None\<close>: still waiting.\<close>

record wait_turn =
  wt_local :: net_state
  wt_remote :: "net_state res"
  wt_done :: bool

fun gate_wait :: "wait_turn list \<Rightarrow> (net_state \<times> net_state) res option" where
  "gate_wait [] = None"
| "gate_wait (t # ts) =
     (case wt_remote t of
        Inl e \<Rightarrow> Some (Inl e)
      | Inr peer \<Rightarrow>
          if vd_allowed (evaluate (wt_local t) peer) then Some (Inr (wt_local t, peer))
          else if wt_done t then Some (Inl ErrCtx)
          else gate_wait ts)"

subsection \<open>Runs of the monitor\<close>

text \<open>What happens to a monitor: a path update of the operating system, or a reread of the setting
  (by \<^verbatim>\<open>Current\<close>, the watcher or the sweep) that finds the directory as given.\<close>

datatype mon_event = PathUpdate net_state | Reread setting_dir

fun mon_step :: "mon_event \<Rightarrow> observed \<Rightarrow> observed" where
  "mon_step (PathUpdate p) o' = publish_path p o'"
| "mon_step (Reread w) o' = refresh_manual w o'"

fun mon_run :: "mon_event list \<Rightarrow> observed \<Rightarrow> observed" where
  "mon_run [] o' = o'"
| "mon_run (e # es) o' = mon_run es (mon_step e o')"

lemma mon_run_append [simp]: "mon_run (xs @ ys) o' = mon_run ys (mon_run xs o')"
  by (induction xs arbitrary: o') simp_all

lemma unrestricted_iff: "unrestricted s \<longleftrightarrow> ns_status s = StatusConnected \<and> \<not> ns_cellular s \<and>
   \<not> ns_expensive s \<and> \<not> ns_constrained s \<and> \<not> ns_manual_metered s"
  by (simp add: unrestricted_def blocker_def StatusDisconnected_def StatusConnected_def)

lemma unrestricted_epoch [simp]: "unrestricted (s\<lparr>ns_restricted_epoch := e\<rparr>) = unrestricted s"
  by (simp add: unrestricted_iff)

lemma state_locked_fields [simp]:
  "ns_restricted_epoch (state_locked o') = ob_epoch o'"
  "ns_manual_metered (state_locked o') = ms_value (ob_manual o')"
  by (simp_all add: state_locked_def)

lemma evaluate_allowed: "vd_allowed (evaluate a b) \<longleftrightarrow> unrestricted a \<and> unrestricted b"
  by (simp add: evaluate_def unrestricted_def)

lemma refresh_same: "refresh w m = (m', False) \<Longrightarrow> m' = m"
  by (auto simp: refresh_def Let_def split: prod.splits if_splits)

text \<open>Whether an event advances the epoch, and the epoch as a count of those that do.\<close>

definition ticks :: "mon_event \<Rightarrow> observed \<Rightarrow> nat" where
  "ticks e o' = (case e of
     PathUpdate p \<Rightarrow> if unrestricted (state_locked (o'\<lparr>ob_path := p\<rparr>)) then 0 else 1
   | Reread w \<Rightarrow> if snd (refresh w (ob_manual o')) \<and>
       (ms_value (fst (refresh w (ob_manual o'))) \<or> \<not> ms_value (ob_manual o')) then 1 else 0)"

fun total_ticks :: "mon_event list \<Rightarrow> observed \<Rightarrow> nat" where
  "total_ticks [] o' = 0"
| "total_ticks (e # es) o' = ticks e o' + total_ticks es (mon_step e o')"

lemma step_epoch: "ob_epoch (mon_step e o') = ob_epoch o' + of_nat (ticks e o')"
  by (cases e) (auto simp: publish_path_def refresh_manual_def notify_locked_def ticks_def Let_def split: prod.split)

lemma run_epoch: "ob_epoch (mon_run es o') = ob_epoch o' + of_nat (total_ticks es o')"
  by (induction es arbitrary: o') (simp_all add: step_epoch)

lemma ticks_le: "ticks e o' \<le> 1"
  by (cases e) (simp_all add: ticks_def)

lemma total_ticks_le: "total_ticks es o' \<le> length es"
proof (induction es arbitrary: o')
  case (Cons e es)
  from Cons [of "mon_step e o'"] ticks_le [of e o'] show ?case by simp
qed simp

lemma total_ticks_append: "total_ticks (xs @ ys) o' = total_ticks xs o' + total_ticks ys (mon_run xs o')"
  by (induction xs arbitrary: o') simp_all

lemma same_epoch_no_ticks:
  assumes "ob_epoch (mon_run es o') = ob_epoch o'" and "length es < 2 ^ 64"
  shows "total_ticks es o' = 0"
proof -
  have "of_nat (total_ticks es o') = (0 :: u64)" using assms(1) by (simp add: run_epoch)
  then have "2 ^ 64 dvd total_ticks es o'" by (simp add: word_of_nat_eq_0_iff)
  with assms(2) total_ticks_le [of es o'] show ?thesis by (auto dest: dvd_imp_le)
qed

lemma step_unrestricted:
  assumes "unrestricted (state_locked o')" and "ticks e o' = 0"
  shows "unrestricted (state_locked (mon_step e o'))"
  using assms
  by (cases e) (auto simp: ticks_def publish_path_def refresh_manual_def notify_locked_def state_locked_def
      unrestricted_iff Let_def split: prod.splits if_splits dest: refresh_same)

lemma run_unrestricted:
  "unrestricted (state_locked o') \<Longrightarrow> total_ticks es o' = 0 \<Longrightarrow> unrestricted (state_locked (mon_run es o'))"
  by (induction es arbitrary: o') (auto intro: step_unrestricted)

subsection \<open>What a reread sees\<close>

text \<open>A monitor whose source holds what it saw when the setting directory was \<open>w\<close>.\<close>

definition holds_reading :: "setting_dir \<Rightarrow> observed \<Rightarrow> bool" where
  "holds_reading w o' \<longleftrightarrow> ms_loaded (ob_manual o') \<and> (ms_stamp (ob_manual o'), ms_mark (ob_manual o')) = seen_setting w"

lemma refresh_holds: "holds_reading w (refresh_manual w o')"
  by (auto simp: holds_reading_def refresh_manual_def refresh_def notify_locked_def Let_def split: prod.splits)

text \<open>Files edited between rereads: the two writes of \<^verbatim>\<open>SaveManual\<close> and removals of the override.\<close>

datatype setting_edit = SaveFile nat gotime bool | SaveMark bytes | RemoveFile

fun edit_setting :: "setting_edit \<Rightarrow> setting_dir \<Rightarrow> setting_dir" where
  "edit_setting (SaveFile inode t m) w = save_file inode t m w"
| "edit_setting (SaveMark token) w = save_mark token w"
| "edit_setting RemoveFile w = w\<lparr>sd_file := None\<rparr>"

text \<open>An edit is fresh against a directory: the clock has moved and the random mark is another.\<close>

fun fresh_edit :: "setting_dir \<Rightarrow> setting_edit \<Rightarrow> bool" where
  "fresh_edit w (SaveFile inode t m) \<longleftrightarrow> (case sd_file w of None \<Rightarrow> True | Some f \<Rightarrow> sf_mtime f \<noteq> t)"
| "fresh_edit w (SaveMark token) \<longleftrightarrow> sd_mark w \<noteq> Some (token @ [CHR 10])"
| "fresh_edit w RemoveFile \<longleftrightarrow> True"

lemma edits_flags:
  "sd_stat_fails (fold edit_setting es w) = sd_stat_fails w \<and> sd_mark_fails (fold edit_setting es w) = sd_mark_fails w"
proof (induction es arbitrary: w)
  case (Cons e es)
  have "sd_stat_fails (edit_setting e w) = sd_stat_fails w" "sd_mark_fails (edit_setting e w) = sd_mark_fails w"
    by (cases e; simp add: save_file_def save_mark_def)+
  with Cons show ?case by simp
qed simp

text \<open>After some saves the override is a fresh one or gone, and the mark is a fresh one.\<close>

lemma edits_file:
  assumes "\<forall>e \<in> set es. fresh_edit w e" and "sd_file v = None \<or> (\<exists>f. sd_file v = Some f \<and> (\<forall>g. sd_file w = Some g \<longrightarrow> sf_mtime g \<noteq> sf_mtime f))"
  shows "sd_file (fold edit_setting es v) = None \<or>
    (\<exists>f. sd_file (fold edit_setting es v) = Some f \<and> (\<forall>g. sd_file w = Some g \<longrightarrow> sf_mtime g \<noteq> sf_mtime f))"
  using assms
proof (induction es arbitrary: v)
  case (Cons e es)
  have "sd_file (edit_setting e v) = None \<or>
    (\<exists>f. sd_file (edit_setting e v) = Some f \<and> (\<forall>g. sd_file w = Some g \<longrightarrow> sf_mtime g \<noteq> sf_mtime f))"
    using Cons.prems by (cases e) (auto simp: save_file_def save_mark_def split: option.splits)
  with Cons show ?case by simp
qed simp

lemma edits_mark:
  assumes "\<forall>e \<in> set es. fresh_edit w e" and "sd_mark v \<noteq> sd_mark w" "sd_mark v \<noteq> None"
  shows "sd_mark (fold edit_setting es v) \<noteq> sd_mark w \<and> sd_mark (fold edit_setting es v) \<noteq> None \<and>
    (sd_mark v \<noteq> Some [] \<longrightarrow> sd_mark (fold edit_setting es v) \<noteq> Some [])"
  using assms
proof (induction es arbitrary: v)
  case (Cons e es)
  have "sd_mark (edit_setting e v) \<noteq> sd_mark w \<and> sd_mark (edit_setting e v) \<noteq> None \<and>
    (sd_mark v \<noteq> Some [] \<longrightarrow> sd_mark (edit_setting e v) \<noteq> Some [])"
    using Cons.prems by (cases e) (auto simp: save_file_def save_mark_def)
  with Cons.IH [of "edit_setting e v"] Cons.prems(1) show ?case by auto
qed simp

lemma save_seen:
  assumes es: "es = xs @ SaveFile inode t m # ys @ SaveMark token # zs" and fresh: "\<forall>e \<in> set es. fresh_edit w e"
    and ok: "\<not> sd_stat_fails w" "\<not> sd_mark_fails w"
  shows "seen_setting (fold edit_setting es w) \<noteq> seen_setting w"
proof -
  let ?v = "fold edit_setting es w"
  let ?v1 = "edit_setting (SaveFile inode t m) (fold edit_setting xs w)"
  let ?v2 = "edit_setting (SaveMark token) (fold edit_setting ys ?v1)"
  have v: "?v = fold edit_setting (ys @ SaveMark token # zs) ?v1" "?v = fold edit_setting zs ?v2"
    unfolding es by simp_all
  have gone: "sd_file ?v = None \<or> (\<exists>f. sd_file ?v = Some f \<and> (\<forall>g. sd_file w = Some g \<longrightarrow> sf_mtime g \<noteq> sf_mtime f))"
    unfolding v(1) using fresh es by (intro edits_file) (auto simp: save_file_def split: option.splits)
  have mark: "sd_mark ?v \<noteq> sd_mark w" "sd_mark ?v \<noteq> None" "sd_mark ?v \<noteq> Some []"
    using edits_mark [of zs w ?v2] fresh es unfolding v(2) by (auto simp: save_mark_def)
  show ?thesis
  proof (cases "sd_file ?v")
    case None
    then show ?thesis using mark ok edits_flags [of es w]
      by (auto simp: seen_setting_def stat_stamp_def read_edit_mark_def split: option.splits)
  next
    case (Some f)
    then show ?thesis using gone ok edits_flags [of es w]
      by (auto simp: seen_setting_def stat_stamp_def split: option.splits if_splits)
  qed
qed

subsection \<open>Edits and the monitor together\<close>

datatype sys_event = Edit setting_edit | PathEvent net_state | RereadEvent

fun sys_run :: "sys_event list \<Rightarrow> setting_dir \<times> observed \<Rightarrow> setting_dir \<times> observed" where
  "sys_run [] s = s"
| "sys_run (Edit e # es) (w, o') = sys_run es (edit_setting e w, o')"
| "sys_run (PathEvent p # es) (w, o') = sys_run es (w, publish_path p o')"
| "sys_run (RereadEvent # es) (w, o') = sys_run es (w, refresh_manual w o')"

fun edits_of :: "sys_event list \<Rightarrow> setting_edit list" where
  "edits_of [] = []"
| "edits_of (Edit e # es) = e # edits_of es"
| "edits_of (PathEvent p # es) = edits_of es"
| "edits_of (RereadEvent # es) = edits_of es"

fun mon_events :: "sys_event list \<Rightarrow> setting_dir \<Rightarrow> mon_event list" where
  "mon_events [] w = []"
| "mon_events (Edit e # es) w = mon_events es (edit_setting e w)"
| "mon_events (PathEvent p # es) w = PathUpdate p # mon_events es w"
| "mon_events (RereadEvent # es) w = Reread w # mon_events es w"

lemma sys_run_split: "sys_run es (w, o') = (fold edit_setting (edits_of es) w, mon_run (mon_events es w) o')"
  by (induction es "(w, o')" arbitrary: w o' rule: sys_run.induct) simp_all

lemma mon_events_length: "length (mon_events es w) \<le> length es"
  by (induction es w rule: mon_events.induct) simp_all

text \<open>While the epoch stands still over an unmetered source, the source does not change.\<close>

lemma no_ticks_manual:
  "total_ticks es o' = 0 \<Longrightarrow> \<not> ms_value (ob_manual o') \<Longrightarrow> ob_manual (mon_run es o') = ob_manual o'"
proof (induction es arbitrary: o')
  case (Cons e es)
  have "ob_manual (mon_step e o') = ob_manual o'"
  proof (cases e)
    case (PathUpdate p)
    then show ?thesis by (simp add: publish_path_def notify_locked_def Let_def)
  next
    case (Reread w)
    obtain m c where r: "refresh w (ob_manual o') = (m, c)" by fastforce
    from Cons.prems Reread r have "\<not> c" by (auto simp: ticks_def split: if_splits)
    with Reread r refresh_same show ?thesis by (simp add: refresh_manual_def)
  qed
  with Cons show ?case by simp
qed simp

lemma save_detected:
  assumes held: "holds_reading w o'" and free: "unrestricted (state_locked o')"
    and ed: "edits_of es = xs @ SaveFile inode t m # ys @ SaveMark token # zs"
    and fresh: "\<forall>e \<in> set (edits_of es). fresh_edit w e" and ok: "\<not> sd_stat_fails w" "\<not> sd_mark_fails w"
    and run: "sys_run es (w, o') = (w1, o1)" and len: "length es + 1 < 2 ^ 64"
  shows "ob_epoch (refresh_manual w1 o1) \<noteq> ob_epoch o'"
proof
  let ?ms = "mon_events es w @ [Reread w1]"
  assume "ob_epoch (refresh_manual w1 o1) = ob_epoch o'"
  moreover have o1: "o1 = mon_run (mon_events es w) o'" and w1: "w1 = fold edit_setting (edits_of es) w"
    using run by (simp_all add: sys_run_split)
  ultimately have "ob_epoch (mon_run ?ms o') = ob_epoch o'" by simp
  moreover have "length ?ms < 2 ^ 64" using len mon_events_length [of es w] by simp
  ultimately have t: "total_ticks ?ms o' = 0" by (rule same_epoch_no_ticks)
  have unmetered: "\<not> ms_value (ob_manual o')" using free by (simp add: unrestricted_iff)
  have "ob_manual o1 = ob_manual o'"
    using no_ticks_manual [of "mon_events es w"] t unmetered o1 by (simp add: total_ticks_append)
  moreover have "ob_manual (refresh_manual w1 o1) = ob_manual o'"
    using no_ticks_manual [OF t unmetered] o1 by simp
  ultimately have "seen_setting w1 = seen_setting w"
    using refresh_holds [of w1 o1] held by (simp add: holds_reading_def)
  with save_seen [OF ed fresh ok] w1 show False by simp
qed

subsection \<open>Properties\<close>

definition clean_dir :: setting_dir where
  "clean_dir = \<lparr>sd_file = None, sd_mark = None, sd_stat_fails = False, sd_read_fails = False, sd_mark_fails = False\<rparr>"

definition wifi :: net_state where
  "wifi = unknown_path\<lparr>ns_status := StatusConnected\<rparr>"

definition on_wifi :: observed where
  "on_wifi = publish_path wifi (new_observed clean_dir)"

lemmas net_defs = on_wifi_def wifi_def unknown_path_def new_observed_def clean_dir_def publish_path_def
  notify_locked_def state_locked_def unrestricted_iff refresh_def seen_setting_def stat_stamp_def
  read_edit_mark_def new_manual_source_def load_manual_def StatusConnected_def StatusUnknown_def Let_def

lemma on_wifi_facts: "unrestricted (state_locked on_wifi)" "holds_reading clean_dir on_wifi"
  by (simp_all add: net_defs holds_reading_def)

text \<open>When a monitor's state has the restricted epoch of an earlier unrestricted one, the
  monitor observed no restriction in between, as long as fewer than \<open>2\<^sup>6\<^sup>4\<close> events happened.\<close>

theorem epoch_detects_restriction:
  assumes "unrestricted (state_locked o')" and "length es < 2 ^ 64"
    and "ns_restricted_epoch (state_locked (mon_run es o')) = ns_restricted_epoch (state_locked o')"
  shows "unrestricted (state_locked (mon_run (take n es) o'))"
proof -
  have "total_ticks es o' = 0" using assms same_epoch_no_ticks by simp
  then have "total_ticks (take n es) o' = 0"
    using total_ticks_append [of "take n es" "drop n es" o'] by simp
  with assms(1) show ?thesis by (rule run_unrestricted)
qed

theorem epoch_detects_restriction_witness:
  "unrestricted (state_locked (mon_run (take 1 [PathUpdate wifi, Reread clean_dir]) on_wifi))"
  by (rule epoch_detects_restriction [OF on_wifi_facts(1)]) (simp_all add: net_defs refresh_manual_def)

text \<open>A save of the operator's setting between two reads of an unrestricted monitor always
  changes the epoch, even when the setting is removed again before the second read, as long as
  the clock and the random mark of each edit are not those the first read found.\<close>

theorem save_never_missed:
  assumes "holds_reading w o'" and "unrestricted (state_locked o')"
    and "edits_of es = xs @ SaveFile inode t m # ys @ SaveMark token # zs"
    and "\<forall>e \<in> set (edits_of es). fresh_edit w e" and "\<not> sd_stat_fails w" "\<not> sd_mark_fails w"
    and "sys_run es (w, o') = (w1, o1)" and "length es + 1 < 2 ^ 64"
  shows "ns_restricted_epoch (snd (monitor_current w1 o1)) \<noteq> ns_restricted_epoch (state_locked o')"
  using save_detected [OF assms] by (simp add: monitor_current_def)

theorem save_never_missed_witness:
  "ns_restricted_epoch (snd (monitor_current (clean_dir\<lparr>sd_mark := Some (''t'' @ [CHR 10])\<rparr>) on_wifi)) \<noteq>
     ns_restricted_epoch (state_locked on_wifi)"
  by (rule save_never_missed [OF on_wifi_facts(2,1), of
        "[Edit (SaveFile 1 2 False), Edit (SaveMark ''t''), Edit RemoveFile]" "[]" 1 2 False "[]" "''t''" "[RemoveFile]"])
    (simp_all add: clean_dir_def save_file_def save_mark_def)

text \<open>When the gate lets a chunk pass, both ends are unrestricted and this host's monitor has
  observed no restriction at any point since the state that admitted the transfer.\<close>

theorem gate_check_safe:
  assumes "gate_check cancelled (state_locked (mon_run es o')) (state_locked o') remote = Inr ()"
    and "unrestricted (state_locked o')" and "length es < 2 ^ 64"
  shows "unrestricted remote \<and> unrestricted (state_locked (mon_run (take n es) o'))"
proof -
  from assms(1) have r: "unrestricted (state_locked (mon_run es o'))" "unrestricted remote"
    "ob_epoch (mon_run es o') = ob_epoch o'"
    by (auto simp: gate_check_def Let_def evaluate_allowed split: if_splits)
  have "total_ticks es o' = 0" by (rule same_epoch_no_ticks [OF r(3) assms(3)])
  then have "total_ticks (take n es) o' = 0"
    using total_ticks_append [of "take n es" "drop n es" o'] by simp
  with assms(2) r(2) show ?thesis using run_unrestricted by blast
qed

theorem gate_check_safe_witness: "unrestricted wifi \<and> unrestricted (state_locked (mon_run (take 0 [PathUpdate wifi]) on_wifi))"
  by (rule gate_check_safe [of False "[PathUpdate wifi]" on_wifi wifi])
    (simp_all add: net_defs gate_check_def evaluate_def blocker_def StatusDisconnected_def)

text \<open>The wait ends with a pair of states only when both are unrestricted, and it ends at the
  first turn whose states allow the transfer, unless a remote call failed or the context was done
  before that.\<close>

theorem gate_wait_admits:
  "gate_wait ts = Some (Inr (here, peer)) \<longleftrightarrow>
     (\<exists>us t vs. ts = us @ t # vs \<and> wt_local t = here \<and> wt_remote t = Inr peer \<and>
        unrestricted here \<and> unrestricted peer \<and>
        (\<forall>u \<in> set us. \<not> wt_done u \<and> (\<exists>p. wt_remote u = Inr p \<and> \<not> (unrestricted (wt_local u) \<and> unrestricted p))))"
    (is "_ \<longleftrightarrow> ?admits ts")
proof (induction ts)
  case Nil
  show ?case by simp
next
  case (Cons t ts)
  show ?case
  proof
    assume "gate_wait (t # ts) = Some (Inr (here, peer))"
    then consider "wt_local t = here" "wt_remote t = Inr peer" "unrestricted here" "unrestricted peer"
      | p where "wt_remote t = Inr p" "\<not> (unrestricted (wt_local t) \<and> unrestricted p)" "\<not> wt_done t"
          "gate_wait ts = Some (Inr (here, peer))"
      by (auto simp: evaluate_allowed split: sum.splits if_splits)
    then show "?admits (t # ts)"
    proof cases
      case 1
      then show ?thesis by (intro exI [of _ "[]"]) simp
    next
      case 2
      with Cons.IH obtain us u vs where "ts = us @ u # vs" "wt_local u = here" "wt_remote u = Inr peer"
        "unrestricted here" "unrestricted peer"
        "\<forall>u \<in> set us. \<not> wt_done u \<and> (\<exists>p. wt_remote u = Inr p \<and> \<not> (unrestricted (wt_local u) \<and> unrestricted p))"
        by blast
      with 2 show ?thesis by (intro exI [of _ "t # us"]) auto
    qed
  next
    assume "?admits (t # ts)"
    then obtain us u vs where a: "t # ts = us @ u # vs" "wt_local u = here" "wt_remote u = Inr peer"
      "unrestricted here" "unrestricted peer"
      "\<forall>u \<in> set us. \<not> wt_done u \<and> (\<exists>p. wt_remote u = Inr p \<and> \<not> (unrestricted (wt_local u) \<and> unrestricted p))"
      by blast
    show "gate_wait (t # ts) = Some (Inr (here, peer))"
    proof (cases us)
      case Nil
      with a show ?thesis by (simp add: evaluate_allowed)
    next
      case (Cons x xs)
      with a have "?admits ts" by (intro exI [of _ xs]) auto
      with Cons.IH have "gate_wait ts = Some (Inr (here, peer))" by blast
      with a Cons show ?thesis by (auto simp: evaluate_allowed)
    qed
  qed
qed

theorem gate_wait_admits_witness:
  "gate_wait [\<lparr>wt_local = wifi, wt_remote = Inr wifi, wt_done = False\<rparr>] = Some (Inr (wifi, wifi))"
  unfolding gate_wait_admits
  by (intro exI [of _ "[]"] exI [of _ "\<lparr>wt_local = wifi, wt_remote = Inr wifi, wt_done = False\<rparr>"])
    (simp add: wifi_def unknown_path_def unrestricted_iff)

end
