(* ===== verification/Artifact_Rpc.thy ===== *)
theory Artifact_Rpc
  imports Artifact_Commit Artifact_Gc Net_Policy
begin

text \<open>
  The artifact methods a consumer serves (\<^verbatim>\<open>src/artifact/wire.go\<close>, \<^verbatim>\<open>src/artifact/register.go\<close>): the
  receiver's typed refusal of bulk calls, the handlers and the closure pages. A handler is a
  function of the monitor's live state, the request and the store. A bulk request is what the
  decoding of its params gave: the admitted epoch, the sender's state, and the typed params, each
  with its own error, as the handlers decode them one after the other. \<^verbatim>\<open>validate\<close> is the params'
  \<^verbatim>\<open>Validate\<close> method.
\<close>

subsection \<open>Refusals\<close>

datatype pause_code =
    PauseReceiverDisconnected | PauseReceiverUnknown | PauseReceiverCellular | PauseReceiverExpensive
  | PauseReceiverConstrained | PauseReceiverManualMetered | PauseReceiverRestrictedMidTransfer
  | PauseSenderDisconnected | PauseSenderUnknown | PauseSenderCellular | PauseSenderExpensive
  | PauseSenderConstrained | PauseSenderManualMetered

definition pauseCodes :: "(string \<times> pause_code) list" where
  "pauseCodes =
    [(''local: disconnected'', PauseReceiverDisconnected),
     (''local: unknown'', PauseReceiverUnknown),
     (''local: cellular'', PauseReceiverCellular),
     (''local: expensive'', PauseReceiverExpensive),
     (''local: constrained'', PauseReceiverConstrained),
     (''local: manual metered'', PauseReceiverManualMetered),
     (restrictedMidTransfer, PauseReceiverRestrictedMidTransfer),
     (''remote: disconnected'', PauseSenderDisconnected),
     (''remote: unknown'', PauseSenderUnknown),
     (''remote: cellular'', PauseSenderCellular),
     (''remote: expensive'', PauseSenderExpensive),
     (''remote: constrained'', PauseSenderConstrained),
     (''remote: manual metered'', PauseSenderManualMetered)]"

definition pause_text :: "pause_code \<Rightarrow> string" where
  "pause_text c = (case c of
     PauseReceiverDisconnected \<Rightarrow> ''receiver-disconnected''
   | PauseReceiverUnknown \<Rightarrow> ''receiver-unknown''
   | PauseReceiverCellular \<Rightarrow> ''receiver-cellular''
   | PauseReceiverExpensive \<Rightarrow> ''receiver-expensive''
   | PauseReceiverConstrained \<Rightarrow> ''receiver-constrained''
   | PauseReceiverManualMetered \<Rightarrow> ''receiver-manual-metered''
   | PauseReceiverRestrictedMidTransfer \<Rightarrow> ''receiver-restricted-mid-transfer''
   | PauseSenderDisconnected \<Rightarrow> ''sender-disconnected''
   | PauseSenderUnknown \<Rightarrow> ''sender-unknown''
   | PauseSenderCellular \<Rightarrow> ''sender-cellular''
   | PauseSenderExpensive \<Rightarrow> ''sender-expensive''
   | PauseSenderConstrained \<Rightarrow> ''sender-constrained''
   | PauseSenderManualMetered \<Rightarrow> ''sender-manual-metered'')"

text \<open>\<^verbatim>\<open>PauseCode.Validate\<close> on the text a peer sent.\<close>

definition validate_pause_code :: "string \<Rightarrow> unit res" where
  "validate_pause_code c =
     require (c \<in> pause_text ` set (map snd pauseCodes)) (ErrInvalid ''pause code'')"

record paused_error =
  pe_code :: pause_code
  pe_reason :: string

text \<open>\<^verbatim>\<open>PausedFor\<close> panics on a verdict that is allowed or has an unknown reason.\<close>

definition paused_for :: "verdict \<Rightarrow> paused_error res" where
  "paused_for v = (case map_of pauseCodes (vd_reason v) of
     Some c \<Rightarrow> if vd_allowed v then Inl (GoPanic ''pause code'') else Inr \<lparr>pe_code = c, pe_reason = vd_reason v\<rparr>
   | None \<Rightarrow> Inl (GoPanic ''pause code''))"

record 'p bulk_request =
  rq_admitted :: "u64 res"
  rq_sender :: "net_state res"
  rq_params :: "'p res"

definition refusal :: "net_state \<Rightarrow> 'p bulk_request \<Rightarrow> paused_error option res" where
  "refusal live rq =
     (if \<not> unrestricted live then andthen (paused_for (evaluate live live)) (\<lambda>p. Inr (Some p))
      else andthen (rq_admitted rq) (\<lambda>admitted.
        if admitted \<noteq> ns_restricted_epoch live then
          Inr (Some \<lparr>pe_code = PauseReceiverRestrictedMidTransfer, pe_reason = restrictedMidTransfer\<rparr>)
        else Inr None))"

subsection \<open>Handlers\<close>

text \<open>A handler returns its result, or the refusal in the result's \<^verbatim>\<open>Paused\<close> field.\<close>

datatype 'r reply = Paused paused_error | Served 'r

definition handle :: "('p \<Rightarrow> unit res) \<Rightarrow> ('p \<Rightarrow> 'r step) \<Rightarrow> 'p res \<Rightarrow> 'r step" where
  "handle validate call params =
     bindS (liftS params) (\<lambda>p. bindS (liftS (validate p)) (\<lambda>_. call p))"

text \<open>The calls that move data in: refused by the live state first, \<^verbatim>\<open>batch.begin\<close> and \<^verbatim>\<open>batch.put\<close>
  then by the pair of states.\<close>

definition bulk :: "net_state \<Rightarrow> 'p bulk_request \<Rightarrow> ('p \<Rightarrow> unit res) \<Rightarrow> ('p \<Rightarrow> 'r step) \<Rightarrow> 'r reply step" where
  "bulk live rq validate call =
     bindS (liftS (refusal live rq)) (\<lambda>refused. case refused of
       Some p \<Rightarrow> retS (Paused p)
     | None \<Rightarrow> bindS (handle validate call (rq_params rq)) (\<lambda>r. retS (Served r)))"

definition paired :: "net_state \<Rightarrow> 'p bulk_request \<Rightarrow> ('p \<Rightarrow> unit res) \<Rightarrow> ('p \<Rightarrow> 'r step) \<Rightarrow> 'r reply step" where
  "paired live rq validate call =
     bindS (liftS (refusal live rq)) (\<lambda>refused. case refused of
       Some p \<Rightarrow> retS (Paused p)
     | None \<Rightarrow> bindS (liftS (rq_sender rq)) (\<lambda>sender.
         if \<not> vd_allowed (evaluate live sender) then
           bindS (liftS (paused_for (evaluate live sender))) (\<lambda>p. retS (Paused p))
         else bindS (handle validate call (rq_params rq)) (\<lambda>r. retS (Served r))))"

definition validate_have :: "digest list \<Rightarrow> unit res" where
  "validate_have ds =
     (if int (length ds) > MaxHaveDigests then Inl (ErrInvalid ''digests'') else each validate_digest ds)"

record closure_params =
  cp_roots :: "ref list"
  cp_after :: int
  cp_limit :: int

definition validate_closure_params :: "closure_params \<Rightarrow> unit res" where
  "validate_closure_params p =
     (if cp_roots p = [] then Inl (ErrInvalid ''closure needs a root'')
      else andthen (validate_roots (cp_roots p)) (\<lambda>_.
        require (\<not> (cp_after p < 0 \<or> cp_limit p \<le> 0 \<or> cp_limit p > MaxClosurePage)) (ErrInvalid ''closure page'')))"

record closure_page =
  pg_objects :: "object_entry list"
  pg_next :: int
  pg_done :: bool
  pg_total_objects :: int
  pg_total_bytes :: int

definition page_of :: "closure \<Rightarrow> int \<Rightarrow> int \<Rightarrow> closure_page res" where
  "page_of c after limit =
     (let n = int (length (cl_objects c)) in
      if after > n then Inl (ErrInvalid ''closure page past the end'')
      else let end' = min (after + limit) n in
        Inr \<lparr>pg_objects = take (nat (end' - after)) (drop (nat after) (cl_objects c)), pg_next = end',
          pg_done = (end' = n), pg_total_objects = n, pg_total_bytes = cl_bytes c\<rparr>)"

definition closure_page_call :: "bool \<Rightarrow> closure_params \<Rightarrow> closure_page step" where
  "closure_page_call cancelled p =
     bindS (store_closure cancelled (cp_roots p) DefaultClosureBound) (\<lambda>c.
       liftS (page_of c (cp_after p) (cp_limit p)))"

definition serve_net_status :: "net_state \<Rightarrow> net_state step" where
  "serve_net_status live = retS live"

definition serve_closure :: "bool \<Rightarrow> closure_params res \<Rightarrow> closure_page step" where
  "serve_closure cancelled = handle validate_closure_params (closure_page_call cancelled)"

definition serve_have :: "bool \<Rightarrow> net_state \<Rightarrow> digest list bulk_request \<Rightarrow> digest list reply step" where
  "serve_have cancelled live rq =
     bulk live rq validate_have (\<lambda>ds s. (s, has_objects s cancelled ds))"

definition serve_batch_build :: "(bytes \<Rightarrow> bytes) \<Rightarrow> bool \<Rightarrow> object_entry list res \<Rightarrow> batch_descriptor step" where
  "serve_batch_build compress cancelled = handle validate_batch_build (build_batch compress cancelled)"

definition serve_batch_read :: "bool \<Rightarrow> (digest \<times> int) res \<Rightarrow> bytes step" where
  "serve_batch_read cancelled = handle (\<lambda>(i, index). validate_batch_read i index)
     (\<lambda>(i, index) s. (s, read_part s cancelled i index))"

definition serve_batch_drop :: "bool \<Rightarrow> digest res \<Rightarrow> unit step" where
  "serve_batch_drop cancelled = handle validate_digest (drop_batch cancelled)"

definition serve_batch_begin :: "bool \<Rightarrow> net_state \<Rightarrow> batch_descriptor bulk_request \<Rightarrow> nat list reply step" where
  "serve_batch_begin cancelled live rq = paired live rq validate_descriptor (begin_batch cancelled)"

definition serve_batch_put :: "bool \<Rightarrow> net_state \<Rightarrow> (digest \<times> int \<times> bytes) bulk_request \<Rightarrow> unit reply step" where
  "serve_batch_put cancelled live rq =
     paired live rq (\<lambda>(i, index, data). validate_batch_put i index data)
       (\<lambda>(i, index, data). put_part cancelled i index data)"

definition serve_batch_commit :: "(bytes \<Rightarrow> stream) \<Rightarrow> bool \<Rightarrow> net_state \<Rightarrow> digest bulk_request \<Rightarrow> commit_report reply step" where
  "serve_batch_commit decompress cancelled live rq =
     bulk live rq validate_digest (commit_batch decompress cancelled)"

definition serve_pins_set :: "bool \<Rightarrow> (string \<times> ref list) res \<Rightarrow> unit step" where
  "serve_pins_set cancelled = handle (\<lambda>(owner, roots). validate_pins_set owner roots)
     (\<lambda>(owner, roots). set_pins cancelled owner roots)"

subsection \<open>What a refusal decides\<close>

lemma blocker_cases: "blocker s \<in> set [[], ''disconnected'', ''unknown'', ''cellular'', ''expensive'', ''constrained'', ''manual metered'']"
  by (simp add: blocker_def)

lemma paused_for_blocked:
  assumes "\<not> vd_allowed (evaluate a b)"
  shows "\<exists>c. paused_for (evaluate a b) = Inr \<lparr>pe_code = c, pe_reason = vd_reason (evaluate a b)\<rparr>"
  using assms blocker_cases [of a] blocker_cases [of b]
  by (auto simp: evaluate_def paused_for_def pauseCodes_def restrictedMidTransfer_def split: if_splits)

lemma refusal_None: "refusal live rq = Inr None \<longleftrightarrow>
   unrestricted live \<and> rq_admitted rq = Inr (ns_restricted_epoch live)"
  by (auto simp: refusal_def andthen_Inr_iff)

lemma refusal_blocked:
  assumes "\<not> unrestricted live"
  shows "\<exists>p. refusal live rq = Inr (Some p)"
  using assms paused_for_blocked [of live live] by (auto simp: refusal_def evaluate_allowed)

lemma retS_Inr [simp]: "retS x s = (s', r) \<longleftrightarrow> s' = s \<and> r = Inr x"
  by (auto simp: retS_def)

lemma bulk_admitted:
  assumes "bulk live rq validate call s = (s', r)" and "s' \<noteq> s \<or> (\<exists>x. r = Inr (Served x))"
  shows "unrestricted live \<and> rq_admitted rq = Inr (ns_restricted_epoch live)"
  using assms refusal_None [of live rq]
  by (auto simp: bulk_def liftS_bind split: sum.splits option.splits)

lemma paired_admitted:
  assumes "paired live rq validate call s = (s', r)" and "s' \<noteq> s \<or> (\<exists>x. r = Inr (Served x))"
  shows "unrestricted live \<and> rq_admitted rq = Inr (ns_restricted_epoch live) \<and>
    (\<exists>sender. rq_sender rq = Inr sender \<and> unrestricted sender)"
  using assms refusal_None [of live rq]
  by (auto simp: paired_def liftS_bind evaluate_allowed split: sum.splits option.splits if_splits)

subsection \<open>A server's run\<close>

text \<open>The requests a store serves, each with the monitor's live state when it is served.\<close>

datatype request =
    ReqClosure "closure_params res"
  | ReqHave net_state "digest list bulk_request"
  | ReqBuild "object_entry list res"
  | ReqRead "(digest \<times> int) res"
  | ReqDrop "digest res"
  | ReqBegin net_state "batch_descriptor bulk_request"
  | ReqPut net_state "(digest \<times> int \<times> bytes) bulk_request"
  | ReqCommit net_state "digest bulk_request"
  | ReqPins "(string \<times> ref list) res"

fun serve :: "(bytes \<Rightarrow> bytes) \<Rightarrow> (bytes \<Rightarrow> stream) \<Rightarrow> request \<Rightarrow> store \<Rightarrow> store" where
  "serve compress decompress (ReqClosure p) s = fst (serve_closure False p s)"
| "serve compress decompress (ReqHave live rq) s = fst (serve_have False live rq s)"
| "serve compress decompress (ReqBuild p) s = fst (serve_batch_build compress False p s)"
| "serve compress decompress (ReqRead p) s = fst (serve_batch_read False p s)"
| "serve compress decompress (ReqDrop p) s = fst (serve_batch_drop False p s)"
| "serve compress decompress (ReqBegin live rq) s = fst (serve_batch_begin False live rq s)"
| "serve compress decompress (ReqPut live rq) s = fst (serve_batch_put False live rq s)"
| "serve compress decompress (ReqCommit live rq) s = fst (serve_batch_commit decompress False live rq s)"
| "serve compress decompress (ReqPins p) s = fst (serve_pins_set False p s)"

text \<open>A step that leaves every object and mark as it is.\<close>

definition hidden_step :: "'a step \<Rightarrow> bool" where
  "hidden_step m \<longleftrightarrow> (\<forall>s. view (fst (m s)) = view s)"

lemma hidden_bind: "hidden_step m \<Longrightarrow> (\<And>x. hidden_step (k x)) \<Longrightarrow> hidden_step (bindS m k)"
  unfolding hidden_step_def
proof
  fix s
  assume m: "\<forall>s. view (fst (m s)) = view s" and k: "\<And>x. \<forall>s. view (fst (k x s)) = view s"
  obtain s1 r where e: "m s = (s1, r)" by fastforce
  with m have "view s1 = view s" by (metis fst_conv)
  with e k show "view (fst (bindS m k s)) = view s" by (cases r) (simp_all add: bindS_fst)
qed

lemma hidden_pure [simp]: "hidden_step (retS x)" "hidden_step (failS e)" "hidden_step (liftS r)"
  "hidden_step (\<lambda>s. (s, f s))"
  by (simp_all add: hidden_step_def retS_def failS_def liftS_def)

lemma hidden_disk: "(\<And>s. view (eff s) = view s) \<Longrightarrow> hidden_step (disk what eff)"
  unfolding hidden_step_def by (metis disk_cases prod.collapse view_faults)

lemma hidden_disk_id [simp]: "hidden_step (disk what (\<lambda>s. s))"
  by (rule hidden_disk) simp

lemma hidden_eachS: "(\<And>x. hidden_step (f x)) \<Longrightarrow> hidden_step (eachS f xs)"
  by (induction xs) (auto intro: hidden_bind)

lemma hidden_if: "hidden_step m \<Longrightarrow> hidden_step n \<Longrightarrow> hidden_step (if b then m else n)"
  by simp

lemma view_fields [simp]:
  "view (s\<lparr>st_outbox := a\<rparr>) = view s" "view (s\<lparr>st_incoming := b\<rparr>) = view s"
  "view (s\<lparr>st_committed := c\<rparr>) = view s" "view (s\<lparr>st_pins := p\<rparr>) = view s" "view (s\<lparr>st_memo := m\<rparr>) = view s"
  by (simp_all add: view_def fun_eq_iff)

lemma hidden_handle: "(\<And>p. hidden_step (call p)) \<Longrightarrow> hidden_step (handle validate call params)"
  unfolding handle_def by (intro hidden_bind) simp_all

lemma hidden_bulk: "(\<And>p. hidden_step (call p)) \<Longrightarrow> hidden_step (bulk live rq validate call)"
  unfolding bulk_def by (intro hidden_bind) (auto intro!: hidden_bind hidden_handle split: option.split)

lemma hidden_paired: "(\<And>p. hidden_step (call p)) \<Longrightarrow> hidden_step (paired live rq validate call)"
  unfolding paired_def by (intro hidden_bind) (auto intro!: hidden_bind hidden_handle split: option.split)

lemma hidden_stepD: "hidden_step m \<Longrightarrow> view (fst (m s)) = view s"
  by (simp add: hidden_step_def)

lemma view_disk: "disk what eff s = (s', r) \<Longrightarrow> (\<And>s. view (eff s) = view s) \<Longrightarrow> view s' = view s"
  by (drule disk_cases) auto

lemma view_disk_fst: "(\<And>s. view (eff s) = view s) \<Longrightarrow> view (fst (disk what eff s)) = view s"
  by (rule hidden_stepD [OF hidden_disk])

lemma hidden_publish_incoming: "hidden_step (publish_incoming d)"
  by (auto simp: hidden_step_def publish_incoming_def bindS_def view_disk_fst split: prod.split sum.split dest!: view_disk)

lemma hidden_publish_outbox: "hidden_step (publish_outbox d parts)"
  by (auto simp: hidden_step_def publish_outbox_def bindS_def view_disk_fst split: prod.split sum.split dest!: view_disk)

lemma hidden_begin: "hidden_step (begin_batch cancelled d)"
proof -
  have new: "hidden_step (bindS (disk ''stage batch'' (\<lambda>s. s)) (\<lambda>_. bindS (publish_incoming d) (\<lambda>_. retS [])))"
    by (intro hidden_bind hidden_publish_incoming hidden_pure hidden_disk_id)
  have old: "hidden_step (bindS (disk what eff) (\<lambda>_. retS x))" if "\<And>s. view (eff s) = view s"
    for what eff and x :: "nat list"
    using that by (intro hidden_bind hidden_disk hidden_pure)
  show ?thesis
    unfolding begin_batch_def
  proof (intro hidden_bind hidden_if hidden_pure, unfold hidden_step_def, rule allI, goal_cases)
    case (1 x s)
    then show ?case
      by (auto simp: hidden_stepD [OF new] hidden_stepD [OF old] split: option.split)
  qed
qed

lemma hidden_put: "hidden_step (put_part cancelled i index data)"
  unfolding put_part_def
proof (intro hidden_bind hidden_if hidden_pure, unfold hidden_step_def, rule allI, goal_cases)
  case (1 x s)
  then show ?case
    by (auto simp: Let_def split: option.split prod.split sum.split dest!: view_disk)
qed

lemma hidden_drop: "hidden_step (drop_batch cancelled i)"
  unfolding drop_batch_def by (intro hidden_bind hidden_if hidden_pure hidden_disk) simp

lemma hidden_build: "hidden_step (build_batch compress cancelled objects)"
  unfolding build_batch_def
  by (intro hidden_bind hidden_if hidden_pure hidden_disk_id)
    (auto intro!: hidden_bind hidden_eachS hidden_publish_outbox split: prod.split)

lemma hidden_pins: "hidden_step (set_pins cancelled owner roots)"
  unfolding set_pins_def by (intro hidden_bind hidden_if hidden_pure hidden_disk) simp_all

lemma hidden_closure: "hidden_step (store_closure cancelled roots b)"
  by (auto simp: hidden_step_def store_closure_def Let_def split: sum.split option.split)

lemmas hidden_calls = hidden_begin hidden_put hidden_drop hidden_build hidden_pins hidden_closure

text \<open>Every request but a commit leaves what readers see; a commit is \<^verbatim>\<open>CommitBatch\<close> or nothing.\<close>

lemma serve_hidden:
  assumes "\<And>live rq. q \<noteq> ReqCommit live rq"
  shows "view (serve compress decompress q s) = view s"
proof (cases q)
  case (ReqClosure p)
  have "hidden_step (serve_closure False p)"
    unfolding serve_closure_def closure_page_call_def
    by (intro hidden_handle hidden_bind hidden_closure hidden_pure)
  then show ?thesis using ReqClosure by (simp add: hidden_stepD)
next
  case (ReqHave live rq)
  have "hidden_step (serve_have False live rq)"
    unfolding serve_have_def by (intro hidden_bulk hidden_pure)
  then show ?thesis using ReqHave by (simp add: hidden_stepD)
next
  case (ReqBuild p)
  have "hidden_step (serve_batch_build compress False p)"
    unfolding serve_batch_build_def by (intro hidden_handle hidden_build)
  then show ?thesis using ReqBuild by (simp add: hidden_stepD)
next
  case (ReqRead p)
  have "hidden_step (serve_batch_read False p)"
    unfolding serve_batch_read_def by (intro hidden_handle) (auto split: prod.split)
  then show ?thesis using ReqRead by (simp add: hidden_stepD)
next
  case (ReqDrop p)
  have "hidden_step (serve_batch_drop False p)"
    unfolding serve_batch_drop_def by (intro hidden_handle hidden_drop)
  then show ?thesis using ReqDrop by (simp add: hidden_stepD)
next
  case (ReqBegin live rq)
  have "hidden_step (serve_batch_begin False live rq)"
    unfolding serve_batch_begin_def by (intro hidden_paired hidden_begin)
  then show ?thesis using ReqBegin by (simp add: hidden_stepD)
next
  case (ReqPut live rq)
  have "hidden_step (serve_batch_put False live rq)"
    unfolding serve_batch_put_def by (intro hidden_paired) (auto intro: hidden_put split: prod.split)
  then show ?thesis using ReqPut by (simp add: hidden_stepD)
next
  case (ReqCommit live rq)
  with assms show ?thesis by blast
next
  case (ReqPins p)
  have "hidden_step (serve_pins_set False p)"
    unfolding serve_pins_set_def by (intro hidden_handle) (auto intro: hidden_pins split: prod.split)
  then show ?thesis using ReqPins by (simp add: hidden_stepD)
qed

lemma serve_commit_cases:
  "fst (serve_batch_commit decompress False live rq s) = s \<or>
   (\<exists>i. fst (serve_batch_commit decompress False live rq s) = fst (commit_batch decompress False i s))"
proof (cases "refusal live rq = Inr None")
  case True
  show ?thesis
  proof (cases "rq_params rq")
    case (Inl e)
    with True show ?thesis by (simp add: serve_batch_commit_def bulk_def handle_def bindS_def liftS_def)
  next
    case (Inr i)
    show ?thesis
    proof (cases "validate_digest i")
      case (Inl e)
      with True Inr show ?thesis by (simp add: serve_batch_commit_def bulk_def handle_def bindS_def liftS_def)
    next
      case ok: (Inr u)
      obtain s' r where c: "commit_batch decompress False i s = (s', r)" by fastforce
      with True Inr ok have "fst (serve_batch_commit decompress False live rq s) = s'"
        by (cases r) (simp_all add: serve_batch_commit_def bulk_def handle_def bindS_def liftS_def retS_def)
      with c show ?thesis by (intro disjI2 exI [of _ i]) simp
    qed
  qed
next
  case False
  then show ?thesis
    by (auto simp: serve_batch_commit_def bulk_def bindS_def liftS_def retS_def split: sum.split option.split)
qed

text \<open>No batch staged in the store has a blob whose bytes decode as a manifest.\<close>

definition opaque_batches :: "(bytes \<Rightarrow> stream) \<Rightarrow> store \<Rightarrow> bool" where
  "opaque_batches decompress s \<longleftrightarrow> (\<forall>i g. map_of (st_incoming s) i = Some g \<longrightarrow>
     blobs_opaque (handed (staged_stream decompress g) (sg_descriptor g)))"

lemma serve_keeps:
  assumes "closed_view (view s)" and "opaque_batches decompress s"
  shows "closed_view (view (serve compress decompress q s)) \<and>
    (view s d \<noteq> None \<longrightarrow> view (serve compress decompress q s) d = view s d)"
proof (cases "\<exists>live rq. q = ReqCommit live rq")
  case True
  then obtain live rq where q: "q = ReqCommit live rq" by blast
  from serve_commit_cases [of decompress live rq s] show ?thesis
  proof
    assume "fst (serve_batch_commit decompress False live rq s) = s"
    with assms(1) q show ?thesis by simp
  next
    assume "\<exists>i. fst (serve_batch_commit decompress False live rq s) = fst (commit_batch decompress False i s)"
    then obtain i where i: "fst (serve_batch_commit decompress False live rq s) = fst (commit_batch decompress False i s)"
      by blast
    have run: "commit_batch decompress False i s = (fst (commit_batch decompress False i s), snd (commit_batch decompress False i s))"
      by simp
    note c = commit_batch_view [OF run assms(1)]
    have "blobs_opaque (handed (staged_stream decompress g) (sg_descriptor g))" if "map_of (st_incoming s) i = Some g" for g
      using assms(2) that by (auto simp: opaque_batches_def)
    with c(1,2) i q show ?thesis by simp
  qed
next
  case False
  then have "view (serve compress decompress q s) = view s" by (intro serve_hidden) blast
  with assms(1) show ?thesis by simp
qed

fun serve_all :: "(bytes \<Rightarrow> bytes) \<Rightarrow> (bytes \<Rightarrow> stream) \<Rightarrow> request list \<Rightarrow> store \<Rightarrow> store" where
  "serve_all compress decompress [] s = s"
| "serve_all compress decompress (q # qs) s = serve_all compress decompress qs (serve compress decompress q s)"

lemma serve_all_keeps:
  assumes "closed_view (view s)"
    and "\<And>n. n < length qs \<Longrightarrow> opaque_batches decompress (serve_all compress decompress (take n qs) s)"
  shows "closed_view (view (serve_all compress decompress qs s)) \<and>
    (view s d \<noteq> None \<longrightarrow> view (serve_all compress decompress qs s) d = view s d)"
  using assms
proof (induction qs arbitrary: s)
  case (Cons q qs)
  let ?s = "serve compress decompress q s"
  from Cons.prems(2) [of 0] have o: "opaque_batches decompress s" by simp
  note k = serve_keeps [OF Cons.prems(1) o, where compress = compress and q = q]
  have "opaque_batches decompress (serve_all compress decompress (take n qs) ?s)" if "n < length qs" for n
    using Cons.prems(2) [of "Suc n"] that by simp
  from Cons.IH [OF conjunct1 [OF k [of d]] this] k [of d] show ?case by auto
qed simp

subsection \<open>Closure pages\<close>

lemma page_of_tiles:
  assumes "page_of c after limit = Inr pg" and "0 \<le> after" "0 < limit"
  shows "take (nat after) (cl_objects c) @ pg_objects pg = take (nat (pg_next pg)) (cl_objects c)"
    and "pg_done pg \<longleftrightarrow> pg_next pg = int (length (cl_objects c))"
    and "\<not> pg_done pg \<Longrightarrow> pg_next pg = after + limit" and "int (length (pg_objects pg)) \<le> limit"
    and "after \<le> pg_next pg" "pg_next pg \<le> int (length (cl_objects c))"
proof -
  let ?n = "int (length (cl_objects c))"
  from assms(1) have a: "after \<le> ?n" and pg: "pg_next pg = min (after + limit) ?n" "pg_done pg \<longleftrightarrow> pg_next pg = ?n"
    "pg_objects pg = take (nat (pg_next pg - after)) (drop (nat after) (cl_objects c))"
    by (auto simp: page_of_def Let_def split: if_splits)
  show "pg_done pg \<longleftrightarrow> pg_next pg = ?n" by (rule pg(2))
  show "\<not> pg_done pg \<Longrightarrow> pg_next pg = after + limit" using pg(1,2) by (auto simp: min_def split: if_splits)
  show le: "after \<le> pg_next pg" "pg_next pg \<le> ?n" using pg(1) a assms(3) by auto
  show "int (length (pg_objects pg)) \<le> limit" using pg(1,3) assms(3) by (auto simp: min_def split: if_splits)
  have "nat (pg_next pg) = nat after + nat (pg_next pg - after)" using le assms(2) by simp
  then show "take (nat after) (cl_objects c) @ pg_objects pg = take (nat (pg_next pg)) (cl_objects c)"
    unfolding pg(3) by (simp add: take_add)
qed

subsection \<open>Properties\<close>

text \<open>Every verdict that blocks has a pause code, so the refusal of a blocked pair of states never
  panics and carries the verdict's reason.\<close>

theorem blocked_verdict_has_code:
  assumes "\<not> vd_allowed (evaluate here there)"
  shows "\<exists>c. paused_for (evaluate here there) = Inr \<lparr>pe_code = c, pe_reason = vd_reason (evaluate here there)\<rparr>"
  by (rule paused_for_blocked [OF assms])

theorem blocked_verdict_has_code_witness: "is_ok (paused_for (evaluate wifi unknown_path))"
  using blocked_verdict_has_code [of wifi unknown_path]
  by (auto simp: evaluate_allowed unrestricted_iff unknown_path_def StatusUnknown_def StatusConnected_def)

text \<open>A retried part of a batch that another sender has committed, from an unrestricted sender.\<close>

definition committed_store :: store where
  "committed_store = (empty_store [])\<lparr>st_committed := [(digest_sum ''a'', one_descriptor, 1)]\<rparr>"

definition put_request :: "(digest \<times> int \<times> bytes) bulk_request" where
  "put_request = \<lparr>rq_admitted = Inr (ns_restricted_epoch (state_locked on_wifi)), rq_sender = Inr wifi,
     rq_params = Inr (digest_sum ''a'', 0, ''b'')\<rparr>"



text \<open>Whatever requests a store serves, in any order and under every fault script, every visible
  manifest keeps its children in view and nothing a reader sees is taken away or changed, as long
  as no staged batch declares the bytes of a manifest as a blob.\<close>

theorem serving_keeps_closed:
  assumes "closed_view (view s)"
    and "\<And>n. n < length qs \<Longrightarrow> opaque_batches decompress (serve_all compress decompress (take n qs) s)"
  shows "closed_view (view (serve_all compress decompress qs s)) \<and>
    (view s d \<noteq> None \<longrightarrow> view (serve_all compress decompress qs s) d = view s d)"
  by (rule serve_all_keeps [OF assms])

lemma staged_opaque_batches: "opaque_batches staged_decoder staged_store"
  unfolding opaque_batches_def
proof (intro allI impI)
  fix i g
  assume g: "map_of (st_incoming staged_store) i = Some g"
  then have "i = digest_sum ''a''" by (simp add: staged_store_def split: if_splits)
  with g show "blobs_opaque (handed (staged_stream staged_decoder g) (sg_descriptor g))"
    using staged_opaque by simp
qed

theorem serving_keeps_closed_witness:
  "closed_view (view (serve_all (\<lambda>b. b) staged_decoder
     [ReqCommit wifi \<lparr>rq_admitted = Inr 0, rq_sender = Inr wifi, rq_params = Inr (digest_sum ''a'')\<rparr>] staged_store))"
  by (rule serving_keeps_closed [OF staged_closed, THEN conjunct1]) (simp add: staged_opaque_batches)

end
