(* ===== verification/Sync_Service.thy ===== *)
theory Sync_Service
  imports Artifact_Rpc Artifact_Order
begin

text \<open>
  The sync contract of a consumer (\<^verbatim>\<open>src/syncservice\<close>): service identities, revisions and change
  envelopes, the binding of a change to its deterministic identity, the receiver's fence, and the
  acceptance of a change whose artifact roots must be in the receiver's store. The consumer's own
  apply is an argument that may change the consumer's state.
\<close>

subsection \<open>Identities\<close>

definition LabelPrefix :: string where "LabelPrefix = ''com.github.yasyf.synckit''"

definition name_char :: "char \<Rightarrow> bool" where
  "name_char c \<longleftrightarrow> (let n = of_char c :: nat in (97 \<le> n \<and> n \<le> 122) \<or> (48 \<le> n \<and> n \<le> 57) \<or> n = 45)"

definition validate_name :: "string \<Rightarrow> unit res" where
  "validate_name name =
     (if name = [] \<or> length name > 63 \<or> hd name = CHR ''-'' \<or> last name = CHR ''-'' then
        Inl (ErrMsg ''service name'')
      else require (list_all name_char name) (ErrMsg ''service name''))"

definition helper_label :: "string \<Rightarrow> string res" where
  "helper_label name = andthen (validate_name name) (\<lambda>_. Inr (LabelPrefix @ ''.helper.'' @ name))"

definition stop_role :: string where "stop_role = LabelPrefix @ ''.stop''"

definition exact_digest :: "string \<Rightarrow> bool" where
  "exact_digest v \<longleftrightarrow> length v = 64 \<and> map fold_ascii v = v \<and> hex_decode v \<noteq> None"

definition validate_service_schema :: "string \<Rightarrow> string \<Rightarrow> unit res" where
  "validate_service_schema service fingerprint = andthen (validate_name service) (\<lambda>_.
     require (exact_digest fingerprint) (ErrMsg ''schema fingerprint''))"

subsection \<open>Revisions\<close>

type_synonym revision = string

definition new_revision :: "nat \<Rightarrow> revision" where
  "new_revision v = dec_nat v"

definition revision_value :: "revision \<Rightarrow> nat res" where
  "revision_value r =
     (if r = [] \<or> length r > 1 \<and> hd r = CHR ''0'' then Inl (ErrMsg ''revision is not canonical'')
      else parse_uint64 r)"

subsection \<open>Changes\<close>

definition MethodCapabilities :: string where "MethodCapabilities = ''svc.capabilities''"
definition MethodList :: string where "MethodList = ''svc.list''"
definition MethodReconcile :: string where "MethodReconcile = ''svc.reconcile''"
definition MethodExport :: string where "MethodExport = ''synckit.syncservice.export.v1''"
definition MethodApply :: string where "MethodApply = ''synckit.syncservice.apply.v1''"
definition MethodExportV2 :: string where "MethodExportV2 = ''synckit.syncservice.export.v2''"
definition MethodApplyV2 :: string where "MethodApplyV2 = ''synckit.syncservice.apply.v2''"
definition changeDomainV1 :: string where "changeDomainV1 = ''synckit.syncservice.change.v1''"
definition changeDomainV2 :: string where "changeDomainV2 = ''synckit.syncservice.change.v2''"
definition MaxTransferPayload :: int where "MaxTransferPayload = 8 * 2 ^ 20"

definition ChangeSnapshot :: string where "ChangeSnapshot = ''snapshot''"
definition ChangeDelta :: string where "ChangeDelta = ''delta''"

record change_envelope =
  ce_service :: string
  ce_schema :: string
  ce_origin :: string
  ce_change_id :: string
  ce_kind :: string
  ce_base :: revision
  ce_source :: revision
  ce_payload_digest :: string
  ce_payload :: bytes
  ce_artifacts :: "ref list"

record export_request =
  er_service :: string
  er_schema :: string
  er_since :: revision

definition validate_export_request :: "export_request \<Rightarrow> unit res" where
  "validate_export_request r = andthen (validate_service_schema (er_service r) (er_schema r)) (\<lambda>_.
     andthen (revision_value (er_since r)) (\<lambda>_. Inr ()))"

definition validate_change :: "bool \<Rightarrow> change_envelope \<Rightarrow> unit res" where
  "validate_change require_delivery e =
     andthen (validate_service_schema (ce_service e) (ce_schema e)) (\<lambda>_.
     andthen (revision_value (ce_base e)) (\<lambda>base.
     andthen (revision_value (ce_source e)) (\<lambda>source.
       if source = 0 then Inl (ErrMsg ''source revision must be non-zero'')
       else if source < base then Inl (ErrMsg ''source revision precedes base'')
       else if ce_kind e \<noteq> ChangeSnapshot \<and> ce_kind e \<noteq> ChangeDelta then Inl (ErrMsg ''change kind'')
       else if ce_kind e = ChangeSnapshot \<and> base \<noteq> 0 then Inl (ErrMsg ''snapshot base must be zero'')
       else if ce_kind e = ChangeDelta \<and> ce_artifacts e \<noteq> [] then Inl (ErrMsg ''artifacts on a delta'')
       else if ce_payload e = [] \<or> int (length (ce_payload e)) > MaxTransferPayload \<or> \<not> json_valid (ce_payload e) then
         Inl (ErrMsg ''payload must be bounded valid JSON'')
       else if ce_payload_digest e \<noteq> digest_sum (ce_payload e) then Inl (ErrMsg ''payload digest mismatch'')
       else andthen (validate_roots (ce_artifacts e)) (\<lambda>_.
         if require_delivery then
           require (ce_origin e \<noteq> [] \<and> exact_digest (ce_change_id e)) (ErrMsg ''delivery identity required'')
         else require (ce_origin e = [] \<and> ce_change_id e = []) (ErrMsg ''delivery identity on an export'')))))"

definition new_exported_change :: "string \<Rightarrow> string \<Rightarrow> string \<Rightarrow> revision \<Rightarrow> revision \<Rightarrow> bytes \<Rightarrow> change_envelope res" where
  "new_exported_change service schema kind base source payload =
     (let e = \<lparr>ce_service = service, ce_schema = schema, ce_origin = [], ce_change_id = [], ce_kind = kind,
               ce_base = base, ce_source = source, ce_payload_digest = digest_sum payload,
               ce_payload = payload, ce_artifacts = []\<rparr> in
      andthen (validate_change False e) (\<lambda>_. Inr e))"

definition new_exported_artifact_change ::
  "string \<Rightarrow> string \<Rightarrow> string \<Rightarrow> revision \<Rightarrow> revision \<Rightarrow> bytes \<Rightarrow> ref list \<Rightarrow> change_envelope res" where
  "new_exported_artifact_change service schema kind base source payload roots =
     andthen (new_exported_change service schema kind base source payload) (\<lambda>e.
       andthen (validate_change False (e\<lparr>ce_artifacts := roots\<rparr>)) (\<lambda>_. Inr (e\<lparr>ce_artifacts := roots\<rparr>)))"

definition refuse_artifacts :: "change_envelope \<Rightarrow> unit res" where
  "refuse_artifacts e = require (ce_artifacts e = []) ErrArtifactsOnV1"

text \<open>What \<^verbatim>\<open>BindDelivery\<close> hashes: each value after its length and a colon.\<close>

definition frame :: "string list \<Rightarrow> bytes" where
  "frame vs = concat (map (\<lambda>v. dec_nat (length v) @ '':'' @ v) vs)"

definition root_value :: "ref \<Rightarrow> string" where
  "root_value r = r_kind r @ '':'' @ r_digest r @ '':'' @ dec_int (r_size r)"

definition change_values :: "change_envelope \<Rightarrow> string \<Rightarrow> string list" where
  "change_values e origin =
     (if ce_artifacts e = [] then changeDomainV1 else changeDomainV2)
      # [ce_service e, ce_schema e, origin, ce_kind e, ce_base e, ce_source e, ce_payload_digest e] @
     (if ce_artifacts e = [] then [] else dec_nat (length (ce_artifacts e)) # map root_value (ce_artifacts e))"

definition origin_ok :: "string \<Rightarrow> bool" where
  "origin_ok origin \<longleftrightarrow> origin \<noteq> [] \<and> \<not> list_ex (\<lambda>c. c = CHR 0x00 \<or> c = CHR 0x0D \<or> c = CHR 0x0A) origin"

definition bind_delivery :: "change_envelope \<Rightarrow> string \<Rightarrow> change_envelope res" where
  "bind_delivery e origin =
     andthen (validate_change False e) (\<lambda>_.
       if \<not> origin_ok origin then Inl (ErrMsg ''delivery origin'')
       else let b = e\<lparr>ce_origin := origin, ce_change_id := digest_sum (frame (change_values e origin))\<rparr> in
         andthen (validate_change True b) (\<lambda>_. Inr b))"

subsection \<open>The fence\<close>

record receipt =
  rc_origin :: string
  rc_change_id :: string
  rc_revision :: revision
  rc_payload_digest :: string

definition receipt_of :: "change_envelope \<Rightarrow> receipt" where
  "receipt_of e = \<lparr>rc_origin = ce_origin e, rc_change_id = ce_change_id e, rc_revision = ce_source e,
     rc_payload_digest = ce_payload_digest e\<rparr>"

datatype fence_decision = FenceApply | FenceReplay | FenceStale | FenceNeedSnapshot

record apply_result =
  ar_acked :: revision
  ar_need_snapshot :: bool
  ar_stale :: bool
  ar_held_digest :: string
  ar_partial :: bool
  ar_paused :: "paused_error option"

definition zero_result :: apply_result where
  "zero_result = \<lparr>ar_acked = [], ar_need_snapshot = False, ar_stale = False, ar_held_digest = [],
     ar_partial = False, ar_paused = None\<rparr>"

definition fence_held :: "receipt option \<Rightarrow> change_envelope \<Rightarrow> nat res" where
  "fence_held held e = (case held of
     None \<Rightarrow> Inr 0
   | Some h \<Rightarrow> if rc_origin h \<noteq> ce_origin e then Inl (ErrMsg ''receipt origin'') else revision_value (rc_revision h))"

definition fence :: "receipt option \<Rightarrow> change_envelope \<Rightarrow> (fence_decision \<times> apply_result) res" where
  "fence held e =
     andthen (validate_change True e) (\<lambda>_.
     andthen (revision_value (ce_source e)) (\<lambda>source.
     andthen (revision_value (ce_base e)) (\<lambda>base.
     andthen (fence_held held e) (\<lambda>held_revision.
       let rest = (if ce_kind e = ChangeDelta \<and> base \<noteq> held_revision then
                     Inr (FenceNeedSnapshot, zero_result\<lparr>ar_need_snapshot := True\<rparr>)
                   else Inr (FenceApply, zero_result)) in
       case held of
         None \<Rightarrow> rest
       | Some h \<Rightarrow>
           if rc_change_id h = ce_change_id e \<and> rc_revision h = ce_source e \<and>
              rc_payload_digest h = ce_payload_digest e then
             Inr (FenceReplay, zero_result\<lparr>ar_acked := rc_revision h\<rparr>)
           else if source \<le> held_revision then
             Inr (FenceStale, zero_result\<lparr>ar_acked := rc_revision h, ar_stale := True,
               ar_held_digest := rc_payload_digest h\<rparr>)
           else rest))))"

subsection \<open>Capabilities\<close>

record capabilities =
  cap_name :: string
  cap_methods :: "string list"

definition AllMethods :: "string list" where
  "AllMethods = [MethodCapabilities, MethodList, MethodReconcile, MethodExport, MethodApply]"

definition artifact_methods :: "string list" where
  "artifact_methods = [''synckit.net.status.v1'', ''synckit.artifact.closure.v1'', ''synckit.artifact.have.v1'',
     ''synckit.artifact.batch.build.v1'', ''synckit.artifact.batch.read.v1'', ''synckit.artifact.batch.drop.v1'',
     ''synckit.artifact.batch.begin.v1'', ''synckit.artifact.batch.put.v1'', ''synckit.artifact.batch.commit.v1'',
     ''synckit.artifact.pins.set.v1'']"

definition default_capabilities :: "string \<Rightarrow> capabilities" where
  "default_capabilities name = \<lparr>cap_name = name, cap_methods = AllMethods\<rparr>"

definition artifact_capabilities :: "string \<Rightarrow> capabilities" where
  "artifact_capabilities name =
     \<lparr>cap_name = name, cap_methods = AllMethods @ [MethodExportV2, MethodApplyV2] @ artifact_methods\<rparr>"

fun add_methods :: "string list \<Rightarrow> string list \<Rightarrow> string list" where
  "add_methods [] methods = methods"
| "add_methods (m # ms) methods = add_methods ms (if m \<in> set methods then methods else methods @ [m])"

definition with_artifact_methods :: "capabilities \<Rightarrow> capabilities" where
  "with_artifact_methods caps = \<lparr>cap_name = cap_name caps,
     cap_methods = add_methods (cap_methods (artifact_capabilities (cap_name caps))) (cap_methods caps)\<rparr>"

subsection \<open>Enrollment\<close>

definition MaxIdentity :: int where "MaxIdentity = 64 * 2 ^ 10"

definition valid_identity :: "bytes \<Rightarrow> unit res" where
  "valid_identity b = require (\<not> (b = [] \<or> int (length b) > MaxIdentity \<or> \<not> json_valid b)) (ErrMsg ''identity'')"

definition validate_enroll :: "string \<Rightarrow> bytes \<Rightarrow> unit res" where
  "validate_enroll host identity =
     (if \<not> origin_ok host then Inl (ErrMsg ''enroll host'') else valid_identity identity)"

subsection \<open>Accepting a change with artifacts\<close>

definition acceptedPinPrefix :: string where "acceptedPinPrefix = ''synckit.accepted/''"
definition ackedPinPrefix :: string where "ackedPinPrefix = ''synckit.acked/''"

text \<open>\<^verbatim>\<open>strings.CutPrefix\<close>.\<close>

definition cut_prefix :: "string \<Rightarrow> string \<Rightarrow> string option" where
  "cut_prefix s p = (if take (length p) s = p then Some (drop (length p) s) else None)"

definition accepted_owner :: "string \<Rightarrow> string \<Rightarrow> bool" where
  "accepted_owner origin owner = (case cut_prefix owner (acceptedPinPrefix @ origin @ ''/'') of
     None \<Rightarrow> False | Some i \<Rightarrow> CHR ''/'' \<notin> set i)"

definition accepted_owners :: "store \<Rightarrow> bool \<Rightarrow> string \<Rightarrow> string list res" where
  "accepted_owners s cancelled origin = andthen (list_pins s cancelled) (\<lambda>pins.
     Inr (filter (accepted_owner origin) (map ps_owner pins)))"

definition release :: "bool \<Rightarrow> string list \<Rightarrow> unit step" where
  "release cancelled owners = eachS (\<lambda>owner. set_pins cancelled owner []) owners"

fun ready_roots :: "store \<Rightarrow> bool \<Rightarrow> ref list \<Rightarrow> ref list res" where
  "ready_roots s cancelled [] = Inr []"
| "ready_roots s cancelled (r # rs) = andthen (complete s cancelled [r]) (\<lambda>missing.
     andthen (ready_roots s cancelled rs) (\<lambda>rest. Inr (if missing = 0 then r # rest else rest)))"

text \<open>The consumer's apply: its state, the change and the ready roots to its new state and reply.\<close>

type_synonym 'c consumer = "'c \<Rightarrow> change_envelope \<Rightarrow> ref list \<Rightarrow> 'c \<times> apply_result res"

definition settle_apply :: "bool \<Rightarrow> change_envelope \<Rightarrow> string list \<Rightarrow> ref list \<Rightarrow> apply_result \<Rightarrow> apply_result step" where
  "settle_apply cancelled e accepted ready result =
     (let owner = acceptedPinPrefix @ ce_origin e @ ''/'' @ ce_change_id e;
          full_ack = (ar_acked result = ce_source e);
          holds = (ar_stale result \<and> full_ack \<and> ar_held_digest result = ce_payload_digest e) in
      if full_ack \<and> length ready < length (ce_artifacts e) then failS ErrIncompleteAck
      else if (ar_stale result \<and> \<not> holds) \<or> ar_need_snapshot result \<or> (\<not> full_ack \<and> \<not> ar_partial result) then
        bindS (release cancelled [owner]) (\<lambda>_. retS result)
      else bindS (set_pins cancelled (ackedPinPrefix @ ce_origin e) (ce_artifacts e)) (\<lambda>_.
        bindS (release cancelled (if owner \<in> set accepted then accepted else accepted @ [owner])) (\<lambda>_. retS result)))"

definition apply_artifacts :: "'c consumer \<Rightarrow> bool \<Rightarrow> change_envelope \<Rightarrow> 'c \<Rightarrow> store \<Rightarrow> 'c \<times> store \<times> apply_result res" where
  "apply_artifacts consumer cancelled e c s =
     (let owner = acceptedPinPrefix @ ce_origin e @ ''/'' @ ce_change_id e in
      case accepted_owners s cancelled (ce_origin e) of
        Inl err \<Rightarrow> (c, s, Inl err)
      | Inr accepted \<Rightarrow> (case set_pins cancelled owner (ce_artifacts e) s of
          (s1, Inl err) \<Rightarrow> (c, s1, Inl err)
        | (s1, Inr _) \<Rightarrow>
            let give_up = (\<lambda>err. if owner \<in> set accepted then (s1, Inl err)
                                 else (fst (release cancelled [owner] s1), Inl err)) in
            (case ready_roots s1 cancelled (ce_artifacts e) of
               Inl err \<Rightarrow> (c, give_up err)
             | Inr ready \<Rightarrow> (case consumer c e ready of
                 (c', Inl err) \<Rightarrow> (c', give_up err)
               | (c', Inr result) \<Rightarrow> (c', settle_apply cancelled e accepted ready result s1)))))"

text \<open>The handlers of \<^verbatim>\<open>apply.v1\<close>, \<^verbatim>\<open>export\<close> and \<^verbatim>\<open>apply.v2\<close>, on decoded params.\<close>

definition serve_export :: "bool \<Rightarrow> (export_request \<Rightarrow> change_envelope res) \<Rightarrow> export_request res \<Rightarrow> change_envelope res" where
  "serve_export v2 export params = andthen params (\<lambda>request.
     andthen (validate_export_request request) (\<lambda>_.
       andthen (export request) (\<lambda>change. andthen (validate_change False change) (\<lambda>_.
         if v2 then Inr change else andthen (refuse_artifacts change) (\<lambda>_. Inr change)))))"

definition serve_apply :: "('c \<Rightarrow> change_envelope \<Rightarrow> 'c \<times> apply_result res) \<Rightarrow> change_envelope res \<Rightarrow> 'c \<Rightarrow> 'c \<times> apply_result res" where
  "serve_apply consumer params c =
     (case andthen params (\<lambda>change. andthen (validate_change True change) (\<lambda>_.
         andthen (refuse_artifacts change) (\<lambda>_. Inr change))) of
        Inl err \<Rightarrow> (c, Inl err)
      | Inr change \<Rightarrow> consumer c change)"

definition serve_apply_v2 ::
  "'c consumer \<Rightarrow> bool \<Rightarrow> net_state \<Rightarrow> change_envelope bulk_request \<Rightarrow> 'c \<Rightarrow> store \<Rightarrow> 'c \<times> store \<times> apply_result res" where
  "serve_apply_v2 consumer cancelled live rq c s =
     (case refusal live rq of
        Inl err \<Rightarrow> (c, s, Inl err)
      | Inr (Some p) \<Rightarrow> (c, s, Inr (zero_result\<lparr>ar_acked := new_revision 0, ar_paused := Some p\<rparr>))
      | Inr None \<Rightarrow> (case andthen (rq_params rq) (\<lambda>change. andthen (validate_change True change) (\<lambda>_. Inr change)) of
          Inl err \<Rightarrow> (c, s, Inl err)
        | Inr change \<Rightarrow> apply_artifacts consumer cancelled change c s))"

subsection \<open>Revisions and identities\<close>

lemma digit_not_colon: "list_all is_digit ds \<Longrightarrow> CHR '':'' \<notin> set ds"
  by (auto simp: list_all_iff is_digit_def)

lemma dec_nat_no_colon [simp]: "CHR '':'' \<notin> set (dec_nat n)"
  by (rule digit_not_colon [OF dec_nat_digits])

lemma dec_nat_inj: "dec_nat m = dec_nat n \<longleftrightarrow> m = n"
  by (metis digits_val_dec_nat)

lemma new_revision_inj [simp]: "new_revision m = new_revision n \<longleftrightarrow> m = n"
  by (simp add: new_revision_def dec_nat_inj)

lemma revision_value_iff: "revision_value r = Inr v \<longleftrightarrow> v < 2 ^ 64 \<and> r = new_revision v"
proof
  assume a: "revision_value r = Inr v"
  then have d: "list_all is_digit r" "r \<noteq> []" "v = digits_val r" "v < 2 ^ 64"
    and h: "\<not> (length r > 1 \<and> hd r = CHR ''0'')"
    by (auto simp: revision_value_def parse_uint64_def split: if_splits)
  have "canonical_dec r" using d h by (cases r) (auto simp: canonical_dec_def)
  with d show "v < 2 ^ 64 \<and> r = new_revision v"
    using dec_nat_digits_val by (simp add: new_revision_def)
next
  assume a: "v < 2 ^ 64 \<and> r = new_revision v"
  have "\<not> (length (dec_nat v) > 1 \<and> hd (dec_nat v) = CHR ''0'')"
    using dec_nat_hd [of v] by (cases "v = 0") (auto simp: dec_nat_0)
  with a show "revision_value r = Inr v"
    by (simp add: revision_value_def new_revision_def parse_uint64_dec)
qed

lemma split_at: "xs @ c # ys = xs' @ c # ys' \<Longrightarrow> c \<notin> set xs \<Longrightarrow> c \<notin> set xs' \<Longrightarrow> xs = xs' \<and> ys = ys'"
  by (induction xs arbitrary: xs') (auto simp: Cons_eq_append_conv)

lemma frame_inj: "frame vs = frame ws \<Longrightarrow> vs = ws"
proof (induction vs arbitrary: ws)
  case Nil
  then show ?case by (cases ws) (simp_all add: frame_def)
next
  case (Cons v vs)
  then obtain w ws' where ws: "ws = w # ws'" by (cases ws) (auto simp: frame_def)
  with Cons.prems have "dec_nat (length v) @ CHR '':'' # (v @ frame vs) = dec_nat (length w) @ CHR '':'' # (w @ frame ws')"
    by (simp add: frame_def)
  from split_at [OF this] have "length v = length w" "v @ frame vs = w @ frame ws'" by (auto simp: dec_nat_inj)
  with Cons.IH ws show ?case by simp
qed

lemma kind_no_colon: "validate_ref r = Inr () \<Longrightarrow> CHR '':'' \<notin> set (r_kind r)"
  by (auto simp: validate_ref_iff KindBlob_def KindManifest_def)

lemma digest_no_colon: "validate_ref r = Inr () \<Longrightarrow> CHR '':'' \<notin> set (r_digest r)"
  by (auto simp: validate_ref_iff validate_digest_def each_Inr_iff is_lower_hex_def split: if_splits)

lemma root_value_inj:
  assumes "validate_ref r = Inr ()" "validate_ref q = Inr ()" "root_value r = root_value q"
  shows "r = q"
proof -
  from assms(3) have e: "r_kind r @ CHR '':'' # (r_digest r @ CHR '':'' # dec_int (r_size r)) =
      r_kind q @ CHR '':'' # (r_digest q @ CHR '':'' # dec_int (r_size q))" by (simp add: root_value_def)
  note k = split_at [OF e kind_no_colon [OF assms(1)] kind_no_colon [OF assms(2)]]
  then have d: "r_digest r @ CHR '':'' # dec_int (r_size r) = r_digest q @ CHR '':'' # dec_int (r_size q)" by simp
  note d = split_at [OF d digest_no_colon [OF assms(1)] digest_no_colon [OF assms(2)]]
  have "0 \<le> r_size r" "0 \<le> r_size q" using assms(1,2) by (auto simp: validate_ref_iff)
  with d have "r_size r = r_size q" by (simp add: dec_int_inj)
  with k d show ?thesis by simp
qed

lemma root_values_inj:
  assumes "\<forall>r \<in> set rs. validate_ref r = Inr ()" "\<forall>r \<in> set qs. validate_ref r = Inr ()"
    and "map root_value rs = map root_value qs"
  shows "rs = qs"
proof -
  have "inj_on root_value (set rs \<union> set qs)"
    by (rule inj_onI) (use assms(1,2) root_value_inj in blast)
  then show ?thesis using assms(3) by (rule map_inj_on [rotated])
qed

lemma change_domains: "changeDomainV1 \<noteq> changeDomainV2"
  by (simp add: changeDomainV1_def changeDomainV2_def)

lemma validate_roots_Nil [simp]: "validate_roots [] = Inr ()"
  by (simp add: validate_roots_iff MaxRoots_def)

lemma validate_change_iff: "validate_change b e = Inr u \<longleftrightarrow>
   validate_service_schema (ce_service e) (ce_schema e) = Inr () \<and>
   (\<exists>base source. revision_value (ce_base e) = Inr base \<and> revision_value (ce_source e) = Inr source \<and>
      0 < source \<and> base \<le> source \<and> (ce_kind e = ChangeSnapshot \<and> base = 0 \<or> ce_kind e = ChangeDelta \<and> ce_artifacts e = [])) \<and>
   ce_payload e \<noteq> [] \<and> int (length (ce_payload e)) \<le> MaxTransferPayload \<and> json_valid (ce_payload e) \<and>
   ce_payload_digest e = digest_sum (ce_payload e) \<and> validate_roots (ce_artifacts e) = Inr () \<and>
   (if b then ce_origin e \<noteq> [] \<and> exact_digest (ce_change_id e) else ce_origin e = [] \<and> ce_change_id e = [])"
proof (cases "revision_value (ce_base e)")
  case Inl
  then show ?thesis by (simp add: validate_change_def andthen_Inr_iff)
next
  case base: (Inr base)
  have k: "ChangeSnapshot \<noteq> ChangeDelta" "ChangeDelta \<noteq> ChangeSnapshot"
    by (simp_all add: ChangeSnapshot_def ChangeDelta_def)
  show ?thesis
  proof (cases "revision_value (ce_source e)")
    case Inl
    with base show ?thesis by (simp add: validate_change_def andthen_Inr_iff)
  next
    case (Inr source)
    show ?thesis
    proof (cases "validate_roots (ce_artifacts e)")
      case (Inl err)
      then have "ce_artifacts e \<noteq> []" by auto
      with Inl have "validate_change b e \<noteq> Inr u"
        by (cases "validate_service_schema (ce_service e) (ce_schema e)")
          (simp_all add: validate_change_def base \<open>revision_value (ce_source e) = Inr source\<close>)
      with Inl show ?thesis by simp
    next
      case roots: (Inr u)
      show ?thesis
        by (simp add: validate_change_def andthen_Inr_iff base Inr roots not_less k)
    qed
  qed
qed

lemma change_identity:
  assumes "bind_delivery e p = Inr b" and "bind_delivery e' p' = Inr b'" and "ce_change_id b = ce_change_id b'"
    and "collision_free {frame (change_values e p), frame (change_values e' p')}"
    and "collision_free {ce_payload e, ce_payload e'}"
  shows "b = b'"
proof -
  from assms(1,2) have b: "b = e\<lparr>ce_origin := p, ce_change_id := digest_sum (frame (change_values e p))\<rparr>"
    "b' = e'\<lparr>ce_origin := p', ce_change_id := digest_sum (frame (change_values e' p'))\<rparr>"
    and v: "validate_change False e = Inr ()" "validate_change False e' = Inr ()"
    by (auto simp: bind_delivery_def andthen_Inr_iff Let_def split: if_splits)
  from v have v': "ce_payload_digest e = digest_sum (ce_payload e)" "ce_payload_digest e' = digest_sum (ce_payload e')"
    "\<forall>r \<in> set (ce_artifacts e). validate_ref r = Inr ()" "\<forall>r \<in> set (ce_artifacts e'). validate_ref r = Inr ()"
    by (simp_all add: validate_change_iff validate_roots_iff)
  from assms(3) b collision_freeD [OF assms(4)] have "frame (change_values e p) = frame (change_values e' p')" by simp
  then have c: "change_values e p = change_values e' p'" by (rule frame_inj)
  then have empty: "ce_artifacts e = [] \<longleftrightarrow> ce_artifacts e' = []"
    using change_domains by (auto simp: change_values_def split: if_splits)
  from c have f: "ce_service e = ce_service e'" "ce_schema e = ce_schema e'" "p = p'" "ce_kind e = ce_kind e'"
    "ce_base e = ce_base e'" "ce_source e = ce_source e'" "ce_payload_digest e = ce_payload_digest e'"
    by (auto simp: change_values_def)
  from c empty have "map root_value (ce_artifacts e) = map root_value (ce_artifacts e')"
    by (auto simp: change_values_def split: if_splits)
  then have "ce_artifacts e = ce_artifacts e'" using v'(3,4) root_values_inj by blast
  moreover have "ce_payload e = ce_payload e'" using f(7) v'(1,2) collision_freeD [OF assms(5)] by simp
  ultimately show ?thesis using f unfolding b c by (intro change_envelope.equality) simp_all
qed

subsection \<open>A receiver behind the fence\<close>

text \<open>A receiver that persists the receipt of each change the fence lets it apply, with the changes
  it applied, in order. An error leaves both.\<close>

definition receive :: "change_envelope \<Rightarrow> receipt option \<times> change_envelope list \<Rightarrow> receipt option \<times> change_envelope list" where
  "receive e = (\<lambda>(held, applied). (case fence held e of
     Inr (FenceApply, _) \<Rightarrow> (Some (receipt_of e), applied @ [e])
   | _ \<Rightarrow> (held, applied)))"

definition source_of :: "change_envelope \<Rightarrow> nat" where
  "source_of e = (case revision_value (ce_source e) of Inl _ \<Rightarrow> 0 | Inr v \<Rightarrow> v)"

definition base_of :: "change_envelope \<Rightarrow> nat" where
  "base_of e = (case revision_value (ce_base e) of Inl _ \<Rightarrow> 0 | Inr v \<Rightarrow> v)"

definition held_value :: "receipt option \<Rightarrow> nat" where
  "held_value held = (case held of None \<Rightarrow> 0
     | Some h \<Rightarrow> (case revision_value (rc_revision h) of Inl _ \<Rightarrow> 0 | Inr v \<Rightarrow> v))"

lemma receipt_fields [simp]: "rc_origin (receipt_of e) = ce_origin e" "rc_revision (receipt_of e) = ce_source e"
  by (simp_all add: receipt_of_def)

lemma held_receipt [simp]: "held_value (Some (receipt_of e)) = source_of e"
  by (simp add: held_value_def receipt_of_def source_of_def)

lemma fence_apply:
  assumes "fence held e = Inr (FenceApply, r)"
  shows "validate_change True e = Inr ()" "held_value held < source_of e \<or> held = None"
    "ce_kind e = ChangeDelta \<longrightarrow> base_of e = held_value held"
    "\<And>h. held = Some h \<Longrightarrow> rc_origin h = ce_origin e"
  using assms
  by (auto simp: fence_def fence_held_def held_value_def source_of_def base_of_def andthen_Inr_iff Let_def
      split: option.splits if_splits)

lemma valid_change_source: "validate_change b e = Inr u \<Longrightarrow> 0 < source_of e \<and> base_of e \<le> source_of e"
  by (auto simp: validate_change_iff source_of_def base_of_def)

lemma fence_snapshot:
  assumes "validate_change True e = Inr ()" "ce_kind e = ChangeSnapshot"
    and "\<And>h. held = Some h \<Longrightarrow> rc_origin h = ce_origin e \<and> is_ok (revision_value (rc_revision h))"
    and "held_value held < source_of e"
  shows "\<exists>r. fence held e = Inr (FenceApply, r)"
proof -
  have k: "ChangeSnapshot \<noteq> ChangeDelta" by (simp add: ChangeSnapshot_def ChangeDelta_def)
  from assms(1) obtain base source where v: "revision_value (ce_base e) = Inr base" "revision_value (ce_source e) = Inr source"
    by (auto simp: validate_change_iff)
  show ?thesis
  proof (cases held)
    case None
    with assms(1,2) k v show ?thesis by (auto simp: fence_def fence_held_def)
  next
    case (Some h)
    with assms(3) obtain v where "rc_origin h = ce_origin e" "revision_value (rc_revision h) = Inr v"
      by (auto simp: is_ok_iff)
    with assms(1,2,4) k v Some show ?thesis
      by (auto simp: fence_def fence_held_def held_value_def source_of_def)
  qed
qed

text \<open>The applied changes rise in revision, and a delta follows the revision it was cut against.\<close>

definition follows :: "change_envelope \<Rightarrow> change_envelope \<Rightarrow> bool" where
  "follows a b \<longleftrightarrow> source_of a < source_of b \<and> (ce_kind b = ChangeDelta \<longrightarrow> base_of b = source_of a) \<and>
     ce_origin a = ce_origin b"

definition fence_inv :: "receipt option \<times> change_envelope list \<Rightarrow> bool" where
  "fence_inv = (\<lambda>(held, applied). successively follows applied \<and>
     held = (if applied = [] then None else Some (receipt_of (last applied))) \<and>
     (\<forall>e \<in> set applied. validate_change True e = Inr ()) \<and>
     (applied \<noteq> [] \<longrightarrow> ce_kind (hd applied) = ChangeDelta \<longrightarrow> base_of (hd applied) = 0))"

lemma receive_inv: "fence_inv ha \<Longrightarrow> fence_inv (receive e ha)"
proof (cases ha)
  case (Pair held applied)
  assume inv: "fence_inv ha"
  show ?thesis
  proof (cases "\<exists>r. fence held e = Inr (FenceApply, r)")
    case False
    with inv Pair show ?thesis
      by (auto simp: receive_def split: sum.split fence_decision.split)
  next
    case True
    then obtain r where f: "fence held e = Inr (FenceApply, r)" by blast
    from inv Pair have h: "held = (if applied = [] then None else Some (receipt_of (last applied)))"
      by (simp add: fence_inv_def)
    from fence_apply [OF f] h have "applied \<noteq> [] \<longrightarrow> follows (last applied) e"
      by (auto simp: follows_def)
    with inv Pair f fence_apply [OF f] h show ?thesis
      by (cases "applied = []") (auto simp: fence_inv_def receive_def successively_append_iff held_value_def)
  qed
qed

lemma run_inv: "fence_inv ha \<Longrightarrow> fence_inv (fold receive es ha)"
  by (induction es arbitrary: ha) (simp_all add: receive_inv)

lemma fence_inv_Nil [simp]: "fence_inv (None, [])"
  by (simp add: fence_inv_def)

text \<open>The held revision never falls, and no snapshot is left behind.\<close>

definition latest :: "receipt option \<times> change_envelope list \<Rightarrow> nat" where
  "latest ha = held_value (fst ha)"

lemma receive_snapshot:
  assumes "fence_inv ha" "validate_change True e = Inr ()" "ce_kind e = ChangeSnapshot"
    and "\<forall>a \<in> set (snd ha). ce_origin a = ce_origin e"
  shows "receive e ha = (if latest ha < source_of e then (Some (receipt_of e), snd ha @ [e]) else ha)"
proof (cases ha)
  case (Pair held applied)
  have h: "\<And>h. held = Some h \<Longrightarrow> rc_origin h = ce_origin e \<and> is_ok (revision_value (rc_revision h))"
    using assms(1,4) Pair
    by (auto simp: fence_inv_def validate_change_iff is_ok_iff split: if_splits)
  show ?thesis
  proof (cases "latest ha < source_of e")
    case True
    then obtain r where "fence held e = Inr (FenceApply, r)"
      using fence_snapshot [OF assms(2,3) h] Pair by (auto simp: latest_def)
    with True Pair show ?thesis by (simp add: receive_def)
  next
    case False
    have "fence held e \<noteq> Inr (FenceApply, r)" for r
    proof
      assume "fence held e = Inr (FenceApply, r)"
      from fence_apply(2) [OF this] False Pair have "held = None" by (auto simp: latest_def)
      with False Pair valid_change_source [OF assms(2)] show False by (simp add: latest_def held_value_def)
    qed
    with False Pair show ?thesis by (auto simp: receive_def split: sum.split fence_decision.split)
  qed
qed

lemma receive_applied: "set (snd (receive e ha)) \<subseteq> insert e (set (snd ha))"
  by (cases ha) (auto simp: receive_def split: sum.split fence_decision.split)

lemma snapshots_latest:
  assumes "\<forall>e \<in> set es. validate_change True e = Inr () \<and> ce_kind e = ChangeSnapshot \<and> ce_origin e = p"
    and "fence_inv ha" "\<forall>a \<in> set (snd ha). ce_origin a = p"
  shows "latest (fold receive es ha) = Max (insert (latest ha) (source_of ` set es)) \<and>
    set (snd (fold receive es ha)) \<subseteq> set es \<union> set (snd ha)"
  using assms
proof (induction es arbitrary: ha)
  case (Cons e es)
  from Cons.prems have v: "validate_change True e = Inr ()" "ce_kind e = ChangeSnapshot" "ce_origin e = p" by auto
  have o: "\<forall>a \<in> set (snd (receive e ha)). ce_origin a = p"
    using receive_applied [of e ha] Cons.prems(3) v(3) by auto
  have "latest (receive e ha) = max (latest ha) (source_of e)"
    using receive_snapshot [OF Cons.prems(2) v(1,2)] Cons.prems(3) v(3) by (auto simp: latest_def)
  moreover have "latest (fold receive es (receive e ha)) = Max (insert (latest (receive e ha)) (source_of ` set es)) \<and>
      set (snd (fold receive es (receive e ha))) \<subseteq> set es \<union> set (snd (receive e ha))"
    using Cons.IH [OF _ receive_inv [OF Cons.prems(2)] o] Cons.prems(1) by simp
  moreover have "Max (insert (max a b) S) = Max (insert a (insert b S))" if "finite S" for a b :: nat and S
    using that by (cases "S = {}") (auto simp: Max_insert)
  ultimately show ?case using receive_applied [of e ha] by auto
qed simp

lemma snapshots_held:
  assumes "\<forall>e \<in> set es. validate_change True e = Inr () \<and> ce_kind e = ChangeSnapshot \<and> ce_origin e = p"
    and "e \<in> set es" "inj_on source_of (set es)" "\<forall>x \<in> set es. source_of x \<le> source_of e"
  shows "fst (fold receive es (None, [])) = Some (receipt_of e)"
proof -
  let ?fin = "fold receive es (None, [])"
  from snapshots_latest [OF assms(1), of "(None, [])"]
  have l: "latest ?fin = Max (insert 0 (source_of ` set es))" and sub: "set (snd ?fin) \<subseteq> set es"
    by (auto simp: latest_def held_value_def)
  have "Max (insert 0 (source_of ` set es)) = source_of e"
    using assms(2,4) by (intro Max_eqI) auto
  with l have m: "latest ?fin = source_of e" by simp
  have "0 < source_of e" using valid_change_source assms(1,2) by blast
  have "fence_inv ?fin" by (rule run_inv) simp
  then have h: "fst ?fin = (if snd ?fin = [] then None else Some (receipt_of (last (snd ?fin))))"
    by (cases ?fin) (simp add: fence_inv_def)
  with m \<open>0 < source_of e\<close> have ne: "snd ?fin \<noteq> []" by (auto simp: latest_def held_value_def)
  with sub have "last (snd ?fin) \<in> set es" by auto
  moreover have "source_of (last (snd ?fin)) = source_of e" using h m ne by (simp add: latest_def)
  ultimately have "last (snd ?fin) = e" using assms(2,3) by (auto dest: inj_onD)
  with h ne show ?thesis by simp
qed

subsection \<open>Pins as the acceptance sees them\<close>

text \<open>What \<^verbatim>\<open>acceptStore\<close> promises: an owner's pin set is written or removed whole, and it leaves
  the objects and every other owner's slot alone.\<close>

definition same_objects :: "store \<Rightarrow> store \<Rightarrow> bool" where
  "same_objects s s' \<longleftrightarrow> st_objects s' = st_objects s \<and> st_unsynced s' = st_unsynced s \<and> st_unreadable s' = st_unreadable s"

lemma same_objects_trans: "same_objects a b \<Longrightarrow> same_objects b c \<Longrightarrow> same_objects a c"
  by (simp add: same_objects_def)

lemma same_objects_refl [simp]: "same_objects s s"
  by (simp add: same_objects_def)

locale pin_registry =
  fixes set_roots :: "bool \<Rightarrow> string \<Rightarrow> ref list \<Rightarrow> unit step"
    and roots_of :: "store \<Rightarrow> string \<Rightarrow> ref list option"
    and slot :: "string \<Rightarrow> string"
  assumes stored: "set_roots c owner roots s = (s', Inr ()) \<Longrightarrow>
      roots_of s' owner = (if roots = [] then None else Some roots)"
    and others: "set_roots c owner roots s = (s', r) \<Longrightarrow> slot other \<noteq> slot owner \<Longrightarrow> roots_of s' other = roots_of s other"
    and same_slot: "slot owner = slot other \<Longrightarrow> roots_of s owner = roots_of s other"
    and objects: "set_roots c owner roots s = (s', r) \<Longrightarrow> same_objects s s'"
begin

lemma release_all:
  "eachS (\<lambda>owner. set_roots c owner []) owners s = (s', r) \<Longrightarrow>
   same_objects s s' \<and> (\<forall>other. slot other \<notin> slot ` set owners \<longrightarrow> roots_of s' other = roots_of s other) \<and>
   (r = Inr () \<longrightarrow> (\<forall>owner \<in> set owners. roots_of s' owner = None))"
proof (induction owners arbitrary: s)
  case (Cons owner owners)
  from Cons.prems have "bindS (set_roots c owner []) (\<lambda>_. eachS (\<lambda>owner. set_roots c owner []) owners) s = (s', r)"
    by simp
  then show ?case
  proof (cases rule: bindS_cases)
    case (1 e)
    then show ?thesis using objects others by simp
  next
    case (2 s1 u)
    note ih = Cons.IH [OF 2(2)]
    have "roots_of s' owner = None" if "r = Inr ()"
    proof (cases "slot owner \<in> slot ` set owners")
      case True
      then obtain o' where "o' \<in> set owners" "slot o' = slot owner" by auto
      with ih that same_slot show ?thesis by metis
    next
      case False
      with ih stored 2(1) show ?thesis by simp
    qed
    moreover have "same_objects s s'" using same_objects_trans [OF objects [OF 2(1)]] ih by blast
    ultimately show ?thesis using ih others [OF 2(1)] by auto
  qed
qed (simp add: retS_def)

end

definition pinned_roots :: "store \<Rightarrow> string \<Rightarrow> ref list option" where
  "pinned_roots s owner = map_option ps_roots (map_of (st_pins s) (pin_path owner))"

lemma set_pins_cases:
  assumes "set_pins c owner roots s = (s', r)"
  shows "same_objects s s' \<and> (\<forall>other. pin_path other \<noteq> pin_path owner \<longrightarrow> pinned_roots s' other = pinned_roots s other) \<and>
    (r = Inr () \<longrightarrow> pinned_roots s' owner = (if roots = [] then None else Some roots) \<and> validate_pins_set owner roots = Inr ())"
proof (cases "validate_pins_set owner roots")
  case Inl
  with assms show ?thesis by (auto simp: set_pins_def bindS_def liftS_def)
next
  case (Inr u)
  with assms show ?thesis
    by (auto simp: set_pins_def bindS_def liftS_def failS_def same_objects_def pinned_roots_def
        split: if_splits dest!: disk_cases)
qed

interpretation pins: pin_registry set_pins pinned_roots pin_path
proof
  show "pinned_roots s owner = pinned_roots s other" if "pin_path owner = pin_path other" for s owner other
    using that by (simp add: pinned_roots_def)
qed (use set_pins_cases in auto)

lemma update_subset: "set (AList.update k v ps) \<subseteq> insert (k, v) (set ps)"
  by (induction ps) auto

lemma pins_valid_iff: "pins_valid s \<longleftrightarrow> (\<forall>np \<in> set (st_pins s). \<forall>r \<in> set (ps_roots (snd np)). validate_ref r = Inr ())"
  by (auto simp: pins_valid_def)

lemma set_pins_valid: "set_pins c owner roots s = (s', r) \<Longrightarrow> pins_valid s \<Longrightarrow> pins_valid s'"
proof (cases "validate_pins_set owner roots")
  case (Inr u)
  then have "\<forall>r \<in> set roots. validate_ref r = Inr ()"
    by (auto simp: validate_pins_set_def validate_refs_iff split: if_splits)
  with Inr show "set_pins c owner roots s = (s', r) \<Longrightarrow> pins_valid s \<Longrightarrow> pins_valid s'"
    by (auto simp: set_pins_def bindS_def liftS_def failS_def pins_valid_iff AList.delete_eq
        split: if_splits dest!: disk_cases subsetD [OF update_subset])
qed (auto simp: set_pins_def bindS_def liftS_def)

lemma release_valid: "release c owners s = (s', r) \<Longrightarrow> pins_valid s \<Longrightarrow> pins_valid s'"
  unfolding release_def
proof (induction owners arbitrary: s)
  case (Cons owner owners)
  from Cons.prems(1) have "bindS (set_pins c owner []) (\<lambda>_. eachS (\<lambda>owner. set_pins c owner []) owners) s = (s', r)"
    by simp
  then show ?case
    by (cases rule: bindS_cases) (use Cons set_pins_valid in blast)+
qed (simp add: retS_def)

lemma same_objects_read: "same_objects s s' \<Longrightarrow> read_manifest s' d n = read_manifest s d n"
  by (cases "map_of (st_objects s) d") (simp_all add: same_objects_def read_manifest_def read_object_def)

lemma same_objects_held: "same_objects s s' \<Longrightarrow> ref_held s' r = ref_held s r"
  by (cases "map_of (st_objects s) (r_digest r)")
    (simp_all add: ref_held_def same_objects_read, simp_all add: same_objects_def stat_object_def)

lemma same_objects_sym: "same_objects s s' \<Longrightarrow> same_objects s' s"
  by (simp add: same_objects_def)

lemma same_objects_reaches: "reaches s' root q \<Longrightarrow> same_objects s s' \<Longrightarrow> reaches s root q"
  by (induction rule: reaches.induct) (auto intro: reaches.intros simp: same_objects_read)

lemma ready_roots_all:
  "ready_roots s c roots = Inr ready \<Longrightarrow> length ready \<le> length roots \<and>
   (length roots \<le> length ready \<longrightarrow> (\<forall>r \<in> set roots. complete s c [r] = Inr 0))"
proof (induction roots arbitrary: ready)
  case (Cons r rs)
  then obtain missing rest where a: "complete s c [r] = Inr missing" "ready_roots s c rs = Inr rest"
    "ready = (if missing = 0 then r # rest else rest)" by (auto simp: andthen_Inr_iff)
  with Cons.IH [OF a(2)] show ?case by auto
qed simp

text \<open>A reply that the consumer made with the change recorded: it neither asked for a snapshot nor
  held another change at or past the revision.\<close>

definition recorded :: "change_envelope \<Rightarrow> apply_result \<Rightarrow> bool" where
  "recorded e result \<longleftrightarrow> \<not> ar_need_snapshot result \<and>
     (ar_stale result \<longrightarrow> ar_held_digest result = ce_payload_digest e)"

lemma apply_stages:
  assumes "apply_artifacts consumer cancelled e c s = (c', s', Inr result)"
  obtains accepted s1 ready where "accepted_owners s cancelled (ce_origin e) = Inr accepted"
    "set_pins cancelled (acceptedPinPrefix @ ce_origin e @ ''/'' @ ce_change_id e) (ce_artifacts e) s = (s1, Inr ())"
    "ready_roots s1 cancelled (ce_artifacts e) = Inr ready"
    "settle_apply cancelled e accepted ready result s1 = (s', Inr result)"
proof -
  obtain accepted where a: "accepted_owners s cancelled (ce_origin e) = Inr accepted"
    using assms by (cases "accepted_owners s cancelled (ce_origin e)") (auto simp: apply_artifacts_def Let_def)
  obtain s1 u where p: "set_pins cancelled (acceptedPinPrefix @ ce_origin e @ ''/'' @ ce_change_id e) (ce_artifacts e) s = (s1, u)"
    by (cases "set_pins cancelled (acceptedPinPrefix @ ce_origin e @ ''/'' @ ce_change_id e) (ce_artifacts e) s")
  have u: "u = Inr ()" using assms a p by (cases u) (auto simp: apply_artifacts_def Let_def)
  obtain ready where r: "ready_roots s1 cancelled (ce_artifacts e) = Inr ready"
    using assms a p u
    by (cases "ready_roots s1 cancelled (ce_artifacts e)") (auto simp: apply_artifacts_def Let_def split: if_splits)
  obtain c1 rr where cc: "consumer c e ready = (c1, rr)" by (cases "consumer c e ready")
  obtain res where "rr = Inr res" "settle_apply cancelled e accepted ready res s1 = (s', Inr result)"
    using assms a p u r cc by (cases rr) (auto simp: apply_artifacts_def Let_def split: if_splits)
  moreover from this(2) have "res = result"
    by (auto simp: settle_apply_def Let_def failS_def bindS_def retS_def split: if_splits prod.splits sum.splits)
  ultimately show thesis using a p u r that by simp
qed

lemma settle_cases:
  assumes "settle_apply c e accepted ready result s = (s', Inr result')" and "ar_acked result = ce_source e"
  obtains (refused) "\<not> recorded e result" "length (ce_artifacts e) \<le> length ready"
      "release c [acceptedPinPrefix @ ce_origin e @ ''/'' @ ce_change_id e] s = (s', Inr ())"
    | (kept) s2 owners where "recorded e result" "length (ce_artifacts e) \<le> length ready"
      "set_pins c (ackedPinPrefix @ ce_origin e) (ce_artifacts e) s = (s2, Inr ())"
      "set owners = insert (acceptedPinPrefix @ ce_origin e @ ''/'' @ ce_change_id e) (set accepted)"
      "release c owners s2 = (s', Inr ())"
proof -
  let ?owner = "acceptedPinPrefix @ ce_origin e @ ''/'' @ ce_change_id e"
  let ?owners = "if ?owner \<in> set accepted then accepted else accepted @ [?owner]"
  have len: "length (ce_artifacts e) \<le> length ready"
    using assms by (auto simp: settle_apply_def Let_def failS_def not_less split: if_splits)
  show thesis
  proof (cases "recorded e result")
    case False
    with assms len have "bindS (release c [?owner]) (\<lambda>_. retS result) s = (s', Inr result')"
      by (auto simp: settle_apply_def Let_def recorded_def)
    then show thesis by (cases rule: bindS_cases) (use False len refused in \<open>auto simp: retS_def\<close>)
  next
    case True
    with assms len have "bindS (set_pins c (ackedPinPrefix @ ce_origin e) (ce_artifacts e))
        (\<lambda>_. bindS (release c ?owners) (\<lambda>_. retS result)) s = (s', Inr result')"
      by (auto simp: settle_apply_def Let_def recorded_def)
    then obtain s2 where p: "set_pins c (ackedPinPrefix @ ce_origin e) (ce_artifacts e) s = (s2, Inr ())"
      and b: "bindS (release c ?owners) (\<lambda>_. retS result) s2 = (s', Inr result')"
      by (cases rule: bindS_cases) auto
    from b have "release c ?owners s2 = (s', Inr ())"
      by (cases rule: bindS_cases) (auto simp: retS_def)
    then show thesis by (rule kept [OF True len p, rotated]) auto
  qed
qed

lemma release_facts:
  "release c owners s = (s', r) \<Longrightarrow> same_objects s s' \<and>
     (\<forall>other. pin_path other \<notin> pin_path ` set owners \<longrightarrow> pinned_roots s' other = pinned_roots s other)"
  using pins.release_all unfolding release_def by blast

lemma acknowledged_held:
  assumes "apply_artifacts consumer cancelled e c s = (c', s', Inr result)" and "ar_acked result = ce_source e"
    and "root \<in> set (ce_artifacts e)" and "reaches s' root q"
  shows "ref_held s' q"
proof -
  obtain accepted s1 ready where
    r: "ready_roots s1 cancelled (ce_artifacts e) = Inr ready"
    and st: "settle_apply cancelled e accepted ready result s1 = (s', Inr result)"
    by (rule apply_stages [OF assms(1)])
  have same: "same_objects s1 s'" and len: "length (ce_artifacts e) \<le> length ready"
    by (use settle_cases [OF st assms(2)] release_facts pins.objects same_objects_trans in metis)+
  with ready_roots_all [OF r] assms(3) have "complete s1 cancelled [root] = Inr 0" by blast
  from complete_held [OF this _ same_objects_reaches [OF assms(4) same]] same
  show ?thesis by (simp add: same_objects_held)
qed

definition digest_collision :: "bytes set \<Rightarrow> bool" where
  "digest_collision S \<longleftrightarrow> (\<exists>x \<in> S. \<exists>y \<in> S. x \<noteq> y \<and> digest_sum x = digest_sum y)"

lemma acked_not_accepted: "accepted_owner p o' \<Longrightarrow> o' \<noteq> ackedPinPrefix @ p"
  by (auto simp: accepted_owner_def cut_prefix_def acceptedPinPrefix_def ackedPinPrefix_def split: if_splits)

lemma acknowledged_pinned:
  assumes "apply_artifacts consumer cancelled e c s = (c', s', Inr result)" and "ar_acked result = ce_source e"
    and "recorded e result" and "ce_artifacts e \<noteq> []" and "list_pins s cancelled = Inr pins"
  shows "digest_collision (insert (ackedPinPrefix @ ce_origin e)
      (insert (acceptedPinPrefix @ ce_origin e @ ''/'' @ ce_change_id e) (ps_owner ` set pins))) \<or>
    pinned_roots s' (ackedPinPrefix @ ce_origin e) = Some (ce_artifacts e)" (is "digest_collision ?S \<or> _")
proof -
  let ?acked = "ackedPinPrefix @ ce_origin e" and ?owner = "acceptedPinPrefix @ ce_origin e @ ''/'' @ ce_change_id e"
  obtain accepted s1 ready where a: "accepted_owners s cancelled (ce_origin e) = Inr accepted"
    and st: "settle_apply cancelled e accepted ready result s1 = (s', Inr result)"
    by (rule apply_stages [OF assms(1)])
  from a assms(5) have acc: "accepted = filter (accepted_owner (ce_origin e)) (map ps_owner pins)"
    by (simp add: accepted_owners_def)
  from st assms(2) show ?thesis
  proof (cases rule: settle_cases)
    case refused
    with assms(3) show ?thesis by simp
  next
    case (kept s2 owners)
    have ne: "?acked \<noteq> x" "x \<in> ?S" if "x \<in> set owners" for x
      using that kept(4) acked_not_accepted [of "ce_origin e" x] unfolding acc
      by (auto simp: acceptedPinPrefix_def ackedPinPrefix_def)
    show ?thesis
    proof (cases "pin_path ?acked \<in> pin_path ` set owners")
      case True
      then obtain x where "x \<in> set owners" "digest_sum ?acked = digest_sum x" by (auto simp: pin_path_def)
      with ne show ?thesis unfolding digest_collision_def by blast
    next
      case False
      with release_facts [OF kept(5)] pins.stored [OF kept(3)] assms(4) show ?thesis by simp
    qed
  qed
qed

lemma read_unhidden: "read_manifest s d n = Inr x \<Longrightarrow> read_manifest (s\<lparr>st_unsynced := []\<rparr>) d n = Inr x"
  by (cases "map_of (st_objects s) d") (auto simp: read_manifest_def read_object_def split: if_splits)

lemma reaches_unhidden: "reaches s root q \<Longrightarrow> reaches (s\<lparr>st_unsynced := []\<rparr>) root q"
  by (induction rule: reaches.induct) (auto intro: reaches.intros read_unhidden)

definition pin_owners :: "store \<Rightarrow> string set" where
  "pin_owners s = (\<lambda>np. ps_owner (snd np)) ` set (st_pins s)"

lemma collision_mono: "digest_collision S \<Longrightarrow> S \<subseteq> T \<Longrightarrow> digest_collision T"
  unfolding digest_collision_def by blast

lemma acknowledged_kept:
  assumes a: "apply_artifacts consumer cancelled e c s = (c', s', Inr result)" "ar_acked result = ce_source e"
    "recorded e result" and v: "pins_valid s" and r: "root \<in> set (ce_artifacts e)" "reaches s' root q"
    and g: "gc cancelled' s' = (s'', rep)"
  shows "digest_collision ({ackedPinPrefix @ ce_origin e, acceptedPinPrefix @ ce_origin e @ ''/'' @ ce_change_id e} \<union> pin_owners s) \<or>
    map_of (st_objects s'') (r_digest q) = map_of (st_objects s') (r_digest q)" (is "digest_collision ?S \<or> _")
proof -
  let ?acked = "ackedPinPrefix @ ce_origin e" and ?owner = "acceptedPinPrefix @ ce_origin e @ ''/'' @ ce_change_id e"
  obtain accepted s1 ready where acc: "accepted_owners s cancelled (ce_origin e) = Inr accepted"
    and p: "set_pins cancelled ?owner (ce_artifacts e) s = (s1, Inr ())"
    and st: "settle_apply cancelled e accepted ready result s1 = (s', Inr result)"
    by (rule apply_stages [OF a(1)])
  from acc obtain pins where l: "list_pins s cancelled = Inr pins" by (auto simp: accepted_owners_def andthen_Inr_iff)
  then have "ps_owner ` set pins \<subseteq> pin_owners s"
    by (auto simp: list_pins_def andthen_Inr_iff pin_owners_def dest!: read_pins_in split: if_splits)
  then have sub: "insert ?acked (insert ?owner (ps_owner ` set pins)) \<subseteq> ?S" by auto
  have "ce_artifacts e \<noteq> []" using r(1) by auto
  from acknowledged_pinned [OF a this l] show ?thesis
  proof
    assume "pinned_roots s' ?acked = Some (ce_artifacts e)"
    then obtain pn where pn: "(pin_path ?acked, pn) \<in> set (st_pins s')" "ps_roots pn = ce_artifacts e"
      by (auto simp: pinned_roots_def dest: map_of_SomeD)
    note v1 = set_pins_valid [OF p v]
    have "pins_valid s'"
      by (rule settle_cases [OF st a(2)]) (blast intro: release_valid set_pins_valid v1)+
    from gc_pinned_kept [OF g this pn(1) _ _ reaches_unhidden [OF r(2)]] pn(2) r(1) show ?thesis by simp
  qed (use collision_mono [OF _ sub] in blast)
qed

subsection \<open>Properties\<close>

text \<open>A revision is accepted exactly when it is the canonical decimal of a 64-bit number, so two
  peers never disagree on the order or the equality of revisions they compare as text.\<close>

theorem revision_canonical: "revision_value r = Inr v \<longleftrightarrow> v < 2 ^ 64 \<and> r = new_revision v"
  by (rule revision_value_iff)

text \<open>A change identity names the delivery: two bound changes with one identity are the same
  change from the same origin, as long as the hash does not collide on what they hash. The length
  before each value keeps two lists of values from hashing alike.\<close>

theorem change_identity_unique:
  assumes "bind_delivery e p = Inr b" and "bind_delivery e' p' = Inr b'" and "ce_change_id b = ce_change_id b'"
    and "collision_free {frame (change_values e p), frame (change_values e' p')}"
    and "collision_free {ce_payload e, ce_payload e'}"
  shows "b = b'"
  using assms by (rule change_identity)

text \<open>A snapshot with one root.\<close>

definition sample_change :: change_envelope where
  "sample_change = \<lparr>ce_service = ''notes'', ce_schema = replicate 64 CHR ''0'', ce_origin = [], ce_change_id = [],
     ce_kind = ChangeSnapshot, ce_base = ''0'', ce_source = ''1'', ce_payload_digest = digest_sum ''0'',
     ce_payload = ''0'', ce_artifacts = [one_ref]\<rparr>"

definition bound_change :: change_envelope where
  "bound_change = sample_change\<lparr>ce_origin := ''a'', ce_change_id := digest_sum (frame (change_values sample_change ''a''))\<rparr>"

lemma small_revisions: "revision_value ''0'' = Inr 0" "revision_value ''1'' = Inr 1"
  by (simp_all add: revision_value_def parse_uint64_def is_digit_def digits_val_def digit_val_def)

lemma exact_digest_sum [simp]: "exact_digest (digest_sum b)"
proof -
  have "map fold_ascii (hex_encode x) = hex_encode x" for x
    using hex_encode_lower [of x] by (intro map_idI) (auto simp: list_all_iff is_lower_hex_def fold_ascii_def)
  then show ?thesis by (simp add: exact_digest_def digest_sum_def)
qed

lemma sample_valid: "validate_change False sample_change = Inr ()" "validate_change True bound_change = Inr ()"
proof -
  have s: "validate_service_schema ''notes'' (replicate 64 CHR ''0'') = Inr ()" by code_simp
  have j: "json_valid ''0''" by code_simp
  show "validate_change False sample_change = Inr ()" "validate_change True bound_change = Inr ()"
    by (simp_all add: validate_change_iff bound_change_def sample_change_def s j small_revisions MaxTransferPayload_def
        one_valid)
qed

lemma bound_fields: "ce_kind bound_change = ChangeSnapshot" "ce_kind bound_change \<noteq> ChangeDelta" "ce_origin bound_change = ''a''"
    "source_of bound_change = 1" "ce_artifacts bound_change = [one_ref]" "ce_source bound_change = ''1''"
  by (simp_all add: bound_change_def sample_change_def source_of_def small_revisions ChangeSnapshot_def ChangeDelta_def)

lemma sample_bound: "bind_delivery sample_change ''a'' = Inr bound_change"
  using sample_valid by (simp add: bind_delivery_def origin_ok_def bound_change_def Let_def)

theorem change_identity_unique_witness: "bound_change = bound_change"
  by (rule change_identity_unique [OF sample_bound sample_bound]) (simp_all add: collision_free_def)



text \<open>Snapshots of one origin converge: two receivers that got the same set of snapshots, in
  any order and with any repetition, hold the same receipt, as long as the origin never gave two
  of them one revision.\<close>

theorem snapshots_converge:
  assumes "set es = set es'" and "inj_on source_of (set es)"
    and "\<forall>e \<in> set es. validate_change True e = Inr () \<and> ce_kind e = ChangeSnapshot \<and> ce_origin e = p"
  shows "fst (fold receive es (None, [])) = fst (fold receive es' (None, []))"
proof (cases "es = []")
  case True
  with assms(1) show ?thesis by simp
next
  case False
  then have "Max (source_of ` set es) \<in> source_of ` set es" by (intro Max_in) auto
  then obtain e where e: "e \<in> set es" "source_of e = Max (source_of ` set es)" by auto
  then have "\<forall>x \<in> set es. source_of x \<le> source_of e" by simp
  with e(1) snapshots_held [OF assms(3) e(1) assms(2)] snapshots_held [of es' p e] assms show ?thesis by simp
qed

theorem snapshots_converge_witness:
  "fst (fold receive [bound_change] (None, [])) = fst (fold receive [bound_change, bound_change] (None, []))"
  by (rule snapshots_converge [where p = "''a''"])
    (use sample_valid(2) in \<open>simp_all add: bound_fields\<close>)


definition acking :: "unit consumer" where
  "acking c e ready = (c, Inr (zero_result\<lparr>ar_acked := ce_source e\<rparr>))"

lemma set_pins_no_faults:
  "st_faults s = [] \<Longrightarrow> validate_pins_set owner roots = Inr () \<Longrightarrow>
   \<exists>s'. set_pins False owner roots s = (s', Inr ()) \<and> st_faults s' = []"
  by (auto simp: set_pins_def bindS_def liftS_def disk_def Let_def)

lemma one_complete:
  assumes "same_objects one_store s"
  shows "complete s False [one_ref] = Inr 0"
  using assms by (simp add: complete_def one_valid)
    (simp add: one_ref_def one_store_def empty_store_def visit.simps new_walker_def reach_add_def same_objects_def
        visit_blob_def stat_object_def blob_known_def count_object_def DefaultClosureBound_def)

lemma plain_owner: "validate_pins_set (ackedPinPrefix @ ''a'') [one_ref] = Inr ()"
  "roots = [] \<or> roots = [one_ref] \<Longrightarrow>
   validate_pins_set (acceptedPinPrefix @ ''a/'' @ digest_sum b) roots = Inr ()"
proof -
  have d: "\<not> list_ex (\<lambda>c. c = CHR 0x00 \<or> c = CHR 0x0D \<or> c = CHR 0x0A) (digest_sum b)"
    using hex_encode_lower [of "sha256 b"] by (auto simp: digest_sum_def list_all_iff list_ex_iff is_lower_hex_def)
  have r: "validate_refs roots ''root'' = Inr ()" if "roots = [] \<or> roots = [one_ref]" for roots
    using that one_valid by (auto simp: validate_roots_iff validate_refs_iff)
  then show "validate_pins_set (ackedPinPrefix @ ''a'') [one_ref] = Inr ()"
    by (simp add: validate_pins_set_def ackedPinPrefix_def MaxPinRoots_def MaxRoots_def)
  show "validate_pins_set (acceptedPinPrefix @ ''a/'' @ digest_sum b) roots = Inr ()" if "roots = [] \<or> roots = [one_ref]"
    using that r [OF that] d by (auto simp: validate_pins_set_def acceptedPinPrefix_def MaxPinRoots_def MaxRoots_def)
qed

lemma one_applied:
  "\<exists>s'. apply_artifacts acking False bound_change () one_store =
     ((), s', Inr (zero_result\<lparr>ar_acked := ''1''\<rparr>))"
proof -
  let ?owner = "acceptedPinPrefix @ ''a/'' @ ce_change_id bound_change"
  have own: "validate_pins_set ?owner roots = Inr ()" if "roots = [] \<or> roots = [one_ref]" for roots
    using plain_owner(2) [OF that] by (simp add: bound_change_def)
  obtain s1 where 1: "set_pins False ?owner [one_ref] one_store = (s1, Inr ())" "st_faults s1 = []"
    using set_pins_no_faults [of one_store ?owner "[one_ref]"] own by (auto simp: one_store_def empty_store_def)
  then have "complete s1 False [one_ref] = Inr 0" using set_pins_cases one_complete by blast
  then have r: "ready_roots s1 False [one_ref] = Inr [one_ref]" by simp
  obtain s2 where 2: "set_pins False (ackedPinPrefix @ ''a'') [one_ref] s1 = (s2, Inr ())" "st_faults s2 = []"
    using set_pins_no_faults [OF 1(2) plain_owner(1)] by blast
  obtain s3 where 3: "set_pins False ?owner [] s2 = (s3, Inr ())"
    using set_pins_no_faults [OF 2(2) own] by blast
  have "accepted_owners one_store False ''a'' = Inr []"
    by (simp add: accepted_owners_def list_pins_def one_store_def empty_store_def)
  with 1 2 3 r show ?thesis
    by (auto simp: apply_artifacts_def bound_fields acking_def settle_apply_def Let_def zero_result_def bindS_def
        release_def retS_def)
qed


end
