(* ===== verification/Effects.thy ===== *)
theory Effects
  imports Prelude
begin

text \<open>
  Operations over a state that may fail: the sequence that stops at the first error and keeps the
  state the failed step left, and the rules the components' proofs take it apart with.
\<close>

definition bindE :: "('s \<Rightarrow> 's \<times> ('e + 'a)) \<Rightarrow> ('a \<Rightarrow> 's \<Rightarrow> 's \<times> ('e + 'b)) \<Rightarrow> 's \<Rightarrow> 's \<times> ('e + 'b)" where
  "bindE m k s = (case m s of (s', Inl e) \<Rightarrow> (s', Inl e) | (s', Inr x) \<Rightarrow> k x s')"

definition liftE :: "'e + 'a \<Rightarrow> 's \<Rightarrow> 's \<times> ('e + 'a)" where
  "liftE r s = (s, r)"

lemma bindE_cases:
  assumes "bindE m k s = (s', r)"
  obtains (error) e where "m s = (s', Inl e)" "r = Inl e"
  | (next_step) s1 x where "m s = (s1, Inr x)" "k x s1 = (s', r)"
  using assms by (auto simp: bindE_def split: prod.splits sum.splits)

lemma bindE_liftE [simp]: "bindE (liftE (Inl e)) k s = (s, Inl e)" "bindE (liftE (Inr x)) k = k x"
  by (simp_all add: bindE_def liftE_def fun_eq_iff)

lemma liftE_eq [simp]: "liftE r s = (s', r') \<longleftrightarrow> s' = s \<and> r' = r"
  by (auto simp: liftE_def)

end
