(* ===== verification/Delivery_Store.thy ===== *)
theory Delivery_Store
  imports Sync_Service "HOL-Library.Product_Lexorder" Effects
begin

text \<open>
  The durable delivery state of a sender (\<^verbatim>\<open>src/daemon/delivery.go\<close>): one record per service and
  peer with the acknowledged revision and the pending change, kept in one file, and one file per
  pending change beside it. Files hold decoded values, or the error their decoding gives: the
  state is written and read back by one JSON codec. Every call on the disk takes the next outcome
  of a fault script, so a theorem about every script is one about every crash point.
\<close>

subsection \<open>State and disk\<close>

record pending_ref =
  pr_change_id :: string
  pr_kind :: string
  pr_base :: revision
  pr_source :: revision
  pr_roots :: "ref list"
  pr_staged_at :: gotime
  pr_superseded :: u64

record delivery_record =
  dr_service :: string
  dr_peer :: string
  dr_generation :: u64
  dr_acked :: revision
  dr_acked_change_id :: string
  dr_acked_at :: gotime
  dr_pending :: "pending_ref option"

record delivery_state =
  ds_identity :: string
  ds_version :: nat
  ds_records :: "delivery_record list option"

record delivery_v1_record =
  v1_service :: string
  v1_peer :: string
  v1_acked :: revision
  v1_pending :: "change_envelope option"

record delivery_v1_state =
  v1_identity :: string
  v1_version :: nat
  v1_records :: "delivery_v1_record list option"

definition deliveryStateIdentity :: string where "deliveryStateIdentity = ''synckit-delivery-v2''"
definition deliveryStateVersion :: nat where "deliveryStateVersion = 2"
definition deliveryV1StateIdentity :: string where "deliveryV1StateIdentity = ''synckit-delivery-v1''"

text \<open>The directory: the state file, the state file of the first version, and the pending files.\<close>

record delivery_disk =
  dd_state :: "delivery_state res option"
  dd_v1 :: "delivery_v1_state res option"
  dd_pending :: "change_envelope res dir"
  dd_now :: gotime
  dd_faults :: "fault list"

type_synonym 'a dstep = "delivery_disk \<Rightarrow> delivery_disk \<times> 'a res"

definition durable :: "string \<Rightarrow> (delivery_disk \<Rightarrow> delivery_disk) \<Rightarrow> unit dstep" where
  "durable what eff s =
     (let s' = s\<lparr>dd_faults := tl (dd_faults s)\<rparr> in
      case (if dd_faults s = [] then Fine else hd (dd_faults s)) of
        Fine \<Rightarrow> (eff s', Inr ())
      | FailBefore \<Rightarrow> (s', Inl (ErrIO what))
      | FailAfter \<Rightarrow> (eff s', Inl (ErrIO what)))"

definition attempt :: "string \<Rightarrow> unit dstep" where
  "attempt what = durable what (\<lambda>s. s)"

subsection \<open>Records\<close>

definition must_revision :: "revision \<Rightarrow> nat res" where
  "must_revision r = (case revision_value r of
     Inl _ \<Rightarrow> Inl (GoPanic ''delivery: validated revision does not parse'') | Inr v \<Rightarrow> Inr v)"

definition is_record :: "string \<Rightarrow> string \<Rightarrow> delivery_record \<Rightarrow> bool" where
  "is_record service peer r \<longleftrightarrow> dr_service r = service \<and> dr_peer r = peer"

fun record_index :: "delivery_record list \<Rightarrow> string \<Rightarrow> string \<Rightarrow> nat option" where
  "record_index [] service peer = None"
| "record_index (r # rs) service peer =
     (if is_record service peer r then Some 0 else map_option Suc (record_index rs service peer))"

definition new_record :: "string \<Rightarrow> string \<Rightarrow> delivery_record" where
  "new_record service peer = \<lparr>dr_service = service, dr_peer = peer, dr_generation = 0, dr_acked = new_revision 0,
     dr_acked_change_id = [], dr_acked_at = 0, dr_pending = None\<rparr>"

definition find_record :: "delivery_record list \<Rightarrow> string \<Rightarrow> string \<Rightarrow> delivery_record" where
  "find_record rs service peer = (case record_index rs service peer of
     Some i \<Rightarrow> rs ! i | None \<Rightarrow> new_record service peer)"

text \<open>\<^verbatim>\<open>upsert\<close> gives the list with the record in it, and the record's index.\<close>

definition upsert :: "delivery_record list \<Rightarrow> string \<Rightarrow> string \<Rightarrow> delivery_record list \<times> nat" where
  "upsert rs service peer = (case record_index rs service peer of
     Some i \<Rightarrow> (rs, i) | None \<Rightarrow> (rs @ [find_record rs service peer], length rs))"

text \<open>\<^verbatim>\<open>filepath.Base\<close>.\<close>

fun drop_slashes :: "string \<Rightarrow> string" where
  "drop_slashes s = rev (dropWhile (\<lambda>c. c = CHR ''/'') (rev s))"

definition file_base :: "string \<Rightarrow> string" where
  "file_base s =
     (if s = [] then ''.''
      else let t = drop_slashes s; b = rev (takeWhile (\<lambda>c. c \<noteq> CHR ''/'') (rev t)) in
        if b = [] then ''/'' else b)"

definition validate_pending :: "nat \<Rightarrow> pending_ref \<Rightarrow> unit res" where
  "validate_pending acked p =
     (if pr_change_id p = [] \<or> file_base (pr_change_id p) \<noteq> pr_change_id p \<or> hd (pr_change_id p) = CHR ''.'' then
        Inl (ErrMsg ''pending change id'')
      else if pr_kind p \<noteq> ChangeSnapshot \<and> pr_kind p \<noteq> ChangeDelta then Inl (ErrMsg ''pending kind'')
      else andthen (revision_value (pr_base p)) (\<lambda>_. andthen (revision_value (pr_source p)) (\<lambda>source.
        if source \<le> acked then Inl (ErrMsg ''pending source does not exceed acked'')
        else validate_roots (pr_roots p))))"

definition validate_record :: "delivery_record \<Rightarrow> unit res" where
  "validate_record r =
     (if dr_service r = [] \<or> dr_peer r = [] then Inl (ErrMsg ''service and peer are required'')
      else andthen (revision_value (dr_acked r)) (\<lambda>acked.
        case dr_pending r of None \<Rightarrow> Inr () | Some p \<Rightarrow> validate_pending acked p))"

fun validate_records_from :: "delivery_record list \<Rightarrow> delivery_record list \<Rightarrow> unit res" where
  "validate_records_from before [] = Inr ()"
| "validate_records_from before (r # rs) = andthen (validate_record r) (\<lambda>_.
     if list_ex (is_record (dr_service r) (dr_peer r)) before then Inl (ErrMsg ''duplicate record'')
     else validate_records_from (before @ [r]) rs)"

definition check_state :: "delivery_state \<Rightarrow> delivery_record list res" where
  "check_state st =
     (if ds_identity st \<noteq> deliveryStateIdentity \<or> ds_version st \<noteq> deliveryStateVersion \<or> ds_records st = None then
        Inl (ErrMsg ''delivery: state schema mismatch'')
      else andthen (validate_records_from [] (the (ds_records st))) (\<lambda>_. Inr (the (ds_records st))))"

subsection \<open>Reading and writing the state\<close>

text \<open>The state file's records, \<open>None\<close> when there is no file.\<close>

definition read_delivery_state :: "delivery_record list option dstep" where
  "read_delivery_state = bindE (attempt ''read state'') (\<lambda>_ s.
     case dd_state s of
       None \<Rightarrow> (s, Inr None)
     | Some (Inl e) \<Rightarrow> (s, Inl e)
     | Some (Inr st) \<Rightarrow> (s, andthen (check_state st) (\<lambda>rs. Inr (Some rs))))"

definition state_of :: "delivery_record list \<Rightarrow> delivery_state" where
  "state_of rs = \<lparr>ds_identity = deliveryStateIdentity, ds_version = deliveryStateVersion, ds_records = Some rs\<rparr>"

definition sort_records :: "delivery_record list \<Rightarrow> delivery_record list" where
  "sort_records rs = sort_key (\<lambda>r. (dr_service r, dr_peer r)) rs"

definition write_delivery_state :: "delivery_record list \<Rightarrow> delivery_record list dstep" where
  "write_delivery_state rs =
     bindE (durable ''write state'' (\<lambda>s. s\<lparr>dd_state := Some (Inr (state_of (sort_records rs)))\<rparr>))
       (\<lambda>_. liftE (Inr (sort_records rs)))"

fun migrate_records :: "delivery_v1_record list \<Rightarrow> delivery_record list \<Rightarrow> delivery_record list res" where
  "migrate_records [] rs = Inr rs"
| "migrate_records (v # vs) rs =
     (if v1_service v = [] \<or> v1_peer v = [] then Inl (ErrMsg ''delivery: v1 record is incomplete'')
      else andthen (revision_value (v1_acked v)) (\<lambda>_.
        if record_index rs (v1_service v) (v1_peer v) \<noteq> None then Inl (ErrMsg ''delivery: v1 state has a duplicate record'')
        else migrate_records vs (rs @ [(new_record (v1_service v) (v1_peer v))\<lparr>dr_acked := v1_acked v\<rparr>])))"

definition check_v1 :: "delivery_v1_state \<Rightarrow> delivery_record list res" where
  "check_v1 st =
     (if v1_identity st \<noteq> deliveryV1StateIdentity \<or> v1_version st \<noteq> 1 \<or> v1_records st = None then
        Inl (ErrMsg ''delivery: v1 state schema mismatch'')
      else migrate_records (the (v1_records st)) [])"

definition migrate :: "delivery_record list dstep" where
  "migrate s = (case dd_v1 s of
     None \<Rightarrow> (s, Inr [])
   | Some v \<Rightarrow> bindE (attempt ''lock v1'') (\<lambda>_. bindE (attempt ''read v1'') (\<lambda>_.
       bindE (liftE (andthen v check_v1)) (\<lambda>rs. bindE (write_delivery_state rs) (\<lambda>rs'.
         bindE (durable ''remove v1'' (\<lambda>s. s\<lparr>dd_v1 := None\<rparr>)) (\<lambda>_. liftE (Inr rs')))))) s)"

definition pending_name :: "string \<Rightarrow> string" where
  "pending_name change_id = change_id @ ''.json''"

definition referenced :: "delivery_record list \<Rightarrow> string list" where
  "referenced rs = map (\<lambda>p. pending_name (pr_change_id p)) (List.map_filter dr_pending rs)"

fun sweep_pending :: "string list \<Rightarrow> string list \<Rightarrow> unit dstep" where
  "sweep_pending keep [] = liftE (Inr ())"
| "sweep_pending keep (n # ns) =
     (if n \<in> set keep then sweep_pending keep ns
      else bindE (durable ''remove pending'' (\<lambda>s. s\<lparr>dd_pending := AList.delete n (dd_pending s)\<rparr>))
        (\<lambda>_. sweep_pending keep ns))"

definition sweep :: "delivery_record list \<Rightarrow> unit dstep" where
  "sweep rs = bindE (attempt ''read pending directory'') (\<lambda>_ s.
     sweep_pending (referenced rs) (map fst (dd_pending s)) s)"

definition open_state :: "delivery_record list dstep" where
  "open_state =
     bindE (attempt ''make directories'') (\<lambda>_. bindE (attempt ''acquire lock'') (\<lambda>_.
     bindE read_delivery_state (\<lambda>found.
     bindE (case found of None \<Rightarrow> migrate | Some rs \<Rightarrow> liftE (Inr rs)) (\<lambda>rs.
     bindE (sweep rs) (\<lambda>_. liftE (Inr rs))))))"

definition close_state :: "delivery_record list \<Rightarrow> unit dstep" where
  "close_state rs = bindE (write_delivery_state rs) sweep"

definition with_state :: "bool \<Rightarrow> (delivery_record list \<Rightarrow> (delivery_record list \<times> 'a) dstep) \<Rightarrow> 'a dstep" where
  "with_state wr apply_fn =
     bindE open_state (\<lambda>rs. bindE (apply_fn rs) (\<lambda>(rs', x).
       if \<not> wr then liftE (Inr x) else bindE (close_state rs') (\<lambda>_. liftE (Inr x))))"

definition read_pending :: "string \<Rightarrow> change_envelope dstep" where
  "read_pending change_id = bindE (attempt ''read pending'') (\<lambda>_ s.
     case map_of (dd_pending s) (pending_name change_id) of
       None \<Rightarrow> (s, Inl ErrNotExist)
     | Some c \<Rightarrow> (s, andthen c (\<lambda>change. andthen (validate_change True change) (\<lambda>_.
         if ce_change_id change \<noteq> change_id then Inl (ErrMsg ''delivery: pending file holds another change'')
         else Inr change))))"

subsection \<open>The operations\<close>

definition load_fn :: "string \<Rightarrow> string \<Rightarrow> delivery_record list \<Rightarrow>
    (delivery_record list \<times> delivery_record \<times> change_envelope option) dstep" where
  "load_fn service peer rs =
     (let record = find_record rs service peer in
      case dr_pending record of
        None \<Rightarrow> liftE (Inr (rs, record, None))
      | Some p \<Rightarrow> bindE (read_pending (pr_change_id p)) (\<lambda>change. liftE (Inr (rs, record, Some change))))"

definition load :: "string \<Rightarrow> string \<Rightarrow> (delivery_record \<times> change_envelope option) dstep" where
  "load service peer = with_state False (load_fn service peer)"

definition records_fn :: "string \<Rightarrow> delivery_record list \<Rightarrow> (delivery_record list \<times> delivery_record list) dstep" where
  "records_fn service rs = liftE (Inr (rs, filter (\<lambda>r. service = [] \<or> dr_service r = service) rs))"

definition records_of :: "string \<Rightarrow> delivery_record list dstep" where
  "records_of service = with_state False (records_fn service)"

text \<open>What \<^verbatim>\<open>stage\<close> checks before it writes, and the pending reference it would hold.\<close>

definition held_id :: "delivery_record \<Rightarrow> string" where
  "held_id r = (case dr_pending r of None \<Rightarrow> [] | Some p \<Rightarrow> pr_change_id p)"

definition next_pending :: "change_envelope \<Rightarrow> gotime \<Rightarrow> u64 \<Rightarrow> pending_ref" where
  "next_pending e now n = \<lparr>pr_change_id = ce_change_id e, pr_kind = ce_kind e, pr_base = ce_base e,
     pr_source = ce_source e, pr_roots = ce_artifacts e, pr_staged_at = now, pr_superseded = n\<rparr>"

definition check_stage :: "delivery_record \<Rightarrow> string \<Rightarrow> nat \<Rightarrow> change_envelope \<Rightarrow> gotime \<Rightarrow> pending_ref res" where
  "check_stage r expected source e now =
     (if held_id r \<noteq> expected then Inl ErrPendingChanged
      else andthen (must_revision (dr_acked r)) (\<lambda>acked.
        if source \<le> acked then Inl ErrSourceRegressed
        else case dr_pending r of
          None \<Rightarrow> Inr (next_pending e now 0)
        | Some old \<Rightarrow> andthen (must_revision (pr_source old)) (\<lambda>old_source.
            let replaces_delta = (source = old_source \<and> pr_kind old = ChangeDelta) in
            if ce_kind e \<noteq> ChangeSnapshot \<or> (source \<le> old_source \<and> \<not> replaces_delta) then Inl ErrSupersede
            else Inr (next_pending e now (pr_superseded old + 1)))))"

definition stage_fn :: "string \<Rightarrow> string \<Rightarrow> nat \<Rightarrow> change_envelope \<Rightarrow> delivery_record list \<Rightarrow>
    (delivery_record list \<times> unit) dstep" where
  "stage_fn peer expected source e rs s =
     (let (rs', i) = upsert rs (ce_service e) peer; r = rs' ! i in
      bindE (liftE (check_stage r expected source e (dd_now s))) (\<lambda>p.
        bindE (durable ''write pending'' (\<lambda>s. s\<lparr>dd_pending := AList.update (pending_name (ce_change_id e)) (Inr e) (dd_pending s)\<rparr>))
          (\<lambda>_. liftE (Inr (rs'[i := r\<lparr>dr_pending := Some p, dr_generation := dr_generation r + 1\<rparr>], ())))) s)"

definition stage :: "string \<Rightarrow> string \<Rightarrow> change_envelope \<Rightarrow> unit dstep" where
  "stage peer expected e =
     bindE (liftE (validate_change True e)) (\<lambda>_. bindE (liftE (revision_value (ce_source e))) (\<lambda>source.
       with_state True (stage_fn peer expected source e)))"

definition ack_record :: "change_envelope \<Rightarrow> nat \<Rightarrow> gotime \<Rightarrow> delivery_record \<Rightarrow> delivery_record res" where
  "ack_record e source now r = andthen (must_revision (dr_acked r)) (\<lambda>acked.
     Inr (r\<lparr>dr_acked := (if source > acked then ce_source e else dr_acked r), dr_acked_change_id := ce_change_id e,
            dr_acked_at := now, dr_pending := None, dr_generation := dr_generation r + 1\<rparr>))"

definition ack_fn :: "string \<Rightarrow> nat \<Rightarrow> change_envelope \<Rightarrow> delivery_record list \<Rightarrow> (delivery_record list \<times> unit) dstep" where
  "ack_fn peer source e rs s = (case record_index rs (ce_service e) peer of
       None \<Rightarrow> (s, Inl ErrPendingChanged)
     | Some i \<Rightarrow>
         if dr_pending (rs ! i) = None \<or> held_id (rs ! i) \<noteq> ce_change_id e then (s, Inl ErrPendingChanged)
         else bindE (liftE (ack_record e source (dd_now s) (rs ! i))) (\<lambda>r. liftE (Inr (rs[i := r], ()))) s)"

definition acknowledge :: "string \<Rightarrow> change_envelope \<Rightarrow> apply_result \<Rightarrow> unit dstep" where
  "acknowledge peer e ack =
     (if ar_need_snapshot ack \<or> ar_partial ack \<or> ar_acked ack \<noteq> ce_source e then
        liftE (Inl (ErrMsg ''delivery: acknowledgement does not match pending source revision''))
      else bindE (liftE (revision_value (ce_source e))) (\<lambda>source. with_state True (ack_fn peer source e)))"

subsection \<open>Records as a table\<close>

definition record_key :: "delivery_record \<Rightarrow> string \<times> string" where
  "record_key r = (dr_service r, dr_peer r)"

lemma is_record_key: "is_record service peer r \<longleftrightarrow> record_key r = (service, peer)"
  by (auto simp: is_record_def record_key_def)

lemma record_index_Some: "record_index rs service peer = Some i \<Longrightarrow>
   i < length rs \<and> record_key (rs ! i) = (service, peer)"
  by (induction rs arbitrary: i) (auto simp: is_record_key split: if_splits)

lemma record_index_None: "record_index rs service peer = None \<longleftrightarrow> (service, peer) \<notin> record_key ` set rs"
  by (induction rs) (auto simp: is_record_key)

lemma find_recordI:
  assumes "distinct (map record_key rs)" "r \<in> set rs" "record_key r = (service, peer)"
  shows "find_record rs service peer = r"
proof -
  obtain i where i: "record_index rs service peer = Some i"
    using assms record_index_None [of rs service peer] by (cases "record_index rs service peer") force+
  with record_index_Some have "rs ! i \<in> set rs" "record_key (rs ! i) = record_key r" using assms(3) by force+
  with assms(1,2) have "rs ! i = r" by (metis distinct_map inj_on_eq_iff)
  with i show ?thesis by (simp add: find_record_def)
qed

lemma find_record_new: "(service, peer) \<notin> record_key ` set rs \<Longrightarrow> find_record rs service peer = new_record service peer"
  using record_index_None [of rs service peer] by (simp add: find_record_def)

lemma find_record_cases:
  obtains (held) "find_record rs service peer \<in> set rs" "record_key (find_record rs service peer) = (service, peer)"
    | (fresh) "(service, peer) \<notin> record_key ` set rs" "find_record rs service peer = new_record service peer"
  using record_index_None [of rs service peer] record_index_Some [of rs service peer]
  by (cases "record_index rs service peer") (auto simp: find_record_def)

definition records_ok :: "delivery_record list \<Rightarrow> bool" where
  "records_ok rs \<longleftrightarrow> (\<forall>r \<in> set rs. validate_record r = Inr ()) \<and> distinct (map record_key rs)"

lemma has_record_iff: "list_ex (is_record (dr_service r) (dr_peer r)) rs \<longleftrightarrow> record_key r \<in> record_key ` set rs"
  by (induction rs) (auto simp: is_record_def record_key_def)

lemma validate_records_from_iff: "validate_records_from before rs = Inr u \<longleftrightarrow>
   (\<forall>r \<in> set rs. validate_record r = Inr ()) \<and> distinct (map record_key rs) \<and>
   record_key ` set rs \<inter> record_key ` set before = {}"
  by (induction rs arbitrary: before)
    (auto simp: andthen_Inr_iff has_record_iff)

lemma check_state_iff: "check_state st = Inr rs \<longleftrightarrow> st = state_of rs \<and> records_ok rs"
  by (cases st) (auto simp: check_state_def state_of_def records_ok_def andthen_Inr_iff validate_records_from_iff)

lemma sort_records_ok [simp]: "records_ok (sort_records rs) = records_ok rs" "set (sort_records rs) = set rs"
  by (simp_all add: records_ok_def sort_records_def distinct_map)

lemma find_record_set:
  assumes "distinct (map record_key rs)" "distinct (map record_key rs')" "set rs = set rs'"
  shows "find_record rs service peer = find_record rs' service peer"
  by (cases rule: find_record_cases [of rs service peer])
    (use assms find_recordI find_record_new in \<open>metis\<close>)+

subsection \<open>The invariant of the directory\<close>

definition pending_ok :: "delivery_disk \<Rightarrow> delivery_record list \<Rightarrow> bool" where
  "pending_ok d rs \<longleftrightarrow> (\<forall>r \<in> set rs. \<forall>p. dr_pending r = Some p \<longrightarrow>
     (\<exists>c. map_of (dd_pending d) (pending_name (pr_change_id p)) = Some (Inr c) \<and>
       validate_change True c = Inr () \<and> ce_change_id c = pr_change_id p))"

definition delivery_inv :: "delivery_disk \<Rightarrow> bool" where
  "delivery_inv d \<longleftrightarrow> (\<forall>st. dd_state d = Some st \<longrightarrow>
     (\<exists>rs. st = Inr (state_of rs) \<and> records_ok rs \<and> pending_ok d rs))"

text \<open>The records the directory stands for, those of the first version before its migration.\<close>

definition current :: "delivery_disk \<Rightarrow> delivery_record list" where
  "current d = (case dd_state d of
     Some (Inr st) \<Rightarrow> (case ds_records st of Some rs \<Rightarrow> rs | None \<Rightarrow> [])
   | _ \<Rightarrow> (case dd_v1 d of
       Some (Inr v) \<Rightarrow> (case check_v1 v of Inr rs \<Rightarrow> rs | Inl _ \<Rightarrow> [])
     | _ \<Rightarrow> []))"

definition same_state :: "delivery_disk \<Rightarrow> delivery_disk \<Rightarrow> bool" where
  "same_state d d' \<longleftrightarrow> dd_state d' = dd_state d \<and> dd_v1 d' = dd_v1 d \<and> dd_now d' = dd_now d"

lemma same_state_refl [simp]: "same_state d d"
  by (simp add: same_state_def)

lemma same_state_trans: "same_state a b \<Longrightarrow> same_state b c \<Longrightarrow> same_state a c"
  by (simp add: same_state_def)

lemma current_same: "same_state d d' \<Longrightarrow> current d' = current d"
  by (simp add: same_state_def current_def cong: option.case_cong sum.case_cong)

lemma current_state [simp]: "dd_state d = Some (Inr (state_of rs)) \<Longrightarrow> current d = rs"
  by (simp add: current_def state_of_def)

lemma state_of_inj [simp]: "state_of rs = state_of rs' \<longleftrightarrow> rs = rs'"
  by (simp add: state_of_def)

lemma durable_cases: "durable what eff s = (s', r) \<Longrightarrow>
   (s' = eff (s\<lparr>dd_faults := tl (dd_faults s)\<rparr>) \<or> s' = s\<lparr>dd_faults := tl (dd_faults s)\<rparr> \<and> r \<noteq> Inr ())"
  by (auto simp: durable_def Let_def split: fault.splits if_splits)

lemma attempt_cases: "attempt what s = (s', r) \<Longrightarrow> s' = s\<lparr>dd_faults := tl (dd_faults s)\<rparr>"
  by (auto simp: attempt_def dest: durable_cases)

lemma reloaded_same [simp]: "same_state (d\<lparr>dd_faults := fs\<rparr>) d' = same_state d d'"
  "same_state d (d'\<lparr>dd_faults := fs\<rparr>) = same_state d d'" "pending_ok (d\<lparr>dd_faults := fs\<rparr>) rs = pending_ok d rs"
  "delivery_inv (d\<lparr>dd_faults := fs\<rparr>) = delivery_inv d" "current (d\<lparr>dd_faults := fs\<rparr>) = current d"
  by (simp_all add: same_state_def pending_ok_def delivery_inv_def current_def cong: option.case_cong sum.case_cong)

lemma sweep_pending_keeps:
  "sweep_pending keep ns s = (s', r) \<Longrightarrow> same_state s s' \<and>
   (\<forall>n \<in> set keep. map_of (dd_pending s') n = map_of (dd_pending s) n)"
proof (induction ns arbitrary: s)
  case (Cons n ns)
  show ?case
  proof (cases "n \<in> set keep")
    case False
    with Cons.prems have "bindE (durable ''remove pending'' (\<lambda>s. s\<lparr>dd_pending := AList.delete n (dd_pending s)\<rparr>))
        (\<lambda>_. sweep_pending keep ns) s = (s', r)" by simp
    then show ?thesis
    proof (cases rule: bindE_cases)
      case (error e)
      with False show ?thesis by (auto simp: same_state_def dest!: durable_cases)
    next
      case (next_step s1 x)
      from Cons.IH [OF next_step(2)] next_step(1) False show ?thesis
        by (auto simp: same_state_def dest!: durable_cases)
    qed
  qed (use Cons in simp)
qed simp

lemma referenced_iff: "n \<in> set (referenced rs) \<longleftrightarrow> (\<exists>r \<in> set rs. \<exists>p. dr_pending r = Some p \<and> n = pending_name (pr_change_id p))"
  by (force simp: referenced_def List.map_filter_def)

lemma sweep_keeps:
  assumes "sweep rs s = (s', r)"
  shows "same_state s s' \<and> (pending_ok s rs \<longrightarrow> pending_ok s' rs)"
proof -
  from assms have "same_state s s' \<and> (\<forall>n \<in> set (referenced rs). map_of (dd_pending s') n = map_of (dd_pending s) n)"
    unfolding sweep_def
    by (cases rule: bindE_cases) (auto dest!: attempt_cases sweep_pending_keeps)
  moreover have "pending_name (pr_change_id p) \<in> set (referenced rs)" if "r \<in> set rs" "dr_pending r = Some p" for r p
    using that referenced_iff by blast
  ultimately show ?thesis by (simp add: pending_ok_def)
qed

lemma inv_same: "same_state s s' \<Longrightarrow> (\<And>rs. pending_ok s rs \<Longrightarrow> dd_state s = Some (Inr (state_of rs)) \<Longrightarrow> pending_ok s' rs) \<Longrightarrow>
   delivery_inv s \<Longrightarrow> delivery_inv s'"
  by (fastforce simp: delivery_inv_def same_state_def)

lemma write_state_cases:
  assumes "write_delivery_state rs s = (s', r)"
  shows "(dd_state s' = Some (Inr (state_of (sort_records rs))) \<or> dd_state s' = dd_state s \<and> (\<forall>x. r \<noteq> Inr x)) \<and>
    dd_v1 s' = dd_v1 s \<and> dd_pending s' = dd_pending s \<and> dd_now s' = dd_now s \<and> (\<forall>x. r = Inr x \<longrightarrow> x = sort_records rs)"
  using assms unfolding write_delivery_state_def
  by (cases rule: bindE_cases) (auto dest!: durable_cases)

lemma migrate_records_ok:
  "migrate_records vs rs = Inr rs' \<Longrightarrow> records_ok rs \<Longrightarrow> \<forall>r \<in> set rs. dr_pending r = None \<Longrightarrow>
   records_ok rs' \<and> (\<forall>r \<in> set rs'. dr_pending r = None)"
proof (induction vs arbitrary: rs)
  case (Cons v vs)
  let ?r = "(new_record (v1_service v) (v1_peer v))\<lparr>dr_acked := v1_acked v\<rparr>"
  from Cons.prems(1) obtain a where ok: "v1_service v \<noteq> []" "v1_peer v \<noteq> []" "revision_value (v1_acked v) = Inr a"
    "record_index rs (v1_service v) (v1_peer v) = None" "migrate_records vs (rs @ [?r]) = Inr rs'"
    by (auto simp: andthen_Inr_iff split: if_splits)
  have k: "record_key ?r = (v1_service v, v1_peer v)" by (simp add: record_key_def new_record_def)
  from ok have "validate_record ?r = Inr ()" by (simp add: validate_record_def new_record_def)
  with ok(4) Cons.prems(2) k have "records_ok (rs @ [?r])" by (simp add: records_ok_def record_index_None)
  moreover have "\<forall>r \<in> set (rs @ [?r]). dr_pending r = None" using Cons.prems(3) by (simp add: new_record_def)
  ultimately show ?case by (rule Cons.IH [OF ok(5)])
qed simp

lemma check_v1_ok: "check_v1 v = Inr rs \<Longrightarrow> records_ok rs \<and> (\<forall>r \<in> set rs. dr_pending r = None)"
  by (auto simp: check_v1_def records_ok_def dest!: migrate_records_ok split: if_splits)

lemma no_pending_ok: "\<forall>r \<in> set rs. dr_pending r = None \<Longrightarrow> pending_ok d rs"
  by (simp add: pending_ok_def)

text \<open>Opening the state: it keeps what the directory stands for, and hands on exactly that.\<close>

definition opened :: "delivery_disk \<Rightarrow> delivery_record list \<Rightarrow> bool" where
  "opened d rs \<longleftrightarrow> current d = rs \<and> records_ok rs \<and> pending_ok d rs"

lemma migrate_cases:
  assumes "migrate s = (s', r)" and "dd_state s = None"
  shows "delivery_inv s' \<and> set (current s') = set (current s) \<and> dd_now s' = dd_now s \<and> (\<forall>rs. r = Inr rs \<longrightarrow> opened s' rs)"
proof (cases "dd_v1 s")
  case None
  with assms show ?thesis
    by (auto simp: migrate_def delivery_inv_def current_def opened_def records_ok_def pending_ok_def)
next
  case (Some v)
  have stay: "delivery_inv t \<and> set (current t) = set (current s) \<and> dd_now t = dd_now s" if "same_state s t" for t
    using that assms(2) current_same [OF that] by (simp add: delivery_inv_def same_state_def)
  from assms(1) Some have "bindE (attempt ''lock v1'') (\<lambda>_. bindE (attempt ''read v1'') (\<lambda>_.
       bindE (liftE (andthen v check_v1)) (\<lambda>rs. bindE (write_delivery_state rs) (\<lambda>rs'.
         bindE (durable ''remove v1'' (\<lambda>s. s\<lparr>dd_v1 := None\<rparr>)) (\<lambda>_. liftE (Inr rs')))))) s = (s', r)"
    by (simp add: migrate_def)
  then show ?thesis
  proof (cases rule: bindE_cases)
    case (error e)
    then have "same_state s s'" by (auto dest!: attempt_cases)
    from stay [OF this] error(2) show ?thesis by simp
  next
    case (next_step s1 x)
    note n1 = next_step
    from n1(2) show ?thesis
    proof (cases rule: bindE_cases)
      case (error e)
      then have "same_state s s'" using n1(1) by (auto dest!: attempt_cases)
      from stay [OF this] error(2) show ?thesis by simp
    next
      case (next_step s2 x2)
      have s2: "same_state s s2" using next_step(1) n1(1) by (auto dest!: attempt_cases)
      show ?thesis
      proof (cases "andthen v check_v1")
        case (Inl e)
        with next_step(2) stay [OF s2] show ?thesis by auto
      next
        case (Inr rs)
        then have ok: "records_ok rs" "\<forall>r \<in> set rs. dr_pending r = None" "current s = rs"
          using check_v1_ok assms(2) Some by (auto simp: andthen_Inr_iff current_def)
        have wrote: "delivery_inv t \<and> opened t (sort_records rs)" if "dd_state t = Some (Inr (state_of (sort_records rs)))" for t
          using that ok by (auto simp: delivery_inv_def opened_def no_pending_ok)
        from next_step(2) Inr have "bindE (write_delivery_state rs) (\<lambda>rs'.
            bindE (durable ''remove v1'' (\<lambda>s. s\<lparr>dd_v1 := None\<rparr>)) (\<lambda>_. liftE (Inr rs'))) s2 = (s', r)" by simp
        then show ?thesis
        proof (cases rule: bindE_cases)
          case (error e)
          with write_state_cases [OF error(1)] wrote [of s'] s2 stay [of s'] ok(3) show ?thesis
            by (auto simp: same_state_def opened_def)
        next
          case (next_step s3 rs')
          with write_state_cases [OF next_step(1)]
          have s3: "dd_state s3 = Some (Inr (state_of (sort_records rs)))" "rs' = sort_records rs" "dd_now s3 = dd_now s"
            using s2 by (auto simp: same_state_def)
          from next_step(2) have "dd_state s' = dd_state s3 \<and> dd_now s' = dd_now s3 \<and> (\<forall>x. r = Inr x \<longrightarrow> x = rs')"
            by (cases rule: bindE_cases) (auto dest!: durable_cases)
          with wrote [of s'] s3 ok(3) show ?thesis by (auto simp: opened_def)
        qed
      qed
    qed
  qed
qed

lemma opened_faults [simp]: "opened (d\<lparr>dd_faults := fs\<rparr>) rs = opened d rs"
  by (simp add: opened_def)

lemma sweep_opened:
  assumes "sweep rs u = (t, x)" and "opened u rs" and "delivery_inv u"
  shows "opened t rs \<and> delivery_inv t \<and> same_state u t"
proof -
  from sweep_keeps [OF assms(1)] have k: "same_state u t" "pending_ok u rs \<longrightarrow> pending_ok t rs" by auto
  have o: "opened t rs" using assms(2) k by (simp add: opened_def current_same)
  have "delivery_inv t"
  proof (rule inv_same [OF k(1) _ assms(3)])
    fix rs' assume "dd_state u = Some (Inr (state_of rs'))"
    then have "rs' = rs" using assms(2) by (auto simp: opened_def)
    with o show "pending_ok t rs'" by (simp add: opened_def)
  qed
  with o k(1) show ?thesis by simp
qed

lemma read_state_cases:
  assumes "read_delivery_state s = (t, x)" and "delivery_inv s"
  shows "t = s\<lparr>dd_faults := tl (dd_faults s)\<rparr> \<and>
    (x = Inr None \<longrightarrow> dd_state s = None) \<and> (\<forall>rs. x = Inr (Some rs) \<longrightarrow> opened s rs)"
  using assms(1) unfolding read_delivery_state_def
proof (cases rule: bindE_cases)
  case (error e)
  then show ?thesis by (auto dest!: attempt_cases)
next
  case (next_step s1 u)
  have s1: "s1 = s\<lparr>dd_faults := tl (dd_faults s)\<rparr>" using next_step(1) by (rule attempt_cases)
  show ?thesis
  proof (cases "dd_state s")
    case None
    with next_step(2) s1 show ?thesis by auto
  next
    case (Some st)
    with assms(2) obtain rs where "st = Inr (state_of rs)" "records_ok rs" "pending_ok s rs"
      by (auto simp: delivery_inv_def)
    with Some next_step(2) s1 check_state_iff [of "state_of rs" rs] show ?thesis
      by (auto simp: opened_def)
  qed
qed

lemma same_now: "same_state s t \<Longrightarrow> dd_now t = dd_now s"
  by (simp add: same_state_def)

lemma open_state_cases:
  assumes "open_state s = (s', r)" and "delivery_inv s"
  shows "delivery_inv s' \<and> set (current s') = set (current s) \<and> dd_now s' = dd_now s \<and> (\<forall>rs. r = Inr rs \<longrightarrow> opened s' rs)"
  using assms(1) unfolding open_state_def
proof (cases rule: bindE_cases)
  case (error e)
  with assms(2) show ?thesis by (auto dest!: attempt_cases)
next
  case 1: (next_step s1 x1)
  from 1(2) show ?thesis
  proof (cases rule: bindE_cases)
    case (error e)
    with 1(1) assms(2) show ?thesis by (auto dest!: attempt_cases)
  next
    case 2: (next_step s2 x2)
    have s2: "s2 = s\<lparr>dd_faults := dd_faults s2\<rparr>" using 1(1) 2(1) by (auto dest!: attempt_cases)
    then have i2: "delivery_inv s2" using assms(2) by (metis reloaded_same(4))
    have c2: "current s2 = current s" "dd_now s2 = dd_now s" by (subst s2, simp)+
    from 2(2) show ?thesis
    proof (cases rule: bindE_cases)
      case (error e)
      with read_state_cases [OF error(1) i2] i2 c2 show ?thesis by auto
    next
      case 3: (next_step s3 found)
      from read_state_cases [OF 3(1) i2] i2 c2 have s3: "delivery_inv s3" "current s3 = current s" "dd_now s3 = dd_now s"
        "found = None \<Longrightarrow> dd_state s3 = None" "\<And>rs. found = Some rs \<Longrightarrow> opened s3 rs" by auto
      have mid: "delivery_inv t \<and> set (current t) = set (current s) \<and> dd_now t = dd_now s \<and> (\<forall>rs. x = Inr rs \<longrightarrow> opened t rs)"
        if "(case found of None \<Rightarrow> migrate | Some rs \<Rightarrow> liftE (Inr rs)) s3 = (t, x)" for t x
        using that s3 migrate_cases [of s3 t x] by (cases found) auto
      from 3(2) show ?thesis
      proof (cases rule: bindE_cases)
        case (error e)
        from mid [OF error(1)] error(2) show ?thesis by simp
      next
        case 4: (next_step s4 rs)
        from mid [OF 4(1)] have s4: "delivery_inv s4" "set (current s4) = set (current s)" "dd_now s4 = dd_now s" "opened s4 rs"
          by auto
        from 4(2) have "\<exists>x. sweep rs s4 = (s', x) \<and> (\<forall>y. r = Inr y \<longrightarrow> y = rs)"
          by (cases rule: bindE_cases) auto
        then show ?thesis using sweep_opened [OF _ s4(4,1)] s4 current_same same_now by (metis (full_types))
      qed
    qed
  qed
qed

lemma current_ok: "delivery_inv d \<Longrightarrow> records_ok (current d)"
  by (cases "dd_state d")
    (auto simp: delivery_inv_def current_def state_of_def records_ok_def dest!: check_v1_ok split: option.split sum.split)

text \<open>What the function under the lock may do: leave the state file and the pending files its records
  name alone, and end with records whose pending files are there.\<close>

definition applies :: "(delivery_record list \<Rightarrow> (delivery_record list \<times> 'a) dstep) \<Rightarrow> bool" where
  "applies f \<longleftrightarrow> (\<forall>rs s s2 r2. opened s rs \<longrightarrow> f rs s = (s2, r2) \<longrightarrow>
     same_state s s2 \<and> pending_ok s2 rs \<and>
     (\<forall>rs' x. r2 = Inr (rs', x) \<longrightarrow> records_ok rs' \<and> pending_ok s2 rs'))"

lemma close_state_cases:
  assumes "close_state rs s = (s', r)" and "delivery_inv s" "records_ok rs" "pending_ok s rs"
  shows "delivery_inv s' \<and> dd_now s' = dd_now s \<and>
    (current s' = sort_records rs \<or> current s' = current s \<and> r \<noteq> Inr ())"
  using assms(1) unfolding close_state_def
proof (cases rule: bindE_cases)
  case (error e)
  from write_state_cases [OF error(1)] show ?thesis
  proof (elim conjE disjE)
    assume "dd_state s' = Some (Inr (state_of (sort_records rs)))" "dd_pending s' = dd_pending s" "dd_now s' = dd_now s"
    with assms(3,4) show ?thesis by (auto simp: delivery_inv_def pending_ok_def)
  next
    assume "dd_state s' = dd_state s" "dd_v1 s' = dd_v1 s" "dd_pending s' = dd_pending s" "dd_now s' = dd_now s"
    then have "s' = s\<lparr>dd_faults := dd_faults s'\<rparr>" by simp
    then have "delivery_inv s' = delivery_inv s" "current s' = current s" by (metis reloaded_same(4,5))+
    with assms(2) error(2) \<open>dd_now s' = dd_now s\<close> show ?thesis by simp
  qed
next
  case (next_step s1 rs1)
  from write_state_cases [OF next_step(1)]
  have s1: "dd_state s1 = Some (Inr (state_of (sort_records rs)))" "dd_pending s1 = dd_pending s" "dd_now s1 = dd_now s"
    "rs1 = sort_records rs" by auto
  with assms(3,4) have o: "opened s1 rs1" by (simp add: opened_def pending_ok_def)
  with s1 have i: "delivery_inv s1" by (auto simp: delivery_inv_def opened_def)
  from sweep_opened [OF next_step(2) o i] s1 show ?thesis
    by (auto simp: current_same same_now opened_def)
qed

lemma with_state_cases:
  assumes "with_state wr f s = (s', r)" and "delivery_inv s" and "applies f"
  shows "delivery_inv s' \<and>
    (set (current s') = set (current s) \<or> (\<exists>rs s1 s2 rs' x. wr \<and> opened s1 rs \<and> dd_now s1 = dd_now s \<and>
      set rs = set (current s) \<and> f rs s1 = (s2, Inr (rs', x)) \<and> set (current s') = set rs')) \<and>
    (\<forall>x. r = Inr x \<longrightarrow> (\<exists>rs s1 s2 rs'. opened s1 rs \<and> dd_now s1 = dd_now s \<and> set rs = set (current s) \<and>
      f rs s1 = (s2, Inr (rs', x)) \<and> (if wr then set (current s') = set rs' else set (current s') = set (current s))))"
  using assms(1) unfolding with_state_def
proof (cases rule: bindE_cases)
  case (error e)
  with open_state_cases [OF error(1) assms(2)] show ?thesis by simp
next
  case 1: (next_step s1 rs)
  from open_state_cases [OF 1(1) assms(2)]
  have s1: "delivery_inv s1" "set (current s1) = set (current s)" "dd_now s1 = dd_now s" "opened s1 rs" by auto
  have rs: "set rs = set (current s)" using s1(2,4) by (simp add: opened_def)
  have step: "same_state s1 s2 \<and> delivery_inv s2 \<and> set (current s2) = set (current s) \<and>
      (\<forall>rs' x. r2 = Inr (rs', x) \<longrightarrow> records_ok rs' \<and> pending_ok s2 rs')" if "f rs s1 = (s2, r2)" for s2 r2
  proof -
    have a: "same_state s1 s2" "pending_ok s2 rs" "\<forall>rs' x. r2 = Inr (rs', x) \<longrightarrow> records_ok rs' \<and> pending_ok s2 rs'"
      using assms(3) s1(4) that unfolding applies_def by blast+
    have "delivery_inv s2"
      by (rule inv_same [OF a(1) _ s1(1)]) (use a(2) s1(4) in \<open>auto simp: opened_def\<close>)
    with a s1 show ?thesis by (simp add: current_same)
  qed
  from 1(2) show ?thesis
  proof (cases rule: bindE_cases)
    case (error e)
    with step [OF error(1)] show ?thesis by simp
  next
    case 2: (next_step s2 rx)
    obtain rs' x where rx: "rx = (rs', x)" by (cases rx)
    from step [OF 2(1) [unfolded rx]]
    have s2: "delivery_inv s2" "set (current s2) = set (current s)" "records_ok rs'" "pending_ok s2 rs'" by auto
    have f: "f rs s1 = (s2, Inr (rs', x))" using 2(1) rx by simp
    show ?thesis
    proof (cases wr)
      case False
      with 2(2) rx have "s' = s2" "r = Inr x" by simp_all
      with s2 False s1(3,4) rs f show ?thesis by auto
    next
      case True
      with 2(2) rx have "bindE (close_state rs') (\<lambda>_. liftE (Inr x)) s2 = (s', r)" by simp
      then have "\<exists>u. close_state rs' s2 = (s', u) \<and> (u = Inr () \<longrightarrow> r = Inr x) \<and> (u \<noteq> Inr () \<longrightarrow> (\<forall>y. r \<noteq> Inr y))"
        by (cases rule: bindE_cases) auto
      then obtain u where c: "close_state rs' s2 = (s', u)" and ru: "u = Inr () \<longrightarrow> r = Inr x" "u \<noteq> Inr () \<longrightarrow> (\<forall>y. r \<noteq> Inr y)"
        by blast
      from close_state_cases [OF c s2(1,3,4)]
      have e: "current s' = sort_records rs' \<or> current s' = current s2 \<and> u \<noteq> Inr ()" "delivery_inv s'" by blast+
      from e(1) s2(2) have e1: "set (current s') = set rs' \<or> set (current s') = set (current s) \<and> u \<noteq> Inr ()"
        by (elim disjE) simp_all
      have run: "opened s1 rs \<and> dd_now s1 = dd_now s \<and> set rs = set (current s) \<and> f rs s1 = (s2, Inr (rs', x))"
        using s1(3,4) rs f by simp
      show ?thesis
      proof (cases "u = Inr ()")
        case True
        with ru e1 have m: "r = Inr x" "set (current s') = set rs'" by blast+
        have "\<exists>rs s1 s2 rs'. opened s1 rs \<and> dd_now s1 = dd_now s \<and> set rs = set (current s) \<and>
            f rs s1 = (s2, Inr (rs', x)) \<and> set (current s') = set rs'"
          by (intro exI [of _ rs] exI [of _ s1] exI [of _ s2] exI [of _ rs']) (simp add: run m(2))
        then show ?thesis using e(2) \<open>wr\<close> m(1) by (simp only: sum.inject if_True) metis
      next
        case False
        with ru have "\<forall>y. r \<noteq> Inr y" by blast
        with run e1 e(2) \<open>wr\<close> show ?thesis by blast
      qed
    qed
  qed
qed

subsection \<open>The functions under the lock\<close>

lemma find_record_update:
  assumes "i < length rs" "record_key r = record_key (rs ! i)" "distinct (map record_key rs)"
  shows "find_record (rs[i := r]) service peer = (if (service, peer) = record_key r then r else find_record rs service peer)"
proof -
  have idx: "record_index (xs[j := q]) service peer = record_index xs service peer"
    if "j < length xs" "record_key q = record_key (xs ! j)" for xs j q
    using that by (induction xs arbitrary: j) (auto simp: is_record_key split: nat.split)
  show ?thesis
  proof (cases "record_index rs service peer")
    case None
    then have "(service, peer) \<notin> record_key ` set rs" by (simp add: record_index_None)
    then have "(service, peer) \<noteq> record_key r" using assms(1,2) by (metis image_eqI nth_mem)
    with None idx [OF assms(1,2)] show ?thesis by (simp add: find_record_def)
  next
    case (Some j)
    from record_index_Some [OF this] have j: "j < length rs" "record_key (rs ! j) = (service, peer)" by auto
    have e: "record_key (rs ! i) = record_key (rs ! j) \<longleftrightarrow> i = j"
      using assms(1) j(1) nth_eq_iff_index_eq [OF assms(3), of i j] by (simp add: nth_map)
    have f: "find_record (rs[i := r]) service peer = rs[i := r] ! j" "find_record rs service peer = rs ! j"
      using idx [OF assms(1,2)] Some by (simp_all add: find_record_def)
    have "(service, peer) = record_key r \<longleftrightarrow> i = j" using e j(2) assms(2) by metis
    with f j(1) show ?thesis by (cases "i = j") simp_all
  qed
qed

lemma records_ok_update:
  assumes "records_ok rs" "i < length rs" "record_key r = record_key (rs ! i)" "validate_record r = Inr ()"
  shows "records_ok (rs[i := r])"
proof -
  have "map record_key (rs[i := r]) = map record_key rs"
    using assms(2,3) by (simp add: map_update list_update_same_conv)
  moreover have "x = r \<or> x \<in> set rs" if "x \<in> set (rs[i := r])" for x
    using that set_update_subset_insert [of rs i r] by blast
  ultimately show ?thesis using assms(1,4) unfolding records_ok_def by metis
qed

lemma valid_new_record: "service \<noteq> [] \<Longrightarrow> peer \<noteq> [] \<Longrightarrow> validate_record (new_record service peer) = Inr ()"
  by (simp add: validate_record_def new_record_def revision_value_iff [THEN iffD2, of 0])

lemma upsert_cases:
  assumes "upsert rs service peer = (rs', i)" and "records_ok rs" "service \<noteq> []" "peer \<noteq> []"
  shows "records_ok rs' \<and> i < length rs' \<and> record_key (rs' ! i) = (service, peer) \<and>
    rs' ! i = find_record rs service peer \<and> set rs \<subseteq> set rs' \<and> set rs' \<subseteq> insert (find_record rs service peer) (set rs) \<and>
    (\<forall>a b. find_record rs' a b = find_record rs a b)"
proof (cases "record_index rs service peer")
  case (Some j)
  with assms record_index_Some [OF Some] show ?thesis by (auto simp: upsert_def find_record_def)
next
  case None
  let ?r = "new_record service peer"
  have k: "record_key ?r = (service, peer)" by (simp add: record_key_def new_record_def)
  have n: "(service, peer) \<notin> record_key ` set rs" using None by (simp add: record_index_None)
  from None assms(1) have rs': "rs' = rs @ [?r]" "i = length rs" by (auto simp: upsert_def find_record_def)
  have ok: "records_ok rs'" using assms valid_new_record n k by (auto simp: records_ok_def rs')
  have "find_record rs' a b = find_record rs a b" for a b
  proof (cases rule: find_record_cases [of rs a b])
    case held
    then show ?thesis using find_recordI [of rs' "find_record rs a b" a b] ok by (simp add: records_ok_def rs')
  next
    case fresh
    show ?thesis
    proof (cases "(a, b) = (service, peer)")
      case True
      then show ?thesis using find_recordI [of rs' ?r a b] ok k fresh by (simp add: records_ok_def rs')
    next
      case False
      with fresh k have "(a, b) \<notin> record_key ` set rs'" by (auto simp: rs')
      with fresh show ?thesis by (simp add: find_record_new)
    qed
  qed
  with rs' ok k n show ?thesis by (auto simp: find_record_new)
qed

lemma must_revision_iff: "must_revision r = Inr v \<longleftrightarrow> revision_value r = Inr v"
  by (simp add: must_revision_def split: sum.split)

lemma hex_val_char: "hex_val c \<noteq> None \<Longrightarrow> c \<noteq> CHR ''/'' \<and> c \<noteq> CHR ''.''"
  by (auto simp: hex_val_def)

lemma hex_decode_chars: "hex_decode s = Some b \<Longrightarrow> c \<in> set s \<Longrightarrow> hex_val c \<noteq> None"
  by (induction s arbitrary: b rule: hex_decode.induct) (auto split: option.splits)

lemma exact_digest_name: "exact_digest i \<Longrightarrow> i \<noteq> [] \<and> file_base i = i \<and> hd i \<noteq> CHR ''.''"
proof -
  assume d: "exact_digest i"
  then have c: "\<forall>x \<in> set i. x \<noteq> CHR ''/'' \<and> x \<noteq> CHR ''.''" and ne: "i \<noteq> []"
    using hex_decode_chars hex_val_char by (auto simp: exact_digest_def) blast+
  have "hd (rev i) \<in> set (rev i)" using ne by (intro hd_in_set) simp
  then have d: "dropWhile (\<lambda>c. c = CHR ''/'') (rev i) = rev i" using c by (simp add: dropWhile_eq_self_iff)
  have t: "takeWhile (\<lambda>c. c \<noteq> CHR ''/'') (rev i) = rev i" using c by (simp add: takeWhile_eq_all_conv)
  have "file_base i = i" using ne by (simp add: file_base_def d t Let_def)
  moreover have "hd i \<noteq> CHR ''.''" using c ne hd_in_set by blast
  ultimately show ?thesis using ne by simp
qed

lemma pending_name_inj [simp]: "pending_name i = pending_name j \<longleftrightarrow> i = j"
  by (simp add: pending_name_def)

lemma load_applies: "applies (load_fn service peer)"
  unfolding applies_def
proof (intro allI impI)
  fix rs s s2 r2
  assume o: "opened s rs" and f: "load_fn service peer rs s = (s2, r2)"
  have "same_state s s2 \<and> pending_ok s2 rs \<and> (\<forall>rs' x. r2 = Inr (rs', x) \<longrightarrow> rs' = rs)"
  proof (cases "dr_pending (find_record rs service peer)")
    case None
    with f o show ?thesis by (auto simp: load_fn_def Let_def opened_def)
  next
    case (Some p)
    with f have "bindE (read_pending (pr_change_id p)) (\<lambda>change. liftE (Inr (rs, find_record rs service peer, Some change))) s = (s2, r2)"
      by (simp add: load_fn_def Let_def)
    then obtain x where rp: "read_pending (pr_change_id p) s = (s2, x)" and rs: "\<forall>rs' y. r2 = Inr (rs', y) \<longrightarrow> rs' = rs"
      by (cases rule: bindE_cases) auto
    from rp have "same_state s s2 \<and> (pending_ok s rs \<longrightarrow> pending_ok s2 rs)" unfolding read_pending_def
      by (cases rule: bindE_cases) (auto dest!: attempt_cases split: option.splits)
    with rs o show ?thesis by (simp add: opened_def)
  qed
  with o show "same_state s s2 \<and> pending_ok s2 rs \<and> (\<forall>rs' x. r2 = Inr (rs', x) \<longrightarrow> records_ok rs' \<and> pending_ok s2 rs')"
    by (auto simp: opened_def)
qed

lemma records_applies: "applies (records_fn service)"
  by (auto simp: applies_def records_fn_def opened_def)

text \<open>The pending reference \<^verbatim>\<open>stage\<close> would hold is valid beside the record's acknowledged revision.\<close>

lemma check_stage_Inr:
  assumes "check_stage r expected source e now = Inr p" and "validate_change True e = Inr ()"
    and "revision_value (ce_source e) = Inr source" and "validate_record r = Inr ()"
  shows "validate_record (r\<lparr>dr_pending := Some p, dr_generation := g\<rparr>) = Inr () \<and> held_id r = expected \<and>
    pr_change_id p = ce_change_id e \<and> pr_source p = ce_source e \<and> pr_roots p = ce_artifacts e \<and>
    (\<exists>acked. revision_value (dr_acked r) = Inr acked \<and> acked < source) \<and>
    (\<forall>old. dr_pending r = Some old \<longrightarrow> ce_kind e = ChangeSnapshot \<and> pr_superseded p = pr_superseded old + 1 \<and>
       (\<exists>o'. revision_value (pr_source old) = Inr o' \<and> (o' < source \<or> o' = source \<and> pr_kind old = ChangeDelta)))"
proof -
  from assms(1) obtain acked n where a: "held_id r = expected" "revision_value (dr_acked r) = Inr acked" "acked < source"
    "p = next_pending e now n"
    by (auto simp: check_stage_def andthen_Inr_iff must_revision_iff Let_def not_le split: if_splits option.splits)
  from assms(2) obtain base where v: "revision_value (ce_base e) = Inr base" "validate_roots (ce_artifacts e) = Inr ()"
    "ce_kind e = ChangeSnapshot \<or> ce_kind e = ChangeDelta" "exact_digest (ce_change_id e)"
    by (auto simp: validate_change_iff)
  from v a(3,4) assms(3) exact_digest_name [OF v(4)] have "validate_pending acked p = Inr ()"
    by (auto simp: validate_pending_def next_pending_def)
  with assms(4) a(2) have "validate_record (r\<lparr>dr_pending := Some p, dr_generation := g\<rparr>) = Inr ()"
    by (auto simp: validate_record_def split: if_splits)
  moreover have "\<forall>old. dr_pending r = Some old \<longrightarrow> ce_kind e = ChangeSnapshot \<and> pr_superseded p = pr_superseded old + 1 \<and>
       (\<exists>o'. revision_value (pr_source old) = Inr o' \<and> (o' < source \<or> o' = source \<and> pr_kind old = ChangeDelta))"
    using assms(1) by (auto simp: check_stage_def andthen_Inr_iff must_revision_iff Let_def next_pending_def split: if_splits)
  ultimately show ?thesis using a by (simp add: next_pending_def)
qed

lemma valid_service: "validate_change b e = Inr u \<Longrightarrow> ce_service e \<noteq> []"
  by (auto simp: validate_change_iff validate_service_schema_def validate_name_def andthen_Inr_iff)

lemma find_record_valid: "records_ok rs \<Longrightarrow> service \<noteq> [] \<Longrightarrow> peer \<noteq> [] \<Longrightarrow> validate_record (find_record rs service peer) = Inr ()"
  by (cases rule: find_record_cases [of rs service peer]) (simp_all add: records_ok_def valid_new_record)

text \<open>What a stage that got past its checks writes.\<close>

lemma stage_fn_cases:
  assumes "stage_fn peer expected source e rs s = (s2, r2)" and "opened s rs"
    and "validate_change True e = Inr ()" and "revision_value (ce_source e) = Inr source" and "peer \<noteq> []"
  shows "same_state s s2 \<and> pending_ok s2 rs \<and> (\<forall>rs' x. r2 = Inr (rs', x) \<longrightarrow> records_ok rs' \<and> pending_ok s2 rs' \<and>
    (\<exists>p. check_stage (find_record rs (ce_service e) peer) expected source e (dd_now s) = Inr p \<and>
      (\<forall>a b. find_record rs' a b = (if (a, b) = (ce_service e, peer)
         then (find_record rs a b)\<lparr>dr_pending := Some p, dr_generation := dr_generation (find_record rs a b) + 1\<rparr>
         else find_record rs a b))))"
proof -
  let ?r = "find_record rs (ce_service e) peer"
  obtain us i where u: "upsert rs (ce_service e) peer = (us, i)" by (cases "upsert rs (ce_service e) peer")
  have ok: "records_ok rs" "pending_ok s rs" using assms(2) by (auto simp: opened_def)
  note sv = valid_service [OF assms(3)]
  from upsert_cases [OF u ok(1) sv assms(5)]
  have us: "records_ok us" "i < length us" "record_key (us ! i) = (ce_service e, peer)" "us ! i = ?r"
    "set us \<subseteq> insert ?r (set rs)" "\<And>a b. find_record us a b = find_record rs a b" by auto
  have pu: "pending_ok s us"
  proof -
    have "dr_pending ?r = None \<or> ?r \<in> set rs"
      by (cases rule: find_record_cases [of rs "ce_service e" peer]) (simp_all add: new_record_def)
    then show ?thesis using ok(2) us(5) unfolding pending_ok_def by (metis insertE option.distinct(1) subsetD)
  qed
  have written: "pending_ok t xs" if "pending_ok s xs"
    "t = s\<lparr>dd_faults := fs, dd_pending := AList.update (pending_name (ce_change_id e)) (Inr e) (dd_pending s)\<rparr>" for t xs fs
    using that assms(3) by (auto simp: pending_ok_def)
  show ?thesis
  proof (cases "check_stage ?r expected source e (dd_now s)")
    case (Inl err)
    with assms(1) u us(4) ok show ?thesis by (auto simp: stage_fn_def Let_def)
  next
    case (Inr p)
    let ?q = "?r\<lparr>dr_pending := Some p, dr_generation := dr_generation ?r + 1\<rparr>"
    from check_stage_Inr [OF Inr assms(3,4) find_record_valid [OF ok(1) sv assms(5)]]
    have p: "validate_record ?q = Inr ()" "pr_change_id p = ce_change_id e" by auto
    have k: "record_key ?q = record_key (us ! i)" using us(4) by (simp add: record_key_def)
    have ok': "records_ok (us[i := ?q])" by (rule records_ok_update [OF us(1,2) k p(1)])
    have fr: "find_record (us[i := ?q]) a b = (if (a, b) = (ce_service e, peer) then ?q else find_record rs a b)" for a b
      using find_record_update [OF us(2) k, of a b] us(1,3,6) k by (simp add: records_ok_def)
    from assms(1) u us(4) Inr have b: "bindE (durable ''write pending'' (\<lambda>s. s\<lparr>dd_pending := AList.update (pending_name (ce_change_id e)) (Inr e) (dd_pending s)\<rparr>))
        (\<lambda>_. liftE (Inr (us[i := ?q], ()))) s = (s2, r2)" by (simp add: stage_fn_def Let_def)
    then show ?thesis
    proof (cases rule: bindE_cases)
      case (error err)
      with written [of rs] ok(2) show ?thesis by (auto simp: same_state_def dest!: durable_cases)
    next
      case (next_step s3 x)
      then have s2: "s2 = s\<lparr>dd_faults := tl (dd_faults s), dd_pending := AList.update (pending_name (ce_change_id e)) (Inr e) (dd_pending s)\<rparr>"
        and r2: "r2 = Inr (us[i := ?q], ())" by (auto dest!: durable_cases)
      have "pending_ok s2 (us[i := ?q])"
      proof -
        have "x = ?q \<or> x \<in> set us" if "x \<in> set (us[i := ?q])" for x
          using that set_update_subset_insert [of us i ?q] by blast
        moreover have "map_of (dd_pending s2) (pending_name (pr_change_id p)) = Some (Inr e)" using s2 p(2) by simp
        ultimately show ?thesis using written [OF pu s2] p(2) assms(3) unfolding pending_ok_def
          by (metis (no_types, lifting) delivery_record.select_convs(7) delivery_record.surjective delivery_record.update_convs(3,7) option.inject)
      qed
      with s2 r2 ok' fr Inr written [OF ok(2) s2] show ?thesis by (auto simp: same_state_def)
    qed
  qed
qed

lemma ack_fn_cases:
  assumes "ack_fn peer source e rs s = (s2, r2)" and "opened s rs" and "revision_value (ce_source e) = Inr source"
  shows "same_state s s2 \<and> pending_ok s2 rs \<and> (\<forall>rs' x. r2 = Inr (rs', x) \<longrightarrow> records_ok rs' \<and> pending_ok s2 rs' \<and>
    held_id (find_record rs (ce_service e) peer) = ce_change_id e \<and> dr_pending (find_record rs (ce_service e) peer) \<noteq> None \<and>
    (\<exists>q. ack_record e source (dd_now s) (find_record rs (ce_service e) peer) = Inr q \<and>
      (\<forall>a b. find_record rs' a b = (if (a, b) = (ce_service e, peer) then q else find_record rs a b))))"
proof -
  have ok: "records_ok rs" "pending_ok s rs" using assms(2) by (auto simp: opened_def)
  show ?thesis
  proof (cases "record_index rs (ce_service e) peer")
    case None
    with assms(1) ok show ?thesis by (auto simp: ack_fn_def)
  next
    case (Some i)
    from record_index_Some [OF Some] have i: "i < length rs" "record_key (rs ! i) = (ce_service e, peer)" by auto
    have r: "find_record rs (ce_service e) peer = rs ! i" using Some by (simp add: find_record_def)
    show ?thesis
    proof (cases "dr_pending (rs ! i) = None \<or> held_id (rs ! i) \<noteq> ce_change_id e \<or> (\<exists>err. ack_record e source (dd_now s) (rs ! i) = Inl err)")
      case True
      with assms(1) Some ok show ?thesis by (auto simp: ack_fn_def split: if_splits)
    next
      case False
      then obtain q where q: "ack_record e source (dd_now s) (rs ! i) = Inr q" by (cases "ack_record e source (dd_now s) (rs ! i)") auto
      with False assms(1) Some have s2: "s2 = s" "r2 = Inr (rs[i := q], ())" by (auto simp: ack_fn_def)
      from q obtain acked where a: "revision_value (dr_acked (rs ! i)) = Inr acked"
        and q': "q = (rs ! i)\<lparr>dr_acked := (if source > acked then ce_source e else dr_acked (rs ! i)), dr_acked_change_id := ce_change_id e,
            dr_acked_at := dd_now s, dr_pending := None, dr_generation := dr_generation (rs ! i) + 1\<rparr>"
        by (auto simp: ack_record_def andthen_Inr_iff must_revision_iff)
      have k: "record_key q = record_key (rs ! i)" by (simp add: q' record_key_def)
      have "validate_record (rs ! i) = Inr ()" using ok(1) i(1) by (simp add: records_ok_def)
      then have "validate_record q = Inr ()" using assms(3) a by (auto simp: q' validate_record_def split: if_splits)
      with records_ok_update [OF ok(1) i(1) k] have ok': "records_ok (rs[i := q])" by simp
      have "x = q \<or> x \<in> set rs" if "x \<in> set (rs[i := q])" for x
        using that set_update_subset_insert [of rs i q] by blast
      moreover have "dr_pending q = None" by (simp add: q')
      ultimately have "pending_ok s (rs[i := q])" using ok(2) unfolding pending_ok_def by fastforce
      moreover have "find_record (rs[i := q]) a b = (if (a, b) = (ce_service e, peer) then q else find_record rs a b)" for a b
        using find_record_update [OF i(1) k, of a b] ok(1) i(2) k by (simp add: records_ok_def)
      ultimately show ?thesis using s2 ok ok' q r False by auto
    qed
  qed
qed

subsection \<open>Runs of operations\<close>

text \<open>The operations of a delivery store, each after the clock and the fault script were set anew.\<close>

datatype delivery_op =
    LoadOp string string
  | RecordsOp string
  | StageOp string string change_envelope
  | AckOp string change_envelope apply_result

fun run_op :: "delivery_op \<Rightarrow> delivery_disk \<Rightarrow> delivery_disk" where
  "run_op (LoadOp service peer) d = fst (load service peer d)"
| "run_op (RecordsOp service) d = fst (records_of service d)"
| "run_op (StageOp peer expected e) d = fst (stage peer expected e d)"
| "run_op (AckOp peer e ack) d = fst (acknowledge peer e ack d)"

fun run_ops :: "(gotime \<times> fault list \<times> delivery_op) list \<Rightarrow> delivery_disk \<Rightarrow> delivery_disk" where
  "run_ops [] d = d"
| "run_ops ((now, fs, op) # ops) d = run_ops ops (run_op op (d\<lparr>dd_now := now, dd_faults := fs\<rparr>))"

text \<open>A peer is a host of the mesh, and its name is not empty.\<close>

fun op_named :: "delivery_op \<Rightarrow> bool" where
  "op_named (StageOp peer expected e) \<longleftrightarrow> peer \<noteq> []"
| "op_named _ \<longleftrightarrow> True"

definition acked_value :: "delivery_disk \<Rightarrow> string \<Rightarrow> string \<Rightarrow> nat" where
  "acked_value d service peer = (case revision_value (dr_acked (find_record (current d) service peer)) of
     Inl _ \<Rightarrow> 0 | Inr v \<Rightarrow> v)"

lemma acked_value_set:
  assumes "delivery_inv d" "delivery_inv d'" "set (current d') = set (current d)"
  shows "acked_value d' service peer = acked_value d service peer"
  using find_record_set [of "current d'" "current d"] assms current_ok
  by (simp add: acked_value_def records_ok_def)

lemma stage_applies:
  assumes "validate_change True e = Inr ()" "revision_value (ce_source e) = Inr source" "peer \<noteq> []"
  shows "applies (stage_fn peer expected source e)"
  unfolding applies_def
proof (intro allI impI)
  fix rs s s2 r2
  assume o: "opened s rs" and f: "stage_fn peer expected source e rs s = (s2, r2)"
  from stage_fn_cases [OF f o assms] show "same_state s s2 \<and> pending_ok s2 rs \<and>
      (\<forall>rs' x. r2 = Inr (rs', x) \<longrightarrow> records_ok rs' \<and> pending_ok s2 rs')" by blast
qed

lemma ack_applies:
  assumes "revision_value (ce_source e) = Inr source"
  shows "applies (ack_fn peer source e)"
  unfolding applies_def
proof (intro allI impI)
  fix rs s s2 r2
  assume o: "opened s rs" and f: "ack_fn peer source e rs s = (s2, r2)"
  from ack_fn_cases [OF f o assms] show "same_state s s2 \<and> pending_ok s2 rs \<and>
      (\<forall>rs' x. r2 = Inr (rs', x) \<longrightarrow> records_ok rs' \<and> pending_ok s2 rs')" by blast
qed

text \<open>One operation keeps the invariant, and no record's acknowledged revision falls.\<close>

lemma read_only_keeps:
  assumes "with_state False f d = (d', r)" "delivery_inv d" "applies f"
  shows "delivery_inv d' \<and> acked_value d' service peer = acked_value d service peer"
  using with_state_cases [OF assms] acked_value_set assms(2) by blast

lemma state_write_keeps:
  assumes "with_state True f d = (d', r)" "delivery_inv d" "applies f"
    and mono: "\<And>rs s s2 rs' x. opened s rs \<Longrightarrow> f rs s = (s2, Inr (rs', x)) \<Longrightarrow>
      (case revision_value (dr_acked (find_record rs service peer)) of Inl _ \<Rightarrow> 0 | Inr v \<Rightarrow> v) \<le>
      (case revision_value (dr_acked (find_record rs' service peer)) of Inl _ \<Rightarrow> 0 | Inr v \<Rightarrow> v)"
  shows "delivery_inv d' \<and> acked_value d service peer \<le> acked_value d' service peer"
proof -
  note w = with_state_cases [OF assms(1-3)]
  then have i: "delivery_inv d'" by blast
  from w consider "set (current d') = set (current d)"
    | rs s1 s2 rs' x where "opened s1 rs" "set rs = set (current d)" "f rs s1 = (s2, Inr (rs', x))" "set (current d') = set rs'"
    by blast
  then show ?thesis
  proof cases
    case 1
    with acked_value_set [OF assms(2) i 1] i show ?thesis by simp
  next
    case 2
    have d: "distinct (map record_key (current d))" "distinct (map record_key (current d'))"
      using current_ok assms(2) i by (auto simp: records_ok_def)
    have "records_ok rs'" using assms(3) 2(1,3) unfolding applies_def by blast
    then have "find_record (current d') service peer = find_record rs' service peer"
      "find_record (current d) service peer = find_record rs service peer"
      using find_record_set d 2 by (metis opened_def records_ok_def)+
    with mono [OF 2(1,3)] i show ?thesis by (simp add: acked_value_def)
  qed
qed

lemma op_keeps:
  assumes "delivery_inv d" and "op_named op"
  shows "delivery_inv (run_op op d) \<and> acked_value d service peer \<le> acked_value (run_op op d) service peer"
proof (cases op)
  case (LoadOp a b)
  with read_only_keeps [OF _ assms(1) load_applies, of a b] show ?thesis
    by (cases "load a b d") (auto simp: load_def)
next
  case (RecordsOp a)
  with read_only_keeps [OF _ assms(1) records_applies, of a] show ?thesis
    by (cases "records_of a d") (auto simp: records_of_def)
next
  case (StageOp q expected e)
  obtain d' r where st: "stage q expected e d = (d', r)" by (cases "stage q expected e d")
  show ?thesis
  proof (cases "validate_change True e")
    case Inl
    with st have "d' = d" by (simp add: stage_def)
    with st StageOp assms(1) show ?thesis by simp
  next
    case (Inr u)
    then have v: "validate_change True e = Inr ()" by simp
    then obtain source where src: "revision_value (ce_source e) = Inr source" by (auto simp: validate_change_iff)
    from st v src have w: "with_state True (stage_fn q expected source e) d = (d', r)" by (simp add: stage_def)
    have q: "q \<noteq> []" using assms(2) StageOp by simp
    have "delivery_inv d' \<and> acked_value d service peer \<le> acked_value d' service peer"
    proof (rule state_write_keeps [OF w assms(1) stage_applies [OF v src q]])
      fix rs s s2 rs' x assume o: "opened s rs" and f: "stage_fn q expected source e rs s = (s2, Inr (rs', x))"
      from stage_fn_cases [OF f o v src q] obtain p where
        "find_record rs' service peer = (if (service, peer) = (ce_service e, q)
         then (find_record rs service peer)\<lparr>dr_pending := Some p, dr_generation := dr_generation (find_record rs service peer) + 1\<rparr>
         else find_record rs service peer)" by blast
      then show "(case revision_value (dr_acked (find_record rs service peer)) of Inl _ \<Rightarrow> 0 | Inr v \<Rightarrow> v) \<le>
        (case revision_value (dr_acked (find_record rs' service peer)) of Inl _ \<Rightarrow> 0 | Inr v \<Rightarrow> v)" by simp
    qed
    with st StageOp show ?thesis by simp
  qed
next
  case (AckOp q e ack)
  obtain d' r where st: "acknowledge q e ack d = (d', r)" by (cases "acknowledge q e ack d")
  show ?thesis
  proof (cases "\<exists>source. revision_value (ce_source e) = Inr source \<and> with_state True (ack_fn q source e) d = (d', r)")
    case False
    with st have "d' = d" by (cases "revision_value (ce_source e)") (auto simp: acknowledge_def split: if_splits)
    with st AckOp assms(1) show ?thesis by simp
  next
    case True
    then obtain source where src: "revision_value (ce_source e) = Inr source" and w: "with_state True (ack_fn q source e) d = (d', r)"
      by blast
    have "delivery_inv d' \<and> acked_value d service peer \<le> acked_value d' service peer"
    proof (rule state_write_keeps [OF w assms(1) ack_applies [OF src]])
      fix rs s s2 rs' x assume o: "opened s rs" and f: "ack_fn q source e rs s = (s2, Inr (rs', x))"
      from ack_fn_cases [OF f o src] obtain t where "ack_record e source (dd_now s) (find_record rs (ce_service e) q) = Inr t"
        "find_record rs' service peer = (if (service, peer) = (ce_service e, q) then t else find_record rs service peer)" by blast
      then show "(case revision_value (dr_acked (find_record rs service peer)) of Inl _ \<Rightarrow> 0 | Inr v \<Rightarrow> v) \<le>
        (case revision_value (dr_acked (find_record rs' service peer)) of Inl _ \<Rightarrow> 0 | Inr v \<Rightarrow> v)"
        using src by (auto simp: ack_record_def andthen_Inr_iff must_revision_iff)
    qed
    with st AckOp show ?thesis by simp
  qed
qed

lemma inv_clock [simp]: "delivery_inv (d\<lparr>dd_now := n\<rparr>) = delivery_inv d" "acked_value (d\<lparr>dd_now := n\<rparr>) = acked_value d"
  "acked_value (d\<lparr>dd_faults := fs\<rparr>) = acked_value d"
  by (simp_all add: delivery_inv_def pending_ok_def acked_value_def current_def fun_eq_iff cong: option.case_cong sum.case_cong)

lemma ops_keep:
  "delivery_inv d \<Longrightarrow> \<forall>(now, fs, op) \<in> set ops. op_named op \<Longrightarrow>
   delivery_inv (run_ops ops d) \<and> acked_value d service peer \<le> acked_value (run_ops ops d) service peer"
proof (induction ops arbitrary: d)
  case (Cons o' ops)
  obtain now fs op where o: "o' = (now, fs, op)" by (cases o')
  have "delivery_inv (d\<lparr>dd_now := now, dd_faults := fs\<rparr>)" using Cons.prems(1) by simp
  from op_keeps [OF this, of op service peer] Cons.prems(2) o
  have step: "delivery_inv (run_op op (d\<lparr>dd_now := now, dd_faults := fs\<rparr>))"
    "acked_value d service peer \<le> acked_value (run_op op (d\<lparr>dd_now := now, dd_faults := fs\<rparr>)) service peer" by simp_all
  from Cons.IH [OF step(1)] Cons.prems(2) step(2) o show ?case by auto
qed simp

subsection \<open>Without faults\<close>

lemma durable_fine: "dd_faults s = [] \<Longrightarrow> durable what eff s = (eff (s\<lparr>dd_faults := []\<rparr>), Inr ())"
  by (simp add: durable_def Let_def)

lemma faults_nil: "dd_faults s = [] \<Longrightarrow> s\<lparr>dd_faults := []\<rparr> = s"
  by simp

lemma attempt_fine: "dd_faults s = [] \<Longrightarrow> attempt what s = (s, Inr ())"
  by (simp add: attempt_def durable_fine)

lemma sweep_fine: "dd_faults s = [] \<Longrightarrow> \<exists>s'. sweep rs s = (s', Inr ()) \<and> dd_faults s' = []"
proof -
  assume n: "dd_faults s = []"
  have "dd_faults s = [] \<Longrightarrow> \<exists>s'. sweep_pending keep ns s = (s', Inr ()) \<and> dd_faults s' = []" for keep ns s
    by (induction ns arbitrary: s) (auto simp: liftE_def bindE_def durable_fine)
  with n show ?thesis by (simp add: sweep_def bindE_def attempt_fine)
qed

lemma open_state_fine:
  assumes "dd_faults s = []" "delivery_inv s" "dd_v1 s = None"
  shows "\<exists>s' rs. open_state s = (s', Inr rs) \<and> opened s' rs \<and> dd_faults s' = []"
proof -
  have "\<exists>f. read_delivery_state s = (s, Inr f)"
  proof (cases "dd_state s")
    case None
    with assms(1) show ?thesis by (simp add: read_delivery_state_def bindE_def attempt_fine)
  next
    case (Some st)
    with assms(2) obtain rs where "st = Inr (state_of rs)" "records_ok rs" by (auto simp: delivery_inv_def)
    with Some assms(1) show ?thesis
      by (simp add: read_delivery_state_def bindE_def attempt_fine check_state_iff [THEN iffD2, of _ rs])
  qed
  then obtain f where f: "read_delivery_state s = (s, Inr f)" by blast
  then obtain rs where rs: "(case f of None \<Rightarrow> migrate | Some rs \<Rightarrow> liftE (Inr rs)) s = (s, Inr rs)"
    using assms(3) by (cases f) (auto simp: migrate_def)
  obtain s' where "sweep rs s = (s', Inr ())" "dd_faults s' = []" using sweep_fine [OF assms(1)] by blast
  then have o: "open_state s = (s', Inr rs)" using assms(1) f rs by (simp add: open_state_def bindE_def attempt_fine liftE_def)
  with open_state_cases [OF o assms(2)] \<open>dd_faults s' = []\<close> show ?thesis by blast
qed

lemma close_state_fine:
  assumes "dd_faults s = []"
  shows "\<exists>s'. close_state xs s = (s', Inr ())"
proof -
  have "\<exists>s2. write_delivery_state xs s = (s2, Inr (sort_records xs)) \<and> dd_faults s2 = []"
    using assms by (simp add: write_delivery_state_def bindE_def durable_fine liftE_def)
  then obtain s2 where w: "write_delivery_state xs s = (s2, Inr (sort_records xs))" "dd_faults s2 = []" by blast
  obtain s3 where "sweep (sort_records xs) s2 = (s3, Inr ())" using sweep_fine [OF w(2)] by blast
  with w(1) show ?thesis by (simp add: close_state_def bindE_def)
qed

lemma load_fine:
  assumes "dd_faults s = []" "delivery_inv s" "dd_v1 s = None"
  shows "\<exists>s' r c. load service peer s = (s', Inr (r, c)) \<and>
    (case dr_pending r of None \<Rightarrow> c = None
     | Some p \<Rightarrow> (\<exists>e. c = Some e \<and> validate_change True e = Inr () \<and> ce_change_id e = pr_change_id p))"
proof -
  obtain s1 rs where o: "open_state s = (s1, Inr rs)" "opened s1 rs" "dd_faults s1 = []"
    using open_state_fine [OF assms] by blast
  let ?r = "find_record rs service peer"
  show ?thesis
  proof (cases "dr_pending ?r")
    case None
    with o show ?thesis by (simp add: load_def with_state_def bindE_def load_fn_def Let_def liftE_def)
  next
    case (Some p)
    then have "?r \<in> set rs" by (cases rule: find_record_cases [of rs service peer]) (simp_all add: new_record_def)
    with Some o(2) obtain e where "map_of (dd_pending s1) (pending_name (pr_change_id p)) = Some (Inr e)"
      "validate_change True e = Inr ()" "ce_change_id e = pr_change_id p"
      by (auto simp: opened_def pending_ok_def)
    with Some o(1,3) show ?thesis
      by (simp add: load_def with_state_def bindE_def load_fn_def Let_def liftE_def read_pending_def attempt_fine)
  qed
qed

definition empty_directory :: delivery_disk where
  "empty_directory = \<lparr>dd_state = None, dd_v1 = None, dd_pending = [], dd_now = 0, dd_faults = []\<rparr>"

text \<open>The file of the first version, once gone, stays gone.\<close>

definition keeps_v1 :: "'a dstep \<Rightarrow> bool" where
  "keeps_v1 m \<longleftrightarrow> (\<forall>s s' r. m s = (s', r) \<longrightarrow> dd_v1 s = None \<longrightarrow> dd_v1 s' = None)"

named_theorems keeps_v1_intros

lemma keeps_v1_bind [keeps_v1_intros]:
  assumes "keeps_v1 m" and "\<And>x. keeps_v1 (k x)"
  shows "keeps_v1 (bindE m k)"
  unfolding keeps_v1_def
proof (intro allI impI)
  fix s s' r assume b: "bindE m k s = (s', r)" and n: "dd_v1 s = None"
  from b show "dd_v1 s' = None"
    by (cases rule: bindE_cases) (use assms n in \<open>unfold keeps_v1_def, blast+\<close>)
qed

lemma keeps_v1_lift [keeps_v1_intros]: "keeps_v1 (liftE r)"
  by (simp add: keeps_v1_def)

lemma keeps_v1_durable [keeps_v1_intros]: "(\<And>s. dd_v1 s = None \<Longrightarrow> dd_v1 (eff s) = None) \<Longrightarrow> keeps_v1 (durable what eff)"
  by (auto simp: keeps_v1_def dest!: durable_cases)

lemma keeps_v1_attempt [keeps_v1_intros]: "keeps_v1 (attempt what)"
  by (auto simp: keeps_v1_def dest!: attempt_cases)

lemma keeps_v1_same: "(\<And>s s' r. m s = (s', r) \<Longrightarrow> same_state s s') \<Longrightarrow> keeps_v1 m"
  by (simp add: keeps_v1_def same_state_def)

lemma keeps_v1_sweep [keeps_v1_intros]: "keeps_v1 (sweep rs)"
  using sweep_keeps by (intro keeps_v1_same) blast

lemma keeps_v1_write [keeps_v1_intros]: "keeps_v1 (write_delivery_state rs)"
  unfolding write_delivery_state_def by (intro keeps_v1_intros) simp

lemma keeps_v1_read [keeps_v1_intros]: "keeps_v1 read_delivery_state"
  unfolding read_delivery_state_def
  by (intro keeps_v1_intros) (auto simp: keeps_v1_def split: option.splits sum.splits)

lemma keeps_v1_migrate [keeps_v1_intros]: "keeps_v1 migrate"
  by (auto simp: keeps_v1_def migrate_def)

lemma keeps_v1_with_state [keeps_v1_intros]:
  assumes "\<And>rs. keeps_v1 (f rs)"
  shows "keeps_v1 (with_state wr f)"
proof -
  have "keeps_v1 open_state" unfolding open_state_def
    by (intro keeps_v1_intros) (auto intro: keeps_v1_intros split: option.split)
  moreover have "keeps_v1 (close_state rs)" for rs unfolding close_state_def by (intro keeps_v1_intros)
  ultimately show ?thesis unfolding with_state_def
    by (auto intro!: keeps_v1_intros assms split: prod.split)
qed

lemma keeps_v1D: "keeps_v1 m \<Longrightarrow> dd_v1 d = None \<Longrightarrow> dd_v1 (fst (m d)) = None"
  by (cases "m d") (auto simp: keeps_v1_def)

lemma keeps_v1_op: "dd_v1 d = None \<Longrightarrow> dd_v1 (run_op op d) = None"
proof -
  have "keeps_v1 (read_pending i)" for i unfolding read_pending_def
    by (intro keeps_v1_intros) (auto simp: keeps_v1_def split: option.splits)
  then have l: "keeps_v1 (load a b)" for a b unfolding load_def load_fn_def
    by (auto intro!: keeps_v1_intros simp: Let_def split: option.split)
  have r: "keeps_v1 (records_of a)" for a unfolding records_of_def records_fn_def by (intro keeps_v1_intros)
  have "keeps_v1 (stage_fn a b n e rs)" for a b n e rs
    unfolding keeps_v1_def stage_fn_def Let_def
    by (auto split: prod.splits elim!: bindE_cases dest!: durable_cases)
  then have s: "keeps_v1 (stage a b e)" for a b e unfolding stage_def by (intro keeps_v1_intros)
  have "keeps_v1 (ack_fn a n e rs)" for a n e rs
    unfolding keeps_v1_def ack_fn_def by (auto split: option.splits if_splits elim!: bindE_cases)
  then have a: "keeps_v1 (acknowledge a e k)" for a e k unfolding acknowledge_def
    by (auto intro!: keeps_v1_intros)
  assume "dd_v1 d = None"
  with l r s a show ?thesis by (cases op) (simp_all add: keeps_v1D)
qed

lemma ops_keep_v1: "dd_v1 d = None \<Longrightarrow> dd_v1 (run_ops ops d) = None"
  by (induction ops d rule: run_ops.induct) (simp_all add: keeps_v1_op)

lemma current_find_record:
  assumes "records_ok rs" "delivery_inv d" "set rs = set (current d)"
  shows "find_record rs a b = find_record (current d) a b"
  using find_record_set [of rs "current d"] assms current_ok by (simp add: records_ok_def)

lemma stage_done:
  assumes "stage peer expected e d = (d', Inr ())" and "delivery_inv d" and "peer \<noteq> []"
  shows "held_id (find_record (current d) (ce_service e) peer) = expected \<and>
    held_id (find_record (current d') (ce_service e) peer) = ce_change_id e \<and>
    acked_value d (ce_service e) peer < source_of e \<and>
    (\<forall>a b. (a, b) \<noteq> (ce_service e, peer) \<longrightarrow> find_record (current d') a b = find_record (current d) a b)"
proof -
  obtain source where v: "validate_change True e = Inr ()" and src: "revision_value (ce_source e) = Inr source"
    and w: "with_state True (stage_fn peer expected source e) d = (d', Inr ())"
    using assms(1) unfolding stage_def
    by (cases "validate_change True e"; cases "revision_value (ce_source e)") auto
  note ap = stage_applies [OF v src assms(3)]
  from with_state_cases [OF w assms(2) ap] obtain rs s1 s2 rs' where i: "delivery_inv d'"
    and r: "opened s1 rs" "set rs = set (current d)" "stage_fn peer expected source e rs s1 = (s2, Inr (rs', ()))"
      "set (current d') = set rs'" by (auto split: if_splits)
  from stage_fn_cases [OF r(3,1) v src assms(3)] obtain p where p: "records_ok rs'"
    "check_stage (find_record rs (ce_service e) peer) expected source e (dd_now s1) = Inr p"
    "\<And>a b. find_record rs' a b = (if (a, b) = (ce_service e, peer)
       then (find_record rs a b)\<lparr>dr_pending := Some p, dr_generation := dr_generation (find_record rs a b) + 1\<rparr>
       else find_record rs a b)" by blast
  have ok: "records_ok rs" using r(1) by (simp add: opened_def)
  have f: "find_record (current d) a b = find_record rs a b" "find_record (current d') a b = find_record rs' a b" for a b
    using current_find_record [OF ok assms(2) r(2)] current_find_record [OF p(1) i r(4) [symmetric]] by simp_all
  from check_stage_Inr [OF p(2) v src find_record_valid [OF ok valid_service [OF v] assms(3)]]
  obtain acked where c: "held_id (find_record rs (ce_service e) peer) = expected" "pr_change_id p = ce_change_id e"
    "revision_value (dr_acked (find_record rs (ce_service e) peer)) = Inr acked" "acked < source" by blast
  then show ?thesis using src by (simp add: f p(3) acked_value_def source_of_def) (simp add: held_id_def)
qed

lemma ack_done:
  assumes "acknowledge peer e ack d = (d', Inr ())" and "delivery_inv d"
  shows "held_id (find_record (current d) (ce_service e) peer) = ce_change_id e \<and>
    dr_pending (find_record (current d') (ce_service e) peer) = None \<and>
    acked_value d' (ce_service e) peer = max (acked_value d (ce_service e) peer) (source_of e) \<and>
    (\<forall>a b. (a, b) \<noteq> (ce_service e, peer) \<longrightarrow> find_record (current d') a b = find_record (current d) a b)"
proof -
  obtain source where src: "revision_value (ce_source e) = Inr source"
    and w: "with_state True (ack_fn peer source e) d = (d', Inr ())"
    using assms(1) by (cases "revision_value (ce_source e)") (auto simp: acknowledge_def split: if_splits)
  from with_state_cases [OF w assms(2) ack_applies [OF src]] obtain rs s1 s2 rs' where i: "delivery_inv d'"
    and r: "opened s1 rs" "set rs = set (current d)" "ack_fn peer source e rs s1 = (s2, Inr (rs', ()))"
      "set (current d') = set rs'" by (auto split: if_splits)
  from ack_fn_cases [OF r(3,1) src] obtain q where q: "records_ok rs'"
    "held_id (find_record rs (ce_service e) peer) = ce_change_id e"
    "ack_record e source (dd_now s1) (find_record rs (ce_service e) peer) = Inr q"
    "\<And>a b. find_record rs' a b = (if (a, b) = (ce_service e, peer) then q else find_record rs a b)" by blast
  have ok: "records_ok rs" using r(1) by (simp add: opened_def)
  have f: "find_record (current d) a b = find_record rs a b" "find_record (current d') a b = find_record rs' a b" for a b
    using current_find_record [OF ok assms(2) r(2)] current_find_record [OF q(1) i r(4) [symmetric]] by simp_all
  from q(3) src show ?thesis
    by (auto simp: f q(2,4) ack_record_def andthen_Inr_iff must_revision_iff acked_value_def source_of_def)
qed

subsection \<open>Properties\<close>

text \<open>From an empty directory, whatever operations run with whatever faults and crashes, a load
  that meets no fault succeeds, and hands back the pending change the record names: no stage,
  acknowledgement or sweep ever leaves a record whose pending file is gone or holds another
  change, nor a state the store refuses to read.\<close>

theorem pending_always_loadable:
  assumes "\<forall>(now, fs, op) \<in> set ops. op_named op"
  shows "\<exists>d r c. load service peer ((run_ops ops empty_directory)\<lparr>dd_faults := []\<rparr>) = (d, Inr (r, c)) \<and>
    (case dr_pending r of None \<Rightarrow> c = None
     | Some p \<Rightarrow> (\<exists>e. c = Some e \<and> validate_change True e = Inr () \<and> ce_change_id e = pr_change_id p))"
proof -
  have "delivery_inv empty_directory" "dd_v1 empty_directory = None"
    by (simp_all add: delivery_inv_def empty_directory_def)
  with ops_keep [OF _ assms] ops_keep_v1 show ?thesis by (intro load_fine) simp_all
qed

theorem pending_always_loadable_witness:
  "\<exists>d r c. load ''notes'' ''b'' ((run_ops [(1, [Fine, FailAfter], StageOp ''b'' [] bound_change)] empty_directory)\<lparr>dd_faults := []\<rparr>)
     = (d, Inr (r, c))"
  using pending_always_loadable [of "[(1, [Fine, FailAfter], StageOp ''b'' [] bound_change)]" "''notes''" "''b''"] by auto

text \<open>No operation, whatever fails in it, lowers the revision a record says its peer has
  acknowledged, and the migration of a first-version state keeps it.\<close>

theorem acked_never_falls:
  assumes "delivery_inv d" and "\<forall>(now, fs, op) \<in> set ops. op_named op"
  shows "acked_value d service peer \<le> acked_value (run_ops ops d) service peer"
  using ops_keep [OF assms] by simp

definition v1_directory :: delivery_disk where
  "v1_directory = empty_directory\<lparr>dd_v1 := Some (Inr \<lparr>v1_identity = deliveryV1StateIdentity, v1_version = 1,
     v1_records = Some [\<lparr>v1_service = ''notes'', v1_peer = ''b'', v1_acked = ''1'', v1_pending = None\<rparr>]\<rparr>)\<rparr>"

theorem acked_never_falls_witness:
  "1 \<le> acked_value (run_ops [(1, [FailBefore], RecordsOp []), (2, [], LoadOp ''notes'' ''b'')] v1_directory) ''notes'' ''b''"
proof -
  have "acked_value v1_directory ''notes'' ''b'' = 1"
    by (simp add: acked_value_def current_def v1_directory_def empty_directory_def check_v1_def small_revisions
        find_record_def is_record_def new_record_def)
  moreover have "delivery_inv v1_directory" by (simp add: delivery_inv_def v1_directory_def empty_directory_def)
  ultimately show ?thesis
    using acked_never_falls [of v1_directory "[(1, [FailBefore], RecordsOp []), (2, [], LoadOp ''notes'' ''b'')]" "''notes''" "''b''"]
    by simp
qed

text \<open>A stage succeeds only against the pending change the caller saw and only with a change newer
  than the acknowledged revision; then that record, and no other, holds the new change.\<close>

theorem stage_replaces_expected:
  assumes "stage peer expected e d = (d', Inr ())" and "delivery_inv d" and "peer \<noteq> []"
  shows "held_id (find_record (current d) (ce_service e) peer) = expected \<and>
    held_id (find_record (current d') (ce_service e) peer) = ce_change_id e \<and>
    acked_value d (ce_service e) peer < source_of e \<and>
    (\<forall>a b. (a, b) \<noteq> (ce_service e, peer) \<longrightarrow> find_record (current d') a b = find_record (current d) a b)"
  using assms by (rule stage_done)

lemma first_stage: "\<exists>d'. stage ''b'' [] bound_change empty_directory = (d', Inr ())"
proof -
  have e: "dd_faults empty_directory = []" "dd_v1 empty_directory = None" "delivery_inv empty_directory"
    "current empty_directory = []"
    by (simp_all add: empty_directory_def delivery_inv_def current_def)
  obtain s1 rs where o: "open_state empty_directory = (s1, Inr rs)" "opened s1 rs" "dd_faults s1 = []"
    using open_state_fine [OF e(1,3,2)] by blast
  then have rs: "rs = []" using open_state_cases [OF o(1) e(3)] e(4) by (auto simp: opened_def)
  have "revision_value (dr_acked (new_record ''notes'' ''b'')) = Inr 0"
    by (simp add: new_record_def revision_value_iff)
  then have "\<exists>s2 rs'. stage_fn ''b'' [] 1 bound_change [] s1 = (s2, Inr (rs', ())) \<and> dd_faults s2 = []"
    using o(3) by (simp add: stage_fn_def Let_def upsert_def find_record_def bindE_def liftE_def durable_fine check_stage_def
        held_id_def must_revision_def new_record_def bound_change_def sample_change_def)
  then obtain s2 rs' where f: "stage_fn ''b'' [] 1 bound_change [] s1 = (s2, Inr (rs', ()))" "dd_faults s2 = []" by blast
  obtain s3 where "close_state rs' s2 = (s3, Inr ())" using close_state_fine [OF f(2)] by blast
  with o(1) f(1) rs sample_valid(2) show ?thesis
    by (simp add: stage_def with_state_def bound_fields small_revisions) (simp add: bindE_def liftE_def)
qed

theorem stage_replaces_expected_witness:
  "\<exists>d'. held_id (find_record (current d') (ce_service bound_change) ''b'') = ce_change_id bound_change"
proof -
  obtain d' where s: "stage ''b'' [] bound_change empty_directory = (d', Inr ())" using first_stage by blast
  have "delivery_inv empty_directory" by (simp add: delivery_inv_def empty_directory_def)
  from stage_replaces_expected [OF s this] show ?thesis by auto
qed

text \<open>An acknowledgement is recorded only for the change that is pending; it clears it and raises
  the acknowledged revision to the change's own when that is higher, on that record alone.\<close>

theorem acknowledge_clears_pending:
  assumes "acknowledge peer e ack d = (d', Inr ())" and "delivery_inv d"
  shows "held_id (find_record (current d) (ce_service e) peer) = ce_change_id e \<and>
    dr_pending (find_record (current d') (ce_service e) peer) = None \<and>
    acked_value d' (ce_service e) peer = max (acked_value d (ce_service e) peer) (source_of e) \<and>
    (\<forall>a b. (a, b) \<noteq> (ce_service e, peer) \<longrightarrow> find_record (current d') a b = find_record (current d) a b)"
  using assms by (rule ack_done)

lemma ack_fine:
  assumes "dd_faults d = []" "delivery_inv d" "dd_v1 d = None" and "validate_change True e = Inr ()"
    and r: "held_id (find_record (current d) (ce_service e) peer) = ce_change_id e"
    and ack: "ar_acked ack = ce_source e" "\<not> ar_need_snapshot ack" "\<not> ar_partial ack"
  shows "\<exists>d'. acknowledge peer e ack d = (d', Inr ())"
proof -
  obtain source where src: "revision_value (ce_source e) = Inr source" and "exact_digest (ce_change_id e)"
    using assms(4) by (auto simp: validate_change_iff)
  then have ne: "ce_change_id e \<noteq> []" by (auto dest: exact_digest_name)
  obtain s1 rs where o: "open_state d = (s1, Inr rs)" "opened s1 rs" "dd_faults s1 = []"
    using open_state_fine [OF assms(1-3)] by blast
  have rs: "records_ok rs" "set rs = set (current d)"
    using o(2) open_state_cases [OF o(1) assms(2)] by (auto simp: opened_def)
  let ?r = "find_record rs (ce_service e) peer"
  have h: "held_id ?r = ce_change_id e" using r current_find_record [OF rs(1) assms(2) rs(2)] by simp
  with ne have p: "dr_pending ?r \<noteq> None" by (cases "dr_pending ?r") (auto simp: held_id_def)
  then obtain i where i: "record_index rs (ce_service e) peer = Some i" and ri: "?r = rs ! i"
    by (cases "record_index rs (ce_service e) peer") (auto simp: find_record_def new_record_def)
  have "validate_record (rs ! i) = Inr ()" using rs(1) record_index_Some [OF i] by (simp add: records_ok_def)
  then obtain acked where "revision_value (dr_acked (rs ! i)) = Inr acked" by (auto simp: validate_record_def andthen_Inr_iff split: if_splits)
  then obtain q where "ack_record e source (dd_now s1) (rs ! i) = Inr q"
    by (auto simp: ack_record_def must_revision_def)
  with i h p ri have f: "ack_fn peer source e rs s1 = (s1, Inr (rs[i := q], ()))" by (simp add: ack_fn_def)
  obtain s3 where "close_state (rs[i := q]) s1 = (s3, Inr ())" using close_state_fine [OF o(3)] by blast
  with o(1) f src ack show ?thesis
    by (simp add: acknowledge_def with_state_def) (simp add: bindE_def liftE_def)
qed

theorem acknowledge_clears_pending_witness:
  "\<exists>d. dr_pending (find_record (current d) (ce_service bound_change) ''b'') = None \<and>
     1 \<le> acked_value d (ce_service bound_change) ''b''"
proof -
  have e: "delivery_inv empty_directory" "dd_v1 empty_directory = None"
    by (simp_all add: delivery_inv_def empty_directory_def)
  obtain d where s: "stage ''b'' [] bound_change empty_directory = (d, Inr ())" using first_stage by blast
  let ?d = "d\<lparr>dd_faults := []\<rparr>"
  have i: "delivery_inv ?d" "dd_v1 ?d = None"
    using op_keeps [OF e(1), of "StageOp ''b'' [] bound_change"] keeps_v1_op [OF e(2), of "StageOp ''b'' [] bound_change"] s
    by simp_all
  have "held_id (find_record (current ?d) (ce_service bound_change) ''b'') = ce_change_id bound_change"
    using stage_done [OF s e(1)] by simp
  from ack_fine [OF _ i sample_valid(2) this, of "zero_result\<lparr>ar_acked := ce_source bound_change\<rparr>"]
  obtain d' where a: "acknowledge ''b'' bound_change (zero_result\<lparr>ar_acked := ce_source bound_change\<rparr>) ?d = (d', Inr ())"
    by (auto simp: zero_result_def)
  from acknowledge_clears_pending [OF a i(1)] show ?thesis by (auto simp: bound_fields intro!: exI [of _ d'])
qed

end
