(* ===== verification/Deliver_Lane.thy ===== *)
theory Deliver_Lane
  imports Delivery_Store
begin

text \<open>
  The lanes of the delivery scheduler (\<^verbatim>\<open>src/daemon/deliverer.go\<close>, \<^verbatim>\<open>src/delivery/types.go\<close>): the dirty
  mark and kick token of a lane, the reasons of a pause, the live state an attempt leaves, the
  backoff, the status report, and the worker's loop as a step relation. Logging is not modelled;
  error texts are the errors themselves.
\<close>

subsection \<open>States and reasons\<close>

definition StateIdle :: string where "StateIdle = ''idle''"
definition StateStaged :: string where "StateStaged = ''staged''"
definition StateTransferring :: string where "StateTransferring = ''transferring''"
definition StateApplying :: string where "StateApplying = ''applying''"
definition StatePaused :: string where "StatePaused = ''paused''"
definition StateBackoff :: string where "StateBackoff = ''backoff''"

datatype pause_reason =
    PauseLocalDisconnected | PauseLocalUnknown | PauseLocalCellular | PauseLocalExpensive
  | PauseLocalConstrained | PauseLocalManualMetered | PauseLocalRestrictedMidTransfer
  | PausePeerDisconnected | PausePeerUnknown | PausePeerCellular | PausePeerExpensive
  | PausePeerConstrained | PausePeerManualMetered | PausePeerRestrictedMidTransfer
  | PausePeerUnreachable | PausePeerIncompatible

definition refusalReasons :: "(pause_code \<times> pause_reason) list" where
  "refusalReasons =
    [(PauseReceiverDisconnected, PausePeerDisconnected),
     (PauseReceiverUnknown, PausePeerUnknown),
     (PauseReceiverCellular, PausePeerCellular),
     (PauseReceiverExpensive, PausePeerExpensive),
     (PauseReceiverConstrained, PausePeerConstrained),
     (PauseReceiverManualMetered, PausePeerManualMetered),
     (PauseReceiverRestrictedMidTransfer, PausePeerRestrictedMidTransfer),
     (PauseSenderDisconnected, PauseLocalDisconnected),
     (PauseSenderUnknown, PauseLocalUnknown),
     (PauseSenderCellular, PauseLocalCellular),
     (PauseSenderExpensive, PauseLocalExpensive),
     (PauseSenderConstrained, PauseLocalConstrained),
     (PauseSenderManualMetered, PauseLocalManualMetered)]"

definition verdictReasons :: "(pause_code \<times> pause_reason) list" where
  "verdictReasons =
    [(PauseReceiverDisconnected, PauseLocalDisconnected),
     (PauseReceiverUnknown, PauseLocalUnknown),
     (PauseReceiverCellular, PauseLocalCellular),
     (PauseReceiverExpensive, PauseLocalExpensive),
     (PauseReceiverConstrained, PauseLocalConstrained),
     (PauseReceiverManualMetered, PauseLocalManualMetered),
     (PauseSenderDisconnected, PausePeerDisconnected),
     (PauseSenderUnknown, PausePeerUnknown),
     (PauseSenderCellular, PausePeerCellular),
     (PauseSenderExpensive, PausePeerExpensive),
     (PauseSenderConstrained, PausePeerConstrained),
     (PauseSenderManualMetered, PausePeerManualMetered)]"

text \<open>A code without a reason is a panic in one and the empty reason, \<open>None\<close>, in the other.\<close>

definition reason_for_refusal :: "paused_error \<Rightarrow> pause_reason res" where
  "reason_for_refusal p = (case map_of refusalReasons (pe_code p) of
     None \<Rightarrow> Inl (GoPanic ''delivery: no pause reason for refusal code'') | Some r \<Rightarrow> Inr r)"

definition reason_for_verdict :: "verdict \<Rightarrow> pause_reason option res" where
  "reason_for_verdict v = andthen (paused_for v) (\<lambda>p. Inr (map_of verdictReasons (pe_code p)))"

text \<open>What a delivery attempt can fail with. \<open>NoReturn\<close> is no error of the code: it stands for a
  loop that has not ended when the model's fuel has, and every caller passes it on.\<close>

datatype deliver_error = PauseErr "pause_reason option" "goerr option" | Fault goerr | NoReturn

definition restarts :: "pause_reason option \<Rightarrow> bool" where
  "restarts r \<longleftrightarrow> r = Some PauseLocalRestrictedMidTransfer \<or> r = Some PausePeerRestrictedMidTransfer"

subsection \<open>Lanes\<close>

record progress =
  pg_roots_total :: int
  pg_roots_complete :: int
  pg_objects_missing :: int
  pg_objects_sent :: int
  pg_bytes_missing :: int
  pg_bytes_sent :: int
  pg_wire_bytes_sent :: int
  pg_in_flight_limit :: int
  pg_enumeration_done :: bool

definition zero_progress :: progress where
  "zero_progress = \<lparr>pg_roots_total = 0, pg_roots_complete = 0, pg_objects_missing = 0, pg_objects_sent = 0,
     pg_bytes_missing = 0, pg_bytes_sent = 0, pg_wire_bytes_sent = 0, pg_in_flight_limit = 0, pg_enumeration_done = False\<rparr>"

record lane_live =
  ll_state :: string
  ll_pause_reason :: "pause_reason option"
  ll_pause_since :: gotime
  ll_last_error :: "deliver_error option"
  ll_last_attempt :: gotime
  ll_next_attempt :: gotime
  ll_progress :: progress
  ll_progress_for :: string
  ll_local_network :: "net_state option"
  ll_peer_network :: "net_state option"
  ll_down :: bool
  ll_down_since :: gotime
  ll_running :: bool

definition new_live :: lane_live where
  "new_live = \<lparr>ll_state = [], ll_pause_reason = None, ll_pause_since = 0, ll_last_error = None, ll_last_attempt = 0,
     ll_next_attempt = 0, ll_progress = zero_progress, ll_progress_for = [], ll_local_network = None, ll_peer_network = None,
     ll_down = False, ll_down_since = 0, ll_running = False\<rparr>"

type_synonym lane_key = "string \<times> string"

text \<open>The part of a lane other goroutines write: the dirty mark, zero when clean, the token in the
  kick channel, and whether the consumer has artifacts.\<close>

record lane =
  ln_dirty_at :: gotime
  ln_kick :: bool
  ln_artifacts :: bool
  ln_live :: lane_live

definition new_lane :: lane where
  "new_lane = \<lparr>ln_dirty_at = 0, ln_kick = False, ln_artifacts = False, ln_live = new_live\<rparr>"

definition poke :: "gotime \<Rightarrow> lane \<Rightarrow> lane" where
  "poke now l = l\<lparr>ln_dirty_at := (if ln_dirty_at l = 0 then now else ln_dirty_at l), ln_kick := True\<rparr>"

definition clean :: "lane \<Rightarrow> lane" where
  "clean l = l\<lparr>ln_dirty_at := 0, ln_kick := False\<rparr>"

definition due :: "duration \<Rightarrow> lane \<Rightarrow> gotime" where
  "due max_wait l =
     (if ln_dirty_at l = 0 then 0 else if \<not> ln_artifacts l then ln_dirty_at l else ln_dirty_at l + max_wait)"

definition dirty :: "lane \<Rightarrow> bool" where
  "dirty l \<longleftrightarrow> ln_dirty_at l \<noteq> 0"

record scheduler =
  sd_self :: string
  sd_services :: "string list"
  sd_order :: "lane_key list"
  sd_lanes :: "lane_key \<Rightarrow> lane"

text \<open>\<^verbatim>\<open>add\<close> of a service with its peers; \<^verbatim>\<open>compareLaneKeys\<close> is the order of the pairs.\<close>

fun add_lanes :: "string \<Rightarrow> string list \<Rightarrow> scheduler \<Rightarrow> scheduler" where
  "add_lanes service [] s = s"
| "add_lanes service (p # ps) s =
     (if p = sd_self s then add_lanes service ps s
      else add_lanes service ps (s\<lparr>sd_lanes := (sd_lanes s)((service, p) := new_lane), sd_order := sd_order s @ [(service, p)]\<rparr>))"

definition add_service :: "string \<Rightarrow> string list \<Rightarrow> scheduler \<Rightarrow> scheduler" where
  "add_service service peers s =
     (let t = add_lanes service peers (s\<lparr>sd_services := List.insert service (sd_services s)\<rparr>) in
      t\<lparr>sd_order := sort (sd_order t)\<rparr>)"

definition kicks :: "string \<Rightarrow> string \<Rightarrow> lane_key \<Rightarrow> bool" where
  "kicks service peer k \<longleftrightarrow> (service = [] \<or> fst k = service) \<and> (peer = [] \<or> snd k = peer)"

definition poke_all :: "gotime \<Rightarrow> lane_key list \<Rightarrow> scheduler \<Rightarrow> scheduler" where
  "poke_all now ks s = fold (\<lambda>k t. t\<lparr>sd_lanes := (sd_lanes t)(k := poke now (sd_lanes t k))\<rparr>) ks s"

definition kick :: "gotime \<Rightarrow> string \<Rightarrow> string \<Rightarrow> scheduler \<Rightarrow> scheduler \<times> unit res" where
  "kick now service peer s =
     (if service \<noteq> [] \<and> service \<notin> set (sd_services s) then (s, Inl (ErrMsg ''delivery: unknown service''))
      else let ks = filter (kicks service peer) (sd_order s); t = poke_all now ks s in
        (t, require (\<not> (peer \<noteq> [] \<and> ks = [])) (ErrMsg ''delivery: no lane'')))"

subsection \<open>Status\<close>

record pending_status =
  ps_change_id :: string
  ps_kind :: string
  ps_base :: revision
  ps_source :: revision
  ps_root_count :: nat
  ps_staged_at :: gotime
  ps_superseded :: u64

record peer_status =
  st_service :: string
  st_peer :: string
  st_generation :: u64
  st_acked :: revision
  st_acked_change_id :: string
  st_acked_at :: gotime
  st_pending :: "pending_status option"
  st_state :: string
  st_pause_reason :: "pause_reason option"
  st_pause_since :: gotime
  st_last_error :: "deliver_error option"
  st_last_attempt :: gotime
  st_next_attempt :: gotime
  st_progress :: progress
  st_local_network :: "net_state option"
  st_peer_network :: "net_state option"

definition pending_status_of :: "pending_ref \<Rightarrow> pending_status" where
  "pending_status_of p = \<lparr>ps_change_id = pr_change_id p, ps_kind = pr_kind p, ps_base = pr_base p, ps_source = pr_source p,
     ps_root_count = length (pr_roots p), ps_staged_at = pr_staged_at p, ps_superseded = pr_superseded p\<rparr>"

definition peer_status_of :: "delivery_record \<Rightarrow> lane_live option \<Rightarrow> peer_status" where
  "peer_status_of r live =
     (let base = \<lparr>st_service = dr_service r, st_peer = dr_peer r, st_generation = dr_generation r, st_acked = dr_acked r,
        st_acked_change_id = dr_acked_change_id r, st_acked_at = dr_acked_at r,
        st_pending = map_option pending_status_of (dr_pending r),
        st_state = (if dr_pending r = None then StateIdle else StateStaged), st_pause_reason = None, st_pause_since = 0,
        st_last_error = None, st_last_attempt = 0, st_next_attempt = 0, st_progress = zero_progress,
        st_local_network = None, st_peer_network = None\<rparr> in
      case live of
        None \<Rightarrow> base
      | Some v \<Rightarrow> base\<lparr>st_state := (if ll_state v = [] then st_state base else ll_state v),
          st_pause_reason := ll_pause_reason v, st_pause_since := ll_pause_since v, st_last_error := ll_last_error v,
          st_last_attempt := ll_last_attempt v, st_next_attempt := ll_next_attempt v, st_progress := ll_progress v,
          st_local_network := ll_local_network v, st_peer_network := ll_peer_network v\<rparr>)"

text \<open>\<^verbatim>\<open>laneRecord\<close> is the first record of the key, or a fresh one, as \<^verbatim>\<open>find\<close> of the store is.\<close>

definition lane_record :: "delivery_record list \<Rightarrow> lane_key \<Rightarrow> delivery_record" where
  "lane_record rs k = (case List.find (is_record (fst k) (snd k)) rs of Some r \<Rightarrow> r | None \<Rightarrow> new_record (fst k) (snd k))"

definition status_of :: "scheduler \<Rightarrow> string \<Rightarrow> delivery_record list \<Rightarrow> peer_status list" where
  "status_of s service rs =
     (let ks = filter (\<lambda>k. service = [] \<or> fst k = service) (sd_order s);
          live = map (\<lambda>k. peer_status_of (lane_record rs k) (Some (ln_live (sd_lanes s k)))) ks;
          rest = filter (\<lambda>r. record_key r \<notin> set ks) rs in
      sort_key (\<lambda>p. (st_service p, st_peer p)) (live @ map (\<lambda>r. peer_status_of r None) rest))"

definition status :: "scheduler \<Rightarrow> string \<Rightarrow> delivery_disk \<Rightarrow> delivery_disk \<times> peer_status list res" where
  "status s service = bindE (records_of service) (\<lambda>rs. liftE (Inr (status_of s service rs)))"

definition settled_status :: "lane_key \<Rightarrow> lane \<Rightarrow> delivery_disk \<Rightarrow> delivery_disk \<times> (peer_status \<times> bool) res" where
  "settled_status k l = bindE (records_of (fst k)) (\<lambda>rs.
     liftE (Inr (peer_status_of (lane_record rs k) (Some (ln_live l)), ln_dirty_at l = 0 \<and> \<not> ll_running (ln_live l))))"

subsection \<open>The end of an attempt\<close>

definition deliveryBackoffBase :: duration where "deliveryBackoffBase = 30 * 10 ^ 9"
definition deliveryBackoffMax :: duration where "deliveryBackoffMax = 5 * 60 * 10 ^ 9"
definition pauseRecheck :: duration where "pauseRecheck = 60 * 10 ^ 9"
definition restartBackoffBase :: duration where "restartBackoffBase = 10 ^ 9"
definition artifactMaxWait :: duration where "artifactMaxWait = 10 * 10 ^ 9"
definition peerStateMaxAge :: duration where "peerStateMaxAge = 2 * 60 * 10 ^ 9"

definition back_off :: "duration \<Rightarrow> duration" where
  "back_off delay = min (max (2 * delay) deliveryBackoffBase) deliveryBackoffMax"

text \<open>\<^verbatim>\<open>nextRestart\<close>: the wait before this restart, and the one kept for the next.\<close>

definition next_restart :: "duration \<Rightarrow> duration \<times> duration" where
  "next_restart wait = (wait, min (max (2 * wait) restartBackoffBase) pauseRecheck)"

definition pause_live :: "gotime \<Rightarrow> pause_reason option \<Rightarrow> goerr option \<Rightarrow> duration \<Rightarrow> lane_live \<Rightarrow> lane_live" where
  "pause_live now reason cause recheck v =
     (let entered = (ll_state v \<noteq> StatePaused \<or> ll_pause_reason v \<noteq> reason);
          w = v\<lparr>ll_pause_since := (if entered then now else ll_pause_since v), ll_state := StatePaused,
            ll_pause_reason := reason, ll_next_attempt := now + recheck, ll_running := False,
            ll_last_error := map_option Fault cause\<rparr> in
      if reason = Some PausePeerUnreachable \<and> \<not> ll_down v then w\<lparr>ll_down := True, ll_down_since := now\<rparr> else w)"

definition fail_live :: "gotime \<Rightarrow> deliver_error \<Rightarrow> duration \<Rightarrow> lane_live \<Rightarrow> lane_live" where
  "fail_live now err delay v =
     (let w = v\<lparr>ll_state := StateBackoff, ll_pause_reason := None, ll_pause_since := 0, ll_running := False,
            ll_last_error := Some err, ll_next_attempt := now + delay\<rparr> in
      if \<not> ll_down v then w\<lparr>ll_down := True, ll_down_since := now\<rparr> else w)"

definition settle_live :: "lane_live \<Rightarrow> lane_live" where
  "settle_live v = v\<lparr>ll_down := False, ll_state := [], ll_pause_reason := None, ll_pause_since := 0,
     ll_last_error := None, ll_running := False\<rparr>"

subsection \<open>The worker\<close>

text \<open>A worker waits for a signal, starts an attempt, and delivers once the attempt has cleaned the
  lane. Armed timers are the durations they were set to; \<open>wk_wake\<close> says whether it also waits for
  the monitor's next change.\<close>

datatype phase = Waiting | Starting | Delivering

record worker =
  wk_lane :: lane
  wk_phase :: phase
  wk_retry :: "duration option"
  wk_due :: "duration option"
  wk_wake :: bool
  wk_delay :: duration
  wk_restart_wait :: duration

definition new_worker :: "lane \<Rightarrow> worker" where
  "new_worker l = \<lparr>wk_lane = l, wk_phase = Waiting, wk_retry = None, wk_due = None, wk_wake = False, wk_delay = 0,
     wk_restart_wait = 0\<rparr>"

definition with_live :: "(lane_live \<Rightarrow> lane_live) \<Rightarrow> worker \<Rightarrow> worker" where
  "with_live f w = w\<lparr>wk_lane := (wk_lane w)\<lparr>ln_live := f (ln_live (wk_lane w))\<rparr>\<rparr>"

definition take_kick :: "gotime \<Rightarrow> worker \<Rightarrow> worker" where
  "take_kick now w =
     (let l = wk_lane w; v = w\<lparr>wk_lane := l\<lparr>ln_kick := False\<rparr>\<rparr> in
      if wk_retry w = None \<and> wk_due w = None then v\<lparr>wk_due := Some (due artifactMaxWait l - now)\<rparr> else v)"

definition begin_attempt :: "gotime \<Rightarrow> worker \<Rightarrow> worker" where
  "begin_attempt now w =
     (with_live (\<lambda>v. v\<lparr>ll_last_attempt := now, ll_next_attempt := 0, ll_running := True\<rparr>) w)
       \<lparr>wk_phase := Starting, wk_retry := None, wk_wake := False, wk_due := None\<rparr>"

text \<open>\<^verbatim>\<open>deliverOnce\<close> cleans the lane at the start of each of its turns. The wait between consecutive
  restarts starts over when a batch was committed (\<open>moved\<close>) or the attempt ends otherwise.\<close>

definition finish_attempt :: "gotime \<Rightarrow> bool \<Rightarrow> (deliver_error + unit) \<Rightarrow> worker \<Rightarrow> worker" where
  "finish_attempt now moved result w =
     (let w = w\<lparr>wk_phase := Waiting, wk_restart_wait := (if moved then 0 else wk_restart_wait w)\<rparr> in
      case result of
        Inl (PauseErr reason cause) \<Rightarrow>
          if restarts reason then
            (case next_restart (wk_restart_wait w) of (wait, next) \<Rightarrow>
              (with_live (pause_live now reason cause wait) w)\<lparr>wk_restart_wait := next, wk_retry := Some wait\<rparr>)
          else (with_live (pause_live now reason cause pauseRecheck) w)
            \<lparr>wk_restart_wait := 0, wk_retry := Some pauseRecheck, wk_wake := True\<rparr>
      | Inl err \<Rightarrow> (let d = back_off (wk_delay w) in
          (with_live (fail_live now err d) w)\<lparr>wk_restart_wait := 0, wk_delay := d, wk_retry := Some d\<rparr>)
      | Inr _ \<Rightarrow> (with_live settle_live w)\<lparr>wk_restart_wait := 0, wk_delay := 0\<rparr>)"

inductive work_step :: "worker \<Rightarrow> worker \<Rightarrow> bool" where
  poked: "now \<noteq> 0 \<Longrightarrow> work_step w (w\<lparr>wk_lane := poke now (wk_lane w)\<rparr>)"
| detected: "work_step w (w\<lparr>wk_lane := (wk_lane w)\<lparr>ln_artifacts := b\<rparr>\<rparr>)"
| kicked: "wk_phase w = Waiting \<Longrightarrow> ln_kick (wk_lane w) \<Longrightarrow> work_step w (take_kick now w)"
| fired: "wk_phase w = Waiting \<Longrightarrow> wk_due w \<noteq> None \<or> wk_retry w \<noteq> None \<or> wk_wake w \<Longrightarrow> work_step w (begin_attempt now w)"
| cleaned: "wk_phase w \<noteq> Waiting \<Longrightarrow> work_step w (w\<lparr>wk_lane := clean (wk_lane w), wk_phase := Delivering\<rparr>)"
| finished: "wk_phase w = Delivering \<Longrightarrow> result \<noteq> Inl NoReturn \<Longrightarrow> work_step w (finish_attempt now moved result w)"

text \<open>The capability check before the loop retries forever with the same backoff.\<close>

fun await_delays :: "nat \<Rightarrow> duration list" where
  "await_delays 0 = []"
| "await_delays (Suc n) = await_delays n @ [back_off (if n = 0 then 0 else last (await_delays n))]"

subsection \<open>Roots to pin\<close>

text \<open>\<^verbatim>\<open>unionRoots\<close>: the next roots, then the old ones whose digest they lack; an old manifest takes the
  place of the root with its digest.\<close>

fun digest_index :: "ref list \<Rightarrow> digest \<Rightarrow> nat option" where
  "digest_index [] d = None"
| "digest_index (r # rs) d = (if r_digest r = d then Some 0 else map_option Suc (digest_index rs d))"

definition add_root :: "ref \<Rightarrow> ref list \<Rightarrow> ref list" where
  "add_root r rs = (case digest_index rs (r_digest r) of
     None \<Rightarrow> rs @ [r]
   | Some i \<Rightarrow> if r_kind r = KindManifest then rs[i := r] else rs)"

definition union_roots :: "ref list \<Rightarrow> ref list \<Rightarrow> ref list" where
  "union_roots old next = fold add_root old next"

subsection \<open>Facts\<close>

lemma digest_index_None: "digest_index rs d = None \<longleftrightarrow> d \<notin> r_digest ` set rs"
  by (induction rs) auto

lemma digest_index_Some: "digest_index rs d = Some i \<Longrightarrow> i < length rs \<and> r_digest (rs ! i) = d"
  by (induction rs arbitrary: i) (auto split: if_splits)

text \<open>\<open>covers rs r\<close>: pinning \<open>rs\<close> keeps all that \<open>r\<close> keeps.\<close>

definition covers :: "ref list \<Rightarrow> ref \<Rightarrow> bool" where
  "covers rs r \<longleftrightarrow> (\<exists>q \<in> set rs. r_digest q = r_digest r \<and> (r_kind r = KindManifest \<longrightarrow> r_kind q = KindManifest))"

lemma add_root_facts:
  assumes "distinct (map r_digest rs)"
  shows "distinct (map r_digest (add_root r rs))" "set (add_root r rs) \<subseteq> insert r (set rs)"
    "length (add_root r rs) \<le> length rs + 1" "covers (add_root r rs) r" "covers rs q \<Longrightarrow> covers (add_root r rs) q"
proof -
  have "distinct (map r_digest (add_root r rs)) \<and> set (add_root r rs) \<subseteq> insert r (set rs) \<and>
    length (add_root r rs) \<le> length rs + 1 \<and> covers (add_root r rs) r \<and> (covers rs q \<longrightarrow> covers (add_root r rs) q)"
  proof (cases "digest_index rs (r_digest r)")
    case None
    then have "add_root r rs = rs @ [r]" "r_digest r \<notin> r_digest ` set rs" by (simp_all add: add_root_def) (simp add: digest_index_None)
    with assms show ?thesis by (auto simp: covers_def)
  next
    case (Some i)
    from digest_index_Some [OF this] have i: "i < length rs" "r_digest (rs ! i) = r_digest r" by auto
    show ?thesis
    proof (cases "r_kind r = KindManifest")
      case False
      with Some i assms show ?thesis by (auto simp: add_root_def covers_def)
    next
      case True
      have m: "map r_digest (rs[i := r]) = map r_digest rs" using i by (simp add: map_update list_update_same_conv)
      have "covers (rs[i := r]) q" if c: "covers rs q"
      proof -
        from c obtain x j where x: "j < length rs" "x = rs ! j" "r_digest x = r_digest q" "r_kind q = KindManifest \<longrightarrow> r_kind x = KindManifest"
          by (auto simp: covers_def in_set_conv_nth)
        show ?thesis
        proof (cases "j = i")
          case True
          with x i have "r \<in> set (rs[i := r])" "r_digest r = r_digest q" by (auto simp: set_update_memI)
          with \<open>r_kind r = KindManifest\<close> show ?thesis unfolding covers_def by blast
        next
          case False
          with x i have "x \<in> set (rs[i := r])" by (metis length_list_update nth_list_update_neq nth_mem)
          with x show ?thesis unfolding covers_def by blast
        qed
      qed
      moreover have "set (rs[i := r]) \<subseteq> insert r (set rs)" by (rule set_update_subset_insert)
      moreover have "covers (rs[i := r]) r" using i set_update_memI [of i rs r] unfolding covers_def by blast
      ultimately show ?thesis using Some True assms m by (simp add: add_root_def)
    qed
  qed
  then show "distinct (map r_digest (add_root r rs))" "set (add_root r rs) \<subseteq> insert r (set rs)"
    "length (add_root r rs) \<le> length rs + 1" "covers (add_root r rs) r" "covers rs q \<Longrightarrow> covers (add_root r rs) q" by auto
qed

lemma union_roots_facts:
  "distinct (map r_digest next) \<Longrightarrow> distinct (map r_digest (union_roots old next)) \<and>
   set (union_roots old next) \<subseteq> set old \<union> set next \<and> length (union_roots old next) \<le> length old + length next \<and>
   (\<forall>r \<in> set old. covers (union_roots old next) r) \<and> (\<forall>r. covers next r \<longrightarrow> covers (union_roots old next) r)"
proof (induction old arbitrary: "next")
  case (Cons r old)
  note f = add_root_facts [OF Cons.prems, of r]
  have u: "union_roots (r # old) next = union_roots old (add_root r next)" by (simp add: union_roots_def)
  note ih = Cons.IH [OF f(1)]
  have "\<forall>q \<in> set (r # old). covers (union_roots (r # old) next) q" using ih f(4) unfolding u by simp
  moreover have "\<forall>q. covers next q \<longrightarrow> covers (union_roots (r # old) next) q" using ih add_root_facts(5) [OF Cons.prems] unfolding u by blast
  moreover have "set (union_roots (r # old) next) \<subseteq> set (r # old) \<union> set next" using ih f(2) unfolding u by auto
  ultimately show ?case using ih f(3) unfolding u by simp
qed (simp add: union_roots_def)

lemma covers_self: "r \<in> set rs \<Longrightarrow> covers rs r"
  unfolding covers_def by blast

lemma union_pinnable:
  assumes "validate_roots old = Inr ()" "validate_roots next = Inr ()"
    and "owner \<noteq> []" "\<not> list_ex (\<lambda>c. c = CHR 0x00 \<or> c = CHR 0x0D \<or> c = CHR 0x0A) owner"
  shows "validate_pins_set owner (union_roots old next) = Inr () \<and> (\<forall>r \<in> set old \<union> set next. covers (union_roots old next) r)"
proof -
  from assms(1,2) have v: "\<forall>r \<in> set old \<union> set next. validate_ref r = Inr ()" "distinct (map r_digest next)"
    "int (length old) \<le> MaxRoots" "int (length next) \<le> MaxRoots" by (auto simp: validate_roots_iff)
  note u = union_roots_facts [OF v(2), of old]
  have "int (length (union_roots old next)) \<le> MaxPinRoots" using u v(3,4) by (simp add: MaxPinRoots_def)
  with u v assms(3,4) have "validate_pins_set owner (union_roots old next) = Inr ()"
    by (auto simp: validate_pins_set_def validate_refs_iff)
  with u covers_self show ?thesis by blast
qed

text \<open>Every blocked pair has a reason, and it names the end that is restricted, this host first.\<close>

lemma verdict_reason:
  assumes "\<not> vd_allowed (evaluate here there)"
  shows "\<exists>r. reason_for_verdict (evaluate here there) = Inr (Some r)"
proof -
  from paused_for_blocked [OF assms] obtain c where c: "paused_for (evaluate here there) = Inr \<lparr>pe_code = c, pe_reason = vd_reason (evaluate here there)\<rparr>"
    by blast
  moreover have "c \<noteq> PauseReceiverRestrictedMidTransfer"
    using c by (auto simp: paused_for_def evaluate_def blocker_def pauseCodes_def restrictedMidTransfer_def split: if_splits)
  ultimately show ?thesis by (cases c) (simp_all add: reason_for_verdict_def verdictReasons_def)
qed

lemma refusal_reason: "\<exists>r. reason_for_refusal p = Inr r"
  by (cases "pe_code p") (simp_all add: reason_for_refusal_def refusalReasons_def)

subsection \<open>The worker's invariant\<close>

lemmas work_defs = take_kick_def begin_attempt_def finish_attempt_def with_live_def poke_def clean_def dirty_def Let_def

text \<open>A dirty lane has its token, or a timer is armed, or an attempt is about to clean it; while an
  attempt delivers, what makes the lane dirty also leaves the token.\<close>

definition work_inv :: "worker \<Rightarrow> bool" where
  "work_inv w \<longleftrightarrow> (dirty (wk_lane w) \<longrightarrow> (case wk_phase w of
       Waiting \<Rightarrow> ln_kick (wk_lane w) \<or> wk_due w \<noteq> None \<or> wk_retry w \<noteq> None
     | Starting \<Rightarrow> True
     | Delivering \<Rightarrow> ln_kick (wk_lane w))) \<and>
     (wk_phase w \<noteq> Waiting \<longrightarrow> wk_due w = None \<and> wk_retry w = None \<and> \<not> wk_wake w)"

definition delays_ok :: "worker \<Rightarrow> bool" where
  "delays_ok w \<longleftrightarrow> (wk_delay w = 0 \<or> deliveryBackoffBase \<le> wk_delay w \<and> wk_delay w \<le> deliveryBackoffMax) \<and>
     0 \<le> wk_restart_wait w \<and> wk_restart_wait w \<le> pauseRecheck \<and>
     (\<forall>d. wk_retry w = Some d \<longrightarrow> 0 \<le> d \<and> d \<le> deliveryBackoffMax)"

lemma finish_cases:
  "finish_attempt now moved result w = v \<Longrightarrow> ln_kick (wk_lane v) = ln_kick (wk_lane w) \<and>
    ln_dirty_at (wk_lane v) = ln_dirty_at (wk_lane w) \<and> wk_phase v = Waiting"
  by (auto simp: finish_attempt_def with_live_def Let_def next_restart_def
      split: sum.splits deliver_error.splits if_splits)

lemma work_step_inv: "work_step w v \<Longrightarrow> work_inv w \<Longrightarrow> work_inv v"
proof (induction rule: work_step.induct)
  case (finished w result now moved)
  obtain v where v: "finish_attempt now moved result w = v" by simp
  from finished finish_cases [OF v] show ?case unfolding v by (auto simp: work_inv_def dirty_def)
qed (auto simp: work_inv_def work_defs split: phase.splits)

lemma back_off_bounds: "0 \<le> d \<Longrightarrow> deliveryBackoffBase \<le> back_off d \<and> back_off d \<le> deliveryBackoffMax"
  by (auto simp: back_off_def deliveryBackoffBase_def deliveryBackoffMax_def)

lemma work_step_delays: "work_step w v \<Longrightarrow> delays_ok w \<Longrightarrow> delays_ok v"
proof (induction rule: work_step.induct)
  case (finished w result now moved)
  have "0 \<le> wk_delay w" using finished(3) by (auto simp: delays_ok_def deliveryBackoffBase_def)
  note b = back_off_bounds [OF this]
  have c: "0 \<le> pauseRecheck" "pauseRecheck \<le> deliveryBackoffMax" "restartBackoffBase \<le> pauseRecheck" "0 \<le> restartBackoffBase"
    "0 \<le> deliveryBackoffBase"
    by (simp_all add: pauseRecheck_def deliveryBackoffMax_def restartBackoffBase_def deliveryBackoffBase_def)
  show ?case
  proof (cases result)
    case (Inr u)
    with finished(3) c show ?thesis by (simp add: finish_attempt_def with_live_def delays_ok_def)
  next
    case (Inl e)
    with finished(3) b c show ?thesis
      by (cases e) (auto simp: finish_attempt_def with_live_def delays_ok_def next_restart_def Let_def)
  qed
qed (auto simp: delays_ok_def work_defs)

lemma run_keeps: "work_step\<^sup>*\<^sup>* w v \<Longrightarrow> work_inv w \<Longrightarrow> delays_ok w \<Longrightarrow> work_inv v \<and> delays_ok v"
  by (induction rule: rtranclp_induct) (auto intro: work_step_inv work_step_delays)

text \<open>The worker of a started lane: \<^verbatim>\<open>start\<close> pokes every lane once.\<close>

definition started :: "gotime \<Rightarrow> worker" where
  "started now = new_worker (poke now new_lane)"

lemma started_ok: "work_inv (started now)" "delays_ok (started now)"
  by (simp_all add: started_def new_worker_def work_inv_def delays_ok_def work_defs pauseRecheck_def)

subsection \<open>Properties\<close>

text \<open>C39. No kick is lost: whenever the worker of a lane waits and the lane is dirty, its token is there or
  a timer is armed, so another attempt will read what made it dirty; and an attempt that is
  delivering sees every kick since it cleaned the lane.\<close>

theorem kick_never_lost:
  assumes "work_step\<^sup>*\<^sup>* (started now) w" and "dirty (wk_lane w)"
  shows "case wk_phase w of Waiting \<Rightarrow> ln_kick (wk_lane w) \<or> wk_due w \<noteq> None \<or> wk_retry w \<noteq> None
    | Starting \<Rightarrow> True | Delivering \<Rightarrow> ln_kick (wk_lane w)"
proof -
  have "work_inv w" using run_keeps [OF assms(1) started_ok] by simp
  with assms(2) show ?thesis by (simp add: work_inv_def)
qed

theorem kick_never_lost_witness:
  "ln_kick (wk_lane (started 1)) \<or> wk_due (started 1) \<noteq> None \<or> wk_retry (started 1) \<noteq> None"
  using kick_never_lost [of 1 "started 1"] by (simp add: started_def new_worker_def work_defs new_lane_def)

text \<open>However attempts end, the wait before the next one never passes the maximum backoff and is
  never negative; the backoff after a failure starts at its base and doubles up to its maximum.\<close>

theorem retry_bounded:
  assumes "work_step\<^sup>*\<^sup>* (started now) w" and "wk_retry w = Some d"
  shows "0 \<le> d \<and> d \<le> deliveryBackoffMax \<and>
    deliveryBackoffBase \<le> back_off (wk_delay w) \<and> back_off (wk_delay w) = min (max (2 * wk_delay w) deliveryBackoffBase) deliveryBackoffMax"
proof -
  have k: "delays_ok w" using run_keeps [OF assms(1) started_ok] by simp
  then have "0 \<le> wk_delay w" by (auto simp: delays_ok_def deliveryBackoffBase_def)
  with k assms(2) back_off_bounds show ?thesis by (simp add: delays_ok_def back_off_def)
qed

lemma failed_run: "work_step\<^sup>*\<^sup>* (started 1)
   (finish_attempt 2 False (Inl (Fault ErrIncomplete)) ((begin_attempt 2 (take_kick 2 (started 1)))\<lparr>wk_lane := clean (wk_lane (begin_attempt 2 (take_kick 2 (started 1)))), wk_phase := Delivering\<rparr>))"
  (is "work_step\<^sup>*\<^sup>* ?s (finish_attempt _ _ _ ?d)")
proof -
  have "work_step ?s (take_kick 2 ?s)" by (rule kicked) (simp_all add: started_def new_worker_def work_defs)
  moreover have "work_step (take_kick 2 ?s) (begin_attempt 2 (take_kick 2 ?s))"
    by (rule fired) (simp_all add: started_def new_worker_def work_defs)
  moreover have "work_step (begin_attempt 2 (take_kick 2 ?s)) ?d"
    by (rule cleaned) (simp add: begin_attempt_def)
  moreover have "work_step ?d (finish_attempt 2 False (Inl (Fault ErrIncomplete)) ?d)" by (rule finished) simp_all
  ultimately show ?thesis by (meson rtranclp.rtrancl_into_rtrancl rtranclp.rtrancl_refl)
qed

theorem retry_bounded_witness: "deliveryBackoffBase \<le> deliveryBackoffMax \<and> 0 \<le> deliveryBackoffBase"
  using retry_bounded [OF failed_run, of deliveryBackoffBase]
  by (simp add: finish_attempt_def started_def new_worker_def work_defs back_off_def deliveryBackoffBase_def deliveryBackoffMax_def)

text \<open>The union of the old and the next roots is always a pin set the store accepts, and pinning it
  keeps what pinning either list keeps: it has every digest of both, as a manifest whenever one
  of them has it as a manifest.\<close>

theorem union_roots_pinnable:
  assumes "validate_roots old = Inr ()" "validate_roots next = Inr ()"
    and "owner \<noteq> []" "\<not> list_ex (\<lambda>c. c = CHR 0x00 \<or> c = CHR 0x0D \<or> c = CHR 0x0A) owner"
  shows "validate_pins_set owner (union_roots old next) = Inr () \<and>
    (\<forall>r \<in> set old \<union> set next. \<exists>q \<in> set (union_roots old next).
       r_digest q = r_digest r \<and> (r_kind r = KindManifest \<longrightarrow> r_kind q = KindManifest))"
  using union_pinnable [OF assms] by (simp add: covers_def)

theorem union_roots_pinnable_witness: "validate_pins_set ''a'' (union_roots [one_ref] [one_ref]) = Inr ()"
  using union_roots_pinnable [OF one_valid one_valid, of "''a''"] by simp

text \<open>Every reason to pause is named: a blocked verdict has a reason for this host, and so has every
  refusal a peer can send.\<close>

theorem pause_reasons_total:
  "(\<exists>r. reason_for_refusal p = Inr r) \<and> (vd_allowed (evaluate here there) \<or> (\<exists>r. reason_for_verdict (evaluate here there) = Inr (Some r)))"
  using refusal_reason verdict_reason by blast

end
