(* ===== verification/Deliver_Run.thy ===== *)
theory Deliver_Run
  imports Deliver_Lane
begin

text \<open>
  One lane's delivery attempt (\<^verbatim>\<open>src/daemon/deliverer.go\<close>, from \<^verbatim>\<open>detect\<close> to \<^verbatim>\<open>applyOnce\<close>): what is
  staged and pinned, the admission of each call that moves data, the enumeration of a change's
  closure in pages, its batches, and the acknowledgement.

  Everything outside the lane answers through a \<open>world\<close>: a reply per call as a function of the log
  of all calls so far, so a theorem about every world is one about every consumer, peer, network,
  clock and interleaved kick. The log is also what the theorems are about. The durable store is
  \<open>Delivery_Store\<close>'s. Sums of sizes are unbounded integers.
\<close>

subsection \<open>Calls and their log\<close>

datatype call_error = Refusal paused_error | CallErr goerr

datatype event =
    EvClock
  | EvDirty
  | EvClean
  | EvDisk
  | EvLocal net_state
  | EvLocalCaps
  | EvExport bool revision
  | EvPins "ref list" "unit res"
  | EvClosure int
  | EvBuild "object_entry list"
  | EvRead digest nat
  | EvDrop digest
  | EvPeerCaps
  | EvNetStatus "net_state res"
  | EvHave "digest list" u64
  | EvBegin digest net_state u64 "net_state \<times> (call_error + nat list)"
  | EvPut digest nat net_state u64 "net_state \<times> (call_error + unit)"
  | EvCommit digest u64
  | EvApply change_envelope
  | EvApplyV2 change_envelope u64

type_synonym log = "event list"

record world =
  w_service :: string
  w_peer :: string
  w_self :: string
  w_schema :: string
  w_now :: "log \<Rightarrow> gotime"
  w_dirty :: "log \<Rightarrow> bool"
  w_monitor :: "log \<Rightarrow> net_state"
  w_watched :: "log \<Rightarrow> net_state list"
  w_local_caps :: "log \<Rightarrow> string list res"
  w_export :: "bool \<Rightarrow> export_request \<Rightarrow> log \<Rightarrow> change_envelope res"
  w_pins_set :: "string \<Rightarrow> ref list \<Rightarrow> log \<Rightarrow> unit res"
  w_closure :: "closure_params \<Rightarrow> log \<Rightarrow> closure_page res"
  w_build :: "object_entry list \<Rightarrow> log \<Rightarrow> batch_descriptor res"
  w_read :: "digest \<Rightarrow> nat \<Rightarrow> log \<Rightarrow> bytes res"
  w_drop :: "digest \<Rightarrow> log \<Rightarrow> unit res"
  w_peer_caps :: "log \<Rightarrow> string list res"
  w_net_status :: "log \<Rightarrow> net_state res"
  w_have :: "digest list \<Rightarrow> u64 \<Rightarrow> log \<Rightarrow> call_error + digest list"
  w_begin :: "batch_descriptor \<Rightarrow> net_state \<Rightarrow> u64 \<Rightarrow> log \<Rightarrow> net_state \<times> (call_error + nat list)"
  w_put :: "digest \<Rightarrow> nat \<Rightarrow> bytes \<Rightarrow> net_state \<Rightarrow> u64 \<Rightarrow> log \<Rightarrow> net_state \<times> (call_error + unit)"
  w_commit :: "digest \<Rightarrow> u64 \<Rightarrow> log \<Rightarrow> call_error + commit_report"
  w_apply :: "change_envelope \<Rightarrow> log \<Rightarrow> apply_result res"
  w_apply_v2 :: "change_envelope \<Rightarrow> u64 \<Rightarrow> log \<Rightarrow> call_error + apply_result"

type_synonym shared_key = "string \<times> digest"

record shared_batch =
  sb_holders :: int
  sb_committed :: digest

record lane_run =
  lr_log :: log
  lr_disk :: delivery_disk
  lr_live :: lane_live
  lr_lane_artifacts :: bool
  lr_pins_settled :: bool
  lr_pinned_for :: string
  lr_moved :: bool
  lr_batches :: "shared_key \<Rightarrow> shared_batch option"
  lr_artifacts :: bool
  lr_change :: change_envelope
  lr_peer_state :: net_state
  lr_peer_at :: gotime
  lr_admitted_local :: u64
  lr_admitted_peer :: u64
  lr_sent :: nat

type_synonym 'a act = "lane_run \<Rightarrow> lane_run \<times> (deliver_error + 'a)"

definition ask :: "(log \<Rightarrow> 'r) \<Rightarrow> ('r \<Rightarrow> event) \<Rightarrow> 'r act" where
  "ask reply ev s = (let r = reply (lr_log s) in (s\<lparr>lr_log := lr_log s @ [ev r]\<rparr>, Inr r))"

definition modify :: "(lane_run \<Rightarrow> lane_run) \<Rightarrow> unit act" where
  "modify f s = (f s, Inr ())"

definition gets :: "(lane_run \<Rightarrow> 'a) \<Rightarrow> 'a act" where
  "gets f s = (s, Inr (f s))"

definition fault :: "'a res \<Rightarrow> deliver_error + 'a" where
  "fault r = (case r of Inl e \<Rightarrow> Inl (Fault e) | Inr x \<Rightarrow> Inr x)"

definition tried :: "'a res act \<Rightarrow> 'a act" where
  "tried m = bindE m (\<lambda>r. liftE (fault r))"

definition raise :: "deliver_error \<Rightarrow> 'a act" where
  "raise e s = (s, Inl e)"

definition on_live :: "(lane_live \<Rightarrow> lane_live) \<Rightarrow> unit act" where
  "on_live f = modify (\<lambda>s. s\<lparr>lr_live := f (lr_live s)\<rparr>)"

definition on_progress :: "(progress \<Rightarrow> progress) \<Rightarrow> unit act" where
  "on_progress f = on_live (\<lambda>v. v\<lparr>ll_progress := f (ll_progress v)\<rparr>)"

definition on_disk :: "world \<Rightarrow> 'a dstep \<Rightarrow> 'a act" where
  "on_disk w m s = (case m ((lr_disk s)\<lparr>dd_now := w_now w (lr_log s)\<rparr>) of
     (d, r) \<Rightarrow> (s\<lparr>lr_disk := d, lr_log := lr_log s @ [EvDisk]\<rparr>, fault r))"

subsection \<open>Preparing the pending change\<close>

definition deliveryPinOwnerPrefix :: string where "deliveryPinOwnerPrefix = ''synckit.delivery/''"

definition detect :: "world \<Rightarrow> bool act" where
  "detect w = bindE (tried (ask (w_local_caps w) (\<lambda>_. EvLocalCaps))) (\<lambda>methods.
     let artifacts = (MethodExportV2 \<in> set methods) in
     bindE (modify (\<lambda>s. s\<lparr>lr_lane_artifacts := artifacts\<rparr>)) (\<lambda>_. liftE (Inr artifacts)))"

text \<open>The client's \<^verbatim>\<open>Export\<close> and \<^verbatim>\<open>ExportV2\<close> check the request and the reply.\<close>

definition client_export :: "world \<Rightarrow> bool \<Rightarrow> export_request \<Rightarrow> change_envelope act" where
  "client_export w v2 rq =
     bindE (liftE (fault (validate_export_request rq))) (\<lambda>_.
     bindE (tried (ask (w_export w v2 rq) (\<lambda>_. EvExport v2 (er_since rq)))) (\<lambda>e.
     bindE (liftE (fault (validate_change False e))) (\<lambda>_.
     bindE (liftE (fault (if v2 then Inr () else refuse_artifacts e))) (\<lambda>_. liftE (Inr e)))))"

definition export :: "world \<Rightarrow> bool \<Rightarrow> revision \<Rightarrow> change_envelope act" where
  "export w artifacts since =
     bindE (client_export w artifacts \<lparr>er_service = w_service w, er_schema = w_schema w, er_since = since\<rparr>) (\<lambda>e.
       if since = new_revision 0 \<and> ce_kind e \<noteq> ChangeSnapshot then raise (Fault (ErrMsg ''full export returned a delta''))
       else liftE (Inr e))"

definition pins_set :: "world \<Rightarrow> ref list \<Rightarrow> unit act" where
  "pins_set w roots = tried (ask (w_pins_set w (deliveryPinOwnerPrefix @ w_peer w) roots) (EvPins roots))"

definition settle_pins :: "string \<Rightarrow> unit act" where
  "settle_pins change_id = modify (\<lambda>s. s\<lparr>lr_pins_settled := True, lr_pinned_for := change_id\<rparr>)"

definition unsettle_pins :: "unit act" where
  "unsettle_pins = modify (\<lambda>s. s\<lparr>lr_pins_settled := False\<rparr>)"

definition reconcile_pins :: "world \<Rightarrow> bool \<Rightarrow> change_envelope option \<Rightarrow> unit act" where
  "reconcile_pins w artifacts pending =
     (let change_id = (case pending of None \<Rightarrow> [] | Some e \<Rightarrow> ce_change_id e);
          roots = (case pending of None \<Rightarrow> [] | Some e \<Rightarrow> ce_artifacts e) in
      bindE (gets (\<lambda>s. lr_pins_settled s \<and> lr_pinned_for s = change_id)) (\<lambda>settled.
        if \<not> artifacts \<or> settled then liftE (Inr ())
        else bindE (pins_set w roots) (\<lambda>_. settle_pins change_id)))"

definition replace :: "world \<Rightarrow> bool \<Rightarrow> string \<Rightarrow> ref list \<Rightarrow> change_envelope \<Rightarrow> change_envelope act" where
  "replace w artifacts expected old fresh =
     bindE (liftE (fault (bind_delivery fresh (w_self w)))) (\<lambda>bound.
     bindE (if artifacts then bindE unsettle_pins (\<lambda>_. pins_set w (union_roots old (ce_artifacts bound))) else liftE (Inr ())) (\<lambda>_.
     bindE (on_disk w (stage (w_peer w) expected bound)) (\<lambda>_.
     bindE (if artifacts then bindE (pins_set w (ce_artifacts bound)) (\<lambda>_. settle_pins (ce_change_id bound)) else liftE (Inr ())) (\<lambda>_.
       liftE (Inr bound)))))"

definition prepare :: "world \<Rightarrow> (bool \<times> change_envelope option) act" where
  "prepare w =
     bindE (detect w) (\<lambda>artifacts.
     bindE (on_disk w (load (w_service w) (w_peer w))) (\<lambda>(record, pending).
     bindE (export w artifacts (dr_acked record)) (\<lambda>fresh.
     bindE (liftE (fault (must_revision (ce_source fresh)))) (\<lambda>source.
     bindE (liftE (fault (must_revision (dr_acked record)))) (\<lambda>acked.
     bindE (liftE (fault (case pending of None \<Rightarrow> Inr acked
         | Some p \<Rightarrow> andthen (must_revision (ce_source p)) (\<lambda>n. Inr (max acked n))))) (\<lambda>floor.
       if source < floor then raise (Fault ErrSourceRegressed)
       else case pending of
         None \<Rightarrow>
           if source = acked then bindE (reconcile_pins w artifacts None) (\<lambda>_. liftE (Inr (artifacts, None)))
           else bindE (replace w artifacts [] [] fresh) (\<lambda>bound. liftE (Inr (artifacts, Some bound)))
       | Some p \<Rightarrow>
           if source = floor then bindE (reconcile_pins w artifacts (Some p)) (\<lambda>_. liftE (Inr (artifacts, Some p)))
           else bindE (if ce_kind fresh \<noteq> ChangeSnapshot then export w artifacts (new_revision 0) else liftE (Inr fresh)) (\<lambda>full.
             bindE (replace w artifacts (ce_change_id p) (ce_artifacts p) full) (\<lambda>bound.
               liftE (Inr (artifacts, Some bound))))))))))"

subsection \<open>Admission\<close>

definition zero_state :: net_state where
  "zero_state = \<lparr>ns_status = [], ns_expensive = False, ns_constrained = False, ns_cellular = False,
     ns_manual_metered = False, ns_observed_at = 0, ns_restricted_epoch = 0\<rparr>"

definition pause_for :: "verdict \<Rightarrow> goerr option \<Rightarrow> deliver_error" where
  "pause_for v cause = (case reason_for_verdict v of Inl e \<Rightarrow> Fault e | Inr r \<Rightarrow> PauseErr r cause)"

definition local_pause :: "net_state \<Rightarrow> goerr option \<Rightarrow> deliver_error" where
  "local_pause here cause = pause_for (evaluate here zero_state) cause"

definition observe_local :: "world \<Rightarrow> net_state act" where
  "observe_local w = bindE (ask (w_monitor w) EvLocal) (\<lambda>here.
     bindE (on_live (\<lambda>v. v\<lparr>ll_local_network := Some here\<rparr>)) (\<lambda>_. liftE (Inr here)))"

definition observe_peer :: "world \<Rightarrow> net_state \<Rightarrow> unit act" where
  "observe_peer w st = bindE (ask (w_now w) (\<lambda>_. EvClock)) (\<lambda>now.
     bindE (modify (\<lambda>s. s\<lparr>lr_peer_state := st, lr_peer_at := now\<rparr>)) (\<lambda>_.
       on_live (\<lambda>v. v\<lparr>ll_peer_network := Some st\<rparr>)))"

definition unreachable :: "net_state \<Rightarrow> goerr \<Rightarrow> deliver_error" where
  "unreachable here err =
     (if \<not> unrestricted here then local_pause here (Some err) else PauseErr (Some PausePeerUnreachable) (Some err))"

definition probe :: "world \<Rightarrow> unit act" where
  "probe w = bindE (ask (w_net_status w) EvNetStatus) (\<lambda>r. case r of
     Inl err \<Rightarrow> bindE (observe_local w) (\<lambda>here. raise (unreachable here err))
   | Inr st \<Rightarrow> observe_peer w st)"

definition evaluate_run :: "net_state \<Rightarrow> unit act" where
  "evaluate_run here s =
     (let v = evaluate here (lr_peer_state s) in
      if \<not> vd_allowed v then (s, Inl (pause_for v None)) else (s, Inr ()))"

definition interrupted :: "u64 \<Rightarrow> net_state \<Rightarrow> deliver_error option" where
  "interrupted admitted here =
     (if \<not> unrestricted here then Some (local_pause here None)
      else if ns_restricted_epoch here \<noteq> admitted then Some (PauseErr (Some PauseLocalRestrictedMidTransfer) None)
      else None)"

definition artifact_capable :: "string list \<Rightarrow> bool" where
  "artifact_capable methods \<longleftrightarrow> MethodApplyV2 \<in> set methods \<and> \<not> list_ex (\<lambda>m. m \<notin> set methods) artifact_methods"

definition gate :: "world \<Rightarrow> unit act" where
  "gate w = bindE (ask (w_peer_caps w) (\<lambda>_. EvPeerCaps)) (\<lambda>r. case r of
     Inl err \<Rightarrow> bindE (observe_local w) (\<lambda>here. raise (unreachable here err))
   | Inr methods \<Rightarrow>
       if \<not> artifact_capable methods then
         bindE (observe_local w) (\<lambda>_. raise (PauseErr (Some PausePeerIncompatible) None))
       else bindE (probe w) (\<lambda>_. bindE (observe_local w) (\<lambda>here.
         bindE (modify (\<lambda>s. s\<lparr>lr_admitted_local := ns_restricted_epoch here,
             lr_admitted_peer := ns_restricted_epoch (lr_peer_state s)\<rparr>)) (\<lambda>_. evaluate_run here))))"

definition admit :: "world \<Rightarrow> net_state act" where
  "admit w = bindE (ask (w_now w) (\<lambda>_. EvClock)) (\<lambda>now. bindE (gets lr_peer_at) (\<lambda>at.
     bindE (if now - at \<ge> peerStateMaxAge then probe w else liftE (Inr ())) (\<lambda>_.
     bindE (observe_local w) (\<lambda>here. bindE (gets lr_admitted_local) (\<lambda>admitted.
       case interrupted admitted here of
         Some paused \<Rightarrow> raise paused
       | None \<Rightarrow> bindE (evaluate_run here) (\<lambda>_.
           bindE (gets (\<lambda>s. ns_restricted_epoch (lr_peer_state s) \<noteq> lr_admitted_peer s)) (\<lambda>moved.
             if moved then raise (PauseErr (Some PausePeerRestrictedMidTransfer) None) else liftE (Inr here))))))))"

definition refused_call :: "call_error \<Rightarrow> deliver_error" where
  "refused_call e = (case e of
     CallErr err \<Rightarrow> Fault err
   | Refusal p \<Rightarrow> (case reason_for_refusal p of
       Inl err \<Rightarrow> Fault err | Inr r \<Rightarrow> PauseErr (Some r) (Some (ErrPaused (pe_reason p)))))"

definition settle_reply :: "call_error + 'a \<Rightarrow> 'a act" where
  "settle_reply r = (case r of Inl e \<Rightarrow> raise (refused_call e) | Inr x \<Rightarrow> liftE (Inr x))"

text \<open>\<^verbatim>\<open>refused\<close>: the reply of \<^verbatim>\<open>batch.begin\<close> and \<^verbatim>\<open>batch.put\<close> carries the peer's state.\<close>

definition refused :: "world \<Rightarrow> net_state \<times> (call_error + 'a) \<Rightarrow> 'a act" where
  "refused w pr = (case pr of (peer, r) \<Rightarrow> (case r of
     Inl (Refusal p) \<Rightarrow> bindE (observe_peer w peer) (\<lambda>_. raise (refused_call (Refusal p)))
   | Inl (CallErr err) \<Rightarrow> raise (Fault err)
   | Inr x \<Rightarrow> bindE (observe_peer w peer) (\<lambda>_. liftE (Inr x))))"

definition superseded :: "world \<Rightarrow> bool act" where
  "superseded w = bindE (gets lr_sent) (\<lambda>n.
     if n > 0 then ask (w_dirty w) (\<lambda>_. EvDirty) else liftE (Inr False))"

subsection \<open>Shared batches\<close>

text \<open>Lanes of one service that send the same objects share the outbox batch; the last to release it
  drops it when one of them committed it.\<close>

definition shared_key_for :: "string \<Rightarrow> object_entry list \<Rightarrow> shared_key" where
  "shared_key_for service objects =
     (service, digest_sum (concat (map (\<lambda>e. o_kind e @ '':'' @ o_digest e @ '':'' @ dec_int (o_size e) @ [CHR 0x0A]) objects)))"

definition hold_batch :: "shared_key \<Rightarrow> (shared_key \<Rightarrow> shared_batch option) \<Rightarrow> shared_key \<Rightarrow> shared_batch option" where
  "hold_batch k bs = (case bs k of
     None \<Rightarrow> bs(k \<mapsto> \<lparr>sb_holders = 1, sb_committed = []\<rparr>)
   | Some b \<Rightarrow> bs(k \<mapsto> b\<lparr>sb_holders := sb_holders b + 1\<rparr>))"

definition release_batch :: "shared_key \<Rightarrow> digest \<Rightarrow> (shared_key \<Rightarrow> shared_batch option) \<Rightarrow>
    (shared_key \<Rightarrow> shared_batch option) \<times> digest option" where
  "release_batch k committed bs = (case bs k of
     None \<Rightarrow> (bs, None)
   | Some b0 \<Rightarrow>
       let b = \<lparr>sb_holders = sb_holders b0 - 1, sb_committed = (if committed \<noteq> [] then committed else sb_committed b0)\<rparr> in
       if sb_holders b > 0 then (bs(k \<mapsto> b), None)
       else (bs(k := None), if sb_committed b = [] then None else Some (sb_committed b)))"

subsection \<open>Sending a batch\<close>

fun put_parts :: "world \<Rightarrow> digest \<Rightarrow> nat list \<Rightarrow> nat list \<Rightarrow> unit act" where
  "put_parts w i have_parts [] = liftE (Inr ())"
| "put_parts w i have_parts (n # ns) =
     (if n \<in> set have_parts then put_parts w i have_parts ns
      else bindE (tried (ask (w_read w i n) (\<lambda>_. EvRead i n))) (\<lambda>data.
        bindE (admit w) (\<lambda>here. bindE (gets lr_admitted_peer) (\<lambda>epoch.
        bindE (ask (w_put w i n data here epoch) (EvPut i n here epoch)) (\<lambda>reply.
        bindE (on_progress (\<lambda>p. p\<lparr>pg_wire_bytes_sent := pg_wire_bytes_sent p + int (length data)\<rparr>)) (\<lambda>_.
        bindE (refused w reply) (\<lambda>_. put_parts w i have_parts ns)))))))"

definition commit_objects :: "world \<Rightarrow> object_entry list \<Rightarrow> digest act" where
  "commit_objects w objects =
     bindE (tried (ask (w_build w objects) (\<lambda>_. EvBuild objects))) (\<lambda>b.
     bindE (admit w) (\<lambda>sender. bindE (gets lr_admitted_peer) (\<lambda>epoch.
     bindE (ask (w_begin w b sender epoch) (EvBegin (b_id b) sender epoch)) (\<lambda>reply.
     bindE (refused w reply) (\<lambda>have_parts.
     bindE (put_parts w (b_id b) have_parts [0..<length (b_parts b)]) (\<lambda>_.
     bindE (admit w) (\<lambda>_. bindE (gets lr_admitted_peer) (\<lambda>epoch.
     bindE (ask (w_commit w (b_id b) epoch) (\<lambda>_. EvCommit (b_id b) epoch)) (\<lambda>r.
     bindE (settle_reply r) (\<lambda>_.
     bindE (modify (\<lambda>s. s\<lparr>lr_sent := lr_sent s + 1, lr_moved := True\<rparr>)) (\<lambda>_.
     bindE (on_progress (\<lambda>p. p\<lparr>pg_objects_sent := pg_objects_sent p + int (length objects),
         pg_bytes_sent := pg_bytes_sent p + sum_list (map o_size objects)\<rparr>)) (\<lambda>_.
       liftE (Inr (b_id b))))))))))))))"

definition drop_shared :: "world \<Rightarrow> digest option \<Rightarrow> unit act" where
  "drop_shared w dropped = (case dropped of
     None \<Rightarrow> liftE (Inr ()) | Some i \<Rightarrow> tried (ask (w_drop w i) (\<lambda>_. EvDrop i)))"

definition release_shared :: "shared_key \<Rightarrow> digest \<Rightarrow> digest option act" where
  "release_shared k committed s = (case release_batch k committed (lr_batches s) of
     (bs, dropped) \<Rightarrow> (s\<lparr>lr_batches := bs\<rparr>, Inr dropped))"

text \<open>A failed commit comes back as its own error, joined with that of the cleanup, which no caller
  asks for.\<close>

definition send :: "world \<Rightarrow> object_entry list \<Rightarrow> unit act" where
  "send w objects s0 =
     (let k = shared_key_for (w_service w) objects in
      case commit_objects w objects (s0\<lparr>lr_batches := hold_batch k (lr_batches s0)\<rparr>) of
        (s1, Inl err) \<Rightarrow> (fst (bindE (release_shared k []) (drop_shared w) s1), Inl err)
      | (s1, Inr i) \<Rightarrow> (case bindE (release_shared k i) (drop_shared w) s1 of
          (s2, Inr _) \<Rightarrow> (s2, Inr ())
        | (s2, Inl cleanup) \<Rightarrow> bindE (superseded w) (\<lambda>late.
            raise (if late then Fault ErrSuperseded else cleanup)) s2))"

subsection \<open>Enumerating the closure\<close>

text \<open>The batch a page collects: its objects, their bytes, and the roots that wait for it.\<close>

record page_batch =
  pb_objects :: "object_entry list"
  pb_bytes :: int
  pb_waiting :: int

definition empty_batch :: page_batch where
  "empty_batch = \<lparr>pb_objects = [], pb_bytes = 0, pb_waiting = 0\<rparr>"

definition stop_superseded :: "world \<Rightarrow> unit act" where
  "stop_superseded w = bindE (superseded w) (\<lambda>late. if late then raise (Fault ErrSuperseded) else liftE (Inr ()))"

definition apply_v2 :: "world \<Rightarrow> apply_result act" where
  "apply_v2 w = bindE (admit w) (\<lambda>_. bindE (gets lr_change) (\<lambda>e. bindE (gets lr_admitted_peer) (\<lambda>epoch.
     bindE (ask (w_apply_v2 w e epoch) (\<lambda>_. EvApplyV2 e epoch)) settle_reply)))"

definition flush :: "world \<Rightarrow> page_batch \<Rightarrow> page_batch act" where
  "flush w b =
     (if pb_objects b = [] then liftE (Inr b)
      else bindE (stop_superseded w) (\<lambda>_. bindE (send w (pb_objects b)) (\<lambda>_. bindE (stop_superseded w) (\<lambda>_.
        bindE (on_progress (\<lambda>p. p\<lparr>pg_roots_complete := pg_roots_complete p + pb_waiting b\<rparr>)) (\<lambda>_.
        bindE (gets (\<lambda>s. pb_waiting b > 0 \<and>
            pg_roots_complete (ll_progress (lr_live s)) < pg_roots_total (ll_progress (lr_live s)))) (\<lambda>progressive.
        bindE (if progressive then bindE (apply_v2 w) (\<lambda>_. liftE (Inr ())) else liftE (Inr ())) (\<lambda>_.
          liftE (Inr empty_batch))))))))"

fun send_page :: "world \<Rightarrow> digest list \<Rightarrow> digest list \<Rightarrow> object_entry list \<Rightarrow> page_batch \<Rightarrow> unit act" where
  "send_page w roots missing [] b = bindE (flush w b) (\<lambda>_. liftE (Inr ()))"
| "send_page w roots missing (x # xs) b =
     bindE (if o_digest x \<in> set missing \<and>
              (int (length (pb_objects b)) = MaxBatchObjects \<or> pb_bytes b + o_size x > MaxBatchRaw)
            then flush w b else liftE (Inr b)) (\<lambda>b.
       let b = (if o_digest x \<in> set missing
                then b\<lparr>pb_objects := pb_objects b @ [x], pb_bytes := pb_bytes b + o_size x\<rparr> else b) in
       if o_digest x \<notin> set roots then send_page w roots missing xs b
       else if pb_objects b \<noteq> [] then send_page w roots missing xs (b\<lparr>pb_waiting := pb_waiting b + 1\<rparr>)
       else bindE (on_progress (\<lambda>p. p\<lparr>pg_roots_complete := pg_roots_complete p + 1\<rparr>)) (\<lambda>_.
         send_page w roots missing xs b))"

definition missing_of :: "world \<Rightarrow> object_entry list \<Rightarrow> digest list act" where
  "missing_of w objects =
     (if objects = [] then liftE (Inr [])
      else bindE (admit w) (\<lambda>_. bindE (gets lr_admitted_peer) (\<lambda>epoch.
        bindE (ask (w_have w (map o_digest objects) epoch) (\<lambda>_. EvHave (map o_digest objects) epoch)) settle_reply)))"

definition send_objects :: "world \<Rightarrow> object_entry list \<Rightarrow> bool \<Rightarrow> digest list \<Rightarrow> unit act" where
  "send_objects w objects page_done roots =
     bindE (missing_of w objects) (\<lambda>missing.
     bindE (on_progress (\<lambda>p. p\<lparr>pg_objects_missing := pg_objects_missing p + int (length (remdups missing)),
         pg_bytes_missing := pg_bytes_missing p + sum_list (map o_size (filter (\<lambda>x. o_digest x \<in> set missing) objects)),
         pg_enumeration_done := page_done\<rparr>)) (\<lambda>_.
       send_page w roots missing objects empty_batch))"

fun enumerate_pages :: "nat \<Rightarrow> world \<Rightarrow> ref list \<Rightarrow> int \<Rightarrow> unit act" where
  "enumerate_pages 0 w roots after = raise NoReturn"
| "enumerate_pages (Suc n) w roots after =
     bindE (tried (ask (w_closure w \<lparr>cp_roots = roots, cp_after = after, cp_limit = MaxClosurePage\<rparr>) (\<lambda>_. EvClosure after))) (\<lambda>pg.
     bindE (send_objects w (pg_objects pg) (pg_done pg) (map r_digest roots)) (\<lambda>_.
       if pg_done pg then liftE (Inr ()) else enumerate_pages n w roots (pg_next pg)))"

subsection \<open>Transfer and acknowledgement\<close>

text \<open>\<^verbatim>\<open>watchLocal\<close> over the states it reads: the first that interrupts cancels the calls.\<close>

fun watch_local :: "u64 \<Rightarrow> net_state list \<Rightarrow> deliver_error option" where
  "watch_local admitted [] = None"
| "watch_local admitted (st # sts) = (case interrupted admitted st of Some p \<Rightarrow> Some p | None \<Rightarrow> watch_local admitted sts)"

definition start_progress :: "change_envelope \<Rightarrow> lane_live \<Rightarrow> lane_live" where
  "start_progress e v = v\<lparr>ll_state := StateTransferring, ll_progress_for := ce_change_id e,
     ll_progress := zero_progress\<lparr>pg_roots_total := int (length (ce_artifacts e)), pg_in_flight_limit := PartSize,
       pg_wire_bytes_sent := (if ll_progress_for v = ce_change_id e then pg_wire_bytes_sent (ll_progress v) else 0)\<rparr>\<rparr>"

definition transfer :: "nat \<Rightarrow> world \<Rightarrow> unit act" where
  "transfer n w = bindE (gets lr_change) (\<lambda>e. bindE (on_live (start_progress e)) (\<lambda>_.
     if ce_artifacts e = [] then liftE (Inr ())
     else (\<lambda>s. case enumerate_pages n w (ce_artifacts e) 0 s of
       (s1, Inl err) \<Rightarrow>
         (s1, Inl (if err = NoReturn then err
            else case watch_local (lr_admitted_local s1) (w_watched w (lr_log s1)) of Some p \<Rightarrow> p | None \<Rightarrow> err))
     | (s1, Inr _) \<Rightarrow> (s1, Inr ()))))"

definition apply_once :: "world \<Rightarrow> apply_result act" where
  "apply_once w = bindE (gets lr_artifacts) (\<lambda>artifacts.
     if \<not> artifacts then bindE (gets lr_change) (\<lambda>e. tried (ask (w_apply w e) (\<lambda>_. EvApply e)))
     else apply_v2 w)"

definition set_applying :: "unit act" where
  "set_applying = on_live (\<lambda>v. v\<lparr>ll_state := StateApplying\<rparr>)"

definition resend_full :: "nat \<Rightarrow> world \<Rightarrow> apply_result act" where
  "resend_full n w = bindE (gets lr_artifacts) (\<lambda>artifacts. bindE (export w artifacts (new_revision 0)) (\<lambda>full.
     bindE (gets lr_change) (\<lambda>e. bindE (replace w artifacts (ce_change_id e) (ce_artifacts e) full) (\<lambda>bound.
     bindE (modify (\<lambda>s. s\<lparr>lr_change := bound\<rparr>)) (\<lambda>_.
     bindE (if artifacts then bindE (transfer n w) (\<lambda>_. set_applying) else liftE (Inr ())) (\<lambda>_.
     bindE (apply_once w) (\<lambda>ack.
       if ar_need_snapshot ack then raise (Fault (ErrMsg ''peer refused the full snapshot'')) else liftE (Inr ack))))))))"

definition settle_ack :: "change_envelope \<Rightarrow> apply_result \<Rightarrow> deliver_error + apply_result" where
  "settle_ack e ack =
     (if ar_stale ack then
        (if ar_acked ack \<noteq> ce_source e \<or> ar_held_digest ack \<noteq> ce_payload_digest e then Inl (Fault ErrSourceRegressed)
         else Inr (zero_result\<lparr>ar_acked := ar_acked ack\<rparr>))
      else if ar_partial ack then Inl (Fault ErrIncomplete)
      else Inr ack)"

definition apply_change :: "nat \<Rightarrow> world \<Rightarrow> unit act" where
  "apply_change n w = bindE set_applying (\<lambda>_. bindE (apply_once w) (\<lambda>ack0.
     bindE (if ar_need_snapshot ack0 then resend_full n w else liftE (Inr ack0)) (\<lambda>ack1.
     bindE (gets lr_change) (\<lambda>e. bindE (liftE (settle_ack e ack1)) (\<lambda>ack.
     bindE (on_disk w (acknowledge (w_peer w) e ack)) (\<lambda>_. bindE (gets lr_artifacts) (\<lambda>artifacts.
       if artifacts then bindE unsettle_pins (\<lambda>_. bindE (pins_set w []) (\<lambda>_. settle_pins []))
       else liftE (Inr ()))))))))"

definition start_run :: "bool \<Rightarrow> change_envelope \<Rightarrow> lane_run \<Rightarrow> lane_run" where
  "start_run artifacts e s = s\<lparr>lr_artifacts := artifacts, lr_change := e, lr_peer_state := zero_state, lr_peer_at := 0,
     lr_admitted_local := 0, lr_admitted_peer := 0, lr_sent := 0\<rparr>"

definition deliver_pending :: "nat \<Rightarrow> world \<Rightarrow> unit act" where
  "deliver_pending n w = bindE (prepare w) (\<lambda>(artifacts, pending). case pending of
     None \<Rightarrow> liftE (Inr ())
   | Some e \<Rightarrow> bindE (modify (start_run artifacts e)) (\<lambda>_.
       bindE (if artifacts then bindE (gate w) (\<lambda>_. transfer n w) else liftE (Inr ())) (\<lambda>_. apply_change n w)))"

text \<open>\<^verbatim>\<open>deliverOnce\<close> starts over while a newer kick supersedes the transfer.\<close>

fun deliver_once :: "nat \<Rightarrow> nat \<Rightarrow> world \<Rightarrow> unit act" where
  "deliver_once 0 n w = raise NoReturn"
| "deliver_once (Suc k) n w = bindE (ask (\<lambda>_. ()) (\<lambda>_. EvClean)) (\<lambda>_ s.
     case deliver_pending n w s of
       (s1, Inl (Fault ErrSuperseded)) \<Rightarrow> deliver_once k n w s1
     | (s1, r) \<Rightarrow> (s1, r))"

end
