(* ===== verification/Deliver_Guard.thy ===== *)
theory Deliver_Guard
  imports Deliver_Run
begin

text \<open>
  What a delivery attempt never does: it sends no call that moves data unless the policy admits it,
  whatever the network, the peer, the consumer and the disk answer. The log of an attempt is read
  by a monitor that knows, after each event, what the last reads of both ends said and under
  which epochs the transfer was admitted.
\<close>

subsection \<open>The monitor of a log\<close>

record guard =
  gd_admitted :: "(u64 \<times> u64) option"
  gd_local :: "net_state option"
  gd_peer :: "net_state option"

definition no_guard :: guard where
  "no_guard = \<lparr>gd_admitted = None, gd_local = None, gd_peer = None\<rparr>"

definition told :: "net_state \<times> (call_error + 'a) \<Rightarrow> guard \<Rightarrow> guard" where
  "told pr g = (case pr of
     (st, Inl (CallErr _)) \<Rightarrow> g\<lparr>gd_local := None\<rparr>
   | (st, _) \<Rightarrow> g\<lparr>gd_local := None, gd_peer := Some st\<rparr>)"

text \<open>The first read of this host after a gate's capability call and probe fixes the epochs; a read is
  forgotten at the next call to the consumer or the peer.\<close>

definition seen :: "event \<Rightarrow> guard \<Rightarrow> guard" where
  "seen e g = (case e of
     EvPeerCaps \<Rightarrow> no_guard
   | EvLocal l \<Rightarrow> g\<lparr>gd_local := Some l, gd_admitted := (case gd_admitted g of
         Some a \<Rightarrow> Some a
       | None \<Rightarrow> map_option (\<lambda>p. (ns_restricted_epoch l, ns_restricted_epoch p)) (gd_peer g))\<rparr>
   | EvNetStatus (Inr st) \<Rightarrow> g\<lparr>gd_local := None, gd_peer := Some st\<rparr>
   | EvBegin _ _ _ pr \<Rightarrow> told pr g
   | EvPut _ _ _ _ pr \<Rightarrow> told pr g
   | EvClock \<Rightarrow> g
   | EvDirty \<Rightarrow> g
   | _ \<Rightarrow> g\<lparr>gd_local := None\<rparr>)"

definition may_send :: "guard \<Rightarrow> u64 \<Rightarrow> bool" where
  "may_send g epoch \<longleftrightarrow> (case (gd_local g, gd_peer g) of
     (Some l, Some p) \<Rightarrow> unrestricted l \<and> unrestricted p \<and> ns_restricted_epoch p = epoch \<and>
       gd_admitted g = Some (ns_restricted_epoch l, epoch)
   | _ \<Rightarrow> False)"

definition allowed :: "guard \<Rightarrow> event \<Rightarrow> bool" where
  "allowed g e = (case e of
     EvHave _ a \<Rightarrow> may_send g a
   | EvBegin _ sender a _ \<Rightarrow> may_send g a \<and> gd_local g = Some sender
   | EvPut _ _ sender a _ \<Rightarrow> may_send g a \<and> gd_local g = Some sender
   | EvCommit _ a \<Rightarrow> may_send g a
   | EvApplyV2 _ a \<Rightarrow> may_send g a
   | _ \<Rightarrow> True)"

fun guarded :: "guard \<Rightarrow> log \<Rightarrow> bool" where
  "guarded g [] = True"
| "guarded g (e # es) = (allowed g e \<and> guarded (seen e g) es)"

definition guard_of :: "log \<Rightarrow> guard" where
  "guard_of es = fold seen es no_guard"

lemma guarded_snoc: "guarded g (es @ [e]) = (guarded g es \<and> allowed (fold seen es g) e)"
  by (induction es arbitrary: g) simp_all

lemma guard_of_snoc [simp]: "guard_of (es @ [e]) = seen e (guard_of es)"
  by (simp add: guard_of_def)

subsection \<open>What keeps the guard\<close>

text \<open>\<open>safe\<close>: the log so far obeys the guard; \<open>in_run b\<close>: and within a run with artifacts, the lane's
  fields are what the monitor knows.\<close>

definition safe :: "lane_run \<Rightarrow> bool" where
  "safe s \<longleftrightarrow> guarded no_guard (lr_log s)"

definition linked :: "lane_run \<Rightarrow> bool" where
  "linked s \<longleftrightarrow> gd_admitted (guard_of (lr_log s)) = Some (lr_admitted_local s, lr_admitted_peer s) \<and>
     gd_peer (guard_of (lr_log s)) = Some (lr_peer_state s)"

definition in_run :: "bool \<Rightarrow> lane_run \<Rightarrow> bool" where
  "in_run b s \<longleftrightarrow> safe s \<and> lr_artifacts s = b \<and> (b \<longrightarrow> linked s)"

definition keeps :: "(lane_run \<Rightarrow> bool) \<Rightarrow> 'a act \<Rightarrow> bool" where
  "keeps P m \<longleftrightarrow> (\<forall>s s' r. P s \<longrightarrow> m s = (s', r) \<longrightarrow> P s')"

lemma keepsD: "keeps P m \<Longrightarrow> P s \<Longrightarrow> m s = (s', r) \<Longrightarrow> P s'"
  unfolding keeps_def by blast

lemma keepsI: "(\<And>s s' r. P s \<Longrightarrow> m s = (s', r) \<Longrightarrow> P s') \<Longrightarrow> keeps P m"
  unfolding keeps_def by blast

named_theorems kept

lemma keeps_bind [kept]: "keeps P m \<Longrightarrow> (\<And>x. keeps P (k x)) \<Longrightarrow> keeps P (bindE m k)"
  by (rule keepsI, erule bindE_cases) (blast dest: keepsD)+

lemma keeps_lift [kept]: "keeps P (liftE r)"
  by (simp add: keeps_def)

lemma keeps_raise [kept]: "keeps P (raise e)"
  by (simp add: keeps_def raise_def)

lemma keeps_gets [kept]: "keeps P (gets f)"
  by (simp add: keeps_def gets_def)

lemma keeps_tried [kept]: "keeps P m \<Longrightarrow> keeps P (tried m)"
  unfolding tried_def by (intro kept)

lemma keeps_if [kept]: "(b \<Longrightarrow> keeps P m) \<Longrightarrow> (\<not> b \<Longrightarrow> keeps P m') \<Longrightarrow> keeps P (if b then m else m')"
  by simp

lemma keeps_modify: "(\<And>s. P s \<Longrightarrow> P (f s)) \<Longrightarrow> keeps P (modify f)"
  by (simp add: keeps_def modify_def)

lemma ask_eq: "ask reply ev s = (s\<lparr>lr_log := lr_log s @ [ev (reply (lr_log s))]\<rparr>, Inr (reply (lr_log s)))"
  by (simp add: ask_def Let_def)

text \<open>The predicates look at the log and the run's own fields only.\<close>

definition same_run :: "lane_run \<Rightarrow> lane_run \<Rightarrow> bool" where
  "same_run s t \<longleftrightarrow> lr_log t = lr_log s \<and> lr_artifacts t = lr_artifacts s \<and> lr_peer_state t = lr_peer_state s \<and>
     lr_admitted_local t = lr_admitted_local s \<and> lr_admitted_peer t = lr_admitted_peer s"

lemma in_run_same: "same_run s t \<Longrightarrow> in_run b t = in_run b s"
  by (simp add: in_run_def safe_def linked_def same_run_def)

lemma safe_same: "same_run s t \<Longrightarrow> safe t = safe s"
  by (simp add: safe_def same_run_def)

lemma keeps_modify_run [kept]: "(\<And>s. same_run s (f s)) \<Longrightarrow> keeps (in_run b) (modify f)"
  using in_run_same by (intro keeps_modify) blast

lemma keeps_modify_safe [kept]: "(\<And>s. lr_log (f s) = lr_log s) \<Longrightarrow> keeps safe (modify f)"
  by (rule keeps_modify) (simp add: safe_def)

lemma bind_gets: "bindE (gets f) k s = k (f s) s"
  by (simp add: bindE_def gets_def)

lemma on_live_run [kept]: "keeps (in_run b) (on_live f)" "keeps safe (on_live f)"
  unfolding on_live_def by (intro kept; simp add: same_run_def)+

lemma on_progress_run [kept]: "keeps (in_run b) (on_progress f)" "keeps safe (on_progress f)"
  unfolding on_progress_def by (intro kept)+

definition quiet :: "event \<Rightarrow> bool" where
  "quiet e \<longleftrightarrow> (\<forall>g. allowed g e \<and> gd_peer (seen e g) = gd_peer g \<and>
     (gd_admitted g \<noteq> None \<longrightarrow> gd_admitted (seen e g) = gd_admitted g))"

lemma quiet_events [simp]:
  "quiet EvClock" "quiet EvDirty" "quiet EvClean" "quiet EvDisk" "quiet (EvLocal l)" "quiet EvLocalCaps" "quiet (EvExport b r)"
  "quiet (EvPins rs pr)" "quiet (EvClosure n)" "quiet (EvBuild xs)" "quiet (EvRead i k)" "quiet (EvDrop i)"
  "quiet (EvNetStatus (Inl err))" "quiet (EvApply e)"
  by (simp_all add: quiet_def seen_def allowed_def split: option.split)

lemma allowed_safe: "safe s \<Longrightarrow> allowed (guard_of (lr_log s)) e \<Longrightarrow> safe (s\<lparr>lr_log := lr_log s @ [e]\<rparr>)"
  by (simp add: safe_def guarded_snoc guard_of_def)

lemma quiet_run: "in_run b s \<Longrightarrow> quiet e \<Longrightarrow> in_run b (s\<lparr>lr_log := lr_log s @ [e]\<rparr>)"
  using allowed_safe [of s e] by (auto simp: in_run_def linked_def quiet_def)

lemma ask_run [kept]: "(\<And>r. quiet (ev r)) \<Longrightarrow> keeps (in_run b) (ask reply ev)"
  using quiet_run by (auto simp: keeps_def ask_eq)

lemma ask_safe [kept]: "(\<And>g r. allowed g (ev r)) \<Longrightarrow> keeps safe (ask reply ev)"
  using allowed_safe by (auto simp: keeps_def ask_eq)

lemma on_disk_run [kept]: "keeps (in_run b) (on_disk w m)" "keeps safe (on_disk w m)"
proof -
  have "\<exists>d. s' = s\<lparr>lr_disk := d, lr_log := lr_log s @ [EvDisk]\<rparr>" if "on_disk w m s = (s', r)" for s s' r
    using that by (auto simp: on_disk_def split: prod.splits)
  moreover have "in_run b (s\<lparr>lr_disk := d, lr_log := lr_log s @ [EvDisk]\<rparr>)" if "in_run b s" for s d
    using quiet_run [of b "s\<lparr>lr_disk := d\<rparr>" EvDisk] in_run_same [of s "s\<lparr>lr_disk := d\<rparr>"] that by (simp add: same_run_def)
  moreover have "safe (s\<lparr>lr_disk := d, lr_log := lr_log s @ [EvDisk]\<rparr>)" if "safe s" for s d
    using allowed_safe [of "s\<lparr>lr_disk := d\<rparr>" EvDisk] safe_same [of s "s\<lparr>lr_disk := d\<rparr>"] that
    by (simp add: same_run_def allowed_def)
  ultimately show "keeps (in_run b) (on_disk w m)" "keeps safe (on_disk w m)" by (blast intro: keepsI)+
qed

subsection \<open>Admission\<close>

definition ready :: "net_state \<Rightarrow> lane_run \<Rightarrow> bool" where
  "ready l s \<longleftrightarrow> in_run True s \<and> gd_local (guard_of (lr_log s)) = Some l \<and> unrestricted l \<and>
     unrestricted (lr_peer_state s) \<and> ns_restricted_epoch l = lr_admitted_local s \<and>
     ns_restricted_epoch (lr_peer_state s) = lr_admitted_peer s"

lemma ready_may_send: "ready l s \<Longrightarrow> may_send (guard_of (lr_log s)) (lr_admitted_peer s)"
  by (simp add: ready_def may_send_def in_run_def linked_def)

text \<open>A new state of the peer: the event that carried it, the clock, and the fields.\<close>

definition peer_update :: "lane_run \<Rightarrow> event \<Rightarrow> net_state \<Rightarrow> gotime \<Rightarrow> lane_run" where
  "peer_update s e st now = s\<lparr>lr_log := lr_log s @ [e, EvClock], lr_peer_state := st, lr_peer_at := now,
     lr_live := (lr_live s)\<lparr>ll_peer_network := Some st\<rparr>\<rparr>"

lemma observe_peer_eq:
  "observe_peer w st (s\<lparr>lr_log := lr_log s @ [e]\<rparr>) = (peer_update s e st (w_now w (lr_log s @ [e])), Inr ())"
  by (simp add: observe_peer_def ask_eq bindE_def modify_def on_live_def peer_update_def)

lemma guard_of_two: "guard_of (es @ [a, b]) = seen b (seen a (guard_of es))"
  by (simp add: guard_of_def)

lemma safe_two: "safe s \<Longrightarrow> allowed (guard_of (lr_log s)) a \<Longrightarrow> allowed (seen a (guard_of (lr_log s))) b \<Longrightarrow>
   lr_log t = lr_log s @ [a, b] \<Longrightarrow> safe t"
  using guarded_snoc [of no_guard "lr_log s @ [a]" b] guarded_snoc [of no_guard "lr_log s" a]
  by (simp add: safe_def guard_of_def)

lemma peer_update_run:
  assumes "in_run b s" and "allowed (guard_of (lr_log s)) e"
    and "gd_peer (seen e (guard_of (lr_log s))) = Some st"
    and "gd_admitted (seen e (guard_of (lr_log s))) = gd_admitted (guard_of (lr_log s))"
  shows "in_run b (peer_update s e st now)"
proof -
  have "safe (peer_update s e st now)"
    by (rule safe_two [of s e EvClock]) (use assms(1,2) in \<open>simp_all add: in_run_def peer_update_def allowed_def\<close>)
  moreover have "seen EvClock g = g" for g by (simp add: seen_def)
  ultimately show ?thesis using assms
    by (auto simp: in_run_def linked_def peer_update_def guard_of_two)
qed

lemma observe_local_run [kept]: "keeps (in_run b) (observe_local w)" "keeps safe (observe_local w)"
  unfolding observe_local_def by (intro kept; simp add: allowed_def)+

lemma keeps_probe [kept]: "keeps (in_run b) (probe w)"
proof (rule keepsI)
  fix s s' r assume i: "in_run b s" and p: "probe w s = (s', r)"
  show "in_run b s'"
  proof (cases "w_net_status w (lr_log s)")
    case (Inl err)
    have "in_run b (s\<lparr>lr_log := lr_log s @ [EvNetStatus (Inl err)]\<rparr>)" using i by (rule quiet_run) simp
    moreover have "keeps (in_run b) (bindE (observe_local w) (\<lambda>here. raise (unreachable here err) :: unit act))" by (intro kept)
    ultimately show ?thesis using p Inl by (auto simp: probe_def ask_eq bindE_def dest: keepsD split: prod.splits sum.splits)
  next
    case (Inr st)
    with p have "s' = peer_update s (EvNetStatus (Inr st)) st (w_now w (lr_log s @ [EvNetStatus (Inr st)]))"
      using observe_peer_eq [of w st s "EvNetStatus (Inr st)"] by (simp add: probe_def ask_eq bindE_def)
    with i show ?thesis by (simp add: peer_update_run allowed_def seen_def)
  qed
qed

lemma probe_safe: "keeps safe (probe w)"
proof (rule keepsI)
  fix s s' r assume i: "safe s" and p: "probe w s = (s', r)"
  have a: "safe (s\<lparr>lr_log := lr_log s @ [EvNetStatus x]\<rparr>)" for x using i by (rule allowed_safe) (simp add: allowed_def)
  have "keeps safe (case x of Inl err \<Rightarrow> bindE (observe_local w) (\<lambda>here. raise (unreachable here err)) | Inr st \<Rightarrow> observe_peer w st)" for x
    unfolding observe_peer_def by (cases x) (auto intro!: kept simp: allowed_def)
  from keepsD [OF this a] p show "safe s'" by (simp add: probe_def ask_eq bindE_def)
qed

lemma evaluate_run_cases: "evaluate_run here s = (s', r) \<Longrightarrow> s' = s \<and> (r = Inr () \<longrightarrow> unrestricted here \<and> unrestricted (lr_peer_state s))"
  by (auto simp: evaluate_run_def Let_def evaluate_allowed split: if_splits)

lemma evaluate_run_keeps [kept]: "keeps P (evaluate_run here)"
  by (auto intro!: keepsI dest: evaluate_run_cases)

lemma interrupted_None: "interrupted admitted here = None \<longleftrightarrow> unrestricted here \<and> ns_restricted_epoch here = admitted"
  by (simp add: interrupted_def)

lemma observe_local_seen:
  "observe_local w s = (s', r) \<Longrightarrow> \<exists>l. r = Inr l \<and> gd_local (guard_of (lr_log s')) = Some l \<and>
     lr_peer_state s' = lr_peer_state s \<and> lr_admitted_local s' = lr_admitted_local s \<and> lr_admitted_peer s' = lr_admitted_peer s"
  by (auto simp: observe_local_def ask_eq bindE_def on_live_def modify_def seen_def)

lemma admit_cases:
  assumes "admit w s = (s', r)" and "in_run True s"
  shows "in_run True s'" and "\<And>l. r = Inr l \<Longrightarrow> ready l s'"
proof -
  have "in_run True s' \<and> (\<forall>l. r = Inr l \<longrightarrow> ready l s')"
    using assms(1) unfolding admit_def
  proof (cases rule: bindE_cases)
    case (error e)
    then show ?thesis by (simp add: ask_eq)
  next
    case (next_step s1 now)
    have k1: "keeps (in_run True) (ask (w_now w) (\<lambda>_. EvClock))" by (intro kept) simp
    note i1 = keepsD [OF k1 assms(2) next_step(1)]
    define m where "m = (if now - lr_peer_at s1 \<ge> peerStateMaxAge then probe w else liftE (Inr ()))"
    have km: "keeps (in_run True) m" unfolding m_def by (intro kept)
    from next_step(2) have "bindE m (\<lambda>_. bindE (observe_local w) (\<lambda>here. bindE (gets lr_admitted_local) (\<lambda>admitted.
       case interrupted admitted here of
         Some paused \<Rightarrow> raise paused
       | None \<Rightarrow> bindE (evaluate_run here) (\<lambda>_.
           bindE (gets (\<lambda>s. ns_restricted_epoch (lr_peer_state s) \<noteq> lr_admitted_peer s)) (\<lambda>moved.
             if moved then raise (PauseErr (Some PausePeerRestrictedMidTransfer) None) else liftE (Inr here)))))) s1 = (s', r)"
      by (simp only: m_def bind_gets)
    then show ?thesis
    proof (cases rule: bindE_cases)
      case (error e)
      with keepsD [OF km i1 error(1)] show ?thesis by simp
    next
      case 2: (next_step s2 u)
      note i2 = keepsD [OF km i1 2(1)]
      obtain s3 x where o: "observe_local w s2 = (s3, x)" by (cases "observe_local w s2")
      from observe_local_seen [OF o] obtain l where l: "x = Inr l" "gd_local (guard_of (lr_log s3)) = Some l" by blast
      have i3: "in_run True s3" by (rule keepsD [OF observe_local_run(1) i2 o])
      show ?thesis
      proof (cases "interrupted (lr_admitted_local s3) l")
        case (Some p)
        have "s' = s3 \<and> r = Inl p" using 2(2) by (simp add: bindE_def [of "observe_local w"] o l(1) bind_gets Some raise_def)
        with i3 show ?thesis by simp
      next
        case None
        obtain s4 y where ev: "evaluate_run l s3 = (s4, y)" by (cases "evaluate_run l s3")
        from evaluate_run_cases [OF ev] have s4: "s4 = s3" by simp
        have "s' = s3 \<and> (\<forall>z. r = Inr z \<longrightarrow> z = l \<and> y = Inr () \<and> ns_restricted_epoch (lr_peer_state s3) = lr_admitted_peer s3)"
          using 2(2) s4
          by (cases y) (auto simp: bindE_def [of "observe_local w"] o l(1) bind_gets None bindE_def [of "evaluate_run l"] ev raise_def
            split: if_splits)
        with i3 l(2) None evaluate_run_cases [OF ev] show ?thesis by (auto simp: interrupted_None ready_def)
      qed
    qed
  qed
  then show "in_run True s'" "\<And>l. r = Inr l \<Longrightarrow> ready l s'" by blast+
qed

lemma admit_bind:
  assumes "\<And>l s s' r. ready l s \<Longrightarrow> k l s = (s', r) \<Longrightarrow> in_run True s'"
  shows "keeps (in_run True) (bindE (admit w) k)"
proof (rule keepsI)
  fix s s' r assume i: "in_run True s" and b: "bindE (admit w) k s = (s', r)"
  from b show "in_run True s'"
    by (cases rule: bindE_cases) (use admit_cases i assms in blast)+
qed

lemma admit_keeps [kept]: "keeps (in_run True) (admit w)"
  using admit_cases by (blast intro: keepsI)

subsection \<open>Calls that move data\<close>

lemma sent_run:
  assumes "ready l s" and "allowed (guard_of (lr_log s)) e" and "\<And>g. seen e g = g\<lparr>gd_local := None\<rparr>"
  shows "in_run True (s\<lparr>lr_log := lr_log s @ [e]\<rparr>)"
  using assms allowed_safe [of s e] by (simp add: ready_def in_run_def linked_def)

lemma admitted_call:
  assumes "\<And>r g a l. may_send g a \<Longrightarrow> allowed g (ev a r)" and "\<And>r g a. seen (ev a r) g = g\<lparr>gd_local := None\<rparr>"
    and "\<And>a x. keeps (in_run True) (k a x)"
  shows "keeps (in_run True) (bindE (admit w) (\<lambda>_. bindE (gets lr_admitted_peer) (\<lambda>a. bindE (ask (reply a) (ev a)) (k a))))"
proof (rule admit_bind)
  fix l s s' r
  assume rd: "ready l s" and b: "bindE (gets lr_admitted_peer) (\<lambda>a. bindE (ask (reply a) (ev a)) (k a)) s = (s', r)"
  let ?a = "lr_admitted_peer s" and ?x = "reply (lr_admitted_peer s) (lr_log s)"
  have "in_run True (s\<lparr>lr_log := lr_log s @ [ev ?a ?x]\<rparr>)"
    by (rule sent_run [OF rd assms(1,2)]) (rule ready_may_send [OF rd])
  moreover have "k ?a ?x (s\<lparr>lr_log := lr_log s @ [ev ?a ?x]\<rparr>) = (s', r)"
    using b by (simp only: bind_gets) (simp add: bindE_def ask_eq)
  ultimately show "in_run True s'" using assms(3) keepsD by blast
qed

lemma settle_reply_keeps [kept]: "keeps P (settle_reply r)"
  unfolding settle_reply_def by (cases r) (auto intro: kept)

text \<open>A reply that carries the peer's state has been logged, and the fields do not have it yet.\<close>

definition replied :: "net_state \<times> (call_error + 'a) \<Rightarrow> lane_run \<Rightarrow> bool" where
  "replied pr s \<longleftrightarrow> (\<exists>s0 e. in_run True s0 \<and> s = s0\<lparr>lr_log := lr_log s0 @ [e]\<rparr> \<and> allowed (guard_of (lr_log s0)) e \<and>
     (\<forall>g. seen e g = told pr g))"

lemma replied_live [kept]: "keeps (replied pr) (on_progress f)"
proof (rule keepsI)
  fix s s' r assume "replied pr s" and p: "on_progress f s = (s', r)"
  then obtain s0 e where s: "in_run True s0" "s = s0\<lparr>lr_log := lr_log s0 @ [e]\<rparr>" "allowed (guard_of (lr_log s0)) e" "\<forall>g. seen e g = told pr g"
    unfolding replied_def by blast
  let ?t = "s0\<lparr>lr_live := lr_live s'\<rparr>"
  have "in_run True ?t" using s(1) in_run_same [of s0 ?t] by (simp add: same_run_def)
  moreover have "s' = ?t\<lparr>lr_log := lr_log ?t @ [e]\<rparr>" using p s(2) by (auto simp: on_progress_def on_live_def modify_def)
  ultimately show "replied pr s'" using s(3,4) unfolding replied_def by (intro exI [of _ ?t] exI [of _ e]) simp
qed

lemma refused_run:
  assumes "replied pr s" and "refused w pr s = (s', r)"
  shows "in_run True s'"
proof -
  obtain st x where pr: "pr = (st, x)" by (cases pr)
  from assms(1) obtain s0 e where s: "in_run True s0" "s = s0\<lparr>lr_log := lr_log s0 @ [e]\<rparr>"
    "allowed (guard_of (lr_log s0)) e" "\<And>g. seen e g = told pr g" unfolding replied_def by blast
  show ?thesis
  proof (cases "\<exists>err. x = Inl (CallErr err)")
    case True
    then have "quiet e \<or> True" by simp
    from True s(4) pr have "seen e g = g\<lparr>gd_local := None\<rparr>" for g by (auto simp: told_def)
    then have "in_run True s" using s(1,3) allowed_safe [of s0 e] unfolding s(2) by (simp add: in_run_def linked_def)
    with True assms(2) pr show ?thesis by (auto simp: refused_def raise_def)
  next
    case False
    with s(4) pr have t: "seen e g = g\<lparr>gd_local := None, gd_peer := Some st\<rparr>" for g
      by (auto simp: told_def split: sum.split call_error.split)
    have u: "in_run True (peer_update s0 e st now)" for now
      by (rule peer_update_run [OF s(1,3)]) (simp_all add: t)
    have "\<exists>now. s' = peer_update s0 e st now"
      using assms(2) False pr observe_peer_eq [of w st s0 e]
      by (cases x) (auto simp: refused_def bindE_def s(2) raise_def liftE_def split: call_error.splits)
    with u show ?thesis by auto
  qed
qed

lemma replied_ask:
  assumes "ready l s" and "allowed (guard_of (lr_log s)) e" and "\<And>g. seen e g = told pr g"
  shows "replied pr (s\<lparr>lr_log := lr_log s @ [e]\<rparr>)"
  using assms unfolding replied_def ready_def by blast

lemma put_parts_run [kept]: "keeps (in_run True) (put_parts w i have_parts ns)"
proof (induction ns)
  case Nil
  show ?case by (simp add: kept)
next
  case (Cons n ns)
  have "keeps (in_run True) (bindE (admit w) (\<lambda>here. bindE (gets lr_admitted_peer) (\<lambda>epoch.
        bindE (ask (w_put w i n data here epoch) (EvPut i n here epoch)) (\<lambda>reply.
        bindE (on_progress (\<lambda>p. p\<lparr>pg_wire_bytes_sent := pg_wire_bytes_sent p + int (length data)\<rparr>)) (\<lambda>_.
        bindE (refused w reply) (\<lambda>_. put_parts w i have_parts ns))))))" for data
  proof (rule admit_bind)
    fix l and s s' :: lane_run and r
    let ?a = "lr_admitted_peer s"
    let ?pr = "w_put w i n data l ?a (lr_log s)"
    let ?s1 = "s\<lparr>lr_log := lr_log s @ [EvPut i n l ?a ?pr]\<rparr>"
    let ?f = "\<lambda>p. p\<lparr>pg_wire_bytes_sent := pg_wire_bytes_sent p + int (length data)\<rparr>"
    assume rd: "ready l s" and b: "bindE (gets lr_admitted_peer) (\<lambda>epoch.
        bindE (ask (w_put w i n data l epoch) (EvPut i n l epoch)) (\<lambda>reply.
        bindE (on_progress ?f) (\<lambda>_. bindE (refused w reply) (\<lambda>_. put_parts w i have_parts ns)))) s = (s', r)"
    have al: "allowed (guard_of (lr_log s)) (EvPut i n l ?a ?pr)"
      using ready_may_send [OF rd] rd by (simp add: allowed_def ready_def)
    have rp: "replied ?pr ?s1" by (rule replied_ask [OF rd al]) (simp add: seen_def)
    from b have b1: "bindE (on_progress ?f) (\<lambda>_. bindE (refused w ?pr) (\<lambda>_. put_parts w i have_parts ns)) ?s1 = (s', r)"
      by (simp only: bind_gets) (simp add: bindE_def [of "ask _ _"] ask_eq)
    then show "in_run True s'"
    proof (cases rule: bindE_cases)
      case (error e)
      then show ?thesis by (simp add: on_progress_def on_live_def modify_def)
    next
      case (next_step s2 u)
      from keepsD [OF replied_live rp next_step(1)] have r2: "replied ?pr s2" .
      from next_step(2) show ?thesis
        by (cases rule: bindE_cases) (use refused_run [OF r2] keepsD [OF Cons.IH] in blast)+
    qed
  qed
  note step = this
  have "keeps (in_run True) (tried (ask (w_read w i n) (\<lambda>_. EvRead i n)))" by (intro kept) simp
  from keeps_bind [OF this step] Cons.IH show ?case by simp
qed

lemma commit_objects_run [kept]: "keeps (in_run True) (commit_objects w objects)"
proof -
  have begun: "keeps (in_run True) (bindE (admit w) (\<lambda>sender. bindE (gets lr_admitted_peer) (\<lambda>epoch.
     bindE (ask (w_begin w b sender epoch) (EvBegin (b_id b) sender epoch)) (\<lambda>reply.
     bindE (refused w reply) k))))" if k: "\<And>x. keeps (in_run True) (k x)" for b and k :: "nat list \<Rightarrow> digest act"
  proof (rule admit_bind)
    fix l and s s' :: lane_run and r
    let ?a = "lr_admitted_peer s"
    let ?pr = "w_begin w b l ?a (lr_log s)"
    let ?s1 = "s\<lparr>lr_log := lr_log s @ [EvBegin (b_id b) l ?a ?pr]\<rparr>"
    assume rd: "ready l s" and bb: "bindE (gets lr_admitted_peer) (\<lambda>epoch.
        bindE (ask (w_begin w b l epoch) (EvBegin (b_id b) l epoch)) (\<lambda>reply. bindE (refused w reply) k)) s = (s', r)"
    have al: "allowed (guard_of (lr_log s)) (EvBegin (b_id b) l ?a ?pr)"
      using ready_may_send [OF rd] rd by (simp add: allowed_def ready_def)
    have rp: "replied ?pr ?s1" by (rule replied_ask [OF rd al]) (simp add: seen_def)
    from bb have "bindE (refused w ?pr) k ?s1 = (s', r)"
      by (simp only: bind_gets) (simp add: bindE_def [of "ask _ _"] ask_eq)
    then show "in_run True s'"
      by (cases rule: bindE_cases) (use refused_run [OF rp] keepsD [OF k] in blast)+
  qed
  have commit: "keeps (in_run True) (bindE (admit w) (\<lambda>_. bindE (gets lr_admitted_peer) (\<lambda>epoch.
     bindE (ask (w_commit w (b_id b) epoch) (\<lambda>_. EvCommit (b_id b) epoch)) (k epoch))))"
    if k: "\<And>a x. keeps (in_run True) (k a x)" for b and k :: "u64 \<Rightarrow> call_error + commit_report \<Rightarrow> digest act"
    by (rule admitted_call [where ev = "\<lambda>a _. EvCommit (b_id b) a" and k = k]) (simp_all add: k allowed_def seen_def)
  have build: "keeps (in_run True) (tried (ask (w_build w objects) (\<lambda>_. EvBuild objects)))" by (intro kept) simp
  have tail: "keeps (in_run True) (bindE (settle_reply r) (\<lambda>_.
     bindE (modify (\<lambda>s. s\<lparr>lr_sent := lr_sent s + 1, lr_moved := True\<rparr>)) (\<lambda>_.
     bindE (on_progress f) (\<lambda>_. liftE (Inr i)))))" for r :: "call_error + commit_report" and f and i :: digest
    by (intro kept) (simp add: same_run_def)
  show ?thesis unfolding commit_objects_def
    by (rule keeps_bind [OF build], rule begun, rule keeps_bind [OF put_parts_run], rule commit, rule tail)
qed

subsection \<open>The whole attempt\<close>

lemma superseded_run [kept]: "keeps (in_run b) (superseded w)"
  unfolding superseded_def by (intro kept) simp

lemma stop_superseded_run [kept]: "keeps (in_run b) (stop_superseded w)"
  unfolding stop_superseded_def by (intro kept)

lemma release_shared_run [kept]: "keeps (in_run b) (release_shared k i)"
proof (rule keepsI)
  fix s s' r assume i: "in_run b s" and "release_shared k i s = (s', r)"
  then obtain bs where "s' = s\<lparr>lr_batches := bs\<rparr>" by (auto simp: release_shared_def split: prod.splits)
  with i in_run_same [of s s'] show "in_run b s'" by (simp add: same_run_def)
qed

lemma drop_shared_run [kept]: "keeps (in_run b) (drop_shared w i)"
  unfolding drop_shared_def by (cases i) (auto intro!: kept)

lemma send_run [kept]: "keeps (in_run True) (send w objects)"
proof (rule keepsI)
  fix s s' r assume i: "in_run True s" and b: "send w objects s = (s', r)"
  let ?k = "shared_key_for (w_service w) objects"
  let ?s0 = "s\<lparr>lr_batches := hold_batch ?k (lr_batches s)\<rparr>"
  obtain s1 x where c: "commit_objects w objects ?s0 = (s1, x)" by (cases "commit_objects w objects ?s0")
  have "in_run True ?s0" using i in_run_same [of s ?s0] by (simp add: same_run_def)
  from keepsD [OF commit_objects_run this c] have i1: "in_run True s1" .
  have kd: "keeps (in_run True) (bindE (release_shared ?k j) (drop_shared w))" for j by (intro kept)
  show "in_run True s'"
  proof (cases x)
    case (Inl err)
    obtain s2 y where d: "bindE (release_shared ?k []) (drop_shared w) s1 = (s2, y)"
      by (cases "bindE (release_shared ?k []) (drop_shared w) s1")
    with b c Inl have "s' = s2" by (simp add: send_def Let_def)
    with keepsD [OF kd i1 d] show ?thesis by simp
  next
    case (Inr j)
    obtain s2 y where d: "bindE (release_shared ?k j) (drop_shared w) s1 = (s2, y)"
      by (cases "bindE (release_shared ?k j) (drop_shared w) s1")
    note i2 = keepsD [OF kd i1 d]
    have ks: "keeps (in_run True) (bindE (superseded w) (\<lambda>late. raise (if late then Fault ErrSuperseded else e)) :: unit act)" for e
      by (intro kept)
    show ?thesis
    proof (cases y)
      case (Inl cleanup)
      with b c \<open>x = Inr j\<close> d have "bindE (superseded w) (\<lambda>late. raise (if late then Fault ErrSuperseded else cleanup)) s2 = (s', r)"
        by (simp add: send_def Let_def)
      from keepsD [OF ks i2 this] show ?thesis .
    next
      case (Inr u)
      with b c \<open>x = Inr j\<close> d i2 show ?thesis by (simp add: send_def Let_def)
    qed
  qed
qed

lemma apply_v2_run [kept]: "keeps (in_run True) (apply_v2 w)"
  unfolding apply_v2_def
proof (rule admit_bind)
  fix l and s s' :: lane_run and r
  let ?e = "lr_change s" and ?a = "lr_admitted_peer s"
  assume rd: "ready l s" and b: "bindE (gets lr_change) (\<lambda>e. bindE (gets lr_admitted_peer) (\<lambda>epoch.
     bindE (ask (w_apply_v2 w e epoch) (\<lambda>_. EvApplyV2 e epoch)) settle_reply)) s = (s', r)"
  have "in_run True (s\<lparr>lr_log := lr_log s @ [EvApplyV2 ?e ?a]\<rparr>)"
    by (rule sent_run [OF rd]) (use ready_may_send [OF rd] in \<open>simp_all add: allowed_def seen_def\<close>)
  moreover have "settle_reply (w_apply_v2 w ?e ?a (lr_log s)) (s\<lparr>lr_log := lr_log s @ [EvApplyV2 ?e ?a]\<rparr>) = (s', r)"
    using b by (simp only: bind_gets) (simp add: bindE_def [of "ask _ _"] ask_eq)
  ultimately show "in_run True s'" using keepsD [OF settle_reply_keeps] by fast
qed

lemma flush_run [kept]: "keeps (in_run True) (flush w b)"
  unfolding flush_def by (intro kept)

lemma send_page_run [kept]: "keeps (in_run True) (send_page w roots missing xs b)"
proof (induction xs arbitrary: b)
  case Nil
  show ?case unfolding send_page.simps by (intro kept)
next
  case (Cons x xs)
  show ?case unfolding send_page.simps Let_def by (intro kept Cons.IH)
qed

lemma missing_of_run [kept]: "keeps (in_run True) (missing_of w objects)"
proof -
  have "keeps (in_run True) (bindE (admit w) (\<lambda>_. bindE (gets lr_admitted_peer) (\<lambda>epoch.
        bindE (ask (w_have w (map o_digest objects) epoch) (\<lambda>_. EvHave (map o_digest objects) epoch)) settle_reply)))"
    by (rule admitted_call [where ev = "\<lambda>a _. EvHave (map o_digest objects) a" and k = "\<lambda>_. settle_reply"])
      (simp_all add: kept allowed_def seen_def)
  then show ?thesis unfolding missing_of_def by (auto intro: kept)
qed

lemma enumerate_run [kept]: "keeps (in_run True) (enumerate_pages n w roots after)"
proof (induction n arbitrary: after)
  case 0
  show ?case by (simp add: kept)
next
  case (Suc n)
  have "keeps (in_run True) (tried (ask (w_closure w p) (\<lambda>_. EvClosure after)))" for p by (intro kept) simp
  then show ?case unfolding enumerate_pages.simps send_objects_def by (intro kept Suc.IH) simp_all
qed

lemma transfer_run [kept]: "keeps (in_run True) (transfer n w)"
proof -
  have "keeps (in_run True) (\<lambda>s. case enumerate_pages n w roots 0 s of
       (s1, Inl err) \<Rightarrow> (s1, Inl (if err = NoReturn then err
            else case watch_local (lr_admitted_local s1) (w_watched w (lr_log s1)) of Some p \<Rightarrow> p | None \<Rightarrow> err))
     | (s1, Inr _) \<Rightarrow> (s1, Inr () :: deliver_error + unit))" for roots
    by (rule keepsI) (auto split: prod.splits sum.splits dest: keepsD [OF enumerate_run])
  then show ?thesis unfolding transfer_def by (intro kept)
qed

lemma replace_run [kept]: "keeps (in_run b) (replace w artifacts expected old fresh)"
  unfolding replace_def pins_set_def settle_pins_def unsettle_pins_def
  by (intro kept) (simp_all add: same_run_def)

lemma export_run [kept]: "keeps (in_run b) (export w artifacts since)"
  unfolding export_def client_export_def by (intro kept) simp_all

text \<open>Within a run the flag of its consumer is known.\<close>

lemma gets_artifacts: "keeps (in_run b) (k b) \<Longrightarrow> keeps (in_run b) (bindE (gets lr_artifacts) k)"
  by (auto intro!: keepsI simp: bind_gets in_run_def dest: keepsD)

lemma apply_once_run [kept]: "keeps (in_run b) (apply_once w)"
proof -
  have "keeps (in_run b) (if \<not> b then bindE (gets lr_change) (\<lambda>e. tried (ask (w_apply w e) (\<lambda>_. EvApply e))) else apply_v2 w)"
  proof (cases b)
    case True
    then show ?thesis using apply_v2_run by simp
  next
    case False
    have "keeps (in_run b) (bindE (gets lr_change) (\<lambda>e. tried (ask (w_apply w e) (\<lambda>_. EvApply e))))" by (intro kept) simp
    with False show ?thesis by simp
  qed
  then show ?thesis unfolding apply_once_def by (rule gets_artifacts)
qed

lemma set_applying_run [kept]: "keeps (in_run b) set_applying"
  unfolding set_applying_def by (intro kept)

lemma resend_full_run [kept]: "keeps (in_run b) (resend_full n w)"
proof -
  have t: "keeps (in_run b) (if b then bindE (transfer n w) (\<lambda>_. set_applying) else liftE (Inr ()))"
    by (cases b) (auto intro: kept)
  show ?thesis unfolding resend_full_def
    by (rule gets_artifacts) (intro kept t; simp add: same_run_def)
qed

lemma apply_change_run [kept]: "keeps (in_run b) (apply_change n w)"
  unfolding apply_change_def pins_set_def settle_pins_def unsettle_pins_def
  by (intro kept) (simp_all add: same_run_def)

lemma in_run_safe: "in_run b s \<Longrightarrow> safe s"
  by (simp add: in_run_def)

lemma gate_cases:
  assumes "gate w s = (s', r)" and "safe s" and "lr_artifacts s"
  shows "safe s' \<and> (r = Inr () \<longrightarrow> in_run True s')"
proof -
  let ?s1 = "s\<lparr>lr_log := lr_log s @ [EvPeerCaps]\<rparr>"
  have s1: "safe ?s1" using assms(2) by (rule allowed_safe) (simp add: allowed_def)
  have g1: "guard_of (lr_log ?s1) = no_guard" by (simp add: seen_def)
  show ?thesis
  proof (cases "w_peer_caps w (lr_log s)")
    case (Inl err)
    with assms(1) have "bindE (observe_local w) (\<lambda>here. raise (unreachable here err)) ?s1 = (s', r)"
      by (simp add: gate_def ask_eq bindE_def [of "ask _ _"])
    moreover from this have "r \<noteq> Inr ()" by (cases rule: bindE_cases) (auto simp: raise_def)
    moreover have "keeps safe (bindE (observe_local w) (\<lambda>here. raise (unreachable here err)) :: unit act)" by (intro kept)
    ultimately show ?thesis using s1 keepsD by blast
  next
    case (Inr methods)
    show ?thesis
    proof (cases "artifact_capable methods")
      case False
      with Inr assms(1) have "bindE (observe_local w) (\<lambda>_. raise (PauseErr (Some PausePeerIncompatible) None)) ?s1 = (s', r)"
        by (simp add: gate_def ask_eq bindE_def [of "ask _ _"])
      moreover from this have "r \<noteq> Inr ()" by (cases rule: bindE_cases) (auto simp: raise_def)
      moreover have "keeps safe (bindE (observe_local w) (\<lambda>_. raise (PauseErr (Some PausePeerIncompatible) None)) :: unit act)" by (intro kept)
      ultimately show ?thesis using s1 keepsD by blast
    next
      case True
      with Inr assms(1) have "bindE (probe w) (\<lambda>_. bindE (observe_local w) (\<lambda>here.
         bindE (modify (\<lambda>s. s\<lparr>lr_admitted_local := ns_restricted_epoch here,
             lr_admitted_peer := ns_restricted_epoch (lr_peer_state s)\<rparr>)) (\<lambda>_. evaluate_run here))) ?s1 = (s', r)"
        by (simp add: gate_def ask_eq bindE_def [of "ask _ _"])
      then show ?thesis
      proof (cases rule: bindE_cases)
        case (error e)
        with keepsD [OF probe_safe s1 error(1)] show ?thesis by simp
      next
        case (next_step s2 u)
        note s2 = keepsD [OF probe_safe s1 next_step(1)]
        obtain st where st: "w_net_status w (lr_log ?s1) = Inr st"
          using next_step(1)
          by (cases "w_net_status w (lr_log ?s1)")
            (auto simp: probe_def bindE_def [of "ask _ _"] ask_eq raise_def elim: bindE_cases)
        then have "s2 = peer_update ?s1 (EvNetStatus (Inr st)) st (w_now w (lr_log ?s1 @ [EvNetStatus (Inr st)]))"
          using next_step(1) observe_peer_eq [of w st ?s1 "EvNetStatus (Inr st)"] by (simp add: probe_def bindE_def [of "ask _ _"] ask_eq)
        then have g2: "gd_admitted (guard_of (lr_log s2)) = None" "gd_peer (guard_of (lr_log s2)) = Some (lr_peer_state s2)" "lr_artifacts s2"
          using g1 assms(3) by (simp_all add: peer_update_def guard_of_def seen_def no_guard_def)
        let ?l = "w_monitor w (lr_log s2)"
        let ?s3 = "s2\<lparr>lr_log := lr_log s2 @ [EvLocal ?l], lr_live := (lr_live s2)\<lparr>ll_local_network := Some ?l\<rparr>,
            lr_admitted_local := ns_restricted_epoch ?l, lr_admitted_peer := ns_restricted_epoch (lr_peer_state s2)\<rparr>"
        have ev: "evaluate_run ?l ?s3 = (s', r)" using next_step(2)
          by (simp add: observe_local_def bindE_def ask_eq on_live_def modify_def liftE_def)
        have "safe ?s3" using allowed_safe [OF s2, of "EvLocal ?l"] by (simp add: safe_def allowed_def)
        then have "in_run True ?s3" using g2 by (simp add: in_run_def linked_def seen_def)
        with evaluate_run_cases [OF ev] in_run_safe show ?thesis by blast
      qed
    qed
  qed
qed

lemma prepare_safe: "keeps safe (prepare w)"
proof -
  have r: "keeps safe (replace w artifacts expected old fresh)" for artifacts expected old fresh
    unfolding replace_def pins_set_def settle_pins_def unsettle_pins_def by (intro kept) (simp_all add: allowed_def)
  have e: "keeps safe (export w artifacts since)" for artifacts since
    unfolding export_def client_export_def by (intro kept) (simp_all add: allowed_def)
  have p: "keeps safe (reconcile_pins w artifacts pending)" for artifacts pending
    unfolding reconcile_pins_def pins_set_def settle_pins_def Let_def by (intro kept) (simp_all add: allowed_def)
  have d: "keeps safe (detect w)"
    unfolding detect_def Let_def by (intro kept) (simp_all add: allowed_def)
  show ?thesis unfolding prepare_def
    by (auto intro!: kept r e p d split: option.split prod.split)
qed

lemma deliver_pending_safe: "keeps safe (deliver_pending n w)"
proof (rule keepsI)
  fix s s' r assume s: "safe s" and b: "deliver_pending n w s = (s', r)"
  from b show "safe s'" unfolding deliver_pending_def
  proof (cases rule: bindE_cases)
    case (error e)
    then show ?thesis using keepsD [OF prepare_safe s] by blast
  next
    case (next_step s1 x)
    note s1 = keepsD [OF prepare_safe s next_step(1)]
    obtain artifacts pending where x: "x = (artifacts, pending)" by (cases x)
    show ?thesis
    proof (cases pending)
      case None
      with next_step(2) x s1 show ?thesis by simp
    next
      case (Some e)
      let ?s2 = "start_run artifacts e s1"
      have s2: "safe ?s2" "lr_artifacts ?s2 = artifacts" using s1 by (simp_all add: start_run_def safe_def)
      from next_step(2) x Some have k: "bindE (if artifacts then bindE (gate w) (\<lambda>_. transfer n w) else liftE (Inr ()))
          (\<lambda>_. apply_change n w) ?s2 = (s', r)" by (simp add: modify_def bindE_def [of "modify _"])
      show ?thesis
      proof (cases artifacts)
        case False
        with k s2 have "apply_change n w ?s2 = (s', r)" "in_run False ?s2" by (simp_all add: in_run_def)
        then show ?thesis using keepsD [OF apply_change_run] in_run_safe by blast
      next
        case True
        obtain s3 y where g: "gate w ?s2 = (s3, y)" by (cases "gate w ?s2")
        from gate_cases [OF g s2(1)] s2(2) True have s3: "safe s3" "y = Inr () \<longrightarrow> in_run True s3" by auto
        show ?thesis
        proof (cases y)
          case (Inl err)
          with k True g s3 show ?thesis by (simp add: bindE_def)
        next
          case (Inr u)
          have "bindE (transfer n w) (\<lambda>_. apply_change n w) s3 = (s', r)"
            using k True g Inr by (simp add: bindE_def split: prod.splits sum.splits)
          note step = this
          have kp: "keeps (in_run True) (bindE (transfer n w) (\<lambda>_. apply_change n w))" by (intro kept)
          have "in_run True s3" using s3(2) Inr by simp
          from in_run_safe [OF keepsD [OF kp this step]] show ?thesis .
        qed
      qed
    qed
  qed
qed

lemma deliver_once_safe: "keeps safe (deliver_once k n w)"
proof (induction k)
  case 0
  show ?case by (simp add: kept)
next
  case (Suc k)
  show ?case
  proof (rule keepsI)
    fix s s' r assume s: "safe s" and b: "deliver_once (Suc k) n w s = (s', r)"
    let ?s1 = "s\<lparr>lr_log := lr_log s @ [EvClean]\<rparr>"
    have s1: "safe ?s1" using s by (rule allowed_safe) (simp add: allowed_def)
    obtain s2 x where d: "deliver_pending n w ?s1 = (s2, x)" by (cases "deliver_pending n w ?s1")
    note s2 = keepsD [OF deliver_pending_safe s1 d]
    show "safe s'"
    proof (cases "x = Inl (Fault ErrSuperseded)")
      case True
      with b d have "deliver_once k n w s2 = (s', r)" by (simp add: bindE_def ask_eq)
      with keepsD [OF Suc.IH s2] show ?thesis by blast
    next
      case False
      then have "s' = s2" using b d
        by (cases x) (auto simp: bindE_def ask_eq split: deliver_error.splits goerr.splits)
      with s2 show ?thesis by simp
    qed
  qed
qed

subsection \<open>The property\<close>

text \<open>C3. Every log of a delivery obeys the guard: whatever the peer, the consumer, the network, the store
  and the disk answer, each has, begin, put, commit and v2 apply call follows a fresh read of this host's
  network and the newest known state of the peer, both unrestricted and both still in the epochs under
  which the run was admitted, and the call names the peer's epoch; begin and put also carry this host's
  state itself.
\<close>

theorem bulk_calls_guarded: "guarded no_guard (lr_log (fst (deliver_once k n w (s\<lparr>lr_log := []\<rparr>))))"
proof -
  obtain s' r where d: "deliver_once k n w (s\<lparr>lr_log := []\<rparr>) = (s', r)" by fastforce
  from keepsD [OF deliver_once_safe _ d] show ?thesis by (simp add: d safe_def)
qed

end
