(* ===== verification/Deliver_Pins.thy ===== *)
theory Deliver_Pins
  imports Deliver_Guard
begin

text \<open>
  What a lane pins: after any number of delivery attempts, with any replies and any faults, the pins
  the consumer's store may hold for the lane cover every root of the change the lane has staged. With
  \<open>gc_keeps_pinned\<close> this is why a collection on the sending host never takes an object a delivery
  still has to send.
\<close>

subsection \<open>The change a record names\<close>

definition staged_in :: "delivery_record list \<Rightarrow> delivery_disk \<Rightarrow> string \<Rightarrow> string \<Rightarrow> change_envelope option" where
  "staged_in rs d service peer = (case dr_pending (find_record rs service peer) of
     None \<Rightarrow> None
   | Some p \<Rightarrow> (case map_of (dd_pending d) (pending_name (pr_change_id p)) of Some (Inr e) \<Rightarrow> Some e | _ \<Rightarrow> None))"

definition staged :: "delivery_disk \<Rightarrow> string \<Rightarrow> string \<Rightarrow> change_envelope option" where
  "staged d = staged_in (current d) d"

definition files_kept :: "delivery_record list \<Rightarrow> delivery_disk \<Rightarrow> delivery_disk \<Rightarrow> bool" where
  "files_kept rs d d' \<longleftrightarrow> (\<forall>n \<in> set (referenced rs). map_of (dd_pending d') n = map_of (dd_pending d) n)"

lemma staged_in_kept:
  assumes "files_kept rs d d'"
  shows "staged_in rs d' = staged_in rs d"
proof (intro ext)
  fix a b
  show "staged_in rs d' a b = staged_in rs d a b"
  proof (cases "dr_pending (find_record rs a b)")
    case (Some p)
    then have "find_record rs a b \<in> set rs" by (cases rule: find_record_cases [of rs a b]) (simp_all add: new_record_def)
    with Some have "pending_name (pr_change_id p) \<in> set (referenced rs)" using referenced_iff by blast
    with assms Some show ?thesis by (simp add: staged_in_def files_kept_def)
  qed (simp add: staged_in_def)
qed

lemma staged_in_pending: "dd_pending d' = dd_pending d \<Longrightarrow> staged_in rs d' = staged_in rs d"
  by (intro ext) (simp add: staged_in_def cong: option.case_cong)

lemma staged_in_set:
  assumes "records_ok rs" "records_ok rs'" "set rs = set rs'"
  shows "staged_in rs d = staged_in rs' d"
  using find_record_set [of rs rs'] assms by (simp add: staged_in_def records_ok_def fun_eq_iff)

lemma staged_same:
  assumes "delivery_inv d" "delivery_inv d'" "set (current d') = set (current d)" "dd_pending d' = dd_pending d"
  shows "staged d' = staged d"
  using staged_in_set [of "current d'" "current d" d'] staged_in_pending [OF assms(4)] current_ok assms
  by (simp add: staged_def)

lemma staged_faults [simp]: "staged (d\<lparr>dd_faults := fs\<rparr>) = staged d" "staged (d\<lparr>dd_now := n\<rparr>) = staged d"
  by (simp_all add: staged_def staged_in_def fun_eq_iff current_def cong: option.case_cong sum.case_cong)

lemma sweep_files:
  assumes "sweep rs s = (s', r)"
  shows "files_kept rs s s'"
  using assms unfolding sweep_def files_kept_def
  by (cases rule: bindE_cases) (auto dest!: attempt_cases sweep_pending_keeps)

lemma sweep_staged:
  assumes "sweep rs s = (s', r)" and "opened s rs" and "delivery_inv s"
  shows "staged s' = staged s"
proof -
  from sweep_opened [OF assms] assms(2) have "current s' = rs" "current s = rs" by (simp_all add: opened_def)
  with staged_in_kept [OF sweep_files [OF assms(1)]] show ?thesis by (simp add: staged_def)
qed

lemma migrate_files:
  assumes "migrate s = (s', r)"
  shows "dd_pending s' = dd_pending s"
proof (cases "dd_v1 s")
  case (Some v)
  have a: "dd_pending s2 = dd_pending s1" if "attempt what s1 = (s2, x)" for what s1 s2 x
    using attempt_cases [OF that] by simp
  have d: "dd_pending s2 = dd_pending s1" if "durable what (\<lambda>s. s\<lparr>dd_v1 := None\<rparr>) s1 = (s2, x)" for what s1 s2 x
    using durable_cases [OF that] by auto
  have w: "dd_pending s2 = dd_pending s1" if "write_delivery_state rs s1 = (s2, x)" for rs s1 s2 x
    using write_state_cases [OF that] by simp
  from assms Some show ?thesis
    by (auto simp: migrate_def elim!: bindE_cases dest!: a d w)
qed (use assms in \<open>simp add: migrate_def\<close>)

lemma open_staged:
  assumes "open_state s = (s', r)" and "delivery_inv s"
  shows "staged s' = staged s"
  using assms(1) unfolding open_state_def
proof (cases rule: bindE_cases)
  case (error e)
  then show ?thesis by (auto dest!: attempt_cases)
next
  case 1: (next_step s1 x1)
  from 1(2) show ?thesis
  proof (cases rule: bindE_cases)
    case (error e)
    with 1(1) show ?thesis by (auto dest!: attempt_cases)
  next
    case 2: (next_step s2 x2)
    have s2: "s2 = s\<lparr>dd_faults := dd_faults s2\<rparr>" using 1(1) 2(1) by (auto dest!: attempt_cases)
    then have i2: "delivery_inv s2" "staged s2 = staged s" using assms(2) by (metis reloaded_same(4), metis staged_faults(1))
    from 2(2) show ?thesis
    proof (cases rule: bindE_cases)
      case (error e)
      with read_state_cases [OF error(1) i2(1)] i2(2) show ?thesis by auto
    next
      case 3: (next_step s3 found)
      from read_state_cases [OF 3(1) i2(1)] i2 have s3: "delivery_inv s3" "staged s3 = staged s"
        "found = None \<Longrightarrow> dd_state s3 = None" "\<And>rs. found = Some rs \<Longrightarrow> opened s3 rs" by auto
      have mid: "staged t = staged s \<and> delivery_inv t \<and> (\<forall>rs. x = Inr rs \<longrightarrow> opened t rs)"
        if m: "(case found of None \<Rightarrow> migrate | Some rs \<Rightarrow> liftE (Inr rs)) s3 = (t, x)" for t x
      proof (cases found)
        case None
        with m have g: "migrate s3 = (t, x)" by simp
        from migrate_cases [OF g s3(3) [OF None]] have "delivery_inv t" "set (current t) = set (current s3)"
          "\<forall>rs. x = Inr rs \<longrightarrow> opened t rs" using s3(1) by auto
        with staged_same [OF s3(1) this(1,2) migrate_files [OF g]] s3(2) show ?thesis by simp
      next
        case (Some rs)
        with m s3 show ?thesis by auto
      qed
      from 3(2) show ?thesis
      proof (cases rule: bindE_cases)
        case (error e)
        from mid [OF error(1)] show ?thesis by simp
      next
        case 4: (next_step s4 rs)
        from mid [OF 4(1)] have s4: "staged s4 = staged s" "delivery_inv s4" "opened s4 rs" by auto
        from 4(2) obtain x where "sweep rs s4 = (s', x)" by (cases rule: bindE_cases) auto
        with sweep_staged [OF this s4(3,2)] s4(1) show ?thesis by simp
      qed
    qed
  qed
qed

lemma close_staged:
  assumes "close_state rs s = (s', r)" and "delivery_inv s" "records_ok rs" "pending_ok s rs"
  shows "staged s' = staged_in rs s \<or> staged s' = staged s \<and> r \<noteq> Inr ()"
proof -
  have ss: "records_ok (sort_records rs)" using assms(3) by simp
  from assms(1) show ?thesis unfolding close_state_def
  proof (cases rule: bindE_cases)
    case (error e)
    from write_state_cases [OF error(1)] consider "current s' = sort_records rs" "dd_pending s' = dd_pending s"
      | "s' = s\<lparr>dd_faults := dd_faults s'\<rparr>" by (elim conjE disjE) auto
    then show ?thesis
    proof cases
      case 1
      with staged_in_set [OF ss assms(3), of s'] staged_in_pending [OF 1(2)] show ?thesis by (simp add: staged_def)
    next
      case 2
      then have "staged s' = staged s" by (metis staged_faults(1))
      with error(2) show ?thesis by simp
    qed
  next
    case (next_step s1 rs1)
    from write_state_cases [OF next_step(1)] have w: "rs1 = sort_records rs"
      "dd_state s1 = Some (Inr (state_of (sort_records rs)))" "dd_pending s1 = dd_pending s" by auto
    then have c: "current s1 = rs1" by simp
    have o: "opened s1 rs1" using c w ss assms(4) by (simp add: opened_def pending_ok_def)
    then have "delivery_inv s1" using w by (auto simp: delivery_inv_def opened_def)
    from sweep_staged [OF next_step(2) o this] have "staged s' = staged s1" .
    also have "\<dots> = staged_in rs s"
      using c w staged_in_set [OF ss assms(3), of s1] staged_in_pending [OF w(3)] by (simp add: staged_def)
    finally show ?thesis by simp
  qed
qed

text \<open>What an operation under the lock leaves: the staged change of before it, of the function's files,
  or of the records the function returned.\<close>

lemma with_state_staged:
  assumes "with_state wr f s = (s', r)" and "delivery_inv s" and "applies f"
  obtains (stopped) "staged s' = staged s" "\<forall>x. r \<noteq> Inr x"
  | (refused) s1 s2 rs e where "opened s1 rs" "staged s1 = staged s" "f rs s1 = (s2, Inl e)" "current s2 = rs" "s' = s2" "r = Inl e"
  | (ran) s1 s2 rs rs' x where "opened s1 rs" "staged s1 = staged s" "f rs s1 = (s2, Inr (rs', x))" "current s2 = rs"
      "if wr then staged s' = staged_in rs' s2 \<and> (r = Inr x \<or> (\<forall>y. r \<noteq> Inr y)) \<or> staged s' = staged s2 \<and> (\<forall>y. r \<noteq> Inr y)
       else s' = s2 \<and> r = Inr x"
proof -
  from assms(1) show ?thesis unfolding with_state_def
  proof (cases rule: bindE_cases)
    case (error e)
    with open_staged [OF error(1) assms(2)] show ?thesis by (intro stopped) simp_all
  next
    case 1: (next_step s1 rs)
    have st: "staged s1 = staged s" by (rule open_staged [OF 1(1) assms(2)])
    from open_state_cases [OF 1(1) assms(2)] have o: "delivery_inv s1" "opened s1 rs" by auto
    have c: "current s2 = rs \<and> delivery_inv s2 \<and> (\<forall>rs' x. q = Inr (rs', x) \<longrightarrow> records_ok rs' \<and> pending_ok s2 rs')"
      if "f rs s1 = (s2, q)" for s2 q
    proof -
      have a: "same_state s1 s2" "pending_ok s2 rs" "\<forall>rs' x. q = Inr (rs', x) \<longrightarrow> records_ok rs' \<and> pending_ok s2 rs'"
        using assms(3) o(2) that unfolding applies_def by blast+
      have "delivery_inv s2"
        by (rule inv_same [OF a(1) _ o(1)]) (use a(2) o(2) in \<open>auto simp: opened_def\<close>)
      with a o show ?thesis by (simp add: opened_def current_same)
    qed
    from 1(2) show ?thesis
    proof (cases rule: bindE_cases)
      case (error e)
      with c [OF error(1)] o(2) st show ?thesis by (intro refused) simp_all
    next
      case 2: (next_step s2 rx)
      obtain rs' x where rx: "rx = (rs', x)" by (cases rx)
      note c2 = c [OF 2(1) [unfolded rx]]
      show ?thesis
      proof (cases wr)
        case False
        with 2 rx c2 o(2) st show ?thesis by (intro ran) auto
      next
        case True
        with 2(2) rx have "bindE (close_state rs') (\<lambda>_. liftE (Inr x)) s2 = (s', r)" by simp
        then obtain u where u: "close_state rs' s2 = (s', u)" "u = Inr () \<longrightarrow> r = Inr x" "u \<noteq> Inr () \<longrightarrow> (\<forall>y. r \<noteq> Inr y)"
          by (cases rule: bindE_cases) auto
        have "staged s' = staged_in rs' s2 \<or> staged s' = staged s2 \<and> u \<noteq> Inr ()"
          using c2 by (intro close_staged [OF u(1)]) auto
        then have "staged s' = staged_in rs' s2 \<and> (r = Inr x \<or> (\<forall>y. r \<noteq> Inr y)) \<or> staged s' = staged s2 \<and> (\<forall>y. r \<noteq> Inr y)"
          using u(2,3) by blast
        with True 2(1) rx c2 o(2) st show ?thesis by (intro ran [OF o(2) st 2(1) [unfolded rx]]) simp_all
      qed
    qed
  qed
qed

lemma load_staged:
  assumes "load service peer d = (d', r)" and "delivery_inv d"
  shows "delivery_inv d' \<and> staged d' = staged d \<and> (\<forall>q c. r = Inr (q, c) \<longrightarrow> c = staged d service peer)"
proof -
  note w = assms(1) [unfolded load_def]
  have i: "delivery_inv d'" using with_state_cases [OF w assms(2) load_applies] by blast
  have fn: "staged s2 = staged s1 \<and> (\<forall>rs' q c. x = Inr (rs', q, c) \<longrightarrow> c = staged s1 service peer)"
    if o: "opened s1 rs" and f: "load_fn service peer rs s1 = (s2, x)" for s1 s2 rs x
  proof (cases "dr_pending (find_record rs service peer)")
    case None
    with f o show ?thesis by (auto simp: load_fn_def Let_def opened_def staged_def staged_in_def)
  next
    case (Some p)
    with f have "bindE (read_pending (pr_change_id p)) (\<lambda>change. liftE (Inr (rs, find_record rs service peer, Some change))) s1 = (s2, x)"
      by (simp add: load_fn_def Let_def)
    then obtain y where rp: "read_pending (pr_change_id p) s1 = (s2, y)"
      and x: "\<forall>rs' q c. x = Inr (rs', q, c) \<longrightarrow> (\<exists>e. y = Inr e \<and> c = Some e)" by (cases rule: bindE_cases) auto
    from rp have "staged s2 = staged s1 \<and> (\<forall>e. y = Inr e \<longrightarrow> map_of (dd_pending s1) (pending_name (pr_change_id p)) = Some (Inr e))"
      unfolding read_pending_def
      by (cases rule: bindE_cases) (auto simp: andthen_Inr_iff dest!: attempt_cases split: option.splits if_splits)
    with x Some o show ?thesis by (fastforce simp: staged_def staged_in_def opened_def)
  qed
  from w assms(2) load_applies [of service peer] show ?thesis
  proof (cases rule: with_state_staged)
    case stopped
    with i show ?thesis by auto
  next
    case (refused s1 s2 rs e)
    with fn [OF refused(1,3)] i show ?thesis by simp
  next
    case (ran s1 s2 rs rs' x)
    with fn [OF ran(1,3)] i show ?thesis by auto
  qed
qed

text \<open>A stage leaves the change that was staged, or the new one, which a success guarantees.\<close>

lemma stage_staged:
  assumes "stage peer expected e d = (d', r)" and "delivery_inv d" and "peer \<noteq> []"
  shows "delivery_inv d' \<and> (staged d' (ce_service e) peer = staged d (ce_service e) peer \<or> staged d' (ce_service e) peer = Some e) \<and>
    (r = Inr () \<longrightarrow> staged d' (ce_service e) peer = Some e)"
proof (cases "validate_change True e")
  case Inl
  with assms show ?thesis by (auto simp: stage_def)
next
  case (Inr u)
  then have v: "validate_change True e = Inr ()" by simp
  then obtain source where src: "revision_value (ce_source e) = Inr source" by (auto simp: validate_change_iff)
  from assms(1) v src have w: "with_state True (stage_fn peer expected source e) d = (d', r)" by (simp add: stage_def)
  note ap = stage_applies [OF v src assms(3)]
  have i: "delivery_inv d'" using with_state_cases [OF w assms(2) ap] by blast
  let ?k = "pending_name (ce_change_id e)"
  have files: "dd_pending s2 = dd_pending s1 \<and> (\<forall>y. x \<noteq> Inr y) \<or> dd_pending s2 = AList.update ?k (Inr e) (dd_pending s1)"
    if f: "stage_fn peer expected source e rs s1 = (s2, x)" for s1 s2 rs x
  proof -
    obtain us j where u: "upsert rs (ce_service e) peer = (us, j)" by (cases "upsert rs (ce_service e) peer")
    show ?thesis
    proof (cases "check_stage (us ! j) expected source e (dd_now s1)")
      case (Inl err)
      with f u show ?thesis by (auto simp: stage_fn_def Let_def)
    next
      case (Inr p)
      with f u have "bindE (durable ''write pending'' (\<lambda>s. s\<lparr>dd_pending := AList.update ?k (Inr e) (dd_pending s)\<rparr>))
        (\<lambda>_. liftE (Inr (us[j := (us ! j)\<lparr>dr_pending := Some p, dr_generation := dr_generation (us ! j) + 1\<rparr>], ()))) s1 = (s2, x)"
        by (simp add: stage_fn_def Let_def)
      then show ?thesis by (cases rule: bindE_cases) (auto dest!: durable_cases)
    qed
  qed
  have one: "staged_in rs s2 (ce_service e) peer = staged_in rs s1 (ce_service e) peer \<or> staged_in rs s2 (ce_service e) peer = Some e"
    if "stage_fn peer expected source e rs s1 = (s2, x)" for rs s1 s2 x
  proof (cases "dr_pending (find_record rs (ce_service e) peer)")
    case (Some p)
    with files [OF that] show ?thesis by (cases "pr_change_id p = ce_change_id e") (auto simp: staged_in_def)
  qed (simp add: staged_in_def)
  from w assms(2) ap show ?thesis
  proof (cases rule: with_state_staged)
    case stopped
    with i show ?thesis by auto
  next
    case (refused s1 s2 rs err)
    with one [OF refused(3)] i show ?thesis by (auto simp: staged_def opened_def)
  next
    case (ran s1 s2 rs rs' x)
    from stage_fn_cases [OF ran(3,1) v src assms(3)] obtain p where ok: "records_ok rs"
      and p: "check_stage (find_record rs (ce_service e) peer) expected source e (dd_now s1) = Inr p"
      "dr_pending (find_record rs' (ce_service e) peer) = Some p" using ran(1) by (auto simp: opened_def)
    have "pr_change_id p = ce_change_id e"
      using check_stage_Inr [OF p(1) v src find_record_valid [OF ok valid_service [OF v] assms(3)]] by blast
    with files [OF ran(3)] p(2) have "staged_in rs' s2 (ce_service e) peer = Some e" by (auto simp: staged_in_def)
    with ran(5) one [OF ran(3)] ran(1,2,4) i show ?thesis by (auto simp: staged_def opened_def)
  qed
qed

lemma acknowledge_staged:
  assumes "acknowledge peer e ack d = (d', r)" and "delivery_inv d"
  shows "delivery_inv d' \<and> (staged d' (ce_service e) peer = staged d (ce_service e) peer \<or> staged d' (ce_service e) peer = None) \<and>
    (r = Inr () \<longrightarrow> staged d' (ce_service e) peer = None)"
proof (cases "\<exists>source. revision_value (ce_source e) = Inr source \<and> with_state True (ack_fn peer source e) d = (d', r)")
  case False
  with assms show ?thesis by (cases "revision_value (ce_source e)") (auto simp: acknowledge_def split: if_splits)
next
  case True
  then obtain source where src: "revision_value (ce_source e) = Inr source"
    and w: "with_state True (ack_fn peer source e) d = (d', r)" by blast
  have i: "delivery_inv d'" using with_state_cases [OF w assms(2) ack_applies [OF src]] by blast
  have same: "s2 = s1" if "ack_fn peer source e rs s1 = (s2, x)" for rs s1 s2 x
    using that by (cases "record_index rs (ce_service e) peer")
      (auto simp: ack_fn_def bindE_def liftE_def split: if_splits sum.splits)
  from w assms(2) ack_applies [OF src] show ?thesis
  proof (cases rule: with_state_staged)
    case stopped
    with i show ?thesis by auto
  next
    case (refused s1 s2 rs err)
    with same [OF refused(3)] i show ?thesis by auto
  next
    case (ran s1 s2 rs rs' x)
    from ack_fn_cases [OF ran(3,1) src] src have "dr_pending (find_record rs' (ce_service e) peer) = None"
      by (auto simp: ack_record_def andthen_Inr_iff must_revision_iff)
    then have "staged_in rs' s2 (ce_service e) peer = None" by (simp add: staged_in_def)
    with ran(2,5) same [OF ran(3)] i show ?thesis by auto
  qed
qed

subsection \<open>The pins a lane may hold\<close>

text \<open>The pin sets the consumer's store may hold for the lane after a log: a call that failed may have
  taken effect.\<close>

definition pin_step :: "event \<Rightarrow> ref list list \<Rightarrow> ref list list" where
  "pin_step e S = (case e of EvPins roots (Inr _) \<Rightarrow> [roots] | EvPins roots (Inl _) \<Rightarrow> roots # S | _ \<Rightarrow> S)"

definition pins_after :: "ref list list \<Rightarrow> log \<Rightarrow> ref list list" where
  "pins_after S es = fold pin_step es S"

lemma pins_after_snoc [simp]: "pins_after S (es @ [e]) = pin_step e (pins_after S es)"
  by (simp add: pins_after_def)

text \<open>A consumer exports changes of its own service.\<close>

definition faithful :: "world \<Rightarrow> bool" where
  "faithful w \<longleftrightarrow> (\<forall>v2 rq es e. w_export w v2 rq es = Inr e \<longrightarrow> ce_service e = w_service w)"

definition lane_staged :: "world \<Rightarrow> lane_run \<Rightarrow> change_envelope option" where
  "lane_staged w s = staged (lr_disk s) (w_service w) (w_peer w)"

definition pinned :: "ref list list \<Rightarrow> world \<Rightarrow> lane_run \<Rightarrow> bool" where
  "pinned S w s \<longleftrightarrow> delivery_inv (lr_disk s) \<and> (\<forall>e. lane_staged w s = Some e \<longrightarrow> ce_service e = w_service w \<and>
     (\<forall>P \<in> set (pins_after S (lr_log s)). \<forall>q \<in> set (ce_artifacts e). covers P q))"

definition carrying :: "ref list list \<Rightarrow> world \<Rightarrow> lane_run \<Rightarrow> bool" where
  "carrying S w s \<longleftrightarrow> pinned S w s \<and> lane_staged w s = Some (lr_change s)"

subsection \<open>Steps that neither pin nor stage\<close>

text \<open>\<open>idle\<close> steps leave the pins and the store alone; \<open>silent\<close> ones also ask the peer for nothing it lacks.\<close>

definition plain :: "event \<Rightarrow> bool" where
  "plain e = (case e of EvPins _ _ \<Rightarrow> False | EvHave _ _ \<Rightarrow> False | _ \<Rightarrow> True)"

definition silent :: "lane_run \<Rightarrow> lane_run \<Rightarrow> bool" where
  "silent s t \<longleftrightarrow> lr_disk t = lr_disk s \<and> lr_change t = lr_change s \<and> lr_artifacts t = lr_artifacts s \<and>
     (\<exists>es. lr_log t = lr_log s @ es \<and> list_all plain es)"

definition idle :: "lane_run \<Rightarrow> lane_run \<Rightarrow> bool" where
  "idle s t \<longleftrightarrow> lr_disk t = lr_disk s \<and> lr_change t = lr_change s \<and> lr_artifacts t = lr_artifacts s \<and>
     (\<forall>S. pins_after S (lr_log t) = pins_after S (lr_log s))"

lemma idle_refl: "idle s s"
  by (simp add: idle_def)

lemma silent_refl: "silent s s"
  by (simp add: silent_def)

lemma silent_trans: "silent a b \<Longrightarrow> silent b c \<Longrightarrow> silent a c"
  by (auto simp: silent_def)

lemma plain_pins: "list_all plain es \<Longrightarrow> fold pin_step es S = S"
  by (induction es arbitrary: S) (auto simp: plain_def pin_step_def split: event.splits)

lemma silent_idle: "silent s t \<Longrightarrow> idle s t"
  by (auto simp: silent_def idle_def pins_after_def plain_pins)

lemma idle_pinned: "idle s t \<Longrightarrow> pinned S w t = pinned S w s" "idle s t \<Longrightarrow> carrying S w t = carrying S w s"
  by (simp_all add: idle_def pinned_def carrying_def lane_staged_def)

lemma silent_modify [kept]: "(\<And>s. silent s (f s)) \<Longrightarrow> keeps (silent s0) (modify f)"
  by (rule keeps_modify) (blast intro: silent_trans)

lemma silent_ask [kept]: "(\<And>r. plain (ev r)) \<Longrightarrow> keeps (silent s0) (ask reply ev)"
  by (rule keepsI) (auto simp: ask_eq silent_def)

lemma idle_modify [kept]: "(\<And>s. idle s (f s)) \<Longrightarrow> keeps (idle s0) (modify f)"
  by (rule keeps_modify) (auto simp: idle_def)

lemma idle_ask [kept]: "(\<And>r S. pin_step (ev r) S = S) \<Longrightarrow> keeps (idle s0) (ask reply ev)"
  by (rule keepsI) (auto simp: ask_eq idle_def)

lemma silent_keeps_idle:
  assumes "\<And>s0. keeps (silent s0) m"
  shows "keeps (idle s0) m"
proof (rule keepsI)
  fix s s' r assume i: "idle s0 s" and m: "m s = (s', r)"
  from silent_idle [OF keepsD [OF assms silent_refl m]] i show "idle s0 s'" by (simp add: idle_def)
qed

lemma keeps_cases [kept]:
  "\<lbrakk>\<And>x. keeps P (f x); keeps P m\<rbrakk> \<Longrightarrow> keeps P (case x' of None \<Rightarrow> m | Some x \<Rightarrow> f x)"
  "\<lbrakk>\<And>e. keeps P (g e); \<And>x. keeps P (f' x)\<rbrakk> \<Longrightarrow> keeps P (case r of Inl e \<Rightarrow> g e | Inr x \<Rightarrow> f' x)"
  "\<lbrakk>\<And>a b. keeps P (h a b)\<rbrakk> \<Longrightarrow> keeps P (case pr of (a, b) \<Rightarrow> h a b)"
  "\<lbrakk>\<And>p. keeps P (u p); \<And>e. keeps P (v e)\<rbrakk> \<Longrightarrow> keeps P (case c of Refusal p \<Rightarrow> u p | CallErr e \<Rightarrow> v e)"
  by (simp_all split: option.split sum.split prod.split call_error.split)

lemma silent_live [kept]: "keeps (silent s0) (on_live f)" "keeps (silent s0) (on_progress g)"
  unfolding on_progress_def on_live_def by (intro kept; simp add: silent_def)+

lemma silent_detect [kept]: "keeps (silent s0) (detect w)"
  unfolding detect_def Let_def by (intro kept) (simp_all add: silent_def plain_def)

lemma silent_export [kept]: "keeps (silent s0) (export w artifacts since)"
  unfolding export_def client_export_def by (intro kept) (simp_all add: plain_def)

lemma silent_observe [kept]: "keeps (silent s0) (observe_local w)" "keeps (silent s0) (observe_peer w st)"
  unfolding observe_local_def observe_peer_def by (intro kept; simp add: plain_def silent_def)+

lemma silent_probe [kept]: "keeps (silent s0) (probe w)"
  unfolding probe_def by (intro kept) (simp add: plain_def)

lemma silent_admit [kept]: "keeps (silent s0) (admit w)"
  unfolding admit_def by (intro kept) (simp add: plain_def)

lemma silent_gate [kept]: "keeps (silent s0) (gate w)"
  unfolding gate_def by (intro kept) (simp_all add: plain_def silent_def)

lemma silent_refused [kept]: "keeps (silent s0) (refused w pr)"
  unfolding refused_def by (intro kept)

lemma silent_superseded [kept]: "keeps (silent s0) (superseded w)" "keeps (silent s0) (stop_superseded w)"
  unfolding stop_superseded_def superseded_def by (intro kept; simp add: plain_def)+

lemma silent_put_parts [kept]: "keeps (silent s0) (put_parts w i have_parts ns)"
  by (induction ns) (auto intro!: kept simp: plain_def)

lemma silent_commit [kept]: "keeps (silent s0) (commit_objects w objects)"
  unfolding commit_objects_def by (intro kept) (simp_all add: plain_def silent_def)

lemma silent_drop [kept]: "keeps (silent s0) (drop_shared w dropped)"
  unfolding drop_shared_def by (intro kept) (simp add: plain_def)

lemma silent_release [kept]: "keeps (silent s0) (release_shared k committed)"
  by (rule keepsI) (auto simp: release_shared_def silent_def split: prod.splits)

lemma silent_send [kept]: "keeps (silent s0) (send w objects)"
proof (rule keepsI)
  fix s s' r assume i: "silent s0 s" and b: "send w objects s = (s', r)"
  let ?k = "shared_key_for (w_service w) objects" and ?s = "s\<lparr>lr_batches := hold_batch (shared_key_for (w_service w) objects) (lr_batches s)\<rparr>"
  obtain s1 x where c: "commit_objects w objects ?s = (s1, x)" by (cases "commit_objects w objects ?s")
  have "silent s0 ?s" using i by (simp add: silent_def)
  from keepsD [OF silent_commit this c] have i1: "silent s0 s1" .
  have rel: "keeps (silent s0) (bindE (release_shared ?k j) (drop_shared w))" for j by (intro kept)
  have late: "keeps (silent s0) (bindE (superseded w) (\<lambda>late. raise (if late then Fault ErrSuperseded else e)) :: unit act)" for e
    by (intro kept)
  obtain s2 y where d: "bindE (release_shared ?k (case x of Inl _ \<Rightarrow> [] | Inr j \<Rightarrow> j)) (drop_shared w) s1 = (s2, y)" by fastforce
  note i2 = keepsD [OF rel i1 d]
  show "silent s0 s'"
  proof (cases x)
    case (Inl err)
    with b c d have "s' = s2" by (simp add: send_def Let_def)
    with i2 show ?thesis by simp
  next
    case (Inr j)
    show ?thesis
    proof (cases y)
      case (Inl cleanup)
      with b c d Inr have "bindE (superseded w) (\<lambda>late. raise (if late then Fault ErrSuperseded else cleanup)) s2 = (s', r)"
        by (simp add: send_def Let_def)
      from keepsD [OF late i2 this] show ?thesis .
    next
      case (Inr u)
      with b c d \<open>x = Inr j\<close> i2 show ?thesis by (simp add: send_def Let_def)
    qed
  qed
qed

lemma silent_apply_v2 [kept]: "keeps (silent s0) (apply_v2 w)"
  unfolding apply_v2_def by (intro kept) (simp add: plain_def)

lemma silent_flush [kept]: "keeps (silent s0) (flush w b)"
  unfolding flush_def by (intro kept)

lemma silent_send_page [kept]: "keeps (silent s0) (send_page w roots missing xs b)"
proof (induction xs arbitrary: b)
  case (Cons x xs)
  show ?case unfolding send_page.simps Let_def by (intro kept Cons.IH)
qed (simp add: kept)

lemmas idle_silent [kept] = silent_live [THEN silent_keeps_idle]
  silent_detect [THEN silent_keeps_idle]
  silent_export [THEN silent_keeps_idle]
  silent_observe [THEN silent_keeps_idle]
  silent_probe [THEN silent_keeps_idle]
  silent_admit [THEN silent_keeps_idle]
  silent_gate [THEN silent_keeps_idle]
  silent_refused [THEN silent_keeps_idle]
  silent_superseded [THEN silent_keeps_idle]
  silent_put_parts [THEN silent_keeps_idle]
  silent_commit [THEN silent_keeps_idle]
  silent_drop [THEN silent_keeps_idle]
  silent_release [THEN silent_keeps_idle]
  silent_send [THEN silent_keeps_idle]
  silent_apply_v2 [THEN silent_keeps_idle]
  silent_flush [THEN silent_keeps_idle]
  silent_send_page [THEN silent_keeps_idle]

lemma idle_enumerate [kept]: "keeps (idle s0) (enumerate_pages n w roots after)"
proof (induction n arbitrary: after)
  case (Suc n)
  show ?case unfolding enumerate_pages.simps send_objects_def missing_of_def
    by (intro kept Suc.IH) (simp_all add: pin_step_def)
qed (simp add: kept)

lemma idle_transfer [kept]: "keeps (idle s0) (transfer n w)"
proof -
  have "keeps (idle s0) (\<lambda>s. case enumerate_pages n w roots 0 s of
       (s1, Inl err) \<Rightarrow> (s1, Inl (if err = NoReturn then err
            else case watch_local (lr_admitted_local s1) (w_watched w (lr_log s1)) of Some p \<Rightarrow> p | None \<Rightarrow> err))
     | (s1, Inr _) \<Rightarrow> (s1, Inr () :: deliver_error + unit))" for roots
    by (rule keepsI) (auto split: prod.splits sum.splits dest: keepsD [OF idle_enumerate])
  then show ?thesis unfolding transfer_def by (intro kept)
qed

lemma idle_apply_once [kept]: "keeps (idle s0) (apply_once w)" "keeps (idle s0) set_applying"
  unfolding apply_once_def set_applying_def by (intro kept; simp add: pin_step_def)+

lemma idle_step:
  assumes "\<And>s0. keeps (idle s0) m" and "m s = (s', r)"
  shows "idle s s'"
  by (rule keepsD [OF assms(1) idle_refl assms(2)])

lemma keeps_idle: "(\<And>s0. keeps (idle s0) m) \<Longrightarrow> keeps (pinned S w) m" "(\<And>s0. keeps (idle s0) m) \<Longrightarrow> keeps (carrying S w) m"
  by (rule keepsI; use idle_step idle_pinned in blast)+

subsection \<open>Pinning and staging\<close>

lemma pins_set_cases:
  assumes "pins_set w roots s = (s', x)"
  shows "lr_disk s' = lr_disk s \<and> lr_change s' = lr_change s \<and> lr_artifacts s' = lr_artifacts s \<and>
    set (pins_after S (lr_log s')) \<subseteq> insert roots (set (pins_after S (lr_log s))) \<and>
    (x = Inr () \<longrightarrow> pins_after S (lr_log s') = [roots])"
  using assms unfolding pins_set_def tried_def
  by (cases rule: bindE_cases)
    (auto simp: ask_eq pin_step_def fault_def split: sum.splits)

definition same_lane :: "world \<Rightarrow> lane_run \<Rightarrow> lane_run \<Rightarrow> bool" where
  "same_lane w s t \<longleftrightarrow> lane_staged w t = lane_staged w s \<and> lr_change t = lr_change s \<and> lr_artifacts t = lr_artifacts s"

lemma idle_same_lane: "idle s t \<Longrightarrow> same_lane w s t"
  by (simp add: idle_def same_lane_def lane_staged_def)

text \<open>Pins that cover what is staged may replace the ones before.\<close>

lemma pins_set_pinned:
  assumes "pins_set w roots s = (s', x)" and "pinned S w s"
    and "\<And>e q. lane_staged w s = Some e \<Longrightarrow> q \<in> set (ce_artifacts e) \<Longrightarrow> covers roots q"
  shows "pinned S w s' \<and> same_lane w s s'"
proof -
  from pins_set_cases [OF assms(1), of S] have "lr_disk s' = lr_disk s" "lr_change s' = lr_change s" "lr_artifacts s' = lr_artifacts s"
    "\<forall>P \<in> set (pins_after S (lr_log s')). P = roots \<or> P \<in> set (pins_after S (lr_log s))" by auto
  with assms(2,3) show ?thesis unfolding pinned_def lane_staged_def same_lane_def by metis
qed

lemma settle_pins_idle: "settle_pins i s = (s', r) \<Longrightarrow> idle s s'" "unsettle_pins s = (s', r) \<Longrightarrow> idle s s'"
  by (auto simp: settle_pins_def unsettle_pins_def modify_def idle_def)

lemma on_disk_cases:
  assumes "on_disk w m s = (s', r)"
  obtains d x where "m ((lr_disk s)\<lparr>dd_now := w_now w (lr_log s)\<rparr>) = (d, x)" "lr_disk s' = d" "r = fault x"
    "lr_change s' = lr_change s" "lr_artifacts s' = lr_artifacts s" "pins_after S (lr_log s') = pins_after S (lr_log s)"
  using assms by (auto simp: on_disk_def pin_step_def split: prod.splits)

lemma fault_Inr: "fault x = Inr y \<longleftrightarrow> x = Inr y" "Inr y = fault x \<longleftrightarrow> x = Inr y"
  by (cases x; auto simp add: fault_def)+

lemma export_named:
  assumes "export w artifacts since s = (s', Inr e)" and "faithful w"
  shows "ce_service e = w_service w \<and> (\<not> artifacts \<longrightarrow> ce_artifacts e = [])"
  using assms unfolding export_def client_export_def tried_def
  by (auto elim!: bindE_cases simp: ask_eq faithful_def fault_Inr refuse_artifacts_def raise_def split: if_splits)

lemma bind_delivery_named:
  "bind_delivery e origin = Inr b \<Longrightarrow> ce_service b = ce_service e \<and> ce_artifacts b = ce_artifacts e \<and> validate_roots (ce_artifacts b) = Inr ()"
  by (auto simp: bind_delivery_def andthen_Inr_iff Let_def validate_change_iff split: if_splits)

lemma pins_settled:
  assumes "bindE (pins_set w roots) (\<lambda>_. settle_pins i) s = (s', r)" and "pinned S w s"
    and "\<And>e q. lane_staged w s = Some e \<Longrightarrow> q \<in> set (ce_artifacts e) \<Longrightarrow> covers roots q"
  shows "pinned S w s' \<and> same_lane w s s'"
  using assms(1)
proof (cases rule: bindE_cases)
  case (error e)
  from pins_set_pinned [OF error(1) assms(2,3)] show ?thesis by simp
next
  case (next_step s1 x)
  from pins_set_pinned [OF next_step(1) assms(2,3)] have "pinned S w s1" "same_lane w s s1" by auto
  moreover note i = settle_pins_idle(1) [OF next_step(2)]
  ultimately show ?thesis using idle_pinned(1) [OF i, of S w] idle_same_lane [OF i, of w] by (simp add: same_lane_def)
qed

text \<open>Replacing what is staged pins old and new roots before, and the new ones alone after.\<close>

lemma pins_widened:
  assumes "(if artifacts then bindE unsettle_pins (\<lambda>_. pins_set w roots) else liftE (Inr ())) s = (s', r)" and "pinned S w s"
    and "\<And>e q. lane_staged w s = Some e \<Longrightarrow> q \<in> set (ce_artifacts e) \<Longrightarrow> covers roots q"
  shows "pinned S w s' \<and> same_lane w s s' \<and> (artifacts \<and> r = Inr () \<longrightarrow> pins_after S (lr_log s') = [roots])"
proof (cases artifacts)
  case True
  with assms(1) obtain s0 where s0: "unsettle_pins s = (s0, Inr ())" "pins_set w roots s0 = (s', r)"
    by (simp add: unsettle_pins_def modify_def bindE_def [of "modify _"] bindE_def [of "\<lambda>s. (_ s, _)"])
  note i = settle_pins_idle(2) [OF s0(1)]
  from idle_pinned(1) [OF i, of S w] idle_same_lane [OF i, of w] assms(2) have "pinned S w s0" "same_lane w s s0" by auto
  with pins_set_pinned [OF s0(2)] assms(3) pins_set_cases [OF s0(2), of S] show ?thesis by (simp add: same_lane_def)
qed (use assms(1,2) in \<open>simp add: same_lane_def\<close>)

lemma stage_pinned:
  assumes "on_disk w (stage (w_peer w) expected bound) s = (s', r)" and "pinned S w s" and "w_peer w \<noteq> []"
    and "ce_service bound = w_service w"
    and "\<And>P q. P \<in> set (pins_after S (lr_log s)) \<Longrightarrow> q \<in> set (ce_artifacts bound) \<Longrightarrow> covers P q"
  shows "pinned S w s' \<and> lr_artifacts s' = lr_artifacts s \<and> (r = Inr () \<longrightarrow> lane_staged w s' = Some bound)"
proof -
  from on_disk_cases [OF assms(1)] obtain d y where d: "stage (w_peer w) expected bound ((lr_disk s)\<lparr>dd_now := w_now w (lr_log s)\<rparr>) = (d, y)"
    "lr_disk s' = d" "r = fault y" "lr_artifacts s' = lr_artifacts s" "pins_after S (lr_log s') = pins_after S (lr_log s)" by metis
  have "delivery_inv ((lr_disk s)\<lparr>dd_now := w_now w (lr_log s)\<rparr>)" using assms(2) by (simp add: pinned_def)
  from stage_staged [OF d(1) this assms(3)] assms(4) d(2,3)
  have st: "delivery_inv (lr_disk s')" "lane_staged w s' = lane_staged w s \<or> lane_staged w s' = Some bound"
    "r = Inr () \<longrightarrow> lane_staged w s' = Some bound" by (auto simp: lane_staged_def fault_Inr)
  have "ce_service e = w_service w \<and> (\<forall>P \<in> set (pins_after S (lr_log s')). \<forall>q \<in> set (ce_artifacts e). covers P q)"
    if e: "lane_staged w s' = Some e" for e
  proof (cases "lane_staged w s' = lane_staged w s")
    case True
    with e assms(2) d(5) show ?thesis by (simp add: pinned_def)
  next
    case False
    with st(2) e have "e = bound" by simp
    with assms(4,5) d(5) show ?thesis by simp
  qed
  with st d(4) show ?thesis by (simp add: pinned_def)
qed

lemma replace_pinned:
  assumes "replace w artifacts expected old fresh s = (s', r)" and "pinned S w s" and "w_peer w \<noteq> []"
    and "ce_service fresh = w_service w" "\<not> artifacts \<longrightarrow> ce_artifacts fresh = []"
    and "\<And>e. lane_staged w s = Some e \<Longrightarrow> set (ce_artifacts e) \<subseteq> set old"
  shows "pinned S w s' \<and> lr_artifacts s' = lr_artifacts s \<and> (\<forall>b. r = Inr b \<longrightarrow> lane_staged w s' = Some b)"
proof (cases "bind_delivery fresh (w_self w)")
  case (Inl err)
  with assms(1,2) show ?thesis by (auto simp: replace_def fault_def)
next
  case (Inr bound)
  from bind_delivery_named [OF this] assms(4,5) have b: "ce_service bound = w_service w" "\<not> artifacts \<longrightarrow> ce_artifacts bound = []"
    "distinct (map r_digest (ce_artifacts bound))" by (auto simp: validate_roots_iff)
  let ?union = "union_roots old (ce_artifacts bound)"
  have u: "covers ?union q" if "q \<in> set old \<or> q \<in> set (ce_artifacts bound)" for q
    using union_roots_facts [OF b(3), of old] that covers_self by blast
  have uo: "covers ?union q" if "lane_staged w s = Some e" "q \<in> set (ce_artifacts e)" for e q
    using u assms(6) [OF that(1)] that(2) by blast
  let ?A = "if artifacts then bindE unsettle_pins (\<lambda>_. pins_set w ?union) else liftE (Inr ())"
  let ?B = "on_disk w (stage (w_peer w) expected bound)"
  let ?C = "if artifacts then bindE (pins_set w (ce_artifacts bound)) (\<lambda>_. settle_pins (ce_change_id bound)) else liftE (Inr ())"
  from assms(1) Inr have "bindE ?A (\<lambda>_. bindE ?B (\<lambda>_. bindE ?C (\<lambda>_. liftE (Inr bound)))) s = (s', r)"
    by (simp add: replace_def fault_def)
  then show ?thesis
  proof (cases rule: bindE_cases)
    case (error e)
    with pins_widened [OF error(1) assms(2) uo] show ?thesis by (simp add: same_lane_def)
  next
    case 1: (next_step s1 x1)
    from pins_widened [OF 1(1) assms(2) uo] have s1: "pinned S w s1" "same_lane w s s1"
      "artifacts \<longrightarrow> pins_after S (lr_log s1) = [?union]" by auto
    have c: "covers P q" if "P \<in> set (pins_after S (lr_log s1))" "q \<in> set (ce_artifacts bound)" for P q
      using that s1(3) b(2) u by (cases artifacts) auto
    from 1(2) show ?thesis
    proof (cases rule: bindE_cases)
      case (error e)
      with stage_pinned [OF error(1) s1(1) assms(3) b(1) c] s1(2) show ?thesis by (simp add: same_lane_def)
    next
      case 2: (next_step s2 x2)
      from stage_pinned [OF 2(1) s1(1) assms(3) b(1) c] s1(2)
      have s2: "pinned S w s2" "lane_staged w s2 = Some bound" "lr_artifacts s2 = lr_artifacts s" by (auto simp: same_lane_def)
      obtain s3 x3 where c3: "?C s2 = (s3, x3)" by (cases "?C s2")
      have s3: "pinned S w s3 \<and> same_lane w s2 s3"
      proof (cases artifacts)
        case True
        with c3 have "bindE (pins_set w (ce_artifacts bound)) (\<lambda>_. settle_pins (ce_change_id bound)) s2 = (s3, x3)" by simp
        from pins_settled [OF this s2(1)] s2(2) covers_self show ?thesis by simp
      qed (use c3 s2 in \<open>simp add: same_lane_def\<close>)
      from 2(2) c3 have "s' = s3 \<and> (\<forall>b. r = Inr b \<longrightarrow> b = bound)" by (cases x3) (auto simp: bindE_def [of ?C])
      with s3 s2 show ?thesis by (auto simp: same_lane_def)
    qed
  qed
qed

subsection \<open>An attempt\<close>

definition prepared :: "world \<Rightarrow> lane_run \<Rightarrow> deliver_error + (bool \<times> change_envelope option) \<Rightarrow> bool" where
  "prepared w s r \<longleftrightarrow> (\<forall>a e. r = Inr (a, Some e) \<longrightarrow> lane_staged w s = Some e)"

lemma reconcile_pinned:
  assumes "reconcile_pins w artifacts pending s = (s', r)" and "pinned S w s" and "lane_staged w s = pending"
  shows "pinned S w s' \<and> same_lane w s s'"
proof -
  let ?id = "case pending of None \<Rightarrow> [] | Some e \<Rightarrow> ce_change_id e" and ?roots = "case pending of None \<Rightarrow> [] | Some e \<Rightarrow> ce_artifacts e"
  let ?settled = "\<not> artifacts \<or> lr_pins_settled s \<and> lr_pinned_for s = ?id"
  have "(if ?settled then liftE (Inr ()) else bindE (pins_set w ?roots) (\<lambda>_. settle_pins ?id)) s = (s', r)"
    using assms(1) by (simp only: reconcile_pins_def bind_gets Let_def)
  then consider "s' = s" | "bindE (pins_set w ?roots) (\<lambda>_. settle_pins ?id) s = (s', r)" by (cases ?settled) auto
  then show ?thesis
  proof cases
    case 2
    from pins_settled [OF this assms(2)] assms(3) covers_self show ?thesis by simp
  qed (use assms(2) in \<open>simp add: same_lane_def\<close>)
qed

lemma replace_prepared:
  assumes "bindE (replace w artifacts expected old fresh) (\<lambda>bound. liftE (Inr (artifacts, Some bound))) s = (s', r)"
    and "pinned S w s" "w_peer w \<noteq> []" "ce_service fresh = w_service w" "\<not> artifacts \<longrightarrow> ce_artifacts fresh = []"
    and "\<And>e. lane_staged w s = Some e \<Longrightarrow> set (ce_artifacts e) \<subseteq> set old"
  shows "pinned S w s' \<and> prepared w s' r"
  using assms(1)
proof (cases rule: bindE_cases)
  case (error e)
  with replace_pinned [OF error(1) assms(2-6)] show ?thesis by (simp add: prepared_def)
next
  case (next_step s1 b)
  with replace_pinned [OF next_step(1) assms(2-6)] show ?thesis by (simp add: prepared_def)
qed

text \<open>The last part of \<^verbatim>\<open>prepare\<close>, once the revisions are known.\<close>

lemma prepare_tail:
  fixes source acked floor :: nat
  assumes "(if source < floor then raise (Fault ErrSourceRegressed)
       else case pending of
         None \<Rightarrow>
           if source = acked then bindE (reconcile_pins w artifacts None) (\<lambda>_. liftE (Inr (artifacts, None)))
           else bindE (replace w artifacts [] [] fresh) (\<lambda>bound. liftE (Inr (artifacts, Some bound)))
       | Some p \<Rightarrow>
           if source = floor then bindE (reconcile_pins w artifacts (Some p)) (\<lambda>_. liftE (Inr (artifacts, Some p)))
           else bindE (if ce_kind fresh \<noteq> ChangeSnapshot then export w artifacts (new_revision 0) else liftE (Inr fresh)) (\<lambda>full.
             bindE (replace w artifacts (ce_change_id p) (ce_artifacts p) full) (\<lambda>bound.
               liftE (Inr (artifacts, Some bound))))) s = (s', r)"
    and "pinned S w s" "w_peer w \<noteq> []" "faithful w" "lane_staged w s = pending"
    and "ce_service fresh = w_service w \<and> (\<not> artifacts \<longrightarrow> ce_artifacts fresh = [])"
  shows "pinned S w s' \<and> prepared w s' r"
proof -
  have rec: "pinned S w s' \<and> prepared w s' r"
    if "bindE (reconcile_pins w artifacts pending) (\<lambda>_. liftE (Inr (artifacts, pending))) s = (s', r)"
    using that
  proof (cases rule: bindE_cases)
    case (error e)
    with reconcile_pinned [OF error(1) assms(2,5)] show ?thesis by (simp add: prepared_def)
  next
    case (next_step s1 u)
    with reconcile_pinned [OF next_step(1) assms(2,5)] assms(5) show ?thesis by (simp add: prepared_def same_lane_def)
  qed
  show ?thesis
  proof (cases "source < floor")
    case True
    with assms(1,2) show ?thesis by (auto simp: raise_def prepared_def)
  next
    case False
    show ?thesis
    proof (cases pending)
      case None
      with False assms(1,5,6) rec replace_prepared [OF _ assms(2,3), of artifacts "[]" "[]" fresh s' r] show ?thesis
        by (auto split: if_splits)
    next
      case (Some p)
      show ?thesis
      proof (cases "source = floor")
        case True
        with Some assms(1) rec show ?thesis by simp
      next
        case ne: False
        let ?m = "if ce_kind fresh \<noteq> ChangeSnapshot then export w artifacts (new_revision 0) else liftE (Inr fresh)"
        from assms(1) Some ne False have "bindE ?m (\<lambda>full. bindE (replace w artifacts (ce_change_id p) (ce_artifacts p) full)
            (\<lambda>bound. liftE (Inr (artifacts, Some bound)))) s = (s', r)" by simp
        then show ?thesis
        proof (cases rule: bindE_cases)
          case (error e)
          have "idle s s'" by (rule idle_step [where m = ?m, OF _ error(1)]) (intro kept)
          with assms(2) error(2) idle_pinned(1) show ?thesis by (simp add: prepared_def)
        next
          case (next_step s1 full)
          have i: "idle s s1" by (rule idle_step [where m = ?m, OF _ next_step(1)]) (intro kept)
          have f: "ce_service full = w_service w \<and> (\<not> artifacts \<longrightarrow> ce_artifacts full = [])"
            using next_step(1) export_named [OF _ assms(4)] assms(6) by (cases "ce_kind fresh \<noteq> ChangeSnapshot") auto
          from idle_same_lane [OF i, of w] assms(5) Some have st: "lane_staged w s1 = Some p" by (simp add: same_lane_def)
          show ?thesis
            by (rule replace_prepared [OF next_step(2) _ assms(3)]) (use i idle_pinned(1) assms(2) f st in auto)
        qed
      qed
    qed
  qed
qed

lemma bind_lift:
  assumes "bindE (liftE x) k s = (s', r)"
  obtains (error) e where "x = Inl e" "s' = s" "r = Inl e" | (step) y where "x = Inr y" "k y s = (s', r)"
  using assms by (cases x) auto

lemma prepare_pinned:
  assumes "prepare w s = (s', r)" and "pinned S w s" "w_peer w \<noteq> []" "faithful w"
  shows "pinned S w s' \<and> prepared w s' r"
  using assms(1) unfolding prepare_def
proof (cases rule: bindE_cases)
  case (error e)
  have "idle s s'" by (rule idle_step [where m = "detect w", OF _ error(1)]) (intro kept)
  with error(2) assms(2) idle_pinned(1) show ?thesis by (simp add: prepared_def)
next
  case 1: (next_step s1 artifacts)
  have "idle s s1" by (rule idle_step [where m = "detect w", OF _ 1(1)]) (intro kept)
  then have p1: "pinned S w s1" using assms(2) idle_pinned(1) by blast
  have ld: "pinned S w s2 \<and> (\<forall>q c. x = Inr (q, c) \<longrightarrow> c = lane_staged w s2)"
    if "on_disk w (load (w_service w) (w_peer w)) s1 = (s2, x)" for s2 x
  proof -
    from on_disk_cases [OF that] obtain d y where d: "load (w_service w) (w_peer w) ((lr_disk s1)\<lparr>dd_now := w_now w (lr_log s1)\<rparr>) = (d, y)"
      "lr_disk s2 = d" "x = fault y" "pins_after S (lr_log s2) = pins_after S (lr_log s1)" by metis
    have "delivery_inv ((lr_disk s1)\<lparr>dd_now := w_now w (lr_log s1)\<rparr>)" using p1 by (simp add: pinned_def)
    from load_staged [OF d(1) this] d p1 show ?thesis by (auto simp: pinned_def lane_staged_def fault_Inr)
  qed
  from 1(2) show ?thesis
  proof (cases rule: bindE_cases)
    case (error e)
    with ld [OF error(1)] show ?thesis by (simp add: prepared_def)
  next
    case 2: (next_step s2 rp)
    obtain row pending where rp: "rp = (row, pending)" by (cases rp)
    from ld [OF 2(1)] rp have p2: "pinned S w s2" "lane_staged w s2 = pending" by auto
    note k2 = 2(2) [unfolded rp prod.case]
    from k2 show ?thesis
    proof (cases rule: bindE_cases)
      case (error e)
      have "idle s2 s'" by (rule idle_step [where m = "export w artifacts (dr_acked row)", OF _ error(1)]) (intro kept)
      with error(2) p2 idle_pinned(1) show ?thesis by (simp add: prepared_def)
    next
      case 3: (next_step s3 fresh)
      have i: "idle s2 s3" by (rule idle_step [where m = "export w artifacts (dr_acked row)", OF _ 3(1)]) (intro kept)
      then have p3: "pinned S w s3" "lane_staged w s3 = pending"
        using p2 idle_pinned(1) idle_same_lane [OF i, of w] by (auto simp: same_lane_def)
      note f = export_named [OF 3(1) assms(4)]
      note stop = p3(1)
      from 3(2) show ?thesis
      proof (cases rule: bind_lift)
        case 4: (step source)
        from 4(2) show ?thesis
        proof (cases rule: bind_lift)
          case 5: (step acked)
          from 5(2) show ?thesis
          proof (cases rule: bind_lift)
            case 6: (step floor)
            from prepare_tail [OF 6(2) p3(1) assms(3,4) p3(2) f] show ?thesis .
          qed (use stop in \<open>simp add: prepared_def\<close>)
        qed (use stop in \<open>simp add: prepared_def\<close>)
      qed (use stop in \<open>simp add: prepared_def\<close>)
    qed
  qed
qed

text \<open>What a step does to a lane that carries the staged change.\<close>

lemma carrying_pinned: "carrying S w s \<Longrightarrow> pinned S w s"
  by (simp add: carrying_def)

lemma bind_carrying:
  assumes "bindE m k s = (s', r)" and "carrying S w s" and "\<And>s0. keeps (idle s0) m"
  obtains (error) e where "carrying S w s'" "r = Inl e" | (step) s1 x where "carrying S w s1" "m s = (s1, Inr x)" "k x s1 = (s', r)"
proof -
  from assms(1) show ?thesis
  proof (cases rule: bindE_cases)
    case (error e)
    from idle_step [where m = m, OF assms(3) error(1)] assms(2) idle_pinned(2) have "carrying S w s'" by blast
    with error(2) that(1) show ?thesis by blast
  next
    case (next_step s1 x)
    from idle_step [where m = m, OF assms(3) next_step(1)] assms(2) idle_pinned(2) have "carrying S w s1" by blast
    with next_step that(2) show ?thesis by blast
  qed
qed

lemma resend_full_pinned:
  assumes "resend_full n w s = (s', r)" and "carrying S w s" "w_peer w \<noteq> []" "faithful w"
  shows "pinned S w s' \<and> (\<forall>x. r = Inr x \<longrightarrow> carrying S w s')"
proof -
  let ?a = "lr_artifacts s" and ?e = "lr_change s"
  let ?t = "if ?a then bindE (transfer n w) (\<lambda>_. set_applying) else liftE (Inr ())"
  let ?rest = "bindE ?t (\<lambda>_. bindE (apply_once w) (\<lambda>ack.
       if ar_need_snapshot ack then raise (Fault (ErrMsg ''peer refused the full snapshot'')) else liftE (Inr ack)))"
  from assms(1) have "bindE (export w ?a (new_revision 0)) (\<lambda>full. bindE (gets lr_change) (\<lambda>e.
      bindE (replace w ?a (ce_change_id e) (ce_artifacts e) full) (\<lambda>bound.
      bindE (modify (\<lambda>s. s\<lparr>lr_change := bound\<rparr>)) (\<lambda>_. ?rest)))) s = (s', r)"
    by (simp only: resend_full_def bind_gets)
  then show ?thesis
  proof (cases rule: bindE_cases)
    case (error e)
    have "idle s s'" by (rule idle_step [where m = "export w ?a (new_revision 0)", OF _ error(1)]) (intro kept)
    with error(2) assms(2) idle_pinned(1) carrying_pinned show ?thesis by blast
  next
    case 1: (next_step s1 full)
    have i: "idle s s1" by (rule idle_step [where m = "export w ?a (new_revision 0)", OF _ 1(1)]) (intro kept)
    then have c1: "carrying S w s1" "lr_change s1 = ?e" using assms(2) idle_pinned(2) by (auto simp: idle_def)
    note f = export_named [OF 1(1) assms(4)]
    from 1(2) c1(2) have "bindE (replace w ?a (ce_change_id ?e) (ce_artifacts ?e) full) (\<lambda>bound.
        bindE (modify (\<lambda>s. s\<lparr>lr_change := bound\<rparr>)) (\<lambda>_. ?rest)) s1 = (s', r)" by (simp only: bind_gets)
    then show ?thesis
    proof (cases rule: bindE_cases)
      case (error e)
      with replace_pinned [OF error(1) carrying_pinned [OF c1(1)] assms(3)] f c1 show ?thesis by (auto simp: carrying_def)
    next
      case 2: (next_step s2 bound)
      from replace_pinned [OF 2(1) carrying_pinned [OF c1(1)] assms(3)] f c1
      have s2: "pinned S w s2" "lane_staged w s2 = Some bound" by (auto simp: carrying_def)
      let ?s3 = "s2\<lparr>lr_change := bound\<rparr>"
      have c3: "carrying S w ?s3" using s2 by (simp add: carrying_def pinned_def lane_staged_def)
      have rest: "?rest ?s3 = (s', r)" using 2(2) by (simp add: bindE_def [of "modify _"] modify_def)
      have "keeps (idle s0) ?rest" for s0 by (intro kept)
      from idle_step [where m = ?rest, OF this rest] c3 idle_pinned(2) carrying_pinned show ?thesis by blast
    qed
  qed
qed

text \<open>The end of an attempt: the acknowledgement clears what is staged before the pins go.\<close>

lemma acknowledge_pinned:
  assumes "bindE (on_disk w (acknowledge (w_peer w) e ack)) (\<lambda>_. bindE (gets lr_artifacts) (\<lambda>artifacts.
       if artifacts then bindE unsettle_pins (\<lambda>_. bindE (pins_set w []) (\<lambda>_. settle_pins [])) else liftE (Inr ()))) s = (s', r)"
    and "carrying S w s" "e = lr_change s"
  shows "pinned S w s'"
proof -
  let ?u = "if lr_artifacts s then bindE unsettle_pins (\<lambda>_. bindE (pins_set w []) (\<lambda>_. settle_pins [])) else liftE (Inr ())"
  have sv: "ce_service e = w_service w" using assms(2,3) by (auto simp: carrying_def pinned_def)
  have ack: "pinned S w t \<and> lr_artifacts t = lr_artifacts s \<and> (x = Inr () \<longrightarrow> lane_staged w t = None)"
    if "on_disk w (acknowledge (w_peer w) e ack) s = (t, x)" for t x
  proof -
    from on_disk_cases [OF that] obtain d y where d: "acknowledge (w_peer w) e ack ((lr_disk s)\<lparr>dd_now := w_now w (lr_log s)\<rparr>) = (d, y)"
      "lr_disk t = d" "x = fault y" "lr_artifacts t = lr_artifacts s" "pins_after S (lr_log t) = pins_after S (lr_log s)" by metis
    have "delivery_inv ((lr_disk s)\<lparr>dd_now := w_now w (lr_log s)\<rparr>)" using assms(2) by (simp add: carrying_def pinned_def)
    from acknowledge_staged [OF d(1) this] d sv
    have "delivery_inv (lr_disk t)" "lane_staged w t = lane_staged w s \<or> lane_staged w t = None"
      "x = Inr () \<longrightarrow> lane_staged w t = None" by (auto simp: lane_staged_def fault_Inr)
    with assms(2) d(4,5) show ?thesis by (auto simp: carrying_def pinned_def)
  qed
  from assms(1) show ?thesis
  proof (cases rule: bindE_cases)
    case (error e)
    with ack show ?thesis by blast
  next
    case (next_step t x)
    with ack [OF next_step(1)] have t: "pinned S w t" "lane_staged w t = None" "lr_artifacts t = lr_artifacts s" by auto
    with next_step(2) have u: "?u t = (s', r)" by (simp only: bind_gets)
    show ?thesis
    proof (cases "lr_artifacts s")
      case True
      with u obtain t1 where t1: "unsettle_pins t = (t1, Inr ())" "bindE (pins_set w []) (\<lambda>_. settle_pins []) t1 = (s', r)"
        by (simp add: unsettle_pins_def modify_def bindE_def [of "modify _"] bindE_def [of "\<lambda>s. (_ s, _)"])
      from settle_pins_idle(2) [OF t1(1)] have i: "idle t t1" .
      from pins_settled [OF t1(2), of S] t idle_pinned(1) [OF i] idle_same_lane [OF i, of w] show ?thesis
        by (simp add: same_lane_def)
    qed (use u t in simp)
  qed
qed

lemma apply_change_pinned:
  assumes "apply_change n w s = (s', r)" and "carrying S w s" "w_peer w \<noteq> []" "faithful w"
  shows "pinned S w s'"
proof -
  have k: "keeps (idle s0) set_applying" "keeps (idle s0) (apply_once w)" for s0 by (intro kept)+
  from assms(1,2) k(1) show ?thesis unfolding apply_change_def
  proof (cases rule: bind_carrying)
    case error
    then show ?thesis by (simp add: carrying_pinned)
  next
    case 1: (step s1 u)
    from 1(3,1) k(2) show ?thesis
    proof (cases rule: bind_carrying)
      case error
      then show ?thesis by (simp add: carrying_pinned)
    next
      case 2: (step s2 ack0)
      let ?m = "if ar_need_snapshot ack0 then resend_full n w else liftE (Inr ack0)"
      have m: "pinned S w t \<and> (\<forall>x. q = Inr x \<longrightarrow> carrying S w t)" if "?m s2 = (t, q)" for t q
        using that resend_full_pinned [OF _ 2(1) assms(3,4)] 2(1) carrying_pinned by (cases "ar_need_snapshot ack0") auto
      from 2(3) show ?thesis
      proof (cases rule: bindE_cases)
        case (error e)
        with m show ?thesis by blast
      next
        case 3: (next_step s3 ack1)
        from m [OF 3(1)] have c3: "carrying S w s3" by blast
        from 3(2) have "bindE (liftE (settle_ack (lr_change s3) ack1)) (\<lambda>ack. bindE (on_disk w (acknowledge (w_peer w) (lr_change s3) ack))
          (\<lambda>_. bindE (gets lr_artifacts) (\<lambda>artifacts. if artifacts then bindE unsettle_pins (\<lambda>_. bindE (pins_set w []) (\<lambda>_. settle_pins []))
            else liftE (Inr ())))) s3 = (s', r)" by (simp only: bind_gets)
        then show ?thesis
        proof (cases rule: bind_lift)
          case (step ack)
          from acknowledge_pinned [OF step(2) c3] show ?thesis by simp
        qed (use c3 carrying_pinned in blast)
      qed
    qed
  qed
qed

lemma deliver_pending_pinned:
  assumes "deliver_pending n w s = (s', r)" and "pinned S w s" "w_peer w \<noteq> []" "faithful w"
  shows "pinned S w s'"
  using assms(1) unfolding deliver_pending_def
proof (cases rule: bindE_cases)
  case (error e)
  with prepare_pinned [OF error(1) assms(2-4)] show ?thesis by simp
next
  case (next_step s1 x)
  obtain artifacts pending where x: "x = (artifacts, pending)" by (cases x)
  from prepare_pinned [OF next_step(1) assms(2-4)] have s1: "pinned S w s1" "prepared w s1 (Inr x)" by auto
  show ?thesis
  proof (cases pending)
    case None
    with next_step(2) x s1 show ?thesis by simp
  next
    case (Some e)
    let ?s2 = "start_run artifacts e s1"
    let ?m = "if artifacts then bindE (gate w) (\<lambda>_. transfer n w) else liftE (Inr ())"
    have c: "carrying S w ?s2" using s1 x Some
      by (simp add: carrying_def prepared_def pinned_def lane_staged_def start_run_def)
    from next_step(2) x Some have b: "bindE ?m (\<lambda>_. apply_change n w) ?s2 = (s', r)" by (simp add: modify_def bindE_def [of "modify _"])
    have k: "keeps (idle s0) ?m" for s0 by (intro kept)
    from b c k show ?thesis
    proof (cases rule: bind_carrying)
      case error
      then show ?thesis by (simp add: carrying_pinned)
    next
      case (step s3 u)
      from apply_change_pinned [OF step(3,1) assms(3,4)] show ?thesis .
    qed
  qed
qed

lemma deliver_once_pinned:
  assumes "pinned S w s" "w_peer w \<noteq> []" "faithful w"
  shows "pinned S w (fst (deliver_once k n w s))"
  using assms(1)
proof (induction k arbitrary: s)
  case 0
  then show ?case by (simp add: raise_def)
next
  case (Suc k)
  let ?s1 = "s\<lparr>lr_log := lr_log s @ [EvClean]\<rparr>"
  have s1: "pinned S w ?s1" using Suc.prems by (simp add: pinned_def lane_staged_def pin_step_def)
  obtain s2 x where d: "deliver_pending n w ?s1 = (s2, x)" by (cases "deliver_pending n w ?s1")
  note s2 = deliver_pending_pinned [OF d s1 assms(2,3)]
  show ?case
  proof (cases "x = Inl (Fault ErrSuperseded)")
    case True
    with d have "deliver_once (Suc k) n w s = deliver_once k n w s2" by (simp add: bindE_def ask_eq)
    with Suc.IH [OF s2] show ?thesis by simp
  next
    case False
    with d have "fst (deliver_once (Suc k) n w s) = s2"
      by (cases x) (auto simp: bindE_def ask_eq split: deliver_error.splits goerr.splits)
    with s2 show ?thesis by simp
  qed
qed

subsection \<open>The property\<close>

text \<open>A lane's attempts one after the other, each with its fuel and the world it ran in.\<close>

fun attempts :: "(nat \<times> nat \<times> world) list \<Rightarrow> lane_run \<Rightarrow> lane_run" where
  "attempts [] s = s"
| "attempts ((k, n, w) # runs) s = attempts runs (fst (deliver_once k n w s))"

lemma attempts_pinned:
  assumes "\<forall>(k, n, w) \<in> set runs. w_service w = w_service w0 \<and> w_peer w = w_peer w0 \<and> faithful w"
    and "w_peer w0 \<noteq> []" and "pinned S w0 s"
  shows "pinned S w0 (attempts runs s)"
  using assms(1,3)
proof (induction runs arbitrary: s)
  case (Cons run runs)
  obtain k n w where run: "run = (k, n, w)" by (cases run)
  have w: "w_service w = w_service w0" "w_peer w = w_peer w0" "faithful w" using Cons.prems(1) run by auto
  then have same: "pinned S w t = pinned S w0 t" for t by (simp add: pinned_def lane_staged_def)
  have "pinned S w (fst (deliver_once k n w s))"
    by (rule deliver_once_pinned) (use w assms(2) Cons.prems(2) same in auto)
  with Cons.IH [of "fst (deliver_once k n w s)"] Cons.prems(1) same run show ?case by simp
qed simp

text \<open>C4. After any number of attempts from an empty directory, whatever the replies and whatever fails or
  crashes, every pin set the consumer's store may hold for the lane covers each artifact root of the
  change the lane has staged. A change is never staged before its roots are pinned, and pins are never
  dropped before it is replaced or acknowledged.\<close>

theorem pending_always_pinned:
  assumes "\<forall>(k, n, w) \<in> set runs. w_service w = service \<and> w_peer w = peer \<and> faithful w" and "peer \<noteq> []"
    and "lr_log s = []" and "lr_disk s = empty_directory\<lparr>dd_faults := fs\<rparr>"
    and "staged (lr_disk (attempts runs s)) service peer = Some e" and "P \<in> set (pins_after [[]] (lr_log (attempts runs s)))"
    and "q \<in> set (ce_artifacts e)"
  shows "covers P q"
proof (cases runs)
  case Nil
  with assms(4,5) show ?thesis by (simp add: staged_def staged_in_def current_def empty_directory_def find_record_def new_record_def)
next
  case (Cons run runs')
  obtain k n w where "run = (k, n, w)" by (cases run)
  with assms(1) Cons have w: "w_service w = service" "w_peer w = peer" by auto
  have "staged empty_directory = (\<lambda>_ _. None)"
    by (simp add: staged_def staged_in_def current_def empty_directory_def find_record_def new_record_def fun_eq_iff)
  moreover have "delivery_inv empty_directory" by (simp add: delivery_inv_def empty_directory_def)
  ultimately have "pinned [[]] w s" using assms(4) by (simp add: pinned_def lane_staged_def)
  from attempts_pinned [OF _ _ this, of runs] assms(1,2,5,6,7) w show ?thesis by (auto simp: pinned_def lane_staged_def)
qed

definition offline_world :: world where
  "offline_world = \<lparr>w_service = ''notes'', w_peer = ''b'', w_self = ''a'', w_schema = ce_schema sample_change,
     w_now = (\<lambda>_. 0), w_dirty = (\<lambda>_. False), w_monitor = (\<lambda>_. zero_state), w_watched = (\<lambda>_. []),
     w_local_caps = (\<lambda>_. Inr [MethodExportV2]), w_export = (\<lambda>_ _ _. Inr sample_change), w_pins_set = (\<lambda>_ _ _. Inr ()),
     w_closure = (\<lambda>_ _. Inl ErrCtx), w_build = (\<lambda>_ _. Inl ErrCtx), w_read = (\<lambda>_ _ _. Inl ErrCtx), w_drop = (\<lambda>_ _. Inl ErrCtx),
     w_peer_caps = (\<lambda>_. Inl ErrCtx), w_net_status = (\<lambda>_. Inl ErrCtx), w_have = (\<lambda>_ _ _. Inl (CallErr ErrCtx)),
     w_begin = (\<lambda>_ _ _ _. (zero_state, Inl (CallErr ErrCtx))), w_put = (\<lambda>_ _ _ _ _ _. (zero_state, Inl (CallErr ErrCtx))),
     w_commit = (\<lambda>_ _ _. Inl (CallErr ErrCtx)), w_apply = (\<lambda>_ _. Inl ErrCtx), w_apply_v2 = (\<lambda>_ _ _. Inl (CallErr ErrCtx))\<rparr>"

definition fresh_run :: lane_run where
  "fresh_run = \<lparr>lr_log = [], lr_disk = empty_directory, lr_live = new_live, lr_lane_artifacts = False, lr_pins_settled = False,
     lr_pinned_for = [], lr_moved = False, lr_batches = (\<lambda>_. None), lr_artifacts = False, lr_change = bound_change,
     lr_peer_state = zero_state, lr_peer_at = 0, lr_admitted_local = 0, lr_admitted_peer = 0, lr_sent = 0\<rparr>"

lemma load_empty: "load ''notes'' ''b'' empty_directory = (empty_directory, Inr (new_record ''notes'' ''b'', None))"
  by code_simp

lemma offline_prepared:
  "\<exists>s. prepare offline_world (fresh_run\<lparr>lr_log := [EvClean]\<rparr>) = (s, Inr (True, Some bound_change)) \<and>
     staged (lr_disk s) ''notes'' ''b'' = Some bound_change \<and> pins_after [[]] (lr_log s) = [[one_ref]]"
proof -
  obtain d where d: "stage ''b'' [] bound_change empty_directory = (d, Inr ())" using first_stage by blast
  have i: "delivery_inv empty_directory" by (simp add: delivery_inv_def empty_directory_def)
  have e: "empty_directory\<lparr>dd_now := 0\<rparr> = empty_directory" by (simp add: empty_directory_def)
  have sv: "ce_service bound_change = ''notes''" by (simp add: bound_change_def sample_change_def)
  from stage_staged [OF d i] sv have st: "staged d ''notes'' ''b'' = Some bound_change" by simp
  have rq: "validate_export_request \<lparr>er_service = ''notes'', er_schema = ce_schema sample_change, er_since = r\<rparr> = Inr ()"
    if "r = ''0''" for r
    using sample_valid(1) that
    by (auto simp: validate_export_request_def validate_change_iff andthen_Inr_iff small_revisions sample_change_def)
  have r: "new_revision 0 = ''0''" "dr_acked (new_record ''notes'' ''b'') = ''0''" "must_revision ''0'' = Inr 0" "must_revision ''1'' = Inr 1"
    "ce_source sample_change = ''1''" "ce_kind sample_change = ChangeSnapshot"
    by (simp_all add: new_record_def must_revision_def small_revisions sample_change_def new_revision_def) (code_simp+)?
  show ?thesis
    by (simp add: prepare_def detect_def export_def client_export_def replace_def pins_set_def tried_def bindE_def ask_eq on_disk_def
        modify_def settle_pins_def unsettle_pins_def fault_def liftE_def offline_world_def fresh_run_def e load_empty rq r
        sample_valid(1) sample_bound bound_fields union_roots_def d st pins_after_def pin_step_def)
qed

lemma offline_run:
  "\<exists>s. fst (deliver_once 1 1 offline_world fresh_run) = s \<and> staged (lr_disk s) ''notes'' ''b'' = Some bound_change \<and>
     pins_after [[]] (lr_log s) = [[one_ref]]"
proof -
  obtain s where s: "prepare offline_world (fresh_run\<lparr>lr_log := [EvClean]\<rparr>) = (s, Inr (True, Some bound_change))"
    "staged (lr_disk s) ''notes'' ''b'' = Some bound_change" "pins_after [[]] (lr_log s) = [[one_ref]]"
    using offline_prepared by blast
  have f: "lr_log fresh_run = []" by (simp add: fresh_run_def)
  obtain t r where g: "gate offline_world (start_run True bound_change s) = (t, r)" by fastforce
  have i: "idle (start_run True bound_change s) t"
    by (rule idle_step [where m = "gate offline_world", OF _ g]) (intro kept)
  have "r \<noteq> Inr ()" using g
    by (auto simp: gate_def ask_eq bindE_def liftE_def offline_world_def raise_def observe_local_def on_live_def modify_def)
  then obtain err where r: "r = Inl err" by (cases r) auto
  have "deliver_pending 1 offline_world (fresh_run\<lparr>lr_log := [EvClean]\<rparr>) = (t, Inl err)"
    by (simp add: deliver_pending_def bindE_def s(1) modify_def g r)
  then have "fst (deliver_once 1 1 offline_world fresh_run) = t"
    by (auto simp: bindE_def ask_eq f raise_def split: deliver_error.split goerr.split)
  with i s(2,3) show ?thesis by (simp add: idle_def start_run_def)
qed

theorem pending_always_pinned_witness:
  "covers [one_ref] one_ref \<and> (\<exists>s. attempts [(1, 1, offline_world)] fresh_run = s \<and>
     staged (lr_disk s) ''notes'' ''b'' = Some bound_change \<and> pins_after [[]] (lr_log s) = [[one_ref]])"
proof -
  obtain s where s: "attempts [(1, 1, offline_world)] fresh_run = s" "staged (lr_disk s) ''notes'' ''b'' = Some bound_change"
    "pins_after [[]] (lr_log s) = [[one_ref]]" using offline_run by auto
  have "covers [one_ref] one_ref"
    by (rule pending_always_pinned [of "[(1, 1, offline_world)]" "''notes''" "''b''" fresh_run "[]" bound_change])
      (use s in \<open>simp_all add: offline_world_def faithful_def sample_change_def fresh_run_def empty_directory_def bound_fields\<close>)
  with s show ?thesis by blast
qed

end
