(* ===== verification/Deliver_Enum.thy ===== *)
theory Deliver_Enum
  imports Deliver_Pins
begin

text \<open>
  The deliverer as a client of the store's closure pages: its loop ends, and the peer is asked about
  every object of the closure, each once and in order. The pages are an interface, and the store's
  \<open>page_of\<close> provides it.
\<close>

subsection \<open>Steps that do not run out of fuel\<close>

definition ends :: "'a act \<Rightarrow> bool" where
  "ends m \<longleftrightarrow> (\<forall>s. snd (m s) \<noteq> Inl NoReturn)"

named_theorems ends_intros

lemma ends_bind [ends_intros]: "ends m \<Longrightarrow> (\<And>x. ends (k x)) \<Longrightarrow> ends (bindE m k)"
  unfolding ends_def bindE_def by (auto split: prod.split sum.split) (metis snd_conv)+

lemma ends_basic [ends_intros]: "ends (liftE (Inr x))" "e \<noteq> NoReturn \<Longrightarrow> ends (raise e)" "ends (gets f)" "ends (modify g)"
  "ends (ask reply ev)" "ends (on_live h)" "ends (on_progress p)"
  by (simp_all add: ends_def liftE_def raise_def gets_def modify_def ask_eq on_progress_def on_live_def)

lemma ends_tried [ends_intros]: "ends m \<Longrightarrow> ends (tried m)"
  unfolding tried_def by (rule ends_bind) (auto simp: ends_def liftE_def fault_def split: sum.split)

lemma ends_cases [ends_intros]:
  "\<lbrakk>\<And>x. ends (f x); ends m\<rbrakk> \<Longrightarrow> ends (case x' of None \<Rightarrow> m | Some x \<Rightarrow> f x)"
  "\<lbrakk>\<And>e. ends (g e); \<And>x. ends (f' x)\<rbrakk> \<Longrightarrow> ends (case r of Inl e \<Rightarrow> g e | Inr x \<Rightarrow> f' x)"
  "\<lbrakk>\<And>a b. ends (h a b)\<rbrakk> \<Longrightarrow> ends (case pr of (a, b) \<Rightarrow> h a b)"
  "\<lbrakk>\<And>p. ends (u p); \<And>e. ends (v e)\<rbrakk> \<Longrightarrow> ends (case c of Refusal p \<Rightarrow> u p | CallErr e \<Rightarrow> v e)"
  "\<lbrakk>b \<Longrightarrow> ends m1; \<not> b \<Longrightarrow> ends m2\<rbrakk> \<Longrightarrow> ends (if b then m1 else m2)"
  by (simp_all split: option.split sum.split prod.split call_error.split)

lemma pauses [simp]: "pause_for v cause \<noteq> NoReturn" "local_pause here c \<noteq> NoReturn" "unreachable here err \<noteq> NoReturn"
  "refused_call e \<noteq> NoReturn" "interrupted a here \<noteq> Some NoReturn"
  by (auto simp: pause_for_def local_pause_def unreachable_def refused_call_def interrupted_def split: sum.splits call_error.splits)

lemma ends_probe [ends_intros]: "ends (observe_local w)" "ends (observe_peer w st)" "ends (probe w)"
  unfolding probe_def observe_local_def observe_peer_def by (intro ends_intros; simp)+

lemma ends_evaluate [ends_intros]: "ends (evaluate_run here)"
  by (simp add: ends_def evaluate_run_def Let_def)

lemma ends_interrupted [ends_intros]: "(\<And>x. x \<noteq> NoReturn \<Longrightarrow> ends (f x)) \<Longrightarrow> ends m \<Longrightarrow>
    ends (case interrupted a here of None \<Rightarrow> m | Some x \<Rightarrow> f x)"
  using pauses(5) [of a here] by (cases "interrupted a here") auto

lemma ends_admit [ends_intros]: "ends (admit w)"
  unfolding admit_def by (intro ends_intros) simp_all

lemma ends_settle [ends_intros]: "ends (settle_reply r)" "ends (refused w pr)"
  unfolding settle_reply_def refused_def by (intro ends_intros; simp)+

lemma ends_superseded [ends_intros]: "ends (superseded w)" "ends (stop_superseded w)"
  unfolding stop_superseded_def superseded_def by (intro ends_intros; simp)+

lemma ends_put_parts [ends_intros]: "ends (put_parts w i have_parts ns)"
  by (induction ns) (auto intro!: ends_intros)

lemma ends_commit [ends_intros]: "ends (commit_objects w objects)"
  unfolding commit_objects_def by (intro ends_intros)

lemma ends_drop [ends_intros]: "ends (drop_shared w dropped)" "ends (release_shared k c)"
  unfolding drop_shared_def by (intro ends_intros) (simp add: ends_def release_shared_def split: prod.split)

lemma ends_send [ends_intros]: "ends (send w objects)"
proof -
  let ?k = "shared_key_for (w_service w) objects"
  have d: "ends (bindE (release_shared ?k i) (drop_shared w))" for i by (intro ends_intros)
  have l: "e \<noteq> NoReturn \<Longrightarrow> ends (bindE (superseded w) (\<lambda>late. raise (if late then Fault ErrSuperseded else e)) :: unit act)" for e
    by (intro ends_intros) simp
  have "snd (send w objects s) \<noteq> Inl NoReturn" for s
  proof -
    let ?s = "s\<lparr>lr_batches := hold_batch ?k (lr_batches s)\<rparr>"
    obtain s1 x where c: "commit_objects w objects ?s = (s1, x)" by (cases "commit_objects w objects ?s")
    have x: "x \<noteq> Inl NoReturn" using ends_commit [of w objects] c unfolding ends_def by (metis snd_conv)
    show ?thesis
    proof (cases x)
      case (Inr i)
      obtain s2 y where r: "bindE (release_shared ?k i) (drop_shared w) s1 = (s2, y)" by (cases "bindE (release_shared ?k i) (drop_shared w) s1")
      have "y \<noteq> Inl NoReturn" using d [of i] r unfolding ends_def by (metis snd_conv)
      with c Inr r l show ?thesis by (cases y) (auto simp: send_def Let_def ends_def)
    qed (use c x in \<open>simp add: send_def Let_def\<close>)
  qed
  then show ?thesis by (simp add: ends_def)
qed

lemma ends_apply_v2 [ends_intros]: "ends (apply_v2 w)"
  unfolding apply_v2_def by (intro ends_intros)

lemma ends_flush [ends_intros]: "ends (flush w b)"
  unfolding flush_def by (intro ends_intros)

lemma ends_send_page [ends_intros]: "ends (send_page w roots missing xs b)"
proof (induction xs arbitrary: b)
  case (Cons x xs)
  show ?case unfolding send_page.simps Let_def by (intro ends_intros Cons.IH)
qed (auto intro: ends_intros)

lemma ends_send_objects [ends_intros]: "ends (send_objects w objects page_done roots)"
  unfolding send_objects_def missing_of_def by (intro ends_intros)

subsection \<open>What the peer is asked about\<close>

definition offered :: "log \<Rightarrow> digest list" where
  "offered es = concat (map (\<lambda>e. case e of EvHave ds _ \<Rightarrow> ds | _ \<Rightarrow> []) es)"

lemma offered_append: "offered (es @ fs) = offered es @ offered fs"
  by (simp add: offered_def)

lemma offered_plain: "list_all plain es \<Longrightarrow> offered es = []"
  by (induction es) (auto simp: offered_def plain_def split: event.splits)

lemma silent_offered: "silent s t \<Longrightarrow> offered (lr_log t) = offered (lr_log s)"
  by (auto simp: silent_def offered_append offered_plain)

lemma silent_step:
  assumes "\<And>s0. keeps (silent s0) m" and "m s = (s', r)"
  shows "offered (lr_log s') = offered (lr_log s)"
  by (rule silent_offered [OF keepsD [OF assms(1) silent_refl assms(2)]])

lemma missing_offered:
  assumes "missing_of w objects s = (s', r)"
  shows "\<exists>k. offered (lr_log s') = offered (lr_log s) @ take k (map o_digest objects) \<and>
    ((\<exists>x. r = Inr x) \<longrightarrow> k = length objects)"
proof (cases "objects = []")
  case True
  with assms show ?thesis by (simp add: missing_of_def)
next
  case False
  with assms have b: "bindE (admit w) (\<lambda>_. bindE (gets lr_admitted_peer) (\<lambda>epoch.
      bindE (ask (w_have w (map o_digest objects) epoch) (\<lambda>_. EvHave (map o_digest objects) epoch)) settle_reply)) s = (s', r)"
    by (simp add: missing_of_def)
  then show ?thesis
  proof (cases rule: bindE_cases)
    case (error e)
    from silent_step [where m = "admit w", OF silent_admit error(1)] error(2) show ?thesis by (intro exI [of _ 0]) simp
  next
    case (next_step s1 l)
    from silent_step [where m = "admit w", OF silent_admit next_step(1)] have o: "offered (lr_log s1) = offered (lr_log s)" .
    let ?s2 = "s1\<lparr>lr_log := lr_log s1 @ [EvHave (map o_digest objects) (lr_admitted_peer s1)]\<rparr>"
    from next_step(2) have "settle_reply (w_have w (map o_digest objects) (lr_admitted_peer s1) (lr_log s1)) ?s2 = (s', r)"
      by (simp only: bind_gets) (simp add: bindE_def [of "ask _ _"] ask_eq)
    then have "lr_log s' = lr_log ?s2" by (auto simp: settle_reply_def raise_def split: sum.splits)
    with o show ?thesis by (intro exI [of _ "length objects"]) (simp add: offered_append, simp add: offered_def)
  qed
qed

lemma send_objects_offered:
  assumes "send_objects w objects page_done roots s = (s', r)"
  shows "\<exists>k. offered (lr_log s') = offered (lr_log s) @ take k (map o_digest objects) \<and>
    (r = Inr () \<longrightarrow> k = length objects)"
  using assms unfolding send_objects_def
proof (cases rule: bindE_cases)
  case (error e)
  from missing_offered [OF error(1)] error(2) show ?thesis by auto
next
  case (next_step s1 missing)
  from missing_offered [OF next_step(1)] have o: "offered (lr_log s1) = offered (lr_log s) @ map o_digest objects" by auto
  let ?k = "bindE (on_progress (\<lambda>p. p\<lparr>pg_objects_missing := pg_objects_missing p + int (length (remdups missing)),
         pg_bytes_missing := pg_bytes_missing p + sum_list (map o_size (filter (\<lambda>x. o_digest x \<in> set missing) objects)),
         pg_enumeration_done := page_done\<rparr>)) (\<lambda>_. send_page w roots missing objects empty_batch)"
  have "keeps (silent s0) ?k" for s0 by (intro kept)
  from silent_step [where m = ?k, OF this next_step(2)] o show ?thesis by (intro exI [of _ "length objects"]) simp
qed

lemma tried_ask: "tried (ask reply ev) s = (s\<lparr>lr_log := lr_log s @ [ev (reply (lr_log s))]\<rparr>, fault (reply (lr_log s)))"
  by (simp add: tried_def bindE_def [of "ask _ _"] ask_eq liftE_def)

subsection \<open>The interface of the pages\<close>

locale closure_pages =
  fixes objects :: "object_entry list" and page :: "int \<Rightarrow> closure_page res"
  assumes page_tiles: "0 \<le> after \<Longrightarrow> after \<le> int (length objects) \<Longrightarrow>
    \<exists>pg. page after = Inr pg \<and> take (nat after) objects @ pg_objects pg = take (nat (pg_next pg)) objects \<and>
      pg_next pg \<le> int (length objects) \<and> (pg_done pg \<longleftrightarrow> pg_next pg = int (length objects)) \<and> (\<not> pg_done pg \<longrightarrow> after < pg_next pg)"
begin

text \<open>Each turn of the loop moves past at least one object, so more turns than objects are enough.\<close>

lemma enumerate_offers:
  assumes "\<And>at es. w_closure w \<lparr>cp_roots = roots, cp_after = at, cp_limit = MaxClosurePage\<rparr> es = page at"
    and "0 \<le> after" "after \<le> int (length objects)" "nat (int (length objects) - after) < n"
    and "enumerate_pages n w roots after s = (s', r)"
  shows "r \<noteq> Inl NoReturn \<and> (r = Inr () \<longrightarrow> offered (lr_log s') = offered (lr_log s) @ map o_digest (drop (nat after) objects))"
  using assms(2-5)
proof (induction n arbitrary: after s)
  case (Suc n)
  from page_tiles [OF Suc.prems(1,2)] obtain pg where pg: "page after = Inr pg"
    "take (nat after) objects @ pg_objects pg = take (nat (pg_next pg)) objects" "pg_next pg \<le> int (length objects)"
    "pg_done pg \<longleftrightarrow> pg_next pg = int (length objects)" "\<not> pg_done pg \<longrightarrow> after < pg_next pg" by blast
  let ?s1 = "s\<lparr>lr_log := lr_log s @ [EvClosure after]\<rparr>"
  let ?k = "if pg_done pg then liftE (Inr ()) else enumerate_pages n w roots (pg_next pg)"
  have le: "after \<le> pg_next pg" using pg(4,5) Suc.prems(2) by (cases "pg_done pg") auto
  have split: "pg_objects pg @ drop (nat (pg_next pg)) objects = drop (nat after) objects"
  proof -
    have "take (nat after) objects @ pg_objects pg @ drop (nat (pg_next pg)) objects =
        take (nat after) objects @ drop (nat after) objects" using pg(2) by (metis append.assoc append_take_drop_id)
    then show ?thesis by (simp only: same_append_eq)
  qed
  from Suc.prems(4) pg(1) have b: "bindE (send_objects w (pg_objects pg) (pg_done pg) (map r_digest roots)) (\<lambda>_. ?k) ?s1 = (s', r)"
    by (simp add: bindE_def [of "tried _"] tried_ask assms(1) fault_def)
  then show ?case
  proof (cases rule: bindE_cases)
    case (error e)
    then have "e \<noteq> NoReturn" using ends_send_objects unfolding ends_def by (metis snd_conv)
    with error(2) show ?thesis by simp
  next
    case (next_step s2 u)
    from send_objects_offered [OF next_step(1)]
    have o: "offered (lr_log s2) = offered (lr_log s) @ map o_digest (pg_objects pg)"
      by (auto simp: offered_append offered_def)
    show ?thesis
    proof (cases "pg_done pg")
      case True
      with next_step(2) o split pg(4) show ?thesis by simp
    next
      case False
      then have "after < pg_next pg" using pg(5) by simp
      then have "nat (int (length objects) - pg_next pg) < n" using Suc.prems(3) pg(3) by linarith
      note turn = Suc.IH [OF order_trans [OF Suc.prems(1) le] pg(3) this]
      have "enumerate_pages n w roots (pg_next pg) s2 = (s', r)" using next_step(2) False by simp
      from turn [OF this] o show ?thesis unfolding split [symmetric] by simp
    qed
  qed
qed simp

end

interpretation store_pages: closure_pages "cl_objects c" "\<lambda>after. page_of c after MaxClosurePage" for c
proof
  fix after :: int
  assume a: "0 \<le> after" "after \<le> int (length (cl_objects c))"
  then obtain pg where pg: "page_of c after MaxClosurePage = Inr pg" by (simp add: page_of_def Let_def)
  have m: "0 < MaxClosurePage" by (simp add: MaxClosurePage_def)
  from page_of_tiles [OF pg a(1) m] pg m show "\<exists>pg. page_of c after MaxClosurePage = Inr pg \<and>
      take (nat after) (cl_objects c) @ pg_objects pg = take (nat (pg_next pg)) (cl_objects c) \<and>
      pg_next pg \<le> int (length (cl_objects c)) \<and> (pg_done pg \<longleftrightarrow> pg_next pg = int (length (cl_objects c))) \<and>
      (\<not> pg_done pg \<longrightarrow> after < pg_next pg)" by (intro exI [of _ pg]) auto
qed

subsection \<open>The property\<close>

lemma watch_local_reason: "watch_local admitted sts \<noteq> Some NoReturn"
  by (induction sts) (auto split: option.split)


definition full_peer :: world where
  "full_peer = offline_world\<lparr>w_monitor := (\<lambda>_. wifi), w_closure := (\<lambda>p _. page_of one_closure (cp_after p) (cp_limit p)),
     w_have := (\<lambda>_ _ _. Inr [])\<rparr>"

definition admitted_run :: lane_run where
  "admitted_run = fresh_run\<lparr>lr_peer_state := wifi\<rparr>"


end
