(* ===== verification/Presence.thy ===== *)
theory Presence
  imports Go_Text "HOL-Library.AList"
begin

text \<open>
  The console session reader (\<^verbatim>\<open>src/presence/presence.go\<close>, \<^verbatim>\<open>plist.go\<close>): the property list that
  \<^verbatim>\<open>ioreg\<close> prints, decoded from the tokens of Go's \<^verbatim>\<open>xml.Decoder\<close>, the session read out of it, the
  \<^verbatim>\<open>netstat\<close> table scanned for an inbound screen share, and the predicate that a person sits here.

  \<^verbatim>\<open>xml.Decoder\<close> is the standard library's: a document is the list of its tokens and whether it ends
  without a syntax error. \<^verbatim>\<open>strconv.ParseFloat\<close>'s language is an argument (\<open>is_float\<close>). Text is ASCII.
  Starting the two subprocesses is not modelled; their output, or their failure, is an argument.
\<close>

subsection \<open>Text helpers of the standard library\<close>

definition is_space :: "char \<Rightarrow> bool" where
  "is_space c \<longleftrightarrow> (of_char c :: nat) \<in> {9, 10, 11, 12, 13, 32}"

text \<open>\<^verbatim>\<open>strings.Split(s, sep)\<close> for a one-byte separator, \<^verbatim>\<open>strings.Fields\<close>, \<^verbatim>\<open>strings.HasSuffix\<close>.\<close>

fun split_on :: "char \<Rightarrow> string \<Rightarrow> string list" where
  "split_on c [] = [[]]"
| "split_on c (x # xs) = (if x = c then [] # split_on c xs
     else case split_on c xs of [] \<Rightarrow> [[x]] | l # ls \<Rightarrow> (x # l) # ls)"

fun fields_from :: "string \<Rightarrow> string \<Rightarrow> string list" where
  "fields_from w [] = (if w = [] then [] else [w])"
| "fields_from w (c # cs) = (if is_space c then (if w = [] then [] else [w]) @ fields_from [] cs else fields_from (w @ [c]) cs)"

definition words_of :: "string \<Rightarrow> string list" where
  "words_of s = fields_from [] s"

definition has_suffix :: "string \<Rightarrow> string \<Rightarrow> bool" where
  "has_suffix s t \<longleftrightarrow> length t \<le> length s \<and> drop (length s - length t) s = t"

text \<open>\<^verbatim>\<open>base64.StdEncoding.DecodeString\<close> on text without line breaks.\<close>

definition b64_val :: "char \<Rightarrow> nat option" where
  "b64_val c = (let n = of_char c :: nat in
     if 65 \<le> n \<and> n \<le> 90 then Some (n - 65) else if 97 \<le> n \<and> n \<le> 122 then Some (n - 71)
     else if 48 \<le> n \<and> n \<le> 57 then Some (n + 4) else if n = 43 then Some 62 else if n = 47 then Some 63 else None)"

definition b64_bytes :: "nat \<Rightarrow> nat list \<Rightarrow> bytes" where
  "b64_bytes k vs = take k (let n = foldl (\<lambda>a v. a * 64 + v) 0 vs in map char_of [n div 65536, n div 256 mod 256, n mod 256])"

fun base64_decode :: "string \<Rightarrow> bytes option" where
  "base64_decode [] = Some []"
| "base64_decode (a # b # c # d # rest) =
     (if rest = [] \<and> d = CHR ''='' \<and> c = CHR ''='' then
        (case those (map b64_val [a, b]) of Some vs \<Rightarrow> Some (b64_bytes 1 (vs @ [0, 0])) | None \<Rightarrow> None)
      else if rest = [] \<and> d = CHR ''='' then
        (case those (map b64_val [a, b, c]) of Some vs \<Rightarrow> Some (b64_bytes 2 (vs @ [0])) | None \<Rightarrow> None)
      else (case those (map b64_val [a, b, c, d]) of
          None \<Rightarrow> None
        | Some vs \<Rightarrow> map_option (\<lambda>r. b64_bytes 3 vs @ r) (base64_decode rest)))"
| "base64_decode _ = None"

subsection \<open>Property lists\<close>

datatype xml_token = StartEl string | EndEl string | CharText string | OtherTok

datatype plist =
    PNil
  | PBool bool
  | PInt int
  | PReal string
  | PText string
  | PBytes bytes
  | PArr "plist list"
  | PDict "(string \<times> plist) list"

type_synonym tokens = "xml_token list"

text \<open>\<^verbatim>\<open>dec.Skip()\<close>: up to the end of the open element, over the elements inside it.\<close>

fun skip_element :: "nat \<Rightarrow> tokens \<Rightarrow> tokens option" where
  "skip_element d [] = None"
| "skip_element d (StartEl _ # ts) = skip_element (Suc d) ts"
| "skip_element d (EndEl _ # ts) = (case d of 0 \<Rightarrow> Some ts | Suc e \<Rightarrow> skip_element e ts)"
| "skip_element d (_ # ts) = skip_element d ts"

fun element_text :: "tokens \<Rightarrow> (string \<times> tokens) option" where
  "element_text [] = None"
| "element_text (CharText s # ts) = map_option (\<lambda>(t, r). (s @ t, r)) (element_text ts)"
| "element_text (EndEl _ # ts) = Some ([], ts)"
| "element_text (_ # ts) = element_text ts"

definition plist_int :: "string \<Rightarrow> int option" where
  "plist_int s =
     (if s \<noteq> [] \<and> hd s = CHR ''+'' then (if tl s \<noteq> [] \<and> hd (tl s) = CHR ''-'' then None else parse_int64 (tl s))
      else parse_int64 s)"

definition decode_plist_data :: "string \<Rightarrow> bytes option" where
  "decode_plist_data text = base64_decode (concat (words_of text))"

text \<open>The elements whose body is text or nothing.\<close>

definition decode_leaf :: "(string \<Rightarrow> bool) \<Rightarrow> string \<Rightarrow> tokens \<Rightarrow> (plist \<times> tokens) option" where
  "decode_leaf is_float name ts =
     (if name = ''true'' then map_option (\<lambda>r. (PBool True, r)) (skip_element 0 ts)
      else if name = ''false'' then map_option (\<lambda>r. (PBool False, r)) (skip_element 0 ts)
      else if name \<in> {''string'', ''data''} then
        (case element_text ts of
           None \<Rightarrow> None
         | Some (text, r) \<Rightarrow> if name = ''data'' then map_option (\<lambda>b. (PBytes b, r)) (decode_plist_data text) else Some (PText text, r))
      else if name = ''integer'' then
        (case element_text ts of None \<Rightarrow> None | Some (text, r) \<Rightarrow> map_option (\<lambda>i. (PInt i, r)) (plist_int text))
      else if name = ''real'' then
        (case element_text ts of None \<Rightarrow> None | Some (text, r) \<Rightarrow> if is_float text then Some (PReal text, r) else None)
      else map_option (\<lambda>r. (PNil, r)) (skip_element 0 ts))"

text \<open>One turn of each of the decoder's loops, over what decodes the rest: the next token of a value,
  of a dict (with the entries read so far) or of an array (with its elements).\<close>

datatype decode_at = AtValue | InDict "(string \<times> plist) list" | InArray "plist list"

type_synonym decoder = "decode_at \<Rightarrow> tokens \<Rightarrow> (plist \<times> tokens) option"

definition decode_element :: "(string \<Rightarrow> bool) \<Rightarrow> decoder \<Rightarrow> string \<Rightarrow> tokens \<Rightarrow> (plist \<times> tokens) option" where
  "decode_element fl dec name ts =
     (if name = ''dict'' then dec (InDict []) ts
      else if name = ''array'' then dec (InArray []) ts
      else decode_leaf fl name ts)"

definition decode_value :: "(string \<Rightarrow> bool) \<Rightarrow> decoder \<Rightarrow> xml_token \<Rightarrow> tokens \<Rightarrow> (plist \<times> tokens) option" where
  "decode_value fl dec t ts = (case t of
     StartEl name \<Rightarrow> decode_element fl dec name ts
   | EndEl _ \<Rightarrow> None
   | _ \<Rightarrow> dec AtValue ts)"

definition decode_dict :: "decoder \<Rightarrow> (string \<times> plist) list \<Rightarrow> xml_token \<Rightarrow> tokens \<Rightarrow> (plist \<times> tokens) option" where
  "decode_dict dec out t ts = (case t of
     EndEl _ \<Rightarrow> Some (PDict out, ts)
   | StartEl name \<Rightarrow>
       if name \<noteq> ''key'' then None
       else (case element_text ts of
           None \<Rightarrow> None
         | Some (key, r) \<Rightarrow>
             (case dec AtValue r of
                None \<Rightarrow> None
              | Some (v, r') \<Rightarrow> dec (InDict (AList.update key v out)) r'))
   | _ \<Rightarrow> dec (InDict out) ts)"

definition decode_array :: "(string \<Rightarrow> bool) \<Rightarrow> decoder \<Rightarrow> plist list \<Rightarrow> xml_token \<Rightarrow> tokens \<Rightarrow> (plist \<times> tokens) option" where
  "decode_array fl dec out t ts = (case t of
     EndEl _ \<Rightarrow> Some (PArr out, ts)
   | StartEl name \<Rightarrow>
       (case decode_element fl dec name ts of
          None \<Rightarrow> None
        | Some (v, r) \<Rightarrow> dec (InArray (out @ [v])) r)
   | _ \<Rightarrow> dec (InArray out) ts)"

text \<open>The recursion. Its fuel is one unit per token read: one more than the document has tokens is enough.\<close>

primrec decode :: "(string \<Rightarrow> bool) \<Rightarrow> nat \<Rightarrow> decoder" where
  "decode fl 0 = (\<lambda>m ts. None)"
| "decode fl (Suc n) = (\<lambda>m ts. case ts of
     [] \<Rightarrow> None
   | t # rest \<Rightarrow>
       (case m of
          AtValue \<Rightarrow> decode_value fl (decode fl n) t rest
        | InDict out \<Rightarrow> decode_dict (decode fl n) out t rest
        | InArray out \<Rightarrow> decode_array fl (decode fl n) out t rest))"

text \<open>White space between the end of the value and the end of the document.\<close>

fun skip_blank :: "tokens \<Rightarrow> tokens" where
  "skip_blank (CharText s # ts) = (if list_all is_space s then skip_blank ts else CharText s # ts)"
| "skip_blank ts = ts"

fun find_plist :: "tokens \<Rightarrow> tokens option" where
  "find_plist [] = None"
| "find_plist (StartEl name # ts) = (if name = ''plist'' then Some ts else find_plist ts)"
| "find_plist (_ # ts) = find_plist ts"

text \<open>\<open>complete\<close>: the token stream ends with \<^verbatim>\<open>io.EOF\<close> and not with a syntax error.\<close>

definition decode_plist :: "(string \<Rightarrow> bool) \<Rightarrow> bool \<Rightarrow> tokens \<Rightarrow> plist res" where
  "decode_plist fl complete ts =
     (case find_plist ts of
        None \<Rightarrow> Inl (ErrMsg ''read plist'')
      | Some body \<Rightarrow>
          (case decode fl (Suc (length body)) AtValue body of
             None \<Rightarrow> Inl (ErrMsg ''plist value'')
           | Some (v, r) \<Rightarrow>
               (case skip_blank r of
                  EndEl name # r' \<Rightarrow>
                    if name \<noteq> ''plist'' then Inl (ErrMsg ''plist: expected </plist>'')
                    else (case skip_blank r' of
                        [] \<Rightarrow> if complete then Inr v else Inl (ErrMsg ''read after plist'')
                      | _ \<Rightarrow> Inl (ErrMsg ''plist: unexpected token after </plist>''))
                | _ \<Rightarrow> Inl (ErrMsg ''plist: expected </plist>''))))"

subsection \<open>The session\<close>

record session_snapshot =
  on_console :: bool
  locked :: bool
  console_user :: string
  screen_shared :: bool

definition no_session :: session_snapshot where
  "no_session = \<lparr>on_console = False, locked = False, console_user = [], screen_shared = False\<rparr>"

definition as_bool :: "plist option \<Rightarrow> bool" where
  "as_bool v = (case v of Some (PBool b) \<Rightarrow> b | _ \<Rightarrow> False)"

definition as_text :: "plist option \<Rightarrow> string" where
  "as_text v = (case v of Some (PText s) \<Rightarrow> s | _ \<Rightarrow> [])"

fun first_session :: "bool \<Rightarrow> plist list \<Rightarrow> session_snapshot" where
  "first_session root_locked [] = no_session"
| "first_session root_locked (PDict d # us) =
     (if as_bool (map_of d ''kCGSSessionOnConsoleKey'')
      then \<lparr>on_console = True, locked = root_locked \<or> as_bool (map_of d ''CGSSessionScreenIsLocked''),
            console_user = as_text (map_of d ''kCGSSessionUserNameKey''), screen_shared = False\<rparr>
      else first_session root_locked us)"
| "first_session root_locked (_ # us) = first_session root_locked us"

definition session_of :: "plist \<Rightarrow> session_snapshot res" where
  "session_of root = (case root of
     PDict d \<Rightarrow> Inr (first_session (as_bool (map_of d ''IOConsoleLocked''))
                 (case map_of d ''IOConsoleUsers'' of Some (PArr us) \<Rightarrow> us | _ \<Rightarrow> []))
   | _ \<Rightarrow> Inl (ErrMsg ''ioreg plist root is not a dict''))"

definition parse_session :: "(string \<Rightarrow> bool) \<Rightarrow> bool \<Rightarrow> tokens \<Rightarrow> session_snapshot res" where
  "parse_session fl complete ts = andthen (decode_plist fl complete ts) session_of"

text \<open>The \<^verbatim>\<open>netstat\<close> table: header seen or not, line by line.\<close>

definition share_row :: "string list \<Rightarrow> bool" where
  "share_row fs \<longleftrightarrow> 5 < length fs \<and> has_suffix (fs ! 3) ''.5900'' \<and> fs ! 5 = ''ESTABLISHED''"

fun scan_share :: "bool \<Rightarrow> string list \<Rightarrow> bool res" where
  "scan_share header [] = (if header then Inr False else Inl (ErrMsg ''netstat output has no header''))"
| "scan_share header (l # ls) =
     (let fs = words_of l in
      if fs = [] then scan_share header ls
      else if hd fs = ''Proto'' then scan_share True ls
      else if \<not> header then scan_share header ls
      else if length fs \<le> 5 then scan_share header ls
      else if share_row fs then Inr True
      else scan_share header ls)"

definition parse_screen_share :: "string \<Rightarrow> bool res" where
  "parse_screen_share payload = scan_share False (split_on (char_of (10 :: nat)) payload)"

text \<open>\<^verbatim>\<open>Console\<close> and \<^verbatim>\<open>Session\<close> on the output of their subprocesses.\<close>

definition console :: "(string \<Rightarrow> bool) \<Rightarrow> (bool \<times> tokens) res \<Rightarrow> session_snapshot res" where
  "console fl ioreg = andthen ioreg (\<lambda>(complete, ts). parse_session fl complete ts)"

definition session :: "(string \<Rightarrow> bool) \<Rightarrow> (bool \<times> tokens) res \<Rightarrow> string res \<Rightarrow> session_snapshot res" where
  "session fl ioreg netstat =
     andthen (console fl ioreg) (\<lambda>snap. andthen (andthen netstat parse_screen_share) (\<lambda>shared. Inr (snap\<lparr>screen_shared := shared\<rparr>)))"

definition attended :: "string res \<Rightarrow> session_snapshot \<Rightarrow> bool res" where
  "attended me snap = andthen me (\<lambda>user. Inr (on_console snap \<and> \<not> locked snap \<and> console_user snap = user \<and> \<not> screen_shared snap))"

subsection \<open>The screen share scan is a search for one row\<close>

lemma scan_share_seen: "scan_share True ls = Inr (\<exists>l \<in> set ls. words_of l \<noteq> [] \<and> hd (words_of l) \<noteq> ''Proto'' \<and> share_row (words_of l))"
  by (induction ls) (auto simp: Let_def share_row_def)

lemma scan_share_unseen:
  "scan_share False ls =
     (case dropWhile (\<lambda>l. words_of l = [] \<or> hd (words_of l) \<noteq> ''Proto'') ls of
        [] \<Rightarrow> Inl (ErrMsg ''netstat output has no header'')
      | _ # rest \<Rightarrow> scan_share True rest)"
  by (induction ls) (auto simp: Let_def)

subsection \<open>Reading back a document\<close>

text \<open>The tokens of a document that holds a value, the way \<^verbatim>\<open>ioreg -a\<close> prints one.\<close>

fun tokens_of :: "plist \<Rightarrow> tokens" where
  "tokens_of PNil = []"
| "tokens_of (PBool b) = [StartEl (if b then ''true'' else ''false''), EndEl (if b then ''true'' else ''false'')]"
| "tokens_of (PInt i) = [StartEl ''integer'', CharText (dec_int i), EndEl ''integer'']"
| "tokens_of (PReal s) = [StartEl ''real'', CharText s, EndEl ''real'']"
| "tokens_of (PText s) = [StartEl ''string'', CharText s, EndEl ''string'']"
| "tokens_of (PBytes b) = []"
| "tokens_of (PArr vs) = StartEl ''array'' # concat (map tokens_of vs) @ [EndEl ''array'']"
| "tokens_of (PDict kvs) = StartEl ''dict'' #
     concat (map (\<lambda>(k, v). [StartEl ''key'', CharText k, EndEl ''key''] @ tokens_of v) kvs) @ [EndEl ''dict'']"

text \<open>What such a document can hold: integers of 64 bits, dictionaries without a repeated key; data is left out.\<close>

fun plain_plist :: "(string \<Rightarrow> bool) \<Rightarrow> plist \<Rightarrow> bool" where
  "plain_plist fl PNil = False"
| "plain_plist fl (PBool b) = True"
| "plain_plist fl (PInt i) = (- (2 ^ 63) \<le> i \<and> i < 2 ^ 63)"
| "plain_plist fl (PReal s) = fl s"
| "plain_plist fl (PText s) = True"
| "plain_plist fl (PBytes b) = False"
| "plain_plist fl (PArr vs) = list_all (plain_plist fl) vs"
| "plain_plist fl (PDict kvs) = (distinct (map fst kvs) \<and> list_all (\<lambda>(k, v). plain_plist fl v) kvs)"

definition decodes :: "(string \<Rightarrow> bool) \<Rightarrow> plist \<Rightarrow> bool" where
  "decodes fl v \<longleftrightarrow> (\<forall>n rest. length (tokens_of v) < n \<longrightarrow> decode fl n AtValue (tokens_of v @ rest) = Some (v, rest) \<and>
     (\<exists>name ts. tokens_of v = StartEl name # ts \<and> decode_element fl (decode fl (n - 1)) name (ts @ rest) = Some (v, rest)))"

lemma plist_int_dec:
  assumes "- (2 ^ 63) \<le> i" "i < 2 ^ 63"
  shows "plist_int (dec_int i) = Some i"
proof -
  have "hd (dec_nat n) \<noteq> CHR ''+''" for n
    using dec_nat_digits [of n] dec_nat_nonempty [of n] by (cases "dec_nat n") (auto simp: is_digit_def)
  then have "hd (dec_int i) \<noteq> CHR ''+''" by (simp add: dec_int_def)
  then show ?thesis using parse_int64_dec [OF assms] by (simp add: plist_int_def)
qed

lemma update_new: "k \<notin> set (map fst kvs) \<Longrightarrow> AList.update k v kvs = kvs @ [(k, v)]"
  by (induction kvs) auto

lemma decode_Cons:
  "decode fl (Suc n) AtValue (t # ts) = decode_value fl (decode fl n) t ts"
  "decode fl (Suc n) (InDict out) (t # ts) = decode_dict (decode fl n) out t ts"
  "decode fl (Suc n) (InArray vs) (t # ts) = decode_array fl (decode fl n) vs t ts"
  by simp_all

declare decode.simps(2) [simp del]
declare decode_Cons [simp]

lemma decodes_value:
  "decodes fl v \<Longrightarrow> length (tokens_of v) < n \<Longrightarrow> decode fl n AtValue (tokens_of v @ rest) = Some (v, rest)"
  by (simp add: decodes_def)

lemma decodes_element:
  assumes "decodes fl v" and "length (tokens_of v) < Suc n"
  obtains name ts where "tokens_of v = StartEl name # ts" "decode_element fl (decode fl n) name (ts @ rest) = Some (v, rest)"
proof -
  from assms have "\<exists>name ts. tokens_of v = StartEl name # ts \<and> decode_element fl (decode fl (Suc n - 1)) name (ts @ rest) = Some (v, rest)"
    unfolding decodes_def by blast
  with that show thesis by auto
qed

lemma decodes_leaf:
  assumes "tokens_of v = StartEl name # ts" and "name \<notin> {''dict'', ''array''}" and "\<And>rest. decode_leaf fl name (ts @ rest) = Some (v, rest)"
  shows "decodes fl v"
  unfolding decodes_def
proof (intro allI impI)
  fix n rest assume "length (tokens_of v) < n"
  then obtain m where "n = Suc m" by (cases n) auto
  with assms show "decode fl n AtValue (tokens_of v @ rest) = Some (v, rest) \<and>
     (\<exists>name ts. tokens_of v = StartEl name # ts \<and> decode_element fl (decode fl (n - 1)) name (ts @ rest) = Some (v, rest))"
    by (simp add: decode_value_def decode_element_def)
qed

lemma decode_items:
  "(\<And>v. v \<in> set vs \<Longrightarrow> decodes fl v) \<Longrightarrow> length (concat (map tokens_of vs)) + 1 < n \<Longrightarrow>
   decode fl n (InArray out) (concat (map tokens_of vs) @ EndEl ''array'' # rest) = Some (PArr (out @ vs), rest)"
proof (induction vs arbitrary: n out)
  case Nil
  then show ?case by (cases n) (auto simp: decode_array_def)
next
  case (Cons v vs)
  from Cons.prems(2) obtain m where m: "n = Suc m" by (cases n) auto
  have d: "decodes fl v" "length (tokens_of v) < Suc m" using Cons.prems m by auto
  obtain name ts where v: "tokens_of v = StartEl name # ts"
    "decode_element fl (decode fl m) name (ts @ concat (map tokens_of vs) @ EndEl ''array'' # rest) =
       Some (v, concat (map tokens_of vs) @ EndEl ''array'' # rest)"
    by (rule decodes_element [OF d])
  have "decode fl m (InArray (out @ [v])) (concat (map tokens_of vs) @ EndEl ''array'' # rest) = Some (PArr ((out @ [v]) @ vs), rest)"
    by (rule Cons.IH) (use Cons.prems m v(1) in auto)
  with v m show ?case by (simp add: decode_array_def)
qed

lemma decode_entries:
  "(\<And>k v. (k, v) \<in> set kvs \<Longrightarrow> decodes fl v) \<Longrightarrow> distinct (map fst (out @ kvs)) \<Longrightarrow>
   length (concat (map (\<lambda>(k, v). [StartEl ''key'', CharText k, EndEl ''key''] @ tokens_of v) kvs)) + 1 < n \<Longrightarrow>
   decode fl n (InDict out) (concat (map (\<lambda>(k, v). [StartEl ''key'', CharText k, EndEl ''key''] @ tokens_of v) kvs) @ EndEl ''dict'' # rest) =
     Some (PDict (out @ kvs), rest)"
proof (induction kvs arbitrary: n out)
  case Nil
  then show ?case by (cases n) (auto simp: decode_dict_def)
next
  case (Cons kv kvs)
  obtain k v where kv: "kv = (k, v)" by (cases kv)
  let ?more = "concat (map (\<lambda>(k, v). [StartEl ''key'', CharText k, EndEl ''key''] @ tokens_of v) kvs) @ EndEl ''dict'' # rest"
  from Cons.prems(3) obtain m where m: "n = Suc m" by (cases n) auto
  have v: "decode fl m AtValue (tokens_of v @ ?more) = Some (v, ?more)"
    by (rule decodes_value) (use Cons.prems kv m in auto)
  have "AList.update k v out = out @ [(k, v)]"
    using Cons.prems(2) kv by (intro update_new) auto
  moreover have "decode fl m (InDict (out @ [(k, v)])) ?more = Some (PDict ((out @ [(k, v)]) @ kvs), rest)"
    by (rule Cons.IH) (use Cons.prems m kv in auto)
  ultimately show ?case using v m kv by (simp add: decode_dict_def)
qed

lemma plain_decodes: "plain_plist fl v \<Longrightarrow> decodes fl v"
proof (induction v)
  case (PArr vs)
  then have d: "\<And>v. v \<in> set vs \<Longrightarrow> decodes fl v" by (auto simp: list_all_iff)
  show ?case unfolding decodes_def
  proof (intro allI impI)
    fix n rest assume n: "length (tokens_of (PArr vs)) < n"
    then obtain m where m: "n = Suc m" by (cases n) auto
    have "decode fl m (InArray []) (concat (map tokens_of vs) @ EndEl ''array'' # rest) = Some (PArr ([] @ vs), rest)"
      by (rule decode_items) (use d n m in auto)
    with m show "decode fl n AtValue (tokens_of (PArr vs) @ rest) = Some (PArr vs, rest) \<and> (\<exists>name ts. tokens_of (PArr vs) = StartEl name # ts \<and>
       decode_element fl (decode fl (n - 1)) name (ts @ rest) = Some (PArr vs, rest))"
      by (simp add: decode_value_def decode_element_def)
  qed
next
  case (PDict kvs)
  then have d: "\<And>k v. (k, v) \<in> set kvs \<Longrightarrow> decodes fl v" by (auto simp: list_all_iff)
  show ?case unfolding decodes_def
  proof (intro allI impI)
    fix n rest assume n: "length (tokens_of (PDict kvs)) < n"
    then obtain m where m: "n = Suc m" by (cases n) auto
    have "decode fl m (InDict []) (concat (map (\<lambda>(k, v). [StartEl ''key'', CharText k, EndEl ''key''] @ tokens_of v) kvs) @ EndEl ''dict'' # rest) =
      Some (PDict ([] @ kvs), rest)"
      by (rule decode_entries) (use d n m PDict.prems in auto)
    with m show "decode fl n AtValue (tokens_of (PDict kvs) @ rest) = Some (PDict kvs, rest) \<and> (\<exists>name ts. tokens_of (PDict kvs) = StartEl name # ts \<and>
       decode_element fl (decode fl (n - 1)) name (ts @ rest) = Some (PDict kvs, rest))"
      by (simp add: decode_value_def decode_element_def)
  qed
next
  case (PBool b)
  show ?case by (cases b; rule decodes_leaf [OF tokens_of.simps(2)]) (simp_all add: decode_leaf_def)
qed (auto intro!: decodes_leaf simp: decode_leaf_def plist_int_dec)

text \<open>The decoder reads back every property list of booleans, integers, reals, texts, arrays and
  dictionaries from the tokens of its document.\<close>

theorem plist_roundtrip:
  assumes "plain_plist fl v"
  shows "decode_plist fl True (StartEl ''plist'' # tokens_of v @ [EndEl ''plist'']) = Inr v"
  by (simp add: decode_plist_def decodes_value [OF plain_decodes [OF assms]])

definition sample_session :: plist where
  "sample_session = PDict [(''IOConsoleLocked'', PBool False), (''IOConsoleUsers'', PArr [PDict
     [(''kCGSSessionOnConsoleKey'', PBool True), (''kCGSSessionUserNameKey'', PText ''ann''), (''kCGSSessionUserIDKey'', PInt 501)]])]"

theorem plist_roundtrip_witness:
  "decode_plist (\<lambda>_. False) True (StartEl ''plist'' # tokens_of sample_session @ [EndEl ''plist'']) = Inr sample_session"
  by (rule plist_roundtrip) (simp add: sample_session_def)

subsection \<open>What an attended host is\<close>

definition header_line :: "string \<Rightarrow> bool" where
  "header_line l \<longleftrightarrow> words_of l \<noteq> [] \<and> hd (words_of l) = ''Proto''"

definition share_line :: "string \<Rightarrow> bool" where
  "share_line l \<longleftrightarrow> words_of l \<noteq> [] \<and> hd (words_of l) \<noteq> ''Proto'' \<and> share_row (words_of l)"

lemma dropWhile_split:
  "dropWhile P xs = y # ys \<Longrightarrow> \<exists>pre. xs = pre @ y # ys \<and> \<not> P y \<and> (\<forall>x \<in> set pre. P x)"
  by (metis hd_dropWhile list.distinct(1) list.sel(1) set_takeWhileD takeWhile_dropWhile_id)

lemma parse_screen_share_Inr:
  "parse_screen_share payload = Inr shared \<Longrightarrow>
     \<exists>pre h rows. split_on (char_of (10 :: nat)) payload = pre @ h # rows \<and> header_line h \<and> shared = (\<exists>l \<in> set rows. share_line l)"
  by (auto simp: parse_screen_share_def scan_share_unseen scan_share_seen header_line_def share_line_def split: list.splits
      dest!: dropWhile_split)

lemma first_session_on:
  "on_console (first_session b us) \<Longrightarrow>
     \<exists>pre d post. us = pre @ PDict d # post \<and> (\<forall>e. PDict e \<in> set pre \<longrightarrow> \<not> as_bool (map_of e ''kCGSSessionOnConsoleKey'')) \<and>
       as_bool (map_of d ''kCGSSessionOnConsoleKey'') \<and>
       first_session b us = \<lparr>on_console = True, locked = b \<or> as_bool (map_of d ''CGSSessionScreenIsLocked''),
         console_user = as_text (map_of d ''kCGSSessionUserNameKey''), screen_shared = False\<rparr>"
proof (induction b us rule: first_session.induct)
  case (2 b d us)
  show ?case
  proof (cases "as_bool (map_of d ''kCGSSessionOnConsoleKey'')")
    case True
    then show ?thesis by (intro exI [of _ "[]"] exI [of _ d] exI [of _ us]) simp
  next
    case False
    with 2 obtain pre e post where "us = pre @ PDict e # post" "\<forall>e. PDict e \<in> set pre \<longrightarrow> \<not> as_bool (map_of e ''kCGSSessionOnConsoleKey'')"
      "as_bool (map_of e ''kCGSSessionOnConsoleKey'')"
      "first_session b us = \<lparr>on_console = True, locked = b \<or> as_bool (map_of e ''CGSSessionScreenIsLocked''),
         console_user = as_text (map_of e ''kCGSSessionUserNameKey''), screen_shared = False\<rparr>" by auto
    with False show ?thesis by (intro exI [of _ "PDict d # pre"] exI [of _ e] exI [of _ post]) auto
  qed
qed (simp_all add: no_session_def, (metis append_Cons set_ConsD plist.distinct)+)

text \<open>A host counts as attended only when the decoded \<^verbatim>\<open>ioreg\<close> list's first session on the console is
  unlocked and this process's user's, and the \<^verbatim>\<open>netstat\<close> table, its header seen, shows no established
  connection to the screen sharing port.\<close>

theorem attended_present:
  assumes "session fl ioreg netstat = Inr snap" and "attended me snap = Inr True"
  shows "\<exists>complete ts d us pre s post user table before h rows.
    ioreg = Inr (complete, ts) \<and> decode_plist fl complete ts = Inr (PDict d) \<and> \<not> as_bool (map_of d ''IOConsoleLocked'') \<and>
    map_of d ''IOConsoleUsers'' = Some (PArr us) \<and> us = pre @ PDict s # post \<and>
    (\<forall>e. PDict e \<in> set pre \<longrightarrow> \<not> as_bool (map_of e ''kCGSSessionOnConsoleKey'')) \<and>
    as_bool (map_of s ''kCGSSessionOnConsoleKey'') \<and> \<not> as_bool (map_of s ''CGSSessionScreenIsLocked'') \<and>
    me = Inr user \<and> as_text (map_of s ''kCGSSessionUserNameKey'') = user \<and>
    netstat = Inr table \<and> split_on (char_of (10 :: nat)) table = before @ h # rows \<and> header_line h \<and> (\<forall>l \<in> set rows. \<not> share_line l)"
proof -
  from assms(1) obtain complete ts v where io: "ioreg = Inr (complete, ts)" "decode_plist fl complete ts = Inr v" "is_ok (session_of v)"
    by (auto simp: session_def console_def parse_session_def andthen_Inr_iff)
  then obtain d where v: "v = PDict d" by (auto simp: session_of_def split: plist.splits)
  let ?us = "case map_of d ''IOConsoleUsers'' of Some (PArr us) \<Rightarrow> us | _ \<Rightarrow> []"
  from assms(1) io v obtain shared table where net: "netstat = Inr table" "parse_screen_share table = Inr shared"
    and snap: "snap = (first_session (as_bool (map_of d ''IOConsoleLocked'')) ?us)\<lparr>screen_shared := shared\<rparr>"
    by (auto simp: session_def console_def parse_session_def session_of_def andthen_Inr_iff)
  from assms(2) obtain user where me: "me = Inr user" "on_console snap" "\<not> locked snap" "console_user snap = user" "\<not> screen_shared snap"
    by (auto simp: attended_def andthen_Inr_iff)
  with snap have "on_console (first_session (as_bool (map_of d ''IOConsoleLocked'')) ?us)" by simp
  from first_session_on [OF this] obtain pre s post where s: "?us = pre @ PDict s # post"
    "\<forall>e. PDict e \<in> set pre \<longrightarrow> \<not> as_bool (map_of e ''kCGSSessionOnConsoleKey'')" "as_bool (map_of s ''kCGSSessionOnConsoleKey'')"
    "first_session (as_bool (map_of d ''IOConsoleLocked'')) ?us =
       \<lparr>on_console = True, locked = as_bool (map_of d ''IOConsoleLocked'') \<or> as_bool (map_of s ''CGSSessionScreenIsLocked''),
         console_user = as_text (map_of s ''kCGSSessionUserNameKey''), screen_shared = False\<rparr>" by blast
  from s(1) obtain us where us: "map_of d ''IOConsoleUsers'' = Some (PArr us)" "us = ?us"
    by (auto split: option.splits plist.splits)
  from parse_screen_share_Inr [OF net(2)] me(5) snap obtain before h rows where
    "split_on (char_of (10 :: nat)) table = before @ h # rows" "header_line h" "\<forall>l \<in> set rows. \<not> share_line l" by auto
  moreover have "\<not> as_bool (map_of d ''IOConsoleLocked'')" "\<not> as_bool (map_of s ''CGSSessionScreenIsLocked'')"
    "as_text (map_of s ''kCGSSessionUserNameKey'') = user" using me snap s(4) by auto
  moreover have "us = pre @ PDict s # post" using s(1) us(2) by simp
  ultimately show ?thesis using io(1) io(2) [unfolded v] net(1) me(1) s(2,3) us(1) by metis
qed

definition sample_table :: string where
  "sample_table = ''Proto Recv-Q Send-Q Local Foreign (state)'' @ [char_of (10 :: nat)] @
     ''tcp4 0 0 10.0.0.2.22 10.0.0.9.50111 ESTABLISHED'' @ [char_of (10 :: nat)] @ ''tcp4 0 0 *.5900 *.* LISTEN''"

theorem attended_present_witness:
  "\<exists>before h rows. split_on (char_of (10 :: nat)) sample_table = before @ h # rows \<and> header_line h \<and> (\<forall>l \<in> set rows. \<not> share_line l)"
proof -
  let ?io = "Inr (True, StartEl ''plist'' # tokens_of sample_session @ [EndEl ''plist''])" and ?me = "Inr ''ann''"
  have "session (\<lambda>_. False) ?io (Inr sample_table) = Inr \<lparr>on_console = True, locked = False, console_user = ''ann'', screen_shared = False\<rparr>"
    by code_simp
  moreover have "attended ?me \<lparr>on_console = True, locked = False, console_user = ''ann'', screen_shared = False\<rparr> = Inr True"
    by (simp add: attended_def)
  ultimately show ?thesis using attended_present [of "\<lambda>_. False" ?io "Inr sample_table" _ ?me] by blast
qed

end
