(* ===== verification/Consent_Route.thy ===== *)
theory Consent_Route
  imports Effects Go_Json Presence
begin

text \<open>
  Consent, the parts below the engine (\<^verbatim>\<open>src/consent/verdict.go\<close>, \<^verbatim>\<open>grants.go\<close>, \<^verbatim>\<open>route.go\<close>): error
  classes and their verdicts, the grants, and the walk over the peers that may approve.

  Everything outside this process answers through a \<open>consent_world\<close>, a reply per call as a function
  of all calls so far; the log of calls with their answers is what the theorems speak of. A Go error
  is the chain its wrapping makes. Texts of errors are abbreviated. The leg timeouts are the world's.
\<close>

subsection \<open>Errors and verdicts\<close>

datatype consent_verdict = VerdictOK | VerdictUnavailable | VerdictDenied | VerdictFatal | VerdictOther int

fun verdict_string :: "consent_verdict \<Rightarrow> string" where
  "verdict_string VerdictOK = ''approved''"
| "verdict_string VerdictUnavailable = ''unavailable''"
| "verdict_string VerdictDenied = ''denied''"
| "verdict_string VerdictFatal = ''fatal''"
| "verdict_string (VerdictOther _) = ''invalid''"

datatype consent_error =
    AuthRequired string
  | BindingMismatch string
  | Denied string
  | DeadlineExceeded
  | ExitError int int
  | SSHError string string consent_error
  | WrapError string consent_error
  | OtherError string

text \<open>The errors that \<^verbatim>\<open>errors.Is\<close> and \<^verbatim>\<open>errors.As\<close> look at, outermost first.\<close>

fun error_chain :: "consent_error \<Rightarrow> consent_error list" where
  "error_chain (SSHError a s e) = SSHError a s e # error_chain e"
| "error_chain (WrapError m e) = WrapError m e # error_chain e"
| "error_chain e = [e]"

fun is_mismatch :: "consent_error \<Rightarrow> bool" where
  "is_mismatch (BindingMismatch _) = True" | "is_mismatch _ = False"

fun is_auth_required :: "consent_error \<Rightarrow> bool" where
  "is_auth_required (AuthRequired _) = True" | "is_auth_required _ = False"

fun is_denied :: "consent_error \<Rightarrow> bool" where
  "is_denied (Denied _) = True" | "is_denied _ = False"

fun is_exit :: "consent_error \<Rightarrow> bool" where
  "is_exit (ExitError _ _) = True" | "is_exit _ = False"

fun is_ssh :: "consent_error \<Rightarrow> bool" where
  "is_ssh (SSHError _ _ _) = True" | "is_ssh _ = False"

definition classify :: "consent_error option \<Rightarrow> consent_verdict" where
  "classify err = (case err of
     None \<Rightarrow> VerdictOK
   | Some e \<Rightarrow>
       if list_ex is_mismatch (error_chain e) then VerdictFatal
       else if list_ex is_auth_required (error_chain e) then VerdictUnavailable
       else if list_ex is_denied (error_chain e) then VerdictDenied
       else VerdictFatal)"

definition exited :: "consent_error \<Rightarrow> bool" where
  "exited err = (case find is_exit (error_chain err) of Some (ExitError code signal) \<Rightarrow> signal = 0 | _ \<Rightarrow> False)"

definition routes_around :: "consent_error \<Rightarrow> bool" where
  "routes_around err = list_ex (\<lambda>e. e = DeadlineExceeded) (error_chain err)"

definition probe_routes_around :: "consent_error \<Rightarrow> bool" where
  "probe_routes_around err =
     (if list_ex (\<lambda>e. e = DeadlineExceeded) (error_chain err) then True
      else case find is_ssh (error_chain err) of Some (SSHError a s e) \<Rightarrow> exited e | _ \<Rightarrow> False)"

subsection \<open>Grants\<close>

type_synonym grants = "string \<times> string \<rightharpoonup> gotime"

definition prune :: "gotime \<Rightarrow> grants \<Rightarrow> grants" where
  "prune now g = (\<lambda>key. case g key of Some expiry \<Rightarrow> if now > expiry then None else Some expiry | None \<Rightarrow> None)"

definition granted_at :: "gotime \<Rightarrow> string \<Rightarrow> string \<Rightarrow> grants \<Rightarrow> grants \<times> gotime option" where
  "granted_at now requestor subject g = (let g' = prune now g in (g', g' (requestor, subject)))"

definition grant_at :: "gotime \<Rightarrow> string \<Rightarrow> string list \<Rightarrow> duration \<Rightarrow> grants \<Rightarrow> grants" where
  "grant_at now requestor subjects ttl g = fold (\<lambda>subject m. m((requestor, subject) \<mapsto> now + ttl)) subjects g"

definition cap_at :: "gotime \<Rightarrow> string \<Rightarrow> string \<Rightarrow> duration \<Rightarrow> grants \<Rightarrow> grants" where
  "cap_at now requestor subject ttl g =
     (case g (requestor, subject) of
        Some expiry \<Rightarrow> if expiry > now + ttl then g((requestor, subject) \<mapsto> now + ttl) else g
      | None \<Rightarrow> g)"

subsection \<open>Requests, replies and their encoding\<close>

record phone =
  ph_name :: string
  ph_node_id :: string
  ph_push_token :: string
  ph_transport_key :: string

record consent_request =
  rq_requestor :: string
  rq_client :: string
  rq_reason :: string
  rq_subject :: string
  rq_origin :: string
  rq_argv :: "string list"
  rq_nonce :: string
  rq_ttl :: duration
  rq_local_only :: bool
  rq_approvers :: "string list option"
  rq_phones :: "phone list"

record phone_ask =
  pa_origin :: string
  pa_argv :: "string list"
  pa_nonce :: string

record attestation =
  at_key_id :: string
  at_sig :: string
  at_signed_by :: string

record prompt_result =
  pr_verdict :: consent_verdict
  pr_attestation :: "attestation option"

record reply =
  rp_status :: string
  rp_nonce :: string
  rp_endpoint :: string
  rp_key_id :: string
  rp_sig :: string
  rp_signed_by :: string
  rp_peer :: string

definition zero_reply :: reply where
  "zero_reply = \<lparr>rp_status = [], rp_nonce = [], rp_endpoint = [], rp_key_id = [], rp_sig = [], rp_signed_by = [], rp_peer = []\<rparr>"

record relay_request =
  rr_client :: string
  rr_reason :: string
  rr_subject :: string
  rr_nonce :: string
  rr_endpoint :: string
  rr_origin :: string
  rr_argv :: "string list"
  rr_sign_nonce :: string

text \<open>\<^verbatim>\<open>json.Unmarshal\<close> into a struct ignores unknown keys and matches keys in any (ASCII) case.\<close>

definition fold_key :: "string \<Rightarrow> string" where
  "fold_key k = map (\<lambda>c. let n = of_char c :: nat in if 65 \<le> n \<and> n \<le> 90 then char_of (n + 32) else c) k"

definition as_boolean :: "json \<Rightarrow> bool \<Rightarrow> bool option" where
  "as_boolean j old = (case j of JBool b \<Rightarrow> Some b | JNull \<Rightarrow> Some old | _ \<Rightarrow> None)"

definition set_reply :: "string \<Rightarrow> json \<Rightarrow> reply \<Rightarrow> reply option" where
  "set_reply key j r = (let k = fold_key key in
     if k = ''status'' then map_option (\<lambda>s. r\<lparr>rp_status := s\<rparr>) (as_str j (rp_status r))
     else if k = ''nonce'' then map_option (\<lambda>s. r\<lparr>rp_nonce := s\<rparr>) (as_str j (rp_nonce r))
     else if k = ''endpoint'' then map_option (\<lambda>s. r\<lparr>rp_endpoint := s\<rparr>) (as_str j (rp_endpoint r))
     else if k = ''key_id'' then map_option (\<lambda>s. r\<lparr>rp_key_id := s\<rparr>) (as_str j (rp_key_id r))
     else if k = ''sig'' then map_option (\<lambda>s. r\<lparr>rp_sig := s\<rparr>) (as_str j (rp_sig r))
     else if k = ''signed_by'' then map_option (\<lambda>s. r\<lparr>rp_signed_by := s\<rparr>) (as_str j (rp_signed_by r))
     else Some r)"

definition reply_of :: "string \<Rightarrow> reply option" where
  "reply_of out = Option.bind (unmarshal out) (as_struct set_reply zero_reply)"

definition set_snapshot :: "string \<Rightarrow> json \<Rightarrow> session_snapshot \<Rightarrow> session_snapshot option" where
  "set_snapshot key j s = (let k = fold_key key in
     if k = ''on_console'' then map_option (\<lambda>b. s\<lparr>on_console := b\<rparr>) (as_boolean j (on_console s))
     else if k = ''locked'' then map_option (\<lambda>b. s\<lparr>locked := b\<rparr>) (as_boolean j (locked s))
     else if k = ''console_user'' then map_option (\<lambda>u. s\<lparr>console_user := u\<rparr>) (as_str j (console_user s))
     else if k = ''screen_shared'' then map_option (\<lambda>b. s\<lparr>screen_shared := b\<rparr>) (as_boolean j (screen_shared s))
     else Some s)"

definition snapshot_of :: "string \<Rightarrow> session_snapshot option" where
  "snapshot_of out = Option.bind (unmarshal out) (as_struct set_snapshot no_session)"

definition relay_json :: "relay_request \<Rightarrow> json" where
  "relay_json r = JObj
     ([(''client'', JStr (rr_client r)), (''reason'', JStr (rr_reason r)), (''subject'', JStr (rr_subject r)),
       (''nonce'', JStr (rr_nonce r)), (''endpoint'', JStr (rr_endpoint r)), (''origin'', JStr (rr_origin r))] @
      (if rr_argv r = [] then [] else [(''argv'', JArr (map JStr (rr_argv r)))]) @
      (if rr_sign_nonce r = [] then [] else [(''sign_nonce'', JStr (rr_sign_nonce r))]))"

subsection \<open>Calls and their log\<close>

datatype consent_call =
    ReadClock gotime
  | ReadSelf "consent_error + string"
  | ReadUser "string res"
  | Probed "consent_error + session_snapshot"
  | Prompted consent_request "consent_error + prompt_result"
  | Resolved "consent_error + string list"
  | Minted "consent_error + string"
  | Ran string string "string option" "consent_error + string"
  | AskedPhone phone phone_ask "consent_error + reply"

type_synonym calls = "consent_call list"

record consent_world =
  cw_now :: "calls \<Rightarrow> gotime"
  cw_self :: "calls \<Rightarrow> consent_error + string"
  cw_user :: "calls \<Rightarrow> string res"
  cw_probe :: "calls \<Rightarrow> consent_error + session_snapshot"
  cw_prompt :: "consent_request \<Rightarrow> calls \<Rightarrow> consent_error + prompt_result"
  cw_resolve :: "calls \<Rightarrow> consent_error + string list"
  cw_nonce :: "calls \<Rightarrow> consent_error + string"
  cw_run :: "string \<Rightarrow> string \<Rightarrow> string option \<Rightarrow> calls \<Rightarrow> consent_error + string"
  cw_phones :: "(phone \<Rightarrow> phone_ask \<Rightarrow> calls \<Rightarrow> consent_error + reply) option"
  cw_probe_cmd :: string

record desk =
  dk_calls :: calls
  dk_grants :: grants

type_synonym 'a consent_act = "desk \<Rightarrow> desk \<times> (consent_error + 'a)"

definition called :: "(calls \<Rightarrow> 'r) \<Rightarrow> ('r \<Rightarrow> consent_call) \<Rightarrow> ('r \<Rightarrow> consent_error + 'a) \<Rightarrow> 'a consent_act" where
  "called answer ev res s = (let r = answer (dk_calls s) in (s\<lparr>dk_calls := dk_calls s @ [ev r]\<rparr>, res r))"

definition caught :: "'a consent_act \<Rightarrow> (consent_error + 'a) consent_act" where
  "caught m s = (case m s of (s', r) \<Rightarrow> (s', Inr r))"

definition run_remote :: "consent_world \<Rightarrow> string \<Rightarrow> string \<Rightarrow> string option \<Rightarrow> string consent_act" where
  "run_remote w peer cmd stdin = called (cw_run w peer cmd stdin) (Ran peer cmd stdin) (\<lambda>r. r)"

subsection \<open>The walk\<close>

definition live :: "consent_world \<Rightarrow> string \<Rightarrow> bool consent_act" where
  "live w peer =
     bindE (run_remote w peer (cw_probe_cmd w) None) (\<lambda>out.
       case snapshot_of out of
         None \<Rightarrow> liftE (Inl (WrapError ''parse presence'' (OtherError ''json'')))
       | Some snap \<Rightarrow> liftE (Inr (on_console snap \<and> \<not> locked snap \<and> \<not> screen_shared snap)))"

text \<open>\<^verbatim>\<open>relay\<close>: an inner \<open>Inl\<close> is \<^verbatim>\<open>next = true\<close> with its error; \<open>attempt\<close> composes the command.\<close>

type_synonym attempt = "string \<Rightarrow> string \<Rightarrow> consent_error + string \<times> string"

definition relay_answer :: "string \<Rightarrow> string \<Rightarrow> string \<Rightarrow> string \<Rightarrow> consent_error + (consent_error + reply)" where
  "relay_answer peer nonce endpoint out =
     (case reply_of out of
        None \<Rightarrow> Inl (WrapError ''parse consent reply'' (OtherError ''json''))
      | Some rep \<Rightarrow>
          if rp_status rep = ''denied'' then Inl (Denied peer)
          else if rp_status rep = ''unavailable'' then Inr (Inl (AuthRequired (''consent unavailable from '' @ peer)))
          else if rp_status rep \<noteq> ''approved'' then Inl (OtherError ''unexpected status'')
          else if rp_nonce rep \<noteq> nonce \<or> rp_endpoint rep \<noteq> endpoint then Inl (BindingMismatch peer)
          else Inr (Inr (rep\<lparr>rp_peer := peer\<rparr>)))"

definition relay :: "consent_world \<Rightarrow> string \<Rightarrow> string \<Rightarrow> attempt \<Rightarrow> (consent_error + reply) consent_act" where
  "relay w peer endpoint attempt =
     bindE (called (cw_nonce w) Minted (\<lambda>r. r)) (\<lambda>nonce.
     bindE (liftE (attempt peer nonce)) (\<lambda>(cmd, stdin).
     bindE (caught (run_remote w peer cmd (Some stdin))) (\<lambda>ran.
       case ran of
         Inl e \<Rightarrow>
           if routes_around e then liftE (Inr (Inl (AuthRequired (''consent relay timed out: '' @ peer))))
           else liftE (Inl (WrapError ''consent relay'' e))
       | Inr out \<Rightarrow> liftE (relay_answer peer nonce endpoint out))))"

fun walk :: "consent_world \<Rightarrow> string list \<Rightarrow> string \<Rightarrow> attempt \<Rightarrow> consent_error option \<Rightarrow> reply consent_act" where
  "walk w [] endpoint attempt last_err =
     liftE (Inl (case last_err of Some e \<Rightarrow> e | None \<Rightarrow> AuthRequired ''no peer has a live session to approve consent''))"
| "walk w (peer # peers) endpoint attempt last_err =
     bindE (caught (live w peer)) (\<lambda>alive.
       case alive of
         Inl e \<Rightarrow> if probe_routes_around e then walk w peers endpoint attempt last_err else liftE (Inl e)
       | Inr False \<Rightarrow> walk w peers endpoint attempt last_err
       | Inr True \<Rightarrow>
           bindE (relay w peer endpoint attempt) (\<lambda>leg.
             case leg of
               Inl e \<Rightarrow> walk w peers endpoint attempt (Some e)
             | Inr reply \<Rightarrow> liftE (Inr reply)))"

definition route_candidates :: "consent_world \<Rightarrow> string list \<Rightarrow> string \<Rightarrow> attempt \<Rightarrow> reply consent_act" where
  "route_candidates w candidates endpoint attempt = walk w candidates endpoint attempt None"

end
