(* ===== verification/Consent_Engine.thy ===== *)
theory Consent_Engine
  imports Consent_Route
begin

text \<open>
  The consent engine and its RPC handlers (\<^verbatim>\<open>src/consent/engine.go\<close>, \<^verbatim>\<open>service.go\<close>, and the relay leg's
  process in \<^verbatim>\<open>src/daemon/consent.go\<close>): one ask served from a grant, prompted here, routed to a peer or
  taken to a phone; the approver's leg; what both answer on the wire.
\<close>

subsection \<open>Decisions\<close>

definition RelayCommand :: string where "RelayCommand = ''synckitd consent relay''"
definition PresenceCommand :: string where "PresenceCommand = ''synckitd consent presence''"

record decision =
  dn_verdict :: consent_verdict
  dn_approved_by :: string
  dn_routed :: bool
  dn_cached :: bool
  dn_granted_until :: "gotime option"
  dn_attestation :: "attestation option"

definition decided :: "consent_verdict \<Rightarrow> decision" where
  "decided v = \<lparr>dn_verdict = v, dn_approved_by = [], dn_routed = False, dn_cached = False, dn_granted_until = None, dn_attestation = None\<rparr>"

definition attests :: "consent_request \<Rightarrow> bool" where
  "attests req \<longleftrightarrow> rq_argv req \<noteq> []"

definition granted :: "consent_world \<Rightarrow> string \<Rightarrow> string \<Rightarrow> gotime option consent_act" where
  "granted w requestor subject =
     bindE (called (cw_now w) ReadClock Inr) (\<lambda>now s.
       let (g, until) = granted_at now requestor subject (dk_grants s) in (s\<lparr>dk_grants := g\<rparr>, Inr until))"

definition grant :: "consent_world \<Rightarrow> string \<Rightarrow> string list \<Rightarrow> duration \<Rightarrow> unit consent_act" where
  "grant w requestor subjects ttl =
     bindE (called (cw_now w) ReadClock Inr) (\<lambda>now s. (s\<lparr>dk_grants := grant_at now requestor subjects ttl (dk_grants s)\<rparr>, Inr ()))"

text \<open>\<^verbatim>\<open>presence.Attended\<close> asks for this process's user.\<close>

definition is_attended :: "consent_world \<Rightarrow> session_snapshot \<Rightarrow> bool consent_act" where
  "is_attended w snap = called (cw_user w) ReadUser (\<lambda>me.
     case attended me snap of Inl _ \<Rightarrow> Inl (OtherError ''resolve current user'') | Inr b \<Rightarrow> Inr b)"

definition self :: "consent_world \<Rightarrow> string consent_act" where
  "self w = called (cw_self w) ReadSelf (\<lambda>r. r)"

definition probe_console :: "consent_world \<Rightarrow> session_snapshot consent_act" where
  "probe_console w = called (cw_probe w) Probed (\<lambda>r. r)"

definition prompt :: "consent_world \<Rightarrow> consent_request \<Rightarrow> prompt_result consent_act" where
  "prompt w req = called (cw_prompt w req) (Prompted req) (\<lambda>r. r)"

definition approve :: "consent_world \<Rightarrow> consent_request \<Rightarrow> decision \<Rightarrow> decision consent_act" where
  "approve w req d =
     (if rq_ttl req \<le> 0 \<or> attests req then liftE (Inr d)
      else bindE (grant w (rq_requestor req) [rq_subject req] (rq_ttl req)) (\<lambda>_.
           bindE (called (cw_now w) ReadClock Inr) (\<lambda>now.
             liftE (Inr (d\<lparr>dn_granted_until := Some (now + rq_ttl req)\<rparr>)))))"

fun ask_phones_from :: "consent_world \<Rightarrow> (phone \<Rightarrow> phone_ask \<Rightarrow> calls \<Rightarrow> consent_error + reply) \<Rightarrow> phone_ask \<Rightarrow> phone list \<Rightarrow> reply consent_act" where
  "ask_phones_from w transport ask [] = liftE (Inl (AuthRequired ''no mac or phone approved consent''))"
| "ask_phones_from w transport ask (p # ps) =
     bindE (caught (called (transport p ask) (AskedPhone p ask) (\<lambda>r. r))) (\<lambda>r.
       case r of
         Inl e \<Rightarrow> if classify (Some e) = VerdictUnavailable then ask_phones_from w transport ask ps else liftE (Inl e)
       | Inr reply \<Rightarrow> liftE (Inr (reply\<lparr>rp_peer := ph_name p, rp_signed_by := ph_name p\<rparr>)))"

definition ask_phones :: "consent_world \<Rightarrow> (phone \<Rightarrow> phone_ask \<Rightarrow> calls \<Rightarrow> consent_error + reply) \<Rightarrow> consent_request \<Rightarrow> string \<Rightarrow> reply consent_act" where
  "ask_phones w transport req origin =
     ask_phones_from w transport \<lparr>pa_origin = origin, pa_argv = rq_argv req, pa_nonce = rq_nonce req\<rparr> (rq_phones req)"

definition keep_approvers :: "consent_request \<Rightarrow> string list \<Rightarrow> string list" where
  "keep_approvers req candidates = (case rq_approvers req of
     None \<Rightarrow> candidates
   | Some approvers \<Rightarrow> filter (\<lambda>peer. peer \<in> set approvers) candidates)"

definition endpoint_of :: "string \<Rightarrow> consent_request \<Rightarrow> string" where
  "endpoint_of origin req = origin @ '':'' @ rq_subject req"

definition relay_of :: "string \<Rightarrow> consent_request \<Rightarrow> string \<Rightarrow> relay_request" where
  "relay_of origin req nonce = \<lparr>rr_client = rq_client req, rr_reason = rq_reason req, rr_subject = rq_subject req,
     rr_nonce = nonce, rr_endpoint = endpoint_of origin req, rr_origin = origin, rr_argv = rq_argv req, rr_sign_nonce = rq_nonce req\<rparr>"

definition relay_attempt :: "string \<Rightarrow> consent_request \<Rightarrow> attempt" where
  "relay_attempt origin req peer nonce = Inr (RelayCommand, render (relay_json (relay_of origin req nonce)))"

text \<open>The end of \<^verbatim>\<open>route\<close>: the walk's or the phones' outcome folded into a decision.\<close>

definition settle_route :: "consent_world \<Rightarrow> consent_request \<Rightarrow> consent_error + reply \<Rightarrow> decision consent_act" where
  "settle_route w req outcome =
     (case outcome of
        Inl e \<Rightarrow>
          (case classify (Some e) of
             VerdictDenied \<Rightarrow> liftE (Inr ((decided VerdictDenied)\<lparr>dn_routed := True\<rparr>))
           | VerdictUnavailable \<Rightarrow> liftE (Inr ((decided VerdictUnavailable)\<lparr>dn_routed := True\<rparr>))
           | _ \<Rightarrow> liftE (Inl e))
      | Inr reply \<Rightarrow>
          approve w req ((decided VerdictOK)\<lparr>dn_approved_by := rp_peer reply, dn_routed := True, dn_attestation :=
            (if rp_sig reply \<noteq> [] then Some \<lparr>at_key_id = rp_key_id reply, at_sig = rp_sig reply, at_signed_by = rp_signed_by reply\<rparr> else None)\<rparr>))"

text \<open>Phones are asked once no Mac approved, and only for an attesting request.\<close>

definition or_phones :: "consent_world \<Rightarrow> consent_request \<Rightarrow> string \<Rightarrow> consent_error + reply \<Rightarrow> (consent_error + reply) consent_act" where
  "or_phones w req origin walked =
     (case (walked, cw_phones w) of
        (Inl e, Some transport) \<Rightarrow>
          if classify (Some e) = VerdictUnavailable \<and> attests req then caught (ask_phones w transport req origin)
          else liftE (Inr walked)
      | _ \<Rightarrow> liftE (Inr walked))"

definition route :: "consent_world \<Rightarrow> consent_request \<Rightarrow> decision consent_act" where
  "route w req =
     bindE (self w) (\<lambda>origin.
       if origin = [] then liftE (Inl (OtherError ''cannot route without this host's mesh identity''))
       else
         bindE (called (cw_resolve w) Resolved (\<lambda>r. r)) (\<lambda>candidates.
         bindE (caught (route_candidates w (keep_approvers req candidates) (endpoint_of origin req) (relay_attempt origin req))) (\<lambda>walked.
         bindE (or_phones w req origin walked) (settle_route w req))))"

definition decide_remote :: "consent_world \<Rightarrow> consent_request \<Rightarrow> decision consent_act" where
  "decide_remote w req = (if rq_local_only req then liftE (Inr (decided VerdictUnavailable)) else route w req)"

text \<open>The engine puts this host's name on a signature made here.\<close>

definition signed_here :: "string \<Rightarrow> attestation option \<Rightarrow> attestation option" where
  "signed_here me a = map_option (\<lambda>x. x\<lparr>at_signed_by := me\<rparr>) a"

definition decide_local :: "consent_world \<Rightarrow> consent_request \<Rightarrow> decision consent_act" where
  "decide_local w req =
     bindE (prompt w req) (\<lambda>res.
       case pr_verdict res of
         VerdictOK \<Rightarrow>
           bindE (self w) (\<lambda>me.
             approve w req ((decided VerdictOK)\<lparr>dn_approved_by := me, dn_attestation := signed_here me (pr_attestation res)\<rparr>))
       | VerdictDenied \<Rightarrow> liftE (Inr (decided VerdictDenied))
       | VerdictUnavailable \<Rightarrow> decide_remote w req
       | _ \<Rightarrow> liftE (Inl (OtherError ''consent: local prompt returned a fatal verdict'')))"

definition decide_gate :: "consent_world \<Rightarrow> consent_request \<Rightarrow> decision consent_act" where
  "decide_gate w req =
     bindE (probe_console w) (\<lambda>snap.
     bindE (is_attended w snap) (\<lambda>here.
       if here then decide_local w req else decide_remote w req))"

definition decide :: "consent_world \<Rightarrow> consent_request \<Rightarrow> decision consent_act" where
  "decide w req =
     bindE (if attests req then liftE (Inr None) else granted w (rq_requestor req) (rq_subject req)) (\<lambda>cached.
       case cached of
         Some until \<Rightarrow> liftE (Inr ((decided VerdictOK)\<lparr>dn_cached := True, dn_granted_until := Some until\<rparr>))
       | None \<Rightarrow> decide_gate w req)"

text \<open>The approver's leg. The provenance text starts with a space, an em dash and a space.\<close>

definition provenance :: "string \<Rightarrow> string" where
  "provenance origin = '' '' @ map char_of [226, 128, 148 :: nat] @ '' requested from '' @ origin"

definition stamp_origin :: "consent_request \<Rightarrow> consent_request" where
  "stamp_origin req = (if rq_argv req = [] \<and> rq_origin req \<noteq> [] then req\<lparr>rq_reason := rq_reason req @ provenance (rq_origin req)\<rparr> else req)"

definition relay_prompt :: "consent_world \<Rightarrow> consent_request \<Rightarrow> decision consent_act" where
  "relay_prompt w req =
     bindE (prompt w (stamp_origin req)) (\<lambda>res.
       case pr_attestation res of
         None \<Rightarrow> liftE (Inr (decided (pr_verdict res)))
       | Some a \<Rightarrow>
           bindE (self w) (\<lambda>me.
             liftE (Inr ((decided (pr_verdict res))\<lparr>dn_attestation := Some (a\<lparr>at_signed_by := me\<rparr>)\<rparr>))))"

definition engine_relay :: "consent_world \<Rightarrow> consent_request \<Rightarrow> decision consent_act" where
  "engine_relay w req =
     bindE (caught (probe_console w)) (\<lambda>probed.
       case probed of
         Inl _ \<Rightarrow> liftE (Inr (decided VerdictUnavailable))
       | Inr snap \<Rightarrow>
           bindE (is_attended w snap) (\<lambda>here.
             if \<not> here then liftE (Inr (decided VerdictUnavailable)) else relay_prompt w req))"

subsection \<open>The handlers\<close>

text \<open>A request's parameters are the members of a JSON object, the last of a repeated key counting.
  \<open>millis\<close> is \<^verbatim>\<open>time.Duration\<close> of the float64 a number's literal reads as.\<close>

type_synonym rpc_params = "(string \<times> json) list"

definition param :: "rpc_params \<Rightarrow> string \<Rightarrow> json option" where
  "param ps key = map_of (rev ps) key"

definition string_param :: "rpc_params \<Rightarrow> string \<Rightarrow> consent_error + string" where
  "string_param ps key = (case param ps key of
     None \<Rightarrow> Inl (OtherError (''missing param '' @ key))
   | Some (JStr s) \<Rightarrow> Inr s
   | Some _ \<Rightarrow> Inl (OtherError (''param is no string: '' @ key)))"

definition optional_string :: "rpc_params \<Rightarrow> string \<Rightarrow> consent_error + string" where
  "optional_string ps key = (case param ps key of None \<Rightarrow> Inr [] | Some _ \<Rightarrow> string_param ps key)"

fun json_strings :: "string \<Rightarrow> json list \<Rightarrow> consent_error + string list" where
  "json_strings key [] = Inr []"
| "json_strings key (JStr s # js) = (case json_strings key js of Inl e \<Rightarrow> Inl e | Inr ss \<Rightarrow> Inr (s # ss))"
| "json_strings key (_ # js) = Inl (OtherError (''param element is no string: '' @ key))"

definition strings_param :: "rpc_params \<Rightarrow> string \<Rightarrow> consent_error + string list option" where
  "strings_param ps key = (case param ps key of
     None \<Rightarrow> Inr None
   | Some (JArr js) \<Rightarrow> (case json_strings key js of Inl e \<Rightarrow> Inl e | Inr ss \<Rightarrow> Inr (Some ss))
   | Some _ \<Rightarrow> Inl (OtherError (''param is no array: '' @ key)))"

definition phone_param :: "rpc_params \<Rightarrow> consent_error + phone" where
  "phone_param fs =
     (case string_param fs ''name'' of Inl e \<Rightarrow> Inl e | Inr name \<Rightarrow>
     (case string_param fs ''node_id'' of Inl e \<Rightarrow> Inl e | Inr node \<Rightarrow>
     (case string_param fs ''push_token'' of Inl e \<Rightarrow> Inl e | Inr token \<Rightarrow>
     (case string_param fs ''transport_key'' of Inl e \<Rightarrow> Inl e | Inr key \<Rightarrow>
        Inr \<lparr>ph_name = name, ph_node_id = node, ph_push_token = token, ph_transport_key = key\<rparr>))))"

fun json_phones :: "string \<Rightarrow> json list \<Rightarrow> consent_error + phone list" where
  "json_phones key [] = Inr []"
| "json_phones key (JObj fs # js) = (case phone_param fs of
     Inl e \<Rightarrow> Inl (WrapError key e)
   | Inr p \<Rightarrow> (case json_phones key js of Inl e \<Rightarrow> Inl e | Inr ps \<Rightarrow> Inr (p # ps)))"
| "json_phones key (_ # js) = Inl (OtherError (''param element is no object: '' @ key))"

definition phones_param :: "rpc_params \<Rightarrow> string \<Rightarrow> consent_error + phone list" where
  "phones_param ps key = (case param ps key of
     None \<Rightarrow> Inr []
   | Some (JArr js) \<Rightarrow> json_phones key js
   | Some _ \<Rightarrow> Inl (OtherError (''param is no array: '' @ key)))"

definition millis_param :: "(string \<Rightarrow> int) \<Rightarrow> rpc_params \<Rightarrow> string \<Rightarrow> consent_error + duration" where
  "millis_param millis ps key = (case param ps key of
     None \<Rightarrow> Inr 0
   | Some (JNum n) \<Rightarrow> Inr (wrap64 (millis n * 1000000))
   | Some _ \<Rightarrow> Inl (OtherError (''param is no number: '' @ key)))"

definition bool_param :: "rpc_params \<Rightarrow> string \<Rightarrow> consent_error + bool" where
  "bool_param ps key = (case param ps key of
     None \<Rightarrow> Inr False
   | Some (JBool b) \<Rightarrow> Inr b
   | Some _ \<Rightarrow> Inl (OtherError (''param is no bool: '' @ key)))"

definition if_ok :: "'e + 'a \<Rightarrow> ('a \<Rightarrow> 'e + 'b) \<Rightarrow> 'e + 'b" where
  "if_ok r k = (case r of Inl e \<Rightarrow> Inl e | Inr x \<Rightarrow> k x)"

definition request_params :: "(string \<Rightarrow> int) \<Rightarrow> int \<Rightarrow> rpc_params \<Rightarrow> consent_error + consent_request" where
  "request_params millis sid ps =
     if_ok (string_param ps ''client'') (\<lambda>client.
     if_ok (string_param ps ''reason'') (\<lambda>reason.
     if_ok (string_param ps ''subject'') (\<lambda>subject.
     if_ok (strings_param ps ''argv'') (\<lambda>argv.
     if_ok (optional_string ps ''nonce'') (\<lambda>nonce.
     if_ok (millis_param millis ps ''ttl_ms'') (\<lambda>ttl.
     if_ok (bool_param ps ''local_only'') (\<lambda>local_only.
     if_ok (strings_param ps ''approvers'') (\<lambda>approvers.
     if_ok (phones_param ps ''phones'') (\<lambda>phones.
       Inr \<lparr>rq_requestor = ''sid:'' @ dec_int sid, rq_client = client, rq_reason = reason, rq_subject = subject, rq_origin = [],
         rq_argv = (case argv of None \<Rightarrow> [] | Some a \<Rightarrow> a), rq_nonce = nonce, rq_ttl = ttl, rq_local_only = local_only,
         rq_approvers = approvers, rq_phones = phones\<rparr>)))))))))"

definition attestation_json :: "attestation \<Rightarrow> (string \<times> json) list" where
  "attestation_json a = [(''key_id'', JStr (at_key_id a)), (''sig'', JStr (at_sig a)), (''signed_by'', JStr (at_signed_by a))]"

text \<open>\<open>rfc3339\<close> formats a time. The result is a Go map: its members in the order of their keys when encoded.\<close>

definition decision_json :: "(gotime \<Rightarrow> string) \<Rightarrow> decision \<Rightarrow> json" where
  "decision_json rfc3339 d = JObj
     ([(''approved_by'', JStr (dn_approved_by d))] @
      (case dn_attestation d of None \<Rightarrow> [] | Some a \<Rightarrow> [(''attestation'', JObj (attestation_json a))]) @
      [(''cached'', JBool (dn_cached d))] @
      (case dn_granted_until d of None \<Rightarrow> [] | Some t \<Rightarrow> [(''granted_until'', JStr (rfc3339 t))]) @
      [(''routed'', JBool (dn_routed d)), (''verdict'', JStr (verdict_string (dn_verdict d)))])"

definition handle_request :: "consent_world \<Rightarrow> (string \<Rightarrow> int) \<Rightarrow> (gotime \<Rightarrow> string) \<Rightarrow> int option \<Rightarrow> rpc_params \<Rightarrow> json consent_act" where
  "handle_request w millis rfc3339 peer_sid ps =
     (case peer_sid of
        None \<Rightarrow> liftE (Inl (OtherError ''consent.request: peer session id unavailable on this connection''))
      | Some sid \<Rightarrow>
          bindE (liftE (request_params millis sid ps)) (\<lambda>req.
          bindE (decide w req) (\<lambda>d. liftE (Inr (decision_json rfc3339 d)))))"

definition relay_params :: "rpc_params \<Rightarrow> consent_error + consent_request \<times> string \<times> string" where
  "relay_params ps =
     if_ok (string_param ps ''nonce'') (\<lambda>nonce.
     if_ok (string_param ps ''endpoint'') (\<lambda>endpoint.
     if_ok (string_param ps ''origin'') (\<lambda>origin.
     if_ok (string_param ps ''reason'') (\<lambda>reason.
     if_ok (string_param ps ''subject'') (\<lambda>subject.
     if_ok (string_param ps ''client'') (\<lambda>client.
     if client = [] then Inl (OtherError ''consent.relay: param client must not be empty'') else
     if_ok (strings_param ps ''argv'') (\<lambda>argv.
     if_ok (optional_string ps ''sign_nonce'') (\<lambda>sign_nonce.
       Inr (\<lparr>rq_requestor = ''host:'' @ origin, rq_client = client, rq_reason = reason, rq_subject = subject, rq_origin = origin,
         rq_argv = (case argv of None \<Rightarrow> [] | Some a \<Rightarrow> a), rq_nonce = sign_nonce, rq_ttl = 0, rq_local_only = False,
         rq_approvers = None, rq_phones = []\<rparr>, nonce, endpoint)))))))))"

definition relay_result :: "string \<Rightarrow> string \<Rightarrow> decision \<Rightarrow> consent_error + json" where
  "relay_result nonce endpoint d =
     (case dn_verdict d of
        VerdictOK \<Rightarrow>
          (let att = (case dn_attestation d of None \<Rightarrow> (\<lambda>k. None) | Some a \<Rightarrow> map_of (attestation_json a));
               member = (\<lambda>k. case att k of None \<Rightarrow> [] | Some j \<Rightarrow> [(k, j)]) in
           Inr (JObj ([(''endpoint'', JStr endpoint)] @ member ''key_id'' @ [(''nonce'', JStr nonce)] @ member ''sig'' @
             member ''signed_by'' @ [(''status'', JStr ''approved'')])))
      | VerdictDenied \<Rightarrow> Inr (JObj [(''status'', JStr ''denied'')])
      | VerdictUnavailable \<Rightarrow> Inr (JObj [(''status'', JStr ''unavailable'')])
      | _ \<Rightarrow> Inl (OtherError ''consent.relay: unexpected verdict''))"

definition handle_relay :: "consent_world \<Rightarrow> rpc_params \<Rightarrow> json consent_act" where
  "handle_relay w ps =
     bindE (liftE (relay_params ps)) (\<lambda>(req, nonce, endpoint).
     bindE (engine_relay w req) (\<lambda>d. liftE (relay_result nonce endpoint d)))"

definition handle_presence :: "consent_world \<Rightarrow> session_snapshot consent_act" where
  "handle_presence w = probe_console w"

text \<open>The process a routed walk starts on the peer: one JSON object in, one JSON line out, every failure
  an unavailable reply. The daemon's socket between it and the handler carries parameters and result unchanged.\<close>

definition relay_reply :: "consent_world \<Rightarrow> string \<Rightarrow> json consent_act" where
  "relay_reply w stdin = (case unmarshal (take 16777216 stdin) of
     Some (JObj ps) \<Rightarrow> handle_relay w ps
   | Some JNull \<Rightarrow> handle_relay w []
   | _ \<Rightarrow> liftE (Inl (OtherError ''parse relay request'')))"

definition run_relay :: "consent_world \<Rightarrow> string \<Rightarrow> desk \<Rightarrow> desk \<times> string" where
  "run_relay w stdin s = (case relay_reply w stdin s of
     (s', Inl _) \<Rightarrow> (s', render (JObj [(''status'', JStr ''unavailable'')]) @ [char_of (10 :: nat)])
   | (s', Inr j) \<Rightarrow> (s', render j @ [char_of (10 :: nat)]))"

end
