(* ===== verification/Consent_Safe.thy ===== *)
theory Consent_Safe
  imports Consent_Engine
begin

text \<open>
  What an approval of \<open>Consent_Engine\<close> rests on: an approval needs a live grant or one human's own
  answer, a denial ends the ask, the approver's leg asks nobody else, and an approval relayed by a
  peer was prompted there for this request.
\<close>

subsection \<open>Calls of an operation\<close>

text \<open>\<open>emits m Q\<close>: whatever the state, \<open>m\<close> appends calls that stand in \<open>Q\<close> with its result.\<close>

definition emits :: "'a consent_act \<Rightarrow> (calls \<Rightarrow> consent_error + 'a \<Rightarrow> bool) \<Rightarrow> bool" where
  "emits m Q \<longleftrightarrow> (\<forall>s s' r. m s = (s', r) \<longrightarrow> (\<exists>new. dk_calls s' = dk_calls s @ new \<and> Q new r))"

lemma emitsI: "(\<And>s s' r. m s = (s', r) \<Longrightarrow> \<exists>new. dk_calls s' = dk_calls s @ new \<and> Q new r) \<Longrightarrow> emits m Q"
  by (simp add: emits_def)

lemma emitsD: "emits m Q \<Longrightarrow> m s = (s', r) \<Longrightarrow> \<exists>new. dk_calls s' = dk_calls s @ new \<and> Q new r"
  by (simp add: emits_def)

lemma emits_bind:
  assumes "emits m P" and "\<And>e new. P new (Inl e) \<Longrightarrow> Q new (Inl e)"
    and "\<And>x pre. P pre (Inr x) \<Longrightarrow> emits (k x) (\<lambda>new r. Q (pre @ new) r)"
  shows "emits (bindE m k) Q"
proof (rule emitsI)
  fix s s' r assume "bindE m k s = (s', r)"
  then show "\<exists>new. dk_calls s' = dk_calls s @ new \<and> Q new r"
  proof (cases rule: bindE_cases)
    case (error e)
    from emitsD [OF assms(1) error(1)] assms(2) error(2) show ?thesis by blast
  next
    case (next_step s1 x)
    from emitsD [OF assms(1) next_step(1)] obtain pre where pre: "dk_calls s1 = dk_calls s @ pre" "P pre (Inr x)" by blast
    from emitsD [OF assms(3) [OF pre(2)] next_step(2)] pre(1) show ?thesis by auto
  qed
qed

lemma emits_lift: "Q [] r \<Longrightarrow> emits (liftE r) Q"
  by (simp add: emits_def)

lemma emits_called: "(\<And>r. Q [ev r] (res r)) \<Longrightarrow> emits (called answer ev res) Q"
  by (auto simp: emits_def called_def Let_def)

lemma emits_caught: "emits m (\<lambda>new r. Q new (Inr r)) \<Longrightarrow> emits (caught m) Q"
  by (auto simp: emits_def caught_def split: prod.splits)

lemma emits_mono: "emits m P \<Longrightarrow> (\<And>new r. P new r \<Longrightarrow> Q new r) \<Longrightarrow> emits m Q"
  unfolding emits_def by meson

lemma emits_conj: "emits m P \<Longrightarrow> emits m Q \<Longrightarrow> emits m (\<lambda>new r. P new r \<and> Q new r)"
  unfolding emits_def by (metis same_append_eq)

lemma emits_granted: "(\<And>t u. Q [ReadClock t] (Inr u)) \<Longrightarrow> emits (granted w requestor subject) Q"
  by (auto simp: emits_def granted_def called_def Let_def granted_at_def bindE_def)

lemma emits_grant: "(\<And>t. Q [ReadClock t] (Inr ())) \<Longrightarrow> emits (grant w requestor subjects ttl) Q"
  by (auto simp: emits_def grant_def called_def Let_def bindE_def)

lemma emits_approve:
  "(\<And>cs u. set cs \<subseteq> range ReadClock \<Longrightarrow> Q cs (Inr (d\<lparr>dn_granted_until := u\<rparr>))) \<Longrightarrow> emits (approve w req d) Q"
proof -
  assume Q: "\<And>cs u. set cs \<subseteq> range ReadClock \<Longrightarrow> Q cs (Inr (d\<lparr>dn_granted_until := u\<rparr>))"
  have "Q [] (Inr d)" using Q [of "[]" "dn_granted_until d"] by simp
  then show ?thesis unfolding approve_def
    by (auto intro!: emits_lift emits_bind [where P = "\<lambda>new r. set new \<subseteq> range ReadClock \<and> (\<exists>x. r = Inr x)"] emits_grant emits_called Q)
qed

subsection \<open>A denial ends the ask\<close>

fun denial :: "consent_call \<Rightarrow> bool" where
  "denial (Prompted req (Inr res)) = (pr_verdict res = VerdictDenied)"
| "denial (Ran peer cmd (Some stdin) (Inr out)) = (case reply_of out of Some rep \<Rightarrow> rp_status rep = ''denied'' | None \<Rightarrow> False)"
| "denial (AskedPhone p ask (Inl e)) = (classify (Some e) = VerdictDenied)"
| "denial _ = False"

text \<open>Either nobody declined, or the last call is the first that did and the outcome says so.\<close>

definition ends_denied :: "('r \<Rightarrow> bool) \<Rightarrow> calls \<Rightarrow> 'r \<Rightarrow> bool" where
  "ends_denied says new r \<longleftrightarrow> \<not> list_ex denial new \<or> (\<exists>pre c. new = pre @ [c] \<and> denial c \<and> \<not> list_ex denial pre \<and> says r)"

lemma ends_deniedI: "\<not> list_ex denial new \<Longrightarrow> ends_denied says new r"
  by (simp add: ends_denied_def)

lemma ends_denied_last: "\<not> list_ex denial pre \<Longrightarrow> (denial c \<Longrightarrow> says r) \<Longrightarrow> ends_denied says (pre @ [c]) r"
  by (auto simp: ends_denied_def)

lemma ends_denied_one: "(denial c \<Longrightarrow> says r) \<Longrightarrow> ends_denied says [c] r"
  by (auto simp: ends_denied_def intro: exI [of _ "[]"])

lemma ends_denied_prepend: "\<not> list_ex denial pre \<Longrightarrow> ends_denied says new r \<Longrightarrow> ends_denied says (pre @ new) r"
  unfolding ends_denied_def by (metis append_assoc list_ex_append)

lemma ends_denied_not: "ends_denied says new r \<Longrightarrow> \<not> says r \<Longrightarrow> \<not> list_ex denial new"
  by (auto simp: ends_denied_def)

definition denied_error :: "consent_error + 'a \<Rightarrow> bool" where
  "denied_error r \<longleftrightarrow> (\<exists>e. r = Inl e \<and> classify (Some e) = VerdictDenied)"

lemma denied_error_simps [simp]:
  "denied_error (Inl e) = (classify (Some e) = VerdictDenied)" "\<not> denied_error (Inr x)"
  by (simp_all add: denied_error_def)

definition denied_outcome :: "consent_error + decision \<Rightarrow> bool" where
  "denied_outcome r \<longleftrightarrow> (\<exists>d. r = Inr d \<and> dn_verdict d = VerdictDenied)"

lemma classify_Denied [simp]: "classify (Some (Denied p)) = VerdictDenied"
  by (simp add: classify_def)

abbreviation quiet :: "calls \<Rightarrow> 'r \<Rightarrow> bool" where
  "quiet new r \<equiv> \<not> list_ex denial new"

lemma quiet_bind:
  assumes "emits m quiet" and "\<And>x. emits (k x) (ends_denied says)"
  shows "emits (bindE m k) (ends_denied says)"
  using assms(1) by (rule emits_bind) (auto intro: ends_deniedI emits_mono [OF assms(2)] ends_denied_prepend)

lemma denied_bind:
  assumes "emits m (ends_denied denied_error)" and "\<And>x. emits (k x) (ends_denied says)"
    and "\<And>e. classify (Some e) = VerdictDenied \<Longrightarrow> says (Inl e)"
  shows "emits (bindE m k) (ends_denied says)"
  using assms(1)
proof (rule emits_bind, goal_cases)
  case (1 e new)
  with assms(3) show ?case by (auto simp: ends_denied_def denied_error_def)
next
  case (2 x pre)
  then have "quiet pre x" by (rule ends_denied_not) (simp add: denied_error_def)
  then show ?case by (auto intro: emits_mono [OF assms(2)] ends_denied_prepend)
qed

text \<open>One call that may bring a denial: what follows it must then end at once.\<close>

lemma asked_bind:
  assumes "\<And>r. \<not> denial (ev r) \<Longrightarrow> emits (k r) (ends_denied says)"
    and "\<And>r. denial (ev r) \<Longrightarrow> \<exists>x. k r = liftE x \<and> says x"
  shows "emits (bindE (caught (called answer ev (\<lambda>r. r))) k) (ends_denied says)"
proof (rule emits_bind [where P = "\<lambda>new r. \<exists>a. new = [ev a] \<and> r = Inr a"], goal_cases)
  case (3 a new)
  then have new: "new = [ev a]" by simp
  show ?case
  proof (cases "denial (ev a)")
    case True
    with assms(2) obtain x where "k a = liftE x" "says x" by blast
    with new True show ?thesis by (auto intro!: emits_lift ends_denied_one)
  next
    case False
    with new have "quiet new a" by simp
    with False show ?thesis by (auto intro: emits_mono [OF assms(1)] ends_denied_prepend)
  qed
qed (auto intro!: emits_caught emits_called)

lemma live_quiet: "emits (live w peer) quiet"
  unfolding live_def run_remote_def
  by (auto intro!: emits_bind [where P = quiet] emits_called emits_lift split: option.splits)

lemma relay_answer_denied:
  "(case reply_of out of Some rep \<Rightarrow> rp_status rep = ''denied'' | None \<Rightarrow> False) \<Longrightarrow> relay_answer peer nonce endpoint out = Inl (Denied peer)"
  by (auto simp: relay_answer_def split: option.splits)

lemma quiet_lift [simp]: "emits (liftE r) (ends_denied says)"
  by (auto intro!: emits_lift ends_deniedI)

lemma relay_denied: "emits (relay w peer endpoint attempt) (ends_denied denied_error)"
  unfolding relay_def run_remote_def
proof (intro quiet_bind)
  fix nonce and x :: "string \<times> string"
  obtain cmd stdin where x: "x = (cmd, stdin)" by (cases x)
  show "emits (case x of (cmd, stdin) \<Rightarrow>
      bindE (caught (called (cw_run w peer cmd (Some stdin)) (Ran peer cmd (Some stdin)) (\<lambda>r. r))) (\<lambda>ran.
       case ran of
         Inl e \<Rightarrow> if routes_around e then liftE (Inr (Inl (AuthRequired (''consent relay timed out: '' @ peer))))
           else liftE (Inl (WrapError ''consent relay'' e))
       | Inr out \<Rightarrow> liftE (relay_answer peer nonce endpoint out))) (ends_denied denied_error)"
    unfolding x prod.case
    by (rule asked_bind) (auto simp: relay_answer_denied split: sum.splits)
qed (auto intro!: emits_called emits_lift)

lemma walk_denied: "emits (walk w peers endpoint attempt last_err) (ends_denied denied_error)"
proof (induction peers arbitrary: last_err)
  case (Cons peer peers)
  have "emits (bindE (relay w peer endpoint attempt) (\<lambda>leg. case leg of
        Inl e \<Rightarrow> walk w peers endpoint attempt (Some e) | Inr reply \<Rightarrow> liftE (Inr reply))) (ends_denied denied_error)"
    by (rule denied_bind [OF relay_denied]) (auto simp: Cons.IH split: sum.splits)
  then show ?case unfolding walk.simps
    by (intro quiet_bind emits_caught live_quiet) (auto simp: Cons.IH split: sum.splits bool.splits)
qed simp

lemma phones_denied: "emits (ask_phones_from w transport ask ps) (ends_denied denied_error)"
proof (induction ps)
  case (Cons p ps)
  show ?case unfolding ask_phones_from.simps
    by (rule asked_bind) (auto simp: Cons.IH split: sum.splits)
qed simp

lemma approve_quiet: "emits (approve w req d) (ends_denied says)"
  by (rule emits_approve) (fastforce intro!: ends_deniedI simp: list_ex_iff)

text \<open>Settling a route after a denial says denied; without one it adds no call that could be one.\<close>

lemma settled_bind:
  assumes "emits m (ends_denied (\<lambda>r. \<exists>a. r = Inr a \<and> denied_error a))"
  shows "emits (bindE m (settle_route w req)) (ends_denied denied_outcome)"
proof (rule emits_bind [OF assms], goal_cases)
  case (1 e new)
  then show ?case by (auto simp: ends_denied_def)
next
  case (2 a pre)
  show ?case
  proof (cases "quiet pre a")
    case True
    have "emits (settle_route w req a) (ends_denied denied_outcome)"
      by (auto simp: settle_route_def approve_quiet split: sum.splits consent_verdict.splits)
    then show ?thesis by (rule emits_mono) (rule ends_denied_prepend [OF True])
  next
    case False
    with 2 obtain e where "a = Inl e" "classify (Some e) = VerdictDenied" and d: "ends_denied (\<lambda>_. True) pre a"
      by (auto simp: ends_denied_def denied_error_def)
    then have "settle_route w req a = liftE (Inr ((decided VerdictDenied)\<lparr>dn_routed := True\<rparr>))" by (simp add: settle_route_def)
    with d show ?thesis by (auto intro!: emits_lift simp: ends_denied_def denied_outcome_def decided_def)
  qed
qed

lemma caught_denied: "emits m (ends_denied denied_error) \<Longrightarrow> emits (caught m) (ends_denied (\<lambda>r. \<exists>a. r = Inr a \<and> denied_error a))"
  by (rule emits_caught) (erule emits_mono, auto simp: ends_denied_def)

lemma bindE_assoc: "bindE (bindE m k) h = bindE m (\<lambda>x. bindE (k x) h)"
  by (auto simp: bindE_def fun_eq_iff split: prod.splits sum.splits)

lemma or_phones_denied:
  assumes "emits m (ends_denied (\<lambda>r. \<exists>a. r = Inr a \<and> denied_error a))"
  shows "emits (bindE m (or_phones w req origin)) (ends_denied (\<lambda>r. \<exists>a. r = Inr a \<and> denied_error a))"
proof (rule emits_bind [OF assms], goal_cases)
  case (1 e new)
  then show ?case by (auto simp: ends_denied_def)
next
  case (2 a pre)
  show ?case
  proof (cases "quiet pre a")
    case True
    have "emits (or_phones w req origin a) (ends_denied (\<lambda>r. \<exists>a. r = Inr a \<and> denied_error a))"
      by (auto simp: or_phones_def ask_phones_def phones_denied intro!: caught_denied split: sum.splits option.splits)
    then show ?thesis by (rule emits_mono) (rule ends_denied_prepend [OF True])
  next
    case False
    with 2 obtain e where "a = Inl e" "classify (Some e) = VerdictDenied" by (auto simp: ends_denied_def denied_error_def)
    with 2 show ?thesis by (auto simp: or_phones_def ends_denied_def intro!: emits_lift split: option.splits)
  qed
qed

lemma route_denied: "emits (route w req) (ends_denied denied_outcome)"
proof -
  have walked: "emits (bindE (caught (route_candidates w cs endpoint attempt)) (\<lambda>walked. bindE (or_phones w req origin walked) (settle_route w req)))
     (ends_denied denied_outcome)" for cs endpoint attempt origin
    unfolding bindE_assoc [symmetric] route_candidates_def by (intro settled_bind or_phones_denied caught_denied walk_denied)
  have resolved: "emits (bindE (called (cw_resolve w) Resolved (\<lambda>r. r)) k) (ends_denied denied_outcome)"
    if "\<And>cs. emits (k cs) (ends_denied denied_outcome)" for k
    by (rule quiet_bind [OF _ that]) (auto intro: emits_called)
  show ?thesis unfolding route_def self_def
    by (rule quiet_bind) (auto intro!: emits_called resolved walked)
qed

lemma decide_remote_denied: "emits (decide_remote w req) (ends_denied denied_outcome)"
  by (auto simp: decide_remote_def route_denied)

lemma decide_local_denied: "emits (decide_local w req) (ends_denied denied_outcome)"
  unfolding decide_local_def prompt_def
proof (rule emits_bind [where P = "\<lambda>new r. new = [Prompted req r]"], goal_cases)
  case (2 e new)
  then show ?case by (auto intro!: ends_deniedI)
next
  case (3 res pre)
  show ?case
  proof (cases "pr_verdict res = VerdictDenied")
    case True
    with 3 show ?thesis by (auto intro!: emits_lift ends_denied_one simp: denied_outcome_def decided_def)
  next
    case False
    have "emits (case pr_verdict res of
         VerdictOK \<Rightarrow> bindE (self w) (\<lambda>me.
             approve w req ((decided VerdictOK)\<lparr>dn_approved_by := me, dn_attestation := signed_here me (pr_attestation res)\<rparr>))
       | VerdictDenied \<Rightarrow> liftE (Inr (decided VerdictDenied))
       | VerdictUnavailable \<Rightarrow> decide_remote w req
       | _ \<Rightarrow> liftE (Inl (OtherError ''consent: local prompt returned a fatal verdict''))) (ends_denied denied_outcome)"
      by (auto simp: decide_remote_denied approve_quiet self_def intro!: quiet_bind emits_called split: consent_verdict.split)
    moreover have "quiet pre res" using 3 False by simp
    ultimately show ?thesis by (auto elim!: emits_mono intro: ends_denied_prepend)
  qed
qed (auto intro!: emits_called)

lemma decide_denied: "emits (decide w req) (ends_denied denied_outcome)"
proof -
  have gate: "emits (decide_gate w req) (ends_denied denied_outcome)"
    unfolding decide_gate_def probe_console_def is_attended_def
    by (auto intro!: quiet_bind emits_called simp: decide_local_denied decide_remote_denied)
  show ?thesis unfolding decide_def
    by (auto intro!: quiet_bind emits_granted simp: gate split: option.split)
qed

text \<open>C26. A human's denial is final: when the local prompt, a relayed reply or a phone declines, that call is
  the last one the ask makes, whatever the other approvers would have said, and the decision is a denial.\<close>

theorem denial_is_final:
  assumes "decide w req s = (s', r)" and "dk_calls s' = dk_calls s @ pre @ c # post" and "denial c"
  shows "post = [] \<and> (\<exists>d. r = Inr d \<and> dn_verdict d = VerdictDenied)"
proof -
  from emitsD [OF decide_denied assms(1)] assms(2) have "ends_denied denied_outcome (pre @ c # post) r" by auto
  with assms(3) obtain pre' c' where e: "pre @ c # post = pre' @ [c']" "quiet pre' c'" "denied_outcome r"
    by (auto simp: ends_denied_def)
  have "post = []"
  proof (rule ccontr)
    assume "post \<noteq> []"
    then obtain zs z where "post = zs @ [z]" by (cases post rule: rev_cases) auto
    with e(1) have "pre' = pre @ c # zs" by simp
    with e(2) assms(3) show False by simp
  qed
  with e(3) show ?thesis by (simp add: denied_outcome_def)
qed

subsection \<open>What an approval rests on\<close>

definition live_seen :: "consent_world \<Rightarrow> string \<Rightarrow> consent_call set \<Rightarrow> bool" where
  "live_seen w peer C \<longleftrightarrow> (\<exists>out snap. Ran peer (cw_probe_cmd w) None (Inr out) \<in> C \<and> snapshot_of out = Some snap \<and>
     on_console snap \<and> \<not> locked snap \<and> \<not> screen_shared snap)"

text \<open>A live peer approved this attempt: its reply repeats the attempt's own nonce and the endpoint.\<close>

definition leg_approved :: "string \<Rightarrow> attempt \<Rightarrow> string \<Rightarrow> consent_call set \<Rightarrow> bool" where
  "leg_approved endpoint attempt peer C \<longleftrightarrow> (\<exists>nonce cmd stdin out rep. Minted (Inr nonce) \<in> C \<and> attempt peer nonce = Inr (cmd, stdin) \<and>
     Ran peer cmd (Some stdin) (Inr out) \<in> C \<and> reply_of out = Some rep \<and> rp_status rep = ''approved'' \<and> rp_nonce rep = nonce \<and>
     rp_endpoint rep = endpoint)"

definition attended_here :: "consent_call set \<Rightarrow> bool" where
  "attended_here C \<longleftrightarrow> (\<exists>snap user. Probed (Inr snap) \<in> C \<and> ReadUser (Inr user) \<in> C \<and> attended (Inr user) snap = Inr True)"

definition here_approved :: "consent_request \<Rightarrow> string \<Rightarrow> consent_call set \<Rightarrow> bool" where
  "here_approved req me C \<longleftrightarrow> attended_here C \<and> ReadSelf (Inr me) \<in> C \<and> (\<exists>res. Prompted req (Inr res) \<in> C \<and> pr_verdict res = VerdictOK)"

definition peer_approved :: "consent_world \<Rightarrow> consent_request \<Rightarrow> string \<Rightarrow> consent_call set \<Rightarrow> bool" where
  "peer_approved w req peer C \<longleftrightarrow> (\<exists>origin ps. ReadSelf (Inr origin) \<in> C \<and> origin \<noteq> [] \<and> Resolved (Inr ps) \<in> C \<and> peer \<in> set ps \<and>
     (\<forall>approvers. rq_approvers req = Some approvers \<longrightarrow> peer \<in> set approvers) \<and>
     live_seen w peer C \<and> leg_approved (endpoint_of origin req) (relay_attempt origin req) peer C)"

definition phone_approved :: "consent_request \<Rightarrow> string \<Rightarrow> consent_call set \<Rightarrow> bool" where
  "phone_approved req name C \<longleftrightarrow> attests req \<and> (\<exists>origin p reply. ReadSelf (Inr origin) \<in> C \<and> p \<in> set (rq_phones req) \<and> ph_name p = name \<and>
     AskedPhone p \<lparr>pa_origin = origin, pa_argv = rq_argv req, pa_nonce = rq_nonce req\<rparr> (Inr reply) \<in> C)"

text \<open>What the calls of an ask have to show for an approval that no grant served.\<close>

definition consented :: "consent_world \<Rightarrow> consent_request \<Rightarrow> decision \<Rightarrow> consent_call set \<Rightarrow> bool" where
  "consented w req d C \<longleftrightarrow> \<not> dn_cached d \<and>
     (if dn_routed d then \<not> rq_local_only req \<and> (peer_approved w req (dn_approved_by d) C \<or> phone_approved req (dn_approved_by d) C)
      else here_approved req (dn_approved_by d) C)"

lemma live_mono: "live_seen w peer C \<Longrightarrow> C \<subseteq> D \<Longrightarrow> live_seen w peer D"
  unfolding live_seen_def by blast

lemma leg_mono: "leg_approved endpoint attempt peer C \<Longrightarrow> C \<subseteq> D \<Longrightarrow> leg_approved endpoint attempt peer D"
  unfolding leg_approved_def by blast

lemma here_mono: "here_approved req me C \<Longrightarrow> C \<subseteq> D \<Longrightarrow> here_approved req me D"
  unfolding here_approved_def attended_here_def by blast

lemma peer_mono: "peer_approved w req peer C \<Longrightarrow> C \<subseteq> D \<Longrightarrow> peer_approved w req peer D"
  unfolding peer_approved_def using live_mono leg_mono by blast

lemma phone_mono: "phone_approved req name C \<Longrightarrow> C \<subseteq> D \<Longrightarrow> phone_approved req name D"
  unfolding phone_approved_def by blast

lemma consented_mono: "consented w req d C \<Longrightarrow> C \<subseteq> D \<Longrightarrow> consented w req d D"
  using peer_mono phone_mono here_mono unfolding consented_def by (metis (full_types))

definition walked_ok :: "consent_world \<Rightarrow> string list \<Rightarrow> string \<Rightarrow> attempt \<Rightarrow> calls \<Rightarrow> consent_error + reply \<Rightarrow> bool" where
  "walked_ok w peers endpoint attempt new r \<longleftrightarrow> (\<forall>reply. r = Inr reply \<longrightarrow>
     rp_peer reply \<in> set peers \<and> live_seen w (rp_peer reply) (set new) \<and> leg_approved endpoint attempt (rp_peer reply) (set new))"

lemma live_shown: "emits (live w peer) (\<lambda>new r. r = Inr True \<longrightarrow> live_seen w peer (set new))"
  unfolding live_def run_remote_def
  by (rule emits_bind [where P = "\<lambda>new r. new = [Ran peer (cw_probe_cmd w) None r]"])
    (auto intro!: emits_called emits_lift simp: live_seen_def split: option.splits)

lemma relay_answer_Inr: "relay_answer peer nonce endpoint out = Inr (Inr reply) \<Longrightarrow>
   rp_peer reply = peer \<and> (\<exists>rep. reply_of out = Some rep \<and> rp_status rep = ''approved'' \<and> rp_nonce rep = nonce \<and> rp_endpoint rep = endpoint)"
  by (auto simp: relay_answer_def split: option.splits if_splits)

lemma relay_shown: "emits (relay w peer endpoint attempt)
   (\<lambda>new r. \<forall>reply. r = Inr (Inr reply) \<longrightarrow> rp_peer reply = peer \<and> leg_approved endpoint attempt peer (set new))"
  unfolding relay_def run_remote_def
proof (rule emits_bind [where P = "\<lambda>new r. new = [Minted r]"], goal_cases)
  case (3 nonce pre)
  show ?case
  proof (rule emits_bind [where P = "\<lambda>new r. new = [] \<and> r = attempt peer nonce"], goal_cases)
    case (3 x pre')
    obtain cmd stdin where x: "x = (cmd, stdin)" by (cases x)
    show ?case unfolding x prod.case
    proof (rule emits_bind [where P = "\<lambda>new r. \<exists>ran. new = [Ran peer cmd (Some stdin) ran] \<and> r = Inr ran"], goal_cases)
      case (3 ran new)
      with \<open>pre = [Minted (Inr nonce)]\<close> \<open>pre' = [] \<and> Inr x = attempt peer nonce\<close> x show ?case
        by (cases ran) (auto intro!: emits_lift dest!: relay_answer_Inr simp: leg_approved_def; metis)+
    qed (auto intro!: emits_caught emits_called)
  qed (auto intro!: emits_lift)
qed (auto intro!: emits_called)

text \<open>What was shown stays shown, and more peers only allow more.\<close>

lemma walked_ok_more: "walked_ok w peers endpoint attempt new r \<Longrightarrow> walked_ok w (peer # peers) endpoint attempt (pre @ new) r"
  unfolding walked_ok_def by (auto intro: live_mono leg_mono)

lemma walk_shown: "emits (walk w peers endpoint attempt last_err) (walked_ok w peers endpoint attempt)"
proof (induction peers arbitrary: last_err)
  case Nil
  show ?case by (auto intro!: emits_lift simp: walked_ok_def)
next
  case (Cons peer peers)
  have more: "emits (walk w peers endpoint attempt le) (\<lambda>new r. walked_ok w (peer # peers) endpoint attempt (pre @ new) r)" for pre le
    by (rule emits_mono [OF Cons.IH]) (rule walked_ok_more)
  show ?case unfolding walk.simps
  proof (rule emits_bind [where P = "\<lambda>new r. r = Inr (Inr True) \<longrightarrow> live_seen w peer (set new)"], goal_cases)
    case 1
    show ?case by (rule emits_caught) (use live_shown in simp)
  next
    case (3 alive pre)
    have leg: "emits (bindE (relay w peer endpoint attempt) (\<lambda>leg. case leg of
        Inl e \<Rightarrow> walk w peers endpoint attempt (Some e) | Inr reply \<Rightarrow> liftE (Inr reply)))
        (\<lambda>new r. walked_ok w (peer # peers) endpoint attempt (pre @ new) r)" if l: "live_seen w peer (set pre)"
    proof (rule emits_bind [OF relay_shown], goal_cases)
      case (1 e new)
      then show ?case by (simp add: walked_ok_def)
    next
      case (2 leg new)
      show ?case
      proof (cases leg)
        case (Inl e)
        then show ?thesis using more [where pre = "pre @ new"] by simp
      next
        case (Inr reply)
        with 2 have "rp_peer reply = peer" "leg_approved endpoint attempt peer (set new)" by auto
        moreover from this(2) l have "leg_approved endpoint attempt peer (set (pre @ new))" "live_seen w peer (set (pre @ new))"
          by (auto intro: leg_mono live_mono)
        ultimately show ?thesis using Inr by (auto intro!: emits_lift simp: walked_ok_def)
      qed
    qed
    show ?case
    proof (cases alive)
      case (Inl e)
      then show ?thesis using more [where pre = pre] by (auto intro!: emits_lift simp: walked_ok_def)
    next
      case (Inr b)
      with 3 leg show ?thesis using more [where pre = pre] by (cases b) auto
    qed
  qed (simp add: walked_ok_def)
qed

lemma phones_shown: "emits (ask_phones_from w transport ask ps) (\<lambda>new r. \<forall>reply. r = Inr reply \<longrightarrow>
   (\<exists>p \<in> set ps. \<exists>a. rp_peer reply = ph_name p \<and> AskedPhone p ask (Inr a) \<in> set new))"
proof (induction ps)
  case (Cons p ps)
  show ?case unfolding ask_phones_from.simps
  proof (rule emits_bind [where P = "\<lambda>new r. \<exists>a. new = [AskedPhone p ask a] \<and> r = Inr a"], goal_cases)
    case (3 a new)
    show ?case
    proof (cases a)
      case (Inl e)
      have "emits (ask_phones_from w transport ask ps) (\<lambda>more r. \<forall>reply. r = Inr reply \<longrightarrow>
        (\<exists>q \<in> set (p # ps). \<exists>a. rp_peer reply = ph_name q \<and> AskedPhone q ask (Inr a) \<in> set (new @ more)))"
        by (rule emits_mono [OF Cons.IH]) auto
      then show ?thesis using Inl by (auto intro!: emits_lift)
    qed (use 3 in \<open>auto intro!: emits_lift\<close>)
  qed (auto intro!: emits_caught emits_called)
qed (auto intro!: emits_lift)

definition routed_ok :: "consent_world \<Rightarrow> consent_request \<Rightarrow> calls \<Rightarrow> consent_error + reply \<Rightarrow> bool" where
  "routed_ok w req C outcome \<longleftrightarrow> (\<forall>reply. outcome = Inr reply \<longrightarrow> peer_approved w req (rp_peer reply) (set C) \<or> phone_approved req (rp_peer reply) (set C))"

lemma or_phones_shown:
  assumes "routed_ok w req pre walked" and "ReadSelf (Inr origin) \<in> set pre"
  shows "emits (or_phones w req origin walked) (\<lambda>new r. \<forall>o'. r = Inr o' \<longrightarrow> routed_ok w req (pre @ new) o')"
proof -
  have kept: "emits (liftE (Inr walked)) (\<lambda>new r. \<forall>o'. r = Inr o' \<longrightarrow> routed_ok w req (pre @ new) o')"
    using assms(1) by (auto intro!: emits_lift)
  have asked: "emits (caught (ask_phones w transport req origin)) (\<lambda>new r. \<forall>o'. r = Inr o' \<longrightarrow> routed_ok w req (pre @ new) o')"
    if "attests req" for transport
    unfolding ask_phones_def
  proof (intro emits_caught emits_mono [OF phones_shown] allI impI)
    fix new :: calls and r o' :: "consent_error + reply"
    assume p: "\<forall>reply. r = Inr reply \<longrightarrow> (\<exists>p \<in> set (rq_phones req). \<exists>a. rp_peer reply = ph_name p \<and>
      AskedPhone p \<lparr>pa_origin = origin, pa_argv = rq_argv req, pa_nonce = rq_nonce req\<rparr> (Inr a) \<in> set new)"
      and "Inr r = (Inr o' :: consent_error + (consent_error + reply))"
    then have "phone_approved req (rp_peer reply) (set (pre @ new))" if "o' = Inr reply" for reply
      using that \<open>attests req\<close> assms(2) unfolding phone_approved_def by fastforce
    then show "routed_ok w req (pre @ new) o'" by (simp add: routed_ok_def)
  qed
  from kept asked show ?thesis by (auto simp: or_phones_def split: sum.splits option.splits)
qed

lemma settle_shown:
  assumes "routed_ok w req pre walked" and "\<not> rq_local_only req"
  shows "emits (settle_route w req walked) (\<lambda>new r. \<forall>d. r = Inr d \<and> dn_verdict d = VerdictOK \<longrightarrow> consented w req d (set (pre @ new)))"
proof (cases walked)
  case (Inl e)
  then show ?thesis by (auto simp: settle_route_def decided_def intro!: emits_lift split: consent_verdict.split)
next
  case (Inr reply)
  with assms have "peer_approved w req (rp_peer reply) (set pre) \<or> phone_approved req (rp_peer reply) (set pre)" by (simp add: routed_ok_def)
  then have "peer_approved w req (rp_peer reply) (set (pre @ new)) \<or> phone_approved req (rp_peer reply) (set (pre @ new))" for new
    using peer_mono phone_mono by (metis Un_upper1 set_append)
  with assms(2) have "consented w req ((decided VerdictOK)\<lparr>dn_approved_by := rp_peer reply, dn_routed := True, dn_attestation := a, dn_granted_until := u\<rparr>)
    (set (pre @ new))" for a u new by (simp add: consented_def decided_def)
  then show ?thesis unfolding settle_route_def Inr sum.case by (intro emits_approve) simp
qed

abbreviation shown :: "consent_world \<Rightarrow> consent_request \<Rightarrow> calls \<Rightarrow> consent_error + decision \<Rightarrow> bool" where
  "shown w req new r \<equiv> (\<forall>d. r = Inr d \<and> dn_verdict d = VerdictOK \<longrightarrow> consented w req d (set new))"

lemma shown_prepend: "emits m (shown w req) \<Longrightarrow> emits m (\<lambda>new r. shown w req (pre @ new) r)"
  by (erule emits_mono) (auto intro: consented_mono)

lemma route_shown:
  assumes "\<not> rq_local_only req"
  shows "emits (route w req) (shown w req)"
  unfolding route_def self_def
proof (rule emits_bind [where P = "\<lambda>new r. new = [ReadSelf r]"], goal_cases)
  case (3 origin pre)
  show ?case
  proof (cases "origin = []")
    case False
    have "emits (bindE (called (cw_resolve w) Resolved (\<lambda>r. r)) (\<lambda>candidates.
         bindE (caught (route_candidates w (keep_approvers req candidates) (endpoint_of origin req) (relay_attempt origin req))) (\<lambda>walked.
         bindE (or_phones w req origin walked) (settle_route w req)))) (\<lambda>new r. shown w req (pre @ new) r)"
    proof (rule emits_bind [where P = "\<lambda>new r. new = [Resolved r]"], goal_cases)
      case (3 ps resolved)
      let ?pre = "pre @ resolved"
      show ?case
      proof (rule emits_bind [where P = "\<lambda>new r. \<exists>walked. r = Inr walked \<and> walked_ok w (keep_approvers req ps) (endpoint_of origin req) (relay_attempt origin req) new walked"], goal_cases)
        case 1
        show ?case unfolding route_candidates_def by (rule emits_caught) (use walk_shown in simp)
      next
        case (3 walked new)
        then have ok: "walked_ok w (keep_approvers req ps) (endpoint_of origin req) (relay_attempt origin req) new walked" by simp
        have r: "routed_ok w req (?pre @ new) walked"
          unfolding routed_ok_def
        proof (intro allI impI disjI1)
          fix reply assume "walked = Inr reply"
          with ok have "rp_peer reply \<in> set (keep_approvers req ps)" "live_seen w (rp_peer reply) (set new)"
            "leg_approved (endpoint_of origin req) (relay_attempt origin req) (rp_peer reply) (set new)" by (auto simp: walked_ok_def)
          with False \<open>pre = [ReadSelf (Inr origin)]\<close> \<open>resolved = [Resolved (Inr ps)]\<close>
          show "peer_approved w req (rp_peer reply) (set (?pre @ new))"
            unfolding peer_approved_def
            by (intro exI [of _ origin] exI [of _ ps]) (auto simp: keep_approvers_def intro: live_mono leg_mono split: option.splits)
        qed
        have s: "ReadSelf (Inr origin) \<in> set (?pre @ new)" using \<open>pre = [ReadSelf (Inr origin)]\<close> by simp
        have "emits (bindE (or_phones w req origin walked) (settle_route w req)) (\<lambda>more r. shown w req ((?pre @ new) @ more) r)"
          by (rule emits_bind [OF or_phones_shown [OF r s]]) (use settle_shown [OF _ assms, of w "(?pre @ new) @ _"] in auto)
        then show ?case by simp
      qed simp
    qed (auto intro!: emits_called)
    with False show ?thesis by simp
  qed (auto intro!: emits_lift)
qed (auto intro!: emits_called)

lemma decide_remote_shown: "emits (decide_remote w req) (shown w req)"
  using route_shown by (auto simp: decide_remote_def decided_def intro!: emits_lift)

lemma decide_local_shown:
  assumes "attended_here (set pre)"
  shows "emits (decide_local w req) (\<lambda>new r. shown w req (pre @ new) r)"
  unfolding decide_local_def prompt_def self_def
proof (rule emits_bind [where P = "\<lambda>new r. new = [Prompted req r]"], goal_cases)
  case (3 res asked)
  show ?case
  proof (cases "pr_verdict res = VerdictOK")
    case True
    have "emits (bindE (called (cw_self w) ReadSelf (\<lambda>r. r)) (\<lambda>me. approve w req ((decided VerdictOK)\<lparr>dn_approved_by := me,
       dn_attestation := signed_here me (pr_attestation res)\<rparr>))) (\<lambda>new r. shown w req (pre @ asked @ new) r)"
    proof (rule emits_bind [where P = "\<lambda>new r. new = [ReadSelf r]"], goal_cases)
      case (3 me named)
      have "here_approved req me (set (pre @ asked @ named))"
        using assms \<open>asked = [Prompted req (Inr res)]\<close> \<open>named = [ReadSelf (Inr me)]\<close> True
        unfolding here_approved_def attended_here_def by auto
      then have "here_approved req me (set (pre @ asked @ named @ cs))" for cs by (rule here_mono) auto
      then show ?case by (intro emits_approve) (simp add: consented_def decided_def)
    qed (auto intro!: emits_called)
    with True show ?thesis by simp
  next
    case False
    then show ?thesis
      using shown_prepend [OF decide_remote_shown [of w req], of "pre @ asked"]
      by (auto simp: decided_def intro!: emits_lift split: consent_verdict.split)
  qed
qed (auto intro!: emits_called)

lemma decide_gate_shown: "emits (decide_gate w req) (shown w req)"
  unfolding decide_gate_def probe_console_def is_attended_def
proof (rule emits_bind [where P = "\<lambda>new r. new = [Probed r]"], goal_cases)
  case (3 snap probed)
  show ?case
  proof (rule emits_bind [where P = "\<lambda>new r. \<exists>me. new = [ReadUser me] \<and> (\<forall>b. r = Inr b \<longrightarrow> attended me snap = Inr b)"], goal_cases)
    case (3 here user)
    show ?case
    proof (cases here)
      case True
      with 3 obtain me where me: "user = [ReadUser me]" "attended me snap = Inr True" by auto
      then obtain u where "me = Inr u" by (auto simp: attended_def andthen_Inr_iff)
      with me \<open>probed = [Probed (Inr snap)]\<close> have "attended_here (set (probed @ user))" by (auto simp: attended_here_def)
      from decide_local_shown [OF this] True show ?thesis by simp
    next
      case False
      with shown_prepend [OF decide_remote_shown, of w req "probed @ user"] show ?thesis by simp
    qed
  qed (auto intro!: emits_called split: sum.splits)
qed (auto intro!: emits_called)

lemma granted_cases:
  assumes "granted w requestor subject s = (s1, Inr cached)"
  shows "dk_calls s1 = dk_calls s @ [ReadClock (cw_now w (dk_calls s))]"
    and "cached = Some until \<Longrightarrow> cw_now w (dk_calls s) \<le> until \<and> dk_grants s (requestor, subject) = Some until"
  using assms by (auto simp: granted_def called_def bindE_def Let_def granted_at_def prune_def split: option.splits if_splits)

text \<open>C5. An approval has consent: it was served from a live grant of the same requestor and subject, and then
  the request attests nothing; or the human at this attended host answered this very request; or a listed,
  allowed, live peer approved an attempt whose fresh nonce and endpoint its reply repeats; or, for an attesting
  request, one of the request's phones answered.\<close>

theorem approval_has_consent:
  assumes "decide w req s = (s', Inr d)" and "dn_verdict d = VerdictOK"
  shows "\<exists>new. dk_calls s' = dk_calls s @ new \<and>
    (consented w req d (set new) \<or>
     dn_cached d \<and> \<not> dn_routed d \<and> \<not> attests req \<and> (\<exists>now until. new = [ReadClock now] \<and> now \<le> until \<and>
       dk_grants s (rq_requestor req, rq_subject req) = Some until \<and> dn_granted_until d = Some until))"
  using assms(1) unfolding decide_def
proof (cases rule: bindE_cases)
  case (next_step s1 cached)
  from next_step(1) obtain read where read: "dk_calls s1 = dk_calls s @ read" 
    "\<forall>until. cached = Some until \<longrightarrow> \<not> attests req \<and> (\<exists>now. read = [ReadClock now] \<and> now \<le> until \<and> dk_grants s (rq_requestor req, rq_subject req) = Some until)"
    using granted_cases [of w "rq_requestor req" "rq_subject req" s s1 cached] by (cases "attests req") auto
  show ?thesis
  proof (cases cached)
    case None
    with next_step(2) have "decide_gate w req s1 = (s', Inr d)" by simp
    from emitsD [OF decide_gate_shown this] assms(2) obtain new where "dk_calls s' = dk_calls s1 @ new" "consented w req d (set new)" by blast
    with read(1) show ?thesis by (intro exI [of _ "read @ new"]) (auto intro: consented_mono)
  next
    case (Some until)
    with next_step(2) read show ?thesis by (auto simp: decided_def)
  qed
qed simp

subsection \<open>The approver's leg\<close>

definition asks_here :: "consent_call \<Rightarrow> bool" where
  "asks_here c \<longleftrightarrow> (case c of ReadSelf _ \<Rightarrow> True | ReadUser _ \<Rightarrow> True | Probed _ \<Rightarrow> True | Prompted _ _ \<Rightarrow> True | _ \<Rightarrow> False)"

text \<open>What the approver's human was asked, when the leg approves.\<close>

definition leg_shown :: "consent_request \<Rightarrow> calls \<Rightarrow> consent_error + decision \<Rightarrow> bool" where
  "leg_shown req new r \<longleftrightarrow> list_all asks_here new \<and> (\<forall>d. r = Inr d \<and> dn_verdict d = VerdictOK \<longrightarrow>
     attended_here (set new) \<and> (\<exists>res. Prompted (stamp_origin req) (Inr res) \<in> set new \<and> pr_verdict res = VerdictOK))"

lemma engine_relay_shown: "emits (engine_relay w req) (leg_shown req)"
  unfolding engine_relay_def probe_console_def is_attended_def
proof (rule emits_bind [where P = "\<lambda>new r. \<exists>p. new = [Probed p] \<and> r = Inr p"], goal_cases)
  case (3 probed seen)
  show ?case
  proof (cases probed)
    case (Inl e)
    with 3 show ?thesis by (auto intro!: emits_lift simp: leg_shown_def asks_here_def decided_def)
  next
    case (Inr snap)
    with 3 have seen: "seen = [Probed (Inr snap)]" by simp
    have "emits (bindE (called (cw_user w) ReadUser (\<lambda>me. case attended me snap of Inl _ \<Rightarrow> Inl (OtherError ''resolve current user'') | Inr b \<Rightarrow> Inr b))
       (\<lambda>here. if \<not> here then liftE (Inr (decided VerdictUnavailable)) else relay_prompt w req)) (\<lambda>new r. leg_shown req (seen @ new) r)"
    proof (rule emits_bind [where P = "\<lambda>new r. \<exists>me. new = [ReadUser me] \<and> (\<forall>b. r = Inr b \<longrightarrow> attended me snap = Inr b)"], goal_cases)
      case (2 e user)
      with seen show ?case by (auto simp: leg_shown_def asks_here_def)
    next
      case (3 here user)
      then obtain me where me: "user = [ReadUser me]" "attended me snap = Inr here" by auto
      show ?case
      proof (cases here)
        case True
        with me(2) obtain u where u: "me = Inr u" by (auto simp: attended_def andthen_Inr_iff)
        have "emits (relay_prompt w req) (\<lambda>new r. list_all asks_here new \<and> (\<forall>d. r = Inr d \<and> dn_verdict d = VerdictOK \<longrightarrow>
          (\<exists>res. Prompted (stamp_origin req) (Inr res) \<in> set new \<and> pr_verdict res = VerdictOK)))"
          unfolding relay_prompt_def prompt_def self_def
          by (rule emits_bind [where P = "\<lambda>new r. new = [Prompted (stamp_origin req) r]"])
            (auto intro!: emits_called emits_lift emits_bind [where P = "\<lambda>new r. new = [ReadSelf r]"] simp: asks_here_def decided_def split: option.splits)
        then have "emits (relay_prompt w req) (\<lambda>new r. leg_shown req (seen @ user @ new) r)"
          by (rule emits_mono) (use seen me u True in \<open>auto simp: leg_shown_def attended_here_def asks_here_def\<close>)
        with True show ?thesis by simp
      qed (use seen me in \<open>auto intro!: emits_lift simp: leg_shown_def asks_here_def decided_def\<close>)
    qed (auto intro!: emits_called split: sum.splits)
    with Inr show ?thesis by simp
  qed
qed (auto intro!: emits_caught emits_called)

subsection \<open>Instances\<close>

definition ann_session :: session_snapshot where
  "ann_session = \<lparr>on_console = True, locked = False, console_user = ''ann'', screen_shared = False\<rparr>"

definition answering :: "consent_verdict \<Rightarrow> consent_world" where
  "answering v = \<lparr>cw_now = (\<lambda>cs. 100 + int (length cs)), cw_self = (\<lambda>_. Inr ''mac''), cw_user = (\<lambda>_. Inr ''ann''),
     cw_probe = (\<lambda>_. Inr ann_session), cw_prompt = (\<lambda>_ _. Inr \<lparr>pr_verdict = v, pr_attestation = None\<rparr>), cw_resolve = (\<lambda>_. Inr [''mini'']),
     cw_nonce = (\<lambda>_. Inr ''n''), cw_run = (\<lambda>_ _ _ _. Inl DeadlineExceeded), cw_phones = None, cw_probe_cmd = PresenceCommand\<rparr>"

definition sample_request :: consent_request where
  "sample_request = \<lparr>rq_requestor = ''sid:7'', rq_client = ''cookies'', rq_reason = ''read'', rq_subject = ''jar'', rq_origin = [], rq_argv = [],
     rq_nonce = [], rq_ttl = 60, rq_local_only = False, rq_approvers = None, rq_phones = []\<rparr>"

lemmas run_decide = decide_def decide_gate_def decide_local_def granted_def grant_def approve_def probe_console_def is_attended_def prompt_def self_def
  called_def bindE_def liftE_def answering_def sample_request_def attests_def attended_def ann_session_def decided_def granted_at_def prune_def
  Let_def signed_here_def

theorem denial_is_final_witness:
  "\<exists>s d. decide (answering VerdictDenied) sample_request \<lparr>dk_calls = [], dk_grants = Map.empty\<rparr> = (s, Inr d) \<and> dn_verdict d = VerdictDenied"
proof -
  obtain s r where d: "decide (answering VerdictDenied) sample_request \<lparr>dk_calls = [], dk_grants = Map.empty\<rparr> = (s, r)"
    by (cases "decide (answering VerdictDenied) sample_request \<lparr>dk_calls = [], dk_grants = Map.empty\<rparr>")
  moreover have "dk_calls s = [ReadClock 100, Probed (Inr ann_session), ReadUser (Inr ''ann'')] @
     Prompted sample_request (Inr \<lparr>pr_verdict = VerdictDenied, pr_attestation = None\<rparr>) # []"
    using d by (auto simp: run_decide)
  ultimately show ?thesis using denial_is_final [OF d, of "[ReadClock 100, Probed (Inr ann_session), ReadUser (Inr ''ann'')]"] by simp
qed

theorem approval_has_consent_witness:
  "\<exists>s d. decide (answering VerdictOK) sample_request \<lparr>dk_calls = [], dk_grants = Map.empty\<rparr> = (s, Inr d) \<and>
     here_approved sample_request ''mac'' (set (dk_calls s))"
proof -
  obtain s r where run: "decide (answering VerdictOK) sample_request \<lparr>dk_calls = [], dk_grants = Map.empty\<rparr> = (s, r)"
    by (cases "decide (answering VerdictOK) sample_request \<lparr>dk_calls = [], dk_grants = Map.empty\<rparr>")
  then obtain d where d: "r = Inr d" "dn_verdict d = VerdictOK" "\<not> dn_cached d" "\<not> dn_routed d" "dn_approved_by d = ''mac''"
    by (auto simp: run_decide)
  from approval_has_consent [OF run [unfolded d(1)] d(2)] d show ?thesis using run by (auto simp: consented_def)
qed

end
