(* ===== verification/Consent_Wire.thy ===== *)
theory Consent_Wire
  imports Consent_Safe
begin

text \<open>
  The relay leg end to end: what the origin's router sends, the peer's process reads, its handler
  answers and the router reads back, so that an approval that arrives was given by a human there.
\<close>

lemma fold_keys [simp]:
  "fold_key ''status'' = ''status''" "fold_key ''nonce'' = ''nonce''" "fold_key ''endpoint'' = ''endpoint''"
  "fold_key ''key_id'' = ''key_id''" "fold_key ''sig'' = ''sig''" "fold_key ''signed_by'' = ''signed_by''"
  by code_simp+

lemma newline_char: "char_of (10 :: nat) = CHR 0x0A"
  by code_simp

lemma reply_of_line: "json_ok j \<Longrightarrow> reply_of (render j @ [char_of (10 :: nat)]) = as_struct set_reply zero_reply j"
  using decode_one_render [of j "[char_of (10 :: nat)]"]
  by (simp add: reply_of_def unmarshal_def num_end_def skip_ws_def is_ws_def is_digit_def newline_char)

text \<open>The parameters the peer reads are the request the origin wrote.\<close>

definition relayed :: "string \<Rightarrow> consent_request \<Rightarrow> consent_request" where
  "relayed origin req = \<lparr>rq_requestor = ''host:'' @ origin, rq_client = rq_client req, rq_reason = rq_reason req, rq_subject = rq_subject req,
     rq_origin = origin, rq_argv = rq_argv req, rq_nonce = rq_nonce req, rq_ttl = 0, rq_local_only = False, rq_approvers = None, rq_phones = []\<rparr>"

lemma json_strings_map [simp]: "json_strings key (map JStr ss) = Inr ss"
  by (induction ss) auto

lemma relay_params_sent:
  assumes "relay_json (relay_of origin req nonce) = JObj ps"
  shows "relay_params ps = (if rq_client req = [] then Inl (OtherError ''consent.relay: param client must not be empty'')
     else Inr (relayed origin req, nonce, endpoint_of origin req))"
  using assms
  by (auto simp: relay_json_def relay_of_def relay_params_def if_ok_def string_param_def strings_param_def optional_string_def param_def relayed_def)

lemma relay_json_ok: "json_ok (relay_json r)"
  by (auto simp: relay_json_def)

lemma relay_reply_sent:
  assumes "length (render (relay_json (relay_of origin req nonce))) \<le> 16777216"
  shows "relay_reply w (render (relay_json (relay_of origin req nonce))) s =
    (if rq_client req = [] then (s, Inl (OtherError ''consent.relay: param client must not be empty''))
     else bindE (engine_relay w (relayed origin req)) (\<lambda>d. liftE (relay_result nonce (endpoint_of origin req) d)) s)"
proof -
  obtain ps where ps: "relay_json (relay_of origin req nonce) = JObj ps" by (simp add: relay_json_def)
  have "unmarshal (render (relay_json (relay_of origin req nonce))) = Some (JObj ps)"
    using unmarshal_render [OF relay_json_ok] ps by metis
  then show ?thesis using assms relay_params_sent [OF ps] by (simp add: relay_reply_def handle_relay_def liftE_def)
qed

lemma relay_result_read:
  assumes "relay_result nonce endpoint d = Inr j" and "as_struct set_reply zero_reply j = Some rep" and "rp_status rep = ''approved''"
  shows "dn_verdict d = VerdictOK \<and> rp_nonce rep = nonce \<and> rp_endpoint rep = endpoint"
  using assms by (auto simp: relay_result_def set_reply_def zero_reply_def attestation_json_def Let_def split: consent_verdict.splits option.splits)

lemma relay_result_ok: "relay_result nonce endpoint d = Inr j \<Longrightarrow> json_ok j"
  by (auto simp: relay_result_def attestation_json_def Let_def split: consent_verdict.splits option.splits)

lemma unavailable_line: "reply_of (render (JObj [(''status'', JStr ''unavailable'')]) @ [char_of (10 :: nat)]) = Some (zero_reply\<lparr>rp_status := ''unavailable''\<rparr>)"
  by (subst reply_of_line) (auto simp: set_reply_def zero_reply_def)

text \<open>An approval a peer's process writes was given by that peer's attended human to the request as relayed.\<close>

lemma relay_approval_prompted:
  assumes "run_relay w (render (relay_json (relay_of origin req nonce))) s = (s', out)"
    and "length (render (relay_json (relay_of origin req nonce))) \<le> 16777216"
    and "reply_of out = Some rep" and "rp_status rep = ''approved''"
  shows "rp_nonce rep = nonce \<and> rp_endpoint rep = endpoint_of origin req \<and> rq_client req \<noteq> [] \<and>
    (\<exists>new res. dk_calls s' = dk_calls s @ new \<and> list_all asks_here new \<and> attended_here (set new) \<and>
       Prompted (stamp_origin (relayed origin req)) (Inr res) \<in> set new \<and> pr_verdict res = VerdictOK)"
proof -
  have u: "rp_status (zero_reply\<lparr>rp_status := ''unavailable''\<rparr>) \<noteq> ''approved''" by simp
  obtain j where j: "relay_reply w (render (relay_json (relay_of origin req nonce))) s = (s', Inr j)" "out = render j @ [char_of (10 :: nat)]"
    using assms(1,3,4) unavailable_line u by (auto simp: run_relay_def split: prod.splits sum.splits)
  then have c: "rq_client req \<noteq> []"
    and "bindE (engine_relay w (relayed origin req)) (\<lambda>d. liftE (relay_result nonce (endpoint_of origin req) d)) s = (s', Inr j)"
    by (simp_all add: relay_reply_sent [OF assms(2)] split: if_splits)
  from this(2) obtain d where d: "engine_relay w (relayed origin req) s = (s', Inr d)" "relay_result nonce (endpoint_of origin req) d = Inr j"
    by (auto elim!: bindE_cases)
  have "as_struct set_reply zero_reply j = Some rep"
    using assms(3) reply_of_line [OF relay_result_ok [OF d(2)]] j(2) by simp
  from relay_result_read [OF d(2) this assms(4)] have r: "dn_verdict d = VerdictOK" "rp_nonce rep = nonce" "rp_endpoint rep = endpoint_of origin req" by auto
  from emitsD [OF engine_relay_shown d(1)] r(1) obtain new res where "dk_calls s' = dk_calls s @ new" "list_all asks_here new"
    "attended_here (set new)" "Prompted (stamp_origin (relayed origin req)) (Inr res) \<in> set new" "pr_verdict res = VerdictOK"
    by (auto simp: leg_shown_def)
  with r c show ?thesis by blast
qed

subsection \<open>The calls of an ask are the world's answers\<close>

definition answered :: "consent_world \<Rightarrow> consent_call \<Rightarrow> bool" where
  "answered w c \<longleftrightarrow> (case c of
     ReadSelf r \<Rightarrow> (\<exists>l. r = cw_self w l)
   | Minted r \<Rightarrow> (\<exists>l. r = cw_nonce w l)
   | Ran peer cmd stdin r \<Rightarrow> (\<exists>l. r = cw_run w peer cmd stdin l)
   | _ \<Rightarrow> True)"

abbreviation by_world :: "consent_world \<Rightarrow> calls \<Rightarrow> 'r \<Rightarrow> bool" where
  "by_world w new r \<equiv> list_all (answered w) new"

lemma answered_simps [simp]:
  "answered w (ReadSelf (cw_self w l))" "answered w (Minted (cw_nonce w l))" "answered w (Ran peer cmd stdin (cw_run w peer cmd stdin l))"
  "answered w (ReadClock t)" "answered w (ReadUser u)" "answered w (Probed p)" "answered w (Prompted q a)" "answered w (Resolved ps)"
  "answered w (AskedPhone ph ask b)"
  by (auto simp: answered_def)

lemma by_world_bind: "emits m (by_world w) \<Longrightarrow> (\<And>x. emits (k x) (by_world w)) \<Longrightarrow> emits (bindE m k) (by_world w)"
  by (rule emits_bind [where P = "by_world w"]) (auto elim: emits_mono [where P = "by_world w"])

lemma by_world_lift: "emits (liftE r) (by_world w)"
  by (simp add: emits_lift)

lemma by_world_called: "(\<And>l. answered w (ev (answer l))) \<Longrightarrow> emits (called answer ev res) (by_world w)"
  by (auto simp: emits_def called_def Let_def)

lemma by_world_caught: "emits m (by_world w) \<Longrightarrow> emits (caught m) (by_world w)"
  by (rule emits_caught)

lemmas by_world_intros = by_world_bind by_world_lift by_world_called by_world_caught

lemma by_world_live: "emits (live w peer) (by_world w)"
  by (auto simp: live_def run_remote_def intro!: by_world_intros split: option.split)

lemma by_world_relay: "emits (relay w peer endpoint attempt) (by_world w)"
  by (auto simp: relay_def run_remote_def intro!: by_world_intros split: option.split sum.split)

lemma by_world_walk: "emits (walk w peers endpoint attempt last_err) (by_world w)"
  by (induction peers arbitrary: last_err)
    (auto simp: intro!: by_world_intros by_world_live by_world_relay split: sum.split bool.split)

lemma by_world_phones: "emits (ask_phones_from w transport ask ps) (by_world w)"
  by (induction ps) (auto simp: intro!: by_world_intros split: sum.split)

lemma by_world_approve: "emits (approve w req d) (by_world w)"
  by (rule emits_approve) (fastforce simp: list_all_iff)

lemma by_world_settle: "emits (settle_route w req r) (by_world w)"
  by (auto simp: settle_route_def intro!: by_world_intros by_world_approve split: sum.split consent_verdict.split)

lemma by_world_or_phones: "emits (or_phones w req origin r) (by_world w)"
  by (auto simp: or_phones_def ask_phones_def intro!: by_world_intros by_world_phones split: sum.split option.split)

lemma by_world_route: "emits (route w req) (by_world w)"
  by (auto simp: route_def route_candidates_def self_def intro!: by_world_intros by_world_walk by_world_or_phones by_world_settle)

lemma by_world_decide: "emits (decide w req) (by_world w)"
proof -
  have r: "emits (decide_remote w req) (by_world w)" by (auto simp: decide_remote_def intro!: by_world_intros by_world_route)
  have l: "emits (decide_local w req) (by_world w)"
    by (auto simp: decide_local_def prompt_def self_def r intro!: by_world_intros by_world_approve split: consent_verdict.split)
  have g: "emits (decide_gate w req) (by_world w)"
    by (auto simp: decide_gate_def probe_console_def is_attended_def r l intro!: by_world_intros)
  have "emits (granted w requestor subject) (by_world w)" for requestor subject
    by (rule emits_granted) simp
  with g show ?thesis by (auto simp: decide_def intro!: by_world_intros split: option.split)
qed


subsection \<open>Instances\<close>

definition console_line :: string where
  "console_line = render (JObj [(''on_console'', JBool True), (''locked'', JBool False), (''console_user'', JStr ''bea''), (''screen_shared'', JBool False)])"

text \<open>Nobody sits at this host; its one peer runs the relay process, where a human approves.\<close>

definition empty_desk :: desk where
  "empty_desk = \<lparr>dk_calls = [], dk_grants = Map.empty\<rparr>"

definition absent_world :: consent_world where
  "absent_world = (answering VerdictFatal)\<lparr>cw_probe := (\<lambda>_. Inr no_session), cw_run := (\<lambda>peer cmd stdin l.
     case stdin of None \<Rightarrow> Inr console_line
     | Some i \<Rightarrow> if cmd = RelayCommand then Inr (snd (run_relay (answering VerdictOK) i empty_desk)) else Inl DeadlineExceeded)\<rparr>"

lemma console_live: "\<exists>snap. snapshot_of console_line = Some snap \<and> on_console snap \<and> \<not> locked snap \<and> \<not> screen_shared snap"
  unfolding snapshot_of_def console_line_def
  by (subst unmarshal_render) (auto simp: set_snapshot_def no_session_def as_boolean_def fold_key_def)

lemma sample_short: "length (render (relay_json (relay_of ''mac'' sample_request ''n''))) \<le> 16777216"
  by (rule order_trans [of _ 200]) (code_simp, simp)

lemma peer_line:
  "snd (run_relay (answering VerdictOK) (render (relay_json (relay_of ''mac'' sample_request ''n''))) empty_desk) =
     render (JObj [(''endpoint'', JStr ''mac:jar''), (''nonce'', JStr ''n''), (''status'', JStr ''approved'')]) @ [char_of (10 :: nat)]"
  by (simp add: run_relay_def relay_reply_sent [OF sample_short])
    (simp add: sample_request_def engine_relay_def relay_prompt_def caught_def run_decide relay_result_def endpoint_of_def)

lemma peer_reply:
  "reply_of (snd (run_relay (answering VerdictOK) (render (relay_json (relay_of ''mac'' sample_request ''n''))) empty_desk)) =
     Some (zero_reply\<lparr>rp_endpoint := ''mac:jar'', rp_nonce := ''n'', rp_status := ''approved''\<rparr>)"
  unfolding peer_line by (subst reply_of_line) (auto simp: set_reply_def zero_reply_def)

lemma absent_fields:
  "cw_self absent_world = (\<lambda>_. Inr ''mac'')" "cw_resolve absent_world = (\<lambda>_. Inr [''mini''])" "cw_phones absent_world = None"
  "cw_probe absent_world = (\<lambda>_. Inr no_session)" "cw_user absent_world = (\<lambda>_. Inr ''ann'')" "cw_now absent_world = (\<lambda>cs. 100 + int (length cs))"
  "cw_nonce absent_world = (\<lambda>_. Inr ''n'')" "cw_probe_cmd absent_world = PresenceCommand"
  "cw_run absent_world peer cmd None l = Inr console_line"
  "cw_run absent_world peer RelayCommand (Some i) l = Inr (snd (run_relay (answering VerdictOK) i empty_desk))"
  by (simp_all add: absent_world_def answering_def)

lemma absent_routes:
  "\<exists>s d. decide absent_world sample_request empty_desk = (s, Inr d) \<and> dn_verdict d = VerdictOK \<and> dn_routed d"
proof -
  obtain snap where snap: "snapshot_of console_line = Some snap" "on_console snap" "\<not> locked snap" "\<not> screen_shared snap"
    using console_live by blast
  have e: "endpoint_of ''mac'' sample_request = ''mac:jar''" by (simp add: endpoint_of_def sample_request_def)
  have live: "live absent_world ''mini'' s = (s\<lparr>dk_calls := dk_calls s @ [Ran ''mini'' PresenceCommand None (Inr console_line)]\<rparr>, Inr True)" for s
    by (simp add: live_def run_remote_def called_def bindE_def absent_fields snap liftE_def Let_def)
  have "\<exists>s' rep. relay absent_world ''mini'' ''mac:jar'' (relay_attempt ''mac'' sample_request) s = (s', Inr (Inr rep))" for s
    by (simp add: relay_def run_remote_def called_def bindE_def absent_fields liftE_def Let_def caught_def relay_attempt_def
        relay_answer_def peer_reply)
  then obtain f g where relayed: "\<And>s. relay absent_world ''mini'' ''mac:jar'' (relay_attempt ''mac'' sample_request) s = (f s, Inr (Inr (g s)))"
    by metis
  obtain h where walked: "\<And>s. walk absent_world [''mini''] ''mac:jar'' (relay_attempt ''mac'' sample_request) None s = (f (h s), Inr (g (h s)))"
    by (simp add: caught_def bindE_def [of "\<lambda>s. _ s"] live bindE_def relayed liftE_def)
  have peers: "keep_approvers sample_request [''mini''] = [''mini'']" by (simp add: keep_approvers_def sample_request_def)
  have away: "attended (Inr ''ann'') no_session = Inr False" by (simp add: attended_def no_session_def)
  have "\<exists>s' d. route absent_world sample_request s = (s', Inr d) \<and> dn_verdict d = VerdictOK \<and> dn_routed d" for s
    by (simp add: route_def self_def bindE_def called_def Let_def absent_fields peers e route_candidates_def caught_def walked or_phones_def settle_route_def
        approve_def grant_def liftE_def decided_def del: walk.simps)
  moreover have "\<not> rq_local_only sample_request" "\<not> attests sample_request" by (simp_all add: sample_request_def attests_def)
  ultimately show ?thesis
    by (simp add: decide_def decide_gate_def decide_remote_def bindE_def granted_def called_def Let_def granted_at_def prune_def empty_desk_def
        probe_console_def is_attended_def absent_fields away)
qed


end
