(* ===== verification/Consent_Grants.thy ===== *)
theory Consent_Grants
  imports Consent_Wire
begin

text \<open>
  The grants under concurrent asks. \<^verbatim>\<open>Decide\<close> runs once per connection, many at a time, and takes the
  grants' mutex twice: to look a grant up and, after an approval, to record one. \<open>desk_step\<close> is that
  protocol, one step per critical section, with any number of asks in flight; \<open>decide\<close> refines it, and
  its invariant says where every live grant comes from.
\<close>

subsection \<open>The protocol\<close>

type_synonym desk_state = "grants \<times> (nat \<rightharpoonup> consent_request)"

datatype ask_event =
    Served consent_request gotime gotime
  | Asking nat consent_request
  | Approved nat consent_request gotime
  | Ended nat consent_request
  | Capped string string gotime duration

inductive desk_step :: "desk_state \<Rightarrow> ask_event \<Rightarrow> desk_state \<Rightarrow> bool" where
  served: "\<not> attests req \<Longrightarrow> granted_at now (rq_requestor req) (rq_subject req) g = (g', Some until) \<Longrightarrow>
    desk_step (g, f) (Served req now until) (g', f)"
| asking: "\<not> attests req \<Longrightarrow> granted_at now (rq_requestor req) (rq_subject req) g = (g', None) \<Longrightarrow> f i = None \<Longrightarrow>
    desk_step (g, f) (Asking i req) (g', f(i \<mapsto> req))"
| attesting: "attests req \<Longrightarrow> f i = None \<Longrightarrow> desk_step (g, f) (Asking i req) (g, f(i \<mapsto> req))"
| approved: "f i = Some req \<Longrightarrow> \<not> (rq_ttl req \<le> 0 \<or> attests req) \<Longrightarrow>
    desk_step (g, f) (Approved i req now) (grant_at now (rq_requestor req) [rq_subject req] (rq_ttl req) g, f(i := None))"
| ended: "f i = Some req \<Longrightarrow> desk_step (g, f) (Ended i req) (g, f(i := None))"
| capped: "desk_step (g, f) (Capped requestor subject now ttl) (cap_at now requestor subject ttl g, f)"

inductive_cases desk_stepE: "desk_step (g, f) ev (g', f')"

inductive desk_run :: "desk_state \<Rightarrow> ask_event list \<Rightarrow> desk_state \<Rightarrow> bool" where
  start: "desk_run st [] st"
| step: "desk_run st evs st1 \<Longrightarrow> desk_step st1 ev st2 \<Longrightarrow> desk_run st (evs @ [ev]) st2"

subsection \<open>Where a grant comes from\<close>

text \<open>\<open>earned evs requestor subject expiry\<close>: an approval of a request that attests nothing was recorded, and
  the expiry lies within the lifetime that request asked for.\<close>

definition earned :: "ask_event list \<Rightarrow> string \<Rightarrow> string \<Rightarrow> gotime \<Rightarrow> bool" where
  "earned evs requestor subject expiry \<longleftrightarrow> (\<exists>i req now. Approved i req now \<in> set evs \<and> rq_requestor req = requestor \<and>
     rq_subject req = subject \<and> \<not> attests req \<and> 0 < rq_ttl req \<and> expiry \<le> now + rq_ttl req)"

definition grants_earned :: "ask_event list \<Rightarrow> grants \<Rightarrow> bool" where
  "grants_earned evs g \<longleftrightarrow> (\<forall>requestor subject expiry. g (requestor, subject) = Some expiry \<longrightarrow> earned evs requestor subject expiry)"

definition served_earned :: "ask_event list \<Rightarrow> bool" where
  "served_earned evs \<longleftrightarrow> (\<forall>pre req now until post. evs = pre @ Served req now until # post \<longrightarrow>
     \<not> attests req \<and> now \<le> until \<and> earned pre (rq_requestor req) (rq_subject req) until)"

lemma earned_more: "earned evs requestor subject expiry \<Longrightarrow> earned (evs @ later) requestor subject expiry"
  by (auto simp: earned_def)

lemma earned_less: "earned evs requestor subject expiry \<Longrightarrow> t \<le> expiry \<Longrightarrow> earned evs requestor subject t"
  unfolding earned_def by force

lemma served_earned_snoc:
  "served_earned (evs @ [ev]) \<longleftrightarrow> served_earned evs \<and> (\<forall>req now until. ev = Served req now until \<longrightarrow>
     \<not> attests req \<and> now \<le> until \<and> earned evs (rq_requestor req) (rq_subject req) until)"
proof -
  have split: "evs @ [ev] = pre @ c # post \<longleftrightarrow> (\<exists>zs. post = zs @ [ev] \<and> evs = pre @ c # zs) \<or> post = [] \<and> pre = evs \<and> c = ev" for pre c post
    by (cases post rule: rev_cases) auto
  show ?thesis unfolding served_earned_def split by blast
qed

lemma prune_Some: "prune now g key = Some e \<longleftrightarrow> g key = Some e \<and> now \<le> e"
  by (auto simp: prune_def split: option.splits)

lemma cap_at_Some: "cap_at now requestor subject ttl g key = Some e \<Longrightarrow> \<exists>e'. g key = Some e' \<and> e \<le> e'"
  by (auto simp: cap_at_def split: option.splits if_splits)

lemma desk_step_earned:
  assumes "desk_step st ev st'" and "grants_earned evs (fst st)" and "served_earned evs"
  shows "grants_earned (evs @ [ev]) (fst st') \<and> served_earned (evs @ [ev])"
  using assms
proof cases
  case (served req now g g' until f)
  with assms(2,3) show ?thesis
    by (auto simp: granted_at_def Let_def prune_Some grants_earned_def served_earned_snoc intro: earned_more)
next
  case (asking req now g g' f i)
  with assms(2,3) show ?thesis
    by (auto simp: granted_at_def Let_def prune_Some grants_earned_def served_earned_snoc intro: earned_more)
next
  case (approved f i req g now)
  then have "earned (evs @ [ev]) (rq_requestor req) (rq_subject req) (now + rq_ttl req)" by (force simp: earned_def)
  with approved assms(2,3) show ?thesis
    by (auto simp: grant_at_def grants_earned_def served_earned_snoc intro: earned_more)
next
  case (capped g f requestor subject now ttl)
  with assms(2) have "grants_earned (evs @ [ev]) (fst st')"
    unfolding grants_earned_def by (metis cap_at_Some earned_less earned_more fst_conv)
  with capped assms(3) show ?thesis by (simp add: served_earned_snoc)
qed (use assms in \<open>auto simp: grants_earned_def served_earned_snoc intro: earned_more\<close>)

text \<open>C33. However asks interleave and grants are capped, every live grant was recorded by an approval of a request
  that attested nothing, from the same requestor for the same subject, and ends within the lifetime that request
  asked for; so does every grant an ask was served from, which had not expired then.\<close>

theorem grants_from_approvals:
  assumes "desk_run (Map.empty, Map.empty) evs (g, f)"
  shows "grants_earned evs g \<and> served_earned evs"
proof -
  have "grants_earned evs (fst st') \<and> served_earned evs" if "desk_run st evs st'" "st = (Map.empty, Map.empty)" for st st'
    using that
  proof (induction rule: desk_run.induct)
    case (start st)
    then show ?case by (simp add: grants_earned_def served_earned_def)
  next
    case (step st evs st1 ev st2)
    then show ?case using desk_step_earned by blast
  qed
  from this [OF assms] show ?thesis by simp
qed

subsection \<open>One ask is a run of the protocol\<close>

definition keeps_grants :: "'a consent_act \<Rightarrow> bool" where
  "keeps_grants m \<longleftrightarrow> (\<forall>s s' r. m s = (s', r) \<longrightarrow> dk_grants s' = dk_grants s)"

lemma keeps_grants_intros:
  "keeps_grants m \<Longrightarrow> (\<And>x. keeps_grants (k x)) \<Longrightarrow> keeps_grants (bindE m k)"
  "keeps_grants (liftE r)"
  "keeps_grants (called answer ev res)"
  "keeps_grants m \<Longrightarrow> keeps_grants (caught m)"
proof -
  show "keeps_grants (bindE m k)" if "keeps_grants m" "\<And>x. keeps_grants (k x)"
    unfolding keeps_grants_def
  proof (intro allI impI)
    fix s s' r assume "bindE m k s = (s', r)"
    then show "dk_grants s' = dk_grants s"
    proof (cases rule: bindE_cases)
      case (error e)
      with that(1) show ?thesis by (auto simp: keeps_grants_def)
    next
      case (next_step s1 x)
      with that show ?thesis unfolding keeps_grants_def by metis
    qed
  qed
qed (auto simp: keeps_grants_def called_def caught_def Let_def split: prod.splits)

lemma keeps_live: "keeps_grants (live w peer)"
  by (auto simp: live_def run_remote_def intro!: keeps_grants_intros split: option.split)

lemma keeps_relay: "keeps_grants (relay w peer endpoint attempt)"
  by (auto simp: relay_def run_remote_def intro!: keeps_grants_intros split: sum.split)

lemma keeps_walk: "keeps_grants (walk w peers endpoint attempt last_err)"
  by (induction peers arbitrary: last_err) (auto intro!: keeps_grants_intros keeps_live keeps_relay split: sum.split bool.split)

lemma keeps_phones: "keeps_grants (ask_phones_from w transport ask ps)"
  by (induction ps) (auto intro!: keeps_grants_intros split: sum.split)

lemma keeps_or_phones: "keeps_grants (or_phones w req origin r)"
  by (auto simp: or_phones_def ask_phones_def intro!: keeps_grants_intros keeps_phones split: sum.split option.split)

text \<open>What the rest of an ask does to the grants: nothing, or what an approval records.\<close>

definition records :: "consent_request \<Rightarrow> grants \<Rightarrow> grants \<Rightarrow> consent_error + decision \<Rightarrow> bool" where
  "records req g g' r \<longleftrightarrow> g' = g \<or> (\<exists>now d. \<not> (rq_ttl req \<le> 0 \<or> attests req) \<and> r = Inr d \<and> dn_verdict d = VerdictOK \<and>
     g' = grant_at now (rq_requestor req) [rq_subject req] (rq_ttl req) g)"

definition recording :: "consent_request \<Rightarrow> decision consent_act \<Rightarrow> bool" where
  "recording req m \<longleftrightarrow> (\<forall>s s' r. m s = (s', r) \<longrightarrow> records req (dk_grants s) (dk_grants s') r)"

lemma recording_bind:
  assumes "keeps_grants m" and "\<And>x. recording req (k x)"
  shows "recording req (bindE m k)"
  unfolding recording_def
proof (intro allI impI)
  fix s s' r assume "bindE m k s = (s', r)"
  then show "records req (dk_grants s) (dk_grants s') r"
  proof (cases rule: bindE_cases)
    case (error e)
    with assms(1) show ?thesis by (auto simp: keeps_grants_def records_def)
  next
    case (next_step s1 x)
    with assms show ?thesis unfolding keeps_grants_def recording_def by metis
  qed
qed

lemma recording_lift: "recording req (liftE r)"
  by (simp add: recording_def records_def)

lemma recording_approve: "dn_verdict d = VerdictOK \<Longrightarrow> recording req (approve w req d)"
  by (auto simp: recording_def records_def approve_def grant_def called_def bindE_def Let_def liftE_def split: if_splits)

lemma recording_route: "recording req (route w req)"
  unfolding route_def route_candidates_def self_def settle_route_def
  by (auto intro!: recording_bind recording_lift recording_approve keeps_grants_intros keeps_walk keeps_or_phones
      simp: decided_def split: sum.split consent_verdict.split)

lemma recording_remote: "recording req (decide_remote w req)"
  by (auto simp: decide_remote_def recording_lift recording_route)

lemma recording_gate: "recording req (decide_gate w req)"
  unfolding decide_gate_def decide_local_def probe_console_def is_attended_def prompt_def self_def
  by (auto intro!: recording_bind recording_lift recording_approve recording_remote keeps_grants_intros
      simp: decided_def split: consent_verdict.split)

text \<open>C34. One ask refines the protocol: it is served, or it starts and then either records an approval it decided
  on or ends without one, and the grants it leaves are the protocol's.\<close>

theorem decide_refines_desk:
  assumes "decide w req s = (s', r)" and "f i = None"
  shows "\<exists>evs. desk_run (dk_grants s, f) evs (dk_grants s', f) \<and>
    ((\<exists>now until d. evs = [Served req now until] \<and> r = Inr d \<and> dn_cached d) \<or> evs = [Asking i req, Ended i req] \<or>
     (\<exists>now d. evs = [Asking i req, Approved i req now] \<and> r = Inr d \<and> dn_verdict d = VerdictOK))"
  using assms(1) unfolding decide_def
proof (cases rule: bindE_cases)
  case (error e)
  then show ?thesis by (auto simp: granted_def called_def bindE_def Let_def liftE_def split: if_splits prod.splits)
next
  case (next_step s1 cached)
  show ?thesis
  proof (cases cached)
    case (Some until)
    with next_step(1) obtain now where g: "\<not> attests req" "granted_at now (rq_requestor req) (rq_subject req) (dk_grants s) = (dk_grants s1, Some until)"
      by (auto simp: granted_def called_def bindE_def Let_def liftE_def split: if_splits prod.splits)
    from desk_step.served [OF this] have "desk_run (dk_grants s, f) ([] @ [Served req now until]) (dk_grants s1, f)"
      by (rule desk_run.step [OF desk_run.start])
    with next_step(2) Some show ?thesis by auto
  next
    case None
    have "desk_step (dk_grants s, f) (Asking i req) (dk_grants s1, f(i \<mapsto> req))"
    proof (cases "attests req")
      case True
      with next_step(1) show ?thesis using desk_step.attesting [OF True, of f i] assms(2) by simp
    next
      case False
      with next_step(1) None obtain now where "granted_at now (rq_requestor req) (rq_subject req) (dk_grants s) = (dk_grants s1, None)"
        by (auto simp: granted_def called_def bindE_def Let_def split: prod.splits)
      from desk_step.asking [where f = f and i = i, OF False this assms(2)] show ?thesis .
    qed
    then have asking: "desk_run (dk_grants s, f) ([] @ [Asking i req]) (dk_grants s1, f(i \<mapsto> req))" by (rule desk_run.step [OF desk_run.start])
    have cleared: "(f(i \<mapsto> req))(i := None) = f" using assms(2) by auto
    from next_step(2) None recording_gate [of req w] have "records req (dk_grants s1) (dk_grants s') r" by (simp add: recording_def)
    then consider (same) "dk_grants s' = dk_grants s1"
      | (new) now d where "\<not> (rq_ttl req \<le> 0 \<or> attests req)" "r = Inr d" "dn_verdict d = VerdictOK"
        "dk_grants s' = grant_at now (rq_requestor req) [rq_subject req] (rq_ttl req) (dk_grants s1)"
      unfolding records_def by blast
    then show ?thesis
    proof cases
      case same
      from desk_run.step [OF asking desk_step.ended, of i req] cleared same show ?thesis by auto
    next
      case new
      from desk_run.step [OF asking desk_step.approved, of i req now] cleared new show ?thesis by auto
    qed
  qed
qed

subsection \<open>Instances\<close>

theorem grants_from_approvals_witness:
  "earned [Asking 0 sample_request, Approved 0 sample_request 100] ''sid:7'' ''jar'' 160"
proof -
  let ?g = "grant_at 100 (rq_requestor sample_request) [rq_subject sample_request] (rq_ttl sample_request) Map.empty"
  have r: "\<not> attests sample_request" "\<not> (rq_ttl sample_request \<le> 0 \<or> attests sample_request)"
    by (simp_all add: attests_def sample_request_def)
  have "granted_at 50 (rq_requestor sample_request) (rq_subject sample_request) Map.empty = (Map.empty, None)"
    by (simp add: granted_at_def prune_def Let_def)
  from desk_run.step [OF desk_run.start desk_step.asking [OF r(1) this, where f = Map.empty and i = 0]]
  have "desk_run (Map.empty, Map.empty) [Asking 0 sample_request] (Map.empty, [0 \<mapsto> sample_request])" by simp
  from desk_run.step [OF this desk_step.approved [OF _ r(2)], of 0 100]
  have "desk_run (Map.empty, Map.empty) [Asking 0 sample_request, Approved 0 sample_request 100] (?g, [0 \<mapsto> sample_request](0 := None))" by simp
  from grants_from_approvals [OF this] show ?thesis by (simp add: grants_earned_def grant_at_def sample_request_def)
qed

theorem decide_refines_desk_witness:
  "\<exists>evs g. evs \<noteq> [] \<and> desk_run (Map.empty, Map.empty) evs (g, Map.empty)"
proof -
  obtain s r where d: "decide (answering VerdictOK) sample_request empty_desk = (s, r)"
    by (cases "decide (answering VerdictOK) sample_request empty_desk")
  from decide_refines_desk [OF d, of Map.empty 0] show ?thesis by (fastforce simp: empty_desk_def)
qed

end
