(* ===== verification/Converge.thy ===== *)
theory Converge
  imports C_Registry
begin

text \<open>
  The convergent reconcile (\<^verbatim>\<open>src/converge/converge.go\<close>, \<^verbatim>\<open>status.go\<close>): one host's pass, the peer
  status behind its log lines, and a mesh of hosts whose passes interleave.

  The driver and the fetcher are interfaces of other packages: their answers are arguments. The
  passes of one host, and the mutations of its registry, are serialized by its lock.
\<close>

subsection \<open>Peer status\<close>

type_synonym peer_status = "string \<rightharpoonup> gotime"

definition status_down :: "gotime \<Rightarrow> string \<Rightarrow> peer_status \<Rightarrow> peer_status \<times> bool" where
  "status_down now peer s = (case s peer of Some _ \<Rightarrow> (s, False) | None \<Rightarrow> (s(peer \<mapsto> now), True))"

definition status_up :: "gotime \<Rightarrow> string \<Rightarrow> peer_status \<Rightarrow> peer_status \<times> duration \<times> bool" where
  "status_up now peer s = (case s peer of None \<Rightarrow> (s, 0, False) | Some started \<Rightarrow> (s(peer := None), now - started, True))"

subsection \<open>One pass\<close>

datatype log_line = PeerDown string | PeerUp string duration

record 'r pull =
  pl_merged :: 'r
  pl_status :: peer_status
  pl_lines :: "log_line list"

text \<open>One turn of the loop over the peers: \<open>answer\<close> is what \<^verbatim>\<open>Fetch\<close> returns.\<close>

definition pull_peer :: "('r \<Rightarrow> 'r \<Rightarrow> 'r) \<Rightarrow> string \<Rightarrow> gotime \<Rightarrow> 'r res \<Rightarrow> string \<Rightarrow> 'r pull \<Rightarrow> 'r pull" where
  "pull_peer mrg origin now answer peer p =
     (if peer = origin then p
      else case answer of
        Inl _ \<Rightarrow> (let (st, first) = status_down now peer (pl_status p) in
          p\<lparr>pl_status := st, pl_lines := pl_lines p @ (if first then [PeerDown peer] else [])\<rparr>)
      | Inr reg \<Rightarrow> (let (st, down_for, recovered) = status_up now peer (pl_status p) in
          p\<lparr>pl_merged := mrg (pl_merged p) reg, pl_status := st, pl_lines := pl_lines p @ (if recovered then [PeerUp peer down_for] else [])\<rparr>))"

fun pull_peers :: "('r \<Rightarrow> 'r \<Rightarrow> 'r) \<Rightarrow> string \<Rightarrow> (string \<Rightarrow> gotime) \<Rightarrow> (string \<Rightarrow> 'r res) \<Rightarrow> string list \<Rightarrow> 'r pull \<Rightarrow> 'r pull" where
  "pull_peers mrg origin now fetch [] p = p"
| "pull_peers mrg origin now fetch (peer # peers) p =
     pull_peers mrg origin now fetch peers (pull_peer mrg origin (now peer) (fetch peer) peer p)"

record item_result =
  ir_id :: string
  ir_outcome :: string
  ir_err :: "goerr option"

text \<open>\<open>ids\<close> is the order Go's map iteration visits the present items in; \<open>driver\<close> the domain's reconcile.\<close>

definition reconcile_items :: "(string \<Rightarrow> 'v entry \<Rightarrow> string \<times> goerr option) \<Rightarrow> 'v registry \<Rightarrow> string list \<Rightarrow> item_result list" where
  "reconcile_items driver reg ids = concat (map (\<lambda>i. case registry_present reg i of
     None \<Rightarrow> []
   | Some e \<Rightarrow> (case driver i e of (outcome, err) \<Rightarrow> [\<lparr>ir_id = i, ir_outcome = outcome, ir_err = err\<rparr>])) ids)"

text \<open>The pass: what it asks the driver to save, the status and lines it leaves, and its result.\<close>

definition reconcile :: "'v \<Rightarrow> ('v \<Rightarrow> bytes) \<Rightarrow> 'v registry res \<Rightarrow> (string \<Rightarrow> gotime) \<Rightarrow> (string \<Rightarrow> 'v registry res) \<Rightarrow> ('v registry \<Rightarrow> unit res) \<Rightarrow>
    (string \<Rightarrow> 'v entry \<Rightarrow> string \<times> goerr option) \<Rightarrow> string list \<Rightarrow> peer_status \<Rightarrow> string list \<Rightarrow> string \<Rightarrow>
    'v registry option \<times> peer_status \<times> log_line list \<times> item_result list res" where
  "reconcile z canonical local now fetch save driver ids status peers origin =
     (case local of
        Inl e \<Rightarrow> (None, status, [], Inl e)
      | Inr reg \<Rightarrow>
          let p = pull_peers (merge z canonical) origin now fetch peers \<lparr>pl_merged = reg, pl_status = status, pl_lines = []\<rparr> in
          (case save (pl_merged p) of
             Inl e \<Rightarrow> (None, pl_status p, pl_lines p, Inl e)
           | Inr _ \<Rightarrow> (Some (pl_merged p), pl_status p, pl_lines p, Inr (reconcile_items driver (pl_merged p) ids))))"

text \<open>A pass with any loss of peers merges the registries that answered into its own.\<close>

lemma pull_peers_merged:
  "pl_merged (pull_peers mrg origin now fetch peers p) =
     fold (\<lambda>peer m. case fetch peer of Inl _ \<Rightarrow> m | Inr reg \<Rightarrow> mrg m reg) (filter (\<lambda>peer. peer \<noteq> origin) peers) (pl_merged p)"
  by (induction peers arbitrary: p) (auto simp: pull_peer_def Let_def split: sum.splits prod.splits)

subsection \<open>Outages are told once\<close>

text \<open>The lines about a peer alternate, starting with the outage, and the status says how they ended.\<close>

fun told :: "string \<Rightarrow> bool \<Rightarrow> log_line list \<Rightarrow> bool option" where
  "told peer down [] = Some down"
| "told peer down (PeerDown p # ls) = (if p \<noteq> peer then told peer down ls else if down then None else told peer True ls)"
| "told peer down (PeerUp p d # ls) = (if p \<noteq> peer then told peer down ls else if down then told peer False ls else None)"

lemma told_append: "told peer down (xs @ ys) = Option.bind (told peer down xs) (\<lambda>d. told peer d ys)"
  by (induction peer down xs rule: told.induct) auto

lemma pull_peer_told:
  assumes "told q d0 (pl_lines p) = Some (pl_status p q \<noteq> None)"
  shows "told q d0 (pl_lines (pull_peer mrg origin now answer peer p)) = Some (pl_status (pull_peer mrg origin now answer peer p) q \<noteq> None)"
  using assms by (auto simp: pull_peer_def status_down_def status_up_def told_append Let_def split: sum.splits option.splits)

lemma pull_peers_told:
  "told q d0 (pl_lines p) = Some (pl_status p q \<noteq> None) \<Longrightarrow>
   told q d0 (pl_lines (pull_peers mrg origin now fetch peers p)) = Some (pl_status (pull_peers mrg origin now fetch peers p) q \<noteq> None)"
  by (induction peers arbitrary: p) (simp_all add: pull_peer_told)

subsection \<open>A mesh of hosts\<close>

record 'r pass =
  ps_pull :: "'r pull"
  ps_todo :: "string list"
  ps_origin :: string
  ps_got :: "string set"

record 'r mesh =
  ms_reg :: "string \<Rightarrow> 'r"
  ms_status :: "string \<Rightarrow> peer_status"
  ms_pass :: "string \<Rightarrow> 'r pass option"

datatype 'r mesh_event =
    Began string
  | Pulled string string
  | Saved string "string set"
  | Aborted string
  | Mutated string 'r

text \<open>
  One step of one of the \<open>hosts\<close>. Each fetch reads what the peer's registry is at that moment, whatever
  the peer's own pass is doing; a fetch or a save may fail; a pass may begin for any peers and
  origin. \<open>got\<close> and the events only record what happened.
\<close>

inductive mesh_step :: "('r \<Rightarrow> 'r \<Rightarrow> 'r) \<Rightarrow> string set \<Rightarrow> 'r mesh \<Rightarrow> 'r mesh_event \<Rightarrow> 'r mesh \<Rightarrow> bool" for mrg hosts where
  began: "h \<in> hosts \<Longrightarrow> ms_pass m h = None \<Longrightarrow>
    mesh_step mrg hosts m (Began h) (m\<lparr>ms_pass := (ms_pass m)(h \<mapsto>
      \<lparr>ps_pull = \<lparr>pl_merged = ms_reg m h, pl_status = ms_status m h, pl_lines = []\<rparr>, ps_todo = peers, ps_origin = origin, ps_got = {}\<rparr>)\<rparr>)"
| pulled: "ms_pass m h = Some p \<Longrightarrow> ps_todo p = peer # rest \<Longrightarrow> answer = Inr (ms_reg m peer) \<and> peer \<in> hosts \<or> answer = Inl e \<Longrightarrow>
    mesh_step mrg hosts m (Pulled h peer) (m\<lparr>ms_pass := (ms_pass m)(h \<mapsto>
      p\<lparr>ps_pull := pull_peer mrg (ps_origin p) now answer peer (ps_pull p), ps_todo := rest,
        ps_got := (if peer \<noteq> ps_origin p \<and> answer = Inr (ms_reg m peer) then insert peer (ps_got p) else ps_got p)\<rparr>)\<rparr>)"
| saved: "ms_pass m h = Some p \<Longrightarrow> ps_todo p = [] \<Longrightarrow>
    mesh_step mrg hosts m (Saved h (ps_got p)) (m\<lparr>ms_reg := (ms_reg m)(h := pl_merged (ps_pull p)), ms_status := (ms_status m)(h := pl_status (ps_pull p)),
      ms_pass := (ms_pass m)(h := None)\<rparr>)"
| aborted: "ms_pass m h = Some p \<Longrightarrow>
    mesh_step mrg hosts m (Aborted h) (m\<lparr>ms_status := (ms_status m)(h := pl_status (ps_pull p)), ms_pass := (ms_pass m)(h := None)\<rparr>)"
| mutated: "h \<in> hosts \<Longrightarrow> ms_pass m h = None \<Longrightarrow>
    mesh_step mrg hosts m (Mutated h x) (m\<lparr>ms_reg := (ms_reg m)(h := mrg (ms_reg m h) x)\<rparr>)"

inductive mesh_run :: "('r \<Rightarrow> 'r \<Rightarrow> 'r) \<Rightarrow> string set \<Rightarrow> 'r mesh \<Rightarrow> 'r mesh_event list \<Rightarrow> 'r mesh \<Rightarrow> bool" for mrg hosts where
  idle: "mesh_run mrg hosts m [] m"
| step: "mesh_run mrg hosts m evs m1 \<Longrightarrow> mesh_step mrg hosts m1 ev m2 \<Longrightarrow> mesh_run mrg hosts m (evs @ [ev]) m2"

subsection \<open>The order of a convergent store\<close>

context convergent
begin

definition below :: "'a \<Rightarrow> 'a \<Rightarrow> bool" where
  "below a b \<longleftrightarrow> join a b = b"

lemma below_refl [simp]: "below a a"
  by (simp add: below_def join_idem)

lemma below_trans: "below a b \<Longrightarrow> below b c \<Longrightarrow> below a c"
  unfolding below_def by (metis join_assoc)

lemma below_antisym: "below a b \<Longrightarrow> below b a \<Longrightarrow> a = b"
  unfolding below_def by (metis join_comm)

lemma below_join: "below a (join a b)" "below b (join a b)"
  unfolding below_def by (metis join_assoc join_comm join_idem)+

lemma join_below: "below a c \<Longrightarrow> below b c \<Longrightarrow> below (join a b) c"
  unfolding below_def by (metis join_assoc)

lemma below_join_left: "below a b \<Longrightarrow> below a (join b c)"
  using below_join(1) below_trans by blast

lemma fold_join_below: "below a t \<Longrightarrow> (\<And>x. x \<in> set xs \<Longrightarrow> below x t) \<Longrightarrow> below (fold join xs a) t"
  by (induction xs arbitrary: a) (simp_all add: join_below)

lemma below_fold_join: "below a (fold join xs a)" "x \<in> set xs \<Longrightarrow> below x (fold join xs a)"
proof -
  show "below x (fold join xs a)" if "x \<in> set xs" using fold_join_absorb [OF that] by (simp add: below_def)
  show "below a (fold join xs a)"
    by (induction xs arbitrary: a) (simp, metis below_join(2) below_trans fold_simps(2))
qed

text \<open>
  A mesh over the store. \<open>grows\<close>: since \<open>m0\<close> no registry lost anything, and each pass holds its
  host's registry and what it pulled. \<open>bounded\<close>: nothing came up beyond \<open>t\<close>.
\<close>

definition grows :: "'a mesh \<Rightarrow> 'a mesh \<Rightarrow> bool" where
  "grows m0 m \<longleftrightarrow> (\<forall>h. below (ms_reg m0 h) (ms_reg m h)) \<and>
     (\<forall>h p. ms_pass m h = Some p \<longrightarrow> below (ms_reg m h) (pl_merged (ps_pull p)) \<and> (\<forall>q \<in> ps_got p. below (ms_reg m0 q) (pl_merged (ps_pull p))))"

definition bounded :: "string set \<Rightarrow> 'a \<Rightarrow> 'a mesh \<Rightarrow> bool" where
  "bounded hosts t m \<longleftrightarrow> (\<forall>h \<in> hosts. below (ms_reg m h) t) \<and> (\<forall>h p. ms_pass m h = Some p \<longrightarrow> below (pl_merged (ps_pull p)) t)"

lemma pull_peer_below:
  "below (pl_merged p) (pl_merged (pull_peer join origin now answer peer p))"
  by (auto simp: pull_peer_def Let_def below_join split: sum.splits prod.splits)

lemma pull_peer_got:
  "peer \<noteq> origin \<Longrightarrow> below r (pl_merged (pull_peer join origin now (Inr r) peer p))"
  by (auto simp: pull_peer_def Let_def below_join split: prod.splits)

lemma pull_peer_bounded:
  "below (pl_merged p) t \<Longrightarrow> (\<And>r. answer = Inr r \<Longrightarrow> below r t) \<Longrightarrow> below (pl_merged (pull_peer join origin now answer peer p)) t"
  by (auto simp: pull_peer_def Let_def join_below split: sum.splits prod.splits)

lemma step_grows:
  assumes "mesh_step join hosts m ev m'" and "grows m0 m"
  shows "grows m0 m' \<and> (\<forall>h. below (ms_reg m h) (ms_reg m' h))"
  using assms
proof cases
  case (pulled h p peer rest answer e now)
  have "below (ms_reg m0 q) (pl_merged (pull_peer join (ps_origin p) now answer peer (ps_pull p)))"
    if "q \<in> ps_got p \<or> q = peer \<and> peer \<noteq> ps_origin p \<and> answer = Inr (ms_reg m peer)" for q
    using that
  proof
    assume "q \<in> ps_got p"
    with pulled assms(2) have "below (ms_reg m0 q) (pl_merged (ps_pull p))" by (auto simp: grows_def)
    then show ?thesis using pull_peer_below below_trans by blast
  next
    assume "q = peer \<and> peer \<noteq> ps_origin p \<and> answer = Inr (ms_reg m peer)"
    then show ?thesis using pull_peer_got assms(2) below_trans unfolding grows_def by metis
  qed
  moreover have "below (ms_reg m h) (pl_merged (pull_peer join (ps_origin p) now answer peer (ps_pull p)))"
    using pulled(3) assms(2) pull_peer_below below_trans unfolding grows_def by blast
  ultimately show ?thesis using assms(2) pulled by (auto simp: grows_def split: if_splits)
next
  case (saved h p)
  with assms(2) show ?thesis unfolding grows_def by (auto intro: below_trans)
next
  case (mutated h x)
  with assms(2) show ?thesis unfolding grows_def by (auto intro: below_join_left)
qed (auto simp: grows_def)

lemma step_bounded:
  assumes "mesh_step join hosts m ev m'" and "bounded hosts t m" and "\<And>h x. ev = Mutated h x \<Longrightarrow> below x t"
  shows "bounded hosts t m'"
  using assms
proof cases
  case (pulled h p peer rest answer e now)
  then have "below (pl_merged (pull_peer join (ps_origin p) now answer peer (ps_pull p))) t"
    using assms(2) by (intro pull_peer_bounded) (auto simp: bounded_def)
  with pulled assms(2) show ?thesis by (auto simp: bounded_def)
qed (auto simp: bounded_def join_below)

lemma run_grows:
  assumes "mesh_run join hosts m0 evs m" and "\<And>h. ms_pass m0 h = None"
  shows "grows m0 m"
  using assms
proof (induction rule: mesh_run.induct)
  case (idle m)
  then show ?case by (simp add: grows_def)
qed (use step_grows in blast)

lemma run_bounded:
  assumes "mesh_run join hosts m0 evs m" and "bounded hosts t m0" and "\<And>h x. Mutated h x \<in> set evs \<Longrightarrow> below x t"
  shows "bounded hosts t m"
  using assms
proof (induction rule: mesh_run.induct)
  case (step m evs m1 ev m2)
  have "bounded hosts t m1" by (rule step.IH [OF step.prems(1)]) (use step.prems(2) in auto)
  then show ?case by (rule step_bounded [OF step.hyps(2)]) (use step.prems(2) in auto)
qed simp

text \<open>A host that completed a pass over a set of peers holds what they held at the start, from then on.\<close>

lemma run_complete:
  assumes "mesh_run join hosts m0 evs m" and "\<And>h. ms_pass m0 h = None"
  shows "\<forall>h got. Saved h got \<in> set evs \<longrightarrow> (\<forall>q \<in> got. below (ms_reg m0 q) (ms_reg m h))"
  using assms
proof (induction rule: mesh_run.induct)
  case (step m evs m1 ev m2)
  have g: "grows m m1" by (rule run_grows [OF step.hyps(1) step.prems])
  from step_grows [OF step.hyps(2) g] have up: "below (ms_reg m1 h) (ms_reg m2 h)" for h by blast
  have now: "below (ms_reg m q) (ms_reg m2 h)" if "ev = Saved h got" "q \<in> got" for h got q
    using step.hyps(2) that g by cases (auto simp: grows_def)
  have old: "below (ms_reg m q) (ms_reg m1 h)" if "Saved h got \<in> set evs" "q \<in> got" for h got q
    using step.IH step.prems that by blast
  then show ?case using now up below_trans by (auto; blast)
qed simp

lemma mesh_converges:
  assumes "mesh_run join (set hosts) m0 evs m" and "\<And>h. ms_pass m0 h = None" and "\<And>h x. Mutated h x \<notin> set evs"
    and "\<And>h. h \<in> set hosts \<Longrightarrow> \<exists>got. Saved h got \<in> set evs \<and> set hosts - {h} \<subseteq> got"
    and "h \<in> set hosts" and "b \<in> set hosts"
  shows "ms_reg m h = fold join (map (ms_reg m0) hosts) (ms_reg m0 b)"
proof (rule below_antisym)
  let ?t = "fold join (map (ms_reg m0) hosts) (ms_reg m0 b)"
  have "bounded (set hosts) ?t m0"
    using assms(2) below_fold_join(2) [of _ "map (ms_reg m0) hosts" "ms_reg m0 b"] by (auto simp: bounded_def)
  from run_bounded [OF assms(1) this] assms(3,5) show "below (ms_reg m h) ?t" by (simp add: bounded_def)
  have own: "below (ms_reg m0 h) (ms_reg m h)" using run_grows [OF assms(1,2)] by (simp add: grows_def)
  from assms(4) [OF assms(5)] obtain got where "Saved h got \<in> set evs" "set hosts - {h} \<subseteq> got" by blast
  with run_complete [OF assms(1,2)] have "below (ms_reg m0 q) (ms_reg m h)" if "q \<in> set hosts" for q
    using that own by (cases "q = h") auto
  with assms(6) show "below ?t (ms_reg m h)" by (intro fold_join_below) auto
qed

end

subsection \<open>The mesh of registries\<close>

text \<open>C13. Pull-only passes make the hosts converge: once every host has completed one pass that reached every other
  host, in whatever interleaving with other passes and failures, all hold the merge of all the registries there
  were at the start, which is one and the same registry.\<close>

theorem hosts_converge:
  assumes "inj canonical"
    and "mesh_run (merge z canonical) (set hosts) m0 evs m" and "\<forall>h. ms_pass m0 h = None" and "\<forall>h x. Mutated h x \<notin> set evs"
    and "\<forall>h \<in> set hosts. \<exists>got. Saved h got \<in> set evs \<and> set hosts - {h} \<subseteq> got"
    and "h \<in> set hosts" and "k \<in> set hosts"
  shows "ms_reg m h = fold (merge z canonical) (map (ms_reg m0) hosts) (ms_reg m0 h) \<and> ms_reg m h = ms_reg m k"
  using convergent.mesh_converges [OF convergent_merge [OF assms(1)] assms(2), of h h]
    convergent.mesh_converges [OF convergent_merge [OF assms(1)] assms(2), of k h] assms(3-7) by simp

text \<open>Nothing is lost while hosts mutate their registries between passes: whatever a host's registry held stays
  merged into it, and after a completed pass so does what each pulled host held at the start.\<close>

theorem passes_keep_mutations:
  assumes "inj canonical" and "mesh_run (merge z canonical) hosts m0 evs m" and "\<forall>h. ms_pass m0 h = None"
  shows "merge z canonical (ms_reg m0 h) (ms_reg m h) = ms_reg m h \<and>
    (\<forall>got q. Saved h got \<in> set evs \<and> q \<in> got \<longrightarrow> merge z canonical (ms_reg m0 q) (ms_reg m h) = ms_reg m h)"
  using convergent.run_grows [OF convergent_merge [OF assms(1)] assms(2)] convergent.run_complete [OF convergent_merge [OF assms(1)] assms(2)]
    assms(3) by (auto simp: convergent.grows_def [OF convergent_merge [OF assms(1)]] convergent.below_def [OF convergent_merge [OF assms(1)]])

subsection \<open>A pass is a run of the mesh\<close>

lemma run_steps: "mesh_run mrg hosts m evs m1 \<Longrightarrow> mesh_run mrg hosts m1 evs' m2 \<Longrightarrow> mesh_run mrg hosts m (evs @ evs') m2"
  by (rotate_tac 1, induction rule: mesh_run.induct) (auto simp flip: append_assoc intro: mesh_run.step)

text \<open>The peers whose registry a pass merges.\<close>

definition reached :: "string \<Rightarrow> (string \<Rightarrow> 'r res) \<Rightarrow> string list \<Rightarrow> string set" where
  "reached origin fetch peers = {peer \<in> set peers. peer \<noteq> origin \<and> is_ok (fetch peer)}"

lemma pulls_run:
  assumes "ms_pass m h = Some p" and "ps_todo p = peers"
    and "\<And>peer r. peer \<in> set peers \<Longrightarrow> fetch peer = Inr r \<Longrightarrow> r = ms_reg m peer \<and> peer \<in> hosts"
  shows "mesh_run mrg hosts m (map (Pulled h) peers) (m\<lparr>ms_pass := (ms_pass m)(h \<mapsto>
     p\<lparr>ps_pull := pull_peers mrg (ps_origin p) now fetch peers (ps_pull p), ps_todo := [], ps_got := ps_got p \<union> reached (ps_origin p) fetch peers\<rparr>)\<rparr>)"
  using assms
proof (induction peers arbitrary: m p)
  case Nil
  then have e: "m\<lparr>ms_pass := (ms_pass m)(h \<mapsto> p\<lparr>ps_pull := pull_peers mrg (ps_origin p) now fetch [] (ps_pull p), ps_todo := [],
    ps_got := ps_got p \<union> reached (ps_origin p) fetch []\<rparr>)\<rparr> = m"
    by (cases m, cases p) (auto simp: fun_eq_iff reached_def)
  show ?case unfolding e by (simp add: mesh_run.idle)
next
  case (Cons peer peers)
  let ?p = "p\<lparr>ps_pull := pull_peer mrg (ps_origin p) (now peer) (fetch peer) peer (ps_pull p), ps_todo := peers,
    ps_got := (if peer \<noteq> ps_origin p \<and> fetch peer = Inr (ms_reg m peer) then insert peer (ps_got p) else ps_got p)\<rparr>"
  let ?m = "m\<lparr>ms_pass := (ms_pass m)(h \<mapsto> ?p)\<rparr>"
  have "fetch peer = Inr (ms_reg m peer) \<and> peer \<in> hosts \<or> (\<exists>e. fetch peer = Inl e)"
    using Cons.prems(3) [of peer] by (cases "fetch peer") auto
  then have "mesh_step mrg hosts m (Pulled h peer) ?m"
    using Cons.prems(1,2) by (metis mesh_step.pulled)
  then have one: "mesh_run mrg hosts m ([] @ [Pulled h peer]) ?m" by (rule mesh_run.step [OF mesh_run.idle])
  have got: "ps_got ?p \<union> reached (ps_origin p) fetch peers = ps_got p \<union> reached (ps_origin p) fetch (peer # peers)"
    using Cons.prems(3) [of peer] by (cases "fetch peer") (auto simp: reached_def)
  have "mesh_run mrg hosts ?m (map (Pulled h) peers) (?m\<lparr>ms_pass := (ms_pass ?m)(h \<mapsto>
     ?p\<lparr>ps_pull := pull_peers mrg (ps_origin ?p) now fetch peers (ps_pull ?p), ps_todo := [], ps_got := ps_got ?p \<union> reached (ps_origin ?p) fetch peers\<rparr>)\<rparr>)"
    by (rule Cons.IH) (use Cons.prems in auto)
  then have r: "mesh_run mrg hosts m (([] @ [Pulled h peer]) @ map (Pulled h) peers) (?m\<lparr>ms_pass := (ms_pass ?m)(h \<mapsto>
     ?p\<lparr>ps_pull := pull_peers mrg (ps_origin ?p) now fetch peers (ps_pull ?p), ps_todo := [], ps_got := ps_got ?p \<union> reached (ps_origin ?p) fetch peers\<rparr>)\<rparr>)"
    by (rule run_steps [OF one])
  have e: "?m\<lparr>ms_pass := (ms_pass ?m)(h \<mapsto>
     ?p\<lparr>ps_pull := pull_peers mrg (ps_origin ?p) now fetch peers (ps_pull ?p), ps_todo := [], ps_got := ps_got ?p \<union> reached (ps_origin ?p) fetch peers\<rparr>)\<rparr> =
    m\<lparr>ms_pass := (ms_pass m)(h \<mapsto> p\<lparr>ps_pull := pull_peers mrg (ps_origin p) now fetch (peer # peers) (ps_pull p), ps_todo := [],
     ps_got := ps_got p \<union> reached (ps_origin p) fetch (peer # peers)\<rparr>)\<rparr>"
    using got by simp
  show ?case using r by (simp only: e append.simps list.map)
qed

text \<open>One pass of the code, whose fetches answer with the peers' registries or fail, is a run of the mesh that
  changes its own host's registry and status alone.\<close>

theorem reconcile_refines_mesh:
  assumes "reconcile z canonical (Inr (ms_reg m h)) now fetch save driver ids (ms_status m h) peers origin = (Some merged, st, lines, Inr items)"
    and "ms_pass m h = None" and "h \<in> hosts"
    and "\<And>peer r. peer \<in> set peers \<Longrightarrow> fetch peer = Inr r \<Longrightarrow> r = ms_reg m peer \<and> peer \<in> hosts"
  shows "mesh_run (merge z canonical) hosts m (Began h # map (Pulled h) peers @ [Saved h (reached origin fetch peers)])
    (m\<lparr>ms_reg := (ms_reg m)(h := merged), ms_status := (ms_status m)(h := st)\<rparr>)"
proof -
  let ?p = "\<lparr>ps_pull = \<lparr>pl_merged = ms_reg m h, pl_status = ms_status m h, pl_lines = []\<rparr>, ps_todo = peers, ps_origin = origin, ps_got = {}\<rparr>"
  let ?m = "m\<lparr>ms_pass := (ms_pass m)(h \<mapsto> ?p)\<rparr>"
  let ?q = "pull_peers (merge z canonical) origin now fetch peers (ps_pull ?p)"
  let ?r = "?p\<lparr>ps_pull := ?q, ps_todo := [], ps_got := reached origin fetch peers\<rparr>"
  have q: "pl_merged ?q = merged" "pl_status ?q = st"
    using assms(1) by (auto simp: reconcile_def Let_def split: sum.splits)
  from mesh_step.began [OF assms(3,2), of "merge z canonical" peers origin]
  have a: "mesh_run (merge z canonical) hosts m ([] @ [Began h]) ?m" by (rule mesh_run.step [OF mesh_run.idle])
  have b: "mesh_run (merge z canonical) hosts ?m (map (Pulled h) peers) (?m\<lparr>ms_pass := (ms_pass ?m)(h \<mapsto> ?r)\<rparr>)"
    using pulls_run [of ?m h ?p peers fetch hosts "merge z canonical" now] assms(4) by simp
  let ?m2 = "?m\<lparr>ms_pass := (ms_pass ?m)(h \<mapsto> ?r)\<rparr>"
  have "mesh_step (merge z canonical) hosts ?m2 (Saved h (ps_got ?r)) (?m2\<lparr>ms_reg := (ms_reg ?m2)(h := pl_merged (ps_pull ?r)),
     ms_status := (ms_status ?m2)(h := pl_status (ps_pull ?r)), ms_pass := (ms_pass ?m2)(h := None)\<rparr>)"
    by (rule mesh_step.saved) auto
  from mesh_run.step [OF run_steps [OF a b] this]
  have "mesh_run (merge z canonical) hosts m (([] @ [Began h]) @ map (Pulled h) peers @ [Saved h (reached origin fetch peers)])
    (?m2\<lparr>ms_reg := (ms_reg ?m2)(h := merged), ms_status := (ms_status ?m2)(h := st), ms_pass := (ms_pass ?m2)(h := None)\<rparr>)"
    by (simp add: q [simplified])
  moreover have "(ms_pass m)(h := None) = ms_pass m" using assms(2) by auto
  ultimately show ?thesis by simp
qed

text \<open>An outage is told once: over any passes the lines about a peer alternate between its going down and its
  recovery, and a pass leaves the peer's status as the last line says.\<close>

theorem outages_told_once:
  assumes "told peer down earlier = Some (st peer \<noteq> None)"
    and "reconcile z canonical local now fetch save driver ids st peers origin = (saved, st', lines, r)"
  shows "told peer down (earlier @ lines) = Some (st' peer \<noteq> None)"
proof (cases local)
  case (Inl e)
  with assms show ?thesis by (simp add: reconcile_def)
next
  case (Inr reg)
  let ?p = "\<lparr>pl_merged = reg, pl_status = st, pl_lines = []\<rparr>"
  let ?q = "pull_peers (merge z canonical) origin now fetch peers ?p"
  have "told peer (st peer \<noteq> None) (pl_lines ?q) = Some (pl_status ?q peer \<noteq> None)"
    by (rule pull_peers_told) simp
  moreover have "lines = pl_lines ?q" "st' = pl_status ?q"
    using assms(2) Inr by (auto simp: reconcile_def Let_def split: sum.splits)
  ultimately show ?thesis using assms(1) by (simp add: told_append)
qed

subsection \<open>Instances\<close>

text \<open>Two hosts, each with an item of its own, and one pass of each.\<close>

definition host_registry :: "string \<Rightarrow> string registry" where
  "host_registry h = (if h = ''a'' then [''x'' \<mapsto> \<lparr>e_added = 5, e_removed = 0, e_value = ''one''\<rparr>]
     else [''y'' \<mapsto> \<lparr>e_added = 7, e_removed = 0, e_value = ''two''\<rparr>])"

definition two_hosts :: "string registry mesh" where
  "two_hosts = \<lparr>ms_reg = host_registry, ms_status = (\<lambda>_. Map.empty), ms_pass = (\<lambda>_. None)\<rparr>"

definition pass_of :: "string registry mesh \<Rightarrow> string \<Rightarrow> string list \<Rightarrow> string registry option \<times> peer_status \<times> log_line list \<times> item_result list res" where
  "pass_of m h peers = reconcile [] quote (Inr (ms_reg m h)) (\<lambda>_. 9) (\<lambda>p. Inr (ms_reg m p)) (\<lambda>_. Inr ()) (\<lambda>i e. (''ok'', None)) [''x'', ''y'']
     (ms_status m h) peers []"

lemma pass_of_runs:
  assumes "ms_pass m h = None" and "h \<in> hosts" and "q \<in> hosts" and "q \<noteq> []"
  shows "\<exists>m'. mesh_run (merge [] quote) hosts m [Began h, Pulled h q, Saved h {q}] m' \<and> ms_pass m' = ms_pass m"
proof -
  obtain saved st ls r where p: "pass_of m h [q] = (saved, st, ls, r)" by (cases "pass_of m h [q]") auto
  then obtain merged items where ok: "saved = Some merged" "r = Inr items"
    by (auto simp: pass_of_def reconcile_def Let_def)
  have "reached [] (\<lambda>p. Inr (ms_reg m p)) [q] = {q}" using assms(4) by (auto simp: reached_def)
  with reconcile_refines_mesh [OF p [unfolded pass_of_def ok] assms(1,2)] assms(3)
  have "mesh_run (merge [] quote) hosts m [Began h, Pulled h q, Saved h {q}] (m\<lparr>ms_reg := (ms_reg m)(h := merged), ms_status := (ms_status m)(h := st)\<rparr>)"
    by simp
  then show ?thesis by (intro exI [of _ "m\<lparr>ms_reg := (ms_reg m)(h := merged), ms_status := (ms_status m)(h := st)\<rparr>"]) simp
qed

theorem hosts_converge_witness:
  "\<exists>evs m. mesh_run (merge [] quote) {''a'', ''b''} two_hosts evs m \<and> ms_reg m ''a'' = ms_reg m ''b'' \<and>
     ms_reg m ''a'' = merge [] quote (host_registry ''b'') (host_registry ''a'')"
proof -
  let ?H = "set [''a'', ''b'']"
  obtain m1 where m1: "mesh_run (merge [] quote) ?H two_hosts [Began ''a'', Pulled ''a'' ''b'', Saved ''a'' {''b''}] m1" "ms_pass m1 = ms_pass two_hosts"
    using pass_of_runs [of two_hosts "''a''" ?H "''b''"] by (auto simp: two_hosts_def)
  obtain m2 where m2: "mesh_run (merge [] quote) ?H m1 [Began ''b'', Pulled ''b'' ''a'', Saved ''b'' {''a''}] m2"
    using pass_of_runs [of m1 "''b''" ?H "''a''"] m1(2) by (auto simp: two_hosts_def)
  from run_steps [OF m1(1) m2] have run: "mesh_run (merge [] quote) ?H two_hosts
    ([Began ''a'', Pulled ''a'' ''b'', Saved ''a'' {''b''}] @ [Began ''b'', Pulled ''b'' ''a'', Saved ''b'' {''a''}]) m2" .
  have c: "ms_reg m2 h = fold (merge [] quote) (map (ms_reg two_hosts) [''a'', ''b'']) (ms_reg two_hosts h) \<and> ms_reg m2 h = ms_reg m2 k"
    if "h \<in> ?H" "k \<in> ?H" for h k
    by (rule hosts_converge [OF inj_quote run]) (use that in \<open>auto simp: two_hosts_def\<close>)
  from c [of "''a''" "''b''"] run show ?thesis
    by (intro exI conjI) (auto simp: two_hosts_def merge_idem)
qed

theorem passes_keep_mutations_witness:
  "\<exists>m. mesh_run (merge [] quote) {''a'', ''b''} two_hosts [Began ''a'', Pulled ''a'' ''b'', Saved ''a'' {''b''}] m \<and>
     merge [] quote (host_registry ''b'') (ms_reg m ''a'') = ms_reg m ''a''"
proof -
  obtain m1 where m1: "mesh_run (merge [] quote) {''a'', ''b''} two_hosts [Began ''a'', Pulled ''a'' ''b'', Saved ''a'' {''b''}] m1"
    using pass_of_runs [of two_hosts "''a''" "{''a'', ''b''}" "''b''"] by (auto simp: two_hosts_def)
  from passes_keep_mutations [OF inj_quote m1, of "''a''"] m1 show ?thesis by (auto simp: two_hosts_def)
qed

theorem reconcile_refines_mesh_witness:
  "\<exists>evs m. mesh_run (merge [] quote) {''a'', ''b''} two_hosts (Began ''a'' # evs) m \<and> ms_reg m ''b'' = host_registry ''b''"
proof -
  obtain saved st ls r where p: "pass_of two_hosts ''a'' [''b''] = (saved, st, ls, r)" by (cases "pass_of two_hosts ''a'' [''b'']") auto
  then obtain merged items where ok: "saved = Some merged" "r = Inr items" by (auto simp: pass_of_def reconcile_def Let_def)
  from reconcile_refines_mesh [OF p [unfolded pass_of_def ok], of "{''a'', ''b''}"] show ?thesis by (fastforce simp: two_hosts_def)
qed

theorem outages_told_once_witness:
  "\<exists>st' lines. told ''b'' False lines = Some (st' ''b'' \<noteq> None) \<and> lines = [PeerDown ''b'', PeerUp ''b'' 0]"
proof -
  let ?fetch = "\<lambda>p. Inl ErrCtx :: string registry res"
  let ?up = "\<lambda>p. Inr Map.empty :: string registry res"
  obtain s1 st1 l1 r1 where p1: "reconcile [] quote (Inr Map.empty) (\<lambda>_. 9) ?fetch (\<lambda>_. Inr ()) (\<lambda>i e. (''ok'', None)) [] Map.empty [''b''] [] = (s1, st1, l1, r1)"
    by (metis prod_cases4)
  obtain s2 st2 l2 r2 where p2: "reconcile [] quote (Inr Map.empty) (\<lambda>_. 9) ?up (\<lambda>_. Inr ()) (\<lambda>i e. (''ok'', None)) [] st1 [''b''] [] = (s2, st2, l2, r2)"
    by (metis prod_cases4)
  have l: "l1 = [PeerDown ''b'']" "st1 = [''b'' \<mapsto> 9]"
    using p1 by (auto simp: reconcile_def pull_peer_def status_down_def Let_def)
  then have "l2 = [PeerUp ''b'' 0]" using p2 by (auto simp: reconcile_def pull_peer_def status_up_def Let_def)
  moreover have "told ''b'' False l1 = Some (st1 ''b'' \<noteq> None)" using l by simp
  from outages_told_once [OF this p2] have "told ''b'' False (l1 @ l2) = Some (st2 ''b'' \<noteq> None)" .
  ultimately show ?thesis using l by (intro exI [of _ st2] exI) auto
qed

end
