(* ===== verification/Watch_Engine.thy ===== *)
theory Watch_Engine
  imports Prelude
begin

text \<open>
  The watch engine (\<^verbatim>\<open>src/watch/engine.go\<close>): events of an id settle in a debounce timer, an evaluation
  resolves the id's fingerprint, records a new one before it tells the peers, and defers while a gate
  calls the id busy.

  The engine's functions run on many goroutines. Each critical section of its mutex, and each call of
  the resolver and the gate between two of them, is a step of \<open>watch_step\<close>; a call in flight is a slot
  with the phase it has reached. A Go timer is a handle that is armed or spent; \<^verbatim>\<open>Reset\<close> arms it
  again, also when it has expired and its function has yet to run. Time is what the engine reads of it.
\<close>

subsection \<open>The engine's state\<close>

type_synonym digest_key = string

record engine =
  en_timers :: "digest_key \<rightharpoonup> nat"
  en_last :: "digest_key \<rightharpoonup> string"
  en_deferred :: "digest_key \<rightharpoonup> gotime"

record config =
  cf_debounce :: duration
  cf_hosts :: "string list"
  cf_gated :: bool
  cf_retry :: duration
  cf_max_defer :: duration

definition new_engine :: engine where
  "new_engine = \<lparr>en_timers = Map.empty, en_last = Map.empty, en_deferred = Map.empty\<rparr>"

text \<open>A read of a Go map of strings.\<close>

definition last_digest :: "engine \<Rightarrow> digest_key \<Rightarrow> string" where
  "last_digest e key = (case en_last e key of None \<Rightarrow> [] | Some fp \<Rightarrow> fp)"

text \<open>The runtime's timers: the id each one's function was made for, its last duration, and whether it is armed.\<close>

record 'i timer =
  tm_id :: 'i
  tm_delay :: duration
  tm_armed :: bool

type_synonym 'i timers = "nat \<rightharpoonup> 'i timer"

text \<open>The body \<^verbatim>\<open>OnEvent\<close> and \<^verbatim>\<open>rearm\<close> share: reset the key's timer or make one. \<open>fresh\<close> is an unused handle.\<close>

definition arm :: "nat \<Rightarrow> duration \<Rightarrow> 'i \<Rightarrow> digest_key \<Rightarrow> engine \<times> 'i timers \<Rightarrow> engine \<times> 'i timers" where
  "arm fresh d i key s = (case s of (e, ts) \<Rightarrow>
     (case en_timers e key of
        Some t \<Rightarrow> (e, ts(t := map_option (\<lambda>tm. tm\<lparr>tm_delay := d, tm_armed := True\<rparr>) (ts t)))
      | None \<Rightarrow> (e\<lparr>en_timers := (en_timers e)(key \<mapsto> fresh)\<rparr>, ts(fresh \<mapsto> \<lparr>tm_id = i, tm_delay = d, tm_armed = True\<rparr>))))"

definition on_event :: "config \<Rightarrow> ('i \<Rightarrow> digest_key) \<Rightarrow> nat \<Rightarrow> 'i \<Rightarrow> engine \<times> 'i timers \<Rightarrow> engine \<times> 'i timers" where
  "on_event cf digest fresh i = arm fresh (cf_debounce cf) i (digest i)"

definition rearm :: "config \<Rightarrow> ('i \<Rightarrow> digest_key) \<Rightarrow> nat \<Rightarrow> 'i \<Rightarrow> engine \<times> 'i timers \<Rightarrow> engine \<times> 'i timers" where
  "rearm cf digest fresh i = arm fresh (if cf_retry cf = 0 then cf_debounce cf else cf_retry cf) i (digest i)"

definition seed :: "digest_key \<Rightarrow> string \<Rightarrow> engine \<Rightarrow> engine" where
  "seed key fp e = e\<lparr>en_last := (en_last e)(key \<mapsto> fp)\<rparr>"

definition fire :: "digest_key \<Rightarrow> engine \<Rightarrow> engine" where
  "fire key e = e\<lparr>en_timers := (en_timers e)(key := None)\<rparr>"

text \<open>The critical section of \<^verbatim>\<open>deferBusy\<close>, with the two readings of the clock; a gate error is not busy.\<close>

definition defer_busy :: "config \<Rightarrow> digest_key \<Rightarrow> bool res \<Rightarrow> gotime \<Rightarrow> gotime \<Rightarrow> engine \<Rightarrow> engine \<times> bool" where
  "defer_busy cf key answer now1 now2 e =
     (let busy = (case answer of Inl _ \<Rightarrow> False | Inr b \<Rightarrow> b) in
      if \<not> busy then (e\<lparr>en_deferred := (en_deferred e)(key := None)\<rparr>, False)
      else
        let since = (case en_deferred e key of None \<Rightarrow> now1 | Some t \<Rightarrow> t); e' = e\<lparr>en_deferred := (en_deferred e)(key \<mapsto> since)\<rparr> in
        if now2 - since > cf_max_defer cf then (e'\<lparr>en_deferred := (en_deferred e')(key := None)\<rparr>, False)
        else (e', True))"

text \<open>The critical section of \<^verbatim>\<open>evaluate\<close>: whether the peers are told.\<close>

definition record_change :: "digest_key \<Rightarrow> string \<Rightarrow> engine \<Rightarrow> engine \<times> bool" where
  "record_change key fp e =
     (if last_digest e key = fp then (e, False) else (e\<lparr>en_last := (en_last e)(key \<mapsto> fp)\<rparr>, True))"

subsection \<open>Goroutines\<close>

datatype 'i call = Firing 'i | Gating 'i | Rearming 'i | Resolving 'i | Comparing 'i string | Notifying 'i string "string list"

datatype watch_event =
    Event digest_key
  | Seeded digest_key string
  | Deferred digest_key gotime gotime
  | Proceeded digest_key
  | Resolved digest_key "string res"
  | Recorded digest_key string
  | Notified digest_key string string

record 'i watch =
  wt_engine :: engine
  wt_timers :: "'i timers"
  wt_calls :: "nat \<rightharpoonup> 'i call"
  wt_trail :: "watch_event list"

definition new_watch :: "'i watch" where
  "new_watch = \<lparr>wt_engine = new_engine, wt_timers = Map.empty, wt_calls = Map.empty, wt_trail = []\<rparr>"

definition goes :: "nat \<Rightarrow> 'i call option \<Rightarrow> watch_event list \<Rightarrow> 'i watch \<Rightarrow> 'i watch" where
  "goes n c evs w = w\<lparr>wt_calls := (wt_calls w)(n := c), wt_trail := wt_trail w @ evs\<rparr>"

inductive watch_step :: "config \<Rightarrow> ('i \<Rightarrow> digest_key) \<Rightarrow> 'i watch \<Rightarrow> 'i watch \<Rightarrow> bool" for cf digest where
  event: "on_event cf digest fresh i (wt_engine w, wt_timers w) = (e, ts) \<Longrightarrow> wt_timers w fresh = None \<Longrightarrow>
    watch_step cf digest w (w\<lparr>wt_engine := e, wt_timers := ts, wt_trail := wt_trail w @ [Event (digest i)]\<rparr>)"
| seeded: "watch_step cf digest w (w\<lparr>wt_engine := seed (digest i) fp (wt_engine w), wt_trail := wt_trail w @ [Seeded (digest i) fp]\<rparr>)"
| expired: "wt_timers w t = Some tm \<Longrightarrow> tm_armed tm \<Longrightarrow> wt_calls w n = None \<Longrightarrow>
    watch_step cf digest w (goes n (Some (Firing (tm_id tm))) [] (w\<lparr>wt_timers := (wt_timers w)(t \<mapsto> tm\<lparr>tm_armed := False\<rparr>)\<rparr>))"
| fired: "wt_calls w n = Some (Firing i) \<Longrightarrow>
    watch_step cf digest w (goes n (Some (if cf_gated cf then Gating i else Resolving i)) []
      (w\<lparr>wt_engine := fire (digest i) (wt_engine w)\<rparr>))"
| gated: "wt_calls w n = Some (Gating i) \<Longrightarrow> defer_busy cf (digest i) answer now1 now2 (wt_engine w) = (e, deferred) \<Longrightarrow>
    watch_step cf digest w (goes n (Some (if deferred then Rearming i else Resolving i))
      [if deferred then Deferred (digest i) now1 now2 else Proceeded (digest i)] (w\<lparr>wt_engine := e\<rparr>))"
| rearmed: "wt_calls w n = Some (Rearming i) \<Longrightarrow> rearm cf digest fresh i (wt_engine w, wt_timers w) = (e, ts) \<Longrightarrow> wt_timers w fresh = None \<Longrightarrow>
    watch_step cf digest w (goes n None [] (w\<lparr>wt_engine := e, wt_timers := ts\<rparr>))"
| resolved: "wt_calls w n = Some (Resolving i) \<Longrightarrow>
    watch_step cf digest w (goes n (case answer of Inl _ \<Rightarrow> None | Inr fp \<Rightarrow> Some (Comparing i fp)) [Resolved (digest i) answer] w)"
| compared: "wt_calls w n = Some (Comparing i fp) \<Longrightarrow> record_change (digest i) fp (wt_engine w) = (e, changed) \<Longrightarrow>
    watch_step cf digest w (goes n (if changed \<and> cf_hosts cf \<noteq> [] then Some (Notifying i fp (cf_hosts cf)) else None) (if changed then [Recorded (digest i) fp] else [])
      (w\<lparr>wt_engine := e\<rparr>))"
| notified: "wt_calls w n = Some (Notifying i fp (xs @ peer # ys)) \<Longrightarrow>
    watch_step cf digest w (goes n (if xs @ ys = [] then None else Some (Notifying i fp (xs @ ys))) [Notified (digest i) fp peer] w)"

inductive watch_reach :: "config \<Rightarrow> ('i \<Rightarrow> digest_key) \<Rightarrow> 'i watch \<Rightarrow> bool" for cf digest where
  start: "watch_reach cf digest new_watch"
| step: "watch_reach cf digest w \<Longrightarrow> watch_step cf digest w w' \<Longrightarrow> watch_reach cf digest w'"

lemma goes_fields [simp]:
  "wt_engine (goes n c evs w) = wt_engine w" "wt_timers (goes n c evs w) = wt_timers w"
  "wt_calls (goes n c evs w) = (wt_calls w)(n := c)" "wt_trail (goes n c evs w) = wt_trail w @ evs"
  by (simp_all add: goes_def)

subsection \<open>No event is lost\<close>

text \<open>An event of the key that no evaluation has resolved since.\<close>

fun unresolved :: "digest_key \<Rightarrow> bool \<Rightarrow> watch_event list \<Rightarrow> bool" where
  "unresolved key b [] = b"
| "unresolved key b (Event k # evs) = unresolved key (b \<or> k = key) evs"
| "unresolved key b (Resolved k r # evs) = unresolved key (b \<and> k \<noteq> key) evs"
| "unresolved key b (_ # evs) = unresolved key b evs"

lemma unresolved_append: "unresolved key b (xs @ ys) = unresolved key (unresolved key b xs) ys"
  by (induction key b xs rule: unresolved.induct) auto

text \<open>What will still resolve the key: an armed timer, or a call before its resolve.\<close>

fun before_resolve :: "'i call \<Rightarrow> 'i option" where
  "before_resolve (Firing i) = Some i"
| "before_resolve (Gating i) = Some i"
| "before_resolve (Rearming i) = Some i"
| "before_resolve (Resolving i) = Some i"
| "before_resolve _ = None"

definition underway :: "('i \<Rightarrow> digest_key) \<Rightarrow> digest_key \<Rightarrow> 'i watch \<Rightarrow> bool" where
  "underway digest key w \<longleftrightarrow> (\<exists>t tm. wt_timers w t = Some tm \<and> tm_armed tm \<and> digest (tm_id tm) = key) \<or>
     (\<exists>n c i. wt_calls w n = Some c \<and> before_resolve c = Some i \<and> digest i = key)"

definition timers_keyed :: "('i \<Rightarrow> digest_key) \<Rightarrow> engine \<Rightarrow> 'i timers \<Rightarrow> bool" where
  "timers_keyed digest e ts \<longleftrightarrow> (\<forall>key t. en_timers e key = Some t \<longrightarrow> (\<exists>tm. ts t = Some tm \<and> digest (tm_id tm) = key))"

definition event_inv :: "('i \<Rightarrow> digest_key) \<Rightarrow> 'i watch \<Rightarrow> bool" where
  "event_inv digest w \<longleftrightarrow> timers_keyed digest (wt_engine w) (wt_timers w) \<and>
     (\<forall>key. unresolved key False (wt_trail w) \<longrightarrow> underway digest key w)"

lemma arm_facts:
  assumes "arm fresh d i key (e, ts) = (e', ts')" and "timers_keyed digest e ts" and "digest i = key" and "ts fresh = None"
  shows "timers_keyed digest e' ts'" and "\<exists>t tm. ts' t = Some tm \<and> tm_armed tm \<and> digest (tm_id tm) = key"
    and "\<And>t tm. ts t = Some tm \<Longrightarrow> tm_armed tm \<Longrightarrow> \<exists>tm'. ts' t = Some tm' \<and> tm_armed tm' \<and> tm_id tm' = tm_id tm"
proof -
  show "timers_keyed digest e' ts'"
  proof (cases "en_timers e key")
    case None
    with assms show ?thesis by (fastforce simp: arm_def timers_keyed_def split: if_splits)
  next
    case (Some t)
    with assms(2) obtain tm where "ts t = Some tm" by (auto simp: timers_keyed_def)
    with Some assms show ?thesis by (fastforce simp: arm_def timers_keyed_def)
  qed
  show "\<exists>t tm. ts' t = Some tm \<and> tm_armed tm \<and> digest (tm_id tm) = key"
  proof (cases "en_timers e key")
    case None
    with assms show ?thesis by (auto simp: arm_def)
  next
    case (Some t)
    with assms(2) obtain tm where "ts t = Some tm" "digest (tm_id tm) = key" by (auto simp: timers_keyed_def)
    with Some assms(1) show ?thesis by (auto simp: arm_def)
  qed
  show "\<exists>tm'. ts' t = Some tm' \<and> tm_armed tm' \<and> tm_id tm' = tm_id tm" if "ts t = Some tm" "tm_armed tm" for t tm
    using assms that by (auto simp: arm_def split: option.splits)
qed

lemma underway_timers:
  assumes "underway digest key w" and "wt_calls w' = wt_calls w"
    and "\<And>t tm. wt_timers w t = Some tm \<Longrightarrow> tm_armed tm \<Longrightarrow> \<exists>tm'. wt_timers w' t = Some tm' \<and> tm_armed tm' \<and> tm_id tm' = tm_id tm"
  shows "underway digest key w'"
  using assms unfolding underway_def by metis

text \<open>Moving one call on keeps what is under way, unless the call was what kept it.\<close>

lemma underway_goes:
  assumes "underway digest key w" and "wt_timers w' = wt_timers w" and "wt_calls w' = (wt_calls w)(n := c)"
    and "\<And>old i. wt_calls w n = Some old \<Longrightarrow> before_resolve old = Some i \<Longrightarrow> digest i = key \<Longrightarrow>
      (\<exists>new j. c = Some new \<and> before_resolve new = Some j \<and> digest j = key)"
  shows "underway digest key w'"
  using assms unfolding underway_def by (metis fun_upd_apply)

lemma timers_keyed_cong: "timers_keyed digest e ts \<Longrightarrow> en_timers e' = en_timers e \<Longrightarrow> timers_keyed digest e' ts"
  by (simp add: timers_keyed_def)

lemma unresolved_snoc:
  "unresolved key False (evs @ [ev]) = (case ev of Event k \<Rightarrow> unresolved key False evs \<or> k = key
     | Resolved k r \<Rightarrow> unresolved key False evs \<and> k \<noteq> key | _ \<Rightarrow> unresolved key False evs)"
  by (cases ev) (simp_all add: unresolved_append)

lemma event_inv_arm:
  assumes "arm fresh d i (digest i) (wt_engine w, wt_timers w) = (e, ts)" and "wt_timers w fresh = None" and "event_inv digest w"
    and "wt_engine w' = e" and "wt_timers w' = ts" and "\<And>n c. wt_calls w n = Some c \<Longrightarrow> wt_calls w' n = Some c \<or> before_resolve c = Some i"
    and "\<And>key. unresolved key False (wt_trail w') \<Longrightarrow> unresolved key False (wt_trail w) \<or> key = digest i"
  shows "event_inv digest w'"
proof -
  have k: "timers_keyed digest (wt_engine w) (wt_timers w)" using assms(3) by (simp add: event_inv_def)
  note f = arm_facts [OF assms(1) k refl assms(2)]
  have "underway digest key w'" if "unresolved key False (wt_trail w')" for key
  proof (cases "key = digest i")
    case True
    with f(2) assms(5) show ?thesis by (auto simp: underway_def)
  next
    case False
    with that assms(3,7) have "underway digest key w" by (auto simp: event_inv_def)
    then consider (timer) t tm where "wt_timers w t = Some tm" "tm_armed tm" "digest (tm_id tm) = key"
      | (call) n c j where "wt_calls w n = Some c" "before_resolve c = Some j" "digest j = key" unfolding underway_def by blast
    then show ?thesis
    proof cases
      case timer
      with f(3) assms(5) show ?thesis unfolding underway_def by metis
    next
      case call
      with assms(6) False show ?thesis unfolding underway_def by (metis option.inject)
    qed
  qed
  with f(1) assms(4,5) show ?thesis by (simp add: event_inv_def)
qed

text \<open>A call moves to another phase before its resolve.\<close>

lemma event_inv_moves:
  assumes "event_inv digest w" and "wt_calls w n = Some c" and "before_resolve c = Some i" and "wt_calls w' = (wt_calls w)(n \<mapsto> c')"
    and "before_resolve c' = Some i" and "wt_timers w' = wt_timers w" and "timers_keyed digest (wt_engine w') (wt_timers w)"
    and "\<And>key. unresolved key False (wt_trail w') = unresolved key False (wt_trail w)"
  shows "event_inv digest w'"
proof -
  have "underway digest key w'" if "underway digest key w" for key
    using that assms(6,4) by (rule underway_goes) (use assms(2,3,5) in auto)
  with assms(1,6,7,8) show ?thesis by (simp add: event_inv_def)
qed

lemma fire_keyed: "timers_keyed digest e ts \<Longrightarrow> timers_keyed digest (fire key e) ts"
  by (auto simp: fire_def timers_keyed_def)

lemma defer_busy_timers: "defer_busy cf key answer now1 now2 e = (e', b) \<Longrightarrow> en_timers e' = en_timers e"
  by (auto simp: defer_busy_def Let_def split: if_splits)

lemma record_change_timers: "record_change key fp e = (e', b) \<Longrightarrow> en_timers e' = en_timers e"
  by (auto simp: record_change_def split: if_splits)

lemma watch_step_event_inv:
  assumes "watch_step cf digest w w'" and "event_inv digest w"
  shows "event_inv digest w'"
  using assms
proof cases
  case (event fresh i e ts)
  then have a: "arm fresh (cf_debounce cf) i (digest i) (wt_engine w, wt_timers w) = (e, ts)" by (simp add: on_event_def)
  show ?thesis by (rule event_inv_arm [OF a event(3) assms(2)]) (auto simp: event(1) unresolved_snoc)
next
  case (rearmed n i fresh e ts)
  then have a: "arm fresh (if cf_retry cf = 0 then cf_debounce cf else cf_retry cf) i (digest i) (wt_engine w, wt_timers w) = (e, ts)"
    by (simp add: rearm_def)
  show ?thesis by (rule event_inv_arm [OF a rearmed(4) assms(2)]) (use rearmed(1,2) in auto)
next
  case (seeded i fp)
  then show ?thesis using assms(2) unfolding underway_def by (auto simp: event_inv_def seed_def timers_keyed_def unresolved_snoc underway_def)
next
  case (expired t tm n)
  have "underway digest key w'" if "underway digest key w" for key
  proof -
    from that consider (timer) u um where "wt_timers w u = Some um" "tm_armed um" "digest (tm_id um) = key"
      | (call) m c j where "wt_calls w m = Some c" "before_resolve c = Some j" "digest j = key" unfolding underway_def by blast
    then show ?thesis
    proof cases
      case timer
      show ?thesis
      proof (cases "u = t")
        case True
        with timer expired have "wt_calls w' n = Some (Firing (tm_id um))" "before_resolve (Firing (tm_id um)) = Some (tm_id um)" by auto
        with timer show ?thesis unfolding underway_def by blast
      next
        case False
        with timer expired have "wt_timers w' u = Some um" by simp
        with timer show ?thesis unfolding underway_def by blast
      qed
    next
      case call
      with expired have "wt_calls w' m = Some c" by auto
      with call show ?thesis unfolding underway_def by blast
    qed
  qed
  moreover have "timers_keyed digest (wt_engine w') (wt_timers w')"
    using expired assms(2) by (fastforce simp: event_inv_def timers_keyed_def)
  ultimately show ?thesis using expired assms(2) by (auto simp: event_inv_def)
next
  case (fired n i)
  have k: "timers_keyed digest (fire (digest i) (wt_engine w)) (wt_timers w)"
    using assms(2) by (simp add: event_inv_def fire_keyed)
  show ?thesis
    by (rule event_inv_moves [OF assms(2) fired(2), where c' = "if cf_gated cf then Gating i else Resolving i"])
      (simp_all add: fired(1) k unresolved_snoc)
next
  case (gated n i answer now1 now2 e deferred)
  have k: "timers_keyed digest e (wt_timers w)"
    using assms(2) gated(3) by (auto simp: event_inv_def dest: defer_busy_timers intro: timers_keyed_cong)
  show ?thesis
    by (rule event_inv_moves [OF assms(2) gated(2), where c' = "if deferred then Rearming i else Resolving i"])
      (simp_all add: gated(1) k unresolved_snoc)
next
  case (resolved n i answer)
  have "underway digest key w'" if "unresolved key False (wt_trail w')" for key
  proof -
    from that resolved have "unresolved key False (wt_trail w)" "key \<noteq> digest i" by (auto simp: unresolved_snoc)
    with assms(2) have "underway digest key w" by (simp add: event_inv_def)
    then show ?thesis
      by (rule underway_goes) (use resolved \<open>key \<noteq> digest i\<close> in auto)
  qed
  with resolved assms(2) show ?thesis by (auto simp: event_inv_def)
next
  case (compared n i fp e changed)
  have "underway digest key w'" if "underway digest key w" for key
    using that by (rule underway_goes) (use compared in auto)
  moreover have "timers_keyed digest e (wt_timers w)"
    using assms(2) compared(3) by (auto simp: event_inv_def dest: record_change_timers intro: timers_keyed_cong)
  ultimately show ?thesis using compared assms(2) by (auto simp: event_inv_def unresolved_snoc)
next
  case (notified n i fp xs peer ys)
  have "underway digest key w'" if "underway digest key w" for key
    using that by (rule underway_goes) (use notified in auto)
  with notified assms(2) show ?thesis by (auto simp: event_inv_def unresolved_snoc)
qed

text \<open>C15. No event is lost: as long as no evaluation has resolved an id since its last event, a timer for it is
  armed or a call for it is on its way to the resolver, however expiries, resets, deferrals and evaluations interleave.\<close>

theorem event_never_lost:
  assumes "watch_reach cf digest w" and "unresolved key False (wt_trail w)"
  shows "underway digest key w"
proof -
  have "event_inv digest w"
    using assms(1)
  proof (induction rule: watch_reach.induct)
    case start
    show ?case by (simp add: event_inv_def new_watch_def new_engine_def timers_keyed_def)
  qed (rule watch_step_event_inv)
  with assms(2) show ?thesis by (simp add: event_inv_def)
qed

subsection \<open>What the trail shows of each step\<close>

text \<open>\<open>every P evs\<close>: each event stands in \<open>P\<close> with the events before it.\<close>

definition every :: "('a list \<Rightarrow> 'a \<Rightarrow> bool) \<Rightarrow> 'a list \<Rightarrow> bool" where
  "every P evs \<longleftrightarrow> (\<forall>pre ev post. evs = pre @ ev # post \<longrightarrow> P pre ev)"

lemma every_Nil [simp]: "every P []"
  by (simp add: every_def)

lemma every_snoc [simp]: "every P (evs @ [ev]) \<longleftrightarrow> every P evs \<and> P evs ev"
proof
  assume a: "every P (evs @ [ev])"
  have "P pre c" if "evs = pre @ c # post" for pre c post
    using a that unfolding every_def by (metis append.assoc append_Cons)
  moreover have "P evs ev" using a unfolding every_def by simp
  ultimately show "every P evs \<and> P evs ev" unfolding every_def by simp
next
  assume a: "every P evs \<and> P evs ev"
  have "P pre c" if "evs @ [ev] = pre @ c # post" for pre c post
    using a that by (cases post rule: rev_cases) (auto simp: every_def)
  then show "every P (evs @ [ev])" unfolding every_def by simp
qed

text \<open>The fingerprint last recorded or seeded, and the first deferral since an evaluation last proceeded.\<close>

fun last_of :: "digest_key \<Rightarrow> string \<Rightarrow> watch_event list \<Rightarrow> string" where
  "last_of key fp [] = fp"
| "last_of key fp (Recorded k fp' # evs) = last_of key (if k = key then fp' else fp) evs"
| "last_of key fp (Seeded k fp' # evs) = last_of key (if k = key then fp' else fp) evs"
| "last_of key fp (_ # evs) = last_of key fp evs"

fun deferred_since :: "digest_key \<Rightarrow> gotime option \<Rightarrow> watch_event list \<Rightarrow> gotime option" where
  "deferred_since key s [] = s"
| "deferred_since key s (Deferred k now1 now2 # evs) = deferred_since key (if k = key \<and> s = None then Some now1 else s) evs"
| "deferred_since key s (Proceeded k # evs) = deferred_since key (if k = key then None else s) evs"
| "deferred_since key s (_ # evs) = deferred_since key s evs"

lemma last_of_append [simp]: "last_of key fp (xs @ ys) = last_of key (last_of key fp xs) ys"
  by (induction key fp xs rule: last_of.induct) simp_all

lemma deferred_since_append [simp]: "deferred_since key s (xs @ ys) = deferred_since key (deferred_since key s xs) ys"
  by (induction key s xs rule: deferred_since.induct) simp_all

fun justified :: "config \<Rightarrow> watch_event list \<Rightarrow> watch_event \<Rightarrow> bool" where
  "justified cf pre (Recorded key fp) = (last_of key [] pre \<noteq> fp)"
| "justified cf pre (Notified key fp peer) = (Recorded key fp \<in> set pre \<and> peer \<in> set (cf_hosts cf))"
| "justified cf pre (Deferred key now1 now2) = (now2 - (case deferred_since key None pre of None \<Rightarrow> now1 | Some s \<Rightarrow> s) \<le> cf_max_defer cf)"
| "justified cf pre _ = True"

definition trail_inv :: "config \<Rightarrow> ('i \<Rightarrow> digest_key) \<Rightarrow> 'i watch \<Rightarrow> bool" where
  "trail_inv cf digest w \<longleftrightarrow> every (justified cf) (wt_trail w) \<and>
     (\<forall>key. last_digest (wt_engine w) key = last_of key [] (wt_trail w)) \<and>
     (\<forall>key. en_deferred (wt_engine w) key = deferred_since key None (wt_trail w)) \<and>
     (\<forall>n i fp peers. wt_calls w n = Some (Notifying i fp peers) \<longrightarrow> Recorded (digest i) fp \<in> set (wt_trail w) \<and> set peers \<subseteq> set (cf_hosts cf))"

lemma arm_engine: "arm fresh d i key (e, ts) = (e', ts') \<Longrightarrow> en_last e' = en_last e \<and> en_deferred e' = en_deferred e"
  by (auto simp: arm_def split: option.splits)

lemma record_change_facts:
  "record_change key fp e = (e', changed) \<Longrightarrow> en_deferred e' = en_deferred e \<and> (changed \<longrightarrow> last_digest e key \<noteq> fp) \<and>
    (\<forall>k. last_digest e' k = (if changed \<and> k = key then fp else last_digest e k))"
  by (auto simp: record_change_def last_digest_def split: if_splits)

lemma defer_busy_facts:
  assumes "defer_busy cf key answer now1 now2 e = (e', deferred)"
  shows "en_last e' = en_last e"
    and "en_deferred e' = (en_deferred e)(key := if deferred then Some (case en_deferred e key of None \<Rightarrow> now1 | Some s \<Rightarrow> s) else None)"
    and "deferred \<Longrightarrow> now2 - (case en_deferred e key of None \<Rightarrow> now1 | Some s \<Rightarrow> s) \<le> cf_max_defer cf"
  using assms by (auto simp: defer_busy_def Let_def fun_eq_iff split: if_splits sum.splits)

lemma watch_step_trail_inv:
  assumes "watch_step cf digest w w'" and "trail_inv cf digest w"
  shows "trail_inv cf digest w'"
  using assms
proof cases
  case (event fresh i e ts)
  with assms(2) show ?thesis using arm_engine [of fresh _ i "digest i"] by (auto simp: trail_inv_def on_event_def last_digest_def)
next
  case (rearmed n i fresh e ts)
  with assms(2) show ?thesis using arm_engine [of fresh _ i "digest i"] by (auto simp: trail_inv_def rearm_def last_digest_def split: if_splits)
next
  case (gated n i answer now1 now2 e deferred)
  from defer_busy_facts [OF gated(3)] assms(2) gated(1) show ?thesis
    by (auto simp: trail_inv_def last_digest_def split: if_splits option.splits)
next
  case (compared n i fp e changed)
  from record_change_facts [OF compared(3)] assms(2) compared(1) show ?thesis
    by (auto simp: trail_inv_def split: if_splits)
next
  case (notified n i fp xs peer ys)
  with assms(2) have "Recorded (digest i) fp \<in> set (wt_trail w) \<and> set (xs @ peer # ys) \<subseteq> set (cf_hosts cf)" unfolding trail_inv_def by blast
  with notified(1) assms(2) show ?thesis by (auto simp: trail_inv_def split: if_splits)
qed (auto simp: trail_inv_def seed_def last_digest_def fire_def split: if_splits sum.splits)

lemma reach_trail_inv: "watch_reach cf digest w \<Longrightarrow> trail_inv cf digest w"
proof (induction rule: watch_reach.induct)
  case start
  show ?case by (simp add: trail_inv_def new_watch_def new_engine_def last_digest_def)
qed (rule watch_step_trail_inv)

lemma everyD: "every P evs \<Longrightarrow> evs = pre @ ev # post \<Longrightarrow> P pre ev"
  by (simp add: every_def)

lemma reach_justified:
  assumes "watch_reach cf digest w" and "wt_trail w = pre @ ev # post"
  shows "justified cf pre ev"
proof -
  have "every (justified cf) (wt_trail w)" using reach_trail_inv [OF assms(1)] by (simp add: trail_inv_def)
  from everyD [OF this assms(2)] show ?thesis .
qed

text \<open>C35. A peer is told of a fingerprint only after it was recorded, and a fingerprint is recorded only when it differs
  from the one last recorded or seeded, so the echo of an own write, resolved or seeded before it, is not told.\<close>

theorem echo_suppressed:
  assumes "watch_reach cf digest w" and "wt_trail w = pre @ ev # post"
  shows "(\<forall>key fp. ev = Recorded key fp \<longrightarrow> last_of key [] pre \<noteq> fp) \<and>
    (\<forall>key fp peer. ev = Notified key fp peer \<longrightarrow> Recorded key fp \<in> set pre \<and> peer \<in> set (cf_hosts cf))"
  using reach_justified [OF assms] by auto

text \<open>C36. A busy gate delays a change, it does not park it: an evaluation defers only within the longest deferral of the
  first deferral since an evaluation of the id last went ahead.\<close>

theorem deferral_bounded:
  assumes "watch_reach cf digest w" and "wt_trail w = pre @ Deferred key now1 now2 # post" and "deferred_since key None pre = Some since"
  shows "now2 \<le> since + cf_max_defer cf"
  using reach_justified [OF assms(1,2)] assms(3) by simp

subsection \<open>Instances\<close>

definition sample_config :: "bool \<Rightarrow> config" where
  "sample_config gate = \<lparr>cf_debounce = 5, cf_hosts = [''peer''], cf_gated = gate, cf_retry = 1, cf_max_defer = 10\<rparr>"

text \<open>An event, its expiry and its fire, from a reachable state at rest.\<close>

lemma event_to_fire:
  assumes "watch_reach cf digest w" and "wt_timers w t = None" and "wt_calls w n = None" and "en_timers (wt_engine w) (digest i) = None"
  shows "\<exists>w'. watch_reach cf digest w' \<and> wt_calls w' = (wt_calls w)(n \<mapsto> if cf_gated cf then Gating i else Resolving i) \<and>
    wt_trail w' = wt_trail w @ [Event (digest i)] \<and> en_last (wt_engine w') = en_last (wt_engine w) \<and>
    en_deferred (wt_engine w') = en_deferred (wt_engine w) \<and> en_timers (wt_engine w') (digest i) = None \<and>
    wt_timers w' = (wt_timers w)(t \<mapsto> \<lparr>tm_id = i, tm_delay = cf_debounce cf, tm_armed = False\<rparr>)"
proof -
  let ?e = "(wt_engine w)\<lparr>en_timers := (en_timers (wt_engine w))(digest i \<mapsto> t)\<rparr>"
  let ?tm = "\<lparr>tm_id = i, tm_delay = cf_debounce cf, tm_armed = True\<rparr>"
  let ?w1 = "w\<lparr>wt_engine := ?e, wt_timers := (wt_timers w)(t \<mapsto> ?tm), wt_trail := wt_trail w @ [Event (digest i)]\<rparr>"
  have "on_event cf digest t i (wt_engine w, wt_timers w) = (?e, (wt_timers w)(t \<mapsto> ?tm))"
    using assms(4) by (simp add: on_event_def arm_def)
  from watch_reach.step [OF assms(1) watch_step.event [OF this assms(2)]] have r1: "watch_reach cf digest ?w1" .
  let ?w2 = "goes n (Some (Firing (tm_id ?tm))) [] (?w1\<lparr>wt_timers := (wt_timers ?w1)(t \<mapsto> ?tm\<lparr>tm_armed := False\<rparr>)\<rparr>)"
  have "watch_step cf digest ?w1 ?w2" by (rule watch_step.expired) (use assms(3) in auto)
  from watch_reach.step [OF r1 this] have r2: "watch_reach cf digest ?w2" .
  have "wt_calls ?w2 n = Some (Firing i)" by simp
  from watch_reach.step [OF r2 watch_step.fired [OF this]] show ?thesis
    by (rule_tac exI, rule_tac conjI, assumption) (simp add: fire_def)
qed

theorem event_never_lost_witness:
  "\<exists>w. watch_reach (sample_config True) (\<lambda>i. i) w \<and> wt_trail w = [Event ''repo''] \<and> underway (\<lambda>i. i) ''repo'' w"
proof -
  obtain w where w: "watch_reach (sample_config True) (\<lambda>i. i) w" "wt_trail w = [Event ''repo'']"
    using event_to_fire [OF watch_reach.start, of 0 0 "\<lambda>i. i" "''repo''" "sample_config True"] by (auto simp: new_watch_def new_engine_def)
  then have "unresolved ''repo'' False (wt_trail w)" by simp
  from event_never_lost [OF w(1) this] w show ?thesis by blast
qed

theorem echo_suppressed_witness:
  "\<exists>w. watch_reach (sample_config False) (\<lambda>i. i) w \<and>
     wt_trail w = [Event ''repo'', Resolved ''repo'' (Inr ''f1''), Recorded ''repo'' ''f1''] \<and> last_of ''repo'' [] [Event ''repo'', Resolved ''repo'' (Inr ''f1'')] \<noteq> ''f1''"
proof -
  obtain w where w: "watch_reach (sample_config False) (\<lambda>i. i) w" "wt_trail w = [Event ''repo'']" "wt_calls w 0 = Some (Resolving ''repo'')"
    "en_last (wt_engine w) = Map.empty"
    using event_to_fire [OF watch_reach.start, of 0 0 "\<lambda>i. i" "''repo''" "sample_config False"]
    by (auto simp: new_watch_def new_engine_def sample_config_def)
  let ?w1 = "goes 0 (Some (Comparing ''repo'' ''f1'')) [Resolved ''repo'' (Inr ''f1'')] w"
  have r1: "watch_reach (sample_config False) (\<lambda>i. i) ?w1"
    using watch_reach.step [OF w(1) watch_step.resolved [OF w(3), where answer = "Inr ''f1''"]] by simp
  have c: "wt_calls ?w1 0 = Some (Comparing ''repo'' ''f1'')" by simp
  obtain e where e: "record_change ''repo'' ''f1'' (wt_engine ?w1) = (e, True)"
    using w(4) by (simp add: record_change_def last_digest_def)
  from watch_reach.step [OF r1 watch_step.compared [where digest = "\<lambda>i. i", OF c e]] obtain w2 where
    w2: "watch_reach (sample_config False) (\<lambda>i. i) w2" "wt_trail w2 = [Event ''repo'', Resolved ''repo'' (Inr ''f1'')] @ Recorded ''repo'' ''f1'' # []"
    using w(2) by fastforce
  from echo_suppressed [OF w2] w2 show ?thesis by auto
qed

theorem deferral_bounded_witness:
  "\<exists>w now. watch_reach (sample_config True) (\<lambda>i. i) w \<and>
     wt_trail w = [Event ''repo'', Deferred ''repo'' 100 100, Event ''repo'', Deferred ''repo'' 104 105] \<and> (105 :: gotime) \<le> 100 + cf_max_defer (sample_config True)"
proof -
  let ?cf = "sample_config True"
  obtain w where w: "watch_reach ?cf (\<lambda>i. i) w" "wt_trail w = [Event ''repo'']" "wt_calls w = [0 \<mapsto> Gating ''repo'']"
    "en_deferred (wt_engine w) = Map.empty" "wt_timers w 1 = None" "en_timers (wt_engine w) ''repo'' = None"
    using event_to_fire [OF watch_reach.start, of 0 0 "\<lambda>i. i" "''repo''" ?cf] by (auto simp: new_watch_def new_engine_def sample_config_def)
  let ?e = "(wt_engine w)\<lparr>en_deferred := (en_deferred (wt_engine w))(''repo'' \<mapsto> 100)\<rparr>"
  have d: "defer_busy ?cf ''repo'' (Inr True) 100 100 (wt_engine w) = (?e, True)"
    using w(4) by (simp add: defer_busy_def Let_def sample_config_def)
  have g: "wt_calls w 0 = Some (Gating ''repo'')" using w(3) by simp
  from watch_reach.step [OF w(1) watch_step.gated [where digest = "\<lambda>i. i", OF g d]]
  have r1: "watch_reach ?cf (\<lambda>i. i) (goes 0 (Some (Rearming ''repo'')) [Deferred ''repo'' 100 100] (w\<lparr>wt_engine := ?e\<rparr>))" by simp
  from event_to_fire [OF r1, of 1 1 "''repo''"] w obtain v where v: "watch_reach ?cf (\<lambda>i. i) v"
    "wt_trail v = [Event ''repo'', Deferred ''repo'' 100 100, Event ''repo'']" "wt_calls v 1 = Some (Gating ''repo'')"
    "en_deferred (wt_engine v) ''repo'' = Some 100"
    by (auto simp: sample_config_def)
  obtain e where d2: "defer_busy ?cf ''repo'' (Inr True) 104 105 (wt_engine v) = (e, True)"
    using v(4) by (auto simp: defer_busy_def Let_def sample_config_def)
  let ?u = "goes 1 (Some (Rearming ''repo'')) [Deferred ''repo'' 104 105] (v\<lparr>wt_engine := e\<rparr>)"
  from watch_reach.step [OF v(1) watch_step.gated [where digest = "\<lambda>i. i", OF v(3) d2]] have u: "watch_reach ?cf (\<lambda>i. i) ?u" by simp
  have t: "wt_trail ?u = [Event ''repo'', Deferred ''repo'' 100 100, Event ''repo''] @ Deferred ''repo'' 104 105 # []" using v(2) by simp
  from deferral_bounded [OF u t, of 100] u t show ?thesis by auto
qed

end
