(* ===== verification/Watch_Breaker.thy ===== *)
theory Watch_Breaker
  imports Watch_Engine
begin

text \<open>
  The watch notifier's circuit breaker (\<^verbatim>\<open>src/daemon/breaker.go\<close>): the first failure of a peer opens it, a
  retry timer then owns the next attempt with a doubling cooldown, and a success closes it.

  Notifies of many events and the retries run concurrently; each critical section, and each start and
  end of a call of the inner notifier, is a step of \<open>breaker_step\<close>. Times are nanoseconds.
\<close>

subsection \<open>The breaker\<close>

definition breakerInitialCooldown :: duration where "breakerInitialCooldown = 30 * 1000000000"
definition breakerMaxCooldown :: duration where "breakerMaxCooldown = 300 * 1000000000"

record open_peer =
  op_opened_at :: gotime
  op_cooldown :: duration

type_synonym breaker = "string \<rightharpoonup> open_peer"

datatype breaker_line = WentDown string duration | Recovered string duration

definition is_open :: "breaker \<Rightarrow> string \<Rightarrow> bool" where
  "is_open b peer \<longleftrightarrow> b peer \<noteq> None"

text \<open>Each returns the timers it arms: at most one, with its delay.\<close>

definition opened :: "gotime \<Rightarrow> string \<Rightarrow> breaker \<Rightarrow> breaker \<times> duration option \<times> breaker_line list" where
  "opened now peer b =
     (if is_open b peer then (b, None, [])
      else (b(peer \<mapsto> \<lparr>op_opened_at = now, op_cooldown = breakerInitialCooldown\<rparr>), Some breakerInitialCooldown,
            [WentDown peer breakerInitialCooldown]))"

definition retry_failed :: "string \<Rightarrow> breaker \<Rightarrow> breaker \<times> duration option" where
  "retry_failed peer b = (case b peer of
     None \<Rightarrow> (b, None)
   | Some p \<Rightarrow> (let d = min (op_cooldown p * 2) breakerMaxCooldown in (b(peer \<mapsto> p\<lparr>op_cooldown := d\<rparr>), Some d)))"

definition closed :: "gotime \<Rightarrow> string \<Rightarrow> breaker \<Rightarrow> breaker \<times> breaker_line list" where
  "closed now peer b = (case b peer of
     None \<Rightarrow> (b, [])
   | Some p \<Rightarrow> (b(peer := None), [Recovered peer (now - op_opened_at p)]))"

subsection \<open>Goroutines\<close>

text \<open>Per peer: the delays of its armed timers, how many retries are probing it, and how many notifies are in flight.\<close>

record breaker_sys =
  bs_breaker :: breaker
  bs_armed :: "string \<Rightarrow> duration list"
  bs_probing :: "string \<Rightarrow> nat"
  bs_inflight :: "string \<Rightarrow> nat"
  bs_cancelled :: bool
  bs_lines :: "breaker_line list"

definition new_breaker :: breaker_sys where
  "new_breaker = \<lparr>bs_breaker = Map.empty, bs_armed = (\<lambda>_. []), bs_probing = (\<lambda>_. 0), bs_inflight = (\<lambda>_. 0), bs_cancelled = False, bs_lines = []\<rparr>"

definition armed_with :: "string \<Rightarrow> duration option \<Rightarrow> breaker_sys \<Rightarrow> breaker_sys" where
  "armed_with peer d s = (case d of None \<Rightarrow> s | Some x \<Rightarrow> s\<lparr>bs_armed := (bs_armed s)(peer := bs_armed s peer @ [x])\<rparr>)"

datatype breaker_event = Started string | Suppressed string | Ended string bool | Fired string | Probed string bool | Cancelled

inductive breaker_step :: "breaker_sys \<Rightarrow> breaker_event \<Rightarrow> breaker_sys \<Rightarrow> bool" where
  suppressed: "is_open (bs_breaker s) peer \<Longrightarrow> breaker_step s (Suppressed peer) s"
| started: "\<not> is_open (bs_breaker s) peer \<Longrightarrow>
    breaker_step s (Started peer) (s\<lparr>bs_inflight := (bs_inflight s)(peer := Suc (bs_inflight s peer))\<rparr>)"
| notified: "bs_inflight s peer = Suc n \<Longrightarrow> breaker_step s (Ended peer True) (s\<lparr>bs_inflight := (bs_inflight s)(peer := n)\<rparr>)"
| failed: "bs_inflight s peer = Suc n \<Longrightarrow> opened now peer (bs_breaker s) = (b, d, ls) \<Longrightarrow>
    breaker_step s (Ended peer False) (armed_with peer d (s\<lparr>bs_inflight := (bs_inflight s)(peer := n), bs_breaker := b, bs_lines := bs_lines s @ ls\<rparr>))"
| fired: "bs_armed s peer = xs @ d # ys \<Longrightarrow>
    breaker_step s (Fired peer) (s\<lparr>bs_armed := (bs_armed s)(peer := xs @ ys),
      bs_probing := (if bs_cancelled s then bs_probing s else (bs_probing s)(peer := Suc (bs_probing s peer)))\<rparr>)"
| probe_failed: "bs_probing s peer = Suc n \<Longrightarrow> retry_failed peer (bs_breaker s) = (b, d) \<Longrightarrow>
    breaker_step s (Probed peer False) (armed_with peer d (s\<lparr>bs_probing := (bs_probing s)(peer := n), bs_breaker := b\<rparr>))"
| probe_ok: "bs_probing s peer = Suc n \<Longrightarrow> closed now peer (bs_breaker s) = (b, ls) \<Longrightarrow>
    breaker_step s (Probed peer True) (s\<lparr>bs_probing := (bs_probing s)(peer := n), bs_breaker := b, bs_lines := bs_lines s @ ls\<rparr>)"
| cancelled: "breaker_step s Cancelled (s\<lparr>bs_cancelled := True\<rparr>)"

inductive breaker_run :: "breaker_event list \<Rightarrow> breaker_sys \<Rightarrow> bool" where
  start: "breaker_run [] new_breaker"
| step: "breaker_run evs s \<Longrightarrow> breaker_step s ev s' \<Longrightarrow> breaker_run (evs @ [ev]) s'"

subsection \<open>One retry per open peer\<close>

definition retries :: "breaker_sys \<Rightarrow> string \<Rightarrow> nat" where
  "retries s peer = length (bs_armed s peer) + bs_probing s peer"

fun breaker_told :: "string \<Rightarrow> bool \<Rightarrow> breaker_line list \<Rightarrow> bool option" where
  "breaker_told peer down [] = Some down"
| "breaker_told peer down (WentDown p d # ls) = (if p \<noteq> peer then breaker_told peer down ls else if down then None else breaker_told peer True ls)"
| "breaker_told peer down (Recovered p d # ls) = (if p \<noteq> peer then breaker_told peer down ls else if down then breaker_told peer False ls else None)"

lemma breaker_told_append: "breaker_told peer down (xs @ ys) = Option.bind (breaker_told peer down xs) (\<lambda>d. breaker_told peer d ys)"
  by (induction peer down xs rule: breaker_told.induct) auto

definition breaker_inv :: "breaker_sys \<Rightarrow> bool" where
  "breaker_inv s \<longleftrightarrow> (\<forall>peer. (bs_breaker s peer = None \<longrightarrow> retries s peer = 0) \<and> retries s peer \<le> 1 \<and>
     (bs_breaker s peer \<noteq> None \<and> \<not> bs_cancelled s \<longrightarrow> retries s peer = 1) \<and>
     (\<forall>p. bs_breaker s peer = Some p \<longrightarrow> breakerInitialCooldown \<le> op_cooldown p \<and> op_cooldown p \<le> breakerMaxCooldown \<and>
       (\<forall>d \<in> set (bs_armed s peer). d = op_cooldown p)) \<and>
     breaker_told peer False (bs_lines s) = Some (bs_breaker s peer \<noteq> None))"

lemmas breaker_defs = breaker_inv_def retries_def opened_def retry_failed_def closed_def armed_with_def is_open_def
  breakerInitialCooldown_def breakerMaxCooldown_def

text \<open>The invariant of one peer, which is all a step of it touches.\<close>

lemma breaker_step_inv:
  assumes "breaker_step s ev s'" and "breaker_inv s"
  shows "breaker_inv s'"
  using assms
proof cases
  case (failed peer n now b d ls)
  with assms(2) show ?thesis by (auto simp: breaker_defs breaker_told_append split: if_splits option.splits)
next
  case (fired peer xs d ys)
  have "retries s peer \<le> 1" using assms(2) by (simp add: breaker_inv_def)
  with fired(3) have "xs = []" "ys = []" "bs_probing s peer = 0" by (auto simp: retries_def)
  with fired assms(2) show ?thesis by (auto simp: breaker_defs split: if_splits)
next
  case (probe_failed peer n b d)
  then obtain p where p: "bs_breaker s peer = Some p" using assms(2) by (fastforce simp: breaker_defs)
  have "bs_armed s peer = []" "n = 0" using assms(2) probe_failed(3) by (auto simp: breaker_inv_def retries_def dest!: spec [of _ peer])
  moreover have "15000000000 \<le> op_cooldown p" using assms(2) p by (fastforce simp: breaker_defs)
  ultimately show ?thesis using p probe_failed assms(2) by (auto simp: breaker_defs Let_def min_def split: if_splits)
next
  case (probe_ok peer n now b ls)
  then obtain p where p: "bs_breaker s peer = Some p" using assms(2) by (fastforce simp: breaker_defs)
  have "bs_armed s peer = []" "n = 0" using assms(2) probe_ok(3) by (auto simp: breaker_inv_def retries_def dest!: spec [of _ peer])
  with p probe_ok assms(2) show ?thesis by (auto simp: breaker_defs breaker_told_append split: if_splits)
qed (auto simp: breaker_inv_def retries_def)

lemma breaker_run_inv: "breaker_run evs s \<Longrightarrow> breaker_inv s"
proof (induction rule: breaker_run.induct)
  case start
  show ?case by (simp add: breaker_inv_def new_breaker_def retries_def)
qed (rule breaker_step_inv)

text \<open>Until its generation is torn down, an open peer has exactly one retry, either an armed timer, whose delay is
  its cooldown of between thirty seconds and five minutes, or a probe under way; a closed peer has none; and the lines
  about a peer alternate between its outage and its recovery.\<close>

theorem one_retry_per_open_peer:
  assumes "breaker_run evs s"
  shows "(case bs_breaker s peer of
      None \<Rightarrow> bs_armed s peer = [] \<and> bs_probing s peer = 0
    | Some p \<Rightarrow> 30 * 10 ^ 9 \<le> op_cooldown p \<and> op_cooldown p \<le> 300 * 10 ^ 9 \<and>
        (bs_cancelled s \<or> bs_armed s peer = [op_cooldown p] \<and> bs_probing s peer = 0 \<or> bs_armed s peer = [] \<and> bs_probing s peer = 1)) \<and>
    breaker_told peer False (bs_lines s) = Some (bs_breaker s peer \<noteq> None)"
proof -
  have i: "breaker_inv s" by (rule breaker_run_inv [OF assms])
  show ?thesis
  proof (cases "bs_breaker s peer")
    case None
    with i show ?thesis by (auto simp: breaker_inv_def retries_def)
  next
    case (Some p)
    with i have p: "breakerInitialCooldown \<le> op_cooldown p" "op_cooldown p \<le> breakerMaxCooldown" "\<forall>d \<in> set (bs_armed s peer). d = op_cooldown p"
      "breaker_told peer False (bs_lines s) = Some True" and r: "\<not> bs_cancelled s \<Longrightarrow> length (bs_armed s peer) + bs_probing s peer = 1"
      by (auto simp: breaker_inv_def retries_def)
    have "bs_cancelled s \<or> bs_armed s peer = [op_cooldown p] \<and> bs_probing s peer = 0 \<or> bs_armed s peer = [] \<and> bs_probing s peer = 1"
      using r p(3) by (cases "bs_armed s peer") auto
    with p Some show ?thesis by (simp add: breakerInitialCooldown_def breakerMaxCooldown_def)
  qed
qed

subsection \<open>Suppressed notifies\<close>

text \<open>The probes under way, and whether a notify suppressed while none was has still to be made up for by a retry.\<close>

fun owed :: "string \<Rightarrow> nat \<times> bool \<Rightarrow> breaker_event list \<Rightarrow> nat \<times> bool" where
  "owed peer st [] = st"
| "owed peer (n, b) (Fired p # evs) = owed peer (if p = peer then (Suc n, False) else (n, b)) evs"
| "owed peer (n, b) (Probed p ok # evs) = owed peer (if p = peer then (n - 1, b) else (n, b)) evs"
| "owed peer (n, b) (Suppressed p # evs) = owed peer (n, b \<or> p = peer \<and> n = 0) evs"
| "owed peer st (_ # evs) = owed peer st evs"

lemma owed_append: "owed peer st (xs @ ys) = owed peer (owed peer st xs) ys"
  by (induction peer st xs rule: owed.induct) simp_all

lemma owed_snoc: "owed peer st (evs @ [ev]) = owed peer (owed peer st evs) [ev]"
  by (rule owed_append)

lemma breaker_run_owed:
  assumes "breaker_run evs s" and "Cancelled \<notin> set evs"
  shows "\<not> bs_cancelled s \<and> fst (owed peer (0, False) evs) = bs_probing s peer \<and> (snd (owed peer (0, False) evs) \<longrightarrow> bs_armed s peer \<noteq> [])"
  using assms
proof (induction rule: breaker_run.induct)
  case start
  show ?case by (simp add: new_breaker_def)
next
  case (step evs s ev s')
  obtain n b where o: "owed peer (0, False) evs = (n, b)" by (cases "owed peer (0, False) evs")
  from step.IH step.prems o have ih: "\<not> bs_cancelled s" "n = bs_probing s peer" "b \<longrightarrow> bs_armed s peer \<noteq> []" by auto
  have i: "breaker_inv s" by (rule breaker_run_inv [OF step.hyps(1)])
  from step.hyps(2) show ?case
  proof cases
    case (suppressed p)
    have "bs_armed s peer \<noteq> []" if "p = peer" "n = 0"
      using i suppressed ih that by (fastforce simp: breaker_inv_def retries_def is_open_def)
    with suppressed ih o show ?thesis by (auto simp: owed_snoc)
  next
    case cancelled
    with step.prems show ?thesis by simp
  qed (use ih o in \<open>auto simp: owed_snoc armed_with_def split: option.splits\<close>)
qed

text \<open>A notify suppressed while no probe of its peer was under way is made up for: a retry of the peer has fired since,
  or its timer is armed.\<close>

theorem suppressed_retried:
  assumes "breaker_run (pre @ Suppressed peer # post) s" and "Cancelled \<notin> set (pre @ Suppressed peer # post)"
    and "fst (owed peer (0, False) pre) = 0" and "Fired peer \<notin> set post"
  shows "bs_armed s peer \<noteq> []"
proof -
  have keep: "snd (owed peer (n, True) evs)" if "Fired peer \<notin> set evs" for n evs
    using that
  proof (induction evs arbitrary: n)
    case (Cons ev evs)
    then show ?case by (cases ev) auto
  qed simp
  obtain b where "owed peer (0, False) pre = (0, b)" using assms(3) by (cases "owed peer (0, False) pre") auto
  then have "snd (owed peer (0, False) (pre @ Suppressed peer # post))" using keep [OF assms(4), of 0] by (simp add: owed_append)
  with breaker_run_owed [OF assms(1,2), of peer] show ?thesis by simp
qed

text \<open>While a probe is under way that does not hold: a notify it suppresses is dropped when the probe succeeds, and nothing
  is left that would tell the peer.\<close>

lemma breaker_steps:
  assumes "breaker_run evs s" and "breaker_step s ev s'" and "evs' = evs @ [ev]"
  shows "breaker_run evs' s'"
  using breaker_run.step [OF assms(1,2)] assms(3) by simp

definition down_breaker :: "duration list \<Rightarrow> nat \<Rightarrow> breaker_sys" where
  "down_breaker ds n = new_breaker\<lparr>bs_breaker := [''peer'' \<mapsto> \<lparr>op_opened_at = 0, op_cooldown = breakerInitialCooldown\<rparr>],
     bs_armed := (\<lambda>_. [])(''peer'' := ds), bs_probing := (\<lambda>_. 0)(''peer'' := n), bs_inflight := (\<lambda>_. 0)(''peer'' := 0),
     bs_lines := [WentDown ''peer'' breakerInitialCooldown]\<rparr>"

lemma down_run: "breaker_run [Started ''peer'', Ended ''peer'' False] (down_breaker [breakerInitialCooldown] 0)"
proof -
  let ?s = "new_breaker\<lparr>bs_inflight := (bs_inflight new_breaker)(''peer'' := Suc (bs_inflight new_breaker ''peer''))\<rparr>"
  have a: "breaker_run [Started ''peer''] ?s"
    by (rule breaker_steps [OF breaker_run.start breaker_step.started]) (simp_all add: new_breaker_def is_open_def)
  obtain b d ls where o: "opened 0 ''peer'' (bs_breaker ?s) = (b, d, ls)" by (metis prod_cases3)
  have n: "bs_inflight ?s ''peer'' = Suc 0" by (simp add: new_breaker_def)
  from breaker_steps [OF a breaker_step.failed [OF n o] refl] o show ?thesis
    by (auto simp: opened_def is_open_def new_breaker_def armed_with_def down_breaker_def fun_upd_def cong: if_cong)
qed

lemma suppressed_can_be_lost:
  "\<exists>s. breaker_run [Started ''peer'', Ended ''peer'' False, Fired ''peer'', Suppressed ''peer'', Probed ''peer'' True] s \<and>
     bs_breaker s ''peer'' = None \<and> bs_armed s ''peer'' = [] \<and> bs_probing s ''peer'' = 0 \<and> bs_inflight s ''peer'' = 0"
proof -
  let ?p = "''peer''"
  have f: "breaker_step (down_breaker [breakerInitialCooldown] 0) (Fired ?p) (down_breaker [] 1)"
    using breaker_step.fired [of "down_breaker [breakerInitialCooldown] 0" ?p "[]" breakerInitialCooldown "[]"]
    by (simp add: down_breaker_def new_breaker_def fun_upd_def cong: if_cong)
  have q: "breaker_step (down_breaker [] 1) (Suppressed ?p) (down_breaker [] 1)"
    by (rule breaker_step.suppressed) (simp add: down_breaker_def new_breaker_def is_open_def)
  have n: "bs_probing (down_breaker [] 1) ?p = Suc 0" by (simp add: down_breaker_def)
  obtain b ls where c: "closed 1 ?p (bs_breaker (down_breaker [] 1)) = (b, ls)" by (metis surj_pair)
  let ?s = "(down_breaker [] 1)\<lparr>bs_probing := (bs_probing (down_breaker [] 1))(?p := 0), bs_breaker := b, bs_lines := bs_lines (down_breaker [] 1) @ ls\<rparr>"
  have "breaker_run [Started ?p, Ended ?p False, Fired ?p] (down_breaker [] 1)" by (rule breaker_steps [OF down_run f]) simp
  then have "breaker_run [Started ?p, Ended ?p False, Fired ?p, Suppressed ?p] (down_breaker [] 1)" by (rule breaker_steps [OF _ q]) simp
  then have "breaker_run [Started ?p, Ended ?p False, Fired ?p, Suppressed ?p, Probed ?p True] ?s"
    by (rule breaker_steps [OF _ breaker_step.probe_ok [OF n c]]) simp
  moreover have "b ?p = None" using c by (auto simp: closed_def down_breaker_def)
  ultimately show ?thesis by (intro exI [of _ ?s]) (simp add: down_breaker_def new_breaker_def)
qed

subsection \<open>Instances\<close>

theorem one_retry_per_open_peer_witness:
  "op_cooldown (the (bs_breaker (down_breaker [breakerInitialCooldown] 0) ''peer'')) \<le> 300 * 10 ^ 9"
  using one_retry_per_open_peer [OF down_run, of "''peer''"] by (simp add: down_breaker_def)

theorem suppressed_retried_witness:
  "breaker_run [Started ''peer'', Ended ''peer'' False, Suppressed ''peer''] (down_breaker [breakerInitialCooldown] 0) \<and>
   bs_armed (down_breaker [breakerInitialCooldown] 0) ''peer'' \<noteq> []"
proof -
  have "breaker_step (down_breaker [breakerInitialCooldown] 0) (Suppressed ''peer'') (down_breaker [breakerInitialCooldown] 0)"
    by (rule breaker_step.suppressed) (simp add: down_breaker_def new_breaker_def is_open_def)
  then have r: "breaker_run ([Started ''peer'', Ended ''peer'' False] @ Suppressed ''peer'' # []) (down_breaker [breakerInitialCooldown] 0)"
    by (rule breaker_steps [OF down_run]) simp
  from suppressed_retried [OF r] r show ?thesis by simp
qed

end
