(* ===== verification/Go_Netip.thy ===== *)
theory Go_Netip
  imports Go_Text
begin

text \<open>
  The parts of Go's \<^verbatim>\<open>strings\<close>, \<^verbatim>\<open>path/filepath\<close> and \<^verbatim>\<open>net/netip\<close> that host names, paths and addresses
  go through: \<^verbatim>\<open>Cut\<close>, \<^verbatim>\<open>TrimSuffix\<close>, \<^verbatim>\<open>LastIndex\<close> of one byte, the lexical \<^verbatim>\<open>Clean\<close> of a slash path, and the parser of
  IP addresses with the embedded and elided forms of IPv6.
\<close>

subsection \<open>Strings\<close>

text \<open>\<^verbatim>\<open>strings.Cut\<close> at the first byte \<open>c\<close>: before, after, found.\<close>

definition cut_at :: "char \<Rightarrow> string \<Rightarrow> string \<times> string \<times> bool" where
  "cut_at c s = (takeWhile (\<lambda>x. x \<noteq> c) s, drop 1 (dropWhile (\<lambda>x. x \<noteq> c) s), c \<in> set s)"

text \<open>What follows the last byte \<open>c\<close>, or the whole string.\<close>

definition after_last :: "char \<Rightarrow> string \<Rightarrow> string" where
  "after_last c s = rev (takeWhile (\<lambda>x. x \<noteq> c) (rev s))"

text \<open>What precedes it, with the byte, or nothing.\<close>

definition upto_last :: "char \<Rightarrow> string \<Rightarrow> string" where
  "upto_last c s = rev (dropWhile (\<lambda>x. x \<noteq> c) (rev s))"

definition trim_suffix :: "char \<Rightarrow> string \<Rightarrow> string" where
  "trim_suffix c s = (if s \<noteq> [] \<and> last s = c then butlast s else s)"

fun split_at :: "char \<Rightarrow> string \<Rightarrow> string list" where
  "split_at c [] = [[]]"
| "split_at c (x # xs) = (case split_at c xs of
     [] \<Rightarrow> [[]]
   | p # ps \<Rightarrow> if x = c then [] # p # ps else (x # p) # ps)"

fun join_with :: "char \<Rightarrow> string list \<Rightarrow> string" where
  "join_with c [] = []"
| "join_with c [p] = p"
| "join_with c (p # ps) = p @ c # join_with c ps"

lemma dropWhile_absent [simp]: "c \<notin> set s \<Longrightarrow> dropWhile (\<lambda>x. x \<noteq> c) s = []"
  by (auto simp: dropWhile_eq_Nil_conv)

lemma cut_joined: "c \<notin> set a \<Longrightarrow> cut_at c (a @ c # b) = (a, b, True)"
  unfolding cut_at_def by (induction a) auto

lemma cut_found: "cut_at c s = (a, b, True) \<Longrightarrow> s = a @ c # b \<and> c \<notin> set a"
proof -
  assume e: "cut_at c s = (a, b, True)"
  then have "c \<in> set s" by (simp add: cut_at_def)
  then have "dropWhile (\<lambda>x. x \<noteq> c) s \<noteq> []" by (auto simp: dropWhile_eq_Nil_conv)
  then have "dropWhile (\<lambda>x. x \<noteq> c) s = c # drop 1 (dropWhile (\<lambda>x. x \<noteq> c) s)"
    using hd_dropWhile [of "\<lambda>x. x \<noteq> c" s] by (cases "dropWhile (\<lambda>x. x \<noteq> c) s") auto
  with e show ?thesis
    using takeWhile_dropWhile_id [of "\<lambda>x. x \<noteq> c" s] set_takeWhileD [of c "\<lambda>x. x \<noteq> c" s]
    by (auto simp: cut_at_def)
qed

lemma cut_absent: "cut_at c s = (a, b, False) \<longleftrightarrow> c \<notin> set s \<and> a = s \<and> b = []"
  by (auto simp: cut_at_def takeWhile_eq_all_conv)

lemma split_at_nonempty [simp]: "split_at c s \<noteq> []"
  by (induction s) (auto split: list.splits)

lemma split_at_parts: "p \<in> set (split_at c s) \<Longrightarrow> c \<notin> set p"
  by (induction s arbitrary: p) (auto split: list.splits if_splits)

subsection \<open>Paths\<close>

text \<open>\<^verbatim>\<open>filepath.Clean\<close> on a slash-separated path: one component at a time.\<close>

definition clean_step :: "bool \<Rightarrow> string list \<Rightarrow> string \<Rightarrow> string list" where
  "clean_step rooted out part =
     (if part = [] \<or> part = ''.'' then out
      else if part = ''..'' then
        (if out = [] then (if rooted then [] else [''..'']) else if last out = ''..'' then out @ [''..''] else butlast out)
      else out @ [part])"

definition is_abs :: "string \<Rightarrow> bool" where
  "is_abs path \<longleftrightarrow> path \<noteq> [] \<and> hd path = CHR ''/''"

definition clean_path :: "string \<Rightarrow> string" where
  "clean_path path =
     (let rooted = is_abs path; out = foldl (clean_step rooted) [] (split_at (CHR ''/'') path);
          text = (if rooted then ''/'' else []) @ join_with (CHR ''/'') out in
      if text = [] then ''.'' else text)"

text \<open>\<^verbatim>\<open>filepath.Join\<close> of a directory and a name.\<close>

definition join_path :: "string \<Rightarrow> string \<Rightarrow> string" where
  "join_path dir name =
     (if dir = [] then (if name = [] then [] else clean_path name)
      else clean_path (dir @ CHR ''/'' # name))"

subsection \<open>Addresses\<close>

text \<open>\<^verbatim>\<open>netip.Addr\<close> without its zero value: four bytes, or sixteen and a zone.\<close>

datatype addr = V4 bytes | V6 bytes string

definition is4in6 :: "addr \<Rightarrow> bool" where
  "is4in6 a = (case a of V4 _ \<Rightarrow> False | V6 b _ \<Rightarrow> take 12 b = replicate 10 (CHR 0x00) @ [CHR 0xFF, CHR 0xFF])"

definition unmap :: "addr \<Rightarrow> addr" where
  "unmap a = (case a of V4 b \<Rightarrow> V4 b | V6 b z \<Rightarrow> if is4in6 a then V4 (drop 12 b) else V6 b z)"

fun v4_fields :: "string \<Rightarrow> nat \<Rightarrow> nat \<Rightarrow> nat list \<Rightarrow> nat list option" where
  "v4_fields [] val len acc = (if length acc < 3 then None else Some (acc @ [val]))"
| "v4_fields (c # cs) val len acc =
     (if is_digit c then
        (if len = 1 \<and> val = 0 then None
         else let v = val * 10 + digit_val c in if v > 255 then None else v4_fields cs v (Suc len) acc)
      else if c = CHR ''.'' then
        (if len = 0 \<or> cs = [] then None else if length acc = 3 then None else v4_fields cs 0 0 (acc @ [val]))
      else None)"

text \<open>The hexadecimal digits of one IPv6 field: how many, their value, and the rest.\<close>

fun scan_group :: "nat \<Rightarrow> nat \<Rightarrow> string \<Rightarrow> (nat \<times> nat \<times> string) option" where
  "scan_group off acc [] = Some (off, acc, [])"
| "scan_group off acc (c # cs) = (case hex_val c of
     None \<Rightarrow> Some (off, acc, c # cs)
   | Some v \<Rightarrow> if off > 3 \<or> acc * 16 + v > 65535 then None else scan_group (Suc off) (acc * 16 + v) cs)"

text \<open>The loop over the fields, which has room for \<open>n\<close> more: the bytes so far, where the ellipsis stands, and the rest.\<close>

fun v6_groups :: "nat \<Rightarrow> nat list \<Rightarrow> nat option \<Rightarrow> string \<Rightarrow> (nat list \<times> nat option \<times> string) option" where
  "v6_groups 0 ip ell s = Some (ip, ell, s)"
| "v6_groups (Suc n) ip ell s = (case scan_group 0 0 s of
     None \<Rightarrow> None
   | Some (off, acc, rest) \<Rightarrow>
       if off = 0 then None
       else if rest \<noteq> [] \<and> hd rest = CHR ''.'' then
         (if ell = None \<and> length ip \<noteq> 12 \<or> length ip + 4 > 16 then None
          else map_option (\<lambda>f. (ip @ f, ell, [])) (v4_fields s 0 0 []))
       else let ip' = ip @ [acc div 256, acc mod 256] in
         if rest = [] then Some (ip', ell, [])
         else if hd rest \<noteq> CHR '':'' \<or> length rest = 1 then None
         else let s' = tl rest in
           if hd s' = CHR '':'' then
             (if ell \<noteq> None then None
              else if tl s' = [] then Some (ip', Some (length ip'), [])
              else v6_groups n ip' (Some (length ip')) (tl s'))
           else v6_groups n ip' ell s')"

definition parse_ipv6 :: "string \<Rightarrow> addr option" where
  "parse_ipv6 input = (case cut_at (CHR ''%'') input of (s0, zone, zoned) \<Rightarrow>
     if zoned \<and> zone = [] then None
     else let lead = (take 2 s0 = ''::''); s = (if lead then drop 2 s0 else s0) in
       if lead \<and> s = [] then Some (V6 (replicate 16 (CHR 0x00)) zone)
       else case v6_groups 8 [] (if lead then Some 0 else None) s of
         None \<Rightarrow> None
       | Some (ip, ell, rest) \<Rightarrow>
           if rest \<noteq> [] then None
           else if length ip < 16 then
             map_option (\<lambda>e. V6 (map char_of (take e ip @ replicate (16 - length ip) 0 @ drop e ip)) zone) ell
           else if ell \<noteq> None then None
           else Some (V6 (map char_of ip) zone))"

definition parse_addr :: "string \<Rightarrow> addr option" where
  "parse_addr s = (case find (\<lambda>c. c = CHR ''.'' \<or> c = CHR '':'' \<or> c = CHR ''%'') s of
     None \<Rightarrow> None
   | Some c \<Rightarrow>
       if c = CHR ''.'' then map_option (\<lambda>f. V4 (map char_of f)) (v4_fields s 0 0 [])
       else if c = CHR '':'' then parse_ipv6 s
       else None)"

text \<open>Whether \<^verbatim>\<open>net.ParseIP\<close> accepts a text: an address without a zone.\<close>

definition is_ip :: "string \<Rightarrow> bool" where
  "is_ip s = (case parse_addr s of Some (V4 _) \<Rightarrow> True | Some (V6 _ z) \<Rightarrow> z = [] | None \<Rightarrow> False)"

lemma v4_fields_length: "v4_fields s v n acc = Some f \<Longrightarrow> length acc \<le> 3 \<Longrightarrow> length f = 4"
  by (induction s v n acc rule: v4_fields.induct) (auto simp: Let_def split: if_splits)

lemma v6_groups_length:
  "v6_groups n ip ell s = Some (ip', ell', r) \<Longrightarrow> length ip + 2 * n = 16 \<Longrightarrow> length ip' \<le> 16 \<and> length ip \<le> length ip'"
  by (induction n ip ell s rule: v6_groups.induct)
    (fastforce simp: Let_def dest: v4_fields_length split: option.splits prod.splits if_splits)+

lemma v6_groups_ellipsis:
  "v6_groups n ip ell s = Some (ip', ell', r) \<Longrightarrow> ell = None \<or> the ell \<le> length ip \<Longrightarrow> ell' = None \<or> the ell' \<le> length ip'"
  by (induction n ip ell s rule: v6_groups.induct)
    (fastforce simp: Let_def split: option.splits prod.splits if_splits)+

definition addr_ok :: "addr \<Rightarrow> bool" where
  "addr_ok a = (case a of V4 b \<Rightarrow> length b = 4 | V6 b _ \<Rightarrow> length b = 16)"

lemma parse_addr_ok: "parse_addr s = Some a \<Longrightarrow> addr_ok a"
  unfolding parse_addr_def parse_ipv6_def addr_ok_def
  by (fastforce simp: Let_def split: option.splits if_splits prod.splits dest: v4_fields_length v6_groups_length v6_groups_ellipsis)

lemma unmap_ok: "addr_ok a \<Longrightarrow> addr_ok (unmap a)"
  by (auto simp: addr_ok_def unmap_def split: addr.splits)

lemma unmap_idem [simp]: "unmap (unmap a) = unmap a"
  by (auto simp: unmap_def split: addr.splits)

end
