(* ===== verification/Mesh_Trust.thy ===== *)
theory Mesh_Trust
  imports Go_Netip "HOL-Library.Multiset"
begin

text \<open>
  The network trust set (\<^verbatim>\<open>src/meshtrust\<close>): the registered hosts joined with the tailnet's nodes by name, the owner's
  own devices, the names this machine answers to, and the provider that keeps one resolution for
  thirty seconds.

  \<open>lower\<close> is \<^verbatim>\<open>strings.ToLower\<close>, whose Unicode tables are not modelled. Go visits a map in any order: the nodes
  come as a list in the order of the visit, and so do the names to quarantine. The decoded status is
  the provider's input.
\<close>

subsection \<open>The status and the registry\<close>

record ts_node =
  nd_dns :: string
  nd_ips :: "string list"
  nd_user :: int
  nd_tags :: "string list"
  nd_sharee :: bool

record ts_status =
  st_backend :: string
  st_self :: ts_node
  st_peers :: "ts_node list"
  st_cert_domains :: "string list"

record mesh_registry =
  mr_self :: string
  mr_hosts :: "string list"

record host_trust =
  ht_target :: string
  ht_addrs :: "addr list"

record snapshot =
  sn_self :: string
  sn_self_dns :: string
  sn_cert_domain :: string
  sn_hosts :: "host_trust list"
  sn_devices :: "host_trust list"
  sn_peers :: "addr set"
  sn_origins :: "string set"
  sn_self_addrs :: "addr list"

definition no_trust :: snapshot where
  "no_trust = \<lparr>sn_self = [], sn_self_dns = [], sn_cert_domain = [], sn_hosts = [], sn_devices = [], sn_peers = {}, sn_origins = {}, sn_self_addrs = []\<rparr>"

definition normalize_host :: "(string \<Rightarrow> string) \<Rightarrow> string \<Rightarrow> string" where
  "normalize_host lower s = trim_suffix (CHR ''.'') (lower s)"

definition first_label :: "string \<Rightarrow> string" where
  "first_label host = fst (cut_at (CHR ''.'') host)"

definition host_part :: "string \<Rightarrow> string" where
  "host_part target = after_last (CHR ''@'') target"

definition owned_by_self_user :: "ts_node \<Rightarrow> ts_node \<Rightarrow> bool" where
  "owned_by_self_user self peer \<longleftrightarrow>
     \<not> (nd_user self = 0 \<or> nd_tags self \<noteq> []) \<and> nd_user peer = nd_user self \<and> nd_tags peer = [] \<and> \<not> nd_sharee peer"

definition parse_addrs :: "string list \<Rightarrow> addr list option" where
  "parse_addrs raw = those (map (\<lambda>s. map_option unmap (parse_addr s)) raw)"

subsection \<open>The join\<close>

text \<open>What the loop over the nodes builds.\<close>

record joined =
  jn_peers :: "addr set"
  jn_devices :: "host_trust list"
  jn_nodes :: "string \<rightharpoonup> addr list"
  jn_ambiguous :: "string list"

definition join_peer :: "(string \<Rightarrow> string) \<Rightarrow> ts_node \<Rightarrow> string \<Rightarrow> ts_node \<Rightarrow> joined \<Rightarrow> joined option" where
  "join_peer lower self self_name n j = map_option (\<lambda>addrs.
     let name = normalize_host lower (nd_dns n);
         j1 = (if owned_by_self_user self n
               then j\<lparr>jn_peers := jn_peers j \<union> set addrs, jn_devices := jn_devices j @ [\<lparr>ht_target = name, ht_addrs = addrs\<rparr>]\<rparr> else j) in
     if name = [] then j1
     else if jn_nodes j1 name \<noteq> None \<or> name = self_name then j1\<lparr>jn_ambiguous := List.insert name (jn_ambiguous j1)\<rparr>
     else j1\<lparr>jn_nodes := (jn_nodes j1)(name \<mapsto> addrs)\<rparr>) (parse_addrs (nd_ips n))"

fun join_peers :: "(string \<Rightarrow> string) \<Rightarrow> ts_node \<Rightarrow> string \<Rightarrow> ts_node list \<Rightarrow> joined \<Rightarrow> joined option" where
  "join_peers lower self self_name [] j = Some j"
| "join_peers lower self self_name (n # ns) j = (case join_peer lower self self_name n j of
     None \<Rightarrow> None | Some j' \<Rightarrow> join_peers lower self self_name ns j')"

text \<open>One turn of the quarantine.\<close>

definition quarantine_name :: "string \<Rightarrow> snapshot \<times> (string \<rightharpoonup> addr list) \<Rightarrow> snapshot \<times> (string \<rightharpoonup> addr list)" where
  "quarantine_name name s = (case s of (snap, nodes) \<Rightarrow>
     let snap1 = snap\<lparr>sn_origins := sn_origins snap - {name}\<rparr>;
         snap2 = (if name = sn_self_dns snap1 then snap1\<lparr>sn_origins := sn_origins snap1 - {first_label name}, sn_self_dns := []\<rparr> else snap1);
         snap3 = (if name = sn_cert_domain snap2 then snap2\<lparr>sn_cert_domain := []\<rparr> else snap2) in
     (snap3, nodes(name := None)))"

definition host_addrs :: "(string \<Rightarrow> string) \<Rightarrow> (string \<rightharpoonup> addr list) \<Rightarrow> string \<Rightarrow> addr list" where
  "host_addrs lower nodes target =
     (let host = normalize_host lower (host_part target) in
      if host = [] then [] else case nodes host of None \<Rightarrow> [] | Some as \<Rightarrow> as)"

definition trust_host :: "(string \<Rightarrow> string) \<Rightarrow> (string \<rightharpoonup> addr list) \<Rightarrow> string \<Rightarrow> snapshot \<Rightarrow> snapshot" where
  "trust_host lower nodes target snap = snap\<lparr>sn_peers := sn_peers snap \<union> set (host_addrs lower nodes target),
     sn_hosts := sn_hosts snap @ [\<lparr>ht_target = target, ht_addrs = host_addrs lower nodes target\<rparr>]\<rparr>"

text \<open>The snapshot before the nodes are visited.\<close>

definition own_trust :: "(string \<Rightarrow> string) \<Rightarrow> mesh_registry \<Rightarrow> ts_status \<Rightarrow> addr list \<Rightarrow> snapshot" where
  "own_trust lower reg st self_addrs =
     (let self_name = normalize_host lower (nd_dns (st_self st));
          cert = (case st_cert_domains st of [] \<Rightarrow> [] | d # _ \<Rightarrow> normalize_host lower d) in
      no_trust\<lparr>sn_self := mr_self reg, sn_self_addrs := self_addrs, sn_peers := set self_addrs, sn_self_dns := self_name,
        sn_cert_domain := cert,
        sn_origins := (if self_name = [] then {} else {self_name} \<union> (if first_label self_name = [] then {} else {first_label self_name}))
          \<union> (if cert = [] then {} else {cert})\<rparr>)"

text \<open>\<open>visit\<close> is the order in which the quarantine visits the names; the devices are sorted by target.\<close>

definition build :: "(string \<Rightarrow> string) \<Rightarrow> (string list \<Rightarrow> string list) \<Rightarrow> mesh_registry \<Rightarrow> ts_status \<Rightarrow> snapshot option" where
  "build lower visit reg st = (case parse_addrs (nd_ips (st_self st)) of
     None \<Rightarrow> None
   | Some self_addrs \<Rightarrow>
       let snap0 = own_trust lower reg st self_addrs in
       (case join_peers lower (st_self st) (sn_self_dns snap0) (st_peers st)
               \<lparr>jn_peers = sn_peers snap0, jn_devices = [], jn_nodes = Map.empty, jn_ambiguous = []\<rparr> of
          None \<Rightarrow> None
        | Some j \<Rightarrow>
            (case fold quarantine_name (visit (jn_ambiguous j)) (snap0\<lparr>sn_peers := jn_peers j, sn_devices := jn_devices j\<rparr>, jn_nodes j) of
               (snap1, nodes) \<Rightarrow>
                 let snap2 = fold (trust_host lower nodes) (mr_hosts reg) snap1 in
                 Some (snap2\<lparr>sn_devices := sort_key ht_target (sn_devices snap2)\<rparr>))))"

subsection \<open>Verdicts\<close>

definition trusted_peer :: "snapshot \<Rightarrow> addr \<Rightarrow> bool" where
  "trusted_peer snap ip \<longleftrightarrow> unmap ip \<in> sn_peers snap"

definition trusted_origin :: "(string \<Rightarrow> string) \<Rightarrow> snapshot \<Rightarrow> string \<Rightarrow> bool" where
  "trusted_origin lower snap host = (case parse_addr host of
     Some a \<Rightarrow> unmap a \<in> set (sn_self_addrs snap)
   | None \<Rightarrow> normalize_host lower host \<in> sn_origins snap)"


subsection \<open>What the join builds\<close>

text \<open>The nodes of one name, and the addresses a name stands for: those of its only node, none when two nodes share
  it or it is this machine's own.\<close>

definition named :: "(string \<Rightarrow> string) \<Rightarrow> string \<Rightarrow> ts_node list \<Rightarrow> ts_node list" where
  "named lower name ns = filter (\<lambda>n. normalize_host lower (nd_dns n) = name) ns"

definition node_addrs :: "ts_node \<Rightarrow> addr list" where
  "node_addrs n = (case parse_addrs (nd_ips n) of None \<Rightarrow> [] | Some as \<Rightarrow> as)"

definition self_name :: "(string \<Rightarrow> string) \<Rightarrow> ts_status \<Rightarrow> string" where
  "self_name lower st = normalize_host lower (nd_dns (st_self st))"

definition colliding :: "(string \<Rightarrow> string) \<Rightarrow> ts_status \<Rightarrow> string \<Rightarrow> bool" where
  "colliding lower st name \<longleftrightarrow> name \<noteq> [] \<and>
     (if name = self_name lower st then named lower name (st_peers st) \<noteq> [] else length (named lower name (st_peers st)) \<ge> 2)"

definition resolved :: "(string \<Rightarrow> string) \<Rightarrow> ts_status \<Rightarrow> string \<Rightarrow> addr list" where
  "resolved lower st name =
     (if name = [] \<or> name = self_name lower st then []
      else case named lower name (st_peers st) of [n] \<Rightarrow> node_addrs n | _ \<Rightarrow> [])"

lemma named_simps [simp]:
  "named lower name [] = []"
  "named lower name (n # ns) = (if normalize_host lower (nd_dns n) = name then n # named lower name ns else named lower name ns)"
  by (simp_all add: named_def)

lemma join_peerD:
  assumes "join_peer lower self sname n j = Some j'"
  shows "parse_addrs (nd_ips n) = Some (node_addrs n)"
    and "jn_peers j' = jn_peers j \<union> (if owned_by_self_user self n then set (node_addrs n) else {})"
    and "jn_devices j' = jn_devices j @ (if owned_by_self_user self n then [\<lparr>ht_target = normalize_host lower (nd_dns n), ht_addrs = node_addrs n\<rparr>] else [])"
    and "jn_nodes j' = (let name = normalize_host lower (nd_dns n) in
      if name = [] \<or> name = sname \<or> jn_nodes j name \<noteq> None then jn_nodes j else (jn_nodes j)(name \<mapsto> node_addrs n))"
    and "set (jn_ambiguous j') = (let name = normalize_host lower (nd_dns n) in
      if name \<noteq> [] \<and> (name = sname \<or> jn_nodes j name \<noteq> None) then insert name (set (jn_ambiguous j)) else set (jn_ambiguous j))"
proof -
  from assms obtain as where as: "parse_addrs (nd_ips n) = Some as" by (auto simp: join_peer_def)
  then have na: "node_addrs n = as" by (simp add: node_addrs_def)
  from assms as have j': "j' = (let name = normalize_host lower (nd_dns n);
      j1 = (if owned_by_self_user self n
            then j\<lparr>jn_peers := jn_peers j \<union> set as, jn_devices := jn_devices j @ [\<lparr>ht_target = name, ht_addrs = as\<rparr>]\<rparr> else j) in
      if name = [] then j1
      else if jn_nodes j1 name \<noteq> None \<or> name = sname then j1\<lparr>jn_ambiguous := List.insert name (jn_ambiguous j1)\<rparr>
      else j1\<lparr>jn_nodes := (jn_nodes j1)(name \<mapsto> as)\<rparr>)" by (simp add: join_peer_def)
  show "parse_addrs (nd_ips n) = Some (node_addrs n)" by (simp add: as na)
  show "jn_peers j' = jn_peers j \<union> (if owned_by_self_user self n then set (node_addrs n) else {})" by (simp add: j' na Let_def)
  show "jn_devices j' = jn_devices j @ (if owned_by_self_user self n then [\<lparr>ht_target = normalize_host lower (nd_dns n), ht_addrs = node_addrs n\<rparr>] else [])"
    by (simp add: j' na Let_def)
  show "jn_nodes j' = (let name = normalize_host lower (nd_dns n) in
      if name = [] \<or> name = sname \<or> jn_nodes j name \<noteq> None then jn_nodes j else (jn_nodes j)(name \<mapsto> node_addrs n))"
    by (simp add: j' na Let_def)
  show "set (jn_ambiguous j') = (let name = normalize_host lower (nd_dns n) in
      if name \<noteq> [] \<and> (name = sname \<or> jn_nodes j name \<noteq> None) then insert name (set (jn_ambiguous j)) else set (jn_ambiguous j))"
    by (simp add: j' Let_def)
qed

lemma join_peers_owned:
  assumes "join_peers lower self sname ns j = Some j'"
  shows "jn_peers j' = jn_peers j \<union> (\<Union>n \<in> set (filter (owned_by_self_user self) ns). set (node_addrs n)) \<and>
    jn_devices j' = jn_devices j @ map (\<lambda>n. \<lparr>ht_target = normalize_host lower (nd_dns n), ht_addrs = node_addrs n\<rparr>) (filter (owned_by_self_user self) ns) \<and>
    (\<forall>n \<in> set ns. parse_addrs (nd_ips n) \<noteq> None)"
  using assms
proof (induction ns arbitrary: j)
  case (Cons n ns)
  then obtain j1 where j1: "join_peer lower self sname n j = Some j1" "join_peers lower self sname ns j1 = Some j'"
    by (auto split: option.splits)
  note d = join_peerD [OF j1(1)] and ih = Cons.IH [OF j1(2)]
  show ?case using ih by (auto simp: d(1-3))
qed simp

lemma join_peers_names:
  assumes "join_peers lower self sname ns j = Some j'"
  shows "jn_nodes j' name = (if name = [] \<or> name = sname \<or> jn_nodes j name \<noteq> None \<or> named lower name ns = [] then jn_nodes j name
      else Some (node_addrs (hd (named lower name ns)))) \<and>
    (name \<in> set (jn_ambiguous j') \<longleftrightarrow> name \<in> set (jn_ambiguous j) \<or> name \<noteq> [] \<and>
      (if name = sname then named lower name ns \<noteq> []
       else 2 \<le> length (named lower name ns) + (if jn_nodes j name = None then 0 else 1)))"
  using assms
proof (induction ns arbitrary: j)
  case (Cons n ns)
  then obtain j1 where j1: "join_peer lower self sname n j = Some j1" "join_peers lower self sname ns j1 = Some j'"
    by (auto split: option.splits)
  note d = join_peerD [OF j1(1)] and ih = Cons.IH [OF j1(2)]
  show ?case
  proof (cases "normalize_host lower (nd_dns n) = name")
    case True
    with ih show ?thesis by (cases "jn_nodes j name") (auto simp: d(4,5) Let_def Suc_le_eq)
  next
    case False
    then have "jn_nodes j1 name = jn_nodes j name" "name \<in> set (jn_ambiguous j1) \<longleftrightarrow> name \<in> set (jn_ambiguous j)"
      by (auto simp: d(4,5) Let_def)
    with ih False show ?thesis by auto
  qed
qed auto

lemma join_peers_total: "(\<forall>n \<in> set ns. parse_addrs (nd_ips n) \<noteq> None) \<Longrightarrow> join_peers lower self sname ns j \<noteq> None"
  by (induction ns arbitrary: j) (auto simp: join_peer_def split: option.splits)

subsection \<open>The quarantine and the hosts\<close>

lemma quarantine_all:
  assumes "[] \<notin> set names" and "fold quarantine_name names (snap, nodes) = (snap', nodes')"
  shows "sn_origins snap' = sn_origins snap - set names - (if sn_self_dns snap \<in> set names then {first_label (sn_self_dns snap)} else {}) \<and>
    sn_self_dns snap' = (if sn_self_dns snap \<in> set names then [] else sn_self_dns snap) \<and>
    sn_cert_domain snap' = (if sn_cert_domain snap \<in> set names then [] else sn_cert_domain snap) \<and>
    nodes' = nodes |` (- set names) \<and> sn_self snap' = sn_self snap \<and> sn_hosts snap' = sn_hosts snap \<and> sn_devices snap' = sn_devices snap \<and>
    sn_peers snap' = sn_peers snap \<and> sn_self_addrs snap' = sn_self_addrs snap"
  using assms
proof (induction names arbitrary: snap nodes)
  case (Cons name names)
  obtain s1 n1 where q: "quarantine_name name (snap, nodes) = (s1, n1)" by force
  have r: "fold quarantine_name names (s1, n1) = (snap', nodes')" using Cons.prems(2) q by simp
  have f: "sn_origins s1 = sn_origins snap - {name} - (if name = sn_self_dns snap then {first_label name} else {})"
    "sn_self_dns s1 = (if name = sn_self_dns snap then [] else sn_self_dns snap)"
    "sn_cert_domain s1 = (if name = sn_cert_domain snap then [] else sn_cert_domain snap)"
    "n1 = nodes(name := None)" "sn_self s1 = sn_self snap" "sn_hosts s1 = sn_hosts snap" "sn_devices s1 = sn_devices snap"
    "sn_peers s1 = sn_peers snap" "sn_self_addrs s1 = sn_self_addrs snap"
    using q by (auto simp: quarantine_name_def Let_def split: if_splits)
  have n: "nodes |` (- insert name (set names)) = n1 |` (- set names)" by (auto simp: f restrict_map_def)
  have ne: "[] \<notin> set names" "name \<noteq> []" using Cons.prems(1) by auto
  note ih = Cons.IH [OF ne(1) r]
  have "sn_origins snap' = sn_origins snap - set (name # names) - (if sn_self_dns snap \<in> set (name # names) then {first_label (sn_self_dns snap)} else {})"
    using ih ne by (cases "name = sn_self_dns snap") (auto simp: f)
  moreover have "sn_self_dns snap' = (if sn_self_dns snap \<in> set (name # names) then [] else sn_self_dns snap)" using ih ne by (simp add: f)
  moreover have "sn_cert_domain snap' = (if sn_cert_domain snap \<in> set (name # names) then [] else sn_cert_domain snap)" using ih ne by (simp add: f)
  moreover have "nodes' = nodes |` (- set (name # names))" using ih n by simp
  ultimately show ?case using ih by (simp add: f)
qed auto

lemma trust_hosts_all:
  "fold (trust_host lower nodes) hosts snap = snap\<lparr>
     sn_peers := sn_peers snap \<union> (\<Union>t \<in> set hosts. set (host_addrs lower nodes t)),
     sn_hosts := sn_hosts snap @ map (\<lambda>t. \<lparr>ht_target = t, ht_addrs = host_addrs lower nodes t\<rparr>) hosts\<rparr>"
  by (induction hosts arbitrary: snap) (simp_all add: trust_host_def Un_assoc)

text \<open>The snapshot in closed form, whatever orders the maps are visited in.\<close>

definition own_origins :: "(string \<Rightarrow> string) \<Rightarrow> ts_status \<Rightarrow> string set" where
  "own_origins lower st = ({self_name lower st, first_label (self_name lower st)} \<union> set (map (normalize_host lower) (take 1 (st_cert_domains st)))) - {[]}"

lemma own_trust_fields:
  "sn_self_dns (own_trust lower reg st as) = self_name lower st" "sn_peers (own_trust lower reg st as) = set as"
  "sn_self_addrs (own_trust lower reg st as) = as" "sn_hosts (own_trust lower reg st as) = []"
  "sn_origins (own_trust lower reg st as) = own_origins lower st" "sn_self (own_trust lower reg st as) = mr_self reg"
  "sn_cert_domain (own_trust lower reg st as) = (case st_cert_domains st of [] \<Rightarrow> [] | d # _ \<Rightarrow> normalize_host lower d)"
  by (auto simp: own_trust_def own_origins_def self_name_def no_trust_def Let_def first_label_def cut_at_def split: list.splits)

lemma build_closed:
  assumes "build lower visit reg st = Some snap" and "\<And>xs. set (visit xs) = set xs"
  shows "parse_addrs (nd_ips (st_self st)) = Some (sn_self_addrs snap)"
    and "sn_peers snap = set (sn_self_addrs snap) \<union> (\<Union>n \<in> set (filter (owned_by_self_user (st_self st)) (st_peers st)). set (node_addrs n))
      \<union> (\<Union>t \<in> set (mr_hosts reg). set (resolved lower st (normalize_host lower (host_part t))))"
    and "sn_hosts snap = map (\<lambda>t. \<lparr>ht_target = t, ht_addrs = resolved lower st (normalize_host lower (host_part t))\<rparr>) (mr_hosts reg)"
    and "sn_devices snap = sort_key ht_target (map (\<lambda>n. \<lparr>ht_target = normalize_host lower (nd_dns n), ht_addrs = node_addrs n\<rparr>)
      (filter (owned_by_self_user (st_self st)) (st_peers st)))"
    and "sn_origins snap = own_origins lower st - Collect (colliding lower st)
      - (if colliding lower st (self_name lower st) then {first_label (self_name lower st)} else {})"
    and "sn_self_dns snap = (if colliding lower st (self_name lower st) then [] else self_name lower st)"
    and "sn_cert_domain snap = (case st_cert_domains st of [] \<Rightarrow> [] | d # _ \<Rightarrow> if colliding lower st (normalize_host lower d) then [] else normalize_host lower d)"
    and "sn_self snap = mr_self reg" and "\<forall>n \<in> set (st_peers st). parse_addrs (nd_ips n) \<noteq> None"
proof -
  obtain as where as: "parse_addrs (nd_ips (st_self st)) = Some as" using assms(1) by (auto simp: build_def split: option.splits)
  let ?s0 = "own_trust lower reg st as"
  let ?j0 = "\<lparr>jn_peers = set as, jn_devices = [], jn_nodes = Map.empty, jn_ambiguous = []\<rparr>"
  obtain j where j: "join_peers lower (st_self st) (self_name lower st) (st_peers st) ?j0 = Some j"
    using assms(1) as by (auto simp: build_def own_trust_fields Let_def split: option.splits)
  note o = join_peers_owned [OF j] and nm = join_peers_names [OF j]
  have amb: "name \<in> set (jn_ambiguous j) \<longleftrightarrow> colliding lower st name" for name
    using nm [of name] by (auto simp: colliding_def)
  have ne: "[] \<notin> set (visit (jn_ambiguous j))" using amb assms(2) by (auto simp: colliding_def)
  let ?s = "?s0\<lparr>sn_peers := jn_peers j, sn_devices := jn_devices j\<rparr>"
  obtain s1 nodes where q: "fold quarantine_name (visit (jn_ambiguous j)) (?s, jn_nodes j) = (s1, nodes)" by force
  have vs: "set (visit (jn_ambiguous j)) = Collect (colliding lower st)" using amb assms(2) by auto
  note qa = quarantine_all [OF ne q, unfolded vs]
  have s1: "sn_peers s1 = jn_peers j" "sn_devices s1 = jn_devices j" "sn_self_addrs s1 = as" "sn_hosts s1 = []" "sn_self s1 = mr_self reg"
    "sn_origins s1 = own_origins lower st - Collect (colliding lower st)
      - (if colliding lower st (self_name lower st) then {first_label (self_name lower st)} else {})"
    "sn_self_dns s1 = (if colliding lower st (self_name lower st) then [] else self_name lower st)"
    "sn_cert_domain s1 = (if colliding lower st (sn_cert_domain ?s0) then [] else sn_cert_domain ?s0)"
    using qa by (simp_all add: own_trust_fields cong: if_cong)
  have snap: "snap = (fold (trust_host lower nodes) (mr_hosts reg) s1)\<lparr>sn_devices := sort_key ht_target (sn_devices (fold (trust_host lower nodes) (mr_hosts reg) s1))\<rparr>"
    using assms(1) as j q by (simp add: build_def own_trust_fields Let_def)
  have res: "host_addrs lower nodes t = resolved lower st (normalize_host lower (host_part t))" for t
    using qa nm [of "normalize_host lower (host_part t)"]
    by (auto simp: host_addrs_def resolved_def colliding_def restrict_map_def Let_def split: list.splits)
  show "parse_addrs (nd_ips (st_self st)) = Some (sn_self_addrs snap)"
    by (simp add: snap trust_hosts_all s1 as)
  show "sn_peers snap = set (sn_self_addrs snap) \<union> (\<Union>n \<in> set (filter (owned_by_self_user (st_self st)) (st_peers st)). set (node_addrs n))
      \<union> (\<Union>t \<in> set (mr_hosts reg). set (resolved lower st (normalize_host lower (host_part t))))"
    using o by (simp add: snap trust_hosts_all s1 res)
  show "sn_hosts snap = map (\<lambda>t. \<lparr>ht_target = t, ht_addrs = resolved lower st (normalize_host lower (host_part t))\<rparr>) (mr_hosts reg)"
    by (simp add: snap trust_hosts_all s1 res)
  show "sn_devices snap = sort_key ht_target (map (\<lambda>n. \<lparr>ht_target = normalize_host lower (nd_dns n), ht_addrs = node_addrs n\<rparr>)
      (filter (owned_by_self_user (st_self st)) (st_peers st)))"
    using o by (simp add: snap trust_hosts_all s1)
  show "sn_origins snap = own_origins lower st - Collect (colliding lower st)
      - (if colliding lower st (self_name lower st) then {first_label (self_name lower st)} else {})"
    by (simp add: snap trust_hosts_all s1)
  show "sn_self_dns snap = (if colliding lower st (self_name lower st) then [] else self_name lower st)"
    by (simp add: snap trust_hosts_all s1)
  show "sn_cert_domain snap = (case st_cert_domains st of [] \<Rightarrow> [] | d # _ \<Rightarrow> if colliding lower st (normalize_host lower d) then [] else normalize_host lower d)"
    by (simp add: snap trust_hosts_all s1 own_trust_fields colliding_def split: list.split)
  show "sn_self snap = mr_self reg" by (simp add: snap trust_hosts_all s1)
  show "\<forall>n \<in> set (st_peers st). parse_addrs (nd_ips n) \<noteq> None" using o by blast
qed

subsection \<open>Who is trusted\<close>

text \<open>Whom the trust set is meant to hold: this machine, the untagged and unshared nodes of its own tailnet user, and
  the one node whose name a registered host has, when no other node and not this machine has that name too.\<close>

definition entitled :: "(string \<Rightarrow> string) \<Rightarrow> mesh_registry \<Rightarrow> ts_status \<Rightarrow> addr \<Rightarrow> bool" where
  "entitled lower reg st a \<longleftrightarrow> a \<in> set (node_addrs (st_self st)) \<or>
     (\<exists>n \<in> set (st_peers st). owned_by_self_user (st_self st) n \<and> a \<in> set (node_addrs n)) \<or>
     (\<exists>t \<in> set (mr_hosts reg). \<exists>n \<in> set (st_peers st).
        named lower (normalize_host lower (host_part t)) (st_peers st) = [n] \<and>
        normalize_host lower (host_part t) \<notin> {[], normalize_host lower (nd_dns (st_self st))} \<and> a \<in> set (node_addrs n))"

text \<open>C7. The trusted peers are exactly the addresses of this machine, of the untagged, unshared nodes of its own tailnet
  user, and of the one node whose name a registered host has, when no other node and not this machine has that
  name too.\<close>

theorem trusted_peer_iff:
  assumes "build lower visit reg st = Some snap" and "\<And>xs. set (visit xs) = set xs"
  shows "trusted_peer snap ip \<longleftrightarrow> entitled lower reg st (unmap ip)"
proof -
  note b = build_closed [OF assms]
  have m: "named lower name (st_peers st) = [n] \<Longrightarrow> n \<in> set (st_peers st)" for name n
  proof -
    assume "named lower name (st_peers st) = [n]"
    then have "n \<in> set (named lower name (st_peers st))" by simp
    then show ?thesis by (simp add: named_def)
  qed
  have r: "a \<in> set (resolved lower st name) \<longleftrightarrow> name \<notin> {[], self_name lower st} \<and>
      (\<exists>n \<in> set (st_peers st). named lower name (st_peers st) = [n] \<and> a \<in> set (node_addrs n))" for a name
  proof (cases "named lower name (st_peers st)")
    case (Cons n0 ns)
    then show ?thesis using m by (cases ns) (auto simp: resolved_def)
  qed (simp add: resolved_def)
  have s: "node_addrs (st_self st) = sn_self_addrs snap" using b(1) by (simp add: node_addrs_def)
  show "trusted_peer snap ip \<longleftrightarrow> entitled lower reg st (unmap ip)"
    unfolding trusted_peer_def entitled_def b(2) s by (auto simp: r self_name_def)
qed

text \<open>Trust by name: a name is approved only if it is this machine's name, its first label or its certificate
  domain, and no other node shares it; a machine whose own name is shared answers to neither that name
  nor its label. An address is approved only if it is this machine's.\<close>

theorem trusted_origin_own:
  assumes "build lower visit reg st = Some snap" and "\<And>xs. set (visit xs) = set xs" and "trusted_origin lower snap host"
  shows "case parse_addr host of
    Some a \<Rightarrow> \<exists>as. parse_addrs (nd_ips (st_self st)) = Some as \<and> unmap a \<in> set as
  | None \<Rightarrow>
      (let name = normalize_host lower host; own = normalize_host lower (nd_dns (st_self st)) in
       name \<noteq> [] \<and> (name = own \<or> name = first_label own \<or> (\<exists>d ds. st_cert_domains st = d # ds \<and> name = normalize_host lower d)) \<and>
       length (named lower name (st_peers st)) \<le> 1 \<and> (name = own \<longrightarrow> named lower name (st_peers st) = []) \<and>
       (name = first_label own \<longrightarrow> named lower own (st_peers st) = []))"
proof (cases "parse_addr host")
  case None
  note b = build_closed [OF assms(1,2)]
  let ?name = "normalize_host lower host"
  have o: "?name \<in> own_origins lower st" "\<not> colliding lower st ?name"
    "colliding lower st (self_name lower st) \<Longrightarrow> ?name \<noteq> first_label (self_name lower st)"
    using assms(3) None by (auto simp: trusted_origin_def b(5) split: if_splits)
  have lbl: "?name = first_label (self_name lower st) \<Longrightarrow> self_name lower st \<noteq> []"
    using o(1) by (auto simp: own_origins_def first_label_def cut_at_def)
  have c: "(\<exists>d ds. st_cert_domains st = d # ds \<and> x = normalize_host lower d) \<longleftrightarrow> x \<in> set (map (normalize_host lower) (take 1 (st_cert_domains st)))" for x
    by (cases "st_cert_domains st") auto
  have x: "?name \<noteq> []" "?name = self_name lower st \<or> ?name = first_label (self_name lower st) \<or> ?name \<in> set (map (normalize_host lower) (take 1 (st_cert_domains st)))"
    using o(1) by (auto simp: own_origins_def)
  have y: "length (named lower ?name (st_peers st)) \<le> 1 \<and> (?name = self_name lower st \<longrightarrow> named lower ?name (st_peers st) = [])"
    using o(2) x(1) by (auto simp: colliding_def split: if_splits)
  have z: "?name = first_label (self_name lower st) \<Longrightarrow> named lower (self_name lower st) (st_peers st) = []"
    using o(3) lbl by (auto simp: colliding_def)
  from x y z show ?thesis by (simp only: None option.case Let_def c self_name_def [symmetric]) blast
next
  case (Some a)
  note b = build_closed [OF assms(1,2)]
  from assms(3) Some show ?thesis by (simp add: trusted_origin_def b(1))
qed

lemma named_mset: "mset ns = mset ns' \<Longrightarrow> mset (named lower name ns) = mset (named lower name ns')"
  by (simp add: named_def)

lemma colliding_mset: "mset (st_peers st) = mset (st_peers st') \<Longrightarrow> st_self st = st_self st' \<Longrightarrow> colliding lower st name = colliding lower st' name"
  using named_mset [of "st_peers st" "st_peers st'" lower name]
  by (auto simp: colliding_def self_name_def dest: mset_eq_length)

lemma resolved_mset:
  assumes "mset (st_peers st) = mset (st_peers st')" and "st_self st = st_self st'"
  shows "resolved lower st name = resolved lower st' name"
proof -
  note m = named_mset [OF assms(1), of lower name]
  have l: "length (named lower name (st_peers st)) = length (named lower name (st_peers st'))" using m by (rule mset_eq_length)
  have s: "self_name lower st = self_name lower st'" using assms(2) by (simp add: self_name_def)
  show ?thesis
  proof (cases "named lower name (st_peers st)" rule: list.exhaust)
    case Nil
    with l show ?thesis by (simp add: resolved_def s)
  next
    case (Cons n ns)
    with l obtain n' ns' where c: "named lower name (st_peers st') = n' # ns'" by (cases "named lower name (st_peers st')") auto
    with Cons l m show ?thesis by (cases ns; cases ns') (auto simp: resolved_def s)
  qed
qed

text \<open>Verdicts do not depend on the order Go visits its maps in: two resolutions of the same status answer alike.\<close>
theorem build_order_irrelevant:
  assumes "mset (st_peers st) = mset ns" and "\<And>xs. set (visit xs) = set xs" and "\<And>xs. set (visit' xs) = set xs"
  shows "case (build lower visit reg st, build lower visit' reg (st\<lparr>st_peers := ns\<rparr>)) of
    (None, None) \<Rightarrow> True
  | (Some s, Some s') \<Rightarrow> (\<forall>ip. trusted_peer s ip = trusted_peer s' ip) \<and> (\<forall>host. trusted_origin lower s host = trusted_origin lower s' host) \<and>
      sn_hosts s = sn_hosts s' \<and> sn_self_dns s = sn_self_dns s' \<and> sn_cert_domain s = sn_cert_domain s' \<and> mset (sn_devices s) = mset (sn_devices s')
  | _ \<Rightarrow> False"
proof -
  let ?st = "st\<lparr>st_peers := ns\<rparr>"
  have m: "mset (st_peers st) = mset (st_peers ?st)" "st_self st = st_self ?st" using assms(1) by simp_all
  have set: "set (st_peers st) = set ns" using assms(1) by (rule mset_eq_setD)
  have none: "build lower v reg s = None \<longleftrightarrow> parse_addrs (nd_ips (st_self s)) = None \<or> (\<exists>n \<in> set (st_peers s). parse_addrs (nd_ips n) = None)" for v s
  proof (cases "parse_addrs (nd_ips (st_self s))")
    case None
    then show ?thesis by (simp add: build_def)
  next
    case (Some as)
    let ?r = "join_peers lower (st_self s) (self_name lower s) (st_peers s) \<lparr>jn_peers = set as, jn_devices = [], jn_nodes = Map.empty, jn_ambiguous = []\<rparr>"
    have "build lower v reg s = None \<longleftrightarrow> ?r = None"
      by (simp add: build_def Some Let_def own_trust_fields split: option.split prod.split)
    also have "\<dots> \<longleftrightarrow> (\<exists>n \<in> set (st_peers s). parse_addrs (nd_ips n) = None)"
    proof
      assume "?r = None"
      then show "\<exists>n \<in> set (st_peers s). parse_addrs (nd_ips n) = None" using join_peers_total by metis
    next
      assume "\<exists>n \<in> set (st_peers s). parse_addrs (nd_ips n) = None"
      then show "?r = None" using join_peers_owned by (cases ?r) blast+
    qed
    finally show ?thesis by (simp add: Some)
  qed
  show ?thesis
  proof (cases "build lower visit reg st")
    case None
    then have "build lower visit' reg ?st = None" by (simp add: none set)
    with None show ?thesis by simp
  next
    case (Some s)
    then have "build lower visit' reg ?st \<noteq> None" using none [of visit st] none [of visit' ?st] by (simp add: set)
    then obtain s' where s': "build lower visit' reg ?st = Some s'" by blast
    note b = build_closed [OF Some assms(2)] and b' = build_closed [OF s' assms(3)]
    have r: "resolved lower ?st = resolved lower st" using resolved_mset [OF m] by auto
    have c: "colliding lower ?st = colliding lower st" using colliding_mset [OF m] by auto
    have n: "self_name lower ?st = self_name lower st" "own_origins lower ?st = own_origins lower st" by (simp_all add: self_name_def own_origins_def)
    have self: "sn_self_addrs s = sn_self_addrs s'" using b(1) b'(1) by simp
    have p: "sn_peers s = sn_peers s'" using set by (simp add: b(2) b'(2) self r)
    have o: "sn_origins s = sn_origins s'" by (simp add: b(5) b'(5) c n)
    have h: "sn_hosts s = sn_hosts s'" by (simp add: b(3) b'(3) r)
    have d: "sn_self_dns s = sn_self_dns s'" "sn_cert_domain s = sn_cert_domain s'" by (simp_all add: b(6,7) b'(6,7) c n split: list.split)
    have v: "mset (sn_devices s) = mset (sn_devices s')" using assms(1) by (simp add: b(4) b'(4))
    from Some s' p o h d v self show ?thesis by (simp add: trusted_peer_def trusted_origin_def split: option.split)
  qed
qed

subsection \<open>An instance\<close>

definition ascii_lower :: "string \<Rightarrow> string" where
  "ascii_lower s = map (\<lambda>c. let n = of_char c :: nat in if 65 \<le> n \<and> n \<le> 90 then char_of (n + 32) else c) s"

definition sample_node :: "string \<Rightarrow> string \<Rightarrow> int \<Rightarrow> ts_node" where
  "sample_node dns ip user = \<lparr>nd_dns = dns, nd_ips = [ip], nd_user = user, nd_tags = [], nd_sharee = False\<rparr>"

definition sample_nodes :: "ts_node list" where
  "sample_nodes = [sample_node ''box.ts.net.'' ''100.64.0.2'' 9, sample_node ''Dup.ts.net.'' ''100.64.0.4'' 9,
     sample_node ''phone.ts.net.'' ''100.64.0.3'' 7, sample_node ''dup.ts.net.'' ''100.64.0.5'' 8]"

definition sample_status :: ts_status where
  "sample_status = \<lparr>st_backend = ''Running'', st_self = sample_node ''Me.ts.net.'' ''100.64.0.1'' 7, st_peers = sample_nodes, st_cert_domains = [''me.ts.net'']\<rparr>"

definition sample_mesh :: mesh_registry where
  "sample_mesh = \<lparr>mr_self = ''u@me.ts.net'', mr_hosts = [''u@box.ts.net'', ''u@dup.ts.net'', ''u@gone.ts.net'']\<rparr>"

definition sample_trust :: snapshot where
  "sample_trust = the (build ascii_lower (\<lambda>xs. xs) sample_mesh sample_status)"

lemma sample_builds: "build ascii_lower (\<lambda>xs. xs) sample_mesh sample_status = Some sample_trust"
proof -
  have "build ascii_lower (\<lambda>xs. xs) sample_mesh sample_status \<noteq> None" by code_simp
  then show ?thesis by (simp add: sample_trust_def)
qed

definition ip4 :: "nat \<Rightarrow> addr" where "ip4 n = V4 (map char_of [100, 64, 0, n])"

lemma sample_verdicts:
  "trusted_peer sample_trust (ip4 2)" "\<not> trusted_peer sample_trust (ip4 5)" "trusted_origin ascii_lower sample_trust ''ME.ts.net''"
  by code_simp+

theorem trusted_peer_iff_witness:
  "entitled ascii_lower sample_mesh sample_status (unmap (ip4 2)) \<and> \<not> entitled ascii_lower sample_mesh sample_status (unmap (ip4 5))"
  using trusted_peer_iff [OF sample_builds] sample_verdicts by blast

theorem trusted_origin_own_witness: "length (named ascii_lower ''me.ts.net'' (st_peers sample_status)) \<le> 1"
proof -
  have p: "parse_addr ''ME.ts.net'' = None" by code_simp
  have n: "normalize_host ascii_lower ''ME.ts.net'' = ''me.ts.net''" by code_simp
  from trusted_origin_own [OF sample_builds _ sample_verdicts(3)] show ?thesis by (simp add: p n Let_def)
qed

theorem build_order_irrelevant_witness:
  "\<exists>s. build ascii_lower rev sample_mesh (sample_status\<lparr>st_peers := rev sample_nodes\<rparr>) = Some s \<and> trusted_peer s (ip4 2) \<and> \<not> trusted_peer s (ip4 5)"
  using build_order_irrelevant [of sample_status "rev sample_nodes" "\<lambda>xs. xs" rev ascii_lower sample_mesh] sample_builds sample_verdicts
  by (auto simp: sample_status_def split: option.splits)

end
