(* ===== verification/Trust_Provider.thy ===== *)
theory Trust_Provider
  imports Mesh_Trust
begin

text \<open>
  The provider of trust verdicts (\<^verbatim>\<open>src/meshtrust/trust.go\<close>), the names certificates are minted for
  (\<^verbatim>\<open>cert.go\<close>) and the extra listeners (\<^verbatim>\<open>listen.go\<close>).

  A call of the provider reads the clock, whether its context is dead when the refresh returns, and
  what the registry and tailscale answer; its mutex makes the calls a sequence.
\<close>

subsection \<open>The provider\<close>

definition trust_ttl :: duration where "trust_ttl = 30 * 1000000000"

record provider_call =
  pc_now :: gotime
  pc_dead :: bool
  pc_registry :: "mesh_registry res"
  pc_status :: "ts_status res"
  pc_visit :: "string list \<Rightarrow> string list"

definition refresh_trust :: "(string \<Rightarrow> string) \<Rightarrow> provider_call \<Rightarrow> snapshot" where
  "refresh_trust lower c = (case pc_registry c of
     Inl _ \<Rightarrow> no_trust
   | Inr reg \<Rightarrow>
       if mr_self reg = [] then no_trust
       else case pc_status c of
         Inl _ \<Rightarrow> no_trust
       | Inr st \<Rightarrow>
           if st_backend st \<noteq> ''Running'' then no_trust
           else case build lower (pc_visit c) reg st of None \<Rightarrow> no_trust | Some snap \<Rightarrow> snap)"

text \<open>The provider's snapshot with the time it was fetched, 0 before the first.\<close>

type_synonym provider = "snapshot \<times> gotime"

definition new_provider :: provider where "new_provider = (no_trust, 0)"

definition current :: "(string \<Rightarrow> string) \<Rightarrow> provider_call \<Rightarrow> provider \<Rightarrow> provider \<times> snapshot" where
  "current lower c p = (case p of (snap, fetched) \<Rightarrow>
     if fetched \<noteq> 0 \<and> pc_now c - fetched < trust_ttl then (p, snap)
     else let fresh = refresh_trust lower c in
       if pc_dead c then (p, fresh) else ((fresh, pc_now c), fresh))"

text \<open>The provider after a sequence of calls.\<close>

definition provider_after :: "(string \<Rightarrow> string) \<Rightarrow> provider_call list \<Rightarrow> provider" where
  "provider_after lower cs = fold (\<lambda>c p. fst (current lower c p)) cs new_provider"

lemma provider_cached:
  "provider_after lower cs = (snap, fetched) \<Longrightarrow> fetched = 0 \<and> (snap = no_trust \<or> (\<exists>c \<in> set cs. snap = refresh_trust lower c)) \<or>
    (\<exists>c \<in> set cs. \<not> pc_dead c \<and> pc_now c = fetched \<and> snap = refresh_trust lower c)"
proof (induction cs arbitrary: snap fetched rule: rev_induct)
  case Nil
  then show ?case by (simp add: provider_after_def new_provider_def)
next
  case (snoc c cs)
  obtain s0 f0 where p: "provider_after lower cs = (s0, f0)" by force
  have "provider_after lower (cs @ [c]) = fst (current lower c (s0, f0))"
    using p by (simp add: provider_after_def)
  with snoc.prems snoc.IH [OF p] show ?case by (auto simp: current_def Let_def split: if_splits)
qed

lemma refresh_trusts:
  assumes "refresh_trust lower c = snap" and "snap \<noteq> no_trust"
  shows "\<exists>reg st. pc_registry c = Inr reg \<and> mr_self reg \<noteq> [] \<and> pc_status c = Inr st \<and> st_backend st = ''Running'' \<and> build lower (pc_visit c) reg st = Some snap"
  using assms by (auto simp: refresh_trust_def split: sum.splits if_splits option.splits)

text \<open>C27. Trust is fail-closed and fresh: whoever the provider trusts at some call, a call no more than thirty seconds
  before it, or the call itself, read a registry that names this machine and a running tailnet status,
  and the join of those two trusts the address.\<close>

theorem provider_fails_closed:
  assumes "snd (current lower c (provider_after lower cs)) = snap" and "trusted_peer snap ip \<or> trusted_origin lower snap host"
  shows "\<exists>c' \<in> set (cs @ [c]). (c' = c \<or> \<not> pc_dead c' \<and> pc_now c - pc_now c' < 30 * 10 ^ 9) \<and>
    (\<exists>reg st. pc_registry c' = Inr reg \<and> mr_self reg \<noteq> [] \<and> pc_status c' = Inr st \<and> st_backend st = ''Running'' \<and>
      build lower (pc_visit c') reg st = Some snap)"
proof -
  obtain s f where p: "provider_after lower cs = (s, f)" by force
  have ne: "snap \<noteq> no_trust" using assms(2) by (auto simp: no_trust_def trusted_peer_def trusted_origin_def split: option.splits)
  have "\<exists>c' \<in> set (cs @ [c]). (c' = c \<or> \<not> pc_dead c' \<and> pc_now c - pc_now c' < 30 * 10 ^ 9) \<and> refresh_trust lower c' = snap"
  proof (cases "f \<noteq> 0 \<and> pc_now c - f < trust_ttl")
    case True
    with assms(1) p have "snap = s" by (simp add: current_def)
    with True provider_cached [OF p] show ?thesis by (auto simp: trust_ttl_def)
  next
    case False
    with assms(1) p have "refresh_trust lower c = snap" by (auto simp: current_def Let_def split: if_splits)
    then show ?thesis by auto
  qed
  then obtain c' where c': "c' \<in> set (cs @ [c])" "c' = c \<or> \<not> pc_dead c' \<and> pc_now c - pc_now c' < 30 * 10 ^ 9" "refresh_trust lower c' = snap"
    by blast
  then show ?thesis using refresh_trusts [OF c'(3) ne] by blast
qed

subsection \<open>Certificates\<close>

text \<open>\<^verbatim>\<open>validateHost\<close> on the bytes of a name: a byte of a longer rune is none of the allowed ones.\<close>

definition host_char :: "char \<Rightarrow> bool" where
  "host_char r \<longleftrightarrow> (let n = of_char r :: nat in \<not> ((n < 97 \<or> n > 122) \<and> (n < 48 \<or> n > 57) \<and> r \<noteq> CHR ''.'' \<and> r \<noteq> CHR ''-''))"

fun has_double_dot :: "string \<Rightarrow> bool" where
  "has_double_dot (a # b # s) \<longleftrightarrow> a = CHR ''.'' \<and> b = CHR ''.'' \<or> has_double_dot (b # s)"
| "has_double_dot _ \<longleftrightarrow> False"

definition validate_host :: "string \<Rightarrow> unit res" where
  "validate_host host =
     (if host = [] then Inl (ErrMsg ''mint cert: empty DNS name'')
      else if hd host = CHR ''-'' \<or> hd host = CHR ''.'' \<or> has_double_dot host then Inl (ErrMsg ''mint cert: invalid DNS name'')
      else each (\<lambda>r. if host_char r then Inr () else Inl (ErrMsg ''mint cert: invalid DNS name'')) host)"

text \<open>\<open>run\<close> is the tailscale command on the two files and the name, \<open>exists\<close> what \<^verbatim>\<open>os.Stat\<close> then finds.\<close>

definition mint_cert :: "(string \<Rightarrow> string) \<Rightarrow> (string \<Rightarrow> string \<Rightarrow> string \<Rightarrow> unit res) \<Rightarrow> (string \<Rightarrow> bool) \<Rightarrow> string \<Rightarrow> string \<Rightarrow> (string \<times> string) res" where
  "mint_cert lower run exists dns dir =
     (let host = normalize_host lower dns in
      andthen (validate_host host) (\<lambda>_.
        let cert = join_path dir (host @ ''.crt''); key = join_path dir (host @ ''.key'') in
        andthen (run cert key host) (\<lambda>_.
          if exists cert \<and> exists key then Inr (cert, key) else Inl (ErrMsg ''missing output''))))"

lemma split_at_append: "split_at c (a @ c # b) = split_at c a @ split_at c b"
  by (induction a) (auto split: list.splits)

lemma split_at_none: "c \<notin> set s \<Longrightarrow> split_at c s = [s]"
  by (induction s) auto

lemma join_with_snoc: "ps \<noteq> [] \<Longrightarrow> join_with c (ps @ [p]) = join_with c ps @ c # p"
  by (induction c ps rule: join_with.induct) auto

lemma clean_path_child:
  assumes "is_abs dir" and "clean_path dir = dir" and "dir \<noteq> ''/''" and "name \<notin> {[], ''.'', ''..''}" and "CHR ''/'' \<notin> set name"
  shows "join_path dir name = dir @ CHR ''/'' # name"
proof -
  define out where "out = foldl (clean_step True) [] (split_at (CHR ''/'') dir)"
  have d: "dir = CHR ''/'' # join_with (CHR ''/'') out" using assms(1,2) by (simp add: clean_path_def out_def Let_def)
  with assms(3) have "out \<noteq> []" by auto
  then have j: "join_with (CHR ''/'') (out @ [name]) = join_with (CHR ''/'') out @ CHR ''/'' # name" by (rule join_with_snoc)
  have "foldl (clean_step True) [] (split_at (CHR ''/'') (dir @ CHR ''/'' # name)) = out @ [name]"
    using assms(4,5) by (simp add: split_at_append split_at_none out_def clean_step_def)
  moreover have "is_abs (dir @ CHR ''/'' # name)" using assms(1) by (cases dir) (auto simp: is_abs_def)
  ultimately have "clean_path (dir @ CHR ''/'' # name) = CHR ''/'' # join_with (CHR ''/'') out @ CHR ''/'' # name"
    by (simp add: clean_path_def Let_def j)
  then show ?thesis using assms(1) d by (simp add: join_path_def is_abs_def)
qed

text \<open>A name that reaches tailscale cannot be read as an option and cannot leave the directory: the two files lie
  directly in it, named after the host.\<close>

theorem cert_stays_in_directory:
  assumes "mint_cert lower run exists dns dir = Inr (cert, key)" and "is_abs dir" and "clean_path dir = dir" and "dir \<noteq> ''/''"
  shows "\<exists>host. host = normalize_host lower dns \<and> hd host \<noteq> CHR ''-'' \<and> CHR ''/'' \<notin> set host \<and>
    cert = dir @ CHR ''/'' # host @ ''.crt'' \<and> key = dir @ CHR ''/'' # host @ ''.key'' \<and> run cert key host = Inr () \<and> exists cert \<and> exists key"
proof -
  let ?h = "normalize_host lower dns"
  have v: "validate_host ?h = Inr ()" and r: "run (join_path dir (?h @ ''.crt'')) (join_path dir (?h @ ''.key'')) ?h = Inr ()"
    and e: "exists (join_path dir (?h @ ''.crt''))" "exists (join_path dir (?h @ ''.key''))"
    and c: "cert = join_path dir (?h @ ''.crt'')" "key = join_path dir (?h @ ''.key'')"
    using assms(1) by (auto simp: mint_cert_def Let_def andthen_Inr_iff split: if_splits)
  have h: "?h \<noteq> []" "hd ?h \<noteq> CHR ''-''" "\<forall>r \<in> set ?h. host_char r"
    using v by (auto simp: validate_host_def each_Inr_iff split: if_splits)
  then have s: "CHR ''/'' \<notin> set ?h" by (auto simp: host_char_def Let_def)
  have n: "?h @ ''.crt'' \<notin> {[], ''.'', ''..''}" "?h @ ''.key'' \<notin> {[], ''.'', ''..''}" by (cases ?h; auto)+
  have "join_path dir (?h @ ''.crt'') = dir @ CHR ''/'' # ?h @ ''.crt''" "join_path dir (?h @ ''.key'') = dir @ CHR ''/'' # ?h @ ''.key''"
    using clean_path_child [OF assms(2-4) n(1)] clean_path_child [OF assms(2-4) n(2)] s by simp_all
  with h s r e c show ?thesis by simp
qed

subsection \<open>Listeners\<close>

definition is_loopback :: "addr \<Rightarrow> bool" where
  "is_loopback a = (case unmap a of V4 b \<Rightarrow> b \<noteq> [] \<and> hd b = CHR 0x7F | V6 b _ \<Rightarrow> b = replicate 15 (CHR 0x00) @ [CHR 0x01])"

definition is_unspecified :: "addr \<Rightarrow> bool" where
  "is_unspecified a = (case unmap a of V4 b \<Rightarrow> b = replicate 4 (CHR 0x00) | V6 b z \<Rightarrow> b = replicate 16 (CHR 0x00) \<and> z = [])"

definition zone :: "addr \<Rightarrow> string" where
  "zone a = (case a of V4 _ \<Rightarrow> [] | V6 _ z \<Rightarrow> z)"

definition is_loopback_bind :: "string \<Rightarrow> bool" where
  "is_loopback_bind bind \<longleftrightarrow> bind = [] \<or> is_ip bind \<and> (case parse_addr bind of None \<Rightarrow> False | Some a \<Rightarrow> is_loopback a)"

text \<open>\<open>listen\<close> binds an address and a port; the result is what is served.\<close>

definition bind_addr :: "(addr \<times> nat \<Rightarrow> 'l res) \<Rightarrow> nat \<Rightarrow> addr \<Rightarrow> 'l list" where
  "bind_addr listen hint a =
     (if zone a \<noteq> [] then []
      else if is_unspecified a then []
      else let first = (if hint \<noteq> 0 then listen (a, hint) else Inl (ErrMsg ''no hint'')) in
        case (case first of Inr l \<Rightarrow> first | Inl _ \<Rightarrow> listen (a, 0)) of Inl _ \<Rightarrow> [] | Inr l \<Rightarrow> [l])"

definition bind_tailnet :: "(addr \<times> nat \<Rightarrow> 'l res) \<Rightarrow> string \<Rightarrow> addr list \<Rightarrow> nat \<Rightarrow> 'l list" where
  "bind_tailnet listen bind addrs hint =
     (if \<not> is_loopback_bind bind then []
      else if addrs = [] then []
      else concat (map (bind_addr listen hint) addrs))"

text \<open>Nothing is served on an unspecified or zoned address, and nothing extra when the primary bind already covers the
  tailnet.\<close>

lemma bind_addr_safe:
  "l \<in> set (bind_addr listen hint a) \<Longrightarrow> zone a = [] \<and> \<not> is_unspecified a \<and> (listen (a, hint) = Inr l \<or> listen (a, 0) = Inr l)"
  by (cases "listen (a, hint)"; cases "listen (a, 0)") (auto simp: bind_addr_def Let_def split: if_split_asm)

lemma bind_tailnet_safe:
  "l \<in> set (bind_tailnet listen bind addrs hint) \<Longrightarrow>
   is_loopback_bind bind \<and> (\<exists>a \<in> set addrs. \<exists>port \<in> {hint, 0}. zone a = [] \<and> \<not> is_unspecified a \<and> listen (a, port) = Inr l)"
  using bind_addr_safe [of l listen hint] by (auto simp: bind_tailnet_def split: if_splits)

subsection \<open>Instances\<close>

definition sample_call :: "gotime \<Rightarrow> mesh_registry res \<Rightarrow> provider_call" where
  "sample_call now reg = \<lparr>pc_now = now, pc_dead = False, pc_registry = reg, pc_status = Inr sample_status, pc_visit = (\<lambda>xs. xs)\<rparr>"

lemma sample_refresh: "refresh_trust ascii_lower (sample_call now (Inr sample_mesh)) = sample_trust"
  by (simp add: refresh_trust_def sample_call_def sample_builds) (simp add: sample_mesh_def sample_status_def)

text \<open>Ten seconds after a resolution a failing registry is not asked.\<close>

theorem provider_fails_closed_witness:
  "\<exists>c' \<in> set ([sample_call 1 (Inr sample_mesh)] @ [sample_call 10000000001 (Inl ErrNotExist)]).
     pc_registry c' = Inr sample_mesh \<and> pc_status c' = Inr sample_status"
proof -
  let ?c = "sample_call 10000000001 (Inl ErrNotExist)"
  let ?cs = "[sample_call 1 (Inr sample_mesh)]"
  have a: "provider_after ascii_lower ?cs = (sample_trust, 1)"
    using sample_refresh [of 1] by (simp add: provider_after_def new_provider_def current_def Let_def sample_call_def)
  then have s: "snd (current ascii_lower ?c (provider_after ascii_lower ?cs)) = sample_trust"
    by (simp add: current_def sample_call_def trust_ttl_def)
  from provider_fails_closed [OF s disjI1, OF sample_verdicts(1)] show ?thesis by (fastforce simp: sample_call_def)
qed

theorem cert_stays_in_directory_witness:
  "\<exists>cert key. mint_cert ascii_lower (\<lambda>_ _ _. Inr ()) (\<lambda>_. True) ''Box.ts.net.'' ''/var/ts'' = Inr (cert, key) \<and>
     cert = ''/var/ts/box.ts.net.crt'' \<and> key = ''/var/ts/box.ts.net.key''"
proof -
  have n: "normalize_host ascii_lower ''Box.ts.net.'' = ''box.ts.net''" by code_simp
  have v: "validate_host ''box.ts.net'' = Inr ()" by (simp add: validate_host_def host_char_def)
  have m: "mint_cert ascii_lower (\<lambda>_ _ _. Inr ()) (\<lambda>_. True) ''Box.ts.net.'' ''/var/ts'' =
      Inr (join_path ''/var/ts'' ''box.ts.net.crt'', join_path ''/var/ts'' ''box.ts.net.key'')" by (simp add: mint_cert_def n v)
  have d: "is_abs ''/var/ts''" "clean_path ''/var/ts'' = ''/var/ts''" "''/var/ts'' \<noteq> ''/''" by code_simp+
  from cert_stays_in_directory [OF m d] m show ?thesis by (simp add: n)
qed

end
