(* ===== verification/Ssh_Contract.thy ===== *)
theory Ssh_Contract
  imports Go_Netip Sync_Service
begin

text \<open>
  The facts of registered hosts and the sealed ssh invocation they lead to
  (\<^verbatim>\<open>src/hostregistry/ssh_contract.go\<close>), the remote command line and the nonce exchange that precedes wire traffic
  (\<^verbatim>\<open>src/rpc/remote.go\<close>).

  The loops of the code over the runes of a name accept ASCII runes alone, so they are loops over its bytes.
\<close>

subsection \<open>Names and paths\<close>

definition ascii_alnum :: "char \<Rightarrow> bool" where
  "ascii_alnum c \<longleftrightarrow> (let n = of_char c :: nat in 97 \<le> n \<and> n \<le> 122 \<or> 65 \<le> n \<and> n \<le> 90 \<or> 48 \<le> n \<and> n \<le> 57)"

definition valid_ssh_user :: "string \<Rightarrow> bool" where
  "valid_ssh_user value \<longleftrightarrow> value \<noteq> [] \<and> hd value \<noteq> CHR ''-'' \<and> list_all (\<lambda>c. ascii_alnum c \<or> c \<in> set ''._-'') value"

text \<open>\<^verbatim>\<open>strings.Trim(value, "[]")\<close>.\<close>

definition trim_brackets :: "string \<Rightarrow> string" where
  "trim_brackets s = (let b = (\<lambda>c. c = CHR ''['' \<or> c = CHR '']'') in rev (dropWhile b (rev (dropWhile b s))))"

definition valid_ssh_host :: "string \<Rightarrow> bool" where
  "valid_ssh_host value \<longleftrightarrow> value \<noteq> [] \<and> hd value \<noteq> CHR ''-'' \<and>
     list_all (\<lambda>c. c \<notin> {CHR 0x00, CHR 0x0D, CHR 0x0A, CHR 0x09, CHR '' '', CHR ''/'', CHR 0x5C}) value \<and>
     (is_ip (trim_brackets value) \<or> list_all (\<lambda>c. ascii_alnum c \<or> c = CHR ''.'' \<or> c = CHR ''-'') value)"

definition exact_remote_path :: "string \<Rightarrow> bool" where
  "exact_remote_path path \<longleftrightarrow> is_abs path \<and> clean_path path = path \<and> list_all (\<lambda>c. c \<notin> {CHR 0x00, CHR 0x0D, CHR 0x0A}) path"

subsection \<open>Host facts\<close>

record host_fact =
  hf_identity :: string
  hf_user :: string
  hf_alias :: string
  hf_addresses :: "string list"
  hf_path :: string

definition split_identity :: "string \<Rightarrow> (string \<times> string) res" where
  "split_identity identity = (case cut_at (CHR ''@'') identity of (user, host, ok) \<Rightarrow>
     if \<not> ok \<or> CHR ''@'' \<in> set host \<or> \<not> valid_ssh_user user \<or> \<not> valid_ssh_host host
     then Inl (ErrMsg ''hostregistry: identity must be explicit user@host'') else Inr (user, host))"

text \<open>One address of the loop, without the user it may repeat.\<close>

definition plain_address :: "string \<Rightarrow> string \<Rightarrow> string res" where
  "plain_address user address = (case cut_at (CHR ''@'') address of (address_user, address_host, has_user) \<Rightarrow>
     if has_user \<and> (CHR ''@'' \<in> set address_host \<or> address_user \<noteq> user)
     then Inl (ErrMsg ''hostregistry: alternate address changes the registered user'')
     else let a = (if has_user then address_host else address) in
       if valid_ssh_host a then Inr a else Inl (ErrMsg ''hostregistry: invalid SSH address''))"

text \<open>The loop: \<open>seen\<close> is what it has kept, in order.\<close>

fun keep_addresses :: "string \<Rightarrow> string list \<Rightarrow> string list \<Rightarrow> string list res" where
  "keep_addresses user [] seen = Inr seen"
| "keep_addresses user (a # as) seen = andthen (plain_address user a) (\<lambda>x.
     keep_addresses user as (if x \<in> set seen then seen else seen @ [x]))"

definition new_host_fact :: "string \<Rightarrow> string \<Rightarrow> string list \<Rightarrow> host_fact res" where
  "new_host_fact identity path addresses = andthen (split_identity identity) (\<lambda>(user, host).
     if \<not> exact_remote_path path then Inl (ErrMsg ''hostregistry: synckitd path must be exact and absolute'')
     else andthen (keep_addresses user (addresses @ [host]) []) (\<lambda>kept.
       Inr \<lparr>hf_identity = identity, hf_user = user, hf_alias = host, hf_addresses = kept, hf_path = path\<rparr>))"

text \<open>\<^verbatim>\<open>equalSSHHostFact\<close> of a fact and the one its fields make.\<close>

definition canonical_fact :: "host_fact \<Rightarrow> bool" where
  "canonical_fact f \<longleftrightarrow> new_host_fact (hf_identity f) (hf_path f) (hf_addresses f) = Inr f"

subsection \<open>The remote command line\<close>

definition shell_word :: "string \<Rightarrow> string" where
  "shell_word value = CHR 0x27 # concat (map (\<lambda>c. if c = CHR 0x27 then [CHR 0x27, CHR 0x5C, CHR 0x27, CHR 0x27] else [c]) value) @ [CHR 0x27]"

definition RemoteServeCommand :: string where "RemoteServeCommand = ''rpc-serve-v1''"

definition remote_serve_command_line :: "string \<Rightarrow> string \<Rightarrow> string res" where
  "remote_serve_command_line executable service =
     (if \<not> exact_remote_path executable then Inl (ErrMsg ''rpc: remote synckitd path must be exact and absolute'')
      else andthen (validate_name service) (\<lambda>_.
        Inr (shell_word executable @ '' '' @ shell_word RemoteServeCommand @ '' '' @ shell_word service)))"

text \<open>How a POSIX shell splits such a line: a quoted run is literal, a backslash outside quotes keeps the next byte, a
  space ends a word. \<open>word\<close> is the word being read, if any.\<close>

fun shell_split :: "bool \<Rightarrow> string option \<Rightarrow> string \<Rightarrow> string list option" where
  "shell_split quoted word [] = (if quoted then None else Some (case word of None \<Rightarrow> [] | Some w \<Rightarrow> [w]))"
| "shell_split True word (c # cs) =
     (if c = CHR 0x27 then shell_split False word cs else shell_split True (Some (the word @ [c])) cs)"
| "shell_split False word (c # cs) =
     (if c = CHR 0x27 then shell_split True (Some (case word of None \<Rightarrow> [] | Some w \<Rightarrow> w)) cs
      else if c = CHR 0x5C then
        (case cs of [] \<Rightarrow> None | d # ds \<Rightarrow> shell_split False (Some ((case word of None \<Rightarrow> [] | Some w \<Rightarrow> w) @ [d])) ds)
      else if c = CHR '' '' then
        (case word of None \<Rightarrow> shell_split False None cs | Some w \<Rightarrow> map_option ((#) w) (shell_split False None cs))
      else shell_split False (Some ((case word of None \<Rightarrow> [] | Some w \<Rightarrow> w) @ [c])) cs)"

subsection \<open>The ssh invocation\<close>

definition known_hosts_exact :: "string \<Rightarrow> bool" where
  "known_hosts_exact path \<longleftrightarrow> is_abs path \<and> clean_path path = path \<and> path \<noteq> ''/''"

text \<open>What \<^verbatim>\<open>os.Lstat\<close> tells of a path: a link, a directory, or a regular or other file with its permission bits.\<close>

datatype file_kind = Symlink | Directory | Regular nat | Other

fun known_hosts_walk :: "(string \<Rightarrow> file_kind res) \<Rightarrow> string \<Rightarrow> string \<Rightarrow> string list \<Rightarrow> unit res" where
  "known_hosts_walk lstat path cur [] = Inr ()"
| "known_hosts_walk lstat path cur (part # parts) =
     (let cur' = join_path cur part in
      andthen (lstat cur') (\<lambda>kind.
        if kind = Symlink then Inl (ErrMsg ''hostregistry: known_hosts path contains a symlink'')
        else if cur' = path then
          (if kind \<noteq> Regular 0x180 then Inl (ErrMsg ''hostregistry: known_hosts must be a regular mode-0600 file'')
           else known_hosts_walk lstat path cur' parts)
        else if kind \<noteq> Directory then Inl (ErrMsg ''hostregistry: known_hosts parent is not a directory'')
        else known_hosts_walk lstat path cur' parts))"

definition validate_known_hosts :: "(string \<Rightarrow> file_kind res) \<Rightarrow> string \<Rightarrow> unit res" where
  "validate_known_hosts lstat path =
     (if \<not> known_hosts_exact path then Inl (ErrMsg ''hostregistry: known_hosts path must be exact and absolute'')
      else known_hosts_walk lstat path ''/'' (split_at (CHR ''/'') (if is_abs path then tl path else path)))"

definition option_values :: "string \<Rightarrow> string \<Rightarrow> string list" where
  "option_values known_hosts alias = [''BatchMode=yes'', ''StrictHostKeyChecking=yes'', ''UserKnownHostsFile='' @ known_hosts,
     ''GlobalKnownHostsFile=/dev/null'', ''KnownHostsCommand=none'', ''UpdateHostKeys=no'', ''CheckHostIP=no'', ''HostKeyAlias='' @ alias,
     ''IdentitiesOnly=yes'', ''IdentityAgent=none'', ''ProxyCommand=none'', ''ProxyJump=none'', ''CanonicalizeHostname=no'',
     ''ForwardAgent=no'', ''ForwardX11=no'', ''ForwardX11Trusted=no'', ''ClearAllForwardings=yes'', ''PermitLocalCommand=no'',
     ''RequestTTY=no'', ''EscapeChar=none'', ''ConnectTimeout=3'', ''ServerAliveInterval=5'', ''ServerAliveCountMax=3'']"

definition remote_ssh_argv :: "(string \<Rightarrow> file_kind res) \<Rightarrow> host_fact \<Rightarrow> string \<Rightarrow> string \<Rightarrow> string \<Rightarrow> string list res" where
  "remote_ssh_argv lstat f address known_hosts service =
     andthen (new_host_fact (hf_identity f) (hf_path f) (hf_addresses f)) (\<lambda>validated.
       if validated \<noteq> f \<or> address \<notin> set (hf_addresses validated)
       then Inl (ErrMsg ''hostregistry: SSH host fact is not canonical'')
       else andthen (validate_known_hosts lstat known_hosts) (\<lambda>_.
         andthen (remote_serve_command_line (hf_path validated) service) (\<lambda>command.
           Inr ([''/usr/bin/ssh'', ''-F'', ''/dev/null'', ''-T''] @
             concat (map (\<lambda>v. [''-o'', v]) (option_values known_hosts (hf_alias validated))) @
             [''-l'', hf_user validated, address, command]))))"

subsection \<open>The nonce exchange\<close>

definition RemoteHelloNonceBytes :: nat where "RemoteHelloNonceBytes = 32"

definition hello_frame :: "bytes \<Rightarrow> bytes res" where
  "hello_frame nonce = (if length nonce \<noteq> RemoteHelloNonceBytes then Inl (ErrMsg ''rpc: remote hello nonce has wrong length'')
     else Inr ([CHR 0x00, CHR 0x00, CHR 0x00, CHR 0x20] @ nonce))"

definition be32 :: "bytes \<Rightarrow> nat" where
  "be32 b = foldl (\<lambda>n c. n * 256 + of_char c) 0 b"

text \<open>\<^verbatim>\<open>readRemoteHello\<close> on what the stream holds until it ends: the nonce and what is left.\<close>

definition read_hello :: "bytes \<Rightarrow> (bytes \<times> bytes) res" where
  "read_hello s =
     (if length s < 4 then Inl (ErrMsg ''EOF'')
      else if be32 (take 4 s) \<noteq> RemoteHelloNonceBytes then Inl (ErrMsg ''rpc: remote hello frame has wrong length'')
      else if length (drop 4 s) < RemoteHelloNonceBytes then Inl (ErrMsg ''EOF'')
      else Inr (take RemoteHelloNonceBytes (drop 4 s), drop RemoteHelloNonceBytes (drop 4 s)))"

text \<open>The two ends: what the caller accepts of the stream that answers it, and what the server writes for the stream it reads.\<close>

definition verify_remote_hello :: "bytes \<Rightarrow> bytes \<Rightarrow> (bytes \<times> bytes) res" where
  "verify_remote_hello nonce answer =
     (if nonce = replicate RemoteHelloNonceBytes (CHR 0x00) then Inl (ErrMsg ''rpc: remote hello nonce is zero'')
      else andthen (hello_frame nonce) (\<lambda>sent.
        andthen (read_hello answer) (\<lambda>(echo, rest).
          if echo \<noteq> nonce then Inl (ErrMsg ''rpc: remote hello nonce mismatch'') else Inr (sent, rest))))"

definition serve_remote_hello :: "bytes \<Rightarrow> (bytes \<times> bytes) res" where
  "serve_remote_hello input = andthen (read_hello input) (\<lambda>(nonce, rest). andthen (hello_frame nonce) (\<lambda>out. Inr (out, rest)))"

subsection \<open>Facts are canonical\<close>

definition ip_char :: "char \<Rightarrow> bool" where
  "ip_char c \<longleftrightarrow> hex_val c \<noteq> None \<or> c = CHR ''.'' \<or> c = CHR '':''"

lemma digit_ip_char: "is_digit c \<Longrightarrow> ip_char c"
  by (simp add: ip_char_def is_digit_def hex_val_def Let_def)

lemma v4_fields_chars: "v4_fields s v n acc = Some f \<Longrightarrow> c \<in> set s \<Longrightarrow> ip_char c"
proof (induction s v n acc rule: v4_fields.induct)
  case (2 d cs v n acc)
  then show ?case using digit_ip_char by (auto simp: Let_def ip_char_def split: if_splits)
qed simp

lemma scan_group_chars: "scan_group off acc s = Some (o', a', r) \<Longrightarrow> c \<in> set s \<Longrightarrow> ip_char c \<or> c \<in> set r"
  by (induction off acc s rule: scan_group.induct) (auto simp: ip_char_def split: option.splits if_splits)

lemma v6_groups_chars: "v6_groups n ip ell s = Some (ip', ell', r) \<Longrightarrow> c \<in> set s \<Longrightarrow> ip_char c \<or> c \<in> set r"
proof (induction n ip ell s rule: v6_groups.induct)
  case (2 n ip ell s)
  then obtain off acc rest where g: "scan_group 0 0 s = Some (off, acc, rest)" by (auto split: option.splits)
  consider (group) "ip_char c" | (later) "c \<in> set rest" using scan_group_chars [OF g 2(4)] by blast
  then show ?case
  proof cases
    case later
    show ?thesis
    proof (cases "rest \<noteq> [] \<and> hd rest = CHR ''.''")
      case True
      with 2(3) g obtain f where "v4_fields s 0 0 [] = Some f" by (auto split: if_splits)
      then have "ip_char c" using v4_fields_chars 2(4) by blast
      then show ?thesis ..
    next
      case False
      with later obtain d ds where r: "rest = d # ds" by (cases rest) auto
      have colon: "ip_char (CHR '':'')" by (simp add: ip_char_def)
      from False r 2(3) g have d: "d = CHR '':''" "off \<noteq> 0" by (auto simp: Let_def split: if_splits)
      show ?thesis
      proof (cases "c = CHR '':''")
        case True
        with colon show ?thesis by simp
      next
        case nc: False
        with later r d have c: "c \<in> set ds" by simp
        then obtain e es where e: "ds = e # es" by (cases ds) auto
        show ?thesis
        proof (cases "e = CHR '':''")
          case True
          with nc c e have "c \<in> set es" by simp
          moreover from this have "es \<noteq> []" by auto
          ultimately show ?thesis using 2(3) g r d e True "2.IH"(1) [OF g refl refl d(2)] by (auto simp: Let_def split: if_splits)
        next
          case False
          then show ?thesis using 2(3) g r d e c "2.IH"(2) [OF g refl refl d(2)] by (auto simp: Let_def split: if_splits)
        qed
      qed
    qed
  qed simp
qed simp

lemma is_ip_chars:
  assumes "is_ip s" and "c \<in> set s"
  shows "ip_char c"
proof -
  from assms(1) obtain a where a: "parse_addr s = Some a" "case a of V4 _ \<Rightarrow> True | V6 _ z \<Rightarrow> z = []"
    by (auto simp: is_ip_def split: option.splits addr.splits)
  then obtain d where "find (\<lambda>c. c = CHR ''.'' \<or> c = CHR '':'' \<or> c = CHR ''%'') s = Some d" by (auto simp: parse_addr_def split: option.splits)
  with a consider (four) f where "v4_fields s 0 0 [] = Some f" | (six) "parse_ipv6 s = Some a" by (auto simp: parse_addr_def split: if_splits)
  then show ?thesis
  proof cases
    case four
    with assms(2) show ?thesis by (rule v4_fields_chars [rotated])
  next
    case six
    obtain s0 zone zoned where q: "cut_at (CHR ''%'') s = (s0, zone, zoned)" by (cases "cut_at (CHR ''%'') s") auto
    from six a(2) q have z: "zone = [] \<and> \<not> zoned" by (auto simp: parse_ipv6_def Let_def split: option.splits if_splits)
    with q have s0: "s0 = s" by (auto simp: cut_absent)
    let ?lead = "take 2 s = ''::''"
    define s2 where "s2 = (if ?lead then drop 2 s else s)"
    have c: "ip_char c \<or> c \<in> set s2"
    proof (cases ?lead)
      case True
      have "c \<in> set (take 2 s) \<or> c \<in> set (drop 2 s)" using assms(2) by (metis Un_iff append_take_drop_id set_append)
      with True show ?thesis by (auto simp: ip_char_def s2_def)
    qed (use assms(2) in \<open>simp add: s2_def\<close>)
    show ?thesis
    proof (cases "?lead \<and> s2 = []")
      case True
      with c show ?thesis by simp
    next
      case False
      with six q s0 z obtain ip ell where "v6_groups 8 [] (if ?lead then Some 0 else None) s2 = Some (ip, ell, [])"
        by (auto simp: parse_ipv6_def s2_def [symmetric] Let_def split: option.splits if_splits)
      from v6_groups_chars [OF this] c show ?thesis by auto
    qed
  qed
qed

lemma trim_brackets_chars: "c \<in> set s \<Longrightarrow> c \<in> set (trim_brackets s) \<or> c = CHR ''['' \<or> c = CHR '']''"
proof -
  let ?b = "\<lambda>c. c = CHR ''['' \<or> c = CHR '']''"
  have d: "x \<in> set xs \<Longrightarrow> x \<in> set (dropWhile ?b xs) \<or> ?b x" for x xs by (induction xs) auto
  assume "c \<in> set s"
  then have "c \<in> set (dropWhile ?b s) \<or> ?b c" by (rule d)
  then have "c \<in> set (dropWhile ?b (rev (dropWhile ?b s))) \<or> ?b c" using d [of c "rev (dropWhile ?b s)"] by auto
  then show ?thesis by (simp add: trim_brackets_def Let_def)
qed

lemma no_at: "\<not> ip_char (CHR ''@'')" "\<not> ascii_alnum (CHR ''@'')"
  by (simp_all add: ip_char_def hex_val_def ascii_alnum_def)

lemma valid_ssh_host_at:
  assumes "valid_ssh_host v"
  shows "CHR ''@'' \<notin> set v"
proof (cases "is_ip (trim_brackets v)")
  case True
  then have "CHR ''@'' \<notin> set (trim_brackets v)" using is_ip_chars no_at(1) by blast
  then show ?thesis using trim_brackets_chars [of "CHR ''@''" v] by auto
next
  case False
  with assms have "list_all (\<lambda>c. ascii_alnum c \<or> c = CHR ''.'' \<or> c = CHR ''-'') v" by (simp add: valid_ssh_host_def)
  then show ?thesis using no_at(2) by (auto simp: list_all_iff)
qed

lemma plain_addressD: "plain_address user a = Inr x \<Longrightarrow> valid_ssh_host x"
  by (auto simp: plain_address_def Let_def split: prod.splits if_splits)

lemma plain_address_plain: "valid_ssh_host a \<Longrightarrow> plain_address user a = Inr a"
  using valid_ssh_host_at [of a] cut_absent [of "CHR ''@''" a a "[]"] by (simp add: plain_address_def)

lemma keep_addresses_kept:
  "keep_addresses user as seen = Inr kept \<Longrightarrow> distinct seen \<Longrightarrow> list_all valid_ssh_host seen \<Longrightarrow>
   distinct kept \<and> list_all valid_ssh_host kept \<and> set seen \<subseteq> set kept"
proof (induction as arbitrary: seen)
  case (Cons a as)
  then obtain x where x: "plain_address user a = Inr x" "keep_addresses user as (if x \<in> set seen then seen else seen @ [x]) = Inr kept"
    by (auto simp: andthen_Inr_iff)
  from Cons.IH [OF x(2)] Cons.prems(2,3) plain_addressD [OF x(1)] show ?case by (cases "x \<in> set seen") auto
qed simp

lemma keep_addresses_again: "list_all valid_ssh_host as \<Longrightarrow> distinct (seen @ as) \<Longrightarrow> keep_addresses user (as @ bs) seen = keep_addresses user bs (seen @ as)"
  by (induction as arbitrary: seen) (auto simp: plain_address_plain)

lemma keep_addresses_last: "keep_addresses user (as @ [a]) seen = Inr kept \<Longrightarrow> valid_ssh_host a \<Longrightarrow> a \<in> set kept"
  by (induction as arbitrary: seen) (auto simp: andthen_Inr_iff plain_address_plain split: if_splits)

lemma host_facts:
  assumes "new_host_fact identity path addresses = Inr f"
  shows "canonical_fact f" and "hf_identity f = identity" and "identity = hf_user f @ CHR ''@'' # hf_alias f" and "hf_alias f \<in> set (hf_addresses f)"
    and "valid_ssh_user (hf_user f)" and "distinct (hf_addresses f)" and "\<And>a. a \<in> set (hf_addresses f) \<Longrightarrow> valid_ssh_host a"
proof -
  obtain user host kept where s: "split_identity identity = Inr (user, host)" and p: "exact_remote_path path"
    and k: "keep_addresses user (addresses @ [host]) [] = Inr kept"
    and f: "f = \<lparr>hf_identity = identity, hf_user = user, hf_alias = host, hf_addresses = kept, hf_path = path\<rparr>"
    using assms by (auto simp: new_host_fact_def andthen_Inr_iff split: prod.splits if_splits)
  have h: "valid_ssh_host host" "cut_at (CHR ''@'') identity = (user, host, True)"
    using s by (auto simp: split_identity_def split: prod.splits if_splits)
  have i: "identity = user @ CHR ''@'' # host" using cut_found [OF h(2)] by simp
  have d: "distinct kept" "list_all valid_ssh_host kept" using keep_addresses_kept [OF k] by simp_all
  have a: "host \<in> set kept" using keep_addresses_last [OF k h(1)] .
  have "keep_addresses user (kept @ [host]) [] = Inr kept"
    using keep_addresses_again [OF d(2), of "[]" user "[host]"] d(1) a h(1) by (simp add: plain_address_plain)
  then have "canonical_fact f" using s p f by (simp add: canonical_fact_def new_host_fact_def)
  then show "canonical_fact f" .
  show "hf_identity f = identity" "identity = hf_user f @ CHR ''@'' # hf_alias f" "hf_alias f \<in> set (hf_addresses f)" "distinct (hf_addresses f)"
    using f i a d by simp_all
  show "valid_ssh_user (hf_user f)" using s f by (auto simp: split_identity_def split: prod.splits if_splits)
  show "valid_ssh_host a" if "a \<in> set (hf_addresses f)" for a using that f d by (simp add: list_all_iff)
qed

text \<open>A fact that validates is canonical: validating its own fields gives it back; its identity is its user and its
  alias, its addresses are distinct, bare and valid, and the alias is one of them.\<close>

theorem host_fact_canonical:
  assumes "new_host_fact identity path addresses = Inr f"
  shows "canonical_fact f \<and> hf_identity f = identity \<and> identity = hf_user f @ CHR ''@'' # hf_alias f \<and> hf_alias f \<in> set (hf_addresses f) \<and>
    distinct (hf_addresses f) \<and> (\<forall>a \<in> set (hf_addresses f). valid_ssh_host a \<and> CHR ''@'' \<notin> set a)"
  using host_facts [OF assms] valid_ssh_host_at by blast

subsection \<open>The command line is three words\<close>

lemma shell_split_quoted:
  "shell_split True (Some w) (concat (map (\<lambda>c. if c = CHR 0x27 then [CHR 0x27, CHR 0x5C, CHR 0x27, CHR 0x27] else [c]) v) @ CHR 0x27 # rest)
   = shell_split False (Some (w @ v)) rest"
  by (induction v arbitrary: w) simp_all

lemma shell_split_word: "shell_split False None (shell_word v @ rest) = shell_split False (Some v) rest"
  using shell_split_quoted [of "[]" v rest] by (simp add: shell_word_def)

lemma remote_words:
  assumes "remote_serve_command_line executable service = Inr line"
  shows "shell_split False None line = Some [executable, ''rpc-serve-v1'', service]"
proof -
  have l: "line = shell_word executable @ '' '' @ shell_word RemoteServeCommand @ '' '' @ shell_word service"
    using assms by (auto simp: remote_serve_command_line_def andthen_Inr_iff split: if_splits)
  have last: "shell_split False None (shell_word service) = Some [service]" using shell_split_word [of service "[]"] by simp
  show ?thesis by (simp add: l shell_split_word last RemoteServeCommand_def)
qed

text \<open>Whatever bytes the executable's path has, a shell splits the remote command line into exactly the path, the fixed
  command and the service.\<close>

theorem remote_command_words:
  assumes "remote_serve_command_line executable service = Inr line"
  shows "shell_split False None line = Some [executable, ''rpc-serve-v1'', service]"
  using assms by (rule remote_words)

subsection \<open>The trust file\<close>

lemma split_at_join: "ps \<noteq> [] \<Longrightarrow> \<forall>p \<in> set ps. c \<notin> set p \<Longrightarrow> split_at c (join_with c ps) = ps"
proof (induction c ps rule: join_with.induct)
  case (2 c p)
  then show ?case by (induction p) auto
next
  case (3 c p q ps)
  have s: "c \<notin> set p \<Longrightarrow> split_at c (p @ c # r) = p # split_at c r" for r
    by (induction p) (auto split: list.splits)
  from 3 show ?case by (simp add: s)
qed simp

definition plain_part :: "string \<Rightarrow> bool" where
  "plain_part p \<longleftrightarrow> p \<noteq> [] \<and> p \<noteq> ''.'' \<and> p \<noteq> ''..'' \<and> CHR ''/'' \<notin> set p"

lemma clean_parts: "\<forall>p \<in> set ps. CHR ''/'' \<notin> set p \<Longrightarrow> \<forall>p \<in> set out. plain_part p \<Longrightarrow> \<forall>p \<in> set (foldl (clean_step True) out ps). plain_part p"
proof (induction ps arbitrary: out)
  case (Cons p ps)
  have "\<forall>q \<in> set (clean_step True out p). plain_part q"
    using Cons.prems by (auto simp: clean_step_def plain_part_def dest: in_set_butlastD split: if_splits)
  with Cons show ?case by simp
qed simp

lemma clean_plain: "\<forall>p \<in> set ps. plain_part p \<Longrightarrow> foldl (clean_step True) out ps = out @ ps"
  by (induction ps arbitrary: out) (auto simp: clean_step_def plain_part_def)

lemma clean_rooted:
  assumes "\<forall>p \<in> set ps. plain_part p"
  shows "clean_path (CHR ''/'' # join_with (CHR ''/'') ps) = CHR ''/'' # join_with (CHR ''/'') ps"
proof -
  have "foldl (clean_step True) [] (split_at (CHR ''/'') (CHR ''/'' # join_with (CHR ''/'') ps)) = ps"
  proof (cases ps)
    case (Cons p qs)
    with assms have "split_at (CHR ''/'') (join_with (CHR ''/'') ps) = ps" by (intro split_at_join) (auto simp: plain_part_def)
    then have "split_at (CHR ''/'') (CHR ''/'' # join_with (CHR ''/'') ps) = [] # ps" by (cases ps) (auto simp: Cons)
    with clean_plain [OF assms, of "[]"] show ?thesis by (simp add: clean_step_def)
  qed (simp add: clean_step_def)
  then show ?thesis by (simp add: clean_path_def is_abs_def Let_def)
qed

text \<open>An exact absolute path other than the root is the join of plain parts.\<close>

lemma exact_path_parts:
  assumes "known_hosts_exact path"
  obtains ps where "ps \<noteq> []" and "\<forall>p \<in> set ps. plain_part p" and "path = CHR ''/'' # join_with (CHR ''/'') ps"
proof -
  let ?ps = "foldl (clean_step True) [] (split_at (CHR ''/'') path)"
  have p: "path = CHR ''/'' # join_with (CHR ''/'') ?ps"
    using assms by (auto simp: known_hosts_exact_def clean_path_def Let_def)
  moreover have "\<forall>p \<in> set ?ps. plain_part p" using clean_parts [of "split_at (CHR ''/'') path" "[]"] split_at_parts by auto
  moreover have "?ps \<noteq> []"
  proof
    assume "?ps = []"
    with p have "path = ''/''" by simp
    with assms show False by (simp add: known_hosts_exact_def)
  qed
  ultimately show ?thesis using that by blast
qed

lemma join_path_part:
  assumes "\<forall>p \<in> set ps. plain_part p" and "plain_part p"
  shows "join_path (CHR ''/'' # join_with (CHR ''/'') ps) p = CHR ''/'' # join_with (CHR ''/'') (ps @ [p])"
proof (cases "ps = []")
  case True
  have "split_at (CHR ''/'') (CHR ''/'' # CHR ''/'' # p) = [[], [], p]"
    using assms(2) split_at_join [of "[p]" "CHR ''/''"] by (auto simp: plain_part_def)
  then have "foldl (clean_step True) [] (split_at (CHR ''/'') (CHR ''/'' # CHR ''/'' # p)) = [p]"
    using assms(2) by (simp add: clean_step_def plain_part_def)
  with True show ?thesis by (simp add: join_path_def clean_path_def is_abs_def Let_def)
next
  case False
  then have "join_with (CHR ''/'') (ps @ [p]) = join_with (CHR ''/'') ps @ CHR ''/'' # p"
  proof (induction "CHR ''/''" ps rule: join_with.induct)
    case (3 q r ps)
    then show ?case by simp
  qed auto
  moreover have "clean_path (CHR ''/'' # join_with (CHR ''/'') (ps @ [p])) = CHR ''/'' # join_with (CHR ''/'') (ps @ [p])"
    using assms by (intro clean_rooted) auto
  ultimately show ?thesis by (simp add: join_path_def)
qed

lemma join_longer: "ps \<noteq> [] \<Longrightarrow> qs \<noteq> [] \<Longrightarrow> length (join_with c ps) < length (join_with c (ps @ qs))"
proof (induction c ps rule: join_with.induct)
  case (2 c p)
  then show ?case by (cases qs) auto
qed auto

lemma known_hosts_walk_ok:
  assumes "known_hosts_walk lstat (CHR ''/'' # join_with (CHR ''/'') (ps @ qs)) (CHR ''/'' # join_with (CHR ''/'') ps) qs = Inr ()"
    and "\<forall>p \<in> set (ps @ qs). plain_part p" and "qs \<noteq> []"
  shows "lstat (CHR ''/'' # join_with (CHR ''/'') (ps @ qs)) = Inr (Regular 0x180) \<and>
    (\<forall>n. length ps < n \<and> n < length (ps @ qs) \<longrightarrow> lstat (CHR ''/'' # join_with (CHR ''/'') (take n (ps @ qs))) = Inr Directory)"
  using assms
proof (induction qs arbitrary: ps)
  case (Cons q qs)
  have c: "join_path (CHR ''/'' # join_with (CHR ''/'') ps) q = CHR ''/'' # join_with (CHR ''/'') (ps @ [q])"
    using Cons.prems(2) by (intro join_path_part) auto
  show ?case
  proof (cases "qs = []")
    case True
    with Cons.prems(1) c show ?thesis by (auto simp: andthen_Inr_iff Let_def split: if_splits)
  next
    case False
    have "length (join_with (CHR ''/'') (ps @ [q])) < length (join_with (CHR ''/'') ((ps @ [q]) @ qs))" using False by (intro join_longer) auto
    then have ne: "join_with (CHR ''/'') (ps @ [q]) \<noteq> join_with (CHR ''/'') (ps @ q # qs)" by auto
    from Cons.prems(1) c ne have d: "lstat (CHR ''/'' # join_with (CHR ''/'') (ps @ [q])) = Inr Directory"
      and w: "known_hosts_walk lstat (CHR ''/'' # join_with (CHR ''/'') ((ps @ [q]) @ qs)) (CHR ''/'' # join_with (CHR ''/'') (ps @ [q])) qs = Inr ()"
      by (auto simp: andthen_Inr_iff Let_def split: if_splits)
    from Cons.IH [OF w _ False] Cons.prems(2) have ih: "lstat (CHR ''/'' # join_with (CHR ''/'') (ps @ q # qs)) = Inr (Regular 0x180)"
      "\<And>n. Suc (length ps) < n \<Longrightarrow> n < length (ps @ q # qs) \<Longrightarrow> lstat (CHR ''/'' # join_with (CHR ''/'') (take n (ps @ q # qs))) = Inr Directory"
      by auto
    have "lstat (CHR ''/'' # join_with (CHR ''/'') (take n (ps @ q # qs))) = Inr Directory" if "length ps < n" "n < length (ps @ q # qs)" for n
    proof (cases "n = Suc (length ps)")
      case True
      with d show ?thesis by simp
    next
      case False
      with that ih(2) show ?thesis by simp
    qed
    with ih(1) show ?thesis by simp
  qed
qed simp

text \<open>The trust file of an accepted path is regular and private, and each directory above it is one, not a link.\<close>

lemma known_hosts_private:
  assumes "validate_known_hosts lstat path = Inr ()"
  obtains ps where "ps \<noteq> []" and "path = CHR ''/'' # join_with (CHR ''/'') ps" and "lstat path = Inr (Regular 0x180)"
    and "\<forall>n. 0 < n \<and> n < length ps \<longrightarrow> lstat (CHR ''/'' # join_with (CHR ''/'') (take n ps)) = Inr Directory"
proof -
  have e: "known_hosts_exact path" using assms by (auto simp: validate_known_hosts_def split: if_splits)
  then obtain ps where ps: "ps \<noteq> []" "\<forall>p \<in> set ps. plain_part p" "path = CHR ''/'' # join_with (CHR ''/'') ps" by (rule exact_path_parts)
  have "split_at (CHR ''/'') (tl path) = ps" using ps by (auto simp: plain_part_def intro: split_at_join)
  with assms e have "known_hosts_walk lstat path ''/'' ps = Inr ()"
    by (auto simp: validate_known_hosts_def known_hosts_exact_def)
  with known_hosts_walk_ok [of lstat "[]" ps] ps show ?thesis using that by auto
qed

text \<open>C10. A sealed invocation runs ssh with the fixed options alone on an address of the canonical fact: neither the user
  nor the address can be read as an option, the trust file is private, and the command is the three
  words of the fact's service.\<close>

theorem ssh_argv_sealed:
  assumes "remote_ssh_argv lstat f address known_hosts service = Inr argv"
  shows "\<exists>command. argv = [''/usr/bin/ssh'', ''-F'', ''/dev/null'', ''-T''] @
      concat (map (\<lambda>v. [''-o'', v]) (option_values known_hosts (hf_alias f))) @ [''-l'', hf_user f, address, command] \<and>
    canonical_fact f \<and> address \<in> set (hf_addresses f) \<and>
    hf_user f \<noteq> [] \<and> hd (hf_user f) \<noteq> CHR ''-'' \<and> address \<noteq> [] \<and> hd address \<noteq> CHR ''-'' \<and>
    lstat known_hosts = Inr (Regular 0x180) \<and>
    shell_split False None command = Some [hf_path f, ''rpc-serve-v1'', service]"
proof -
  obtain command where n: "new_host_fact (hf_identity f) (hf_path f) (hf_addresses f) = Inr f" and a: "address \<in> set (hf_addresses f)"
    and k: "validate_known_hosts lstat known_hosts = Inr ()" and c: "remote_serve_command_line (hf_path f) service = Inr command"
    and v: "argv = [''/usr/bin/ssh'', ''-F'', ''/dev/null'', ''-T''] @
      concat (map (\<lambda>v. [''-o'', v]) (option_values known_hosts (hf_alias f))) @ [''-l'', hf_user f, address, command]"
    using assms by (auto simp: remote_ssh_argv_def andthen_Inr_iff simp del: append_Cons split: if_splits)
  have h: "valid_ssh_user (hf_user f)" "valid_ssh_host address" "canonical_fact f" using host_facts [OF n] a by blast+
  show ?thesis using v a h remote_words [OF c] known_hosts_private [OF k]
    by (intro exI [of _ command]) (auto simp: valid_ssh_user_def valid_ssh_host_def)
qed

subsection \<open>The nonce comes back\<close>

lemma be32_frame:
  assumes "length b = 4" and "be32 b = 32"
  shows "b = [CHR 0x00, CHR 0x00, CHR 0x00, CHR 0x20]"
proof -
  obtain w x y z where b: "b = [w, x, y, z]" using assms(1) by (auto simp: length_Suc_conv numeral_eq_Suc)
  let ?n = "of_char :: char \<Rightarrow> nat"
  have "((?n w * 256 + ?n x) * 256 + ?n y) * 256 + ?n z = 32" using assms(2) by (simp add: b be32_def)
  then have s: "?n w * 16777216 + ?n x * 65536 + ?n y * 256 + ?n z = 32" by (simp add: algebra_simps)
  have "?n z < 256" by (rule of_char_less)
  then have "?n w = 0" using s by linarith
  moreover from this have "?n x = 0" using s \<open>?n z < 256\<close> by linarith
  moreover from calculation have "?n y = 0" using s \<open>?n z < 256\<close> by linarith
  moreover from calculation have "?n z = 32" using s by linarith
  ultimately have "?n w = 0" "?n x = 0" "?n y = 0" "?n z = 32" by simp_all
  moreover have "c = char_of (?n c)" for c by simp
  ultimately have "w = char_of (0 :: nat)" "x = char_of (0 :: nat)" "y = char_of (0 :: nat)" "z = char_of (32 :: nat)" by metis+
  then show ?thesis by (simp add: b char_of_def bit_simps)
qed

lemma be32_header: "be32 [CHR 0x00, CHR 0x00, CHR 0x00, CHR 0x20] = 32"
  by (simp add: be32_def)

lemma read_hello_iff:
  "read_hello s = Inr (nonce, rest) \<longleftrightarrow> length nonce = 32 \<and> s = [CHR 0x00, CHR 0x00, CHR 0x00, CHR 0x20] @ nonce @ rest"
proof
  assume r: "read_hello s = Inr (nonce, rest)"
  then have "length s \<ge> 36" "be32 (take 4 s) = 32" and n: "nonce = take 32 (drop 4 s)" "rest = drop 32 (drop 4 s)"
    by (auto simp: read_hello_def RemoteHelloNonceBytes_def split: if_splits)
  then have "take 4 s = [CHR 0x00, CHR 0x00, CHR 0x00, CHR 0x20]" by (intro be32_frame) auto
  moreover have "s = take 4 s @ nonce @ rest" unfolding n by (simp only: append_take_drop_id)
  ultimately show "length nonce = 32 \<and> s = [CHR 0x00, CHR 0x00, CHR 0x00, CHR 0x20] @ nonce @ rest" using \<open>length s \<ge> 36\<close> n by auto
next
  assume "length nonce = 32 \<and> s = [CHR 0x00, CHR 0x00, CHR 0x00, CHR 0x20] @ nonce @ rest"
  then show "read_hello s = Inr (nonce, rest)"
    by (auto simp: read_hello_def RemoteHelloNonceBytes_def be32_header)
qed

text \<open>The caller accepts a stream exactly when it begins with the frame the server writes for this caller's nonce:
  the wire traffic that follows is what is left on either side.\<close>

theorem hello_exact_echo:
  "verify_remote_hello nonce answer = Inr (sent, rest) \<longleftrightarrow>
   nonce \<noteq> replicate 32 (CHR 0x00) \<and> (\<exists>out. serve_remote_hello (sent @ later) = Inr (out, later) \<and> out = sent \<and> hello_frame nonce = Inr sent \<and> answer = out @ rest)"
proof -
  have f: "hello_frame nonce = Inr sent \<longleftrightarrow> length nonce = 32 \<and> sent = [CHR 0x00, CHR 0x00, CHR 0x00, CHR 0x20] @ nonce"
    by (auto simp: hello_frame_def RemoteHelloNonceBytes_def)
  have v: "verify_remote_hello nonce answer = Inr (sent, rest) \<longleftrightarrow> nonce \<noteq> replicate 32 (CHR 0x00) \<and> hello_frame nonce = Inr sent \<and> read_hello answer = Inr (nonce, rest)"
    by (auto simp: verify_remote_hello_def RemoteHelloNonceBytes_def andthen_Inr_iff split: prod.splits if_splits)
  have s: "hello_frame nonce = Inr sent \<Longrightarrow> serve_remote_hello (sent @ later) = Inr (sent, later)"
    using read_hello_iff [of "sent @ later" nonce later] f by (auto simp: serve_remote_hello_def)
  show ?thesis
  proof
    assume "verify_remote_hello nonce answer = Inr (sent, rest)"
    then have a: "nonce \<noteq> replicate 32 (CHR 0x00)" "hello_frame nonce = Inr sent" "read_hello answer = Inr (nonce, rest)" by (auto simp: v)
    then have "answer = sent @ rest" using f read_hello_iff by auto
    with a s show "nonce \<noteq> replicate 32 (CHR 0x00) \<and> (\<exists>out. serve_remote_hello (sent @ later) = Inr (out, later) \<and> out = sent \<and> hello_frame nonce = Inr sent \<and> answer = out @ rest)"
      by auto
  next
    assume "nonce \<noteq> replicate 32 (CHR 0x00) \<and> (\<exists>out. serve_remote_hello (sent @ later) = Inr (out, later) \<and> out = sent \<and> hello_frame nonce = Inr sent \<and> answer = out @ rest)"
    then have a: "nonce \<noteq> replicate 32 (CHR 0x00)" "hello_frame nonce = Inr sent" "answer = sent @ rest" by auto
    then have "read_hello answer = Inr (nonce, rest)" using f read_hello_iff [of answer nonce rest] by auto
    with a v show "verify_remote_hello nonce answer = Inr (sent, rest)" by blast
  qed
qed

subsection \<open>Instances\<close>

definition sample_fact :: host_fact where
  "sample_fact = \<lparr>hf_identity = ''me@box.ts'', hf_user = ''me'', hf_alias = ''box.ts'', hf_addresses = [''10.0.0.5'', ''box.local'', ''box.ts''], hf_path = ''/opt/s''\<rparr>"

lemma sample_user_host:
  "valid_ssh_user ''me''" "valid_ssh_host ''10.0.0.5''" "valid_ssh_host ''box.local''" "valid_ssh_host ''box.ts''"
  by (simp_all add: valid_ssh_user_def valid_ssh_host_def ascii_alnum_def)

lemma sample_path: "exact_remote_path ''/opt/s''"
proof -
  have "clean_path ''/opt/s'' = ''/opt/s''" by code_simp
  then show ?thesis by (simp add: exact_remote_path_def is_abs_def)
qed

lemma sample_new: "new_host_fact ''me@box.ts'' ''/opt/s'' [''10.0.0.5'', ''me@box.local'', ''box.ts''] = Inr sample_fact"
  by (simp add: new_host_fact_def split_identity_def cut_at_def plain_address_def sample_user_host sample_path sample_fact_def)

theorem host_fact_canonical_witness: "canonical_fact sample_fact \<and> distinct (hf_addresses sample_fact)"
  using host_fact_canonical [OF sample_new] by blast

lemma sample_command:
  "remote_serve_command_line ''/opt/s'' ''reposync'' = Inr (shell_word ''/opt/s'' @ '' '' @ shell_word RemoteServeCommand @ '' '' @ shell_word ''reposync'')"
  by (simp add: remote_serve_command_line_def sample_path validate_name_def name_char_def)

theorem remote_command_words_witness:
  "shell_split False None (shell_word ''/opt/s'' @ '' '' @ shell_word RemoteServeCommand @ '' '' @ shell_word ''reposync'') = Some [''/opt/s'', ''rpc-serve-v1'', ''reposync'']"
  by (rule remote_command_words [OF sample_command])

definition sample_lstat :: "string \<Rightarrow> file_kind res" where
  "sample_lstat p = (if p = ''/s/k'' then Inr (Regular 0x180) else if p = ''/s'' then Inr Directory else Inl ErrNotExist)"

theorem ssh_argv_sealed_witness:
  "\<exists>argv. remote_ssh_argv sample_lstat sample_fact ''box.local'' ''/s/k'' ''reposync'' = Inr argv \<and> sample_lstat ''/s/k'' = Inr (Regular 0x180) \<and>
     (\<exists>command. shell_split False None command = Some [''/opt/s'', ''rpc-serve-v1'', ''reposync''] \<and> last argv = command)"
proof -
  have c: "canonical_fact sample_fact" using host_facts(1) [OF sample_new] .
  have k: "clean_path ''/s/k'' = ''/s/k''" "join_path ''/'' ''s'' = ''/s''" "join_path ''/s'' ''k'' = ''/s/k''" by code_simp+
  then have "validate_known_hosts sample_lstat ''/s/k'' = Inr ()"
    by (simp add: validate_known_hosts_def known_hosts_exact_def is_abs_def sample_lstat_def)
  with c sample_command obtain argv where a: "remote_ssh_argv sample_lstat sample_fact ''box.local'' ''/s/k'' ''reposync'' = Inr argv"
    by (simp add: remote_ssh_argv_def canonical_fact_def) (simp add: sample_fact_def)
  from ssh_argv_sealed [OF a] a show ?thesis by (auto simp: sample_fact_def)
qed

end
