(* ===== verification/Host_State.thy ===== *)
theory Host_State
  imports Ssh_Contract Go_Json Go_Sha256 Effects
begin

text \<open>
  The exact state file of a tool and the host registry in it (\<^verbatim>\<open>src/hostregistry/state.go\<close>, \<^verbatim>\<open>registry.go\<close>,
  \<^verbatim>\<open>store.go\<close>): the whole-file contract, the strict decoder, and the operations under the reconcile lock.

  A product payload is kept as its JSON value: \<^verbatim>\<open>json.Marshal\<close> compacts the raw message the code keeps. The contract's
  check of a payload is a function of the value. A Go \<^verbatim>\<open>nil\<close> list of hosts is \<open>None\<close>.
\<close>

subsection \<open>The contract\<close>

definition StateSchemaVersion :: int where "StateSchemaVersion = 1"

record state_contract =
  sc_identity :: string
  sc_fingerprint :: string
  sc_namespace :: string
  sc_initial :: json
  sc_validate :: "json \<Rightarrow> unit res"

record schema_descriptor =
  sd_identity :: string
  sd_version :: int
  sd_fingerprint :: string

record host_registry_state =
  hr_self :: string
  hr_hosts :: "host_fact list option"

record state_envelope =
  se_schema :: schema_descriptor
  se_host :: host_registry_state
  se_product :: json

definition schema_fingerprint :: "string \<Rightarrow> string \<Rightarrow> string" where
  "schema_fingerprint identity declaration = hex_encode (sha256 (identity @ CHR 0x00 # declaration))"

definition err_schema :: "string \<Rightarrow> goerr" where
  "err_schema what = ErrMsg (''state.json schema mismatch: '' @ what)"

definition validate_contract :: "state_contract \<Rightarrow> unit res" where
  "validate_contract s =
     (if sc_identity s = [] \<or> sc_namespace s = [] \<or> length (sc_fingerprint s) \<noteq> 64 then Inl (err_schema ''incomplete state contract'')
      else if sc_namespace s = ''schema'' \<or> sc_namespace s = ''host_registry'' then Inl (err_schema ''reserved product namespace'')
      else if hex_decode (sc_fingerprint s) = None \<or> \<not> list_all (\<lambda>c. \<not> (65 \<le> (of_char c :: nat) \<and> (of_char c :: nat) \<le> 90)) (sc_fingerprint s)
      then Inl (err_schema ''fingerprint must be lowercase SHA-256'')
      else sc_validate s (sc_initial s))"

fun validate_facts :: "string list \<Rightarrow> host_fact list \<Rightarrow> unit res" where
  "validate_facts seen [] = Inr ()"
| "validate_facts seen (f # fs) = andthen (new_host_fact (hf_identity f) (hf_path f) (hf_addresses f)) (\<lambda>validated.
     if validated \<noteq> f then Inl (ErrMsg ''non-canonical host fact'')
     else if hf_identity f \<in> set seen then Inl (ErrMsg ''hosts contains duplicate'')
     else validate_facts (hf_identity f # seen) fs)"

definition validate_host_registry :: "host_registry_state \<Rightarrow> unit res" where
  "validate_host_registry host = (case hr_hosts host of
     None \<Rightarrow> Inl (ErrMsg ''hosts must be present'')
   | Some facts \<Rightarrow> andthen (if hr_self host = [] then Inr () else andthen (split_identity (hr_self host)) (\<lambda>_. Inr ())) (\<lambda>_. validate_facts [] facts))"

subsection \<open>Strict JSON\<close>

text \<open>No object at any depth has a key twice.\<close>

fun no_duplicate_keys :: "json \<Rightarrow> bool" where
  "no_duplicate_keys (JArr js) \<longleftrightarrow> (\<forall>j \<in> set js. no_duplicate_keys j)"
| "no_duplicate_keys (JObj kvs) \<longleftrightarrow> distinct (map fst kvs) \<and> (\<forall>kv \<in> set kvs. no_duplicate_keys (snd kv))"
| "no_duplicate_keys _ \<longleftrightarrow> True"

text \<open>\<^verbatim>\<open>DecodeExactJSON\<close> up to the target: the one value of the text.\<close>

definition exact_json :: "bytes \<Rightarrow> json res" where
  "exact_json data = (case unmarshal data of
     None \<Rightarrow> Inl (ErrMsg ''invalid or trailing JSON value'')
   | Some j \<Rightarrow> if no_duplicate_keys j then Inr j else Inl (ErrMsg ''duplicate object key''))"

text \<open>The key folding of \<^verbatim>\<open>encoding/json\<close>: ASCII case, the long s and the Kelvin sign.\<close>

fun fold_name :: "string \<Rightarrow> string" where
  "fold_name [] = []"
| "fold_name (c # cs) =
     (if take 2 (c # cs) = [CHR 0xC5, CHR 0xBF] then CHR ''S'' # fold_name (drop 1 cs)
      else if take 3 (c # cs) = [CHR 0xE2, CHR 0x84, CHR 0xAA] then CHR ''K'' # fold_name (drop 2 cs)
      else (let n = of_char c :: nat in if 97 \<le> n \<and> n \<le> 122 then char_of (n - 32) else c) # fold_name cs)"

definition is_field :: "string \<Rightarrow> string \<Rightarrow> bool" where
  "is_field name k \<longleftrightarrow> fold_name k = fold_name name"

definition as_uint :: "json \<Rightarrow> int \<Rightarrow> int option" where
  "as_uint j old = (case j of JNum s \<Rightarrow> (case parse_uint64 s of Inl _ \<Rightarrow> None | Inr n \<Rightarrow> Some (int n)) | JNull \<Rightarrow> Some old | _ \<Rightarrow> None)"

definition set_schema :: "string \<Rightarrow> json \<Rightarrow> schema_descriptor \<Rightarrow> schema_descriptor option" where
  "set_schema k j s =
     (if is_field ''identity'' k then map_option (\<lambda>v. s\<lparr>sd_identity := v\<rparr>) (as_str j (sd_identity s))
      else if is_field ''version'' k then map_option (\<lambda>v. s\<lparr>sd_version := v\<rparr>) (as_uint j (sd_version s))
      else if is_field ''fingerprint'' k then map_option (\<lambda>v. s\<lparr>sd_fingerprint := v\<rparr>) (as_str j (sd_fingerprint s))
      else None)"

definition zero_schema :: schema_descriptor where
  "zero_schema = \<lparr>sd_identity = [], sd_version = 0, sd_fingerprint = []\<rparr>"

definition set_fact :: "string \<Rightarrow> json \<Rightarrow> host_fact \<Rightarrow> host_fact option" where
  "set_fact k j f =
     (if is_field ''identity'' k then map_option (\<lambda>v. f\<lparr>hf_identity := v\<rparr>) (as_str j (hf_identity f))
      else if is_field ''user'' k then map_option (\<lambda>v. f\<lparr>hf_user := v\<rparr>) (as_str j (hf_user f))
      else if is_field ''host_key_alias'' k then map_option (\<lambda>v. f\<lparr>hf_alias := v\<rparr>) (as_str j (hf_alias f))
      else if is_field ''addresses'' k then map_option (\<lambda>v. f\<lparr>hf_addresses := v\<rparr>) (as_list (\<lambda>a. as_str a []) j)
      else if is_field ''synckitd_path'' k then map_option (\<lambda>v. f\<lparr>hf_path := v\<rparr>) (as_str j (hf_path f))
      else None)"

definition zero_fact :: host_fact where
  "zero_fact = \<lparr>hf_identity = [], hf_user = [], hf_alias = [], hf_addresses = [], hf_path = []\<rparr>"

definition as_facts :: "json \<Rightarrow> host_fact list option option" where
  "as_facts j = (case j of JArr js \<Rightarrow> map_option Some (those (map (as_struct set_fact zero_fact) js)) | JNull \<Rightarrow> Some None | _ \<Rightarrow> None)"

definition set_host_registry :: "string \<Rightarrow> json \<Rightarrow> host_registry_state \<Rightarrow> host_registry_state option" where
  "set_host_registry k j h =
     (if is_field ''self'' k then map_option (\<lambda>v. h\<lparr>hr_self := v\<rparr>) (as_str j (hr_self h))
      else if is_field ''hosts'' k then map_option (\<lambda>v. h\<lparr>hr_hosts := v\<rparr>) (as_facts j)
      else None)"

definition zero_host :: host_registry_state where
  "zero_host = \<lparr>hr_self = [], hr_hosts = None\<rparr>"

text \<open>\<^verbatim>\<open>exactObject\<close> on a value already read: an object with exactly the keys.\<close>

definition exact_object :: "string list \<Rightarrow> json \<Rightarrow> (string \<times> json) list res" where
  "exact_object keys j = (case j of
     JObj kvs \<Rightarrow> if length kvs \<noteq> length keys then Inl (ErrMsg ''keys do not exactly match'')
       else if \<forall>k \<in> set keys. map_of kvs k \<noteq> None then Inr kvs else Inl (ErrMsg ''missing key'')
   | JNull \<Rightarrow> Inl (ErrMsg ''keys do not exactly match'')
   | _ \<Rightarrow> Inl (ErrMsg ''not an object''))"

definition member :: "(string \<times> json) list \<Rightarrow> string \<Rightarrow> json" where
  "member kvs k = (case map_of kvs k of None \<Rightarrow> JNull | Some j \<Rightarrow> j)"

definition decode_envelope :: "state_contract \<Rightarrow> bytes \<Rightarrow> state_envelope res" where
  "decode_envelope c data =
     andthen (validate_contract c) (\<lambda>_.
     andthen (exact_json data) (\<lambda>j.
     andthen (exact_object [''schema'', ''host_registry'', sc_namespace c] j) (\<lambda>top.
     case as_struct set_schema zero_schema (member top ''schema'') of
       None \<Rightarrow> Inl (err_schema ''schema'')
     | Some schema \<Rightarrow>
         if sd_identity schema \<noteq> sc_identity c \<or> sd_version schema \<noteq> StateSchemaVersion \<or> sd_fingerprint schema \<noteq> sc_fingerprint c
         then Inl (err_schema ''got another schema'')
         else andthen (exact_object [''self'', ''hosts''] (member top ''host_registry'')) (\<lambda>_.
           case as_struct set_host_registry zero_host (member top ''host_registry'') of
             None \<Rightarrow> Inl (err_schema ''host_registry'')
           | Some host \<Rightarrow> andthen (validate_host_registry host) (\<lambda>_.
               andthen (sc_validate c (member top (sc_namespace c))) (\<lambda>_.
                 Inr \<lparr>se_schema = schema, se_host = host, se_product = member top (sc_namespace c)\<rparr>))))))"

subsection \<open>Writing\<close>

definition schema_json :: "schema_descriptor \<Rightarrow> json" where
  "schema_json s = JObj [(''identity'', JStr (sd_identity s)), (''version'', JNum (dec_int (sd_version s))), (''fingerprint'', JStr (sd_fingerprint s))]"

definition fact_json :: "host_fact \<Rightarrow> json" where
  "fact_json f = JObj [(''identity'', JStr (hf_identity f)), (''user'', JStr (hf_user f)), (''host_key_alias'', JStr (hf_alias f)),
     (''addresses'', JArr (map JStr (hf_addresses f))), (''synckitd_path'', JStr (hf_path f))]"

definition host_json :: "host_registry_state \<Rightarrow> json" where
  "host_json h = JObj [(''self'', JStr (hr_self h)), (''hosts'', case hr_hosts h of None \<Rightarrow> JNull | Some fs \<Rightarrow> JArr (map fact_json fs))]"

text \<open>\<^verbatim>\<open>json.Marshal\<close> writes a map in the order of its keys.\<close>

definition envelope_json :: "state_contract \<Rightarrow> state_envelope \<Rightarrow> json" where
  "envelope_json c env = JObj (sort_key fst [(''schema'', schema_json (se_schema env)), (''host_registry'', host_json (se_host env)), (sc_namespace c, se_product env)])"

definition encode_envelope :: "state_contract \<Rightarrow> state_envelope \<Rightarrow> bytes res" where
  "encode_envelope c env =
     andthen (validate_host_registry (se_host env)) (\<lambda>_.
     andthen (sc_validate c (se_product env)) (\<lambda>_.
       Inr (render (envelope_json c env) @ [CHR 0x0A])))"

subsection \<open>What is written is read back\<close>

lemma unmarshal_line: "json_ok j \<Longrightarrow> unmarshal (render j @ [CHR 0x0A]) = Some j"
  using decode_one_render [of j "[CHR 0x0A]"] by (simp add: unmarshal_def num_end_def skip_ws_def is_ws_def is_digit_def)

lemma field_names [simp]:
  "is_field ''identity'' ''identity''" "is_field ''version'' ''version''" "is_field ''fingerprint'' ''fingerprint''"
  "\<not> is_field ''identity'' ''version''" "\<not> is_field ''identity'' ''fingerprint''" "\<not> is_field ''version'' ''fingerprint''"
  "is_field ''user'' ''user''" "is_field ''host_key_alias'' ''host_key_alias''" "is_field ''addresses'' ''addresses''" "is_field ''synckitd_path'' ''synckitd_path''"
  "\<not> is_field ''identity'' ''user''" "\<not> is_field ''identity'' ''host_key_alias''" "\<not> is_field ''identity'' ''addresses''" "\<not> is_field ''identity'' ''synckitd_path''"
  "\<not> is_field ''user'' ''host_key_alias''" "\<not> is_field ''user'' ''addresses''" "\<not> is_field ''user'' ''synckitd_path''"
  "\<not> is_field ''host_key_alias'' ''addresses''" "\<not> is_field ''host_key_alias'' ''synckitd_path''" "\<not> is_field ''addresses'' ''synckitd_path''"
  "is_field ''self'' ''self''" "is_field ''hosts'' ''hosts''" "\<not> is_field ''self'' ''hosts''"
  by (simp_all add: is_field_def)

lemma as_struct_fact: "as_struct set_fact zero_fact (fact_json f) = Some f"
proof -
  have a: "those (map (\<lambda>a. as_str a []) (map JStr as)) = Some as" for as by (intro those_map_inverse) simp
  show ?thesis by (simp add: fact_json_def set_fact_def zero_fact_def a del: map_map)
qed

lemma as_struct_host: "as_struct set_host_registry zero_host (host_json h) = Some h"
proof -
  have f: "those (map (as_struct set_fact zero_fact) (map fact_json fs)) = Some fs" for fs by (intro those_map_inverse) (simp add: as_struct_fact)
  show ?thesis
    by (cases "hr_hosts h") (simp_all add: host_json_def set_host_registry_def zero_host_def as_facts_def f del: map_map)
qed

lemma as_uint_dec: "n < 2 ^ 64 \<Longrightarrow> as_uint (JNum (dec_int (int n))) old = Some (int n)"
  by (simp add: as_uint_def dec_int_def parse_uint64_dec)

lemma as_struct_schema: "sd_version s = 1 \<Longrightarrow> as_struct set_schema zero_schema (schema_json s) = Some s"
  using as_uint_dec [of 1 0] by (simp add: schema_json_def set_schema_def zero_schema_def)

lemma state_json_ok:
  "json_ok (schema_json s)" "json_ok (host_json h)" "no_duplicate_keys (schema_json s)" "no_duplicate_keys (host_json h)"
  by (auto simp: schema_json_def host_json_def fact_json_def split: option.splits)

lemma distinct_sort_keys: "distinct (map fst kvs) \<Longrightarrow> distinct (map fst (sort_key fst kvs))"
  by (simp add: distinct_map)

lemma map_of_sort_key: "distinct (map fst kvs) \<Longrightarrow> map_of (sort_key fst kvs) = map_of kvs"
proof (rule ext)
  fix k
  assume d: "distinct (map fst kvs)"
  have "map_of (sort_key fst kvs) k = Some y \<longleftrightarrow> map_of kvs k = Some y" for y
    using map_of_eq_Some_iff [OF d] map_of_eq_Some_iff [OF distinct_sort_keys [OF d]] by simp
  then show "map_of (sort_key fst kvs) k = map_of kvs k"
    by (cases "map_of kvs k"; cases "map_of (sort_key fst kvs) k") auto
qed

text \<open>The payloads a contract admits can be written and read back.\<close>

definition plain_products :: "state_contract \<Rightarrow> bool" where
  "plain_products c \<longleftrightarrow> (\<forall>j. sc_validate c j = Inr () \<longrightarrow> json_ok j \<and> no_duplicate_keys j)"

definition own_schema :: "state_contract \<Rightarrow> schema_descriptor" where
  "own_schema c = \<lparr>sd_identity = sc_identity c, sd_version = StateSchemaVersion, sd_fingerprint = sc_fingerprint c\<rparr>"

lemma encoded_decodes:
  assumes "validate_contract c = Inr ()" and "plain_products c" and "se_schema env = own_schema c" and "encode_envelope c env = Inr data"
  shows "decode_envelope c data = Inr env"
proof -
  let ?ns = "sc_namespace c"
  let ?kvs = "[(''schema'', schema_json (se_schema env)), (''host_registry'', host_json (se_host env)), (?ns, se_product env)]"
  have v: "validate_host_registry (se_host env) = Inr ()" "sc_validate c (se_product env) = Inr ()" and d: "data = render (envelope_json c env) @ [CHR 0x0A]"
    using assms(4) by (auto simp: encode_envelope_def andthen_Inr_iff)
  have ns: "?ns \<noteq> ''schema''" "?ns \<noteq> ''host_registry''" using assms(1) by (auto simp: validate_contract_def split: if_splits)
  then have dk: "distinct (map fst ?kvs)" by auto
  have ok: "json_ok (se_product env)" "no_duplicate_keys (se_product env)" using assms(2) v(2) by (auto simp: plain_products_def)
  have "json_ok (envelope_json c env)" using ok state_json_ok by (simp add: envelope_json_def)
  then have u: "unmarshal data = Some (envelope_json c env)" by (simp add: d unmarshal_line)
  have "distinct (map fst (sort_key fst ?kvs))" using dk by (rule distinct_sort_keys)
  then have nd: "no_duplicate_keys (envelope_json c env)" using ok state_json_ok by (simp add: envelope_json_def)
  have m: "map_of (sort_key fst ?kvs) = map_of ?kvs" by (rule map_of_sort_key [OF dk])
  let ?top = "sort_key fst ?kvs"
  have top: "exact_object [''schema'', ''host_registry'', ?ns] (envelope_json c env) = Inr ?top"
    by (simp add: exact_object_def envelope_json_def m del: sort_key_simps)
  have mem: "member ?top ''schema'' = schema_json (se_schema env)" "member ?top ''host_registry'' = host_json (se_host env)" "member ?top ?ns = se_product env"
    using ns by (simp_all add: member_def m)
  have h: "exact_object [''self'', ''hosts''] (host_json (se_host env)) = Inr [(''self'', JStr (hr_self (se_host env))), (''hosts'', case hr_hosts (se_host env) of None \<Rightarrow> JNull | Some fs \<Rightarrow> JArr (map fact_json fs))]"
    by (simp add: exact_object_def host_json_def)
  have s: "as_struct set_schema zero_schema (schema_json (se_schema env)) = Some (se_schema env)"
    by (rule as_struct_schema) (simp add: assms(3) own_schema_def StateSchemaVersion_def)
  show ?thesis
    by (simp only: decode_envelope_def assms(1) exact_json_def u nd top mem h s v as_struct_host andthen_simps option.case if_True if_False)
      (simp add: assms(3) own_schema_def)
qed

end
