(* ===== verification/Host_Registry.thy ===== *)
theory Host_Registry
  imports Host_State
begin

text \<open>
  The operations on a tool's state file (\<^verbatim>\<open>src/hostregistry/state.go\<close>, \<^verbatim>\<open>registry.go\<close>, \<^verbatim>\<open>store.go\<close>) and on the shared mesh
  registry (\<^verbatim>\<open>shared.go\<close>, \<^verbatim>\<open>dial.go\<close>): each locks, reads and decodes the whole file, and replaces it whole.

  The file is its content, \<open>None\<close> when it does not exist. What the lock, the reads and the durable write of the
  daemon library do at each call is an outcome of its environment; the write replaces the file or
  leaves it, and may report a failure after it has replaced it. The callers' functions are arguments.
\<close>

subsection \<open>Files and faults\<close>

datatype write_outcome = Wrote | WroteButFailed string | NotWritten string

record state_env =
  ev_path :: "unit res"
  ev_lock :: "unit res"
  ev_unlock :: "unit res"
  ev_stat :: "goerr option"
  ev_read :: "goerr option"
  ev_write :: write_outcome

type_synonym state_file = "bytes option"

definition ErrStateMissing :: goerr where "ErrStateMissing = ErrMsg ''state.json is missing''"
definition ErrLockBusy :: goerr where "ErrLockBusy = ErrMsg ''reconcile lock busy''"

definition read_envelope :: "state_contract \<Rightarrow> state_env \<Rightarrow> state_file \<Rightarrow> state_envelope res" where
  "read_envelope c ev f = andthen (ev_path ev) (\<lambda>_. case ev_read ev of
     Some e \<Rightarrow> Inl e
   | None \<Rightarrow> (case f of None \<Rightarrow> Inl ErrStateMissing | Some data \<Rightarrow> decode_envelope c data))"

definition write_envelope :: "state_contract \<Rightarrow> state_env \<Rightarrow> state_envelope \<Rightarrow> state_file \<Rightarrow> state_file \<times> unit res" where
  "write_envelope c ev env f = (case encode_envelope c env of
     Inl e \<Rightarrow> (f, Inl e)
   | Inr data \<Rightarrow> (case ev_path ev of
       Inl e \<Rightarrow> (f, Inl e)
     | Inr _ \<Rightarrow> (case ev_write ev of
         Wrote \<Rightarrow> (Some data, Inr ())
       | WroteButFailed e \<Rightarrow> (Some data, Inl (ErrIO e))
       | NotWritten e \<Rightarrow> (f, Inl (ErrIO e)))))"

text \<open>The body runs between the lock and its release, whose failure is reported too.\<close>

definition with_lock :: "state_env \<Rightarrow> (state_file \<Rightarrow> state_file \<times> 'o option \<times> unit res) \<Rightarrow> state_file \<Rightarrow> state_file \<times> 'o option \<times> unit res" where
  "with_lock ev body f = (case ev_path ev of
     Inl e \<Rightarrow> (f, None, Inl e)
   | Inr _ \<Rightarrow> (case ev_lock ev of
       Inl e \<Rightarrow> (f, None, Inl ErrLockBusy)
     | Inr _ \<Rightarrow> (case body f of (f', out, r) \<Rightarrow> (f', out, case r of Inl e \<Rightarrow> Inl e | Inr _ \<Rightarrow> ev_unlock ev))))"

subsection \<open>The whole file\<close>

definition initial_envelope :: "state_contract \<Rightarrow> state_envelope" where
  "initial_envelope c = \<lparr>se_schema = \<lparr>sd_identity = sc_identity c, sd_version = StateSchemaVersion, sd_fingerprint = sc_fingerprint c\<rparr>,
     se_host = \<lparr>hr_self = [], hr_hosts = Some []\<rparr>, se_product = sc_initial c\<rparr>"

definition initialize_body :: "state_contract \<Rightarrow> state_env \<Rightarrow> state_file \<Rightarrow> state_file \<times> unit option \<times> unit res" where
  "initialize_body c ev f = (case ev_path ev of
     Inl e \<Rightarrow> (f, None, Inl e)
   | Inr _ \<Rightarrow> (case ev_stat ev of
       Some e \<Rightarrow> (f, None, Inl e)
     | None \<Rightarrow> (case f of
         Some _ \<Rightarrow> (f, None, andthen (read_envelope c ev f) (\<lambda>_. Inr ()))
       | None \<Rightarrow> (case validate_contract c of
           Inl e \<Rightarrow> (f, None, Inl e)
         | Inr _ \<Rightarrow> (case write_envelope c ev (initial_envelope c) f of (f', r) \<Rightarrow> (f', None, r))))))"

definition initialize_state :: "state_contract \<Rightarrow> state_env \<Rightarrow> state_file \<Rightarrow> state_file \<times> unit option \<times> unit res" where
  "initialize_state c ev = with_lock ev (initialize_body c ev)"

definition load_product :: "state_contract \<Rightarrow> state_env \<Rightarrow> state_file \<Rightarrow> json res" where
  "load_product c ev f = andthen (read_envelope c ev f) (\<lambda>env. Inr (se_product env))"

definition update_product_unlocked :: "state_contract \<Rightarrow> state_env \<Rightarrow> (json \<Rightarrow> json res) \<Rightarrow> state_file \<Rightarrow> state_file \<times> unit option \<times> unit res" where
  "update_product_unlocked c ev fn f = (case read_envelope c ev f of
     Inl e \<Rightarrow> (f, None, Inl e)
   | Inr env \<Rightarrow> (case andthen (fn (se_product env)) (\<lambda>next_product. andthen (sc_validate c next_product) (\<lambda>_. Inr next_product)) of
       Inl e \<Rightarrow> (f, None, Inl e)
     | Inr p \<Rightarrow> (case write_envelope c ev (env\<lparr>se_product := p\<rparr>) f of (f', r) \<Rightarrow> (f', None, r))))"

definition update_product :: "state_contract \<Rightarrow> state_env \<Rightarrow> (json \<Rightarrow> json res) \<Rightarrow> state_file \<Rightarrow> state_file \<times> unit option \<times> unit res" where
  "update_product c ev fn = with_lock ev (update_product_unlocked c ev fn)"

subsection \<open>Hosts\<close>

record registry_view =
  rv_self :: string
  rv_hosts :: "string list"

definition facts_of :: "state_envelope \<Rightarrow> host_fact list" where
  "facts_of env = (case hr_hosts (se_host env) of None \<Rightarrow> [] | Some fs \<Rightarrow> fs)"

definition view_of :: "state_envelope \<Rightarrow> registry_view" where
  "view_of env = \<lparr>rv_self = hr_self (se_host env), rv_hosts = map hf_identity (facts_of env)\<rparr>"

fun replace_fact :: "host_fact \<Rightarrow> host_fact list \<Rightarrow> host_fact list option" where
  "replace_fact x [] = None"
| "replace_fact x (y # ys) = (if hf_identity y = hf_identity x then Some (x # ys) else map_option ((#) y) (replace_fact x ys))"

definition with_hosts :: "host_fact list \<Rightarrow> state_envelope \<Rightarrow> state_envelope" where
  "with_hosts fs env = env\<lparr>se_host := (se_host env)\<lparr>hr_hosts := Some fs\<rparr>\<rparr>"

definition registered :: "host_fact \<Rightarrow> host_fact list \<Rightarrow> host_fact list" where
  "registered x fs = (case replace_fact x fs of Some fs' \<Rightarrow> fs' | None \<Rightarrow> sort_key hf_identity (fs @ [x]))"

definition register_host :: "state_contract \<Rightarrow> state_env \<Rightarrow> host_fact \<Rightarrow> state_file \<Rightarrow> state_file \<times> unit option \<times> unit res" where
  "register_host c ev x f = (case new_host_fact (hf_identity x) (hf_path x) (hf_addresses x) of
     Inl e \<Rightarrow> (f, None, Inl e)
   | Inr validated \<Rightarrow>
       if validated \<noteq> x then (f, None, Inl (ErrMsg ''hostregistry: host fact is not canonical''))
       else with_lock ev (\<lambda>f. case read_envelope c ev f of
           Inl e \<Rightarrow> (f, None, Inl e)
         | Inr env \<Rightarrow> (case write_envelope c ev (with_hosts (registered x (facts_of env)) env) f of (f', r) \<Rightarrow> (f', None, r))) f)"

definition fact_named :: "host_fact list \<Rightarrow> string \<Rightarrow> host_fact option" where
  "fact_named fs i = find (\<lambda>x. hf_identity x = i) fs"

text \<open>The loop of \<^verbatim>\<open>Update\<close> over the identities its function left.\<close>

fun known_facts :: "host_fact list \<Rightarrow> string list \<Rightarrow> string list \<Rightarrow> host_fact list res" where
  "known_facts fs seen [] = Inr []"
| "known_facts fs seen (i # is) = (case fact_named fs i of
     None \<Rightarrow> Inl (ErrMsg ''hostregistry: RegisterHost is required for new host'')
   | Some x \<Rightarrow>
       if i \<in> set seen then Inl (ErrMsg ''hostregistry: duplicate host'')
       else andthen (known_facts fs (i # seen) is) (\<lambda>xs. Inr (x # xs)))"

definition update_body :: "state_contract \<Rightarrow> state_env \<Rightarrow> (registry_view \<Rightarrow> registry_view res) \<Rightarrow> state_file \<Rightarrow> state_file \<times> registry_view option \<times> unit res" where
  "update_body c ev fn f = (case read_envelope c ev f of
     Inl e \<Rightarrow> (f, None, Inl e)
   | Inr env \<Rightarrow> (case fn (view_of env) of
       Inl e \<Rightarrow> (f, None, Inl e)
     | Inr g \<Rightarrow> (case known_facts (facts_of env) [] (rv_hosts g) of
         Inl e \<Rightarrow> (f, None, Inl e)
       | Inr xs \<Rightarrow>
           (case write_envelope c ev (env\<lparr>se_host := \<lparr>hr_self = rv_self g, hr_hosts = Some xs\<rparr>\<rparr>) f of (f', r) \<Rightarrow> (f', Some g, r)))))"

definition update :: "state_contract \<Rightarrow> state_env \<Rightarrow> (registry_view \<Rightarrow> registry_view res) \<Rightarrow> state_file \<Rightarrow> state_file \<times> registry_view option \<times> unit res" where
  "update c ev fn = with_lock ev (update_body c ev fn)"

definition drop_host :: "string \<Rightarrow> registry_view \<Rightarrow> registry_view" where
  "drop_host target g = g\<lparr>rv_hosts := filter (\<lambda>i. i \<noteq> target) (rv_hosts g)\<rparr>"

definition remove_host :: "state_contract \<Rightarrow> state_env \<Rightarrow> string \<Rightarrow> state_file \<Rightarrow> state_file \<times> registry_view option \<times> unit res" where
  "remove_host c ev target = update c ev (\<lambda>g. Inr (drop_host target g))"

definition load_registry :: "state_contract \<Rightarrow> state_env \<Rightarrow> state_file \<Rightarrow> registry_view res" where
  "load_registry c ev f = andthen (read_envelope c ev f) (\<lambda>env. Inr (view_of env))"

definition host_named :: "state_contract \<Rightarrow> state_env \<Rightarrow> string \<Rightarrow> state_file \<Rightarrow> host_fact res" where
  "host_named c ev i f = andthen (read_envelope c ev f) (\<lambda>env. case fact_named (facts_of env) i of
     Some x \<Rightarrow> Inr x | None \<Rightarrow> Inl (ErrMsg ''hostregistry: host is not registered''))"

text \<open>The ssh targets of a fact.\<close>

definition dial_targets :: "host_fact \<Rightarrow> string list" where
  "dial_targets x = map (\<lambda>a. hf_user x @ CHR ''@'' # a) (hf_addresses x)"

definition load_addrs :: "state_contract \<Rightarrow> state_env \<Rightarrow> state_file \<Rightarrow> (string \<rightharpoonup> string list) res" where
  "load_addrs c ev f = andthen (read_envelope c ev f) (\<lambda>env. Inr (map_of (rev (map (\<lambda>x. (hf_identity x, dial_targets x)) (facts_of env)))))"

subsection \<open>The shared mesh\<close>

definition meshStateDeclaration :: string where
  "meshStateDeclaration = ''schema:{identity:string,version:uint64,fingerprint:string};host_registry:{self:string,hosts:array<{identity:string,user:string,host_key_alias:string,addresses:array<string>,synckitd_path:string}>};synckit:{}''"

text \<open>Decoding into a struct without fields: an object without members, or \<^verbatim>\<open>null\<close>.\<close>

definition validate_empty_product :: "json \<Rightarrow> unit res" where
  "validate_empty_product j = (case as_struct (\<lambda>_ _ _. None) () j of None \<Rightarrow> Inl (ErrMsg ''product'') | Some _ \<Rightarrow> Inr ())"

definition Mesh :: state_contract where
  "Mesh = \<lparr>sc_identity = ''synckit-state-v1'', sc_fingerprint = schema_fingerprint ''synckit-state-v1'' meshStateDeclaration,
     sc_namespace = ''synckit'', sc_initial = JObj [], sc_validate = validate_empty_product\<rparr>"

definition DialAddrs :: "state_env \<Rightarrow> string \<Rightarrow> state_file \<Rightarrow> string list res" where
  "DialAddrs ev target f = andthen (host_named Mesh ev target f) (\<lambda>x. Inr (dial_targets x))"

subsection \<open>What a decoded state is\<close>

lemma validate_facts_iff:
  "validate_facts seen fs = Inr () \<longleftrightarrow> (\<forall>x \<in> set fs. canonical_fact x) \<and> distinct (map hf_identity fs) \<and> set seen \<inter> set (map hf_identity fs) = {}"
  by (induction fs arbitrary: seen) (auto simp: andthen_Inr_iff canonical_fact_def split: if_splits)

lemma validate_host_iff:
  "validate_host_registry h = Inr () \<longleftrightarrow> (\<exists>fs. hr_hosts h = Some fs \<and> (\<forall>x \<in> set fs. canonical_fact x) \<and> distinct (map hf_identity fs)) \<and>
     (hr_self h = [] \<or> (\<exists>u a. split_identity (hr_self h) = Inr (u, a)))"
  by (auto simp: validate_host_registry_def validate_facts_iff andthen_Inr_iff split: option.splits)

lemma decode_facts:
  assumes "decode_envelope c data = Inr env"
  shows "validate_contract c = Inr ()" and "se_schema env = own_schema c" and "validate_host_registry (se_host env) = Inr ()" and "sc_validate c (se_product env) = Inr ()"
proof -
  obtain j top where v: "validate_contract c = Inr ()" and j: "exact_json data = Inr j"
    and top: "exact_object [''schema'', ''host_registry'', sc_namespace c] j = Inr top"
    using assms by (auto simp: decode_envelope_def andthen_Inr_iff)
  from assms v j top obtain schema where s: "as_struct set_schema zero_schema (member top ''schema'') = Some schema"
    by (cases "as_struct set_schema zero_schema (member top ''schema'')") (auto simp: decode_envelope_def)
  from assms v j top s have o: "sd_identity schema = sc_identity c" "sd_version schema = StateSchemaVersion" "sd_fingerprint schema = sc_fingerprint c"
    by (auto simp: decode_envelope_def split: if_splits)
  from assms v j top s o obtain host where h: "as_struct set_host_registry zero_host (member top ''host_registry'') = Some host"
    by (cases "as_struct set_host_registry zero_host (member top ''host_registry'')") (auto simp: decode_envelope_def andthen_Inr_iff)
  from assms v j top s o h have e: "validate_host_registry host = Inr ()" "sc_validate c (member top (sc_namespace c)) = Inr ()"
    "env = \<lparr>se_schema = schema, se_host = host, se_product = member top (sc_namespace c)\<rparr>"
    by (auto simp: decode_envelope_def andthen_Inr_iff)
  show "validate_contract c = Inr ()" by (rule v)
  show "se_schema env = own_schema c" using e(3) o by (simp add: own_schema_def)
  show "validate_host_registry (se_host env) = Inr ()" "sc_validate c (se_product env) = Inr ()" using e by simp_all
qed

lemma facts_of_decoded:
  assumes "decode_envelope c data = Inr env"
  shows "hr_hosts (se_host env) = Some (facts_of env)" and "\<And>x. x \<in> set (facts_of env) \<Longrightarrow> canonical_fact x" and "distinct (map hf_identity (facts_of env))"
  using decode_facts(3) [OF assms] by (auto simp: validate_host_iff facts_of_def)

text \<open>What is written is read back: the encoding of a state under a contract decodes to that state.\<close>

theorem envelope_roundtrip:
  assumes "validate_contract c = Inr ()" and "plain_products c" and "encode_envelope c env = Inr data"
    and "se_schema env = \<lparr>sd_identity = sc_identity c, sd_version = 1, sd_fingerprint = sc_fingerprint c\<rparr>"
  shows "decode_envelope c data = Inr env"
  using assms by (intro encoded_decodes) (simp_all add: own_schema_def StateSchemaVersion_def)

text \<open>C28. A decoded state is well typed: its schema is the contract's, its payload validates, its own identity is empty or a
  user at a host, and its facts are canonical with distinct identities.\<close>

theorem decoded_state_typed:
  assumes "decode_envelope c data = Inr env"
  shows "se_schema env = \<lparr>sd_identity = sc_identity c, sd_version = 1, sd_fingerprint = sc_fingerprint c\<rparr> \<and> sc_validate c (se_product env) = Inr () \<and>
    (hr_self (se_host env) = [] \<or> (\<exists>user host. split_identity (hr_self (se_host env)) = Inr (user, host))) \<and>
    (\<exists>fs. hr_hosts (se_host env) = Some fs \<and> (\<forall>x \<in> set fs. canonical_fact x) \<and> distinct (map hf_identity fs))"
  using decode_facts [OF assms] by (auto simp: validate_host_iff own_schema_def StateSchemaVersion_def)

subsection \<open>The file is always whole\<close>

lemma read_envelopeD: "read_envelope c ev f = Inr env \<Longrightarrow> \<exists>data. f = Some data \<and> decode_envelope c data = Inr env"
  by (auto simp: read_envelope_def andthen_Inr_iff split: option.splits)

lemma write_envelopeD:
  assumes "write_envelope c ev env f = (f', r)" and "validate_contract c = Inr ()" and "plain_products c" and "se_schema env = own_schema c"
  shows "f' = f \<or> (\<exists>data. f' = Some data \<and> decode_envelope c data = Inr env)"
    and "r = Inr () \<Longrightarrow> \<exists>data. f' = Some data \<and> decode_envelope c data = Inr env"
  using assms(1) encoded_decodes [OF assms(2-4)] by (auto simp: write_envelope_def split: sum.splits write_outcome.splits)

text \<open>The operations, with what their callers pass.\<close>

datatype state_op = OpInitialize | OpRegister host_fact | OpUpdate "registry_view \<Rightarrow> registry_view res" | OpRemove string | OpProduct "json \<Rightarrow> json res"

definition run_op :: "state_contract \<Rightarrow> state_env \<Rightarrow> state_op \<Rightarrow> state_file \<Rightarrow> state_file \<times> unit res" where
  "run_op c ev op f = (case op of
     OpInitialize \<Rightarrow> (case initialize_state c ev f of (f', _, r) \<Rightarrow> (f', r))
   | OpRegister x \<Rightarrow> (case register_host c ev x f of (f', _, r) \<Rightarrow> (f', r))
   | OpUpdate fn \<Rightarrow> (case update c ev fn f of (f', _, r) \<Rightarrow> (f', r))
   | OpRemove target \<Rightarrow> (case remove_host c ev target f of (f', _, r) \<Rightarrow> (f', r))
   | OpProduct fn \<Rightarrow> (case update_product c ev fn f of (f', _, r) \<Rightarrow> (f', r)))"

definition run_ops :: "state_contract \<Rightarrow> (state_env \<times> state_op) list \<Rightarrow> state_file \<Rightarrow> state_file" where
  "run_ops c ops f = fold (\<lambda>(ev, op) f. fst (run_op c ev op f)) ops f"

text \<open>What every body keeps: the file stays or becomes a whole state, and a file that does not decode stays and is refused.\<close>

definition keeps_whole :: "state_contract \<Rightarrow> (state_file \<Rightarrow> state_file \<times> 'o option \<times> unit res) \<Rightarrow> bool" where
  "keeps_whole c body \<longleftrightarrow> (\<forall>f f' out r. body f = (f', out, r) \<longrightarrow>
     (f' = f \<or> (\<exists>data env. f' = Some data \<and> decode_envelope c data = Inr env)) \<and>
     ((\<exists>data e. f = Some data \<and> decode_envelope c data = Inl e) \<longrightarrow> f' = f \<and> (\<exists>e. r = Inl e)))"

lemma keeps_wholeI:
  assumes "\<And>f f' out r. body f = (f', out, r) \<Longrightarrow> f' = f \<or> (\<exists>data env. f' = Some data \<and> decode_envelope c data = Inr env)"
    and "\<And>data e f' out r. body (Some data) = (f', out, r) \<Longrightarrow> decode_envelope c data = Inl e \<Longrightarrow> f' = Some data \<and> (\<exists>e. r = Inl e)"
  shows "keeps_whole c body"
  using assms unfolding keeps_whole_def by blast

lemma with_lock_keeps: "keeps_whole c body \<Longrightarrow> keeps_whole c (with_lock ev body)"
  unfolding keeps_whole_def with_lock_def by (fastforce split: sum.splits prod.splits)

lemma read_envelope_refuses: "decode_envelope c data = Inl e \<Longrightarrow> \<exists>e'. read_envelope c ev (Some data) = Inl e'"
  by (cases "ev_path ev") (auto simp: read_envelope_def split: option.splits)

text \<open>A body that reads, and then fails or writes an envelope of the same schema.\<close>

lemma read_write_keeps:
  assumes "plain_products c"
    and "\<And>f e. read_envelope c ev f = Inl e \<Longrightarrow> \<exists>out. body f = (f, out, Inl e)"
    and "\<And>f env. read_envelope c ev f = Inr env \<Longrightarrow>
      (\<exists>out r. body f = (f, out, r)) \<or> (\<exists>env' out f' r. se_schema env' = se_schema env \<and> write_envelope c ev env' f = (f', r) \<and> body f = (f', out, r))"
  shows "keeps_whole c body"
proof (rule keeps_wholeI)
  fix f f' out r
  assume b: "body f = (f', out, r)"
  show "f' = f \<or> (\<exists>data env. f' = Some data \<and> decode_envelope c data = Inr env)"
  proof (cases "read_envelope c ev f")
    case (Inl e)
    with assms(2) b show ?thesis by fastforce
  next
    case (Inr env)
    then obtain data where d: "decode_envelope c data = Inr env" using read_envelopeD by blast
    from assms(3) [OF Inr] consider "f' = f" | env' where "se_schema env' = se_schema env" "write_envelope c ev env' f = (f', r)"
      using b by auto
    then show ?thesis
    proof cases
      case 2
      with write_envelopeD(1) [OF 2(2) decode_facts(1) [OF d] assms(1)] decode_facts(2) [OF d] show ?thesis by auto
    qed simp
  qed
next
  fix data e f' out r
  assume "body (Some data) = (f', out, r)" "decode_envelope c data = Inl e"
  with read_envelope_refuses assms(2) show "f' = Some data \<and> (\<exists>e. r = Inl e)" by fastforce
qed

lemma initialize_keeps: "plain_products c \<Longrightarrow> keeps_whole c (initialize_state c ev)"
  unfolding initialize_state_def
proof (rule with_lock_keeps, rule keeps_wholeI)
  fix f f' out r
  assume p: "plain_products c" and b: "initialize_body c ev f = (f', out, r)"
  show "f' = f \<or> (\<exists>data env. f' = Some data \<and> decode_envelope c data = Inr env)"
  proof (cases "ev_path ev = Inr () \<and> ev_stat ev = None \<and> f = None \<and> validate_contract c = Inr ()")
    case True
    with b have "write_envelope c ev (initial_envelope c) f = (f', r)" by (auto simp: initialize_body_def split: prod.splits)
    from write_envelopeD(1) [OF this _ p] True show ?thesis by (auto simp: initial_envelope_def own_schema_def)
  next
    case False
    with b show ?thesis by (auto simp: initialize_body_def split: sum.splits option.splits)
  qed
next
  fix data e f' out r
  assume "initialize_body c ev (Some data) = (f', out, r)" "decode_envelope c data = Inl e"
  with read_envelope_refuses [of c data e ev] show "f' = Some data \<and> (\<exists>e. r = Inl e)"
    by (cases "ev_path ev"; cases "ev_stat ev"; simp add: initialize_body_def)
      (auto dest: sym)
qed

lemma product_keeps: "plain_products c \<Longrightarrow> keeps_whole c (update_product c ev fn)"
  unfolding update_product_def
  by (rule with_lock_keeps, rule read_write_keeps [where ev = ev]) (auto simp: update_product_unlocked_def split: sum.splits prod.splits)

lemma update_keeps: "plain_products c \<Longrightarrow> keeps_whole c (update c ev fn)"
  unfolding update_def
  by (rule with_lock_keeps, rule read_write_keeps [where ev = ev]) (auto simp: update_body_def split: sum.splits prod.splits)

lemma register_keeps: "plain_products c \<Longrightarrow> keeps_whole c (register_host c ev x)"
proof -
  assume p: "plain_products c"
  let ?body = "\<lambda>f. case read_envelope c ev f of
           Inl e \<Rightarrow> (f, None :: unit option, Inl e)
         | Inr env \<Rightarrow> (case write_envelope c ev (with_hosts (registered x (facts_of env)) env) f of (f', r) \<Rightarrow> (f', None, r))"
  have "keeps_whole c ?body"
    using p by (rule read_write_keeps [where ev = ev]) (auto simp: with_hosts_def split: sum.splits prod.splits)
  then have "keeps_whole c (with_lock ev ?body)" by (rule with_lock_keeps)
  then show ?thesis unfolding keeps_whole_def register_host_def by (auto split: sum.splits if_splits)
qed

lemma keeps_wholeD:
  assumes "keeps_whole c body" and "body f = (f', out, r)"
  shows "f' = f \<or> (\<exists>data env. f' = Some data \<and> decode_envelope c data = Inr env)"
    and "f = Some data \<Longrightarrow> decode_envelope c data = Inl e \<Longrightarrow> f' = f \<and> (\<exists>e. r = Inl e)"
  using assms unfolding keeps_whole_def by blast+

lemma run_op_keeps:
  assumes "plain_products c" and "run_op c ev op f = (f', r)"
  shows "f' = f \<or> (\<exists>data env. f' = Some data \<and> decode_envelope c data = Inr env)"
    and "f = Some data \<Longrightarrow> decode_envelope c data = Inl e \<Longrightarrow> f' = f \<and> (\<exists>e. r = Inl e)"
proof -
  have b: "(\<exists>body out. keeps_whole c (body :: state_file \<Rightarrow> state_file \<times> unit option \<times> unit res) \<and> body f = (f', out, r)) \<or>
      (\<exists>body out. keeps_whole c (body :: state_file \<Rightarrow> state_file \<times> registry_view option \<times> unit res) \<and> body f = (f', out, r))"
  proof (cases op)
    case OpInitialize
    with assms obtain out where "initialize_state c ev f = (f', out, r)" by (auto simp: run_op_def split: prod.splits)
    with initialize_keeps [OF assms(1)] show ?thesis by blast
  next
    case (OpRegister x)
    with assms obtain out where "register_host c ev x f = (f', out, r)" by (auto simp: run_op_def split: prod.splits)
    with register_keeps [OF assms(1)] show ?thesis by blast
  next
    case (OpUpdate fn)
    with assms obtain out where "update c ev fn f = (f', out, r)" by (auto simp: run_op_def split: prod.splits)
    with update_keeps [OF assms(1)] show ?thesis by blast
  next
    case (OpRemove target)
    with assms obtain out where "update c ev (\<lambda>g. Inr (drop_host target g)) f = (f', out, r)" by (auto simp: run_op_def remove_host_def split: prod.splits)
    with update_keeps [OF assms(1)] show ?thesis by blast
  next
    case (OpProduct fn)
    with assms obtain out where "update_product c ev fn f = (f', out, r)" by (auto simp: run_op_def split: prod.splits)
    with product_keeps [OF assms(1)] show ?thesis by blast
  qed
  from b show "f' = f \<or> (\<exists>data env. f' = Some data \<and> decode_envelope c data = Inr env)" by (elim disjE exE conjE) (rule keeps_wholeD(1); assumption)+
  from b show "f = Some data \<Longrightarrow> decode_envelope c data = Inl e \<Longrightarrow> f' = f \<and> (\<exists>e. r = Inl e)" by (elim disjE exE conjE) (rule keeps_wholeD(2); assumption)+
qed


text \<open>A file that is not a state of the contract is refused by every operation and never repaired.\<close>

theorem foreign_state_refused:
  assumes "plain_products c" and "decode_envelope c data = Inl e"
  shows "\<exists>e'. run_op c ev op (Some data) = (Some data, Inl e')"
proof -
  obtain f' r where r: "run_op c ev op (Some data) = (f', r)" by force
  from run_op_keeps(2) [OF assms(1) r refl assms(2)] r show ?thesis by auto
qed

subsection \<open>What the operations do\<close>

lemma fact_named_Some: "distinct (map hf_identity fs) \<Longrightarrow> fact_named fs i = Some x \<longleftrightarrow> x \<in> set fs \<and> hf_identity x = i"
proof (induction fs)
  case (Cons y ys)
  then show ?case by (auto simp: fact_named_def split: if_splits)
qed (simp add: fact_named_def)

lemma fact_named_eq:
  assumes "distinct (map hf_identity fs)" and "distinct (map hf_identity gs)" and "\<And>x. hf_identity x = i \<Longrightarrow> x \<in> set fs \<longleftrightarrow> x \<in> set gs"
  shows "fact_named fs i = fact_named gs i"
proof -
  have e: "fact_named fs i = Some x \<longleftrightarrow> fact_named gs i = Some x" for x
    using fact_named_Some [OF assms(1), of i x] fact_named_Some [OF assms(2), of i x] assms(3) by blast
  show ?thesis
  proof (cases "fact_named gs i")
    case None
    then have "fact_named fs i \<noteq> Some x" for x using e by simp
    then have "fact_named fs i = None" by (meson not_Some_eq)
    with None show ?thesis by simp
  qed (simp add: e)
qed

lemma replace_factD:
  "replace_fact x fs = Some gs \<Longrightarrow> distinct (map hf_identity fs) \<Longrightarrow>
   map hf_identity gs = map hf_identity fs \<and> hf_identity x \<in> hf_identity ` set fs \<and> set gs = insert x {y \<in> set fs. hf_identity y \<noteq> hf_identity x}"
proof (induction fs arbitrary: gs)
  case (Cons y ys)
  show ?case
  proof (cases "hf_identity y = hf_identity x")
    case True
    then have "\<forall>z \<in> set ys. hf_identity z \<noteq> hf_identity x" using Cons.prems(2) by (auto simp: image_iff)
    with True Cons.prems show ?thesis by auto
  next
    case False
    with Cons.prems obtain hs where "replace_fact x ys = Some hs" "gs = y # hs" by auto
    with Cons.IH [of hs] Cons.prems(2) False show ?thesis by auto
  qed
qed simp

lemma replace_fact_None: "replace_fact x fs = None \<longleftrightarrow> hf_identity x \<notin> hf_identity ` set fs"
  by (induction fs) (auto split: if_splits)

lemma registered_facts:
  assumes "distinct (map hf_identity fs)"
  shows "set (registered x fs) = insert x {y \<in> set fs. hf_identity y \<noteq> hf_identity x}" and "distinct (map hf_identity (registered x fs))"
proof (atomize (full), cases "replace_fact x fs")
  case None
  then have n: "hf_identity x \<notin> hf_identity ` set fs" by (simp add: replace_fact_None)
  then have "distinct (map hf_identity (fs @ [x]))" using assms by simp
  then have "inj_on hf_identity (set (fs @ [x]))" "distinct (fs @ [x])" unfolding distinct_map by blast+
  then have "distinct (map hf_identity (sort_key hf_identity (fs @ [x])))" unfolding distinct_map by (simp del: sort_key_simps)
  with None n show "set (registered x fs) = insert x {y \<in> set fs. hf_identity y \<noteq> hf_identity x} \<and> distinct (map hf_identity (registered x fs))"
    by (auto simp: registered_def image_iff simp del: sort_key_simps)
next
  case (Some gs)
  with replace_factD [OF Some assms] assms show "set (registered x fs) = insert x {y \<in> set fs. hf_identity y \<noteq> hf_identity x} \<and> distinct (map hf_identity (registered x fs))"
    by (simp add: registered_def)
qed

lemma read_envelope_of: "ev_path ev = Inr () \<Longrightarrow> ev_read ev = None \<Longrightarrow> decode_envelope c data = Inr env \<Longrightarrow> read_envelope c ev (Some data) = Inr env"
  by (simp add: read_envelope_def)

lemma with_lock_Inr:
  assumes "with_lock ev body f = (f', out, Inr ())"
  shows "\<exists>r. body f = (f', out, r) \<and> r = Inr ()"
  using assms by (cases "ev_path ev"; cases "ev_lock ev"; cases "body f") (simp_all add: with_lock_def split: sum.split_asm)

text \<open>A registration that reports success has made the fact the one its identity names and left every other host, this
  machine's identity and the payload as they were.\<close>

theorem register_host_replaces:
  assumes "plain_products c" and "register_host c ev x f = (f', out, Inr ())"
  shows "\<exists>data env data' env'. f = Some data \<and> decode_envelope c data = Inr env \<and> f' = Some data' \<and> decode_envelope c data' = Inr env' \<and>
    (\<forall>i. fact_named (facts_of env') i = (if i = hf_identity x then Some x else fact_named (facts_of env) i)) \<and>
    hr_self (se_host env') = hr_self (se_host env) \<and> se_product env' = se_product env"
proof -
  have "\<exists>env. read_envelope c ev f = Inr env \<and> write_envelope c ev (with_hosts (registered x (facts_of env)) env) f = (f', Inr ())"
    using assms(2) by (auto simp: register_host_def with_lock_def split: sum.splits prod.splits if_splits)
  then obtain env where r: "read_envelope c ev f = Inr env"
    and w: "write_envelope c ev (with_hosts (registered x (facts_of env)) env) f = (f', Inr ())" by blast
  obtain data where d: "f = Some data" "decode_envelope c data = Inr env" using read_envelopeD [OF r] by blast
  let ?env = "with_hosts (registered x (facts_of env)) env"
  have "\<exists>data'. f' = Some data' \<and> decode_envelope c data' = Inr ?env"
    using write_envelopeD(2) [OF w decode_facts(1) [OF d(2)] assms(1)] decode_facts(2) [OF d(2)] by (simp add: with_hosts_def)
  then obtain data' where d': "f' = Some data'" "decode_envelope c data' = Inr ?env" by blast
  note ds = facts_of_decoded(3) [OF d(2)]
  note reg = registered_facts [OF ds, of x]
  have fs: "facts_of ?env = registered x (facts_of env)" by (simp add: facts_of_def with_hosts_def)
  have "fact_named (facts_of ?env) i = (if i = hf_identity x then Some x else fact_named (facts_of env) i)" for i
  proof (cases "i = hf_identity x")
    case True
    with reg show ?thesis by (simp add: fs fact_named_Some [OF reg(2)])
  next
    case False
    then show ?thesis unfolding fs using reg by (simp, intro fact_named_eq ds) auto
  qed
  with d d' show ?thesis by (intro exI [of _ data] exI [of _ env] exI [of _ data'] exI [of _ ?env]) (simp add: with_hosts_def)
qed

lemma known_facts_Inr:
  "known_facts fs seen is = Inr xs \<Longrightarrow> map (fact_named fs) is = map Some xs \<and> distinct is \<and> set seen \<inter> set is = {}"
proof (induction "is" arbitrary: seen xs)
  case (Cons i "is")
  then obtain x ys where x: "fact_named fs i = Some x" "i \<notin> set seen" "known_facts fs (i # seen) is = Inr ys" "xs = x # ys"
    by (auto simp: andthen_Inr_iff split: option.splits if_splits)
  with Cons.IH [OF x(3)] show ?case by auto
qed simp

text \<open>An update that reports success has kept exactly the hosts its function left, in that order and each with the fact it
  had: a new host, or one listed twice, is an error that changes nothing.\<close>

theorem update_only_selects:
  assumes "plain_products c" and "update c ev fn f = (f', out, Inr ())"
  shows "\<exists>data env g data' env'. f = Some data \<and> decode_envelope c data = Inr env \<and> fn (view_of env) = Inr g \<and> out = Some g \<and>
    f' = Some data' \<and> decode_envelope c data' = Inr env' \<and> view_of env' = g \<and> distinct (rv_hosts g) \<and>
    set (facts_of env') \<subseteq> set (facts_of env) \<and> se_product env' = se_product env"
proof -
  have "update_body c ev fn f = (f', out, Inr ())" using with_lock_Inr [of ev "update_body c ev fn" f f' out] assms(2) by (auto simp: update_def)
  then obtain env g xs where r: "read_envelope c ev f = Inr env" and g: "fn (view_of env) = Inr g" "out = Some g"
    and k: "known_facts (facts_of env) [] (rv_hosts g) = Inr xs"
    and w: "write_envelope c ev (env\<lparr>se_host := \<lparr>hr_self = rv_self g, hr_hosts = Some xs\<rparr>\<rparr>) f = (f', Inr ())"
    by (auto simp: update_body_def split: sum.splits prod.splits)
  obtain data where d: "f = Some data" "decode_envelope c data = Inr env" using read_envelopeD [OF r] by blast
  let ?env = "env\<lparr>se_host := \<lparr>hr_self = rv_self g, hr_hosts = Some xs\<rparr>\<rparr>"
  have "\<exists>data'. f' = Some data' \<and> decode_envelope c data' = Inr ?env"
    using write_envelopeD(2) [OF w decode_facts(1) [OF d(2)] assms(1)] decode_facts(2) [OF d(2)] by simp
  then obtain data' where d': "f' = Some data'" "decode_envelope c data' = Inr ?env" by blast
  note kf = known_facts_Inr [OF k]
  have n: "length xs = length (rv_hosts g)" using kf by (metis length_map)
  have x: "xs ! j \<in> set (facts_of env) \<and> hf_identity (xs ! j) = rv_hosts g ! j" if "j < length xs" for j
  proof -
    have "fact_named (facts_of env) (rv_hosts g ! j) = Some (xs ! j)" using kf that n by (metis nth_map)
    then show ?thesis using fact_named_Some [OF facts_of_decoded(3) [OF d(2)]] by simp
  qed
  have "map hf_identity xs = rv_hosts g" using x n by (intro nth_equalityI) auto
  moreover have "set xs \<subseteq> set (facts_of env)" using x by (auto simp: set_conv_nth [of xs])
  ultimately show ?thesis using d d' g kf
    by (intro exI [of _ data] exI [of _ env] exI [of _ g] exI [of _ data'] exI [of _ ?env]) (auto simp: view_of_def facts_of_def)
qed

subsection \<open>The mesh's contract\<close>

lemma validate_empty_iff: "validate_empty_product j = Inr () \<longleftrightarrow> j = JObj [] \<or> j = JNull"
proof -
  have "as_struct (\<lambda>_ _ _. None) () j = (if j = JObj [] \<or> j = JNull then Some () else None)"
  proof (cases j)
    case (JObj kvs)
    then show ?thesis by (cases kvs) auto
  qed (simp_all add: as_struct_def)
  then show ?thesis by (simp add: validate_empty_product_def)
qed

lemma mesh_plain: "plain_products Mesh"
  by (auto simp: plain_products_def Mesh_def validate_empty_iff)

lemma schema_fingerprint_lower:
  "length (schema_fingerprint i d) = 64" "hex_decode (schema_fingerprint i d) \<noteq> None"
  "list_all (\<lambda>c. \<not> (65 \<le> (of_char c :: nat) \<and> (of_char c :: nat) \<le> 90)) (schema_fingerprint i d)"
proof -
  have "list_all (\<lambda>c. \<not> (65 \<le> (of_char c :: nat) \<and> (of_char c :: nat) \<le> 90)) (hex_encode b)" for b
    using hex_encode_lower [of b] by (auto simp: list_all_iff is_lower_hex_def Let_def)
  then show "list_all (\<lambda>c. \<not> (65 \<le> (of_char c :: nat) \<and> (of_char c :: nat) \<le> 90)) (schema_fingerprint i d)"
    by (simp only: schema_fingerprint_def)
qed (simp_all add: schema_fingerprint_def)

lemma mesh_fields:
  "sc_identity Mesh = ''synckit-state-v1''" "sc_namespace Mesh = ''synckit''" "sc_initial Mesh = JObj []" "sc_validate Mesh = validate_empty_product"
  "sc_fingerprint Mesh = schema_fingerprint ''synckit-state-v1'' meshStateDeclaration"
  by (simp_all add: Mesh_def)

lemma mesh_contract: "validate_contract Mesh = Inr ()"
  by (simp only: validate_contract_def mesh_fields schema_fingerprint_lower if_False) (simp add: validate_empty_iff)

text \<open>Whoever dials a registered target of the mesh dials a list that holds the target itself, without repetition, all as the
  target's user.\<close>

theorem dial_addresses_of_target:
  assumes "DialAddrs ev target f = Inr addrs"
  shows "target \<in> set addrs \<and> distinct addrs \<and>
    (\<exists>user host. split_identity target = Inr (user, host) \<and> (\<forall>a \<in> set addrs. \<exists>h. a = user @ CHR ''@'' # h \<and> valid_ssh_host h \<and> CHR ''@'' \<notin> set h))"
proof -
  obtain env data x where r: "decode_envelope Mesh data = Inr env" and x: "fact_named (facts_of env) target = Some x" and a: "addrs = dial_targets x"
    using assms by (auto simp: DialAddrs_def host_named_def andthen_Inr_iff split: option.splits dest!: read_envelopeD)
  have m: "x \<in> set (facts_of env)" "hf_identity x = target" using x fact_named_Some [OF facts_of_decoded(3) [OF r]] by auto
  have n: "new_host_fact (hf_identity x) (hf_path x) (hf_addresses x) = Inr x"
    using facts_of_decoded(2) [OF r m(1)] by (simp add: canonical_fact_def)
  note f = host_facts [OF n]
  have "split_identity target = Inr (hf_user x, hf_alias x)"
    using n m(2) by (auto simp: new_host_fact_def andthen_Inr_iff split: prod.splits if_splits dest: arg_cong [of _ _ hf_user] arg_cong [of _ _ hf_alias])
  moreover have "target \<in> set addrs" using f(3,4) m(2) by (auto simp: a dial_targets_def)
  moreover have "distinct addrs" using f(6) by (auto simp: a dial_targets_def distinct_map inj_on_def)
  moreover have "\<forall>b \<in> set addrs. \<exists>h. b = hf_user x @ CHR ''@'' # h \<and> valid_ssh_host h \<and> CHR ''@'' \<notin> set h"
    using f(7) valid_ssh_host_at by (auto simp: a dial_targets_def)
  ultimately show ?thesis by blast
qed

subsection \<open>Instances\<close>

definition ok_env :: state_env where
  "ok_env = \<lparr>ev_path = Inr (), ev_lock = Inr (), ev_unlock = Inr (), ev_stat = None, ev_read = None, ev_write = Wrote\<rparr>"

lemma ok_env_fields [simp]:
  "ev_path ok_env = Inr ()" "ev_lock ok_env = Inr ()" "ev_unlock ok_env = Inr ()" "ev_stat ok_env = None" "ev_read ok_env = None" "ev_write ok_env = Wrote"
  by (simp_all add: ok_env_def)

text \<open>The mesh's state with no host, and with one.\<close>

definition sample_env :: "host_fact list \<Rightarrow> state_envelope" where
  "sample_env fs = with_hosts fs (initial_envelope Mesh)"

definition sample_file :: "host_fact list \<Rightarrow> bytes" where
  "sample_file fs = render (envelope_json Mesh (sample_env fs)) @ [CHR 0x0A]"

lemma sample_canonical: "canonical_fact sample_fact"
  by (rule host_facts(1) [OF sample_new])

lemma sample_encodes:
  assumes "fs = [] \<or> fs = [sample_fact]"
  shows "encode_envelope Mesh (sample_env fs) = Inr (sample_file fs)"
proof -
  have "validate_host_registry (se_host (sample_env fs)) = Inr ()"
    using assms sample_canonical by (auto simp: validate_host_iff sample_env_def with_hosts_def initial_envelope_def)
  moreover have "sc_validate Mesh (se_product (sample_env fs)) = Inr ()"
    by (simp add: sample_env_def with_hosts_def initial_envelope_def mesh_fields validate_empty_iff)
  ultimately show ?thesis by (simp add: encode_envelope_def sample_file_def)
qed

lemma sample_decodes: "fs = [] \<or> fs = [sample_fact] \<Longrightarrow> decode_envelope Mesh (sample_file fs) = Inr (sample_env fs)"
  by (rule encoded_decodes [OF mesh_contract mesh_plain _ sample_encodes])
    (simp_all add: sample_env_def with_hosts_def initial_envelope_def own_schema_def)

lemma sample_reads: "fs = [] \<or> fs = [sample_fact] \<Longrightarrow> read_envelope Mesh ok_env (Some (sample_file fs)) = Inr (sample_env fs)"
  by (rule read_envelope_of [OF _ _ sample_decodes]) (simp_all add: ok_env_def)

theorem envelope_roundtrip_witness: "decode_envelope Mesh (sample_file [sample_fact]) = Inr (sample_env [sample_fact])"
  by (rule envelope_roundtrip [OF mesh_contract mesh_plain sample_encodes])
    (simp_all add: sample_env_def with_hosts_def initial_envelope_def StateSchemaVersion_def)

theorem decoded_state_typed_witness:
  "\<exists>fs. hr_hosts (se_host (sample_env [sample_fact])) = Some fs \<and> (\<forall>x \<in> set fs. canonical_fact x) \<and> distinct (map hf_identity fs)"
  using decoded_state_typed [OF sample_decodes, of "[sample_fact]"] by blast


theorem foreign_state_refused_witness: "\<exists>e. run_op Mesh ok_env OpInitialize (Some []) = (Some [], Inl e)"
proof -
  have "exact_json [] = Inl (ErrMsg ''invalid or trailing JSON value'')"
    by (simp add: exact_json_def unmarshal_def decode_one_def numeral_eq_Suc skip_ws_def parse_value.simps)
  then have "decode_envelope Mesh [] = Inl (ErrMsg ''invalid or trailing JSON value'')" by (simp add: decode_envelope_def mesh_contract)
  from foreign_state_refused [OF mesh_plain this] show ?thesis .
qed

lemma sample_registers: "register_host Mesh ok_env sample_fact (Some (sample_file [])) = (Some (sample_file [sample_fact]), None, Inr ())"
proof -
  have "with_hosts (registered sample_fact (facts_of (sample_env []))) (sample_env []) = sample_env [sample_fact]"
    by (simp add: sample_env_def with_hosts_def facts_of_def registered_def)
  then show ?thesis using sample_canonical sample_reads [of "[]"] sample_encodes [of "[sample_fact]"]
    by (simp add: register_host_def canonical_fact_def with_lock_def write_envelope_def)
qed

theorem register_host_replaces_witness:
  "\<exists>data env. decode_envelope Mesh data = Inr env \<and> fact_named (facts_of env) ''me@box.ts'' = Some sample_fact"
  using register_host_replaces [OF mesh_plain sample_registers] by (fastforce simp: sample_fact_def)

lemma sample_removes:
  "update Mesh ok_env (\<lambda>g. Inr (drop_host ''me@box.ts'' g)) (Some (sample_file [sample_fact])) = (Some (sample_file []), Some \<lparr>rv_self = [], rv_hosts = []\<rparr>, Inr ())"
proof -
  have v: "drop_host ''me@box.ts'' (view_of (sample_env [sample_fact])) = \<lparr>rv_self = [], rv_hosts = []\<rparr>"
    by (simp add: drop_host_def view_of_def sample_env_def with_hosts_def facts_of_def initial_envelope_def sample_fact_def)
  have e: "(sample_env [sample_fact])\<lparr>se_host := \<lparr>hr_self = [], hr_hosts = Some []\<rparr>\<rparr> = sample_env []"
    by (simp add: sample_env_def with_hosts_def initial_envelope_def)
  show ?thesis using sample_reads [of "[sample_fact]"] sample_encodes [of "[]"]
    by (simp add: update_def with_lock_def update_body_def v e write_envelope_def)
qed

theorem update_only_selects_witness: "\<exists>data env. decode_envelope Mesh data = Inr env \<and> view_of env = \<lparr>rv_self = [], rv_hosts = []\<rparr>"
proof -
  from update_only_selects [OF mesh_plain sample_removes] obtain g data' env' where
    "Some \<lparr>rv_self = [], rv_hosts = []\<rparr> = Some g" "decode_envelope Mesh data' = Inr env'" "view_of env' = g" by blast
  then show ?thesis by auto
qed

lemma sample_dials: "DialAddrs ok_env ''me@box.ts'' (Some (sample_file [sample_fact])) = Inr [''me@10.0.0.5'', ''me@box.local'', ''me@box.ts'']"
  using sample_reads [of "[sample_fact]"]
  by (simp add: DialAddrs_def host_named_def) (simp add: facts_of_def sample_env_def with_hosts_def fact_named_def sample_fact_def dial_targets_def)

theorem dial_addresses_of_target_witness: "\<exists>user host. split_identity ''me@box.ts'' = Inr (user, host)"
  using dial_addresses_of_target [OF sample_dials] by blast

end
