(* ===== verification/Host_Dial.thy ===== *)
theory Host_Dial
  imports Host_Registry "HOL-Library.Sublist"
begin

text \<open>
  Running a command on a registered host (\<^verbatim>\<open>src/hostregistry/dial.go\<close>): the failover over its addresses.

  The world answers each attempt: its output and failure, and the time since the start that the loop reads
  after it. The command owner is third-party.
\<close>

subsection \<open>One attempt\<close>

definition sshConnFailureExit :: int where "sshConnFailureExit = 255"
definition sshDialBudget :: duration where "sshDialBudget = 10 * 1000000000"

text \<open>How a run failed: the process ended with a code and a signal, or something else went wrong.\<close>

datatype run_failure = ExitError int int | OtherFailure string

record ssh_error =
  xe_addr :: string
  xe_stderr :: string
  xe_err :: run_failure

record attempt_result =
  ar_stdout :: string
  ar_stderr :: string
  ar_err :: "run_failure option"

definition ssh_exited :: "ssh_error \<Rightarrow> bool" where
  "ssh_exited e = (case xe_err e of ExitError code signal \<Rightarrow> signal = 0 | OtherFailure _ \<Rightarrow> False)"

definition dial_opts :: "string list" where
  "dial_opts = [''-o'', ''BatchMode=yes'', ''-o'', ''ConnectTimeout=3'', ''-o'', ''ServerAliveInterval=5'', ''-o'', ''ServerAliveCountMax=3'']"

definition brew_wrap :: "string \<Rightarrow> string" where
  "brew_wrap cmd = ''eval '' @ [CHR 0x22] @ ''$(/opt/homebrew/bin/brew shellenv)'' @ [CHR 0x22] @ '' && '' @ cmd"

definition exec_args :: "string \<Rightarrow> string \<Rightarrow> string list" where
  "exec_args addr cmd = dial_opts @ [addr, brew_wrap cmd]"

text \<open>\<open>run\<close> is the command owner's answer to the arguments.\<close>

definition exec_ssh_once :: "(string list \<Rightarrow> attempt_result) \<Rightarrow> string \<Rightarrow> string \<Rightarrow> string \<times> ssh_error option" where
  "exec_ssh_once run addr cmd = (let r = run (exec_args addr cmd) in
     (ar_stdout r, map_option (\<lambda>e. \<lparr>xe_addr = addr, xe_stderr = ar_stderr r, xe_err = e\<rparr>) (ar_err r)))"

definition is_conn_failure :: "ssh_error \<Rightarrow> bool" where
  "is_conn_failure e = (case xe_err e of ExitError code signal \<Rightarrow> code = sshConnFailureExit | OtherFailure _ \<Rightarrow> False)"

subsection \<open>The failover\<close>

text \<open>\<open>run k\<close> answers attempt number \<open>k\<close>, after which the elapsed time is \<open>elapsed k\<close>. The loop stands at index \<open>i\<close>; it
  returns the addresses it dialed, and what it returns to its caller.\<close>

function dial_from :: "(nat \<Rightarrow> string list \<Rightarrow> attempt_result) \<Rightarrow> (nat \<Rightarrow> duration) \<Rightarrow> string \<Rightarrow> string list \<Rightarrow> nat \<Rightarrow> nat \<Rightarrow> ssh_error option \<Rightarrow>
    string list \<times> string \<times> ssh_error option" where
  "dial_from run elapsed cmd addrs k i last_err =
     (if i < length addrs then
        (case exec_ssh_once (run k) (addrs ! i) cmd of
           (out, None) \<Rightarrow> ([addrs ! i], out, None)
         | (out, Some e) \<Rightarrow>
             if i < length addrs - 1 \<and> is_conn_failure e then
               (let j = (if elapsed k \<ge> sshDialBudget then length addrs - 2 else i) in
                case dial_from run elapsed cmd addrs (Suc k) (Suc j) (Some e) of (dialed, r) \<Rightarrow> (addrs ! i # dialed, r))
             else ([addrs ! i], out, Some e))
      else ([], [], last_err))"
  by pat_completeness auto
termination
  by (relation "measure (\<lambda>(run, elapsed, cmd, addrs, k, i, e). length addrs - i)") auto

declare dial_from.simps [simp del]

definition exec_ssh_addrs :: "(nat \<Rightarrow> string list \<Rightarrow> attempt_result) \<Rightarrow> (nat \<Rightarrow> duration) \<Rightarrow> string list \<Rightarrow> string \<Rightarrow> string list \<times> string \<times> ssh_error option" where
  "exec_ssh_addrs run elapsed addrs cmd = dial_from run elapsed cmd addrs 0 0 None"

definition exec_ssh :: "state_env \<Rightarrow> state_file \<Rightarrow> (nat \<Rightarrow> string list \<Rightarrow> attempt_result) \<Rightarrow> (nat \<Rightarrow> duration) \<Rightarrow> string \<Rightarrow> string \<Rightarrow>
    (string list \<times> string \<times> ssh_error option) res" where
  "exec_ssh ev f run elapsed target cmd = andthen (DialAddrs ev target f) (\<lambda>addrs. Inr (exec_ssh_addrs run elapsed addrs cmd))"

definition exec_bootstrap_ssh :: "(string list \<Rightarrow> attempt_result) \<Rightarrow> string \<Rightarrow> string \<Rightarrow> (string \<times> ssh_error option) res" where
  "exec_bootstrap_ssh run target cmd = andthen (split_identity target) (\<lambda>_. Inr (exec_ssh_once run target cmd))"

definition host_node :: "string \<Rightarrow> string" where
  "host_node target = fst (cut_at (CHR ''.'') (after_last (CHR ''@'') target))"

definition local_target :: "string \<Rightarrow> string" where
  "local_target target = upto_last (CHR ''@'') target @ host_node target @ ''.local''"

subsection \<open>A command that ran is not run again\<close>

lemma drop_subseq_drop: "i \<le> j \<Longrightarrow> subseq (drop j xs) (drop i xs)"
  by (metis drop_drop le_add_diff_inverse2 suffix_drop suffix_imp_subseq)

lemma dial_from_spec:
  assumes "dial_from run elapsed cmd addrs k i l = (dialed, out, err)" and "i < length addrs"
  shows "(\<exists>rest. dialed = addrs ! i # rest \<and> subseq rest (drop (Suc i) addrs)) \<and>
    (\<forall>n. Suc n < length dialed \<longrightarrow> (\<exists>o' e. exec_ssh_once (run (k + n)) (dialed ! n) cmd = (o', Some e) \<and> is_conn_failure e)) \<and>
    exec_ssh_once (run (k + (length dialed - 1))) (last dialed) cmd = (out, err) \<and>
    (last dialed = last addrs \<or> (\<forall>e. err = Some e \<longrightarrow> \<not> is_conn_failure e)) \<and>
    (\<forall>n. Suc n < length dialed \<and> sshDialBudget \<le> elapsed (k + n) \<longrightarrow> length dialed = Suc (Suc n) \<and> last dialed = last addrs)"
  using assms
proof (induction run elapsed cmd addrs k i l arbitrary: dialed out err rule: dial_from.induct)
  case (1 run elapsed cmd addrs k i l)
  obtain o' r where r: "exec_ssh_once (run k) (addrs ! i) cmd = (o', r)" by force
  show ?case
  proof (cases "\<exists>e. r = Some e \<and> i < length addrs - 1 \<and> is_conn_failure e")
    case False
    have "dialed = [addrs ! i] \<and> out = o' \<and> err = r"
      using "1.prems" r False by (subst (asm) dial_from.simps) (auto split: option.splits if_splits)
    moreover have "addrs ! i = last addrs" if "\<not> i < length addrs - 1"
    proof -
      from that "1.prems"(2) have "i = length addrs - 1" "addrs \<noteq> []" by auto
      then show ?thesis by (simp add: last_conv_nth)
    qed
    ultimately show ?thesis using False r by auto
  next
    case True
    then obtain e where e: "r = Some e" "i < length addrs - 1" "is_conn_failure e" by blast
    define j where "j = (if elapsed k \<ge> sshDialBudget then length addrs - 2 else i)"
    have j: "i \<le> j" "Suc j < length addrs" using e(2) by (auto simp: j_def)
    obtain d2 where d2: "dial_from run elapsed cmd addrs (Suc k) (Suc j) (Some e) = (d2, out, err)" "dialed = addrs ! i # d2"
      using "1.prems" r e by (subst (asm) dial_from.simps) (auto simp: j_def Let_def split: prod.splits)
    note ih = "1.IH" [OF "1.prems"(2) r [symmetric] e(1) conjI [OF e(2,3)] j_def d2(1) j(2)]
    from ih obtain rest where rest: "d2 = addrs ! Suc j # rest" "subseq rest (drop (Suc (Suc j)) addrs)" by blast
    have "subseq d2 (drop (Suc j) addrs)"
      using rest j(2) by (simp add: Cons_nth_drop_Suc [symmetric])
    then have s: "subseq d2 (drop (Suc i) addrs)" using drop_subseq_drop [of "Suc i" "Suc j" addrs] j(1) subseq_order.order_trans by auto
    have ne: "d2 \<noteq> []" using rest by simp
    have fails: "\<exists>o' e. exec_ssh_once (run (k + n)) (dialed ! n) cmd = (o', Some e) \<and> is_conn_failure e" if "Suc n < length dialed" for n
    proof (cases n)
      case 0
      with r e d2(2) show ?thesis by auto
    next
      case (Suc m)
      with that d2(2) have "Suc m < length d2" by simp
      with ih have "\<exists>o' e. exec_ssh_once (run (Suc k + m)) (d2 ! m) cmd = (o', Some e) \<and> is_conn_failure e" by blast
      with Suc d2(2) show ?thesis by simp
    qed
    have kd: "Suc k + (length d2 - 1) = k + (length dialed - 1)" using ne d2(2) by (cases d2) auto
    have l: "last dialed = last d2" using ne d2(2) by simp
    have "exec_ssh_once (run (Suc k + (length d2 - 1))) (last d2) cmd = (out, err)" using ih by blast
    then have last: "exec_ssh_once (run (k + (length dialed - 1))) (last dialed) cmd = (out, err)" unfolding kd l .
    have stop: "last dialed = last addrs \<or> (\<forall>e. err = Some e \<longrightarrow> \<not> is_conn_failure e)" using ih unfolding l by blast
    have budget: "length dialed = Suc (Suc n) \<and> last dialed = last addrs" if n: "Suc n < length dialed" "sshDialBudget \<le> elapsed (k + n)" for n
    proof (cases n)
      case 0
      with n have "Suc (Suc j) = length addrs" using e(2) by (auto simp: j_def)
      with rest(2) have "rest = []" "addrs ! Suc j = last addrs" by (auto simp: last_conv_nth) (metis diff_Suc_1 last_conv_nth length_0_conv nat.distinct(1))
      with rest(1) d2(2) 0 show ?thesis by simp
    next
      case (Suc m)
      with n d2(2) have "Suc m < length d2" "sshDialBudget \<le> elapsed (Suc k + m)" by simp_all
      with ih have "length d2 = Suc (Suc m) \<and> last d2 = last addrs" by blast
      with Suc d2(2) l show ?thesis by simp
    qed
    show ?thesis using d2(2) s fails last stop budget by blast
  qed
qed

text \<open>C9. The command runs on another address only after ssh itself failed on the one before: the dialed addresses are, in order,
  addresses of the list, each at most once when the list has no repetition; every attempt but the last was a
  connection failure; the result is the last attempt's; and a connection failure is returned only for
  the final address.\<close>

theorem failover_only_on_connection_failure:
  assumes "exec_ssh_addrs run elapsed addrs cmd = (dialed, out, err)" and "addrs \<noteq> []"
  shows "dialed \<noteq> [] \<and> hd dialed = hd addrs \<and> subseq dialed addrs \<and>
    (\<forall>n. Suc n < length dialed \<longrightarrow> (\<exists>o' e. exec_ssh_once (run n) (dialed ! n) cmd = (o', Some e) \<and> is_conn_failure e)) \<and>
    exec_ssh_once (run (length dialed - 1)) (last dialed) cmd = (out, err) \<and>
    (\<forall>e. err = Some e \<and> is_conn_failure e \<longrightarrow> last dialed = last addrs)"
proof -
  have i: "0 < length addrs" using assms(2) by simp
  note s = dial_from_spec [OF assms(1) [unfolded exec_ssh_addrs_def] i]
  then obtain rest where rest: "dialed = addrs ! 0 # rest" "subseq rest (drop (Suc 0) addrs)" by blast
  then have "subseq dialed addrs" using i by (cases addrs) auto
  with s rest i show ?thesis by (auto simp: hd_conv_nth)
qed

text \<open>Once ten seconds are spent, at most one more address is dialed, the final one.\<close>

theorem dial_budget_bounds_failover:
  assumes "exec_ssh_addrs run elapsed addrs cmd = (dialed, out, err)" and "n < length dialed" and "10 * 10 ^ 9 \<le> elapsed n"
  shows "length dialed \<le> n + 2 \<and> (length dialed = n + 2 \<longrightarrow> last dialed = last addrs)"
proof (cases "Suc n < length dialed")
  case True
  then have i: "0 < length addrs" using assms(1) by (auto simp: exec_ssh_addrs_def dial_from.simps [of _ _ _ _ _ 0] split: if_splits)
  from dial_from_spec [OF assms(1) [unfolded exec_ssh_addrs_def] i] True assms(3) show ?thesis by (auto simp: sshDialBudget_def)
qed simp

subsection \<open>Instances\<close>

text \<open>A dead address, then a command that fails by itself; and a run whose first attempt takes the whole budget.\<close>

definition sample_run :: "nat \<Rightarrow> string list \<Rightarrow> attempt_result" where
  "sample_run k args = \<lparr>ar_stdout = [], ar_stderr = [], ar_err = Some (if k = 0 then ExitError 255 0 else ExitError 1 0)\<rparr>"

lemma sample_failover:
  "exec_ssh_addrs sample_run (\<lambda>_. 3000000000) [''me@a'', ''me@b'', ''me@c''] ''true'' =
     ([''me@a'', ''me@b''], [], Some \<lparr>xe_addr = ''me@b'', xe_stderr = [], xe_err = ExitError 1 0\<rparr>)"
  by (simp add: exec_ssh_addrs_def dial_from.simps exec_ssh_once_def sample_run_def is_conn_failure_def sshConnFailureExit_def sshDialBudget_def)

theorem failover_only_on_connection_failure_witness:
  "\<exists>o' e. exec_ssh_once (sample_run 0) ''me@a'' ''true'' = (o', Some e) \<and> is_conn_failure e"
  using failover_only_on_connection_failure [OF sample_failover] by simp

lemma sample_spent:
  "exec_ssh_addrs sample_run (\<lambda>_. 10000000000) [''me@a'', ''me@b'', ''me@c''] ''true'' =
     ([''me@a'', ''me@c''], [], Some \<lparr>xe_addr = ''me@c'', xe_stderr = [], xe_err = ExitError 1 0\<rparr>)"
  by (simp add: exec_ssh_addrs_def dial_from.simps exec_ssh_once_def sample_run_def is_conn_failure_def sshConnFailureExit_def sshDialBudget_def)

theorem dial_budget_bounds_failover_witness: "length [''me@a'', ''me@c''] \<le> (0 :: nat) + 2"
  using dial_budget_bounds_failover [OF sample_spent, of 0] by simp

end
