(* ===== verification/Rpc_Client.thy ===== *)
theory Rpc_Client
  imports Host_State
begin

text \<open>
  Requests and responses of the RPC surface (\<^verbatim>\<open>src/rpc/protocol.go\<close>), the dispatcher that answers them
  (\<^verbatim>\<open>dispatch.go\<close>, \<^verbatim>\<open>server.go\<close>) and the client that keeps one lane to its peer (\<^verbatim>\<open>client.go\<close>).

  Handlers return a value and a new state of their own. \<^verbatim>\<open>any\<close> stands for the decoding of the
  parameters into Go's untyped values, and \<open>strquote\<close>, \<open>strunquote\<close> for \<^verbatim>\<open>strconv.Quote\<close> and \<^verbatim>\<open>Unquote\<close>, whose table of
  printable runes is not modelled. The lane is the daemon library's: what opens it, what a call on it answers, and its
  release are operations on a state the client does not see.
\<close>

subsection \<open>Requests and responses\<close>

record rpc_request =
  rq_method :: string
  rq_params :: json

text \<open>The result is the raw value, \<open>None\<close> when there is none.\<close>

record rpc_response =
  rs_ok :: bool
  rs_result :: "json option"
  rs_error :: string

definition callOp :: string where "callOp = ''synckit.rpc.call''"
definition unknownMethodPrefix :: string where "unknownMethodPrefix = ''unknown method ''"

definition encode_request :: "rpc_request \<Rightarrow> bytes" where
  "encode_request q = render (JObj [(''method'', JStr (rq_method q)), (''params'', rq_params q)])"

definition set_request :: "string \<Rightarrow> json \<Rightarrow> rpc_request \<Rightarrow> rpc_request option" where
  "set_request k j q =
     (if is_field ''method'' k then map_option (\<lambda>v. q\<lparr>rq_method := v\<rparr>) (as_str j (rq_method q))
      else if is_field ''params'' k then (case j of JObj _ \<Rightarrow> Some (q\<lparr>rq_params := j\<rparr>) | JNull \<Rightarrow> Some (q\<lparr>rq_params := JNull\<rparr>) | _ \<Rightarrow> None)
      else Some q)"

definition decode_request :: "bytes \<Rightarrow> rpc_request res" where
  "decode_request payload =
     (case (case unmarshal payload of None \<Rightarrow> None | Some j \<Rightarrow> as_struct set_request \<lparr>rq_method = [], rq_params = JNull\<rparr> j) of
        None \<Rightarrow> Inl (ErrMsg ''decode request'') | Some q \<Rightarrow> Inr q)"

definition encode_response :: "rpc_response \<Rightarrow> bytes" where
  "encode_response r = render (JObj ([(''ok'', JBool (rs_ok r)), (''result'', case rs_result r of None \<Rightarrow> JNull | Some j \<Rightarrow> j)] @
     (if rs_error r = [] then [] else [(''error'', JStr (rs_error r))])))"

definition set_response :: "string \<Rightarrow> json \<Rightarrow> rpc_response \<Rightarrow> rpc_response option" where
  "set_response k j r =
     (if is_field ''ok'' k then (case j of JBool b \<Rightarrow> Some (r\<lparr>rs_ok := b\<rparr>) | JNull \<Rightarrow> Some r | _ \<Rightarrow> None)
      else if is_field ''result'' k then Some (r\<lparr>rs_result := Some j\<rparr>)
      else if is_field ''error'' k then map_option (\<lambda>v. r\<lparr>rs_error := v\<rparr>) (as_str j (rs_error r))
      else Some r)"

definition zero_response :: rpc_response where
  "zero_response = \<lparr>rs_ok = False, rs_result = None, rs_error = []\<rparr>"

definition decode_response :: "bytes \<Rightarrow> rpc_response res" where
  "decode_response payload =
     (case (case unmarshal payload of None \<Rightarrow> None | Some j \<Rightarrow> as_struct set_response zero_response j) of
        None \<Rightarrow> Inl (ErrMsg ''decode response'') | Some r \<Rightarrow> Inr r)"

subsection \<open>The dispatcher\<close>

text \<open>How a handler ends: with a value, with one that does not marshal, with an error, or in a panic.\<close>

datatype handler_outcome = Returned json | Unencodable string | Failed string | Panicked string

record ('p, 's) dispatcher =
  dp_handlers :: "string \<rightharpoonup> ('p \<Rightarrow> 's \<Rightarrow> 's \<times> handler_outcome)"
  dp_exclusive :: "string \<Rightarrow> bool"

definition new_dispatcher :: "('p, 's) dispatcher" where
  "new_dispatcher = \<lparr>dp_handlers = Map.empty, dp_exclusive = (\<lambda>_. False)\<rparr>"

definition register :: "string \<Rightarrow> ('p \<Rightarrow> 's \<Rightarrow> 's \<times> handler_outcome) \<Rightarrow> ('p, 's) dispatcher \<Rightarrow> ('p, 's) dispatcher" where
  "register m h d = d\<lparr>dp_handlers := (dp_handlers d)(m \<mapsto> h)\<rparr>"

definition register_exclusive :: "string \<Rightarrow> ('p \<Rightarrow> 's \<Rightarrow> 's \<times> handler_outcome) \<Rightarrow> ('p, 's) dispatcher \<Rightarrow> ('p, 's) dispatcher" where
  "register_exclusive m h d = d\<lparr>dp_handlers := (dp_handlers d)(m \<mapsto> h), dp_exclusive := (dp_exclusive d)(m := True)\<rparr>"

definition error_response :: "string \<Rightarrow> rpc_response" where
  "error_response e = zero_response\<lparr>rs_error := e\<rparr>"

definition answer_of :: "handler_outcome \<Rightarrow> rpc_response" where
  "answer_of out = (case out of
     Returned j \<Rightarrow> \<lparr>rs_ok = True, rs_result = Some j, rs_error = []\<rparr>
   | Unencodable e \<Rightarrow> error_response (''encode result: '' @ e)
   | Failed e \<Rightarrow> error_response e
   | Panicked e \<Rightarrow> error_response (''handler panicked: '' @ e))"

definition dispatch :: "(string \<Rightarrow> string) \<Rightarrow> (json \<Rightarrow> 'p) \<Rightarrow> ('p, 's) dispatcher \<Rightarrow> rpc_request \<Rightarrow> 's \<Rightarrow> 's \<times> rpc_response" where
  "dispatch strquote any d q s = (case dp_handlers d (rq_method q) of
     None \<Rightarrow> (s, error_response (unknownMethodPrefix @ strquote (rq_method q)))
   | Some h \<Rightarrow> (case h (any (rq_params q)) s of (s', out) \<Rightarrow> (s', answer_of out)))"

text \<open>One admitted request of the daemon library: its operation and its body.\<close>

definition handle :: "(string \<Rightarrow> string) \<Rightarrow> (json \<Rightarrow> 'p) \<Rightarrow> ('p, 's) dispatcher \<Rightarrow> string \<Rightarrow> bytes \<Rightarrow> 's \<Rightarrow> 's \<times> bytes res" where
  "handle strquote any d op body s =
     (if op \<noteq> callOp then (s, Inl (ErrMsg ''rpc: op''))
      else case decode_request body of
        Inl e \<Rightarrow> (s, Inr (encode_response (error_response ''decode request'')))
      | Inr q \<Rightarrow> (case dispatch strquote any d q s of (s', r) \<Rightarrow> (s', Inr (encode_response r))))"

text \<open>What a caller makes of the error text of a failed response.\<close>

datatype reply_error = ErrUnknownMethod string | RemoteError string

definition reply_error :: "(string \<Rightarrow> string) \<Rightarrow> (string \<Rightarrow> string option) \<Rightarrow> string \<Rightarrow> reply_error" where
  "reply_error strquote strunquote message =
     (if take (length unknownMethodPrefix) message = unknownMethodPrefix then
        (let quoted = drop (length unknownMethodPrefix) message in
         case strunquote quoted of
           None \<Rightarrow> RemoteError message
         | Some m \<Rightarrow> if strquote m = quoted then ErrUnknownMethod quoted else RemoteError message)
      else RemoteError message)"

subsection \<open>The client\<close>

text \<open>A failed call says whether it provably never reached the dispatcher.\<close>

datatype call_error = TransportError bool goerr | OtherError goerr

datatype call_answer = Body bytes | CallFailed bool string

record client =
  cl_lane :: "nat option"
  cl_closed :: bool

record 's lane_ops =
  lo_open :: "'s \<Rightarrow> 's \<times> nat res"
  lo_send :: "nat \<Rightarrow> bytes \<Rightarrow> 's \<Rightarrow> 's \<times> call_answer"
  lo_close :: "nat \<Rightarrow> 's \<Rightarrow> 's"

definition new_client :: client where
  "new_client = \<lparr>cl_lane = None, cl_closed = False\<rparr>"

definition current_lane :: "'s lane_ops \<Rightarrow> client \<times> 's \<Rightarrow> (client \<times> 's) \<times> nat res" where
  "current_lane ops cs = (case cs of (c, s) \<Rightarrow>
     if cl_closed c then ((c, s), Inl (ErrMsg ''rpc: client closed''))
     else case cl_lane c of
       Some l \<Rightarrow> ((c, s), Inr l)
     | None \<Rightarrow> (case lo_open ops s of
         (s', Inl e) \<Rightarrow> ((c, s'), Inl e)
       | (s', Inr l) \<Rightarrow> ((c\<lparr>cl_lane := Some l\<rparr>, s'), Inr l)))"

definition retire :: "'s lane_ops \<Rightarrow> nat \<Rightarrow> client \<times> 's \<Rightarrow> client \<times> 's" where
  "retire ops l cs = (case cs of (c, s) \<Rightarrow> (if cl_lane c = Some l then c\<lparr>cl_lane := None\<rparr> else c, lo_close ops l s))"

definition client_call :: "'s lane_ops \<Rightarrow> rpc_request \<Rightarrow> client \<times> 's \<Rightarrow> (client \<times> 's) \<times> (call_error + rpc_response)" where
  "client_call ops q cs = (case current_lane ops cs of
     (cs1, Inl e) \<Rightarrow> (cs1, Inl (TransportError True e))
   | ((c, s), Inr l) \<Rightarrow> (case lo_send ops l (encode_request q) s of
       (s', CallFailed undispatched e) \<Rightarrow> (retire ops l (c, s'), Inl (TransportError undispatched (ErrIO e)))
     | (s', Body b) \<Rightarrow> (case decode_response b of
         Inl e \<Rightarrow> (retire ops l (c, s'), Inl (TransportError False e))
       | Inr r \<Rightarrow> ((c, s'), Inr r))))"

definition client_close :: "'s lane_ops \<Rightarrow> client \<times> 's \<Rightarrow> client \<times> 's" where
  "client_close ops cs = (case cs of (c, s) \<Rightarrow>
     (\<lparr>cl_lane = None, cl_closed = True\<rparr>, case cl_lane c of None \<Rightarrow> s | Some l \<Rightarrow> lo_close ops l s))"

subsection \<open>What a caller gets\<close>

lemma rpc_fields [simp]:
  "is_field ''method'' ''method''" "is_field ''params'' ''params''" "\<not> is_field ''method'' ''params''"
  "is_field ''ok'' ''ok''" "is_field ''result'' ''result''" "is_field ''error'' ''error''"
  "\<not> is_field ''ok'' ''result''" "\<not> is_field ''ok'' ''error''" "\<not> is_field ''result'' ''error''"
  by (simp_all add: is_field_def)

lemma decode_encoded_request:
  assumes "json_ok (rq_params q)" and "rq_params q = JNull \<or> (\<exists>kvs. rq_params q = JObj kvs)"
  shows "decode_request (encode_request q) = Inr q"
proof -
  have "json_ok (JObj [(''method'', JStr (rq_method q)), (''params'', rq_params q)])" using assms(1) by simp
  then have "unmarshal (encode_request q) = Some (JObj [(''method'', JStr (rq_method q)), (''params'', rq_params q)])"
    unfolding encode_request_def by (rule unmarshal_render)
  with assms(2) show ?thesis by (auto simp: decode_request_def set_request_def)
qed

lemma decode_encoded_response:
  assumes "json_ok (case rs_result r of None \<Rightarrow> JNull | Some j \<Rightarrow> j)"
  shows "decode_response (encode_response r) = Inr (r\<lparr>rs_result := Some (case rs_result r of None \<Rightarrow> JNull | Some j \<Rightarrow> j)\<rparr>)"
proof -
  let ?o = "JObj ([(''ok'', JBool (rs_ok r)), (''result'', case rs_result r of None \<Rightarrow> JNull | Some j \<Rightarrow> j)] @
     (if rs_error r = [] then [] else [(''error'', JStr (rs_error r))]))"
  have "json_ok ?o" using assms by simp
  then have "unmarshal (encode_response r) = Some ?o" unfolding encode_response_def by (rule unmarshal_render)
  then show ?thesis by (cases "rs_error r = []") (simp_all add: decode_response_def set_response_def zero_response_def)
qed

definition outcome_ok :: "handler_outcome \<Rightarrow> bool" where
  "outcome_ok out = (case out of Returned j \<Rightarrow> json_ok j | _ \<Rightarrow> True)"

definition wire_response :: "rpc_response \<Rightarrow> rpc_response" where
  "wire_response r = r\<lparr>rs_result := Some (case rs_result r of None \<Rightarrow> JNull | Some j \<Rightarrow> j)\<rparr>"

lemma answer_json_ok: "outcome_ok out \<Longrightarrow> json_ok (case rs_result (answer_of out) of None \<Rightarrow> JNull | Some j \<Rightarrow> j)"
  by (cases out) (simp_all add: outcome_ok_def answer_of_def error_response_def zero_response_def)

text \<open>A request that crosses the wire to a registered handler runs it once on its own parameters, and the caller decodes
  its answer: its value, or its error text; a panic and a value that does not marshal are error responses.\<close>
theorem reply_is_handlers:
  assumes "json_ok (rq_params q)" and "rq_params q = JNull \<or> (\<exists>kvs. rq_params q = JObj kvs)"
    and "dp_handlers d (rq_method q) = Some h" and "h (any (rq_params q)) s = (s', out)" and "outcome_ok out"
  shows "\<exists>body. handle strquote any d callOp (encode_request q) s = (s', Inr body) \<and> decode_response body = Inr (wire_response (answer_of out))"
  using assms decode_encoded_request [of q] decode_encoded_response [OF answer_json_ok [OF assms(5)]]
  by (simp add: handle_def dispatch_def wire_response_def)

text \<open>A caller learns that the peer lacks a method, and only from the reply that names a method in its canonical quotes.\<close>
theorem unknown_method_recognised:
  assumes "\<And>m. strunquote (strquote m) = Some m" and "json_ok (rq_params q)" and "rq_params q = JNull \<or> (\<exists>kvs. rq_params q = JObj kvs)"
  shows "dp_handlers d (rq_method q) = None \<Longrightarrow> \<exists>body r. handle strquote any d callOp (encode_request q) s = (s, Inr body) \<and>
           decode_response body = Inr r \<and> \<not> rs_ok r \<and> reply_error strquote strunquote (rs_error r) = ErrUnknownMethod (strquote (rq_method q))"
    and "reply_error strquote strunquote message = ErrUnknownMethod quoted \<longleftrightarrow> message = unknownMethodPrefix @ quoted \<and> (\<exists>m. quoted = strquote m)"
proof -
  have r: "reply_error strquote strunquote (unknownMethodPrefix @ strquote m) = ErrUnknownMethod (strquote m)" for m
    using assms(1) by (simp add: reply_error_def)
  show "\<exists>body r. handle strquote any d callOp (encode_request q) s = (s, Inr body) \<and>
           decode_response body = Inr r \<and> \<not> rs_ok r \<and> reply_error strquote strunquote (rs_error r) = ErrUnknownMethod (strquote (rq_method q))"
    if "dp_handlers d (rq_method q) = None"
    using that decode_encoded_request [OF assms(2,3)] decode_encoded_response [of "error_response (unknownMethodPrefix @ strquote (rq_method q))"] r
    by (simp add: handle_def dispatch_def error_response_def zero_response_def)
  show "reply_error strquote strunquote message = ErrUnknownMethod quoted \<longleftrightarrow> message = unknownMethodPrefix @ quoted \<and> (\<exists>m. quoted = strquote m)"
  proof
    assume e: "reply_error strquote strunquote message = ErrUnknownMethod quoted"
    then have "take (length unknownMethodPrefix) message = unknownMethodPrefix" "quoted = drop (length unknownMethodPrefix) message" "\<exists>m. strquote m = quoted"
      by (auto simp: reply_error_def Let_def split: if_splits option.splits)
    then show "message = unknownMethodPrefix @ quoted \<and> (\<exists>m. quoted = strquote m)"
      by (metis append_take_drop_id)
  next
    assume "message = unknownMethodPrefix @ quoted \<and> (\<exists>m. quoted = strquote m)"
    then show "reply_error strquote strunquote message = ErrUnknownMethod quoted" using r by auto
  qed
qed

subsection \<open>A call is sent once\<close>

text \<open>The contract of a lane supplier. \<open>delivered\<close> counts the calls that may have reached the peer's dispatcher.\<close>

locale lanes =
  fixes ops :: "'s lane_ops" and delivered :: "'s \<Rightarrow> nat"
  assumes open_law: "lo_open ops s = (s', r) \<Longrightarrow> delivered s' = delivered s"
    and close_law: "delivered (lo_close ops l s) = delivered s"
    and send_law: "lo_send ops l p s = (s', a) \<Longrightarrow> delivered s' = delivered s + (case a of CallFailed True _ \<Rightarrow> 0 | _ \<Rightarrow> 1)"
begin

lemma current_delivers: "current_lane ops (c, s) = ((c', s'), r) \<Longrightarrow> delivered s' = delivered s"
  by (auto simp: current_lane_def split: if_splits option.splits prod.splits sum.splits dest: open_law)

lemma retire_delivers: "delivered (snd (retire ops l (c, s))) = delivered s"
  by (simp add: retire_def close_law)

lemma call_at_most_once:
  assumes "client_call ops q (c, s) = ((c', s'), r)"
  shows "delivered s' = delivered s + (case r of Inl (TransportError True e) \<Rightarrow> 0 | _ \<Rightarrow> 1)"
proof -
  obtain c1 s1 r1 where cur: "current_lane ops (c, s) = ((c1, s1), r1)" by (metis surj_pair)
  note d1 = current_delivers [OF this]
  show ?thesis
  proof (cases r1)
    case (Inl e)
    with assms cur d1 show ?thesis by (auto simp: client_call_def)
  next
    case (Inr l)
    obtain s2 a where send: "lo_send ops l (encode_request q) s1 = (s2, a)" by (metis surj_pair)
    note d2 = send_law [OF this]
    show ?thesis
    proof (cases a)
      case (CallFailed u e)
      with assms cur Inr send have "s' = snd (retire ops l (c1, s2))" "r = Inl (TransportError u (ErrIO e))"
        by (auto simp: client_call_def)
      with d1 d2 CallFailed show ?thesis by (auto simp: retire_delivers split: bool.splits)
    next
      case (Body b)
      show ?thesis
      proof (cases "decode_response b")
        case (Inl e)
        with assms cur Inr send Body have "s' = snd (retire ops l (c1, s2))" "r = Inl (TransportError False e)"
          by (auto simp: client_call_def)
        with d1 d2 Body show ?thesis by (simp add: retire_delivers)
      next
        case (Inr v)
        with assms cur \<open>r1 = Inr l\<close> send Body have "s' = s2" "r = Inr v" by (auto simp: client_call_def)
        with d1 d2 Body show ?thesis by simp
      qed
    qed
  qed
qed

lemma close_delivers: "client_close ops (c, s) = (c', s') \<Longrightarrow> delivered s' = delivered s"
  by (auto simp: client_close_def close_law split: option.splits)

end

text \<open>Lane ownership: a client holds the lane it opened until it releases it. \<open>opened\<close> is the set of lanes open in the state.\<close>

locale owned_lanes =
  fixes ops :: "'s lane_ops" and open_lanes :: "'s \<Rightarrow> nat set"
  assumes opens: "lo_open ops s = (s', Inr l) \<Longrightarrow> open_lanes s' = insert l (open_lanes s)"
    and refuses: "lo_open ops s = (s', Inl e) \<Longrightarrow> open_lanes s' = open_lanes s"
    and sends: "lo_send ops l p s = (s', a) \<Longrightarrow> open_lanes s' = open_lanes s"
    and closes: "open_lanes (lo_close ops l s) = open_lanes s - {l}"
begin

lemma call_owns:
  assumes "client_call ops q (c, s) = ((c', s'), r)" and "open_lanes s = set_option (cl_lane c)"
  shows "open_lanes s' = set_option (cl_lane c')"
  using assms
  by (auto simp: client_call_def current_lane_def retire_def closes
      split: if_splits option.splits prod.splits sum.splits call_answer.splits dest!: opens refuses sends)

lemma close_owns: "client_close ops (c, s) = (c', s') \<Longrightarrow> open_lanes s = set_option (cl_lane c) \<Longrightarrow> open_lanes s' = {} \<and> cl_lane c' = None \<and> cl_closed c'"
  by (auto simp: client_close_def closes split: option.splits)

end

end
