(* ===== verification/Sync_Transport.thy ===== *)
theory Sync_Transport
  imports Rpc_Client Host_Registry Presence
begin

text \<open>
  The transports of the sync service (\<^verbatim>\<open>src/internal/synctransport/transport.go\<close>) and the enrollment of a joining host
  that goes through them (\<^verbatim>\<open>src/daemon/enroll.go\<close>): one child process and one lane at a time, the failover of a
  remote transport over the addresses of its host, and the caller that repeats a call that never left.

  The world keeps a log, oldest event first, and answers each question from it; a child and its lane are named by the
  position of the event that spawned it. A transport holds its mutex over each operation, so operations do not interleave.
\<close>

subsection \<open>Commands\<close>

datatype channel = ChannelHandoff | ChannelStdio

record process_cmd =
  pc_path :: string
  pc_args :: "string list"
  pc_dir :: string
  pc_env :: "string list"
  pc_session :: bool
  pc_frame :: "int option"

definition MaxPayload :: int where "MaxPayload = 16 * 2 ^ 20"
definition MaxFrame :: int where "MaxFrame = (MaxPayload * 4 + 2) div 3 + 4 * 2 ^ 10"

text \<open>\<^verbatim>\<open>filepath.Dir\<close>.\<close>

definition path_dir :: "string \<Rightarrow> string" where
  "path_dir path = clean_path (upto_last (CHR ''/'') path)"

definition spawned_command :: "string res \<Rightarrow> string \<Rightarrow> string list \<Rightarrow> process_cmd res" where
  "spawned_command home executable args =
     (if executable = [] then Inl (ErrMsg ''syncservice: empty process argv'')
      else andthen home (\<lambda>h. Inr \<lparr>pc_path = executable, pc_args = args, pc_dir = path_dir executable,
        pc_env = [''HOME='' @ h], pc_session = True, pc_frame = None\<rparr>))"

subsection \<open>The world\<close>

datatype wire_event =
    Spawned process_cmd channel
  | SpawnFailed process_cmd channel
  | Stopped nat
  | ConnClosed nat
  | Opened nat
  | Sent nat bytes call_answer
  | LaneClosed nat

type_synonym wire = "wire_event list"

record wire_env =
  we_home :: "wire \<Rightarrow> string res"
  we_lstat :: "wire \<Rightarrow> string \<Rightarrow> file_kind res"
  we_spawn :: "wire \<Rightarrow> process_cmd \<Rightarrow> unit res"
  we_conn :: "wire \<Rightarrow> unit res"
  we_nonce :: "wire \<Rightarrow> bytes res"
  we_echo :: "wire \<Rightarrow> bytes"
  we_attach :: "wire \<Rightarrow> unit res"
  we_reply :: "wire \<Rightarrow> nat \<Rightarrow> bytes \<Rightarrow> call_answer"

definition start_process :: "wire_env \<Rightarrow> process_cmd \<Rightarrow> channel \<Rightarrow> wire \<Rightarrow> wire \<times> nat res" where
  "start_process env cmd ch w = (case we_spawn env w cmd of
     Inl e \<Rightarrow> (w @ [SpawnFailed cmd ch], Inl e)
   | Inr _ \<Rightarrow> (w @ [Spawned cmd ch], Inr (length w)))"

text \<open>A lane's state is the transport's child, if any, and the log.\<close>

type_synonym lane_state = "nat option \<times> wire"

definition wire_send :: "wire_env \<Rightarrow> nat \<Rightarrow> bytes \<Rightarrow> lane_state \<Rightarrow> lane_state \<times> call_answer" where
  "wire_send env l p s = (let a = we_reply env (snd s) l p in ((fst s, snd s @ [Sent l p a]), a))"

definition wire_close :: "nat \<Rightarrow> lane_state \<Rightarrow> lane_state" where
  "wire_close l s = (fst s, snd s @ [LaneClosed l])"

text \<open>\<^verbatim>\<open>reset\<close>, the same in both transports: the client is closed, then the child is stopped.\<close>

definition reset_session :: "lane_state lane_ops \<Rightarrow> client option \<Rightarrow> lane_state \<Rightarrow> wire" where
  "reset_session ops client s =
     (let w = (case client of None \<Rightarrow> snd s | Some c \<Rightarrow> snd (snd (client_close ops (c, s)))) in
      case fst s of None \<Rightarrow> w | Some child \<Rightarrow> w @ [Stopped child])"

subsection \<open>The remote transport\<close>

record remote_target =
  tg_fact :: host_fact
  tg_known_hosts :: string
  tg_service :: string

definition attach :: "wire_env \<Rightarrow> wire \<Rightarrow> unit res" where
  "attach env w = andthen (we_nonce env w) (\<lambda>nonce. andthen (verify_remote_hello nonce (we_echo env w)) (\<lambda>_. we_attach env w))"

definition dial_command :: "wire_env \<Rightarrow> remote_target \<Rightarrow> nat \<Rightarrow> wire \<Rightarrow> process_cmd res" where
  "dial_command env tg i w =
     andthen (remote_ssh_argv (we_lstat env w) (tg_fact tg) (hf_addresses (tg_fact tg) ! i) (tg_known_hosts tg) (tg_service tg)) (\<lambda>argv.
       spawned_command (we_home env w) (hd argv) (tl argv))"

definition dial :: "wire_env \<Rightarrow> remote_target \<Rightarrow> nat \<Rightarrow> lane_state \<Rightarrow> lane_state \<times> nat res" where
  "dial env tg i s = (case s of (sess, w) \<Rightarrow>
     if length (hf_addresses (tg_fact tg)) \<le> i then (s, Inl (ErrMsg ''syncservice: remote host has no dial address''))
     else case dial_command env tg i w of
       Inl e \<Rightarrow> (s, Inl e)
     | Inr cmd \<Rightarrow> (case start_process env cmd ChannelStdio w of
         (w1, Inl e) \<Rightarrow> ((sess, w1), Inl e)
       | (w1, Inr child) \<Rightarrow> (case we_conn env w1 of
           Inl e \<Rightarrow> ((sess, w1 @ [Stopped child]), Inl e)
         | Inr _ \<Rightarrow> (case attach env w1 of
             Inl e \<Rightarrow> ((sess, w1 @ [ConnClosed child, Stopped child]), Inl e)
           | Inr _ \<Rightarrow> ((Some child, w1 @ [Opened child]), Inr child)))))"

definition remote_lanes :: "wire_env \<Rightarrow> remote_target \<Rightarrow> nat \<Rightarrow> lane_state lane_ops" where
  "remote_lanes env tg i = \<lparr>lo_open = dial env tg i, lo_send = wire_send env, lo_close = wire_close\<rparr>"

record transport =
  rt_client :: "client option"
  rt_session :: "nat option"
  rt_index :: nat
  rt_closed :: bool

definition new_transport :: transport where
  "new_transport = \<lparr>rt_client = None, rt_session = None, rt_index = 0, rt_closed = False\<rparr>"

definition undispatched :: "call_error \<Rightarrow> bool" where
  "undispatched e = (case e of TransportError u _ \<Rightarrow> u | OtherError _ \<Rightarrow> False)"

definition next_index :: "remote_target \<Rightarrow> call_error \<Rightarrow> nat \<Rightarrow> nat" where
  "next_index tg e i = (if undispatched e \<and> i + 1 < length (hf_addresses (tg_fact tg)) then i + 1 else i)"

definition remote_do :: "wire_env \<Rightarrow> remote_target \<Rightarrow> rpc_request \<Rightarrow> transport \<times> wire \<Rightarrow> (transport \<times> wire) \<times> (call_error + rpc_response)" where
  "remote_do env tg q tw = (case tw of (t, w) \<Rightarrow>
     if rt_closed t then (tw, Inl (OtherError (ErrMsg ''syncservice: remote transport closed'')))
     else let ops = remote_lanes env tg (rt_index t); c = (case rt_client t of None \<Rightarrow> new_client | Some c \<Rightarrow> c) in
       case client_call ops q (c, rt_session t, w) of
         ((c', s), Inr r) \<Rightarrow> ((t\<lparr>rt_client := Some c', rt_session := fst s\<rparr>, snd s), Inr r)
       | ((c', s), Inl e) \<Rightarrow>
           ((t\<lparr>rt_client := None, rt_session := None, rt_index := next_index tg e (rt_index t)\<rparr>, reset_session ops (Some c') s), Inl e))"

definition remote_close :: "wire_env \<Rightarrow> remote_target \<Rightarrow> transport \<times> wire \<Rightarrow> transport \<times> wire" where
  "remote_close env tg tw = (case tw of (t, w) \<Rightarrow>
     if rt_closed t then tw
     else (t\<lparr>rt_client := None, rt_session := None, rt_closed := True\<rparr>,
       reset_session (remote_lanes env tg (rt_index t)) (rt_client t) (rt_session t, w)))"

subsection \<open>The spawned transport\<close>

definition spawned_lanes :: "wire_env \<Rightarrow> nat \<Rightarrow> lane_state lane_ops" where
  "spawned_lanes env child = \<lparr>lo_open = (\<lambda>s. case we_attach env (snd s) of
       Inl e \<Rightarrow> (s, Inl e) | Inr _ \<Rightarrow> ((fst s, snd s @ [Opened child]), Inr child)),
     lo_send = wire_send env, lo_close = wire_close\<rparr>"

definition spawned_start :: "wire_env \<Rightarrow> string \<Rightarrow> string \<Rightarrow> wire \<Rightarrow> wire \<times> nat res" where
  "spawned_start env executable service w =
     (case spawned_command (we_home env w) executable [RemoteServeCommand, service] of
        Inl e \<Rightarrow> (w, Inl e)
      | Inr cmd \<Rightarrow> start_process env (cmd\<lparr>pc_frame := Some MaxFrame\<rparr>) ChannelHandoff w)"

definition spawned_call :: "wire_env \<Rightarrow> rpc_request \<Rightarrow> transport \<Rightarrow> client \<Rightarrow> nat \<Rightarrow> wire \<Rightarrow> (transport \<times> wire) \<times> (call_error + rpc_response)" where
  "spawned_call env q t c child w =
     (case client_call (spawned_lanes env child) q (c, Some child, w) of
        ((c', s), Inr r) \<Rightarrow> ((t\<lparr>rt_client := Some c', rt_session := Some child\<rparr>, snd s), Inr r)
      | ((c', s), Inl e) \<Rightarrow> ((t\<lparr>rt_client := None, rt_session := None\<rparr>, reset_session (spawned_lanes env child) (Some c') s), Inl e))"

definition spawned_do :: "wire_env \<Rightarrow> string \<Rightarrow> string \<Rightarrow> rpc_request \<Rightarrow> transport \<times> wire \<Rightarrow> (transport \<times> wire) \<times> (call_error + rpc_response)" where
  "spawned_do env executable service q tw = (case tw of (t, w) \<Rightarrow>
     if rt_closed t then (tw, Inl (OtherError (ErrMsg ''syncservice: spawned transport closed'')))
     else case (rt_client t, rt_session t) of
       (Some c, Some child) \<Rightarrow> spawned_call env q t c child w
     | _ \<Rightarrow> (case spawned_start env executable service w of
         (w1, Inl e) \<Rightarrow> ((t, w1), Inl (OtherError e))
       | (w1, Inr child) \<Rightarrow> spawned_call env q t new_client child w1))"

definition spawned_close :: "wire_env \<Rightarrow> transport \<times> wire \<Rightarrow> transport \<times> wire" where
  "spawned_close env tw = (case tw of (t, w) \<Rightarrow>
     if rt_closed t then tw
     else (t\<lparr>rt_client := None, rt_session := None, rt_closed := True\<rparr>,
       reset_session (spawned_lanes env (case rt_session t of None \<Rightarrow> 0 | Some child \<Rightarrow> child)) (rt_client t) (rt_session t, w)))"

subsection \<open>Enrollment\<close>

definition MethodIdentity :: string where "MethodIdentity = ''synckit.syncservice.identity.v1''"
definition MethodEnroll :: string where "MethodEnroll = ''synckit.syncservice.enroll.v1''"

text \<open>\<^verbatim>\<open>json.Unmarshal\<close> into a byte slice.\<close>

definition as_byte :: "json \<Rightarrow> char option" where
  "as_byte j = (case j of JNum s \<Rightarrow> (case parse_uint64 s of Inl _ \<Rightarrow> None | Inr n \<Rightarrow> if n < 256 then Some (char_of n) else None)
     | JNull \<Rightarrow> Some (CHR 0x00) | _ \<Rightarrow> None)"

definition as_bytes :: "json \<Rightarrow> bytes option" where
  "as_bytes j = (case j of
     JStr s \<Rightarrow> base64_decode (filter (\<lambda>c. c \<noteq> CHR 0x0D \<and> c \<noteq> CHR 0x0A) s)
   | JArr js \<Rightarrow> those (map as_byte js) | JNull \<Rightarrow> Some [] | _ \<Rightarrow> None)"

definition identity_of :: "rpc_response \<Rightarrow> bytes res" where
  "identity_of r =
     (if \<not> rs_ok r then Inl (ErrMsg ''synckit.syncservice.identity.v1'')
      else case as_bytes (case rs_result r of None \<Rightarrow> JNull | Some j \<Rightarrow> j) of
        None \<Rightarrow> Inl (ErrMsg ''decode result'')
      | Some b \<Rightarrow> andthen (valid_identity b) (\<lambda>_. Inr b))"

definition remote_identity :: "wire_env \<Rightarrow> remote_target \<Rightarrow> transport \<times> wire \<Rightarrow> (transport \<times> wire) \<times> (call_error + bytes)" where
  "remote_identity env tg tw = (case remote_do env tg \<lparr>rq_method = MethodIdentity, rq_params = JNull\<rparr> tw of
     (tw', Inl e) \<Rightarrow> (tw', Inl e)
   | (tw', Inr r) \<Rightarrow> (tw', case identity_of r of Inl e \<Rightarrow> Inl (OtherError e) | Inr b \<Rightarrow> Inr b))"

text \<open>The loop with \<open>n\<close> attempts left after this one.\<close>

fun identity_attempts :: "wire_env \<Rightarrow> remote_target \<Rightarrow> nat \<Rightarrow> transport \<times> wire \<Rightarrow> (transport \<times> wire) \<times> (call_error + bytes)" where
  "identity_attempts env tg 0 tw = remote_identity env tg tw"
| "identity_attempts env tg (Suc n) tw = (case remote_identity env tg tw of
     (tw', Inr b) \<Rightarrow> (tw', Inr b)
   | (tw', Inl e) \<Rightarrow> if undispatched e then identity_attempts env tg n tw' else (tw', Inl e))"

text \<open>\<open>mesh\<close> is the fact the registry holds for the host at that moment.\<close>

definition peer_identity :: "wire_env \<Rightarrow> remote_target \<Rightarrow> host_fact res \<Rightarrow> transport \<times> wire \<Rightarrow> (transport \<times> wire) \<times> (call_error + bytes)" where
  "peer_identity env tg mesh = identity_attempts env tg
     ((case mesh of Inl _ \<Rightarrow> 1 | Inr hf \<Rightarrow> max 1 (length (hf_addresses hf))) - 1)"

text \<open>\<open>caps\<close> and \<open>enroll\<close> are what the local consumer answers; \<open>enroll\<close> changes the consumer's state.\<close>

definition enroll_consumer :: "wire_env \<Rightarrow> remote_target \<Rightarrow> host_fact res \<Rightarrow> (call_error + string list) \<Rightarrow> (string \<Rightarrow> bytes \<Rightarrow> 'c \<Rightarrow> 'c \<times> (call_error + unit)) \<Rightarrow>
    string \<Rightarrow> 'c \<times> wire \<Rightarrow> ('c \<times> wire) \<times> bool \<times> call_error option" where
  "enroll_consumer env tg mesh caps enroll target cw = (case cw of (c, w) \<Rightarrow>
     case caps of
       Inl e \<Rightarrow> (cw, False, Some e)
     | Inr methods \<Rightarrow>
         if MethodEnroll \<notin> set methods then (cw, False, None)
         else (case peer_identity env tg mesh (new_transport, w) of
           (tw, Inl e) \<Rightarrow> ((c, snd (remote_close env tg tw)), False, Some e)
         | (tw, Inr identity) \<Rightarrow>
             (case (case validate_enroll target identity of Inl e \<Rightarrow> (c, Inl (OtherError e)) | Inr _ \<Rightarrow> enroll target identity c) of
                (c', r) \<Rightarrow> ((c', snd (remote_close env tg tw)), True, case r of Inl e \<Rightarrow> Some e | Inr _ \<Rightarrow> None))))"

subsection \<open>Reading the log\<close>

text \<open>The calls that may have reached a dispatcher, the children that run, and the lanes that are open.\<close>

definition maybe_delivered :: "wire_event \<Rightarrow> bool" where
  "maybe_delivered e = (case e of Sent _ _ (CallFailed True _) \<Rightarrow> False | Sent _ _ _ \<Rightarrow> True | _ \<Rightarrow> False)"

definition deliveries :: "wire \<Rightarrow> nat" where
  "deliveries w = length (filter maybe_delivered w)"

definition run_event :: "nat \<times> wire_event \<Rightarrow> nat set \<Rightarrow> nat set" where
  "run_event ke S = (case ke of (k, Spawned _ _) \<Rightarrow> insert k S | (_, Stopped c) \<Rightarrow> S - {c} | _ \<Rightarrow> S)"

definition running :: "wire \<Rightarrow> nat set" where
  "running w = fold run_event (enumerate 0 w) {}"

definition lane_event :: "wire_event \<Rightarrow> nat set \<Rightarrow> nat set" where
  "lane_event e S = (case e of Opened l \<Rightarrow> insert l S | LaneClosed l \<Rightarrow> S - {l} | _ \<Rightarrow> S)"

definition open_lanes :: "wire \<Rightarrow> nat set" where
  "open_lanes w = fold lane_event w {}"

lemma deliveries_snoc [simp]: "deliveries (w @ v) = deliveries w + deliveries v" "deliveries [] = 0"
  "deliveries (e # v) = (if maybe_delivered e then 1 else 0) + deliveries v"
  by (simp_all add: deliveries_def)

lemma quiet_wire [simp]:
  "\<not> maybe_delivered (Spawned c ch)" "\<not> maybe_delivered (SpawnFailed c ch)" "\<not> maybe_delivered (Stopped k)"
  "\<not> maybe_delivered (ConnClosed k)" "\<not> maybe_delivered (Opened k)" "\<not> maybe_delivered (LaneClosed k)"
  by (simp_all add: maybe_delivered_def)

lemma running_snoc: "running (w @ [e]) = run_event (length w, e) (running w)"
  by (simp add: running_def enumerate_append_eq)

lemma lanes_snoc: "open_lanes (w @ [e]) = lane_event e (open_lanes w)"
  by (simp add: open_lanes_def)

lemma running_two: "running (w @ [d, e]) = run_event (Suc (length w), e) (run_event (length w, d) (running w))"
  using running_snoc [of "w @ [d]" e] running_snoc [of w d] by simp

lemma lanes_two: "open_lanes (w @ [d, e]) = lane_event e (lane_event d (open_lanes w))"
  using lanes_snoc [of "w @ [d]" e] lanes_snoc [of w d] by simp

lemma running_three: "running (w @ [c, d, e]) = run_event (Suc (Suc (length w)), e) (run_event (Suc (length w), d) (run_event (length w, c) (running w)))"
  using running_snoc [of "w @ [c, d]" e] running_two [of w c d] by simp

lemma lanes_three: "open_lanes (w @ [c, d, e]) = lane_event e (lane_event d (lane_event c (open_lanes w)))"
  using lanes_snoc [of "w @ [c, d]" e] lanes_two [of w c d] by simp

lemma running_bound: "k \<in> running w \<Longrightarrow> k < length w"
proof (induction w rule: rev_induct)
  case (snoc e w)
  then show ?case by (auto simp: running_snoc run_event_def less_Suc_eq split: wire_event.splits)
qed (simp add: running_def)

lemma fresh_child: "insert (length w) (running w) - {length w} = running w"
  using running_bound [of "length w" w] by auto

lemmas wire_reads = running_snoc lanes_snoc running_two lanes_two running_three lanes_three run_event_def lane_event_def fresh_child

subsection \<open>What a dial does\<close>

lemma dial_cases:
  assumes "dial env tg i (sess, w) = (s', r)"
  obtains (refused) e where "r = Inl e" "s' = (sess, w)"
  | (spawn_failed) e cmd where "r = Inl e" "s' = (sess, w @ [SpawnFailed cmd ChannelStdio])"
  | (no_conn) e cmd where "r = Inl e" "s' = (sess, w @ [Spawned cmd ChannelStdio, Stopped (length w)])"
  | (no_lane) e cmd where "r = Inl e" "s' = (sess, w @ [Spawned cmd ChannelStdio, ConnClosed (length w), Stopped (length w)])"
  | (connected) cmd where "r = Inr (length w)" "s' = (Some (length w), w @ [Spawned cmd ChannelStdio, Opened (length w)])"
      "i < length (hf_addresses (tg_fact tg))" "dial_command env tg i w = Inr cmd" "attach env (w @ [Spawned cmd ChannelStdio]) = Inr ()"
  using assms by (auto simp: dial_def start_process_def split: if_splits sum.splits)

lemma dial_wire:
  assumes "dial env tg i (sess, w) = ((sess', w'), r)"
  shows "deliveries w' = deliveries w"
    and "r = Inl e \<Longrightarrow> sess' = sess \<and> running w' = running w \<and> open_lanes w' = open_lanes w"
    and "r = Inr l \<Longrightarrow> sess' = Some l \<and> l \<notin> running w \<and> running w' = insert l (running w) \<and> open_lanes w' = insert l (open_lanes w)"
  using assms by (cases rule: dial_cases; force simp: wire_reads dest: running_bound)+

interpretation rl: lanes "remote_lanes env tg i" "\<lambda>s. deliveries (snd s)" for env tg i
  by unfold_locales
    (auto simp: remote_lanes_def wire_send_def wire_close_def Let_def maybe_delivered_def split: call_answer.splits bool.splits dest: dial_wire(1))

interpretation ro: owned_lanes "remote_lanes env tg i" "\<lambda>s. open_lanes (snd s)" for env tg i
  by unfold_locales
    (auto simp: remote_lanes_def wire_send_def wire_close_def Let_def wire_reads dest: dial_wire(2,3))

interpretation sl: lanes "spawned_lanes env child" "\<lambda>s. deliveries (snd s)" for env child
  by unfold_locales
    (auto simp: spawned_lanes_def wire_send_def wire_close_def Let_def maybe_delivered_def split: call_answer.splits bool.splits sum.splits)

interpretation so: owned_lanes "spawned_lanes env child" "\<lambda>s. open_lanes (snd s)" for env child
  by unfold_locales
    (auto simp: spawned_lanes_def wire_send_def wire_close_def Let_def wire_reads split: sum.splits)

subsection \<open>One child at a time\<close>

text \<open>Between operations the children that run and the lanes that are open are the transport's own.\<close>

definition transport_ok :: "transport \<times> wire \<Rightarrow> bool" where
  "transport_ok tw = (case tw of (t, w) \<Rightarrow>
     running w = set_option (rt_session t) \<and> open_lanes w = set_option (rt_session t) \<and> (rt_closed t \<longrightarrow> rt_client t = None) \<and>
     (case rt_client t of None \<Rightarrow> rt_session t = None | Some c \<Rightarrow> cl_lane c = rt_session t \<and> \<not> cl_closed c \<and> rt_session t \<noteq> None))"

lemma lane_fields [simp]:
  "lo_open (remote_lanes env tg i) = dial env tg i" "lo_send (remote_lanes env tg i) = wire_send env" "lo_close (remote_lanes env tg i) = wire_close"
  "lo_send (spawned_lanes env child) = wire_send env" "lo_close (spawned_lanes env child) = wire_close"
  by (simp_all add: remote_lanes_def spawned_lanes_def)

lemma send_reads [simp]: "running (w @ [Sent l p a]) = running w" "running (w @ [LaneClosed l]) = running w" "running (w @ [Sent l p a, LaneClosed l']) = running w"
  by (simp_all add: wire_reads)

lemma call_running:
  assumes "client_call (remote_lanes env tg i) q (c, sess, w) = ((c', sess', w'), r)"
    and "running w = set_option sess" and "cl_lane c = sess" and "\<not> cl_closed c"
  shows "running w' = set_option sess' \<and> \<not> cl_closed c' \<and> (\<forall>v. r = Inr v \<longrightarrow> cl_lane c' = sess' \<and> sess' \<noteq> None)"
proof (cases sess)
  case (Some l)
  with assms show ?thesis
    by (auto simp: client_call_def current_lane_def retire_def wire_send_def wire_close_def Let_def split: call_answer.splits sum.splits) (metis option.exhaust option.distinct(1))
next
  case None
  obtain s1 w1 r1 where d: "dial env tg i (sess, w) = ((s1, w1), r1)" by (metis surj_pair)
  show ?thesis
  proof (cases r1)
    case (Inl e)
    with assms None d dial_wire(2) [OF d] show ?thesis by (auto simp: client_call_def current_lane_def)
  next
    case (Inr l)
    with assms None d dial_wire(3) [OF d Inr] show ?thesis
      by (auto simp: client_call_def current_lane_def retire_def wire_send_def wire_close_def Let_def split: call_answer.splits sum.splits)
  qed
qed

lemma reset_clears:
  assumes "running w = set_option sess" and "open_lanes w = set_option (case client of None \<Rightarrow> None | Some c \<Rightarrow> cl_lane c)" and "lo_close ops = wire_close"
  shows "running (reset_session ops client (sess, w)) = {}" and "open_lanes (reset_session ops client (sess, w)) = {}"
  using assms by (auto simp: reset_session_def client_close_def wire_close_def wire_reads split: option.splits)

lemma remote_do_ok:
  assumes "transport_ok (t, w)" and "remote_do env tg q (t, w) = ((t', w'), r)"
  shows "transport_ok (t', w')"
proof (cases "rt_closed t")
  case True
  with assms show ?thesis by (simp add: remote_do_def)
next
  case open_t: False
  define c where "c = (case rt_client t of None \<Rightarrow> new_client | Some c \<Rightarrow> c)"
  have c: "cl_lane c = rt_session t" "\<not> cl_closed c" "running w = set_option (rt_session t)" "open_lanes w = set_option (cl_lane c)"
    using assms(1) by (auto simp: c_def transport_ok_def new_client_def split: option.splits)
  obtain c' sess' w1 r1 where call: "client_call (remote_lanes env tg (rt_index t)) q (c, rt_session t, w) = ((c', sess', w1), r1)" by (metis surj_pair)
  note k = call_running [OF call c(3,1,2)]
  have l: "open_lanes w1 = set_option (cl_lane c')" using ro.call_owns [OF call] c(4) by simp
  show ?thesis
  proof (cases r1)
    case (Inl e)
    with assms(2) open_t call have "t' = t\<lparr>rt_client := None, rt_session := None, rt_index := next_index tg e (rt_index t)\<rparr>"
      "w' = reset_session (remote_lanes env tg (rt_index t)) (Some c') (sess', w1)" by (simp_all add: remote_do_def Let_def c_def [symmetric])
    with k l reset_clears [of w1 sess' "Some c'" "remote_lanes env tg (rt_index t)"] show ?thesis by (simp add: transport_ok_def)
  next
    case (Inr v)
    with assms(2) open_t call have "t' = t\<lparr>rt_client := Some c', rt_session := sess'\<rparr>" "w' = w1" by (simp_all add: remote_do_def Let_def c_def [symmetric])
    with k l Inr open_t show ?thesis by (simp add: transport_ok_def)
  qed
qed

lemma remote_close_ok:
  assumes "transport_ok (t, w)" and "remote_close env tg (t, w) = (t', w')"
  shows "transport_ok (t', w')" and "rt_closed t'" and "running w' = {}" and "open_lanes w' = {}"
proof -
  have "running w = set_option (rt_session t)" "open_lanes w = set_option (case rt_client t of None \<Rightarrow> None | Some c \<Rightarrow> cl_lane c)"
    using assms(1) by (auto simp: transport_ok_def split: option.splits)
  from reset_clears [OF this, of "remote_lanes env tg (rt_index t)"] assms
  show "transport_ok (t', w')" and "rt_closed t'" and "running w' = {}" and "open_lanes w' = {}"
    by (auto simp: remote_close_def transport_ok_def split: if_splits option.splits)
qed

subsection \<open>Requests leave once\<close>

lemma reset_deliveries: "lo_close ops = wire_close \<Longrightarrow> deliveries (reset_session ops client (sess, w)) = deliveries w"
  by (auto simp: reset_session_def client_close_def wire_close_def split: option.splits)

lemma remote_do_deliveries:
  assumes "remote_do env tg q (t, w) = ((t', w'), r)"
  shows "deliveries w' = deliveries w + (case r of Inl (TransportError False e) \<Rightarrow> 1 | Inl _ \<Rightarrow> 0 | Inr _ \<Rightarrow> 1)"
proof (cases "rt_closed t")
  case False
  define c where "c = (case rt_client t of None \<Rightarrow> new_client | Some c \<Rightarrow> c)"
  obtain c' sess' w1 r1 where call: "client_call (remote_lanes env tg (rt_index t)) q (c, rt_session t, w) = ((c', sess', w1), r1)" by (metis surj_pair)
  have o: "r1 \<noteq> Inl (OtherError e)" for e using call by (auto simp: client_call_def split: prod.splits sum.splits call_answer.splits)
  from rl.call_at_most_once [OF call] o assms False call show ?thesis
    by (cases r1) (auto simp: remote_do_def Let_def c_def [symmetric] reset_deliveries split: call_error.splits bool.splits)
qed (use assms in \<open>auto simp: remote_do_def\<close>)

lemma remote_identity_deliveries:
  assumes "remote_identity env tg (t, w) = ((t', w'), r)"
  shows "deliveries w' \<le> deliveries w + 1" and "r = Inl e \<Longrightarrow> undispatched e \<Longrightarrow> deliveries w' = deliveries w"
proof -
  obtain t1 w1 r1 where d: "remote_do env tg \<lparr>rq_method = MethodIdentity, rq_params = JNull\<rparr> (t, w) = ((t1, w1), r1)" by (metis surj_pair)
  note k = remote_do_deliveries [OF d]
  from k d assms show "deliveries w' \<le> deliveries w + 1" by (auto simp: remote_identity_def split: sum.splits call_error.splits bool.splits)
  from k d assms show "r = Inl e \<Longrightarrow> undispatched e \<Longrightarrow> deliveries w' = deliveries w"
    by (auto simp: remote_identity_def undispatched_def split: sum.splits call_error.splits bool.splits)
qed

lemma identity_attempts_deliveries: "identity_attempts env tg n tw = ((t', w'), r) \<Longrightarrow> deliveries w' \<le> deliveries (snd tw) + 1"
proof (induction n arbitrary: tw)
  case 0
  then show ?case using remote_identity_deliveries(1) by (cases tw) auto
next
  case (Suc n)
  obtain t w where tw: "tw = (t, w)" by (cases tw)
  obtain t1 w1 r1 where i: "remote_identity env tg (t, w) = ((t1, w1), r1)" by (metis surj_pair)
  note k = remote_identity_deliveries [OF i]
  show ?case
  proof (cases "\<exists>e. r1 = Inl e \<and> undispatched e")
    case True
    then obtain e where e: "r1 = Inl e" "undispatched e" by blast
    with Suc.prems i tw have "identity_attempts env tg n (t1, w1) = ((t', w'), r)" by simp
    from Suc.IH [OF this] k(2) [OF e] tw show ?thesis by simp
  next
    case False
    with Suc.prems i tw have "w' = w1" by (auto split: sum.splits)
    with k(1) tw show ?thesis by simp
  qed
qed

subsection \<open>What is in the log\<close>

text \<open>An event is in place when the log before it allows it: a command is the sealed one of an address, a lane opens
  on a child whose host echoed the nonce, and a request goes out on an open lane.\<close>

definition in_place :: "wire_env \<Rightarrow> remote_target \<Rightarrow> wire \<Rightarrow> wire_event \<Rightarrow> bool" where
  "in_place env tg w e = (case e of
     Spawned cmd ch \<Rightarrow> ch = ChannelStdio \<and> (\<exists>i < length (hf_addresses (tg_fact tg)). dial_command env tg i w = Inr cmd)
   | Opened l \<Rightarrow> l < length w \<and> attach env (take (Suc l) w) = Inr ()
   | Sent l _ _ \<Rightarrow> l \<in> open_lanes w
   | _ \<Rightarrow> True)"

definition honest :: "wire_env \<Rightarrow> remote_target \<Rightarrow> wire \<Rightarrow> bool" where
  "honest env tg w \<longleftrightarrow> (\<forall>n < length w. in_place env tg (take n w) (w ! n))"

lemma honest_snoc: "honest env tg (w @ [e]) \<longleftrightarrow> honest env tg w \<and> in_place env tg w e"
  by (auto simp: honest_def nth_append less_Suc_eq)

lemma honest_two: "honest env tg (w @ [d, e]) \<longleftrightarrow> honest env tg w \<and> in_place env tg w d \<and> in_place env tg (w @ [d]) e"
  using honest_snoc [of env tg "w @ [d]" e] honest_snoc [of env tg w d] by simp

lemma honest_three: "honest env tg (w @ [c, d, e]) \<longleftrightarrow>
    honest env tg w \<and> in_place env tg w c \<and> in_place env tg (w @ [c]) d \<and> in_place env tg (w @ [c, d]) e"
  using honest_snoc [of env tg "w @ [c, d]" e] honest_two [of env tg w c d] by simp

lemmas honest_reads = honest_snoc honest_two honest_three in_place_def

lemma dial_honest:
  assumes "dial env tg i (sess, w) = ((sess', w'), r)" and "honest env tg w"
  shows "honest env tg w'"
  using assms(2,1) by (auto simp: dial_def start_process_def honest_reads split: if_splits sum.splits) (meson not_le)+

lemma call_honest:
  assumes "client_call (remote_lanes env tg i) q (c, sess, w) = ((c', sess', w'), r)"
    and "honest env tg w" and "open_lanes w = set_option (cl_lane c)"
  shows "honest env tg w'"
proof (cases "cl_lane c")
  case (Some l)
  with assms show ?thesis
    by (auto simp: client_call_def current_lane_def retire_def wire_send_def wire_close_def Let_def honest_reads split: if_splits call_answer.splits sum.splits)
next
  case None
  obtain s1 w1 r1 where d: "dial env tg i (sess, w) = ((s1, w1), r1)" by (metis surj_pair)
  note h = dial_honest [OF d assms(2)]
  show ?thesis
  proof (cases r1)
    case (Inl e)
    with assms None d h show ?thesis by (auto simp: client_call_def current_lane_def split: if_splits)
  next
    case (Inr l)
    with assms None d h dial_wire(3) [OF d Inr] show ?thesis
      by (auto simp: client_call_def current_lane_def retire_def wire_send_def wire_close_def Let_def honest_reads split: if_splits call_answer.splits sum.splits)
  qed
qed

lemma reset_honest: "lo_close ops = wire_close \<Longrightarrow> honest env tg (reset_session ops client (sess, w)) \<longleftrightarrow> honest env tg w"
  by (auto simp: reset_session_def client_close_def wire_close_def honest_reads split: option.splits)

lemma remote_do_honest:
  assumes "transport_ok (t, w)" and "honest env tg w" and "remote_do env tg q (t, w) = ((t', w'), r)"
  shows "honest env tg w'"
proof (cases "rt_closed t")
  case False
  define c where "c = (case rt_client t of None \<Rightarrow> new_client | Some c \<Rightarrow> c)"
  have "open_lanes w = set_option (cl_lane c)"
    using assms(1) by (auto simp: c_def transport_ok_def new_client_def split: option.splits)
  moreover obtain c' sess' w1 r1 where call: "client_call (remote_lanes env tg (rt_index t)) q (c, rt_session t, w) = ((c', sess', w1), r1)" by (metis surj_pair)
  ultimately have "honest env tg w1" using call_honest assms(2) by blast
  with assms(3) False call show ?thesis by (cases r1) (auto simp: remote_do_def Let_def c_def [symmetric] reset_honest)
qed (use assms in \<open>auto simp: remote_do_def\<close>)

text \<open>The operations a caller runs on a transport.\<close>

datatype transport_op = Do rpc_request | Close

fun run_transport :: "wire_env \<Rightarrow> remote_target \<Rightarrow> transport_op list \<Rightarrow> transport \<times> wire \<Rightarrow> transport \<times> wire" where
  "run_transport env tg [] tw = tw"
| "run_transport env tg (Do q # ops) tw = run_transport env tg ops (fst (remote_do env tg q tw))"
| "run_transport env tg (Close # ops) tw = run_transport env tg ops (remote_close env tg tw)"

lemma run_transport_keeps: "transport_ok tw \<Longrightarrow> honest env tg (snd tw) \<Longrightarrow>
    transport_ok (run_transport env tg ops tw) \<and> honest env tg (snd (run_transport env tg ops tw))"
proof (induction env tg ops tw rule: run_transport.induct)
  case (2 env tg q ops tw)
  obtain t w where tw: "tw = (t, w)" by (cases tw)
  obtain t' w' r where d: "remote_do env tg q (t, w) = ((t', w'), r)" by (metis surj_pair)
  show ?case using 2 tw d remote_do_ok [OF _ d] remote_do_honest [OF _ _ d] by simp
next
  case (3 env tg ops tw)
  obtain t w where tw: "tw = (t, w)" by (cases tw)
  obtain t' w' where c: "remote_close env tg (t, w) = (t', w')" by (cases "remote_close env tg (t, w)")
  have "honest env tg w' \<longleftrightarrow> honest env tg w" using c by (auto simp: remote_close_def reset_honest split: if_splits)
  with 3 tw c remote_close_ok(1) [OF _ c] show ?case by simp
qed simp

lemma fresh_ok: "transport_ok (new_transport, [])" "honest env tg []"
  by (simp_all add: transport_ok_def new_transport_def running_def open_lanes_def honest_def)


subsection \<open>Failover\<close>

definition identity_request :: rpc_request where
  "identity_request = \<lparr>rq_method = MethodIdentity, rq_params = JNull\<rparr>"

definition idle :: "transport \<Rightarrow> bool" where
  "idle t \<longleftrightarrow> rt_client t = None \<and> rt_session t = None \<and> \<not> rt_closed t"

lemma dead_attempt:
  assumes "idle t" and "snd (dial env tg (rt_index t) (None, w)) = Inl e"
  obtains w1 where "remote_identity env tg (t, w) = ((t\<lparr>rt_index := next_index tg (TransportError True e) (rt_index t)\<rparr>, w1), Inl (TransportError True e))"
proof -
  obtain s1 w1 where d: "dial env tg (rt_index t) (None, w) = ((s1, w1), Inl e)" using assms(2) by (metis surj_pair snd_conv)
  have s: "s1 = None" using dial_wire(2) [OF d] by simp
  from assms(1) have t: "t\<lparr>rt_client := None, rt_session := None, rt_index := k\<rparr> = t\<lparr>rt_index := k\<rparr>" for k
    by (simp add: idle_def)
  from d s t assms(1) have "remote_identity env tg (t, w) = ((t\<lparr>rt_index := next_index tg (TransportError True e) (rt_index t)\<rparr>, w1), Inl (TransportError True e))"
    by (simp add: remote_identity_def remote_do_def idle_def client_call_def current_lane_def new_client_def reset_session_def client_close_def)
  then show ?thesis by (rule that)
qed

lemma live_attempt:
  assumes "idle t" and "dial env tg (rt_index t) (None, w) = ((s1, w1), Inr l)" and "we_reply env w1 l (encode_request identity_request) = Body b"
    and "decode_response b = Inr r" and "identity_of r = Inr ident"
  shows "snd (remote_identity env tg (t, w)) = Inr ident"
  using assms
  by (simp add: remote_identity_def remote_do_def idle_def client_call_def current_lane_def new_client_def wire_send_def identity_request_def [symmetric] Let_def)

text \<open>A peer that can be reached answers: when the first \<open>j\<close> addresses of a host refuse every connection and the next one
  does not, a fresh transport and the attempts the registry's fact allows end with the identity the peer sends.\<close>
theorem identity_from_first_reachable:
  assumes "j < length (hf_addresses (tg_fact tg))"
    and "\<And>i w. i < j \<Longrightarrow> \<exists>e. snd (dial env tg i (None, w)) = Inl e"
    and "\<And>w. \<exists>l. snd (dial env tg j (None, w)) = Inr l"
    and "\<And>w l. \<exists>b r. we_reply env w l (encode_request identity_request) = Body b \<and> decode_response b = Inr r \<and> identity_of r = Inr ident"
  shows "snd (peer_identity env tg (Inr (tg_fact tg)) (new_transport, w)) = Inr ident"
proof -
  have "idle t \<Longrightarrow> rt_index t \<le> j \<Longrightarrow> j - rt_index t \<le> n \<Longrightarrow> snd (identity_attempts env tg n (t, w)) = Inr ident" for t w n
  proof (induction n arbitrary: t w)
    case (0 t w)
    then have j: "rt_index t = j" by simp
    obtain l where "snd (dial env tg j (None, w)) = Inr l" using assms(3) by blast
    then obtain s1 w1 where d: "dial env tg (rt_index t) (None, w) = ((s1, w1), Inr l)" unfolding j by (metis surj_pair snd_conv)
    obtain b r where "we_reply env w1 l (encode_request identity_request) = Body b" "decode_response b = Inr r" "identity_of r = Inr ident"
      using assms(4) by blast
    from live_attempt [OF 0(1) d this] show ?case by simp
  next
    case (Suc n t w)
    show ?case
    proof (cases "rt_index t = j")
      case True
      obtain l where "snd (dial env tg j (None, w)) = Inr l" using assms(3) by blast
      then obtain s1 w1 where d: "dial env tg (rt_index t) (None, w) = ((s1, w1), Inr l)" unfolding True by (metis surj_pair snd_conv)
      obtain b r where "we_reply env w1 l (encode_request identity_request) = Body b" "decode_response b = Inr r" "identity_of r = Inr ident"
        using assms(4) by blast
      from live_attempt [OF Suc.prems(1) d this] have "snd (remote_identity env tg (t, w)) = Inr ident" .
      then show ?thesis by (cases "remote_identity env tg (t, w)") auto
    next
      case False
      with Suc.prems have i: "rt_index t < j" by simp
      with assms(2) obtain e where "snd (dial env tg (rt_index t) (None, w)) = Inl e" by blast
      from dead_attempt [OF Suc.prems(1) this] obtain w1
        where a: "remote_identity env tg (t, w) = ((t\<lparr>rt_index := next_index tg (TransportError True e) (rt_index t)\<rparr>, w1), Inl (TransportError True e))" .
      have x: "next_index tg (TransportError True e) (rt_index t) = Suc (rt_index t)" using i assms(1) by (simp add: next_index_def undispatched_def)
      have "snd (identity_attempts env tg n (t\<lparr>rt_index := Suc (rt_index t)\<rparr>, w1)) = Inr ident"
        using Suc.prems i by (intro Suc.IH) (auto simp: idle_def)
      with a x show ?thesis by (simp add: undispatched_def)
    qed
  qed
  from this [of new_transport] assms(1) show ?thesis by (simp add: peer_identity_def idle_def new_transport_def)
qed

subsection \<open>Enrollment\<close>

definition answered :: "wire \<Rightarrow> bytes \<Rightarrow> bool" where
  "answered w identity \<longleftrightarrow> (\<exists>l b r. Sent l (encode_request identity_request) (Body b) \<in> set w \<and> decode_response b = Inr r \<and> identity_of r = Inr identity)"

lemma call_answer:
  assumes "client_call (remote_lanes env tg i) q (c, s) = ((c', s'), Inr r)"
  shows "\<exists>l b. Sent l (encode_request q) (Body b) \<in> set (snd s') \<and> decode_response b = Inr r"
  using assms
  by (auto simp: client_call_def wire_send_def Let_def split: prod.splits sum.splits call_answer.splits) blast

lemma identity_answered:
  assumes "remote_identity env tg (t, w) = ((t', w'), Inr identity)"
  shows "answered w' identity"
proof -
  from assms obtain r where d: "remote_do env tg identity_request (t, w) = ((t', w'), Inr r)" "identity_of r = Inr identity"
    by (auto simp: remote_identity_def identity_request_def split: prod.splits sum.splits)
  from d(1) have "\<exists>l b. Sent l (encode_request identity_request) (Body b) \<in> set w' \<and> decode_response b = Inr r"
    by (auto simp: remote_do_def Let_def split: if_splits prod.splits sum.splits dest!: call_answer)
  with d(2) show ?thesis by (auto simp: answered_def)
qed

lemma remote_identity_keeps:
  assumes "remote_identity env tg (t, w) = ((t', w'), r)" and "transport_ok (t, w)" and "honest env tg w"
  shows "transport_ok (t', w') \<and> honest env tg w'"
proof -
  obtain t1 w1 r1 where d: "remote_do env tg \<lparr>rq_method = MethodIdentity, rq_params = JNull\<rparr> (t, w) = ((t1, w1), r1)" by (metis surj_pair)
  with assms(1) have "t' = t1 \<and> w' = w1" by (auto simp: remote_identity_def split: sum.splits)
  with remote_do_ok [OF assms(2) d] remote_do_honest [OF assms(2,3) d] show ?thesis by simp
qed

lemma attempts_keep:
  "identity_attempts env tg n (t, w) = ((t', w'), r) \<Longrightarrow> transport_ok (t, w) \<Longrightarrow> honest env tg w \<Longrightarrow>
    transport_ok (t', w') \<and> honest env tg w' \<and> (\<forall>identity. r = Inr identity \<longrightarrow> answered w' identity)"
proof (induction n arbitrary: t w)
  case 0
  then show ?case using remote_identity_keeps [of env tg t w t' w' r] identity_answered [of env tg t w t' w'] by auto
next
  case (Suc n)
  obtain t1 w1 r1 where i: "remote_identity env tg (t, w) = ((t1, w1), r1)" by (metis surj_pair)
  note k = remote_identity_keeps [OF i Suc.prems(2,3)]
  show ?case
  proof (cases "\<exists>e. r1 = Inl e \<and> undispatched e")
    case True
    with Suc.prems(1) i have "identity_attempts env tg n (t1, w1) = ((t', w'), r)" by auto
    from Suc.IH [OF this] k show ?thesis by blast
  next
    case False
    with Suc.prems(1) i have "t' = t1" "w' = w1" "r = r1" by (auto split: sum.splits)
    with k i identity_answered [of env tg t w t1 w1] show ?thesis by auto
  qed
qed

lemma close_after:
  assumes "transport_ok (t, w)" and "honest env tg w"
  shows "let w' = snd (remote_close env tg (t, w)) in running w' = {} \<and> open_lanes w' = {} \<and> honest env tg w' \<and> set w \<subseteq> set w' \<and> deliveries w' = deliveries w"
proof (cases "rt_closed t")
  case True
  with assms(1) have "rt_session t = None" by (auto simp: transport_ok_def)
  with True assms show ?thesis by (simp add: remote_close_def transport_ok_def)
next
  case False
  obtain t' w' where c: "remote_close env tg (t, w) = (t', w')" by (cases "remote_close env tg (t, w)")
  with False have w': "w' = reset_session (remote_lanes env tg (rt_index t)) (rt_client t) (rt_session t, w)" by (simp add: remote_close_def)
  then have "set w \<subseteq> set w'" by (auto simp: reset_session_def client_close_def wire_close_def split: option.splits)
  with w' assms(2) remote_close_ok [OF assms(1) c] c show ?thesis by (simp add: reset_honest reset_deliveries)
qed


subsection \<open>The spawned transport\<close>

lemma opened_running: "running (w @ [Opened l]) = running w"
  by (simp add: wire_reads)

lemma spawned_call_ok:
  assumes "running w = {child}" and "open_lanes w = set_option (cl_lane c)" and "cl_lane c = None \<or> cl_lane c = Some child" and "\<not> cl_closed c"
    and "\<not> rt_closed t" and "spawned_call env q t c child w = ((t', w'), r)"
  shows "transport_ok (t', w')"
proof -
  obtain c' sess' w1 r1 where call: "client_call (spawned_lanes env child) q (c, Some child, w) = ((c', sess', w1), r1)" by (metis surj_pair)
  have l: "open_lanes w1 = set_option (cl_lane c')" using so.call_owns [OF call] assms(2) by simp
  obtain c2 s2 w2 r2 where cur: "current_lane (spawned_lanes env child) (c, Some child, w) = ((c2, s2, w2), r2)" by (metis surj_pair)
  have d: "s2 = Some child \<and> running w2 = {child} \<and> \<not> cl_closed c2 \<and> (\<forall>l. r2 = Inr l \<longrightarrow> l = child \<and> cl_lane c2 = Some child)"
  proof (cases "cl_lane c")
    case None
    show ?thesis
    proof (cases "we_attach env w")
      case (Inl e)
      with cur None assms(4) have "c2 = c \<and> s2 = Some child \<and> w2 = w \<and> r2 = Inl e" by (simp add: current_lane_def spawned_lanes_def)
      with assms(1,4) show ?thesis by simp
    next
      case (Inr u)
      with cur None assms(4) have "c2 = c\<lparr>cl_lane := Some child\<rparr> \<and> s2 = Some child \<and> w2 = w @ [Opened child] \<and> r2 = Inr child"
        by (auto simp: current_lane_def spawned_lanes_def)
      with assms(1,4) show ?thesis by (simp add: opened_running)
    qed
  next
    case (Some l)
    with assms(3) have "l = child" by simp
    with Some cur assms(1,4) show ?thesis by (auto simp: current_lane_def)
  qed
  have k: "running w1 = {child} \<and> sess' = Some child \<and> \<not> cl_closed c' \<and> (\<forall>v. r1 = Inr v \<longrightarrow> cl_lane c' = Some child)"
  proof (cases r2)
    case (Inl e)
    with call cur d show ?thesis by (auto simp: client_call_def)
  next
    case (Inr l)
    with d have e: "l = child" "cl_lane c2 = Some child" "s2 = Some child" "running w2 = {child}" "\<not> cl_closed c2" by simp_all
    have st: "client_call (spawned_lanes env child) q (c, Some child, w) =
      (let w3 = w2 @ [Sent child (encode_request q) (we_reply env w2 child (encode_request q))]; gone = (c2\<lparr>cl_lane := None\<rparr>, Some child, w3 @ [LaneClosed child]) in
       case we_reply env w2 child (encode_request q) of
         CallFailed u e \<Rightarrow> (gone, Inl (TransportError u (ErrIO e)))
       | Body b \<Rightarrow> (case decode_response b of Inl e \<Rightarrow> (gone, Inl (TransportError False e)) | Inr v \<Rightarrow> ((c2, Some child, w3), Inr v)))"
      by (simp add: client_call_def cur Inr e wire_send_def wire_close_def retire_def Let_def cong: call_answer.case_cong sum.case_cong)
    show ?thesis
    proof (cases "we_reply env w2 child (encode_request q)")
      case (CallFailed u x)
      with st call have "c' = c2\<lparr>cl_lane := None\<rparr>" "sess' = Some child" "r1 = Inl (TransportError u (ErrIO x))" "running w1 = running w2"
        by (auto simp: Let_def)
      with e show ?thesis by simp
    next
      case (Body b)
      show ?thesis
      proof (cases "decode_response b")
        case (Inl x)
        with Body st call have "c' = c2\<lparr>cl_lane := None\<rparr>" "sess' = Some child" "r1 = Inl (TransportError False x)" "running w1 = running w2"
          by (auto simp: Let_def)
        with e show ?thesis by simp
      next
        case (Inr v)
        with Body st call have "c' = c2" "sess' = Some child" "running w1 = running w2" by (auto simp: Let_def)
        with e show ?thesis by simp
      qed
    qed
  qed
  show ?thesis
  proof (cases r1)
    case (Inl e)
    with assms(6) call have "t' = t\<lparr>rt_client := None, rt_session := None\<rparr>" "w' = reset_session (spawned_lanes env child) (Some c') (sess', w1)"
      by (simp_all add: spawned_call_def)
    with k l reset_clears [of w1 sess' "Some c'" "spawned_lanes env child"] show ?thesis by (simp add: transport_ok_def)
  next
    case (Inr v)
    with assms(6) call have "t' = t\<lparr>rt_client := Some c', rt_session := Some child\<rparr>" "w' = w1" by (simp_all add: spawned_call_def)
    with k l Inr assms(5) show ?thesis by (simp add: transport_ok_def)
  qed
qed

text \<open>A spawned service has at most one child too, and none once its transport is closed.\<close>
theorem spawned_contained:
  assumes "transport_ok (t, w)"
  shows "transport_ok (fst (spawned_do env executable service q (t, w))) \<and> transport_ok (spawned_close env (t, w)) \<and> running (snd (spawned_close env (t, w))) = {}"
proof -
  have "transport_ok (fst (spawned_do env executable service q (t, w)))"
  proof (cases "rt_closed t \<or> rt_client t \<noteq> None")
    case True
    then show ?thesis
    proof
      assume "rt_client t \<noteq> None"
      with assms obtain c child where c: "rt_client t = Some c" "rt_session t = Some child" "cl_lane c = Some child" "\<not> cl_closed c" "\<not> rt_closed t"
        by (auto simp: transport_ok_def split: option.splits)
      obtain t' w' r where s: "spawned_call env q t c child w = ((t', w'), r)" by (metis surj_pair)
      from spawned_call_ok [OF _ _ _ _ _ s] c assms have "transport_ok (t', w')" by (simp add: transport_ok_def)
      with c s show ?thesis by (simp add: spawned_do_def)
    qed (use assms in \<open>simp add: spawned_do_def\<close>)
  next
    case False
    with assms have n: "rt_client t = None" "\<not> rt_closed t" "rt_session t = None" "running w = {}" "open_lanes w = {}" by (auto simp: transport_ok_def)
    obtain w1 r1 where st: "spawned_start env executable service w = (w1, r1)" by (metis surj_pair)
    show ?thesis
    proof (cases r1)
      case (Inl e)
      with st have "running w1 = {} \<and> open_lanes w1 = {}" using n
        by (auto simp: spawned_start_def start_process_def wire_reads split: sum.splits)
      with n st Inl show ?thesis by (simp add: spawned_do_def transport_ok_def)
    next
      case (Inr child)
      with st have w1: "running w1 = {child} \<and> open_lanes w1 = {}" using n
        by (auto simp: spawned_start_def start_process_def wire_reads split: sum.splits)
      obtain t' w' r where s: "spawned_call env q t new_client child w1 = ((t', w'), r)" by (metis surj_pair)
      from spawned_call_ok [OF _ _ _ _ _ s] w1 n have "transport_ok (t', w')" by (simp add: new_client_def)
      with n st Inr s show ?thesis by (simp add: spawned_do_def)
    qed
  qed
  moreover have "transport_ok (spawned_close env (t, w)) \<and> running (snd (spawned_close env (t, w))) = {}"
  proof (cases "rt_closed t")
    case True
    with assms show ?thesis by (auto simp: spawned_close_def transport_ok_def)
  next
    case False
    have "running w = set_option (rt_session t)" "open_lanes w = set_option (case rt_client t of None \<Rightarrow> None | Some c \<Rightarrow> cl_lane c)"
      using assms by (auto simp: transport_ok_def split: option.splits)
    from reset_clears [OF this, of "spawned_lanes env (case rt_session t of None \<Rightarrow> 0 | Some child \<Rightarrow> child)"] False
    show ?thesis by (simp add: spawned_close_def transport_ok_def)
  qed
  ultimately show ?thesis by blast
qed

subsection \<open>Instances\<close>

definition sample_nonce :: bytes where "sample_nonce = replicate 32 (CHR ''n'')"

definition sample_target :: remote_target where
  "sample_target = \<lparr>tg_fact = sample_fact, tg_known_hosts = ''/s/k'', tg_service = ''reposync''\<rparr>"

text \<open>The first address is unreachable; the others echo, and answer an identity.\<close>

definition sample_wire :: wire_env where
  "sample_wire = \<lparr>we_home = (\<lambda>_. Inr ''/h''), we_lstat = (\<lambda>_. sample_lstat),
     we_spawn = (\<lambda>_ cmd. if last (butlast (pc_args cmd)) = ''10.0.0.5'' then Inl (ErrMsg ''unreachable'') else Inr ()),
     we_conn = (\<lambda>_. Inr ()), we_nonce = (\<lambda>_. Inr sample_nonce),
     we_echo = (\<lambda>_. [CHR 0x00, CHR 0x00, CHR 0x00, CHR 0x20] @ sample_nonce), we_attach = (\<lambda>_. Inr ()),
     we_reply = (\<lambda>_ _ _. Body (encode_response \<lparr>rs_ok = True, rs_result = Some (JStr ''e30=''), rs_error = []\<rparr>))\<rparr>"

lemma sample_reply: "decode_response (encode_response \<lparr>rs_ok = True, rs_result = Some (JStr ''e30=''), rs_error = []\<rparr>) =
    Inr \<lparr>rs_ok = True, rs_result = Some (JStr ''e30=''), rs_error = []\<rparr>"
  by (subst decode_encoded_response) simp_all

lemma sample_identity: "identity_of \<lparr>rs_ok = True, rs_result = Some (JStr ''e30=''), rs_error = []\<rparr> = Inr ''{}''"
proof -
  have "base64_decode ''e30='' = Some ''{}''" by (simp add: b64_val_def b64_bytes_def char_of_eq_iff)
  moreover have "valid_identity ''{}'' = Inr ()" by code_simp
  ultimately show ?thesis by (simp add: identity_of_def as_bytes_def)
qed

lemma sample_attach: "attach sample_wire w = Inr ()"
proof -
  have l: "length sample_nonce = 32" "sample_nonce \<noteq> replicate 32 (CHR 0x00)" by (simp_all add: sample_nonce_def)
  then have "read_hello ([CHR 0x00, CHR 0x00, CHR 0x00, CHR 0x20] @ sample_nonce) = Inr (sample_nonce, [])"
    using read_hello_iff [of "[CHR 0x00, CHR 0x00, CHR 0x00, CHR 0x20] @ sample_nonce" sample_nonce "[]"] by simp
  with l show ?thesis by (simp add: attach_def sample_wire_def verify_remote_hello_def hello_frame_def RemoteHelloNonceBytes_def)
qed

lemma sample_argv:
  assumes "address \<in> set (hf_addresses sample_fact)"
  shows "\<exists>pre command. remote_ssh_argv sample_lstat sample_fact address ''/s/k'' ''reposync'' = Inr (''/usr/bin/ssh'' # pre @ [address, command])"
proof -
  have c: "canonical_fact sample_fact" using host_facts(1) [OF sample_new] .
  have k: "clean_path ''/s/k'' = ''/s/k''" "join_path ''/'' ''s'' = ''/s''" "join_path ''/s'' ''k'' = ''/s/k''" by code_simp+
  then have "validate_known_hosts sample_lstat ''/s/k'' = Inr ()"
    by (simp add: validate_known_hosts_def known_hosts_exact_def is_abs_def sample_lstat_def)
  with c sample_command assms show ?thesis
    by (simp add: remote_ssh_argv_def canonical_fact_def) (simp add: sample_fact_def)
qed

lemma sample_reaches:
  "\<exists>e. snd (dial sample_wire sample_target 0 (None, w)) = Inl e"  "\<exists>l. snd (dial sample_wire sample_target 1 (None, w)) = Inr l"
proof -
  have a: "''10.0.0.5'' \<in> set (hf_addresses sample_fact)" "''box.local'' \<in> set (hf_addresses sample_fact)" by (simp_all add: sample_fact_def)
  obtain p0 c0 where p0: "remote_ssh_argv sample_lstat sample_fact ''10.0.0.5'' ''/s/k'' ''reposync'' = Inr (''/usr/bin/ssh'' # p0 @ [''10.0.0.5'', c0])"
    using sample_argv [OF a(1)] by blast
  obtain p1 c1 where p1: "remote_ssh_argv sample_lstat sample_fact ''box.local'' ''/s/k'' ''reposync'' = Inr (''/usr/bin/ssh'' # p1 @ [''box.local'', c1])"
    using sample_argv [OF a(2)] by blast
  have f: "hf_addresses sample_fact = [''10.0.0.5'', ''box.local'', ''box.ts'']" by (simp add: sample_fact_def)
  have w: "we_lstat sample_wire v = sample_lstat" "we_home sample_wire v = Inr ''/h''" "we_conn sample_wire v = Inr ()"
    "we_spawn sample_wire v cmd = (if last (butlast (pc_args cmd)) = ''10.0.0.5'' then Inl (ErrMsg ''unreachable'') else Inr ())" for v cmd
    by (simp_all add: sample_wire_def)
  show "\<exists>e. snd (dial sample_wire sample_target 0 (None, w)) = Inl e"
    using p0 by (simp add: dial_def dial_command_def sample_target_def f w spawned_command_def start_process_def butlast_append)
  show "\<exists>l. snd (dial sample_wire sample_target 1 (None, w)) = Inr l"
    using p1 by (simp add: dial_def dial_command_def sample_target_def f w spawned_command_def start_process_def butlast_append sample_attach)
qed

theorem identity_from_first_reachable_witness:
  "snd (peer_identity sample_wire sample_target (Inr sample_fact) (new_transport, [])) = Inr ''{}''"
proof -
  have r: "we_reply sample_wire v l p = Body (encode_response \<lparr>rs_ok = True, rs_result = Some (JStr ''e30=''), rs_error = []\<rparr>)" for v l p
    by (simp add: sample_wire_def)
  have t: "tg_fact sample_target = sample_fact" by (simp add: sample_target_def)
  have one: "i < Suc 0 \<Longrightarrow> \<exists>e. snd (dial sample_wire sample_target i (None, w)) = Inl e" for i w using sample_reaches(1) by simp
  have two: "\<exists>l. snd (dial sample_wire sample_target (Suc 0) (None, w)) = Inr l" for w using sample_reaches(2) [of w] by simp
  have len: "Suc 0 < length (hf_addresses sample_fact)" by (simp add: sample_fact_def)
  show ?thesis
    by (rule identity_from_first_reachable [of "Suc 0" sample_target sample_wire "''{}''" "[]", unfolded t, OF len one two])
      (use r sample_reply sample_identity in auto)
qed

definition pin :: "string \<Rightarrow> bytes \<Rightarrow> (string \<times> bytes) list \<Rightarrow> (string \<times> bytes) list \<times> (call_error + unit)" where
  "pin host identity c = ((host, identity) # c, Inr ())"


end
