(* ===== verification/Manifest.thy ===== *)
theory Manifest
  imports Sync_Transport
begin

text \<open>
  The manifests consumers register (\<^verbatim>\<open>src/manifest/manifest.go\<close>): their decoding and validation, the scan of the
  manifests directory, and what the daemon derives from a scan: the transport of a consumer on a host
  (\<^verbatim>\<open>src/daemon/transport.go\<close>), the launchd labels (\<^verbatim>\<open>service.go\<close>), and the bridge a remote peer enters through
  (\<^verbatim>\<open>rpc_serve.go\<close>, \<^verbatim>\<open>src/rpc/bridge.go\<close>).

  \<open>dur\<close> stands for \<^verbatim>\<open>time.ParseDuration\<close>, which goes through floating point. The sort of the scan is stable here
  and unspecified in Go, which makes no difference: a scan with equal names is an error.
\<close>

subsection \<open>Manifests\<close>

record service_spec =
  sv_kind :: string
  sv_fingerprint :: string

record helper_spec =
  hs_command :: string
  hs_session_type :: string

record manifest =
  mf_name :: string
  mf_binary :: string
  mf_brew :: string
  mf_debounce :: duration
  mf_service :: service_spec
  mf_helper :: "helper_spec option"

definition session_types :: "string list" where
  "session_types = [[], ''Aqua'', ''Background'', ''LoginWindow'', ''StandardIO'', ''System'']"

definition valid_service_kind :: "string \<Rightarrow> bool" where
  "valid_service_kind k \<longleftrightarrow> k = ''resident'' \<or> k = ''spawned''"

definition validate_manifest :: "manifest \<Rightarrow> unit res" where
  "validate_manifest m =
     (if \<not> is_ok (validate_name (mf_name m)) then Inl (ErrMsg ''name'')
      else if mf_binary m = [] then Inl (ErrMsg ''binary is required'')
      else if \<not> valid_service_kind (sv_kind (mf_service m)) then Inl (ErrMsg ''service.kind'')
      else if \<not> is_ok (validate_service_schema (mf_name m) (sv_fingerprint (mf_service m))) then Inl (ErrMsg ''service.schema_fingerprint'')
      else if sv_kind (mf_service m) = ''spawned'' \<and> (\<not> is_abs (mf_binary m) \<or> clean_path (mf_binary m) \<noteq> mf_binary m)
        then Inl (ErrMsg ''binary must be exact and absolute'')
      else case mf_helper m of
        None \<Rightarrow> Inr ()
      | Some h \<Rightarrow> if hs_command h = [] then Inl (ErrMsg ''helper.command is required'')
          else if hs_session_type h \<notin> set session_types then Inl (ErrMsg ''helper.session_type'') else Inr ())"

subsection \<open>Decoding\<close>

text \<open>A duration is decoded by its own method, which sees \<^verbatim>\<open>null\<close> too, as the empty text.\<close>

definition as_duration :: "(string \<Rightarrow> duration option) \<Rightarrow> json \<Rightarrow> duration option" where
  "as_duration dur j = (case j of JStr s \<Rightarrow> dur s | JNull \<Rightarrow> dur [] | _ \<Rightarrow> None)"

definition set_watch :: "(string \<Rightarrow> duration option) \<Rightarrow> string \<Rightarrow> json \<Rightarrow> duration \<Rightarrow> duration option" where
  "set_watch dur k j d = (if is_field ''debounce'' k then as_duration dur j else None)"

definition set_service :: "string \<Rightarrow> json \<Rightarrow> service_spec \<Rightarrow> service_spec option" where
  "set_service k j s =
     (if is_field ''kind'' k then map_option (\<lambda>v. s\<lparr>sv_kind := v\<rparr>) (as_str j (sv_kind s))
      else if is_field ''schema_fingerprint'' k then map_option (\<lambda>v. s\<lparr>sv_fingerprint := v\<rparr>) (as_str j (sv_fingerprint s))
      else None)"

definition set_helper :: "string \<Rightarrow> json \<Rightarrow> helper_spec \<Rightarrow> helper_spec option" where
  "set_helper k j h =
     (if is_field ''command'' k then map_option (\<lambda>v. h\<lparr>hs_command := v\<rparr>) (as_str j (hs_command h))
      else if is_field ''session_type'' k then map_option (\<lambda>v. h\<lparr>hs_session_type := v\<rparr>) (as_str j (hs_session_type h))
      else None)"

text \<open>A pointer field: \<^verbatim>\<open>null\<close> clears it, an object sets the fields of what it points to, or of a new zero value.\<close>

definition as_pointer :: "(string \<Rightarrow> json \<Rightarrow> 'a \<Rightarrow> 'a option) \<Rightarrow> 'a \<Rightarrow> json \<Rightarrow> 'a option \<Rightarrow> 'a option option" where
  "as_pointer f zero j old = (case j of JNull \<Rightarrow> Some None
     | _ \<Rightarrow> map_option Some (as_struct f (case old of None \<Rightarrow> zero | Some x \<Rightarrow> x) j))"

definition zero_helper :: helper_spec where
  "zero_helper = \<lparr>hs_command = [], hs_session_type = []\<rparr>"

definition zero_manifest :: manifest where
  "zero_manifest = \<lparr>mf_name = [], mf_binary = [], mf_brew = [], mf_debounce = 0, mf_service = \<lparr>sv_kind = [], sv_fingerprint = []\<rparr>, mf_helper = None\<rparr>"

definition set_manifest :: "(string \<Rightarrow> duration option) \<Rightarrow> string \<Rightarrow> json \<Rightarrow> manifest \<Rightarrow> manifest option" where
  "set_manifest dur k j m =
     (if is_field ''name'' k then map_option (\<lambda>v. m\<lparr>mf_name := v\<rparr>) (as_str j (mf_name m))
      else if is_field ''binary'' k then map_option (\<lambda>v. m\<lparr>mf_binary := v\<rparr>) (as_str j (mf_binary m))
      else if is_field ''brew'' k then map_option (\<lambda>v. m\<lparr>mf_brew := v\<rparr>) (as_str j (mf_brew m))
      else if is_field ''watch'' k then map_option (\<lambda>v. m\<lparr>mf_debounce := v\<rparr>) (as_struct (set_watch dur) (mf_debounce m) j)
      else if is_field ''service'' k then map_option (\<lambda>v. m\<lparr>mf_service := v\<rparr>) (as_struct set_service (mf_service m) j)
      else if is_field ''helper'' k then map_option (\<lambda>v. m\<lparr>mf_helper := v\<rparr>) (as_pointer set_helper zero_helper j (mf_helper m))
      else None)"

text \<open>\<^verbatim>\<open>Load\<close> on what reading the file gives.\<close>

definition load_manifest :: "(string \<Rightarrow> duration option) \<Rightarrow> bytes res \<Rightarrow> manifest res" where
  "load_manifest dur content = andthen content (\<lambda>raw.
     case (case unmarshal raw of None \<Rightarrow> None | Some j \<Rightarrow> as_struct (set_manifest dur) zero_manifest j) of
       None \<Rightarrow> Inl (ErrMsg ''decode manifest'')
     | Some m \<Rightarrow> andthen (validate_manifest m) (\<lambda>_. Inr m))"

subsection \<open>The scan\<close>

text \<open>An entry of the directory: its name, whether it is a directory, and what reading it gives.\<close>

record dir_entry =
  de_name :: string
  de_dir :: bool
  de_content :: "bytes res"

definition file_ext :: "string \<Rightarrow> string" where
  "file_ext name = (if CHR ''.'' \<in> set name then CHR ''.'' # after_last (CHR ''.'') name else [])"

definition is_candidate :: "dir_entry \<Rightarrow> bool" where
  "is_candidate e \<longleftrightarrow> \<not> de_dir e \<and> take 1 (de_name e) \<noteq> ''.'' \<and> file_ext (de_name e) = ''.json''"

record skipped =
  sk_name :: string
  sk_err :: goerr

definition stem :: "string \<Rightarrow> string" where
  "stem name = (if has_suffix name ''.json'' then take (length name - 5) name else name)"

fun scan_entries :: "(string \<Rightarrow> duration option) \<Rightarrow> dir_entry list \<Rightarrow> manifest list \<times> skipped list \<Rightarrow> manifest list \<times> skipped list" where
  "scan_entries dur [] acc = acc"
| "scan_entries dur (e # es) (ms, sk) =
     (if \<not> is_candidate e then scan_entries dur es (ms, sk)
      else case load_manifest dur (de_content e) of
        Inl err \<Rightarrow> scan_entries dur es (ms, sk @ [\<lparr>sk_name = stem (de_name e), sk_err = err\<rparr>])
      | Inr m \<Rightarrow> scan_entries dur es (ms @ [m], sk))"

fun adjacent_equal :: "string list \<Rightarrow> bool" where
  "adjacent_equal (a # b # r) \<longleftrightarrow> a = b \<or> adjacent_equal (b # r)"
| "adjacent_equal _ \<longleftrightarrow> False"

definition discover_manifests :: "(string \<Rightarrow> duration option) \<Rightarrow> dir_entry list res \<Rightarrow> (manifest list \<times> skipped list) res" where
  "discover_manifests dur dir = (case dir of
     Inl ErrNotExist \<Rightarrow> Inr ([], [])
   | Inl e \<Rightarrow> Inl e
   | Inr es \<Rightarrow> (case scan_entries dur es ([], []) of (ms, sk) \<Rightarrow>
       let sorted_ms = sort_key mf_name ms in
       if adjacent_equal (map mf_name sorted_ms) then Inl (ErrMsg ''duplicate manifest name'') else Inr (sorted_ms, sk)))"

subsection \<open>What the daemon derives from a scan\<close>

datatype transport_choice =
    ResidentTransport string
  | SpawnedTransport string string
  | RemoteTransport remote_target
  | FailedTransport goerr
  | TransportPanic

text \<open>\<open>host\<close> and \<open>known_hosts\<close> are what the registry answers.\<close>

definition resolve_transport :: "(string \<Rightarrow> host_fact res) \<Rightarrow> string res \<Rightarrow> manifest \<Rightarrow> string \<Rightarrow> string \<Rightarrow> transport_choice" where
  "resolve_transport host known_hosts m peer self =
     (if peer = self then
        (if sv_kind (mf_service m) = ''resident'' then ResidentTransport (mf_name m)
         else if sv_kind (mf_service m) = ''spawned'' then SpawnedTransport (mf_binary m) (mf_name m)
         else TransportPanic)
      else case host peer of
        Inl e \<Rightarrow> FailedTransport e
      | Inr hf \<Rightarrow> (case known_hosts of
          Inl e \<Rightarrow> FailedTransport e
        | Inr path \<Rightarrow> RemoteTransport \<lparr>tg_fact = hf, tg_known_hosts = path, tg_service = mf_name m\<rparr>))"

definition serveAgentLabel :: string where "serveAgentLabel = LabelPrefix @ ''.serve''"
definition reconcileAgentLabel :: string where "reconcileAgentLabel = LabelPrefix @ ''.reconcile''"

fun helper_labels :: "manifest list \<Rightarrow> string list res" where
  "helper_labels [] = Inr []"
| "helper_labels (m # ms) = (case mf_helper m of
     None \<Rightarrow> helper_labels ms
   | Some _ \<Rightarrow> andthen (helper_label (mf_name m)) (\<lambda>l. andthen (helper_labels ms) (\<lambda>ls. Inr (l # ls))))"

definition planned_labels :: "manifest list \<Rightarrow> string list res" where
  "planned_labels ms = andthen (helper_labels ms) (\<lambda>ls. Inr (reconcileAgentLabel # ls))"

text \<open>The bridge of a remote session: the socket it dials, what it echoes, and the bytes it copies to the socket. \<open>socket\<close> is
  the daemon library's path of a label.\<close>

record bridge =
  br_socket :: string
  br_echo :: bytes
  br_copied :: bytes

definition resident_socket :: "(string \<Rightarrow> string res) \<Rightarrow> string \<Rightarrow> string res" where
  "resident_socket socket service = andthen (helper_label service) socket"

definition serve_remote_rpc :: "(string \<Rightarrow> string res) \<Rightarrow> (manifest list \<times> skipped list) res \<Rightarrow> string \<Rightarrow> bytes \<Rightarrow> bridge res" where
  "serve_remote_rpc socket scan service input = andthen scan (\<lambda>(ms, _).
     case find (\<lambda>m. mf_name m = service) ms of
       None \<Rightarrow> Inl (ErrMsg ''rpc-serve-v1: service is not registered'')
     | Some m \<Rightarrow>
         if sv_kind (mf_service m) \<noteq> ''resident'' then Inl (ErrMsg ''rpc-serve-v1: service is not resident'')
         else andthen (resident_socket socket service) (\<lambda>path.
           andthen (serve_remote_hello input) (\<lambda>(echo, rest).
             Inr \<lparr>br_socket = path, br_echo = echo, br_copied = rest\<rparr>)))"

subsection \<open>What a scan finds\<close>

definition loaded :: "(string \<Rightarrow> duration option) \<Rightarrow> dir_entry list \<Rightarrow> manifest list" where
  "loaded dur es = concat (map (\<lambda>e. case load_manifest dur (de_content e) of Inl _ \<Rightarrow> [] | Inr m \<Rightarrow> [m]) (filter is_candidate es))"

definition failed :: "(string \<Rightarrow> duration option) \<Rightarrow> dir_entry list \<Rightarrow> skipped list" where
  "failed dur es = concat (map (\<lambda>e. case load_manifest dur (de_content e) of Inl err \<Rightarrow> [\<lparr>sk_name = stem (de_name e), sk_err = err\<rparr>] | Inr _ \<Rightarrow> [])
     (filter is_candidate es))"

lemma scan_finds: "scan_entries dur es (ms, sk) = (ms @ loaded dur es, sk @ failed dur es)"
  by (induction es arbitrary: ms sk) (simp_all add: loaded_def failed_def split: sum.split)

lemma adjacent_distinct: "sorted xs \<Longrightarrow> adjacent_equal xs \<longleftrightarrow> \<not> distinct xs" for xs :: "string list"
proof (induction xs rule: adjacent_equal.induct)
  case (1 a b r)
  then show ?case by (auto dest: antisym)
qed simp_all

lemma load_valid: "load_manifest dur content = Inr m \<Longrightarrow> validate_manifest m = Inr ()"
  by (auto simp: load_manifest_def andthen_Inr_iff split: option.splits)

lemma loaded_valid: "m \<in> set (loaded dur es) \<Longrightarrow> validate_manifest m = Inr ()"
  by (auto simp: loaded_def dest: load_valid [OF sym] split: sum.splits)

lemma discover_iff:
  "discover_manifests dur (Inr es) = Inr (ms, sk) \<longleftrightarrow>
     distinct (map mf_name (loaded dur es)) \<and> ms = sort_key mf_name (loaded dur es) \<and> sk = failed dur es"
proof -
  have "adjacent_equal (map mf_name (sort_key mf_name (loaded dur es))) \<longleftrightarrow> \<not> distinct (map mf_name (loaded dur es))"
    by (subst adjacent_distinct) (simp_all add: distinct_map)
  then show ?thesis by (auto simp: discover_manifests_def scan_finds Let_def)
qed

lemma strictly_sorted: "sorted (map f xs) \<Longrightarrow> distinct (map f xs) \<Longrightarrow> sorted_wrt (\<lambda>a b. f a < f b) xs" for f :: "'a \<Rightarrow> string"
  by (induction xs) (auto simp: order.strict_iff_order)

text \<open>The scan accounts for every candidate once: it is a manifest, valid and in its place in the order of the names, or it
  is a skip under its own stem.\<close>
theorem discover_accounts:
  assumes "discover_manifests dur (Inr es) = Inr (ms, sk)"
  shows "sorted_wrt (\<lambda>a b. mf_name a < mf_name b) ms \<and> (\<forall>m \<in> set ms. validate_manifest m = Inr ()) \<and>
    (\<forall>e \<in> set es. is_candidate e \<longrightarrow> (case load_manifest dur (de_content e) of
        Inr m \<Rightarrow> m \<in> set ms | Inl err \<Rightarrow> \<lparr>sk_name = stem (de_name e), sk_err = err\<rparr> \<in> set sk)) \<and>
    length ms + length sk = length (filter is_candidate es)"
proof -
  from assms have d: "distinct (map mf_name (loaded dur es))" "ms = sort_key mf_name (loaded dur es)" "sk = failed dur es" by (simp_all add: discover_iff)
  have "sorted_wrt (\<lambda>a b. mf_name a < mf_name b) ms" unfolding d(2) by (rule strictly_sorted) (use d(1) in \<open>simp_all add: distinct_map\<close>)
  moreover have "\<forall>m \<in> set ms. validate_manifest m = Inr ()" using loaded_valid d(2) by simp
  moreover have "\<forall>e \<in> set es. is_candidate e \<longrightarrow> (case load_manifest dur (de_content e) of
        Inr m \<Rightarrow> m \<in> set ms | Inl err \<Rightarrow> \<lparr>sk_name = stem (de_name e), sk_err = err\<rparr> \<in> set sk)"
    using d(2,3) by (auto simp: loaded_def failed_def split: sum.split)
  moreover have "length (loaded dur es) + length (failed dur es) = length (filter is_candidate es)"
    unfolding loaded_def failed_def by (induction es) (auto split: sum.split)
  ultimately show ?thesis using d(2,3) by simp
qed

text \<open>C32. One file that does not load never hides another consumer: the scan finds the same manifests, or the same error, as
  if that file were not there.\<close>
theorem failing_file_isolated:
  assumes "is_candidate e" and "load_manifest dur (de_content e) = Inl err"
  shows "discover_manifests dur (Inr (es @ e # fs)) = (case discover_manifests dur (Inr (es @ fs)) of
     Inl x \<Rightarrow> Inl x
   | Inr (ms, _) \<Rightarrow> Inr (ms, failed dur es @ \<lparr>sk_name = stem (de_name e), sk_err = err\<rparr> # failed dur fs))"
proof -
  have "loaded dur (es @ e # fs) = loaded dur (es @ fs)"
    "failed dur (es @ e # fs) = failed dur es @ \<lparr>sk_name = stem (de_name e), sk_err = err\<rparr> # failed dur fs"
    using assms by (simp_all add: loaded_def failed_def)
  then show ?thesis by (simp add: discover_manifests_def scan_finds Let_def)
qed

subsection \<open>A valid manifest is reachable\<close>

lemma valid_parts:
  assumes "validate_manifest m = Inr ()"
  shows "validate_name (mf_name m) = Inr ()" and "mf_binary m \<noteq> []" and "valid_service_kind (sv_kind (mf_service m))"
    and "sv_kind (mf_service m) = ''spawned'' \<Longrightarrow> is_abs (mf_binary m) \<and> clean_path (mf_binary m) = mf_binary m"
  using assms by (auto simp: validate_manifest_def is_ok_iff split: if_splits)

text \<open>No valid manifest makes the daemon panic over its service kind, and a local child is only ever started from an
  exact absolute path.\<close>
theorem valid_manifest_resolves:
  assumes "validate_manifest m = Inr ()"
  shows "case resolve_transport host known_hosts m peer self of
     TransportPanic \<Rightarrow> False
   | SpawnedTransport exe service \<Rightarrow> is_abs exe \<and> clean_path exe = exe \<and> service = mf_name m \<and> peer = self
   | ResidentTransport service \<Rightarrow> service = mf_name m \<and> peer = self
   | RemoteTransport tg \<Rightarrow> peer \<noteq> self \<and> host peer = Inr (tg_fact tg) \<and> tg_service tg = mf_name m
   | FailedTransport e \<Rightarrow> peer \<noteq> self"
  using valid_parts [OF assms] by (auto simp: resolve_transport_def valid_service_kind_def split: sum.split)

lemma labels_of: "(\<And>m. m \<in> set ms \<Longrightarrow> validate_name (mf_name m) = Inr ()) \<Longrightarrow>
    helper_labels ms = Inr (map (\<lambda>m. LabelPrefix @ ''.helper.'' @ mf_name m) (filter (\<lambda>m. mf_helper m \<noteq> None) ms))"
  by (induction ms) (auto simp: helper_label_def split: option.split)

text \<open>The agents the daemon sweeps have labels of their own: a scan yields no two alike, and none is the daemon's or its
  stop control's.\<close>
theorem labels_distinct:
  assumes "discover_manifests dur (Inr es) = Inr (ms, sk)"
  shows "\<exists>ls. planned_labels ms = Inr ls \<and> distinct ls \<and> serveAgentLabel \<notin> set ls \<and> stop_role \<notin> set ls"
proof -
  note a = discover_accounts [OF assms]
  then have v: "m \<in> set ms \<Longrightarrow> validate_name (mf_name m) = Inr ()" for m using valid_parts(1) by blast
  from a have "distinct (map mf_name ms)" using discover_iff [of dur es ms sk] assms by (auto simp: distinct_map)
  then have "distinct (map (\<lambda>m. LabelPrefix @ ''.helper.'' @ mf_name m) (filter (\<lambda>m. mf_helper m \<noteq> None) ms))"
    by (auto simp: distinct_map inj_on_def)
  with labels_of [OF v] show ?thesis
    by (auto simp: planned_labels_def reconcileAgentLabel_def serveAgentLabel_def stop_role_def)
qed

subsection \<open>The bridge\<close>

text \<open>C16. A remote session reaches the socket of a service only if a valid resident manifest has exactly that name, at the path
  of the label its helper binds; what is copied is the caller's input after the nonce frame, byte for byte, and the answer
  passes the caller's check of that nonce.\<close>
theorem bridge_reaches_resident:
  assumes "serve_remote_rpc socket (discover_manifests dur (Inr es)) service input = Inr b"
  shows "\<exists>m label nonce. m \<in> set (loaded dur es) \<and> mf_name m = service \<and> sv_kind (mf_service m) = ''resident'' \<and>
    helper_label service = Inr label \<and> socket label = Inr (br_socket b) \<and> hello_frame nonce = Inr (br_echo b) \<and> input = br_echo b @ br_copied b \<and>
    (nonce \<noteq> replicate 32 (CHR 0x00) \<longrightarrow> verify_remote_hello nonce (br_echo b @ answer) = Inr (br_echo b, answer))"
proof -
  obtain ms sk where d: "discover_manifests dur (Inr es) = Inr (ms, sk)" using assms
    by (cases "discover_manifests dur (Inr es)") (auto simp: serve_remote_rpc_def)
  with assms obtain m where f: "find (\<lambda>m. mf_name m = service) ms = Some m" "sv_kind (mf_service m) = ''resident''"
    by (auto simp: serve_remote_rpc_def split: option.splits if_splits)
  then have m: "m \<in> set ms" "mf_name m = service" by (auto simp: find_Some_iff)
  from assms d f obtain path echo rest where s: "resident_socket socket service = Inr path" "serve_remote_hello input = Inr (echo, rest)"
    "b = \<lparr>br_socket = path, br_echo = echo, br_copied = rest\<rparr>" by (auto simp: serve_remote_rpc_def andthen_Inr_iff)
  from s(1) obtain label where l: "helper_label service = Inr label" "socket label = Inr path" by (auto simp: resident_socket_def andthen_Inr_iff)
  from s(2) obtain nonce where n: "read_hello input = Inr (nonce, rest)" "hello_frame nonce = Inr echo" by (auto simp: serve_remote_hello_def andthen_Inr_iff)
  then have i: "input = echo @ rest" "length nonce = 32" by (auto simp: read_hello_iff hello_frame_def RemoteHelloNonceBytes_def)
  have "nonce \<noteq> replicate 32 (CHR 0x00) \<Longrightarrow> verify_remote_hello nonce (echo @ answer) = Inr (echo, answer)"
    using hello_exact_echo [of nonce "echo @ answer" echo answer rest] n i s(2) by auto
  with m d l n i f s(3) show ?thesis by (auto simp: discover_iff)
qed

subsection \<open>Instances\<close>

text \<open>Two consumers, one resident with a helper and one spawned; a file of an older release and one that is no manifest.\<close>

definition sample_manifest :: manifest where
  "sample_manifest = \<lparr>mf_name = ''reposync'', mf_binary = ''/opt/r'', mf_brew = [], mf_debounce = 5,
     mf_service = \<lparr>sv_kind = ''resident'', sv_fingerprint = digest_sum ''x''\<rparr>, mf_helper = Some \<lparr>hs_command = ''serve'', hs_session_type = ''Aqua''\<rparr>\<rparr>"

definition sample_spawned :: manifest where
  "sample_spawned = \<lparr>mf_name = ''notes'', mf_binary = ''/opt/n'', mf_brew = [], mf_debounce = 5,
     mf_service = \<lparr>sv_kind = ''spawned'', sv_fingerprint = digest_sum ''x''\<rparr>, mf_helper = None\<rparr>"

definition sample_json :: "manifest \<Rightarrow> json" where
  "sample_json m = JObj ([(''name'', JStr (mf_name m)), (''binary'', JStr (mf_binary m)), (''watch'', JObj [(''debounce'', JStr ''5ns'')]),
     (''service'', JObj [(''kind'', JStr (sv_kind (mf_service m))), (''schema_fingerprint'', JStr (sv_fingerprint (mf_service m)))])] @
     (case mf_helper m of None \<Rightarrow> [] | Some h \<Rightarrow> [(''helper'', JObj [(''command'', JStr (hs_command h)), (''session_type'', JStr (hs_session_type h))])]))"

definition sample_dur :: "string \<Rightarrow> duration option" where
  "sample_dur s = (if s = ''5ns'' then Some 5 else None)"

definition stale_json :: json where "stale_json = JObj [(''socket'', JStr ''s'')]"

definition sample_dir :: "dir_entry list" where
  "sample_dir = [\<lparr>de_name = ''old.json'', de_dir = False, de_content = Inr (render (stale_json))\<rparr>,
     \<lparr>de_name = ''reposync.json'', de_dir = False, de_content = Inr (render (sample_json sample_manifest))\<rparr>,
     \<lparr>de_name = ''notes.json'', de_dir = False, de_content = Inr (render (sample_json sample_spawned))\<rparr>,
     \<lparr>de_name = ''.tmp.json'', de_dir = False, de_content = Inl ErrNotExist\<rparr>]"

lemma manifest_fields [simp]:
  "is_field ''name'' ''name''" "\<not> is_field ''name'' ''binary''" "is_field ''binary'' ''binary''" "\<not> is_field ''name'' ''watch''" "\<not> is_field ''binary'' ''watch''"
  "\<not> is_field ''brew'' ''watch''" "is_field ''watch'' ''watch''" "\<not> is_field ''name'' ''service''" "\<not> is_field ''binary'' ''service''" "\<not> is_field ''brew'' ''service''"
  "\<not> is_field ''watch'' ''service''" "is_field ''service'' ''service''" "\<not> is_field ''name'' ''helper''" "\<not> is_field ''binary'' ''helper''" "\<not> is_field ''brew'' ''helper''"
  "\<not> is_field ''watch'' ''helper''" "\<not> is_field ''service'' ''helper''" "is_field ''helper'' ''helper''" "is_field ''debounce'' ''debounce''" "is_field ''kind'' ''kind''"
  "\<not> is_field ''kind'' ''schema_fingerprint''" "is_field ''schema_fingerprint'' ''schema_fingerprint''" "is_field ''command'' ''command''" "\<not> is_field ''command'' ''session_type''"
  "is_field ''session_type'' ''session_type''" "\<not> is_field ''name'' ''socket''" "\<not> is_field ''binary'' ''socket''" "\<not> is_field ''brew'' ''socket''"
  "\<not> is_field ''watch'' ''socket''" "\<not> is_field ''service'' ''socket''" "\<not> is_field ''helper'' ''socket''"
  by (simp_all add: is_field_def)

lemma sample_valid_manifests: "validate_manifest sample_manifest = Inr ()" "validate_manifest sample_spawned = Inr ()"
proof -
  have c: "clean_path ''/opt/n'' = ''/opt/n''" by code_simp
  show "validate_manifest sample_manifest = Inr ()" "validate_manifest sample_spawned = Inr ()"
    by (simp_all add: validate_manifest_def sample_manifest_def sample_spawned_def c is_abs_def valid_service_kind_def validate_service_schema_def
        validate_name_def name_char_def session_types_def)
qed

lemma load_rendered:
  assumes "json_ok j"
  shows "load_manifest dur (Inr (render j)) = (case as_struct (set_manifest dur) zero_manifest j of
     None \<Rightarrow> Inl (ErrMsg ''decode manifest'') | Some m \<Rightarrow> andthen (validate_manifest m) (\<lambda>_. Inr m))"
  by (simp add: load_manifest_def unmarshal_render [OF assms])

lemma sample_loads:
  "load_manifest sample_dur (Inr (render (sample_json sample_manifest))) = Inr sample_manifest"
  "load_manifest sample_dur (Inr (render (sample_json sample_spawned))) = Inr sample_spawned"
  "load_manifest sample_dur (Inr (render (stale_json))) = Inl (ErrMsg ''decode manifest'')"
proof -
  have "as_struct (set_manifest sample_dur) zero_manifest (sample_json sample_manifest) = Some sample_manifest"
    by (simp add: sample_json_def sample_manifest_def set_manifest_def set_watch_def set_service_def set_helper_def as_duration_def as_pointer_def
        sample_dur_def zero_manifest_def zero_helper_def)
  then show "load_manifest sample_dur (Inr (render (sample_json sample_manifest))) = Inr sample_manifest"
    by (subst load_rendered) (simp_all add: sample_valid_manifests, simp add: sample_json_def sample_manifest_def)
  have "as_struct (set_manifest sample_dur) zero_manifest (sample_json sample_spawned) = Some sample_spawned"
    by (simp add: sample_json_def sample_spawned_def set_manifest_def set_watch_def set_service_def as_duration_def sample_dur_def zero_manifest_def)
  then show "load_manifest sample_dur (Inr (render (sample_json sample_spawned))) = Inr sample_spawned"
    by (subst load_rendered) (simp_all add: sample_valid_manifests, simp add: sample_json_def sample_spawned_def)
  show "load_manifest sample_dur (Inr (render (stale_json))) = Inl (ErrMsg ''decode manifest'')"
    by (subst load_rendered) (simp_all add: stale_json_def set_manifest_def)
qed

lemma sample_discovered:
  "discover_manifests sample_dur (Inr sample_dir) = Inr ([sample_spawned, sample_manifest], [\<lparr>sk_name = ''old'', sk_err = ErrMsg ''decode manifest''\<rparr>])"
proof -
  have l: "loaded sample_dur sample_dir = [sample_manifest, sample_spawned]"
    by (simp add: loaded_def sample_dir_def is_candidate_def file_ext_def after_last_def sample_loads)
  have f: "failed sample_dur sample_dir = [\<lparr>sk_name = ''old'', sk_err = ErrMsg ''decode manifest''\<rparr>]"
    by (simp add: failed_def sample_dir_def is_candidate_def file_ext_def after_last_def sample_loads stem_def has_suffix_def)
  have n: "mf_name sample_manifest = ''reposync''" "mf_name sample_spawned = ''notes''" by (simp_all add: sample_manifest_def sample_spawned_def)
  show ?thesis by (simp add: discover_iff l f n)
qed

theorem discover_accounts_witness:
  "mf_name sample_spawned < mf_name sample_manifest \<and> validate_manifest sample_spawned = Inr ()"
  using discover_accounts [OF sample_discovered] by simp

theorem labels_distinct_witness: "\<exists>ls. planned_labels [sample_spawned, sample_manifest] = Inr ls \<and> distinct ls"
  using labels_distinct [OF sample_discovered] by blast

theorem failing_file_isolated_witness:
  "\<exists>ms sk. discover_manifests sample_dur (Inr (tl sample_dir)) = Inr (ms, sk) \<and> ms = [sample_spawned, sample_manifest]"
proof -
  have e: "hd sample_dir # tl sample_dir = sample_dir" by (simp add: sample_dir_def)
  have c: "is_candidate (hd sample_dir)" "load_manifest sample_dur (de_content (hd sample_dir)) = Inl (ErrMsg ''decode manifest'')"
    by (simp_all add: sample_dir_def is_candidate_def file_ext_def after_last_def sample_loads)
  from failing_file_isolated [OF c, of "[]" "tl sample_dir", unfolded append_Nil e] sample_discovered show ?thesis
    by (auto split: sum.splits prod.splits)
qed

theorem valid_manifest_resolves_witness: "resolve_transport (\<lambda>_. Inl ErrNotExist) (Inr ''/s/k'') sample_manifest ''me'' ''me'' \<noteq> TransportPanic"
  using valid_manifest_resolves [OF sample_valid_manifests(1), where host = "\<lambda>_. Inl ErrNotExist" and known_hosts = "Inr ''/s/k''" and peer = "''me''" and self = "''me''"]
  by (auto split: transport_choice.splits)

theorem bridge_reaches_resident_witness:
  "\<exists>b label. serve_remote_rpc (\<lambda>l. Inr (''/s/'' @ l)) (discover_manifests sample_dur (Inr sample_dir)) ''reposync''
       ([CHR 0x00, CHR 0x00, CHR 0x00, CHR 0x20] @ sample_nonce @ ''rest'') = Inr b \<and>
     helper_label ''reposync'' = Inr label \<and> br_socket b = ''/s/'' @ label \<and> br_copied b = ''rest''"
proof -
  have l: "helper_label ''reposync'' = Inr (LabelPrefix @ ''.helper.reposync'')"
    by (simp add: helper_label_def validate_name_def name_char_def)
  have n: "length sample_nonce = 32" by (simp add: sample_nonce_def)
  then have r: "read_hello ([CHR 0x00, CHR 0x00, CHR 0x00, CHR 0x20] @ sample_nonce @ ''rest'') = Inr (sample_nonce, ''rest'')"
    using read_hello_iff [of _ sample_nonce "''rest''"] by blast
  have s: "serve_remote_rpc (\<lambda>l. Inr (''/s/'' @ l)) (discover_manifests sample_dur (Inr sample_dir)) ''reposync''
       ([CHR 0x00, CHR 0x00, CHR 0x00, CHR 0x20] @ sample_nonce @ ''rest'') =
     Inr \<lparr>br_socket = ''/s/'' @ LabelPrefix @ ''.helper.reposync'', br_echo = [CHR 0x00, CHR 0x00, CHR 0x00, CHR 0x20] @ sample_nonce, br_copied = ''rest''\<rparr>"
    unfolding serve_remote_rpc_def sample_discovered serve_remote_hello_def r resident_socket_def l
    by (simp add: hello_frame_def n RemoteHelloNonceBytes_def) (simp add: sample_manifest_def sample_spawned_def)
  from bridge_reaches_resident [OF s] s l show ?thesis by auto
qed

end
