(* ===== verification/Daemon_Serve.thy ===== *)
theory Daemon_Serve
  imports Manifest
begin

text \<open>
  The watch supervisor of the resident daemon (\<^verbatim>\<open>src/daemon/serve.go\<close>, \<^verbatim>\<open>reconcile.go\<close>): its generations of watch
  engines and local clients under reloads, reconcile passes and the drain, the restarts of a watch backend, the retries of
  the first list, and the single list a gated evaluation makes.

  Each section the supervisor runs under its mutex is one operation; a reload holds it throughout, the join of the old
  generation included. The world keeps a log, oldest event first; a generation and a client are named by the position of
  the event that made them. Joining a cancelled generation is taken to end: every goroutine of it returns on a cancelled
  context.
\<close>

subsection \<open>The supervisor\<close>

datatype serve_event =
    Begun
  | Cancelled nat
  | Joined nat
  | ClientOpened string
  | ClientClosed nat
  | EngineStarted nat string
  | SchedulerStarted nat
  | Kicked nat

type_synonym serve_log = "serve_event list"

text \<open>\<open>sup_wg\<close> is the wait group, named by the generation it was made for.\<close>

record supervisor =
  sup_cancel :: "nat option"
  sup_wg :: "nat option"
  sup_clients :: "nat list"
  sup_scheduler :: "nat option"
  sup_mesh :: registry_view
  sup_closed :: bool
  sup_settled :: bool

definition new_supervisor :: supervisor where
  "new_supervisor = \<lparr>sup_cancel = None, sup_wg = None, sup_clients = [], sup_scheduler = None, sup_mesh = \<lparr>rv_self = [], rv_hosts = []\<rparr>,
     sup_closed = False, sup_settled = False\<rparr>"

text \<open>What the outside answers to one request: the scans of the manifests and the loads of the registry, in the order they
  are made, and the answer of each consumer to a reconcile pass.\<close>

record serve_env =
  se_scan :: "nat \<Rightarrow> (manifest list \<times> skipped list) res"
  se_load :: "nat \<Rightarrow> registry_view res"
  se_reconcile :: "string \<Rightarrow> goerr option"

definition tear_down :: "supervisor \<times> serve_log \<Rightarrow> supervisor \<times> serve_log" where
  "tear_down sw = (case sw of (s, w) \<Rightarrow> case sup_cancel s of
     None \<Rightarrow> (s, w)
   | Some g \<Rightarrow> (s\<lparr>sup_clients := [], sup_scheduler := None\<rparr>,
       w @ Cancelled g # (case sup_wg s of None \<Rightarrow> [] | Some j \<Rightarrow> [Joined j]) @ map ClientClosed (sup_clients s)))"

text \<open>The new generation \<open>g\<close> of a reload: a local client per manifest, then the engines, then the scheduler.\<close>

definition start_generation :: "nat \<Rightarrow> manifest list \<Rightarrow> registry_view \<Rightarrow> supervisor \<times> serve_log \<Rightarrow> supervisor \<times> serve_log" where
  "start_generation g ms reg sw = (case sw of (s, w) \<Rightarrow>
     (s\<lparr>sup_clients := sup_clients s @ [length w..<length w + length ms], sup_scheduler := Some g, sup_mesh := reg\<rparr>,
      w @ map (\<lambda>m. ClientOpened (mf_name m)) ms @ map (\<lambda>m. EngineStarted g (mf_name m)) ms @ [SchedulerStarted g]))"

definition reload :: "(manifest list \<times> skipped list) res \<Rightarrow> registry_view res \<Rightarrow> supervisor \<times> serve_log \<Rightarrow> (supervisor \<times> serve_log) \<times> unit res" where
  "reload scan load sw = (case scan of
     Inl e \<Rightarrow> (sw, Inl e)
   | Inr (ms, _) \<Rightarrow>
       if sup_closed (fst sw) then (sw, Inl (ErrMsg ''watch supervisor is closed''))
       else (case tear_down sw of (s, w) \<Rightarrow>
         let g = length w; s' = s\<lparr>sup_cancel := Some g, sup_wg := Some g\<rparr>; w' = w @ [Begun] in
         case load of
           Inl e \<Rightarrow> ((s', w' @ [Cancelled g]), Inl e)
         | Inr reg \<Rightarrow> (start_generation g ms reg (s', w'), Inr ())))"

definition deliveries_of :: "supervisor \<Rightarrow> nat res" where
  "deliveries_of s = (case sup_scheduler s of None \<Rightarrow> Inl (ErrMsg ''delivery scheduler is not running'') | Some g \<Rightarrow> Inr g)"

record reconcile_result =
  rr_name :: string
  rr_err :: "goerr option"

definition reconcile_all :: "serve_env \<Rightarrow> reconcile_result list res" where
  "reconcile_all env = andthen (se_load env 0) (\<lambda>_. andthen (se_scan env 0) (\<lambda>(ms, _).
     Inr (map (\<lambda>m. \<lparr>rr_name = mf_name m, rr_err = se_reconcile env (mf_name m)\<rparr>) ms)))"

definition reconcile_serve :: "serve_env \<Rightarrow> supervisor \<times> serve_log \<Rightarrow> (supervisor \<times> serve_log) \<times> reconcile_result list res" where
  "reconcile_serve env sw = (case andthen (reconcile_all env) (\<lambda>rs. andthen (se_load env 1) (\<lambda>reg. Inr (rs, reg))) of
     Inl e \<Rightarrow> (sw, Inl e)
   | Inr (rs, reg) \<Rightarrow>
       (case (if rv_self (sup_mesh (fst sw)) \<noteq> rv_self reg \<or> rv_hosts (sup_mesh (fst sw)) \<noteq> rv_hosts reg
              then reload (se_scan env 1) (se_load env 2) sw else (sw, Inr ())) of
          (sw', Inl e) \<Rightarrow> (sw', Inl e)
        | ((s, w), Inr _) \<Rightarrow> (case deliveries_of s of
            Inl e \<Rightarrow> ((s, w), Inl e)
          | Inr g \<Rightarrow> ((s, w @ [Kicked g]), Inr rs))))"

definition close_supervisor :: "supervisor \<times> serve_log \<Rightarrow> supervisor \<times> serve_log" where
  "close_supervisor sw = (case sw of (s, w) \<Rightarrow>
     (s\<lparr>sup_closed := True\<rparr>, w @ (case sup_cancel s of None \<Rightarrow> [] | Some g \<Rightarrow> [Cancelled g])))"

text \<open>\<^verbatim>\<open>wait\<close> is run after \<^verbatim>\<open>close\<close>, by the drain and by the close of the product, and by an activation that failed.\<close>

definition wait_supervisor :: "supervisor \<times> serve_log \<Rightarrow> supervisor \<times> serve_log" where
  "wait_supervisor sw = (case sw of (s, w) \<Rightarrow>
     if sup_settled s then sw
     else (s\<lparr>sup_clients := [], sup_scheduler := None, sup_cancel := None, sup_settled := True\<rparr>,
       w @ (case sup_wg s of None \<Rightarrow> [] | Some g \<Rightarrow> [Joined g]) @ map ClientClosed (sup_clients s)))"

subsection \<open>The watch backend\<close>

definition watchBackoffBase :: duration where "watchBackoffBase = 1000000000"
definition watchBackoffMax :: duration where "watchBackoffMax = 90 * 1000000000"
definition watchHealthyRun :: duration where "watchHealthyRun = 30 * 1000000000"

definition backoff_after :: "duration \<Rightarrow> bool \<Rightarrow> duration" where
  "backoff_after prev healthy = (if healthy \<or> prev = 0 then watchBackoffBase else min (2 * prev) watchBackoffMax)"

text \<open>\<^verbatim>\<open>superviseWatch\<close> while its context lives: each run spends some time in the backend; the delays slept before the
  runs, the first included.\<close>

fun watch_delays :: "duration \<Rightarrow> duration list \<Rightarrow> duration list" where
  "watch_delays delay [] = [delay]"
| "watch_delays delay (run # runs) = delay # watch_delays (backoff_after delay (run \<ge> watchHealthyRun)) runs"

definition listBackoff :: duration where "listBackoff = 5 * 1000000000"
definition listRetryBudget :: duration where "listRetryBudget = 60 * 1000000000"

text \<open>\<^verbatim>\<open>listForEngine\<close>, started at time 0: \<open>ans k\<close> is what list number \<open>k\<close> gives, \<open>now k\<close> the time read after it, \<open>live k\<close>
  and \<open>slept k\<close> whether the context still lives after it and after the sleep that follows. The fuel bounds the lists.\<close>

fun list_for_engine :: "(nat \<Rightarrow> 'i res) \<Rightarrow> (nat \<Rightarrow> duration) \<Rightarrow> (nat \<Rightarrow> bool) \<Rightarrow> (nat \<Rightarrow> bool) \<Rightarrow> nat \<Rightarrow> nat \<Rightarrow> 'i res option" where
  "list_for_engine ans now live slept 0 k = None"
| "list_for_engine ans now live slept (Suc fuel) k = (case ans k of
     Inr items \<Rightarrow> Some (Inr items)
   | Inl e \<Rightarrow>
       if \<not> live k then Some (Inl ErrCtx)
       else if now k > listRetryBudget then Some (Inl e)
       else if \<not> slept k then Some (Inl ErrCtx)
       else list_for_engine ans now live slept fuel (Suc k))"

subsection \<open>One list per gated evaluation\<close>

record watch_item =
  wi_id :: string
  wi_dirs :: "string list"
  wi_names :: "string list"
  wi_fingerprint :: string
  wi_busy :: bool
  wi_reason :: string

type_synonym memo = "string \<rightharpoonup> string"

definition memo_take :: "string \<Rightarrow> memo \<Rightarrow> memo \<times> string option" where
  "memo_take i m = (m(i := None), m i)"

text \<open>\<open>list\<close> is what the consumer's list gives at that call, with the count of calls made.\<close>

definition gate_busy :: "watch_item list res \<Rightarrow> string \<Rightarrow> memo \<times> nat \<Rightarrow> (memo \<times> nat) \<times> (bool \<times> string) res" where
  "gate_busy items i mn = (case mn of (m, n) \<Rightarrow> case items of
     Inl e \<Rightarrow> ((m, Suc n), Inl e)
   | Inr its \<Rightarrow> (case find (\<lambda>it. wi_id it = i) its of
       Some it \<Rightarrow> ((m(i \<mapsto> wi_fingerprint it), Suc n), Inr (wi_busy it, wi_reason it))
     | None \<Rightarrow> ((m(i \<mapsto> []), Suc n), Inr (False, []))))"

definition resolve_fingerprint :: "watch_item list res \<Rightarrow> string \<Rightarrow> memo \<times> nat \<Rightarrow> (memo \<times> nat) \<times> string res" where
  "resolve_fingerprint items i mn = (case mn of (m, n) \<Rightarrow> case memo_take i m of
     (m', Some f) \<Rightarrow> ((m', n), Inr f)
   | (m', None) \<Rightarrow> (case items of
       Inl e \<Rightarrow> ((m', Suc n), Inl e)
     | Inr its \<Rightarrow> ((m', Suc n), Inr (case find (\<lambda>it. wi_id it = i) its of Some it \<Rightarrow> wi_fingerprint it | None \<Rightarrow> []))))"

definition watch_targets :: "watch_item list \<Rightarrow> string \<rightharpoonup> (string list \<times> string list)" where
  "watch_targets items = foldl (\<lambda>t it. t(wi_id it \<mapsto> (wi_dirs it, wi_names it))) Map.empty items"

text \<open>\<^verbatim>\<open>manifestNotifier\<close>: this host's own consumer through the breaker, any other peer through the scheduler.\<close>

datatype notified = LocalNotify | KickLane string string

definition manifest_notify :: "string \<Rightarrow> string \<Rightarrow> string \<Rightarrow> notified" where
  "manifest_notify self name peer = (if peer = self then LocalNotify else KickLane name peer)"

definition engine_hosts :: "registry_view \<Rightarrow> string list" where
  "engine_hosts reg = rv_self reg # rv_hosts reg"

subsection \<open>Reading the log\<close>

definition track :: "(nat \<times> serve_event \<Rightarrow> nat set \<Rightarrow> nat set) \<Rightarrow> serve_log \<Rightarrow> nat set" where
  "track f w = fold f (enumerate 0 w) {}"

text \<open>The generations not cancelled, those not joined, and the clients not closed.\<close>

fun live_event :: "nat \<times> serve_event \<Rightarrow> nat set \<Rightarrow> nat set" where
  "live_event (k, Begun) S = insert k S"
| "live_event (k, Cancelled g) S = S - {g}"
| "live_event (k, e) S = S"

fun join_event :: "nat \<times> serve_event \<Rightarrow> nat set \<Rightarrow> nat set" where
  "join_event (k, Begun) S = insert k S"
| "join_event (k, Joined g) S = S - {g}"
| "join_event (k, e) S = S"

fun client_event :: "nat \<times> serve_event \<Rightarrow> nat set \<Rightarrow> nat set" where
  "client_event (k, ClientOpened n) S = insert k S"
| "client_event (k, ClientClosed c) S = S - {c}"
| "client_event (k, e) S = S"

abbreviation live :: "serve_log \<Rightarrow> nat set" where "live \<equiv> track live_event"
abbreviation unjoined :: "serve_log \<Rightarrow> nat set" where "unjoined \<equiv> track join_event"
abbreviation open_clients :: "serve_log \<Rightarrow> nat set" where "open_clients \<equiv> track client_event"

lemma track_Nil [simp]: "track f [] = {}"
  by (simp add: track_def)

lemma track_append: "track f (w @ v) = fold f (enumerate (length w) v) (track f w)"
  by (simp add: track_def enumerate_append_eq)

lemma track_snoc [simp]: "track f (w @ [e]) = f (length w, e) (track f w)"
  by (simp add: track_append)

lemma track_quiet: "(\<And>e k S. e \<in> set v \<Longrightarrow> f (k, e) S = S) \<Longrightarrow> track f (w @ v) = track f w"
  by (induction v arbitrary: w rule: rev_induct) (simp_all flip: append_assoc)

lemma closing_clients: "open_clients (w @ map ClientClosed cs) = open_clients w - set cs"
  by (induction cs rule: rev_induct) (auto simp flip: append_assoc)

lemma opening_clients: "open_clients (w @ map ClientOpened ns) = open_clients w \<union> {length w..<length w + length ns}"
  by (induction ns rule: rev_induct) (auto simp flip: append_assoc)

lemma quiet_tracks [simp]:
  "live (w @ map ClientClosed cs) = live w" "unjoined (w @ map ClientClosed cs) = unjoined w"
  "live (w @ map (\<lambda>m. ClientOpened (f m)) ms) = live w" "unjoined (w @ map (\<lambda>m. ClientOpened (f m)) ms) = unjoined w"
  "live (w @ map (\<lambda>m. EngineStarted g (f m)) ms) = live w" "unjoined (w @ map (\<lambda>m. EngineStarted g (f m)) ms) = unjoined w"
  "open_clients (w @ map (\<lambda>m. EngineStarted g (f m)) ms) = open_clients w"
  by (rule track_quiet; auto)+

lemma live_begun: "g \<in> live w \<or> g \<in> unjoined w \<or> g \<in> open_clients w \<Longrightarrow> g < length w"
proof (induction w rule: rev_induct)
  case (snoc e w)
  then show ?case by (cases e) (auto simp: less_Suc_eq)
qed simp

text \<open>An event is in order when a generation begins only after every other is cancelled, joined and its clients closed, and
  engines and the scheduler start in a live one.\<close>

definition in_order :: "serve_log \<Rightarrow> serve_event \<Rightarrow> bool" where
  "in_order w e = (case e of
     Begun \<Rightarrow> live w = {} \<and> unjoined w = {} \<and> open_clients w = {}
   | EngineStarted g _ \<Rightarrow> g \<in> live w
   | SchedulerStarted g \<Rightarrow> g \<in> live w
   | _ \<Rightarrow> True)"

definition orderly :: "serve_log \<Rightarrow> bool" where
  "orderly w \<longleftrightarrow> (\<forall>n < length w. in_order (take n w) (w ! n))"

lemma orderly_snoc [simp]: "orderly (w @ [e]) \<longleftrightarrow> orderly w \<and> in_order w e"
  by (auto simp: orderly_def nth_append less_Suc_eq)

lemma orderly_Nil [simp]: "orderly []"
  by (simp add: orderly_def)

lemma orderly_quiet: "orderly w \<Longrightarrow> (\<And>e v'. e \<in> set v \<Longrightarrow> in_order v' e) \<Longrightarrow> orderly (w @ v)"
  by (induction v arbitrary: w rule: rev_induct) (simp_all flip: append_assoc)

lemma orderly_engines: "orderly w \<Longrightarrow> g \<in> live w \<Longrightarrow> orderly (w @ map (\<lambda>m. EngineStarted g (f m)) ms)"
proof (induction ms rule: rev_induct)
  case (snoc m ms)
  then show ?case by (simp add: in_order_def flip: append_assoc)
qed simp

lemma opened_reads:
  assumes "live v = {g}" and "unjoined v = {g}" and "open_clients v = {}"
  shows "live (v @ map (\<lambda>m. ClientOpened (mf_name m)) ms) = {g}" and "unjoined (v @ map (\<lambda>m. ClientOpened (mf_name m)) ms) = {g}"
    and "open_clients (v @ map (\<lambda>m. ClientOpened (mf_name m)) ms) = {length v..<length v + length ms}"
  using assms opening_clients [of v "map mf_name ms"] by (simp_all add: comp_def)

subsection \<open>Generations do not overlap\<close>

definition supervisor_ok :: "supervisor \<times> serve_log \<Rightarrow> bool" where
  "supervisor_ok sw = (case sw of (s, w) \<Rightarrow>
     orderly w \<and> live w \<subseteq> set_option (sup_cancel s) \<and> unjoined w \<subseteq> set_option (sup_wg s) \<and> open_clients w = set (sup_clients s) \<and>
     (sup_cancel s \<noteq> None \<longrightarrow> sup_wg s = sup_cancel s) \<and> (sup_cancel s = None \<longrightarrow> sup_clients s = [] \<and> (sup_settled s \<or> unjoined w = {})) \<and>
     (sup_closed s \<longrightarrow> live w = {}) \<and> (sup_settled s \<longrightarrow> sup_closed s \<and> sup_cancel s = None \<and> sup_scheduler s = None \<and> unjoined w = {}) \<and>
     (\<forall>g. sup_scheduler s = Some g \<longrightarrow> sup_cancel s = Some g \<and> (sup_closed s \<or> g \<in> live w)))"

lemma tear_down_ok:
  assumes "supervisor_ok (s, w)" and "\<not> sup_closed s" and "tear_down (s, w) = (s', w')"
  shows "orderly w' \<and> live w' = {} \<and> unjoined w' = {} \<and> open_clients w' = {} \<and> sup_clients s' = [] \<and> \<not> sup_closed s' \<and> \<not> sup_settled s' \<and> sup_mesh s' = sup_mesh s \<and>
    (sup_cancel s \<noteq> None \<or> sup_scheduler s = None \<longrightarrow> sup_scheduler s' = None)"
proof (cases "sup_cancel s")
  case None
  with assms show ?thesis by (auto simp: supervisor_ok_def tear_down_def)
next
  case (Some g)
  with assms(1,2) have k: "orderly w" "live w \<subseteq> {g}" "unjoined w \<subseteq> {g}" "open_clients w = set (sup_clients s)" "sup_wg s = Some g" "\<not> sup_settled s"
    by (auto simp: supervisor_ok_def)
  with Some assms(3) have e: "s' = s\<lparr>sup_clients := [], sup_scheduler := None\<rparr>" "w' = (w @ [Cancelled g, Joined g]) @ map ClientClosed (sup_clients s)"
    by (auto simp: tear_down_def)
  have two: "track f (w @ [Cancelled g, Joined g]) = f (Suc (length w), Joined g) (f (length w, Cancelled g) (track f w))" for f
    using track_snoc [of f "w @ [Cancelled g]" "Joined g"] by simp
  have "orderly (w @ [Cancelled g, Joined g])" using orderly_snoc [of "w @ [Cancelled g]" "Joined g"] k(1) by (simp add: in_order_def)
  then have o: "orderly w'" unfolding e(2) by (rule orderly_quiet) (auto simp: in_order_def)
  have "live w' = {}" "unjoined w' = {}" using k(2,3) unfolding e(2) quiet_tracks two by auto
  moreover have "open_clients w' = {}" using k(4) unfolding e(2) closing_clients two by simp
  ultimately show ?thesis using o e(1) assms(2) k(6) by simp
qed

lemma reload_ok:
  assumes "supervisor_ok (s, w)" and "reload scan load (s, w) = ((s', w'), r)"
  shows "supervisor_ok (s', w')"
proof (cases "\<exists>ms sk. scan = Inr (ms, sk) \<and> \<not> sup_closed s")
  case False
  with assms show ?thesis by (auto simp: reload_def split: sum.splits)
next
  case True
  then obtain ms sk where sc: "scan = Inr (ms, sk)" "\<not> sup_closed s" by blast
  obtain s1 w1 where td: "tear_down (s, w) = (s1, w1)" by (cases "tear_down (s, w)")
  note k = tear_down_ok [OF assms(1) sc(2) td]
  have n: "length w1 \<notin> live w1" using live_begun by blast
  let ?g = "length w1" and ?w = "w1 @ [Begun]"
  have b: "orderly ?w" "live ?w = {?g}" "unjoined ?w = {?g}" "open_clients ?w = {}" using k by (simp_all add: in_order_def)
  show ?thesis
  proof (cases load)
    case (Inl e)
    from assms(1) sc(2) have "sup_cancel s = None \<Longrightarrow> sup_scheduler s = None" by (auto simp: supervisor_ok_def)
    then have sch: "sup_scheduler s1 = None" using k by blast
    have "(s', w') = (s1\<lparr>sup_cancel := Some ?g, sup_wg := Some ?g\<rparr>, ?w @ [Cancelled ?g])"
      using assms(2) sc td Inl by (simp add: reload_def Let_def)
    then show ?thesis using k b sch orderly_snoc [of ?w "Cancelled ?g"] track_snoc [of _ ?w "Cancelled ?g"]
      by (simp add: supervisor_ok_def in_order_def)
  next
    case (Inr reg)
    define w2 where "w2 = ?w @ map (\<lambda>m. ClientOpened (mf_name m)) ms"
    define w3 where "w3 = w2 @ map (\<lambda>m. EngineStarted ?g (mf_name m)) ms"
    have eq: "(s', w') = (s1\<lparr>sup_cancel := Some ?g, sup_wg := Some ?g, sup_clients := [length ?w..<length ?w + length ms], sup_scheduler := Some ?g, sup_mesh := reg\<rparr>,
        w3 @ [SchedulerStarted ?g])"
      using assms(2) sc td Inr k by (simp add: reload_def Let_def start_generation_def w2_def w3_def)
    have o2: "orderly w2" unfolding w2_def by (rule orderly_quiet [OF b(1)]) (auto simp: in_order_def)
    have t2: "live w2 = {?g}" "unjoined w2 = {?g}" "open_clients w2 = {length ?w..<length ?w + length ms}"
      unfolding w2_def by (rule opened_reads(1-3) [OF b(2-4)])+
    have o3: "orderly w3" unfolding w3_def by (rule orderly_engines [OF o2]) (simp add: t2)
    have t3: "live w3 = {?g}" "unjoined w3 = {?g}" "open_clients w3 = {length ?w..<length ?w + length ms}" by (simp_all add: w3_def t2)
    from eq k o3 t3 show ?thesis by (simp add: supervisor_ok_def in_order_def) auto
  qed
qed

lemma kicked_ok: "supervisor_ok (s, w) \<Longrightarrow> supervisor_ok (s, w @ [Kicked g])"
  by (simp add: supervisor_ok_def in_order_def)

lemma reconcile_serve_ok:
  assumes "supervisor_ok (s, w)" and "reconcile_serve env (s, w) = ((s', w'), r)"
  shows "supervisor_ok (s', w')"
proof (cases "andthen (reconcile_all env) (\<lambda>rs. andthen (se_load env 1) (\<lambda>reg. Inr (rs, reg)))")
  case (Inl e)
  with assms show ?thesis by (simp add: reconcile_serve_def)
next
  case (Inr x)
  obtain rs reg where x: "x = (rs, reg)" by (cases x)
  obtain s1 w1 r1 where m: "(if rv_self (sup_mesh s) \<noteq> rv_self reg \<or> rv_hosts (sup_mesh s) \<noteq> rv_hosts reg
      then reload (se_scan env 1) (se_load env 2) (s, w) else ((s, w), Inr ())) = ((s1, w1), r1)" by (metis surj_pair)
  have k: "supervisor_ok (s1, w1)" using m reload_ok [OF assms(1)] assms(1) by (auto split: if_splits)
  show ?thesis
  proof (cases r1)
    case (Inl e)
    with assms(2) Inr x m k show ?thesis by (simp add: reconcile_serve_def)
  next
    case r1: (Inr u)
    with assms(2) Inr x m k kicked_ok show ?thesis by (cases "deliveries_of s1") (auto simp: reconcile_serve_def)
  qed
qed

lemma close_ok: "supervisor_ok (s, w) \<Longrightarrow> supervisor_ok (close_supervisor (s, w))"
  by (auto simp: supervisor_ok_def close_supervisor_def in_order_def split: option.split)

lemma wait_ok:
  assumes "supervisor_ok (s, w)" and "sup_closed s"
  shows "supervisor_ok (wait_supervisor (s, w))" and "unjoined (snd (wait_supervisor (s, w))) = {}" and "open_clients (snd (wait_supervisor (s, w))) = {}"
proof -
  define j where "j = (case sup_wg s of None \<Rightarrow> [] | Some g \<Rightarrow> [Joined g])"
  have u: "orderly (w @ j)" "unjoined (w @ j) = {}" "live (w @ j) = live w" "open_clients (w @ j) = open_clients w"
    using assms(1) by (auto simp: supervisor_ok_def j_def in_order_def split: option.splits)
  have o: "orderly ((w @ j) @ map ClientClosed (sup_clients s))" by (rule orderly_quiet [OF u(1)]) (auto simp: in_order_def)
  have c: "open_clients ((w @ j) @ map ClientClosed (sup_clients s)) = {}"
    using assms(1) unfolding closing_clients u by (simp add: supervisor_ok_def)
  have l: "live ((w @ j) @ map ClientClosed (sup_clients s)) = {}" "unjoined ((w @ j) @ map ClientClosed (sup_clients s)) = {}"
    using assms unfolding quiet_tracks u by (simp_all add: supervisor_ok_def)
  have settled: "sup_settled s \<Longrightarrow> sup_clients s = [] \<and> unjoined w = {}" using assms(1) by (auto simp: supervisor_ok_def)
  have e: "\<not> sup_settled s \<Longrightarrow> wait_supervisor (s, w) = (s\<lparr>sup_clients := [], sup_scheduler := None, sup_cancel := None, sup_settled := True\<rparr>,
      (w @ j) @ map ClientClosed (sup_clients s))" by (simp add: wait_supervisor_def j_def)
  show "supervisor_ok (wait_supervisor (s, w))"
    using e o c l assms by (cases "sup_settled s") (simp_all add: wait_supervisor_def supervisor_ok_def)
  show "unjoined (snd (wait_supervisor (s, w))) = {}"
    using e l settled by (cases "sup_settled s") (simp_all add: wait_supervisor_def)
  show "open_clients (snd (wait_supervisor (s, w))) = {}"
    using e c settled assms(1) by (cases "sup_settled s") (simp_all add: wait_supervisor_def supervisor_ok_def)
qed

text \<open>What happens to the supervisor, in any order; the drain closes before it waits.\<close>

datatype serve_op = OpReload "(manifest list \<times> skipped list) res" "registry_view res" | OpReconcile serve_env | OpClose | OpWait

fun serve_step :: "serve_op \<Rightarrow> supervisor \<times> serve_log \<Rightarrow> supervisor \<times> serve_log" where
  "serve_step (OpReload scan load) sw = fst (reload scan load sw)"
| "serve_step (OpReconcile env) sw = fst (reconcile_serve env sw)"
| "serve_step OpClose sw = close_supervisor sw"
| "serve_step OpWait sw = (if sup_closed (fst sw) then wait_supervisor sw else sw)"

definition run_serve :: "serve_op list \<Rightarrow> supervisor \<times> serve_log \<Rightarrow> supervisor \<times> serve_log" where
  "run_serve ops sw = fold serve_step ops sw"

lemma serve_step_ok: "supervisor_ok sw \<Longrightarrow> supervisor_ok (serve_step op sw)"
proof (cases op)
  case (OpReload scan load)
  assume ok: "supervisor_ok sw"
  obtain s w s' w' r where x: "sw = (s, w)" "reload scan load (s, w) = ((s', w'), r)" by (metis surj_pair)
  show ?thesis using OpReload reload_ok [OF _ x(2)] x ok by simp
next
  case (OpReconcile env)
  assume ok: "supervisor_ok sw"
  obtain s w s' w' r where x: "sw = (s, w)" "reconcile_serve env (s, w) = ((s', w'), r)" by (metis surj_pair)
  show ?thesis using OpReconcile reconcile_serve_ok [OF _ x(2)] x ok by simp
next
  case OpClose
  assume "supervisor_ok sw"
  then show ?thesis using OpClose close_ok by (cases sw) simp
next
  case OpWait
  assume "supervisor_ok sw"
  then show ?thesis using OpWait wait_ok(1) by (cases sw) simp
qed

lemma run_serve_ok: "supervisor_ok sw \<Longrightarrow> supervisor_ok (run_serve ops sw)"
  by (induction ops arbitrary: sw) (simp_all add: run_serve_def serve_step_ok)

lemma fresh_supervisor: "supervisor_ok (new_supervisor, [])"
  by (simp add: supervisor_ok_def new_supervisor_def)

text \<open>C14. Watch generations never overlap: whatever reloads, passes and drains happen, a generation begins only after every
  engine of the ones before is cancelled and joined and their clients are closed, at most one is live, and the clients that
  are open are the supervisor's.\<close>
theorem generations_never_overlap:
  "let (s, w) = run_serve ops (new_supervisor, []) in orderly w \<and> live w \<subseteq> set_option (sup_cancel s) \<and> open_clients w = set (sup_clients s)"
  using run_serve_ok [OF fresh_supervisor, of ops] by (cases "run_serve ops (new_supervisor, [])") (simp add: supervisor_ok_def)

lemma settled_fixed:
  assumes "supervisor_ok (s, w)" and "sup_settled s"
  shows "serve_step op (s, w) = (s, w)"
proof -
  have k: "sup_closed s" "sup_cancel s = None" "sup_scheduler s = None" using assms by (auto simp: supervisor_ok_def)
  have r: "fst (reload scan load (s, w)) = (s, w)" for scan load using k by (auto simp: reload_def split: sum.split)
  have rr: "\<exists>e. snd (reload scan load (s, w)) = Inl e" for scan load using k by (auto simp: reload_def split: sum.split)
  have d: "deliveries_of s = Inl (ErrMsg ''delivery scheduler is not running'')" using k by (simp add: deliveries_of_def)
  have "fst (reconcile_serve env (s, w)) = (s, w)" for env
    using r [of "se_scan env 1" "se_load env 2"] rr [of "se_scan env 1" "se_load env 2"]
    by (cases "reload (se_scan env 1) (se_load env 2) (s, w)") (auto simp: reconcile_serve_def d split: sum.split)
  with r k assms(2) show ?thesis by (cases op) (simp_all add: close_supervisor_def wait_supervisor_def)
qed

text \<open>A drained daemon stays drained: once closed and joined no engine runs and no client is open, and nothing that is
  asked of it later starts anything.\<close>
theorem drained_stays:
  "let (s, w) = run_serve (before @ [OpClose, OpWait]) (new_supervisor, []) in
     live w = {} \<and> unjoined w = {} \<and> open_clients w = {} \<and> run_serve later (s, w) = (s, w)"
proof -
  obtain s0 w0 where a: "run_serve before (new_supervisor, []) = (s0, w0)" by (cases "run_serve before (new_supervisor, [])")
  obtain s1 w1 where b: "close_supervisor (s0, w0) = (s1, w1)" by (cases "close_supervisor (s0, w0)")
  obtain s w where c: "wait_supervisor (s1, w1) = (s, w)" by (cases "wait_supervisor (s1, w1)")
  have cl: "sup_closed s1" using b by (auto simp: close_supervisor_def)
  have k1: "supervisor_ok (s1, w1)" using run_serve_ok [OF fresh_supervisor, of before] a b close_ok by metis
  note k = wait_ok [OF k1 cl, unfolded c]
  have st: "sup_settled s" "sup_closed s" using c cl by (auto simp: wait_supervisor_def split: if_splits)
  have f: "run_serve later (s, w) = (s, w)"
    unfolding run_serve_def using settled_fixed [OF k(1) st(1)] by (induction later) simp_all
  have "run_serve (before @ [OpClose, OpWait]) (new_supervisor, []) = (s, w)"
    using a b c cl by (simp add: run_serve_def)
  with f k st show ?thesis by (auto simp: supervisor_ok_def)
qed

subsection \<open>What a reload starts\<close>

text \<open>A reload that succeeds drives exactly the consumers of the scan, on the registry it loaded.\<close>
theorem reload_starts_scan:
  assumes "\<not> sup_closed s" and "supervisor_ok (s, w)" and "reload (Inr (ms, sk)) (Inr reg) (s, w) = ((s', w'), r)"
  shows "r = Inr () \<and> sup_mesh s' = reg \<and> deliveries_of s' = Inr (the (sup_cancel s')) \<and> live w' = {the (sup_cancel s')} \<and>
    [n. EngineStarted g n \<leftarrow> w', g = the (sup_cancel s')] = map mf_name ms"
proof -
  obtain s1 w1 where td: "tear_down (s, w) = (s1, w1)" by (cases "tear_down (s, w)")
  have x: "s' = fst (start_generation (length w1) ms reg (s1\<lparr>sup_cancel := Some (length w1), sup_wg := Some (length w1)\<rparr>, w1 @ [Begun]))"
    "w' = w1 @ [Begun] @ map (\<lambda>m. ClientOpened (mf_name m)) ms @ map (\<lambda>m. EngineStarted (length w1) (mf_name m)) ms @ [SchedulerStarted (length w1)]" "r = Inr ()"
    using assms(1,3) td by (simp_all add: reload_def Let_def start_generation_def)
  then have y: "sup_cancel s' = Some (length w1)" "sup_mesh s' = reg" "sup_scheduler s' = Some (length w1)" by (simp_all add: start_generation_def)
  have ok: "supervisor_ok (s', w')" by (rule reload_ok [OF assms(2,3)])
  have "\<not> sup_closed s'" using x(1) tear_down_ok [OF assms(2,1) td] by (simp add: start_generation_def)
  with ok y have l: "live w' = {length w1}" by (auto simp: supervisor_ok_def)
  have no: "EngineStarted (length w1) n \<notin> set w1" for n
  proof
    assume "EngineStarted (length w1) n \<in> set w1"
    then obtain k where k: "k < length w1" "w1 ! k = EngineStarted (length w1) n" by (auto simp: in_set_conv_nth)
    have "orderly w1" using tear_down_ok [OF assms(2,1) td] by simp
    with k have "length w1 \<in> live (take k w1)" by (fastforce simp: orderly_def in_order_def)
    with live_begun [of "length w1" "take k w1"] show False by simp
  qed
  then have "[n. EngineStarted g n \<leftarrow> w1, g = length w1] = []" by (auto split: serve_event.splits)
  moreover have "[n. EngineStarted g n \<leftarrow> map (\<lambda>m. ClientOpened (mf_name m)) ms, g = length w1] = []" by (induction ms) simp_all
  moreover have "[n. EngineStarted g n \<leftarrow> map (\<lambda>m. EngineStarted (length w1) (mf_name m)) ms, g = length w1] = map mf_name ms" by (induction ms) simp_all
  ultimately show ?thesis using x y l by (simp add: deliveries_of_def)
qed

text \<open>A reload that cannot read the registry stops everything and keeps the registry it had recorded. Then as long as
  the registry still reads as recorded, every reconcile pass, whatever its consumers answer, fails on the missing scheduler and starts nothing.\<close>
theorem stale_mesh_blocks_recovery:
  assumes "\<not> sup_closed s" and "supervisor_ok (s, w)" and "reload (Inr (ms, sk)) (Inl e) (s, w) = ((s', w'), r)"
    and "\<And>i. se_load env i = Inr (sup_mesh s)" and "se_scan env 0 = Inr found"
  shows "live w' = {} \<and> open_clients w' = {} \<and> reconcile_serve env (s', w') = ((s', w'), Inl (ErrMsg ''delivery scheduler is not running''))"
proof -
  obtain s1 w1 where td: "tear_down (s, w) = (s1, w1)" by (cases "tear_down (s, w)")
  note k = tear_down_ok [OF assms(2,1) td]
  have x: "s' = s1\<lparr>sup_cancel := Some (length w1), sup_wg := Some (length w1)\<rparr>" "w' = (w1 @ [Begun]) @ [Cancelled (length w1)]"
    using assms(1,3) td by (simp_all add: reload_def Let_def)
  have "sup_cancel s = None \<Longrightarrow> sup_scheduler s = None" using assms(2) by (auto simp: supervisor_ok_def)
  then have y: "sup_scheduler s' = None" "sup_mesh s' = sup_mesh s" using k x by auto
  have "live w' = {}" "open_clients w' = {}" using k unfolding x(2) track_snoc by simp_all
  moreover have "reconcile_serve env (s', w') = ((s', w'), Inl (ErrMsg ''delivery scheduler is not running''))"
    using assms(4,5) y by (cases found) (simp add: reconcile_serve_def reconcile_all_def deliveries_of_def)
  ultimately show ?thesis by simp
qed

subsection \<open>Backends, lists and fingerprints\<close>

lemma watch_delays_hd: "watch_delays d runs \<noteq> [] \<and> hd (watch_delays d runs) = d"
  by (cases runs) simp_all

text \<open>A watch backend that dies is restarted after at least a second and at most ninety, whatever its runs did.\<close>
theorem restart_delay_bounded:
  "list_all (\<lambda>d. watchBackoffBase \<le> d \<and> d \<le> watchBackoffMax) (tl (watch_delays 0 runs))"
proof -
  have "d = 0 \<or> watchBackoffBase \<le> d \<and> d \<le> watchBackoffMax \<Longrightarrow>
      list_all (\<lambda>d. watchBackoffBase \<le> d \<and> d \<le> watchBackoffMax) (tl (watch_delays d runs))" for d
  proof (induction runs arbitrary: d)
    case (Cons r runs)
    let ?n = "backoff_after d (r \<ge> watchHealthyRun)"
    have n: "watchBackoffBase \<le> ?n \<and> ?n \<le> watchBackoffMax"
      using Cons.prems by (auto simp: backoff_after_def watchBackoffBase_def watchBackoffMax_def)
    with Cons.IH [of ?n] have "list_all (\<lambda>d. watchBackoffBase \<le> d \<and> d \<le> watchBackoffMax) (tl (watch_delays ?n runs))" by simp
    with n watch_delays_hd [of ?n runs] show ?case by (cases "watch_delays ?n runs") auto
  qed simp
  then show ?thesis by simp
qed

text \<open>The retries of the first list end: with a sleep between them, fourteen lists exhaust the budget.\<close>
theorem list_retries_end:
  assumes "0 \<le> now 0" and "\<And>k. now k + listBackoff \<le> now (Suc k)"
  shows "\<exists>r. list_for_engine ans now live_ctx slept 14 0 = Some r"
proof -
  have n: "int k * listBackoff \<le> now k" for k
    using assms by (induction k) (simp_all add: algebra_simps, smt (verit))
  have "fuel > 0 \<Longrightarrow> fuel + k = 14 \<Longrightarrow> \<exists>r. list_for_engine ans now live_ctx slept fuel k = Some r" for fuel k
  proof (induction fuel arbitrary: k)
    case (Suc fuel)
    show ?case
    proof (cases "fuel = 0")
      case True
      with Suc.prems have "k = 13" by simp
      with n [of 13] have "now k > listRetryBudget" by (simp add: listRetryBudget_def listBackoff_def)
      then show ?thesis by (auto split: sum.split)
    next
      case False
      with Suc.IH [of "Suc k"] Suc.prems show ?thesis by (auto split: sum.split)
    qed
  qed simp
  from this [of 14 0] show ?thesis by simp
qed

text \<open>A gated evaluation whose list answers makes one list and resolves to the fingerprint of that very list, whatever a
  second one would have said.\<close>
theorem gated_evaluation_one_list:
  assumes "gate_busy (Inr items) i (m, n) = (mn, b)"
  shows "resolve_fingerprint later i mn = ((m(i := None), Suc n), Inr (case find (\<lambda>it. wi_id it = i) items of Some it \<Rightarrow> wi_fingerprint it | None \<Rightarrow> []))"
  using assms by (auto simp: gate_busy_def resolve_fingerprint_def memo_take_def fun_eq_iff split: option.splits)

text \<open>But a list that fails leaves the stash of an earlier, deferred evaluation: the evaluation proceeds on that old
  fingerprint, without a list.\<close>
theorem stash_survives_gate_error:
  assumes "gate_busy (Inr items) i (m, n) = (mn1, b1)" and "gate_busy (Inl e) i mn1 = (mn2, b2)"
  shows "b2 = Inl e \<and> snd (resolve_fingerprint later i mn2) = Inr (case find (\<lambda>it. wi_id it = i) items of Some it \<Rightarrow> wi_fingerprint it | None \<Rightarrow> [])"
  using assms by (auto simp: gate_busy_def resolve_fingerprint_def memo_take_def split: option.splits)

subsection \<open>Instances\<close>

definition sample_registry :: registry_view where
  "sample_registry = \<lparr>rv_self = ''me@here.ts'', rv_hosts = [''me@box.ts'']\<rparr>"

definition sample_scan :: "(manifest list \<times> skipped list) res" where
  "sample_scan = Inr ([sample_spawned, sample_manifest], [])"

definition serving :: "supervisor \<times> serve_log" where
  "serving = fst (reload sample_scan (Inr sample_registry) (new_supervisor, []))"

lemma serving_ok: "supervisor_ok serving" "\<not> sup_closed (fst serving)" "sup_mesh (fst serving) = sample_registry"
proof -
  obtain s w r where x: "reload sample_scan (Inr sample_registry) (new_supervisor, []) = ((s, w), r)" by (metis surj_pair)
  have e: "serving = (s, w)" using x by (simp add: serving_def)
  show "supervisor_ok serving" using reload_ok [OF fresh_supervisor x] e by simp
  show "\<not> sup_closed (fst serving)" "sup_mesh (fst serving) = sample_registry"
    by (simp_all add: serving_def sample_scan_def reload_def tear_down_def new_supervisor_def start_generation_def Let_def)
qed

theorem reload_starts_scan_witness:
  "\<exists>s w. serving = (s, w) \<and> [n. EngineStarted g n \<leftarrow> w, g = the (sup_cancel s)] = [''notes'', ''reposync'']"
proof -
  obtain s w r where x: "reload sample_scan (Inr sample_registry) (new_supervisor, []) = ((s, w), r)" by (metis surj_pair)
  have "\<not> sup_closed new_supervisor" by (simp add: new_supervisor_def)
  from reload_starts_scan [OF this fresh_supervisor x [unfolded sample_scan_def]]
  have "[n. EngineStarted g n \<leftarrow> w, g = the (sup_cancel s)] = map mf_name [sample_spawned, sample_manifest]" by blast
  moreover have "serving = (s, w)" using x by (simp add: serving_def)
  moreover have "map mf_name [sample_spawned, sample_manifest] = [''notes'', ''reposync'']" by (simp add: sample_spawned_def sample_manifest_def)
  ultimately show ?thesis by (metis (no_types, lifting))
qed

definition unchanged_env :: serve_env where
  "unchanged_env = \<lparr>se_scan = (\<lambda>_. sample_scan), se_load = (\<lambda>_. Inr sample_registry), se_reconcile = (\<lambda>_. None)\<rparr>"

theorem stale_mesh_blocks_recovery_witness:
  "\<exists>s w. fst (reload sample_scan (Inl (ErrIO ''read state'')) serving) = (s, w) \<and> live w = {} \<and>
     reconcile_serve unchanged_env (s, w) = ((s, w), Inl (ErrMsg ''delivery scheduler is not running''))"
proof -
  obtain s0 w0 where v: "serving = (s0, w0)" by (cases serving)
  obtain s w r where x: "reload sample_scan (Inl (ErrIO ''read state'')) (s0, w0) = ((s, w), r)" by (metis surj_pair)
  have e: "se_load unchanged_env i = Inr (sup_mesh s0)" "se_scan unchanged_env 0 = Inr ([sample_spawned, sample_manifest], [])" for i
    using serving_ok(3) unfolding v by (simp_all add: unchanged_env_def sample_scan_def)
  have o: "\<not> sup_closed s0" "supervisor_ok (s0, w0)" using serving_ok(1,2) unfolding v by simp_all
  from stale_mesh_blocks_recovery [OF o x [unfolded sample_scan_def] e]
  have "live w = {} \<and> reconcile_serve unchanged_env (s, w) = ((s, w), Inl (ErrMsg ''delivery scheduler is not running''))" by simp
  with x v show ?thesis by simp
qed

theorem list_retries_end_witness:
  "\<exists>r. list_for_engine (\<lambda>_. Inl ErrNotExist :: nat res) (\<lambda>k. int k * listBackoff) (\<lambda>_. True) (\<lambda>_. True) 14 0 = Some r"
  by (rule list_retries_end) (simp_all add: listBackoff_def)

definition busy_item :: watch_item where
  "busy_item = \<lparr>wi_id = ''repo'', wi_dirs = [''/r''], wi_names = [], wi_fingerprint = ''f0'', wi_busy = True, wi_reason = ''rebase''\<rparr>"

theorem gated_evaluation_one_list_witness:
  "snd (resolve_fingerprint (Inl ErrNotExist) ''repo'' (fst (gate_busy (Inr [busy_item]) ''repo'' (Map.empty, 0)))) = Inr ''f0''"
proof -
  obtain mn b where g: "gate_busy (Inr [busy_item]) ''repo'' (Map.empty, 0) = (mn, b)" by (metis surj_pair)
  from gated_evaluation_one_list [OF g, of "Inl ErrNotExist"] g show ?thesis by (simp add: busy_item_def)
qed

theorem stash_survives_gate_error_witness:
  "let (mn1, b1) = gate_busy (Inr [busy_item]) ''repo'' (Map.empty, 0); (mn2, b2) = gate_busy (Inl (ErrIO ''list'')) ''repo'' mn1 in
     b1 = Inr (True, ''rebase'') \<and> b2 = Inl (ErrIO ''list'') \<and>
     snd (resolve_fingerprint (Inr [busy_item\<lparr>wi_fingerprint := ''f1'', wi_busy := False\<rparr>]) ''repo'' mn2) = Inr ''f0''"
proof -
  obtain mn1 b1 where g1: "gate_busy (Inr [busy_item]) ''repo'' (Map.empty, 0) = (mn1, b1)" by (metis surj_pair)
  obtain mn2 b2 where g2: "gate_busy (Inl (ErrIO ''list'')) ''repo'' mn1 = (mn2, b2)" by (metis surj_pair)
  have "b1 = Inr (True, ''rebase'')" using g1 by (auto simp: gate_busy_def busy_item_def)
  with stash_survives_gate_error [OF g1 g2, of "Inr [busy_item\<lparr>wi_fingerprint := ''f1'', wi_busy := False\<rparr>]"] g1 g2
  show ?thesis by (simp add: busy_item_def)
qed

end
