(* ===== verification/Host_Discover.thy ===== *)
theory Host_Discover
  imports Host_Dial Presence
begin

text \<open>
  Finding hosts (\<^verbatim>\<open>src/hostregistry/discover.go\<close>) and probing them (\<^verbatim>\<open>registry.go\<close>): the candidates tailscale and Bonjour
  offer, the browse set, their merge, and the verification of an install over ssh.

  What the subprocesses print and what the browser reports are arguments; the tailscale status arrives decoded, its peers
  in the order Go visits its map. \<open>same\<close> is \<^verbatim>\<open>strings.EqualFold\<close> and \<open>lower\<close> \<^verbatim>\<open>strings.ToLower\<close>, whose case tables are not
  modelled. Text that is trimmed is ASCII. The loop of \<^verbatim>\<open>mergeHosts\<close> visits a map and then sorts by its distinct keys, so
  the order of the visit does not show.
\<close>

subsection \<open>Candidates\<close>

record skip_note =
  no_name :: string
  no_reason :: string

record host_candidate =
  hc_node :: string
  hc_target :: string
  hc_source :: string
  hc_online :: bool
  hc_registered :: bool

definition trim_space :: "string \<Rightarrow> string" where
  "trim_space s = rev (dropWhile is_space (rev (dropWhile is_space s)))"

definition suggested_target :: "string \<Rightarrow> string \<Rightarrow> string" where
  "suggested_target local_user node = (if local_user = [] then node else local_user @ CHR ''@'' # node)"

record tailscale_peer =
  tp_dns :: string
  tp_online :: bool
  tp_tags :: "string list"
  tp_relay :: string
  tp_cur_addr :: string
  tp_key_expiry :: "gotime option"
  tp_last_seen :: "gotime option"
  tp_location :: bool

definition tailscale_node :: "string \<Rightarrow> string" where
  "tailscale_node dns = fst (cut_at (CHR ''.'') (trim_suffix (CHR ''.'') dns))"

definition is_mullvad :: "tailscale_peer \<Rightarrow> bool" where
  "is_mullvad p \<longleftrightarrow> tp_location p \<or> ''tag:mullvad-exit-node'' \<in> set (tp_tags p)"

definition is_likely_ephemeral :: "tailscale_peer \<Rightarrow> bool" where
  "is_likely_ephemeral p \<longleftrightarrow> \<not> is_mullvad p \<and> tp_key_expiry p = None"

fun tailscale_candidates :: "string \<Rightarrow> tailscale_peer list \<Rightarrow> host_candidate list" where
  "tailscale_candidates local_user [] = []"
| "tailscale_candidates local_user (p # ps) =
     (if tailscale_node (tp_dns p) = [] \<or> is_mullvad p \<or> is_likely_ephemeral p then tailscale_candidates local_user ps
      else \<lparr>hc_node = tailscale_node (tp_dns p), hc_target = suggested_target local_user (trim_suffix (CHR ''.'') (tp_dns p)),
        hc_source = ''tailscale'', hc_online = tp_online p, hc_registered = False\<rparr> # tailscale_candidates local_user ps)"

definition discover_tailscale :: "(string + tailscale_peer list) \<Rightarrow> string \<Rightarrow> host_candidate list \<times> skip_note list" where
  "discover_tailscale status local_user = (case status of
     Inl e \<Rightarrow> ([], [\<lparr>no_name = ''tailscale'', no_reason = e\<rparr>])
   | Inr ps \<Rightarrow> (tailscale_candidates local_user ps, []))"

text \<open>\<open>stamp\<close> formats an instant.\<close>

definition format_tailscale_peer :: "(gotime \<Rightarrow> string) \<Rightarrow> tailscale_peer \<Rightarrow> string" where
  "format_tailscale_peer stamp p =
     ''online='' @ (if tp_online p then ''true'' else ''false'') @
     '' conn='' @ (if tp_cur_addr p \<noteq> [] then ''direct '' @ tp_cur_addr p else ''derp '' @ tp_relay p) @
     '' lastseen='' @ (case tp_last_seen p of None \<Rightarrow> ''never'' | Some t \<Rightarrow> stamp t)"

definition tailscale_peer_status :: "(string \<Rightarrow> string \<Rightarrow> bool) \<Rightarrow> (gotime \<Rightarrow> string) \<Rightarrow> (string + tailscale_peer list) \<Rightarrow> string \<Rightarrow> string res" where
  "tailscale_peer_status same stamp status target = (case status of
     Inl e \<Rightarrow> Inl (ErrMsg ''tailscale status'')
   | Inr ps \<Rightarrow> (case find (\<lambda>p. same (tailscale_node (tp_dns p)) (host_node target)) ps of
       Some p \<Rightarrow> Inr (format_tailscale_peer stamp p)
     | None \<Rightarrow> Inl (ErrMsg ''no tailscale peer for node'')))"

subsection \<open>The browse\<close>

record browse_set =
  bs_order :: "string list"
  bs_labels :: "string \<rightharpoonup> string"

definition new_browse_set :: browse_set where
  "new_browse_set = \<lparr>bs_order = [], bs_labels = Map.empty\<rparr>"

definition browse_add :: "string \<Rightarrow> string \<Rightarrow> browse_set \<Rightarrow> browse_set" where
  "browse_add i label s = s\<lparr>bs_order := (if bs_labels s i = None then bs_order s @ [i] else bs_order s), bs_labels := (bs_labels s)(i \<mapsto> label)\<rparr>"

definition browse_remove :: "string \<Rightarrow> browse_set \<Rightarrow> browse_set" where
  "browse_remove i s = (if bs_labels s i = None then s
     else s\<lparr>bs_order := remove1 i (bs_order s), bs_labels := (bs_labels s)(i := None)\<rparr>)"

definition browse_nodes :: "browse_set \<Rightarrow> string list" where
  "browse_nodes s = map (\<lambda>i. case bs_labels s i of None \<Rightarrow> [] | Some l \<Rightarrow> l) (bs_order s)"

definition trim_suffix_str :: "string \<Rightarrow> string \<Rightarrow> string" where
  "trim_suffix_str suf s = (if has_suffix s suf then take (length s - length suf) s else s)"

definition bonjour_node :: "string \<Rightarrow> string \<Rightarrow> string" where
  "bonjour_node host name = fst (cut_at (CHR ''.'') (trim_suffix_str ''.local'' (trim_suffix_str ''.'' (if host = [] then name else host))))"

text \<open>The loops over the browsed labels: \<open>seen\<close> are the keys kept, \<open>self\<close> whether this host was noted.\<close>

fun local_nodes_from :: "(string \<Rightarrow> string \<Rightarrow> bool) \<Rightarrow> (string \<Rightarrow> string) \<Rightarrow> string \<Rightarrow> string list \<Rightarrow> bool \<Rightarrow> string list \<Rightarrow> string list \<times> skip_note list" where
  "local_nodes_from same lower local_host seen self [] = ([], [])"
| "local_nodes_from same lower local_host seen self (node # nodes) =
     (if node = [] then local_nodes_from same lower local_host seen self nodes
      else if same node local_host then
        (case local_nodes_from same lower local_host seen True nodes of (ls, ns) \<Rightarrow>
           (ls, if self then ns else \<lparr>no_name = node, no_reason = ''self''\<rparr> # ns))
      else if lower node \<in> set seen then local_nodes_from same lower local_host seen self nodes
      else (case local_nodes_from same lower local_host (lower node # seen) self nodes of (ls, ns) \<Rightarrow> (node # ls, ns)))"

definition local_nodes :: "(string \<Rightarrow> string \<Rightarrow> bool) \<Rightarrow> (string \<Rightarrow> string) \<Rightarrow> string list \<Rightarrow> string \<Rightarrow> string list \<times> skip_note list" where
  "local_nodes same lower nodes local_host = local_nodes_from same lower local_host [] False nodes"

definition bonjour_candidate :: "string \<Rightarrow> string \<Rightarrow> host_candidate" where
  "bonjour_candidate local_user node = \<lparr>hc_node = node, hc_target = suggested_target local_user node, hc_source = ''bonjour'',
     hc_online = True, hc_registered = False\<rparr>"

definition bonjour_candidates :: "(string \<Rightarrow> string \<Rightarrow> bool) \<Rightarrow> string list \<Rightarrow> string \<Rightarrow> string \<Rightarrow> host_candidate list \<times> skip_note list" where
  "bonjour_candidates same nodes local_user local_host =
     (case local_nodes_from same (\<lambda>n. n) local_host [] False nodes of (ls, ns) \<Rightarrow> (map (bonjour_candidate local_user) ls, ns))"

subsection \<open>The merge\<close>

text \<open>\<^verbatim>\<open>byNode\<close> is a map; a candidate replaces what the map has only if it is tailscale's over Bonjour's.\<close>

definition keep_candidate :: "host_candidate \<Rightarrow> (string \<rightharpoonup> host_candidate) \<Rightarrow> string \<rightharpoonup> host_candidate" where
  "keep_candidate c by_node = (case by_node (hc_node c) of
     Some existing \<Rightarrow> if hc_source c \<noteq> ''tailscale'' \<or> hc_source existing \<noteq> ''bonjour'' then by_node else by_node(hc_node c \<mapsto> c)
   | None \<Rightarrow> by_node(hc_node c \<mapsto> c))"

definition by_nodes :: "host_candidate list \<Rightarrow> string \<rightharpoonup> host_candidate" where
  "by_nodes cands = fold keep_candidate cands Map.empty"

definition merge_hosts :: "host_candidate list \<Rightarrow> string list \<Rightarrow> host_candidate list" where
  "merge_hosts cands hosts =
     map (\<lambda>n. (the (by_nodes cands n))\<lparr>hc_registered := n \<in> set (map host_node hosts)\<rparr>) (sort (remdups (map hc_node cands)))"

text \<open>\<^verbatim>\<open>Hosts\<close>: \<open>user\<close>, \<open>status\<close> and \<open>hostname\<close> are what the commands give, \<open>browsed\<close> what the browse saw and how it failed.\<close>

definition discover_bonjour :: "(string \<Rightarrow> string \<Rightarrow> bool) \<Rightarrow> string list \<times> string option \<Rightarrow> string \<Rightarrow> string \<Rightarrow> host_candidate list \<times> skip_note list" where
  "discover_bonjour same browsed local_user local_host = (case bonjour_candidates same (fst browsed) local_user local_host of
     (cs, ns) \<Rightarrow> (cs, case snd browsed of None \<Rightarrow> ns | Some e \<Rightarrow> ns @ [\<lparr>no_name = ''bonjour'', no_reason = e\<rparr>]))"

definition hosts :: "(string \<Rightarrow> string \<Rightarrow> bool) \<Rightarrow> string \<times> string option \<Rightarrow> (string + tailscale_peer list) \<Rightarrow> string \<times> string option \<Rightarrow>
    string list \<times> string option \<Rightarrow> string list \<Rightarrow> host_candidate list \<times> skip_note list" where
  "hosts same user status hostname browsed known =
     (let local_user = trim_space (fst user); ts = discover_tailscale status local_user;
          bj = discover_bonjour same browsed local_user (trim_space (fst hostname));
          note = (\<lambda>n r. case snd r of None \<Rightarrow> [] | Some e \<Rightarrow> [\<lparr>no_name = n, no_reason = e\<rparr>]) in
      (merge_hosts (fst ts @ fst bj) known, note ''id'' user @ snd ts @ note ''scutil'' hostname @ snd bj))"

subsection \<open>Probes\<close>

record verify_result =
  vr_target :: string
  vr_reachable :: bool
  vr_bootstrapped :: bool
  vr_version :: string
  vr_err :: bool

text \<open>\<open>ssh\<close> is what a remote command prints, and whether it fails.\<close>

definition remote_binary_path :: "(string \<Rightarrow> string \<times> bool) \<Rightarrow> string \<Rightarrow> string \<times> bool" where
  "remote_binary_path ssh binary = (case ssh (''command -v '' @ binary) of
     (_, True) \<Rightarrow> ([], False)
   | (out, False) \<Rightarrow> let path = trim_space out in (path, exact_remote_path path))"

definition verify_binary :: "(string \<Rightarrow> string \<times> bool) \<Rightarrow> string \<Rightarrow> string \<Rightarrow> verify_result" where
  "verify_binary ssh target binary =
     (if snd (remote_binary_path ssh binary) then
        \<lparr>vr_target = target, vr_reachable = True, vr_bootstrapped = True,
          vr_version = (case ssh (binary @ '' --version'') of (out, False) \<Rightarrow> trim_space out | (_, True) \<Rightarrow> []), vr_err = False\<rparr>
      else case ssh ''true'' of
        (_, True) \<Rightarrow> \<lparr>vr_target = target, vr_reachable = False, vr_bootstrapped = False, vr_version = [], vr_err = True\<rparr>
      | (_, False) \<Rightarrow> \<lparr>vr_target = target, vr_reachable = True, vr_bootstrapped = False, vr_version = [], vr_err = False\<rparr>)"

definition verify_all :: "(string \<Rightarrow> string \<Rightarrow> string \<times> bool) \<Rightarrow> string \<Rightarrow> string list \<Rightarrow> verify_result list" where
  "verify_all ssh binary targets = map (\<lambda>t. verify_binary (ssh t) t binary) targets"

definition detect_self :: "string + string \<Rightarrow> string + string \<Rightarrow> string res" where
  "detect_self dns user = (case dns of
     Inl e \<Rightarrow> Inl (ErrMsg ''tailscale status'')
   | Inr d \<Rightarrow> let host = trim_suffix (CHR ''.'') d in
       if host = [] then Inl (ErrMsg ''empty tailscale node name'')
       else case user of Inl e \<Rightarrow> Inl (ErrMsg ''detect local user'') | Inr u \<Rightarrow> Inr (trim_space u @ CHR ''@'' # host))"

subsection \<open>The browse set is what is present\<close>

datatype browse_event = Hello string string | Goodbye string

fun browse_step :: "browse_event \<Rightarrow> browse_set \<Rightarrow> browse_set" where
  "browse_step (Hello i label) s = browse_add i label s"
| "browse_step (Goodbye i) s = browse_remove i s"

text \<open>The instances present, in the order they appeared: a hello updates its instance in place or adds it at the end.\<close>

fun presence_step :: "browse_event \<Rightarrow> (string \<times> string) list \<Rightarrow> (string \<times> string) list" where
  "presence_step (Hello i label) al = AList.update i label al"
| "presence_step (Goodbye i) al = AList.delete i al"

definition browses :: "browse_set \<Rightarrow> (string \<times> string) list \<Rightarrow> bool" where
  "browses s al \<longleftrightarrow> distinct (map fst al) \<and> bs_order s = map fst al \<and> bs_labels s = map_of al"

lemma update_keys': "map fst (AList.update i l al) = (if i \<in> fst ` set al then map fst al else map fst al @ [i])"
  by (induction al) auto

lemma delete_keys': "distinct (map fst al) \<Longrightarrow> map fst (AList.delete i al) = remove1 i (map fst al)"
  by (induction al) (auto simp: AList.delete_eq filter_id_conv remove1_idem)

lemma browse_step_refines: "browses s al \<Longrightarrow> browses (browse_step e s) (presence_step e al)"
proof (cases e)
  case (Hello i l)
  assume b: "browses s al"
  then have "bs_labels s i = None \<longleftrightarrow> i \<notin> fst ` set al" by (simp add: browses_def map_of_eq_None_iff)
  with b Hello show ?thesis by (auto simp: browses_def browse_add_def update_keys' AList.distinct_update)
next
  case (Goodbye i)
  assume b: "browses s al"
  then have n: "bs_labels s i = None \<longleftrightarrow> i \<notin> fst ` set al" by (simp add: browses_def map_of_eq_None_iff)
  show ?thesis
  proof (cases "bs_labels s i = None")
    case True
    with n have "AList.delete i al = al" by (force simp: AList.delete_eq filter_id_conv)
    with True b Goodbye show ?thesis by (simp add: browse_remove_def)
  next
    case False
    with b Goodbye show ?thesis by (auto simp: browses_def browse_remove_def delete_keys' AList.distinct_delete)
  qed
qed

lemma browses_nodes: "browses s al \<Longrightarrow> browse_nodes s = map snd al"
  by (auto simp: browses_def browse_nodes_def)

text \<open>The nodes a browse reports are the labels of the instances present, whatever hellos and goodbyes came.\<close>
theorem browse_refines_presence:
  "browse_nodes (fold browse_step events new_browse_set) = map snd (fold presence_step events [])"
proof -
  have "browses s al \<Longrightarrow> browses (fold browse_step events s) (fold presence_step events al)" for s al
    by (induction events arbitrary: s al) (simp_all add: browse_step_refines)
  from this [of new_browse_set "[]"] show ?thesis by (intro browses_nodes) (simp add: browses_def new_browse_set_def)
qed

subsection \<open>The loops over labels\<close>

lemma local_nodes_from_spec:
  "local_nodes_from same lower h seen self nodes = (ls, ns) \<Longrightarrow>
     distinct (map lower ls) \<and> (\<forall>l \<in> set ls. l \<in> set nodes \<and> l \<noteq> [] \<and> \<not> same l h \<and> lower l \<notin> set seen) \<and>
     (\<forall>n \<in> set nodes. n \<noteq> [] \<longrightarrow> same n h \<or> lower n \<in> set seen \<union> lower ` set ls) \<and> length ns \<le> (if self then 0 else 1)"
proof (induction same lower h seen self nodes arbitrary: ls ns rule: local_nodes_from.induct)
  case (2 same lower h seen self node nodes)
  consider (empty) "node = []" | (me) "node \<noteq> []" "same node h" | (dup) "node \<noteq> []" "\<not> same node h" "lower node \<in> set seen"
    | (kept) "node \<noteq> []" "\<not> same node h" "lower node \<notin> set seen" by blast
  then show ?case
  proof cases
    case empty
    with "2.prems" have "local_nodes_from same lower h seen self nodes = (ls, ns)" by simp
    from "2.IH"(1) [OF empty this] empty show ?thesis by auto
  next
    case me
    obtain ls' ns' where r: "local_nodes_from same lower h seen True nodes = (ls', ns')" by (metis surj_pair)
    with me "2.prems" have "ls = ls'" "ns = (if self then ns' else \<lparr>no_name = node, no_reason = ''self''\<rparr> # ns')" by auto
    with "2.IH"(2) [OF me r] me show ?thesis by auto
  next
    case dup
    with "2.prems" have "local_nodes_from same lower h seen self nodes = (ls, ns)" by simp
    from "2.IH"(3) [OF dup this] dup show ?thesis by auto
  next
    case kept
    obtain ls' ns' where r: "local_nodes_from same lower h (lower node # seen) self nodes = (ls', ns')" by (metis surj_pair)
    with kept "2.prems" have "ls = node # ls'" "ns = ns'" by auto
    with "2.IH"(4) [OF kept r] kept show ?thesis by auto
  qed
qed auto

subsection \<open>The merge\<close>

definition chosen :: "host_candidate list \<Rightarrow> host_candidate option" where
  "chosen cs = (case cs of [] \<Rightarrow> None
     | c # r \<Rightarrow> Some (if hc_source c = ''bonjour'' then (case find (\<lambda>t. hc_source t = ''tailscale'') r of Some t \<Rightarrow> t | None \<Rightarrow> c) else c))"

lemma find_app: "find P (xs @ ys) = (case find P xs of None \<Rightarrow> find P ys | Some x \<Rightarrow> Some x)"
  by (induction xs) simp_all

lemma chosen_snoc: "chosen (cs @ [c]) = (case chosen cs of
    None \<Rightarrow> Some c
  | Some x \<Rightarrow> Some (if hc_source c \<noteq> ''tailscale'' \<or> hc_source x \<noteq> ''bonjour'' then x else c))"
  by (cases cs) (auto simp: chosen_def find_app find_None_iff dest: find_Some_iff [THEN iffD1] split: option.splits)

lemma by_nodes_chosen: "by_nodes cands n = chosen (filter (\<lambda>c. hc_node c = n) cands)"
proof (induction cands rule: rev_induct)
  case (snoc c cands)
  then show ?case
    by (auto simp: by_nodes_def keep_candidate_def chosen_snoc split: option.splits)
qed (simp add: by_nodes_def chosen_def)

lemma chosen_in: "chosen cs = Some c \<Longrightarrow> c \<in> set cs"
  by (cases cs) (auto simp: chosen_def find_Some_iff split: if_splits option.splits)

lemma chosen_tailscale:
  assumes "chosen cs = Some c" and "t \<in> set cs" and "hc_source t = ''tailscale''" and "hc_source c = ''bonjour''"
  shows False
proof (cases cs)
  case (Cons d r)
  show False
  proof (cases "hc_source d = ''bonjour''")
    case False
    with Cons assms show False by (simp add: chosen_def)
  next
    case True
    with Cons assms(2,3) have "t \<in> set r" by auto
    then obtain u where u: "find (\<lambda>t. hc_source t = ''tailscale'') r = Some u"
      using assms(3) by (cases "find (\<lambda>t. hc_source t = ''tailscale'') r") (auto simp: find_None_iff)
    then have "hc_source u = ''tailscale''" by (auto simp: find_Some_iff)
    with Cons True u assms(1,4) show False by (simp add: chosen_def)
  qed
qed (use assms in simp)

text \<open>The merge offers every node once, in order, with one of the candidates found for it, marked registered exactly when
  the registry names the node; a Bonjour candidate is offered only for a node tailscale does not have.\<close>
theorem merge_offers_nodes:
  "let ms = merge_hosts cands known in
    sorted_wrt (\<lambda>a b. hc_node a < hc_node b) ms \<and> hc_node ` set ms = hc_node ` set cands \<and>
    (\<forall>m \<in> set ms. \<exists>c \<in> set cands. m = c\<lparr>hc_registered := hc_node c \<in> host_node ` set known\<rparr> \<and>
      (hc_source c = ''bonjour'' \<longrightarrow> \<not> (\<exists>t \<in> set cands. hc_node t = hc_node c \<and> hc_source t = ''tailscale'')))"
proof -
  define row where "row = (\<lambda>n. (the (by_nodes cands n))\<lparr>hc_registered := n \<in> set (map host_node known)\<rparr>)"
  have r: "\<exists>c \<in> set cands. hc_node c = n \<and> row n = c\<lparr>hc_registered := n \<in> host_node ` set known\<rparr> \<and>
      (hc_source c = ''bonjour'' \<longrightarrow> \<not> (\<exists>t \<in> set cands. hc_node t = n \<and> hc_source t = ''tailscale''))" if n: "n \<in> hc_node ` set cands" for n
  proof -
    let ?cs = "filter (\<lambda>c. hc_node c = n) cands"
    from n have "?cs \<noteq> []" by (auto simp: filter_empty_conv)
    then obtain c where c: "chosen ?cs = Some c" by (cases ?cs) (auto simp: chosen_def)
    then have "c \<in> set ?cs" by (rule chosen_in)
    moreover have "row n = c\<lparr>hc_registered := n \<in> host_node ` set known\<rparr>" using c by (simp add: row_def by_nodes_chosen)
    moreover have "hc_source c = ''bonjour'' \<Longrightarrow> t \<in> set cands \<Longrightarrow> hc_node t = n \<Longrightarrow> hc_source t = ''tailscale'' \<Longrightarrow> False" for t
      using chosen_tailscale [OF c, of t] by simp
    ultimately show ?thesis by auto
  qed
  let ?ns = "sort (remdups (map hc_node cands))"
  have node: "n \<in> set ?ns \<Longrightarrow> hc_node (row n) = n" for n using r [of n] by auto
  have "sorted ?ns" "distinct ?ns" by simp_all
  then have s: "sorted_wrt (<) ?ns" by (simp add: strict_sorted_iff)
  have "sorted_wrt (\<lambda>a b. hc_node a < hc_node b) (map row ?ns)"
    unfolding sorted_wrt_map by (rule sorted_wrt_mono_rel [OF _ s]) (simp add: node)
  moreover have "hc_node ` set (map row ?ns) = hc_node ` set cands" using node by (auto simp: image_iff)
  moreover have "\<forall>m \<in> set (map row ?ns). \<exists>c \<in> set cands. m = c\<lparr>hc_registered := hc_node c \<in> host_node ` set known\<rparr> \<and>
      (hc_source c = ''bonjour'' \<longrightarrow> \<not> (\<exists>t \<in> set cands. hc_node t = hc_node c \<and> hc_source t = ''tailscale''))"
  proof
    fix m
    assume "m \<in> set (map row ?ns)"
    then obtain n where n: "n \<in> hc_node ` set cands" "m = row n" by auto
    from r [OF n(1)] n(2) show "\<exists>c \<in> set cands. m = c\<lparr>hc_registered := hc_node c \<in> host_node ` set known\<rparr> \<and>
        (hc_source c = ''bonjour'' \<longrightarrow> \<not> (\<exists>t \<in> set cands. hc_node t = hc_node c \<and> hc_source t = ''tailscale''))" by auto
  qed
  ultimately show ?thesis by (simp add: merge_hosts_def row_def Let_def)
qed

lemma probe_consistent:
  "let r = verify_binary ssh target binary in
     vr_target r = target \<and> (vr_bootstrapped r \<longrightarrow> vr_reachable r \<and> exact_remote_path (fst (remote_binary_path ssh binary))) \<and>
     (vr_err r \<longleftrightarrow> \<not> vr_reachable r) \<and> (vr_version r \<noteq> [] \<longrightarrow> vr_bootstrapped r)"
  by (auto simp: verify_binary_def remote_binary_path_def Let_def split: prod.splits bool.splits)

end
