(* ===== verification/Host_Bootstrap.thy ===== *)
theory Host_Bootstrap
  imports Host_Discover Effects
begin

text \<open>
  Adding a host to the mesh (\<^verbatim>\<open>src/daemon/bootstrap.go\<close>): the registration of its ssh fact in the shared state file and the
  commands run on it over ssh.

  The state is the mesh file and the log of remote commands, oldest first, each with its output and whether it failed; a
  remote command's outcome depends on the log. The outcomes of the lock, the reads and the durable write are those of the
  state file's model, one environment per operation. Progress messages are not modelled, and the wording that tells a
  missing formula from another failed install neither.
\<close>

subsection \<open>Remote commands\<close>

type_synonym ssh_log = "(string \<times> string \<times> bool) list"

record boot_env =
  be_state :: "nat \<Rightarrow> state_env"
  be_self :: "string res"
  be_browse :: "string list"
  be_known_hosts :: "unit res"
  be_ssh :: "ssh_log \<Rightarrow> string \<Rightarrow> string \<times> bool"

type_synonym boot_state = "state_file \<times> ssh_log"
type_synonym 'a boot = "boot_state \<Rightarrow> boot_state \<times> 'a res"

definition ssh :: "boot_env \<Rightarrow> string \<Rightarrow> string boot" where
  "ssh env cmd s = (case be_ssh env (snd s) cmd of (out, failed) \<Rightarrow>
     ((fst s, snd s @ [(cmd, out, failed)]), if failed then Inl (ErrMsg cmd) else Inr out))"

text \<open>A command whose failure is only reported.\<close>

definition ssh_warn :: "boot_env \<Rightarrow> string \<Rightarrow> unit boot" where
  "ssh_warn env cmd s = (fst (ssh env cmd s), Inr ())"

definition MeshBinary :: string where "MeshBinary = ''synckitd''"
definition synckitdBrew :: string where "synckitdBrew = ''yasyf/tap/synckitd''"

definition probe_path :: "boot_env \<Rightarrow> string \<Rightarrow> string option boot" where
  "probe_path env binary s = (case ssh env (''command -v '' @ binary) s of
     (s', Inl _) \<Rightarrow> (s', Inr None)
   | (s', Inr out) \<Rightarrow> (s', Inr (if exact_remote_path (trim_space out) then Some (trim_space out) else None)))"

definition require_darwin_peer :: "boot_env \<Rightarrow> unit boot" where
  "require_darwin_peer env = bindE (ssh env ''uname -s'') (\<lambda>out.
     liftE (if trim_space out \<noteq> ''Darwin'' then Inl (ErrMsg ''synckit bootstraps macOS peers only'') else Inr ()))"

definition brew_command :: "string \<Rightarrow> string" where
  "brew_command formula = (let tap = fst (cut_at (CHR ''/'') formula) in
     ''brew tap '' @ tap @ ''/tap && brew trust '' @ tap @ ''/tap && brew install '' @ formula)"

definition remote_brew_install :: "boot_env \<Rightarrow> string \<Rightarrow> unit boot" where
  "remote_brew_install env formula = bindE (ssh env (brew_command formula)) (\<lambda>_. liftE (Inr ()))"

definition ensure_remote_daemon :: "boot_env \<Rightarrow> string boot" where
  "ensure_remote_daemon env = bindE (probe_path env MeshBinary) (\<lambda>found. case found of
     Some path \<Rightarrow> liftE (Inr path)
   | None \<Rightarrow> bindE (remote_brew_install env synckitdBrew) (\<lambda>_. bindE (probe_path env MeshBinary) (\<lambda>again.
       liftE (case again of Some path \<Rightarrow> Inr path | None \<Rightarrow> Inl (ErrMsg ''resolve exact synckitd path after install'')))))"

text \<open>A consumer is its binary and its formula.\<close>

definition ensure_remote_consumer :: "boot_env \<Rightarrow> string \<times> string \<Rightarrow> unit boot" where
  "ensure_remote_consumer env m = (if snd m = [] then liftE (Inr ())
     else bindE (probe_path env (fst m)) (\<lambda>found. case found of
       Some _ \<Rightarrow> liftE (Inr ()) | None \<Rightarrow> remote_brew_install env (snd m)))"

fun ensure_consumers :: "boot_env \<Rightarrow> (string \<times> string) list \<Rightarrow> unit boot" where
  "ensure_consumers env [] = liftE (Inr ())"
| "ensure_consumers env (m # ms) = bindE (ensure_remote_consumer env m) (\<lambda>_. ensure_consumers env ms)"

subsection \<open>Adding a host\<close>

definition discover_lan_addresses :: "(string \<Rightarrow> string \<Rightarrow> bool) \<Rightarrow> (string \<Rightarrow> string) \<Rightarrow> string list \<Rightarrow> string \<Rightarrow> string \<Rightarrow> string list" where
  "discover_lan_addresses same lower browsed target self =
     (case find (\<lambda>n. same n (host_node target)) (fst (local_nodes same lower browsed (host_node self))) of
        Some _ \<Rightarrow> [local_target target] | None \<Rightarrow> [])"

definition on_file :: "(state_file \<Rightarrow> state_file \<times> 'o option \<times> unit res) \<Rightarrow> unit boot" where
  "on_file op s = (case op (fst s) of (f, _, r) \<Rightarrow> ((f, snd s), r))"

definition set_self :: "string \<Rightarrow> registry_view \<Rightarrow> registry_view res" where
  "set_self self g = Inr (if self \<noteq> [] then g\<lparr>rv_self := self\<rparr> else g)"

definition inverse_add :: "string \<Rightarrow> string \<Rightarrow> string" where
  "inverse_add path self = shell_word path @ '' host add '' @ shell_word self @ '' --no-recurse''"

definition own_identity :: "boot_env \<Rightarrow> string \<Rightarrow> bool \<Rightarrow> string res" where
  "own_identity env self no_recurse = (if self \<noteq> [] then Inr self
     else case be_self env of Inr d \<Rightarrow> Inr d | Inl e \<Rightarrow> if no_recurse then Inr [] else Inl e)"

definition daemon_path :: "boot_env \<Rightarrow> bool \<Rightarrow> string boot" where
  "daemon_path env no_recurse =
     (if no_recurse then bindE (probe_path env MeshBinary) (\<lambda>found.
        liftE (case found of Some path \<Rightarrow> Inr path | None \<Rightarrow> Inl (ErrMsg ''exact remote synckitd path is unavailable'')))
      else bindE (require_darwin_peer env) (\<lambda>_. ensure_remote_daemon env))"

definition remote_steps :: "boot_env \<Rightarrow> (string \<times> string) list \<Rightarrow> string \<Rightarrow> string \<Rightarrow> unit boot" where
  "remote_steps env consumers self path =
     bindE (ensure_consumers env consumers) (\<lambda>_.
     bindE (ssh env (inverse_add path self)) (\<lambda>_.
     bindE (ssh_warn env (shell_word path @ '' reconcile'')) (\<lambda>_.
     bindE (ssh_warn env (shell_word path @ '' install'')) (\<lambda>_.
       ssh_warn env (shell_word path @ '' host enroll '' @ shell_word self)))))"

definition register_step :: "(string \<Rightarrow> string \<Rightarrow> bool) \<Rightarrow> (string \<Rightarrow> string) \<Rightarrow> boot_env \<Rightarrow> string \<Rightarrow> string \<Rightarrow> string \<Rightarrow> unit boot" where
  "register_step same lower env target self path =
     bindE (liftE (new_host_fact target path (discover_lan_addresses same lower (be_browse env) target self))) (\<lambda>x.
     bindE (liftE (be_known_hosts env)) (\<lambda>_.
       on_file (register_host Mesh (be_state env 2) x)))"

definition add_host :: "(string \<Rightarrow> string \<Rightarrow> bool) \<Rightarrow> (string \<Rightarrow> string) \<Rightarrow> boot_env \<Rightarrow> (string \<times> string) list \<Rightarrow> string \<Rightarrow> string \<Rightarrow> bool \<Rightarrow> unit boot" where
  "add_host same lower env consumers target self0 no_recurse =
     bindE (on_file (initialize_state Mesh (be_state env 0))) (\<lambda>_.
     bindE (liftE (own_identity env self0 no_recurse)) (\<lambda>self.
     bindE (on_file (update Mesh (be_state env 1) (set_self self))) (\<lambda>_.
     bindE (daemon_path env no_recurse) (\<lambda>path.
     bindE (register_step same lower env target self path) (\<lambda>_.
       if no_recurse then liftE (Inr ()) else remote_steps env consumers self path)))))"

subsection \<open>Hosts in the file\<close>

definition hosts_in :: "state_file \<Rightarrow> string \<Rightarrow> host_fact option" where
  "hosts_in f = (case f of None \<Rightarrow> (\<lambda>_. None)
     | Some data \<Rightarrow> (case decode_envelope Mesh data of Inl _ \<Rightarrow> (\<lambda>_. None) | Inr env \<Rightarrow> fact_named (facts_of env)))"

lemma hosts_in_decoded: "decode_envelope Mesh data = Inr env \<Longrightarrow> hosts_in (Some data) = fact_named (facts_of env)"
  by (simp add: hosts_in_def)

lemma lock_file: "fst (with_lock ev body f) = f \<or> fst (with_lock ev body f) = fst (body f)"
  by (auto simp: with_lock_def split: sum.split prod.split)

lemma written_hosts:
  assumes "write_envelope Mesh ev env f = (f', r)" and "se_schema env = own_schema Mesh"
  shows "f' = f \<or> hosts_in f' = fact_named (facts_of env)"
  using write_envelopeD(1) [OF assms(1) mesh_contract mesh_plain assms(2)] hosts_in_decoded by auto

lemma init_hosts: "hosts_in (fst (initialize_state Mesh ev f)) = hosts_in f"
proof -
  have "hosts_in (fst (initialize_body Mesh ev f)) = hosts_in f"
  proof (cases f)
    case None
    obtain f' r where w: "write_envelope Mesh ev (initial_envelope Mesh) None = (f', r)" by (metis surj_pair)
    have "se_schema (initial_envelope Mesh) = own_schema Mesh" by (simp add: initial_envelope_def own_schema_def)
    from written_hosts [OF w this] have "hosts_in f' = hosts_in None" by (auto simp: hosts_in_def initial_envelope_def facts_of_def fact_named_def)
    with None w show ?thesis by (auto simp: initialize_body_def mesh_contract split: sum.split option.split)
  next
    case (Some data)
    then show ?thesis by (auto simp: initialize_body_def split: sum.split option.split)
  qed
  with lock_file [of ev "initialize_body Mesh ev" f] show ?thesis by (auto simp: initialize_state_def)
qed

lemma known_all:
  assumes "distinct (map hf_identity fs)" and "known_facts fs [] (map hf_identity fs) = Inr xs"
  shows "xs = fs"
proof -
  have "map (fact_named fs) (map hf_identity fs) = map Some fs"
    using fact_named_Some [OF assms(1)] by auto
  with known_facts_Inr [OF assms(2)] have "map Some xs = map Some fs" by simp
  then show ?thesis by (simp add: inj_map_eq_map)
qed

lemma update_hosts: "hosts_in (fst (update Mesh ev (set_self self) f)) = hosts_in f"
proof -
  have "hosts_in (fst (update_body Mesh ev (set_self self) f)) = hosts_in f"
  proof (cases "read_envelope Mesh ev f")
    case (Inr env)
    obtain data where d: "f = Some data" "decode_envelope Mesh data = Inr env" using read_envelopeD [OF Inr] by blast
    obtain g where g: "set_self self (view_of env) = Inr g" "rv_hosts g = map hf_identity (facts_of env)"
      by (auto simp: set_self_def view_of_def)
    show ?thesis
    proof (cases "known_facts (facts_of env) [] (rv_hosts g)")
      case (Inl e)
      with Inr g show ?thesis by (simp add: update_body_def)
    next
      case k: (Inr xs)
      have xs: "xs = facts_of env" using known_all [OF facts_of_decoded(3) [OF d(2)]] k g(2) by simp
      let ?env = "env\<lparr>se_host := \<lparr>hr_self = rv_self g, hr_hosts = Some xs\<rparr>\<rparr>"
      obtain f' r where w: "write_envelope Mesh ev ?env f = (f', r)" by (metis surj_pair)
      have "f' = f \<or> hosts_in f' = fact_named (facts_of ?env)" by (rule written_hosts [OF w]) (use decode_facts(2) [OF d(2)] in simp)
      moreover have "facts_of ?env = facts_of env" by (simp add: facts_of_def xs)
      ultimately show ?thesis using Inr g(1) k w d hosts_in_decoded by (auto simp: update_body_def)
    qed
  qed (simp add: update_body_def)
  with lock_file [of ev "update_body Mesh ev (set_self self)" f] show ?thesis by (auto simp: update_def)
qed

lemma register_hosts:
  "hosts_in (fst (register_host Mesh ev x f)) = hosts_in f \<or> hosts_in (fst (register_host Mesh ev x f)) = (hosts_in f)(hf_identity x \<mapsto> x)"
proof -
  define body where "body = (\<lambda>f. case read_envelope Mesh ev f of
      Inl e \<Rightarrow> (f, None :: unit option, Inl e)
    | Inr env \<Rightarrow> (case write_envelope Mesh ev (with_hosts (registered x (facts_of env)) env) f of (f', r) \<Rightarrow> (f', None, r)))"
  have r: "fst (register_host Mesh ev x f) = f \<or> fst (register_host Mesh ev x f) = fst (with_lock ev body f)"
    unfolding register_host_def body_def by (auto split: sum.split)
  have "hosts_in (fst (body f)) = hosts_in f \<or> hosts_in (fst (body f)) = (hosts_in f)(hf_identity x \<mapsto> x)"
  proof (cases "read_envelope Mesh ev f")
    case (Inl e)
    then show ?thesis by (simp add: body_def)
  next
    case (Inr env)
    obtain data where d: "f = Some data" "decode_envelope Mesh data = Inr env" using read_envelopeD [OF Inr] by blast
    let ?env = "with_hosts (registered x (facts_of env)) env"
    obtain f' r where w: "write_envelope Mesh ev ?env f = (f', r)" by (metis surj_pair)
    have b: "fst (body f) = f'" using Inr w by (simp add: body_def)
    have h: "f' = f \<or> hosts_in f' = fact_named (facts_of ?env)"
      by (rule written_hosts [OF w]) (use decode_facts(2) [OF d(2)] in \<open>simp add: with_hosts_def\<close>)
    note fs = facts_of_decoded(3) [OF d(2)]
    note reg = registered_facts [OF fs, of x]
    have "facts_of ?env = registered x (facts_of env)" by (simp add: facts_of_def with_hosts_def)
    moreover have "fact_named (registered x (facts_of env)) = (fact_named (facts_of env))(hf_identity x \<mapsto> x)"
    proof
      fix i
      show "fact_named (registered x (facts_of env)) i = ((fact_named (facts_of env))(hf_identity x \<mapsto> x)) i"
      proof (cases "i = hf_identity x")
        case True
        then show ?thesis using fact_named_Some [OF reg(2)] reg(1) by simp
      next
        case False
        have "fact_named (registered x (facts_of env)) i = fact_named (facts_of env) i"
          by (rule fact_named_eq [OF reg(2) fs]) (use False reg(1) in auto)
        with False show ?thesis by simp
      qed
    qed
    ultimately show ?thesis using b h hosts_in_decoded [OF d(2)] d(1) by auto
  qed
  with r lock_file [of ev body f] show ?thesis by metis
qed

subsection \<open>Steps on the log\<close>

text \<open>A remote operation leaves the file and extends the log.\<close>

definition extends :: "boot_state \<Rightarrow> boot_state \<Rightarrow> bool" where
  "extends s s' \<longleftrightarrow> fst s' = fst s \<and> (\<exists>more. snd s' = snd s @ more)"

lemma log_grows_refl [simp]: "extends s s"
  by (simp add: extends_def)

lemma log_grows_trans: "extends s s' \<Longrightarrow> extends s' s'' \<Longrightarrow> extends s s''"
  by (auto simp: extends_def)

definition remote_only :: "'a boot \<Rightarrow> bool" where
  "remote_only op \<longleftrightarrow> (\<forall>s. extends s (fst (op s)))"

lemma remote_onlyD: "remote_only op \<Longrightarrow> op s = (s', r) \<Longrightarrow> extends s s'"
  by (metis fst_conv remote_only_def)

lemma remote_bind: "remote_only m \<Longrightarrow> (\<And>x. remote_only (k x)) \<Longrightarrow> remote_only (bindE m k)"
proof -
  assume m: "remote_only m" and k: "\<And>x. remote_only (k x)"
  have "extends s (fst (bindE m k s))" for s
  proof -
    obtain s1 r where s1: "m s = (s1, r)" by (cases "m s")
    with m have e: "extends s s1" by (rule remote_onlyD)
    show ?thesis
    proof (cases r)
      case (Inl x)
      with s1 e show ?thesis by (simp add: bindE_def)
    next
      case (Inr x)
      have "extends s1 (fst (k x s1))" using k [of x, unfolded remote_only_def] by blast
      with e have "extends s (fst (k x s1))" by (rule log_grows_trans)
      with s1 Inr show ?thesis by (simp add: bindE_def)
    qed
  qed
  then show ?thesis by (simp add: remote_only_def)
qed

lemma remote_lift [simp, intro]: "remote_only (liftE r)"
  by (simp add: remote_only_def liftE_def)

lemma remote_ssh [simp, intro]: "remote_only (ssh env cmd)" "remote_only (ssh_warn env cmd)"
  by (auto simp: remote_only_def ssh_warn_def ssh_def extends_def split: prod.split)

lemma probe_state: "fst (probe_path env binary s) = fst (ssh env (''command -v '' @ binary) s)"
  by (cases "ssh env (''command -v '' @ binary) s"; cases "snd (ssh env (''command -v '' @ binary) s)") (simp_all add: probe_path_def)

lemma remote_probe [simp, intro]: "remote_only (probe_path env binary)"
  using remote_ssh(1) [of env "''command -v '' @ binary"] by (simp add: remote_only_def probe_state)

lemma remote_brew [simp, intro]: "remote_only (remote_brew_install env formula)"
  unfolding remote_brew_install_def by (intro remote_bind) auto

lemma remote_consumer: "remote_only (ensure_remote_consumer env m)"
  unfolding ensure_remote_consumer_def by (auto intro!: remote_bind split: option.split)

lemma remote_consumers [simp, intro]: "remote_only (ensure_consumers env ms)"
  by (induction ms) (auto intro!: remote_bind remote_consumer)

lemma remote_remote [simp, intro]: "remote_only (remote_steps env consumers self path)"
  unfolding remote_steps_def by (intro remote_bind) auto

lemma remote_ensure [simp, intro]: "remote_only (ensure_remote_daemon env)"
  unfolding ensure_remote_daemon_def by (auto intro!: remote_bind split: option.split)

lemma remote_path [simp, intro]: "remote_only (daemon_path env no_recurse)"
  unfolding daemon_path_def require_darwin_peer_def by (auto intro!: remote_bind)

subsection \<open>What is registered was probed\<close>

lemma bindE_Inl: "bindE m k s = (s', Inl e) \<Longrightarrow> m s = (s', Inl e) \<or> (\<exists>s1 x. m s = (s1, Inr x) \<and> k x s1 = (s', Inl e))"
  by (elim bindE_cases) auto

lemma ssh_logs: "ssh env cmd s = (s', r) \<Longrightarrow> \<exists>out failed. s' = (fst s, snd s @ [(cmd, out, failed)]) \<and> (\<forall>o'. r = Inr o' \<longrightarrow> o' = out \<and> \<not> failed)"
  by (auto simp: ssh_def split: prod.splits if_splits)

text \<open>The log since \<open>n\<close> shows where the path came from.\<close>

definition probed :: "nat \<Rightarrow> ssh_log \<Rightarrow> string \<Rightarrow> bool" where
  "probed n log path \<longleftrightarrow> (\<exists>out. (''command -v synckitd'', out, False) \<in> set (drop n log) \<and> path = trim_space out \<and> exact_remote_path path)"

definition darwin_seen :: "nat \<Rightarrow> ssh_log \<Rightarrow> bool" where
  "darwin_seen n log \<longleftrightarrow> (\<exists>out. (''uname -s'', out, False) \<in> set (drop n log) \<and> trim_space out = ''Darwin'')"

lemma seen_extends: "probed n log path \<Longrightarrow> probed n (log @ later) path" "darwin_seen n log \<Longrightarrow> darwin_seen n (log @ later)"
  by (auto simp: probed_def darwin_seen_def)

lemma probe_found:
  assumes "probe_path env MeshBinary s = (s', Inr (Some path))" and "n \<le> length (snd s)"
  shows "probed n (snd s') path"
proof -
  obtain s1 r where r: "ssh env (''command -v '' @ MeshBinary) s = (s1, r)" by (metis surj_pair)
  with assms(1) obtain out where o: "r = Inr out" "s1 = s'" "path = trim_space out" "exact_remote_path path"
    by (cases r) (auto simp: probe_path_def split: if_splits)
  with ssh_logs [OF r] assms(2) show ?thesis by (auto simp: probed_def MeshBinary_def)
qed

lemma ensure_daemon_found:
  assumes "ensure_remote_daemon env s = (s', Inr path)" and "n \<le> length (snd s)"
  shows "probed n (snd s') path"
proof -
  obtain s1 found where p: "probe_path env MeshBinary s = (s1, Inr found)" and k: "(case found of
     Some path \<Rightarrow> liftE (Inr path)
   | None \<Rightarrow> bindE (remote_brew_install env synckitdBrew) (\<lambda>_. bindE (probe_path env MeshBinary) (\<lambda>again.
       liftE (case again of Some path \<Rightarrow> Inr path | None \<Rightarrow> Inl (ErrMsg ''resolve exact synckitd path after install''))))) s1 = (s', Inr path)"
    using assms(1) unfolding ensure_remote_daemon_def by (elim bindE_cases) auto
  have l: "n \<le> length (snd s1)" using remote_onlyD [OF remote_probe p] assms(2) by (auto simp: extends_def)
  show ?thesis
  proof (cases found)
    case (Some q)
    with k have "s' = s1" "path = q" by auto
    with p Some assms(2) show ?thesis by (intro probe_found) auto
  next
    case None
    with k obtain s2 u s3 again where b: "remote_brew_install env synckitdBrew s1 = (s2, Inr u)" and q: "probe_path env MeshBinary s2 = (s3, Inr again)"
      and e: "again = Some path" "s3 = s'"
      by (auto elim!: bindE_cases split: option.splits)
    have "n \<le> length (snd s2)" using remote_onlyD [OF remote_brew b] l by (auto simp: extends_def)
    with q e show ?thesis by (intro probe_found) auto
  qed
qed

lemma daemon_path_found:
  assumes "daemon_path env no_recurse s = (s', Inr path)"
  shows "probed (length (snd s)) (snd s') path" and "\<not> no_recurse \<Longrightarrow> darwin_seen (length (snd s)) (snd s')"
proof -
  show "probed (length (snd s)) (snd s') path"
  proof (cases no_recurse)
    case True
    with assms obtain found where "probe_path env MeshBinary s = (s', Inr found)" "found = Some path"
      by (auto simp: daemon_path_def elim!: bindE_cases split: option.splits)
    then show ?thesis by (intro probe_found) auto
  next
    case False
    with assms obtain s1 u where d: "require_darwin_peer env s = (s1, Inr u)" and k: "ensure_remote_daemon env s1 = (s', Inr path)"
      by (auto simp: daemon_path_def elim!: bindE_cases)
    have "remote_only (require_darwin_peer env)" unfolding require_darwin_peer_def by (intro remote_bind) auto
    from remote_onlyD [OF this d] have "length (snd s) \<le> length (snd s1)" by (auto simp: extends_def)
    with k show ?thesis by (rule ensure_daemon_found)
  qed
  assume "\<not> no_recurse"
  with assms obtain s1 u where d: "require_darwin_peer env s = (s1, Inr u)" and k: "ensure_remote_daemon env s1 = (s', Inr path)"
    by (auto simp: daemon_path_def elim!: bindE_cases)
  from d obtain out where u: "ssh env ''uname -s'' s = (s1, Inr out)" "trim_space out = ''Darwin''"
    by (auto simp: require_darwin_peer_def elim!: bindE_cases split: if_splits)
  with ssh_logs [OF u(1)] have "darwin_seen (length (snd s)) (snd s1)" by (auto simp: darwin_seen_def)
  with remote_onlyD [OF remote_ensure k] show "darwin_seen (length (snd s)) (snd s')" by (auto simp: extends_def intro: seen_extends)
qed

lemma on_file_state: "on_file op s = (s', r) \<Longrightarrow> snd s' = snd s \<and> fst s' = fst (op (fst s))"
  by (auto simp: on_file_def split: prod.splits)

lemma register_step_file:
  assumes "register_step same lower env target self path s = (s', r)"
  shows "snd s' = snd s \<and> (hosts_in (fst s') = hosts_in (fst s) \<or>
    (\<exists>x. new_host_fact target path (discover_lan_addresses same lower (be_browse env) target self) = Inr x \<and> hosts_in (fst s') = (hosts_in (fst s))(target \<mapsto> x)))"
proof (cases "new_host_fact target path (discover_lan_addresses same lower (be_browse env) target self)")
  case (Inl e)
  with assms show ?thesis by (simp add: register_step_def)
next
  case (Inr x)
  have i: "hf_identity x = target" using Inr by (auto simp: new_host_fact_def andthen_Inr_iff split: if_splits)
  show ?thesis
  proof (cases "be_known_hosts env")
    case (Inl e)
    with assms Inr show ?thesis by (simp add: register_step_def)
  next
    case k: (Inr u)
    with assms Inr have "on_file (register_host Mesh (be_state env 2) x) s = (s', r)" by (simp add: register_step_def)
    from on_file_state [OF this] register_hosts [of "be_state env 2" x "fst s"] i Inr show ?thesis by auto
  qed
qed

text \<open>C12. Adding a host touches no other host, and whatever fails on the way, the host's fact changes only to the one made of a
  path that \<^verbatim>\<open>command -v\<close> printed on that host in this run, exact and absolute, after the kernel probe said Darwin unless the
  remote steps are skipped.\<close>
theorem add_host_registers_probed:
  assumes "add_host same lower env consumers target self0 no_recurse (f, []) = ((f', log), r)"
  shows "(\<forall>i. i \<noteq> target \<longrightarrow> hosts_in f' i = hosts_in f i) \<and>
    (hosts_in f' target = hosts_in f target \<or>
     (\<exists>path self x. hosts_in f' target = Some x \<and> new_host_fact target path (discover_lan_addresses same lower (be_browse env) target self) = Inr x \<and>
        probed 0 log path \<and> (no_recurse \<or> darwin_seen 0 log)))"
proof -
  obtain s1 r1 where o1: "on_file (initialize_state Mesh (be_state env 0)) (f, []) = (s1, r1)" by (metis surj_pair)
  have h1: "snd s1 = []" "hosts_in (fst s1) = hosts_in f" using on_file_state [OF o1] init_hosts by simp_all
  note a = assms [unfolded add_host_def]
  show ?thesis
  proof (cases "\<exists>u self. r1 = Inr u \<and> own_identity env self0 no_recurse = Inr self")
    case False
    with a o1 have "(f', log) = s1" by (cases r1; cases "own_identity env self0 no_recurse") (auto simp: bindE_def liftE_def)
    with h1 show ?thesis by auto
  next
    case True
    then obtain u self where s: "r1 = Inr u" "own_identity env self0 no_recurse = Inr self" by blast
    obtain s2 r2 where o2: "on_file (update Mesh (be_state env 1) (set_self self)) s1 = (s2, r2)" by (metis surj_pair)
    have h2: "snd s2 = []" "hosts_in (fst s2) = hosts_in f" using on_file_state [OF o2] update_hosts h1 by simp_all
    obtain s3 r3 where o3: "daemon_path env no_recurse s2 = (s3, r3)" by (metis surj_pair)
    have h3: "hosts_in (fst s3) = hosts_in f" using remote_onlyD [OF remote_path o3] h2 by (auto simp: extends_def)
    show ?thesis
    proof (cases "\<exists>u path. r2 = Inr u \<and> r3 = Inr path")
      case False
      with a o1 s o2 o3 have "(f', log) = s2 \<or> (f', log) = s3" by (cases r2; cases r3) (auto simp: bindE_def liftE_def)
      with h2 h3 show ?thesis by auto
    next
      case True
      then obtain v path where t: "r2 = Inr v" "r3 = Inr path" by blast
      have p: "probed 0 (snd s3) path" "no_recurse \<or> darwin_seen 0 (snd s3)"
        using daemon_path_found [OF o3 [unfolded t(2)], unfolded h2(1)] by auto
      obtain s4 r4 where o4: "register_step same lower env target self path s3 = (s4, r4)" by (metis surj_pair)
      note h4 = register_step_file [OF o4]
      have "extends s4 (f', log)"
      proof (cases r4)
        case (Inl e)
        with a o1 s o2 o3 t o4 show ?thesis by (simp add: bindE_def liftE_def)
      next
        case (Inr w)
        with a o1 s o2 o3 t o4 have "(if no_recurse then liftE (Inr ()) else remote_steps env consumers self path) s4 = ((f', log), r)"
          by (simp add: bindE_def liftE_def)
        then show ?thesis using remote_onlyD [OF remote_remote, of env consumers self path s4 "(f', log)" r] by (auto split: if_splits)
      qed
      then have e: "f' = fst s4" "\<exists>more. log = snd s3 @ more" using h4 by (auto simp: extends_def)
      with p have q: "probed 0 log path \<and> (no_recurse \<or> darwin_seen 0 log)" by (auto intro: seen_extends)
      from h4 consider (same) "hosts_in (fst s4) = hosts_in (fst s3)"
        | (new) x where "new_host_fact target path (discover_lan_addresses same lower (be_browse env) target self) = Inr x"
            "hosts_in (fst s4) = (hosts_in (fst s3))(target \<mapsto> x)" by blast
      then show ?thesis
      proof cases
        case same
        with h3 e(1) show ?thesis by simp
      next
        case new
        then have "\<forall>i. i \<noteq> target \<longrightarrow> hosts_in f' i = hosts_in f i" "hosts_in f' target = Some x" using h3 e(1) by simp_all
        with new(1) q show ?thesis by blast
      qed
    qed
  qed
qed

text \<open>The command that registers this host on the peer is read by its shell as exactly its words, whatever the path and the
  identity contain.\<close>
theorem inverse_add_words: "shell_split False None (inverse_add path self) = Some [path, ''host'', ''add'', self, ''--no-recurse'']"
  by (simp add: inverse_add_def shell_split_word)

text \<open>On a peer that is to be installed nothing runs but the kernel probe until that has printed Darwin.\<close>
theorem bootstrap_darwin_only:
  assumes "add_host same lower env consumers target self0 False (f, []) = ((f', log), r)"
  shows "case log of [] \<Rightarrow> True | (cmd, out, failed) # rest \<Rightarrow> cmd = ''uname -s'' \<and> (rest \<noteq> [] \<longrightarrow> \<not> failed \<and> trim_space out = ''Darwin'')"
proof -
  define tail where "tail = (\<lambda>self path. bindE (register_step same lower env target self path) (\<lambda>_. remote_steps env consumers self path))"
  have rt: "snd s' = snd s @ drop (length (snd s)) (snd s') \<and> length (snd s) \<le> length (snd s')" if "tail self path s = (s', r')" for self path s s' r'
  proof -
    obtain s1 r1 where g: "register_step same lower env target self path s = (s1, r1)" by (metis surj_pair)
    have g1: "snd s1 = snd s" using register_step_file [OF g] by simp
    have "extends s1 s'" using that g remote_onlyD [OF remote_remote, of env consumers self path s1 s' r'] by (cases r1) (auto simp: tail_def bindE_def)
    with g1 show ?thesis by (auto simp: extends_def)
  qed
  obtain s1 r1 where o1: "on_file (initialize_state Mesh (be_state env 0)) (f, []) = (s1, r1)" by (metis surj_pair)
  have h1: "snd s1 = []" using on_file_state [OF o1] by simp
  note a = assms [unfolded add_host_def, simplified, folded tail_def]
  show ?thesis
  proof (cases "\<exists>u self. r1 = Inr u \<and> own_identity env self0 False = Inr self")
    case False
    with a o1 have "(f', log) = s1" by (cases r1; cases "own_identity env self0 False") (auto simp: bindE_def liftE_def)
    with h1 show ?thesis by auto
  next
    case True
    then obtain u self where s: "r1 = Inr u" "own_identity env self0 False = Inr self" by blast
    obtain s2 r2 where o2: "on_file (update Mesh (be_state env 1) (set_self self)) s1 = (s2, r2)" by (metis surj_pair)
    have h2: "snd s2 = []" using on_file_state [OF o2] h1 by simp
    show ?thesis
    proof (cases r2)
      case (Inl e)
      with a o1 s o2 have "(f', log) = s2" by (auto simp: bindE_def liftE_def)
      with h2 show ?thesis by auto
    next
      case r2: (Inr v)
      obtain s3 r3 where d: "require_darwin_peer env s2 = (s3, r3)" by (metis surj_pair)
      obtain s0 r0 where sh: "ssh env ''uname -s'' s2 = (s0, r0)" by (metis surj_pair)
      obtain out failed where l: "s0 = (fst s2, [(''uname -s'', out, failed)])" "\<And>o'. r0 = Inr o' \<Longrightarrow> o' = out \<and> \<not> failed"
        using ssh_logs [OF sh] h2 by auto
      have s3: "s3 = s0" using d sh by (cases r0) (auto simp: require_darwin_peer_def bindE_def liftE_def)
      show ?thesis
      proof (cases r3)
        case (Inl e)
        with a o1 s o2 r2 d have "(f', log) = s3" by (auto simp: bindE_def liftE_def daemon_path_def)
        with s3 l show ?thesis by auto
      next
        case (Inr w)
        with d sh obtain o' where "r0 = Inr o'" "trim_space o' = ''Darwin''"
          by (cases r0) (auto simp: require_darwin_peer_def bindE_def liftE_def split: if_splits)
        with l have ok: "\<not> failed" "trim_space out = ''Darwin''" by auto
        obtain s4 r4 where e: "ensure_remote_daemon env s3 = (s4, r4)" by (metis surj_pair)
        have x4: "\<exists>more. snd s4 = (''uname -s'', out, failed) # more" using remote_onlyD [OF remote_ensure e] s3 l by (auto simp: extends_def)
        have dp: "daemon_path env False s2 = (s4, r4)" using d Inr e by (simp add: daemon_path_def bindE_def)
        show ?thesis
        proof (cases r4)
          case (Inl e')
          with a o1 s o2 r2 dp have "(f', log) = s4" by (auto simp: bindE_def liftE_def)
          with x4 ok show ?thesis by auto
        next
          case (Inr path)
          with a o1 s o2 r2 dp have "tail self path s4 = ((f', log), r)" by (simp add: bindE_def liftE_def tail_def)
          from rt [OF this] x4 obtain more where "log = (''uname -s'', out, failed) # more" by auto
          with ok show ?thesis by simp
        qed
      qed
    qed
  qed
qed

subsection \<open>Instances\<close>

definition linux_env :: boot_env where
  "linux_env = \<lparr>be_state = (\<lambda>_. ok_env), be_self = Inr ''me@here.ts'', be_browse = [''box''], be_known_hosts = Inr (),
     be_ssh = (\<lambda>_ cmd. if cmd = ''uname -s'' then (''Linux'', False) else ([], True))\<rparr>"

text \<open>A Mac that has the daemon, seen on the local network, added to a mesh with no host.\<close>

definition mac_env :: boot_env where
  "mac_env = \<lparr>be_state = (\<lambda>_. ok_env), be_self = Inl (ErrMsg ''tailscale status''), be_browse = [''box''], be_known_hosts = Inr (),
     be_ssh = (\<lambda>_ cmd. if cmd = ''command -v synckitd'' then (''/opt/s'', False) else ([], True))\<rparr>"

definition lan_fact :: host_fact where
  "lan_fact = sample_fact\<lparr>hf_addresses := [''box.local'', ''box.ts'']\<rparr>"

lemma lan_new: "new_host_fact ''me@box.ts'' ''/opt/s'' [''me@box.local''] = Inr lan_fact"
  by (simp add: new_host_fact_def split_identity_def cut_at_def plain_address_def sample_user_host sample_path sample_fact_def lan_fact_def)

lemma lan_addresses: "discover_lan_addresses (=) id [''box''] ''me@box.ts'' [] = [''me@box.local'']"
  by (simp add: discover_lan_addresses_def local_nodes_def host_node_def local_target_def after_last_def cut_at_def upto_last_def)

lemma lan_encodes:
  obtains data where "encode_envelope Mesh (sample_env [lan_fact]) = Inr data" and "hosts_in (Some data) = fact_named [lan_fact]"
proof -
  have "canonical_fact lan_fact" by (rule host_facts(1) [OF lan_new])
  then have "validate_host_registry (se_host (sample_env [lan_fact])) = Inr ()"
    by (auto simp: validate_host_iff sample_env_def with_hosts_def initial_envelope_def)
  moreover have "sc_validate Mesh (se_product (sample_env [lan_fact])) = Inr ()"
    by (simp add: sample_env_def with_hosts_def initial_envelope_def mesh_fields validate_empty_iff)
  ultimately obtain data where d: "encode_envelope Mesh (sample_env [lan_fact]) = Inr data" by (simp add: encode_envelope_def)
  have "decode_envelope Mesh data = Inr (sample_env [lan_fact])"
    by (rule encoded_decodes [OF mesh_contract mesh_plain _ d]) (simp add: sample_env_def with_hosts_def initial_envelope_def own_schema_def)
  then have "hosts_in (Some data) = fact_named [lan_fact]" by (simp add: hosts_in_decoded) (simp add: facts_of_def sample_env_def with_hosts_def)
  with d show thesis by (rule that)
qed

lemma sample_unchanged: "update Mesh ok_env (set_self []) (Some (sample_file [])) = (Some (sample_file []), Some \<lparr>rv_self = [], rv_hosts = []\<rparr>, Inr ())"
proof -
  have v: "set_self [] (view_of (sample_env [])) = Inr \<lparr>rv_self = [], rv_hosts = []\<rparr>"
    by (simp add: set_self_def view_of_def sample_env_def with_hosts_def facts_of_def initial_envelope_def)
  have e: "(sample_env [])\<lparr>se_host := \<lparr>hr_self = [], hr_hosts = Some []\<rparr>\<rparr> = sample_env []"
    by (simp add: sample_env_def with_hosts_def initial_envelope_def)
  show ?thesis using sample_reads [of "[]"] sample_encodes [of "[]"]
    by (simp add: update_def with_lock_def update_body_def v e write_envelope_def)
qed

lemma lan_registers:
  assumes "encode_envelope Mesh (sample_env [lan_fact]) = Inr data"
  shows "register_host Mesh ok_env lan_fact (Some (sample_file [])) = (Some data, None, Inr ())"
proof -
  have "with_hosts (registered lan_fact (facts_of (sample_env []))) (sample_env []) = sample_env [lan_fact]"
    by (simp add: sample_env_def with_hosts_def facts_of_def registered_def)
  moreover have "canonical_fact lan_fact" by (rule host_facts(1) [OF lan_new])
  ultimately show ?thesis using sample_reads [of "[]"] assms
    by (simp add: register_host_def canonical_fact_def with_lock_def write_envelope_def)
qed

lemma sample_initialized: "initialize_state Mesh ok_env (Some (sample_file [])) = (Some (sample_file []), None, Inr ())"
  using sample_reads [of "[]"] by (simp add: initialize_state_def with_lock_def initialize_body_def)

lemma mac_adds:
  assumes "encode_envelope Mesh (sample_env [lan_fact]) = Inr data"
  shows "add_host (=) id mac_env [] ''me@box.ts'' [] True (Some (sample_file []), []) = ((Some data, [(''command -v synckitd'', ''/opt/s'', False)]), Inr ())"
proof -
  have "trim_space ''/opt/s'' = ''/opt/s''" by code_simp
  then have "daemon_path mac_env True s = ((fst s, snd s @ [(''command -v synckitd'', ''/opt/s'', False)]), Inr ''/opt/s'')" for s
    by (simp add: daemon_path_def probe_path_def ssh_def mac_env_def MeshBinary_def bindE_def liftE_def sample_path)
  moreover have "own_identity mac_env [] True = Inr []" by (simp add: own_identity_def mac_env_def)
  moreover have "register_step (=) id mac_env ''me@box.ts'' [] ''/opt/s'' (Some (sample_file []), log) = ((Some data, log), Inr ())" for log
    using lan_registers [OF assms] by (simp add: register_step_def mac_env_def lan_addresses lan_new bindE_def liftE_def on_file_def)
  moreover have "be_state mac_env i = ok_env" for i by (simp add: mac_env_def)
  ultimately show ?thesis using sample_initialized sample_unchanged by (simp add: add_host_def bindE_def liftE_def on_file_def)
qed

theorem add_host_registers_probed_witness:
  "\<exists>f log. add_host (=) id mac_env [] ''me@box.ts'' [] True (Some (sample_file []), []) = ((f, log), Inr ()) \<and>
     hosts_in f ''me@box.ts'' = Some lan_fact \<and> hosts_in f ''you@box.ts'' = None \<and> probed 0 log ''/opt/s''"
proof -
  obtain data where d: "encode_envelope Mesh (sample_env [lan_fact]) = Inr data" "hosts_in (Some data) = fact_named [lan_fact]" by (rule lan_encodes)
  note a = mac_adds [OF d(1)]
  have n: "hosts_in (Some (sample_file [])) = (\<lambda>_. None)"
    by (simp add: hosts_in_decoded [OF sample_decodes]) (auto simp: facts_of_def sample_env_def with_hosts_def fact_named_def)
  have m: "hosts_in (Some data) ''me@box.ts'' = Some lan_fact" by (simp add: d(2) fact_named_def lan_fact_def sample_fact_def)
  have p: "new_host_fact target path addresses = Inr lan_fact \<Longrightarrow> path = ''/opt/s''" for target path addresses
    by (auto simp: new_host_fact_def andthen_Inr_iff lan_fact_def sample_fact_def split: prod.splits if_splits dest: arg_cong [of _ _ hf_path])
  from add_host_registers_probed [OF a] n m p show ?thesis using a by auto
qed

theorem bootstrap_darwin_only_witness:
  "\<exists>log. snd (fst (add_host (=) id linux_env [] ''me@box.ts'' [] False (None, []))) = log \<and> (log \<noteq> [] \<longrightarrow> fst (hd log) = ''uname -s'')"
proof -
  obtain f log r where a: "add_host (=) id linux_env [] ''me@box.ts'' [] False (None, []) = ((f, log), r)" by (metis surj_pair)
  from bootstrap_darwin_only [OF a] a show ?thesis by (cases log) auto
qed

end
