(* ===== verification/Agent_Install.thy ===== *)
theory Agent_Install
  imports Manifest Effects
begin

text \<open>
  The installation of synckit's launchd agents (\<^verbatim>\<open>src/daemon/install.go\<close>): the plan made from the manifests, the sweep of
  strays against the record of the last install, the replacement of that record, and the removal of everything.

  The state is the record file and a log of what was done, oldest first; whatever is asked of launchd, of the daemon
  library and of the disk is answered from the log. The record's encoding is the daemon library's typed read and write:
  \<open>encode\<close> and \<open>decode\<close> stand for them, and \<open>valid\<close> for its check of a label. Errors that Go joins are the first of them.
\<close>

subsection \<open>State and world\<close>

datatype agent_event =
    Removed string
  | RemoveFailed string
  | RecordWritten "string list"
  | RecordGone
  | ServeEnsured
  | ServeSettled
  | Applied string
  | ApplyFailed string

type_synonym agent_log = "agent_event list"

record installed_agents =
  ia_identity :: string
  ia_labels :: "string list"

type_synonym 'd agents = "'d option \<times> agent_log"
type_synonym ('d, 'a) agent_op = "'d agents \<Rightarrow> 'd agents \<times> 'a res"

record 'd codec =
  cd_encode :: "installed_agents \<Rightarrow> 'd res"
  cd_decode :: "'d \<Rightarrow> installed_agents res"

text \<open>The agent of the reconcile tick: whether it can be built, the plist it would have, and the path of that plist.\<close>

record install_env =
  ie_init :: "unit res"
  ie_scan :: "(manifest list \<times> skipped list) res"
  ie_agent :: "unit res"
  ie_path :: "agent_log \<Rightarrow> unit res"
  ie_read :: "agent_log \<Rightarrow> goerr option"
  ie_write :: "agent_log \<Rightarrow> write_outcome"
  ie_unlink :: "agent_log \<Rightarrow> write_outcome"
  ie_remove :: "agent_log \<Rightarrow> string \<Rightarrow> goerr option"
  ie_ensure :: "agent_log \<Rightarrow> unit res"
  ie_settle :: "agent_log \<Rightarrow> unit res"
  ie_apply :: "agent_log \<Rightarrow> string \<Rightarrow> goerr option"
  ie_plist_path :: "unit res"
  ie_published :: "agent_log \<Rightarrow> bytes res"
  ie_desired :: "bytes res"

subsection \<open>The record\<close>

definition installedAgentsIdentity :: string where "installedAgentsIdentity = ''synckit-installed-agents-v1''"

definition synckit_label :: "string \<Rightarrow> bool" where
  "synckit_label label \<longleftrightarrow> take (length (LabelPrefix @ ''.'')) label = LabelPrefix @ ''.''"

definition validate_installed :: "(string \<Rightarrow> bool) \<Rightarrow> installed_agents \<Rightarrow> unit res" where
  "validate_installed valid a =
     (if ia_identity a \<noteq> installedAgentsIdentity then Inl (ErrMsg ''installed agents identity'')
      else case find (\<lambda>l. \<not> valid l \<or> \<not> synckit_label l) (ia_labels a) of
        Some _ \<Rightarrow> Inl (ErrMsg ''installed agent label'')
      | None \<Rightarrow> Inr ())"

definition read_installed :: "'d codec \<Rightarrow> install_env \<Rightarrow> ('d, string list) agent_op" where
  "read_installed cd env s = (s, andthen (ie_path env (snd s)) (\<lambda>_.
     case ie_read env (snd s) of
       Some e \<Rightarrow> Inl e
     | None \<Rightarrow> (case fst s of None \<Rightarrow> Inr [] | Some d \<Rightarrow> andthen (cd_decode cd d) (\<lambda>a. Inr (ia_labels a)))))"

definition write_installed :: "'d codec \<Rightarrow> install_env \<Rightarrow> string list \<Rightarrow> ('d, unit) agent_op" where
  "write_installed cd env labels s =
     (case andthen (ie_path env (snd s)) (\<lambda>_. cd_encode cd \<lparr>ia_identity = installedAgentsIdentity, ia_labels = labels\<rparr>) of
        Inl e \<Rightarrow> (s, Inl e)
      | Inr d \<Rightarrow> (case ie_write env (snd s) of
          Wrote \<Rightarrow> ((Some d, snd s @ [RecordWritten labels]), Inr ())
        | WroteButFailed e \<Rightarrow> ((Some d, snd s @ [RecordWritten labels]), Inl (ErrIO e))
        | NotWritten e \<Rightarrow> (s, Inl (ErrIO e))))"

definition remove_installed :: "install_env \<Rightarrow> ('d, unit) agent_op" where
  "remove_installed env s = (case ie_path env (snd s) of
     Inl e \<Rightarrow> (s, Inl e)
   | Inr _ \<Rightarrow> (case ie_unlink env (snd s) of
       Wrote \<Rightarrow> ((None, snd s @ [RecordGone]), Inr ())
     | WroteButFailed e \<Rightarrow> ((None, snd s @ [RecordGone]), Inl (ErrIO e))
     | NotWritten e \<Rightarrow> (s, Inl (ErrIO e))))"

subsection \<open>Launchd\<close>

definition remove_agent :: "install_env \<Rightarrow> string \<Rightarrow> ('d, unit) agent_op" where
  "remove_agent env label s = (case ie_remove env (snd s) label of
     None \<Rightarrow> ((fst s, snd s @ [Removed label]), Inr ())
   | Some e \<Rightarrow> ((fst s, snd s @ [RemoveFailed label]), Inl e))"

definition apply_agent :: "install_env \<Rightarrow> string \<Rightarrow> ('d, unit) agent_op" where
  "apply_agent env label s = (case ie_apply env (snd s) label of
     None \<Rightarrow> ((fst s, snd s @ [Applied label]), Inr ())
   | Some e \<Rightarrow> ((fst s, snd s @ [ApplyFailed label]), Inl e))"

definition ensure_serve :: "install_env \<Rightarrow> ('d, unit) agent_op" where
  "ensure_serve env s = (case ie_ensure env (snd s) of Inl e \<Rightarrow> (s, Inl e) | Inr _ \<Rightarrow> ((fst s, snd s @ [ServeEnsured]), Inr ()))"

definition settle_serve :: "install_env \<Rightarrow> ('d, unit) agent_op" where
  "settle_serve env s = (case ie_settle env (snd s) of Inl e \<Rightarrow> (s, Inl e) | Inr _ \<Rightarrow> ((fst s, snd s @ [ServeSettled]), Inr ()))"

text \<open>A loop that removes labels and collects the errors.\<close>

fun remove_each :: "install_env \<Rightarrow> string list \<Rightarrow> 'd agents \<Rightarrow> 'd agents \<times> goerr list" where
  "remove_each env [] s = (s, [])"
| "remove_each env (l # ls) s = (case remove_agent env l s of (s1, r) \<Rightarrow> case remove_each env ls s1 of (s2, es) \<Rightarrow>
     (s2, (case r of Inl e \<Rightarrow> [e] | Inr _ \<Rightarrow> []) @ es))"

definition join_errs :: "goerr list \<Rightarrow> unit res" where
  "join_errs es = (case es of [] \<Rightarrow> Inr () | e # _ \<Rightarrow> Inl e)"

definition retire_drifted :: "install_env \<Rightarrow> string \<Rightarrow> ('d, unit) agent_op" where
  "retire_drifted env label s = (case ie_plist_path env of
     Inl e \<Rightarrow> (s, Inl e)
   | Inr _ \<Rightarrow> (case ie_published env (snd s) of
       Inl ErrNotExist \<Rightarrow> (s, Inr ())
     | Inl e \<Rightarrow> (s, Inl e)
     | Inr published \<Rightarrow> (case ie_desired env of
         Inl e \<Rightarrow> (s, Inl e)
       | Inr desired \<Rightarrow> if published = desired then (s, Inr ()) else remove_agent env label s)))"

subsection \<open>Install\<close>

definition retained_labels :: "skipped list \<Rightarrow> string list \<Rightarrow> string list" where
  "retained_labels skips known = concat (map (\<lambda>k. case helper_label (sk_name k) of
     Inl _ \<Rightarrow> [] | Inr l \<Rightarrow> if l \<in> set known then [l] else []) skips)"

definition sweep_strays :: "install_env \<Rightarrow> string list \<Rightarrow> string list \<Rightarrow> string list \<Rightarrow> ('d, unit) agent_op" where
  "sweep_strays env known keep retained s =
     (case remove_each env (filter (\<lambda>l. l \<notin> set keep \<and> l \<notin> set retained) known) s of (s', es) \<Rightarrow> (s', join_errs es))"

definition converge_agents :: "'d codec \<Rightarrow> install_env \<Rightarrow> string list \<Rightarrow> string list \<Rightarrow> string list \<Rightarrow> ('d, unit) agent_op" where
  "converge_agents cd env known labels retained =
     bindE (sweep_strays env known labels retained) (\<lambda>_.
     bindE (write_installed cd env (labels @ retained)) (\<lambda>_.
     bindE (ensure_serve env) (\<lambda>_.
     bindE (retire_drifted env reconcileAgentLabel) (\<lambda>_.
       apply_agent env reconcileAgentLabel))))"

definition install :: "'d codec \<Rightarrow> install_env \<Rightarrow> ('d, unit) agent_op" where
  "install cd env =
     bindE (liftE (ie_init env)) (\<lambda>_.
     bindE (liftE (ie_scan env)) (\<lambda>(ms, skips).
     bindE (liftE (ie_agent env)) (\<lambda>_.
     bindE (liftE (planned_labels ms)) (\<lambda>planned.
     bindE (read_installed cd env) (\<lambda>known.
       converge_agents cd env known (sort planned) (retained_labels skips known))))))"

subsection \<open>Uninstall\<close>

definition union_labels :: "string list \<Rightarrow> string list \<Rightarrow> string list" where
  "union_labels labels planned = sort (fold (\<lambda>l ls. if l \<in> set ls then ls else ls @ [l]) planned labels)"

definition uninstall_labels :: "'d codec \<Rightarrow> install_env \<Rightarrow> 'd agents \<Rightarrow> string list \<times> goerr list" where
  "uninstall_labels cd env s =
     (let known = snd (read_installed cd env s); planned = planned_labels (case ie_scan env of Inl _ \<Rightarrow> [] | Inr (ms, _) \<Rightarrow> ms);
          labels = (\<lambda>r. case r of Inl _ \<Rightarrow> [] | Inr ls \<Rightarrow> ls) in
      (union_labels (labels known) (labels planned),
       (case known of Inl e \<Rightarrow> [e] | Inr _ \<Rightarrow> []) @ (case ie_scan env of Inl e \<Rightarrow> [e] | Inr _ \<Rightarrow> []) @
       (case planned of Inl e \<Rightarrow> [e] | Inr _ \<Rightarrow> [])))"

definition uninstall :: "'d codec \<Rightarrow> install_env \<Rightarrow> ('d, unit) agent_op" where
  "uninstall cd env s = (case uninstall_labels cd env s of (labels, es) \<Rightarrow>
     case remove_each env labels s of (s1, es1) \<Rightarrow>
     case remove_each env [serveAgentLabel] s1 of (s2, es2) \<Rightarrow>
     case settle_serve env s2 of (s3, r) \<Rightarrow>
       (case join_errs (es @ es1 @ es2 @ (case r of Inl e \<Rightarrow> [e] | Inr _ \<Rightarrow> [])) of
          Inl e \<Rightarrow> (s3, Inl e)
        | Inr _ \<Rightarrow> remove_installed env s3))"

subsection \<open>What the operations add to the log\<close>

definition recorded_in :: "'d codec \<Rightarrow> 'd option \<Rightarrow> string set" where
  "recorded_in cd f = (case f of None \<Rightarrow> {} | Some d \<Rightarrow> (case cd_decode cd d of Inl _ \<Rightarrow> {} | Inr a \<Rightarrow> set (ia_labels a)))"

text \<open>The daemon library's read gives back what its write encoded.\<close>

definition codec_law :: "'d codec \<Rightarrow> bool" where
  "codec_law cd \<longleftrightarrow> (\<forall>a d. cd_encode cd a = Inr d \<longrightarrow> cd_decode cd d = Inr a)"

text \<open>A step adds events of a set to the log and leaves the record file.\<close>

definition logs_only :: "agent_event set \<Rightarrow> 'd agents \<Rightarrow> 'd agents \<Rightarrow> bool" where
  "logs_only E s s' \<longleftrightarrow> fst s' = fst s \<and> (\<exists>more. snd s' = snd s @ more \<and> set more \<subseteq> E)"

lemma logs_only_refl [simp, intro]: "logs_only E s s"
  by (simp add: logs_only_def)

lemma logs_only_trans: "logs_only E s s' \<Longrightarrow> logs_only E s' s'' \<Longrightarrow> logs_only E s s''"
  by (force simp: logs_only_def)

lemma logs_only_mono: "logs_only E s s' \<Longrightarrow> E \<subseteq> F \<Longrightarrow> logs_only F s s'"
  by (auto simp: logs_only_def)

definition removals :: "string set \<Rightarrow> agent_event set" where
  "removals L = Removed ` L \<union> RemoveFailed ` L"

lemma removals_mono: "L \<subseteq> M \<Longrightarrow> removals L \<subseteq> removals M"
  by (auto simp: removals_def)

lemma remove_agent_logs: "remove_agent env l s = (s', r) \<Longrightarrow> logs_only (removals {l}) s s' \<and> (r = Inr () \<longrightarrow> snd s' = snd s @ [Removed l])"
  by (auto simp: remove_agent_def logs_only_def removals_def split: option.splits)

lemma remove_each_logs:
  "remove_each env ls s = (s', es) \<Longrightarrow> logs_only (removals (set ls)) s s' \<and>
     (es = [] \<longrightarrow> (\<exists>more. snd s' = snd s @ more \<and> Removed ` set ls \<subseteq> set more))"
proof (induction ls arbitrary: s s' es)
  case (Cons l ls)
  obtain s1 r where a: "remove_agent env l s = (s1, r)" by (metis surj_pair)
  obtain s2 fs where b: "remove_each env ls s1 = (s2, fs)" by (metis surj_pair)
  from Cons.prems a b have e: "s' = s2" "es = (case r of Inl e \<Rightarrow> [e] | Inr _ \<Rightarrow> []) @ fs" by auto
  note x = remove_agent_logs [OF a] and y = Cons.IH [OF b]
  have "logs_only (removals (set (l # ls))) s s2"
    by (rule logs_only_trans [of _ s s1]; rule logs_only_mono) (use x y in \<open>auto simp: removals_def\<close>)
  moreover have "\<exists>more. snd s2 = snd s @ more \<and> Removed ` set (l # ls) \<subseteq> set more" if "es = []"
  proof -
    from that e have "r = Inr ()" "fs = []" by (cases r; simp)+
    with x y obtain more where "snd s1 = snd s @ [Removed l]" "snd s2 = snd s1 @ more" "Removed ` set ls \<subseteq> set more" by auto
    then show ?thesis by (intro exI [of _ "Removed l # more"]) auto
  qed
  ultimately show ?case using e(1) by simp
qed simp

lemma apply_agent_logs: "apply_agent env l s = (s', r) \<Longrightarrow> logs_only {Applied l, ApplyFailed l} s s'"
  by (auto simp: apply_agent_def logs_only_def split: option.splits)

lemma serve_logs: "ensure_serve env s = (s', r) \<Longrightarrow> logs_only {ServeEnsured} s s'" "settle_serve env s = (s', r) \<Longrightarrow> logs_only {ServeSettled} s s'"
  by (auto simp: ensure_serve_def settle_serve_def logs_only_def split: sum.splits)

lemma retire_logs: "retire_drifted env l s = (s', r) \<Longrightarrow> logs_only (removals {l}) s s'"
  by (auto simp: retire_drifted_def dest: remove_agent_logs split: sum.splits goerr.splits if_splits)

lemma join_errs_Inr: "join_errs es = Inr () \<longleftrightarrow> es = []"
  by (simp add: join_errs_def split: list.split)

lemma read_installedD: "read_installed cd env s = (s', Inr labels) \<Longrightarrow> s' = s \<and> recorded_in cd (fst s) = set labels"
  by (auto simp: read_installed_def recorded_in_def andthen_Inr_iff split: option.splits)

lemma write_installed_cases:
  assumes "write_installed cd env labels s = (s', r)" and "codec_law cd"
  shows "s' = s \<and> r \<noteq> Inr () \<or> recorded_in cd (fst s') = set labels \<and> snd s' = snd s @ [RecordWritten labels]"
proof (cases "andthen (ie_path env (snd s)) (\<lambda>_. cd_encode cd \<lparr>ia_identity = installedAgentsIdentity, ia_labels = labels\<rparr>)")
  case (Inl e)
  with assms(1) show ?thesis by (auto simp: write_installed_def)
next
  case (Inr d)
  with assms(2) have "cd_decode cd d = Inr \<lparr>ia_identity = installedAgentsIdentity, ia_labels = labels\<rparr>"
    by (auto simp: codec_law_def andthen_Inr_iff)
  with assms(1) Inr show ?thesis by (auto simp: write_installed_def recorded_in_def split: write_outcome.splits)
qed

subsection \<open>A recorded label leaves the record only removed\<close>

definition accounted :: "'d codec \<Rightarrow> 'd agents \<Rightarrow> 'd agents \<Rightarrow> bool" where
  "accounted cd s s' \<longleftrightarrow> (\<exists>more. snd s' = snd s @ more \<and> (\<forall>l \<in> recorded_in cd (fst s). l \<in> recorded_in cd (fst s') \<or> Removed l \<in> set more))"

lemma accounted_logs: "logs_only E s s' \<Longrightarrow> accounted cd s s'"
  by (auto simp: logs_only_def accounted_def)

lemma accounted_trans: "accounted cd s s' \<Longrightarrow> accounted cd s' s'' \<Longrightarrow> accounted cd s s''"
proof -
  assume a: "accounted cd s s'" and b: "accounted cd s' s''"
  from a obtain m where m: "snd s' = snd s @ m" "\<And>l. l \<in> recorded_in cd (fst s) \<Longrightarrow> l \<in> recorded_in cd (fst s') \<or> Removed l \<in> set m"
    by (auto simp: accounted_def)
  from b obtain n where n: "snd s'' = snd s' @ n" "\<And>l. l \<in> recorded_in cd (fst s') \<Longrightarrow> l \<in> recorded_in cd (fst s'') \<or> Removed l \<in> set n"
    by (auto simp: accounted_def)
  show ?thesis unfolding accounted_def
    by (rule exI [of _ "m @ n"]) (use m n in auto)
qed

text \<open>What an install does after it knows the labels: its removals and the record they are made against.\<close>

lemma converge_agents_does:
  fixes s :: "'d agents"
  assumes "converge_agents cd env known labels retained s = (s', r)" and "codec_law cd" and "recorded_in cd (fst s) = set known"
  shows "accounted cd s s' \<and>
    (\<exists>more. snd s' = snd s @ more \<and>
      (\<forall>l. Removed l \<in> set more \<or> RemoveFailed l \<in> set more \<longrightarrow> l = reconcileAgentLabel \<or> l \<in> set known - (set labels \<union> set retained)) \<and>
      (\<forall>l. Applied l \<in> set more \<longrightarrow> l = reconcileAgentLabel \<and> recorded_in cd (fst s') = set (labels @ retained)))"
proof -
  let ?stray = "filter (\<lambda>l. l \<notin> set labels \<and> l \<notin> set retained) known"
  obtain s1 es where sw: "remove_each env ?stray s = (s1, es)" by (metis surj_pair)
  note x = remove_each_logs [OF sw]
  from x obtain m1 where m1: "snd s1 = snd s @ m1" "set m1 \<subseteq> removals (set ?stray)" "fst s1 = fst s" by (auto simp: logs_only_def)
  have swe: "sweep_strays env known labels retained s = (s1, join_errs es)" using sw by (simp add: sweep_strays_def)
  show ?thesis
  proof (cases "es = []")
    case False
    then obtain e where "join_errs es = Inl e" by (cases es) (auto simp: join_errs_def)
    with assms(1) swe have "s' = s1" by (simp add: converge_agents_def bindE_def)
    with x m1 show ?thesis by (auto simp: removals_def intro: accounted_logs)
  next
    case True
    with x m1(1) have gone: "Removed ` set ?stray \<subseteq> set m1" by auto
    obtain s2 r2 where wr: "write_installed cd env (labels @ retained) s1 = (s2, r2)" by (metis surj_pair)
    define rest :: "('d, unit) agent_op" where "rest = bindE (ensure_serve env) (\<lambda>_. bindE (retire_drifted env reconcileAgentLabel) (\<lambda>_. apply_agent env reconcileAgentLabel))"
    have tail: "logs_only ({ServeEnsured} \<union> removals {reconcileAgentLabel} \<union> {Applied reconcileAgentLabel, ApplyFailed reconcileAgentLabel}) t t'"
      (is "logs_only ?E t t'") if "rest t = (t', q)" for t t' q
    proof -
      obtain t1 q1 where t1: "ensure_serve env t = (t1, q1)" by (metis surj_pair)
      have e1: "logs_only ?E t t1" using serve_logs(1) [OF t1] by (rule logs_only_mono) auto
      obtain t2 q2 where t2: "retire_drifted env reconcileAgentLabel t1 = (t2, q2)" by (metis surj_pair)
      have e2: "logs_only ?E t1 t2" using retire_logs [OF t2] by (rule logs_only_mono) auto
      obtain t3 q3 where t3: "apply_agent env reconcileAgentLabel t2 = (t3, q3)" by (metis surj_pair)
      have e3: "logs_only ?E t2 t3" using apply_agent_logs [OF t3] by (rule logs_only_mono) auto
      have "t' \<in> {t1, t2, t3}" using that t1 t2 t3 by (cases q1; cases q2) (auto simp: rest_def bindE_def)
      then show ?thesis using e1 e2 e3 logs_only_trans [of ?E] by blast
    qed
    have cv: "converge_agents cd env known labels retained s = bindE (write_installed cd env (labels @ retained)) (\<lambda>_. rest) s1"
    proof -
      have "bindE (sweep_strays env known labels retained) k s = k () s1" for k :: "unit \<Rightarrow> ('d, unit) agent_op"
        using True swe by (simp add: bindE_def join_errs_def)
      then show ?thesis by (simp add: converge_agents_def rest_def)
    qed
    from write_installed_cases [OF wr assms(2)] show ?thesis
    proof
      assume w: "s2 = s1 \<and> r2 \<noteq> Inr ()"
      with assms(1) cv wr have "s' = s1" by (cases r2) (auto simp: bindE_def)
      with x m1 show ?thesis by (auto simp: removals_def intro: accounted_logs)
    next
      assume w: "recorded_in cd (fst s2) = set (labels @ retained) \<and> snd s2 = snd s1 @ [RecordWritten (labels @ retained)]"
      have "logs_only ({ServeEnsured} \<union> removals {reconcileAgentLabel} \<union> {Applied reconcileAgentLabel, ApplyFailed reconcileAgentLabel}) s2 s'"
        using assms(1) cv wr tail [of s2 s' r] by (cases r2) (auto simp: bindE_def)
      then obtain m2 where m2: "snd s' = snd s2 @ m2" "fst s' = fst s2"
        "set m2 \<subseteq> {ServeEnsured} \<union> removals {reconcileAgentLabel} \<union> {Applied reconcileAgentLabel, ApplyFailed reconcileAgentLabel}"
        by (auto simp: logs_only_def)
      have more: "snd s' = snd s @ (m1 @ RecordWritten (labels @ retained) # m2)" using m1 w m2 by simp
      have "accounted cd s s'" unfolding accounted_def
        by (rule exI [of _ "m1 @ RecordWritten (labels @ retained) # m2"]) (use more gone assms(3) w m2(2) in auto)
      moreover have "l = reconcileAgentLabel \<or> l \<in> set known - (set labels \<union> set retained)"
        if "Removed l \<in> set (m1 @ RecordWritten (labels @ retained) # m2) \<or> RemoveFailed l \<in> set (m1 @ RecordWritten (labels @ retained) # m2)" for l
        using that m1(2) m2(3) by (auto simp: removals_def)
      moreover have "l = reconcileAgentLabel \<and> recorded_in cd (fst s') = set (labels @ retained)"
        if "Applied l \<in> set (m1 @ RecordWritten (labels @ retained) # m2)" for l
        using that m1(2) m2(2,3) w by (auto simp: removals_def)
      ultimately show ?thesis using more by blast
    qed
  qed
qed

lemma install_reads:
  assumes "install cd env s = (s', r)"
  obtains (stopped) "s' = s" "\<exists>e. r = Inl e"
  | (planned) ms skips planned known where "ie_scan env = Inr (ms, skips)" "planned_labels ms = Inr planned" "recorded_in cd (fst s) = set known"
      "converge_agents cd env known (sort planned) (retained_labels skips known) s = (s', r)"
proof -
  have "(s' = s \<and> (\<exists>e. r = Inl e)) \<or> (\<exists>ms skips planned known. ie_scan env = Inr (ms, skips) \<and> planned_labels ms = Inr planned \<and>
      recorded_in cd (fst s) = set known \<and> converge_agents cd env known (sort planned) (retained_labels skips known) s = (s', r))"
  proof (cases "\<exists>u ms skips v planned. ie_init env = Inr u \<and> ie_scan env = Inr (ms, skips) \<and> ie_agent env = Inr v \<and> planned_labels ms = Inr planned")
    case False
    with assms show ?thesis unfolding install_def
      by (cases "ie_init env"; cases "ie_scan env"; cases "ie_agent env") (auto simp: bindE_def liftE_def split: sum.splits prod.splits dest: sym [of "Inl x" y for x y])
  next
    case True
    then obtain u ms skips v planned where k: "ie_init env = Inr u" "ie_scan env = Inr (ms, skips)" "ie_agent env = Inr v" "planned_labels ms = Inr planned"
      by blast
    obtain s1 r1 where rd: "read_installed cd env s = (s1, r1)" by (metis surj_pair)
    have s1: "s1 = s" using rd by (auto simp: read_installed_def)
    show ?thesis
    proof (cases r1)
      case (Inl e)
      with assms k rd s1 show ?thesis by (auto simp: install_def bindE_def liftE_def)
    next
      case (Inr known)
      with assms k rd s1 have "converge_agents cd env known (sort planned) (retained_labels skips known) s = (s', r)"
        by (simp add: install_def bindE_def liftE_def)
      with k read_installedD [OF rd [unfolded Inr]] show ?thesis by blast
    qed
  qed
  with stopped planned show thesis by blast
qed

lemma union_labels_set [simp]: "set (union_labels ls ps) = set ls \<union> set ps"
proof -
  have "set (fold (\<lambda>l ls. if l \<in> set ls then ls else ls @ [l]) ps ls) = set ls \<union> set ps"
    by (induction ps arbitrary: ls) auto
  then show ?thesis by (simp add: union_labels_def)
qed

text \<open>An uninstall clears the record only after every label it knows of, and the daemon's own, was removed and the daemon
  has left.\<close>

lemma uninstall_does:
  assumes "uninstall cd env s = (s', r)"
  shows "(\<exists>more. snd s' = snd s @ more \<and> (fst s' \<noteq> fst s \<or> r = Inr () \<longrightarrow>
     fst s' = None \<and> (\<forall>l \<in> recorded_in cd (fst s). Removed l \<in> set more) \<and>
     (\<exists>ms skips planned. ie_scan env = Inr (ms, skips) \<and> planned_labels ms = Inr planned \<and> (\<forall>l \<in> set planned. Removed l \<in> set more)) \<and>
     (\<exists>pre post. more = pre @ Removed serveAgentLabel # ServeSettled # post)))"
proof -
  obtain labels es where ul: "uninstall_labels cd env s = (labels, es)" by (metis surj_pair)
  obtain s1 es1 where a: "remove_each env labels s = (s1, es1)" by (metis surj_pair)
  obtain s2 es2 where b: "remove_each env [serveAgentLabel] s1 = (s2, es2)" by (metis surj_pair)
  obtain s3 r3 where c: "settle_serve env s2 = (s3, r3)" by (metis surj_pair)
  have u: "uninstall cd env s = (case join_errs (es @ es1 @ es2 @ (case r3 of Inl e \<Rightarrow> [e] | Inr _ \<Rightarrow> [])) of
      Inl e \<Rightarrow> (s3, Inl e) | Inr _ \<Rightarrow> remove_installed env s3)"
    using ul a b c by (simp add: uninstall_def)
  obtain m1 where m1: "snd s1 = snd s @ m1" "fst s1 = fst s" using remove_each_logs [OF a] by (auto simp: logs_only_def)
  obtain m2 where m2: "snd s2 = snd s1 @ m2" "fst s2 = fst s1" using remove_each_logs [OF b] by (auto simp: logs_only_def)
  obtain m3 where m3: "snd s3 = snd s2 @ m3" "fst s3 = fst s2" using serve_logs(2) [OF c] by (auto simp: logs_only_def)
  show ?thesis
  proof (cases "es = [] \<and> es1 = [] \<and> es2 = [] \<and> (\<exists>v. r3 = Inr v)")
    case False
    then have "\<exists>e. join_errs (es @ es1 @ es2 @ (case r3 of Inl e \<Rightarrow> [e] | Inr _ \<Rightarrow> [])) = Inl e"
      by (cases "es @ es1 @ es2 @ (case r3 of Inl e \<Rightarrow> [e] | Inr _ \<Rightarrow> [])") (auto simp: join_errs_def split: sum.splits)
    with u assms have "s' = s3" "r \<noteq> Inr ()" by auto
    with m1 m2 m3 show ?thesis by auto
  next
    case True
    then obtain v where t: "es = []" "es1 = []" "es2 = []" "r3 = Inr v" by blast
    with u assms have ri: "remove_installed env s3 = (s', r)" by (simp add: join_errs_def)
    from remove_each_logs [OF a] t(2) m1(1) have r1: "Removed ` set labels \<subseteq> set m1" by auto
    have r2: "m2 = [Removed serveAgentLabel]" using b m2(1) t(3) by (auto simp: remove_agent_def split: option.splits)
    have r3: "m3 = [ServeSettled]" using c m3(1) t(4) by (auto simp: settle_serve_def split: sum.splits)
    obtain known ms skips planned where k: "snd (read_installed cd env s) = Inr known" "ie_scan env = Inr (ms, skips)" "planned_labels ms = Inr planned"
        "set labels = set known \<union> set planned"
      using ul t(1) by (auto simp: uninstall_labels_def Let_def split: sum.splits prod.splits)
    have kn: "recorded_in cd (fst s) = set known" using read_installedD [of cd env s "fst (read_installed cd env s)" known] k(1)
      by (metis prod.collapse)
    obtain m4 where m4: "snd s' = snd s3 @ m4" "fst s' \<noteq> fst s3 \<or> r = Inr () \<longrightarrow> fst s' = None"
      using ri by (auto simp: remove_installed_def split: sum.splits write_outcome.splits dest: sym [of "Inl x" y for x y])
    let ?more = "m1 @ Removed serveAgentLabel # ServeSettled # m4"
    have "snd s' = snd s @ ?more" using m1 m2 m3 m4 r2 r3 by simp
    moreover have "\<forall>l \<in> set labels. Removed l \<in> set ?more" using r1 by auto
    ultimately show ?thesis using k kn m1(2) m2(2) m3(2) m4(2) by (intro exI [of _ ?more]) auto
  qed
qed

datatype agent_run = Install install_env | Uninstall install_env

fun run_agents :: "'d codec \<Rightarrow> agent_run list \<Rightarrow> 'd agents \<Rightarrow> 'd agents" where
  "run_agents cd [] s = s"
| "run_agents cd (Install env # ops) s = run_agents cd ops (fst (install cd env s))"
| "run_agents cd (Uninstall env # ops) s = run_agents cd ops (fst (uninstall cd env s))"

lemma install_accounted: "codec_law cd \<Longrightarrow> install cd env s = (s', r) \<Longrightarrow> accounted cd s s'"
proof (erule install_reads)
  assume "s' = s"
  then show "accounted cd s s'" by (auto simp: accounted_def)
qed (auto dest: converge_agents_does)

lemma uninstall_accounted: "uninstall cd env s = (s', r) \<Longrightarrow> accounted cd s s'"
  using uninstall_does [of cd env s s' r] by (auto simp: accounted_def)

text \<open>C29. However installs and uninstalls follow each other and whatever fails in them, a label the record names is still in it
  afterwards or was removed in between: no agent is left loaded that no later run knows of.\<close>
theorem recorded_until_removed:
  assumes "codec_law cd" and "run_agents cd ops (f, w) = (f', w')" and "l \<in> recorded_in cd f"
  shows "l \<in> recorded_in cd f' \<or> Removed l \<in> set (drop (length w) w')"
proof -
  have "codec_law cd \<Longrightarrow> accounted cd s (run_agents cd ops s)" for s
  proof (induction cd ops s rule: run_agents.induct)
    case (1 cd s)
    show ?case by (simp add: accounted_def)
  next
    case (2 cd env ops s)
    obtain s1 r where a: "install cd env s = (s1, r)" by (metis surj_pair)
    from 2 a install_accounted [OF 2(2) a] show ?case by (auto intro: accounted_trans)
  next
    case (3 cd env ops s)
    obtain s1 r where a: "uninstall cd env s = (s1, r)" by (metis surj_pair)
    from 3 a uninstall_accounted [OF a] show ?case by (auto intro: accounted_trans)
  qed
  from this [of "(f, w)"] assms show ?thesis by (auto simp: accounted_def)
qed

lemma labels_planned:
  assumes "planned_labels ms = Inr planned" and "m \<in> set ms" and "mf_helper m \<noteq> None" and "helper_label (mf_name m) = Inr l"
  shows "l \<in> set planned"
proof -
  have "helper_labels ms = Inr ls \<Longrightarrow> m \<in> set ms \<Longrightarrow> l \<in> set ls" for ls
    using assms(3,4) by (induction ms arbitrary: ls) (auto simp: andthen_Inr_iff split: option.splits)
  with assms(1,2) show ?thesis by (auto simp: planned_labels_def andthen_Inr_iff)
qed

lemma retained_mem: "l \<in> set (retained_labels skips known) \<longleftrightarrow> l \<in> set known \<and> (\<exists>k \<in> set skips. helper_label (sk_name k) = Inr l)"
  by (auto simp: retained_labels_def split: sum.splits if_splits) metis

text \<open>C30. An install removes a helper's agent only when the scan of the manifests shows its consumer gone: never that of a
  consumer whose manifest loads and declares a helper, nor that of one whose file is there and does not load. Besides the
  tick's own agent it removes only what the record named.\<close>
theorem install_spares_registered:
  assumes "ie_scan env = discover_manifests dur (Inr es)" and "codec_law cd" and "install cd env (f, w) = ((f', w'), r)"
    and "l \<noteq> reconcileAgentLabel" and "Removed l \<in> set (drop (length w) w') \<or> RemoveFailed l \<in> set (drop (length w) w')"
  shows "l \<in> recorded_in cd f \<and> (\<forall>e \<in> set es. is_candidate e \<longrightarrow> (case load_manifest dur (de_content e) of
      Inl _ \<Rightarrow> helper_label (stem (de_name e)) \<noteq> Inr l | Inr m \<Rightarrow> mf_helper m = None \<or> helper_label (mf_name m) \<noteq> Inr l))"
  using assms(3)
proof (cases rule: install_reads)
  case stopped
  with assms(5) show ?thesis by simp
next
  case (planned ms skips planned known)
  from converge_agents_does [OF planned(4) assms(2) planned(3)] assms(4,5)
  have m: "l \<in> set known - (set planned \<union> set (retained_labels skips known))" by auto
  have d: "discover_manifests dur (Inr es) = Inr (ms, skips)" using assms(1) planned(1) by simp
  have "(case load_manifest dur (de_content e) of Inl _ \<Rightarrow> helper_label (stem (de_name e)) \<noteq> Inr l | Inr m \<Rightarrow> mf_helper m = None \<or> helper_label (mf_name m) \<noteq> Inr l)"
    if e: "e \<in> set es" "is_candidate e" for e
  proof (cases "load_manifest dur (de_content e)")
    case (Inl err)
    with discover_accounts [OF d] e have "\<lparr>sk_name = stem (de_name e), sk_err = err\<rparr> \<in> set skips" by auto
    with m Inl show ?thesis by (force simp: retained_mem)
  next
    case (Inr x)
    with discover_accounts [OF d] e have "x \<in> set ms" by auto
    with labels_planned [OF planned(2)] m Inr show ?thesis by auto
  qed
  with m planned(3) show ?thesis by simp
qed

text \<open>Every agent an install applies is one the record on disk names by then.\<close>
theorem install_records_first:
  assumes "codec_law cd" and "install cd env (f, w) = ((f', w'), r)" and "Applied l \<in> set (drop (length w) w')"
  shows "l \<in> recorded_in cd f'"
  using assms(2)
proof (cases rule: install_reads)
  case stopped
  with assms(3) show ?thesis by simp
next
  case (planned ms skips planned known)
  from converge_agents_does [OF planned(4) assms(1) planned(3)] assms(3)
  have "l = reconcileAgentLabel \<and> recorded_in cd f' = set (sort planned @ retained_labels skips known)" by auto
  moreover have "reconcileAgentLabel \<in> set planned" using planned(2) by (auto simp: planned_labels_def andthen_Inr_iff)
  ultimately show ?thesis by simp
qed

text \<open>An uninstall that reports success, or clears the record at all, has removed every agent the record and the manifests
  name, and the daemon's own before it proved that the daemon left.\<close>
theorem uninstall_removes_all:
  assumes "uninstall cd env (f, w) = ((f', w'), r)" and "r = Inr () \<or> f' \<noteq> f"
  shows "f' = None \<and> (\<forall>l \<in> recorded_in cd f. Removed l \<in> set (drop (length w) w')) \<and>
    (\<exists>ms skips planned. ie_scan env = Inr (ms, skips) \<and> planned_labels ms = Inr planned \<and> (\<forall>l \<in> set planned. Removed l \<in> set (drop (length w) w'))) \<and>
    (\<exists>pre post. drop (length w) w' = pre @ Removed serveAgentLabel # ServeSettled # post)"
proof -
  obtain more where m: "w' = w @ more" and k: "f' \<noteq> f \<or> r = Inr () \<longrightarrow> f' = None \<and> (\<forall>l \<in> recorded_in cd f. Removed l \<in> set more) \<and>
     (\<exists>ms skips planned. ie_scan env = Inr (ms, skips) \<and> planned_labels ms = Inr planned \<and> (\<forall>l \<in> set planned. Removed l \<in> set more)) \<and>
     (\<exists>pre post. more = pre @ Removed serveAgentLabel # ServeSettled # post)"
    using uninstall_does [OF assms(1)] by auto
  have "f' \<noteq> f \<or> r = Inr ()" using assms(2) by blast
  with k have "f' = None \<and> (\<forall>l \<in> recorded_in cd f. Removed l \<in> set more) \<and>
     (\<exists>ms skips planned. ie_scan env = Inr (ms, skips) \<and> planned_labels ms = Inr planned \<and> (\<forall>l \<in> set planned. Removed l \<in> set more)) \<and>
     (\<exists>pre post. more = pre @ Removed serveAgentLabel # ServeSettled # post)" by (rule mp)
  with m show ?thesis by simp
qed

subsection \<open>Instances\<close>

text \<open>A record of a helper whose manifest is gone and of one whose file is stale, over the scan of the sample directory. The
  record is kept as it is, once validated.\<close>

definition plain_codec :: "installed_agents codec" where
  "plain_codec = \<lparr>cd_encode = (\<lambda>a. andthen (validate_installed (\<lambda>_. True) a) (\<lambda>_. Inr a)), cd_decode = (\<lambda>a. andthen (validate_installed (\<lambda>_. True) a) (\<lambda>_. Inr a))\<rparr>"

lemma plain_codec_law: "codec_law plain_codec"
  by (auto simp: codec_law_def plain_codec_def andthen_Inr_iff)

definition helper_of :: "string \<Rightarrow> string" where
  "helper_of n = LabelPrefix @ ''.helper.'' @ n"

definition old_record :: installed_agents where
  "old_record = \<lparr>ia_identity = installedAgentsIdentity, ia_labels = [reconcileAgentLabel, helper_of ''gone'', helper_of ''old'']\<rparr>"

definition sample_install :: install_env where
  "sample_install = \<lparr>ie_init = Inr (), ie_scan = discover_manifests sample_dur (Inr sample_dir), ie_agent = Inr (), ie_path = (\<lambda>_. Inr ()), ie_read = (\<lambda>_. None),
     ie_write = (\<lambda>_. Wrote), ie_unlink = (\<lambda>_. Wrote), ie_remove = (\<lambda>_ _. None), ie_ensure = (\<lambda>_. Inr ()), ie_settle = (\<lambda>_. Inr ()),
     ie_apply = (\<lambda>_ _. None), ie_plist_path = Inr (), ie_published = (\<lambda>_. Inl ErrNotExist), ie_desired = Inr []\<rparr>"

lemma sample_planned: "planned_labels [sample_spawned, sample_manifest] = Inr [reconcileAgentLabel, helper_of ''reposync'']"
  by (simp add: planned_labels_def sample_spawned_def sample_manifest_def helper_label_def validate_name_def name_char_def helper_of_def)

lemma sample_labels: "validate_installed (\<lambda>_. True) old_record = Inr ()" "helper_label ''old'' = Inr (helper_of ''old'')"
  "sort [reconcileAgentLabel, helper_of ''reposync''] = [helper_of ''reposync'', reconcileAgentLabel]"
  by (simp_all add: validate_installed_def old_record_def synckit_label_def reconcileAgentLabel_def helper_of_def LabelPrefix_def helper_label_def
      validate_name_def name_char_def)

definition new_record :: installed_agents where
  "new_record = \<lparr>ia_identity = installedAgentsIdentity, ia_labels = [helper_of ''reposync'', reconcileAgentLabel, helper_of ''old'']\<rparr>"

lemma new_valid: "validate_installed (\<lambda>_. True) new_record = Inr ()"
  by (simp add: validate_installed_def new_record_def synckit_label_def reconcileAgentLabel_def helper_of_def LabelPrefix_def)

lemma labels_differ [simp]: "helper_of n \<noteq> reconcileAgentLabel" "reconcileAgentLabel \<noteq> helper_of n" "helper_of n \<noteq> serveAgentLabel"
  "serveAgentLabel \<noteq> reconcileAgentLabel" "helper_of n = helper_of k \<longleftrightarrow> n = k"
  by (simp_all add: helper_of_def reconcileAgentLabel_def serveAgentLabel_def)

lemma sample_asks [simp]: "ie_init sample_install = Inr ()" "ie_agent sample_install = Inr ()"
  "ie_scan sample_install = Inr ([sample_spawned, sample_manifest], [\<lparr>sk_name = ''old'', sk_err = ErrMsg ''decode manifest''\<rparr>])"
  by (simp_all add: sample_install_def sample_discovered)

lemma sample_installs:
  "install plain_codec sample_install (Some old_record, []) = ((Some new_record,
     [Removed (helper_of ''gone''), RecordWritten (ia_labels new_record), ServeEnsured, Applied reconcileAgentLabel]), Inr ())"
proof -
  have r: "read_installed plain_codec sample_install (Some old_record, []) = ((Some old_record, []), Inr (ia_labels old_record))"
    by (simp add: read_installed_def sample_install_def plain_codec_def sample_labels)
  have k: "retained_labels [\<lparr>sk_name = ''old'', sk_err = ErrMsg ''decode manifest''\<rparr>] (ia_labels old_record) = [helper_of ''old'']"
    by (simp add: retained_labels_def sample_labels(2) old_record_def)
  have w: "write_installed plain_codec sample_install ([helper_of ''reposync'', reconcileAgentLabel] @ [helper_of ''old'']) s =
      ((Some new_record, snd s @ [RecordWritten (ia_labels new_record)]), Inr ())" for s
    using new_valid by (simp add: write_installed_def sample_install_def plain_codec_def new_record_def)
  have c: "converge_agents plain_codec sample_install (ia_labels old_record) [helper_of ''reposync'', reconcileAgentLabel] [helper_of ''old''] (Some old_record, []) =
     ((Some new_record, [Removed (helper_of ''gone''), RecordWritten (ia_labels new_record), ServeEnsured, Applied reconcileAgentLabel]), Inr ())"
    unfolding converge_agents_def bindE_def
    using w [of "(Some old_record, [Removed (helper_of ''gone'')])"]
    by (simp add: sweep_strays_def old_record_def remove_agent_def join_errs_def ensure_serve_def retire_drifted_def apply_agent_def) (simp add: sample_install_def)
  show ?thesis unfolding install_def bindE_def liftE_def
    using r k c by (simp add: sample_planned sample_labels(3) del: sort_key_simps)
qed

theorem recorded_until_removed_witness:
  "let (f, w) = run_agents plain_codec [Install sample_install] (Some old_record, []) in
     helper_of ''gone'' \<notin> recorded_in plain_codec f \<and> Removed (helper_of ''gone'') \<in> set w \<and> helper_of ''old'' \<in> recorded_in plain_codec f"
proof -
  have run: "run_agents plain_codec [Install sample_install] (Some old_record, []) = (Some new_record,
     [Removed (helper_of ''gone''), RecordWritten (ia_labels new_record), ServeEnsured, Applied reconcileAgentLabel])"
    by (simp add: sample_installs)
  have new: "recorded_in plain_codec (Some new_record) = {helper_of ''reposync'', reconcileAgentLabel, helper_of ''old''}"
    by (simp add: recorded_in_def plain_codec_def new_valid) (simp add: new_record_def)
  have old: "recorded_in plain_codec (Some old_record) = {reconcileAgentLabel, helper_of ''gone'', helper_of ''old''}"
    by (simp add: recorded_in_def plain_codec_def sample_labels) (simp add: old_record_def)
  from recorded_until_removed [OF plain_codec_law run, of "helper_of ''gone''"] recorded_until_removed [OF plain_codec_law run, of "helper_of ''old''"]
  show ?thesis unfolding run by (simp add: new old)
qed

theorem install_spares_registered_witness:
  "\<exists>f w. install plain_codec sample_install (Some old_record, []) = ((f, w), Inr ()) \<and> Removed (helper_of ''gone'') \<in> set w \<and>
     (\<forall>e \<in> set sample_dir. is_candidate e \<longrightarrow> (case load_manifest sample_dur (de_content e) of
        Inl _ \<Rightarrow> helper_label (stem (de_name e)) \<noteq> Inr (helper_of ''gone'') | Inr m \<Rightarrow> mf_helper m = None \<or> helper_label (mf_name m) \<noteq> Inr (helper_of ''gone'')))"
proof -
  have "ie_scan sample_install = discover_manifests sample_dur (Inr sample_dir)" by (simp add: sample_install_def)
  from install_spares_registered [OF this plain_codec_law sample_installs, of "helper_of ''gone''"] sample_installs show ?thesis by simp
qed

theorem install_records_first_witness: "reconcileAgentLabel \<in> recorded_in plain_codec (Some new_record)"
  by (rule install_records_first [OF plain_codec_law sample_installs]) simp

theorem uninstall_removes_all_witness:
  "\<exists>w. uninstall plain_codec sample_install (Some old_record, []) = ((None, w), Inr ()) \<and> Removed (helper_of ''old'') \<in> set w"
proof -
  have r: "read_installed plain_codec sample_install (Some old_record, []) = ((Some old_record, []), Inr (ia_labels old_record))"
    by (simp add: read_installed_def sample_install_def plain_codec_def sample_labels)
  have "snd (uninstall_labels plain_codec sample_install (Some old_record, [])) = []"
    by (simp add: uninstall_labels_def r Let_def sample_planned)
  moreover have "remove_each sample_install ls s = ((fst s, snd s @ map Removed ls), [])" for ls and s :: "installed_agents agents"
    by (induction ls arbitrary: s) (simp_all add: remove_agent_def sample_install_def)
  moreover have "settle_serve sample_install s = ((fst s, snd s @ [ServeSettled]), Inr ())"
    "remove_installed sample_install s = ((None, snd s @ [RecordGone]), Inr ())" for s :: "installed_agents agents"
    by (simp_all add: settle_serve_def remove_installed_def sample_install_def)
  ultimately have "\<exists>f w. uninstall plain_codec sample_install (Some old_record, []) = ((f, w), Inr ())"
    by (cases "uninstall_labels plain_codec sample_install (Some old_record, [])") (simp add: uninstall_def join_errs_def del: remove_each.simps)
  then obtain f w where u: "uninstall plain_codec sample_install (Some old_record, []) = ((f, w), Inr ())" by blast
  have "helper_of ''old'' \<in> recorded_in plain_codec (Some old_record)"
    by (simp add: recorded_in_def plain_codec_def sample_labels) (simp add: old_record_def)
  with uninstall_removes_all [OF u] u show ?thesis by auto
qed

end
