(* ===== verification/Go_Indent.thy ===== *)
theory Go_Indent
  imports Go_Json
begin

text \<open>
  The indented output of \<^verbatim>\<open>encoding/json\<close> (\<^verbatim>\<open>json.MarshalIndent\<close> with no prefix and two spaces), which the registration of a
  manifest writes, and that reading it back gives the value.
\<close>

definition newline :: "nat \<Rightarrow> string" where
  "newline d = CHR 0x0A # replicate (2 * d) (CHR 0x20)"

fun indented :: "nat \<Rightarrow> json \<Rightarrow> string" where
  "indented d (JArr js) = (if js = [] then ''[]''
     else CHR ''['' # newline (Suc d) @ sep_by (CHR '','' # newline (Suc d)) (map (indented (Suc d)) js) @ newline d @ '']'')"
| "indented d (JObj kvs) = (if kvs = [] then ''{}''
     else CHR ''{'' # newline (Suc d) @
       sep_by (CHR '','' # newline (Suc d)) (map (\<lambda>(k, j). quote k @ '': '' @ indented (Suc d) j) kvs) @ newline d @ ''}'')"
| "indented d j = render j"

definition white :: "string \<Rightarrow> bool" where
  "white w \<longleftrightarrow> (\<forall>c \<in> set w. is_ws c)"

lemma white_intros [simp]: "white []" "white '' ''" "white (newline d)"
  by (auto simp: white_def newline_def is_ws_def)

lemma skip_white [simp]: "white w \<Longrightarrow> skip_ws (w @ s) = skip_ws s"
  by (induction w) (simp_all add: white_def skip_ws_def)

lemma num_end_newline [simp]: "num_end (newline d @ s)"
  by (simp add: newline_def num_end_def is_digit_def)

lemma value_white: "white w \<Longrightarrow> parse_value n (w @ s) = parse_value n s"
  by (cases n) (simp_all add: parse_value.simps)

lemma members_white: "white w \<Longrightarrow> parse_members n (w @ s) = parse_members n s"
  by (cases n) (simp_all add: parse_members.simps)

lemma items_white: "white w \<Longrightarrow> parse_items n (w @ s) = parse_items n s"
  by (cases n) (simp_all add: parse_items.simps value_white)

definition reads_back :: "json \<Rightarrow> bool" where
  "reads_back j \<longleftrightarrow> (\<forall>n d rest. need j \<le> n \<longrightarrow> num_end rest \<longrightarrow> parse_value n (indented d j @ rest) = Some (j, rest))"

lemma reads_backD: "reads_back j \<Longrightarrow> need j \<le> n \<Longrightarrow> num_end rest \<Longrightarrow> parse_value n (indented d j @ rest) = Some (j, rest)"
  by (simp add: reads_back_def)

lemma parse_items_indented:
  assumes "js \<noteq> []" "\<forall>j \<in> set js. reads_back j" "sum_list (map (\<lambda>j. Suc (need j)) js) \<le> n"
  shows "parse_items n (sep_by (CHR '','' # newline d) (map (indented d) js) @ newline e @ CHR '']'' # rest) = Some (js, rest)"
  using assms
proof (induction js arbitrary: n)
  case (Cons j js)
  from Cons.prems obtain m where n: "n = Suc m" and m: "need j \<le> m" "sum_list (map (\<lambda>j. Suc (need j)) js) \<le> m"
    by (cases n) auto
  from Cons.prems have j: "reads_back j" by simp
  show ?case
  proof (cases js)
    case Nil
    with n reads_backD [OF j m(1) num_end_newline] show ?thesis by (simp add: parse_items.simps)
  next
    case js: (Cons k ks)
    let ?t = "sep_by (CHR '','' # newline d) (map (indented d) js) @ newline e @ CHR '']'' # rest"
    have "parse_value m (indented d j @ CHR '','' # newline d @ ?t) = Some (j, CHR '','' # newline d @ ?t)"
      using reads_backD [OF j m(1)] num_end_comma by blast
    moreover have "parse_items m (newline d @ ?t) = Some (js, rest)"
      using Cons.IH Cons.prems m js by (simp add: items_white)
    ultimately show ?thesis using n js by (simp add: parse_items.simps)
  qed
qed simp

lemma parse_members_indented:
  assumes "kvs \<noteq> []" "\<forall>kv \<in> set kvs. reads_back (snd kv)" "sum_list (map (\<lambda>kv. Suc (need (snd kv))) kvs) \<le> n"
  shows "parse_members n (sep_by (CHR '','' # newline d) (map (\<lambda>(k, j). quote k @ '': '' @ indented d j) kvs) @ newline e @ CHR ''}'' # rest)
    = Some (kvs, rest)"
  using assms
proof (induction kvs arbitrary: n)
  case (Cons kv kvs)
  obtain k j where kv: "kv = (k, j)" by (cases kv)
  from Cons.prems kv obtain m where n: "n = Suc m" and m: "need j \<le> m" "sum_list (map (\<lambda>kv. Suc (need (snd kv))) kvs) \<le> m"
    by (cases n) auto
  from Cons.prems kv have j: "reads_back j" by simp
  have v: "parse_value m (CHR 0x20 # indented d j @ t) = Some (j, t)" if "num_end t" for t
    using reads_backD [OF j m(1) that] value_white [of "'' ''" m "indented d j @ t"] by simp
  show ?case
  proof (cases kvs)
    case Nil
    with n kv v [OF num_end_newline] show ?thesis by (simp add: parse_members.simps quote_def)
  next
    case kvs: (Cons l ls)
    let ?t = "sep_by (CHR '','' # newline d) (map (\<lambda>(k, j). quote k @ '': '' @ indented d j) kvs) @ newline e @ CHR ''}'' # rest"
    have "parse_members m (newline d @ ?t) = Some (kvs, rest)"
      using Cons.IH Cons.prems m kvs by (simp add: members_white)
    with n kv kvs v [OF num_end_comma(1), of "newline d @ ?t"] show ?thesis by (simp add: parse_members.simps quote_def)
  qed
qed simp

lemma indented_starts: "json_ok j \<Longrightarrow> starts (indented d j)"
  using render_starts [of j] by (cases j) (auto simp: starts_def is_ws_def)

lemma leaf_reads: "(\<And>d. indented d j = render j) \<Longrightarrow> json_ok j \<Longrightarrow> reads_back j"
  using render_reads [of j] by (simp add: reads_back_def reads_def)

lemma indented_reads: "json_ok j \<Longrightarrow> reads_back j"
proof (induction j)
  case (JArr js)
  show ?case unfolding reads_back_def
  proof (intro allI impI)
    fix n d rest assume n: "need (JArr js) \<le> n" and "num_end rest"
    then obtain m where m: "n = Suc m" "sum_list (map (\<lambda>j. Suc (need j)) js) \<le> m" by (cases n) auto
    show "parse_value n (indented d (JArr js) @ rest) = Some (JArr js, rest)"
    proof (cases "js = []")
      case True
      with m show ?thesis by (simp add: parse_value.simps)
    next
      case False
      let ?t = "sep_by (CHR '','' # newline (Suc d)) (map (indented (Suc d)) js) @ newline d @ CHR '']'' # rest"
      have "starts ?t" using False JArr.prems
        by (intro sep_by_starts) (auto simp: hd_map indented_starts)
      then obtain c cs where c: "?t = c # cs" "\<not> is_ws c" "c \<noteq> CHR '']''" by (rule starts_cases) blast
      have "parse_items m ?t = Some (js, rest)" using False JArr m by (intro parse_items_indented) auto
      with m c False show ?thesis by (simp add: parse_value.simps)
    qed
  qed
next
  case (JObj kvs)
  show ?case unfolding reads_back_def
  proof (intro allI impI)
    fix n d rest assume n: "need (JObj kvs) \<le> n" and "num_end rest"
    then obtain m where m: "n = Suc m" "sum_list (map (\<lambda>kv. Suc (need (snd kv))) kvs) \<le> m" by (cases n) auto
    have r: "\<forall>kv \<in> set kvs. reads_back (snd kv)" using JObj by (force simp: snds.simps)
    show "parse_value n (indented d (JObj kvs) @ rest) = Some (JObj kvs, rest)"
    proof (cases "kvs = []")
      case True
      with m show ?thesis by (simp add: parse_value.simps)
    next
      case False
      let ?t = "sep_by (CHR '','' # newline (Suc d)) (map (\<lambda>(k, j). quote k @ '': '' @ indented (Suc d) j) kvs) @ newline d @ CHR ''}'' # rest"
      have "starts ?t" using False
        by (intro sep_by_starts) (auto simp: hd_map starts_def quote_def split: prod.splits)
      then obtain c cs where c: "?t = c # cs" "\<not> is_ws c" "c \<noteq> CHR ''}''" by (rule starts_cases) blast
      have "parse_members m ?t = Some (kvs, rest)" using False m r by (intro parse_members_indented) auto
      with m c False show ?thesis by (simp add: parse_value.simps)
    qed
  qed
qed (simp_all only: leaf_reads indented.simps simp_thms)

lemma unmarshal_indented:
  assumes "json_ok j"
  shows "unmarshal (indented 0 j @ [CHR 0x0A]) = Some j"
proof -
  let ?s = "indented 0 j @ [CHR 0x0A]"
  have "num_end [CHR 0x0A]" by (simp add: num_end_def is_digit_def)
  then have "parse_value (need j + (2 * length ?s + 1)) ?s = Some (j, [CHR 0x0A])"
    using indented_reads [OF assms] by (intro reads_backD) auto
  then have "decode_one ?s = Some (j, [CHR 0x0A])" by (subst (asm) parse_value_enough) simp_all
  then show ?thesis by (simp add: unmarshal_def skip_ws_def is_ws_def)
qed

end
