(* ===== verification/Registration.thy ===== *)
theory Registration
  imports Manifest Go_Indent
begin

text \<open>
  The registration of a consumer (\<^verbatim>\<open>src/registration/register.go\<close>) in the directory of manifests the daemon scans, and its
  removal: the path of a manifest (\<^verbatim>\<open>src/hostregistry/shared.go\<close>), the file written for it, and the nudge of the daemon.

  The state is the directory, absent or a list of entries in the order of their names, and the count of nudges, which are
  sent and never fail the operation. \<open>durstr\<close> stands for \<^verbatim>\<open>time.Duration.String\<close>.
\<close>

subsection \<open>The file of a manifest\<close>

definition duration_json :: "(duration \<Rightarrow> string) \<Rightarrow> duration \<Rightarrow> json" where
  "duration_json durstr d = JStr (durstr d)"

definition service_json :: "service_spec \<Rightarrow> json" where
  "service_json s = JObj [(''kind'', JStr (sv_kind s)), (''schema_fingerprint'', JStr (sv_fingerprint s))]"

definition helper_json :: "helper_spec \<Rightarrow> json" where
  "helper_json h = JObj ([(''command'', JStr (hs_command h))] @
     (if hs_session_type h = [] then [] else [(''session_type'', JStr (hs_session_type h))]))"

definition manifest_json :: "(duration \<Rightarrow> string) \<Rightarrow> manifest \<Rightarrow> json" where
  "manifest_json durstr m = JObj ([(''name'', JStr (mf_name m)), (''binary'', JStr (mf_binary m))] @
     (if mf_brew m = [] then [] else [(''brew'', JStr (mf_brew m))]) @
     [(''watch'', JObj [(''debounce'', duration_json durstr (mf_debounce m))]), (''service'', service_json (mf_service m))] @
     (case mf_helper m of None \<Rightarrow> [] | Some h \<Rightarrow> [(''helper'', helper_json h)]))"

definition manifest_file :: "(duration \<Rightarrow> string) \<Rightarrow> manifest \<Rightarrow> bytes" where
  "manifest_file durstr m = indented 0 (manifest_json durstr m) @ [CHR 0x0A]"

text \<open>\<^verbatim>\<open>filepath.Base\<close>.\<close>

definition path_base :: "string \<Rightarrow> string" where
  "path_base s = (if s = [] then ''.''
     else let t = rev (dropWhile (\<lambda>c. c = CHR ''/'') (rev s)) in
       if t = [] then ''/'' else after_last (CHR ''/'') t)"

definition registered_file :: "string \<Rightarrow> string res" where
  "registered_file name =
     (if name \<noteq> path_base name \<or> CHR ''/'' \<in> set name \<or> CHR 0x5C \<in> set name then Inl (ErrMsg ''not a plain file base name'')
      else Inr (name @ ''.json''))"

subsection \<open>Register and unregister\<close>

record reg_env =
  rg_dir :: "unit res"
  rg_mkdir :: "unit res"
  rg_write :: write_outcome
  rg_remove :: "goerr option"

type_synonym reg_state = "dir_entry list option \<times> nat"

definition entries :: "dir_entry list option \<Rightarrow> dir_entry list" where
  "entries dir = (case dir of None \<Rightarrow> [] | Some es \<Rightarrow> es)"

definition without :: "string \<Rightarrow> dir_entry list \<Rightarrow> dir_entry list" where
  "without file es = filter (\<lambda>e. de_name e \<noteq> file) es"

definition put_file :: "string \<Rightarrow> bytes \<Rightarrow> dir_entry list \<Rightarrow> dir_entry list" where
  "put_file file data es = insort_key de_name \<lparr>de_name = file, de_dir = False, de_content = Inr data\<rparr> (without file es)"

definition register_manifest :: "(duration \<Rightarrow> string) \<Rightarrow> reg_env \<Rightarrow> manifest \<Rightarrow> reg_state \<Rightarrow> reg_state \<times> unit res" where
  "register_manifest durstr env m s =
     (case andthen (validate_manifest m) (\<lambda>_. andthen (registered_file (mf_name m)) (\<lambda>file.
        andthen (rg_dir env) (\<lambda>_. andthen (rg_mkdir env) (\<lambda>_. Inr file)))) of
        Inl e \<Rightarrow> (s, Inl e)
      | Inr file \<Rightarrow> let es = entries (fst s); data = manifest_file durstr m in
          (case rg_write env of
             Wrote \<Rightarrow> ((Some (put_file file data es), Suc (snd s)), Inr ())
           | WroteButFailed e \<Rightarrow> ((Some (put_file file data es), snd s), Inl (ErrIO e))
           | NotWritten e \<Rightarrow> ((Some es, snd s), Inl (ErrIO e))))"

definition unregister_manifest :: "reg_env \<Rightarrow> string \<Rightarrow> reg_state \<Rightarrow> reg_state \<times> unit res" where
  "unregister_manifest env name s =
     (case andthen (registered_file name) (\<lambda>file. andthen (rg_dir env) (\<lambda>_. Inr file)) of
        Inl e \<Rightarrow> (s, Inl e)
      | Inr file \<Rightarrow>
          if file \<notin> de_name ` set (entries (fst s)) then ((fst s, Suc (snd s)), Inr ())
          else (case rg_remove env of
            None \<Rightarrow> ((map_option (without file) (fst s), Suc (snd s)), Inr ())
          | Some e \<Rightarrow> (s, Inl e)))"

text \<open>The scan of the state: an absent directory is one with no manifest.\<close>

definition scan_state :: "(string \<Rightarrow> duration option) \<Rightarrow> reg_state \<Rightarrow> (manifest list \<times> skipped list) res" where
  "scan_state dur s = discover_manifests dur (case fst s of None \<Rightarrow> Inl ErrNotExist | Some es \<Rightarrow> Inr es)"

lemma scan_state_entries: "scan_state dur s = discover_manifests dur (Inr (entries (fst s)))"
  by (cases "fst s") (simp_all add: scan_state_def entries_def discover_manifests_def)

subsection \<open>A file reads back\<close>

lemma brew_fields [simp]:
  "\<not> is_field ''name'' ''brew''" "\<not> is_field ''binary'' ''brew''" "is_field ''brew'' ''brew''"
  by (simp_all add: is_field_def)

lemma set_service_json [simp]: "as_struct set_service s0 (service_json s) = Some s"
  by (simp add: service_json_def set_service_def)

lemma set_helper_json: "hs_session_type z = [] \<Longrightarrow> as_struct set_helper z (helper_json h) = Some h"
  by (simp add: helper_json_def set_helper_def)

lemma manifest_decodes:
  assumes "dur (durstr (mf_debounce m)) = Some (mf_debounce m)"
  shows "as_struct (set_manifest dur) zero_manifest (manifest_json durstr m) = Some m"
proof -
  have w: "set_watch dur ''debounce'' (duration_json durstr (mf_debounce m)) d = Some (mf_debounce m)" for d
    using assms by (simp add: set_watch_def as_duration_def duration_json_def)
  have h: "as_pointer set_helper zero_helper (helper_json h) None = Some (Some h)" for h
    using set_helper_json [of zero_helper h] by (simp add: as_pointer_def zero_helper_def) (simp add: helper_json_def)
  show ?thesis
    by (cases "mf_helper m") (simp_all add: manifest_json_def set_manifest_def zero_manifest_def w h)
qed

lemma manifest_json_ok: "json_ok (manifest_json durstr m)"
  by (cases "mf_helper m") (simp_all add: manifest_json_def duration_json_def service_json_def helper_json_def)

lemma file_loads:
  assumes "dur (durstr (mf_debounce m)) = Some (mf_debounce m)" and "validate_manifest m = Inr ()"
  shows "load_manifest dur (Inr (manifest_file durstr m)) = Inr m"
  using assms manifest_decodes [of dur durstr m]
  by (simp add: load_manifest_def manifest_file_def unmarshal_indented [OF manifest_json_ok])

subsection \<open>Names\<close>

lemma plain_name:
  assumes "validate_name name = Inr ()"
  shows "registered_file name = Inr (name @ ''.json'')" and "is_candidate \<lparr>de_name = name @ ''.json'', de_dir = False, de_content = c\<rparr>"
    and "stem (name @ ''.json'') = name"
proof -
  from assms have n: "name \<noteq> []" "list_all name_char name" by (auto simp: validate_name_def require_def split: if_splits)
  then have c: "c \<in> set name \<Longrightarrow> name_char c" for c by (simp add: list_all_iff)
  have p: "CHR ''/'' \<notin> set name" "CHR 0x5C \<notin> set name" "CHR ''.'' \<notin> set name"
    using c [of "CHR ''/''"] c [of "CHR 0x5C"] c [of "CHR ''.''"] by (auto simp: name_char_def)
  have "takeWhile (\<lambda>x. x \<noteq> CHR ''/'') (rev name) = rev name" using p(1) by (auto simp: takeWhile_eq_all_conv)
  then have "after_last (CHR ''/'') name = name" by (simp only: after_last_def rev_rev_ident)
  moreover have "dropWhile (\<lambda>c. c = CHR ''/'') (rev name) = rev name"
  proof -
    have "last name \<noteq> CHR ''/''" using p(1) last_in_set [OF n(1)] by metis
    with n(1) show ?thesis by (simp add: dropWhile_eq_self_iff hd_rev)
  qed
  ultimately show "registered_file name = Inr (name @ ''.json'')" using n(1) p by (simp add: registered_file_def path_base_def)
  have "take 1 (name @ ''.json'') \<noteq> ''.''" using n(1) p(3) by (cases name) auto
  moreover have "file_ext (name @ ''.json'') = ''.json''" by (simp add: file_ext_def after_last_def)
  ultimately show "is_candidate \<lparr>de_name = name @ ''.json'', de_dir = False, de_content = c\<rparr>" by (simp add: is_candidate_def)
  show "stem (name @ ''.json'') = name" by (simp add: stem_def has_suffix_def)
qed

subsection \<open>What a scan finds afterwards\<close>

lemma loaded_mem: "x \<in> set (loaded dur es) \<longleftrightarrow> (\<exists>e \<in> set es. is_candidate e \<and> load_manifest dur (de_content e) = Inr x)"
  by (auto simp: loaded_def split: sum.splits)

lemma loaded_Cons: "loaded dur (e # es) = (if is_candidate e then case load_manifest dur (de_content e) of Inl _ \<Rightarrow> [] | Inr m \<Rightarrow> [m] else []) @ loaded dur es"
  by (simp add: loaded_def)

lemma loaded_Nil [simp]: "loaded dur [] = []" "failed dur [] = []"
  by (simp_all add: loaded_def failed_def)

lemma loaded_without: "set (loaded dur (without file es)) \<subseteq> set (loaded dur es)"
  by (auto simp: loaded_mem without_def)

lemma loaded_without_names: "distinct (map mf_name (loaded dur es)) \<Longrightarrow> distinct (map mf_name (loaded dur (without file es)))"
proof (induction es)
  case (Cons e es)
  have i: "mf_name ` set (loaded dur (without file es)) \<subseteq> mf_name ` set (loaded dur es)" using loaded_without by (rule image_mono)
  have "without file (e # es) = (if de_name e \<noteq> file then e # without file es else without file es)" by (simp add: without_def)
  with Cons i show ?case
    by (cases "is_candidate e"; cases "load_manifest dur (de_content e)"; cases "de_name e = file") (auto simp: loaded_Cons)
qed (simp add: without_def)

lemma loaded_parts: "loaded dur (xs @ ys) = loaded dur xs @ loaded dur ys" "failed dur (xs @ ys) = failed dur xs @ failed dur ys"
  by (simp_all add: loaded_def failed_def)

lemma loaded_insort: "\<exists>xs ys. without file es = xs @ ys \<and> put_file file data es = xs @ \<lparr>de_name = file, de_dir = False, de_content = Inr data\<rparr> # ys"
proof -
  have "\<exists>xs ys. es = xs @ ys \<and> insort_key de_name e es = xs @ e # ys" for e :: dir_entry and es
  proof (induction es)
    case (Cons x es)
    then obtain xs ys where i: "es = xs @ ys" "insort_key de_name e es = xs @ e # ys" by blast
    show ?case
    proof (cases "de_name e \<le> de_name x")
      case True
      then show ?thesis by (intro exI [of _ "[]"] exI [of _ "x # es"]) simp
    next
      case False
      with i show ?thesis by (intro exI [of _ "x # xs"] exI [of _ ys]) simp
    qed
  qed simp
  then show ?thesis by (simp add: put_file_def)
qed

lemma put_found:
  assumes "is_candidate \<lparr>de_name = file, de_dir = False, de_content = Inr data\<rparr>" and "load_manifest dur (Inr data) = Inr m"
  shows "set (loaded dur (put_file file data es)) = insert m (set (loaded dur (without file es)))"
    and "distinct (map mf_name (loaded dur (put_file file data es))) \<longleftrightarrow>
      distinct (map mf_name (loaded dur (without file es))) \<and> mf_name m \<notin> mf_name ` set (loaded dur (without file es))"
    and "failed dur (put_file file data es) = failed dur (without file es)"
proof -
  obtain xs ys where k: "without file es = xs @ ys" "put_file file data es = xs @ \<lparr>de_name = file, de_dir = False, de_content = Inr data\<rparr> # ys"
    using loaded_insort by blast
  have l: "loaded dur (put_file file data es) = loaded dur xs @ m # loaded dur ys"
    "failed dur (put_file file data es) = failed dur xs @ failed dur ys"
    using assms by (simp_all add: k(2) loaded_parts loaded_Cons) (simp add: failed_def)
  show "set (loaded dur (put_file file data es)) = insert m (set (loaded dur (without file es)))" by (simp add: l k(1) loaded_parts)
  show "failed dur (put_file file data es) = failed dur (without file es)" by (simp add: l k(1) loaded_parts)
  show "distinct (map mf_name (loaded dur (put_file file data es))) \<longleftrightarrow>
      distinct (map mf_name (loaded dur (without file es))) \<and> mf_name m \<notin> mf_name ` set (loaded dur (without file es))"
    by (auto simp: l k(1) loaded_parts)
qed

lemma registers:
  assumes "register_manifest durstr env m s = (s', Inr ())"
  shows "validate_manifest m = Inr ()" and "fst s' = Some (put_file (mf_name m @ ''.json'') (manifest_file durstr m) (entries (fst s)))"
    and "snd s' = Suc (snd s)"
proof -
  from assms show v: "validate_manifest m = Inr ()"
    by (auto simp: register_manifest_def andthen_def split: sum.splits)
  note f = plain_name(1) [OF valid_parts(1) [OF v]]
  from assms f show "fst s' = Some (put_file (mf_name m @ ''.json'') (manifest_file durstr m) (entries (fst s)))" and "snd s' = Suc (snd s)"
    by (auto simp: register_manifest_def v Let_def andthen_def split: sum.splits write_outcome.splits)
qed


text \<open>An unregistered consumer's file is gone from the scan and no other is, and removing what is not there is no error.\<close>
theorem unregistered_is_gone:
  assumes "unregister_manifest env name s = (s', Inr ())" and "scan_state dur s = Inr found"
  shows "\<exists>ms skips. scan_state dur s' = Inr (ms, skips) \<and> set ms = set (loaded dur (without (name @ ''.json'') (entries (fst s)))) \<and>
    skips = failed dur (without (name @ ''.json'') (entries (fst s))) \<and> snd s' = Suc (snd s)"
proof -
  obtain ms0 sk0 where "discover_manifests dur (Inr (entries (fst s))) = Inr (ms0, sk0)" using assms(2) by (cases found) (simp add: scan_state_entries)
  then have d: "distinct (map mf_name (loaded dur (entries (fst s))))" by (simp add: discover_iff)
  have e: "entries (fst s') = without (name @ ''.json'') (entries (fst s)) \<and> snd s' = Suc (snd s)"
  proof (cases "name @ ''.json'' \<in> de_name ` set (entries (fst s))")
    case True
    with assms(1) show ?thesis
      by (cases "fst s") (auto simp: unregister_manifest_def registered_file_def andthen_def entries_def split: sum.splits if_splits option.splits)
  next
    case False
    then have "without (name @ ''.json'') (entries (fst s)) = entries (fst s)" by (force simp: without_def filter_id_conv)
    with False assms(1) show ?thesis
      by (auto simp: unregister_manifest_def registered_file_def andthen_def split: sum.splits if_splits)
  qed
  then show ?thesis using loaded_without_names [OF d] by (simp add: scan_state_entries discover_iff)
qed

text \<open>A registration that fails before it writes leaves the directory's files as they were.\<close>
theorem failed_registration_keeps:
  assumes "register_manifest durstr env m s = (s', Inl e)" and "\<And>x. rg_write env \<noteq> WroteButFailed x"
  shows "entries (fst s') = entries (fst s) \<and> snd s' = snd s"
  using assms by (auto simp: register_manifest_def entries_def Let_def split: sum.splits write_outcome.splits)
subsection \<open>Instances\<close>

definition sample_reg :: reg_env where
  "sample_reg = \<lparr>rg_dir = Inr (), rg_mkdir = Inr (), rg_write = Wrote, rg_remove = None\<rparr>"

lemma sample_registration:
  "register_manifest (\<lambda>_. ''5ns'') sample_reg sample_manifest (Some sample_dir, 0) =
     ((Some (put_file ''reposync.json'' (manifest_file (\<lambda>_. ''5ns'') sample_manifest) sample_dir), 1), Inr ())"
proof -
  have "registered_file (mf_name sample_manifest) = Inr ''reposync.json''"
    using plain_name(1) [OF valid_parts(1) [OF sample_valid_manifests(1)]] by (simp add: sample_manifest_def)
  then show ?thesis by (simp add: register_manifest_def sample_valid_manifests sample_reg_def entries_def)
qed

lemma sample_rest: "loaded sample_dur (without ''reposync.json'' sample_dir) = [sample_spawned]"
  by (simp add: without_def sample_dir_def loaded_Cons is_candidate_def file_ext_def after_last_def sample_loads)

lemma sample_names: "mf_name sample_manifest = ''reposync''" "mf_name sample_spawned = ''notes''"
  by (simp_all add: sample_manifest_def sample_spawned_def)


theorem unregistered_is_gone_witness:
  "\<exists>s ms skips. unregister_manifest sample_reg ''reposync'' (Some sample_dir, 0) = (s, Inr ()) \<and> scan_state sample_dur s = Inr (ms, skips) \<and>
     set ms = {sample_spawned}"
proof -
  have "registered_file ''reposync'' = Inr ''reposync.json''"
    using plain_name(1) [OF valid_parts(1) [OF sample_valid_manifests(1)]] by (simp add: sample_names)
  then obtain s where u: "unregister_manifest sample_reg ''reposync'' (Some sample_dir, 0) = (s, Inr ())"
    by (cases "unregister_manifest sample_reg ''reposync'' (Some sample_dir, 0)")
      (fastforce simp: unregister_manifest_def sample_reg_def split: if_splits)
  have "scan_state sample_dur (Some sample_dir, 0) = Inr ([sample_spawned, sample_manifest], [\<lparr>sk_name = ''old'', sk_err = ErrMsg ''decode manifest''\<rparr>])"
    by (simp add: scan_state_def sample_discovered)
  from unregistered_is_gone [OF u this] u show ?thesis by (auto simp: entries_def sample_rest)
qed

theorem failed_registration_keeps_witness:
  "\<exists>s e. register_manifest (\<lambda>_. ''5ns'') (sample_reg\<lparr>rg_mkdir := Inl ErrCtx\<rparr>) sample_manifest (Some sample_dir, 0) = (s, Inl e) \<and> entries (fst s) = sample_dir"
proof -
  obtain e where r: "register_manifest (\<lambda>_. ''5ns'') (sample_reg\<lparr>rg_mkdir := Inl ErrCtx\<rparr>) sample_manifest (Some sample_dir, 0) = ((Some sample_dir, 0), Inl e)"
    by (auto simp: register_manifest_def sample_valid_manifests sample_reg_def plain_name(1) [OF valid_parts(1) [OF sample_valid_manifests(1)]])
  from failed_registration_keeps [OF r] r show ?thesis by (simp add: entries_def sample_reg_def)
qed

end
