(* ===== verification/Watch_Backend.thy ===== *)
theory Watch_Backend
  imports Registration
begin

text \<open>
  The watch backend (\<^verbatim>\<open>src/watchbackend/fsnotify.go\<close>): the walk of the declared roots, the routing of file system events to
  the ids that declared them, and the sweep that watches again what appeared or came back.

  The watcher is the library's: whether it accepts a path, which paths it forgets and which events it gives are inputs, and
  so is what each walk finds, as a tree of its own. Go visits the declared ids in any order; they are a list here, and no
  result depends on its order but that of the calls to \<^verbatim>\<open>onEvent\<close>.
\<close>

subsection \<open>The walk\<close>

text \<open>What a path leads to; a directory says whether it can be listed. A symbolic link inside a listing is \<open>OtherNode\<close>, one that
  is a root is what it points to.\<close>

datatype node = RegularFile | Directory bool "(string \<times> node) list" | OtherNode

definition is_directory :: "node \<Rightarrow> bool" where
  "is_directory n = (case n of Directory _ _ \<Rightarrow> True | _ \<Rightarrow> False)"

fun walk_dirs :: "bool \<Rightarrow> string \<Rightarrow> node \<Rightarrow> string list" where
  "walk_dirs recursive p RegularFile = [p]"
| "walk_dirs recursive p OtherNode = []"
| "walk_dirs recursive p (Directory listed es) = p # (if recursive \<and> listed
     then concat (map (\<lambda>(n, c). if is_directory c then walk_dirs True (join_path p n) c else []) es) else [])"

definition walk_path :: "bool \<Rightarrow> string \<Rightarrow> node option \<Rightarrow> string list" where
  "walk_path recursive p stat = (case stat of None \<Rightarrow> [] | Some n \<Rightarrow> walk_dirs recursive p n)"

subsection \<open>Targets and state\<close>

record watch_target =
  wt_dirs :: "string list"
  wt_names :: "string list"

type_synonym targets = "(string \<times> watch_target) list"

record backend =
  wb_watched :: "string set"
  wb_ids :: "string \<Rightarrow> string set"

definition declared :: "watch_target \<Rightarrow> string list" where
  "declared t = map clean_path (wt_dirs t)"

definition is_recursive :: "watch_target \<Rightarrow> bool" where
  "is_recursive t \<longleftrightarrow> wt_names t = []"

definition fires_on_child :: "watch_target \<Rightarrow> string \<Rightarrow> bool" where
  "fires_on_child t child \<longleftrightarrow> is_recursive t \<or> path_base child \<in> set (wt_names t)"

text \<open>What one walk meets: the tree at its root and whether the watcher accepts a path.\<close>

record walk_env =
  wk_stat :: "string \<Rightarrow> string \<Rightarrow> node option"
  wk_add :: "string \<Rightarrow> string \<Rightarrow> bool"

definition visit_path :: "string set \<Rightarrow> (string \<Rightarrow> bool) \<Rightarrow> string \<Rightarrow> string \<Rightarrow> backend \<times> string list \<Rightarrow> backend \<times> string list" where
  "visit_path watched add i p sf = (case sf of (s, fired) \<Rightarrow>
     if p \<notin> watched \<and> \<not> add p then sf
     else (s\<lparr>wb_watched := (if p \<in> watched then wb_watched s else insert p (wb_watched s)), wb_ids := (wb_ids s)(p := insert i (wb_ids s p))\<rparr>,
       if p \<notin> watched \<or> i \<notin> wb_ids s p then fired @ [p] else fired))"

definition add_tree :: "walk_env \<Rightarrow> string set \<Rightarrow> bool \<Rightarrow> string \<Rightarrow> string \<Rightarrow> backend \<times> string list \<Rightarrow> backend \<times> string list" where
  "add_tree env watched recursive i dir sf = fold (visit_path watched (wk_add env i) i) (walk_path recursive dir (wk_stat env i dir)) sf"

definition sweep_id :: "walk_env \<Rightarrow> string set \<Rightarrow> string \<times> watch_target \<Rightarrow> backend \<Rightarrow> backend \<times> string list" where
  "sweep_id env watched it s = fold (\<lambda>dir. add_tree env watched (is_recursive (snd it)) (fst it) dir) (declared (snd it)) (s, [])"

text \<open>Each id is told once for every path of its own that the sweep recovered.\<close>

fun sweep_ids :: "walk_env \<Rightarrow> string set \<Rightarrow> targets \<Rightarrow> backend \<Rightarrow> backend \<times> string list" where
  "sweep_ids env watched [] s = (s, [])"
| "sweep_ids env watched (it # its) s = (case sweep_id env watched it s of (s1, fired) \<Rightarrow>
     case sweep_ids env watched its s1 of (s2, ids) \<Rightarrow> (s2, replicate (length (remdups fired)) (fst it) @ ids))"

definition sweep :: "walk_env \<Rightarrow> targets \<Rightarrow> backend \<Rightarrow> backend \<times> string list" where
  "sweep env ts s = sweep_ids env (wb_watched s) ts s"

definition start_backend :: "walk_env \<Rightarrow> targets \<Rightarrow> backend" where
  "start_backend env ts = fst (sweep env ts \<lparr>wb_watched = {}, wb_ids = (\<lambda>_. {})\<rparr>)"

subsection \<open>The loop\<close>

text \<open>An event has its path, whether it created a real directory, and what the walk of that one meets.\<close>

datatype backend_input =
    Tick walk_env
  | FsEvent string bool walk_env
  | Overflow
  | WatchError
  | Dropped string

definition routed :: "targets \<Rightarrow> backend \<Rightarrow> string \<Rightarrow> string list" where
  "routed ts s name = map fst (filter (\<lambda>(i, t). i \<in> wb_ids s name \<or> i \<in> wb_ids s (path_dir name) \<and> fires_on_child t name) ts)"

definition watch_created :: "walk_env \<Rightarrow> targets \<Rightarrow> string \<Rightarrow> backend \<Rightarrow> backend" where
  "watch_created env ts name s = fst (fold (\<lambda>it. add_tree env (wb_watched s) True (fst it) name)
     (filter (\<lambda>(i, t). i \<in> wb_ids s (path_dir name) \<and> is_recursive t) ts) (s, []))"

fun backend_step :: "targets \<Rightarrow> backend_input \<Rightarrow> backend \<Rightarrow> backend \<times> string list" where
  "backend_step ts (Tick env) s = sweep env ts s"
| "backend_step ts (FsEvent name created env) s = (if created then watch_created env ts name s else s, routed ts s name)"
| "backend_step ts Overflow s = (s, map fst ts)"
| "backend_step ts WatchError s = (s, [])"
| "backend_step ts (Dropped p) s = (s\<lparr>wb_watched := wb_watched s - {p}\<rparr>, [])"

fun run_backend :: "targets \<Rightarrow> backend_input list \<Rightarrow> backend \<Rightarrow> backend" where
  "run_backend ts [] s = s"
| "run_backend ts (x # xs) s = run_backend ts xs (fst (backend_step ts x s))"

subsection \<open>What a target covers\<close>

text \<open>A path is covered by a root when it is the root, or, for a target that recurses, an entry of a covered one.\<close>

inductive covers :: "bool \<Rightarrow> string \<Rightarrow> string \<Rightarrow> bool" where
  root: "covers r d d"
| child: "covers True d p \<Longrightarrow> covers True d (join_path p n)"
| entry: "covers True d p \<Longrightarrow> path_dir q = p \<Longrightarrow> covers True d q"

lemma covers_once: "covers False d p \<Longrightarrow> p = d"
  by (auto elim: covers.cases)

lemma walk_covers: "covers r d p \<Longrightarrow> q \<in> set (walk_dirs r p n) \<Longrightarrow> covers r d q"
proof (induction r p n rule: walk_dirs.induct)
  case (3 r p listed es)
  show ?case
  proof (cases "q = p")
    case False
    with "3.prems"(2) obtain m c where c: "r" "listed" "(m, c) \<in> set es" "is_directory c" "q \<in> set (walk_dirs True (join_path p m) c)"
      by (auto split: if_splits)
    with "3.prems"(1) have "covers True d (join_path p m)" by (simp add: covers.child)
    with "3.IH" [of "(m, c)" m c] c show ?thesis by simp
  qed (use "3.prems" in simp)
qed auto

lemma walk_path_covers: "covers r d p \<Longrightarrow> q \<in> set (walk_path r p stat) \<Longrightarrow> covers r d q"
  by (auto simp: walk_path_def intro: walk_covers split: option.splits)

definition backend_ok :: "targets \<Rightarrow> backend \<Rightarrow> bool" where
  "backend_ok ts s \<longleftrightarrow> (\<forall>p. \<forall>i \<in> wb_ids s p. \<exists>t. (i, t) \<in> set ts \<and> (\<exists>d \<in> set (declared t). covers (is_recursive t) d p))"

subsection \<open>What a walk does\<close>

lemma visit_mono: "wb_ids (fst sf) p \<subseteq> wb_ids (fst (visit_path watched add i q sf)) p"
  by (auto simp: visit_path_def split: prod.split)

lemma fold_mono: "(\<And>x sf. R (fst sf) (fst (f x sf))) \<Longrightarrow> (\<And>a. R a a) \<Longrightarrow> (\<And>a b c. R a b \<Longrightarrow> R b c \<Longrightarrow> R a c) \<Longrightarrow> R (fst sf) (fst (fold f xs sf))"
  for R :: "'s \<Rightarrow> 's \<Rightarrow> bool"
proof (induction xs arbitrary: sf)
  case (Cons x xs)
  have "R (fst sf) (fst (f x sf))" "R (fst (f x sf)) (fst (fold f xs (f x sf)))" using Cons by blast+
  then show ?case using Cons.prems(3) by (metis fold_simps(2))
qed simp

text \<open>A state grows: nothing is forgotten.\<close>

definition grows :: "backend \<Rightarrow> backend \<Rightarrow> bool" where
  "grows s s' \<longleftrightarrow> wb_watched s \<subseteq> wb_watched s' \<and> (\<forall>p. wb_ids s p \<subseteq> wb_ids s' p)"

lemma grows_refl [simp, intro]: "grows s s"
  by (simp add: grows_def)

lemma grows_trans: "grows s s' \<Longrightarrow> grows s' s'' \<Longrightarrow> grows s s''"
  unfolding grows_def by blast

lemma visit_grows: "grows (fst sf) (fst (visit_path watched add i q sf))"
  by (auto simp: grows_def visit_path_def split: prod.split)

lemma tree_grows: "grows (fst sf) (fst (add_tree env watched r i d sf))"
  unfolding add_tree_def by (rule fold_mono [of grows]) (auto intro: visit_grows grows_trans)

lemma sweep_id_grows: "grows s (fst (sweep_id env watched it s))"
  using fold_mono [of grows "\<lambda>d. add_tree env watched (is_recursive (snd it)) (fst it) d" "(s, [])" "declared (snd it)"]
  by (auto simp: sweep_id_def intro: tree_grows grows_trans)

lemma sweep_ids_state: "fst (sweep_ids env watched (it # its) s) = fst (sweep_ids env watched its (fst (sweep_id env watched it s)))"
  by (simp split: prod.split)

lemma sweep_ids_grows: "grows s (fst (sweep_ids env watched its s))"
proof (induction its arbitrary: s)
  case (Cons it its)
  have "grows s (fst (sweep_id env watched it s))" by (rule sweep_id_grows)
  moreover have "grows (fst (sweep_id env watched it s)) (fst (sweep_ids env watched its (fst (sweep_id env watched it s))))" by (rule Cons.IH)
  ultimately show ?case unfolding sweep_ids_state by (rule grows_trans)
qed simp

lemma created_grows: "grows s (fst (fold (\<lambda>it. add_tree env watched True (fst it) name) its (s, [])))"
  using fold_mono [of grows "\<lambda>it. add_tree env watched True (fst it) name" "(s, [])" its] by (auto intro: tree_grows grows_trans)

subsection \<open>Associations are covered\<close>

lemma visit_ok:
  assumes "backend_ok ts (fst sf)" and "(i, t) \<in> set ts" and "d \<in> set (declared t)" and "covers (is_recursive t) d p"
  shows "backend_ok ts (fst (visit_path watched add i p sf))"
  using assms by (auto simp: backend_ok_def visit_path_def split: prod.split)

lemma visits_ok:
  assumes "backend_ok ts (fst sf)" and "(i, t) \<in> set ts" and "d \<in> set (declared t)" and "\<forall>p \<in> set ps. covers (is_recursive t) d p"
  shows "backend_ok ts (fst (fold (visit_path watched add i) ps sf))"
  using assms(1,4)
proof (induction ps arbitrary: sf)
  case (Cons p ps)
  then show ?case using visit_ok [OF Cons.prems(1) assms(2,3), of p] by simp
qed simp

lemma tree_ok:
  assumes "backend_ok ts (fst sf)" and "(i, t) \<in> set ts" and "d \<in> set (declared t)" and "covers (is_recursive t) d p"
  shows "backend_ok ts (fst (add_tree env watched (is_recursive t) i p sf))"
  unfolding add_tree_def by (rule visits_ok [OF assms(1-3)]) (use walk_path_covers [OF assms(4)] in blast)

lemma sweep_id_ok:
  assumes "backend_ok ts s" and "(i, t) \<in> set ts"
  shows "backend_ok ts (fst (sweep_id env watched (i, t) s))"
proof -
  have "set ds \<subseteq> set (declared t) \<Longrightarrow> backend_ok ts (fst sf) \<Longrightarrow>
      backend_ok ts (fst (fold (\<lambda>d. add_tree env watched (is_recursive t) i d) ds sf))" for ds sf
  proof (induction ds arbitrary: sf)
    case (Cons d ds)
    then show ?case using tree_ok [OF Cons.prems(2) assms(2), of d d] covers.root by simp
  qed simp
  from this [of "declared t" "(s, [])"] assms(1) show ?thesis by (simp add: sweep_id_def)
qed

lemma sweep_ok: "backend_ok ts s \<Longrightarrow> set its \<subseteq> set ts \<Longrightarrow> backend_ok ts (fst (sweep_ids env watched its s))"
proof (induction its arbitrary: s)
  case (Cons it its)
  have "backend_ok ts (fst (sweep_id env watched it s))" using sweep_id_ok [OF Cons.prems(1), of "fst it" "snd it"] Cons.prems(2) by simp
  with Cons show ?case unfolding sweep_ids_state by simp
qed simp

lemma created_ok:
  assumes "backend_ok ts s" and "distinct (map fst ts)"
  shows "backend_ok ts (watch_created env ts name s)"
proof -
  have "(\<forall>(i, t) \<in> set its. i \<in> wb_ids s (path_dir name) \<and> is_recursive t \<and> (i, t) \<in> set ts) \<Longrightarrow> backend_ok ts (fst sf) \<Longrightarrow>
      backend_ok ts (fst (fold (\<lambda>it. add_tree env watched True (fst it) name) its sf))" for its sf watched
  proof (induction its arbitrary: sf)
    case (Cons it its)
    obtain i t where it: "it = (i, t)" by (cases it)
    from Cons.prems(1) it have m: "i \<in> wb_ids s (path_dir name)" "is_recursive t" "(i, t) \<in> set ts" by auto
    with assms obtain d where d: "d \<in> set (declared t)" "covers True d (path_dir name)"
      unfolding backend_ok_def by (metis eq_key_imp_eq_value)
    then have "covers True d name" by (auto intro: covers.entry)
    with tree_ok [OF Cons.prems(2) m(3) d(1), of name] m(2) have "backend_ok ts (fst (add_tree env watched True i name sf))" by simp
    with Cons it show ?case by simp
  qed simp
  from this [of "filter (\<lambda>(i, t). i \<in> wb_ids s (path_dir name) \<and> is_recursive t) ts" "(s, [])" "wb_watched s"] assms(1)
  show ?thesis by (simp add: watch_created_def)
qed

lemma start_ok: "backend_ok ts (start_backend env ts)"
  unfolding start_backend_def sweep_def by (rule sweep_ok) (simp_all add: backend_ok_def)

lemma step_ok: "backend_ok ts s \<Longrightarrow> distinct (map fst ts) \<Longrightarrow> backend_ok ts (fst (backend_step ts x s))"
  by (cases x) (auto simp: sweep_def intro: sweep_ok created_ok, simp add: backend_ok_def)

lemma run_ok: "backend_ok ts s \<Longrightarrow> distinct (map fst ts) \<Longrightarrow> backend_ok ts (run_backend ts xs s)"
  by (induction ts xs s rule: run_backend.induct) (simp_all add: step_ok)

text \<open>Whatever the file system and the watcher do, an event on a path tells an id at most once, and only if its target covers
  the path: a recursive one by a root above it, one with names by being a root or by lying directly in one under a listed
  name.\<close>
theorem fires_only_covered:
  assumes "distinct (map fst ts)" and "i \<in> set (snd (backend_step ts (FsEvent name created env) (run_backend ts xs (start_backend env0 ts))))"
  shows "\<exists>t d. (i, t) \<in> set ts \<and> d \<in> set (declared t) \<and>
    (name = d \<or> (if is_recursive t then covers True d name else path_dir name = d \<and> path_base name \<in> set (wt_names t)))"
proof -
  let ?s = "run_backend ts xs (start_backend env0 ts)"
  have ok: "backend_ok ts ?s" by (rule run_ok [OF start_ok assms(1)])
  from assms(2) obtain t where t: "(i, t) \<in> set ts" "i \<in> wb_ids ?s name \<or> i \<in> wb_ids ?s (path_dir name) \<and> fires_on_child t name"
    by (auto simp: routed_def)
  have c: "\<exists>d \<in> set (declared t). covers (is_recursive t) d p" if "i \<in> wb_ids ?s p" for p
  proof -
    from ok that obtain t' d where "(i, t') \<in> set ts" "d \<in> set (declared t')" "covers (is_recursive t') d p" unfolding backend_ok_def by blast
    moreover from this(1) t(1) assms(1) have "t' = t" by (rule eq_key_imp_eq_value [rotated])
    ultimately show ?thesis by blast
  qed
  show ?thesis
  proof (cases "is_recursive t")
    case True
    with t(2) c obtain d where "d \<in> set (declared t)" "covers True d name" by (metis (full_types) covers.entry)
    with t(1) True show ?thesis by auto
  next
    case False
    with t(2) c [of name] c [of "path_dir name"] covers_once
    have "\<exists>d \<in> set (declared t). name = d \<or> path_dir name = d \<and> path_base name \<in> set (wt_names t)" by (auto simp: fires_on_child_def dest!: covers_once)
    with t(1) False show ?thesis by auto
  qed
qed

subsection \<open>What a sweep reaches\<close>

definition has_path :: "string \<Rightarrow> string \<Rightarrow> backend \<Rightarrow> bool" where
  "has_path i p s \<longleftrightarrow> p \<in> wb_watched s \<and> i \<in> wb_ids s p"

lemma has_path_grows: "has_path i p s \<Longrightarrow> grows s s' \<Longrightarrow> has_path i p s'"
  by (auto simp: has_path_def grows_def)

definition extends_fired :: "backend \<times> string list \<Rightarrow> backend \<times> string list \<Rightarrow> bool" where
  "extends_fired a b \<longleftrightarrow> set (snd a) \<subseteq> set (snd b)"

lemma visit_fired: "set (snd sf) \<subseteq> set (snd (visit_path watched add i q sf))"
  by (auto simp: visit_path_def split: prod.split)

lemma visits_fired: "set (snd sf) \<subseteq> set (snd (fold (visit_path watched add i) ps sf))"
proof (induction ps arbitrary: sf)
  case (Cons p ps)
  from visit_fired [of sf watched add i p] Cons [of "visit_path watched add i p sf"] show ?case by simp
qed simp

lemma visits_reach:
  assumes "\<forall>p. add p" and "watched \<subseteq> wb_watched (fst sf)" and "p \<in> set ps"
  shows "has_path i p (fst (fold (visit_path watched add i) ps sf)) \<and> (p \<notin> watched \<longrightarrow> p \<in> set (snd (fold (visit_path watched add i) ps sf)))"
  using assms(2,3)
proof (induction ps arbitrary: sf)
  case (Cons q ps)
  let ?sf = "visit_path watched add i q sf"
  have g: "grows (fst ?sf) (fst (fold (visit_path watched add i) ps ?sf))"
    by (rule fold_mono [of grows]) (auto intro: visit_grows grows_trans)
  have w: "watched \<subseteq> wb_watched (fst ?sf)" using Cons.prems(1) visit_grows [of sf watched add i q] by (auto simp: grows_def)
  show ?case
  proof (cases "p = q")
    case True
    have "has_path i p (fst ?sf)" "p \<notin> watched \<longrightarrow> p \<in> set (snd ?sf)"
      using assms(1) Cons.prems(1) True by (auto simp: has_path_def visit_path_def split: prod.splits)
    then show ?thesis using has_path_grows [OF _ g] visits_fired [of ?sf watched add i ps] by auto
  next
    case False
    with Cons w show ?thesis by simp
  qed
qed simp

lemma tree_fired: "set (snd sf) \<subseteq> set (snd (add_tree env watched r i d sf))"
  unfolding add_tree_def by (rule visits_fired)

lemma trees_fired: "set (snd sf) \<subseteq> set (snd (fold (\<lambda>d. add_tree env watched r i d) ds sf))"
proof (induction ds arbitrary: sf)
  case (Cons d ds)
  from tree_fired [of sf env watched r i d] Cons [of "add_tree env watched r i d sf"] show ?case by simp
qed simp

lemma trees_reach:
  assumes "\<forall>i p. wk_add env i p" and "watched \<subseteq> wb_watched (fst sf)" and "d \<in> set ds" and "p \<in> set (walk_path r d (wk_stat env i d))"
  shows "has_path i p (fst (fold (\<lambda>d. add_tree env watched r i d) ds sf)) \<and>
    (p \<notin> watched \<longrightarrow> p \<in> set (snd (fold (\<lambda>d. add_tree env watched r i d) ds sf)))"
  using assms(2,3)
proof (induction ds arbitrary: sf)
  case (Cons e ds)
  let ?sf = "add_tree env watched r i e sf"
  have g: "grows (fst ?sf) (fst (fold (\<lambda>d. add_tree env watched r i d) ds ?sf))"
    by (rule fold_mono [of grows]) (auto intro: tree_grows grows_trans)
  have w: "watched \<subseteq> wb_watched (fst ?sf)" using Cons.prems(1) tree_grows [of sf env watched r i e] by (auto simp: grows_def)
  show ?case
  proof (cases "d = e")
    case True
    have "has_path i p (fst ?sf) \<and> (p \<notin> watched \<longrightarrow> p \<in> set (snd ?sf))"
      unfolding add_tree_def by (rule visits_reach) (use assms(1,4) Cons.prems(1) True in auto)
    then show ?thesis using has_path_grows [OF _ g] trees_fired [of ?sf env watched r i ds] by auto
  next
    case False
    with Cons w show ?thesis by simp
  qed
qed simp

lemma sweep_reaches:
  assumes "\<forall>i p. wk_add env i p" and "(i, t) \<in> set its" and "d \<in> set (declared t)" and "p \<in> set (walk_path (is_recursive t) d (wk_stat env i d))"
    and "watched \<subseteq> wb_watched s"
  shows "has_path i p (fst (sweep_ids env watched its s)) \<and> (p \<notin> watched \<longrightarrow> i \<in> set (snd (sweep_ids env watched its s)))"
  using assms(2,5)
proof (induction its arbitrary: s)
  case (Cons it its)
  obtain s1 fired where a: "sweep_id env watched it s = (s1, fired)" by (metis surj_pair)
  obtain s2 ids where b: "sweep_ids env watched its s1 = (s2, ids)" by (metis surj_pair)
  have g: "grows s1 s2" using sweep_ids_grows [of s1 env watched its] b by simp
  have w: "watched \<subseteq> wb_watched s1" using Cons.prems(2) sweep_id_grows [of s env watched it] a by (auto simp: grows_def)
  show ?case
  proof (cases "it = (i, t)")
    case True
    have "has_path i p s1 \<and> (p \<notin> watched \<longrightarrow> p \<in> set fired)"
      using trees_reach [OF assms(1), of watched "(s, [])" d "declared t" p "is_recursive t" i] a True assms(3,4) Cons.prems(2)
      by (simp add: sweep_id_def)
    moreover have "p \<in> set fired \<Longrightarrow> length (remdups fired) \<noteq> 0" by (metis length_0_conv remdups_eq_nil_iff empty_iff list.set(1))
    ultimately show ?thesis using a b True has_path_grows [OF _ g] by (auto simp: in_set_replicate)
  next
    case False
    with Cons.prems(1) have "(i, t) \<in> set its" by auto
    from Cons.IH [OF this w] a b show ?thesis by auto
  qed
qed simp

lemma step_ids: "wb_ids s p \<subseteq> wb_ids (fst (backend_step ts x s)) p"
  using sweep_ids_grows created_grows
  by (cases x) (fastforce simp: sweep_def watch_created_def grows_def)+

lemma run_ids: "wb_ids s p \<subseteq> wb_ids (run_backend ts xs s) p"
proof (induction ts xs s rule: run_backend.induct)
  case (2 ts x xs s)
  with step_ids [of s p ts x] show ?case by auto
qed simp


text \<open>The fast path: an event that creates a directory under a recursive target watches all of it at once, before its owner is
  told.\<close>

lemma created_reaches:
  assumes "\<forall>i p. wk_add env i p" and "(i, t) \<in> set its" and "p \<in> set (walk_path True name (wk_stat env i name))" and "watched \<subseteq> wb_watched (fst sf)"
  shows "has_path i p (fst (fold (\<lambda>it. add_tree env watched True (fst it) name) its sf))"
  using assms(2,4)
proof (induction its arbitrary: sf)
  case (Cons it its)
  let ?sf = "add_tree env watched True (fst it) name sf"
  have g: "grows (fst ?sf) (fst (fold (\<lambda>it. add_tree env watched True (fst it) name) its ?sf))"
    by (rule fold_mono [of grows]) (auto intro: tree_grows grows_trans)
  have w: "watched \<subseteq> wb_watched (fst ?sf)" using Cons.prems(2) tree_grows [of sf env watched True "fst it" name] by (auto simp: grows_def)
  show ?case
  proof (cases "it = (i, t)")
    case True
    have "has_path i p (fst ?sf)" unfolding add_tree_def
      using visits_reach [of "wk_add env i" watched sf p "walk_path True name (wk_stat env i name)" i] assms(1,3) Cons.prems(2) True by simp
    with has_path_grows [OF this g] show ?thesis by simp
  next
    case False
    with Cons.prems(1) have "(i, t) \<in> set its" by auto
    from Cons.IH [OF this w] show ?thesis by simp
  qed
qed simp

theorem created_tree_watched:
  assumes "\<forall>i p. wk_add env i p" and "(i, t) \<in> set ts" and "is_recursive t" and "i \<in> wb_ids s (path_dir name)"
    and "p \<in> set (walk_path True name (wk_stat env i name))"
  shows "let (s', fired) = backend_step ts (FsEvent name True env) s in p \<in> wb_watched s' \<and> i \<in> wb_ids s' p \<and> i \<in> set fired"
proof -
  have "(i, t) \<in> set (filter (\<lambda>(i, t). i \<in> wb_ids s (path_dir name) \<and> is_recursive t) ts)" using assms(2-4) by simp
  from created_reaches [OF assms(1) this assms(5), of "wb_watched s" "(s, [])"]
  have "has_path i p (watch_created env ts name s)" by (simp add: watch_created_def)
  moreover have "i \<in> set (routed ts s name)" using assms(2-4) by (force simp: routed_def fires_on_child_def)
  ultimately show ?thesis by (simp add: has_path_def)
qed

text \<open>A sweep that finds only what is watched changes nothing and tells nobody.\<close>

lemma visit_known: "has_path i p (fst sf) \<Longrightarrow> p \<in> watched \<Longrightarrow> visit_path watched add i p sf = sf"
  by (cases sf) (auto simp: visit_path_def has_path_def insert_absorb)

lemma visits_known: "\<forall>p \<in> set ps. has_path i p (fst sf) \<and> p \<in> watched \<Longrightarrow> fold (visit_path watched add i) ps sf = sf"
  by (induction ps) (simp_all add: visit_known)

theorem steady_sweep_quiet:
  assumes "\<And>i t d p. (i, t) \<in> set ts \<Longrightarrow> d \<in> set (declared t) \<Longrightarrow> p \<in> set (walk_path (is_recursive t) d (wk_stat env i d)) \<Longrightarrow>
    p \<in> wb_watched s \<and> i \<in> wb_ids s p"
  shows "backend_step ts (Tick env) s = (s, [])"
proof -
  have tree: "add_tree env (wb_watched s) (is_recursive t) i d (s, []) = (s, [])" if "(i, t) \<in> set ts" "d \<in> set (declared t)" for i t d
    unfolding add_tree_def by (rule visits_known) (use assms [OF that] in \<open>simp add: has_path_def\<close>)
  have id: "sweep_id env (wb_watched s) (i, t) s = (s, [])" if "(i, t) \<in> set ts" for i t
  proof -
    have "set ds \<subseteq> set (declared t) \<Longrightarrow> fold (\<lambda>d. add_tree env (wb_watched s) (is_recursive t) i d) ds (s, []) = (s, [])" for ds
      by (induction ds) (simp_all add: tree [OF that])
    then show ?thesis by (simp add: sweep_id_def)
  qed
  have "set its \<subseteq> set ts \<Longrightarrow> sweep_ids env (wb_watched s) its s = (s, [])" for its
    by (induction its) (auto simp: id)
  from this [of ts] show ?thesis by (simp add: sweep_def)
qed

subsection \<open>Instances\<close>

text \<open>A recursive target over a tree with a nested directory, and one that asks for a name in the same root.\<close>

definition sample_targets :: targets where
  "sample_targets = [(''repo'', \<lparr>wt_dirs = [''/w/''], wt_names = []\<rparr>), (''conf'', \<lparr>wt_dirs = [''/w''], wt_names = [''a.json'']\<rparr>)]"

definition sample_tree :: walk_env where
  "sample_tree = \<lparr>wk_stat = (\<lambda>_ p. if p = ''/w'' then Some (Directory True [(''x'', Directory True []), (''a.json'', RegularFile)])
      else if p = ''/w/y'' then Some (Directory True [(''z'', Directory True [])]) else None), wk_add = (\<lambda>_ _. True)\<rparr>"

lemma sample_paths: "clean_path ''/w/'' = ''/w''" "clean_path ''/w'' = ''/w''" "path_dir ''/w/a.json'' = ''/w''" "path_dir ''/w/y'' = ''/w''"
  "path_base ''/w/a.json'' = ''a.json''" "join_path ''/w'' ''x'' = ''/w/x''" "join_path ''/w/y'' ''z'' = ''/w/y/z''"
  by code_simp+

lemma sample_walk: "walk_path r ''/w'' (wk_stat sample_tree i ''/w'') = (if r then [''/w'', ''/w/x''] else [''/w''])"
  "walk_path True ''/w/y'' (wk_stat sample_tree i ''/w/y'') = [''/w/y'', ''/w/y/z'']"
  by (simp_all add: walk_path_def sample_tree_def is_directory_def sample_paths)

lemma sample_fires:
  "snd (backend_step sample_targets (FsEvent ''/w/a.json'' False sample_tree) (run_backend sample_targets [] (start_backend sample_tree sample_targets))) = [''repo'', ''conf'']"
  by code_simp

theorem fires_only_covered_witness:
  "\<exists>t d. (''conf'', t) \<in> set sample_targets \<and> d \<in> set (declared t) \<and> (''/w/a.json'' = d \<or>
     (if is_recursive t then covers True d ''/w/a.json'' else path_dir ''/w/a.json'' = d \<and> path_base ''/w/a.json'' \<in> set (wt_names t)))"
proof -
  have "distinct (map fst sample_targets)" by (simp add: sample_targets_def)
  from fires_only_covered [OF this, of "''conf''" "''/w/a.json''" False sample_tree "[]" sample_tree, unfolded sample_fires] show ?thesis by simp
qed


theorem created_tree_watched_witness:
  "let (s, fired) = backend_step sample_targets (FsEvent ''/w/y'' True sample_tree) (start_backend sample_tree sample_targets) in
    ''/w/y/z'' \<in> wb_watched s \<and> ''repo'' \<in> wb_ids s ''/w/y/z'' \<and> ''repo'' \<in> set fired"
proof -
  let ?t = "\<lparr>wt_dirs = [''/w/''], wt_names = []\<rparr>"
  have "''repo'' \<in> wb_ids (start_backend sample_tree sample_targets) (path_dir ''/w/y'')" by code_simp
  then show ?thesis
    using created_tree_watched [of sample_tree "''repo''" ?t sample_targets "start_backend sample_tree sample_targets" "''/w/y''" "''/w/y/z''"]
    by (simp add: sample_walk is_recursive_def) (simp add: sample_tree_def sample_targets_def)
qed

theorem steady_sweep_quiet_witness:
  "backend_step sample_targets (Tick sample_tree) (start_backend sample_tree sample_targets) = (start_backend sample_tree sample_targets, [])"
proof (rule steady_sweep_quiet)
  fix i t d p assume "(i, t) \<in> set sample_targets" and "d \<in> set (declared t)" and "p \<in> set (walk_path (is_recursive t) d (wk_stat sample_tree i d))"
  moreover have "(\<forall>p \<in> {''/w'', ''/w/x''}. p \<in> wb_watched (start_backend sample_tree sample_targets) \<and> ''repo'' \<in> wb_ids (start_backend sample_tree sample_targets) p) \<and>
     ''conf'' \<in> wb_ids (start_backend sample_tree sample_targets) ''/w''" by code_simp
  ultimately show "p \<in> wb_watched (start_backend sample_tree sample_targets) \<and> i \<in> wb_ids (start_backend sample_tree sample_targets) p"
    by (auto simp: sample_targets_def declared_def sample_paths sample_walk is_recursive_def)
qed

end
